(* ===== verification/Ecs_Prelude.thy ===== *)
theory Ecs_Prelude
  imports Main "HOL-Library.Word"
begin

text \<open>
  Shared vocabulary of the development: the machine integer types, the result type that
  makes every assertion and every out-of-range memory access of the C code a value, checked
  array access, and the bit-smearing arithmetic that several containers of
  src/pulse\_app/flecs use to round up to a power of two.
\<close>

unbundle bit_operations_syntax

section \<open>Integers, errors and results\<close>

type_synonym u64 = "64 word"
type_synonym u32 = "32 word"
type_synonym u8 = "8 word"
type_synonym i32 = "32 word" \<comment> \<open>read with sint\<close>

text \<open>
  The error codes that the modelled code passes to ecs\_assert and ecs\_check, and three that
  are not codes of the program: \<open>MEMORY_FAULT\<close> is an access outside an allocated array or
  through a null pointer, \<open>INT_RANGE\<close> a counter that leaves the range the model keeps it
  in (a negative count), \<open>OUT_OF_FUEL\<close> the end of the fuel of a loop, which the theorems
  about that loop exclude.
\<close>

datatype ecs_error =
    ECS_INVALID_OPERATION
  | ECS_INVALID_PARAMETER
  | ECS_OUT_OF_RANGE
  | ECS_INTERNAL_ERROR
  | ECS_INVALID_CONVERSION
  | ECS_DOUBLE_FREE
  | ECS_LEAK_DETECTED
  | ECS_UNSUPPORTED
  | ECS_LOCKED_STORAGE
  | ECS_ALREADY_IN_USE
  | ECS_INCONSISTENT_COMPONENT_ACTION
  | ECS_CONSTRAINT_VIOLATED
  | MEMORY_FAULT
  | INT_RANGE
  | OUT_OF_FUEL

type_synonym 'a res = "ecs_error + 'a"

text \<open>
  Sequencing of fallible steps, and the macro ecs\_assert in a debug build: it aborts the
  process when the condition is false, and the code after it runs otherwise.
\<close>

definition res_bind :: "'a res \<Rightarrow> ('a \<Rightarrow> 'b res) \<Rightarrow> 'b res" where
  "res_bind m f = (case m of Inl e \<Rightarrow> Inl e | Inr x \<Rightarrow> f x)"

definition ecs_assert :: "bool \<Rightarrow> ecs_error \<Rightarrow> 'a res \<Rightarrow> 'a res" where
  "ecs_assert c e k = (if c then k else Inl e)"

definition mem_get :: "'a list \<Rightarrow> nat \<Rightarrow> 'a res" where
  "mem_get xs i = (if i < length xs then Inr (xs ! i) else Inl MEMORY_FAULT)"

definition mem_set :: "'a list \<Rightarrow> nat \<Rightarrow> 'a \<Rightarrow> 'a list res" where
  "mem_set xs i x = (if i < length xs then Inr (xs[i := x]) else Inl MEMORY_FAULT)"

definition deref :: "'a option \<Rightarrow> 'a res" where
  "deref p = (case p of None \<Rightarrow> Inl MEMORY_FAULT | Some x \<Rightarrow> Inr x)"

text \<open>A signed index into an array, and a loop over a list whose body can fail.\<close>

definition int_index :: "int \<Rightarrow> nat res" where
  "int_index i = (if i < 0 then Inl MEMORY_FAULT else Inr (nat i))"

fun res_fold :: "('s \<Rightarrow> 'a \<Rightarrow> 's res) \<Rightarrow> 's \<Rightarrow> 'a list \<Rightarrow> 's res" where
  "res_fold f s [] = Inr s"
| "res_fold f s (x # xs) = res_bind (f s x) (\<lambda>s. res_fold f s xs)"

text \<open>Memory that realloc has not initialised, as the debug fill pattern.\<close>

definition uninit_u64 :: u64 where "uninit_u64 = 0xAAAAAAAAAAAAAAAA"

text \<open>The null pointer is the zero of a type of pointers.\<close>

instantiation option :: (type) zero
begin

definition zero_option :: "'a option" where "zero_option = None"

instance ..

end

text \<open>The rules that run a chain of steps forwards, and those that take one apart.\<close>

named_theorems res_simps "evaluation of results"
named_theorems res_elims "inversion of results"

lemma res_bind_simps [simp, res_simps]:
  "res_bind (Inr x) f = f x"
  "res_bind (Inl e) f = Inl e"
  by (simp_all add: res_bind_def)

lemma res_bind_Inr_iff [res_elims]:
  "res_bind m f = Inr y \<longleftrightarrow> (\<exists>x. m = Inr x \<and> f x = Inr y)"
  by (cases m) auto

lemma res_bindE:
  assumes "res_bind m f = Inr y"
  obtains x where "m = Inr x" "f x = Inr y"
  using assms by (auto simp: res_elims)

lemma res_bind_cong:
  "m = m' \<Longrightarrow> (\<And>x. m' = Inr x \<Longrightarrow> f x = f' x) \<Longrightarrow> res_bind m f = res_bind m' f'"
  by (cases m') auto

lemma res_bind_assoc: "res_bind (res_bind m f) g = res_bind m (\<lambda>x. res_bind (f x) g)"
  by (cases m) auto

lemma ecs_assert_simps [simp, res_simps]:
  "c \<Longrightarrow> ecs_assert c e k = k"
  "\<not> c \<Longrightarrow> ecs_assert c e k = Inl e"
  by (simp_all add: ecs_assert_def)

lemma ecs_assert_Inr_iff [res_elims]:
  "ecs_assert c e k = Inr y \<longleftrightarrow> c \<and> k = Inr y"
  by (simp add: ecs_assert_def)

lemma mem_get_simps [simp, res_simps]:
  "i < length xs \<Longrightarrow> mem_get xs i = Inr (xs ! i)"
  "length xs \<le> i \<Longrightarrow> mem_get xs i = Inl MEMORY_FAULT"
  by (simp_all add: mem_get_def)

lemma mem_get_Inr_iff [res_elims]:
  "mem_get xs i = Inr y \<longleftrightarrow> i < length xs \<and> y = xs ! i"
  by (auto simp: mem_get_def)

lemma mem_set_simps [simp, res_simps]:
  "i < length xs \<Longrightarrow> mem_set xs i x = Inr (xs[i := x])"
  "length xs \<le> i \<Longrightarrow> mem_set xs i x = Inl MEMORY_FAULT"
  by (simp_all add: mem_set_def)

lemma mem_set_Inr_iff [res_elims]:
  "mem_set xs i x = Inr ys \<longleftrightarrow> i < length xs \<and> ys = xs[i := x]"
  by (auto simp: mem_set_def)

lemma deref_simps [simp, res_simps]:
  "deref (Some x) = Inr x"
  "deref None = Inl MEMORY_FAULT"
  by (simp_all add: deref_def)

lemma deref_Inr_iff [res_elims]: "deref p = Inr x \<longleftrightarrow> p = Some x"
  by (cases p) auto

lemma int_index_simps [simp, res_simps]:
  "int_index (int n) = Inr n"
  "0 \<le> i \<Longrightarrow> int_index i = Inr (nat i)"
  "i < 0 \<Longrightarrow> int_index i = Inl MEMORY_FAULT"
  by (simp_all add: int_index_def)

lemma res_fold_invariant:
  assumes "I s" and "\<And>s x. x \<in> set xs \<Longrightarrow> I s \<Longrightarrow> \<exists>s'. f s x = Inr s' \<and> I s'"
  shows "\<exists>s'. res_fold f s xs = Inr s' \<and> I s'"
  using assms
proof (induction xs arbitrary: s)
  case (Cons x xs)
  then obtain s1 where s1: "f s x = Inr s1" "I s1" by (meson list.set_intros(1))
  from s1(2) Cons.prems(2) have "\<exists>s'. res_fold f s1 xs = Inr s' \<and> I s'"
    by (intro Cons.IH) auto
  with s1(1) show ?case by simp
qed simp

lemma res_fold_append:
  "res_fold f s (xs @ ys) = res_bind (res_fold f s xs) (\<lambda>s. res_fold f s ys)"
  by (induction xs arbitrary: s) (simp_all add: res_bind_assoc)

lemma res_fold_concat: "res_fold (res_fold f) s xss = res_fold f s (concat xss)"
  by (induction xss arbitrary: s) (simp_all add: res_fold_append)

section \<open>Lists\<close>

lemma take_list_update_last:
  "n < length xs \<Longrightarrow> take (Suc n) (xs[n := x]) = take n xs @ [x]"
  by (simp add: take_Suc_conv_app_nth)

lemma nth_eq_iff_index: "distinct xs \<Longrightarrow> i < length xs \<Longrightarrow> j < length xs \<Longrightarrow> xs ! i = xs ! j \<longleftrightarrow> i = j"
  by (rule nth_eq_iff_index_eq)

lemma foldl_invariant:
  assumes "P a" and "\<And>a x. P a \<Longrightarrow> x \<in> set xs \<Longrightarrow> P (f a x)"
  shows "P (foldl f a xs)"
  using assms by (induction xs arbitrary: a) auto

lemma foldl_foldl_concat:
  "foldl (\<lambda>a ys. foldl f a ys) a xss = foldl f a (concat xss)"
  by (induction xss arbitrary: a) auto

section \<open>Rounding up to a power of two\<close>

text \<open>
  misc.c, flecs\_next\_pow\_of\_2: all bits below the highest set bit are filled by or-ing
  the number with its own right shifts. The shifts are arithmetic, the type is int32\_t.
\<close>

definition smear_signed :: "nat \<Rightarrow> i32 \<Rightarrow> i32" where
  "smear_signed k n = n OR signed_drop_bit k n"

definition flecs_next_pow_of_2 :: "i32 \<Rightarrow> i32" where
  "flecs_next_pow_of_2 n =
     (let n = n - 1;
          n = smear_signed 1 n;
          n = smear_signed 2 n;
          n = smear_signed 4 n;
          n = smear_signed 8 n;
          n = smear_signed 16 n
      in n + 1)"

definition smear :: "nat \<Rightarrow> u32 \<Rightarrow> u32" where
  "smear k v = v OR drop_bit k v"

definition smear_all :: "u32 \<Rightarrow> u32" where
  "smear_all v = smear 16 (smear 8 (smear 4 (smear 2 (smear 1 v))))"

lemma bit_smear: "bit (smear k v) i \<longleftrightarrow> bit v i \<or> bit v (i + k)"
  by (simp add: smear_def bit_or_iff bit_drop_bit_eq add.commute)

lemma bit_smear_all: "bit (smear_all v) i \<longleftrightarrow> (\<exists>d<32. bit v (i + d))"
proof -
  have step: "(\<exists>d<n. bit v (i + d)) \<or> (\<exists>d<n. bit v (i + n + d)) \<longleftrightarrow> (\<exists>d<n + n. bit v (i + d))"
    for n i
  proof
    assume "(\<exists>d<n. bit v (i + d)) \<or> (\<exists>d<n. bit v (i + n + d))"
    then show "\<exists>d<n + n. bit v (i + d)"
      by (metis add.assoc add_less_cancel_left trans_less_add1)
  next
    assume "\<exists>d<n + n. bit v (i + d)"
    then obtain d where d: "d < n + n" "bit v (i + d)" by blast
    show "(\<exists>d<n. bit v (i + d)) \<or> (\<exists>d<n. bit v (i + n + d))"
    proof (cases "d < n")
      case True
      with d show ?thesis by blast
    next
      case False
      then have "d - n < n" "i + n + (d - n) = i + d" using d by auto
      with d show ?thesis by metis
    qed
  qed
  have s1: "bit (smear 1 v) i \<longleftrightarrow> (\<exists>d<2. bit v (i + d))" for i
    by (auto simp: bit_smear less_2_cases_iff)
  have s2: "bit (smear 2 (smear 1 v)) i \<longleftrightarrow> (\<exists>d<4. bit v (i + d))" for i
    using step[of 2 i] unfolding bit_smear[of 2] s1 by simp
  have s3: "bit (smear 4 (smear 2 (smear 1 v))) i \<longleftrightarrow> (\<exists>d<8. bit v (i + d))" for i
    using step[of 4 i] unfolding bit_smear[of 4] s2 by simp
  have s4: "bit (smear 8 (smear 4 (smear 2 (smear 1 v)))) i \<longleftrightarrow> (\<exists>d<16. bit v (i + d))" for i
    using step[of 8 i] unfolding bit_smear[of 8] s3 by simp
  show ?thesis
    using step[of 16 i] unfolding smear_all_def bit_smear[of 16] s4 by simp
qed

lemma bit_word_ge_pow:
  fixes v :: u32
  assumes "2 ^ b \<le> unat v" and "unat v < 2 ^ Suc b"
  shows "bit v b" and "\<And>j. b < j \<Longrightarrow> \<not> bit v j"
proof -
  have "unat v div 2 ^ b = 1"
    using assms by (simp add: div_nat_eqI)
  then have "bit (unat v) b"
    by (simp add: bit_iff_odd)
  then show "bit v b"
    by (simp add: bit_unsigned_iff)
  fix j
  assume "b < j"
  then have "(2::nat) ^ Suc b \<le> 2 ^ j"
    by (intro power_increasing) auto
  with assms have "unat v div 2 ^ j = 0"
    by simp
  then have "\<not> bit (unat v) j"
    by (simp add: bit_iff_odd)
  then show "\<not> bit v j"
    by (simp add: bit_unsigned_iff)
qed

lemma smear_all_mask:
  assumes "2 ^ b \<le> unat v" and "unat v < 2 ^ Suc b" and "b < 32"
  shows "smear_all v = mask (Suc b)"
proof (rule bit_word_eqI)
  fix i
  assume i: "i < LENGTH(32)"
  note v = bit_word_ge_pow[OF assms(1,2)]
  show "bit (smear_all v) i \<longleftrightarrow> bit (mask (Suc b) :: u32) i"
  proof (cases "i \<le> b")
    case True
    then have "b - i < 32" and "bit v (i + (b - i))"
      using v(1) assms(3) by auto
    then have "bit (smear_all v) i"
      unfolding bit_smear_all by blast
    with True i show ?thesis
      by (simp add: bit_mask_iff)
  next
    case False
    then have "\<not> bit (smear_all v) i"
      by (simp add: bit_smear_all v(2))
    with False show ?thesis
      by (simp add: bit_mask_iff)
  qed
qed

lemma smear_all_0: "smear_all 0 = 0"
  by (simp add: smear_all_def smear_def)

lemma smear_signed_nonneg:
  assumes "\<not> bit n 31"
  shows "smear_signed k n = smear k n" and "\<not> bit (smear_signed k n) 31"
proof -
  have "signed_drop_bit k n = drop_bit k n"
  proof (rule bit_word_eqI)
    fix i
    assume i: "i < LENGTH(32)"
    have high: "\<not> bit n j" if "31 \<le> j" for j
    proof (cases "j = 31")
      case False
      with that have "\<not> j < LENGTH(32)" by simp
      then show ?thesis using bit_imp_le_length by blast
    qed (use assms in simp)
    show "bit (signed_drop_bit k n) i \<longleftrightarrow> bit (drop_bit k n) i"
    proof (cases "LENGTH(32) - k \<le> i")
      case True
      then have "31 \<le> k + i" by simp
      then have "\<not> bit (drop_bit k n) i" by (simp add: bit_drop_bit_eq high)
      moreover have "bit (signed_drop_bit k n) i \<longleftrightarrow> bit n (LENGTH(32) - 1)"
        using True i by (simp only: bit_signed_drop_bit_iff simp_thms if_True)
      ultimately show ?thesis using assms by simp
    next
      case False
      then show ?thesis by (simp add: bit_signed_drop_bit_iff bit_drop_bit_eq)
    qed
  qed
  then show eq: "smear_signed k n = smear k n"
    by (simp add: smear_signed_def smear_def)
  have "\<not> bit n (31 + k)"
    using assms bit_imp_le_length[of n "31 + k"] by (cases k) auto
  with assms show "\<not> bit (smear_signed k n) 31"
    unfolding eq bit_smear by simp
qed

lemma flecs_next_pow_of_2_smear:
  assumes "\<not> bit (n - 1) 31"
  shows "flecs_next_pow_of_2 n = smear_all (n - 1) + 1"
proof -
  note s = smear_signed_nonneg
  let ?v1 = "smear 1 (n - 1)"
  let ?v2 = "smear 2 ?v1"
  let ?v3 = "smear 4 ?v2"
  let ?v4 = "smear 8 ?v3"
  have 1: "\<not> bit ?v1 31" using s[OF assms, of 1] by metis
  have 2: "\<not> bit ?v2 31" using s[OF 1, of 2] by metis
  have 3: "\<not> bit ?v3 31" using s[OF 2, of 4] by metis
  have 4: "\<not> bit ?v4 31" using s[OF 3, of 8] by metis
  show ?thesis
    unfolding flecs_next_pow_of_2_def Let_def smear_all_def
      s(1)[OF assms] s(1)[OF 1] s(1)[OF 2] s(1)[OF 3] s(1)[OF 4] ..
qed

lemma nat_bracket_pow2:
  assumes "0 < (m::nat)"
  obtains b where "2 ^ b \<le> m" and "m < 2 ^ Suc b"
proof -
  have "m < 2 ^ m" by simp
  then have ex: "\<exists>b. m < 2 ^ b" by blast
  define b where "b = (LEAST b. m < 2 ^ b)"
  have lt: "m < 2 ^ b" unfolding b_def using ex by (rule LeastI_ex)
  with assms obtain c where c: "b = Suc c" by (cases b) auto
  have "\<not> m < 2 ^ c"
    using not_less_Least[of c "\<lambda>b. m < 2 ^ b"] c unfolding b_def by simp
  with lt c show thesis by (intro that[of c]) auto
qed

text \<open>
  The int32\_t round-up on the model's integers: the argument is narrowed, the result read
  as signed. For arguments from 1 to 2\^30 it is the least power of two that is not smaller;
  above that the result is negative, because the next power of two is not an int32\_t.
\<close>

definition next_pow2 :: "int \<Rightarrow> int" where
  "next_pow2 n = sint (flecs_next_pow_of_2 (word_of_int n))"

lemma not_sign_bit:
  fixes w :: u32
  assumes "unat w < 2 ^ 31"
  shows "\<not> bit w 31"
proof
  assume "bit w 31"
  then have "bit (unat w) 31"
    by (simp add: bit_unsigned_iff)
  then have "odd (unat w div 2 ^ 31)"
    unfolding bit_iff_odd .
  then show False
    using assms by simp
qed

lemma next_pow2_smear:
  assumes "1 \<le> n" and "n < 2 ^ 31"
  defines "w \<equiv> (word_of_nat (nat (n - 1)) :: u32)"
  shows "next_pow2 n = sint (smear_all w + 1)" and "unat w = nat (n - 1)"
proof -
  have m: "nat (n - 1) < 2 ^ 31" using assms by simp
  then show unat: "unat w = nat (n - 1)"
    by (simp add: w_def unat_of_nat)
  have "word_of_int n - 1 = w"
    using assms by (simp add: w_def of_nat_nat)
  moreover have "\<not> bit w 31"
    using m by (intro not_sign_bit) (simp add: unat)
  ultimately show "next_pow2 n = sint (smear_all w + 1)"
    using flecs_next_pow_of_2_smear[of "word_of_int n"] by (simp add: next_pow2_def)
qed

lemma next_pow2_least:
  assumes "1 \<le> n" and "n \<le> 2 ^ 30"
  obtains k where "k \<le> 30" and "next_pow2 n = 2 ^ k" and "n \<le> 2 ^ k"
    and "k = 0 \<or> 2 ^ (k - 1) < n"
proof -
  define m where "m = nat (n - 1)"
  define w where "w = (word_of_nat m :: u32)"
  have m: "m < 2 ^ 30" using assms by (simp add: m_def)
  have val: "next_pow2 n = sint (smear_all w + 1)" and unat: "unat w = m"
    using next_pow2_smear[of n] assms by (simp_all add: w_def m_def)
  show thesis
  proof (cases "m = 0")
    case True
    then have "w = 0" by (simp add: w_def)
    with val have "next_pow2 n = 2 ^ 0" by (simp add: smear_all_0)
    moreover have "n = 1" using True assms by (simp add: m_def)
    ultimately show thesis by (intro that[of 0]) auto
  next
    case False
    then obtain b where b: "2 ^ b \<le> m" "m < 2 ^ Suc b"
      using nat_bracket_pow2[of m] by auto
    have "b < 30"
    proof (rule ccontr)
      assume "\<not> b < 30"
      then have "(2::nat) ^ 30 \<le> 2 ^ b" by (intro power_increasing) auto
      with b m show False by simp
    qed
    then have "smear_all w = mask (Suc b)"
      using b by (intro smear_all_mask) (auto simp: unat)
    then have "smear_all w + 1 = 2 ^ Suc b"
      by (simp add: mask_eq_exp_minus_1)
    moreover have "sint (2 ^ Suc b :: i32) = 2 ^ Suc b"
    proof -
      have "(2::int) ^ Suc b \<le> 2 ^ 30" using \<open>b < 30\<close> by (intro power_increasing) auto
      then have "(2::int) ^ Suc b < 2 ^ 31" by (rule order.strict_trans1) simp
      moreover have "- (2 ^ 31) \<le> (2::int) ^ Suc b" by (rule order_trans[of _ 0]) simp_all
      ultimately have "sint (word_of_int (2 ^ Suc b) :: i32) = 2 ^ Suc b"
        unfolding sint_sbintrunc' by (intro signed_take_bit_int_eq_self) simp_all
      then show ?thesis by simp
    qed
    ultimately have "next_pow2 n = 2 ^ Suc b"
      by (simp only: val)
    moreover have "n \<le> 2 ^ Suc b" "2 ^ b < n"
    proof -
      have "n = int m + 1" using assms by (simp add: m_def)
      moreover have "int (2 ^ b) \<le> int m" "int m < int (2 ^ Suc b)"
        using b by (simp_all only: of_nat_le_iff of_nat_less_iff)
      ultimately show "n \<le> 2 ^ Suc b" "2 ^ b < n" by simp_all
    qed
    ultimately show thesis
      using \<open>b < 30\<close> by (intro that[of "Suc b"]) auto
  qed
qed

text \<open>
  For every argument from 1 to 2\^30 the bit-smearing round-up returns the least power
  of two that is not smaller.
\<close>

lemma flecs_next_pow_of_2_least:
  assumes "1 \<le> n" and "n \<le> 2 ^ 30"
  shows "\<exists>k. sint (flecs_next_pow_of_2 (word_of_int n)) = 2 ^ k \<and> n \<le> 2 ^ k \<and> (\<forall>j. n \<le> 2 ^ j \<longrightarrow> k \<le> j)"
proof -
  obtain k where k: "next_pow2 n = 2 ^ k" "n \<le> 2 ^ k" "k = 0 \<or> 2 ^ (k - 1) < n"
    using next_pow2_least[OF assms] by metis
  have "k \<le> j" if "n \<le> 2 ^ j" for j
  proof (rule ccontr)
    assume "\<not> k \<le> j"
    then have "(2::int) ^ j \<le> 2 ^ (k - 1)" by (intro power_increasing) auto
    with that have "n \<le> 2 ^ (k - 1)" by (rule order_trans)
    with k(3) \<open>\<not> k \<le> j\<close> show False by auto
  qed
  with k show ?thesis unfolding next_pow2_def by metis
qed

lemma next_pow2_overflow:
  assumes "2 ^ 30 < n" and "n < 2 ^ 31"
  shows "next_pow2 n = - (2 ^ 31)"
proof -
  have "smear_all (word_of_nat (nat (n - 1))) = mask (Suc 30)"
    using assms next_pow2_smear(2)[of n] by (intro smear_all_mask) auto
  then show ?thesis
    using assms next_pow2_smear(1)[of n] by (simp add: mask_eq_exp_minus_1)
qed

end
