(* ===== verification/Ecs_Id.thy ===== *)
theory Ecs_Id
  imports Ecs_Prelude
begin

text \<open>
  Entity and component identifiers: the bit layout of 64-bit ids (index in bits 0 to 31,
  generation in bits 32 to 47, pair and flag bits on top), pairs, and the matching of ids
  against patterns with wildcards. Sources: flecs/private/api\_defines.h, world.c and id.c.
\<close>

section \<open>Layout of an id\<close>

definition ECS_PAIR :: u64 where "ECS_PAIR = push_bit 63 1"
definition ECS_AUTO_OVERRIDE :: u64 where "ECS_AUTO_OVERRIDE = push_bit 62 1"
definition ECS_TOGGLE :: u64 where "ECS_TOGGLE = push_bit 61 1"
definition ECS_VALUE_PAIR :: u64 where "ECS_VALUE_PAIR = push_bit 60 1 OR push_bit 63 1"

definition EcsFlag :: u64 where "EcsFlag = 256 + 13"
definition EcsWildcard :: u64 where "EcsWildcard = 256 + 14"
definition EcsAny :: u64 where "EcsAny = 256 + 15"

definition ECS_ID_FLAGS_MASK :: u64 where "ECS_ID_FLAGS_MASK = push_bit 60 0xFF"
definition ECS_ENTITY_MASK :: u64 where "ECS_ENTITY_MASK = 0xFFFFFFFF"
definition ECS_GENERATION_MASK :: u64 where "ECS_GENERATION_MASK = push_bit 32 0xFFFF"
definition ECS_COMPONENT_MASK :: u64 where "ECS_COMPONENT_MASK = NOT ECS_ID_FLAGS_MASK"

definition ECS_GENERATION :: "u64 \<Rightarrow> u64" where
  "ECS_GENERATION e = drop_bit 32 (e AND ECS_GENERATION_MASK)"

definition ECS_GENERATION_INC :: "u64 \<Rightarrow> u64" where
  "ECS_GENERATION_INC e =
     (e AND NOT ECS_GENERATION_MASK) OR push_bit 32 (0xFFFF AND (ECS_GENERATION e + 1))"

definition ECS_HAS_ID_FLAG :: "u64 \<Rightarrow> u64 \<Rightarrow> bool" where
  "ECS_HAS_ID_FLAG e flag \<longleftrightarrow> e AND flag \<noteq> 0"

definition ECS_IS_VALUE_PAIR :: "u64 \<Rightarrow> bool" where
  "ECS_IS_VALUE_PAIR cid \<longleftrightarrow> cid AND ECS_ID_FLAGS_MASK = ECS_VALUE_PAIR"

definition ECS_IS_PAIR :: "u64 \<Rightarrow> bool" where
  "ECS_IS_PAIR cid \<longleftrightarrow> cid AND ECS_ID_FLAGS_MASK = ECS_PAIR \<or> ECS_IS_VALUE_PAIR cid"

text \<open>The casts to uint32\_t keep the low 32 bits; results are used as 64-bit values.\<close>

definition ecs_entity_t_lo :: "u64 \<Rightarrow> u64" where
  "ecs_entity_t_lo v = take_bit 32 v"

definition ecs_entity_t_hi :: "u64 \<Rightarrow> u64" where
  "ecs_entity_t_hi v = take_bit 32 (drop_bit 32 v)"

definition ecs_entity_t_comb :: "u64 \<Rightarrow> u64 \<Rightarrow> u64" where
  "ecs_entity_t_comb lo hi = push_bit 32 hi + take_bit 32 lo"

definition ECS_PAIR_FIRST :: "u64 \<Rightarrow> u64" where
  "ECS_PAIR_FIRST e = ecs_entity_t_hi (e AND ECS_COMPONENT_MASK)"

definition ECS_PAIR_SECOND :: "u64 \<Rightarrow> u64" where
  "ECS_PAIR_SECOND e = ecs_entity_t_lo e"

definition ecs_pair :: "u64 \<Rightarrow> u64 \<Rightarrow> u64" where
  "ecs_pair rel tgt = ECS_PAIR OR ecs_entity_t_comb tgt rel"

definition ecs_value_pair :: "u64 \<Rightarrow> u64 \<Rightarrow> u64" where
  "ecs_value_pair rel val = ECS_VALUE_PAIR OR ecs_entity_t_comb val rel"

text \<open>ecs\_make\_pair refuses to nest pairs.\<close>

definition ecs_make_pair :: "u64 \<Rightarrow> u64 \<Rightarrow> u64 res" where
  "ecs_make_pair relationship target =
     ecs_assert (\<not> ECS_IS_PAIR relationship \<and> \<not> ECS_IS_PAIR target) ECS_INVALID_PARAMETER
       (Inr (ecs_pair relationship target))"

section \<open>Operations of id.c\<close>

text \<open>
  ecs\_check aborts in a debug build, like ecs\_assert. The branches follow the order of the C
  function; falling through to its error label gives false.
\<close>

definition ecs_id_match :: "u64 \<Rightarrow> u64 \<Rightarrow> bool res" where
  "ecs_id_match cid pattern =
     (if cid = pattern then Inr True
      else if ECS_HAS_ID_FLAG pattern ECS_PAIR then
        if \<not> ECS_HAS_ID_FLAG cid ECS_PAIR then Inr False
        else
          let id_first = ECS_PAIR_FIRST cid;
              id_second = ECS_PAIR_SECOND cid;
              pattern_first = ECS_PAIR_FIRST pattern;
              pattern_second = ECS_PAIR_SECOND pattern
          in
          ecs_assert (id_first \<noteq> 0) ECS_INVALID_PARAMETER
          (ecs_assert (ECS_IS_VALUE_PAIR cid \<or> id_second \<noteq> 0) ECS_INVALID_PARAMETER
          (ecs_assert (pattern_first \<noteq> 0) ECS_INVALID_PARAMETER
          (ecs_assert (ECS_IS_VALUE_PAIR pattern \<or> pattern_second \<noteq> 0) ECS_INVALID_PARAMETER
          (if ECS_IS_VALUE_PAIR pattern \<and> \<not> ECS_IS_VALUE_PAIR cid then Inr False
           else
             let pattern_first_wildcard =
                   (\<not> ECS_IS_VALUE_PAIR pattern \<and> pattern_first = EcsWildcard);
                 pattern_second_wc =
                   (\<not> ECS_IS_VALUE_PAIR pattern \<and> pattern_second = EcsWildcard)
             in
             if pattern_first_wildcard then
               Inr (pattern_second_wc \<or> pattern_second = id_second)
             else if pattern_first = EcsFlag then
               if ECS_HAS_ID_FLAG cid ECS_PAIR \<and> \<not> ECS_IS_PAIR cid then
                 Inr (ECS_PAIR_FIRST cid = pattern_second \<or> ECS_PAIR_SECOND cid = pattern_second)
               else Inr False
             else if pattern_second = EcsWildcard then
               Inr (pattern_first = id_first)
             else Inr False))))
      else if cid AND ECS_ID_FLAGS_MASK \<noteq> pattern AND ECS_ID_FLAGS_MASK then Inr False
      else Inr (ECS_COMPONENT_MASK AND pattern = EcsWildcard))"

definition ecs_id_is_pair :: "u64 \<Rightarrow> bool" where
  "ecs_id_is_pair cid = ECS_HAS_ID_FLAG cid ECS_PAIR"

definition ecs_id_is_wildcard :: "u64 \<Rightarrow> bool" where
  "ecs_id_is_wildcard cid =
     (if cid = EcsWildcard \<or> cid = EcsAny then True
      else if \<not> ECS_IS_PAIR cid then False
      else
        let first = ECS_PAIR_FIRST cid in
        if ECS_IS_VALUE_PAIR cid then first = EcsWildcard \<or> first = EcsAny
        else
          let second = ECS_PAIR_SECOND cid in
          first = EcsWildcard \<or> second = EcsWildcard \<or> first = EcsAny \<or> second = EcsAny)"

definition ecs_id_is_any :: "u64 \<Rightarrow> bool" where
  "ecs_id_is_any cid =
     (if cid = EcsAny then True
      else if \<not> ECS_IS_PAIR cid then False
      else ECS_PAIR_FIRST cid = EcsAny \<or> ECS_PAIR_SECOND cid = EcsAny)"

text \<open>
  The liveness test of the world, ecs\_is\_valid, is an argument. The reason is the text the
  function returns, None its NULL.
\<close>

definition flecs_id_invalid_reason :: "(u64 \<Rightarrow> bool) \<Rightarrow> u64 \<Rightarrow> string option res" where
  "flecs_id_invalid_reason ecs_is_valid cid =
     (if cid = 0 then Inr (Some ''components cannot be 0 (is the component registered?)'')
      else if ecs_id_is_wildcard cid then Inr (Some ''cannot add wildcards'')
      else if ECS_IS_VALUE_PAIR cid then
        if ECS_PAIR_FIRST cid = 0 then
          Inr (Some ''invalid value pair: first element is 0 (is the relationship registered?)'')
        else Inr None
      else if ECS_HAS_ID_FLAG cid ECS_PAIR then
        if ECS_PAIR_FIRST cid = 0 \<and> ECS_PAIR_SECOND cid = 0 then
          Inr (Some ''invalid pair: both elements are 0'')
        else if ECS_PAIR_FIRST cid = 0 then
          Inr (Some ''invalid pair: first element is 0 (is the relationship registered?)'')
        else if ECS_PAIR_SECOND cid = 0 then
          Inr (Some ''invalid pair: second element is 0'')
        else Inr None
      else if cid AND ECS_ID_FLAGS_MASK \<noteq> 0 then
        if \<not> ecs_is_valid (cid AND ECS_COMPONENT_MASK) then Inl ECS_INTERNAL_ERROR
        else Inr None
      else Inr None)"

definition ecs_id_is_valid :: "(u64 \<Rightarrow> bool) \<Rightarrow> u64 \<Rightarrow> bool res" where
  "ecs_id_is_valid is_valid cid =
     res_bind (flecs_id_invalid_reason is_valid cid) (\<lambda>reason. Inr (reason = None))"

definition ecs_id_flag_str :: "u64 \<Rightarrow> string" where
  "ecs_id_flag_str entity =
     (if ECS_IS_VALUE_PAIR entity then ''VALUE_PAIR''
      else if ECS_HAS_ID_FLAG entity ECS_PAIR then ''PAIR''
      else if ECS_HAS_ID_FLAG entity ECS_TOGGLE then ''TOGGLE''
      else if ECS_HAS_ID_FLAG entity ECS_AUTO_OVERRIDE then ''AUTO_OVERRIDE''
      else ''UNKNOWN'')"

section \<open>Bits of an id\<close>

named_theorems id_bits "which bits of an id are set"

lemma bit_low_mask: "bit (push_bit m (mask k) :: u64) n \<longleftrightarrow> m \<le> n \<and> n < m + k \<and> n < 64"
  by (auto simp: bit_push_bit_iff bit_mask_iff)

lemma numeral_masks:
  "(0xFF :: u64) = mask 8" "(0xFFFF :: u64) = mask 16" "(0xFFFFFFFF :: u64) = mask 32"
  by (simp_all add: mask_eq_exp_minus_1)

lemma bit_id_constants [id_bits]:
  "bit ECS_PAIR n \<longleftrightarrow> n = 63"
  "bit ECS_TOGGLE n \<longleftrightarrow> n = 61"
  "bit ECS_AUTO_OVERRIDE n \<longleftrightarrow> n = 62"
  "bit ECS_VALUE_PAIR n \<longleftrightarrow> n = 60 \<or> n = 63"
  "bit ECS_ID_FLAGS_MASK n \<longleftrightarrow> 60 \<le> n \<and> n < 64"
  "bit ECS_GENERATION_MASK n \<longleftrightarrow> 32 \<le> n \<and> n < 48"
  "bit ECS_COMPONENT_MASK n \<longleftrightarrow> n < 60"
  unfolding ECS_PAIR_def ECS_TOGGLE_def ECS_AUTO_OVERRIDE_def ECS_VALUE_PAIR_def
    ECS_ID_FLAGS_MASK_def ECS_GENERATION_MASK_def ECS_COMPONENT_MASK_def numeral_masks
    bit_not_iff bit_or_iff bit_push_bit_iff bit_1_iff bit_mask_iff
  by auto

lemma ecs_entity_t_comb_or: "ecs_entity_t_comb lo hi = push_bit 32 hi OR take_bit 32 lo"
  unfolding ecs_entity_t_comb_def
  by (rule disjunctive_add) (auto simp: bit_push_bit_iff bit_take_bit_iff)

lemma bit_pair_ops [id_bits]:
  "bit (ecs_entity_t_lo v) n \<longleftrightarrow> n < 32 \<and> bit v n"
  "bit (ecs_entity_t_hi v) n \<longleftrightarrow> n < 32 \<and> bit v (n + 32)"
  "bit (ecs_entity_t_comb lo hi) n \<longleftrightarrow> (if n < 32 then bit lo n else n < 64 \<and> bit hi (n - 32))"
  "bit (ECS_PAIR_FIRST v) n \<longleftrightarrow> n < 28 \<and> bit v (n + 32)"
  "bit (ECS_PAIR_SECOND v) n \<longleftrightarrow> n < 32 \<and> bit v n"
  by (auto simp: ecs_entity_t_lo_def ecs_entity_t_hi_def ecs_entity_t_comb_or ECS_PAIR_FIRST_def
      ECS_PAIR_SECOND_def bit_take_bit_iff bit_drop_bit_eq bit_push_bit_iff bit_or_iff bit_and_iff
      bit_id_constants add.commute)

lemma bit_ecs_pair [id_bits]:
  "bit (ecs_pair r t) n \<longleftrightarrow> n = 63 \<or> (if n < 32 then bit t n else n < 64 \<and> bit r (n - 32))"
  by (simp add: ecs_pair_def bit_or_iff id_bits)

lemma pair_first_ecs_pair: "ECS_PAIR_FIRST (ecs_pair r t) = take_bit 28 r"
  by (rule bit_word_eqI) (auto simp: id_bits bit_take_bit_iff)

lemma pair_second_ecs_pair: "ECS_PAIR_SECOND (ecs_pair r t) = take_bit 32 t"
  by (rule bit_word_eqI) (auto simp: id_bits bit_take_bit_iff)

lemma plain_pair_bits:
  assumes "e AND ECS_ID_FLAGS_MASK = ECS_PAIR"
  shows "60 \<le> n \<Longrightarrow> bit e n \<longleftrightarrow> n = 63"
proof -
  assume n: "60 \<le> n"
  have "bit (e AND ECS_ID_FLAGS_MASK) n \<longleftrightarrow> bit ECS_PAIR n" using assms by simp
  then show ?thesis using n bit_imp_le_length[of e n] by (auto simp: bit_and_iff id_bits)
qed

lemma plain_pair_eq:
  assumes "e AND ECS_ID_FLAGS_MASK = ECS_PAIR"
  shows "ecs_pair (ECS_PAIR_FIRST e) (ECS_PAIR_SECOND e) = e"
proof (rule bit_word_eqI)
  fix n
  show "bit (ecs_pair (ECS_PAIR_FIRST e) (ECS_PAIR_SECOND e)) n \<longleftrightarrow> bit e n" if "n < LENGTH(64)"
    using that plain_pair_bits[OF assms, of n] by (cases "60 \<le> n") (auto simp: id_bits)
qed

lemma has_pair_flag: "ECS_HAS_ID_FLAG e ECS_PAIR \<longleftrightarrow> bit e 63"
proof -
  have "e AND ECS_PAIR = (if bit e 63 then ECS_PAIR else 0)"
    by (rule bit_word_eqI) (auto simp: bit_and_iff id_bits)
  moreover have "ECS_PAIR \<noteq> 0" by (simp add: ECS_PAIR_def)
  ultimately show ?thesis by (simp add: ECS_HAS_ID_FLAG_def)
qed

lemma flags_neq: "ECS_PAIR \<noteq> ECS_VALUE_PAIR"
  by (simp add: ECS_PAIR_def ECS_VALUE_PAIR_def)

lemma plain_pair_flags:
  assumes "e AND ECS_ID_FLAGS_MASK = ECS_PAIR"
  shows "ECS_HAS_ID_FLAG e ECS_PAIR" "ECS_IS_PAIR e" "\<not> ECS_IS_VALUE_PAIR e"
  using assms plain_pair_bits[OF assms, of 63] flags_neq
  by (simp_all add: has_pair_flag ECS_IS_PAIR_def ECS_IS_VALUE_PAIR_def)

section \<open>Matching against wildcards\<close>

text \<open>What a pattern promises for one element of a pair.\<close>

definition pair_elem_match :: "u64 \<Rightarrow> u64 \<Rightarrow> bool" where
  "pair_elem_match e p \<longleftrightarrow> p = EcsWildcard \<or> p = e"

lemma id_match_pair_eq:
  assumes "i AND ECS_ID_FLAGS_MASK = ECS_PAIR" and "p AND ECS_ID_FLAGS_MASK = ECS_PAIR"
    and "ECS_PAIR_FIRST i \<noteq> 0" "ECS_PAIR_SECOND i \<noteq> 0"
    and "ECS_PAIR_FIRST p \<noteq> 0" "ECS_PAIR_SECOND p \<noteq> 0"
    and "ECS_PAIR_FIRST p \<noteq> EcsFlag"
  shows "ecs_id_match i p =
     Inr (pair_elem_match (ECS_PAIR_FIRST i) (ECS_PAIR_FIRST p)
        \<and> pair_elem_match (ECS_PAIR_SECOND i) (ECS_PAIR_SECOND p))"
proof -
  have eq: "i = p \<longleftrightarrow> ECS_PAIR_FIRST i = ECS_PAIR_FIRST p \<and> ECS_PAIR_SECOND i = ECS_PAIR_SECOND p"
    using plain_pair_eq[OF assms(1)] plain_pair_eq[OF assms(2)] by metis
  show ?thesis
    unfolding ecs_id_match_def Let_def pair_elem_match_def
    using plain_pair_flags[OF assms(1)] plain_pair_flags[OF assms(2)] assms(3-) eq
    by auto
qed

text \<open>
  Claim C25: for two plain pairs with nonzero elements and a pattern whose relationship is not
  the internal EcsFlag, ecs\_id\_match does not abort and answers whether each element of the
  pattern is the wildcard or equals the element of the id.
\<close>

theorem ecs_id_match_pair:
  assumes "i AND ECS_ID_FLAGS_MASK = ECS_PAIR" and "p AND ECS_ID_FLAGS_MASK = ECS_PAIR"
    and "ECS_PAIR_FIRST i \<noteq> 0" "ECS_PAIR_SECOND i \<noteq> 0"
    and "ECS_PAIR_FIRST p \<noteq> 0" "ECS_PAIR_SECOND p \<noteq> 0"
    and "ECS_PAIR_FIRST p \<noteq> EcsFlag"
  shows "ecs_id_match i p =
     Inr (pair_elem_match (ECS_PAIR_FIRST i) (ECS_PAIR_FIRST p)
        \<and> pair_elem_match (ECS_PAIR_SECOND i) (ECS_PAIR_SECOND p))"
  by (rule id_match_pair_eq[OF assms])

theorem ecs_id_match_pair_witness:
  "ecs_id_match (ecs_pair 5 7) (ecs_pair EcsWildcard 7) =
     Inr (pair_elem_match (ECS_PAIR_FIRST (ecs_pair 5 7)) (ECS_PAIR_FIRST (ecs_pair EcsWildcard 7))
        \<and> pair_elem_match (ECS_PAIR_SECOND (ecs_pair 5 7)) (ECS_PAIR_SECOND (ecs_pair EcsWildcard 7)))"
  by (rule ecs_id_match_pair; code_simp)

section \<open>Generations\<close>

lemma bit_generation [id_bits]:
  "bit (ECS_GENERATION e) n \<longleftrightarrow> n < 16 \<and> bit e (n + 32)"
  by (auto simp: ECS_GENERATION_def bit_drop_bit_eq bit_and_iff id_bits add.commute)

lemma generation_take_bit: "ECS_GENERATION e = take_bit 16 (drop_bit 32 e)"
  by (rule bit_word_eqI) (simp add: id_bits bit_take_bit_iff bit_drop_bit_eq add.commute)

lemma bit_generation_inc [id_bits]:
  "bit (ECS_GENERATION_INC e) n \<longleftrightarrow>
     (if 32 \<le> n \<and> n < 48 then bit (ECS_GENERATION e + 1) (n - 32) else n < 64 \<and> bit e n)"
  using bit_imp_le_length[of e n]
  unfolding ECS_GENERATION_INC_def bit_or_iff bit_and_iff bit_not_iff bit_push_bit_iff id_bits
    numeral_masks bit_mask_iff
  by auto

lemma generation_inc_index: "take_bit 32 (ECS_GENERATION_INC e) = take_bit 32 e"
  by (rule bit_word_eqI) (auto simp: bit_take_bit_iff id_bits)

lemma generation_inc: "ECS_GENERATION (ECS_GENERATION_INC e) = take_bit 16 (ECS_GENERATION e + 1)"
  by (rule bit_word_eqI) (auto simp: bit_take_bit_iff id_bits)

lemma generation_inc_rest:
  "ECS_GENERATION_INC e AND NOT ECS_GENERATION_MASK = e AND NOT ECS_GENERATION_MASK"
  by (rule bit_word_eqI) (auto simp: bit_and_iff bit_not_iff id_bits)

lemma generation_take_self: "take_bit 16 (ECS_GENERATION e) = ECS_GENERATION e"
  by (rule bit_word_eqI) (auto simp: bit_take_bit_iff id_bits)

lemma unat_generation: "unat (ECS_GENERATION e) < 2 ^ 16"
proof -
  have "unat (ECS_GENERATION e) = take_bit 16 (unat (ECS_GENERATION e))"
    using generation_take_self[of e] by (metis unsigned_take_bit_eq)
  then show ?thesis by (metis take_bit_nat_less_exp)
qed

lemma unat_generation_inc:
  "unat (ECS_GENERATION (ECS_GENERATION_INC e)) = (unat (ECS_GENERATION e) + 1) mod 2 ^ 16"
proof -
  have "unat (ECS_GENERATION e + 1) = unat (ECS_GENERATION e) + 1"
    using unat_generation[of e] by (subst unat_word_ariths) simp
  then show ?thesis
    unfolding generation_inc unsigned_take_bit_eq by (simp add: take_bit_eq_mod)
qed

lemma id_eq_iff_generation:
  "e = f \<longleftrightarrow> ECS_GENERATION e = ECS_GENERATION f
     \<and> e AND NOT ECS_GENERATION_MASK = f AND NOT ECS_GENERATION_MASK"
proof (intro iffI)
  assume eq: "ECS_GENERATION e = ECS_GENERATION f
     \<and> e AND NOT ECS_GENERATION_MASK = f AND NOT ECS_GENERATION_MASK"
  show "e = f"
  proof (rule bit_word_eqI)
    fix n
    assume n: "n < LENGTH(64)"
    show "bit e n \<longleftrightarrow> bit f n"
    proof (cases "32 \<le> n \<and> n < 48")
      case True
      then have "n - 32 < 16" by linarith
      with True show ?thesis
        using arg_cong[OF conjunct1[OF eq], of "\<lambda>w. bit w (n - 32)"] by (simp add: id_bits)
    next
      case False
      then show ?thesis
        using n arg_cong[OF conjunct2[OF eq], of "\<lambda>w. bit w n"]
        by (simp add: id_bits bit_and_iff bit_not_iff)
    qed
  qed
qed auto

lemma generation_inc_pow:
  "unat (ECS_GENERATION ((ECS_GENERATION_INC ^^ n) e)) = (unat (ECS_GENERATION e) + n) mod 2 ^ 16"
  "(ECS_GENERATION_INC ^^ n) e AND NOT ECS_GENERATION_MASK = e AND NOT ECS_GENERATION_MASK"
  by (induction n) (use unat_generation[of e] in \<open>simp_all add: unat_generation_inc generation_inc_rest mod_Suc_eq\<close>)

text \<open>
  Bumping the generation of an id n times gives the id back exactly when n is a
  multiple of 65536: a recycled id differs from every earlier use of its index until the 16-bit
  generation wraps around.
\<close>

lemma generation_inc_orbit: "(ECS_GENERATION_INC ^^ n) e = e \<longleftrightarrow> 2 ^ 16 dvd n"
proof -
  have "(ECS_GENERATION_INC ^^ n) e = e \<longleftrightarrow>
      (unat (ECS_GENERATION e) + n) mod 2 ^ 16 = unat (ECS_GENERATION e) mod 2 ^ 16"
    unfolding id_eq_iff_generation[of "(ECS_GENERATION_INC ^^ n) e"] generation_inc_pow(2)
      word_unat_eq_iff[of "ECS_GENERATION ((ECS_GENERATION_INC ^^ n) e)"] generation_inc_pow(1)
    using unat_generation[of e] by simp
  also have "\<dots> \<longleftrightarrow> 2 ^ 16 dvd n"
    by (subst mod_eq_dvd_iff_nat) simp_all
  finally show ?thesis .
qed

section \<open>Validity\<close>

lemma ecs_pair_flags:
  assumes "take_bit 28 r = r"
  shows "ecs_pair r t AND ECS_ID_FLAGS_MASK = ECS_PAIR"
proof (rule bit_word_eqI)
  fix n
  have "\<not> bit r (n - 32)" if "60 \<le> n"
  proof -
    have "\<not> n - 32 < 28" using that by linarith
    then show ?thesis
      using arg_cong[OF assms, of "\<lambda>w. bit w (n - 32)"] by (simp add: bit_take_bit_iff)
  qed
  then show "bit (ecs_pair r t AND ECS_ID_FLAGS_MASK) n \<longleftrightarrow> bit ECS_PAIR n"
    by (auto simp: bit_and_iff id_bits)
qed

text \<open>
  A pair built by ecs\_pair from a 28-bit relationship and a 32-bit target is valid to
  add exactly when both elements are nonzero and neither is a wildcard, whatever the world says
  about liveness, and the check does not abort.
\<close>

theorem ecs_id_is_valid_pair:
  assumes "take_bit 28 r = r" and "take_bit 32 t = t"
  shows "ecs_id_is_valid world_is_valid (ecs_pair r t) =
    Inr (r \<noteq> 0 \<and> t \<noteq> 0 \<and> r \<noteq> EcsWildcard \<and> r \<noteq> EcsAny \<and> t \<noteq> EcsWildcard \<and> t \<noteq> EcsAny)"
proof -
  note flags = plain_pair_flags[OF ecs_pair_flags[OF assms(1), of t]]
  have "bit (ecs_pair r t) 63" by (simp add: id_bits)
  then have ne: "ecs_pair r t \<noteq> 0" "ecs_pair r t \<noteq> EcsWildcard" "ecs_pair r t \<noteq> EcsAny"
    by (auto simp: EcsWildcard_def EcsAny_def)
  show ?thesis
    using flags ne assms
    by (auto simp: ecs_id_is_valid_def flecs_id_invalid_reason_def ecs_id_is_wildcard_def Let_def
        pair_first_ecs_pair pair_second_ecs_pair)
qed

end
