(* ===== verification/Ecs_Vec.thy ===== *)
theory Ecs_Vec
  imports Ecs_Prelude "HOL-Library.Multiset"
begin

text \<open>
  The growable array ecs\_vec\_t of datastructures/vec.c; the operations that call lifecycle hooks
  are in the theory Vec\_Hooks. The element memory is a list of cells, None for memory that holds
  no value (freshly allocated, or left by a destructor or a move), Some for a value; the null array is the empty list, since the code never allocates an array of
  no elements. Element size, allocator and the FLECS\_SANITIZE fields only choose where bytes
  live and are left out; a pointer to an element is its index. Counts and indices are naturals:
  the code keeps them nonnegative, and the one decrement that does not check is an INT\_RANGE
  error here.
\<close>

section \<open>State\<close>

record 'a ecs_vec =
  varray :: "'a option list"
  vcount :: nat
  vsize :: nat

definition cells_between :: "nat \<Rightarrow> nat \<Rightarrow> 'a list \<Rightarrow> 'a list" where
  "cells_between lo n cs = take n (drop lo cs)"

definition cells_replace :: "nat \<Rightarrow> 'a list \<Rightarrow> 'a list \<Rightarrow> 'a list" where
  "cells_replace lo xs cs = take lo cs @ xs @ drop (lo + length xs) cs"

section \<open>Operations\<close>

definition flecs_vec_alloc :: "nat \<Rightarrow> 'a option list" where
  "flecs_vec_alloc elem_count = (if elem_count \<noteq> 0 then replicate elem_count None else [])"

definition vec_realloc :: "nat \<Rightarrow> 'a option list \<Rightarrow> 'a option list" where
  "vec_realloc n cs = take n cs @ replicate (n - length cs) None"

definition ecs_vec_init_w_dbg_info :: "nat \<Rightarrow> 'a ecs_vec" where
  "ecs_vec_init_w_dbg_info elem_count =
     \<lparr>varray = flecs_vec_alloc elem_count, vcount = 0, vsize = elem_count\<rparr>"

definition ecs_vec_init :: "nat \<Rightarrow> 'a ecs_vec" where
  "ecs_vec_init elem_count = ecs_vec_init_w_dbg_info elem_count"

definition ecs_vec_fini :: "'a ecs_vec \<Rightarrow> 'a ecs_vec" where
  "ecs_vec_fini v =
     (if varray v \<noteq> [] then v\<lparr>varray := [], vcount := 0, vsize := 0\<rparr> else v)"

definition ecs_vec_clear :: "'a ecs_vec \<Rightarrow> 'a ecs_vec" where
  "ecs_vec_clear v = v\<lparr>vcount := 0\<rparr>"

definition ecs_vec_reset :: "'a ecs_vec \<Rightarrow> 'a ecs_vec" where
  "ecs_vec_reset v = (if vsize v = 0 then ecs_vec_init 0 else ecs_vec_clear v)"

definition ecs_vec_copy :: "'a ecs_vec \<Rightarrow> 'a ecs_vec" where
  "ecs_vec_copy v = \<lparr>varray = take (vsize v) (varray v), vcount = vcount v, vsize = vsize v\<rparr>"

definition ecs_vec_copy_shrink :: "'a ecs_vec \<Rightarrow> 'a ecs_vec" where
  "ecs_vec_copy_shrink v =
     (let count = vcount v;
          array = (if count \<noteq> 0 then take count (varray v) else [])
      in \<lparr>varray = array, vcount = count, vsize = count\<rparr>)"

definition ecs_vec_reclaim :: "'a ecs_vec \<Rightarrow> 'a ecs_vec" where
  "ecs_vec_reclaim v =
     (let count = vcount v in
      if count < vsize v then
        if count \<noteq> 0 then v\<lparr>varray := take count (varray v), vsize := count\<rparr>
        else ecs_vec_fini v
      else v)"

definition ecs_vec_set_size :: "'a ecs_vec \<Rightarrow> nat \<Rightarrow> 'a ecs_vec" where
  "ecs_vec_set_size v elem_count =
     (if vsize v \<noteq> elem_count then
        let elem_count = (if elem_count < vcount v then vcount v else elem_count);
            pow2 = next_pow2 (int elem_count);
            elem_count = (if pow2 < 2 then 2 else nat pow2)
        in if elem_count \<noteq> vsize v
           then v\<lparr>varray := vec_realloc elem_count (varray v), vsize := elem_count\<rparr>
           else v
      else v)"

definition ecs_vec_set_min_size :: "'a ecs_vec \<Rightarrow> nat \<Rightarrow> 'a ecs_vec" where
  "ecs_vec_set_min_size v elem_count =
     (if elem_count > vsize v then ecs_vec_set_size v elem_count else v)"

definition ecs_vec_set_min_size_w_type_info :: "'a ecs_vec \<Rightarrow> nat \<Rightarrow> 'a ecs_vec" where
  "ecs_vec_set_min_size_w_type_info v elem_count =
     (if elem_count > vsize v then ecs_vec_set_size v elem_count else v)"

definition ecs_vec_set_min_count :: "'a ecs_vec \<Rightarrow> nat \<Rightarrow> 'a ecs_vec" where
  "ecs_vec_set_min_count v elem_count =
     (let v = ecs_vec_set_min_size v elem_count in
      if vcount v < elem_count then v\<lparr>vcount := elem_count\<rparr> else v)"

text \<open>The bytes written by memset are the value \<open>zero\<close> of the element type.\<close>

definition ecs_vec_set_min_count_zeromem :: "'a \<Rightarrow> 'a ecs_vec \<Rightarrow> nat \<Rightarrow> 'a ecs_vec" where
  "ecs_vec_set_min_count_zeromem zero v elem_count =
     (let count = vcount v in
      if count < elem_count then
        let v = ecs_vec_set_min_count v elem_count
        in v\<lparr>varray := cells_replace count (replicate (elem_count - count) (Some zero)) (varray v)\<rparr>
      else v)"

definition ecs_vec_set_count :: "'a ecs_vec \<Rightarrow> nat \<Rightarrow> 'a ecs_vec" where
  "ecs_vec_set_count v elem_count =
     (if vcount v \<noteq> elem_count then
        let v = (if vsize v < elem_count then ecs_vec_set_size v elem_count else v)
        in v\<lparr>vcount := elem_count\<rparr>
      else v)"

text \<open>ecs\_vec\_grow and ecs\_vec\_append return the index of the first new element.\<close>

definition ecs_vec_grow :: "'a ecs_vec \<Rightarrow> nat \<Rightarrow> 'a ecs_vec \<times> nat" where
  "ecs_vec_grow v elem_count =
     (let count = vcount v in (ecs_vec_set_count v (count + elem_count), count))"

definition ecs_vec_append :: "'a ecs_vec \<Rightarrow> 'a ecs_vec \<times> nat" where
  "ecs_vec_append v =
     (let count = vcount v;
          v = (if vsize v = count then ecs_vec_set_size v (count + 1) else v)
      in (v\<lparr>vcount := count + 1\<rparr>, count))"

text \<open>A write through the pointer that an operation returned.\<close>

definition vec_put :: "'a ecs_vec \<Rightarrow> nat \<Rightarrow> 'a option \<Rightarrow> 'a ecs_vec" where
  "vec_put v i c = v\<lparr>varray := (varray v)[i := c]\<rparr>"

definition vec_push :: "'a ecs_vec \<Rightarrow> 'a option \<Rightarrow> 'a ecs_vec" where
  "vec_push v c = (let (v, i) = ecs_vec_append v in vec_put v i c)"

definition ecs_vec_remove :: "'a ecs_vec \<Rightarrow> nat \<Rightarrow> 'a ecs_vec res" where
  "ecs_vec_remove v index =
     ecs_assert (index < vcount v) ECS_OUT_OF_RANGE
       (let v = v\<lparr>vcount := vcount v - 1\<rparr> in
        if index = vcount v then Inr v
        else res_bind (mem_get (varray v) (vcount v)) (\<lambda>c.
             res_bind (mem_set (varray v) index c) (\<lambda>array.
             Inr (v\<lparr>varray := array\<rparr>))))"

definition ecs_vec_remove_last :: "'a ecs_vec \<Rightarrow> 'a ecs_vec res" where
  "ecs_vec_remove_last v =
     (if vcount v = 0 then Inl INT_RANGE else Inr (v\<lparr>vcount := vcount v - 1\<rparr>))"

text \<open>memmove of the elements after \<open>index\<close> one place down.\<close>

definition ecs_vec_remove_ordered :: "'a ecs_vec \<Rightarrow> nat \<Rightarrow> 'a ecs_vec res" where
  "ecs_vec_remove_ordered v index =
     ecs_assert (index < vcount v) ECS_OUT_OF_RANGE
       (let new_count = vcount v - 1;
            v = v\<lparr>vcount := new_count\<rparr>
        in if index = new_count then Inr v
           else if new_count < length (varray v) then
             Inr (v\<lparr>varray :=
               cells_replace index (cells_between (index + 1) (new_count - index) (varray v))
                 (varray v)\<rparr>)
           else Inl MEMORY_FAULT)"

definition ecs_vec_get :: "'a ecs_vec \<Rightarrow> nat \<Rightarrow> 'a option res" where
  "ecs_vec_get v index =
     ecs_assert (index < vcount v) ECS_OUT_OF_RANGE (mem_get (varray v) index)"

definition ecs_vec_last :: "'a ecs_vec \<Rightarrow> 'a option res" where
  "ecs_vec_last v =
     (if vcount v = 0 then Inl MEMORY_FAULT else mem_get (varray v) (vcount v - 1))"

section \<open>Well-formedness and the list a vector stands for\<close>

definition vec_wf :: "'a ecs_vec \<Rightarrow> bool" where
  "vec_wf v \<longleftrightarrow> length (varray v) = vsize v \<and> vcount v \<le> vsize v \<and> vsize v \<le> 2 ^ 30"

definition vec_elems :: "'a ecs_vec \<Rightarrow> 'a option list" where
  "vec_elems v = take (vcount v) (varray v)"

lemma length_vec_elems [simp]: "vec_wf v \<Longrightarrow> length (vec_elems v) = vcount v"
  by (simp add: vec_wf_def vec_elems_def)

lemma vec_init_wf: "n \<le> 2 ^ 30 \<Longrightarrow> vec_wf (ecs_vec_init n) \<and> vec_elems (ecs_vec_init n) = []"
  by (simp add: ecs_vec_init_def ecs_vec_init_w_dbg_info_def flecs_vec_alloc_def vec_wf_def vec_elems_def)

lemma next_pow2_bounds:
  assumes "1 \<le> n" "n \<le> 2 ^ 30"
  shows "n \<le> next_pow2 n" "next_pow2 n \<le> 2 ^ 30"
proof -
  obtain k where k: "k \<le> 30" "next_pow2 n = 2 ^ k" "n \<le> 2 ^ k"
    using next_pow2_least[OF assms] by metis
  then show "n \<le> next_pow2 n" by simp
  have "(2::int) ^ k \<le> 2 ^ 30" using k(1) by (intro power_increasing) auto
  with k show "next_pow2 n \<le> 2 ^ 30" by simp
qed

lemma next_pow2_0: "next_pow2 0 = 0"
  by code_simp

lemma set_size_target:
  fixes n :: nat
  assumes "n \<le> 2 ^ 30"
  defines "m \<equiv> (if next_pow2 (int n) < 2 then 2 else nat (next_pow2 (int n)))"
  shows "n \<le> m" "m \<le> 2 ^ 30"
proof -
  have "n \<le> m \<and> m \<le> 2 ^ 30"
  proof (cases "n = 0")
    case True
    then show ?thesis by (simp add: m_def next_pow2_0)
  next
    case False
    then have "1 \<le> int n" "int n \<le> 2 ^ 30" using assms(1) by auto
    from next_pow2_bounds[OF this] show ?thesis by (auto simp: m_def)
  qed
  then show "n \<le> m" "m \<le> 2 ^ 30" by auto
qed

lemma vec_set_size:
  assumes wf: "vec_wf v" and n: "n \<le> 2 ^ 30"
  shows "vec_wf (ecs_vec_set_size v n)" and "n \<le> vsize (ecs_vec_set_size v n)"
    and "vcount (ecs_vec_set_size v n) = vcount v"
    and "vec_elems (ecs_vec_set_size v n) = vec_elems v"
    and "drop (vsize v) (varray (ecs_vec_set_size v n)) = replicate (vsize (ecs_vec_set_size v n) - vsize v) None"
proof -
  define c where "c = (if n < vcount v then vcount v else n)"
  define m where "m = (if next_pow2 (int c) < 2 then 2 else nat (next_pow2 (int c)))"
  have c: "c \<le> 2 ^ 30" "n \<le> c" "vcount v \<le> c"
    using wf n by (auto simp: c_def vec_wf_def)
  note m = set_size_target[OF c(1), folded m_def]
  have eq: "ecs_vec_set_size v n =
      (if vsize v \<noteq> n \<and> m \<noteq> vsize v
       then v\<lparr>varray := vec_realloc m (varray v), vsize := m\<rparr> else v)"
    by (simp add: ecs_vec_set_size_def Let_def flip: c_def m_def)
  show "vec_wf (ecs_vec_set_size v n)" "n \<le> vsize (ecs_vec_set_size v n)"
    "vcount (ecs_vec_set_size v n) = vcount v" "vec_elems (ecs_vec_set_size v n) = vec_elems v"
    "drop (vsize v) (varray (ecs_vec_set_size v n)) = replicate (vsize (ecs_vec_set_size v n) - vsize v) None"
    using wf m c unfolding eq
    by (auto simp: vec_wf_def vec_elems_def vec_realloc_def min_def)
qed

lemma vec_append:
  assumes wf: "vec_wf v" and room: "vcount v < 2 ^ 30"
  shows "vec_wf (vec_push v c)" "vec_elems (vec_push v c) = vec_elems v @ [c]"
    "snd (ecs_vec_append v) = vcount v"
proof -
  define w where "w = (if vsize v = vcount v then ecs_vec_set_size v (vcount v + 1) else v)"
  have w: "vec_wf w" "vcount w = vcount v" "vec_elems w = vec_elems v" "vcount v < vsize w"
    using vec_set_size[OF wf, of "vcount v + 1"] wf room
    by (auto simp: w_def vec_wf_def)
  have eq: "vec_push v c = w\<lparr>varray := (varray w)[vcount v := c], vcount := vcount v + 1\<rparr>"
    by (simp add: vec_push_def ecs_vec_append_def vec_put_def Let_def flip: w_def)
  show "vec_wf (vec_push v c)"
    using w by (simp add: eq vec_wf_def)
  show "vec_elems (vec_push v c) = vec_elems v @ [c]"
    using w unfolding eq w(3)[symmetric]
    by (simp add: vec_elems_def vec_wf_def take_list_update_last)
  show "snd (ecs_vec_append v) = vcount v"
    by (simp add: ecs_vec_append_def Let_def)
qed

definition swap_removed :: "nat \<Rightarrow> 'a list \<Rightarrow> 'a list" where
  "swap_removed i xs = (if Suc i = length xs then butlast xs else (butlast xs)[i := last xs])"

lemma vec_remove:
  assumes wf: "vec_wf v" and i: "i < vcount v"
  obtains v' where "ecs_vec_remove v i = Inr v'" "vec_wf v'" "vcount v' = vcount v - 1"
    "vec_elems v' = swap_removed i (vec_elems v)"
proof -
  let ?v = "v\<lparr>vcount := vcount v - 1\<rparr>"
  have lt: "vcount v - Suc 0 < length (varray v)" using wf i by (auto simp: vec_wf_def)
  have last: "last (take (vcount v) (varray v)) = varray v ! (vcount v - 1)"
    using wf i by (subst last_conv_nth) (auto simp: vec_wf_def)
  have but: "butlast (take (vcount v) (varray v)) = take (vcount v - 1) (varray v)"
    using wf by (simp add: butlast_take vec_wf_def)
  show thesis
  proof (cases "i = vcount v - 1")
    case True
    then have "ecs_vec_remove v i = Inr ?v"
      using i by (simp add: ecs_vec_remove_def)
    then show thesis
      using wf i True
      by (intro that[of ?v]) (auto simp: vec_wf_def vec_elems_def swap_removed_def but)
  next
    case False
    then have eq: "ecs_vec_remove v i = Inr (?v\<lparr>varray := (varray v)[i := varray v ! (vcount v - 1)]\<rparr>)"
      using i lt by (simp add: ecs_vec_remove_def)
    show thesis
      using wf i False
      by (intro that[OF eq]) (auto simp: vec_wf_def vec_elems_def swap_removed_def but last take_update_swap)
  qed
qed

lemma vec_remove_ordered:
  assumes wf: "vec_wf v" and i: "i < vcount v"
  obtains v' where "ecs_vec_remove_ordered v i = Inr v'" "vec_wf v'" "vcount v' = vcount v - 1"
    "vec_elems v' = take i (vec_elems v) @ drop (Suc i) (vec_elems v)"
proof -
  let ?n = "vcount v - 1"
  let ?v = "v\<lparr>vcount := ?n\<rparr>"
  have lt: "vcount v - Suc 0 < length (varray v)" using wf i by (auto simp: vec_wf_def)
  show thesis
  proof (cases "i = ?n")
    case True
    then have "ecs_vec_remove_ordered v i = Inr ?v"
      using i by (simp add: ecs_vec_remove_ordered_def Let_def)
    then show thesis
      using wf i True
      by (intro that[of ?v]) (auto simp: vec_wf_def vec_elems_def min_def)
  next
    case False
    let ?a = "cells_replace i (cells_between (i + 1) (?n - i) (varray v)) (varray v)"
    have eq: "ecs_vec_remove_ordered v i = Inr (?v\<lparr>varray := ?a\<rparr>)"
      using False i lt by (simp add: ecs_vec_remove_ordered_def Let_def)
    have len: "length ?a = length (varray v)"
      using wf i by (auto simp: cells_replace_def cells_between_def vec_wf_def min_def)
    have elems: "take ?n ?a = take i (take (vcount v) (varray v)) @ drop (Suc i) (take (vcount v) (varray v))"
      using wf i False
      by (auto simp: cells_replace_def cells_between_def vec_wf_def min_def drop_take)
    show thesis
      using wf i len elems lt by (intro that[OF eq]) (simp_all add: vec_wf_def vec_elems_def)
  qed
qed

section \<open>The interface of a growable array\<close>

lemma mset_swap_removed:
  assumes "i < length xs"
  shows "mset (swap_removed i xs) = mset xs - {#xs ! i#}"
proof -
  have xs: "mset xs = add_mset (last xs) (mset (butlast xs))"
    using assms by (metis append_butlast_last_id list.size(3) mset_append mset_single_iff not_less_zero
        add_mset_add_single mset.simps(1) mset.simps(2))
  show ?thesis
  proof (cases "Suc i = length xs")
    case True
    then have "xs ! i = last xs" by (metis diff_Suc_1 last_conv_nth assms list.size(3) not_less_zero)
    with True show ?thesis by (simp add: swap_removed_def xs)
  next
    case False
    then have "i < length (butlast xs)" using assms by simp
    moreover have "xs ! i = butlast xs ! i" using calculation by (simp add: nth_butlast)
    ultimately show ?thesis
      using False by (simp add: swap_removed_def xs mset_update)
  qed
qed

lemma take_drop_remove1:
  assumes "i < length xs" and "x \<notin> set (take i xs)" and "xs ! i = x"
  shows "take i xs @ drop (Suc i) xs = remove1 x xs"
proof -
  have "xs = take i xs @ x # drop (Suc i) xs"
    using id_take_nth_drop[OF assms(1)] assms(3) by simp
  then show ?thesis
    using assms(2) by (metis remove1_append remove1.simps(2))
qed

locale dyn_array =
  fixes wf :: "'v \<Rightarrow> bool" and elems :: "'v \<Rightarrow> 'e list" and cap :: nat
    and push :: "'v \<Rightarrow> 'e \<Rightarrow> 'v"
    and swap_remove :: "'v \<Rightarrow> nat \<Rightarrow> 'v res"
    and ordered_remove :: "'v \<Rightarrow> nat \<Rightarrow> 'v res"
  assumes push_wf: "wf v \<Longrightarrow> length (elems v) < cap \<Longrightarrow> wf (push v x)"
    and push_elems: "wf v \<Longrightarrow> length (elems v) < cap \<Longrightarrow> elems (push v x) = elems v @ [x]"
    and swap_remove: "wf v \<Longrightarrow> i < length (elems v) \<Longrightarrow>
      \<exists>v'. swap_remove v i = Inr v' \<and> wf v' \<and> elems v' = swap_removed i (elems v)"
    and ordered_remove: "wf v \<Longrightarrow> i < length (elems v) \<Longrightarrow>
      \<exists>v'. ordered_remove v i = Inr v' \<and> wf v' \<and> elems v' = take i (elems v) @ drop (Suc i) (elems v)"
begin

lemma push_all:
  "wf v \<Longrightarrow> length (elems v) + length xs \<le> cap \<Longrightarrow>
    wf (foldl push v xs) \<and> elems (foldl push v xs) = elems v @ xs"
proof (induction xs arbitrary: v)
  case (Cons x xs)
  then show ?case
    using Cons.IH[of "push v x"] push_wf[of v x] push_elems[of v x] by simp
qed simp

lemma swap_remove_mset:
  assumes "wf v" and "i < length (elems v)"
  shows "\<exists>v'. swap_remove v i = Inr v' \<and> wf v' \<and> mset (elems v') = mset (elems v) - {#elems v ! i#}"
  using swap_remove[OF assms] mset_swap_removed[OF assms(2)] by fastforce

lemma push_swap_remove:
  assumes "wf v" and "length (elems v) < cap"
  shows "\<exists>v'. swap_remove (push v x) (length (elems v)) = Inr v' \<and> wf v' \<and> elems v' = elems v"
proof -
  have "length (elems v) < length (elems (push v x))"
    using push_elems[OF assms] by simp
  from swap_remove[OF push_wf[OF assms] this] show ?thesis
    using push_elems[OF assms] by (auto simp: swap_removed_def)
qed

lemma ordered_remove_first:
  assumes "wf v" and "i < length (elems v)" and "elems v ! i = x" and "x \<notin> set (take i (elems v))"
  shows "\<exists>v'. ordered_remove v i = Inr v' \<and> wf v' \<and> elems v' = remove1 x (elems v)"
  using ordered_remove[OF assms(1,2)] take_drop_remove1[OF assms(2,4,3)] by metis

end

interpretation ev: dyn_array vec_wf vec_elems "2 ^ 30" vec_push ecs_vec_remove ecs_vec_remove_ordered
proof (unfold_locales, goal_cases)
  case (1 v x)
  then show ?case by (intro vec_append(1)) simp_all
next
  case (2 v x)
  then show ?case by (intro vec_append(2)) simp_all
next
  case (3 v i)
  then show ?case using vec_remove[of v i] by (metis length_vec_elems)
next
  case (4 v i)
  then show ?case using vec_remove_ordered[of v i] by (metis length_vec_elems)
qed

text \<open>
  Filling a fresh vector of any initial capacity by appends gives back exactly the
  appended values in order, however often the array was reallocated on the way.
\<close>

theorem vec_push_all:
  assumes "n \<le> 2 ^ 30" and "length xs \<le> 2 ^ 30"
  shows "vec_elems (foldl vec_push (ecs_vec_init n) xs) = xs"
proof -
  have init: "vec_wf (ecs_vec_init n :: 'a ecs_vec)" "vec_elems (ecs_vec_init n :: 'a ecs_vec) = []"
    using vec_init_wf[OF assms(1)] by auto
  then have "length (vec_elems (ecs_vec_init n :: 'a ecs_vec)) + length xs \<le> 2 ^ 30"
    using assms(2) by (simp only: list.size)
  from ev.push_all[OF init(1) this] init(2) show ?thesis by simp
qed

text \<open>
  Removing by index does not abort or touch memory outside the array, keeps the vector
  well formed, and removes exactly the addressed element: the remaining elements are the others,
  each as often as before.
\<close>

lemma vec_remove_mset:
  assumes "vec_wf v" and "i < vcount v"
  shows "\<exists>v'. ecs_vec_remove v i = Inr v' \<and> vec_wf v'
    \<and> mset (vec_elems v') = mset (vec_elems v) - {#vec_elems v ! i#}"
  using ev.swap_remove_mset[of v i] assms by simp

section \<open>Where the capacity arithmetic ends\<close>

text \<open>
  Claim C29: asking for a capacity above 2\^30 shrinks the array to two elements, because the
  round-up to a power of two overflows int32\_t and the result is then clamped from below.
\<close>

theorem vec_set_size_overflow:
  assumes "2 ^ 30 < n" and "n < 2 ^ 31" and "vcount v \<le> n" and "vsize v \<noteq> n"
  shows "vsize (ecs_vec_set_size v n) = 2"
  using next_pow2_overflow[of "int n"] assms
  by (auto simp: ecs_vec_set_size_def Let_def)

theorem vec_set_size_overflow_witness:
  "vsize (ecs_vec_set_size (ecs_vec_init 0 :: nat ecs_vec) (2 ^ 30 + 1)) = 2"
  by (rule vec_set_size_overflow) (simp_all add: ecs_vec_init_def ecs_vec_init_w_dbg_info_def)

end
