(* ===== verification/Ecs_Bitset.thy ===== *)
theory Ecs_Bitset
  imports Ecs_Vec
begin

text \<open>
  The bit set of datastructures/bitset.c, which a table uses for the enabled bits of its toggled
  components: bits packed into 64-bit words, read and written with shifts and masks. The null
  array is the empty list. Counts are naturals, so the checks \<open>elem >= 0\<close> hold by typing, and a
  count or size that int32\_t does not hold is an INT\_RANGE error: the capacity of the next multiple
  of 64 is computed whenever the storage grows, and it is past the range whenever the count is. For
  the size 0 the C division \<open>(size - 1) / 64\<close> truncates to 0, as natural subtraction does.
\<close>

section \<open>State and operations\<close>

record ecs_bitset =
  bs_data :: "u64 list"
  bs_count :: nat
  bs_size :: nat

definition realloc_words :: "u64 list \<Rightarrow> nat \<Rightarrow> u64 list" where
  "realloc_words ws n = take n ws @ replicate (n - length ws) uninit_u64"

text \<open>The assignment of the new capacity, \<open>((size - 1) / 64 + 1) * 64\<close> in int32\_t.\<close>

definition set_bit_size :: "ecs_bitset \<Rightarrow> nat \<Rightarrow> ecs_bitset res" where
  "set_bit_size bs sz =
     (let size = ((sz - 1) div 64 + 1) * 64
      in if int size < 2 ^ 31 then Inr (bs\<lparr>bs_size := size\<rparr>) else Inl INT_RANGE)"

definition flecs_bitset_ensure_size :: "ecs_bitset \<Rightarrow> nat \<Rightarrow> ecs_bitset res" where
  "flecs_bitset_ensure_size bs sz =
     (if bs_size bs = 0 then
        let new_words = (sz - 1) div 64 + 1
        in res_bind (set_bit_size bs sz) (\<lambda>bs. Inr (bs\<lparr>bs_data := replicate new_words 0\<rparr>))
      else if sz > bs_size bs then
        let prev_words = (bs_size bs - 1) div 64 + 1 in
        res_bind (set_bit_size bs sz) (\<lambda>bs.
        let new_words = (sz - 1) div 64 + 1;
            data = realloc_words (bs_data bs) new_words
        in Inr (bs\<lparr>bs_data := take prev_words data @ replicate (new_words - prev_words) 0\<rparr>))
      else Inr bs)"

definition flecs_bitset_init :: ecs_bitset where
  "flecs_bitset_init = \<lparr>bs_data = [], bs_count = 0, bs_size = 0\<rparr>"

definition flecs_bitset_ensure :: "ecs_bitset \<Rightarrow> nat \<Rightarrow> ecs_bitset res" where
  "flecs_bitset_ensure bs n =
     (if n > bs_count bs then flecs_bitset_ensure_size (bs\<lparr>bs_count := n\<rparr>) n else Inr bs)"

definition flecs_bitset_fini :: "ecs_bitset \<Rightarrow> ecs_bitset" where
  "flecs_bitset_fini bs = bs\<lparr>bs_data := [], bs_count := 0\<rparr>"

definition flecs_bitset_addn :: "ecs_bitset \<Rightarrow> nat \<Rightarrow> ecs_bitset res" where
  "flecs_bitset_addn bs n =
     (let elem = bs_count bs + n
      in flecs_bitset_ensure_size (bs\<lparr>bs_count := elem\<rparr>) elem)"

definition flecs_bitset_set :: "ecs_bitset \<Rightarrow> nat \<Rightarrow> bool \<Rightarrow> ecs_bitset res" where
  "flecs_bitset_set bs elem value =
     ecs_assert (elem < bs_count bs) ECS_INVALID_PARAMETER
       (let hi = drop_bit 6 elem;
            lo = elem AND 0x3F
        in res_bind (mem_get (bs_data bs) hi) (\<lambda>v.
           res_bind (mem_set (bs_data bs) hi
             ((v AND NOT (push_bit lo 1)) OR push_bit lo (of_bool value))) (\<lambda>data.
           Inr (bs\<lparr>bs_data := data\<rparr>))))"

definition flecs_bitset_get :: "ecs_bitset \<Rightarrow> nat \<Rightarrow> bool res" where
  "flecs_bitset_get bs elem =
     ecs_assert (elem < bs_count bs) ECS_INVALID_PARAMETER
       (res_bind (mem_get (bs_data bs) (drop_bit 6 elem)) (\<lambda>w.
        Inr (w AND push_bit (elem AND 0x3F) 1 \<noteq> 0)))"

definition flecs_bitset_count :: "ecs_bitset \<Rightarrow> nat" where
  "flecs_bitset_count bs = bs_count bs"

definition flecs_bitset_remove :: "ecs_bitset \<Rightarrow> nat \<Rightarrow> ecs_bitset res" where
  "flecs_bitset_remove bs elem =
     ecs_assert (elem < bs_count bs) ECS_INVALID_PARAMETER
       (let last = bs_count bs - 1 in
        res_bind (flecs_bitset_get bs last) (\<lambda>last_value.
        res_bind (flecs_bitset_set bs elem last_value) (\<lambda>bs.
        res_bind (flecs_bitset_set bs last False) (\<lambda>bs.
        Inr (bs\<lparr>bs_count := bs_count bs - 1\<rparr>)))))"

definition flecs_bitset_swap :: "ecs_bitset \<Rightarrow> nat \<Rightarrow> nat \<Rightarrow> ecs_bitset res" where
  "flecs_bitset_swap bs elem_a elem_b =
     ecs_assert (elem_a < bs_count bs) ECS_INVALID_PARAMETER
     (ecs_assert (elem_b < bs_count bs) ECS_INVALID_PARAMETER
       (res_bind (flecs_bitset_get bs elem_a) (\<lambda>a.
        res_bind (flecs_bitset_get bs elem_b) (\<lambda>b.
        res_bind (flecs_bitset_set bs elem_a b) (\<lambda>bs.
        flecs_bitset_set bs elem_b a)))))"

section \<open>The list of booleans it stands for\<close>

definition bs_bit :: "ecs_bitset \<Rightarrow> nat \<Rightarrow> bool" where
  "bs_bit bs i \<longleftrightarrow> bit (bs_data bs ! (i div 64)) (i mod 64)"

definition bs_list :: "ecs_bitset \<Rightarrow> bool list" where
  "bs_list bs = map (bs_bit bs) [0..<bs_count bs]"

text \<open>
  The bits above the count are clear: a bit that becomes part of the set reads as false. The largest
  capacity is the largest multiple of 64 in int32\_t.
\<close>

definition bs_max :: nat where "bs_max = 2 ^ 31 - 64"

definition bs_wf :: "ecs_bitset \<Rightarrow> bool" where
  "bs_wf bs \<longleftrightarrow> bs_size bs = 64 * length (bs_data bs) \<and> bs_count bs \<le> bs_size bs \<and> bs_size bs < 2 ^ 31
     \<and> (\<forall>i. bs_count bs \<le> i \<and> i < bs_size bs \<longrightarrow> \<not> bs_bit bs i)"

lemma elem_word: "drop_bit 6 (i::nat) = i div 64" "(i::nat) AND 0x3F = i mod 64"
proof -
  show "drop_bit 6 i = i div 64" by (simp add: drop_bit_eq_div)
  have "i AND mask 6 = i mod 64" unfolding take_bit_eq_mask[symmetric] by (simp add: take_bit_eq_mod)
  then show "i AND 0x3F = i mod 64" by (simp add: mask_eq_exp_minus_1)
qed

lemma and_single_bit: "w AND push_bit k 1 \<noteq> 0 \<longleftrightarrow> bit (w::u64) k"
proof -
  have "w AND 2 ^ k = (if bit w k then 2 ^ k else 0)"
    by (intro bit_word_eqI) (auto simp: bit_and_iff bit_exp_iff)
  moreover have "(2::u64) ^ k \<noteq> 0" if "bit w k"
    using bit_imp_le_length[OF that] by simp
  ultimately show ?thesis by (auto simp: push_bit_of_1)
qed

lemma bit_replace:
  assumes "k < 64" "j < 64"
  shows "bit ((w AND NOT (push_bit k 1)) OR push_bit k (of_bool b) :: u64) j \<longleftrightarrow> (if j = k then b else bit w j)"
  using assms by (cases b) (auto simp: bit_or_iff bit_and_iff bit_not_iff push_bit_of_1 bit_exp_iff)

lemma length_bs_list [simp]: "length (bs_list bs) = bs_count bs"
  by (simp add: bs_list_def)

lemma nth_bs_list [simp]: "i < bs_count bs \<Longrightarrow> bs_list bs ! i = bs_bit bs i"
  by (simp add: bs_list_def)

lemma bs_init_wf: "bs_wf flecs_bitset_init" "bs_list flecs_bitset_init = []"
  by (simp_all add: bs_wf_def flecs_bitset_init_def bs_list_def)

lemma bitset_get:
  assumes "bs_wf bs" and "i < bs_count bs"
  shows "flecs_bitset_get bs i = Inr (bs_bit bs i)"
proof -
  have "i div 64 < length (bs_data bs)"
    using assms by (auto simp: bs_wf_def)
  with assms(2) show ?thesis
    unfolding flecs_bitset_get_def elem_word and_single_bit bs_bit_def
    by (simp only: ecs_assert_simps mem_get_simps res_bind_simps)
qed

lemma bitset_set:
  assumes wf: "bs_wf bs" and i: "i < bs_count bs"
  obtains bs' where "flecs_bitset_set bs i b = Inr bs'" "bs_wf bs'" "bs_count bs' = bs_count bs"
    "bs_size bs' = bs_size bs" "\<And>j. j < bs_size bs \<Longrightarrow> bs_bit bs' j = (if j = i then b else bs_bit bs j)"
proof -
  have lt: "i div 64 < length (bs_data bs)"
    using assms by (auto simp: bs_wf_def)
  define w where "w = bs_data bs ! (i div 64)"
  define w' where "w' = (w AND NOT (push_bit (i mod 64) 1)) OR push_bit (i mod 64) (of_bool b)"
  define bs' where "bs' = bs\<lparr>bs_data := (bs_data bs)[i div 64 := w']\<rparr>"
  have eq: "flecs_bitset_set bs i b = Inr bs'"
    using lt i unfolding flecs_bitset_set_def elem_word w'_def w_def bs'_def Let_def
    by (simp only: ecs_assert_simps mem_get_simps mem_set_simps res_bind_simps)
  have bits: "bs_bit bs' j = (if j = i then b else bs_bit bs j)" if "j < bs_size bs" for j
  proof -
    have j: "j div 64 < length (bs_data bs)" using that wf by (auto simp: bs_wf_def)
    show ?thesis
    proof (cases "j div 64 = i div 64")
      case True
      then have "j = i \<longleftrightarrow> j mod 64 = i mod 64"
        by (metis div_mult_mod_eq)
      moreover have "bit w' (j mod 64) = (if j mod 64 = i mod 64 then b else bit w (j mod 64))"
        unfolding w'_def by (rule bit_replace) simp_all
      ultimately show ?thesis
        using True j lt by (simp add: bs_bit_def bs'_def w_def)
    next
      case False
      then show ?thesis by (auto simp: bs_bit_def bs'_def)
    qed
  qed
  show thesis
  proof (rule that[OF eq])
    show "bs_wf bs'" using wf i bits by (auto simp: bs_wf_def bs'_def)
    show "\<And>j. j < bs_size bs \<Longrightarrow> bs_bit bs' j = (if j = i then b else bs_bit bs j)" by (rule bits)
  qed (simp_all add: bs'_def)
qed

lemma bit_size_range: "((n - 1) div 64 + 1) * 64 < 2 ^ 31 \<longleftrightarrow> n \<le> bs_max" for n :: nat
proof -
  have "((n - 1) div 64 + 1) * 64 < 33554432 * 64 \<longleftrightarrow> (n - 1) div 64 + 1 < 33554432" by (rule mult_less_cancel2[THEN trans]) simp
  also have "\<dots> \<longleftrightarrow> (n - 1) div 64 < 33554431" by linarith
  also have "\<dots> \<longleftrightarrow> n - 1 < 33554431 * 64" by (rule div_less_iff_less_mult) simp
  also have "\<dots> \<longleftrightarrow> n \<le> 2147483584" by linarith
  finally show ?thesis by (simp add: bs_max_def)
qed

lemma bs_size_max:
  assumes "bs_wf bs"
  shows "bs_size bs \<le> bs_max"
proof -
  have "64 * length (bs_data bs) < 64 * 33554432" using assms by (simp add: bs_wf_def)
  then have "length (bs_data bs) < 33554432" by linarith
  with assms show ?thesis by (simp add: bs_wf_def bs_max_def)
qed

lemma bitset_ensure_size:
  fixes n :: nat
  assumes size: "bs_size bs = 64 * length (bs_data bs)" "bs_size bs < 2 ^ 31" and n: "n \<le> bs_max"
  obtains bs' where "flecs_bitset_ensure_size bs n = Inr bs'"
    "bs_size bs' = 64 * length (bs_data bs')" "n \<le> bs_size bs'" "bs_size bs \<le> bs_size bs'" "bs_size bs' < 2 ^ 31"
    "bs_count bs' = bs_count bs"
    "\<And>i. i < bs_size bs' \<Longrightarrow> bs_bit bs' i \<longleftrightarrow> i < bs_size bs \<and> bs_bit bs i"
proof -
  note result = that
  have words: "n \<le> ((n - 1) div 64 + 1) * 64" by (cases n) auto
  note range = bit_size_range[of n, THEN iffD2, OF n]
  show thesis
  proof (cases "bs_size bs = 0")
    case True
    define k where "k = (n - 1) div 64 + 1"
    have "flecs_bitset_ensure_size bs n = Inr (bs\<lparr>bs_size := k * 64, bs_data := replicate k 0\<rparr>)"
      using True range by (simp add: flecs_bitset_ensure_size_def set_bit_size_def Let_def k_def)
    then show thesis
      using True words range unfolding k_def[symmetric]
      by (elim result) (auto simp: bs_bit_def less_mult_imp_div_less)
  next
    case False
    then have prev: "(bs_size bs - 1) div 64 + 1 = length (bs_data bs)"
      using size(1) by (cases "length (bs_data bs)") auto
    show thesis
    proof (cases "bs_size bs < n")
      case True
      define k where "k = (n - 1) div 64 + 1"
      have k: "length (bs_data bs) \<le> k" using True size words unfolding k_def by linarith
      have r: "k * 64 < 2 ^ 31" using range by (simp only: k_def)
      have bs': "flecs_bitset_ensure_size bs n = Inr (bs\<lparr>bs_size := k * 64,
          bs_data := bs_data bs @ replicate (k - length (bs_data bs)) 0\<rparr>)"
        using False True k r unfolding flecs_bitset_ensure_size_def set_bit_size_def Let_def prev k_def[symmetric]
        by (simp add: realloc_words_def)
      show thesis
        using True k size words r unfolding k_def[symmetric]
        by (intro result[OF bs']) (auto simp: bs_bit_def nth_append less_mult_imp_div_less)
    next
      case False
      with \<open>bs_size bs \<noteq> 0\<close> have "flecs_bitset_ensure_size bs n = Inr bs"
        by (simp add: flecs_bitset_ensure_size_def)
      then show thesis using size False by (elim result) auto
    qed
  qed
qed

lemma bitset_ensure_size_range:
  assumes "bs_size bs \<le> bs_max" "bs_max < n"
  shows "flecs_bitset_ensure_size bs n = Inl INT_RANGE"
proof -
  have "\<not> ((n - 1) div 64 + 1) * 64 < 2 ^ 31" using bit_size_range[of n] assms(2) by linarith
  then show ?thesis using assms by (simp add: flecs_bitset_ensure_size_def set_bit_size_def)
qed

lemma bitset_addn:
  assumes wf: "bs_wf bs" and n: "bs_count bs + n \<le> bs_max"
  obtains bs' where "flecs_bitset_addn bs n = Inr bs'" "bs_wf bs'" "bs_list bs' = bs_list bs @ replicate n False"
proof -
  note result = that
  let ?b = "bs\<lparr>bs_count := bs_count bs + n\<rparr>"
  have size: "bs_size ?b = 64 * length (bs_data ?b)" "bs_size ?b < 2 ^ 31" using wf by (simp_all add: bs_wf_def)
  obtain c where e: "flecs_bitset_ensure_size ?b (bs_count bs + n) = Inr c"
    "bs_size c = 64 * length (bs_data c)" "bs_count bs + n \<le> bs_size c" "bs_size ?b \<le> bs_size c" "bs_size c < 2 ^ 31"
    "bs_count c = bs_count ?b"
    "\<And>i. i < bs_size c \<Longrightarrow> bs_bit c i \<longleftrightarrow> i < bs_size ?b \<and> bs_bit ?b i"
    by (rule bitset_ensure_size[OF size n]) blast
  have upd: "bs_bit ?b i = bs_bit bs i" for i by (simp add: bs_bit_def)
  have old: "i < bs_size bs" if "i < bs_count bs" for i using wf that by (simp add: bs_wf_def)
  have tail: "\<not> (i < bs_size bs \<and> bs_bit bs i)" if "bs_count bs \<le> i" for i
    using wf that by (auto simp: bs_wf_def)
  show thesis
  proof (rule result[of c])
    show "flecs_bitset_addn bs n = Inr c" using e(1) by (simp add: flecs_bitset_addn_def Let_def)
    show "bs_wf c" unfolding bs_wf_def using e tail by (auto simp: upd)
    show "bs_list c = bs_list bs @ replicate n False"
    proof (rule nth_equalityI)
      fix i assume "i < length (bs_list c)"
      then have i: "i < bs_count bs + n" using e(6) by simp
      then have "bs_bit c i \<longleftrightarrow> i < bs_size bs \<and> bs_bit bs i"
        using e(3) e(7)[of i] by (simp add: upd)
      then show "bs_list c ! i = (bs_list bs @ replicate n False) ! i"
        using i e(6) old tail by (cases "i < bs_count bs") (simp_all add: nth_append)
    qed (use e(6) in simp)
  qed
qed

lemma bitset_addn_range:
  assumes "bs_wf bs" "bs_max < bs_count bs + n"
  shows "flecs_bitset_addn bs n = Inl INT_RANGE"
  using assms bs_size_max[of bs] by (simp add: flecs_bitset_addn_def bitset_ensure_size_range)

lemma bitset_ensure:
  assumes "bs_wf bs" "n \<le> bs_max"
  obtains bs' where "flecs_bitset_ensure bs n = Inr bs'" "bs_wf bs'"
    "bs_list bs' = bs_list bs @ replicate (n - bs_count bs) False"
proof -
  note result = that
  show thesis
  proof (cases "bs_count bs < n")
    case True
    then have "flecs_bitset_ensure bs n = flecs_bitset_addn bs (n - bs_count bs)"
      by (simp add: flecs_bitset_ensure_def flecs_bitset_addn_def Let_def)
    with True assms(2) bitset_addn[OF assms(1), of "n - bs_count bs"] show thesis by (metis result less_imp_le le_add_diff_inverse)
  next
    case False
    with assms show thesis by (intro result[of bs]) (simp_all add: flecs_bitset_ensure_def)
  qed
qed

lemma bitset_ensure_range:
  assumes "bs_wf bs" "bs_max < n"
  shows "flecs_bitset_ensure bs n = Inl INT_RANGE"
proof -
  have "bs_count bs < n" using assms bs_size_max[of bs] by (simp add: bs_wf_def)
  then show ?thesis using assms bs_size_max[of bs] by (simp add: flecs_bitset_ensure_def bitset_ensure_size_range)
qed

lemma bs_list_set:
  assumes "bs_count bs' = bs_count bs" "i < bs_count bs"
    and "\<And>j. j < bs_count bs \<Longrightarrow> bs_bit bs' j = (if j = i then b else bs_bit bs j)"
  shows "bs_list bs' = (bs_list bs)[i := b]"
  using assms by (intro nth_equalityI) (auto simp: nth_list_update)

lemma bitset_set_list:
  assumes "bs_wf bs" and "i < bs_count bs"
  obtains bs' where "flecs_bitset_set bs i b = Inr bs'" "bs_wf bs'" "bs_count bs' = bs_count bs"
    "bs_list bs' = (bs_list bs)[i := b]"
proof -
  obtain bs' where bs': "flecs_bitset_set bs i b = Inr bs'" "bs_wf bs'" "bs_count bs' = bs_count bs"
    "\<And>j. j < bs_size bs \<Longrightarrow> bs_bit bs' j = (if j = i then b else bs_bit bs j)"
    using bitset_set[OF assms] by metis
  have "bs_list bs' = (bs_list bs)[i := b]"
    using bs'(3,4) assms by (intro bs_list_set) (auto simp: bs_wf_def)
  with bs' show thesis by (intro that)
qed

lemma bitset_remove:
  assumes wf: "bs_wf bs" and i: "i < bs_count bs"
  obtains bs' where "flecs_bitset_remove bs i = Inr bs'" "bs_wf bs'"
    "bs_list bs' = swap_removed i (bs_list bs)"
proof -
  let ?l = "bs_count bs - 1"
  have l: "?l < bs_count bs" using i by simp
  obtain b1 where b1: "flecs_bitset_set bs i (bs_bit bs ?l) = Inr b1" "bs_wf b1"
    "bs_count b1 = bs_count bs" "bs_list b1 = (bs_list bs)[i := bs_bit bs ?l]"
    using bitset_set_list[OF wf i] by metis
  obtain b2 where b2: "flecs_bitset_set b1 ?l False = Inr b2" "bs_wf b2"
    "bs_count b2 = bs_count b1" "bs_list b2 = (bs_list b1)[?l := False]"
    using bitset_set_list[of b1 ?l False] b1 l by metis
  let ?r = "b2\<lparr>bs_count := ?l\<rparr>"
  have eq: "flecs_bitset_remove bs i = Inr ?r"
    using i b1 b2 bitset_get[OF wf l] by (simp add: flecs_bitset_remove_def Let_def)
  have bit: "bs_bit ?r j = bs_bit b2 j" for j by (simp add: bs_bit_def)
  have last_clear: "\<not> bs_bit b2 ?l"
    using b2 b1 l nth_bs_list[of ?l b2] by simp
  have tail: "\<not> bs_bit ?r j" if "?l \<le> j" "j < bs_size b2" for j
  proof (cases "j = ?l")
    case True
    then show ?thesis using last_clear bit by simp
  next
    case False
    then have "bs_count b2 \<le> j" using that b1(3) b2(3) i by linarith
    then show ?thesis using b2(2) that(2) bit by (simp add: bs_wf_def)
  qed
  have "bs_wf ?r"
    using b2(2) tail b1(3) b2(3) by (auto simp: bs_wf_def)
  moreover have "bs_list ?r = swap_removed i (bs_list bs)"
  proof (rule nth_equalityI)
    show "length (bs_list ?r) = length (swap_removed i (bs_list bs))"
      by (simp add: swap_removed_def)
    fix j
    assume "j < length (bs_list ?r)"
    then have j: "j < ?l" by simp
    have "bs_list bs \<noteq> []" using i by (metis length_bs_list list.size(3) not_less_zero)
    then have last: "last (bs_list bs) = bs_bit bs ?l"
      using l by (simp add: last_conv_nth)
    have "bs_list ?r ! j = bs_list b2 ! j"
      using j b1(3) b2(3) bit by simp
    also have "\<dots> = (bs_list bs)[i := bs_bit bs ?l] ! j"
      unfolding b2(4) b1(4) using j by simp
    also have "\<dots> = swap_removed i (bs_list bs) ! j"
      using j i last by (cases "j = i") (auto simp: swap_removed_def nth_butlast)
    finally show "bs_list ?r ! j = swap_removed i (bs_list bs) ! j" .
  qed
  ultimately show thesis by (intro that[OF eq])
qed

lemma bitset_swap:
  assumes wf: "bs_wf bs" and ij: "i < bs_count bs" "j < bs_count bs"
  obtains bs' where "flecs_bitset_swap bs i j = Inr bs'" "bs_wf bs'"
    "bs_list bs' = (bs_list bs)[i := bs_list bs ! j, j := bs_list bs ! i]"
proof -
  obtain b1 where b1: "flecs_bitset_set bs i (bs_bit bs j) = Inr b1" "bs_wf b1"
    "bs_count b1 = bs_count bs" "bs_list b1 = (bs_list bs)[i := bs_bit bs j]"
    using bitset_set_list[OF wf ij(1)] by metis
  obtain b2 where b2: "flecs_bitset_set b1 j (bs_bit bs i) = Inr b2" "bs_wf b2"
    "bs_list b2 = (bs_list b1)[j := bs_bit bs i]"
    using bitset_set_list[of b1 j "bs_bit bs i"] b1 ij by metis
  have "flecs_bitset_swap bs i j = Inr b2"
    using ij b1 b2 bitset_get[OF wf] by (simp add: flecs_bitset_swap_def)
  then show thesis
    using b1 b2 ij by (intro that[of b2]) simp_all
qed

section \<open>Runs of operations\<close>

text \<open>
  A caller's sequence of operations, on the packed words and on the list of booleans; an index
  outside the set aborts, and so does growing past the range of int32\_t.
\<close>

datatype bs_op = BsAddn nat | BsEnsure nat | BsSet nat bool | BsRemove nat | BsSwap nat nat

fun bs_exec :: "bs_op \<Rightarrow> ecs_bitset \<Rightarrow> ecs_bitset res" where
  "bs_exec (BsAddn n) bs = flecs_bitset_addn bs n"
| "bs_exec (BsEnsure n) bs = flecs_bitset_ensure bs n"
| "bs_exec (BsSet i b) bs = flecs_bitset_set bs i b"
| "bs_exec (BsRemove i) bs = flecs_bitset_remove bs i"
| "bs_exec (BsSwap i j) bs = flecs_bitset_swap bs i j"

fun bs_spec :: "bs_op \<Rightarrow> bool list \<Rightarrow> bool list res" where
  "bs_spec (BsAddn n) xs =
     (if length xs + n \<le> bs_max then Inr (xs @ replicate n False) else Inl INT_RANGE)"
| "bs_spec (BsEnsure n) xs =
     (if n \<le> bs_max then Inr (xs @ replicate (n - length xs) False) else Inl INT_RANGE)"
| "bs_spec (BsSet i b) xs =
     (if i < length xs then Inr (xs[i := b]) else Inl ECS_INVALID_PARAMETER)"
| "bs_spec (BsRemove i) xs =
     (if i < length xs then Inr (swap_removed i xs) else Inl ECS_INVALID_PARAMETER)"
| "bs_spec (BsSwap i j) xs =
     (if i < length xs \<and> j < length xs then Inr (xs[i := xs ! j, j := xs ! i])
      else Inl ECS_INVALID_PARAMETER)"

fun bs_run :: "bs_op list \<Rightarrow> ecs_bitset \<Rightarrow> ecs_bitset res" where
  "bs_run [] bs = Inr bs"
| "bs_run (x # xs) bs = res_bind (bs_exec x bs) (bs_run xs)"

fun bs_spec_run :: "bs_op list \<Rightarrow> bool list \<Rightarrow> bool list res" where
  "bs_spec_run [] xs = Inr xs"
| "bs_spec_run (y # ys) xs = res_bind (bs_spec y xs) (bs_spec_run ys)"

lemma bs_exec_simulates:
  assumes "bs_wf bs"
  shows "(case bs_exec x bs of
            Inl e \<Rightarrow> bs_spec x (bs_list bs) = Inl e
          | Inr bs' \<Rightarrow> bs_wf bs' \<and> bs_spec x (bs_list bs) = Inr (bs_list bs'))"
proof (cases x)
  case (BsAddn n)
  show ?thesis
  proof (cases "bs_count bs + n \<le> bs_max")
    case True
    then show ?thesis using bitset_addn[OF assms True] BsAddn by force
  qed (use assms in \<open>simp add: BsAddn bitset_addn_range\<close>)
next
  case (BsEnsure n)
  show ?thesis
  proof (cases "n \<le> bs_max")
    case True
    then show ?thesis using bitset_ensure[OF assms True] BsEnsure by force
  qed (use assms in \<open>simp add: BsEnsure bitset_ensure_range\<close>)
next
  case (BsSet i b)
  show ?thesis
  proof (cases "i < bs_count bs")
    case True
    then show ?thesis using bitset_set_list[OF assms True, of b] BsSet by force
  qed (simp add: BsSet flecs_bitset_set_def)
next
  case (BsRemove i)
  show ?thesis
  proof (cases "i < bs_count bs")
    case True
    then show ?thesis using bitset_remove[OF assms True] BsRemove by force
  qed (simp add: BsRemove flecs_bitset_remove_def)
next
  case (BsSwap i j)
  show ?thesis
  proof (cases "i < bs_count bs \<and> j < bs_count bs")
    case True
    then show ?thesis using bitset_swap[OF assms, of i j] BsSwap by force
  qed (auto simp: BsSwap flecs_bitset_swap_def ecs_assert_def)
qed

lemma bs_run_simulates:
  "bs_wf bs \<Longrightarrow> (case bs_run xs bs of
      Inl e \<Rightarrow> bs_spec_run xs (bs_list bs) = Inl e
    | Inr bs' \<Rightarrow> bs_wf bs' \<and> bs_spec_run xs (bs_list bs) = Inr (bs_list bs'))"
proof (induction xs arbitrary: bs)
  case (Cons x xs)
  show ?case
  proof (cases "bs_exec x bs")
    case (Inr b)
    then have "bs_wf b" "bs_spec x (bs_list bs) = Inr (bs_list b)"
      using bs_exec_simulates[OF Cons.prems, of x] by simp_all
    with Inr Cons.IH[of b] show ?thesis by (simp split: sum.splits)
  qed (use bs_exec_simulates[OF Cons.prems, of x] in simp)
qed simp

text \<open>
  Claim C27: any sequence of operations on a fresh bit set, started from the empty list of
  booleans on the specification side, gives the specified list or aborts exactly where the
  specification does, with the same error: at an index outside of the set, and at the operation that would
  take the count over 2\^31 - 64 bits, where the capacity leaves int32\_t. The packed
  representation never reads or writes outside its words.
\<close>

theorem bitset_refines_list:
  "map_sum (\<lambda>e. e) bs_list (bs_run xs flecs_bitset_init) = bs_spec_run xs []"
  using bs_run_simulates[OF bs_init_wf(1), of xs] bs_init_wf(2)
  by (cases "bs_run xs flecs_bitset_init") simp_all

text \<open>
  Claim C28: a bit set that was finalised after it held a word must not be used again. The
  function releases the words and the count but keeps the capacity, so adding bits allocates
  nothing and the next write goes through a null pointer. (The table code finalises the source
  bit sets of a merge and keeps the table.)
\<close>

theorem bitset_reuse_after_fini_faults:
  assumes "0 < n" and "n \<le> bs_size bs"
  shows "res_bind (flecs_bitset_addn (flecs_bitset_fini bs) n) (\<lambda>bs. flecs_bitset_set bs 0 b) = Inl MEMORY_FAULT"
  using assms
  by (simp add: flecs_bitset_fini_def flecs_bitset_addn_def flecs_bitset_ensure_size_def
      flecs_bitset_set_def)

theorem bitset_reuse_after_fini_faults_witness:
  "res_bind (flecs_bitset_addn flecs_bitset_init 3) (\<lambda>bs.
   res_bind (flecs_bitset_addn (flecs_bitset_fini bs) 1) (\<lambda>bs. flecs_bitset_set bs 0 True)) = Inl MEMORY_FAULT"
proof -
  have "flecs_bitset_addn flecs_bitset_init 3 = Inr \<lparr>bs_data = [0], bs_count = 3, bs_size = 64\<rparr>"
    by (simp add: flecs_bitset_addn_def flecs_bitset_ensure_size_def set_bit_size_def flecs_bitset_init_def)
  moreover have "res_bind (flecs_bitset_addn (flecs_bitset_fini \<lparr>bs_data = [0], bs_count = 3, bs_size = 64\<rparr>) 1)
      (\<lambda>bs. flecs_bitset_set bs 0 True) = Inl MEMORY_FAULT"
    by (rule bitset_reuse_after_fini_faults) simp_all
  ultimately show ?thesis by simp
qed

end
