(* ===== verification/Ecs_Map.thy ===== *)
theory Ecs_Map
  imports Ecs_Vec "HOL-Library.Signed_Division"
begin

text \<open>
  The hash map of datastructures/map.c: 64-bit keys, 64-bit payloads, one chain of entries per
  bucket. A chain is the list of its entries in link order; a pointer to an entry is the entry's
  key, which is unique in the map, so that a pointer to an entry that was removed is one that
  no longer resolves. The payload type is a parameter with a zero: the code keeps integers and
  pointers to objects of many types in the same word. Counts are naturals (the 26-bit count wraps,
  the 6-bit shift is reduced), what is computed as int32\_t is an int.
\<close>

section \<open>State\<close>

record 'v ecs_map =
  mbuckets :: "(u64 \<times> 'v) list list"
  bucket_count :: nat
  mcount :: nat
  bucket_shift :: nat
  change_count :: i32
  last_iterated :: u64

record ecs_map_iter_t =
  it_map :: bool
  it_bucket :: "nat option"
  it_entry :: "u64 option"
  it_res :: "u64 option"
  it_change_count :: i32

section \<open>Operations\<close>

text \<open>The de Bruijn table; the or-with-shift steps are those of \<open>smear_all\<close>.\<close>

definition log2table :: "nat list" where
  "log2table = [0, 9, 1, 10, 13, 21, 2, 29, 11, 14, 16, 18, 22, 25, 3, 30,
                8, 12, 20, 28, 15, 17, 24, 7, 19, 27, 23, 6, 26, 5, 4, 31]"

definition flecs_log2 :: "u32 \<Rightarrow> nat" where
  "flecs_log2 v = (let v = smear_all v in log2table ! unat (drop_bit 27 (v * 0x07C4ACDD)))"

text \<open>
  The factor 0.1 is the double 3602879701896397 / 2\^55. The product of it and an int32\_t lies at
  most a relative 2\^-53 off the exact product, which does not move it across an integer here, so
  the conversion to int32\_t truncates the exact product.
\<close>

definition flecs_map_get_bucket_count :: "int \<Rightarrow> int" where
  "flecs_map_get_bucket_count n = next_pow2 ((n * 12 * 3602879701896397) sdiv 2 ^ 55)"

definition flecs_map_get_bucket_shift :: "int \<Rightarrow> nat" where
  "flecs_map_get_bucket_shift n = nat ((64 - int (flecs_log2 (word_of_int n))) mod 2 ^ 8)"

definition flecs_map_get_bucket_index :: "nat \<Rightarrow> u64 \<Rightarrow> int res" where
  "flecs_map_get_bucket_index shift key =
     ecs_assert (shift \<noteq> 0) ECS_INTERNAL_ERROR
       (Inr (sint (ucast (drop_bit shift (11400714819323198485 * key)) :: i32)))"

definition flecs_map_get_bucket :: "'v ecs_map \<Rightarrow> u64 \<Rightarrow> nat res" where
  "flecs_map_get_bucket m key =
     res_bind (flecs_map_get_bucket_index (bucket_shift m) key) (\<lambda>bucket_id.
     ecs_assert (bucket_id < int (bucket_count m)) ECS_INTERNAL_ERROR
       (int_index bucket_id))"

definition flecs_map_bucket_add :: "'v \<Rightarrow> (u64 \<times> 'v) list \<Rightarrow> u64 \<Rightarrow> (u64 \<times> 'v) list" where
  "flecs_map_bucket_add v bucket key = (key, v) # bucket"

text \<open>The new chain and the removed value; None when the key is not in the chain.\<close>

fun flecs_map_bucket_remove :: "(u64 \<times> 'v) list \<Rightarrow> u64 \<Rightarrow> ((u64 \<times> 'v) list \<times> 'v) option" where
  "flecs_map_bucket_remove [] key = None"
| "flecs_map_bucket_remove ((k, v) # next) key =
     (if k = key then Some (next, v)
      else case flecs_map_bucket_remove next key of
        None \<Rightarrow> None | Some (next', w) \<Rightarrow> Some ((k, v) # next', w))"

fun flecs_map_bucket_get :: "(u64 \<times> 'v) list \<Rightarrow> u64 \<Rightarrow> 'v option" where
  "flecs_map_bucket_get [] key = None"
| "flecs_map_bucket_get ((k, v) # next) key =
     (if k = key then Some v else flecs_map_bucket_get next key)"

text \<open>The body of the remapping loop: one entry is linked to the front of its new bucket.\<close>

definition rehash_entry ::
    "nat \<Rightarrow> (u64 \<times> 'v) list list \<Rightarrow> u64 \<times> 'v \<Rightarrow> (u64 \<times> 'v) list list res" where
  "rehash_entry shift bs entry =
     res_bind (flecs_map_get_bucket_index shift (fst entry)) (\<lambda>bucket_index.
     res_bind (int_index bucket_index) (\<lambda>i.
     res_bind (mem_get bs i) (\<lambda>bucket.
     mem_set bs i (entry # bucket))))"

definition flecs_map_rehash :: "'v ecs_map \<Rightarrow> int \<Rightarrow> 'v ecs_map res" where
  "flecs_map_rehash m cnt =
     (let cnt = next_pow2 cnt;
          cnt = (if cnt < 2 then 2 else cnt);
          old_count = bucket_count m;
          shift = flecs_map_get_bucket_shift cnt mod 2 ^ 6
      in if length (mbuckets m) < old_count then Inl MEMORY_FAULT
         else res_bind (res_fold (res_fold (rehash_entry shift)) (replicate (nat cnt) [])
                          (take old_count (mbuckets m))) (\<lambda>bs.
              Inr (m\<lparr>mbuckets := bs, bucket_count := nat cnt, bucket_shift := shift\<rparr>)))"

definition zero_map :: "'v ecs_map" where
  "zero_map = \<lparr>mbuckets = [], bucket_count = 0, mcount = 0, bucket_shift = 0,
     change_count = 0, last_iterated = 0\<rparr>"

definition ecs_map_is_init :: "'v ecs_map \<Rightarrow> bool" where
  "ecs_map_is_init m \<longleftrightarrow> bucket_shift m \<noteq> 0"

definition ecs_map_count :: "'v ecs_map \<Rightarrow> nat" where
  "ecs_map_count m = mcount m"

definition ecs_map_init :: "'v ecs_map res" where
  "ecs_map_init = flecs_map_rehash zero_map 0"

definition ecs_map_init_if :: "'v ecs_map \<Rightarrow> 'v ecs_map res" where
  "ecs_map_init_if m = (if \<not> ecs_map_is_init m then ecs_map_init else Inr m)"

text \<open>After ecs\_map\_fini the bucket array is freed: reading through it faults.\<close>

definition ecs_map_fini :: "'v ecs_map \<Rightarrow> 'v ecs_map" where
  "ecs_map_fini m =
     (if \<not> ecs_map_is_init m then m else m\<lparr>bucket_shift := 0, mbuckets := []\<rparr>)"

definition ecs_map_get :: "'v ecs_map \<Rightarrow> u64 \<Rightarrow> 'v option res" where
  "ecs_map_get m key =
     res_bind (flecs_map_get_bucket m key) (\<lambda>i.
     res_bind (mem_get (mbuckets m) i) (\<lambda>bucket.
     Inr (flecs_map_bucket_get bucket key)))"

definition ecs_map_get_deref :: "'p option ecs_map \<Rightarrow> u64 \<Rightarrow> 'p option res" where
  "ecs_map_get_deref m key =
     res_bind (ecs_map_get m key) (\<lambda>ptr.
     Inr (case ptr of None \<Rightarrow> None | Some p \<Rightarrow> p))"

text \<open>A write through the payload pointer that ecs\_map\_get or ecs\_map\_ensure returned.\<close>

definition map_write :: "'v ecs_map \<Rightarrow> u64 \<Rightarrow> 'v \<Rightarrow> 'v ecs_map res" where
  "map_write m key value =
     res_bind (flecs_map_get_bucket m key) (\<lambda>i.
     res_bind (mem_get (mbuckets m) i) (\<lambda>bucket.
     case flecs_map_bucket_get bucket key of
       None \<Rightarrow> Inl MEMORY_FAULT
     | Some _ \<Rightarrow>
         Inr (m\<lparr>mbuckets := (mbuckets m)[i := map (\<lambda>e. if fst e = key then (key, value) else e) bucket]\<rparr>)))"

text \<open>The steps that insert and ensure share once the key is known to be absent.\<close>

definition grow_and_add :: "'v ecs_map \<Rightarrow> u64 \<Rightarrow> 'v \<Rightarrow> 'v ecs_map res" where
  "grow_and_add m key value =
     (let map_count = (mcount m + 1) mod 2 ^ 26;
          m = m\<lparr>mcount := map_count\<rparr>;
          tgt_bucket_count = flecs_map_get_bucket_count (int map_count)
      in
      res_bind (if tgt_bucket_count > int (bucket_count m)
                then flecs_map_rehash m tgt_bucket_count else Inr m) (\<lambda>m.
      res_bind (flecs_map_get_bucket m key) (\<lambda>i.
      res_bind (mem_get (mbuckets m) i) (\<lambda>bucket.
      Inr (m\<lparr>mbuckets := (mbuckets m)[i := flecs_map_bucket_add value bucket key],
             change_count := change_count m + 1\<rparr>)))))"

definition ecs_map_insert :: "'v ecs_map \<Rightarrow> u64 \<Rightarrow> 'v \<Rightarrow> 'v ecs_map res" where
  "ecs_map_insert m key value =
     res_bind (ecs_map_get m key) (\<lambda>old.
     ecs_assert (old = None) ECS_INVALID_PARAMETER (grow_and_add m key value))"

text \<open>\<open>elem\<close> is the zeroed memory that ecs\_os\_calloc returned.\<close>

definition ecs_map_insert_alloc :: "'p option ecs_map \<Rightarrow> 'p \<Rightarrow> u64 \<Rightarrow> ('p option ecs_map \<times> 'p) res" where
  "ecs_map_insert_alloc m elem key =
     res_bind (ecs_map_insert m key (Some elem)) (\<lambda>m. Inr (m, elem))"

text \<open>The payload that the returned pointer points to.\<close>

definition ecs_map_ensure :: "('v::zero) ecs_map \<Rightarrow> u64 \<Rightarrow> ('v ecs_map \<times> 'v) res" where
  "ecs_map_ensure m key =
     res_bind (flecs_map_get_bucket m key) (\<lambda>i.
     res_bind (mem_get (mbuckets m) i) (\<lambda>bucket.
     case flecs_map_bucket_get bucket key of
       Some v \<Rightarrow> Inr (m, v)
     | None \<Rightarrow> res_bind (grow_and_add m key 0) (\<lambda>m. Inr (m, 0))))"

definition ecs_map_ensure_alloc :: "'p option ecs_map \<Rightarrow> 'p \<Rightarrow> u64 \<Rightarrow> ('p option ecs_map \<times> 'p) res" where
  "ecs_map_ensure_alloc m elem key =
     res_bind (ecs_map_ensure m key) (\<lambda>(m, val).
     case val of
       None \<Rightarrow> res_bind (map_write m key (Some elem)) (\<lambda>m. Inr (m, elem))
     | Some p \<Rightarrow> Inr (m, p))"

definition ecs_map_remove :: "('v::zero) ecs_map \<Rightarrow> u64 \<Rightarrow> ('v ecs_map \<times> 'v) res" where
  "ecs_map_remove m key =
     (let m = (if last_iterated m \<noteq> key then m\<lparr>change_count := change_count m + 1\<rparr> else m) in
      res_bind (flecs_map_get_bucket m key) (\<lambda>i.
      res_bind (mem_get (mbuckets m) i) (\<lambda>bucket.
      case flecs_map_bucket_remove bucket key of
        None \<Rightarrow> Inr (m, 0)
      | Some (bucket', value) \<Rightarrow>
          Inr (m\<lparr>mbuckets := (mbuckets m)[i := bucket'],
                 mcount := nat ((int (mcount m) - 1) mod 2 ^ 26)\<rparr>, value))))"

definition ecs_map_reclaim :: "'v ecs_map \<Rightarrow> 'v ecs_map res" where
  "ecs_map_reclaim m =
     (let tgt_bucket_count = flecs_map_get_bucket_count (int (mcount m) - 1) in
      if tgt_bucket_count \<noteq> int (bucket_count m) then flecs_map_rehash m tgt_bucket_count
      else Inr m)"

text \<open>The object that ecs\_os\_free released, if any.\<close>

definition ecs_map_remove_free :: "'p option ecs_map \<Rightarrow> u64 \<Rightarrow> ('p option ecs_map \<times> 'p option) res" where
  "ecs_map_remove_free m key = ecs_map_remove m key"

definition ecs_map_clear :: "'v ecs_map \<Rightarrow> 'v ecs_map res" where
  "ecs_map_clear m =
     res_bind (flecs_map_rehash (m\<lparr>mbuckets := [], bucket_count := 0, mcount := 0\<rparr>) 2) (\<lambda>m.
     Inr (m\<lparr>change_count := change_count m + 1\<rparr>))"

definition ecs_map_iter :: "'v ecs_map \<Rightarrow> ecs_map_iter_t" where
  "ecs_map_iter m =
     (if ecs_map_is_init m
      then \<lparr>it_map = True, it_bucket = None, it_entry = None, it_res = None,
            it_change_count = change_count m\<rparr>
      else \<lparr>it_map = False, it_bucket = None, it_entry = None, it_res = None, it_change_count = 0\<rparr>)"

definition ecs_map_iter_valid :: "'v ecs_map \<Rightarrow> ecs_map_iter_t \<Rightarrow> bool" where
  "ecs_map_iter_valid m it \<longleftrightarrow> it_map it \<and> change_count m = it_change_count it"

definition first_key :: "(u64 \<times> 'v) list \<Rightarrow> u64 option" where
  "first_key chain = (case chain of [] \<Rightarrow> None | e # _ \<Rightarrow> Some (fst e))"

text \<open>The entry behind a pointer, and its \<open>next\<close> pointer.\<close>

fun chain_entry :: "(u64 \<times> 'v) list \<Rightarrow> u64 \<Rightarrow> ((u64 \<times> 'v) \<times> u64 option) res" where
  "chain_entry [] p = Inl MEMORY_FAULT"
| "chain_entry (e # next) p = (if fst e = p then Inr (e, first_key next) else chain_entry next p)"

fun first_used :: "'a list list \<Rightarrow> nat" where
  "first_used [] = 0"
| "first_used (b # bs) = (if b \<noteq> [] then 0 else Suc (first_used bs))"

definition iter_visit ::
    "'v ecs_map \<Rightarrow> ecs_map_iter_t \<Rightarrow> nat \<Rightarrow> u64 option \<Rightarrow> (bool \<times> ecs_map_iter_t \<times> 'v ecs_map) res" where
  "iter_visit m it b entry =
     (case entry of
        None \<Rightarrow> Inl ECS_INTERNAL_ERROR
      | Some p \<Rightarrow>
          res_bind (mem_get (mbuckets m) b) (\<lambda>bucket.
          res_bind (chain_entry bucket p) (\<lambda>(e, next).
          Inr (True, it\<lparr>it_bucket := Some b, it_entry := next, it_res := Some (fst e)\<rparr>,
               m\<lparr>last_iterated := fst e\<rparr>))))"

text \<open>Both scanning loops: from bucket \<open>b\<close> to the first bucket that has an entry.\<close>

definition iter_scan ::
    "'v ecs_map \<Rightarrow> ecs_map_iter_t \<Rightarrow> nat \<Rightarrow> (bool \<times> ecs_map_iter_t \<times> 'v ecs_map) res" where
  "iter_scan m it b =
     (if length (mbuckets m) < bucket_count m then Inl MEMORY_FAULT
      else
        let b = b + first_used (drop b (take (bucket_count m) (mbuckets m)))
        in if b = bucket_count m then Inr (False, it\<lparr>it_bucket := Some b\<rparr>, m)
           else res_bind (mem_get (mbuckets m) b) (\<lambda>bucket. iter_visit m it b (first_key bucket)))"

definition ecs_map_next ::
    "'v ecs_map \<Rightarrow> ecs_map_iter_t \<Rightarrow> (bool \<times> ecs_map_iter_t \<times> 'v ecs_map) res" where
  "ecs_map_next m it =
     (if \<not> it_map it then Inr (False, it, m)
      else ecs_assert (change_count m = it_change_count it) ECS_INVALID_PARAMETER
       (if it_bucket it = Some (bucket_count m) then Inr (False, it, m)
        else case it_bucket it of
          None \<Rightarrow> iter_scan m it 0
        | Some b \<Rightarrow>
            (case it_entry it of
               None \<Rightarrow> iter_scan m it (b + 1)
             | Some p \<Rightarrow> iter_visit m it b (Some p))))"

definition ecs_map_key :: "ecs_map_iter_t \<Rightarrow> u64 res" where
  "ecs_map_key it = deref (it_res it)"

definition ecs_map_value :: "'v ecs_map \<Rightarrow> ecs_map_iter_t \<Rightarrow> 'v res" where
  "ecs_map_value m it =
     res_bind (deref (it_res it)) (\<lambda>p.
     res_bind (deref (it_bucket it)) (\<lambda>b.
     res_bind (mem_get (mbuckets m) b) (\<lambda>bucket.
     res_bind (chain_entry bucket p) (\<lambda>(e, _). Inr (snd e)))))"

fun copy_loop ::
    "nat \<Rightarrow> 'v ecs_map \<Rightarrow> 'v ecs_map \<Rightarrow> ecs_map_iter_t \<Rightarrow> ('v ecs_map \<times> 'v ecs_map) res" where
  "copy_loop 0 dst src it = Inl OUT_OF_FUEL"
| "copy_loop (Suc fuel) dst src it =
     res_bind (ecs_map_next src it) (\<lambda>(more, it, src).
     if \<not> more then Inr (dst, src)
     else
       res_bind (ecs_map_key it) (\<lambda>key.
       res_bind (ecs_map_value src it) (\<lambda>value.
       res_bind (ecs_map_insert dst key value) (\<lambda>dst.
       copy_loop fuel dst src it))))"

text \<open>The source is returned too: iterating it sets \<open>last_iterated\<close>.\<close>

definition ecs_map_copy :: "'v ecs_map \<Rightarrow> 'v ecs_map \<Rightarrow> ('v ecs_map \<times> 'v ecs_map) res" where
  "ecs_map_copy dst src =
     res_bind (if ecs_map_is_init dst
               then ecs_assert (ecs_map_count dst = 0) ECS_INVALID_PARAMETER (Inr (ecs_map_fini dst))
               else Inr dst) (\<lambda>dst.
     if \<not> ecs_map_is_init src then Inr (dst, src)
     else res_bind ecs_map_init (\<lambda>dst.
          copy_loop (Suc (mcount src)) dst src (ecs_map_iter src)))"

section \<open>Invariant\<close>

lemma less_imp_le_pred: "m < n \<Longrightarrow> m \<le> n - (1::nat)"
  by simp

definition hash_bucket :: "nat \<Rightarrow> u64 \<Rightarrow> nat" where
  "hash_bucket shift key = unat (drop_bit shift (11400714819323198485 * key))"

definition placed :: "nat \<Rightarrow> (u64 \<times> 'v) list list \<Rightarrow> bool" where
  "placed shift bs \<longleftrightarrow> (\<forall>i<length bs. \<forall>e\<in>set (bs ! i). hash_bucket shift (fst e) = i)"

definition map_entries :: "'v ecs_map \<Rightarrow> (u64 \<times> 'v) list" where
  "map_entries m = concat (mbuckets m)"

definition map_shape :: "'v ecs_map \<Rightarrow> bool" where
  "map_shape m \<longleftrightarrow> (\<exists>k\<in>{1..30}. bucket_count m = 2 ^ k \<and> bucket_shift m = 64 - k
     \<and> length (mbuckets m) = 2 ^ k)"

definition map_wf :: "'v ecs_map \<Rightarrow> bool" where
  "map_wf m \<longleftrightarrow> map_shape m \<and> placed (bucket_shift m) (mbuckets m)
     \<and> distinct (map fst (map_entries m)) \<and> mcount m = length (map_entries m) \<and> mcount m < 2 ^ 26"

definition map_abs :: "'v ecs_map \<Rightarrow> u64 \<rightharpoonup> 'v" where
  "map_abs m = map_of (map_entries m)"

lemma bucket_get_map_of: "flecs_map_bucket_get b k = map_of b k"
  by (induction b k rule: flecs_map_bucket_get.induct) auto

lemma log2table_ok: "k < 32 \<Longrightarrow> log2table ! unat (drop_bit 27 (mask (Suc k) * 0x07C4ACDD :: u32)) = k"
proof -
  have "\<forall>k\<in>set [0..<32]. log2table ! unat (drop_bit 27 (mask (Suc k) * 0x07C4ACDD :: u32)) = k"
    by code_simp
  then show "k < 32 \<Longrightarrow> ?thesis" by simp
qed

lemma flecs_log2_pow2:
  assumes "k < 32"
  shows "flecs_log2 (2 ^ k) = k"
proof -
  have "(2::nat) ^ k < 2 ^ 32"
    using assms by (intro power_strict_increasing) auto
  then have "unat (word_of_nat (2 ^ k) :: u32) = 2 ^ k"
    unfolding unat_of_nat by simp
  then have "unat (2 ^ k :: u32) = 2 ^ k"
    by simp
  then have "smear_all (2 ^ k) = mask (Suc k)"
    using assms by (intro smear_all_mask) auto
  then show ?thesis
    by (simp add: flecs_log2_def log2table_ok[OF assms])
qed

lemma hash_bucket_less:
  assumes "1 \<le> k" "k \<le> 64"
  shows "hash_bucket (64 - k) key < 2 ^ k"
proof -
  have "unat (11400714819323198485 * key) < 2 ^ 64"
    using unsigned_less[of "11400714819323198485 * key"] by simp
  also have "(2::nat) ^ 64 = 2 ^ k * 2 ^ (64 - k)"
    using assms by (simp flip: power_add)
  finally show ?thesis
    unfolding hash_bucket_def unat_drop_bit_eq drop_bit_nat_def by (rule less_mult_imp_div_less)
qed

lemma bucket_index_ok:
  assumes "1 \<le> k" "k \<le> 30"
  shows "flecs_map_get_bucket_index (64 - k) key = Inr (int (hash_bucket (64 - k) key))"
proof -
  define w where "w = drop_bit (64 - k) (11400714819323198485 * key)"
  have "hash_bucket (64 - k) key < 2 ^ k"
    using assms by (intro hash_bucket_less) auto
  moreover have "(2::nat) ^ k \<le> 2 ^ 30"
    using assms by (intro power_increasing) auto
  ultimately have lt: "unat w < 2 ^ 30"
    by (simp add: hash_bucket_def w_def)
  have "(ucast w :: i32) = word_of_nat (unat w)"
    by simp
  moreover have "sint (word_of_nat n :: i32) = int n" if "n < 2 ^ 30" for n
  proof -
    have "sint (word_of_int (int n) :: i32) = int n"
      unfolding sint_sbintrunc' using that by (intro signed_take_bit_int_eq_self) simp_all
    then show ?thesis by simp
  qed
  ultimately have eq: "sint (ucast w :: i32) = int (unat w)"
    using lt by (simp only:)
  have "64 - k \<noteq> 0"
    using assms by simp
  then show ?thesis
    unfolding flecs_map_get_bucket_index_def hash_bucket_def eq[unfolded w_def]
    by (simp only: ecs_assert_def if_True simp_thms)
qed

lemma map_shape_hash:
  assumes "map_shape m"
  shows "flecs_map_get_bucket m key = Inr (hash_bucket (bucket_shift m) key)"
    and "hash_bucket (bucket_shift m) key < length (mbuckets m)"
proof -
  obtain k where k: "1 \<le> k" "k \<le> 30" "bucket_count m = 2 ^ k" "bucket_shift m = 64 - k"
    "length (mbuckets m) = 2 ^ k"
    using assms by (auto simp: map_shape_def)
  then have lt: "hash_bucket (64 - k) key < 2 ^ k"
    by (intro hash_bucket_less) auto
  then have "int (hash_bucket (64 - k) key) < int (2 ^ k)"
    by (simp only: of_nat_less_iff)
  then show "flecs_map_get_bucket m key = Inr (hash_bucket (bucket_shift m) key)"
    unfolding flecs_map_get_bucket_def k(3,4) bucket_index_ok[OF k(1,2)] by simp
  show "hash_bucket (bucket_shift m) key < length (mbuckets m)"
    using lt k by simp
qed

lemma map_shape_length: "map_shape m \<Longrightarrow> length (mbuckets m) = bucket_count m"
  by (auto simp: map_shape_def)

lemma set_concat_nth: "e \<in> set (concat bs) \<longleftrightarrow> (\<exists>i<length bs. e \<in> set (bs ! i))"
  by (metis (no_types, lifting) UN_iff in_set_conv_nth set_concat)

lemma map_of_concat_placed:
  assumes "placed s bs" and "distinct (map fst (concat bs))" and "hash_bucket s key < length bs"
  shows "map_of (concat bs) key = map_of (bs ! hash_bucket s key) key"
proof -
  let ?b = "bs ! hash_bucket s key"
  have split: "concat bs = concat (take (hash_bucket s key) bs) @ ?b @ concat (drop (Suc (hash_bucket s key)) bs)"
    using id_take_nth_drop[OF assms(3)] by (metis concat.simps(2) concat_append)
  have "(key, v) \<in> set (concat bs) \<longleftrightarrow> (key, v) \<in> set ?b" for v
    unfolding set_concat_nth using assms(1,3) unfolding placed_def by force
  moreover have "distinct (map fst ?b)"
    using assms(2) unfolding split by simp
  ultimately have "map_of (concat bs) key = Some v \<longleftrightarrow> map_of ?b key = Some v" for v
    using assms(2) by (simp add: map_of_eq_Some_iff)
  then show ?thesis
    by (metis not_Some_eq)
qed

lemma map_get:
  assumes "map_wf m"
  shows "ecs_map_get m key = Inr (map_abs m key)"
proof -
  have s: "map_shape m" using assms by (simp add: map_wf_def)
  note h = map_shape_hash[OF s]
  show ?thesis
    using assms h(2) map_of_concat_placed[of "bucket_shift m" "mbuckets m" key]
    by (simp add: ecs_map_get_def h(1) bucket_get_map_of map_abs_def map_entries_def map_wf_def)
qed

lemma map_abs_mset:
  assumes "distinct (map fst xs)" and "mset ys = mset xs"
  shows "map_of ys = map_of xs" and "distinct (map fst ys)"
proof -
  have "mset (map fst ys) = mset (map fst xs)"
    using assms(2) by simp
  with assms(1) show d: "distinct (map fst ys)"
    by (metis mset_eq_imp_distinct_iff)
  have "set ys = set xs"
    using assms(2) by (metis mset_eq_setD)
  with assms(1) d show "map_of ys = map_of xs"
    using map_of_inject_set by blast
qed

lemma mset_concat_update:
  assumes "i < length bs"
  shows "mset (concat (bs[i := b])) + mset (bs ! i) = mset (concat bs) + mset b"
proof -
  have "concat bs = concat (take i bs) @ bs ! i @ concat (drop (Suc i) bs)"
    using id_take_nth_drop[OF assms] by (metis concat.simps(2) concat_append)
  moreover have "concat (bs[i := b]) = concat (take i bs) @ b @ concat (drop (Suc i) bs)"
    using assms by (simp add: upd_conv_take_nth_drop)
  ultimately show ?thesis
    by (simp add: union_ac)
qed

section \<open>Rehashing\<close>

lemma next_pow2_target:
  assumes "0 \<le> n" and "n \<le> 2 ^ 30"
  obtains k where "1 \<le> k" "k \<le> 30" "(if next_pow2 n < 2 then 2 else next_pow2 n) = 2 ^ k"
    and "n \<le> 2 ^ k"
proof (cases "1 \<le> n")
  case True
  obtain k where k: "k \<le> 30" "next_pow2 n = 2 ^ k" "n \<le> 2 ^ k"
    using next_pow2_least[OF True assms(2)] by metis
  show thesis
  proof (cases "k = 0")
    case True
    with k show thesis by (intro that[of 1]) auto
  next
    case False
    then obtain j where "k = Suc j" by (cases k) auto
    then have "(2::int) \<le> 2 ^ k" by simp
    with k False show thesis by (intro that[of k]) auto
  qed
next
  case False
  with assms have "n = 0" by simp
  then show thesis by (intro that[of 1]) (auto simp: next_pow2_0)
qed

lemma rehash_entries:
  assumes "1 \<le> k" "k \<le> 30" "length bs = 2 ^ k" "placed (64 - k) bs"
  obtains bs' where "res_fold (rehash_entry (64 - k)) bs es = Inr bs'" "length bs' = 2 ^ k"
    "placed (64 - k) bs'" "mset (concat bs') = mset (concat bs) + mset es"
proof -
  have "\<exists>bs'. res_fold (rehash_entry (64 - k)) bs es = Inr bs' \<and> length bs' = 2 ^ k
    \<and> placed (64 - k) bs' \<and> mset (concat bs') = mset (concat bs) + mset es"
    using assms(3,4)
  proof (induction es arbitrary: bs)
    case (Cons e es)
    let ?i = "hash_bucket (64 - k) (fst e)"
    have i: "?i < length bs"
      using hash_bucket_less[of k] assms(1,2) Cons.prems(1) by simp
    have step: "rehash_entry (64 - k) bs e = Inr (bs[?i := e # bs ! ?i])"
      using i assms(1,2) by (simp add: rehash_entry_def bucket_index_ok)
    have "placed (64 - k) (bs[?i := e # bs ! ?i])"
      using Cons.prems(2) i unfolding placed_def by (simp add: nth_list_update)
    from Cons.IH[OF _ this] Cons.prems(1) obtain bs' where
      "res_fold (rehash_entry (64 - k)) (bs[?i := e # bs ! ?i]) es = Inr bs'" "length bs' = 2 ^ k"
      "placed (64 - k) bs'" "mset (concat bs') = mset (concat (bs[?i := e # bs ! ?i])) + mset es"
      by auto
    moreover have "mset (concat (bs[?i := e # bs ! ?i])) = add_mset e (mset (concat bs))"
      using mset_concat_update[OF i, of "e # bs ! ?i"] by simp
    ultimately show ?case
      by (simp add: step)
  qed simp
  then show thesis using that by blast
qed

text \<open>
  What every operation that changes the entries has to establish: the entries are those of a map
  with distinct keys, up to order.
\<close>

lemma map_rehash:
  assumes "length (mbuckets m) = bucket_count m" and "0 \<le> n" and "n \<le> 2 ^ 30"
  obtains m' where "flecs_map_rehash m n = Inr m'" "map_shape m'"
    "placed (bucket_shift m') (mbuckets m')" "mset (map_entries m') = mset (map_entries m)"
    "mcount m' = mcount m" "change_count m' = change_count m" "last_iterated m' = last_iterated m"
    "n \<le> int (bucket_count m')"
proof -
  define cnt where "cnt = (if next_pow2 n < 2 then 2 else next_pow2 n)"
  obtain k where k: "1 \<le> k" "k \<le> 30" "cnt = 2 ^ k" "n \<le> 2 ^ k"
    using next_pow2_target[OF assms(2,3)] unfolding cnt_def by metis
  have "flecs_map_get_bucket_shift cnt = 64 - k"
    using k by (simp add: flecs_map_get_bucket_shift_def flecs_log2_pow2)
  then have shift: "flecs_map_get_bucket_shift cnt mod 2 ^ 6 = 64 - k"
    using k by simp
  have "placed (64 - k) (replicate (2 ^ k) [] :: (u64 \<times> 'a) list list)"
    by (simp add: placed_def)
  then obtain bs where bs: "res_fold (rehash_entry (64 - k)) (replicate (2 ^ k) [])
      (concat (take (bucket_count m) (mbuckets m))) = Inr bs" "length bs = 2 ^ k"
    "placed (64 - k) bs" "mset (concat bs) = mset (map_entries m)"
    using rehash_entries[OF k(1,2), of "replicate (2 ^ k) []" "map_entries m"] assms(1)
    by (auto simp: map_entries_def)
  have "flecs_map_rehash m n = Inr (m\<lparr>mbuckets := bs, bucket_count := 2 ^ k, bucket_shift := 64 - k\<rparr>)"
    using assms(1) bs(1) k(3)
    unfolding flecs_map_rehash_def Let_def cnt_def[symmetric] shift
    by (simp add: res_fold_concat nat_power_eq)
  then show thesis
    by (rule that) (use k bs in \<open>auto simp: map_shape_def map_entries_def\<close>)
qed

lemma map_wf_intro:
  assumes "map_shape m'" "placed (bucket_shift m') (mbuckets m')"
    and "mset (map_entries m') = mset es" "distinct (map fst es)"
    and "mcount m' = length es" "length es < 2 ^ 26"
  shows "map_wf m'" and "map_abs m' = map_of es"
  using assms map_abs_mset[OF assms(4,3)] mset_eq_length[OF assms(3)]
  by (simp_all add: map_wf_def map_abs_def)

lemma map_init:
  obtains m where "ecs_map_init = Inr m" "map_wf m" "map_abs m = Map.empty"
    "change_count m = 0" "map_entries m = []"
proof -
  obtain m :: "'a ecs_map" where m: "ecs_map_init = Inr m" "map_shape m" "placed (bucket_shift m) (mbuckets m)"
    "mset (map_entries m) = mset []" "mcount m = 0" "change_count m = 0"
    using map_rehash[of "zero_map :: 'a ecs_map" 0]
    by (auto simp: zero_map_def map_entries_def ecs_map_init_def)
  show thesis
    using m map_wf_intro[OF m(2-4)] by (intro that[OF m(1)]) simp_all
qed

lemma bucket_count_target:
  assumes "n < 2 ^ 26"
  shows "0 \<le> flecs_map_get_bucket_count (int n)" "flecs_map_get_bucket_count (int n) \<le> 2 ^ 30"
    "12 * int n div 10 \<le> flecs_map_get_bucket_count (int n)"
proof -
  let ?t = "(int n * 12 * 3602879701896397) div 2 ^ 55"
  let ?q = "12 * int n div 10"
  let ?r = "12 * int n mod 10"
  have r: "0 \<le> ?r" "?r \<le> 9" and q: "0 \<le> ?q" "?q \<le> 2 ^ 27"
    using assms by simp_all
  have n: "12 * int n = 10 * ?q + ?r"
    by (rule mult_div_mod_eq[symmetric])
  have "int n * 12 * 3602879701896397 = 2 ^ 55 * ?q + (2 * ?q + 3602879701896397 * ?r)"
    using n by simp
  moreover have "0 \<le> 2 * ?q + 3602879701896397 * ?r" "2 * ?q + 3602879701896397 * ?r < 2 ^ 55"
  proof -
    have "2 * ?q + 3602879701896397 * ?r \<le> 2 * 2 ^ 27 + 3602879701896397 * 9"
      using r q by (intro add_mono mult_left_mono) simp_all
    then show "2 * ?q + 3602879701896397 * ?r < 2 ^ 55" by simp
  qed (use r q in simp)
  ultimately have eq: "?t = ?q"
    by (rule int_div_pos_eq)
  have "a sdiv b = a div b" if "0 \<le> a" "0 < b" for a b :: int
    using that by (cases "a = 0") (simp_all add: signed_divide_int_def sgn_mult)
  then have d: "(int n * 12 * 3602879701896397) sdiv 2 ^ 55 = ?t"
    by simp
  have bc: "flecs_map_get_bucket_count (int n) = next_pow2 ?q"
    unfolding flecs_map_get_bucket_count_def d eq ..
  show "0 \<le> flecs_map_get_bucket_count (int n)" "flecs_map_get_bucket_count (int n) \<le> 2 ^ 30"
    "12 * int n div 10 \<le> flecs_map_get_bucket_count (int n)"
    unfolding bc using next_pow2_bounds[of ?q] next_pow2_0 q by (cases "?q = 0"; simp)+
qed

section \<open>The operations on the map a hash table stands for\<close>

lemma map_wf_shape: "map_wf m \<Longrightarrow> map_shape m"
  by (simp add: map_wf_def)

lemma finite_map_abs: "finite (dom (map_abs m))"
  by (simp add: map_abs_def finite_dom_map_of)

lemma card_map_abs: "map_wf m \<Longrightarrow> mcount m = card (dom (map_abs m))"
  by (simp add: map_wf_def map_abs_def dom_map_of_conv_image_fst distinct_card flip: set_map)

lemma map_grow_and_add:
  assumes wf: "map_wf m" and new: "map_abs m key = None" and room: "mcount m + 1 < 2 ^ 26"
  obtains m' where "grow_and_add m key v = Inr m'" "map_wf m'" "map_abs m' = (map_abs m)(key \<mapsto> v)"
proof -
  define tgt where "tgt = flecs_map_get_bucket_count (int (mcount m + 1))"
  define m1 where "m1 = m\<lparr>mcount := mcount m + 1\<rparr>"
  note tgt = bucket_count_target[OF room, folded tgt_def]
  have shape: "map_shape m" "placed (bucket_shift m) (mbuckets m)" "distinct (map fst (map_entries m))"
    "mcount m = length (map_entries m)" "mcount m < 2 ^ 26"
    using wf by (auto simp: map_wf_def)
  have len: "length (mbuckets m1) = bucket_count m1"
    using map_shape_length[OF shape(1)] by (simp add: m1_def)
  obtain m2 where m2: "(if tgt > int (bucket_count m1) then flecs_map_rehash m1 tgt else Inr m1) = Inr m2"
    "map_shape m2" "placed (bucket_shift m2) (mbuckets m2)" "mset (map_entries m2) = mset (map_entries m)"
    "mcount m2 = mcount m + 1"
  proof (cases "tgt > int (bucket_count m1)")
    case True
    with map_rehash[OF len tgt(1,2)] that show thesis
      by (auto simp: m1_def map_entries_def)
  next
    case False
    with shape show thesis
      by (intro that[of m1]) (auto simp: m1_def map_shape_def map_entries_def)
  qed
  define i where "i = hash_bucket (bucket_shift m2) key"
  note h = map_shape_hash[OF m2(2), where key = key, folded i_def]
  define m3 where "m3 = m2\<lparr>mbuckets := (mbuckets m2)[i := (key, v) # mbuckets m2 ! i],
    change_count := change_count m2 + 1\<rparr>"
  have "(mcount m + 1) mod 2 ^ 26 = mcount m + 1"
    using room by simp
  then have eq: "grow_and_add m key v = Inr m3"
    unfolding grow_and_add_def Let_def
    by (simp only: m2(1) flip: tgt_def m1_def) (simp add: h flecs_map_bucket_add_def m3_def)
  have "mset (map_entries m3) = add_mset (key, v) (mset (map_entries m2))"
    using mset_concat_update[OF h(2), of "(key, v) # mbuckets m2 ! i"]
    by (simp add: m3_def map_entries_def)
  then have entries: "mset (map_entries m3) = mset ((key, v) # map_entries m)"
    by (simp add: m2(4))
  have "map_shape m3" "placed (bucket_shift m3) (mbuckets m3)"
    using m2(2,3) h(2) by (auto simp: m3_def map_shape_def placed_def nth_list_update i_def)
  moreover have "distinct (map fst ((key, v) # map_entries m))"
    using shape(3) new by (simp add: map_abs_def map_of_eq_None_iff)
  moreover have "mcount m3 = length ((key, v) # map_entries m)" "length ((key, v) # map_entries m) < 2 ^ 26"
    using m2(5) shape(4) room by (simp_all add: m3_def)
  ultimately have "map_wf m3" "map_abs m3 = map_of ((key, v) # map_entries m)"
    using map_wf_intro[OF _ _ entries] by blast+
  then show thesis
    using that[OF eq] by (simp add: map_abs_def)
qed

lemma map_insert:
  assumes "map_wf m" and "map_abs m key = None" and "mcount m + 1 < 2 ^ 26"
  obtains m' where "ecs_map_insert m key v = Inr m'" "map_wf m'" "map_abs m' = (map_abs m)(key \<mapsto> v)"
  using map_grow_and_add[OF assms, of v] assms by (auto simp: ecs_map_insert_def map_get)

lemma map_insert_dup:
  assumes "map_wf m" and "map_abs m key \<noteq> None"
  shows "ecs_map_insert m key v = Inl ECS_INVALID_PARAMETER"
  using assms by (simp add: ecs_map_insert_def map_get)

text \<open>Steps that find the bucket of a key first.\<close>

lemma map_bucket:
  assumes "map_wf m"
  obtains i where "flecs_map_get_bucket m key = Inr i" "i < length (mbuckets m)"
    "i = hash_bucket (bucket_shift m) key" "map_of (mbuckets m ! i) key = map_abs m key"
    "distinct (map fst (mbuckets m ! i))"
proof -
  note h = map_shape_hash[OF map_wf_shape[OF assms], where key = key]
  let ?i = "hash_bucket (bucket_shift m) key"
  have d: "distinct (map fst (concat (mbuckets m)))"
    using assms by (simp add: map_wf_def map_entries_def)
  have "concat (mbuckets m) = concat (take ?i (mbuckets m)) @ mbuckets m ! ?i
      @ concat (drop (Suc ?i) (mbuckets m))"
    using id_take_nth_drop[OF h(2)] by (metis concat.simps(2) concat_append)
  with d have "distinct (map fst (mbuckets m ! ?i))"
    by simp
  moreover have "map_of (mbuckets m ! ?i) key = map_abs m key"
    using map_of_concat_placed[OF _ d h(2)] assms
    by (simp add: map_abs_def map_entries_def map_wf_def)
  ultimately show thesis
    using h by (intro that[of ?i]) simp_all
qed

lemma map_ensure:
  assumes wf: "map_wf m" and room: "map_abs m key \<noteq> None \<or> mcount m + 1 < 2 ^ 26"
  obtains m' v where "ecs_map_ensure m key = Inr (m', v)" "map_wf m'"
    "v = (case map_abs m key of Some v \<Rightarrow> v | None \<Rightarrow> 0)" "map_abs m' = (map_abs m)(key \<mapsto> v)"
proof -
  obtain i where i: "flecs_map_get_bucket m key = Inr i" "i < length (mbuckets m)"
    "map_of (mbuckets m ! i) key = map_abs m key"
    using map_bucket[OF wf] by metis
  show thesis
  proof (cases "map_abs m key")
    case None
    with room have "mcount m + 1 < 2 ^ 26" by simp
    from map_grow_and_add[OF wf None this, of 0] obtain m' where
      "grow_and_add m key 0 = Inr m'" "map_wf m'" "map_abs m' = (map_abs m)(key \<mapsto> 0)" by blast
    with i None show thesis
      by (intro that[of m' 0]) (simp_all add: ecs_map_ensure_def bucket_get_map_of)
  next
    case (Some v)
    with i wf show thesis
      by (intro that[of m v]) (auto simp: ecs_map_ensure_def bucket_get_map_of)
  qed
qed

lemma filter_neq_absent: "map_of es key = None \<Longrightarrow> filter (\<lambda>e. fst e \<noteq> key) es = es"
  by (induction es) (auto split: if_splits)

lemma bucket_remove_spec:
  assumes "distinct (map fst b)"
  shows "flecs_map_bucket_remove b key = (case map_of b key of None \<Rightarrow> None
    | Some v \<Rightarrow> Some (filter (\<lambda>e. fst e \<noteq> key) b, v))"
  using assms
proof (induction b key rule: flecs_map_bucket_remove.induct)
  case (2 k v "next" key)
  have "filter (\<lambda>e. fst e \<noteq> k) next = next"
    using 2(2) by (intro filter_neq_absent) (simp add: map_of_eq_None_iff)
  with 2 show ?case by (auto split: option.splits)
qed simp

lemma length_filter_neq_key:
  "distinct (map fst es) \<Longrightarrow> map_of es key = Some v \<Longrightarrow>
    length es = Suc (length (filter (\<lambda>e. fst e \<noteq> key) es))"
proof (induction es)
  case (Cons e es)
  have "filter (\<lambda>e'. fst e' \<noteq> fst e) es = es"
    using Cons.prems(1) by (intro filter_neq_absent) (simp add: map_of_eq_None_iff)
  with Cons show ?case by (auto split: if_splits)
qed simp

lemma map_of_filter_neq: "map_of (filter (\<lambda>e. fst e \<noteq> key) es) = (map_of es)(key := None)"
  by (induction es) auto

lemma map_remove:
  assumes wf: "map_wf m"
  obtains m' where "ecs_map_remove m key = Inr (m', case map_abs m key of Some v \<Rightarrow> v | None \<Rightarrow> 0)"
    "map_wf m'" "map_abs m' = (map_abs m)(key := None)"
    "bucket_count m' = bucket_count m" "bucket_shift m' = bucket_shift m" "last_iterated m' = last_iterated m"
    "change_count m' = (if last_iterated m = key then change_count m else change_count m + 1)"
    "mbuckets m' = map (filter (\<lambda>e. fst e \<noteq> key)) (mbuckets m)"
proof -
  define m0 where "m0 = (if last_iterated m \<noteq> key then m\<lparr>change_count := change_count m + 1\<rparr> else m)"
  obtain i where i: "flecs_map_get_bucket m key = Inr i" "i < length (mbuckets m)"
    "i = hash_bucket (bucket_shift m) key"
    "map_of (mbuckets m ! i) key = map_abs m key" "distinct (map fst (mbuckets m ! i))"
    using map_bucket[OF wf] by metis
  have m0: "flecs_map_get_bucket m0 key = Inr i" "mbuckets m0 = mbuckets m" "mcount m0 = mcount m"
    "bucket_shift m0 = bucket_shift m" "bucket_count m0 = bucket_count m" "last_iterated m0 = last_iterated m"
    "change_count m0 = (if last_iterated m = key then change_count m else change_count m + 1)"
    using i(1) by (auto simp: m0_def flecs_map_get_bucket_def)
  have shape: "map_shape m" "placed (bucket_shift m) (mbuckets m)" "distinct (map fst (map_entries m))"
    "mcount m = length (map_entries m)" "mcount m < 2 ^ 26"
    using wf by (auto simp: map_wf_def)
  let ?f = "filter (\<lambda>e. fst e \<noteq> key)"
  have only: "?f (mbuckets m ! j) = mbuckets m ! j" if "j < length (mbuckets m)" "j \<noteq> i" for j
    using shape(2) that i(3) by (intro filter_True) (auto simp: placed_def)
  have all: "map ?f (mbuckets m) = (mbuckets m)[i := ?f (mbuckets m ! i)]"
  proof (rule nth_equalityI)
    fix j
    assume "j < length (map ?f (mbuckets m))"
    then show "map ?f (mbuckets m) ! j = (mbuckets m)[i := ?f (mbuckets m ! i)] ! j"
      using only[of j] by (cases "j = i") simp_all
  qed simp
  have fe: "concat (map ?f (mbuckets m)) = ?f (map_entries m)"
    by (simp add: map_entries_def filter_concat)
  define m' where "m' = m0\<lparr>mbuckets := map ?f (mbuckets m), mcount := length (?f (map_entries m))\<rparr>"
  have "ecs_map_remove m key = Inr (m', case map_abs m key of Some v \<Rightarrow> v | None \<Rightarrow> 0)"
  proof (cases "map_abs m key")
    case None
    then have "?f (map_entries m) = map_entries m" "?f (mbuckets m ! i) = mbuckets m ! i"
      using i(4) by (auto simp: map_abs_def intro!: filter_neq_absent)
    then have "m' = m0"
      using m0 shape(4) by (simp add: m'_def all)
    with None i m0 show ?thesis
      by (simp add: ecs_map_remove_def bucket_remove_spec flip: m0_def)
  next
    case (Some v)
    then have "mcount m = Suc (length (?f (map_entries m)))"
      using length_filter_neq_key[OF shape(3)] shape(4) by (simp add: map_abs_def)
    with Some i m0 shape(5) show ?thesis
      by (simp add: ecs_map_remove_def bucket_remove_spec all m'_def Let_def flip: m0_def)
  qed
  moreover have "map_shape m'"
    using shape(1) m0 by (auto simp: map_shape_def m'_def)
  moreover have "placed (bucket_shift m') (mbuckets m')"
    using shape(2) m0 by (auto simp: placed_def m'_def)
  moreover have "mset (map_entries m') = mset (?f (map_entries m))"
    using fe by (simp add: m'_def map_entries_def)
  moreover have "distinct (map fst (?f (map_entries m)))" "length (?f (map_entries m)) < 2 ^ 26"
    using shape(3-5) by (simp_all add: distinct_map_filter) (meson le_less_trans length_filter_le)
  ultimately show thesis
    using map_wf_intro[of m' "?f (map_entries m)"] m0
    by (intro that[of m']) (simp_all add: m'_def map_of_filter_neq map_abs_def[of m])
qed

lemma bucket_count_before_empty: "flecs_map_get_bucket_count (- 1) = 0"
  by code_simp

lemma map_reclaim:
  assumes wf: "map_wf m"
  obtains m' where "ecs_map_reclaim m = Inr m'" "map_wf m'" "map_abs m' = map_abs m"
proof -
  define tgt where "tgt = flecs_map_get_bucket_count (int (mcount m) - 1)"
  have tgt: "0 \<le> tgt" "tgt \<le> 2 ^ 30"
  proof -
    have "0 \<le> tgt \<and> tgt \<le> 2 ^ 30"
    proof (cases "mcount m = 0")
      case True
      then show ?thesis by (simp add: tgt_def bucket_count_before_empty)
    next
      case False
      then have "int (mcount m) - 1 = int (mcount m - 1)" by simp
      moreover have "mcount m - 1 < 2 ^ 26"
        using wf unfolding map_wf_def by linarith
      ultimately show ?thesis
        unfolding tgt_def using bucket_count_target(1,2)[of "mcount m - 1"] by (simp only: simp_thms)
    qed
    then show "0 \<le> tgt" "tgt \<le> 2 ^ 30" by auto
  qed
  show thesis
  proof (cases "tgt = int (bucket_count m)")
    case True
    then show thesis
      using wf by (intro that[of m]) (simp_all add: ecs_map_reclaim_def Let_def flip: tgt_def)
  next
    case False
    obtain m' where m': "flecs_map_rehash m tgt = Inr m'" "map_shape m'"
      "placed (bucket_shift m') (mbuckets m')" "mset (map_entries m') = mset (map_entries m)"
      "mcount m' = mcount m"
      using map_rehash[OF map_shape_length[OF map_wf_shape[OF wf]] tgt] by metis
    have "ecs_map_reclaim m = Inr m'"
      using False m'(1) by (simp add: ecs_map_reclaim_def Let_def flip: tgt_def)
    then show thesis
      using map_wf_intro[OF m'(2-4)] m'(5) wf by (intro that[of m']) (simp_all add: map_wf_def map_abs_def)
  qed
qed

lemma map_clear:
  obtains m' where "ecs_map_clear m = Inr m'" "map_wf m'" "map_abs m' = Map.empty"
proof -
  let ?m = "m\<lparr>mbuckets := [], bucket_count := 0, mcount := 0\<rparr>"
  obtain m' where m': "flecs_map_rehash ?m 2 = Inr m'" "map_shape m'"
    "placed (bucket_shift m') (mbuckets m')" "mset (map_entries m') = mset []" "mcount m' = 0"
    using map_rehash[of ?m 2] by (auto simp: map_entries_def)
  define m'' where "m'' = m'\<lparr>change_count := change_count m' + 1\<rparr>"
  have "ecs_map_clear m = Inr m''"
    using m'(1) by (simp add: ecs_map_clear_def m''_def)
  moreover have "map_shape m''" "placed (bucket_shift m'') (mbuckets m'')"
    "mset (map_entries m'') = mset []" "mcount m'' = 0"
    using m' by (simp_all add: m''_def map_shape_def map_entries_def)
  ultimately show thesis
    using map_wf_intro[of m'' "[]"] that[of m''] by simp
qed

lemma map_write:
  assumes wf: "map_wf m" and old: "map_abs m key \<noteq> None"
  obtains m' where "map_write m key v = Inr m'" "map_wf m'" "map_abs m' = (map_abs m)(key \<mapsto> v)"
    "mcount m' = mcount m"
proof -
  let ?f = "\<lambda>e. if fst e = key then (key, v) else e"
  obtain i where i: "flecs_map_get_bucket m key = Inr i" "i < length (mbuckets m)"
    "i = hash_bucket (bucket_shift m) key" "map_of (mbuckets m ! i) key = map_abs m key"
    using map_bucket[OF wf] by metis
  have shape: "map_shape m" "placed (bucket_shift m) (mbuckets m)" "distinct (map fst (map_entries m))"
    "mcount m = length (map_entries m)" "mcount m < 2 ^ 26"
    using wf by (auto simp: map_wf_def)
  have all: "map (map ?f) (mbuckets m) = (mbuckets m)[i := map ?f (mbuckets m ! i)]"
  proof (rule nth_equalityI)
    fix j
    assume "j < length (map (map ?f) (mbuckets m))"
    moreover have "map ?f (mbuckets m ! j) = mbuckets m ! j" if "j < length (mbuckets m)" "j \<noteq> i"
      using shape(2) i(3) that by (intro map_idI) (force simp: placed_def)
    ultimately show "map (map ?f) (mbuckets m) ! j = (mbuckets m)[i := map ?f (mbuckets m ! i)] ! j"
      by (cases "j = i") simp_all
  qed simp
  define m' where "m' = m\<lparr>mbuckets := map (map ?f) (mbuckets m)\<rparr>"
  have eq: "map_write m key v = Inr m'"
    using i old by (auto simp: map_write_def bucket_get_map_of m'_def all)
  have entries: "map_entries m' = map ?f (map_entries m)"
    by (simp add: m'_def map_entries_def map_concat)
  have keys: "map fst (map ?f es) = map fst es" for es
    by (induction es) auto
  have upd: "map_of (map ?f es) = (map_of es)(key := (if map_of es key = None then None else Some v))" for es
    by (induction es) (auto simp: fun_eq_iff)
  have "map_shape m'"
    using shape(1) by (simp add: map_shape_def m'_def)
  moreover have "placed (bucket_shift m') (mbuckets m')"
    using shape(2) by (force simp: placed_def m'_def)
  moreover have "mcount m' = mcount m"
    by (simp add: m'_def)
  ultimately have "map_wf m'"
    using shape(3-5) unfolding map_wf_def entries keys by simp
  moreover have "map_abs m' = (map_abs m)(key \<mapsto> v)"
    using old unfolding map_abs_def entries upd by auto
  ultimately show thesis
    using that[OF eq] by (simp add: m'_def)
qed

section \<open>Iteration\<close>

text \<open>The entries that an iterator has still to visit.\<close>

definition pending :: "(u64 \<times> 'v) list list \<Rightarrow> ecs_map_iter_t \<Rightarrow> (u64 \<times> 'v) list" where
  "pending bs it = (case it_bucket it of
     None \<Rightarrow> concat bs
   | Some b \<Rightarrow> (case it_entry it of None \<Rightarrow> [] | Some p \<Rightarrow> dropWhile (\<lambda>e. fst e \<noteq> p) (bs ! b))
              @ concat (drop (Suc b) bs))"

definition iter_ok :: "'v ecs_map \<Rightarrow> ecs_map_iter_t \<Rightarrow> bool" where
  "iter_ok m it \<longleftrightarrow> it_map it \<and> change_count m = it_change_count it
     \<and> (case it_bucket it of None \<Rightarrow> True
        | Some b \<Rightarrow> b \<le> bucket_count m \<and>
            (case it_entry it of None \<Rightarrow> True
             | Some p \<Rightarrow> b < bucket_count m \<and> p \<in> fst ` set (mbuckets m ! b)))"

lemma chain_entry_dropWhile:
  "dropWhile (\<lambda>e. fst e \<noteq> p) chain = e # rest \<Longrightarrow> chain_entry chain p = Inr (e, first_key rest)"
  by (induction chain) (auto split: if_splits)

lemma dropWhile_at_entry:
  assumes "distinct (map fst chain)" and "chain = xs @ e # rest"
  shows "dropWhile (\<lambda>x. fst x \<noteq> fst e) chain = e # rest"
proof -
  have "fst e \<notin> fst ` set xs"
    using assms by simp
  then have "fst x \<noteq> fst e" if "x \<in> set xs" for x
    using that by (metis image_eqI)
  then show ?thesis
    unfolding assms(2) by (subst dropWhile_append2) simp_all
qed

lemma first_used_spec:
  "first_used bs \<le> length bs"
  "first_used bs = length bs \<Longrightarrow> concat bs = []"
  "first_used bs < length bs \<Longrightarrow> bs ! first_used bs \<noteq> []
    \<and> concat bs = bs ! first_used bs @ concat (drop (Suc (first_used bs)) bs)"
  by (induction bs) (auto split: if_splits)

lemma iter_visit_ok:
  assumes "iter_ok m it" and b: "b < bucket_count m" "length (mbuckets m) = bucket_count m"
    and d: "distinct (map fst (mbuckets m ! b))" and e: "mbuckets m ! b = xs @ e # rest"
  obtains it' where "iter_visit m it b (Some (fst e)) = Inr (True, it', m\<lparr>last_iterated := fst e\<rparr>)"
    "iter_ok (m\<lparr>last_iterated := fst e\<rparr>) it'" "it_res it' = Some (fst e)"
    "pending (mbuckets m) it' = rest @ concat (drop (Suc b) (mbuckets m))"
    "ecs_map_value (m\<lparr>last_iterated := fst e\<rparr>) it' = Inr (snd e)"
    "it_bucket it' = Some b" "it_entry it' = first_key rest"
proof -
  let ?it = "it\<lparr>it_bucket := Some b, it_entry := first_key rest, it_res := Some (fst e)\<rparr>"
  have c: "chain_entry (mbuckets m ! b) (fst e) = Inr (e, first_key rest)"
    using dropWhile_at_entry[OF d e] by (rule chain_entry_dropWhile)
  have eq: "iter_visit m it b (Some (fst e)) = Inr (True, ?it, m\<lparr>last_iterated := fst e\<rparr>)"
    using b c by (simp add: iter_visit_def)
  have "dropWhile (\<lambda>x. fst x \<noteq> p) (mbuckets m ! b) = rest" if "first_key rest = Some p" for p
  proof -
    from that obtain r rs where r: "rest = r # rs" "p = fst r"
      by (cases rest) (auto simp: first_key_def)
    then show ?thesis
      using dropWhile_at_entry[OF d, of "xs @ [e]" r rs] e by simp
  qed
  moreover have "rest = []" if "first_key rest = None"
    using that by (cases rest) (auto simp: first_key_def)
  ultimately have "pending (mbuckets m) ?it = rest @ concat (drop (Suc b) (mbuckets m))"
    by (cases "first_key rest") (simp_all add: pending_def)
  moreover have "iter_ok (m\<lparr>last_iterated := fst e\<rparr>) ?it"
    using assms(1) b e by (cases rest) (auto simp: iter_ok_def first_key_def)
  moreover have "ecs_map_value (m\<lparr>last_iterated := fst e\<rparr>) ?it = Inr (snd e)"
    using b c by (simp add: ecs_map_value_def)
  moreover have "it_bucket ?it = Some b" "it_entry ?it = first_key rest"
    by simp_all
  ultimately show thesis
    using eq by (intro that[of ?it]) simp_all
qed

lemma iter_scan_ok:
  assumes ok: "iter_ok m it" and len: "length (mbuckets m) = bucket_count m"
    and d: "distinct (map fst (concat (mbuckets m)))" and b: "b \<le> bucket_count m"
  shows "case concat (drop b (mbuckets m)) of
      [] \<Rightarrow> \<exists>it'. iter_scan m it b = Inr (False, it', m)
    | e # rest \<Rightarrow> \<exists>it'. iter_scan m it b = Inr (True, it', m\<lparr>last_iterated := fst e\<rparr>)
        \<and> iter_ok (m\<lparr>last_iterated := fst e\<rparr>) it' \<and> it_res it' = Some (fst e)
        \<and> pending (mbuckets m) it' = rest \<and> ecs_map_value (m\<lparr>last_iterated := fst e\<rparr>) it' = Inr (snd e)"
proof -
  let ?bs = "drop b (mbuckets m)"
  let ?j = "b + first_used ?bs"
  note f = first_used_spec[of ?bs]
  show ?thesis
  proof (cases "first_used ?bs = length ?bs")
    case True
    then have "?j = bucket_count m" using b len by simp
    then have "iter_scan m it b = Inr (False, it\<lparr>it_bucket := Some (bucket_count m)\<rparr>, m)"
      using len by (simp add: iter_scan_def Let_def)
    then show ?thesis
      unfolding f(2)[OF True] list.case by blast
  next
    case False
    then have lt: "first_used ?bs < length ?bs" using f(1) by simp
    then have j: "?j < bucket_count m" using len by simp
    obtain e rest where e: "mbuckets m ! ?j = [] @ e # rest"
      using f(3)[OF lt] b len by (cases "mbuckets m ! ?j") auto
    have "mbuckets m ! ?j \<in> set (mbuckets m)" using j len by simp
    then have "distinct (map fst (mbuckets m ! ?j))"
      using d by (metis (no_types, lifting) distinct_concat_iff image_eqI list.set_map map_concat)
    from iter_visit_ok[OF ok j len this e] obtain it' where it':
      "iter_visit m it ?j (Some (fst e)) = Inr (True, it', m\<lparr>last_iterated := fst e\<rparr>)"
      "iter_ok (m\<lparr>last_iterated := fst e\<rparr>) it'" "it_res it' = Some (fst e)"
      "pending (mbuckets m) it' = rest @ concat (drop (Suc ?j) (mbuckets m))"
      "ecs_map_value (m\<lparr>last_iterated := fst e\<rparr>) it' = Inr (snd e)" by metis
    have "iter_scan m it b = Inr (True, it', m\<lparr>last_iterated := fst e\<rparr>)"
      using j len e it'(1) by (simp add: iter_scan_def Let_def first_key_def)
    moreover have "concat ?bs = e # rest @ concat (drop (Suc ?j) (mbuckets m))"
      using f(3)[OF lt] b len e by (simp add: add.commute)
    ultimately show ?thesis
      using it' by auto
  qed
qed

lemma map_next:
  assumes wf: "map_wf m" and ok: "iter_ok m it"
  shows "case pending (mbuckets m) it of
      [] \<Rightarrow> \<exists>it'. ecs_map_next m it = Inr (False, it', m)
    | e # rest \<Rightarrow> \<exists>it'. ecs_map_next m it = Inr (True, it', m\<lparr>last_iterated := fst e\<rparr>)
        \<and> iter_ok (m\<lparr>last_iterated := fst e\<rparr>) it' \<and> it_res it' = Some (fst e)
        \<and> pending (mbuckets m) it' = rest \<and> ecs_map_value (m\<lparr>last_iterated := fst e\<rparr>) it' = Inr (snd e)"
proof -
  have len: "length (mbuckets m) = bucket_count m"
    using wf by (simp add: map_wf_shape map_shape_length)
  have d: "distinct (map fst (concat (mbuckets m)))"
    using wf by (simp add: map_wf_def map_entries_def)
  have it: "it_map it" "change_count m = it_change_count it"
    using ok by (auto simp: iter_ok_def)
  show ?thesis
  proof (cases "it_bucket it")
    case None
    then have "ecs_map_next m it = iter_scan m it 0" "pending (mbuckets m) it = concat (drop 0 (mbuckets m))"
      using it by (simp_all add: ecs_map_next_def pending_def)
    then show ?thesis
      using iter_scan_ok[OF ok len d, of 0] by (simp only:)
  next
    case (Some b)
    then have b: "b \<le> bucket_count m" using ok by (simp add: iter_ok_def)
    show ?thesis
    proof (cases "it_entry it")
      case None
      show ?thesis
      proof (cases "b = bucket_count m")
        case True
        then have "pending (mbuckets m) it = []" "ecs_map_next m it = Inr (False, it, m)"
          using it Some None len by (simp_all add: ecs_map_next_def pending_def)
        then show ?thesis by simp
      next
        case False
        then have "ecs_map_next m it = iter_scan m it (b + 1)"
          "pending (mbuckets m) it = concat (drop (b + 1) (mbuckets m))"
          using it Some None by (simp_all add: ecs_map_next_def pending_def)
        moreover have "b + 1 \<le> bucket_count m"
          using False b by simp
        ultimately show ?thesis
          using iter_scan_ok[OF ok len d, of "b + 1"] by (simp only:)
      qed
    next
      case p: (Some p)
      then have lt: "b < bucket_count m" and "p \<in> fst ` set (mbuckets m ! b)"
        using ok Some by (simp_all add: iter_ok_def)
      then obtain e xs rest where e: "p = fst e" "mbuckets m ! b = xs @ e # rest"
        by (metis imageE split_list)
      have db: "distinct (map fst (mbuckets m ! b))"
        using d lt len by (metis (no_types, lifting) distinct_concat_iff image_eqI list.set_map map_concat nth_mem)
      have next_eq: "ecs_map_next m it = iter_visit m it b (Some (fst e))"
        using it Some p lt by (simp add: ecs_map_next_def e(1))
      have pend: "pending (mbuckets m) it = e # rest @ concat (drop (Suc b) (mbuckets m))"
        using Some p dropWhile_at_entry[OF db e(2)] by (simp add: pending_def e(1))
      show ?thesis
        unfolding pend list.case next_eq using iter_visit_ok[OF ok lt len db e(2)] by metis
    qed
  qed
qed

text \<open>
  A client's loop over all entries that removes the entries selected by \<open>sel\<close> as it goes, the way
  the ECS removes entries while it iterates: only the entry just visited is ever removed.
\<close>

fun map_filter_loop ::
    "nat \<Rightarrow> (u64 \<Rightarrow> 'v \<Rightarrow> bool) \<Rightarrow> ('v::zero) ecs_map \<Rightarrow> ecs_map_iter_t \<Rightarrow> 'v ecs_map res" where
  "map_filter_loop 0 sel m it = Inl OUT_OF_FUEL"
| "map_filter_loop (Suc fuel) sel m it =
     res_bind (ecs_map_next m it) (\<lambda>(more, it, m).
     if \<not> more then Inr m
     else
       res_bind (ecs_map_key it) (\<lambda>key.
       res_bind (ecs_map_value m it) (\<lambda>value.
       if sel key value then
         res_bind (ecs_map_remove m key) (\<lambda>(m, _). map_filter_loop fuel sel m it)
       else map_filter_loop fuel sel m it)))"

lemma map_wf_update_iterated [simp]:
  "map_wf (m\<lparr>last_iterated := k\<rparr>) = map_wf m"
  "map_abs (m\<lparr>last_iterated := k\<rparr>) = map_abs m"
  by (simp_all add: map_wf_def map_shape_def map_abs_def map_entries_def)

lemma iter_start:
  "map_wf m \<Longrightarrow> iter_ok m (ecs_map_iter m)"
  "map_wf m \<Longrightarrow> pending (mbuckets m) (ecs_map_iter m) = map_entries m"
  by (auto simp: map_wf_def map_shape_def ecs_map_iter_def ecs_map_is_init_def iter_ok_def pending_def map_entries_def)

lemma dropWhile_filter_key:
  "p \<noteq> k \<Longrightarrow> dropWhile (\<lambda>e. fst e \<noteq> p) (filter (\<lambda>e. fst e \<noteq> k) es)
    = filter (\<lambda>e. fst e \<noteq> k) (dropWhile (\<lambda>e. fst e \<noteq> p) es)"
  by (induction es) auto

lemma pending_remove:
  assumes "it_entry it \<noteq> Some k"
    and "case it_bucket it of None \<Rightarrow> True | Some b \<Rightarrow> b < length bs \<or> it_entry it = None"
  shows "pending (map (filter (\<lambda>e. fst e \<noteq> k)) bs) it = filter (\<lambda>e. fst e \<noteq> k) (pending bs it)"
  using assms
  by (auto simp: pending_def filter_concat drop_map dropWhile_filter_key split: option.splits)

lemma pending_suffix:
  assumes "iter_ok m it" and "length (mbuckets m) = bucket_count m"
  shows "\<exists>ys. map_entries m = ys @ pending (mbuckets m) it"
proof (cases "it_bucket it")
  case None
  then show ?thesis by (simp add: pending_def map_entries_def)
next
  case (Some b)
  show ?thesis
  proof (cases "b < bucket_count m")
    case True
    let ?d = "case it_entry it of None \<Rightarrow> [] | Some p \<Rightarrow> dropWhile (\<lambda>e. fst e \<noteq> p) (mbuckets m ! b)"
    obtain xs where xs: "mbuckets m ! b = xs @ ?d"
    proof (cases "it_entry it")
      case (Some p)
      then show thesis
        using that[of "takeWhile (\<lambda>e. fst e \<noteq> p) (mbuckets m ! b)"] by simp
    qed (use that in simp)
    have split: "map_entries m = concat (take b (mbuckets m)) @ mbuckets m ! b @ concat (drop (Suc b) (mbuckets m))"
      using True assms(2) id_take_nth_drop[of b "mbuckets m"]
      unfolding map_entries_def by (metis concat.simps(2) concat_append)
    have "map_entries m = (concat (take b (mbuckets m)) @ xs) @ ?d @ concat (drop (Suc b) (mbuckets m))"
      by (subst split, subst xs) simp
    then have "map_entries m = (concat (take b (mbuckets m)) @ xs) @ pending (mbuckets m) it"
      using Some by (simp add: pending_def)
    then show ?thesis ..
  next
    case False
    then have "pending (mbuckets m) it = []"
      using assms Some by (auto simp: pending_def iter_ok_def split: option.splits)
    then show ?thesis by simp
  qed
qed

lemma entry_in_pending:
  assumes "iter_ok m it" and "it_entry it = Some p" and "it_bucket it = Some b"
  shows "p \<in> fst ` set (pending (mbuckets m) it)"
proof -
  have "p \<in> fst ` set (mbuckets m ! b)"
    using assms by (simp add: iter_ok_def)
  then obtain e where "e \<in> set (mbuckets m ! b)" "fst e = p" by blast
  then have "dropWhile (\<lambda>e. fst e \<noteq> p) (mbuckets m ! b) \<noteq> []"
    by (auto simp: dropWhile_eq_Nil_conv)
  then have "hd (dropWhile (\<lambda>e. fst e \<noteq> p) (mbuckets m ! b)) \<in> set (pending (mbuckets m) it)"
    "fst (hd (dropWhile (\<lambda>e. fst e \<noteq> p) (mbuckets m ! b))) = p"
    using assms(2,3) hd_dropWhile[of "\<lambda>e. fst e \<noteq> p" "mbuckets m ! b"] by (simp_all add: pending_def)
  then show ?thesis by force
qed

text \<open>Removing the entry just visited leaves the iterator valid and what it has to visit unchanged.\<close>

lemma remove_visited:
  assumes wf: "map_wf m" and ok: "iter_ok m it" and last: "last_iterated m = k"
    and k: "k \<notin> fst ` set (pending (mbuckets m) it)" and visited: "it_bucket it \<noteq> None"
  obtains m' v where "ecs_map_remove m k = Inr (m', v)" "map_wf m'" "iter_ok m' it"
    "map_abs m' = (map_abs m)(k := None)" "pending (mbuckets m') it = pending (mbuckets m) it"
proof -
  obtain b where b: "it_bucket it = Some b" using visited by blast
  have len: "length (mbuckets m) = bucket_count m"
    using wf by (simp add: map_wf_shape map_shape_length)
  obtain m' v where m': "ecs_map_remove m k = Inr (m', v)" "map_wf m'" "map_abs m' = (map_abs m)(k := None)"
    "bucket_count m' = bucket_count m" "change_count m' = change_count m"
    "mbuckets m' = map (filter (\<lambda>e. fst e \<noteq> k)) (mbuckets m)"
    using map_remove[OF wf, of k] last by metis
  have other: "it_entry it \<noteq> Some k"
    using entry_in_pending[OF ok _ b] k by blast
  have "p \<noteq> k" if "it_entry it = Some p" for p
    using other that by simp
  then have "iter_ok m' it"
    using ok b m' len by (auto simp: iter_ok_def split: option.splits)
  moreover have "pending (mbuckets m') it = filter (\<lambda>e. fst e \<noteq> k) (pending (mbuckets m) it)"
    unfolding m'(6) using other ok b len
    by (intro pending_remove) (auto simp: iter_ok_def split: option.splits)
  moreover have "filter (\<lambda>e. fst e \<noteq> k) (pending (mbuckets m) it) = pending (mbuckets m) it"
    using k by (intro filter_neq_absent) (simp add: map_of_eq_None_iff)
  ultimately show thesis
    using m' by (intro that[of m' v]) simp_all
qed

lemma map_filter_loop_ok:
  "map_wf m \<Longrightarrow> iter_ok m it \<Longrightarrow> length (pending (mbuckets m) it) < fuel \<Longrightarrow>
    \<exists>m'. map_filter_loop fuel sel m it = Inr m' \<and> map_wf m'
      \<and> map_abs m' = (\<lambda>k. if \<exists>v. (k, v) \<in> set (pending (mbuckets m) it) \<and> sel k v then None else map_abs m k)"
proof (induction fuel arbitrary: m it)
  case (Suc fuel)
  show ?case
  proof (cases "pending (mbuckets m) it")
    case Nil
    then obtain it' where "ecs_map_next m it = Inr (False, it', m)"
      using map_next[OF Suc.prems(1,2)] by auto
    with Suc.prems(1) Nil show ?thesis by simp
  next
    case (Cons e rest)
    define m1 where "m1 = m\<lparr>last_iterated := fst e\<rparr>"
    obtain it' where n: "ecs_map_next m it = Inr (True, it', m1)" "iter_ok m1 it'"
      "it_res it' = Some (fst e)" "pending (mbuckets m1) it' = rest" "ecs_map_value m1 it' = Inr (snd e)"
      using map_next[OF Suc.prems(1,2)] unfolding Cons list.case by (auto simp: m1_def)
    have m1: "map_wf m1" "map_abs m1 = map_abs m" "last_iterated m1 = fst e"
      using Suc.prems(1) by (simp_all add: m1_def)
    have "length (mbuckets m) = bucket_count m" "distinct (map fst (map_entries m))"
      using Suc.prems(1) by (auto simp: map_wf_def map_shape_length)
    moreover from this obtain ys where "map_entries m = ys @ e # rest"
      using pending_suffix[OF Suc.prems(2)] unfolding Cons by blast
    ultimately have "distinct (map fst (e # rest))"
      by simp
    then have fresh: "fst e \<notin> fst ` set rest" by simp
    have len: "length rest < fuel" using Suc.prems(3) Cons by simp
    show ?thesis
    proof (cases "sel (fst e) (snd e)")
      case False
      have "\<exists>m'. map_filter_loop fuel sel m1 it' = Inr m' \<and> map_wf m'
        \<and> map_abs m' = (\<lambda>k. if \<exists>v. (k, v) \<in> set rest \<and> sel k v then None else map_abs m k)"
        using Suc.IH[OF m1(1) n(2)] len unfolding n(4) m1(2) by blast
      moreover have "(\<exists>v. (k, v) \<in> set (e # rest) \<and> sel k v) \<longleftrightarrow> (\<exists>v. (k, v) \<in> set rest \<and> sel k v)" for k
        using False by (cases e) auto
      ultimately show ?thesis
        using n False by (simp add: Cons ecs_map_key_def)
    next
      case True
      have "it_bucket it' \<noteq> None"
        using n(5) by (cases "it_bucket it'") (auto simp: ecs_map_value_def n(3))
      then obtain m2 v where m2: "ecs_map_remove m1 (fst e) = Inr (m2, v)" "map_wf m2" "iter_ok m2 it'"
        "map_abs m2 = (map_abs m)(fst e := None)" "pending (mbuckets m2) it' = rest"
        using remove_visited[OF m1(1) n(2) m1(3)] fresh unfolding n(4) m1(2) by metis
      have "\<exists>m'. map_filter_loop fuel sel m2 it' = Inr m' \<and> map_wf m'
        \<and> map_abs m' = (\<lambda>k. if \<exists>v. (k, v) \<in> set rest \<and> sel k v then None else map_abs m2 k)"
        using Suc.IH[OF m2(2,3)] len unfolding m2(5) by blast
      moreover have "(if \<exists>v. (k, v) \<in> set rest \<and> sel k v then None else map_abs m2 k)
          = (if \<exists>v. (k, v) \<in> set (e # rest) \<and> sel k v then None else map_abs m k)" for k
        using True by (cases e) (auto simp: m2(4))
      ultimately show ?thesis
        using n True m2(1) by (simp add: Cons ecs_map_key_def)
    qed
  qed
qed simp

text \<open>
  Claim C24: iterating a map and removing selected entries on the way visits every entry: it does
  not abort, it ends, and what is left is exactly the entries that were not selected.
\<close>

theorem map_filter_while_iterating:
  assumes "map_wf m"
  shows "\<exists>m'. map_filter_loop (mcount m + 1) sel m (ecs_map_iter m) = Inr m' \<and> map_wf m'
    \<and> map_abs m' = (\<lambda>k. case map_abs m k of None \<Rightarrow> None
                         | Some v \<Rightarrow> if sel k v then None else Some v)"
proof -
  have "length (pending (mbuckets m) (ecs_map_iter m)) < mcount m + 1"
    using assms by (simp add: iter_start map_wf_def)
  from map_filter_loop_ok[OF assms iter_start(1)[OF assms] this, of sel]
  obtain m' where m': "map_filter_loop (mcount m + 1) sel m (ecs_map_iter m) = Inr m'" "map_wf m'"
    "map_abs m' = (\<lambda>k. if \<exists>v. (k, v) \<in> set (map_entries m) \<and> sel k v then None else map_abs m k)"
    unfolding iter_start(2)[OF assms] by blast
  have "(k, v) \<in> set (map_entries m) \<longleftrightarrow> map_abs m k = Some v" for k v
    using assms by (simp add: map_wf_def map_abs_def)
  then have "map_abs m' = (\<lambda>k. case map_abs m k of None \<Rightarrow> None | Some v \<Rightarrow> if sel k v then None else Some v)"
    unfolding m'(3) by (auto simp: fun_eq_iff split: option.splits)
  with m' show ?thesis by blast
qed

definition sample_map :: "nat option ecs_map" where
  "sample_map = \<lparr>mbuckets = [[(2, Some 7)], [(1, Some 5)]], bucket_count = 2, mcount = 2,
     bucket_shift = 63, change_count = 2, last_iterated = 0\<rparr>"

lemma sample_map_wf: "map_wf sample_map"
proof -
  have "hash_bucket 63 1 = 1" "hash_bucket 63 2 = 0" by code_simp+
  then show ?thesis
    by (auto simp: map_wf_def map_shape_def sample_map_def placed_def map_entries_def 
      less_Suc_eq intro!: bexI[of _ 1])
qed

theorem map_filter_while_iterating_witness:
  "\<exists>m'. map_filter_loop (mcount sample_map + 1) (\<lambda>k v. k = 1) sample_map (ecs_map_iter sample_map) = Inr m'
    \<and> map_wf m' \<and> map_abs m' = (\<lambda>k. case map_abs sample_map k of None \<Rightarrow> None
                         | Some v \<Rightarrow> if k = 1 then None else Some v)"
  by (rule map_filter_while_iterating[where sel = "\<lambda>k v. k = 1"]) (rule sample_map_wf)

lemma copy_loop_ok:
  "map_wf src \<Longrightarrow> iter_ok src it \<Longrightarrow> length (pending (mbuckets src) it) < fuel \<Longrightarrow> map_wf dst \<Longrightarrow>
    mcount dst + length (pending (mbuckets src) it) < 2 ^ 26 \<Longrightarrow>
    dom (map_abs dst) \<inter> fst ` set (pending (mbuckets src) it) = {} \<Longrightarrow>
    \<exists>dst' src'. copy_loop fuel dst src it = Inr (dst', src') \<and> map_wf dst' \<and> map_wf src'
      \<and> map_abs dst' = map_abs dst ++ map_of (pending (mbuckets src) it) \<and> map_abs src' = map_abs src"
proof (induction fuel arbitrary: dst src it)
  case (Suc fuel)
  show ?case
  proof (cases "pending (mbuckets src) it")
    case Nil
    then obtain it' where "ecs_map_next src it = Inr (False, it', src)"
      using map_next[OF Suc.prems(1,2)] by auto
    with Suc.prems Nil show ?thesis by simp
  next
    case (Cons e rest)
    define src1 where "src1 = src\<lparr>last_iterated := fst e\<rparr>"
    obtain it' where n: "ecs_map_next src it = Inr (True, it', src1)" "iter_ok src1 it'"
      "it_res it' = Some (fst e)" "pending (mbuckets src1) it' = rest" "ecs_map_value src1 it' = Inr (snd e)"
      using map_next[OF Suc.prems(1,2)] unfolding Cons list.case by (auto simp: src1_def)
    have src1: "map_wf src1" "map_abs src1 = map_abs src"
      using Suc.prems(1) by (simp_all add: src1_def)
    have "length (mbuckets src) = bucket_count src" "distinct (map fst (map_entries src))"
      using Suc.prems(1) by (auto simp: map_wf_def map_shape_length)
    moreover from this obtain ys where "map_entries src = ys @ e # rest"
      using pending_suffix[OF Suc.prems(2)] unfolding Cons by blast
    ultimately have d: "fst e \<notin> fst ` set rest" "distinct (map fst rest)"
      by simp_all
    have "map_abs dst (fst e) = None" "mcount dst + 1 < 2 ^ 26"
      using Suc.prems(5,6) Cons by auto
    then obtain dst1 where dst1: "ecs_map_insert dst (fst e) (snd e) = Inr dst1" "map_wf dst1"
      "map_abs dst1 = (map_abs dst)(fst e \<mapsto> snd e)"
      using map_insert[OF Suc.prems(4)] by metis
    have "mcount dst1 = Suc (mcount dst)"
      using card_map_abs[OF dst1(2)] card_map_abs[OF Suc.prems(4)] finite_map_abs[of dst]
        \<open>map_abs dst (fst e) = None\<close> by (simp add: dst1(3) domIff)
    then have "mcount dst1 + length rest < 2 ^ 26" "length rest < fuel"
      using Suc.prems(3,5) Cons by simp_all
    moreover have "dom (map_abs dst1) \<inter> fst ` set rest = {}"
      using Suc.prems(6) d(1) Cons by (auto simp: dst1(3))
    ultimately obtain dst' src' where r: "copy_loop fuel dst1 src1 it' = Inr (dst', src')" "map_wf dst'"
      "map_wf src'" "map_abs dst' = map_abs dst1 ++ map_of rest" "map_abs src' = map_abs src1"
      using Suc.IH[OF src1(1) n(2) _ dst1(2)] unfolding n(4) by blast
    have "map_of rest (fst e) = None"
      using d(1) by (simp add: map_of_eq_None_iff)
    then have "map_abs dst1 ++ map_of rest = map_abs dst ++ map_of (e # rest)"
      unfolding dst1(3) by (simp add: map_add_upd_left domIff)
    with r(4) have "map_abs dst' = map_abs dst ++ map_of (e # rest)" by simp
    then show ?thesis
      unfolding Cons using n(1,3,5) dst1(1) r(1-3,5) src1(2)
      by (simp add: ecs_map_key_def del: map_of.simps)
  qed
qed simp

text \<open>
  Copying a map onto a zeroed or empty one ends and gives a map with the same
  contents; the source keeps its own.
\<close>

lemma map_copy_same:
  fixes src dst :: "'v ecs_map"
  assumes "map_wf src" and "dst = zero_map \<or> map_wf dst \<and> mcount dst = 0"
  shows "\<exists>dst' src'. ecs_map_copy dst src = Inr (dst', src') \<and> map_wf dst' \<and> map_wf src'
    \<and> map_abs dst' = map_abs src \<and> map_abs src' = map_abs src"
proof -
  obtain d :: "'v ecs_map" where d: "ecs_map_init = Inr d" "map_wf d" "map_abs d = Map.empty" "map_entries d = []"
    using map_init by metis
  have side: "length (map_entries src) < Suc (mcount src)" "mcount d + length (map_entries src) < 2 ^ 26"
    "dom (map_abs d) \<inter> fst ` set (map_entries src) = {}"
    using assms(1) d(2-4) by (simp_all add: map_wf_def)
  have p: "pending (mbuckets src) (ecs_map_iter src) = map_entries src"
    using assms(1) by (rule iter_start)
  have "\<exists>dst' src'. copy_loop (Suc (mcount src)) d src (ecs_map_iter src) = Inr (dst', src')
      \<and> map_wf dst' \<and> map_wf src' \<and> map_abs dst' = map_abs d ++ map_of (map_entries src)
      \<and> map_abs src' = map_abs src"
    using copy_loop_ok[OF assms(1) iter_start(1)[OF assms(1)], of "Suc (mcount src)" d] side d(2)
    unfolding p by blast
  moreover have "ecs_map_is_init src"
    using assms(1) by (auto simp: map_wf_def map_shape_def ecs_map_is_init_def)
  moreover have "\<not> ecs_map_is_init dst \<or> ecs_map_count dst = 0"
    using assms(2) by (auto simp: zero_map_def ecs_map_is_init_def ecs_map_count_def)
  ultimately show ?thesis
    using d(3) unfolding map_abs_def[of src, symmetric] ecs_map_copy_def d(1)
    by (auto simp del: copy_loop.simps)
qed

section \<open>Runs of operations\<close>

text \<open>
  A caller's operations and what each returns: the payload that a lookup, an ensure or a removal
  gives back. \<open>MapSet\<close> is ensure followed by a write through the returned pointer.
\<close>

datatype 'v map_op =
    MapInsert u64 'v | MapEnsure u64 | MapSet u64 'v | MapRemove u64 | MapGet u64 | MapReclaim | MapClear

fun map_exec :: "'v map_op \<Rightarrow> ('v::zero) ecs_map \<Rightarrow> ('v ecs_map \<times> 'v option) res" where
  "map_exec (MapInsert k v) m = res_bind (ecs_map_insert m k v) (\<lambda>m. Inr (m, None))"
| "map_exec (MapEnsure k) m = res_bind (ecs_map_ensure m k) (\<lambda>(m, v). Inr (m, Some v))"
| "map_exec (MapSet k v) m =
     res_bind (ecs_map_ensure m k) (\<lambda>(m, _). res_bind (map_write m k v) (\<lambda>m. Inr (m, None)))"
| "map_exec (MapRemove k) m = res_bind (ecs_map_remove m k) (\<lambda>(m, v). Inr (m, Some v))"
| "map_exec (MapGet k) m = res_bind (ecs_map_get m k) (\<lambda>v. Inr (m, v))"
| "map_exec MapReclaim m = res_bind (ecs_map_reclaim m) (\<lambda>m. Inr (m, None))"
| "map_exec MapClear m = res_bind (ecs_map_clear m) (\<lambda>m. Inr (m, None))"

fun map_spec :: "'v map_op \<Rightarrow> (u64 \<rightharpoonup> 'v::zero) \<Rightarrow> ((u64 \<rightharpoonup> 'v) \<times> 'v option) res" where
  "map_spec (MapInsert k v) f =
     (if f k = None then Inr (f(k \<mapsto> v), None) else Inl ECS_INVALID_PARAMETER)"
| "map_spec (MapEnsure k) f =
     (case f k of None \<Rightarrow> Inr (f(k \<mapsto> 0), Some 0) | Some v \<Rightarrow> Inr (f, Some v))"
| "map_spec (MapSet k v) f = Inr (f(k \<mapsto> v), None)"
| "map_spec (MapRemove k) f =
     Inr (f(k := None), Some (case f k of None \<Rightarrow> 0 | Some v \<Rightarrow> v))"
| "map_spec (MapGet k) f = Inr (f, f k)"
| "map_spec MapReclaim f = Inr (f, None)"
| "map_spec MapClear f = Inr (Map.empty, None)"

fun map_run :: "'v map_op list \<Rightarrow> ('v::zero) ecs_map \<Rightarrow> 'v option list res" where
  "map_run [] m = Inr []"
| "map_run (x # xs) m =
     res_bind (map_exec x m) (\<lambda>(m, out). res_bind (map_run xs m) (\<lambda>outs. Inr (out # outs)))"

fun map_spec_run :: "'v map_op list \<Rightarrow> (u64 \<rightharpoonup> 'v::zero) \<Rightarrow> 'v option list res" where
  "map_spec_run [] f = Inr []"
| "map_spec_run (x # xs) f =
     res_bind (map_spec x f) (\<lambda>(f, out). res_bind (map_spec_run xs f) (\<lambda>outs. Inr (out # outs)))"

lemma map_count_grows:
  assumes "map_wf m" "map_wf m'" "map_abs m' = (map_abs m)(k \<mapsto> v)"
  shows "mcount m' \<le> mcount m + 1"
  using card_map_abs[OF assms(1)] card_map_abs[OF assms(2)] finite_map_abs[of m]
  by (simp add: assms(3) card_insert_if)

lemma map_count_shrinks:
  assumes "map_wf m" "map_wf m'" "dom (map_abs m') \<subseteq> dom (map_abs m)"
  shows "mcount m' \<le> mcount m"
  using card_map_abs[OF assms(1)] card_map_abs[OF assms(2)] finite_map_abs[of m] assms(3)
  by (simp add: card_mono)

lemma map_exec_simulates:
  assumes "map_wf m" and "mcount m + 1 < 2 ^ 26"
  shows "(case map_exec x m of
            Inl e \<Rightarrow> map_spec x (map_abs m) = Inl e
          | Inr (m', out) \<Rightarrow> map_wf m' \<and> mcount m' \<le> mcount m + 1
              \<and> map_spec x (map_abs m) = Inr (map_abs m', out))"
proof (cases x)
  case (MapInsert k v)
  show ?thesis
  proof (cases "map_abs m k")
    case None
    obtain m' where "ecs_map_insert m k v = Inr m'" "map_wf m'" "map_abs m' = (map_abs m)(k \<mapsto> v)"
      using map_insert[OF assms(1) None assms(2)] by metis
    with map_count_grows[OF assms(1), of m'] None MapInsert show ?thesis by simp
  qed (use map_insert_dup[OF assms(1)] MapInsert in simp)
next
  case (MapEnsure k)
  obtain m' v where "ecs_map_ensure m k = Inr (m', v)" "map_wf m'"
    "v = (case map_abs m k of Some v \<Rightarrow> v | None \<Rightarrow> 0)" "map_abs m' = (map_abs m)(k \<mapsto> v)"
    using map_ensure[OF assms(1), of k] assms(2) by metis
  with map_count_grows[OF assms(1), of m'] MapEnsure show ?thesis
    by (auto simp: fun_upd_idem split: option.splits)
next
  case (MapSet k v)
  obtain m1 w where m1: "ecs_map_ensure m k = Inr (m1, w)" "map_wf m1" "map_abs m1 = (map_abs m)(k \<mapsto> w)"
    using map_ensure[OF assms(1), of k] assms(2) by metis
  then have "map_abs m1 k \<noteq> None" by simp
  then obtain m' where "map_write m1 k v = Inr m'" "map_wf m'" "map_abs m' = (map_abs m1)(k \<mapsto> v)"
    using map_write[OF m1(2)] by metis
  with map_count_grows[OF assms(1), of m'] m1 MapSet show ?thesis by simp
next
  case (MapRemove k)
  obtain m' where "ecs_map_remove m k = Inr (m', case map_abs m k of Some v \<Rightarrow> v | None \<Rightarrow> 0)"
    "map_wf m'" "map_abs m' = (map_abs m)(k := None)"
    using map_remove[OF assms(1), of k] by metis
  with map_count_shrinks[OF assms(1), of m'] MapRemove show ?thesis by auto
next
  case (MapGet k)
  then show ?thesis using assms by (simp add: map_get)
next
  case MapReclaim
  obtain m' where "ecs_map_reclaim m = Inr m'" "map_wf m'" "map_abs m' = map_abs m"
    using map_reclaim[OF assms(1)] by metis
  with map_count_shrinks[OF assms(1), of m'] MapReclaim show ?thesis by simp
next
  case MapClear
  obtain m' where "ecs_map_clear m = Inr m'" "map_wf m'" "map_abs m' = Map.empty"
    using map_clear[of m] by metis
  with map_count_shrinks[OF assms(1), of m'] MapClear show ?thesis by simp
qed

lemma map_run_simulates:
  "map_wf m \<Longrightarrow> mcount m + length xs < 2 ^ 26 \<Longrightarrow> map_run xs m = map_spec_run xs (map_abs m)"
proof (induction xs arbitrary: m)
  case (Cons x xs)
  have "mcount m + 1 < 2 ^ 26" using Cons.prems(2) by simp
  note step = map_exec_simulates[OF Cons.prems(1) this, of x]
  show ?case
  proof (cases "map_exec x m")
    case (Inl e)
    with step show ?thesis by simp
  next
    case (Inr r)
    then obtain m' out where r: "map_exec x m = Inr (m', out)" by (cases r) auto
    then have "map_wf m'" "mcount m' \<le> mcount m + 1" "map_spec x (map_abs m) = Inr (map_abs m', out)"
      using step by simp_all
    with r Cons.IH[of m'] Cons.prems(2) show ?thesis by simp
  qed
qed simp

text \<open>
  Claim C3: a fresh map answers any sequence of insertions, ensures, writes, removals, lookups,
  reclaims and clears the way a finite map from 64-bit keys does: the same outputs, and the same
  abort on a double insertion, whatever rehashing happens on the way. (Up to 2\^26 - 1 operations:
  the 26-bit count.)
\<close>

theorem map_refines_partial_map:
  assumes "length xs < 2 ^ 26"
  shows "res_bind ecs_map_init (map_run xs) = map_spec_run xs Map.empty"
proof -
  obtain m :: "'a ecs_map" where m: "ecs_map_init = Inr m" "map_wf m" "map_abs m = Map.empty" "map_entries m = []"
    using map_init by metis
  then have "mcount m + length xs < 2 ^ 26"
    using assms by (simp add: map_wf_def)
  with map_run_simulates[OF m(2)] show ?thesis
    unfolding m(1) by (simp add: m(3))
qed

theorem map_refines_partial_map_witness:
  "res_bind ecs_map_init (map_run [MapInsert 4 (Some (9::nat)), MapInsert 5 None, MapSet 6 (Some 1), MapRemove 5, MapGet 4])
    = map_spec_run [MapInsert 4 (Some 9), MapInsert 5 None, MapSet 6 (Some 1), MapRemove 5, MapGet 4] Map.empty"
  by (rule map_refines_partial_map) simp

section \<open>The interface of a map from 64-bit keys\<close>

text \<open>
  What the users of the map rely on (the hash map over it, the sparse tables of the name index,
  the table cache): \<open>wf\<close> is the provider's invariant, \<open>abs\<close> the partial map, \<open>cap\<close> the number of
  keys it can hold.
\<close>

locale u64_map =
  fixes wf :: "'m \<Rightarrow> bool" and abs :: "'m \<Rightarrow> u64 \<rightharpoonup> 'v::zero" and cap :: nat
    and init :: "'m res"
    and get :: "'m \<Rightarrow> u64 \<Rightarrow> 'v option res"
    and ensure :: "'m \<Rightarrow> u64 \<Rightarrow> ('m \<times> 'v) res"
    and put :: "'m \<Rightarrow> u64 \<Rightarrow> 'v \<Rightarrow> 'm res"
    and insert :: "'m \<Rightarrow> u64 \<Rightarrow> 'v \<Rightarrow> 'm res"
    and remove :: "'m \<Rightarrow> u64 \<Rightarrow> ('m \<times> 'v) res"
  assumes init: "\<exists>m. init = Inr m \<and> wf m \<and> abs m = Map.empty"
    and finite_dom: "finite (dom (abs m))"
    and get: "wf m \<Longrightarrow> get m k = Inr (abs m k)"
    and ensure: "wf m \<Longrightarrow> abs m k \<noteq> None \<or> card (dom (abs m)) < cap \<Longrightarrow>
      \<exists>m' v. ensure m k = Inr (m', v) \<and> wf m'
        \<and> v = (case abs m k of Some v \<Rightarrow> v | None \<Rightarrow> 0) \<and> abs m' = (abs m)(k \<mapsto> v)"
    and put: "wf m \<Longrightarrow> abs m k \<noteq> None \<Longrightarrow> \<exists>m'. put m k v = Inr m' \<and> wf m' \<and> abs m' = (abs m)(k \<mapsto> v)"
    and insert: "wf m \<Longrightarrow> abs m k = None \<Longrightarrow> card (dom (abs m)) < cap \<Longrightarrow>
      \<exists>m'. insert m k v = Inr m' \<and> wf m' \<and> abs m' = (abs m)(k \<mapsto> v)"
    and remove: "wf m \<Longrightarrow> \<exists>m'. remove m k = Inr (m', case abs m k of Some v \<Rightarrow> v | None \<Rightarrow> 0)
        \<and> wf m' \<and> abs m' = (abs m)(k := None)"
begin

text \<open>Ensure a key, then write through the pointer.\<close>

definition update :: "'m \<Rightarrow> u64 \<Rightarrow> 'v \<Rightarrow> 'm res" where
  "update m k v = res_bind (ensure m k) (\<lambda>(m, _). put m k v)"

lemma update:
  assumes "wf m" and "abs m k \<noteq> None \<or> card (dom (abs m)) < cap"
  shows "\<exists>m'. update m k v = Inr m' \<and> wf m' \<and> abs m' = (abs m)(k \<mapsto> v)"
proof -
  from ensure[OF assms] obtain m1 w where m1: "ensure m k = Inr (m1, w)" "wf m1"
    "abs m1 = (abs m)(k \<mapsto> w)" by blast
  then have "abs m1 k \<noteq> None" by simp
  from put[OF m1(2) this] obtain m' where "put m1 k v = Inr m'" "wf m'"
    "abs m' = (abs m1)(k \<mapsto> v)" by blast
  with m1 show ?thesis by (simp add: update_def)
qed

lemma insert_remove:
  assumes "wf m" "abs m k = None" "card (dom (abs m)) < cap"
  shows "\<exists>m1 m2. insert m k v = Inr m1 \<and> remove m1 k = Inr (m2, v) \<and> wf m2 \<and> abs m2 = abs m"
proof -
  from insert[OF assms] obtain m1 where m1: "insert m k v = Inr m1" "wf m1" "abs m1 = (abs m)(k \<mapsto> v)"
    by blast
  from remove[OF m1(2), of k] obtain m2 where "remove m1 k = Inr (m2, v)" "wf m2" "abs m2 = (abs m1)(k := None)"
    by (auto simp: m1(3))
  with m1 assms(2) show ?thesis by auto
qed

lemma fill:
  assumes "wf m" "distinct (map fst kvs)" "fst ` set kvs \<inter> dom (abs m) = {}"
    and "card (dom (abs m)) + length kvs \<le> cap"
  shows "\<exists>m'. res_fold (\<lambda>m (k, v). insert m k v) m kvs = Inr m' \<and> wf m' \<and> abs m' = abs m ++ map_of kvs"
  using assms
proof (induction kvs arbitrary: m)
  case (Cons kv kvs)
  obtain k v where kv: "kv = (k, v)" by (cases kv)
  have k: "abs m k = None" "card (dom (abs m)) < cap" "map_of kvs k = None"
    using Cons.prems kv by (auto simp: map_of_eq_None_iff)
  from insert[OF Cons.prems(1) k(1,2)] obtain m1 where
    m1: "insert m k v = Inr m1" "wf m1" "abs m1 = (abs m)(k \<mapsto> v)" by blast
  have "fst ` set kvs \<inter> dom (abs m1) = {}"
    using Cons.prems(2,3) kv by (auto simp: m1(3))
  moreover have "card (dom (abs m1)) + length kvs \<le> cap"
    using Cons.prems(4) k(1) finite_dom[of m] by (simp add: m1(3) domIff)
  ultimately obtain m' where m': "res_fold (\<lambda>m (k, v). insert m k v) m1 kvs = Inr m'" "wf m'"
    "abs m' = abs m1 ++ map_of kvs"
    using Cons.IH[OF m1(2)] Cons.prems(2) by auto
  have "abs m1 ++ map_of kvs = abs m ++ map_of (kv # kvs)"
    using k(3) by (simp add: m1(3) kv map_add_upd_left domIff)
  with m' m1(1) show ?case
    by (simp add: kv del: map_of.simps)
qed simp

end

interpretation em: u64_map map_wf map_abs "2 ^ 26 - 1" ecs_map_init ecs_map_get ecs_map_ensure map_write
    ecs_map_insert ecs_map_remove
proof (unfold_locales, goal_cases)
  case 1
  then show ?case using map_init by metis
next
  case (2 m)
  then show ?case by (rule finite_map_abs)
next
  case (3 m k)
  then show ?case by (rule map_get)
next
  case (4 m k)
  then have "map_abs m k \<noteq> None \<or> mcount m + 1 < 2 ^ 26" by (auto simp: card_map_abs)
  then show ?case using map_ensure[OF 4(1), of k] by metis
next
  case (5 m k v)
  then show ?case using map_write[of m k v] by metis
next
  case (6 m k v)
  then have "mcount m + 1 < 2 ^ 26" by (simp add: card_map_abs)
  then show ?case using map_insert[OF 6(1,2), of v] by metis
next
  case (7 m k)
  then show ?case using map_remove[of m k] by metis
qed

text \<open>
  Filling a fresh map with any list of up to 2\^26 - 1 pairwise different keys succeeds,
  and afterwards every key has its value and no other key is present.
\<close>

lemma map_fill:
  fixes kvs :: "(u64 \<times> 'v::zero) list"
  assumes "distinct (map fst kvs)" and "length kvs < 2 ^ 26"
  shows "\<exists>m. res_bind ecs_map_init (\<lambda>m. res_fold (\<lambda>m (k, v). ecs_map_insert m k v) m kvs) = Inr m
    \<and> (\<forall>k. ecs_map_get m k = Inr (map_of kvs k))"
proof -
  obtain m0 :: "'v ecs_map" where m0: "ecs_map_init = Inr m0" "map_wf m0" "map_abs m0 = Map.empty"
    using em.init by blast
  have "length kvs \<le> 2 ^ 26 - 1"
    using assms(2) by (rule less_imp_le_pred)
  then have room: "card (dom (map_abs m0)) + length kvs \<le> 2 ^ 26 - 1"
    unfolding m0(3) dom_empty card.empty add_0 .
  have "fst ` set kvs \<inter> dom (map_abs m0) = {}"
    by (simp add: m0(3))
  from em.fill[OF m0(2) assms(1) this room] obtain m where
    "res_fold (\<lambda>m (k, v). ecs_map_insert m k v) m0 kvs = Inr m" "map_wf m" "map_abs m = map_of kvs"
    unfolding m0(3) empty_map_add by blast
  then show ?thesis
    unfolding m0(1) by (simp add: em.get)
qed

end
