(* ===== verification/Ecs_Dense.thy ===== *)
theory Ecs_Dense
  imports Ecs_Id
begin

text \<open>
  The pairing of a dense array of ids with per-index slots, which the sparse set
  (datastructures/sparse.c) and the entity index (storage/entity\_index.c) share: slot n is the
  position in the dense array of the id with index n, 0 for an index that was never paired. The
  position 0 of the dense array is therefore not used. The elements are the positions below a
  count; those after it are kept for recycling.
\<close>

section \<open>Indices and pages\<close>

text \<open>The index of an id is its low 32 bits: the cast to uint32\_t.\<close>

definition low_index :: "u64 \<Rightarrow> nat" where
  "low_index i = unat (ucast i :: u32)"

lemma low_index_take_bit: "low_index i = unat (take_bit 32 i)"
  by (simp add: low_index_def unsigned_ucast_eq unsigned_take_bit_eq)

lemma low_index_less: "low_index i < 2 ^ 32"
  using unsigned_less[where w = "ucast i :: u32"] by (simp add: low_index_def)

lemma low_index_generation_inc [simp]: "low_index (ECS_GENERATION_INC i) = low_index i"
  by (simp add: low_index_take_bit generation_inc_index)

lemma low_index_small: "unat i < 2 ^ 32 \<Longrightarrow> low_index i = unat i"
  by (simp add: low_index_take_bit unsigned_take_bit_eq take_bit_nat_eq_self)

lemma low_index_word_of_nat: "n < 2 ^ 32 \<Longrightarrow> low_index (word_of_nat n) = n"
  by (simp add: low_index_take_bit unsigned_take_bit_eq unat_of_nat take_bit_nat_eq_self)

lemma low_index_low: "low_index (take_bit 32 i) = low_index i"
  by (simp add: low_index_take_bit)

text \<open>
  A page of 2\^bits slots: the page number is the index shifted right, the offset its low bits.
\<close>

lemma page_of_index: "unat (drop_bit b (ucast i :: u32)) = low_index i div 2 ^ b"
  by (simp add: low_index_def unat_drop_bit_eq drop_bit_nat_def)

lemma offset_of_index: "unat ((ucast i :: u32) AND mask b) = low_index i mod 2 ^ b"
  unfolding take_bit_eq_mask[symmetric] low_index_def unsigned_take_bit_eq take_bit_nat_def ..

section \<open>The pairing\<close>

definition pairing :: "(nat \<Rightarrow> nat) \<Rightarrow> u64 list \<Rightarrow> bool" where
  "pairing slot dense \<longleftrightarrow>
     (\<forall>d. 0 < d \<longrightarrow> d < length dense \<longrightarrow> slot (low_index (dense ! d)) = d)
   \<and> (\<forall>n. slot n \<noteq> 0 \<longrightarrow> slot n < length dense \<and> low_index (dense ! slot n) = n)"

lemma pairing_dense: "pairing s ds \<Longrightarrow> 0 < d \<Longrightarrow> d < length ds \<Longrightarrow> s (low_index (ds ! d)) = d"
  by (simp add: pairing_def)

lemma pairing_slot: "pairing s ds \<Longrightarrow> s n \<noteq> 0 \<Longrightarrow> s n < length ds \<and> low_index (ds ! s n) = n"
  by (simp add: pairing_def)

lemma pairing_eq_iff:
  "pairing s ds \<Longrightarrow> 0 < d \<Longrightarrow> d < length ds \<Longrightarrow> 0 < e \<Longrightarrow> e < length ds \<Longrightarrow>
    low_index (ds ! d) = low_index (ds ! e) \<longleftrightarrow> d = e"
  by (metis pairing_dense)

lemma pairing_slot_iff:
  "pairing s ds \<Longrightarrow> 0 < d \<Longrightarrow> d < length ds \<Longrightarrow> s n = d \<longleftrightarrow> low_index (ds ! d) = n"
  using pairing_dense pairing_slot by (metis less_nat_zero_code)

lemma pairing_init: "pairing (\<lambda>_. 0) [i]"
  by (simp add: pairing_def)

lemma pairing_relabel:
  assumes "pairing s ds" and "d < length ds" and "low_index i = low_index (ds ! d)"
  shows "pairing s (ds[d := i])"
  using assms unfolding pairing_def by (auto simp: nth_list_update)

lemma pairing_append:
  assumes "pairing s ds" and "s (low_index i) = 0" and "ds \<noteq> []"
  shows "pairing (s(low_index i := length ds)) (ds @ [i])"
proof -
  have "low_index (ds ! d) \<noteq> low_index i" if "0 < d" "d < length ds" for d
    using pairing_dense[OF assms(1) that] assms(2) that(1) by auto
  then show ?thesis
    using assms unfolding pairing_def by (auto simp: nth_append less_Suc_eq)
qed

lemma pairing_swap:
  assumes p: "pairing s ds" and a: "0 < a" "a < length ds" and b: "0 < b" "b < length ds"
  shows "pairing (s(low_index (ds ! a) := b, low_index (ds ! b) := a)) (ds[b := ds ! a, a := ds ! b])"
proof -
  note eq = pairing_eq_iff[OF p]
  have "(s(low_index (ds ! a) := b, low_index (ds ! b) := a)) (low_index (ds[b := ds ! a, a := ds ! b] ! d)) = d"
    if "0 < d" "d < length ds" for d
    using that a b eq[OF that] eq[OF a] eq[OF b] pairing_dense[OF p that]
    by (auto simp: nth_list_update)
  moreover have "(s(low_index (ds ! a) := b, low_index (ds ! b) := a)) n < length ds
      \<and> low_index (ds[b := ds ! a, a := ds ! b] ! (s(low_index (ds ! a) := b, low_index (ds ! b) := a)) n) = n"
    if "(s(low_index (ds ! a) := b, low_index (ds ! b) := a)) n \<noteq> 0" for n
    using that a b pairing_slot[OF p, of n] pairing_slot_iff[OF p a] pairing_slot_iff[OF p b]
    by (auto simp: nth_list_update)
  ultimately show ?thesis
    by (auto simp: pairing_def)
qed

text \<open>
  A new id takes position \<open>c\<close>; what was there moves to the end. With \<open>c\<close> at the end this is
  \<open>pairing_append\<close>.
\<close>

lemma pairing_insert_at:
  assumes p: "pairing s ds" and new: "s (low_index i) = 0" and c: "0 < c" "c < length ds"
  shows "pairing (s(low_index (ds ! c) := length ds, low_index i := c)) (ds[c := i] @ [ds ! c])"
proof -
  have "ds \<noteq> []" using c by auto
  note q = pairing_append[OF p new this]
  have other: "low_index (ds ! c) \<noteq> low_index i"
    using pairing_dense[OF p c] new c by auto
  have "pairing ((s(low_index i := length ds))(low_index ((ds @ [i]) ! c) := length ds,
      low_index ((ds @ [i]) ! length ds) := c))
      ((ds @ [i])[length ds := (ds @ [i]) ! c, c := (ds @ [i]) ! length ds])"
    using c by (intro pairing_swap[OF q]) auto
  moreover have "(s(low_index i := length ds))(low_index (ds ! c) := length ds, low_index i := c)
      = s(low_index (ds ! c) := length ds, low_index i := c)"
    using other by (simp add: fun_eq_iff)
  moreover have "(ds @ [i])[length ds := ds ! c, c := i] = ds[c := i] @ [ds ! c]"
    using c by (simp add: list_update_append)
  ultimately show ?thesis
    using c by (simp add: nth_append)
qed

text \<open>Cutting the dense array off: the slots of the ids that were cut have to be reset.\<close>

lemma pairing_take:
  assumes "pairing s ds" and "k \<le> length ds"
  shows "pairing (\<lambda>n. if s n < k then s n else 0) (take k ds)"
  using assms unfolding pairing_def by auto

text \<open>The indices that are in use with \<open>c\<close> elements, counted by the dense array.\<close>

definition alive_at :: "(nat \<Rightarrow> nat) \<Rightarrow> nat \<Rightarrow> nat \<Rightarrow> bool" where
  "alive_at slot c n \<longleftrightarrow> 0 < slot n \<and> slot n < c"

lemma alive_at_dense:
  assumes "pairing s ds" and "c \<le> length ds"
  shows "{n. alive_at s c n} = low_index ` set (tl (take c ds))"
proof (intro set_eqI iffI)
  fix n
  assume "n \<in> {n. alive_at s c n}"
  then have n: "0 < s n" "s n < c" by (auto simp: alive_at_def)
  then have "low_index (ds ! s n) = n" using pairing_slot[OF assms(1), of n] by simp
  moreover have "tl (take c ds) ! (s n - 1) = ds ! s n" "s n - 1 < length (tl (take c ds))"
    using n assms(2) by (simp_all add: nth_tl)
  ultimately show "n \<in> low_index ` set (tl (take c ds))"
    by (metis image_eqI nth_mem)
next
  fix n
  assume "n \<in> low_index ` set (tl (take c ds))"
  then obtain j where j: "j < length (tl (take c ds))" "n = low_index (tl (take c ds) ! j)"
    by (metis imageE in_set_conv_nth)
  then have "n = low_index (ds ! Suc j)" "Suc j < c"
    using assms(2) by (simp_all add: nth_tl)
  then show "n \<in> {n. alive_at s c n}"
    using pairing_dense[OF assms(1), of "Suc j"] assms(2) by (simp add: alive_at_def)
qed

lemma distinct_dense:
  assumes "pairing s ds" and "c \<le> length ds"
  shows "distinct (map low_index (tl (take c ds)))"
proof -
  have "map low_index (tl (take c ds)) ! i \<noteq> map low_index (tl (take c ds)) ! j"
    if "i < c - 1" "j < c - 1" "i \<noteq> j" for i j
    using that assms pairing_eq_iff[OF assms(1), of "Suc i" "Suc j"] by (simp add: nth_tl)
  then show ?thesis
    using assms(2) by (simp add: distinct_conv_nth)
qed

lemma card_alive:
  assumes "pairing s ds" and "c \<le> length ds"
  shows "card {n. alive_at s c n} = c - 1"
  using distinct_card[OF distinct_dense[OF assms]] alive_at_dense[OF assms] assms(2)
  by simp

text \<open>
  What the three rearrangements do to the indices in use: a paired index comes (back) into use by
  a swap to the end of the used part, a new one by taking that place, and an index leaves by a
  swap to the last used place.
\<close>

lemma alive_swap_in:
  assumes p: "pairing s ds" and c: "0 < c" "c < length ds" and n: "c \<le> s n"
  shows "{m. alive_at (s(n := c, low_index (ds ! c) := s n)) (c + 1) m} = insert n {m. alive_at s c m}"
proof -
  define q where "q = low_index (ds ! c)"
  have q: "s m = c \<longleftrightarrow> q = m" for m
    unfolding q_def using pairing_slot_iff[OF p c] .
  have "alive_at (s(n := c, q := s n)) (c + 1) m \<longleftrightarrow> m = n \<or> alive_at s c m" for m
  proof (cases "m = q")
    case True
    then show ?thesis using q[of q] q[of n] n c by (auto simp: alive_at_def)
  next
    case False
    then have "s m \<noteq> c" using q[of m] by simp
    then show ?thesis using False c by (auto simp: alive_at_def less_Suc_eq)
  qed
  then show ?thesis unfolding q_def by auto
qed

lemma alive_insert_at:
  assumes p: "pairing s ds" and c: "0 < c" "c < length ds" and new: "s n = 0"
  shows "{m. alive_at (s(low_index (ds ! c) := length ds, n := c)) (c + 1) m}
    = insert n {m. alive_at s c m}"
proof -
  define q where "q = low_index (ds ! c)"
  have q: "s m = c \<longleftrightarrow> q = m" for m
    unfolding q_def using pairing_slot_iff[OF p c] .
  have "alive_at (s(q := length ds, n := c)) (c + 1) m \<longleftrightarrow> m = n \<or> alive_at s c m" for m
  proof (cases "m = q")
    case True
    then show ?thesis using q[of q] c by (auto simp: alive_at_def)
  next
    case False
    then have "s m \<noteq> c" using q[of m] by simp
    then show ?thesis using False c by (auto simp: alive_at_def less_Suc_eq)
  qed
  then show ?thesis unfolding q_def by auto
qed

lemma alive_append:
  assumes p: "pairing s ds" and c: "0 < c" "c = length ds"
  shows "{m. alive_at (s(n := c)) (c + 1) m} = insert n {m. alive_at s c m}"
proof -
  have "s m \<noteq> c" for m
    using pairing_slot[OF p, of m] c by force
  then have "alive_at (s(n := c)) (c + 1) m \<longleftrightarrow> m = n \<or> alive_at s c m" for m
    using c by (auto simp: alive_at_def less_Suc_eq)
  then show ?thesis by auto
qed

lemma pairing_inj:
  assumes "pairing s ds" and "0 < s n" and "s m = s n"
  shows "m = n"
  using assms pairing_slot by (metis less_not_refl)

lemma alive_swap_out:
  assumes p: "pairing s ds" and c: "c \<le> length ds" and n: "0 < s n" "s n < c - 1"
  shows "{m. alive_at (s(n := c - 1, low_index (ds ! (c - 1)) := s n)) (c - 1) m} = {m. alive_at s c m} - {n}"
proof -
  define l where "l = c - 1"
  have l: "0 < l" "l < length ds" "c = Suc l" "s n < l" using n c by (auto simp: l_def)
  define q where "q = low_index (ds ! l)"
  have q: "s m = l \<longleftrightarrow> q = m" for m
    unfolding q_def using pairing_slot_iff[OF p l(1,2)] .
  have "alive_at (s(n := l, q := s n)) l m \<longleftrightarrow> alive_at s c m \<and> m \<noteq> n" for m
  proof (cases "m = q")
    case True
    moreover have "s q = l" "n \<noteq> q" using q[of q] q[of n] l(4) by auto
    ultimately show ?thesis using l n(1) by (simp add: alive_at_def)
  next
    case False
    then have "s m \<noteq> l" using q[of m] by simp
    then show ?thesis using False l by (auto simp: alive_at_def less_Suc_eq)
  qed
  then show ?thesis unfolding q_def l_def by auto
qed

lemma alive_drop_last:
  assumes p: "pairing s ds" and n: "0 < s n" "s n = c - 1"
  shows "{m. alive_at s (c - 1) m} = {m. alive_at s c m} - {n}"
proof -
  have "alive_at s (c - 1) m \<longleftrightarrow> alive_at s c m \<and> m \<noteq> n" for m
  proof (cases "s m = s n")
    case True
    then have "m = n" by (rule pairing_inj[OF p n(1)])
    then show ?thesis using n by (simp add: alive_at_def)
  next
    case False
    then show ?thesis using n by (auto simp: alive_at_def)
  qed
  then show ?thesis by auto
qed

section \<open>Live ids\<close>

text \<open>The ids, with their generation, in the used part of the dense array.\<close>

definition live_ids :: "u64 list \<Rightarrow> nat \<Rightarrow> u64 set" where
  "live_ids dense c = (\<lambda>d. dense ! d) ` {0<..<c}"

lemma live_ids_cong: "(\<And>d. 0 < d \<Longrightarrow> d < c \<Longrightarrow> ds ! d = es ! d) \<Longrightarrow> live_ids ds c = live_ids es c"
  by (simp add: live_ids_def)

lemma finite_live_ids [simp]: "finite (live_ids ds c)"
  by (simp add: live_ids_def)

lemma live_ids_Suc: "0 < c \<Longrightarrow> live_ids ds (c + 1) = insert (ds ! c) (live_ids ds c)"
  by (auto simp: live_ids_def less_Suc_eq)

lemma live_ids_low: 
  assumes "pairing s ds" "c \<le> length ds" "i \<in> live_ids ds c"
  shows "0 < s (low_index i)" "s (low_index i) < c" "ds ! s (low_index i) = i"
  using assms pairing_dense[OF assms(1)] by (auto simp: live_ids_def)

lemma not_live_next:
  assumes "pairing s ds" "0 < c" "c < length ds"
  shows "ds ! c \<notin> live_ids ds c"
  using live_ids_low[OF assms(1), of c "ds ! c"] pairing_dense[OF assms] assms(3) by auto

lemma card_live_ids:
  assumes "pairing s ds" "c \<le> length ds"
  shows "card (live_ids ds c) = c - 1"
proof -
  have "inj_on (\<lambda>d. ds ! d) {0<..<c}"
    using assms pairing_dense[OF assms(1)] by (intro inj_onI) (metis greaterThanLessThan_iff order_less_le_trans)
  then show ?thesis by (simp add: live_ids_def card_image)
qed

lemma live_ids_except:
  assumes "pairing s ds" "c \<le> length ds" "0 < d" "d < c"
  shows "live_ids ds c - {ds ! d} = (\<lambda>e. ds ! e) ` ({0<..<c} - {d})"
proof -
  have "ds ! e \<noteq> ds ! d" if "e \<in> {0<..<c} - {d}" for e
  proof
    assume "ds ! e = ds ! d"
    moreover have "0 < e" "e < length ds" "d < length ds" "e \<noteq> d"
      using that assms(2,4) by simp_all
    ultimately show False
      using pairing_dense[OF assms(1)] assms(3) by metis
  qed
  then show ?thesis
    unfolding live_ids_def using assms(3,4) by auto
qed

text \<open>Bumping the generation of an id and taking it out: the others stay.\<close>

lemma live_ids_relabel_except:
  assumes p: "pairing s ds" and c: "c \<le> length ds" and d: "0 < d" "d < c" 
    and i: "low_index i = low_index (ds ! d)"
  shows "live_ids (ds[d := i]) c - {ds[d := i] ! d} = live_ids ds c - {ds ! d}"
proof -
  have "pairing s (ds[d := i])"
    using pairing_relabel[OF p _ i] d c by simp
  then have "live_ids (ds[d := i]) c - {ds[d := i] ! d} = (\<lambda>e. ds[d := i] ! e) ` ({0<..<c} - {d})"
    using c d by (intro live_ids_except) simp_all
  also have "\<dots> = (\<lambda>e. ds ! e) ` ({0<..<c} - {d})"
    by (rule image_cong) auto
  finally show ?thesis
    unfolding live_ids_except[OF p c d] .
qed

lemma live_ids_swap_out:
  assumes p: "pairing s ds" and c: "c \<le> length ds" and d: "0 < d" "d < c"
  shows "live_ids (if d = c - 1 then ds else ds[c - 1 := ds ! d, d := ds ! (c - 1)]) (c - 1)
    = live_ids ds c - {ds ! d}"
proof -
  define l where "l = c - 1"
  have l: "c = Suc l" "l < length ds" "d \<le> l" "d < length ds" using c d by (auto simp: l_def)
  let ?es = "if d = l then ds else ds[l := ds ! d, d := ds ! l]"
  have inj: "ds ! e = ds ! d \<longleftrightarrow> e = d" if "0 < e" "e < c" for e
    using that d c pairing_dense[OF p] by (metis order_less_le_trans)
  have es: "?es ! e = (if e = d then ds ! l else ds ! e)" if "e < l" for e
    using that l by (auto simp: nth_list_update)
  have "x \<in> live_ids ?es l \<longleftrightarrow> x \<in> live_ids ds c \<and> x \<noteq> ds ! d" for x
  proof
    assume "x \<in> live_ids ?es l"
    then obtain e where e: "0 < e" "e < l" "x = ?es ! e" by (auto simp: live_ids_def)
    define f where "f = (if e = d then l else e)"
    have "x = ds ! f" using e es[of e] by (simp add: f_def)
    moreover have "0 < f" "f < c" "f \<noteq> d" using e l d by (auto simp: f_def)
    ultimately show "x \<in> live_ids ds c \<and> x \<noteq> ds ! d" using inj[of f] by (auto simp: live_ids_def)
  next
    assume "x \<in> live_ids ds c \<and> x \<noteq> ds ! d"
    then have "x \<in> live_ids ds c" and ne: "x \<noteq> ds ! d" by simp_all
    then obtain e where e: "0 < e" "e < c" "x = ds ! e" unfolding live_ids_def by (auto simp only: image_iff greaterThanLessThan_iff)
    have "e \<noteq> d" using e(3) ne by auto
    define f where "f = (if e = l then d else e)"
    have "0 < f" "f < l" using e l d \<open>e \<noteq> d\<close> by (auto simp: f_def)
    moreover from this have "?es ! f = x" using e es[of f] \<open>e \<noteq> d\<close> by (auto simp: f_def)
    ultimately show "x \<in> live_ids ?es l" by (auto simp: live_ids_def)
  qed
  then have "live_ids ?es l = live_ids ds c - {ds ! d}" by blast
  then show ?thesis unfolding l_def .
qed

section \<open>Allocators of recycled ids\<close>

text \<open>
  What the sparse set and the entity index promise to the code that allocates tables and
  entities: \<open>live\<close> are the ids handed out and not released, a new id is not among them, and an id
  that was just released is handed out again with its generation bumped.
\<close>

primrec alloc_many :: "('s \<Rightarrow> ('s \<times> u64) res) \<Rightarrow> nat \<Rightarrow> 's \<Rightarrow> ('s \<times> u64 list) res" where
  "alloc_many new 0 s = Inr (s, [])"
| "alloc_many new (Suc n) s =
     res_bind (new s) (\<lambda>(s, i). res_bind (alloc_many new n s) (\<lambda>(s, is). Inr (s, i # is)))"

locale id_allocator =
  fixes wf :: "'s \<Rightarrow> bool" and live :: "'s \<Rightarrow> u64 set" and cap :: nat
    and new :: "'s \<Rightarrow> ('s \<times> u64) res" and free :: "'s \<Rightarrow> u64 \<Rightarrow> 's res"
  assumes finite_live: "wf s \<Longrightarrow> finite (live s)" and card_live: "wf s \<Longrightarrow> card (live s) \<le> cap"
    and new: "wf s \<Longrightarrow> card (live s) < cap \<Longrightarrow>
      \<exists>s' i. new s = Inr (s', i) \<and> wf s' \<and> low_index i \<notin> low_index ` live s \<and> live s' = insert i (live s)"
    and free: "wf s \<Longrightarrow> i \<in> live s \<Longrightarrow> \<exists>s'. free s i = Inr s' \<and> wf s' \<and> live s' = live s - {i}"
    and reuse: "wf s \<Longrightarrow> i \<in> live s \<Longrightarrow> free s i = Inr s' \<Longrightarrow>
      \<exists>s''. new s' = Inr (s'', ECS_GENERATION_INC i)"
begin

lemma new_id:
  assumes "wf s" "card (live s) < cap"
  obtains s' i where "new s = Inr (s', i)" "wf s'" "i \<notin> live s" "live s' = insert i (live s)"
  using new[OF assms] by blast

lemma new_many:
  "wf s \<Longrightarrow> card (live s) + n \<le> cap \<Longrightarrow>
    \<exists>s' is. alloc_many new n s = Inr (s', is) \<and> wf s' \<and> length is = n \<and> distinct (map low_index is)
      \<and> low_index ` set is \<inter> low_index ` live s = {} \<and> live s' = live s \<union> set is"
proof (induction n arbitrary: s)
  case (Suc n)
  then have "card (live s) < cap" by simp
  from new[OF Suc.prems(1) this] obtain s1 i where s1: "new s = Inr (s1, i)" "wf s1"
    "low_index i \<notin> low_index ` live s" "live s1 = insert i (live s)" by blast
  have "i \<notin> live s" using s1(3) by blast
  then have "card (live s1) + n \<le> cap"
    using Suc.prems finite_live s1(4) by simp
  from Suc.IH[OF s1(2) this] obtain s' "is" where "alloc_many new n s1 = Inr (s', is)" "wf s'" "length is = n"
    "distinct (map low_index is)" "low_index ` set is \<inter> low_index ` live s1 = {}" "live s' = live s1 \<union> set is"
    by blast
  with s1 show ?case by auto
qed simp

lemma free_all:
  "wf s \<Longrightarrow> distinct is \<Longrightarrow> set is \<subseteq> live s \<Longrightarrow>
    \<exists>s'. res_fold free s is = Inr s' \<and> wf s' \<and> live s' = live s - set is"
proof (induction "is" arbitrary: s)
  case (Cons i "is")
  then obtain s1 where s1: "free s i = Inr s1" "wf s1" "live s1 = live s - {i}"
    using free[of s i] by auto
  have "distinct is" "set is \<subseteq> live s1" using Cons.prems s1(3) by auto
  from Cons.IH[OF s1(2) this] s1 show ?case by auto
qed auto

lemma recycle:
  assumes "wf s" "i \<in> live s"
  shows "\<exists>s1 s2. free s i = Inr s1 \<and> new s1 = Inr (s2, ECS_GENERATION_INC i) \<and> wf s2
    \<and> live s2 = insert (ECS_GENERATION_INC i) (live s - {i})"
proof -
  from free[OF assms] obtain s1 where s1: "free s i = Inr s1" "wf s1" "live s1 = live s - {i}" by blast
  from reuse[OF assms s1(1)] obtain s2 where s2: "new s1 = Inr (s2, ECS_GENERATION_INC i)" by blast
  have "card (live s1) < cap"
    using assms finite_live card_live s1(3) by (metis card_Diff1_less order_less_le_trans)
  from new_id[OF s1(2) this] s1 s2 show ?thesis by auto
qed

end

end
