(* ===== verification/Ecs_Sparse.thy ===== *)
theory Ecs_Sparse
  imports Ecs_Dense
begin

text \<open>
  The sparse set of datastructures/sparse.c. A page is a pair of arrays, None and the empty list
  standing for null; the dense array and the page array are lists (what ecs\_vec\_t adds to that,
  capacity and reallocation, is the subject of Ecs\_Vec). A page pointer is the page number and
  does not survive a change of the page array; a data pointer is the id's index, or null in a set
  whose elements have no size. The count and dense positions are int32\_t in the code and naturals
  here: the dense array does not grow past 2\^30 elements, where the capacity of its vector ends, and
  growing it further is an INT\_RANGE error.
\<close>

section \<open>State\<close>

abbreviation FLECS_SPARSE_PAGE_BITS :: nat where "FLECS_SPARSE_PAGE_BITS \<equiv> 6"
abbreviation FLECS_SPARSE_PAGE_SIZE :: nat where "FLECS_SPARSE_PAGE_SIZE \<equiv> 64"

definition FLECS_SPARSE_PAGE :: "u64 \<Rightarrow> nat" where
  "FLECS_SPARSE_PAGE index = unat (drop_bit FLECS_SPARSE_PAGE_BITS (ucast index :: u32))"

definition FLECS_SPARSE_OFFSET :: "u64 \<Rightarrow> nat" where
  "FLECS_SPARSE_OFFSET index = unat ((ucast index :: u32) AND mask FLECS_SPARSE_PAGE_BITS)"

record 'd ecs_sparse_page =
  sp_sparse :: "nat list option"
  sp_data :: "'d list"

record 'd ecs_sparse =
  sdense :: "u64 list"
  spages :: "'d ecs_sparse_page list"
  ssize :: nat
  scount :: nat
  smax_id :: u64

section \<open>Pages\<close>

definition zero_page :: "'d ecs_sparse_page" where
  "zero_page = \<lparr>sp_sparse = None, sp_data = []\<rparr>"

definition flecs_sparse_page_new :: "('d::zero) ecs_sparse \<Rightarrow> nat \<Rightarrow> 'd ecs_sparse res" where
  "flecs_sparse_page_new sp page_index =
     (let count = length (spages sp);
          pages = (if count \<le> page_index
                   then spages sp @ replicate (1 + page_index - count) zero_page
                   else spages sp)
      in
      res_bind (mem_get pages page_index) (\<lambda>page.
      ecs_assert (sp_sparse page = None) ECS_INTERNAL_ERROR
      (ecs_assert (sp_data page = []) ECS_INTERNAL_ERROR
       (Inr (sp\<lparr>spages := pages[page_index :=
          \<lparr>sp_sparse = Some (replicate FLECS_SPARSE_PAGE_SIZE 0),
           sp_data = (if ssize sp \<noteq> 0 then replicate FLECS_SPARSE_PAGE_SIZE 0 else [])\<rparr>]\<rparr>)))))"

definition flecs_sparse_page_free :: "'d ecs_sparse \<Rightarrow> nat \<Rightarrow> 'd ecs_sparse" where
  "flecs_sparse_page_free sp i = sp\<lparr>spages := (spages sp)[i := zero_page]\<rparr>"

definition flecs_sparse_get_page :: "'d ecs_sparse \<Rightarrow> nat \<Rightarrow> 'd ecs_sparse_page option" where
  "flecs_sparse_get_page sp page_index =
     (if page_index \<ge> length (spages sp) then None else Some (spages sp ! page_index))"

definition flecs_sparse_get_or_create_page :: "('d::zero) ecs_sparse \<Rightarrow> nat \<Rightarrow> 'd ecs_sparse res" where
  "flecs_sparse_get_or_create_page sp page_index =
     (case flecs_sparse_get_page sp page_index of
        None \<Rightarrow> flecs_sparse_page_new sp page_index
      | Some page \<Rightarrow>
          if sp_sparse page \<noteq> None
          then ecs_assert (ssize sp = 0 \<or> sp_data page \<noteq> []) ECS_INTERNAL_ERROR (Inr sp)
          else flecs_sparse_page_new sp page_index)"

text \<open>
  Reads and writes through the arrays of a page, and the reset of an element's bytes.
\<close>

definition slot_get :: "'d ecs_sparse \<Rightarrow> nat \<Rightarrow> nat \<Rightarrow> nat res" where
  "slot_get sp page offset =
     res_bind (mem_get (spages sp) page) (\<lambda>p.
     res_bind (deref (sp_sparse p)) (\<lambda>xs. mem_get xs offset))"

definition slot_set :: "'d ecs_sparse \<Rightarrow> nat \<Rightarrow> nat \<Rightarrow> nat \<Rightarrow> 'd ecs_sparse res" where
  "slot_set sp page offset v =
     res_bind (mem_get (spages sp) page) (\<lambda>p.
     res_bind (deref (sp_sparse p)) (\<lambda>xs.
     res_bind (mem_set xs offset v) (\<lambda>xs.
     Inr (sp\<lparr>spages := (spages sp)[page := p\<lparr>sp_sparse := Some xs\<rparr>]\<rparr>))))"

definition data_set :: "'d ecs_sparse \<Rightarrow> nat \<Rightarrow> nat \<Rightarrow> 'd \<Rightarrow> 'd ecs_sparse res" where
  "data_set sp page offset v =
     res_bind (mem_get (spages sp) page) (\<lambda>p.
     res_bind (mem_set (sp_data p) offset v) (\<lambda>xs.
     Inr (sp\<lparr>spages := (spages sp)[page := p\<lparr>sp_data := xs\<rparr>]\<rparr>)))"

definition dense_set :: "'d ecs_sparse \<Rightarrow> nat \<Rightarrow> u64 \<Rightarrow> 'd ecs_sparse res" where
  "dense_set sp d v = res_bind (mem_set (sdense sp) d v) (\<lambda>xs. Inr (sp\<lparr>sdense := xs\<rparr>))"

text \<open>DATA(page->data, sparse->size, offset): null when the array is null, which has size 0.\<close>

definition DATA :: "'d ecs_sparse \<Rightarrow> u64 \<Rightarrow> nat option" where
  "DATA sp i = (if ssize sp = 0 then None else Some (low_index i))"

text \<open>A pointer to a page that is still used after the page array may have moved.\<close>

definition keep_pages :: "'d ecs_sparse \<Rightarrow> 'd ecs_sparse \<Rightarrow> 'a res \<Rightarrow> 'a res" where
  "keep_pages sp sp' k =
     (if length (spages sp') = length (spages sp) then k else Inl MEMORY_FAULT)"

section \<open>Dense array\<close>

definition flecs_sparse_grow_dense :: "'d ecs_sparse \<Rightarrow> 'd ecs_sparse res" where
  "flecs_sparse_grow_dense sp =
     (if int (length (sdense sp)) < 2 ^ 30 then Inr (sp\<lparr>sdense := sdense sp @ [uninit_u64]\<rparr>) else Inl INT_RANGE)"

definition flecs_sparse_assign_index :: "'d ecs_sparse \<Rightarrow> nat \<Rightarrow> u64 \<Rightarrow> nat \<Rightarrow> 'd ecs_sparse res" where
  "flecs_sparse_assign_index sp page i dense =
     res_bind (slot_set sp page (FLECS_SPARSE_OFFSET i) dense) (\<lambda>sp. dense_set sp dense i)"

definition flecs_sparse_inc_id :: "'d ecs_sparse \<Rightarrow> 'd ecs_sparse \<times> u64" where
  "flecs_sparse_inc_id sp = (sp\<lparr>smax_id := smax_id sp + 1\<rparr>, smax_id sp + 1)"

definition flecs_sparse_get_id :: "'d ecs_sparse \<Rightarrow> u64" where
  "flecs_sparse_get_id sp = smax_id sp"

definition flecs_sparse_set_id :: "'d ecs_sparse \<Rightarrow> u64 \<Rightarrow> 'd ecs_sparse" where
  "flecs_sparse_set_id sp v = sp\<lparr>smax_id := v\<rparr>"

definition flecs_sparse_create_id :: "('d::zero) ecs_sparse \<Rightarrow> nat \<Rightarrow> ('d ecs_sparse \<times> u64) res" where
  "flecs_sparse_create_id sp dense =
     (let (sp, i) = flecs_sparse_inc_id sp in
      res_bind (flecs_sparse_grow_dense sp) (\<lambda>sp.
      res_bind (flecs_sparse_get_or_create_page sp (FLECS_SPARSE_PAGE i)) (\<lambda>sp.
      res_bind (slot_get sp (FLECS_SPARSE_PAGE i) (FLECS_SPARSE_OFFSET i)) (\<lambda>slot.
      ecs_assert (slot = 0) ECS_INTERNAL_ERROR
      (res_bind (flecs_sparse_assign_index sp (FLECS_SPARSE_PAGE i) i dense) (\<lambda>sp.
       Inr (sp, i)))))))"

definition flecs_sparse_new_index :: "('d::zero) ecs_sparse \<Rightarrow> ('d ecs_sparse \<times> u64) res" where
  "flecs_sparse_new_index sp =
     (let dense_count = length (sdense sp);
          count = scount sp;
          sp = sp\<lparr>scount := scount sp + 1\<rparr>
      in
      ecs_assert (count \<le> dense_count) ECS_INTERNAL_ERROR
      (if count < dense_count
       then res_bind (mem_get (sdense sp) count) (\<lambda>i. Inr (sp, i))
       else flecs_sparse_create_id sp count))"

definition flecs_sparse_get_sparse :: "'d ecs_sparse \<Rightarrow> nat \<Rightarrow> u64 \<Rightarrow> nat option res" where
  "flecs_sparse_get_sparse sp dense i =
     (let index = take_bit 32 i in
      case flecs_sparse_get_page sp (FLECS_SPARSE_PAGE index) of
        None \<Rightarrow> Inr None
      | Some page \<Rightarrow>
          if sp_sparse page = None then Inr None
          else res_bind (slot_get sp (FLECS_SPARSE_PAGE index) (FLECS_SPARSE_OFFSET index)) (\<lambda>slot.
               ecs_assert (dense = slot) ECS_INTERNAL_ERROR (Inr (DATA sp index))))"

definition flecs_sparse_swap_dense :: "('d::zero) ecs_sparse \<Rightarrow> nat \<Rightarrow> nat \<Rightarrow> nat \<Rightarrow> 'd ecs_sparse res" where
  "flecs_sparse_swap_dense sp page_a a b =
     res_bind (mem_get (sdense sp) a) (\<lambda>id_a.
     res_bind (mem_get (sdense sp) b) (\<lambda>id_b.
     res_bind (flecs_sparse_get_or_create_page sp (FLECS_SPARSE_PAGE id_b)) (\<lambda>sp'.
     keep_pages sp sp'
     (res_bind (flecs_sparse_assign_index sp' page_a id_a b) (\<lambda>sp.
      flecs_sparse_assign_index sp (FLECS_SPARSE_PAGE id_b) id_b a)))))"

section \<open>Operations\<close>

definition flecs_sparse_init :: "nat \<Rightarrow> 'd ecs_sparse" where
  "flecs_sparse_init elem_size =
     \<lparr>sdense = [0], spages = [], ssize = elem_size, scount = 1, smax_id = - 1\<rparr>"

text \<open>ecs\_vec\_set\_count on the dense array.\<close>

definition set_dense_count :: "nat \<Rightarrow> u64 list \<Rightarrow> u64 list" where
  "set_dense_count n xs = take n xs @ replicate (n - length xs) uninit_u64"

definition flecs_sparse_clear :: "'d ecs_sparse \<Rightarrow> 'd ecs_sparse" where
  "flecs_sparse_clear sp =
     sp\<lparr>spages := map (\<lambda>p. case sp_sparse p of
            None \<Rightarrow> p
          | Some indices \<Rightarrow> p\<lparr>sp_sparse := Some (replicate FLECS_SPARSE_PAGE_SIZE 0)\<rparr>) (spages sp),
        sdense := set_dense_count 1 (sdense sp), scount := 1, smax_id := 0\<rparr>"

definition flecs_sparse_fini :: "'d ecs_sparse \<Rightarrow> 'd ecs_sparse" where
  "flecs_sparse_fini sp =
     (let sp = foldl flecs_sparse_page_free sp [0..<length (spages sp)]
      in sp\<lparr>spages := [], sdense := []\<rparr>)"

definition flecs_sparse_new_id :: "('d::zero) ecs_sparse \<Rightarrow> ('d ecs_sparse \<times> u64) res" where
  "flecs_sparse_new_id sp = flecs_sparse_new_index sp"

definition flecs_sparse_add :: "('d::zero) ecs_sparse \<Rightarrow> nat \<Rightarrow> ('d ecs_sparse \<times> nat option) res" where
  "flecs_sparse_add sp elem_size =
     ecs_assert (elem_size = 0 \<or> elem_size = ssize sp) ECS_INVALID_PARAMETER
     (res_bind (flecs_sparse_new_index sp) (\<lambda>(sp, i).
      case flecs_sparse_get_page sp (FLECS_SPARSE_PAGE i) of
        None \<Rightarrow> Inl ECS_INTERNAL_ERROR
      | Some page \<Rightarrow>
          ecs_assert (sp_data page \<noteq> []) ECS_INTERNAL_ERROR
            (Inr (sp, if elem_size = 0 then Some (FLECS_SPARSE_PAGE i * FLECS_SPARSE_PAGE_SIZE) else DATA sp i))))"

definition flecs_sparse_last_id :: "'d ecs_sparse \<Rightarrow> u64 res" where
  "flecs_sparse_last_id sp =
     (if scount sp = 0 then Inl MEMORY_FAULT else mem_get (sdense sp) (scount sp - 1))"

text \<open>The data pointer and whether the element is new.\<close>

definition flecs_sparse_ensure ::
    "('d::zero) ecs_sparse \<Rightarrow> nat \<Rightarrow> u64 \<Rightarrow> ('d ecs_sparse \<times> nat option \<times> bool) res" where
  "flecs_sparse_ensure sp elem_size i =
     ecs_assert (elem_size = 0 \<or> elem_size = ssize sp) ECS_INVALID_PARAMETER
     (ecs_assert (length (sdense sp) > 0) ECS_INTERNAL_ERROR
     (let index = take_bit 32 i;
          page = FLECS_SPARSE_PAGE index;
          offset = FLECS_SPARSE_OFFSET index
      in
      res_bind (flecs_sparse_get_or_create_page sp page) (\<lambda>sp.
      res_bind (slot_get sp page offset) (\<lambda>dense.
      if dense \<noteq> 0 then
        let count = scount sp in
        if dense \<ge> count then
          res_bind (flecs_sparse_swap_dense sp page dense count) (\<lambda>sp.
          res_bind (dense_set (sp\<lparr>scount := scount sp + 1\<rparr>) count i) (\<lambda>sp.
          Inr (sp, DATA sp index, True)))
        else Inr (sp, DATA sp index, False)
      else
        res_bind (flecs_sparse_grow_dense sp) (\<lambda>sp.
        let dense_count = length (sdense sp) - 1;
            count = scount sp;
            sp = sp\<lparr>scount := scount sp + 1\<rparr>;
            sp = (if index \<ge> flecs_sparse_get_id sp then flecs_sparse_set_id sp index else sp)
        in
        res_bind (if count < dense_count then
                    res_bind (mem_get (sdense sp) count) (\<lambda>unused.
                    res_bind (flecs_sparse_get_or_create_page sp (FLECS_SPARSE_PAGE unused)) (\<lambda>sp'.
                    keep_pages sp sp'
                      (flecs_sparse_assign_index sp' (FLECS_SPARSE_PAGE unused) unused dense_count)))
                  else Inr sp) (\<lambda>sp.
        res_bind (flecs_sparse_assign_index sp page i count) (\<lambda>sp.
        Inr (sp, DATA sp index, True))))))))"

definition flecs_sparse_insert ::
    "('d::zero) ecs_sparse \<Rightarrow> nat \<Rightarrow> u64 \<Rightarrow> ('d ecs_sparse \<times> nat option) res" where
  "flecs_sparse_insert sp elem_size i =
     res_bind (flecs_sparse_ensure sp elem_size i) (\<lambda>(sp, result, is_new).
     Inr (sp, if \<not> is_new then None else result))"

definition flecs_sparse_ensure_fast ::
    "('d::zero) ecs_sparse \<Rightarrow> nat \<Rightarrow> u64 \<Rightarrow> ('d ecs_sparse \<times> nat option) res" where
  "flecs_sparse_ensure_fast sp elem_size i =
     ecs_assert (elem_size = 0 \<or> elem_size = ssize sp) ECS_INVALID_PARAMETER
     (ecs_assert (length (sdense sp) > 0) ECS_INTERNAL_ERROR
     (let index = take_bit 32 i;
          page = FLECS_SPARSE_PAGE index;
          offset = FLECS_SPARSE_OFFSET index
      in
      res_bind (flecs_sparse_get_or_create_page sp page) (\<lambda>sp.
      res_bind (slot_get sp page offset) (\<lambda>dense.
      let count = scount sp in
      if dense = 0 then
        let sp = sp\<lparr>scount := count + 1\<rparr> in
        res_bind (if count = length (sdense sp) then flecs_sparse_grow_dense sp else Inr sp) (\<lambda>sp.
        res_bind (flecs_sparse_assign_index sp page index count) (\<lambda>sp.
        Inr (sp, DATA sp index)))
      else Inr (sp, DATA sp index)))))"

text \<open>The reset of the element's memory when there is any.\<close>

definition zero_data :: "('d::zero) ecs_sparse \<Rightarrow> nat \<Rightarrow> nat \<Rightarrow> 'd ecs_sparse res" where
  "zero_data sp page offset = (if ssize sp \<noteq> 0 then data_set sp page offset 0 else Inr sp)"

definition flecs_sparse_remove ::
    "('d::zero) ecs_sparse \<Rightarrow> nat \<Rightarrow> u64 \<Rightarrow> ('d ecs_sparse \<times> bool) res" where
  "flecs_sparse_remove sp elem_size i =
     ecs_assert (elem_size = 0 \<or> elem_size = ssize sp) ECS_INVALID_PARAMETER
     (let pg = FLECS_SPARSE_PAGE i in
      case flecs_sparse_get_page sp pg of
        None \<Rightarrow> Inr (sp, False)
      | Some page \<Rightarrow>
        if sp_sparse page = None then Inr (sp, False)
        else
          let index = take_bit 32 i;
              offset = FLECS_SPARSE_OFFSET index
          in
          res_bind (slot_get sp pg offset) (\<lambda>dense.
          if dense \<noteq> 0 then
            let count = scount sp in
            res_bind (if dense = count - 1 then Inr (sp\<lparr>scount := scount sp - 1\<rparr>)
                      else if dense < count then
                        res_bind (flecs_sparse_swap_dense sp pg dense (count - 1)) (\<lambda>sp.
                        Inr (sp\<lparr>scount := scount sp - 1\<rparr>))
                      else Inr sp) (\<lambda>sp.
            res_bind (zero_data sp pg offset) (\<lambda>sp.
            Inr (sp, True)))
          else Inr (sp, False)))"

definition flecs_sparse_inc_gen :: "u64 \<Rightarrow> u64" where
  "flecs_sparse_inc_gen index = ECS_GENERATION_INC index"

definition flecs_sparse_remove_w_gen ::
    "('d::zero) ecs_sparse \<Rightarrow> nat \<Rightarrow> u64 \<Rightarrow> ('d ecs_sparse \<times> bool) res" where
  "flecs_sparse_remove_w_gen sp elem_size i =
     ecs_assert (elem_size = 0 \<or> elem_size = ssize sp) ECS_INVALID_PARAMETER
     (let pg = FLECS_SPARSE_PAGE i in
      case flecs_sparse_get_page sp pg of
        None \<Rightarrow> Inr (sp, False)
      | Some page \<Rightarrow>
        if sp_sparse page = None then Inr (sp, False)
        else
          let index = take_bit 32 i;
              offset = FLECS_SPARSE_OFFSET index
          in
          res_bind (slot_get sp pg offset) (\<lambda>dense.
          if dense \<noteq> 0 then
            res_bind (mem_get (sdense sp) dense) (\<lambda>cur.
            ecs_assert (cur = i) ECS_INVALID_PARAMETER
            (res_bind (dense_set sp dense (flecs_sparse_inc_gen i)) (\<lambda>sp.
            let count = scount sp in
            if dense = count - 1 then
              res_bind (zero_data (sp\<lparr>scount := scount sp - 1\<rparr>) pg offset) (\<lambda>sp. Inr (sp, True))
            else if dense < count then
              res_bind (flecs_sparse_swap_dense sp pg dense (count - 1)) (\<lambda>sp.
              res_bind (zero_data (sp\<lparr>scount := scount sp - 1\<rparr>) pg offset) (\<lambda>sp.
              Inr (sp, True)))
            else Inr (sp, False))))
          else Inr (sp, False)))"

definition flecs_sparse_get_dense :: "'d ecs_sparse \<Rightarrow> nat \<Rightarrow> nat \<Rightarrow> nat option res" where
  "flecs_sparse_get_dense sp elem_size dense_index =
     ecs_assert (elem_size = 0 \<or> elem_size = ssize sp) ECS_INVALID_PARAMETER
     (ecs_assert (dense_index < scount sp) ECS_INVALID_PARAMETER
      (res_bind (mem_get (sdense sp) (dense_index + 1)) (\<lambda>i.
       flecs_sparse_get_sparse sp (dense_index + 1) i)))"

definition flecs_sparse_is_alive :: "'d ecs_sparse \<Rightarrow> u64 \<Rightarrow> bool res" where
  "flecs_sparse_is_alive sp i =
     (case flecs_sparse_get_page sp (FLECS_SPARSE_PAGE i) of
        None \<Rightarrow> Inr False
      | Some page \<Rightarrow>
          if sp_sparse page = None then Inr False
          else res_bind (slot_get sp (FLECS_SPARSE_PAGE i) (FLECS_SPARSE_OFFSET i)) (\<lambda>dense.
               Inr (dense \<noteq> 0 \<and> dense < scount sp)))"

definition flecs_sparse_get :: "'d ecs_sparse \<Rightarrow> nat \<Rightarrow> u64 \<Rightarrow> nat option res" where
  "flecs_sparse_get sp elem_size i =
     ecs_assert (elem_size = 0 \<or> elem_size = ssize sp) ECS_INVALID_PARAMETER
     (let index = take_bit 32 i in
      case flecs_sparse_get_page sp (FLECS_SPARSE_PAGE index) of
        None \<Rightarrow> Inr None
      | Some page \<Rightarrow>
          if sp_sparse page = None then Inr None
          else res_bind (slot_get sp (FLECS_SPARSE_PAGE index) (FLECS_SPARSE_OFFSET index)) (\<lambda>dense.
               if \<not> (dense \<noteq> 0 \<and> dense < scount sp) then Inr None else Inr (DATA sp index)))"

definition flecs_sparse_has :: "'d ecs_sparse \<Rightarrow> u64 \<Rightarrow> bool res" where
  "flecs_sparse_has sp i =
     (let index = take_bit 32 i in
      case flecs_sparse_get_page sp (FLECS_SPARSE_PAGE index) of
        None \<Rightarrow> Inr False
      | Some page \<Rightarrow>
          if sp_sparse page = None then Inr False
          else res_bind (slot_get sp (FLECS_SPARSE_PAGE index) (FLECS_SPARSE_OFFSET i)) (\<lambda>dense.
               Inr (dense \<noteq> 0 \<and> dense < scount sp)))"

definition flecs_sparse_count :: "'d ecs_sparse \<Rightarrow> nat" where
  "flecs_sparse_count sp = (if scount sp = 0 then 0 else scount sp - 1)"

definition flecs_sparse_ids :: "'d ecs_sparse \<Rightarrow> u64 list option" where
  "flecs_sparse_ids sp = (if sdense sp \<noteq> [] then Some (tl (sdense sp)) else None)"

text \<open>The search for an alive element of page \<open>i\<close>, from offset \<open>e\<close> on.\<close>

fun page_has_alive :: "'d ecs_sparse \<Rightarrow> nat \<Rightarrow> nat list \<Rightarrow> bool res" where
  "page_has_alive sp i [] = Inr False"
| "page_has_alive sp i (e # es) =
     res_bind (flecs_sparse_is_alive sp (word_of_nat (i * FLECS_SPARSE_PAGE_SIZE + e))) (\<lambda>alive.
     if alive then Inr True else page_has_alive sp i es)"

definition shrink_page :: "'d ecs_sparse \<times> nat \<Rightarrow> nat \<Rightarrow> ('d ecs_sparse \<times> nat) res" where
  "shrink_page = (\<lambda>(sp, page_end) i.
     res_bind (mem_get (spages sp) i) (\<lambda>page.
     if sp_sparse page = None then
       ecs_assert (sp_data page = []) ECS_INTERNAL_ERROR (Inr (sp, page_end))
     else
       res_bind (page_has_alive sp i [0..<FLECS_SPARSE_PAGE_SIZE]) (\<lambda>has_alive.
       if \<not> has_alive then Inr (flecs_sparse_page_free sp i, page_end)
       else Inr (sp, i + 1))))"

text \<open>\<open>page_end\<close> is max\_page\_index + 1.\<close>

definition flecs_sparse_shrink :: "'d ecs_sparse \<Rightarrow> 'd ecs_sparse res" where
  "flecs_sparse_shrink sp =
     res_bind (res_fold shrink_page (sp, 0) [0..<length (spages sp)]) (\<lambda>(sp, page_end).
     Inr (sp\<lparr>spages := take page_end (spages sp), sdense := set_dense_count (scount sp) (sdense sp)\<rparr>))"

text \<open>Accesses through a data pointer.\<close>

definition data_read :: "'d ecs_sparse \<Rightarrow> nat option \<Rightarrow> 'd res" where
  "data_read sp ptr =
     res_bind (deref ptr) (\<lambda>n.
     res_bind (mem_get (spages sp) (n div FLECS_SPARSE_PAGE_SIZE)) (\<lambda>p.
     mem_get (sp_data p) (n mod FLECS_SPARSE_PAGE_SIZE)))"

definition data_write :: "'d ecs_sparse \<Rightarrow> nat option \<Rightarrow> 'd \<Rightarrow> 'd ecs_sparse res" where
  "data_write sp ptr v =
     res_bind (deref ptr) (\<lambda>n.
     data_set sp (n div FLECS_SPARSE_PAGE_SIZE) (n mod FLECS_SPARSE_PAGE_SIZE) v)"

section \<open>The slots and cells that the pages hold\<close>

definition phas :: "'d ecs_sparse_page list \<Rightarrow> nat \<Rightarrow> bool" where
  "phas ps n \<longleftrightarrow> n div 64 < length ps \<and> sp_sparse (ps ! (n div 64)) \<noteq> None"

definition pslot :: "'d ecs_sparse_page list \<Rightarrow> nat \<Rightarrow> nat" where
  "pslot ps n = (if phas ps n then the (sp_sparse (ps ! (n div 64))) ! (n mod 64) else 0)"

definition pcell :: "nat \<Rightarrow> ('d::zero) ecs_sparse_page list \<Rightarrow> nat \<Rightarrow> 'd" where
  "pcell sz ps n = (if phas ps n \<and> sz \<noteq> 0 then sp_data (ps ! (n div 64)) ! (n mod 64) else 0)"

definition pages_ok :: "nat \<Rightarrow> 'd ecs_sparse_page list \<Rightarrow> bool" where
  "pages_ok sz ps \<longleftrightarrow> (\<forall>p\<in>set ps. case sp_sparse p of
      None \<Rightarrow> sp_data p = []
    | Some xs \<Rightarrow> length xs = 64 \<and> length (sp_data p) = (if sz = 0 then 0 else 64))"

lemma page_offset_simps [simp]:
  "FLECS_SPARSE_PAGE i = low_index i div 64"
  "FLECS_SPARSE_OFFSET i = low_index i mod 64"
  using page_of_index[of 6 i] offset_of_index[of i 6]
  by (simp_all add: FLECS_SPARSE_PAGE_def FLECS_SPARSE_OFFSET_def)

lemma same_index: "n div 64 = m div 64 \<Longrightarrow> n mod 64 = m mod 64 \<Longrightarrow> n = (m::nat)"
  by (metis div_mult_mod_eq)

lemma get_page_cases:
  obtains (page) p where "phas (spages sp) n" "flecs_sparse_get_page sp (n div 64) = Some p" "sp_sparse p \<noteq> None"
      "p = spages sp ! (n div 64)"
    | (null) p where "\<not> phas (spages sp) n" "flecs_sparse_get_page sp (n div 64) = Some p" "sp_sparse p = None"
      "n div 64 < length (spages sp)" "p = spages sp ! (n div 64)"
    | (none) "\<not> phas (spages sp) n" "flecs_sparse_get_page sp (n div 64) = None" "length (spages sp) \<le> n div 64"
  by (cases "n div 64 < length (spages sp)"; cases "sp_sparse (spages sp ! (n div 64))")
    (auto simp: phas_def flecs_sparse_get_page_def)

text \<open>What a step on an element does when its page is missing, and when it is there.\<close>

lemma without_page:
  assumes "\<not> phas (spages sp) n"
  shows "(case flecs_sparse_get_page sp (n div 64) of
      None \<Rightarrow> a | Some p \<Rightarrow> if sp_sparse p = None then a else b) = a"
  using assms by (auto simp: phas_def flecs_sparse_get_page_def)

lemma with_page:
  assumes "phas (spages sp) n"
  shows "(case flecs_sparse_get_page sp (n div 64) of
      None \<Rightarrow> a | Some p \<Rightarrow> if sp_sparse p = None then a else b) = b"
  using assms by (auto simp: phas_def flecs_sparse_get_page_def)

lemma pages_ok_page:
  assumes "pages_ok sz ps" "phas ps n"
  obtains xs where "sp_sparse (ps ! (n div 64)) = Some xs" "length xs = 64"
    "length (sp_data (ps ! (n div 64))) = (if sz = 0 then 0 else 64)"
proof -
  obtain xs where xs: "sp_sparse (ps ! (n div 64)) = Some xs" "n div 64 < length ps"
    using assms(2) by (auto simp: phas_def)
  then have "ps ! (n div 64) \<in> set ps" by simp
  then have "case sp_sparse (ps ! (n div 64)) of None \<Rightarrow> sp_data (ps ! (n div 64)) = []
    | Some xs \<Rightarrow> length xs = 64 \<and> length (sp_data (ps ! (n div 64))) = (if sz = 0 then 0 else 64)"
    using assms(1) unfolding pages_ok_def by (rule bspec[rotated])
  with xs(1) show thesis
    by (intro that[of xs]) simp_all
qed

lemma slot_get_ok:
  assumes "pages_ok sz (spages sp)" "phas (spages sp) n"
  shows "slot_get sp (n div 64) (n mod 64) = Inr (pslot (spages sp) n)"
proof -
  obtain xs where "sp_sparse (spages sp ! (n div 64)) = Some xs" "length xs = 64"
    using pages_ok_page[OF assms] by metis
  moreover have "n div 64 < length (spages sp)"
    using assms(2) by (simp add: phas_def)
  ultimately show ?thesis
    using assms(2) by (simp add: slot_get_def pslot_def)
qed

lemma pages_ok_update:
  assumes "pages_ok sz ps" "case sp_sparse p of None \<Rightarrow> sp_data p = []
      | Some xs \<Rightarrow> length xs = 64 \<and> length (sp_data p) = (if sz = 0 then 0 else 64)"
  shows "pages_ok sz (ps[i := p])"
  using assms set_update_subset_insert[of ps i p] unfolding pages_ok_def by blast

lemma slot_set_ok:
  assumes ok: "pages_ok sz (spages sp)" "phas (spages sp) n"
  obtains ps where "slot_set sp (n div 64) (n mod 64) v = Inr (sp\<lparr>spages := ps\<rparr>)" "pages_ok sz ps"
    "pslot ps = (pslot (spages sp))(n := v)" "pcell sz ps = pcell sz (spages sp)" "phas ps = phas (spages sp)"
    "length ps = length (spages sp)"
proof -
  let ?i = "n div 64"
  obtain xs where xs: "sp_sparse (spages sp ! ?i) = Some xs" "length xs = 64"
    "length (sp_data (spages sp ! ?i)) = (if sz = 0 then 0 else 64)" "?i < length (spages sp)"
    using pages_ok_page[OF ok] ok(2) by (auto simp: phas_def)
  define p where "p = (spages sp ! ?i)\<lparr>sp_sparse := Some (xs[n mod 64 := v])\<rparr>"
  define ps where "ps = (spages sp)[?i := p]"
  have eq: "slot_set sp ?i (n mod 64) v = Inr (sp\<lparr>spages := ps\<rparr>)"
    using xs by (simp add: slot_set_def ps_def p_def)
  have has: "phas ps m = phas (spages sp) m" for m
    using xs by (cases "m div 64 = ?i") (auto simp: phas_def ps_def p_def)
  moreover have "pcell sz ps m = pcell sz (spages sp) m" for m
    using xs has by (cases "m div 64 = ?i") (auto simp: pcell_def ps_def p_def)
  moreover have "pslot ps m = ((pslot (spages sp))(n := v)) m" for m
    using xs has[of m] ok(2) same_index[of m n]
    by (cases "m div 64 = ?i"; cases "m mod 64 = n mod 64") (auto simp: pslot_def ps_def p_def)
  moreover have "pages_ok sz ps"
    unfolding ps_def using ok(1) by (rule pages_ok_update) (use xs in \<open>simp add: p_def\<close>)
  ultimately show thesis
    by (intro that[OF eq]) (simp_all add: fun_eq_iff ps_def)
qed

lemma data_set_ok:
  assumes ok: "pages_ok sz (spages sp)" "phas (spages sp) n" and sz: "sz \<noteq> 0"
  obtains ps where "data_set sp (n div 64) (n mod 64) v = Inr (sp\<lparr>spages := ps\<rparr>)" "pages_ok sz ps"
    "pslot ps = pslot (spages sp)" "pcell sz ps = (pcell sz (spages sp))(n := v)" "phas ps = phas (spages sp)"
    "length ps = length (spages sp)"
proof -
  let ?i = "n div 64"
  obtain xs where xs: "sp_sparse (spages sp ! ?i) = Some xs" "length xs = 64"
    "length (sp_data (spages sp ! ?i)) = 64" "?i < length (spages sp)"
    using pages_ok_page[OF ok] ok(2) sz by (auto simp: phas_def)
  define p where "p = (spages sp ! ?i)\<lparr>sp_data := (sp_data (spages sp ! ?i))[n mod 64 := v]\<rparr>"
  define ps where "ps = (spages sp)[?i := p]"
  have eq: "data_set sp ?i (n mod 64) v = Inr (sp\<lparr>spages := ps\<rparr>)"
    using xs by (simp add: data_set_def ps_def p_def)
  have has: "phas ps m = phas (spages sp) m" for m
    using xs by (cases "m div 64 = ?i") (auto simp: phas_def ps_def p_def)
  moreover have "pslot ps m = pslot (spages sp) m" for m
    using xs has by (cases "m div 64 = ?i") (auto simp: pslot_def ps_def p_def)
  moreover have "pcell sz ps m = ((pcell sz (spages sp))(n := v)) m" for m
    using xs has[of m] ok(2) sz same_index[of m n]
    by (cases "m div 64 = ?i"; cases "m mod 64 = n mod 64") (auto simp: pcell_def ps_def p_def)
  moreover have "pages_ok sz ps"
    unfolding ps_def using ok(1) by (rule pages_ok_update) (use xs sz in \<open>simp add: p_def\<close>)
  ultimately show thesis
    by (intro that[OF eq]) (simp_all add: fun_eq_iff ps_def)
qed

lemma page_new_ok:
  assumes ok: "pages_ok (ssize sp) (spages sp)" and new: "\<not> phas (spages sp) n"
  obtains ps where "flecs_sparse_page_new sp (n div 64) = Inr (sp\<lparr>spages := ps\<rparr>)" "pages_ok (ssize sp) ps"
    "pslot ps = pslot (spages sp)" "pcell (ssize sp) ps = pcell (ssize sp) (spages sp)" "phas ps n"
    "\<And>m. phas (spages sp) m \<Longrightarrow> phas ps m"
proof -
  let ?i = "n div 64"
  define old where "old = (if length (spages sp) \<le> ?i
      then spages sp @ replicate (1 + ?i - length (spages sp)) zero_page else spages sp)"
  define p where "p = \<lparr>sp_sparse = Some (replicate 64 0),
           sp_data = (if ssize sp \<noteq> 0 then replicate 64 (0::'a) else [])\<rparr>"
  define ps where "ps = old[?i := p]"
  have i: "?i < length old" by (auto simp: old_def)
  have okold: "pages_ok (ssize sp) old"
    using ok by (auto simp: old_def pages_ok_def zero_page_def)
  have hasold: "phas old m = phas (spages sp) m" for m
    by (auto simp: old_def phas_def nth_append zero_page_def)
  have sameold: "old ! (m div 64) = spages sp ! (m div 64)" if "phas old m" for m
    using that unfolding hasold by (simp add: old_def phas_def nth_append)
  have "\<not> phas old n"
    using new hasold by simp
  then have null: "sp_sparse (old ! ?i) = None"
    using i by (simp add: phas_def)
  then have "sp_data (old ! ?i) = []"
    using okold i by (auto simp: pages_ok_def dest: bspec[OF _ nth_mem])
  with null i have eq: "flecs_sparse_page_new sp ?i = Inr (sp\<lparr>spages := ps\<rparr>)"
    by (simp add: flecs_sparse_page_new_def Let_def ps_def p_def flip: old_def)
  have has: "phas ps m \<longleftrightarrow> phas old m \<or> m div 64 = ?i" for m
    using i by (cases "m div 64 = ?i") (auto simp: ps_def phas_def p_def)
  have notold: "\<not> phas old m" if "m div 64 = ?i" for m
    using null that by (simp add: phas_def)
  have "pslot ps m = pslot (spages sp) m" for m
    using i has[of m] hasold[of m] notold[of m] sameold[of m]
    by (cases "m div 64 = ?i") (auto simp: pslot_def ps_def p_def)
  moreover have "pcell (ssize sp) ps m = pcell (ssize sp) (spages sp) m" for m
    using i has[of m] hasold[of m] notold[of m] sameold[of m]
    by (cases "m div 64 = ?i") (auto simp: pcell_def ps_def p_def)
  moreover have "pages_ok (ssize sp) ps"
    unfolding ps_def using okold by (rule pages_ok_update) (simp add: p_def)
  ultimately show thesis
    using has hasold by (intro that[OF eq]) (simp_all add: fun_eq_iff)
qed

lemma get_or_create_ok:
  assumes ok: "pages_ok (ssize sp) (spages sp)"
  obtains ps where "flecs_sparse_get_or_create_page sp (n div 64) = Inr (sp\<lparr>spages := ps\<rparr>)" "pages_ok (ssize sp) ps"
    "pslot ps = pslot (spages sp)" "pcell (ssize sp) ps = pcell (ssize sp) (spages sp)" "phas ps n"
    "\<And>m. phas (spages sp) m \<Longrightarrow> phas ps m"
proof (cases "phas (spages sp) n")
  case True
  then have "ssize sp = 0 \<or> sp_data (spages sp ! (n div 64)) \<noteq> []"
    using pages_ok_page[OF ok True] by (metis list.size(3) zero_neq_numeral)
  with True have "flecs_sparse_get_or_create_page sp (n div 64) = Inr (sp\<lparr>spages := spages sp\<rparr>)"
    by (cases rule: get_page_cases[where sp = sp and n = n]) (auto simp: flecs_sparse_get_or_create_page_def)
  with True ok show thesis by (intro that) simp_all
next
  case False
  then have "flecs_sparse_get_or_create_page sp (n div 64) = flecs_sparse_page_new sp (n div 64)"
    by (cases rule: get_page_cases[where sp = sp and n = n]) (auto simp: flecs_sparse_get_or_create_page_def)
  with page_new_ok[OF ok False] that show thesis by metis
qed

lemma get_or_create_same:
  assumes "pages_ok (ssize sp) (spages sp)" "phas (spages sp) n"
  shows "flecs_sparse_get_or_create_page sp (n div 64) = Inr sp"
proof -
  have "ssize sp = 0 \<or> sp_data (spages sp ! (n div 64)) \<noteq> []"
    using pages_ok_page[OF assms] by (metis list.size(3) zero_neq_numeral)
  then show ?thesis
    using assms(2) by (cases rule: get_page_cases[where sp = sp and n = n]) (auto simp: flecs_sparse_get_or_create_page_def)
qed

lemma assign_index_ok:
  assumes "pages_ok sz (spages sp)" "phas (spages sp) (low_index i)" "d < length (sdense sp)"
  obtains ps where "flecs_sparse_assign_index sp (low_index i div 64) i d
      = Inr (sp\<lparr>spages := ps, sdense := (sdense sp)[d := i]\<rparr>)" "pages_ok sz ps"
    "pslot ps = (pslot (spages sp))(low_index i := d)" "pcell sz ps = pcell sz (spages sp)"
    "phas ps = phas (spages sp)" "length ps = length (spages sp)"
proof -
  obtain ps where ps: "slot_set sp (low_index i div 64) (low_index i mod 64) d = Inr (sp\<lparr>spages := ps\<rparr>)"
    "pages_ok sz ps" "pslot ps = (pslot (spages sp))(low_index i := d)" "pcell sz ps = pcell sz (spages sp)"
    "phas ps = phas (spages sp)" "length ps = length (spages sp)"
    using slot_set_ok[OF assms(1,2)] by metis
  have "flecs_sparse_assign_index sp (low_index i div 64) i d
      = Inr (sp\<lparr>spages := ps, sdense := (sdense sp)[d := i]\<rparr>)"
    using assms(3) by (simp add: flecs_sparse_assign_index_def ps(1) dense_set_def)
  with ps that show thesis by metis
qed

section \<open>Invariant and abstraction\<close>

definition sp_wf :: "'d ecs_sparse \<Rightarrow> bool" where
  "sp_wf sp \<longleftrightarrow> pages_ok (ssize sp) (spages sp) \<and> pairing (pslot (spages sp)) (sdense sp)
     \<and> 0 < scount sp \<and> scount sp \<le> length (sdense sp)"

text \<open>
  What a client can observe: the indices in use, those it has used since the set was last
  cleared, and the contents of the memory of every index.
\<close>

record 'd sparse_spec =
  alive :: "nat set"
  seen :: "nat set"
  payload :: "nat \<Rightarrow> 'd"

definition sp_abs :: "('d::zero) ecs_sparse \<Rightarrow> 'd sparse_spec" where
  "sp_abs sp = \<lparr>alive = {n. alive_at (pslot (spages sp)) (scount sp) n},
     seen = {n. pslot (spages sp) n \<noteq> 0}, payload = pcell (ssize sp) (spages sp)\<rparr>"

lemma pslot_has: "pslot ps n \<noteq> 0 \<Longrightarrow> phas ps n"
  by (auto simp: pslot_def split: if_splits)

lemma swap_dense_ok:
  assumes ok: "pages_ok (ssize sp) (spages sp)" and p: "pairing (pslot (spages sp)) (sdense sp)"
    and a: "0 < a" "a < length (sdense sp)" and b: "0 < b" "b < length (sdense sp)"
  obtains ps where "flecs_sparse_swap_dense sp (low_index (sdense sp ! a) div 64) a b
      = Inr (sp\<lparr>spages := ps, sdense := (sdense sp)[b := sdense sp ! a, a := sdense sp ! b]\<rparr>)"
    "pages_ok (ssize sp) ps" "phas ps = phas (spages sp)" "pcell (ssize sp) ps = pcell (ssize sp) (spages sp)"
    "pslot ps = (pslot (spages sp))(low_index (sdense sp ! a) := b, low_index (sdense sp ! b) := a)"
proof -
  let ?ia = "sdense sp ! a" and ?ib = "sdense sp ! b"
  have has: "phas (spages sp) (low_index ?ia)" "phas (spages sp) (low_index ?ib)"
    using pairing_dense[OF p a] pairing_dense[OF p b] a b pslot_has by (metis less_not_refl)+
  obtain p1 where p1: "flecs_sparse_assign_index sp (low_index ?ia div 64) ?ia b
      = Inr (sp\<lparr>spages := p1, sdense := (sdense sp)[b := ?ia]\<rparr>)" "pages_ok (ssize sp) p1"
    "pslot p1 = (pslot (spages sp))(low_index ?ia := b)" "pcell (ssize sp) p1 = pcell (ssize sp) (spages sp)"
    "phas p1 = phas (spages sp)"
    using assign_index_ok[OF ok has(1) b(2)] by metis
  let ?sp1 = "sp\<lparr>spages := p1, sdense := (sdense sp)[b := ?ia]\<rparr>"
  obtain p2 where p2: "flecs_sparse_assign_index ?sp1 (low_index ?ib div 64) ?ib a
      = Inr (?sp1\<lparr>spages := p2, sdense := (sdense ?sp1)[a := ?ib]\<rparr>)" "pages_ok (ssize sp) p2"
    "pslot p2 = (pslot (spages ?sp1))(low_index ?ib := a)" "pcell (ssize sp) p2 = pcell (ssize sp) (spages ?sp1)"
    "phas p2 = phas (spages ?sp1)"
    using assign_index_ok[of "ssize sp" ?sp1 ?ib a] p1 has(2) a(2) by (simp; metis)
  have "flecs_sparse_swap_dense sp (low_index ?ia div 64) a b
      = Inr (sp\<lparr>spages := p2, sdense := (sdense sp)[b := ?ia, a := ?ib]\<rparr>)"
    using a b p1(1) p2(1) get_or_create_same[OF ok has(2)]
    by (simp add: flecs_sparse_swap_dense_def keep_pages_def)
  with p1 p2 show thesis
    by (intro that[of p2]) simp_all
qed

lemma DATA_low: "DATA sp (take_bit 32 i) = DATA sp i"
  by (simp add: DATA_def low_index_low)

lemma sparse_ensure:
  fixes sp :: "('d::zero) ecs_sparse" and i :: u64
  assumes wf: "sp_wf sp" and sz: "k = 0 \<or> k = ssize sp" and room: "length (sdense sp) < 2 ^ 30"
  defines "n \<equiv> low_index i"
  obtains sp' where "flecs_sparse_ensure sp k i = Inr (sp', DATA sp' i, n \<notin> alive (sp_abs sp))" "sp_wf sp'"
    "sp_abs sp' = (sp_abs sp)\<lparr>alive := insert n (alive (sp_abs sp)), seen := insert n (seen (sp_abs sp))\<rparr>"
    "ssize sp' = ssize sp"
proof -
  note simps = flecs_sparse_ensure_def Let_def low_index_low DATA_low
  obtain ps where ps: "flecs_sparse_get_or_create_page sp (n div 64) = Inr (sp\<lparr>spages := ps\<rparr>)"
    "pages_ok (ssize sp) ps" "pslot ps = pslot (spages sp)"
    "pcell (ssize sp) ps = pcell (ssize sp) (spages sp)" "phas ps n"
    using get_or_create_ok[of sp n] wf unfolding sp_wf_def by metis
  define s where "s = pslot ps"
  define ds where "ds = sdense sp"
  define c where "c = scount sp"
  define sp1 where "sp1 = sp\<lparr>spages := ps\<rparr>"
  have p: "pairing s ds" and c: "0 < c" "c \<le> length ds"
    using wf by (simp_all add: sp_wf_def s_def ps(3) ds_def c_def)
  have get: "slot_get sp1 (n div 64) (n mod 64) = Inr (s n)"
    using slot_get_ok[of "ssize sp1" sp1 n] ps by (simp add: sp1_def s_def)
  have abs: "alive (sp_abs sp) = {n. alive_at s c n}" "seen (sp_abs sp) = {n. s n \<noteq> 0}"
    "payload (sp_abs sp) = pcell (ssize sp) ps"
    by (simp_all add: sp_abs_def s_def c_def ps)
  have dense: "length (sdense sp) > 0" using c by (auto simp: ds_def)
  show thesis
  proof (cases "s n = 0")
    case new: True
    define m' where "m' = (if take_bit 32 i \<ge> smax_id sp then take_bit 32 i else smax_id sp)"
    define sp2 where "sp2 = sp1\<lparr>sdense := ds @ [uninit_u64], scount := c + 1, smax_id := m'\<rparr>"
    have sp2: "ssize sp2 = ssize sp" "spages sp2 = ps" "sdense sp2 = ds @ [uninit_u64]"
      by (simp_all add: sp2_def sp1_def)
    have step: "flecs_sparse_ensure sp k i =
        res_bind (if c < length ds then
                    res_bind (flecs_sparse_get_or_create_page sp2 (low_index (ds ! c) div 64)) (\<lambda>sp'.
                    keep_pages sp2 sp'
                      (flecs_sparse_assign_index sp' (low_index (ds ! c) div 64) (ds ! c) (length ds)))
                  else Inr sp2) (\<lambda>sp.
        res_bind (flecs_sparse_assign_index sp (n div 64) i c) (\<lambda>sp.
        Inr (sp, DATA sp i, True)))"
      using sz dense ps(1) get new room
      by (simp add: simps n_def sp1_def c_def ds_def sp2_def m'_def flecs_sparse_grow_dense_def
          flecs_sparse_get_id_def flecs_sparse_set_id_def nth_append)
    have "\<exists>ps2 ds2. flecs_sparse_ensure sp k i = Inr (sp2\<lparr>spages := ps2, sdense := ds2\<rparr>, DATA sp i, True)
      \<and> pages_ok (ssize sp) ps2 \<and> pcell (ssize sp) ps2 = pcell (ssize sp) ps
      \<and> pairing (pslot ps2) ds2 \<and> c + 1 \<le> length ds2
      \<and> {m. alive_at (pslot ps2) (c + 1) m} = insert n {m. alive_at s c m}
      \<and> {m. pslot ps2 m \<noteq> 0} = insert n {m. s m \<noteq> 0}"
    proof (cases "c < length ds")
      case True
      note cl = c(1) True
      have q: "phas ps (low_index (ds ! c))"
        using pairing_dense[OF p cl] c(1) pslot_has[of ps] by (simp add: s_def)
      have ok2: "pages_ok (ssize sp) (spages sp2)" "phas (spages sp2) (low_index (ds ! c))"
        "length ds < length (sdense sp2)"
        using ps(2) q by (simp_all add: sp2)
      obtain p1 where p1: "flecs_sparse_assign_index sp2 (low_index (ds ! c) div 64) (ds ! c) (length ds)
          = Inr (sp2\<lparr>spages := p1, sdense := (sdense sp2)[length ds := ds ! c]\<rparr>)" "pages_ok (ssize sp) p1"
        "pslot p1 = (pslot (spages sp2))(low_index (ds ! c) := length ds)"
        "pcell (ssize sp) p1 = pcell (ssize sp) (spages sp2)" "phas p1 = phas (spages sp2)"
        using assign_index_ok[OF ok2] by metis
      define sp3 where "sp3 = sp2\<lparr>spages := p1, sdense := ds @ [ds ! c]\<rparr>"
      have ok3: "pages_ok (ssize sp) (spages sp3)" "phas (spages sp3) (low_index i)" "c < length (sdense sp3)"
        using p1 ps(5) c by (simp_all add: sp3_def sp2 n_def)
      obtain p2 where p2: "flecs_sparse_assign_index sp3 (low_index i div 64) i c
          = Inr (sp3\<lparr>spages := p2, sdense := (sdense sp3)[c := i]\<rparr>)" "pages_ok (ssize sp) p2"
        "pslot p2 = (pslot (spages sp3))(low_index i := c)"
        "pcell (ssize sp) p2 = pcell (ssize sp) (spages sp3)"
        using assign_index_ok[OF ok3] by metis
      have slots: "pslot p2 = s(low_index (ds ! c) := length ds, n := c)"
        using p1(3) p2(3) by (simp add: sp3_def sp2 s_def n_def)
      have "flecs_sparse_get_or_create_page sp2 (low_index (ds ! c) div 64) = Inr sp2"
        using get_or_create_same[of sp2] ok2 by (simp add: sp2)
      then have "flecs_sparse_ensure sp k i = Inr (sp2\<lparr>spages := p2, sdense := ds[c := i] @ [ds ! c]\<rparr>, DATA sp i, True)"
        unfolding step n_def using True p1(1) p2(1)
        by (simp add: keep_pages_def sp2 sp3_def list_update_append DATA_def)
      moreover have "pairing (pslot p2) (ds[c := i] @ [ds ! c])"
        unfolding slots n_def using new cl by (intro pairing_insert_at[OF p]) (simp_all add: n_def)
      moreover have "{m. pslot p2 m \<noteq> 0} = insert n {m. s m \<noteq> 0}"
        unfolding slots using cl pairing_dense[OF p cl] by auto
      moreover have "{m. alive_at (pslot p2) (c + 1) m} = insert n {m. alive_at s c m}"
        unfolding slots by (rule alive_insert_at[OF p cl new])
      ultimately show ?thesis
        using p1(4) p2(2,4) c(2) by (intro exI[of _ p2] exI[of _ "ds[c := i] @ [ds ! c]"]) (simp add: sp3_def sp2)
    next
      case False
      then have cl: "c = length ds" using c by simp
      have ok2: "pages_ok (ssize sp) (spages sp2)" "phas (spages sp2) (low_index i)" "c < length (sdense sp2)"
        using ps(2,5) cl by (simp_all add: sp2 n_def)
      obtain p2 where p2: "flecs_sparse_assign_index sp2 (low_index i div 64) i c
          = Inr (sp2\<lparr>spages := p2, sdense := (sdense sp2)[c := i]\<rparr>)" "pages_ok (ssize sp) p2"
        "pslot p2 = (pslot (spages sp2))(low_index i := c)"
        "pcell (ssize sp) p2 = pcell (ssize sp) (spages sp2)"
        using assign_index_ok[OF ok2] by metis
      have slots: "pslot p2 = s(n := c)"
        using p2(3) by (simp add: sp2 s_def n_def)
      have "flecs_sparse_ensure sp k i = Inr (sp2\<lparr>spages := p2, sdense := ds @ [i]\<rparr>, DATA sp i, True)"
        unfolding step n_def using cl p2(1) by (simp add: sp2 list_update_append DATA_def)
      moreover have "pairing (pslot p2) (ds @ [i])"
        unfolding slots n_def cl using new c by (intro pairing_append[OF p]) (auto simp: n_def)
      moreover have "{m. pslot p2 m \<noteq> 0} = insert n {m. s m \<noteq> 0}"
        unfolding slots using c by auto
      moreover have "{m. alive_at (pslot p2) (c + 1) m} = insert n {m. alive_at s c m}"
        unfolding slots by (rule alive_append[OF p c(1) cl])
      ultimately show ?thesis
        using p2(2,4) cl by (intro exI[of _ p2] exI[of _ "ds @ [i]"]) (simp add: sp2)
    qed
    then obtain ps2 ds2 where r: "flecs_sparse_ensure sp k i = Inr (sp2\<lparr>spages := ps2, sdense := ds2\<rparr>, DATA sp i, True)"
      "pages_ok (ssize sp) ps2" "pcell (ssize sp) ps2 = pcell (ssize sp) ps" "pairing (pslot ps2) ds2"
      "c + 1 \<le> length ds2" "{m. alive_at (pslot ps2) (c + 1) m} = insert n {m. alive_at s c m}"
      "{m. pslot ps2 m \<noteq> 0} = insert n {m. s m \<noteq> 0}" by blast
    define sp' where "sp' = sp2\<lparr>spages := ps2, sdense := ds2\<rparr>"
    have sp': "ssize sp' = ssize sp" "spages sp' = ps2" "sdense sp' = ds2" "scount sp' = c + 1"
      by (simp_all add: sp'_def sp2_def sp1_def)
    have "n \<notin> alive (sp_abs sp)"
      using new by (simp add: abs alive_at_def)
    moreover have "sp_wf sp'"
      using r by (simp add: sp_wf_def sp')
    moreover have "sp_abs sp' = (sp_abs sp)\<lparr>alive := insert n (alive (sp_abs sp)), seen := insert n (seen (sp_abs sp))\<rparr>"
      using r(3,6,7) unfolding abs by (simp add: sp_abs_def sp' ps(4))
    moreover have "DATA sp' i = DATA sp i"
      by (simp add: DATA_def sp')
    ultimately show thesis
      using r(1) sp'(1) by (intro that[of sp']) (simp_all add: sp'_def[symmetric])
  next
    case False
    then have sl: "s n < length ds" "low_index (ds ! s n) = n"
      using pairing_slot[OF p, of n] by auto
    show thesis
    proof (cases "c \<le> s n")
      case True
      then have cl: "0 < c" "c < length ds" using c sl by auto
      have "pages_ok (ssize sp1) (spages sp1)" "pairing (pslot (spages sp1)) (sdense sp1)"
        "0 < s n" "s n < length (sdense sp1)" "c < length (sdense sp1)"
        using ps(2) p False sl cl by (auto simp: sp1_def s_def ds_def)
      then obtain ps2 where ps2: "flecs_sparse_swap_dense sp1 (n div 64) (s n) c
          = Inr (sp1\<lparr>spages := ps2, sdense := ds[c := ds ! s n, s n := ds ! c]\<rparr>)"
        "pages_ok (ssize sp) ps2" "pcell (ssize sp) ps2 = pcell (ssize sp) ps"
        "pslot ps2 = s(n := c, low_index (ds ! c) := s n)"
        using swap_dense_ok[of sp1 "s n" c] cl(1) sl(2)
        by (auto simp: sp1_def s_def ds_def)
      define ds' where "ds' = ds[c := ds ! s n, s n := ds ! c]"
      define sp' where "sp' = sp\<lparr>spages := ps2, sdense := ds'[c := i], scount := c + 1\<rparr>"
      have eq: "flecs_sparse_ensure sp k i = Inr (sp', DATA sp' i, True)"
        using sz dense ps(1) get ps2(1) False True cl
        by (simp add: simps n_def dense_set_def sp1_def c_def ds'_def ds_def sp'_def DATA_def)
      have "pairing (pslot ps2) ds'"
        unfolding ps2(4) ds'_def using pairing_swap[OF p _ sl(1) cl] False sl(2) by simp
      moreover have "ds' ! c = ds ! s n"
        using cl sl(1) by (cases "s n = c") (simp_all only: ds'_def nth_list_update length_list_update if_True simp_thms if_False)
      ultimately have "pairing (pslot ps2) (ds'[c := i])"
        using cl(2) sl(2) by (intro pairing_relabel) (simp_all add: ds'_def n_def[symmetric])
      then have wf': "sp_wf sp'"
        using ps2(2) cl by (simp add: sp_wf_def sp'_def ds'_def)
      have "{m. pslot ps2 m \<noteq> 0} = insert n {m. s m \<noteq> 0}"
        using False cl pairing_dense[OF p cl] unfolding ps2(4) by auto
      moreover have "n \<notin> alive (sp_abs sp)"
        using True by (simp add: abs alive_at_def)
      moreover have "alive (sp_abs sp') = insert n (alive (sp_abs sp))"
        using alive_swap_in[OF p cl True] ps2(4) unfolding abs by (simp add: sp_abs_def sp'_def)
      moreover have "ssize sp' = ssize sp" "payload (sp_abs sp') = payload (sp_abs sp)"
        using ps2(3) abs(3) by (simp_all add: sp_abs_def sp'_def)
      moreover have "seen (sp_abs sp') = {m. pslot ps2 m \<noteq> 0}"
        by (simp add: sp_abs_def sp'_def)
      ultimately show thesis
        using eq wf' abs(2) by (intro that[of sp']) simp_all
    next
      case alive: False
      have "flecs_sparse_ensure sp k i = Inr (sp1, DATA sp1 i, False)"
        using sz dense ps(1) get False alive
        by (simp add: simps n_def sp1_def c_def DATA_def)
      moreover have "sp_wf sp1"
        using wf ps by (simp add: sp_wf_def sp1_def)
      moreover have "n \<in> alive (sp_abs sp)" "n \<in> seen (sp_abs sp)"
        using alive False by (simp_all add: abs alive_at_def)
      moreover have "sp_abs sp1 = sp_abs sp"
        using ps by (simp add: sp_abs_def sp1_def)
      ultimately show thesis
        by (intro that[of sp1]) (simp_all add: insert_absorb sp1_def)
    qed
  qed
qed

text \<open>The data of an index that is in use.\<close>

lemma data_access:
  assumes wf: "sp_wf sp" and n: "n \<in> seen (sp_abs sp)" and sz: "ssize sp \<noteq> 0"
  shows "data_read sp (Some n) = Inr (payload (sp_abs sp) n)"
    and "\<exists>sp'. data_write sp (Some n) v = Inr sp' \<and> sp_wf sp' \<and> ssize sp' = ssize sp
      \<and> sp_abs sp' = (sp_abs sp)\<lparr>payload := (payload (sp_abs sp))(n := v)\<rparr>"
proof -
  have ok: "pages_ok (ssize sp) (spages sp)" using wf by (simp add: sp_wf_def)
  have has: "phas (spages sp) n" using n by (simp add: sp_abs_def pslot_has)
  have "n mod 64 < length (sp_data (spages sp ! (n div 64)))"
    using pages_ok_page[OF ok has] sz by (metis mod_less_divisor zero_less_numeral)
  then show "data_read sp (Some n) = Inr (payload (sp_abs sp) n)"
    using has sz by (simp add: data_read_def sp_abs_def pcell_def phas_def)
  obtain ps where ps: "data_set sp (n div 64) (n mod 64) v = Inr (sp\<lparr>spages := ps\<rparr>)" "pages_ok (ssize sp) ps"
    "pslot ps = pslot (spages sp)" "pcell (ssize sp) ps = (pcell (ssize sp) (spages sp))(n := v)"
    using data_set_ok[OF ok has sz] by metis
  then show "\<exists>sp'. data_write sp (Some n) v = Inr sp' \<and> sp_wf sp' \<and> ssize sp' = ssize sp
      \<and> sp_abs sp' = (sp_abs sp)\<lparr>payload := (payload (sp_abs sp))(n := v)\<rparr>"
    using wf by (simp add: data_write_def sp_wf_def sp_abs_def)
qed

lemma zero_data_ok:
  assumes ok: "pages_ok (ssize sp) (spages sp)" "phas (spages sp) n"
  obtains ps where "zero_data sp (n div 64) (n mod 64) = Inr (sp\<lparr>spages := ps\<rparr>)" "pages_ok (ssize sp) ps"
    "pslot ps = pslot (spages sp)" "pcell (ssize sp) ps = (pcell (ssize sp) (spages sp))(n := 0)"
proof (cases "ssize sp = 0")
  case True
  then have "pcell (ssize sp) (spages sp) = (pcell (ssize sp) (spages sp))(n := 0)"
    by (auto simp: pcell_def)
  with True ok show thesis
    by (intro that[of "spages sp"]) (simp_all add: zero_data_def)
next
  case False
  then show thesis
    using data_set_ok[OF ok False, of 0] that by (simp add: zero_data_def) metis
qed

text \<open>Both removals: the element leaves the used part, the memory is reset.\<close>

lemma sparse_leave:
  assumes ok: "pages_ok (ssize sp) (spages sp)" and p: "pairing (pslot (spages sp)) (sdense sp)"
    and c: "scount sp \<le> length (sdense sp)" and n: "0 < pslot (spages sp) n" "pslot (spages sp) n < scount sp"
  defines "d \<equiv> pslot (spages sp) n"
  obtains sp' where
    "(if d = scount sp - 1 then Inr (sp\<lparr>scount := scount sp - 1\<rparr>)
      else res_bind (flecs_sparse_swap_dense sp (n div 64) d (scount sp - 1)) (\<lambda>sp.
           Inr (sp\<lparr>scount := scount sp - 1\<rparr>))) = Inr sp'"
    "pages_ok (ssize sp') (spages sp')" "pairing (pslot (spages sp')) (sdense sp')" "scount sp' = scount sp - 1"
    "length (sdense sp') = length (sdense sp)" "phas (spages sp') n" "ssize sp' = ssize sp"
    "{m. alive_at (pslot (spages sp')) (scount sp') m} = {m. alive_at (pslot (spages sp)) (scount sp) m} - {n}"
    "{m. pslot (spages sp') m \<noteq> 0} = {m. pslot (spages sp) m \<noteq> 0}"
    "pcell (ssize sp) (spages sp') = pcell (ssize sp) (spages sp)"
    "sdense sp' = (if d = scount sp - 1 then sdense sp
       else (sdense sp)[scount sp - 1 := sdense sp ! d, d := sdense sp ! (scount sp - 1)])"
    "smax_id sp' = smax_id sp"
proof (cases "d = scount sp - 1")
  case True
  then show thesis
    using ok p c n alive_drop_last[OF p n(1), of "scount sp"] pslot_has[of "spages sp" n]
    by (intro that[of "sp\<lparr>scount := scount sp - 1\<rparr>"]) (simp_all add: d_def)
next
  case False
  define l where "l = scount sp - 1"
  have l: "d < l" "0 < l" "l < length (sdense sp)" "0 < d" "d < length (sdense sp)"
    using False n c by (auto simp: l_def d_def)
  have dn: "low_index (sdense sp ! d) = n"
    using pairing_slot[OF p, of n] n by (simp add: d_def)
  obtain ps where ps: "flecs_sparse_swap_dense sp (n div 64) d l
      = Inr (sp\<lparr>spages := ps, sdense := (sdense sp)[l := sdense sp ! d, d := sdense sp ! l]\<rparr>)"
    "pages_ok (ssize sp) ps" "phas ps = phas (spages sp)" "pcell (ssize sp) ps = pcell (ssize sp) (spages sp)"
    "pslot ps = (pslot (spages sp))(n := l, low_index (sdense sp ! l) := d)"
    using swap_dense_ok[OF ok p l(4,5) l(2,3)] unfolding dn by metis
  define sp' where "sp' = sp\<lparr>spages := ps, sdense := (sdense sp)[l := sdense sp ! d, d := sdense sp ! l],
    scount := l\<rparr>"
  have "{m. alive_at (pslot ps) l m} = {m. alive_at (pslot (spages sp)) (scount sp) m} - {n}"
    unfolding ps(5) l_def d_def using l(1) by (intro alive_swap_out[OF p c n(1)]) (simp add: l_def d_def)
  moreover have "{m. pslot ps m \<noteq> 0} = {m. pslot (spages sp) m \<noteq> 0}"
    unfolding ps(5) using l n pairing_dense[OF p l(2,3)] by auto
  moreover have "pairing (pslot ps) (sdense sp')"
    using pairing_swap[OF p l(4,5) l(2,3)] unfolding ps(5) dn by (simp add: sp'_def)
  ultimately show thesis
    using False ps l n pslot_has[of "spages sp" n]
    by (intro that[of sp']) (simp_all add: sp'_def l_def)
qed

lemma sparse_remove:
  fixes sp :: "('d::zero) ecs_sparse" and i :: u64
  assumes wf: "sp_wf sp" and sz: "k = 0 \<or> k = ssize sp"
  defines "n \<equiv> low_index i"
  obtains sp' where "flecs_sparse_remove sp k i = Inr (sp', n \<in> seen (sp_abs sp))" "sp_wf sp'"
    "sp_abs sp' = (if n \<in> seen (sp_abs sp) then
       (sp_abs sp)\<lparr>alive := alive (sp_abs sp) - {n}, payload := (payload (sp_abs sp))(n := 0)\<rparr>
       else sp_abs sp)"
    "ssize sp' = ssize sp"
proof -
  have ok: "pages_ok (ssize sp) (spages sp)" and p: "pairing (pslot (spages sp)) (sdense sp)"
    and c: "0 < scount sp" "scount sp \<le> length (sdense sp)"
    using wf by (simp_all add: sp_wf_def)
  note simps = flecs_sparse_remove_def Let_def low_index_low
  show thesis
  proof (cases "phas (spages sp) n")
    case False
    then have "flecs_sparse_remove sp k i = Inr (sp, False)"
      using sz unfolding simps page_offset_simps n_def by (simp add: without_page)
    moreover have "pslot (spages sp) n = 0"
      using False by (simp add: pslot_def)
    ultimately show thesis
      using wf by (intro that[of sp]) (simp_all add: sp_abs_def)
  next
    case has: True
    note get = slot_get_ok[OF ok has]
    define d where "d = pslot (spages sp) n"
    have step: "flecs_sparse_remove sp k i =
      (if d \<noteq> 0 then
         res_bind (if d = scount sp - 1 then Inr (sp\<lparr>scount := scount sp - 1\<rparr>)
                   else if d < scount sp then
                     res_bind (flecs_sparse_swap_dense sp (n div 64) d (scount sp - 1)) (\<lambda>sp.
                     Inr (sp\<lparr>scount := scount sp - 1\<rparr>))
                   else Inr sp) (\<lambda>sp.
         res_bind (zero_data sp (n div 64) (n mod 64)) (\<lambda>sp. Inr (sp, True)))
       else Inr (sp, False))"
      using sz unfolding simps page_offset_simps with_page[OF has[unfolded n_def]] n_def d_def
        slot_get_ok[OF ok has, unfolded n_def] by (simp only: ecs_assert_simps res_bind_simps)
    consider "d = 0" | "0 < d" "d < scount sp" | "0 < d" "scount sp \<le> d" by linarith
    then show thesis
    proof cases
      case 1
      then show thesis
        using wf step by (intro that[of sp]) (simp_all add: sp_abs_def d_def)
    next
      case 2
      obtain sp1 where sp1: "(if d = scount sp - 1 then Inr (sp\<lparr>scount := scount sp - 1\<rparr>)
          else res_bind (flecs_sparse_swap_dense sp (n div 64) d (scount sp - 1)) (\<lambda>sp.
               Inr (sp\<lparr>scount := scount sp - 1\<rparr>))) = Inr sp1"
        "pages_ok (ssize sp1) (spages sp1)" "pairing (pslot (spages sp1)) (sdense sp1)" "scount sp1 = scount sp - 1"
        "length (sdense sp1) = length (sdense sp)" "phas (spages sp1) n" "ssize sp1 = ssize sp"
        "{m. alive_at (pslot (spages sp1)) (scount sp1) m} = {m. alive_at (pslot (spages sp)) (scount sp) m} - {n}"
        "{m. pslot (spages sp1) m \<noteq> 0} = {m. pslot (spages sp) m \<noteq> 0}"
        "pcell (ssize sp) (spages sp1) = pcell (ssize sp) (spages sp)"
        "sdense sp1 = (if d = scount sp - 1 then sdense sp
           else (sdense sp)[scount sp - 1 := sdense sp ! d, d := sdense sp ! (scount sp - 1)])"
        "smax_id sp1 = smax_id sp"
        by (rule sparse_leave[OF ok p c(2) 2[unfolded d_def], folded d_def])
      obtain ps where ps: "zero_data sp1 (n div 64) (n mod 64) = Inr (sp1\<lparr>spages := ps\<rparr>)" "pages_ok (ssize sp1) ps"
        "pslot ps = pslot (spages sp1)" "pcell (ssize sp1) ps = (pcell (ssize sp1) (spages sp1))(n := 0)"
        using zero_data_ok[OF sp1(2,6)] by metis
      have "0 < scount sp1"
        using 2 sp1(4) by linarith
      then have "sp_wf (sp1\<lparr>spages := ps\<rparr>)"
        using ps(2,3) sp1 c(2) by (simp add: sp_wf_def)
      moreover have "flecs_sparse_remove sp k i = Inr (sp1\<lparr>spages := ps\<rparr>, True)"
        unfolding step using 2(1,2) by (simp only: sp1(1) ps(1) if_True not_gr_zero[symmetric] simp_thms res_bind_simps)
      ultimately show thesis
        using 2 ps sp1 by (intro that[of "sp1\<lparr>spages := ps\<rparr>"]) (simp_all add: sp_abs_def d_def)
    next
      case 3
      obtain ps where ps: "zero_data sp (n div 64) (n mod 64) = Inr (sp\<lparr>spages := ps\<rparr>)" "pages_ok (ssize sp) ps"
        "pslot ps = pslot (spages sp)" "pcell (ssize sp) ps = (pcell (ssize sp) (spages sp))(n := 0)"
        using zero_data_ok[OF ok has] by metis
      have "d \<noteq> scount sp - 1" using 3 c(1) by linarith
      then have "flecs_sparse_remove sp k i = Inr (sp\<lparr>spages := ps\<rparr>, True)"
        unfolding step using 3 ps(1) by simp
      moreover have "n \<notin> {m. alive_at (pslot (spages sp)) (scount sp) m}"
        using 3 by (simp add: alive_at_def d_def)
      ultimately show thesis
        using 3 ps wf by (intro that[of "sp\<lparr>spages := ps\<rparr>"]) (simp_all add: sp_wf_def sp_abs_def d_def)
    qed
  qed
qed

lemma sparse_queries:
  assumes wf: "sp_wf sp"
  shows "flecs_sparse_has sp i = Inr (low_index i \<in> alive (sp_abs sp))"
    and "flecs_sparse_is_alive sp i = Inr (low_index i \<in> alive (sp_abs sp))"
    and "k = 0 \<or> k = ssize sp \<Longrightarrow>
      flecs_sparse_get sp k i = Inr (if low_index i \<in> alive (sp_abs sp) then DATA sp i else None)"
    and "flecs_sparse_count sp = card (alive (sp_abs sp))"
proof -
  let ?n = "low_index i"
  have ok: "pages_ok (ssize sp) (spages sp)" and p: "pairing (pslot (spages sp)) (sdense sp)"
    and c: "0 < scount sp" "scount sp \<le> length (sdense sp)"
    using wf by (simp_all add: sp_wf_def)
  have "flecs_sparse_has sp i = Inr (?n \<in> alive (sp_abs sp))
    \<and> flecs_sparse_is_alive sp i = Inr (?n \<in> alive (sp_abs sp))
    \<and> (k = 0 \<or> k = ssize sp \<longrightarrow>
      flecs_sparse_get sp k i = Inr (if ?n \<in> alive (sp_abs sp) then DATA sp i else None))"
  proof (cases "phas (spages sp) ?n")
    case False
    then show ?thesis
      by (simp add: flecs_sparse_has_def flecs_sparse_is_alive_def flecs_sparse_get_def Let_def low_index_low
          without_page sp_abs_def alive_at_def pslot_def)
  next
    case True
    then show ?thesis
      by (auto simp: flecs_sparse_has_def flecs_sparse_is_alive_def flecs_sparse_get_def Let_def low_index_low
          with_page slot_get_ok[OF ok True] DATA_low sp_abs_def alive_at_def)
  qed
  then show "flecs_sparse_has sp i = Inr (?n \<in> alive (sp_abs sp))"
    "flecs_sparse_is_alive sp i = Inr (?n \<in> alive (sp_abs sp))"
    "k = 0 \<or> k = ssize sp \<Longrightarrow>
      flecs_sparse_get sp k i = Inr (if ?n \<in> alive (sp_abs sp) then DATA sp i else None)"
    by auto
  show "flecs_sparse_count sp = card (alive (sp_abs sp))"
    using card_alive[OF p c(2)] c(1) by (simp add: flecs_sparse_count_def sp_abs_def)
qed

lemma sparse_init:
  "sp_wf (flecs_sparse_init k)"
  "sp_abs (flecs_sparse_init k) = \<lparr>alive = {}, seen = {}, payload = \<lambda>_. 0\<rparr>"
  "ssize (flecs_sparse_init k) = k"
  by (auto simp: flecs_sparse_init_def sp_wf_def sp_abs_def pages_ok_def pslot_def pcell_def phas_def
      alive_at_def pairing_def)

lemma sparse_clear:
  assumes wf: "sp_wf sp"
  shows "sp_wf (flecs_sparse_clear sp)" "ssize (flecs_sparse_clear sp) = ssize sp"
    "sp_abs (flecs_sparse_clear sp) = (sp_abs sp)\<lparr>alive := {}, seen := {}\<rparr>"
proof -
  define ps where "ps = map (\<lambda>p. case sp_sparse p of None \<Rightarrow> p
      | Some indices \<Rightarrow> p\<lparr>sp_sparse := Some (replicate 64 0)\<rparr>) (spages sp)"
  have ok: "pages_ok (ssize sp) (spages sp)" and c: "sdense sp \<noteq> []"
    using wf by (auto simp: sp_wf_def)
  have has: "phas ps n = phas (spages sp) n" for n
    by (auto simp: phas_def ps_def split: option.splits)
  have slot: "pslot ps n = 0" for n
    by (auto simp: pslot_def phas_def ps_def split: option.splits)
  have cell: "pcell (ssize sp) ps n = pcell (ssize sp) (spages sp) n" for n
    by (auto simp: pcell_def phas_def ps_def split: option.splits)
  have pages: "pages_ok (ssize sp) ps"
    using ok by (auto simp: pages_ok_def ps_def split: option.splits)
  have eq: "flecs_sparse_clear sp = sp\<lparr>spages := ps, sdense := take 1 (sdense sp), scount := 1, smax_id := 0\<rparr>"
    using c by (simp add: flecs_sparse_clear_def ps_def set_dense_count_def Suc_le_eq)
  have "pairing (pslot ps) (take 1 (sdense sp))"
    using slot by (auto simp: pairing_def)
  then show "sp_wf (flecs_sparse_clear sp)" "ssize (flecs_sparse_clear sp) = ssize sp"
    "sp_abs (flecs_sparse_clear sp) = (sp_abs sp)\<lparr>alive := {}, seen := {}\<rparr>"
    using pages c by (auto simp: eq sp_wf_def sp_abs_def slot cell alive_at_def Suc_le_eq fun_eq_iff)
qed

section \<open>Runs of operations\<close>

text \<open>
  A caller that chooses the ids itself. \<open>SpInsert\<close> reports whether a pointer came back, \<open>SpSet\<close> is
  ensure and a write through the data pointer, \<open>SpGet\<close> a read through it.
\<close>

datatype 'd sparse_op =
    SpEnsure u64 | SpInsert u64 | SpSet u64 'd | SpRemove u64 | SpGet u64 | SpHas u64 | SpIsAlive u64
  | SpCount | SpClear

datatype 'd sparse_out = OutBool bool | OutData "'d option" | OutCount nat

fun sp_exec :: "nat \<Rightarrow> 'd sparse_op \<Rightarrow> ('d::zero) ecs_sparse \<Rightarrow> ('d ecs_sparse \<times> 'd sparse_out) res" where
  "sp_exec k (SpEnsure i) sp =
     res_bind (flecs_sparse_ensure sp k i) (\<lambda>(sp, _, is_new). Inr (sp, OutBool is_new))"
| "sp_exec k (SpInsert i) sp =
     res_bind (flecs_sparse_insert sp k i) (\<lambda>(sp, ptr). Inr (sp, OutBool (ptr \<noteq> None)))"
| "sp_exec k (SpSet i v) sp =
     res_bind (flecs_sparse_ensure sp k i) (\<lambda>(sp, ptr, is_new).
     res_bind (data_write sp ptr v) (\<lambda>sp. Inr (sp, OutBool is_new)))"
| "sp_exec k (SpRemove i) sp =
     res_bind (flecs_sparse_remove sp k i) (\<lambda>(sp, b). Inr (sp, OutBool b))"
| "sp_exec k (SpGet i) sp =
     res_bind (flecs_sparse_get sp k i) (\<lambda>ptr.
     if ptr = None then Inr (sp, OutData None)
     else res_bind (data_read sp ptr) (\<lambda>v. Inr (sp, OutData (Some v))))"
| "sp_exec k (SpHas i) sp = res_bind (flecs_sparse_has sp i) (\<lambda>b. Inr (sp, OutBool b))"
| "sp_exec k (SpIsAlive i) sp = res_bind (flecs_sparse_is_alive sp i) (\<lambda>b. Inr (sp, OutBool b))"
| "sp_exec k SpCount sp = Inr (sp, OutCount (flecs_sparse_count sp))"
| "sp_exec k SpClear sp = Inr (flecs_sparse_clear sp, OutBool True)"

text \<open>
  The specification: a set of indices and a memory cell per index. Removing resets the cell, but
  only of an index that was used since the last clear; clearing resets no cell.
\<close>

fun sp_spec :: "'d sparse_op \<Rightarrow> ('d::zero) sparse_spec \<Rightarrow> 'd sparse_spec \<times> 'd sparse_out" where
  "sp_spec (SpEnsure i) a = (let n = low_index i in
     (a\<lparr>alive := insert n (alive a), seen := insert n (seen a)\<rparr>, OutBool (n \<notin> alive a)))"
| "sp_spec (SpInsert i) a = (let n = low_index i in
     (a\<lparr>alive := insert n (alive a), seen := insert n (seen a)\<rparr>, OutBool (n \<notin> alive a)))"
| "sp_spec (SpSet i v) a = (let n = low_index i in
     (a\<lparr>alive := insert n (alive a), seen := insert n (seen a), payload := (payload a)(n := v)\<rparr>,
      OutBool (n \<notin> alive a)))"
| "sp_spec (SpRemove i) a = (let n = low_index i in
     (if n \<in> seen a then a\<lparr>alive := alive a - {n}, payload := (payload a)(n := 0)\<rparr> else a,
      OutBool (n \<in> seen a)))"
| "sp_spec (SpGet i) a = (let n = low_index i in
     (a, OutData (if n \<in> alive a then Some (payload a n) else None)))"
| "sp_spec (SpHas i) a = (a, OutBool (low_index i \<in> alive a))"
| "sp_spec (SpIsAlive i) a = (a, OutBool (low_index i \<in> alive a))"
| "sp_spec SpCount a = (a, OutCount (card (alive a)))"
| "sp_spec SpClear a = (a\<lparr>alive := {}, seen := {}\<rparr>, OutBool True)"

fun sp_run :: "nat \<Rightarrow> 'd sparse_op list \<Rightarrow> ('d::zero) ecs_sparse \<Rightarrow> 'd sparse_out list res" where
  "sp_run k [] sp = Inr []"
| "sp_run k (x # xs) sp =
     res_bind (sp_exec k x sp) (\<lambda>(sp, out). res_bind (sp_run k xs sp) (\<lambda>outs. Inr (out # outs)))"

fun sp_spec_run :: "'d sparse_op list \<Rightarrow> ('d::zero) sparse_spec \<Rightarrow> 'd sparse_out list" where
  "sp_spec_run [] a = []"
| "sp_spec_run (x # xs) a = (let (a, out) = sp_spec x a in out # sp_spec_run xs a)"

lemma alive_seen: "alive (sp_abs sp) \<subseteq> seen (sp_abs sp)"
  by (auto simp: sp_abs_def alive_at_def)

lemma dense_keeps_length:
  "slot_set sp n off d = Inr sp' \<Longrightarrow> length (sdense sp') = length (sdense sp)"
  "data_set sp n off x = Inr sp' \<Longrightarrow> length (sdense sp') = length (sdense sp)"
  "data_write sp ptr x = Inr sp' \<Longrightarrow> length (sdense sp') = length (sdense sp)"
  "dense_set sp d v = Inr sp' \<Longrightarrow> length (sdense sp') = length (sdense sp)"
  "flecs_sparse_assign_index sp n i d = Inr sp' \<Longrightarrow> length (sdense sp') = length (sdense sp)"
  "keep_pages sp sp1 k = Inr y \<Longrightarrow> k = Inr y"
  by (auto simp: slot_set_def data_set_def data_write_def dense_set_def flecs_sparse_assign_index_def
      keep_pages_def res_elims split: if_splits)

lemma pages_keep_dense:
  "flecs_sparse_get_or_create_page sp n = Inr sp' \<Longrightarrow> length (sdense sp') = length (sdense sp)"
  "zero_data sp n off = Inr sp' \<Longrightarrow> length (sdense sp') = length (sdense sp)"
  by (auto simp: flecs_sparse_get_or_create_page_def flecs_sparse_page_new_def zero_data_def Let_def res_elims
      split: option.splits if_splits dest!: dense_keeps_length)

lemma swap_keeps_length: "flecs_sparse_swap_dense sp p a b = Inr sp' \<Longrightarrow> length (sdense sp') = length (sdense sp)"
  unfolding flecs_sparse_swap_dense_def
  by (auto simp: res_elims dest!: pages_keep_dense dense_keeps_length)

lemma sparse_ensure_grows:
  "flecs_sparse_ensure sp k i = Inr (sp', ptr, b) \<Longrightarrow> length (sdense sp') \<le> length (sdense sp) + 1"
  unfolding flecs_sparse_ensure_def flecs_sparse_grow_dense_def flecs_sparse_set_id_def Let_def
  by (auto simp: res_elims split: if_splits dest!: pages_keep_dense dense_keeps_length swap_keeps_length)

lemma sparse_remove_keeps:
  "flecs_sparse_remove sp k i = Inr (sp', b) \<Longrightarrow> length (sdense sp') = length (sdense sp)"
  unfolding flecs_sparse_remove_def Let_def
  by (auto simp: res_elims split: if_splits option.splits dest!: pages_keep_dense swap_keeps_length)

lemma sp_exec_grows: "sp_exec k x sp = Inr (sp', out) \<Longrightarrow> length (sdense sp') \<le> length (sdense sp) + 1"
  by (cases x) (auto simp: res_elims flecs_sparse_insert_def flecs_sparse_clear_def set_dense_count_def
      split: if_splits dest!: sparse_ensure_grows sparse_remove_keeps dense_keeps_length)

lemma sp_exec_simulates:
  assumes wf: "sp_wf sp" and sz: "ssize sp = k" "0 < k" and room: "length (sdense sp) < 2 ^ 30"
  shows "\<exists>sp' out. sp_exec k x sp = Inr (sp', out) \<and> sp_wf sp' \<and> ssize sp' = k
    \<and> sp_spec x (sp_abs sp) = (sp_abs sp', out)"
proof -
  have ens: "\<exists>sp'. flecs_sparse_ensure sp k i = Inr (sp', DATA sp' i, low_index i \<notin> alive (sp_abs sp)) \<and> sp_wf sp'
    \<and> sp_abs sp' = (sp_abs sp)\<lparr>alive := insert (low_index i) (alive (sp_abs sp)), seen := insert (low_index i) (seen (sp_abs sp))\<rparr>
    \<and> ssize sp' = ssize sp" for i
    using sparse_ensure[OF wf _ room, of k i] sz by metis
  show ?thesis
  proof (cases x)
    case (SpEnsure i)
    then show ?thesis using ens[of i] sz by (auto simp: Let_def)
  next
    case (SpInsert i)
    then show ?thesis using ens[of i] sz by (auto simp: Let_def flecs_sparse_insert_def DATA_def)
  next
    case (SpSet i v)
    obtain sp1 where sp1: "flecs_sparse_ensure sp k i = Inr (sp1, DATA sp1 i, low_index i \<notin> alive (sp_abs sp))" "sp_wf sp1"
      "sp_abs sp1 = (sp_abs sp)\<lparr>alive := insert (low_index i) (alive (sp_abs sp)), seen := insert (low_index i) (seen (sp_abs sp))\<rparr>"
      "ssize sp1 = ssize sp"
      using ens[of i] by blast
    then have "low_index i \<in> seen (sp_abs sp1)" by simp
    then obtain sp' where "data_write sp1 (Some (low_index i)) v = Inr sp'" "sp_wf sp'" "ssize sp' = ssize sp1"
      "sp_abs sp' = (sp_abs sp1)\<lparr>payload := (payload (sp_abs sp1))(low_index i := v)\<rparr>"
      using data_access(2)[OF sp1(2)] sp1(4) sz by (metis less_not_refl)
    with sp1 SpSet sz show ?thesis by (simp add: Let_def DATA_def)
  next
    case (SpRemove i)
    obtain sp' where "flecs_sparse_remove sp k i = Inr (sp', low_index i \<in> seen (sp_abs sp))" "sp_wf sp'"
      "sp_abs sp' = (if low_index i \<in> seen (sp_abs sp) then
         (sp_abs sp)\<lparr>alive := alive (sp_abs sp) - {low_index i}, payload := (payload (sp_abs sp))(low_index i := 0)\<rparr>
         else sp_abs sp)" "ssize sp' = ssize sp"
      using sparse_remove[OF wf, of k i] sz by metis
    then show ?thesis using SpRemove sz by (simp add: Let_def)
  next
    case (SpGet i)
    then show ?thesis
      using sparse_queries(3)[OF wf, of k i] data_access(1)[OF wf, of "low_index i"] alive_seen[of sp] wf sz
      by (auto simp: DATA_def Let_def)
  next
    case (SpHas i)
    then show ?thesis using sparse_queries(1)[OF wf, of i] wf sz by simp
  next
    case (SpIsAlive i)
    then show ?thesis using sparse_queries(2)[OF wf, of i] wf sz by simp
  next
    case SpCount
    then show ?thesis using sparse_queries(4)[OF wf] wf sz by simp
  next
    case SpClear
    then show ?thesis using sparse_clear[OF wf] sz by simp
  qed
qed

lemma sp_run_simulates:
  "sp_wf sp \<Longrightarrow> ssize sp = k \<Longrightarrow> 0 < k \<Longrightarrow> length (sdense sp) + length xs \<le> 2 ^ 30 \<Longrightarrow>
    sp_run k xs sp = Inr (sp_spec_run xs (sp_abs sp))"
proof (induction xs arbitrary: sp)
  case (Cons x xs)
  then have room: "length (sdense sp) < 2 ^ 30" by simp
  obtain sp' out where e: "sp_exec k x sp = Inr (sp', out)" "sp_wf sp'" "ssize sp' = k"
    "sp_spec x (sp_abs sp) = (sp_abs sp', out)"
    using sp_exec_simulates[OF Cons.prems(1-3) room] by metis
  have "length (sdense sp') + length xs \<le> 2 ^ 30" using sp_exec_grows[OF e(1)] Cons.prems(4) by simp
  with e Cons.IH[of sp'] Cons.prems(3) show ?case by simp
qed simp

lemma sp_init_run:
  assumes "0 < k" "length xs < 2 ^ 30"
  shows "sp_run k xs (flecs_sparse_init k) = Inr (sp_spec_run xs \<lparr>alive = {}, seen = {}, payload = \<lambda>_. 0\<rparr>)"
proof -
  have "length (sdense (flecs_sparse_init k :: 'a ecs_sparse)) + length xs \<le> 2 ^ 30"
    using assms(2) by (simp add: flecs_sparse_init_def)
  from sp_run_simulates[OF sparse_init(1) sparse_init(3) assms(1) this] show ?thesis by (simp add: sparse_init(2))
qed



section \<open>The sparse set as an allocator of ids\<close>

text \<open>
  A set whose ids are all issued by flecs\_sparse\_new\_id: the paired indices are those below
  the next fresh one. (A fresh set has max\_id = UINT64\_MAX, so that the first id is 0.)
\<close>

definition sp_alloc_wf :: "'d ecs_sparse \<Rightarrow> bool" where
  "sp_alloc_wf sp \<longleftrightarrow> sp_wf sp \<and> (\<forall>n. pslot (spages sp) n \<noteq> 0 \<longleftrightarrow> n < unat (smax_id sp + 1))
     \<and> unat (smax_id sp + 1) < 2 ^ 30"

definition sp_live :: "'d ecs_sparse \<Rightarrow> u64 set" where
  "sp_live sp = live_ids (sdense sp) (scount sp)"

definition sp_free :: "('d::zero) ecs_sparse \<Rightarrow> u64 \<Rightarrow> 'd ecs_sparse res" where
  "sp_free sp i = res_bind (flecs_sparse_remove_w_gen sp (ssize sp) i) (\<lambda>(sp, _). Inr sp)"

lemma dense_length:
  assumes "sp_alloc_wf sp"
  shows "length (sdense sp) = unat (smax_id sp + 1) + 1"
proof -
  have p: "pairing (pslot (spages sp)) (sdense sp)" and c: "0 < scount sp" "scount sp \<le> length (sdense sp)"
    and iss: "\<And>n. pslot (spages sp) n \<noteq> 0 \<longleftrightarrow> n < unat (smax_id sp + 1)"
    using assms by (auto simp: sp_alloc_wf_def sp_wf_def)
  have "{n. alive_at (pslot (spages sp)) (length (sdense sp)) n} = {..<unat (smax_id sp + 1)}"
    using iss pairing_slot[OF p] by (auto simp: alive_at_def)
  then have "length (sdense sp) - 1 = unat (smax_id sp + 1)"
    using card_alive[OF p order_refl] by simp
  then show ?thesis using c by linarith
qed

lemma sparse_card_live:
  assumes "sp_alloc_wf sp"
  shows "card (sp_live sp) = scount sp - 1" "card (sp_live sp) \<le> 2 ^ 30 - 1"
proof -
  show c: "card (sp_live sp) = scount sp - 1"
    using assms unfolding sp_live_def sp_alloc_wf_def sp_wf_def
    by (intro card_live_ids[of "pslot (spages sp)"]) simp_all
  have "scount sp \<le> length (sdense sp)" using assms by (simp add: sp_alloc_wf_def sp_wf_def)
  then show "card (sp_live sp) \<le> 2 ^ 30 - 1"
    using c dense_length[OF assms] assms unfolding sp_alloc_wf_def by linarith
qed

lemma sparse_new_id:
  fixes sp :: "('d::zero) ecs_sparse"
  assumes wf: "sp_alloc_wf sp" and room: "card (sp_live sp) < 2 ^ 30 - 1"
  shows "\<exists>sp' i. flecs_sparse_new_id sp = Inr (sp', i) \<and> sp_alloc_wf sp'
    \<and> low_index i \<notin> low_index ` sp_live sp \<and> sp_live sp' = insert i (sp_live sp)"
proof -
  define s where "s = pslot (spages sp)"
  define ds where "ds = sdense sp"
  define c where "c = scount sp"
  define nx where "nx = smax_id sp + 1"
  have ok: "pages_ok (ssize sp) (spages sp)" and p: "pairing s ds" and c: "0 < c" "c \<le> length ds"
    and iss: "\<And>n. s n \<noteq> 0 \<longleftrightarrow> n < unat nx" and max: "unat nx < 2 ^ 30"
    using wf by (auto simp: sp_alloc_wf_def sp_wf_def s_def ds_def c_def nx_def)
  have live: "sp_live sp = live_ids ds c" by (simp add: sp_live_def ds_def c_def)
  have len: "length ds = unat nx + 1" using dense_length[OF wf] by (simp add: ds_def nx_def)
  show ?thesis
  proof (cases "c < length ds")
    case True
    define sp' where "sp' = sp\<lparr>scount := c + 1\<rparr>"
    have "flecs_sparse_new_id sp = Inr (sp', ds ! c)"
      using True c by (simp add: flecs_sparse_new_id_def flecs_sparse_new_index_def Let_def sp'_def c_def ds_def)
    moreover have "sp_alloc_wf sp'"
      using wf True by (simp add: sp_alloc_wf_def sp_wf_def sp'_def ds_def)
    moreover have "sp_live sp' = insert (ds ! c) (sp_live sp)"
      using live_ids_Suc[OF c(1), of ds] unfolding live by (simp add: sp_live_def sp'_def ds_def)
    moreover have "low_index (ds ! c) \<notin> low_index ` sp_live sp"
      using live_ids_low[OF p c(2)] pairing_dense[OF p c(1) True] unfolding live by force
    ultimately show ?thesis by blast
  next
    case False
    then have cl: "c = length ds" using c by simp
    then have nx: "unat nx + 1 < 2 ^ 30"
      using room sparse_card_live(1)[OF wf] len by (simp add: c_def)
    have room_ds: "length (sdense sp) < 2 ^ 30" using nx len by (simp add: ds_def)
    have "unat nx < 2 ^ 32" using nx by simp
    then have low: "low_index nx = unat nx" by (rule low_index_small)
    have new: "s (low_index nx) = 0" using iss low by (metis less_not_refl)
    define sp1 where "sp1 = sp\<lparr>scount := c + 1, smax_id := nx, sdense := ds @ [uninit_u64]\<rparr>"
    have ok1: "pages_ok (ssize sp1) (spages sp1)" using ok by (simp add: sp1_def)
    obtain ps where ps: "flecs_sparse_get_or_create_page sp1 (low_index nx div 64) = Inr (sp1\<lparr>spages := ps\<rparr>)"
      "pages_ok (ssize sp1) ps" "pslot ps = pslot (spages sp1)" "phas ps (low_index nx)"
      using get_or_create_ok[OF ok1, of "low_index nx"] by metis
    define sp2 where "sp2 = sp1\<lparr>spages := ps\<rparr>"
    have ok2: "pages_ok (ssize sp) (spages sp2)" "phas (spages sp2) (low_index nx)" "c < length (sdense sp2)"
      using ps cl by (simp_all add: sp2_def sp1_def)
    obtain p2 where p2: "flecs_sparse_assign_index sp2 (low_index nx div 64) nx c
        = Inr (sp2\<lparr>spages := p2, sdense := (sdense sp2)[c := nx]\<rparr>)" "pages_ok (ssize sp) p2"
      "pslot p2 = (pslot (spages sp2))(low_index nx := c)"
      using assign_index_ok[OF ok2] by metis
    define sp' where "sp' = sp2\<lparr>spages := p2, sdense := ds @ [nx]\<rparr>"
    have sp': "ssize sp' = ssize sp" "spages sp' = p2" "sdense sp' = ds @ [nx]" "scount sp' = c + 1" "smax_id sp' = nx"
      by (simp_all add: sp'_def sp2_def sp1_def)
    have slots: "pslot p2 = s(low_index nx := c)"
      using p2(3) ps(3) by (simp add: sp2_def sp1_def s_def)
    have get: "slot_get sp2 (low_index nx div 64) (low_index nx mod 64) = Inr 0"
      using slot_get_ok[OF ok2(1,2)] new ps(3) by (simp add: sp2_def sp1_def s_def)
    have "flecs_sparse_create_id (sp\<lparr>scount := c + 1\<rparr>) c = Inr (sp', nx)"
    proof -
      have "sdense sp2 = ds @ [uninit_u64]" by (simp add: sp2_def sp1_def)
      then have assign: "flecs_sparse_assign_index sp2 (low_index nx div 64) nx c = Inr sp'"
        using p2(1) cl by (simp add: sp'_def list_update_append)
      have "flecs_sparse_grow_dense (sp\<lparr>scount := c + 1, smax_id := nx\<rparr>) = Inr sp1"
        using room_ds by (simp add: flecs_sparse_grow_dense_def sp1_def ds_def)
      then show ?thesis
        using ps(1) get assign
        by (simp add: flecs_sparse_create_id_def flecs_sparse_inc_id_def nx_def[symmetric] sp2_def[symmetric])
    qed
    then have eq: "flecs_sparse_new_id sp = Inr (sp', nx)"
      using cl by (simp add: flecs_sparse_new_id_def flecs_sparse_new_index_def Let_def c_def ds_def)
    have "pairing (pslot p2) (ds @ [nx])"
      unfolding slots cl using new c by (intro pairing_append[OF p]) auto
    then have "sp_wf sp'"
      using p2(2) cl by (simp add: sp_wf_def sp')
    moreover have "unat (nx + 1) = unat nx + 1"
      using \<open>unat nx < 2 ^ 32\<close> by (subst unat_word_ariths) simp
    ultimately have "sp_alloc_wf sp'"
      using nx iss c(1) low by (auto simp: sp_alloc_wf_def sp' slots less_Suc_eq)
    moreover have "live_ids (ds @ [nx]) c = live_ids ds c"
      using cl by (intro live_ids_cong) (simp add: nth_append)
    then have "sp_live sp' = insert nx (sp_live sp)"
      using live_ids_Suc[OF c(1), of "ds @ [nx]"] cl unfolding live by (simp add: sp_live_def sp')
    moreover have "low_index nx \<notin> low_index ` sp_live sp"
      using live_ids_low(1)[OF p c(2)] new unfolding live by force
    ultimately show ?thesis using eq by blast
  qed
qed

lemma sparse_free:
  fixes sp :: "('d::zero) ecs_sparse"
  assumes wf: "sp_alloc_wf sp" and i: "i \<in> sp_live sp"
  obtains sp' where "flecs_sparse_remove_w_gen sp (ssize sp) i = Inr (sp', True)" "sp_alloc_wf sp'"
    "sp_live sp' = sp_live sp - {i}" "scount sp' < length (sdense sp')"
    "sdense sp' ! scount sp' = ECS_GENERATION_INC i"
proof -
  define n where "n = low_index i"
  define s where "s = pslot (spages sp)"
  define ds where "ds = sdense sp"
  define c where "c = scount sp"
  have ok: "pages_ok (ssize sp) (spages sp)" and p: "pairing s ds" and c: "0 < c" "c \<le> length ds"
    using wf by (auto simp: sp_alloc_wf_def sp_wf_def s_def ds_def c_def)
  have live: "sp_live sp = live_ids ds c" by (simp add: sp_live_def ds_def c_def)
  define d where "d = s n"
  have d: "0 < d" "d < c" "ds ! d = i" "d < length ds"
    using live_ids_low[OF p c(2), of i] i c(2) unfolding live d_def n_def by auto
  have has: "phas (spages sp) n" using d(1) pslot_has[of "spages sp" n] by (simp add: d_def s_def)
  define ds1 where "ds1 = ds[d := ECS_GENERATION_INC i]"
  define sp1 where "sp1 = sp\<lparr>sdense := ds1\<rparr>"
  have p1: "pairing (pslot (spages sp1)) (sdense sp1)"
    using pairing_relabel[OF p d(4), of "ECS_GENERATION_INC i"] d(3)
    by (simp add: sp1_def ds1_def s_def)
  have ok1: "pages_ok (ssize sp1) (spages sp1)" "scount sp1 \<le> length (sdense sp1)"
    "0 < pslot (spages sp1) n" "pslot (spages sp1) n < scount sp1"
    using ok c d by (simp_all add: sp1_def ds1_def d_def s_def c_def)
  have dd: "pslot (spages sp1) n = d" "scount sp1 = c" "sdense sp1 = ds1" "ssize sp1 = ssize sp"
    "smax_id sp1 = smax_id sp" "spages sp1 = spages sp" "length ds1 = length ds"
    by (simp_all add: sp1_def d_def s_def c_def ds1_def)
  obtain sp2 where sp2: "(if d = c - 1 then Inr (sp1\<lparr>scount := c - 1\<rparr>)
      else res_bind (flecs_sparse_swap_dense sp1 (n div 64) d (c - 1)) (\<lambda>sp.
           Inr (sp\<lparr>scount := scount sp - 1\<rparr>))) = Inr sp2"
    "pages_ok (ssize sp2) (spages sp2)" "pairing (pslot (spages sp2)) (sdense sp2)" "scount sp2 = c - 1"
    "length (sdense sp2) = length ds" "phas (spages sp2) n" "ssize sp2 = ssize sp"
    "{m. pslot (spages sp2) m \<noteq> 0} = {m. s m \<noteq> 0}"
    "sdense sp2 = (if d = c - 1 then ds1 else ds1[c - 1 := ds1 ! d, d := ds1 ! (c - 1)])"
    "smax_id sp2 = smax_id sp"
  proof -
    show thesis
    proof (rule sparse_leave[OF ok1(1) p1 ok1(2-4), unfolded dd(1-5,7)], goal_cases)
      case (1 x)
      show thesis
        by (rule that[of x]) (use 1 in \<open>simp_all only: dd(6) s_def\<close>)
    qed
  qed
  obtain ps where ps: "zero_data sp2 (n div 64) (n mod 64) = Inr (sp2\<lparr>spages := ps\<rparr>)" "pages_ok (ssize sp2) ps"
    "pslot ps = pslot (spages sp2)"
    using zero_data_ok[OF sp2(2,6)] by metis
  define sp' where "sp' = sp2\<lparr>spages := ps\<rparr>"
  have zero: "zero_data sp2 (n div 64) (n mod 64) = Inr sp'"
    using ps(1) by (simp add: sp'_def)
  have step: "flecs_sparse_remove_w_gen sp (ssize sp) i =
      (if d = c - 1 then
         res_bind (zero_data (sp1\<lparr>scount := c - 1\<rparr>) (n div 64) (n mod 64)) (\<lambda>sp. Inr (sp, True))
       else
         res_bind (flecs_sparse_swap_dense sp1 (n div 64) d (c - 1)) (\<lambda>sp.
         res_bind (zero_data (sp\<lparr>scount := scount sp - 1\<rparr>) (n div 64) (n mod 64)) (\<lambda>sp. Inr (sp, True))))"
  proof -
    have get: "slot_get sp (n div 64) (n mod 64) = Inr d"
      using slot_get_ok[OF ok has] by (simp add: d_def s_def)
    have mem: "mem_get (sdense sp) d = Inr i" "dense_set sp d (ECS_GENERATION_INC i) = Inr sp1"
      using d by (simp_all add: ds_def dense_set_def sp1_def ds1_def)
    show ?thesis
      using d(1,2) unfolding flecs_sparse_remove_w_gen_def Let_def low_index_low page_offset_simps n_def[symmetric]
        with_page[OF has] get flecs_sparse_inc_gen_def
      by (simp add: mem dd(2))
  qed
  have eq: "flecs_sparse_remove_w_gen sp (ssize sp) i = Inr (sp', True)"
  proof (cases "d = c - 1")
    case True
    then show ?thesis using sp2(1) zero unfolding step by simp
  next
    case False
    then obtain sp3 where "flecs_sparse_swap_dense sp1 (n div 64) d (c - 1) = Inr sp3"
      "sp3\<lparr>scount := scount sp3 - 1\<rparr> = sp2"
      using sp2(1) by (cases "flecs_sparse_swap_dense sp1 (n div 64) d (c - 1)") auto
    with False zero show ?thesis unfolding step by simp
  qed
  have fields: "sdense sp' = sdense sp2" "scount sp' = c - 1" "smax_id sp' = smax_id sp" "ssize sp' = ssize sp"
    "spages sp' = ps"
    using sp2 by (simp_all add: sp'_def)
  have last: "sdense sp' ! (c - 1) = ECS_GENERATION_INC i"
    using d c by (cases "d = c - 1") (simp_all add: fields sp2(9) ds1_def nth_list_update)
  have seen: "pslot ps m \<noteq> 0 \<longleftrightarrow> s m \<noteq> 0" for m
    using sp2(8) unfolding ps(3) by blast
  have "sp_wf sp'"
    using ps(2,3) sp2(3,5,7) d c(2) unfolding sp_wf_def fields by simp
  then have "sp_alloc_wf sp'"
    using wf unfolding sp_alloc_wf_def fields seen s_def by simp
  moreover have "sp_live sp' = sp_live sp - {i}"
  proof -
    have "live_ids (sdense sp2) (c - 1) = live_ids ds1 c - {ds1 ! d}"
      unfolding sp2(9) using c d by (intro live_ids_swap_out[OF p1[unfolded dd(3)]]) (simp_all add: dd(7))
    also have "\<dots> = live_ids ds c - {i}"
      using live_ids_relabel_except[OF p c(2) d(1,2), of "ECS_GENERATION_INC i"] d(3) by (simp add: ds1_def)
    finally show ?thesis unfolding live by (simp add: sp_live_def fields)
  qed
  moreover have "scount sp' < length (sdense sp')"
    using c d sp2(5) unfolding fields by simp
  ultimately show thesis
    using eq last unfolding fields(2)[symmetric] by (intro that[of sp']) simp_all
qed

text \<open>The sparse set hands out ids as an allocator.\<close>

lemma sparse_reuse:
  assumes "scount sp < length (sdense sp)"
  shows "\<exists>sp'. flecs_sparse_new_id sp = Inr (sp', sdense sp ! scount sp)"
  using assms by (simp add: flecs_sparse_new_id_def flecs_sparse_new_index_def Let_def)

interpretation spa: id_allocator sp_alloc_wf sp_live "2 ^ 30 - 1" flecs_sparse_new_id sp_free
proof (unfold_locales, goal_cases)
  case (1 s)
  then show ?case by (simp add: sp_live_def)
next
  case (2 s)
  then show ?case by (rule sparse_card_live)
next
  case (3 s)
  then show ?case by (rule sparse_new_id)
next
  case (4 s i)
  then obtain s' where "flecs_sparse_remove_w_gen s (ssize s) i = Inr (s', True)" "sp_alloc_wf s'"
    "sp_live s' = sp_live s - {i}"
    using sparse_free[of s i] by metis
  then show ?case by (simp add: sp_free_def)
next
  case (5 s i s')
  then obtain t where "flecs_sparse_remove_w_gen s (ssize s) i = Inr (t, True)"
    "scount t < length (sdense t)" "sdense t ! scount t = ECS_GENERATION_INC i"
    using sparse_free[of s i] by metis
  with 5(3) sparse_reuse[of t] show ?case by (simp add: sp_free_def)
qed

lemma sparse_init_alloc: "sp_alloc_wf (flecs_sparse_init k)" "sp_live (flecs_sparse_init k) = {}"
  by (simp_all add: sp_alloc_wf_def sparse_init(1), auto simp: flecs_sparse_init_def pslot_def phas_def
      sp_live_def live_ids_def)

text \<open>
  Claim C23: a fresh sparse set issues any number of ids below 2\^30 without aborting or growing its
  dense array past 2\^30, with pairwise different indices; each of them can be removed, and the id
  issued next is then the removed one with its generation bumped.
\<close>

theorem sparse_ids_recycled:
  fixes k n :: nat
  assumes "n < 2 ^ 30"
  shows "\<exists>sp ids. alloc_many flecs_sparse_new_id n (flecs_sparse_init k :: ('d::zero) ecs_sparse) = Inr (sp, ids)
    \<and> length ids = n \<and> distinct (map low_index ids)
    \<and> (\<forall>i\<in>set ids. \<exists>sp1 sp2. flecs_sparse_remove_w_gen sp (ssize sp) i = Inr (sp1, True)
         \<and> flecs_sparse_new_id sp1 = Inr (sp2, ECS_GENERATION_INC i))"
proof -
  have "card (sp_live (flecs_sparse_init k :: 'd ecs_sparse)) + n \<le> 2 ^ 30 - 1"
    unfolding sparse_init_alloc using assms by simp
  from spa.new_many[OF sparse_init_alloc(1) this] obtain sp :: "'d ecs_sparse" and ids where
    a: "alloc_many flecs_sparse_new_id n (flecs_sparse_init k) = Inr (sp, ids)" "sp_alloc_wf sp" "length ids = n"
    "distinct (map low_index ids)" "sp_live sp = set ids"
    unfolding sparse_init_alloc by auto
  have "\<exists>sp1 sp2. flecs_sparse_remove_w_gen sp (ssize sp) i = Inr (sp1, True)
         \<and> flecs_sparse_new_id sp1 = Inr (sp2, ECS_GENERATION_INC i)" if "i \<in> set ids" for i
    using sparse_free[OF a(2), of i] sparse_reuse that a(5) by metis
  with a show ?thesis by blast
qed

theorem sparse_ids_recycled_witness:
  "\<exists>sp ids. alloc_many flecs_sparse_new_id 3 (flecs_sparse_init 4 :: nat ecs_sparse) = Inr (sp, ids)
    \<and> length ids = 3 \<and> distinct (map low_index ids)
    \<and> (\<forall>i\<in>set ids. \<exists>sp1 sp2. flecs_sparse_remove_w_gen sp (ssize sp) i = Inr (sp1, True)
         \<and> flecs_sparse_new_id sp1 = Inr (sp2, ECS_GENERATION_INC i))"
  by (rule sparse_ids_recycled) simp

section \<open>Where the sparse set departs from its contract\<close>

text \<open>
  Shrinking a sparse set does not reset the slots of removed ids in the pages it keeps,
  while it cuts the dense array they point into. After the next insertion a removed id passes for
  alive: here 2 is removed, the set is shrunk, 3 is inserted, and 2 is alive.
\<close>

lemma sparse_shrink_resurrects:
  "res_bind (flecs_sparse_ensure (flecs_sparse_init 0 :: nat ecs_sparse) 0 1) (\<lambda>(sp, _).
   res_bind (flecs_sparse_ensure sp 0 2) (\<lambda>(sp, _).
   res_bind (flecs_sparse_remove sp 0 2) (\<lambda>(sp, _).
   res_bind (flecs_sparse_is_alive sp 2) (\<lambda>before.
   res_bind (flecs_sparse_shrink sp) (\<lambda>sp.
   res_bind (flecs_sparse_ensure sp 0 3) (\<lambda>(sp, _).
   res_bind (flecs_sparse_is_alive sp 2) (\<lambda>after. Inr (before, after)))))))) = Inr (False, True)"
  by code_simp

text \<open>
  A fresh set does not let ids chosen by the caller and issued ids mix: its max\_id is the largest
  64-bit number, which no 32-bit index exceeds, so that issuing starts over at 0.
\<close>

lemma sparse_ensure_then_new_id_aborts:
  "res_bind (flecs_sparse_ensure (flecs_sparse_init 0 :: nat ecs_sparse) 0 0)
     (\<lambda>(sp, _). flecs_sparse_new_id sp) = Inl ECS_INTERNAL_ERROR"
  by code_simp

text \<open>
  Clearing keeps the element memory: an element inserted after it starts with the old contents.
  Removing an element that is not alive any more reports success.
\<close>

lemma sparse_clear_keeps_data:
  assumes "0 < k"
  shows "sp_run k [SpSet i v, SpClear, SpEnsure i, SpGet i] (flecs_sparse_init k)
    = Inr [OutBool True, OutBool True, OutBool True, OutData (Some v)]"
  using sp_init_run[OF assms, of "[SpSet i v, SpClear, SpEnsure i, SpGet i]"] by (simp add: Let_def del: sp_run.simps)

lemma sparse_remove_dead:
  assumes "0 < k"
  shows "sp_run k [SpEnsure i, SpRemove i, SpRemove i, SpGet i] (flecs_sparse_init k)
    = Inr [OutBool True, OutBool True, OutBool True, OutData None]"
  using sp_init_run[OF assms, of "[SpEnsure i, SpRemove i, SpRemove i, SpGet i]"] by (simp add: Let_def del: sp_run.simps)

lemma sparse_is_alive_ignores_generation:
  fixes sp :: "('d::zero) ecs_sparse"
  assumes "sp_wf sp"
  shows "flecs_sparse_is_alive sp (ECS_GENERATION_INC i) = flecs_sparse_is_alive sp i"
  using sparse_queries(2)[OF assms] by simp

end
