(* ===== verification/Entity_Index.thy ===== *)
theory Entity_Index
  imports Ecs_Dense
begin

text \<open>
  The entity index of storage/entity\_index.c, which keeps for every entity its record (table and
  row) and decides which ids are alive, and the id ranges that world.c builds over it. A page is
  a calloc'ed array of 1024 records, reached with an offset below 1024 only, and is a function
  here; the vector of page pointers is a list of options. A record pointer is the entity's index
  (pages do not move). Ranges are allocated objects: a pointer to one is its number, and
  \<open>ei_ranges\<close> is the vector of pointers sorted by \<open>rg_min\<close>. The count of alive entities and dense positions are naturals for the int32\_t
  of the code. They agree up to 2\^30 ids, where the capacity of the vector of ids ends (Ecs\_Vec);
  \<open>ei_run_grows\<close> shows that the counters stay below the number of operations made.
\<close>

section \<open>State\<close>

abbreviation FLECS_ENTITY_PAGE_BITS :: nat where "FLECS_ENTITY_PAGE_BITS \<equiv> 10"
abbreviation FLECS_ENTITY_PAGE_SIZE :: nat where "FLECS_ENTITY_PAGE_SIZE \<equiv> 1024"

definition entity_page :: "u64 \<Rightarrow> nat" where
  "entity_page entity = unat (drop_bit FLECS_ENTITY_PAGE_BITS (ucast entity :: u32))"

definition entity_offset :: "u64 \<Rightarrow> nat" where
  "entity_offset entity = unat ((ucast entity :: u32) AND mask FLECS_ENTITY_PAGE_BITS)"

record ecs_record =
  r_table :: "nat option"
  r_row :: u32
  r_dense :: nat

definition zero_record :: ecs_record where
  "zero_record = \<lparr>r_table = None, r_row = 0, r_dense = 0\<rparr>"

type_synonym entity_page = "nat \<Rightarrow> ecs_record"

record entity_range =
  rg_min :: u32
  rg_max :: u32
  rg_cur :: u32
  rg_recycled :: "u64 list"

record ecs_entity_index =
  ei_dense :: "u64 list"
  ei_pages :: "entity_page option list"
  ei_ranges :: "nat list"
  ei_heap :: "entity_range list"
  ei_active :: "nat option"
  ei_alive :: nat
  ei_max :: u32

section \<open>Pages and records\<close>

text \<open>The pointer to the page is the page number, computed again by the caller.\<close>

definition flecs_entity_index_ensure_page :: "ecs_entity_index \<Rightarrow> u64 \<Rightarrow> ecs_entity_index res" where
  "flecs_entity_index_ensure_page ei i =
     (let page_index = entity_page i;
          pages = (if page_index \<ge> length (ei_pages ei)
                   then ei_pages ei @ replicate (page_index + 1 - length (ei_pages ei)) None
                   else ei_pages ei)
      in
      res_bind (mem_get pages page_index) (\<lambda>page.
      case page of
        None \<Rightarrow> Inr (ei\<lparr>ei_pages := pages[page_index := Some (\<lambda>_. zero_record)]\<rparr>)
      | Some _ \<Rightarrow> Inr (ei\<lparr>ei_pages := pages\<rparr>)))"

text \<open>Reading and writing a record through its pointer.\<close>

definition rec_get :: "ecs_entity_index \<Rightarrow> u64 \<Rightarrow> ecs_record res" where
  "rec_get ei i =
     res_bind (mem_get (ei_pages ei) (entity_page i)) (\<lambda>page.
     res_bind (deref page) (\<lambda>records. Inr (records (entity_offset i))))"

definition rec_set :: "ecs_entity_index \<Rightarrow> u64 \<Rightarrow> ecs_record \<Rightarrow> ecs_entity_index res" where
  "rec_set ei i r =
     res_bind (mem_get (ei_pages ei) (entity_page i)) (\<lambda>page.
     res_bind (deref page) (\<lambda>records.
     Inr (ei\<lparr>ei_pages := (ei_pages ei)[entity_page i := Some (records(entity_offset i := r))]\<rparr>)))"

definition rec_set_dense :: "ecs_entity_index \<Rightarrow> u64 \<Rightarrow> nat \<Rightarrow> ecs_entity_index res" where
  "rec_set_dense ei i d = res_bind (rec_get ei i) (\<lambda>r. rec_set ei i (r\<lparr>r_dense := d\<rparr>))"

definition dense_get :: "ecs_entity_index \<Rightarrow> nat \<Rightarrow> u64 res" where
  "dense_get ei d = mem_get (ei_dense ei) d"

definition dense_put :: "ecs_entity_index \<Rightarrow> nat \<Rightarrow> u64 \<Rightarrow> ecs_entity_index res" where
  "dense_put ei d v = res_bind (mem_set (ei_dense ei) d v) (\<lambda>xs. Inr (ei\<lparr>ei_dense := xs\<rparr>))"

text \<open>ecs\_vec\_set\_count on a vector of ids.\<close>

definition set_id_count :: "nat \<Rightarrow> u64 list \<Rightarrow> u64 list" where
  "set_id_count n xs = take n xs @ replicate (n - length xs) uninit_u64"

section \<open>Operations\<close>

text \<open>The index lives in zeroed memory; max\_id is not initialised by the function.\<close>

definition flecs_entity_index_init :: ecs_entity_index where
  "flecs_entity_index_init = \<lparr>ei_dense = set_id_count 1 [], ei_pages = [], ei_ranges = [], ei_heap = [],
     ei_active = None, ei_alive = 1, ei_max = 0\<rparr>"

definition flecs_entity_index_fini :: "ecs_entity_index \<Rightarrow> ecs_entity_index" where
  "flecs_entity_index_fini ei = ei\<lparr>ei_dense := [], ei_pages := [], ei_ranges := [], ei_heap := []\<rparr>"

definition flecs_entity_index_get_any :: "ecs_entity_index \<Rightarrow> u64 \<Rightarrow> ecs_record res" where
  "flecs_entity_index_get_any ei entity =
     ecs_assert (entity_page entity < length (ei_pages ei)) ECS_OUT_OF_RANGE
     (res_bind (rec_get ei entity) (\<lambda>r.
      ecs_assert (r_dense r \<noteq> 0) ECS_INVALID_PARAMETER (Inr r)))"

definition flecs_entity_index_get :: "ecs_entity_index \<Rightarrow> u64 \<Rightarrow> ecs_record res" where
  "flecs_entity_index_get ei entity =
     res_bind (flecs_entity_index_get_any ei entity) (\<lambda>r.
     ecs_assert (r_dense r < ei_alive ei) ECS_INVALID_PARAMETER
     (res_bind (dense_get ei (r_dense r)) (\<lambda>e.
      ecs_assert (e = entity) ECS_INVALID_PARAMETER (Inr r))))"

definition flecs_entity_index_try_get_any :: "ecs_entity_index \<Rightarrow> u64 \<Rightarrow> ecs_record option res" where
  "flecs_entity_index_try_get_any ei entity =
     (if entity_page entity \<ge> length (ei_pages ei) then Inr None
      else case ei_pages ei ! entity_page entity of
        None \<Rightarrow> Inr None
      | Some records \<Rightarrow>
          let r = records (entity_offset entity)
          in if r_dense r = 0 then Inr None else Inr (Some r))"

definition flecs_entity_index_try_get :: "ecs_entity_index \<Rightarrow> u64 \<Rightarrow> ecs_record option res" where
  "flecs_entity_index_try_get ei entity =
     res_bind (flecs_entity_index_try_get_any ei entity) (\<lambda>r.
     case r of
       None \<Rightarrow> Inr None
     | Some rec \<Rightarrow>
         if r_dense rec \<ge> ei_alive ei then Inr None
         else res_bind (dense_get ei (r_dense rec)) (\<lambda>e.
              if e \<noteq> entity then Inr None else Inr r))"

definition flecs_entity_index_is_alive :: "ecs_entity_index \<Rightarrow> u64 \<Rightarrow> bool res" where
  "flecs_entity_index_is_alive ei entity =
     res_bind (flecs_entity_index_try_get ei entity) (\<lambda>r. Inr (r \<noteq> None))"

definition flecs_entity_index_ensure :: "ecs_entity_index \<Rightarrow> u64 \<Rightarrow> ecs_entity_index res" where
  "flecs_entity_index_ensure ei entity =
     res_bind (flecs_entity_index_ensure_page ei entity) (\<lambda>ei.
     res_bind (rec_get ei entity) (\<lambda>r.
     let dense = r_dense r in
     if dense \<noteq> 0 \<and> dense < ei_alive ei then
       res_bind (dense_get ei dense) (\<lambda>e.
       ecs_assert (e = entity) ECS_INTERNAL_ERROR (Inr ei))
     else
       res_bind (if dense \<noteq> 0 then Inr (ei, dense)
                 else
                   let uid = (ucast entity :: u32);
                       ei = ei\<lparr>ei_dense := ei_dense ei @ [entity]\<rparr>;
                       dense = length (ei_dense ei) - 1
                   in res_bind (rec_set_dense ei entity dense) (\<lambda>ei.
                      Inr (ei\<lparr>ei_max := (if uid > ei_max ei then uid else ei_max ei)\<rparr>, dense)))
         (\<lambda>(ei, dense).
       ecs_assert (dense \<noteq> 0) ECS_INTERNAL_ERROR
       (res_bind (dense_get ei (ei_alive ei)) (\<lambda>e_swap.
        res_bind (flecs_entity_index_get_any ei e_swap) (\<lambda>r_swap.
        ecs_assert (r_dense r_swap = ei_alive ei) ECS_INTERNAL_ERROR
        (res_bind (rec_set_dense ei e_swap dense) (\<lambda>ei.
         res_bind (rec_set_dense ei entity (ei_alive ei)) (\<lambda>ei.
         res_bind (dense_put ei dense e_swap) (\<lambda>ei.
         res_bind (dense_put ei (ei_alive ei) entity) (\<lambda>ei.
         let ei = ei\<lparr>ei_alive := ei_alive ei + 1\<rparr> in
         res_bind (flecs_entity_index_is_alive ei entity) (\<lambda>alive.
         ecs_assert alive ECS_INTERNAL_ERROR (Inr ei)))))))))))))"

text \<open>The record of the id that is taken out is that of \<open>entity\<close>.\<close>

definition flecs_entity_index_remove_not_alive :: "ecs_entity_index \<Rightarrow> u64 \<Rightarrow> ecs_entity_index res" where
  "flecs_entity_index_remove_not_alive ei entity =
     (let not_alive = ei_alive ei in
      if length (ei_dense ei) = 0 then Inl INT_RANGE
      else
        let last = length (ei_dense ei) - 1 in
        res_bind (if not_alive \<noteq> last then
                    res_bind (dense_get ei last) (\<lambda>e_last.
                    res_bind (flecs_entity_index_get_any ei e_last) (\<lambda>_.
                    res_bind (rec_set_dense ei e_last not_alive) (\<lambda>ei.
                    dense_put ei not_alive e_last)))
                  else Inr ei) (\<lambda>ei.
        rec_set_dense (ei\<lparr>ei_dense := set_id_count last (ei_dense ei)\<rparr>) entity 0))"

text \<open>
  The binary search over the ranges. Its int32\_t \<open>hi\<close> can become -1; \<open>(lo + hi) / 2\<close> is only
  computed for \<open>0 <= lo <= hi\<close>, where the truncating division agrees with div.
\<close>

function find_range_loop :: "ecs_entity_index \<Rightarrow> u32 \<Rightarrow> int \<Rightarrow> int \<Rightarrow> nat option res" where
  "find_range_loop ei uid lo hi =
     (if lo \<le> hi then
        let mid = (lo + hi) div 2 in
        res_bind (int_index mid) (\<lambda>m.
        res_bind (mem_get (ei_ranges ei) m) (\<lambda>p.
        res_bind (mem_get (ei_heap ei) p) (\<lambda>r.
        if uid < rg_min r then find_range_loop ei uid lo (mid - 1)
        else if rg_max r \<noteq> 0 \<and> uid > rg_max r then find_range_loop ei uid (mid + 1) hi
        else Inr (Some p))))
      else Inr None)"
  by pat_completeness auto

termination find_range_loop
  by (relation "measure (\<lambda>(ei, uid, lo, hi). nat (hi - lo + 1))") auto

declare find_range_loop.simps [simp del]

definition flecs_entity_index_find_range :: "ecs_entity_index \<Rightarrow> u32 \<Rightarrow> nat option res" where
  "flecs_entity_index_find_range ei uid =
     (let count = length (ei_ranges ei) in
      if count = 0 then Inr None else find_range_loop ei uid 0 (int count - 1))"

text \<open>The result is false when the entity was not alive.\<close>

definition flecs_entity_index_remove_intern :: "ecs_entity_index \<Rightarrow> u64 \<Rightarrow> (ecs_entity_index \<times> bool) res" where
  "flecs_entity_index_remove_intern ei entity =
     res_bind (flecs_entity_index_try_get ei entity) (\<lambda>r.
     case r of
       None \<Rightarrow> Inr (ei, False)
     | Some r \<Rightarrow>
         if ei_alive ei = 0 then Inl INT_RANGE
         else
           let dense = r_dense r;
               i_swap = ei_alive ei - 1;
               ei = ei\<lparr>ei_alive := i_swap\<rparr>
           in
           res_bind (dense_get ei i_swap) (\<lambda>e_swap.
           res_bind (flecs_entity_index_get_any ei e_swap) (\<lambda>r_swap.
           ecs_assert (r_dense r_swap = i_swap) ECS_INTERNAL_ERROR
           (res_bind (rec_set_dense ei e_swap dense) (\<lambda>ei.
            res_bind (rec_get ei entity) (\<lambda>r.
            res_bind (rec_set ei entity (r\<lparr>r_table := None, r_row := 0, r_dense := i_swap\<rparr>)) (\<lambda>ei.
            res_bind (dense_put ei dense e_swap) (\<lambda>ei.
            res_bind (dense_put ei i_swap (ECS_GENERATION_INC entity)) (\<lambda>ei.
            res_bind (flecs_entity_index_is_alive ei entity) (\<lambda>alive.
            ecs_assert (\<not> alive) ECS_INTERNAL_ERROR (Inr (ei, True))))))))))))"

text \<open>An assignment to fields of a range through its pointer.\<close>

definition range_update ::
    "ecs_entity_index \<Rightarrow> nat \<Rightarrow> (entity_range \<Rightarrow> entity_range) \<Rightarrow> ecs_entity_index res" where
  "range_update ei p f =
     res_bind (mem_get (ei_heap ei) p) (\<lambda>rg. Inr (ei\<lparr>ei_heap := (ei_heap ei)[p := f rg]\<rparr>))"

definition flecs_entity_index_remove :: "ecs_entity_index \<Rightarrow> u64 \<Rightarrow> ecs_entity_index res" where
  "flecs_entity_index_remove ei entity =
     res_bind (flecs_entity_index_remove_intern ei entity) (\<lambda>(ei, removed).
     if \<not> removed then Inr ei
     else case ei_active ei of
       None \<Rightarrow> Inr ei
     | Some p \<Rightarrow>
         res_bind (mem_get (ei_heap ei) p) (\<lambda>active.
         let uid = (ucast entity :: u32) in
         if uid \<ge> rg_min active \<and> (rg_max active = 0 \<or> uid \<le> rg_max active) then Inr ei
         else
           res_bind (flecs_entity_index_remove_not_alive ei entity) (\<lambda>ei.
           res_bind (flecs_entity_index_find_range ei uid) (\<lambda>rng.
           case rng of
             None \<Rightarrow> Inr ei
           | Some q \<Rightarrow>
               range_update ei q (\<lambda>rg. rg\<lparr>rg_recycled := rg_recycled rg @ [ECS_GENERATION_INC entity]\<rparr>)))))"

text \<open>The loop that resets the records of the ids that leave the not-alive section.\<close>

definition clear_slot :: "ecs_entity_index \<Rightarrow> u64 \<Rightarrow> ecs_entity_index res" where
  "clear_slot ei i =
     (if entity_page i < length (ei_pages ei)
      then case ei_pages ei ! entity_page i of
             None \<Rightarrow> Inr ei
           | Some _ \<Rightarrow> rec_set_dense ei i 0
      else Inr ei)"

text \<open>The loop that pairs the recycled ids of the new range, from position \<open>d\<close> on.\<close>

fun load_slots :: "ecs_entity_index \<Rightarrow> nat \<Rightarrow> u64 list \<Rightarrow> ecs_entity_index res" where
  "load_slots ei d [] = Inr ei"
| "load_slots ei d (i # is) =
     res_bind (flecs_entity_index_ensure_page ei i) (\<lambda>ei.
     res_bind (rec_set_dense ei i d) (\<lambda>ei.
     res_bind (rec_get ei i) (\<lambda>r.
     ecs_assert (r_table r = None) ECS_INTERNAL_ERROR (load_slots ei (d + 1) is))))"

definition flecs_entity_index_set_range :: "ecs_entity_index \<Rightarrow> nat \<Rightarrow> ecs_entity_index res" where
  "flecs_entity_index_set_range ei rng =
     ecs_assert (rng \<in> set (ei_ranges ei)) ECS_INVALID_PARAMETER
     (let alive_count = ei_alive ei;
          not_alive = drop alive_count (ei_dense ei)
      in
      res_bind (case ei_active ei of
                  None \<Rightarrow> Inr ei
                | Some prev \<Rightarrow> range_update ei prev (\<lambda>rg. rg\<lparr>rg_recycled := not_alive, rg_cur := ei_max ei\<rparr>))
        (\<lambda>ei.
      res_bind (res_fold clear_slot ei not_alive) (\<lambda>ei.
      let ei = ei\<lparr>ei_dense := set_id_count alive_count (ei_dense ei)\<rparr> in
      res_bind (mem_get (ei_heap ei) rng) (\<lambda>rg.
      res_bind (if rg_recycled rg = [] then Inr ei
                else
                  res_bind (load_slots (ei\<lparr>ei_dense := ei_dense ei @ rg_recycled rg\<rparr>) alive_count
                    (rg_recycled rg)) (\<lambda>ei.
                  range_update ei rng (\<lambda>rg. rg\<lparr>rg_recycled := []\<rparr>))) (\<lambda>ei.
      Inr (ei\<lparr>ei_max := rg_cur rg, ei_active := Some rng\<rparr>))))))"

definition flecs_entity_index_make_alive :: "ecs_entity_index \<Rightarrow> u64 \<Rightarrow> ecs_entity_index res" where
  "flecs_entity_index_make_alive ei entity =
     res_bind (flecs_entity_index_try_get_any ei entity) (\<lambda>r.
     case r of None \<Rightarrow> Inr ei | Some r \<Rightarrow> dense_put ei (r_dense r) entity)"

definition flecs_entity_index_get_alive :: "ecs_entity_index \<Rightarrow> u64 \<Rightarrow> u64 res" where
  "flecs_entity_index_get_alive ei entity =
     res_bind (flecs_entity_index_try_get_any ei entity) (\<lambda>r.
     case r of
       None \<Rightarrow> Inr 0
     | Some r \<Rightarrow> if r_dense r < ei_alive ei then dense_get ei (r_dense r) else Inr 0)"

definition flecs_entity_index_is_valid :: "ecs_entity_index \<Rightarrow> u64 \<Rightarrow> bool res" where
  "flecs_entity_index_is_valid ei entity =
     res_bind (flecs_entity_index_try_get_any ei (take_bit 32 entity)) (\<lambda>r.
     case r of
       None \<Rightarrow> Inr True
     | Some r \<Rightarrow> if r_dense r = 0 then Inr True else Inr (r_dense r < ei_alive ei))"

definition flecs_entity_index_exists :: "ecs_entity_index \<Rightarrow> u64 \<Rightarrow> bool res" where
  "flecs_entity_index_exists ei entity =
     res_bind (flecs_entity_index_try_get_any ei entity) (\<lambda>r. Inr (r \<noteq> None))"

definition flecs_entity_index_new_id :: "ecs_entity_index \<Rightarrow> (ecs_entity_index \<times> u64) res" where
  "flecs_entity_index_new_id ei =
     (if ei_alive ei \<noteq> length (ei_dense ei) then
        res_bind (dense_get ei (ei_alive ei)) (\<lambda>e. Inr (ei\<lparr>ei_alive := ei_alive ei + 1\<rparr>, e))
      else
        let ei = ei\<lparr>ei_max := ei_max ei + 1\<rparr>;
            id = (ucast (ei_max ei) :: u64)
        in
        ecs_assert (unat (ei_max ei) \<le> 2 ^ 32 - 1) ECS_INVALID_OPERATION
        (res_bind (flecs_entity_index_exists ei id) (\<lambda>exists.
         ecs_assert (\<not> exists) ECS_INVALID_OPERATION
         (let ei = ei\<lparr>ei_dense := ei_dense ei @ [id]\<rparr> in
          res_bind (flecs_entity_index_ensure_page ei id) (\<lambda>ei.
          res_bind (rec_set_dense ei id (ei_alive ei)) (\<lambda>ei.
          let ei = ei\<lparr>ei_alive := ei_alive ei + 1\<rparr> in
          ecs_assert (ei_alive ei = length (ei_dense ei)) ECS_INTERNAL_ERROR
            (Inr (ei, id))))))))"

text \<open>The loop of the bulk operation: \<open>n\<close> fresh ids from position \<open>dense\<close> on.\<close>

fun new_ids_loop :: "ecs_entity_index \<Rightarrow> nat \<Rightarrow> nat \<Rightarrow> ecs_entity_index res" where
  "new_ids_loop ei dense 0 = Inr ei"
| "new_ids_loop ei dense (Suc n) =
     (let ei = ei\<lparr>ei_max := ei_max ei + 1\<rparr>;
          id = (ucast (ei_max ei) :: u64)
      in
      ecs_assert (unat (ei_max ei) \<le> 2 ^ 32 - 1) ECS_INVALID_OPERATION
      (res_bind (flecs_entity_index_exists ei id) (\<lambda>exists.
       ecs_assert (\<not> exists) ECS_INVALID_OPERATION
       (res_bind (dense_put ei dense id) (\<lambda>ei.
        res_bind (flecs_entity_index_ensure_page ei id) (\<lambda>ei.
        res_bind (rec_set_dense ei id dense) (\<lambda>ei.
        new_ids_loop ei (dense + 1) n)))))))"

text \<open>The returned pointer: the position of the first of the ids in the dense array.\<close>

definition flecs_entity_index_new_ids :: "ecs_entity_index \<Rightarrow> nat \<Rightarrow> (ecs_entity_index \<times> nat) res" where
  "flecs_entity_index_new_ids ei n =
     (let alive_count = ei_alive ei;
          new_count = alive_count + n;
          dense_count = length (ei_dense ei)
      in
      if new_count < dense_count then Inr (ei\<lparr>ei_alive := new_count\<rparr>, alive_count)
      else
        res_bind (new_ids_loop (ei\<lparr>ei_dense := set_id_count new_count (ei_dense ei)\<rparr>) dense_count
          (new_count - dense_count)) (\<lambda>ei.
        ecs_assert (alive_count < length (ei_dense ei)) ECS_OUT_OF_RANGE
        (Inr (ei\<lparr>ei_alive := new_count\<rparr>, alive_count))))"

definition flecs_entity_index_count :: "ecs_entity_index \<Rightarrow> int" where
  "flecs_entity_index_count ei = int (ei_alive ei) - 1"

definition flecs_entity_index_size :: "ecs_entity_index \<Rightarrow> int" where
  "flecs_entity_index_size ei = int (length (ei_dense ei)) - 1"

definition flecs_entity_index_not_alive_count :: "ecs_entity_index \<Rightarrow> int" where
  "flecs_entity_index_not_alive_count ei = int (length (ei_dense ei)) - int (ei_alive ei)"

definition flecs_entity_index_clear :: "ecs_entity_index \<Rightarrow> ecs_entity_index" where
  "flecs_entity_index_clear ei =
     ei\<lparr>ei_pages := map (\<lambda>page. case page of None \<Rightarrow> None | Some _ \<Rightarrow> Some (\<lambda>_. zero_record)) (ei_pages ei),
        ei_dense := set_id_count 1 (ei_dense ei), ei_alive := 1, ei_max := 0\<rparr>"

text \<open>Whether the page has an alive entity, searched from the given offsets.\<close>

fun entity_page_alive :: "ecs_entity_index \<Rightarrow> nat \<Rightarrow> entity_page \<Rightarrow> nat list \<Rightarrow> bool res" where
  "entity_page_alive ei i records [] = Inr False"
| "entity_page_alive ei i records (e # es) =
     (let entity = (word_of_nat (i * FLECS_ENTITY_PAGE_SIZE + e) :: u64) in
      if r_dense (records e) \<noteq> 0 then
        res_bind (flecs_entity_index_get_any ei entity) (\<lambda>_.
        res_bind (flecs_entity_index_is_alive ei entity) (\<lambda>alive.
        if alive then Inr True else entity_page_alive ei i records es))
      else entity_page_alive ei i records es)"

definition shrink_entity_page :: "ecs_entity_index \<times> nat \<Rightarrow> nat \<Rightarrow> (ecs_entity_index \<times> nat) res" where
  "shrink_entity_page = (\<lambda>(ei, max_page_index) i.
     res_bind (mem_get (ei_pages ei) i) (\<lambda>page.
     case page of
       None \<Rightarrow> Inr (ei, max_page_index)
     | Some records \<Rightarrow>
         res_bind (entity_page_alive ei i records [0..<FLECS_ENTITY_PAGE_SIZE]) (\<lambda>has_alive.
         if \<not> has_alive then Inr (ei\<lparr>ei_pages := (ei_pages ei)[i := None]\<rparr>, max_page_index)
         else Inr (ei, i))))"

text \<open>
  A page vector that grows by the final set\_count (max\_page\_index + 1 is 1 even when there was
  no page) gets uninitialised pointers, which reading as null does not model; the code only
  shrinks an index that has a page.
\<close>

definition flecs_entity_index_shrink :: "ecs_entity_index \<Rightarrow> ecs_entity_index res" where
  "flecs_entity_index_shrink ei =
     (let ei = ei\<lparr>ei_dense := set_id_count (ei_alive ei) (ei_dense ei)\<rparr> in
      res_bind (res_fold shrink_entity_page (ei, 0) [0..<length (ei_pages ei)]) (\<lambda>(ei, max_page_index).
      if length (ei_pages ei) < max_page_index + 1 then Inl MEMORY_FAULT
      else Inr (ei\<lparr>ei_pages := take (max_page_index + 1) (ei_pages ei)\<rparr>)))"

definition flecs_entity_index_ids :: "ecs_entity_index \<Rightarrow> u64 list res" where
  "flecs_entity_index_ids ei =
     ecs_assert (1 < length (ei_dense ei)) ECS_OUT_OF_RANGE (Inr (drop 1 (ei_dense ei)))"

section \<open>Ids for the world, and id ranges\<close>

text \<open>entity.c: issuing an id checks the end of the active range.\<close>

definition flecs_new_id :: "ecs_entity_index \<Rightarrow> (ecs_entity_index \<times> u64) res" where
  "flecs_new_id ei =
     res_bind (flecs_entity_index_new_id ei) (\<lambda>(ei, entity).
     case ei_active ei of
       None \<Rightarrow> Inr (ei, entity)
     | Some p \<Rightarrow>
         res_bind (mem_get (ei_heap ei) p) (\<lambda>rg.
         ecs_assert (rg_max rg = 0 \<or> (ucast entity :: u32) \<le> rg_max rg) ECS_OUT_OF_RANGE
           (Inr (ei, entity))))"

definition ranges_overlap :: "u32 \<Rightarrow> u32 \<Rightarrow> entity_range \<Rightarrow> bool" where
  "ranges_overlap mn mx existing =
     (if rg_max existing = 0 \<and> mx = 0 then True
      else if rg_max existing = 0 then mx \<ge> rg_min existing
      else if mx = 0 then mn \<le> rg_max existing
      else mn \<le> rg_max existing \<and> mx \<ge> rg_min existing)"

text \<open>The insertion into the vector sorted by \<open>rg_min\<close>: the new pointer moves down from the end.\<close>

definition insert_range :: "(nat \<Rightarrow> u32) \<Rightarrow> u32 \<Rightarrow> nat \<Rightarrow> nat list \<Rightarrow> nat list" where
  "insert_range key mn p rs =
     (let (after, before) = (takeWhile (\<lambda>q. \<not> key q \<le> mn) (rev rs), dropWhile (\<lambda>q. \<not> key q \<le> mn) (rev rs))
      in rev before @ p # rev after)"

fun check_overlaps :: "ecs_entity_index \<Rightarrow> u32 \<Rightarrow> u32 \<Rightarrow> nat list \<Rightarrow> unit res" where
  "check_overlaps ei mn mx [] = Inr ()"
| "check_overlaps ei mn mx (p # ps) =
     res_bind (mem_get (ei_heap ei) p) (\<lambda>existing.
     ecs_assert (\<not> ranges_overlap mn mx existing) ECS_INVALID_PARAMETER
       (check_overlaps ei mn mx ps))"

text \<open>
  ecs\_entity\_range\_new calls itself once, for the default range [1, mn); \<open>range_new1\<close> is the
  part after that call, with the number of ranges from before it in \<open>first_range\<close>.
\<close>

definition range_new1 :: "ecs_entity_index \<Rightarrow> bool \<Rightarrow> u32 \<Rightarrow> u32 \<Rightarrow> (ecs_entity_index \<times> nat) res" where
  "range_new1 ei first_range mn mx =
     res_bind (check_overlaps ei mn mx (ei_ranges ei)) (\<lambda>_.
     let rng = length (ei_heap ei);
         ei = ei\<lparr>ei_heap := ei_heap ei @ [\<lparr>rg_min = mn, rg_max = mx, rg_cur = mn - 1, rg_recycled = []\<rparr>]\<rparr>;
         ei = ei\<lparr>ei_ranges := insert_range (\<lambda>q. rg_min (ei_heap ei ! q)) mn rng (ei_ranges ei)\<rparr>
     in
     if first_range \<and> mn = 1 then
       res_bind (range_update ei rng (\<lambda>rg. rg\<lparr>rg_cur := ei_max ei\<rparr>)) (\<lambda>ei.
       res_bind (flecs_entity_index_set_range ei rng) (\<lambda>ei. Inr (ei, rng)))
     else Inr (ei, rng))"

definition range_checks :: "ecs_entity_index \<Rightarrow> u32 \<Rightarrow> u32 \<Rightarrow> 'a res \<Rightarrow> 'a res" where
  "range_checks ei mn mx k =
     ecs_assert (mn > 0) ECS_INVALID_PARAMETER
     (ecs_assert (mx = 0 \<or> mx \<ge> mn) ECS_INVALID_PARAMETER
     (ecs_assert (flecs_entity_index_not_alive_count ei = 0) ECS_INVALID_OPERATION
     (ecs_assert (\<not> (ei_ranges ei = [] \<and> mn = 1) \<or> mx = 0 \<or> mx \<ge> ei_max ei) ECS_INVALID_OPERATION k)))"

definition ecs_entity_range_new :: "ecs_entity_index \<Rightarrow> u32 \<Rightarrow> u32 \<Rightarrow> (ecs_entity_index \<times> nat) res" where
  "ecs_entity_range_new ei mn mx =
     range_checks ei mn mx
     (let first_range = (ei_ranges ei = []) in
      res_bind (if first_range \<and> mn > 1 then
                  range_checks ei 1 (mn - 1)
                  (res_bind (range_new1 ei True 1 (mn - 1)) (\<lambda>(ei, default_range).
                   res_bind (range_update ei default_range (\<lambda>rg. rg\<lparr>rg_cur := ei_max ei\<rparr>)) (\<lambda>ei.
                   flecs_entity_index_set_range ei default_range)))
                else Inr ei) (\<lambda>ei.
      range_new1 ei first_range mn mx))"

definition ecs_entity_range_set :: "ecs_entity_index \<Rightarrow> nat \<Rightarrow> ecs_entity_index res" where
  "ecs_entity_range_set ei rng = flecs_entity_index_set_range ei rng"

definition ecs_entity_range_get :: "ecs_entity_index \<Rightarrow> nat option" where
  "ecs_entity_range_get ei = ei_active ei"

section \<open>What the pages hold\<close>

definition ehas :: "entity_page option list \<Rightarrow> nat \<Rightarrow> bool" where
  "ehas ps n \<longleftrightarrow> n div 1024 < length ps \<and> ps ! (n div 1024) \<noteq> None"

definition erec :: "entity_page option list \<Rightarrow> nat \<Rightarrow> ecs_record" where
  "erec ps n = (if ehas ps n then the (ps ! (n div 1024)) (n mod 1024) else zero_record)"

abbreviation eslot :: "entity_page option list \<Rightarrow> nat \<Rightarrow> nat" where
  "eslot ps n \<equiv> r_dense (erec ps n)"

definition pgrow :: "entity_page option list \<Rightarrow> nat \<Rightarrow> entity_page option list" where
  "pgrow ps n =
     (let ps = ps @ replicate (n div 1024 + 1 - length ps) None
      in if ps ! (n div 1024) = None then ps[n div 1024 := Some (\<lambda>_. zero_record)] else ps)"

definition pset :: "entity_page option list \<Rightarrow> nat \<Rightarrow> ecs_record \<Rightarrow> entity_page option list" where
  "pset ps n r = ps[n div 1024 := map_option (\<lambda>records. records(n mod 1024 := r)) (ps ! (n div 1024))]"

abbreviation pslot_set :: "entity_page option list \<Rightarrow> nat \<Rightarrow> nat \<Rightarrow> entity_page option list" where
  "pslot_set ps n d \<equiv> pset ps n ((erec ps n)\<lparr>r_dense := d\<rparr>)"

lemma entity_page_offset:
  "entity_page i = low_index i div 1024" "entity_offset i = low_index i mod 1024"
  by (simp_all add: entity_page_def entity_offset_def page_of_index offset_of_index)

lemma same_entity_index: "n div 1024 = m div 1024 \<Longrightarrow> n mod 1024 = m mod 1024 \<Longrightarrow> n = (m::nat)"
  by (metis div_mult_mod_eq)

lemma r_dense_zero_record [simp]: "r_dense zero_record = 0" "r_table zero_record = None"
  by (simp_all add: zero_record_def)

lemma eslot_ehas: "eslot ps n \<noteq> 0 \<Longrightarrow> ehas ps n"
  by (auto simp: erec_def split: if_splits)

lemma ehas_pgrow [simp]: "ehas (pgrow ps n) m \<longleftrightarrow> ehas ps m \<or> m div 1024 = n div 1024"
  unfolding ehas_def pgrow_def Let_def by (auto simp: nth_append nth_list_update)

lemma erec_pgrow [simp]: "erec (pgrow ps n) = erec ps"
proof
  fix m
  consider "m div 1024 = n div 1024" | "m div 1024 \<noteq> n div 1024" by blast
  then show "erec (pgrow ps n) m = erec ps m"
    by cases (auto simp: erec_def ehas_def pgrow_def Let_def nth_append nth_list_update)
qed

lemma ehas_pset [simp]: "ehas (pset ps n r) m = ehas ps m"
  by (cases "m div 1024 = n div 1024") (auto simp: ehas_def pset_def)

lemma erec_pset [simp]: "ehas ps n \<Longrightarrow> erec (pset ps n r) = (erec ps)(n := r)"
proof
  fix m
  assume n: "ehas ps n"
  show "erec (pset ps n r) m = ((erec ps)(n := r)) m"
  proof (cases "m div 1024 = n div 1024")
    case True
    then show ?thesis
      using n same_entity_index[of m n]
      by (auto simp: erec_def ehas_def pset_def)
  next
    case False
    then show ?thesis
      using n by (auto simp: erec_def ehas_def pset_def)
  qed
qed

lemma ensure_page_eq:
  "flecs_entity_index_ensure_page ei i = Inr (ei\<lparr>ei_pages := pgrow (ei_pages ei) (low_index i)\<rparr>)"
  by (auto simp: flecs_entity_index_ensure_page_def Let_def entity_page_offset pgrow_def mem_get_def
      split: option.splits)

lemma rec_get_eq: "ehas (ei_pages ei) (low_index i) \<Longrightarrow> rec_get ei i = Inr (erec (ei_pages ei) (low_index i))"
  by (auto simp: rec_get_def ehas_def erec_def mem_get_def deref_def entity_page_offset split: option.splits)

lemma rec_set_eq:
  "ehas (ei_pages ei) (low_index i) \<Longrightarrow> rec_set ei i r = Inr (ei\<lparr>ei_pages := pset (ei_pages ei) (low_index i) r\<rparr>)"
  by (auto simp: rec_set_def ehas_def pset_def mem_get_def deref_def entity_page_offset split: option.splits)

lemma rec_set_dense_eq:
  "ehas (ei_pages ei) (low_index i) \<Longrightarrow>
    rec_set_dense ei i d = Inr (ei\<lparr>ei_pages := pslot_set (ei_pages ei) (low_index i) d\<rparr>)"
  by (simp add: rec_set_dense_def rec_get_eq rec_set_eq)

lemma try_get_any_eq:
  "flecs_entity_index_try_get_any ei e =
     Inr (if eslot (ei_pages ei) (low_index e) = 0 then None else Some (erec (ei_pages ei) (low_index e)))"
  by (auto simp: flecs_entity_index_try_get_any_def erec_def ehas_def entity_page_offset Let_def
      split: option.splits)

lemma get_any_eq:
  "eslot (ei_pages ei) (low_index e) \<noteq> 0 \<Longrightarrow>
    flecs_entity_index_get_any ei e = Inr (erec (ei_pages ei) (low_index e))"
  using eslot_ehas[of "ei_pages ei" "low_index e"]
  by (simp add: flecs_entity_index_get_any_def rec_get_eq) (simp add: ehas_def entity_page_offset)

lemma dense_get_eq: "d < length (ei_dense ei) \<Longrightarrow> dense_get ei d = Inr (ei_dense ei ! d)"
  by (simp add: dense_get_def mem_get_def)

lemma dense_put_eq: "d < length (ei_dense ei) \<Longrightarrow> dense_put ei d v = Inr (ei\<lparr>ei_dense := (ei_dense ei)[d := v]\<rparr>)"
  by (simp add: dense_put_def mem_set_def)

lemma low_index_ucast: "low_index (ucast (w :: u32)) = unat w"
proof -
  have "unat w < 2 ^ LENGTH(32)" by (rule unsigned_less)
  then have w: "unat w < 2 ^ 32" by simp
  then have "unat (ucast w :: u64) = unat w" by (simp add: unsigned_ucast_eq take_bit_nat_eq_self)
  with w show ?thesis by (simp add: low_index_small)
qed

section \<open>Invariant and abstraction\<close>

definition ei_wf :: "ecs_entity_index \<Rightarrow> bool" where
  "ei_wf ei \<longleftrightarrow> 0 < ei_alive ei \<and> ei_alive ei \<le> length (ei_dense ei)
     \<and> pairing (eslot (ei_pages ei)) (ei_dense ei)"

record entity_spec =
  es_alive :: "nat \<Rightarrow> u64 option"
  es_dead :: "u64 list"
  es_top :: u32

definition alive_map :: "(nat \<Rightarrow> nat) \<Rightarrow> u64 list \<Rightarrow> nat \<Rightarrow> nat \<Rightarrow> u64 option" where
  "alive_map s ds c n = (if alive_at s c n then Some (ds ! s n) else None)"

definition ei_abs :: "ecs_entity_index \<Rightarrow> entity_spec" where
  "ei_abs ei = \<lparr>es_alive = alive_map (eslot (ei_pages ei)) (ei_dense ei) (ei_alive ei),
     es_dead = drop (ei_alive ei) (ei_dense ei), es_top = ei_max ei\<rparr>"

definition es_seen :: "entity_spec \<Rightarrow> nat \<Rightarrow> bool" where
  "es_seen es n \<longleftrightarrow> es_alive es n \<noteq> None \<or> n \<in> low_index ` set (es_dead es)"

lemma ei_wfD:
  assumes "ei_wf ei"
  shows "0 < ei_alive ei" "ei_alive ei \<le> length (ei_dense ei)" "pairing (eslot (ei_pages ei)) (ei_dense ei)"
  using assms by (simp_all add: ei_wf_def)

lemma dead_low:
  assumes "pairing s ds" "0 < c" "c \<le> length ds"
  shows "n \<in> low_index ` set (drop c ds) \<longleftrightarrow> c \<le> s n"
proof
  assume "n \<in> low_index ` set (drop c ds)"
  then obtain j where "j < length ds - c" "n = low_index (ds ! (c + j))"
    by (auto simp: in_set_conv_nth)
  then show "c \<le> s n"
    using pairing_dense[OF assms(1), of "c + j"] assms(2) by simp
next
  assume a: "c \<le> s n"
  then have "s n < length ds" "low_index (ds ! s n) = n"
    using pairing_slot[OF assms(1), of n] assms(2) by simp_all
  then show "n \<in> low_index ` set (drop c ds)"
    using a by (intro image_eqI[of _ _ "drop c ds ! (s n - c)"] nth_mem) simp_all
qed

lemma seen_slot: "ei_wf ei \<Longrightarrow> es_seen (ei_abs ei) n \<longleftrightarrow> eslot (ei_pages ei) n \<noteq> 0"
  using dead_low[of "eslot (ei_pages ei)" "ei_dense ei" "ei_alive ei" n]
  by (auto simp: es_seen_def ei_abs_def ei_wf_def alive_map_def alive_at_def)

text \<open>
  The exchange that ends both ensure and remove: the id at position \<open>a\<close> goes to position \<open>b\<close>,
  relabelled to \<open>x\<close>, and the id at \<open>b\<close> takes its place.
\<close>

lemma pairing_exchange:
  assumes p: "pairing s ds" and a: "0 < a" "a < length ds" and b: "0 < b" "b < length ds"
    and x: "low_index x = low_index (ds ! a)"
  shows "pairing (s(low_index (ds ! b) := a, low_index x := b)) (ds[a := ds ! b, b := x])"
proof -
  have "pairing (s(low_index (ds ! b) := a, low_index (ds ! a) := b)) (ds[a := ds ! b, b := ds ! a])"
    by (rule pairing_swap[OF p b a])
  from pairing_relabel[OF this, of b x] show ?thesis
    using b x by simp
qed

lemma alive_map_in:
  assumes p: "pairing s ds" and a: "c \<le> a" "a < length ds" "0 < c" and x: "low_index x = low_index (ds ! a)"
  shows "alive_map (s(low_index (ds ! c) := a, low_index x := c)) (ds[a := ds ! c, c := x]) (c + 1)
    = (alive_map s ds c)(low_index x \<mapsto> x)"
proof
  fix m
  have sc: "s m = c \<longleftrightarrow> low_index (ds ! c) = m"
    using pairing_slot_iff[OF p, of c m] a by simp
  show "alive_map (s(low_index (ds ! c) := a, low_index x := c)) (ds[a := ds ! c, c := x]) (c + 1) m
    = ((alive_map s ds c)(low_index x \<mapsto> x)) m"
  proof (cases "m = low_index x")
    case True
    then show ?thesis using a by (simp add: alive_map_def alive_at_def)
  next
    case m: False
    show ?thesis
    proof (cases "m = low_index (ds ! c)")
      case True
      then have "s m = c" using sc by simp
      moreover have "c < a" using True m x a(1) by (cases "a = c") auto
      ultimately show ?thesis using m True by (simp add: alive_map_def alive_at_def)
    next
      case False
      then have "s m \<noteq> c" using sc by auto
      then have "s m < c + 1 \<longleftrightarrow> s m < c" by auto
      then show ?thesis using m False a by (auto simp: alive_map_def alive_at_def)
    qed
  qed
qed

lemma alive_map_out:
  assumes p: "pairing s ds" and c: "c \<le> length ds" and d: "0 < d" "d < c" and x: "low_index x = low_index (ds ! d)"
  shows "alive_map (s(low_index (ds ! (c - 1)) := d, low_index x := c - 1)) (ds[d := ds ! (c - 1), c - 1 := x]) (c - 1)
    = (alive_map s ds c)(low_index x := None)"
proof
  fix m
  define l where "l = c - 1"
  have l: "0 < l" "l < length ds" "c = Suc l" "d \<le> l" using c d by (auto simp: l_def)
  have sc: "s m = l \<longleftrightarrow> low_index (ds ! l) = m" and sd: "s m = d \<longleftrightarrow> low_index (ds ! d) = m"
    using pairing_slot_iff[OF p, of l m] pairing_slot_iff[OF p, of d m] l d by simp_all
  show "alive_map (s(low_index (ds ! (c - 1)) := d, low_index x := c - 1)) (ds[d := ds ! (c - 1), c - 1 := x]) (c - 1) m
    = ((alive_map s ds c)(low_index x := None)) m"
    unfolding l_def[symmetric]
  proof (cases "m = low_index x")
    case True
    then show "alive_map (s(low_index (ds ! l) := d, low_index x := l)) (ds[d := ds ! l, l := x]) l m
      = ((alive_map s ds c)(low_index x := None)) m" by (simp add: alive_map_def alive_at_def)
  next
    case m: False
    then have nd: "s m \<noteq> d" using sd x by auto
    show "alive_map (s(low_index (ds ! l) := d, low_index x := l)) (ds[d := ds ! l, l := x]) l m
      = ((alive_map s ds c)(low_index x := None)) m"
    proof (cases "m = low_index (ds ! l)")
      case True
      then have "s m = l" using sc by simp
      then have "d < l" using nd l by simp
      then show ?thesis using m True \<open>s m = l\<close> l d by (simp add: alive_map_def alive_at_def)
    next
      case False
      then have "s m \<noteq> l" using sc by auto
      then have "s m < c \<longleftrightarrow> s m < l" using l by auto
      then show ?thesis using m False l nd by (simp add: alive_map_def alive_at_def)
    qed
  qed
qed


section \<open>Each operation on the abstraction\<close>

lemma try_get_eq_weak:
  assumes "ei_alive ei \<le> length (ei_dense ei)"
  shows "flecs_entity_index_try_get ei e = Inr (if es_alive (ei_abs ei) (low_index e) = Some e
    then Some (erec (ei_pages ei) (low_index e)) else None)"
  using assms
  by (auto simp: flecs_entity_index_try_get_def try_get_any_eq dense_get_eq ei_abs_def alive_map_def alive_at_def)

lemma is_alive_eq_weak:
  "ei_alive ei \<le> length (ei_dense ei) \<Longrightarrow>
    flecs_entity_index_is_alive ei e = Inr (es_alive (ei_abs ei) (low_index e) = Some e)"
  by (simp add: flecs_entity_index_is_alive_def try_get_eq_weak)

lemma try_get_eq:
  "ei_wf ei \<Longrightarrow> flecs_entity_index_try_get ei e = Inr (if es_alive (ei_abs ei) (low_index e) = Some e
    then Some (erec (ei_pages ei) (low_index e)) else None)"
  by (intro try_get_eq_weak) (simp add: ei_wf_def)

lemma is_alive_eq:
  "ei_wf ei \<Longrightarrow> flecs_entity_index_is_alive ei e = Inr (es_alive (ei_abs ei) (low_index e) = Some e)"
  by (intro is_alive_eq_weak) (simp add: ei_wf_def)

lemma exists_eq:
  "flecs_entity_index_exists ei e = Inr (eslot (ei_pages ei) (low_index e) \<noteq> 0)"
  by (simp add: flecs_entity_index_exists_def try_get_any_eq)

lemma is_valid_eq:
  assumes "ei_wf ei"
  shows "flecs_entity_index_is_valid ei e =
    Inr (es_seen (ei_abs ei) (low_index e) \<longrightarrow> es_alive (ei_abs ei) (low_index e) \<noteq> None)"
  unfolding flecs_entity_index_is_valid_def try_get_any_eq low_index_low seen_slot[OF assms]
  by (simp add: ei_abs_def alive_map_def alive_at_def)

lemma get_alive_eq:
  assumes "ei_wf ei"
  shows "flecs_entity_index_get_alive ei e =
    Inr (case es_alive (ei_abs ei) (low_index e) of None \<Rightarrow> 0 | Some x \<Rightarrow> x)"
  using ei_wfD(2)[OF assms]
  by (simp add: flecs_entity_index_get_alive_def try_get_any_eq ei_abs_def alive_map_def alive_at_def dense_get_eq)

lemma es_alive_low:
  "ei_wf ei \<Longrightarrow> es_alive (ei_abs ei) n = Some x \<Longrightarrow> low_index x = n"
  using pairing_slot[of "eslot (ei_pages ei)" "ei_dense ei" n]
  by (auto simp: ei_abs_def alive_map_def alive_at_def ei_wf_def split: if_splits)

lemma finite_alive:
  assumes "ei_wf ei"
  shows "dom (es_alive (ei_abs ei)) = low_index ` set (tl (take (ei_alive ei) (ei_dense ei)))"
    "card (dom (es_alive (ei_abs ei))) = ei_alive ei - 1"
proof -
  have d: "dom (es_alive (ei_abs ei)) = {n. alive_at (eslot (ei_pages ei)) (ei_alive ei) n}"
    by (auto simp: ei_abs_def alive_map_def split: if_splits)
  show "dom (es_alive (ei_abs ei)) = low_index ` set (tl (take (ei_alive ei) (ei_dense ei)))"
    using alive_at_dense[OF ei_wfD(3,2)[OF assms]] d by simp
  show "card (dom (es_alive (ei_abs ei))) = ei_alive ei - 1"
    using card_alive[OF ei_wfD(3,2)[OF assms]] d by simp
qed

lemma count_eq: "ei_wf ei \<Longrightarrow> flecs_entity_index_count ei = int (card (dom (es_alive (ei_abs ei))))"
  using ei_wfD(1)[of ei] by (simp add: finite_alive(2) flecs_entity_index_count_def)

text \<open>Ensuring an id that is not alive.\<close>

definition es_ensure :: "u64 \<Rightarrow> entity_spec \<Rightarrow> entity_spec res" where
  "es_ensure e es =
     (let n = low_index e in
      case es_alive es n of
        Some x \<Rightarrow> if x = e then Inr es else Inl ECS_INTERNAL_ERROR
      | None \<Rightarrow> Inr (if n \<in> low_index ` set (es_dead es)
          then es\<lparr>es_alive := (es_alive es)(n \<mapsto> e),
            es_dead := tl (map (\<lambda>x. if low_index x = n then hd (es_dead es) else x) (es_dead es))\<rparr>
          else es\<lparr>es_alive := (es_alive es)(n \<mapsto> e), es_dead := rotate1 (es_dead es),
            es_top := max (es_top es) (ucast e)\<rparr>))"

lemma dead_swap_in:
  assumes p: "pairing s ds" and a: "c \<le> a" "a < length ds" "0 < c" and x: "low_index x = low_index (ds ! a)"
  shows "drop (c + 1) (ds[a := ds ! c, c := x])
    = tl (map (\<lambda>y. if low_index y = low_index x then hd (drop c ds) else y) (drop c ds))"
proof (rule nth_equalityI)
  fix j
  assume "j < length (drop (c + 1) (ds[a := ds ! c, c := x]))"
  then have j: "c + 1 + j < length ds" by simp
  then have "low_index (ds ! (c + 1 + j)) = low_index x \<longleftrightarrow> c + 1 + j = a"
    using pairing_eq_iff[OF p, of "c + 1 + j" a] a x by simp
  with j a show "drop (c + 1) (ds[a := ds ! c, c := x]) ! j
      = tl (map (\<lambda>y. if low_index y = low_index x then hd (drop c ds) else y) (drop c ds)) ! j"
    by (simp add: nth_tl hd_drop_conv_nth nth_list_update)
qed (simp add: a)

lemma entity_exchange_in:
  assumes wf: "ei_wf ei" and a: "eslot (ei_pages ei) (low_index e) = a" "ei_alive ei \<le> a"
    and ei': "ei' = ei\<lparr>ei_pages := pslot_set (pslot_set (ei_pages ei) (low_index (ei_dense ei ! ei_alive ei)) a)
        (low_index e) (ei_alive ei),
      ei_dense := (ei_dense ei)[a := ei_dense ei ! ei_alive ei, ei_alive ei := e],
      ei_alive := ei_alive ei + 1\<rparr>"
  shows "ei_wf ei'" "es_alive (ei_abs ei') = (es_alive (ei_abs ei))(low_index e \<mapsto> e)"
    "es_dead (ei_abs ei') = tl (map (\<lambda>y. if low_index y = low_index e then hd (es_dead (ei_abs ei)) else y)
      (es_dead (ei_abs ei)))" "es_top (ei_abs ei') = es_top (ei_abs ei)"
proof -
  note p = ei_wfD[OF wf]
  have a2: "a < length (ei_dense ei)" "low_index (ei_dense ei ! a) = low_index e" "0 < a"
    using pairing_slot[OF p(3), of "low_index e"] a p(1) by auto
  have q: "eslot (ei_pages ei) (low_index (ei_dense ei ! ei_alive ei)) = ei_alive ei"
    using pairing_dense[OF p(3) p(1)] a a2 by simp
  then have h: "ehas (ei_pages ei) (low_index (ei_dense ei ! ei_alive ei))" "ehas (ei_pages ei) (low_index e)"
    using eslot_ehas p(1) a a2 by (metis less_not_refl)+
  have s: "eslot (ei_pages ei') = (eslot (ei_pages ei))(low_index (ei_dense ei ! ei_alive ei) := a, low_index e := ei_alive ei)"
    using h by (simp add: ei' fun_eq_iff)
  show "ei_wf ei'"
    unfolding ei_wf_def s using a a2 p
    by (simp add: ei') (rule pairing_exchange[OF p(3)], simp_all)
  show "es_alive (ei_abs ei') = (es_alive (ei_abs ei))(low_index e \<mapsto> e)"
    using alive_map_in[OF p(3) a(2) a2(1) p(1) a2(2)[symmetric]] unfolding ei_abs_def s by (simp add: ei')
  show "es_dead (ei_abs ei') = tl (map (\<lambda>y. if low_index y = low_index e then hd (es_dead (ei_abs ei)) else y)
      (es_dead (ei_abs ei)))"
    using dead_swap_in[OF p(3) a(2) a2(1) p(1) a2(2)[symmetric]] by (simp add: ei_abs_def ei' cong: map_cong if_cong)
  show "es_top (ei_abs ei') = es_top (ei_abs ei)"
    by (simp add: ei_abs_def ei')
qed


lemma ei_wf_cong: "erec (ei_pages ei') = erec (ei_pages ei) \<Longrightarrow> ei_dense ei' = ei_dense ei \<Longrightarrow>
  ei_alive ei' = ei_alive ei \<Longrightarrow> ei_wf ei' = ei_wf ei"
  by (simp add: ei_wf_def)

lemma ei_abs_cong: "erec (ei_pages ei') = erec (ei_pages ei) \<Longrightarrow> ei_dense ei' = ei_dense ei \<Longrightarrow>
  ei_alive ei' = ei_alive ei \<Longrightarrow> ei_max ei' = ei_max ei \<Longrightarrow> ei_abs ei' = ei_abs ei"
  by (simp add: ei_abs_def)

text \<open>The part of ensure that brings the id at position \<open>a\<close> to life.\<close>

definition ensure_swap :: "u64 \<Rightarrow> ecs_entity_index \<Rightarrow> nat \<Rightarrow> ecs_entity_index res" where
  "ensure_swap entity ei dense =
       ecs_assert (dense \<noteq> 0) ECS_INTERNAL_ERROR
       (res_bind (dense_get ei (ei_alive ei)) (\<lambda>e_swap.
        res_bind (flecs_entity_index_get_any ei e_swap) (\<lambda>r_swap.
        ecs_assert (r_dense r_swap = ei_alive ei) ECS_INTERNAL_ERROR
        (res_bind (rec_set_dense ei e_swap dense) (\<lambda>ei.
         res_bind (rec_set_dense ei entity (ei_alive ei)) (\<lambda>ei.
         res_bind (dense_put ei dense e_swap) (\<lambda>ei.
         res_bind (dense_put ei (ei_alive ei) entity) (\<lambda>ei.
         let ei = ei\<lparr>ei_alive := ei_alive ei + 1\<rparr> in
         res_bind (flecs_entity_index_is_alive ei entity) (\<lambda>alive.
         ecs_assert alive ECS_INTERNAL_ERROR (Inr ei))))))))))"

lemma ensure_fold:
  "flecs_entity_index_ensure ei entity =
     res_bind (flecs_entity_index_ensure_page ei entity) (\<lambda>ei.
     res_bind (rec_get ei entity) (\<lambda>r.
     if r_dense r \<noteq> 0 \<and> r_dense r < ei_alive ei then
       res_bind (dense_get ei (r_dense r)) (\<lambda>e.
       ecs_assert (e = entity) ECS_INTERNAL_ERROR (Inr ei))
     else if r_dense r \<noteq> 0 then ensure_swap entity ei (r_dense r)
     else res_bind (rec_set_dense (ei\<lparr>ei_dense := ei_dense ei @ [entity]\<rparr>) entity (length (ei_dense ei))) (\<lambda>ei'.
       ensure_swap entity (ei'\<lparr>ei_max := (if ucast entity > ei_max ei' then ucast entity else ei_max ei')\<rparr>)
         (length (ei_dense ei)))))"
  unfolding flecs_entity_index_ensure_def ensure_swap_def Let_def
  by (intro arg_cong2[where f = res_bind] ext refl) (simp add: res_bind_assoc)

lemma ensure_swap_eq:
  assumes wf: "ei_wf ei" and a: "eslot (ei_pages ei) (low_index e) = a" "ei_alive ei \<le> a"
  obtains ei' where "ensure_swap e ei a = Inr ei'" "ei_wf ei'"
    "es_alive (ei_abs ei') = (es_alive (ei_abs ei))(low_index e \<mapsto> e)"
    "es_dead (ei_abs ei') = tl (map (\<lambda>y. if low_index y = low_index e then hd (es_dead (ei_abs ei)) else y)
      (es_dead (ei_abs ei)))" "es_top (ei_abs ei') = es_top (ei_abs ei)"
    "ei_active ei' = ei_active ei" "ei_heap ei' = ei_heap ei" "ei_ranges ei' = ei_ranges ei"
proof -
  let ?q = "low_index (ei_dense ei ! ei_alive ei)"
  define ei' where "ei' = ei\<lparr>ei_pages := pslot_set (pslot_set (ei_pages ei) ?q a) (low_index e) (ei_alive ei),
      ei_dense := (ei_dense ei)[a := ei_dense ei ! ei_alive ei, ei_alive ei := e],
      ei_alive := ei_alive ei + 1\<rparr>"
  note facts = entity_exchange_in[OF wf a ei'_def]
  note p = ei_wfD[OF wf]
  have a2: "a < length (ei_dense ei)" "ei_alive ei < length (ei_dense ei)" "0 < a"
    using pairing_slot[OF p(3), of "low_index e"] a p(1) by auto
  have q: "eslot (ei_pages ei) ?q = ei_alive ei"
    using pairing_dense[OF p(3) p(1)] a2 by simp
  then have h: "ehas (ei_pages ei) ?q" "ehas (ei_pages ei) (low_index e)"
    using eslot_ehas p(1) a a2 by (metis less_not_refl)+
  have alive: "flecs_entity_index_is_alive ei' e = Inr True"
    using is_alive_eq[OF facts(1)] facts(2) by simp
  have "ensure_swap e ei a = Inr ei'"
    using a2 q h p(1) alive
    by (simp add: ensure_swap_def dense_get_eq get_any_eq rec_set_dense_eq dense_put_eq ei'_def)
  then show thesis
    using facts by (rule that) (simp_all add: ei'_def)
qed

lemma entity_ensure:
  assumes wf: "ei_wf ei"
  shows "case es_ensure e (ei_abs ei) of
      Inl err \<Rightarrow> flecs_entity_index_ensure ei e = Inl err
    | Inr es' \<Rightarrow> \<exists>ei'. flecs_entity_index_ensure ei e = Inr ei' \<and> ei_wf ei' \<and> ei_abs ei' = es'
        \<and> ei_active ei' = ei_active ei \<and> ei_heap ei' = ei_heap ei \<and> ei_ranges ei' = ei_ranges ei"
proof -
  define n where "n = low_index e"
  define a where "a = eslot (ei_pages ei) n"
  define ei1 where "ei1 = ei\<lparr>ei_pages := pgrow (ei_pages ei) n\<rparr>"
  note p = ei_wfD[OF wf]
  have wf1: "ei_wf ei1" and abs1: "ei_abs ei1 = ei_abs ei"
    using wf by (simp_all add: ei_wf_def ei_abs_def ei1_def)
  have fold1: "flecs_entity_index_ensure ei e =
      (if a \<noteq> 0 \<and> a < ei_alive ei then
         res_bind (dense_get ei1 a) (\<lambda>x. ecs_assert (x = e) ECS_INTERNAL_ERROR (Inr ei1))
       else if a \<noteq> 0 then ensure_swap e ei1 a
       else ensure_swap e (ei\<lparr>ei_dense := ei_dense ei @ [e], ei_pages := pslot_set (pgrow (ei_pages ei) n) n (length (ei_dense ei)),
         ei_max := (if ucast e > ei_max ei then ucast e else ei_max ei)\<rparr>) (length (ei_dense ei)))"
    unfolding ensure_fold ensure_page_eq
    by (simp add: rec_get_eq rec_set_dense_eq a_def n_def ei1_def)
    have mx: "(if ucast e > ei_max ei then ucast e else ei_max ei) = max (ei_max ei) (ucast e)"
    proof (cases "ei_max ei < ucast e")
      case True
      then show ?thesis using max_absorb2[OF less_imp_le[OF True]] by simp
    next
      case False
      then have "ucast e \<le> ei_max ei" by (simp only: not_less)
      from max_absorb1[OF this] False show ?thesis by (simp only: if_False)
    qed
  consider (alive) "a \<noteq> 0" "a < ei_alive ei" | (dead) "a \<noteq> 0" "ei_alive ei \<le> a" | (fresh) "a = 0" by linarith
  then show ?thesis
  proof cases
    case alive
    then have "a < length (ei_dense ei)" using p(2) by simp
    moreover have "es_alive (ei_abs ei) n = Some (ei_dense ei ! a)"
      using alive by (simp add: ei_abs_def alive_map_def alive_at_def a_def)
    ultimately show ?thesis
      using alive wf1 abs1 by (simp add: fold1 es_ensure_def Let_def n_def[symmetric] ei1_def dense_get_eq)
  next
    case dead
    have "eslot (ei_pages ei1) (low_index e) = a" "ei_alive ei1 \<le> a"
      using dead by (simp_all add: ei1_def a_def n_def)
    from ensure_swap_eq[OF wf1 this] obtain ei' where ei': "ensure_swap e ei1 a = Inr ei'" "ei_wf ei'"
      "es_alive (ei_abs ei') = (es_alive (ei_abs ei))(n \<mapsto> e)"
      "es_dead (ei_abs ei') = tl (map (\<lambda>y. if low_index y = n then hd (es_dead (ei_abs ei)) else y) (es_dead (ei_abs ei)))"
      "es_top (ei_abs ei') = es_top (ei_abs ei)" 
      "ei_active ei' = ei_active ei" "ei_heap ei' = ei_heap ei" "ei_ranges ei' = ei_ranges ei"
      unfolding abs1 n_def[symmetric] by (auto simp: ei1_def)
    have "es_alive (ei_abs ei) n = None" "n \<in> low_index ` set (es_dead (ei_abs ei))"
      using dead dead_low[OF p(3,1,2), of n] by (simp_all add: ei_abs_def alive_map_def alive_at_def a_def)
    then show ?thesis
      using dead ei' by (simp add: fold1 es_ensure_def Let_def n_def[symmetric])
  next
    case fresh
    define ei2 where "ei2 = ei\<lparr>ei_dense := ei_dense ei @ [e], ei_pages := pslot_set (pgrow (ei_pages ei) n) n (length (ei_dense ei)),
         ei_max := (if ucast e > ei_max ei then ucast e else ei_max ei)\<rparr>"
    have s: "eslot (ei_pages ei2) = (eslot (ei_pages ei))(n := length (ei_dense ei))"
      by (simp add: ei2_def fun_eq_iff)
    have ne: "ei_dense ei \<noteq> []" using p(1,2) by auto
    have wf2: "ei_wf ei2"
      using pairing_append[OF p(3), of e] fresh p(1,2) ne unfolding ei_wf_def s by (simp add: ei2_def a_def n_def)
    have "eslot (ei_pages ei2) (low_index e) = length (ei_dense ei)" "ei_alive ei2 \<le> length (ei_dense ei)"
      using p(2) by (simp_all add: s n_def ei2_def)
    from ensure_swap_eq[OF wf2 this] obtain ei' where ei': "ensure_swap e ei2 (length (ei_dense ei)) = Inr ei'" "ei_wf ei'"
      "es_alive (ei_abs ei') = (es_alive (ei_abs ei2))(n \<mapsto> e)"
      "es_dead (ei_abs ei') = tl (map (\<lambda>y. if low_index y = n then hd (es_dead (ei_abs ei2)) else y) (es_dead (ei_abs ei2)))"
      "es_top (ei_abs ei') = es_top (ei_abs ei2)" 
      "ei_active ei' = ei_active ei" "ei_heap ei' = ei_heap ei" "ei_ranges ei' = ei_ranges ei"
      unfolding n_def[symmetric] by (auto simp: ei2_def)
    have unseen: "es_alive (ei_abs ei) n = None" "n \<notin> low_index ` set (es_dead (ei_abs ei))"
      using fresh dead_low[OF p(3,1,2), of n] p(1) by (simp_all add: ei_abs_def alive_map_def alive_at_def a_def)
    have top: "es_dead (ei_abs ei2) = es_dead (ei_abs ei) @ [e]" "es_top (ei_abs ei2) = max (es_top (ei_abs ei)) (ucast e)"
      using p(2) unfolding mx[symmetric] by (simp_all add: ei_abs_def ei2_def)
    have same: "es_alive (ei_abs ei2) m = es_alive (ei_abs ei) m" for m
      using unseen(1) p(2) fresh by (auto simp: ei_abs_def alive_map_def alive_at_def s nth_append ei2_def a_def)
    have rot: "tl (map (\<lambda>y. if low_index y = n then hd (ds @ [e]) else y) (ds @ [e])) = rotate1 ds"
      if "n \<notin> low_index ` set ds" for ds
    proof (cases ds)
      case (Cons x xs)
      then have "map (\<lambda>y. if low_index y = n then x else y) xs = xs"
        using that Cons by (intro map_idI) auto
      then show ?thesis unfolding Cons by (simp add: n_def cong: if_cong)
    qed simp
    have dead: "es_dead (ei_abs ei') = rotate1 (es_dead (ei_abs ei))"
      unfolding ei'(4) top(1) by (rule rot[OF unseen(2)])
    have "ei_abs ei' = (ei_abs ei)\<lparr>es_alive := (es_alive (ei_abs ei))(n \<mapsto> e),
        es_dead := rotate1 (es_dead (ei_abs ei)), es_top := max (es_top (ei_abs ei)) (ucast e)\<rparr>"
      using ei'(3,5) dead top(2) same by (intro entity_spec.equality) (simp_all add: fun_eq_iff)
    then show ?thesis
      using fresh ei' unseen unfolding ei2_def by (simp add: fold1 es_ensure_def Let_def n_def[symmetric])
  qed
qed


text \<open>Removing an alive id, and issuing one.\<close>

definition es_remove :: "u64 \<Rightarrow> entity_spec \<Rightarrow> entity_spec" where
  "es_remove e es =
     (if es_alive es (low_index e) = Some e
      then es\<lparr>es_alive := (es_alive es)(low_index e := None), es_dead := ECS_GENERATION_INC e # es_dead es\<rparr>
      else es)"

definition es_new_id :: "entity_spec \<Rightarrow> (entity_spec \<times> u64) res" where
  "es_new_id es =
     (case es_dead es of
        e # rest \<Rightarrow> Inr (es\<lparr>es_alive := (es_alive es)(low_index e \<mapsto> e), es_dead := rest\<rparr>, e)
      | [] \<Rightarrow>
          let e = (ucast (es_top es + 1) :: u64) in
          if es_alive es (low_index e) \<noteq> None then Inl ECS_INVALID_OPERATION
          else Inr (es\<lparr>es_alive := (es_alive es)(low_index e \<mapsto> e), es_top := es_top es + 1\<rparr>, e))"

lemma entity_remove_intern:
  assumes wf: "ei_wf ei" 
  obtains ei' where "flecs_entity_index_remove_intern ei e = 
      Inr (ei', es_alive (ei_abs ei) (low_index e) = Some e)" "ei_wf ei'" "ei_abs ei' = es_remove e (ei_abs ei)"
    "ei_active ei' = ei_active ei" "ei_heap ei' = ei_heap ei" "ei_ranges ei' = ei_ranges ei"
proof (cases "es_alive (ei_abs ei) (low_index e) = Some e")
  case False
  then have "flecs_entity_index_remove_intern ei e = Inr (ei, False)"
    by (simp add: flecs_entity_index_remove_intern_def try_get_eq[OF wf])
  with False show ?thesis
    by (intro that[of ei]) (simp_all add: wf es_remove_def)
next
  case True
  define n where "n = low_index e"
  define d where "d = eslot (ei_pages ei) n"
  define l where "l = ei_alive ei - 1"
  note p = ei_wfD[OF wf]
  have d: "0 < d" "d < ei_alive ei" "ei_dense ei ! d = e"
    using True by (auto simp: ei_abs_def alive_map_def alive_at_def d_def n_def split: if_splits)
  then have l: "0 < l" "l < length (ei_dense ei)" "ei_alive ei = Suc l" "d \<le> l" "d < length (ei_dense ei)"
    using p(2) by (auto simp: l_def)
  let ?q = "low_index (ei_dense ei ! l)"
  have q: "eslot (ei_pages ei) ?q = l"
    using pairing_dense[OF p(3) l(1,2)] .
  then have h: "ehas (ei_pages ei) ?q" "ehas (ei_pages ei) n"
    using eslot_ehas l(1) d(1) unfolding d_def by (metis less_not_refl)+
  define r where "r = erec (pslot_set (ei_pages ei) ?q d) n"
  define ei' where "ei' = ei\<lparr>ei_alive := l,
      ei_pages := pset (pslot_set (ei_pages ei) ?q d) n (r\<lparr>r_table := None, r_row := 0, r_dense := l\<rparr>),
      ei_dense := (ei_dense ei)[d := ei_dense ei ! l, l := ECS_GENERATION_INC e]\<rparr>"
  have x: "low_index (ECS_GENERATION_INC e) = low_index (ei_dense ei ! d)" using d(3) by simp
  have s: "eslot (ei_pages ei') = (eslot (ei_pages ei))(?q := d, low_index (ECS_GENERATION_INC e) := l)"
    using h by (simp add: ei'_def fun_eq_iff n_def)
  have wf': "ei_wf ei'"
    unfolding ei_wf_def s using pairing_exchange[OF p(3) d(1) l(5) l(1,2) x] l by (simp add: ei'_def)
  have abs': "ei_abs ei' = es_remove e (ei_abs ei)"
  proof (rule entity_spec.equality)
    show "es_alive (ei_abs ei') = es_alive (es_remove e (ei_abs ei))"
    proof -
      have "es_alive (ei_abs ei') = alive_map (eslot (ei_pages ei')) (ei_dense ei') l"
        by (simp add: ei_abs_def ei'_def)
      also have "\<dots> = alive_map ((eslot (ei_pages ei))(?q := d, low_index (ECS_GENERATION_INC e) := l))
          ((ei_dense ei)[d := ei_dense ei ! l, l := ECS_GENERATION_INC e]) l"
        unfolding s by (simp add: ei'_def)
      also have "\<dots> = (es_alive (ei_abs ei))(low_index e := None)"
        using alive_map_out[OF p(3,2) d(1,2) x] unfolding l_def[symmetric] by (simp add: ei_abs_def)
      finally show ?thesis using True by (simp add: es_remove_def)
    qed
    show "es_dead (ei_abs ei') = es_dead (es_remove e (ei_abs ei))"
      using True l by (simp add: es_remove_def) (simp add: ei_abs_def ei'_def drop_update_swap Cons_nth_drop_Suc[symmetric])
  qed (simp_all add: es_remove_def, simp add: ei_abs_def ei'_def)
  have "\<not> es_alive (ei_abs ei') (low_index e) = Some e"
    by (simp add: abs' es_remove_def)
  then have "flecs_entity_index_is_alive ei' e = Inr False"
    using is_alive_eq[OF wf', of e] by simp
  then have "flecs_entity_index_remove_intern ei e = Inr (ei', True)"
    using True l q h d unfolding n_def
    by (simp add: flecs_entity_index_remove_intern_def try_get_eq[OF wf] dense_get_eq get_any_eq rec_set_dense_eq
      rec_get_eq rec_set_eq dense_put_eq ei'_def d_def n_def r_def Let_def)
  with True wf' abs' show ?thesis
    by (intro that[of ei']) (simp_all add: ei'_def)
qed


lemma pgrow_ehas_fresh: "ehas (pgrow ps n) n"
  by simp

lemma entity_new_id:
  assumes wf: "ei_wf ei"
  shows "case es_new_id (ei_abs ei) of
      Inl err \<Rightarrow> flecs_entity_index_new_id ei = Inl err
    | Inr (es', e) \<Rightarrow> \<exists>ei'. flecs_entity_index_new_id ei = Inr (ei', e) \<and> ei_wf ei' \<and> ei_abs ei' = es'
        \<and> ei_active ei' = ei_active ei \<and> ei_heap ei' = ei_heap ei \<and> ei_ranges ei' = ei_ranges ei"
proof -
  note p = ei_wfD[OF wf]
  show ?thesis
  proof (cases "ei_alive ei = length (ei_dense ei)")
    case False
    then have l: "ei_alive ei < length (ei_dense ei)" using p(2) by simp
    define e where "e = ei_dense ei ! ei_alive ei"
    define ei' where "ei' = ei\<lparr>ei_alive := ei_alive ei + 1\<rparr>"
    have q: "eslot (ei_pages ei) m = ei_alive ei \<longleftrightarrow> low_index e = m" for m
      unfolding e_def using pairing_slot_iff[OF p(3,1) l] .
    have "flecs_entity_index_new_id ei = Inr (ei', e)"
      using l by (simp add: flecs_entity_index_new_id_def dense_get_eq ei'_def e_def)
    moreover have "ei_wf ei'" using p l by (simp add: ei_wf_def ei'_def)
    moreover have "es_dead (ei_abs ei) = e # drop (Suc (ei_alive ei)) (ei_dense ei)"
      using l by (simp add: ei_abs_def e_def Cons_nth_drop_Suc)
    moreover have "es_alive (ei_abs ei') = (es_alive (ei_abs ei))(low_index e \<mapsto> e)"
    proof
      fix m
      show "es_alive (ei_abs ei') m = ((es_alive (ei_abs ei))(low_index e \<mapsto> e)) m"
      proof (cases "m = low_index e")
        case True
        then have "eslot (ei_pages ei) m = ei_alive ei" using q by simp
        then show ?thesis using True p(1) by (simp add: ei_abs_def ei'_def alive_map_def alive_at_def e_def)
      next
        case False
        then have "eslot (ei_pages ei) m \<noteq> ei_alive ei" using q by auto
        then have "eslot (ei_pages ei) m < Suc (ei_alive ei) \<longleftrightarrow> eslot (ei_pages ei) m < ei_alive ei" by auto
        then show ?thesis using False by (simp add: ei_abs_def ei'_def alive_map_def alive_at_def)
      qed
    qed
    moreover have "es_dead (ei_abs ei') = drop (Suc (ei_alive ei)) (ei_dense ei)" "es_top (ei_abs ei') = es_top (ei_abs ei)"
      by (simp_all add: ei_abs_def ei'_def)
    ultimately show ?thesis
      by (auto simp: es_new_id_def ei'_def intro!: entity_spec.equality)
  next
    case True
    define e where "e = (ucast (ei_max ei + 1) :: u64)"
    have dead: "es_dead (ei_abs ei) = []" using True by (simp add: ei_abs_def)
    have top: "es_top (ei_abs ei) = ei_max ei" by (simp add: ei_abs_def)
    have ex: "eslot (ei_pages ei) (low_index e) \<noteq> 0 \<longleftrightarrow> es_alive (ei_abs ei) (low_index e) \<noteq> None"
      using seen_slot[OF wf, of "low_index e"] dead by (simp add: es_seen_def)
    have mx: "unat (ei_max ei + 1) \<le> 2 ^ 32 - 1"
    proof -
      have "unat (ei_max ei + 1) < 2 ^ LENGTH(32)" by (rule unsigned_less)
      then show ?thesis by simp
    qed
    show ?thesis
    proof (cases "es_alive (ei_abs ei) (low_index e) = None")
      case False
      then show ?thesis
        using True ex mx dead top
        by (simp add: flecs_entity_index_new_id_def es_new_id_def exists_eq e_def Let_def)
    next
      case None: True
      define ei' where "ei' = ei\<lparr>ei_max := ei_max ei + 1, ei_dense := ei_dense ei @ [e], 
        ei_pages := pslot_set (pgrow (ei_pages ei) (low_index e)) (low_index e) (ei_alive ei), 
        ei_alive := ei_alive ei + 1\<rparr>"
      have "flecs_entity_index_new_id ei = Inr (ei', e)"
        using True ex mx None
        by (simp add: flecs_entity_index_new_id_def exists_eq Let_def ensure_page_eq rec_set_dense_eq ei'_def e_def[symmetric])
      moreover have s: "eslot (ei_pages ei') = (eslot (ei_pages ei))(low_index e := length (ei_dense ei))"
        using True by (simp add: ei'_def fun_eq_iff)
      have ne: "ei_dense ei \<noteq> []" using p(1,2) by auto
      have "ei_wf ei'"
        using pairing_append[OF p(3), of e] ex None ne True unfolding ei_wf_def s by (simp add: ei'_def)
      moreover have "es_alive (ei_abs ei') = (es_alive (ei_abs ei))(low_index e \<mapsto> e)"
      proof
        fix m
        have "eslot (ei_pages ei) m < length (ei_dense ei)"
          using pairing_slot[OF p(3), of m] p(1,2) by (cases "eslot (ei_pages ei) m = 0") auto
        then show "es_alive (ei_abs ei') m = ((es_alive (ei_abs ei))(low_index e \<mapsto> e)) m"
          using True p(1) by (auto simp: ei_abs_def alive_map_def alive_at_def s nth_append) (simp_all add: ei'_def nth_append)
      qed
      moreover have "es_dead (ei_abs ei') = []" "es_top (ei_abs ei') = ei_max ei + 1"
        using True by (simp_all add: ei_abs_def ei'_def)
      ultimately show ?thesis
        using None dead top
        by (auto simp: es_new_id_def Let_def e_def[symmetric] ei'_def intro!: entity_spec.equality)
    qed
  qed
qed

definition es_make_alive :: "u64 \<Rightarrow> entity_spec \<Rightarrow> entity_spec" where
  "es_make_alive e es =
     (let n = low_index e in
      if es_alive es n \<noteq> None then es\<lparr>es_alive := (es_alive es)(n \<mapsto> e)\<rparr>
      else es\<lparr>es_dead := map (\<lambda>x. if low_index x = n then e else x) (es_dead es)\<rparr>)"

lemma entity_make_alive:
  assumes wf: "ei_wf ei"
  obtains ei' where "flecs_entity_index_make_alive ei e = Inr ei'" "ei_wf ei'" 
    "ei_abs ei' = es_make_alive e (ei_abs ei)"
    "ei_active ei' = ei_active ei" "ei_heap ei' = ei_heap ei" "ei_ranges ei' = ei_ranges ei"
proof -
  define n where "n = low_index e"
  define d where "d = eslot (ei_pages ei) n"
  note p = ei_wfD[OF wf]
  show thesis
  proof (cases "d = 0")
    case True
    then have "flecs_entity_index_make_alive ei e = Inr ei"
      by (simp add: flecs_entity_index_make_alive_def try_get_any_eq d_def n_def)
    moreover have "n \<notin> low_index ` set (es_dead (ei_abs ei))" "es_alive (ei_abs ei) n = None"
      using True seen_slot[OF wf, of n] by (simp_all add: es_seen_def d_def)
    then have "map (\<lambda>x. if low_index x = n then e else x) (es_dead (ei_abs ei)) = es_dead (ei_abs ei)"
      by (intro map_idI) auto
    then have "es_make_alive e (ei_abs ei) = ei_abs ei"
      using \<open>es_alive (ei_abs ei) n = None\<close> by (simp add: es_make_alive_def Let_def n_def[symmetric])
    ultimately show thesis using wf by (intro that[of ei]) simp_all
  next
    case False
    then have d: "0 < d" "d < length (ei_dense ei)" "low_index (ei_dense ei ! d) = n"
      using pairing_slot[OF p(3), of n] by (simp_all add: d_def)
    define ei' where "ei' = ei\<lparr>ei_dense := (ei_dense ei)[d := e]\<rparr>"
    have "flecs_entity_index_make_alive ei e = Inr ei'"
      using d by (simp add: flecs_entity_index_make_alive_def try_get_any_eq dense_put_eq ei'_def d_def n_def)
    moreover have "ei_wf ei'"
      using p pairing_relabel[OF p(3) d(2), of e] d(3) by (simp add: ei_wf_def ei'_def n_def)
    moreover have "ei_abs ei' = es_make_alive e (ei_abs ei)"
    proof (rule entity_spec.equality)
      have other: "eslot (ei_pages ei) m = d \<longleftrightarrow> m = n" for m
        using pairing_slot_iff[OF p(3) d(1,2), of m] d(3) by auto
      show "es_alive (ei_abs ei') = es_alive (es_make_alive e (ei_abs ei))"
      proof
        fix m
        show "es_alive (ei_abs ei') m = es_alive (es_make_alive e (ei_abs ei)) m"
          using other[of m] d(2)
          by (simp add: es_make_alive_def Let_def n_def[symmetric])
            (auto simp: ei_abs_def ei'_def alive_map_def nth_list_update)
      qed
      show "es_dead (ei_abs ei') = es_dead (es_make_alive e (ei_abs ei))"
      proof (cases "d < ei_alive ei")
        case True
        then have "es_alive (ei_abs ei) n \<noteq> None" using d(1) by (simp add: ei_abs_def alive_map_def alive_at_def d_def)
        then show ?thesis using True by (simp add: es_make_alive_def Let_def n_def[symmetric]) (simp add: ei_abs_def ei'_def)
      next
        case False
        then have "es_alive (ei_abs ei) n = None" by (simp add: ei_abs_def alive_map_def alive_at_def d_def)
        moreover have "drop (ei_alive ei) ((ei_dense ei)[d := e])
            = map (\<lambda>x. if low_index x = n then e else x) (drop (ei_alive ei) (ei_dense ei))"
        proof (rule nth_equalityI)
          fix j
          assume "j < length (drop (ei_alive ei) ((ei_dense ei)[d := e]))"
          then have j: "ei_alive ei + j < length (ei_dense ei)" by simp
          then show "drop (ei_alive ei) ((ei_dense ei)[d := e]) ! j =
              map (\<lambda>x. if low_index x = n then e else x) (drop (ei_alive ei) (ei_dense ei)) ! j"
            using pairing_eq_iff[OF p(3), of "ei_alive ei + j" d] p(1) d by (auto simp: nth_list_update)
        qed simp
        ultimately show ?thesis by (simp add: es_make_alive_def Let_def n_def[symmetric]) (simp add: ei_abs_def ei'_def)
      qed
    qed (simp_all add: es_make_alive_def Let_def ei_abs_def ei'_def)
    ultimately show thesis by (intro that[of ei']) (simp_all add: ei'_def)
  qed
qed

lemma erec_clear:
  "erec (map (\<lambda>page. case page of None \<Rightarrow> None | Some _ \<Rightarrow> Some (\<lambda>_. zero_record)) ps) n = zero_record"
  by (auto simp: erec_def ehas_def split: option.splits)

lemma entity_clear:
  assumes "ei_wf ei"
  shows "ei_wf (flecs_entity_index_clear ei)"
    "ei_abs (flecs_entity_index_clear ei) = \<lparr>es_alive = (\<lambda>_. None), es_dead = [], es_top = 0\<rparr>"
proof -
  have l: "0 < length (ei_dense ei)" by (rule less_le_trans[OF ei_wfD(1,2)[OF assms]])
  then have "set_id_count 1 (ei_dense ei) = [hd (ei_dense ei)]"
    by (cases "ei_dense ei") (simp_all add: set_id_count_def)
  then show "ei_wf (flecs_entity_index_clear ei)"
    "ei_abs (flecs_entity_index_clear ei) = \<lparr>es_alive = (\<lambda>_. None), es_dead = [], es_top = 0\<rparr>"
    by (simp_all add: ei_wf_def ei_abs_def flecs_entity_index_clear_def erec_clear pairing_init alive_map_def alive_at_def fun_eq_iff)
qed

lemma entity_init: "ei_wf flecs_entity_index_init"
  "ei_abs flecs_entity_index_init = \<lparr>es_alive = (\<lambda>_. None), es_dead = [], es_top = 0\<rparr>"
  "ei_active flecs_entity_index_init = None"
  by (simp_all add: ei_wf_def flecs_entity_index_init_def ei_abs_def set_id_count_def erec_def ehas_def
    pairing_init alive_map_def alive_at_def fun_eq_iff)


section \<open>Runs of operations\<close>

datatype entity_op =
  EiEnsure u64 | EiRemove u64 | EiNew | EiMakeAlive u64 | EiIsAlive u64 | EiGetAlive u64
  | EiIsValid u64 | EiExists u64 | EiCount | EiClear

datatype entity_out = EoUnit | EoId u64 | EoBool bool | EoCount int

fun ei_exec :: "entity_op \<Rightarrow> ecs_entity_index \<Rightarrow> (ecs_entity_index \<times> entity_out) res" where
  "ei_exec (EiEnsure e) ei = res_bind (flecs_entity_index_ensure ei e) (\<lambda>ei. Inr (ei, EoUnit))"
| "ei_exec (EiRemove e) ei = res_bind (flecs_entity_index_remove ei e) (\<lambda>ei. Inr (ei, EoUnit))"
| "ei_exec EiNew ei = res_bind (flecs_new_id ei) (\<lambda>(ei, e). Inr (ei, EoId e))"
| "ei_exec (EiMakeAlive e) ei = res_bind (flecs_entity_index_make_alive ei e) (\<lambda>ei. Inr (ei, EoUnit))"
| "ei_exec (EiIsAlive e) ei = res_bind (flecs_entity_index_is_alive ei e) (\<lambda>b. Inr (ei, EoBool b))"
| "ei_exec (EiGetAlive e) ei = res_bind (flecs_entity_index_get_alive ei e) (\<lambda>x. Inr (ei, EoId x))"
| "ei_exec (EiIsValid e) ei = res_bind (flecs_entity_index_is_valid ei e) (\<lambda>b. Inr (ei, EoBool b))"
| "ei_exec (EiExists e) ei = res_bind (flecs_entity_index_exists ei e) (\<lambda>b. Inr (ei, EoBool b))"
| "ei_exec EiCount ei = Inr (ei, EoCount (flecs_entity_index_count ei))"
| "ei_exec EiClear ei = Inr (flecs_entity_index_clear ei, EoUnit)"

fun es_exec :: "entity_op \<Rightarrow> entity_spec \<Rightarrow> (entity_spec \<times> entity_out) res" where
  "es_exec (EiEnsure e) es = res_bind (es_ensure e es) (\<lambda>es. Inr (es, EoUnit))"
| "es_exec (EiRemove e) es = Inr (es_remove e es, EoUnit)"
| "es_exec EiNew es = res_bind (es_new_id es) (\<lambda>(es, e). Inr (es, EoId e))"
| "es_exec (EiMakeAlive e) es = Inr (es_make_alive e es, EoUnit)"
| "es_exec (EiIsAlive e) es = Inr (es, EoBool (es_alive es (low_index e) = Some e))"
| "es_exec (EiGetAlive e) es = Inr (es, EoId (case es_alive es (low_index e) of None \<Rightarrow> 0 | Some x \<Rightarrow> x))"
| "es_exec (EiIsValid e) es = Inr (es, EoBool (es_seen es (low_index e) \<longrightarrow> es_alive es (low_index e) \<noteq> None))"
| "es_exec (EiExists e) es = Inr (es, EoBool (es_seen es (low_index e)))"
| "es_exec EiCount es = Inr (es, EoCount (int (card (dom (es_alive es)))))"
| "es_exec EiClear es = Inr (\<lparr>es_alive = (\<lambda>_. None), es_dead = [], es_top = 0\<rparr>, EoUnit)"

fun ei_run :: "entity_op list \<Rightarrow> ecs_entity_index \<Rightarrow> (ecs_entity_index \<times> entity_out list) res" where
  "ei_run [] ei = Inr (ei, [])"
| "ei_run (x # xs) ei = res_bind (ei_exec x ei) (\<lambda>(ei, out).
     res_bind (ei_run xs ei) (\<lambda>(ei, outs). Inr (ei, out # outs)))"

fun es_run :: "entity_op list \<Rightarrow> entity_spec \<Rightarrow> (entity_spec \<times> entity_out list) res" where
  "es_run [] es = Inr (es, [])"
| "es_run (x # xs) es = res_bind (es_exec x es) (\<lambda>(es, out).
     res_bind (es_run xs es) (\<lambda>(es, outs). Inr (es, out # outs)))"

definition es_empty :: entity_spec where
  "es_empty = \<lparr>es_alive = (\<lambda>_. None), es_dead = [], es_top = 0\<rparr>"

lemma entity_remove:
  assumes "ei_wf ei" "ei_active ei = None"
  obtains ei' where "flecs_entity_index_remove ei e = Inr ei'" "ei_wf ei'" "ei_abs ei' = es_remove e (ei_abs ei)"
    "ei_active ei' = None"
proof -
  obtain ei' where "flecs_entity_index_remove_intern ei e = 
      Inr (ei', es_alive (ei_abs ei) (low_index e) = Some e)" "ei_wf ei'" "ei_abs ei' = es_remove e (ei_abs ei)"
    "ei_active ei' = ei_active ei" by (rule entity_remove_intern[OF assms(1)])
  with assms(2) show thesis
    by (intro that[of ei']) (simp_all add: flecs_entity_index_remove_def)
qed

lemma entity_new:
  assumes "ei_wf ei" "ei_active ei = None"
  shows "case es_new_id (ei_abs ei) of
      Inl err \<Rightarrow> flecs_new_id ei = Inl err
    | Inr (es', e) \<Rightarrow> \<exists>ei'. flecs_new_id ei = Inr (ei', e) \<and> ei_wf ei' \<and> ei_abs ei' = es' \<and> ei_active ei' = None"
  using entity_new_id[OF assms(1)] assms(2)
  by (auto simp: flecs_new_id_def split: sum.splits prod.splits)

lemma ei_exec_simulates:
  assumes wf: "ei_wf ei" and act: "ei_active ei = None"
  shows "case es_exec x (ei_abs ei) of
      Inl err \<Rightarrow> ei_exec x ei = Inl err
    | Inr (es', out) \<Rightarrow> \<exists>ei'. ei_exec x ei = Inr (ei', out) \<and> ei_wf ei' \<and> ei_active ei' = None \<and> ei_abs ei' = es'"
proof (cases x)
  case (EiEnsure e)
  then show ?thesis using entity_ensure[OF wf, of e] act by (auto split: sum.splits)
next
  case (EiRemove e)
  obtain ei' where "flecs_entity_index_remove ei e = Inr ei'" "ei_wf ei'" "ei_abs ei' = es_remove e (ei_abs ei)"
    "ei_active ei' = None" by (rule entity_remove[OF wf act])
  then show ?thesis using EiRemove by simp
next
  case EiNew
  then show ?thesis using entity_new[OF wf act] by (auto split: sum.splits prod.splits)
next
  case (EiMakeAlive e)
  obtain ei' where "flecs_entity_index_make_alive ei e = Inr ei'" "ei_wf ei'" 
    "ei_abs ei' = es_make_alive e (ei_abs ei)" "ei_active ei' = ei_active ei"
    by (rule entity_make_alive[OF wf])
  then show ?thesis using EiMakeAlive act by simp
next
  case (EiIsAlive e)
  then show ?thesis using wf act by (simp add: is_alive_eq)
next
  case (EiGetAlive e)
  then show ?thesis using wf act by (simp add: get_alive_eq)
next
  case (EiIsValid e)
  then show ?thesis using wf act by (simp add: is_valid_eq)
next
  case (EiExists e)
  then show ?thesis using wf act by (simp add: exists_eq seen_slot)
next
  case EiCount
  then show ?thesis using wf act by (simp add: count_eq)
next
  case EiClear
  then show ?thesis using entity_clear[OF wf] act by (simp add: flecs_entity_index_clear_def)
qed

lemma ei_run_simulates:
  assumes "ei_wf ei" "ei_active ei = None"
  shows "case es_run xs (ei_abs ei) of
      Inl err \<Rightarrow> ei_run xs ei = Inl err
    | Inr (es', outs) \<Rightarrow> \<exists>ei'. ei_run xs ei = Inr (ei', outs) \<and> ei_wf ei' \<and> ei_active ei' = None \<and> ei_abs ei' = es'"
  using assms
proof (induction xs arbitrary: ei)
  case (Cons x xs)
  show ?case
  proof (cases "es_exec x (ei_abs ei)")
    case (Inl err)
    then show ?thesis using ei_exec_simulates[OF Cons.prems, of x] by simp
  next
    case (Inr p)
    then obtain es1 out where es1: "es_exec x (ei_abs ei) = Inr (es1, out)" by (cases p) simp
    then obtain ei1 where "ei_exec x ei = Inr (ei1, out)" "ei_wf ei1" "ei_active ei1 = None" "ei_abs ei1 = es1"
      using ei_exec_simulates[OF Cons.prems, of x] by auto
    with es1 Cons.IH[of ei1] show ?thesis
      by (auto split: sum.splits prod.splits)
  qed
qed simp

text \<open>
  The vector of ids grows by one position per operation at most, and the entities that are alive are in its
  front part: over less than 2\^30 operations all counters stay where naturals and int32\_t agree.
\<close>

lemma records_keep_dense:
  "rec_set ei i r = Inr ei' \<Longrightarrow> ei_dense ei' = ei_dense ei"
  "rec_set_dense ei i d = Inr ei' \<Longrightarrow> ei_dense ei' = ei_dense ei"
  "flecs_entity_index_ensure_page ei i = Inr ei' \<Longrightarrow> ei_dense ei' = ei_dense ei"
  "dense_put ei k v = Inr ei' \<Longrightarrow> length (ei_dense ei') = length (ei_dense ei)"
  by (auto simp: rec_set_def rec_set_dense_def dense_put_def ensure_page_eq res_elims)

lemma ensure_grows: "flecs_entity_index_ensure ei e = Inr ei' \<Longrightarrow> length (ei_dense ei') \<le> length (ei_dense ei) + 1"
  unfolding flecs_entity_index_ensure_def Let_def
  by (auto simp: res_elims split: if_splits prod.splits dest!: records_keep_dense)

lemma new_id_grows:
  "flecs_entity_index_new_id ei = Inr (ei', i) \<Longrightarrow> length (ei_dense ei') \<le> length (ei_dense ei) + 1"
  unfolding flecs_entity_index_new_id_def Let_def
  by (auto simp: res_elims split: if_splits prod.splits dest!: records_keep_dense)

lemma issue_grows: "flecs_new_id ei = Inr (ei', i) \<Longrightarrow> length (ei_dense ei') \<le> length (ei_dense ei) + 1"
  unfolding flecs_new_id_def
  by (auto simp: res_elims split: option.splits prod.splits dest!: new_id_grows)

lemma remove_intern_keeps:
  "flecs_entity_index_remove_intern ei e = Inr (ei', b) \<Longrightarrow> length (ei_dense ei') = length (ei_dense ei)"
  unfolding flecs_entity_index_remove_intern_def Let_def
  by (auto simp: res_elims split: option.splits if_splits dest!: records_keep_dense)

lemma remove_keeps:
  assumes "ei_wf ei" "ei_active ei = None" "flecs_entity_index_remove ei e = Inr ei'"
  shows "length (ei_dense ei') = length (ei_dense ei)"
proof -
  obtain ei1 b where r: "flecs_entity_index_remove_intern ei e = Inr (ei1, b)" "ei_active ei1 = ei_active ei"
    by (rule entity_remove_intern[OF assms(1), of e]) blast
  then have "ei' = ei1" using assms(2,3) by (auto simp: flecs_entity_index_remove_def split: if_splits)
  with remove_intern_keeps[OF r(1)] show ?thesis by simp
qed

lemma ei_exec_grows:
  assumes "ei_exec x ei = Inr (ei', out)" "ei_wf ei" "ei_active ei = None"
  shows "length (ei_dense ei') \<le> length (ei_dense ei) + 1"
proof (cases x)
  case (EiMakeAlive e)
  then show ?thesis using assms(1)
    by (auto simp: res_elims flecs_entity_index_make_alive_def split: option.splits dest!: records_keep_dense)
next
  case EiClear
  then show ?thesis using assms(1) by (auto simp: flecs_entity_index_clear_def set_id_count_def)
next
  case (EiRemove e)
  then show ?thesis using assms remove_keeps[of ei e ei'] by (auto simp: res_elims)
qed (use assms(1) in \<open>auto simp: res_elims dest!: ensure_grows issue_grows\<close>)

lemma ei_run_grows:
  assumes "ei_run xs ei = Inr (ei', outs)" "ei_wf ei" "ei_active ei = None"
  shows "length (ei_dense ei') \<le> length (ei_dense ei) + length xs" "ei_alive ei' \<le> length (ei_dense ei')"
proof -
  have "length (ei_dense ei') \<le> length (ei_dense ei) + length xs \<and> ei_wf ei'"
    using assms
  proof (induction xs arbitrary: ei outs)
    case (Cons x xs)
    then obtain ei1 out outs1 where r: "ei_exec x ei = Inr (ei1, out)" "ei_run xs ei1 = Inr (ei', outs1)"
      by (auto simp: res_elims)
    have "ei_wf ei1" "ei_active ei1 = None"
      using ei_exec_simulates[OF Cons.prems(2,3), of x] r(1) by (auto split: sum.splits prod.splits)
    then show ?case using Cons.IH[OF r(2)] ei_exec_grows[OF r(1) Cons.prems(2,3)] by simp
  qed simp
  then show "length (ei_dense ei') \<le> length (ei_dense ei) + length xs" "ei_alive ei' \<le> length (ei_dense ei')"
    by (simp_all add: ei_wf_def)
qed

lemma init_length: "length (ei_dense flecs_entity_index_init) = 1"
  by (simp add: flecs_entity_index_init_def set_id_count_def)

text \<open>
  Claim C4: an entity index that lives without id ranges answers any sequence of less than 2\^30 of its
  operations, aborts included, as a map from the indices of alive entities to their ids together with a stack
  of recyclable ids and the highest index issued. At every point of the sequence the count of alive
  entities and the length of the vector of ids are at most 2\^30, so the naturals of the model are the
  int32\_t values of the code and the capacity of the vector is one that the allocation reaches.
\<close>

theorem entity_index_refines:
  assumes "length xs < 2 ^ 30"
  shows "res_bind (ei_run xs flecs_entity_index_init) (\<lambda>(_, outs). Inr outs)
      = res_bind (es_run xs es_empty) (\<lambda>(_, outs). Inr outs)
    \<and> (\<forall>n ei outs. ei_run (take n xs) flecs_entity_index_init = Inr (ei, outs) \<longrightarrow>
        ei_alive ei \<le> length (ei_dense ei) \<and> length (ei_dense ei) \<le> 2 ^ 30)"
proof (intro conjI allI impI)
  show "res_bind (ei_run xs flecs_entity_index_init) (\<lambda>(_, outs). Inr outs)
      = res_bind (es_run xs es_empty) (\<lambda>(_, outs). Inr outs)"
    using ei_run_simulates[OF entity_init(1), of xs]
    unfolding entity_init(2) es_empty_def[symmetric] entity_init(3)
    by (auto split: sum.splits prod.splits)
  fix n ei outs assume "ei_run (take n xs) flecs_entity_index_init = Inr (ei, outs)"
  note g = ei_run_grows[OF this entity_init(1,3)]
  show "ei_alive ei \<le> length (ei_dense ei)" by (rule g(2))
  show "length (ei_dense ei) \<le> 2 ^ 30" using g(1) assms by (simp add: init_length)
qed

theorem entity_index_refines_witness:
  "res_bind (ei_run [EiNew, EiRemove 1, EiIsAlive 1, EiNew, EiRemove 7, EiCount] flecs_entity_index_init) (\<lambda>(_, outs). Inr outs)
    = Inr [EoId 1, EoUnit, EoBool False, EoId 0x100000001, EoUnit, EoCount 1]"
proof -
  have low: "low_index 1 = 1" "low_index 0x100000001 = 1" "low_index 7 = 7" by (simp_all add: low_index_def take_bit_eq_mod)
  have gen: "ECS_GENERATION_INC 1 = 0x100000001" by code_simp
  have "res_bind (es_run [EiNew, EiRemove 1, EiIsAlive 1, EiNew, EiRemove 7, EiCount] es_empty) (\<lambda>(_, outs). Inr outs)
    = Inr [EoId 1, EoUnit, EoBool False, EoId 0x100000001, EoUnit, EoCount 1]"
    by (simp add: es_empty_def es_new_id_def es_remove_def low gen Let_def)
  then show ?thesis
    using entity_index_refines[of "[EiNew, EiRemove 1, EiIsAlive 1, EiNew, EiRemove 7, EiCount]"] by simp
qed

section \<open>The bulk operation\<close>

lemma alloc_many_add:
  "alloc_many new (m + n) s = res_bind (alloc_many new m s) (\<lambda>(s, is).
     res_bind (alloc_many new n s) (\<lambda>(s, js). Inr (s, is @ js)))"
proof (induction m arbitrary: s)
  case 0
  then show ?case by (cases "alloc_many new n s") auto
next
  case (Suc m)
  show ?case
  proof (cases "new s")
    case (Inr p)
    then show ?thesis
      by (cases p; cases "alloc_many new m (fst p)") (auto simp: Suc.IH res_bind_assoc split: prod.splits intro!: arg_cong2[where f = res_bind])
  qed simp
qed

lemma max_id_check: "unat (m :: u32) \<le> 2 ^ 32 - 1"
proof -
  have "unat m < 2 ^ LENGTH(32)" by (rule unsigned_less)
  then show ?thesis by simp
qed

lemma new_ids_loop_step:
  "new_ids_loop ei d (Suc n) =
     (let e = ucast (ei_max ei + 1) in
      if eslot (ei_pages ei) (low_index e) \<noteq> 0 then Inl ECS_INVALID_OPERATION
      else if d < length (ei_dense ei)
      then new_ids_loop (ei\<lparr>ei_max := ei_max ei + 1, ei_dense := (ei_dense ei)[d := e],
        ei_pages := pslot_set (pgrow (ei_pages ei) (low_index e)) (low_index e) d\<rparr>) (d + 1) n
      else Inl MEMORY_FAULT)"
  using max_id_check[of "ei_max ei + 1"]
  by (simp add: Let_def exists_eq ensure_page_eq rec_set_dense_eq dense_put_def mem_set_def)

lemma new_ids_loop_dense:
  "new_ids_loop ei d n = Inr ei' \<Longrightarrow> take d (ei_dense ei') = take d (ei_dense ei) \<and> length (ei_dense ei') = length (ei_dense ei)"
proof (induction n arbitrary: ei d)
  case (Suc n)
  from Suc.prems obtain ei1 x where ei1: "new_ids_loop ei1 (d + 1) n = Inr ei'"
    "ei_dense ei1 = (ei_dense ei)[d := x]"
    unfolding new_ids_loop_step Let_def by (fastforce split: if_splits)
  then have "take d (take (d + 1) (ei_dense ei')) = take d (take (d + 1) (ei_dense ei1))"
    "length (ei_dense ei') = length (ei_dense ei)"
    using Suc.IH[OF ei1(1)] by simp_all
  then show ?case by (simp add: ei1(2))
qed simp

lemma new_ids_fresh:
  "alloc_many flecs_entity_index_new_id n (ei\<lparr>ei_alive := length (ei_dense ei)\<rparr>) =
     res_bind (new_ids_loop (ei\<lparr>ei_dense := ei_dense ei @ replicate n uninit_u64, ei_alive := a\<rparr>) (length (ei_dense ei)) n)
       (\<lambda>ei'. Inr (ei'\<lparr>ei_alive := length (ei_dense ei) + n\<rparr>, drop (length (ei_dense ei)) (ei_dense ei')))"
proof (induction n arbitrary: ei)
  case (Suc n)
  define e where "e = (ucast (ei_max ei + 1) :: u64)"
  define ps where "ps = pslot_set (pgrow (ei_pages ei) (low_index e)) (low_index e) (length (ei_dense ei))"
  note mx = max_id_check[of "ei_max ei + 1"]
  show ?case
  proof (cases "eslot (ei_pages ei) (low_index e) = 0")
    case False
    then show ?thesis
      unfolding new_ids_loop_step
      using mx by (simp add: flecs_entity_index_new_id_def exists_eq Let_def e_def[symmetric])
  next
    case True
    define ei1 where "ei1 = ei\<lparr>ei_max := ei_max ei + 1, ei_dense := ei_dense ei @ [e], ei_pages := ps\<rparr>"
    have "flecs_entity_index_new_id (ei\<lparr>ei_alive := length (ei_dense ei)\<rparr>)
        = Inr (ei1\<lparr>ei_alive := length (ei_dense ei1)\<rparr>, e)"
      using True mx
      by (simp add: flecs_entity_index_new_id_def exists_eq Let_def e_def[symmetric] ensure_page_eq rec_set_dense_eq
        ei1_def ps_def)
    then have l: "alloc_many flecs_entity_index_new_id (Suc n) (ei\<lparr>ei_alive := length (ei_dense ei)\<rparr>)
      = res_bind (new_ids_loop (ei1\<lparr>ei_dense := ei_dense ei1 @ replicate n uninit_u64, ei_alive := a\<rparr>) (length (ei_dense ei1)) n)
       (\<lambda>ei'. Inr (ei'\<lparr>ei_alive := length (ei_dense ei1) + n\<rparr>, e # drop (length (ei_dense ei1)) (ei_dense ei')))"
      by (simp add: Suc.IH res_bind_assoc)
    have r: "new_ids_loop (ei\<lparr>ei_dense := ei_dense ei @ replicate (Suc n) uninit_u64, ei_alive := a\<rparr>) (length (ei_dense ei)) (Suc n)
      = new_ids_loop (ei1\<lparr>ei_dense := ei_dense ei1 @ replicate n uninit_u64, ei_alive := a\<rparr>) (length (ei_dense ei1)) n"
      unfolding new_ids_loop_step using True
      by (simp add: Let_def e_def[symmetric])
        (intro arg_cong2[where f = "\<lambda>x d. new_ids_loop x d n"] ecs_entity_index.equality, simp_all add: ei1_def ps_def)
    show ?thesis
      unfolding l r
    proof (cases "new_ids_loop (ei1\<lparr>ei_dense := ei_dense ei1 @ replicate n uninit_u64, ei_alive := a\<rparr>) (length (ei_dense ei1)) n")
      case (Inr ei')
      then have "take (length (ei_dense ei1)) (ei_dense ei') = ei_dense ei1" 
        "length (ei_dense ei') = length (ei_dense ei1) + n"
        using new_ids_loop_dense[OF Inr] by simp_all
      then have "ei_dense ei' = (ei_dense ei @ [e]) @ drop (length (ei_dense ei1)) (ei_dense ei')"
        using append_take_drop_id[of "length (ei_dense ei1)" "ei_dense ei'"] by (simp add: ei1_def)
      then have "drop (length (ei_dense ei)) (ei_dense ei') = e # drop (length (ei_dense ei1)) (ei_dense ei')"
        by (metis append_assoc append_Cons append_Nil append_eq_conv_conj)
      with Inr show "res_bind (new_ids_loop (ei1\<lparr>ei_dense := ei_dense ei1 @ replicate n uninit_u64, ei_alive := a\<rparr>) (length (ei_dense ei1)) n)
       (\<lambda>ei'. Inr (ei'\<lparr>ei_alive := length (ei_dense ei1) + n\<rparr>, e # drop (length (ei_dense ei1)) (ei_dense ei'))) =
       res_bind (new_ids_loop (ei1\<lparr>ei_dense := ei_dense ei1 @ replicate n uninit_u64, ei_alive := a\<rparr>) (length (ei_dense ei1)) n)
       (\<lambda>ei'. Inr (ei'\<lparr>ei_alive := length (ei_dense ei) + Suc n\<rparr>, drop (length (ei_dense ei)) (ei_dense ei')))"
        by (simp add: ei1_def)
    qed simp
  qed
qed simp


lemma new_ids_recycled:
  "ei_alive ei + k \<le> length (ei_dense ei) \<Longrightarrow> alloc_many flecs_entity_index_new_id k ei =
    Inr (ei\<lparr>ei_alive := ei_alive ei + k\<rparr>, take k (drop (ei_alive ei) (ei_dense ei)))"
proof (induction k arbitrary: ei)
  case (Suc k)
  define ei1 where "ei1 = ei\<lparr>ei_alive := ei_alive ei + 1\<rparr>"
  have "flecs_entity_index_new_id ei = Inr (ei1, ei_dense ei ! ei_alive ei)"
    using Suc.prems by (simp add: flecs_entity_index_new_id_def dense_get_eq ei1_def)
  moreover have "alloc_many flecs_entity_index_new_id k ei1
      = Inr (ei1\<lparr>ei_alive := ei_alive ei1 + k\<rparr>, take k (drop (ei_alive ei1) (ei_dense ei1)))"
    by (rule Suc.IH) (use Suc.prems in \<open>simp add: ei1_def\<close>)
  moreover have "drop (ei_alive ei) (ei_dense ei) = ei_dense ei ! ei_alive ei # drop (Suc (ei_alive ei)) (ei_dense ei)"
    using Suc.prems by (simp add: Cons_nth_drop_Suc)
  ultimately show ?case by (simp add: ei1_def)
qed simp

text \<open>
  Claim C14: issuing n ids at once is the same as issuing them one after the other, in the state it
  leaves, in the ids it returns a pointer to and in when it aborts, for every positive n.
\<close>

theorem entity_index_bulk:
  assumes "ei_alive ei \<le> length (ei_dense ei)" and "0 < n"
  shows "res_bind (flecs_entity_index_new_ids ei n) (\<lambda>(ei', first). Inr (ei', take n (drop first (ei_dense ei'))))
    = alloc_many flecs_entity_index_new_id n ei"
proof (cases "ei_alive ei + n < length (ei_dense ei)")
  case True
  then show ?thesis by (simp add: flecs_entity_index_new_ids_def new_ids_recycled Let_def)
next
  case False
  define k where "k = length (ei_dense ei) - ei_alive ei"
  define m where "m = n - k"
  have n: "n = k + m" "ei_alive ei + k = length (ei_dense ei)" "k = length (drop (ei_alive ei) (ei_dense ei))"
    using False assms(1) by (simp_all add: k_def m_def)
  have r: "alloc_many flecs_entity_index_new_id n ei
      = res_bind (alloc_many flecs_entity_index_new_id m (ei\<lparr>ei_alive := length (ei_dense ei)\<rparr>))
          (\<lambda>(s, js). Inr (s, drop (ei_alive ei) (ei_dense ei) @ js))"
    unfolding n(1) alloc_many_add new_ids_recycled[OF eq_imp_le[OF n(2)]] n(2) using n(3) by simp
  have d: "set_id_count (ei_alive ei + n) (ei_dense ei) = ei_dense ei @ replicate m uninit_u64"
    "ei_alive ei + n - length (ei_dense ei) = m" "length (ei_dense ei) + m = ei_alive ei + n"
    using False n by (simp_all add: set_id_count_def)
  define ei1 where "ei1 = ei\<lparr>ei_dense := ei_dense ei @ replicate m uninit_u64\<rparr>"
  have e1: "ei\<lparr>ei_dense := ei_dense ei @ replicate m uninit_u64, ei_alive := ei_alive ei\<rparr> = ei1"
    by (simp add: ei1_def)
  have l: "flecs_entity_index_new_ids ei n = res_bind (new_ids_loop ei1 (length (ei_dense ei)) m) (\<lambda>ei'.
      ecs_assert (ei_alive ei < length (ei_dense ei')) ECS_OUT_OF_RANGE (Inr (ei'\<lparr>ei_alive := ei_alive ei + n\<rparr>, ei_alive ei)))"
    using False by (simp add: flecs_entity_index_new_ids_def d Let_def ei1_def[symmetric])
  show ?thesis
    unfolding l r new_ids_fresh[of _ ei "ei_alive ei"] e1 d(3)
  proof (cases "new_ids_loop ei1 (length (ei_dense ei)) m")
    case (Inr ei')
    then have t: "take (length (ei_dense ei)) (ei_dense ei') = ei_dense ei" "length (ei_dense ei') = ei_alive ei + n"
      using new_ids_loop_dense[OF Inr] d(3) by (simp_all add: ei1_def)
    have "drop (ei_alive ei) (ei_dense ei') = drop (ei_alive ei) (take (length (ei_dense ei)) (ei_dense ei') @ drop (length (ei_dense ei)) (ei_dense ei'))"
      by simp
    also have "\<dots> = drop (ei_alive ei) (ei_dense ei) @ drop (length (ei_dense ei)) (ei_dense ei')"
      unfolding t(1) using assms(1) by simp
    finally have u: "drop (ei_alive ei) (ei_dense ei') = drop (ei_alive ei) (ei_dense ei) @ drop (length (ei_dense ei)) (ei_dense ei')" .
    have "take n (drop (ei_alive ei) (ei_dense ei')) = drop (ei_alive ei) (ei_dense ei')"
      using t(2) by simp
    then show "res_bind (res_bind (new_ids_loop ei1 (length (ei_dense ei)) m) (\<lambda>ei'.
      ecs_assert (ei_alive ei < length (ei_dense ei')) ECS_OUT_OF_RANGE (Inr (ei'\<lparr>ei_alive := ei_alive ei + n\<rparr>, ei_alive ei))))
      (\<lambda>(ei', first). Inr (ei', take n (drop first (ei_dense ei')))) =
      res_bind (res_bind (new_ids_loop ei1 (length (ei_dense ei)) m)
       (\<lambda>ei'. Inr (ei'\<lparr>ei_alive := ei_alive ei + n\<rparr>, drop (length (ei_dense ei)) (ei_dense ei'))))
       (\<lambda>(s, js). Inr (s, drop (ei_alive ei) (ei_dense ei) @ js))"
      unfolding u[symmetric] using Inr t(2) assms(2) u by simp
  qed simp
qed

theorem entity_index_bulk_witness:
  "res_bind (flecs_entity_index_new_ids flecs_entity_index_init 3) (\<lambda>(ei', first). Inr (ei', take 3 (drop first (ei_dense ei'))))
    = alloc_many flecs_entity_index_new_id 3 flecs_entity_index_init"
  by (rule entity_index_bulk; simp add: flecs_entity_index_init_def set_id_count_def)

section \<open>Entity lifetimes\<close>

text \<open>The id that an index stands for: of the alive entity, or the one to be issued next.\<close>

definition es_cur :: "entity_spec \<Rightarrow> nat \<Rightarrow> u64 set" where
  "es_cur es n = {x. es_alive es n = Some x \<or> x \<in> set (es_dead es) \<and> low_index x = n}"

text \<open>Issuing and removing only.\<close>

fun lifetime_op :: "entity_op \<Rightarrow> bool" where
  "lifetime_op (EiEnsure e) = False"
| "lifetime_op (EiMakeAlive e) = False"
| "lifetime_op EiClear = False"
| "lifetime_op _ = True"

definition es_later :: "u64 \<Rightarrow> nat \<Rightarrow> entity_spec \<Rightarrow> bool" where
  "es_later e k es \<longleftrightarrow> es_cur es (low_index e) \<subseteq> {(ECS_GENERATION_INC ^^ j) e | j. 0 < j \<and> j \<le> k}
     \<and> es_cur es (low_index e) \<noteq> {}"

lemma es_later_step:
  assumes "es_later e k es" and "lifetime_op x" and "es_exec x es = Inr (es', out)"
  shows "es_later e (case x of EiRemove _ \<Rightarrow> Suc k | _ \<Rightarrow> k) es'"
  using assms(2)
proof (cases x)
  case (EiRemove y)
  define n where "n = low_index e"
  have es': "es' = es_remove y es" using assms(3) EiRemove by simp
  have sub: "es_cur es n \<subseteq> {(ECS_GENERATION_INC ^^ j) e | j. 0 < j \<and> j \<le> k}" and ne: "es_cur es n \<noteq> {}"
    using assms(1) by (simp_all add: es_later_def n_def)
  have "es_later e (Suc k) es'"
  proof (cases "es_alive es (low_index y) = Some y \<and> low_index y = n")
    case True
    then obtain j where j: "y = (ECS_GENERATION_INC ^^ j) e" "0 < j" "j \<le> k"
      using sub by (auto simp: es_cur_def)
    then have "ECS_GENERATION_INC y = (ECS_GENERATION_INC ^^ Suc j) e" "Suc j \<le> Suc k" by simp_all
    moreover have "es_cur es' n \<subseteq> insert (ECS_GENERATION_INC y) (es_cur es n)" "ECS_GENERATION_INC y \<in> es_cur es' n"
      using True by (auto simp: es' es_remove_def es_cur_def)
    ultimately show ?thesis
      using sub unfolding es_later_def n_def[symmetric] by (blast intro: le_SucI)
  next
    case False
    then have "es_cur es' n = es_cur es n"
      by (auto simp: es' es_remove_def es_cur_def)
    then show ?thesis
      using sub ne unfolding es_later_def n_def[symmetric] by (blast intro: le_SucI)
  qed
  then show ?thesis by (simp add: EiRemove)
next
  case EiNew
  then obtain y where y: "es_new_id es = Inr (es', y)"
    using assms(3) by (auto simp: res_elims split: prod.splits)
  have "es_cur es' (low_index e) \<subseteq> es_cur es (low_index e) \<and> es_cur es' (low_index e) \<noteq> {}"
  proof (cases "es_dead es")
    case (Cons d ds)
    then have es': "es' = es\<lparr>es_alive := (es_alive es)(low_index d \<mapsto> d), es_dead := ds\<rparr>"
      using y by (auto simp: es_new_id_def)
    show ?thesis
      using assms(1) Cons by (cases "low_index d = low_index e") (auto simp: es' es_cur_def es_later_def)
  next
    case Nil
    then have es': "es' = es\<lparr>es_alive := (es_alive es)(low_index y \<mapsto> y), es_top := es_top es + 1\<rparr>"
      "es_alive es (low_index y) = None"
      using y by (auto simp: es_new_id_def Let_def split: if_splits)
    then have "low_index y \<noteq> low_index e"
      using assms(1) Nil by (auto simp: es_cur_def es_later_def)
    then show ?thesis
      using assms(1) Nil by (auto simp: es' es_cur_def es_later_def)
  qed
  then show ?thesis using assms(1) unfolding EiNew es_later_def by auto
qed (use assms in auto)

definition removals :: "entity_op list \<Rightarrow> nat" where
  "removals xs = length [x \<leftarrow> xs. case x of EiRemove _ \<Rightarrow> True | _ \<Rightarrow> False]"

lemma es_later_run:
  "es_later e k es \<Longrightarrow> list_all lifetime_op xs \<Longrightarrow> es_run xs es = Inr (es', outs) \<Longrightarrow>
    es_later e (k + removals xs) es'"
proof (induction xs arbitrary: k es outs)
  case Nil
  then show ?case by (simp add: removals_def)
next
  case (Cons x xs)
  from Cons.prems(3) obtain es1 out1 outs1 where x: "es_exec x es = Inr (es1, out1)" "es_run xs es1 = Inr (es', outs1)"
    by (auto simp: res_elims split: prod.splits)
  have "es_later e (case x of EiRemove _ \<Rightarrow> Suc k | _ \<Rightarrow> k) es1"
    using es_later_step[OF Cons.prems(1) _ x(1)] Cons.prems(2) by simp
  from Cons.IH[OF this _ x(2)] Cons.prems(2) show ?case
    by (cases x) (simp_all add: removals_def)
qed

lemma generation_inc_pow_neq: "0 < j \<Longrightarrow> j < 2 ^ 16 \<Longrightarrow> (ECS_GENERATION_INC ^^ j) e \<noteq> e"
proof
  assume j: "0 < j" "j < 2 ^ 16" and eq: "(ECS_GENERATION_INC ^^ j) e = e"
  let ?g = "unat (ECS_GENERATION e)"
  have "(?g + j) mod 2 ^ 16 = ?g mod 2 ^ 16"
    using generation_inc_pow(1)[of j e] unat_generation[of e] unfolding eq by simp
  then have "2 ^ 16 dvd j"
    by (subst (asm) mod_eq_dvd_iff_nat) simp_all
  with j show False by (simp add: nat_dvd_not_less)
qed

lemma es_later_dead:
  assumes "es_later e k es" "k < 2 ^ 16"
  shows "es_alive es (low_index e) \<noteq> Some e"
proof
  assume "es_alive es (low_index e) = Some e"
  then have "e \<in> es_cur es (low_index e)" by (simp add: es_cur_def)
  with assms(1) have "e \<in> {(ECS_GENERATION_INC ^^ j) e | j. 0 < j \<and> j \<le> k}"
    unfolding es_later_def by (elim conjE) (rule subsetD)
  then obtain j where "0 < j" "j \<le> k" "(ECS_GENERATION_INC ^^ j) e = e" by force
  then show False
    using generation_inc_pow_neq[of j e] assms(2) by simp
qed

lemma es_later_removed:
  assumes "ei_wf ei" "es_alive (ei_abs ei) (low_index e) = Some e"
  shows "es_later e 1 (es_remove e (ei_abs ei))"
proof -
  have "alive_at (eslot (ei_pages ei)) (ei_alive ei) (low_index e)"
    using assms(2) by (auto simp: ei_abs_def alive_map_def split: if_splits)
  then have "low_index e \<notin> low_index ` set (es_dead (ei_abs ei))"
    using dead_low[OF ei_wfD(3,1,2)[OF assms(1)], of "low_index e"] by (simp add: ei_abs_def alive_at_def)
  then have "low_index x \<noteq> low_index e" if "x \<in> set (es_dead (ei_abs ei))" for x
    using that by (metis image_eqI)
  then have "es_cur (es_remove e (ei_abs ei)) (low_index e) = {ECS_GENERATION_INC e}"
    using assms(2) by (auto simp: es_cur_def es_remove_def)
  then show ?thesis by (auto simp: es_later_def intro!: exI[of _ "Suc 0"])
qed

text \<open>
  Claim C12: a handle to a removed entity stays dead. Whatever was done to the index before, once
  the entity is removed no issuing of ids and fewer than 65535 further removals makes the old id
  pass for alive again, although its index is recycled.
\<close>

theorem entity_stale_handle:
  assumes "ei_run before flecs_entity_index_init = Inr (ei, outs)" and "flecs_entity_index_is_alive ei e = Inr True"
    and "ei_run (EiRemove e # later) ei = Inr (ei', outs')" and "list_all lifetime_op later" and "removals later < 65535"
  shows "flecs_entity_index_is_alive ei' e = Inr False"
proof -
  have wf: "ei_wf ei" "ei_active ei = None"
    using ei_run_simulates[OF entity_init(1,3), of before] assms(1) by (auto split: sum.splits prod.splits)
  have alive: "es_alive (ei_abs ei) (low_index e) = Some e"
    using assms(2) is_alive_eq[OF wf(1)] by simp
  obtain es' where "es_run later (es_remove e (ei_abs ei)) = Inr (es', tl outs')" and ei': "ei_wf ei'" "ei_abs ei' = es'"
    using ei_run_simulates[OF wf, of "EiRemove e # later"] assms(3) 
    by (auto simp: res_elims split: sum.splits prod.splits)
  then have "es_later e (1 + removals later) es'"
    using es_later_run[OF es_later_removed[OF wf(1) alive] assms(4)] by blast
  from es_later_dead[OF this] assms(5) show ?thesis
    using is_alive_eq[OF ei'(1), of e] ei'(2) by simp
qed


lemma ei_run_init:
  assumes "es_run xs es_empty = Inr (es', outs)"
  obtains ei where "ei_run xs flecs_entity_index_init = Inr (ei, outs)" "ei_wf ei" "ei_active ei = None" "ei_abs ei = es'"
  using ei_run_simulates[OF entity_init(1,3), of xs] assms
  unfolding entity_init(2) es_empty_def[symmetric] by auto

theorem entity_stale_handle_witness:
  "res_bind (ei_run [EiNew, EiNew] flecs_entity_index_init) (\<lambda>(ei, _).
   res_bind (ei_run [EiRemove 1, EiNew, EiRemove 2, EiNew] ei) (\<lambda>(ei', _).
     flecs_entity_index_is_alive ei' 1)) = Inr False"
proof -
  define es where "es = \<lparr>es_alive = (\<lambda>_. None)(1 \<mapsto> 1, 2 \<mapsto> 2), es_dead = [], es_top = 2\<rparr>"
  have low: "low_index 1 = 1" "low_index 2 = 2" by (simp_all add: low_index_def)
  have "es_run [EiNew, EiNew] es_empty = Inr (es, [EoId 1, EoId 2])"
    by (simp add: es_empty_def es_new_id_def Let_def low es_def)
  then obtain ei where ei: "ei_run [EiNew, EiNew] flecs_entity_index_init = Inr (ei, [EoId 1, EoId 2])"
    "ei_wf ei" "ei_active ei = None" "ei_abs ei = es" by (rule ei_run_init)
  then have alive: "flecs_entity_index_is_alive ei 1 = Inr True"
    by (simp add: is_alive_eq low es_def)
  have "\<exists>q. es_run [EiRemove 1, EiNew, EiRemove 2, EiNew] es = Inr q"
    by (simp add: es_def es_new_id_def es_remove_def low)
  then obtain ei' outs' where ei': "ei_run [EiRemove 1, EiNew, EiRemove 2, EiNew] ei = Inr (ei', outs')"
    using ei_run_simulates[OF ei(2,3), of "[EiRemove 1, EiNew, EiRemove 2, EiNew]"] ei(4)
    by (auto split: prod.splits simp del: ei_run.simps es_run.simps)
  have "flecs_entity_index_is_alive ei' 1 = Inr False"
    by (rule entity_stale_handle[OF ei(1) alive ei']) (simp_all add: removals_def)
  then show ?thesis
    by (simp only: ei(1) ei' res_bind_simps split_conv)
qed

section \<open>The entity index as an allocator of ids\<close>

definition ei_alloc_wf :: "ecs_entity_index \<Rightarrow> bool" where
  "ei_alloc_wf ei \<longleftrightarrow> ei_wf ei \<and> ei_active ei = None
     \<and> (\<forall>n. es_seen (ei_abs ei) n \<longleftrightarrow> 0 < n \<and> n \<le> unat (ei_max ei))"

definition ei_live :: "ecs_entity_index \<Rightarrow> u64 set" where
  "ei_live ei = ran (es_alive (ei_abs ei))"

lemma ei_live_low: "ei_wf ei \<Longrightarrow> i \<in> ei_live ei \<longleftrightarrow> es_alive (ei_abs ei) (low_index i) = Some i"
  using es_alive_low[of ei] by (auto simp: ei_live_def ran_def)

lemma ei_live_alive: "ei_wf ei \<Longrightarrow> i \<in> ei_live ei \<longleftrightarrow> flecs_entity_index_is_alive ei i = Inr True"
  by (simp add: ei_live_low is_alive_eq)

lemma low_ei_live:
  assumes "ei_wf ei"
  shows "low_index ` ei_live ei = dom (es_alive (ei_abs ei))"
proof (intro set_eqI iffI)
  fix n
  assume "n \<in> dom (es_alive (ei_abs ei))"
  then obtain x where x: "es_alive (ei_abs ei) n = Some x" by auto
  then have "low_index x = n" by (rule es_alive_low[OF assms])
  with x show "n \<in> low_index ` ei_live ei" by (auto simp: ei_live_def ran_def)
qed (auto simp: ei_live_low[OF assms])

lemma card_ei_live:
  assumes "ei_wf ei"
  shows "finite (ei_live ei)" "card (ei_live ei) = card (dom (es_alive (ei_abs ei)))"
proof -
  have "inj_on low_index (ei_live ei)"
    using ei_live_low[OF assms] by (intro inj_onI) (metis option.inject)
  moreover have "finite (dom (es_alive (ei_abs ei)))"
    using finite_alive(1)[OF assms] by simp
  ultimately show "finite (ei_live ei)" "card (ei_live ei) = card (dom (es_alive (ei_abs ei)))"
    using low_ei_live[OF assms] by (metis finite_imageD, metis card_image)
qed

lemma dead_not_alive:
  assumes "ei_wf ei" "n \<in> low_index ` set (es_dead (ei_abs ei))"
  shows "es_alive (ei_abs ei) n = None"
  using dead_low[OF ei_wfD(3,1,2)[OF assms(1)], of n] assms(2) by (auto simp: ei_abs_def alive_map_def alive_at_def)

lemma alloc_seen: 
  "ei_alloc_wf ei \<Longrightarrow> dom (es_alive (ei_abs ei)) \<subseteq> {0<..unat (ei_max ei)}"
  by (auto simp: ei_alloc_wf_def es_seen_def)

lemma entity_alloc_card:
  assumes "ei_alloc_wf ei"
  shows "card (ei_live ei) \<le> 2 ^ 32 - 1"
proof -
  have "card (ei_live ei) \<le> card {0<..unat (ei_max ei)}"
    using assms alloc_seen[OF assms] card_mono[of "{0<..unat (ei_max ei)}"]
    by (simp add: card_ei_live(2) ei_alloc_wf_def)
  also have "\<dots> \<le> 2 ^ 32 - 1" using max_id_check[of "ei_max ei"] by simp
  finally show ?thesis .
qed

lemma entity_alloc_new:
  assumes wf: "ei_alloc_wf ei" and c: "card (ei_live ei) < 2 ^ 32 - 1"
  shows "\<exists>ei' i. flecs_new_id ei = Inr (ei', i) \<and> ei_alloc_wf ei' \<and> low_index i \<notin> low_index ` ei_live ei
    \<and> ei_live ei' = insert i (ei_live ei)"
proof -
  have w: "ei_wf ei" "ei_active ei = None" "\<And>n. es_seen (ei_abs ei) n \<longleftrightarrow> 0 < n \<and> n \<le> unat (ei_max ei)"
    using wf by (simp_all add: ei_alloc_wf_def)
  have top: "es_top (ei_abs ei) = ei_max ei" for ei by (simp add: ei_abs_def)
  define es where "es = ei_abs ei"
  obtain es' i where step: "es_new_id es = Inr (es', i)" and al: "es_alive es' = (es_alive es)(low_index i \<mapsto> i)"
    and none: "es_alive es (low_index i) = None"
    and seen: "\<And>n. es_seen es' n \<longleftrightarrow> 0 < n \<and> n \<le> unat (es_top es')"
  proof (cases "es_dead es")
    case (Cons d ds)
    show thesis
    proof (rule that[of "es\<lparr>es_alive := (es_alive es)(low_index d \<mapsto> d), es_dead := ds\<rparr>" d])
      show "es_alive es (low_index d) = None"
        using dead_not_alive[OF w(1), of "low_index d"] Cons by (simp add: es_def)
      show "es_seen (es\<lparr>es_alive := (es_alive es)(low_index d \<mapsto> d), es_dead := ds\<rparr>) n
          \<longleftrightarrow> 0 < n \<and> n \<le> unat (es_top (es\<lparr>es_alive := (es_alive es)(low_index d \<mapsto> d), es_dead := ds\<rparr>))" for n
        using w(3)[of n] Cons top[of ei] by (auto simp: es_def es_seen_def)
    qed (simp_all add: es_new_id_def Cons)
  next
    case Nil
    have "n \<in> dom (es_alive es) \<longleftrightarrow> n \<in> {0<..unat (ei_max ei)}" for n
      using w(3)[of n] Nil by (simp add: es_def es_seen_def dom_def)
    then have d: "dom (es_alive es) = {0<..unat (ei_max ei)}" by blast
    then have "unat (ei_max ei) < 2 ^ 32 - 1"
      using c card_ei_live(2)[OF w(1)] by (simp add: es_def)
    then have m: "unat (ei_max ei + 1) = unat (ei_max ei) + 1"
      by (simp add: unat_plus_if')
    define i where "i = (ucast (es_top es + 1) :: u64)"
    have i: "low_index i = unat (ei_max ei) + 1"
      unfolding i_def es_def top m[symmetric] by (rule low_index_ucast)
    have "low_index i \<notin> dom (es_alive es)" by (simp add: d i)
    then have n: "es_alive es (low_index i) = None" by blast
    show thesis
    proof (rule that[of "es\<lparr>es_alive := (es_alive es)(low_index i \<mapsto> i), es_top := es_top es + 1\<rparr>" i])
      show "es_seen (es\<lparr>es_alive := (es_alive es)(low_index i \<mapsto> i), es_top := es_top es + 1\<rparr>) k
          \<longleftrightarrow> 0 < k \<and> k \<le> unat (es_top (es\<lparr>es_alive := (es_alive es)(low_index i \<mapsto> i), es_top := es_top es + 1\<rparr>))" for k
        using w(3)[of k] Nil top[of ei] m i by (auto simp: es_def es_seen_def)
    qed (use n Nil in \<open>simp_all add: es_new_id_def i_def Let_def\<close>)
  qed
  then obtain ei' where ei': "flecs_new_id ei = Inr (ei', i)" "ei_wf ei'" "ei_abs ei' = es'" "ei_active ei' = None"
    using entity_new[OF w(1,2)] by (auto simp: es_def split: sum.splits)
  moreover have "ei_alloc_wf ei'"
    using ei' seen top[of ei'] by (simp add: ei_alloc_wf_def)
  moreover have "ei_live ei' = insert i (ei_live ei)"
    unfolding ei_live_def ei'(3) al es_def[symmetric] using none by (rule ran_map_upd)
  moreover have "low_index i \<notin> low_index ` ei_live ei"
    unfolding low_ei_live[OF w(1)] using none by (auto simp: es_def)
  ultimately show ?thesis by blast
qed

lemma entity_alloc_free:
  assumes wf: "ei_alloc_wf ei" and i: "i \<in> ei_live ei"
  shows "\<exists>ei'. flecs_entity_index_remove ei i = Inr ei' \<and> ei_alloc_wf ei' \<and> ei_live ei' = ei_live ei - {i}
    \<and> es_dead (ei_abs ei') = ECS_GENERATION_INC i # es_dead (ei_abs ei)"
proof -
  have w: "ei_wf ei" "ei_active ei = None" "\<And>n. es_seen (ei_abs ei) n \<longleftrightarrow> 0 < n \<and> n \<le> unat (ei_max ei)"
    using wf by (simp_all add: ei_alloc_wf_def)
  have a: "es_alive (ei_abs ei) (low_index i) = Some i" using i ei_live_low[OF w(1)] by simp
  obtain ei' where ei': "flecs_entity_index_remove ei i = Inr ei'" "ei_wf ei'" "ei_abs ei' = es_remove i (ei_abs ei)"
    "ei_active ei' = None" by (rule entity_remove[OF w(1,2)])
  have "ei_max ei' = es_top (es_remove i (ei_abs ei))" unfolding ei'(3)[symmetric] by (simp add: ei_abs_def)
  then have "ei_max ei' = ei_max ei" by (simp add: es_remove_def) (simp add: ei_abs_def)
  moreover have "es_seen (es_remove i (ei_abs ei)) n = es_seen (ei_abs ei) n" for n
    using a by (auto simp: es_seen_def es_remove_def)
  ultimately have "ei_alloc_wf ei'"
    using ei' w(3) by (simp add: ei_alloc_wf_def)
  moreover have "ei_live ei' = ei_live ei - {i}"
  proof (rule set_eqI)
    fix x
    show "x \<in> ei_live ei' \<longleftrightarrow> x \<in> ei_live ei - {i}"
      using a by (auto simp: ei_live_low[OF ei'(2)] ei_live_low[OF w(1)] ei'(3) es_remove_def split: if_splits)
  qed
  ultimately show ?thesis using ei' a by (auto simp: es_remove_def)
qed

lemma entity_alloc_reuse:
  assumes wf: "ei_alloc_wf ei" and i: "i \<in> ei_live ei" and r: "flecs_entity_index_remove ei i = Inr ei1"
  shows "\<exists>ei2. flecs_new_id ei1 = Inr (ei2, ECS_GENERATION_INC i)"
proof -
  have "ei_alloc_wf ei1" "es_dead (ei_abs ei1) = ECS_GENERATION_INC i # es_dead (ei_abs ei)"
    using entity_alloc_free[OF wf i] r by auto
  then show ?thesis
    using entity_new[of ei1] by (auto simp: ei_alloc_wf_def es_new_id_def)
qed

interpretation eia: id_allocator ei_alloc_wf ei_live "2 ^ 32 - 1" flecs_new_id flecs_entity_index_remove
proof unfold_locales
  fix ei :: ecs_entity_index
  assume w: "ei_alloc_wf ei"
  then show "finite (ei_live ei)" by (simp add: card_ei_live(1) ei_alloc_wf_def)
  from w show "card (ei_live ei) \<le> 2 ^ 32 - 1" by (rule entity_alloc_card)
next
  fix ei :: ecs_entity_index and i
  assume "ei_alloc_wf ei" "i \<in> ei_live ei"
  then show "\<exists>ei'. flecs_entity_index_remove ei i = Inr ei' \<and> ei_alloc_wf ei' \<and> ei_live ei' = ei_live ei - {i}"
    using entity_alloc_free by blast
qed (rule entity_alloc_new entity_alloc_reuse; assumption)+

lemma entity_init_alloc: "ei_alloc_wf flecs_entity_index_init" "ei_live flecs_entity_index_init = {}"
  by (auto simp: ei_alloc_wf_def ei_live_def entity_init es_seen_def) (simp add: flecs_entity_index_init_def)

lemma issue_many_grows:
  "alloc_many flecs_new_id n ei = Inr (ei', ids) \<Longrightarrow> length (ei_dense ei') \<le> length (ei_dense ei) + n"
  by (induction n arbitrary: ei ids) (fastforce simp: res_elims dest!: issue_grows)+

text \<open>
  Claim C21: a fresh entity index issues any number of entities below 2\^30 without aborting,
  with pairwise different indices, all of them alive; the vector of ids then has at most 2\^30 positions,
  so that its counters fit int32\_t. Removing any selection of the entities succeeds and leaves exactly
  the others alive.
\<close>

theorem entity_ids_issued_and_removed:
  assumes "n < 2 ^ 30"
  shows "\<exists>ei ids. alloc_many flecs_new_id n flecs_entity_index_init = Inr (ei, ids)
    \<and> length ids = n \<and> distinct (map low_index ids)
    \<and> ei_alive ei \<le> length (ei_dense ei) \<and> length (ei_dense ei) \<le> 2 ^ 30
    \<and> (\<forall>dead. distinct dead \<and> set dead \<subseteq> set ids \<longrightarrow>
        (\<exists>ei'. res_fold flecs_entity_index_remove ei dead = Inr ei'
          \<and> (\<forall>e. flecs_entity_index_is_alive ei' e = Inr (e \<in> set ids - set dead))))"
proof -
  have "card (ei_live flecs_entity_index_init) + n \<le> 2 ^ 32 - 1"
    unfolding entity_init_alloc using assms by simp
  from eia.new_many[OF entity_init_alloc(1) this] obtain ei ids where
    a: "alloc_many flecs_new_id n flecs_entity_index_init = Inr (ei, ids)" "ei_alloc_wf ei" "length ids = n"
    "distinct (map low_index ids)" "ei_live ei = set ids"
    unfolding entity_init_alloc by auto
  have g: "ei_alive ei \<le> length (ei_dense ei)" "length (ei_dense ei) \<le> 2 ^ 30"
    using issue_many_grows[OF a(1)] a(2) assms by (simp_all add: init_length ei_alloc_wf_def ei_wf_def)
  have "\<exists>ei'. res_fold flecs_entity_index_remove ei dead = Inr ei'
        \<and> (\<forall>e. flecs_entity_index_is_alive ei' e = Inr (e \<in> set ids - set dead))"
    if d: "distinct dead" "set dead \<subseteq> set ids" for dead
  proof -
    from eia.free_all[OF a(2) d(1)] d(2) a(5) obtain ei' where
      ei': "res_fold flecs_entity_index_remove ei dead = Inr ei'" "ei_alloc_wf ei'" "ei_live ei' = set ids - set dead"
      by auto
    then have "flecs_entity_index_is_alive ei' e = Inr (e \<in> set ids - set dead)" for e
      using ei_live_low[of ei' e] is_alive_eq[of ei' e] by (simp add: ei_alloc_wf_def)
    with ei' show ?thesis by blast
  qed
  with a g show ?thesis by blast
qed
theorem entity_ids_issued_and_removed_witness:
  "\<exists>ei ids. alloc_many flecs_new_id 5 flecs_entity_index_init = Inr (ei, ids)
    \<and> length ids = 5 \<and> distinct (map low_index ids)
    \<and> ei_alive ei \<le> length (ei_dense ei) \<and> length (ei_dense ei) \<le> 2 ^ 30
    \<and> (\<forall>dead. distinct dead \<and> set dead \<subseteq> set ids \<longrightarrow>
        (\<exists>ei'. res_fold flecs_entity_index_remove ei dead = Inr ei'
          \<and> (\<forall>e. flecs_entity_index_is_alive ei' e = Inr (e \<in> set ids - set dead))))"
  by (rule entity_ids_issued_and_removed) simp

end
