(* ===== verification/Entity_Ranges.thy ===== *)
theory Entity_Ranges
  imports Entity_Index
begin

text \<open>
  Id ranges: the vector of ranges stays sorted and free of overlaps under every operation, and the
  binary search over it is exact. The last section shows where the entity index does not keep
  what it promises.
\<close>

section \<open>Id ranges\<close>

definition in_range :: "u32 \<Rightarrow> entity_range \<Rightarrow> bool" where
  "in_range uid rg \<longleftrightarrow> rg_min rg \<le> uid \<and> (rg_max rg = 0 \<or> uid \<le> rg_max rg)"

text \<open>One range ends before the other begins.\<close>

definition range_before :: "entity_range list \<Rightarrow> nat \<Rightarrow> nat \<Rightarrow> bool" where
  "range_before heap p q \<longleftrightarrow> rg_max (heap ! p) \<noteq> 0 \<and> rg_max (heap ! p) < rg_min (heap ! q)"

definition range_ok :: "entity_range list \<Rightarrow> nat \<Rightarrow> bool" where
  "range_ok heap p \<longleftrightarrow> p < length heap \<and> (rg_max (heap ! p) = 0 \<or> rg_min (heap ! p) \<le> rg_max (heap ! p))"

definition ranges_wf :: "ecs_entity_index \<Rightarrow> bool" where
  "ranges_wf ei \<longleftrightarrow> (\<forall>p\<in>set (ei_ranges ei). range_ok (ei_heap ei) p) \<and> sorted_wrt (range_before (ei_heap ei)) (ei_ranges ei)"

lemma before_right: "range_before h p q \<Longrightarrow> range_ok h p \<Longrightarrow> uid < rg_min (h ! p) \<Longrightarrow> \<not> in_range uid (h ! q)"
  by (auto simp: range_before_def range_ok_def in_range_def)

lemma before_left: "range_before h p q \<Longrightarrow> rg_min (h ! q) \<le> uid \<Longrightarrow> \<not> in_range uid (h ! p)"
  by (auto simp: range_before_def in_range_def)

lemma find_range_loop_ok:
  assumes "ranges_wf ei" and "0 \<le> lo" and "hi < int (length (ei_ranges ei))"
  shows "\<exists>r. find_range_loop ei uid lo hi = Inr r \<and>
    (case r of
       Some p \<Rightarrow> p \<in> set (ei_ranges ei) \<and> in_range uid (ei_heap ei ! p)
     | None \<Rightarrow> \<forall>m. lo \<le> int m \<and> int m \<le> hi \<longrightarrow> \<not> in_range uid (ei_heap ei ! (ei_ranges ei ! m)))"
  using assms
proof (induction ei uid lo hi rule: find_range_loop.induct)
  case (1 ei uid lo hi)
  show ?case
  proof (cases "lo \<le> hi")
    case False
    then show ?thesis by (subst find_range_loop.simps) auto
  next
    case True
    define k where "k = nat ((lo + hi) div 2)"
    have k: "int k = (lo + hi) div 2" "lo \<le> int k" "int k \<le> hi" "k < length (ei_ranges ei)"
      using True 1(4,5) by (auto simp: k_def)
    define p where "p = ei_ranges ei ! k"
    define r where "r = ei_heap ei ! p"
    have p: "p \<in> set (ei_ranges ei)" "range_ok (ei_heap ei) p"
      using k(4) 1(3) by (auto simp: p_def ranges_wf_def)
    have ord: "range_before (ei_heap ei) (ei_ranges ei ! i) (ei_ranges ei ! j)" if "i < j" "j < length (ei_ranges ei)" for i j
      using 1(3) that by (simp add: ranges_wf_def sorted_wrt_nth_less)
    have step: "find_range_loop ei uid lo hi =
        (if uid < rg_min r then find_range_loop ei uid lo (int k - 1)
         else if rg_max r \<noteq> 0 \<and> uid > rg_max r then find_range_loop ei uid (int k + 1) hi
         else Inr (Some p))"
      using True k p by (subst find_range_loop.simps) (simp add: Let_def int_index_def mem_get_def p_def[symmetric] r_def range_ok_def flip: k(1))
    consider (left) "uid < rg_min r" | (right) "rg_min r \<le> uid" "rg_max r \<noteq> 0" "rg_max r < uid" | (found) "in_range uid r"
      unfolding in_range_def by (meson not_le)
    then show ?thesis
    proof cases
      case left
      have "\<not> in_range uid (ei_heap ei ! (ei_ranges ei ! m))" if "int k \<le> int m" "int m \<le> hi" for m
      proof (cases "m = k")
        case True
        then show ?thesis using left by (auto simp: in_range_def r_def p_def)
      next
        case False
        then show ?thesis using that 1(5) before_right[OF ord[of k m]] p left by (simp add: r_def p_def)
      qed
      note out = this
      have eq: "find_range_loop ei uid lo hi = find_range_loop ei uid lo (int k - 1)"
        using step left by simp
      have "int k - 1 < int (length (ei_ranges ei))" using k(4) by simp
      from 1(1)[OF True refl left 1(3,4), folded k(1), OF this] obtain q where
        q: "find_range_loop ei uid lo (int k - 1) = Inr q" "case q of
           Some p \<Rightarrow> p \<in> set (ei_ranges ei) \<and> in_range uid (ei_heap ei ! p)
         | None \<Rightarrow> \<forall>m. lo \<le> int m \<and> int m \<le> int k - 1 \<longrightarrow> \<not> in_range uid (ei_heap ei ! (ei_ranges ei ! m))"
        by blast
      show ?thesis
        unfolding eq q(1)
      proof (cases q)
        case None
        then have "\<not> in_range uid (ei_heap ei ! (ei_ranges ei ! m))" if "lo \<le> int m" "int m \<le> hi" for m
          using q(2) out[of m] that by (cases "int m \<le> int k - 1") auto
        then show "\<exists>r. Inr q = Inr r \<and> (case r of
           Some p \<Rightarrow> p \<in> set (ei_ranges ei) \<and> in_range uid (ei_heap ei ! p)
         | None \<Rightarrow> \<forall>m. lo \<le> int m \<and> int m \<le> hi \<longrightarrow> \<not> in_range uid (ei_heap ei ! (ei_ranges ei ! m)))"
          using None by simp
      qed (use q(2) in simp)
    next
      case right
      have "\<not> in_range uid (ei_heap ei ! (ei_ranges ei ! m))" if "int m \<le> int k" for m
      proof (cases "m = k")
        case True
        then show ?thesis using right by (auto simp: in_range_def r_def p_def)
      next
        case False
        then show ?thesis using that k(4) before_left[OF ord[of m k]] right(1) by (simp add: r_def p_def)
      qed
      note out = this
      have nl: "\<not> uid < rg_min r" and nr: "rg_max r \<noteq> 0 \<and> rg_max r < uid" using right by (simp_all add: not_less)
      have eq: "find_range_loop ei uid lo hi = find_range_loop ei uid (int k + 1) hi"
        using step nl nr by simp
      have "0 \<le> int k + 1" by simp
      from 1(2)[OF True refl nl nr 1(3), folded k(1), OF this 1(5)] obtain q where
        q: "find_range_loop ei uid (int k + 1) hi = Inr q" "case q of
           Some p \<Rightarrow> p \<in> set (ei_ranges ei) \<and> in_range uid (ei_heap ei ! p)
         | None \<Rightarrow> \<forall>m. int k + 1 \<le> int m \<and> int m \<le> hi \<longrightarrow> \<not> in_range uid (ei_heap ei ! (ei_ranges ei ! m))"
        by blast
      show ?thesis
        unfolding eq q(1)
      proof (cases q)
        case None
        then have "\<not> in_range uid (ei_heap ei ! (ei_ranges ei ! m))" if "lo \<le> int m" "int m \<le> hi" for m
          using q(2) out[of m] that by (cases "int k + 1 \<le> int m") auto
        then show "\<exists>r. Inr q = Inr r \<and> (case r of
           Some p \<Rightarrow> p \<in> set (ei_ranges ei) \<and> in_range uid (ei_heap ei ! p)
         | None \<Rightarrow> \<forall>m. lo \<le> int m \<and> int m \<le> hi \<longrightarrow> \<not> in_range uid (ei_heap ei ! (ei_ranges ei ! m)))"
          using None by simp
      qed (use q(2) in simp)
    next
      case found
      then show ?thesis using step p by (auto simp: in_range_def r_def)
    qed
  qed
qed


lemma ranges_unique:
  assumes "ranges_wf ei" "p \<in> set (ei_ranges ei)" "q \<in> set (ei_ranges ei)"
    and "in_range uid (ei_heap ei ! p)" "in_range uid (ei_heap ei ! q)"
  shows "p = q"
proof -
  obtain i j where i: "i < length (ei_ranges ei)" "p = ei_ranges ei ! i" and j: "j < length (ei_ranges ei)" "q = ei_ranges ei ! j"
    using assms(2,3) by (metis in_set_conv_nth)
  have no: "\<not> range_before (ei_heap ei) x y" if "in_range uid (ei_heap ei ! x)" "in_range uid (ei_heap ei ! y)" for x y
    using that before_left[of "ei_heap ei" x y uid] by (auto simp: in_range_def)
  have "\<not> i < j" "\<not> j < i"
    using assms(1) no[OF assms(4,5)] no[OF assms(5,4)] i j by (auto simp: ranges_wf_def sorted_wrt_iff_nth_less)
  with i j show ?thesis by simp
qed

lemma find_range_ok:
  assumes "ranges_wf ei"
  shows "flecs_entity_index_find_range ei uid = Inr (find (\<lambda>p. in_range uid (ei_heap ei ! p)) (ei_ranges ei))"
proof (cases "ei_ranges ei = []")
  case False
  from find_range_loop_ok[OF assms, of 0 "int (length (ei_ranges ei)) - 1" uid] obtain q where
    q: "find_range_loop ei uid 0 (int (length (ei_ranges ei)) - 1) = Inr q" "case q of
       Some p \<Rightarrow> p \<in> set (ei_ranges ei) \<and> in_range uid (ei_heap ei ! p)
     | None \<Rightarrow> \<forall>m. 0 \<le> int m \<and> int m \<le> int (length (ei_ranges ei)) - 1 \<longrightarrow> \<not> in_range uid (ei_heap ei ! (ei_ranges ei ! m))"
    by auto
  have "find (\<lambda>p. in_range uid (ei_heap ei ! p)) (ei_ranges ei) = q"
  proof (cases q)
    case None
    then have "\<not> in_range uid (ei_heap ei ! x)" if "x \<in> set (ei_ranges ei)" for x
      using q(2) that by (auto simp: in_set_conv_nth)
    then show ?thesis using None by (simp add: find_None_iff)
  next
    case (Some p)
    then have p: "p \<in> set (ei_ranges ei)" "in_range uid (ei_heap ei ! p)" using q(2) by simp_all
    then obtain p' where p': "find (\<lambda>p. in_range uid (ei_heap ei ! p)) (ei_ranges ei) = Some p'"
      by (cases "find (\<lambda>p. in_range uid (ei_heap ei ! p)) (ei_ranges ei)") (auto simp: find_None_iff)
    then have "p' \<in> set (ei_ranges ei)" "in_range uid (ei_heap ei ! p')"
      by (auto simp: find_Some_iff)
    then show ?thesis using ranges_unique[OF assms _ _ _ p(2)] p p' Some by blast
  qed
  with False q(1) show ?thesis by (simp add: flecs_entity_index_find_range_def Let_def)
qed (simp add: flecs_entity_index_find_range_def)


text \<open>What the other operations do to the ranges: their bounds stay.\<close>

definition same_ranges :: "ecs_entity_index \<Rightarrow> ecs_entity_index \<Rightarrow> bool" where
  "same_ranges ei ei' \<longleftrightarrow> ei_ranges ei' = ei_ranges ei \<and> length (ei_heap ei') = length (ei_heap ei)
     \<and> (\<forall>p. rg_min (ei_heap ei' ! p) = rg_min (ei_heap ei ! p) \<and> rg_max (ei_heap ei' ! p) = rg_max (ei_heap ei ! p))"

lemma same_ranges_wf: "same_ranges ei ei' \<Longrightarrow> ranges_wf ei \<Longrightarrow> ranges_wf ei'"
proof -
  assume s: "same_ranges ei ei'" and wf: "ranges_wf ei"
  have "range_before (ei_heap ei') = range_before (ei_heap ei)" "range_ok (ei_heap ei') = range_ok (ei_heap ei)"
    using s by (simp_all add: same_ranges_def range_ok_def range_before_def fun_eq_iff)
  with s wf show "ranges_wf ei'" by (simp add: same_ranges_def ranges_wf_def)
qed

lemma same_rangesI: "ei_ranges ei' = ei_ranges ei \<Longrightarrow> ei_heap ei' = ei_heap ei \<Longrightarrow> same_ranges ei ei'"
  by (simp add: same_ranges_def)

lemma same_ranges_trans: "same_ranges a b \<Longrightarrow> same_ranges b c \<Longrightarrow> same_ranges a c"
  by (simp add: same_ranges_def)

lemma same_ranges_refl [simp]: "same_ranges a a"
  by (simp add: same_ranges_def)

lemma keeps_rec_set: "rec_set ei i r = Inr ei' \<Longrightarrow> same_ranges ei ei'"
  by (auto simp: rec_set_def res_elims intro!: same_rangesI)

lemma keeps_rec_set_dense: "rec_set_dense ei i d = Inr ei' \<Longrightarrow> same_ranges ei ei'"
  by (auto simp: rec_set_dense_def res_elims dest: keeps_rec_set)

lemma keeps_ensure_page: "flecs_entity_index_ensure_page ei i = Inr ei' \<Longrightarrow> same_ranges ei ei'"
  by (auto simp: ensure_page_eq intro!: same_rangesI)

lemma keeps_dense_put: "dense_put ei d x = Inr ei' \<Longrightarrow> same_ranges ei ei'"
  by (auto simp: dense_put_def res_elims intro!: same_rangesI)

lemma keeps_upd [simp]:
  "same_ranges ei (ei\<lparr>ei_alive := a\<rparr>)" "same_ranges ei (ei\<lparr>ei_max := m\<rparr>)" "same_ranges ei (ei\<lparr>ei_dense := ds\<rparr>)"
  "same_ranges ei (ei\<lparr>ei_active := x\<rparr>)"
  by (simp_all add: same_ranges_def)

lemma keeps_range_update:
  assumes "range_update ei p f = Inr ei'" and "\<And>rg. rg_min (f rg) = rg_min rg \<and> rg_max (f rg) = rg_max rg"
  shows "same_ranges ei ei'"
proof -
  from assms(1) have p: "p < length (ei_heap ei)" "ei' = ei\<lparr>ei_heap := (ei_heap ei)[p := f (ei_heap ei ! p)]\<rparr>"
    by (auto simp: range_update_def res_elims mem_get_def split: if_splits)
  then show ?thesis
    using assms(2) by (auto simp: same_ranges_def nth_list_update)
qed

lemma keeps_clear_slot: "clear_slot ei i = Inr ei' \<Longrightarrow> same_ranges ei ei'"
  by (auto simp: clear_slot_def split: if_splits option.splits dest: keeps_rec_set_dense)

lemma keeps_clear_slots: "res_fold clear_slot ei is = Inr ei' \<Longrightarrow> same_ranges ei ei'"
  by (induction "is" arbitrary: ei) (auto simp: res_elims intro: same_ranges_trans dest: keeps_clear_slot)

lemma keeps_load_slots: "load_slots ei d is = Inr ei' \<Longrightarrow> same_ranges ei ei'"
proof (induction "is" arbitrary: ei d)
  case (Cons i "is")
  then obtain ei1 ei2 where "flecs_entity_index_ensure_page ei i = Inr ei1" "rec_set_dense ei1 i d = Inr ei2"
    "load_slots ei2 (d + 1) is = Inr ei'"
    by (auto simp: res_elims)
  with Cons.IH show ?case
    by (meson same_ranges_trans keeps_ensure_page keeps_rec_set_dense)
qed simp

lemma keeps_set_range:
  assumes "flecs_entity_index_set_range ei p = Inr ei'"
  shows "same_ranges ei ei'"
  using assms unfolding flecs_entity_index_set_range_def Let_def ecs_assert_Inr_iff
proof (elim res_bindE conjE, goal_cases)
  case (1 ei1 ei2 rg ei3)
  have "same_ranges ei ei1"
    using 1(2) by (auto split: option.splits elim!: keeps_range_update)
  moreover have "same_ranges ei1 ei2" by (rule keeps_clear_slots[OF 1(3)])
  moreover have "same_ranges ei2 ei3"
  proof (cases "rg_recycled rg = []")
    case True
    then show ?thesis using 1(5) by auto
  next
    case False
    from 1(5) show ?thesis
      unfolding if_not_P[OF False]
    proof (elim res_bindE, goal_cases)
      case (1 ei4)
      show ?case
        by (rule same_ranges_trans[OF same_ranges_trans[OF _ keeps_load_slots[OF 1(1)]] keeps_range_update[OF 1(2)]]) simp_all
    qed
  qed
  ultimately show ?case
    using 1(6) by (auto simp: same_ranges_def)
qed


lemma keeps_remove_not_alive: "flecs_entity_index_remove_not_alive ei e = Inr ei' \<Longrightarrow> same_ranges ei ei'"
  unfolding flecs_entity_index_remove_not_alive_def Let_def
proof (split if_split_asm, simp, elim conjE res_bindE, goal_cases)
  case (1 ei1)
  have "same_ranges ei ei1"
    using 1(2) by (auto simp: res_elims split: if_splits dest!: keeps_rec_set_dense keeps_dense_put intro: same_ranges_trans)
  moreover have "same_ranges ei1 ei'"
    by (rule same_ranges_trans[OF keeps_upd(3) keeps_rec_set_dense[OF 1(3)]])
  ultimately show ?case by (rule same_ranges_trans)
qed

lemma keeps_remove_intern:
  assumes "flecs_entity_index_remove_intern ei e = Inr (ei', b)"
  shows "same_ranges ei ei'"
proof -
  from assms obtain r where r: "flecs_entity_index_try_get ei e = Inr r"
    by (auto simp: flecs_entity_index_remove_intern_def elim: res_bindE)
  show ?thesis
  proof (cases r)
    case None
    then show ?thesis using assms r by (simp add: flecs_entity_index_remove_intern_def)
  next
    case (Some rec)
    then have "ei_alive ei \<noteq> 0"
      using assms r by (auto simp: flecs_entity_index_remove_intern_def split: if_splits)
    then have "flecs_entity_index_remove_intern ei e = res_bind (dense_get (ei\<lparr>ei_alive := ei_alive ei - 1\<rparr>) (ei_alive ei - 1)) (\<lambda>e_swap.
       res_bind (flecs_entity_index_get_any (ei\<lparr>ei_alive := ei_alive ei - 1\<rparr>) e_swap) (\<lambda>r_swap.
       ecs_assert (r_dense r_swap = ei_alive ei - 1) ECS_INTERNAL_ERROR
       (res_bind (rec_set_dense (ei\<lparr>ei_alive := ei_alive ei - 1\<rparr>) e_swap (r_dense rec)) (\<lambda>ei1.
        res_bind (rec_get ei1 e) (\<lambda>r.
        res_bind (rec_set ei1 e (r\<lparr>r_table := None, r_row := 0, r_dense := ei_alive ei - 1\<rparr>)) (\<lambda>ei2.
        res_bind (dense_put ei2 (r_dense rec) e_swap) (\<lambda>ei3.
        res_bind (dense_put ei3 (ei_alive ei - 1) (ECS_GENERATION_INC e)) (\<lambda>ei4.
        res_bind (flecs_entity_index_is_alive ei4 e) (\<lambda>alive.
        ecs_assert (\<not> alive) ECS_INTERNAL_ERROR (Inr (ei4, True)))))))))))"
      using Some r by (simp add: flecs_entity_index_remove_intern_def Let_def)
    from assms[unfolded this] obtain e_swap ei1 r1 ei2 ei3 where
      "rec_set_dense (ei\<lparr>ei_alive := ei_alive ei - 1\<rparr>) e_swap (r_dense rec) = Inr ei1" "rec_set ei1 e r1 = Inr ei2"
      "dense_put ei2 (r_dense rec) e_swap = Inr ei3" "dense_put ei3 (ei_alive ei - 1) (ECS_GENERATION_INC e) = Inr ei'"
      by (elim res_bindE conjE) (auto simp: res_elims)
    then have "same_ranges (ei\<lparr>ei_alive := ei_alive ei - 1\<rparr>) ei1" "same_ranges ei1 ei2" "same_ranges ei2 ei3" "same_ranges ei3 ei'"
      by (auto dest: keeps_rec_set keeps_rec_set_dense keeps_dense_put)
    then show ?thesis by (auto simp: same_ranges_def)
  qed
qed


lemma keeps_remove:
  assumes "flecs_entity_index_remove ei e = Inr ei'"
  shows "same_ranges ei ei'"
proof -
  from assms obtain ei1 removed where 1: "flecs_entity_index_remove_intern ei e = Inr (ei1, removed)"
    by (auto simp: flecs_entity_index_remove_def elim: res_bindE)
  have a: "same_ranges ei ei1" by (rule keeps_remove_intern[OF 1])
  show ?thesis
  proof (cases "removed \<and> ei_active ei1 \<noteq> None")
    case False
    then have "ei' = ei1" using assms 1 by (auto simp: flecs_entity_index_remove_def split: option.splits)
    with a show ?thesis by simp
  next
    case True
    then obtain p where p: "removed" "ei_active ei1 = Some p" by auto
    have "res_bind (mem_get (ei_heap ei1) p) (\<lambda>rg. if ucast e \<ge> rg_min rg \<and> (rg_max rg = 0 \<or> ucast e \<le> rg_max rg) then Inr ei1
         else
           res_bind (flecs_entity_index_remove_not_alive ei1 e) (\<lambda>ei.
           res_bind (flecs_entity_index_find_range ei (ucast e)) (\<lambda>rng.
           case rng of
             None \<Rightarrow> Inr ei
           | Some q \<Rightarrow> range_update ei q (\<lambda>rg. rg\<lparr>rg_recycled := rg_recycled rg @ [ECS_GENERATION_INC e]\<rparr>)))) = Inr ei'"
      using assms p by (simp add: flecs_entity_index_remove_def 1 Let_def)
    then obtain rg :: entity_range where
      rg: "(if ucast e \<ge> rg_min rg \<and> (rg_max rg = 0 \<or> ucast e \<le> rg_max rg) then Inr ei1
         else
           res_bind (flecs_entity_index_remove_not_alive ei1 e) (\<lambda>ei.
           res_bind (flecs_entity_index_find_range ei (ucast e)) (\<lambda>rng.
           case rng of
             None \<Rightarrow> Inr ei
           | Some q \<Rightarrow> range_update ei q (\<lambda>rg. rg\<lparr>rg_recycled := rg_recycled rg @ [ECS_GENERATION_INC e]\<rparr>)))) = Inr ei'"
      by (rule res_bindE)
    show ?thesis
    proof (cases "ucast e \<ge> rg_min rg \<and> (rg_max rg = 0 \<or> ucast e \<le> rg_max rg)")
      case True
      then show ?thesis using rg a by simp
    next
      case False
      from rg[unfolded if_not_P[OF False]] obtain ei2 rng where
        2: "flecs_entity_index_remove_not_alive ei1 e = Inr ei2"
        and 3: "(case rng of None \<Rightarrow> Inr ei2
           | Some q \<Rightarrow> range_update ei2 q (\<lambda>rg. rg\<lparr>rg_recycled := rg_recycled rg @ [ECS_GENERATION_INC e]\<rparr>)) = Inr ei'"
        by (auto elim!: res_bindE)
      have "same_ranges ei2 ei'"
        using 3 by (cases rng) (auto elim: keeps_range_update)
      then show ?thesis
        using same_ranges_trans[OF same_ranges_trans[OF a keeps_remove_not_alive[OF 2]]] by blast
    qed
  qed
qed

lemma keeps_new_id: "flecs_entity_index_new_id ei = Inr (ei', e) \<Longrightarrow> same_ranges ei ei'"
  by (auto simp: flecs_entity_index_new_id_def Let_def res_elims ensure_page_eq rec_set_dense_eq exists_eq same_ranges_def
      split: if_splits)

lemma keeps_flecs_new_id: "flecs_new_id ei = Inr (ei', e) \<Longrightarrow> same_ranges ei ei'"
  by (auto simp: flecs_new_id_def res_elims dest!: keeps_new_id split: option.splits prod.splits)


text \<open>A new range: it is put between the ranges that end before it and those that begin after it.\<close>

lemma check_overlaps_ok:
  "check_overlaps ei mn mx ps = Inr u \<Longrightarrow> p \<in> set ps \<Longrightarrow> \<not> ranges_overlap mn mx (ei_heap ei ! p)"
  by (induction ps) (auto simp: res_elims mem_get_def split: if_splits)

lemma no_overlap:
  assumes "\<not> ranges_overlap mn mx r" and "rg_max r = 0 \<or> rg_min r \<le> rg_max r" and "mx = 0 \<or> mn \<le> mx"
  shows "rg_min r \<le> mn \<Longrightarrow> rg_max r \<noteq> 0 \<and> rg_max r < mn" "\<not> rg_min r \<le> mn \<Longrightarrow> mx \<noteq> 0 \<and> mx < rg_min r"
  using assms unfolding ranges_overlap_def by (auto split: if_splits simp: not_le)

lemma sorted_insert_range:
  assumes srt: "sorted_wrt R rs" and mono: "\<And>p q. p \<in> set rs \<Longrightarrow> q \<in> set rs \<Longrightarrow> R p q \<Longrightarrow> key p \<le> key q"
    and lo: "\<And>p. p \<in> set rs \<Longrightarrow> key p \<le> mn \<Longrightarrow> R p new" and hi: "\<And>p. p \<in> set rs \<Longrightarrow> \<not> key p \<le> mn \<Longrightarrow> R new p"
  shows "sorted_wrt R (insert_range key mn new rs)" "set (insert_range key mn new rs) = insert new (set rs)"
proof -
  define after where "after = rev (takeWhile (\<lambda>q. \<not> key q \<le> mn) (rev rs))"
  define before where "before = rev (dropWhile (\<lambda>q. \<not> key q \<le> mn) (rev rs))"
  have rs: "rs = before @ after"
    unfolding after_def before_def by (metis rev_append rev_rev_ident takeWhile_dropWhile_id)
  have ins: "insert_range key mn new rs = before @ new # after"
    by (simp add: insert_range_def after_def before_def)
  have a: "\<not> key q \<le> mn" if "q \<in> set after" for q
    using that by (auto simp: after_def dest: set_takeWhileD)
  have b: "key q \<le> mn" if "q \<in> set before" for q
  proof (cases "dropWhile (\<lambda>q. \<not> key q \<le> mn) (rev rs)")
    case (Cons x xs)
    then have x: "key x \<le> mn" "before = rev xs @ [x]"
      using hd_dropWhile[of "\<lambda>q. \<not> key q \<le> mn" "rev rs"] by (simp_all add: before_def)
    then have "q = x \<or> q \<in> set xs" using that by auto
    moreover have "key q \<le> key x" if "q \<in> set xs"
      using srt mono[of q x] that unfolding rs x(2) by (auto simp: sorted_wrt_append)
    ultimately show ?thesis using x(1) by auto
  next
    case Nil
    then show ?thesis using that unfolding before_def by (metis empty_iff empty_set rev.simps(1))
  qed
  show "sorted_wrt R (insert_range key mn new rs)"
    unfolding ins using srt lo hi a b by (auto simp: rs sorted_wrt_append)
  show "set (insert_range key mn new rs) = insert new (set rs)"
    unfolding ins by (auto simp: rs)
qed

lemma range_new1_wf:
  assumes wf: "ranges_wf ei" and mx: "mx = 0 \<or> mn \<le> mx" and new: "range_new1 ei first mn mx = Inr (ei', p)"
  shows "ranges_wf ei'"
proof -
  let ?r = "\<lparr>rg_min = mn, rg_max = mx, rg_cur = mn - 1, rg_recycled = []\<rparr>"
  let ?h = "ei_heap ei @ [?r]"
  define ei1 where "ei1 = ei\<lparr>ei_heap := ?h, ei_ranges := insert_range (\<lambda>q. rg_min (?h ! q)) mn (length (ei_heap ei)) (ei_ranges ei)\<rparr>"
  have chk: "check_overlaps ei mn mx (ei_ranges ei) = Inr ()"
    using new by (auto simp: range_new1_def elim: res_bindE)
  have old: "q < length (ei_heap ei)" "?h ! q = ei_heap ei ! q" "range_ok (ei_heap ei) q"
    "\<not> ranges_overlap mn mx (ei_heap ei ! q)" if "q \<in> set (ei_ranges ei)" for q
    using wf that check_overlaps_ok[OF chk that] by (auto simp: ranges_wf_def range_ok_def nth_append)
  have srt: "sorted_wrt (range_before ?h) (ei_ranges ei)"
    using wf by (auto simp: ranges_wf_def range_before_def old(2) elim!: sorted_wrt_mono_rel[rotated])
  have A: "rg_min (?h ! q) \<le> rg_min (?h ! q')"
    if q: "q \<in> set (ei_ranges ei)" "q' \<in> set (ei_ranges ei)" "range_before ?h q q'" for q q'
    using q(3) old(2,3)[OF q(1)] old(2)[OF q(2)] by (auto simp: range_before_def range_ok_def)
  have B: "range_before ?h q (length (ei_heap ei))" if q: "q \<in> set (ei_ranges ei)" "rg_min (?h ! q) \<le> mn" for q
    using no_overlap(1)[OF old(4)[OF q(1)] _ mx] old(2,3)[OF q(1)] q(2) by (simp add: range_before_def range_ok_def)
  have C: "range_before ?h (length (ei_heap ei)) q" if q: "q \<in> set (ei_ranges ei)" "\<not> rg_min (?h ! q) \<le> mn" for q
    using no_overlap(2)[OF old(4)[OF q(1)] _ mx] old(2,3)[OF q(1)] q(2) by (simp add: range_before_def range_ok_def)
  have "sorted_wrt (range_before ?h) (ei_ranges ei1)" "set (ei_ranges ei1) = insert (length (ei_heap ei)) (set (ei_ranges ei))"
    using sorted_insert_range[of "range_before ?h" "ei_ranges ei" "\<lambda>q. rg_min (?h ! q)" mn "length (ei_heap ei)", OF srt A B C]
    by (simp_all add: ei1_def)
  then have "ranges_wf ei1"
    using old(1,2,3) mx by (auto simp: ranges_wf_def ei1_def range_ok_def less_SucI)
  moreover have "same_ranges ei1 ei'"
  proof (cases "first \<and> mn = 1")
    case False
    then show ?thesis using new chk by (auto simp: range_new1_def Let_def ei1_def)
  next
    case True
    from True obtain ei2 where q: "range_update ei1 (length (ei_heap ei)) (\<lambda>rg. rg\<lparr>rg_cur := ei_max ei1\<rparr>) = Inr ei2"
      "flecs_entity_index_set_range ei2 (length (ei_heap ei)) = Inr ei'"
      using new chk by (auto simp: range_new1_def Let_def ei1_def elim!: res_bindE)
    show ?thesis
      by (rule same_ranges_trans[OF keeps_range_update[OF q(1)] keeps_set_range[OF q(2)]]) simp
  qed
  ultimately show ?thesis by (rule same_ranges_wf[rotated])
qed


lemma range_checks_Inr: "range_checks ei mn mx k = Inr x \<Longrightarrow> mn > 0 \<and> (mx = 0 \<or> mn \<le> mx) \<and> k = Inr x"
  by (simp add: range_checks_def ecs_assert_Inr_iff)

lemma range_new_wf:
  assumes wf: "ranges_wf ei" and new: "ecs_entity_range_new ei mn mx = Inr (ei', p)"
  shows "ranges_wf ei'"
proof -
  let ?k = "res_bind (range_new1 ei True 1 (mn - 1)) (\<lambda>(ei, default_range).
       res_bind (range_update ei default_range (\<lambda>rg. rg\<lparr>rg_cur := ei_max ei\<rparr>)) (\<lambda>ei.
       flecs_entity_index_set_range ei default_range))"
  from new obtain ei1 where mx: "mx = 0 \<or> mn \<le> mx"
    and 1: "(if ei_ranges ei = [] \<and> mn > 1 then range_checks ei 1 (mn - 1) ?k else Inr ei) = Inr ei1"
    and 2: "range_new1 ei1 (ei_ranges ei = []) mn mx = Inr (ei', p)"
    unfolding ecs_entity_range_new_def Let_def by (auto dest!: range_checks_Inr elim!: res_bindE)
  have "ranges_wf ei1"
  proof (cases "ei_ranges ei = [] \<and> mn > 1")
    case True
    then have k: "mn - 1 = 0 \<or> 1 \<le> mn - 1" "?k = Inr ei1" using 1 by (auto dest!: range_checks_Inr)
    from k(2) obtain ei2 q ei3 where q: "range_new1 ei True 1 (mn - 1) = Inr (ei2, q)"
      "range_update ei2 q (\<lambda>rg. rg\<lparr>rg_cur := ei_max ei2\<rparr>) = Inr ei3" "flecs_entity_index_set_range ei3 q = Inr ei1"
      by (auto elim!: res_bindE)
    have "same_ranges ei2 ei1"
      by (rule same_ranges_trans[OF keeps_range_update[OF q(2)] keeps_set_range[OF q(3)]]) simp
    with range_new1_wf[OF wf k(1) q(1)] show ?thesis by (rule same_ranges_wf[rotated])
  qed (use 1 wf in auto)
  from range_new1_wf[OF this mx 2] show ?thesis .
qed

datatype range_op = RgNew u32 u32 | RgSet nat | RgIssue | RgRemove u64

fun range_exec :: "ecs_entity_index \<Rightarrow> range_op \<Rightarrow> ecs_entity_index res" where
  "range_exec ei (RgNew mn mx) = res_bind (ecs_entity_range_new ei mn mx) (\<lambda>(ei, _). Inr ei)"
| "range_exec ei (RgSet p) = ecs_entity_range_set ei p"
| "range_exec ei RgIssue = res_bind (flecs_new_id ei) (\<lambda>(ei, _). Inr ei)"
| "range_exec ei (RgRemove e) = flecs_entity_index_remove ei e"

lemma range_exec_wf: "ranges_wf ei \<Longrightarrow> range_exec ei x = Inr ei' \<Longrightarrow> ranges_wf ei'"
  by (cases x) (auto simp: ecs_entity_range_set_def elim!: res_bindE intro: range_new_wf
      intro: same_ranges_wf[OF keeps_set_range] same_ranges_wf[OF keeps_flecs_new_id] same_ranges_wf[OF keeps_remove])

lemma range_run_wf: "ranges_wf ei \<Longrightarrow> res_fold range_exec ei xs = Inr ei' \<Longrightarrow> ranges_wf ei'"
  by (induction xs arbitrary: ei) (auto elim!: res_bindE dest: range_exec_wf)

text \<open>
  Claim C20: however ranges are created, activated and used, they never overlap, and the binary
  search for the range of an id returns the only range that contains it, or nothing if there is
  none, without reading outside the range vector.
\<close>

theorem entity_find_range:
  assumes "res_fold range_exec flecs_entity_index_init xs = Inr ei"
  shows "\<exists>r. flecs_entity_index_find_range ei uid = Inr r
    \<and> (\<forall>p. r = Some p \<longleftrightarrow> p \<in> set (ei_ranges ei) \<and> in_range uid (ei_heap ei ! p))"
proof -
  have "ranges_wf flecs_entity_index_init" by (simp add: ranges_wf_def flecs_entity_index_init_def)
  from range_run_wf[OF this assms] have wf: "ranges_wf ei" .
  show ?thesis
    unfolding find_range_ok[OF wf]
  proof (intro exI[of _ "find (\<lambda>p. in_range uid (ei_heap ei ! p)) (ei_ranges ei)"] conjI allI)
    fix p
    show "find (\<lambda>p. in_range uid (ei_heap ei ! p)) (ei_ranges ei) = Some p \<longleftrightarrow>
      p \<in> set (ei_ranges ei) \<and> in_range uid (ei_heap ei ! p)"
    proof
      assume p: "p \<in> set (ei_ranges ei) \<and> in_range uid (ei_heap ei ! p)"
      then obtain q where q: "find (\<lambda>p. in_range uid (ei_heap ei ! p)) (ei_ranges ei) = Some q"
        by (cases "find (\<lambda>p. in_range uid (ei_heap ei ! p)) (ei_ranges ei)") (auto simp: find_None_iff)
      then have "q \<in> set (ei_ranges ei)" "in_range uid (ei_heap ei ! q)" by (auto simp: find_Some_iff)
      with ranges_unique[OF wf _ _ _ this(2)] p q show "find (\<lambda>p. in_range uid (ei_heap ei ! p)) (ei_ranges ei) = Some p"
        by blast
    qed (auto simp: find_Some_iff)
  qed simp
qed

theorem entity_find_range_witness:
  "\<exists>ei. res_fold range_exec flecs_entity_index_init [RgNew 100 199, RgNew 300 0, RgNew 200 250, RgSet 2] = Inr ei
    \<and> (\<exists>r. flecs_entity_index_find_range ei 210 = Inr r
      \<and> (\<forall>p. r = Some p \<longleftrightarrow> p \<in> set (ei_ranges ei) \<and> in_range 210 (ei_heap ei ! p)))"
proof -
  let ?r = "res_fold range_exec flecs_entity_index_init [RgNew 100 199, RgNew 300 0, RgNew 200 250, RgSet 2]"
  have "res_bind ?r (\<lambda>_. Inr ()) = Inr ()" by code_simp
  then obtain ei where ei: "?r = Inr ei" by (rule res_bindE)
  from entity_find_range[OF this, of 210] ei show ?thesis by blast
qed


section \<open>Where the entity index departs from its contract\<close>

text \<open>
  Claim C32: the check that max\_id does not exceed UINT32\_MAX cannot stop the issuing of ids, because max\_id is
  itself a uint32\_t. However the index got there, once max\_id is 0xFFFFFFFF, nothing can be recycled and
  index 0 was not used, the next entity gets the id 0, the invalid entity: max\_id wraps to 0 and the id 0 is
  alive.
\<close>

theorem entity_id_overflow:
  assumes "ei_run xs flecs_entity_index_init = Inr (ei, outs)" and "ei_max ei = 0xFFFFFFFF"
    and "ei_alive ei = length (ei_dense ei)" and "flecs_entity_index_exists ei 0 = Inr False"
  shows "\<exists>ei'. flecs_new_id ei = Inr (ei', 0) \<and> ei_max ei' = 0 \<and> flecs_entity_index_is_alive ei' 0 = Inr True"
proof -
  have wf: "ei_wf ei" "ei_active ei = None"
    using ei_run_simulates[OF entity_init(1,3), of xs] assms(1) by (auto split: sum.splits prod.splits)
  define es where "es = ei_abs ei"
  have low: "low_index 0 = 0" by (simp add: low_index_def)
  have es: "es_dead es = []" "es_top es + 1 = 0" "es_alive es 0 = None"
    using assms(2-4) wf(1) seen_slot[OF wf(1), of 0]
    by (simp_all add: es_def ei_abs_def exists_eq low es_seen_def)
  then have "es_new_id es = Inr (es\<lparr>es_alive := (es_alive es)(0 \<mapsto> 0), es_top := 0\<rparr>, 0)"
    by (simp add: es_new_id_def low Let_def)
  then obtain ei' where ei': "flecs_new_id ei = Inr (ei', 0)" "ei_wf ei'"
    "ei_abs ei' = es\<lparr>es_alive := (es_alive es)(0 \<mapsto> 0), es_top := 0\<rparr>"
    using entity_new[OF wf] by (auto simp: es_def)
  then have "es_top (ei_abs ei') = 0" "flecs_entity_index_is_alive ei' 0 = Inr True"
    using is_alive_eq[OF ei'(2), of 0] by (simp_all add: low)
  with ei'(1) show ?thesis by (simp add: ei_abs_def)
qed

theorem entity_id_overflow_witness:
  "\<exists>ei ei' outs. ei_run [EiEnsure 0xFFFFFFFF] flecs_entity_index_init = Inr (ei, outs)
    \<and> flecs_new_id ei = Inr (ei', 0) \<and> ei_max ei' = 0 \<and> flecs_entity_index_is_alive ei' 0 = Inr True"
proof -
  have low: "low_index 0 = 0" "low_index 0xFFFFFFFF = 0xFFFFFFFF" by (simp_all add: low_index_def)
  define es where "es = \<lparr>es_alive = [0xFFFFFFFF \<mapsto> 0xFFFFFFFF :: u64], es_dead = [], es_top = 0xFFFFFFFF\<rparr>"
  have "es_run [EiEnsure 0xFFFFFFFF] es_empty = Inr (es, [EoUnit])"
    by (simp add: es_empty_def es_ensure_def Let_def low es_def)
  then obtain ei where ei: "ei_run [EiEnsure 0xFFFFFFFF] flecs_entity_index_init = Inr (ei, [EoUnit])" "ei_wf ei"
    "ei_abs ei = es" by (rule ei_run_init) blast
  have "ei_max ei = 0xFFFFFFFF" "ei_alive ei = length (ei_dense ei)" "flecs_entity_index_exists ei 0 = Inr False"
    using ei(2,3) seen_slot[OF ei(2), of 0]
    by (auto simp: es_def ei_abs_def exists_eq low es_seen_def ei_wf_def dest: arg_cong[where f = entity_spec.es_dead] arg_cong[where f = entity_spec.es_top])
  from entity_id_overflow[OF ei(1) this] ei(1) show ?thesis by blast
qed





lemma length_pset [simp]: "length (pset ps n r) = length ps"
  by (simp add: pset_def)

lemma length_pgrow [simp]: "length (pgrow ps n) = max (length ps) (n div 1024 + 1)"
  by (auto simp: pgrow_def Let_def)





end
