(* ===== verification/Ecs_Hash.thy ===== *)
theory Ecs_Hash
  imports Ecs_Prelude
begin

text \<open>
  The string hash of datastructures/hash.c (wyhash, WYHASH\_CONDOM 1, little endian). The data is
  the list of its bytes and a pointer into it an int, so that an access before the start or past
  the end is a fault. Both branches of the 64 by 64 bit multiplication are modelled: the one over a
  128-bit type and the portable one over 32-bit halves.
\<close>

section \<open>Multiplication\<close>

type_synonym u128 = "128 word"

text \<open>The two results are written to *A and *B.\<close>

definition wymum_int128 :: "u64 \<Rightarrow> u64 \<Rightarrow> u64 \<times> u64" where
  "wymum_int128 A B =
     (let r = (ucast A :: u128); r = r * ucast B in (ucast r, ucast (drop_bit 64 r)))"

definition wymum :: "u64 \<Rightarrow> u64 \<Rightarrow> u64 \<times> u64" where
  "wymum A B =
     (let ha = drop_bit 32 A; hb = drop_bit 32 B;
          la = ucast (ucast A :: u32); lb = ucast (ucast B :: u32);
          rh = ha * hb; rm0 = ha * lb; rm1 = hb * la; rl = la * lb;
          t = rl + push_bit 32 rm0; c = (if t < rl then 1 else 0);
          lo = t + push_bit 32 rm1; c = c + (if lo < t then 1 else 0);
          hi = rh + drop_bit 32 rm0 + drop_bit 32 rm1 + c
      in (lo, hi))"

definition wymix :: "u64 \<Rightarrow> u64 \<Rightarrow> u64" where
  "wymix A B = (let (A, B) = wymum A B in A XOR B)"

section \<open>Reading\<close>

definition byte_at :: "u8 list \<Rightarrow> int \<Rightarrow> u64 res" where
  "byte_at key p = res_bind (int_index p) (\<lambda>i. res_bind (mem_get key i) (\<lambda>b. Inr (ucast b)))"

text \<open>memcpy of n bytes at p into an integer, least significant byte first.\<close>

fun read_le :: "u8 list \<Rightarrow> int \<Rightarrow> nat \<Rightarrow> u64 res" where
  "read_le key p 0 = Inr 0"
| "read_le key p (Suc n) =
     res_bind (byte_at key p) (\<lambda>b. res_bind (read_le key (p + 1) n) (\<lambda>v. Inr (b OR push_bit 8 v)))"

definition wyr8 :: "u8 list \<Rightarrow> int \<Rightarrow> u64 res" where
  "wyr8 key p = read_le key p 8"

definition wyr4 :: "u8 list \<Rightarrow> int \<Rightarrow> u64 res" where
  "wyr4 key p = read_le key p 4"

definition wyr3 :: "u8 list \<Rightarrow> int \<Rightarrow> nat \<Rightarrow> u64 res" where
  "wyr3 key p k =
     res_bind (byte_at key p) (\<lambda>x. res_bind (byte_at key (p + int (k div 2))) (\<lambda>y.
     res_bind (byte_at key (p + int k - 1)) (\<lambda>z. Inr (push_bit 16 x OR push_bit 8 y OR z))))"

section \<open>Hashing\<close>

text \<open>One mixing step over 16 bytes, and the two loops of wyhash.\<close>

definition wyround :: "u8 list \<Rightarrow> int \<Rightarrow> u64 \<Rightarrow> u64 \<Rightarrow> u64 res" where
  "wyround key p secret seed =
     res_bind (wyr8 key p) (\<lambda>x. res_bind (wyr8 key (p + 8)) (\<lambda>y.
     Inr (wymix (x XOR secret) (y XOR seed))))"

definition wyp :: "u64 list" where
  "wyp = [0xa0761d6478bd642f, 0xe7037ed1a0b428db, 0x8ebc6af09c88c6e3, 0x589965cc75374cc3]"

function wyloop48 :: "u8 list \<Rightarrow> int \<Rightarrow> nat \<Rightarrow> u64 \<Rightarrow> u64 \<Rightarrow> u64 \<Rightarrow> (int \<times> nat \<times> u64 \<times> u64 \<times> u64) res" where
  "wyloop48 key p i seed see1 see2 =
     res_bind (wyround key p (wyp ! 1) seed) (\<lambda>seed.
     res_bind (wyround key (p + 16) (wyp ! 2) see1) (\<lambda>see1.
     res_bind (wyround key (p + 32) (wyp ! 3) see2) (\<lambda>see2.
     if i - 48 > 48 then wyloop48 key (p + 48) (i - 48) seed see1 see2
     else Inr (p + 48, i - 48, seed, see1, see2))))"
  by pat_completeness auto

termination wyloop48 by (relation "measure (\<lambda>(key, p, i, _). i)") auto

function wyloop16 :: "u8 list \<Rightarrow> int \<Rightarrow> nat \<Rightarrow> u64 \<Rightarrow> (int \<times> nat \<times> u64) res" where
  "wyloop16 key p i seed =
     (if i > 16 then res_bind (wyround key p (wyp ! 1) seed) (\<lambda>seed. wyloop16 key (p + 16) (i - 16) seed)
      else Inr (p, i, seed))"
  by pat_completeness auto

termination wyloop16 by (relation "measure (\<lambda>(key, p, i, _). i)") auto

declare wyloop48.simps [simp del] wyloop16.simps [simp del]

text \<open>The words a and b and the seed that the last mixing gets.\<close>

definition wywords :: "u8 list \<Rightarrow> nat \<Rightarrow> u64 \<Rightarrow> (u64 \<times> u64 \<times> u64) res" where
  "wywords key len seed =
     (if len \<le> 16 then
        if len \<ge> 4 then
          let q = int (4 * (len div 8)) in
          res_bind (wyr4 key 0) (\<lambda>a1. res_bind (wyr4 key q) (\<lambda>a2.
          res_bind (wyr4 key (int len - 4)) (\<lambda>b1. res_bind (wyr4 key (int len - 4 - q)) (\<lambda>b2.
          Inr (push_bit 32 a1 OR a2, push_bit 32 b1 OR b2, seed)))))
        else if len > 0 then res_bind (wyr3 key 0 len) (\<lambda>a. Inr (a, 0, seed))
        else Inr (0, 0, seed)
      else
        res_bind (if len > 48 then
                    res_bind (wyloop48 key 0 len seed seed seed) (\<lambda>(p, i, seed, see1, see2).
                    Inr (p, i, seed XOR (see1 XOR see2)))
                  else Inr (0, len, seed)) (\<lambda>(p, i, seed).
        res_bind (wyloop16 key p i seed) (\<lambda>(p, i, seed).
        res_bind (wyr8 key (p + int i - 16)) (\<lambda>a. res_bind (wyr8 key (p + int i - 8)) (\<lambda>b.
        Inr (a, b, seed))))))"

definition wyhash :: "u8 list \<Rightarrow> nat \<Rightarrow> u64 \<Rightarrow> u64 res" where
  "wyhash key len seed =
     (let seed = seed XOR wymix (seed XOR wyp ! 0) (wyp ! 1) in
      res_bind (wywords key len seed) (\<lambda>(a, b, seed).
      let (a, b) = wymum (a XOR wyp ! 1) (b XOR seed)
      in Inr (wymix (a XOR wyp ! 0 XOR word_of_nat len) (b XOR wyp ! 1))))"

definition flecs_hash :: "u8 list \<Rightarrow> int \<Rightarrow> u64 res" where
  "flecs_hash data len = ecs_assert (0 \<le> len) ECS_INVALID_CONVERSION (wyhash data (nat len) 0)"

section \<open>The portable multiplication\<close>

lemma mul_halves:
  fixes A B :: nat
  assumes "A < 2 ^ 64" "B < 2 ^ 64"
  defines "ha \<equiv> A div 2 ^ 32" and "la \<equiv> A mod 2 ^ 32" and "hb \<equiv> B div 2 ^ 32" and "lb \<equiv> B mod 2 ^ 32"
  shows "A * B = ha * hb * 2 ^ 64 + (ha * lb + hb * la) * 2 ^ 32 + la * lb"
proof -
  have "A = ha * 2 ^ 32 + la" "B = hb * 2 ^ 32 + lb" by (simp_all add: ha_def la_def hb_def lb_def)
  then have "A * B = (ha * 2 ^ 32 + la) * (hb * 2 ^ 32 + lb)" by simp
  also have "\<dots> = ha * hb * 2 ^ 64 + (ha * lb + hb * la) * 2 ^ 32 + la * lb" by (simp add: algebra_simps)
  finally show ?thesis .
qed

lemma unat_u64: "unat (x :: u64) < 2 ^ 64"
proof -
  have "unat x < 2 ^ LENGTH(64)" by (rule unsigned_less)
  then show ?thesis by simp
qed

lemma carry_add: 
  fixes x y :: u64
  shows "unat (x + y) + 2 ^ 64 * unat (if x + y < x then 1 else 0 :: u64) = unat x + unat y"
proof -
  have b: "unat x < 2 ^ 64" "unat y < 2 ^ 64"
    by (rule unat_u64)+
  have m: "unat (x + y) = (unat x + unat y) mod 2 ^ 64"
    by (simp add: unat_word_ariths)
  show ?thesis
  proof (cases "unat x + unat y < 2 ^ 64")
    case True
    then have "unat (x + y) = unat x + unat y" unfolding m by (rule mod_less)
    moreover from this have "\<not> x + y < x" by (simp add: word_less_nat_alt)
    ultimately show ?thesis by simp
  next
    case False
    then have "unat (x + y) = unat x + unat y - 2 ^ 64" unfolding m using b by (simp add: mod_if)
    moreover from this have "x + y < x" using b False by (simp add: word_less_nat_alt)
    ultimately show ?thesis using False by simp
  qed
qed

lemma unat_halves: 
  fixes A :: u64
  shows "unat (drop_bit 32 A) = unat A div 2 ^ 32" "unat (ucast (ucast A :: u32) :: u64) = unat A mod 2 ^ 32"
    "unat (push_bit 32 A) = 2 ^ 32 * (unat A mod 2 ^ 32)"
proof -
  show "unat (drop_bit 32 A) = unat A div 2 ^ 32"
    by (simp only: unat_drop_bit_eq drop_bit_nat_def)
  have "unat A mod 2 ^ 32 < 2 ^ 64" by (rule order_less_trans[of _ "2 ^ 32"]) simp_all
  then show "unat (ucast (ucast A :: u32) :: u64) = unat A mod 2 ^ 32"
    by (simp add: unsigned_ucast_eq unsigned_take_bit_eq take_bit_nat_def)
  have "2 ^ 32 * (unat A mod 2 ^ 32) = 2 ^ 32 * unat A mod 2 ^ (32 + 32)"
    by (simp only: power_add mult_mod_right)
  then show "unat (push_bit 32 A) = 2 ^ 32 * (unat A mod 2 ^ 32)"
    by (simp add: unsigned_push_bit_eq push_bit_nat_def take_bit_nat_def mult.commute)
qed

lemma unat_mult_small: "unat x < 2 ^ 32 \<Longrightarrow> unat y < 2 ^ 32 \<Longrightarrow> unat (x * y :: u64) = unat x * unat y"
proof -
  assume "unat x < 2 ^ 32" "unat y < 2 ^ 32"
  then have "unat x * unat y < 2 ^ 32 * 2 ^ 32" by (intro mult_strict_mono') simp_all
  then show ?thesis by (simp add: unat_word_ariths)
qed

text \<open>
  The portable multiplication computes the same two words as the one over a 128-bit
  type, for all arguments: the carries of the three partial sums are all accounted for.
\<close>

lemma wymum_portable: "wymum A B = wymum_int128 A B"
proof -
  define a b where "a = unat A" and "b = unat B"
  define ha hb la lb where "ha = drop_bit 32 A" and "hb = drop_bit 32 B"
    and "la = (ucast (ucast A :: u32) :: u64)" and "lb = (ucast (ucast B :: u32) :: u64)"
  define rh rm0 rm1 rl where "rh = ha * hb" and "rm0 = ha * lb" and "rm1 = hb * la" and "rl = la * lb"
  define t lo where "t = rl + push_bit 32 rm0" and "lo = t + push_bit 32 rm1"
  define c1 c2 :: u64 where "c1 = (if t < rl then 1 else 0)" and "c2 = (if lo < t then 1 else 0)"
  define hi where "hi = rh + drop_bit 32 rm0 + drop_bit 32 rm1 + (c1 + c2)"
  have ab: "a < 2 ^ 64" "b < 2 ^ 64" using unat_u64 by (simp_all add: a_def b_def)
  have small: "unat ha < 2 ^ 32" "unat hb < 2 ^ 32" "unat la < 2 ^ 32" "unat lb < 2 ^ 32"
    using ab unfolding ha_def hb_def la_def lb_def unat_halves a_def b_def by (simp_all add: less_mult_imp_div_less)
  have prods: "unat rh = unat ha * unat hb" "unat rm0 = unat ha * unat lb" "unat rm1 = unat hb * unat la" "unat rl = unat la * unat lb"
    unfolding rh_def rm0_def rm1_def rl_def using small by (simp_all add: unat_mult_small)
  have "unat t + 2 ^ 64 * unat c1 = unat rl + 2 ^ 32 * (unat rm0 mod 2 ^ 32)"
    unfolding t_def c1_def unat_halves(3)[symmetric] by (rule carry_add)
  moreover have "unat lo + 2 ^ 64 * unat c2 = unat t + 2 ^ 32 * (unat rm1 mod 2 ^ 32)"
    unfolding lo_def c2_def unat_halves(3)[symmetric] by (rule carry_add)
  ultimately have low: "unat lo + 2 ^ 64 * (unat c1 + unat c2) = unat rl + 2 ^ 32 * (unat rm0 mod 2 ^ 32) + 2 ^ 32 * (unat rm1 mod 2 ^ 32)"
    by simp
  define H where "H = unat rh + unat rm0 div 2 ^ 32 + unat rm1 div 2 ^ 32 + (unat c1 + unat c2)"
  have "unat lo + 2 ^ 64 * H = 2 ^ 64 * unat rh + 2 ^ 32 * unat rm0 + 2 ^ 32 * unat rm1 + unat rl"
  proof -
    have "2 ^ 32 * r = 2 ^ 64 * (r div 2 ^ 32) + 2 ^ 32 * (r mod 2 ^ 32)" for r :: nat
    proof -
      have "2 ^ 32 * r = 2 ^ 32 * (r div 2 ^ 32 * 2 ^ 32 + r mod 2 ^ 32)" by (simp only: div_mult_mod_eq)
      then show ?thesis by (simp only: distrib_left) simp
    qed
    from this[of "unat rm0"] this[of "unat rm1"] low show ?thesis by (simp add: H_def)
  qed
  also have "\<dots> = a * b"
    using mul_halves[OF ab] unfolding prods ha_def hb_def la_def lb_def unat_halves a_def[symmetric] b_def[symmetric]
    by (simp add: algebra_simps)
  finally have sum: "unat lo + 2 ^ 64 * H = a * b" .
  have ab2: "a * b < 2 ^ 128"
    using mult_strict_mono'[OF ab] by simp
  have lo: "unat lo = a * b mod 2 ^ 64" and H: "H = a * b div 2 ^ 64"
    using unat_u64[of lo] unfolding sum[symmetric] by simp_all
  have "H < 2 ^ 64" using ab2 unfolding H by (simp add: less_mult_imp_div_less)
  then have hi: "unat hi = H"
    unfolding hi_def H_def by (simp add: unat_word_ariths unat_halves mod_simps)
  define r where "r = (ucast A :: u128) * ucast B"
  have "unat (ucast A :: u128) = a" "unat (ucast B :: u128) = b"
    using ab by (simp_all add: unsigned_ucast_eq a_def b_def take_bit_nat_eq_self)
  then have r: "unat r = a * b"
    using ab2 by (simp add: r_def unat_word_ariths)
  have "wymum A B = (lo, hi)"
    unfolding wymum_def Let_def ha_def[symmetric] hb_def[symmetric] la_def[symmetric] lb_def[symmetric]
      rh_def[symmetric] rm0_def[symmetric] rm1_def[symmetric] rl_def[symmetric] t_def[symmetric] lo_def[symmetric]
      c1_def[symmetric] c2_def[symmetric] hi_def[symmetric] ..
  moreover have "wymum_int128 A B = (ucast r, ucast (drop_bit 64 r))"
    by (simp add: wymum_int128_def r_def Let_def)
  moreover have "lo = ucast r"
    unfolding word_unat_eq_iff by (simp add: lo unsigned_ucast_eq r take_bit_nat_def)
  moreover have "hi = ucast (drop_bit 64 r)"
    using \<open>H < 2 ^ 64\<close> unfolding H word_unat_eq_iff
    by (simp add: hi H unsigned_ucast_eq unat_drop_bit_eq r drop_bit_nat_def take_bit_nat_def)
  ultimately show ?thesis by simp
qed

section \<open>The hash reads inside the data\<close>

lemma byte_at_ok: "0 \<le> p \<Longrightarrow> p < int (length key) \<Longrightarrow> \<exists>b. byte_at key p = Inr b"
  by (simp add: byte_at_def nat_less_iff)

lemma read_le_ok: "0 \<le> p \<Longrightarrow> p + int n \<le> int (length key) \<Longrightarrow> \<exists>v. read_le key p n = Inr v"
proof (induction n arbitrary: p)
  case (Suc n)
  then obtain b where "byte_at key p = Inr b" using byte_at_ok[of p key] by auto
  moreover obtain v where "read_le key (p + 1) n = Inr v" using Suc.IH[of "p + 1"] Suc.prems by auto
  ultimately show ?case by simp
qed simp

lemma wyround_ok: "0 \<le> p \<Longrightarrow> p + 16 \<le> int (length key) \<Longrightarrow> \<exists>v. wyround key p s seed = Inr v"
  using read_le_ok[of p 8 key] read_le_ok[of "p + 8" 8 key] by (auto simp: wyround_def wyr8_def)

lemma wyloop48_ok:
  "48 < i \<Longrightarrow> 0 \<le> p \<Longrightarrow> p + int i = int (length key) \<Longrightarrow>
    \<exists>p' i' seed' see1' see2'. wyloop48 key p i seed see1 see2 = Inr (p', i', seed', see1', see2')
      \<and> 0 < i' \<and> i' \<le> 48 \<and> 48 \<le> p' \<and> p' + int i' = int (length key)"
proof (induction key p i seed see1 see2 rule: wyloop48.induct)
  case (1 key p i seed see1 see2)
  obtain a where a: "wyround key p (wyp ! 1) seed = Inr a" using wyround_ok 1(2-4) by fastforce
  obtain b where b: "wyround key (p + 16) (wyp ! 2) see1 = Inr b" using wyround_ok[of "p + 16"] 1(2-4) by fastforce
  obtain c where c: "wyround key (p + 32) (wyp ! 3) see2 = Inr c" using wyround_ok[of "p + 32"] 1(2-4) by fastforce
  show ?case
  proof (cases "i - 48 > 48")
    case True
    then have "0 \<le> p + 48" "p + 48 + int (i - 48) = int (length key)" using 1(2-4) by auto
    from 1(1)[OF True True this] show ?thesis
      by (subst wyloop48.simps) (simp add: a b c True del: One_nat_def)
  next
    case False
    then show ?thesis
      using 1(2-4) by (subst wyloop48.simps) (auto simp: a b c simp del: One_nat_def)
  qed
qed

lemma wyloop16_ok:
  "0 < i \<Longrightarrow> 0 \<le> p \<Longrightarrow> p + int i = int (length key) \<Longrightarrow>
    \<exists>p' i' seed'. wyloop16 key p i seed = Inr (p', i', seed') \<and> p' + int i' = int (length key)"
proof (induction key p i seed rule: wyloop16.induct)
  case (1 key p i seed)
  show ?case
  proof (cases "i > 16")
    case True
    obtain a where a: "wyround key p (wyp ! 1) seed = Inr a" using wyround_ok 1(2-4) True by fastforce
    have "0 < i - 16" "0 \<le> p + 16" "p + 16 + int (i - 16) = int (length key)" using 1(2-4) True by auto
    from 1(1)[OF True this] show ?thesis
      by (subst wyloop16.simps) (simp add: a True del: One_nat_def)
  qed (use 1(4) in \<open>subst wyloop16.simps, simp\<close>)
qed

lemma flecs_hash_total: "\<exists>h. flecs_hash data (int (length data)) = Inr h"
proof -
  define len where "len = length data"
  have "\<exists>r. wywords data len seed = Inr r" for seed
  proof (cases "len \<le> 16")
    case True
    consider "len = 0" | "0 < len" "len < 4" | "4 \<le> len" by linarith
    then show ?thesis
    proof cases
      case 2
      then show ?thesis
        using byte_at_ok[of 0 data] byte_at_ok[of "int (len div 2)" data] byte_at_ok[of "int len - 1" data] True
        by (auto simp: wywords_def wyr3_def len_def)
    next
      case 3
      then have "4 * (len div 8) + 4 \<le> len" using True by presburger
      then show ?thesis
        using read_le_ok[of 0 4 data] read_le_ok[of "int (4 * (len div 8))" 4 data] read_le_ok[of "int len - 4" 4 data]
          read_le_ok[of "int len - 4 - int (4 * (len div 8))" 4 data] True 3
        by (auto simp: wywords_def wyr4_def Let_def len_def)
    qed (simp add: wywords_def)
  next
    case False
    obtain p i seed' where l: "(if len > 48 then
                    res_bind (wyloop48 data 0 len seed seed seed) (\<lambda>(p, i, seed, see1, see2).
                    Inr (p, i, seed XOR (see1 XOR see2)))
                  else Inr (0, len, seed)) = Inr (p, i, seed')" "0 < i" "0 \<le> p" "p + int i = int len"
    proof (cases "len > 48")
      case True
      obtain p i x y z where "wyloop48 data 0 len seed seed seed = Inr (p, i, x, y, z)" "0 < i" "48 \<le> p"
        "p + int i = int len"
        using wyloop48_ok[of len 0 data seed seed seed] True by (auto simp: len_def)
      then show thesis using True by (intro that[of p i "x XOR (y XOR z)"]) simp_all
    next
      case low: False
      then show thesis using False by (intro that[of 0 len seed]) simp_all
    qed
    obtain p' i' seed'' where m: "wyloop16 data p i seed' = Inr (p', i', seed'')" "p' + int i' = int len"
      using wyloop16_ok[of i p data seed'] l by (auto simp: len_def)
    show ?thesis
      using l m False read_le_ok[of "int len - 16" 8 data] read_le_ok[of "int len - 8" 8 data]
      by (auto simp: wywords_def wyr8_def len_def)
  qed
  then obtain a b s where "wywords data len (0 XOR wymix (0 XOR wyp ! 0) (wyp ! 1)) = Inr (a, b, s)" by (metis surj_pair)
  then show ?thesis by (simp add: flecs_hash_def wyhash_def Let_def len_def split: prod.splits)
qed


text \<open>What is read inside the data does not change when more bytes follow it.\<close>

definition res_mono :: "'a res \<Rightarrow> 'a res \<Rightarrow> bool" where
  "res_mono m m' \<longleftrightarrow> (\<forall>x. m = Inr x \<longrightarrow> m' = Inr x)"

lemma res_mono_refl [simp]: "res_mono m m"
  by (simp add: res_mono_def)

lemma res_mono_bind: "res_mono m m' \<Longrightarrow> (\<And>x. res_mono (f x) (f' x)) \<Longrightarrow> res_mono (res_bind m f) (res_bind m' f')"
  by (auto simp: res_mono_def res_elims)

lemma res_mono_if: "res_mono a a' \<Longrightarrow> res_mono b b' \<Longrightarrow> res_mono (if c then a else b) (if c then a' else b')"
  by simp

lemma byte_at_mono: "res_mono (byte_at key p) (byte_at (key @ rest) p)"
  by (auto simp: res_mono_def byte_at_def res_elims nth_append)

lemma read_le_mono: "res_mono (read_le key p n) (read_le (key @ rest) p n)"
  by (induction n arbitrary: p) (auto intro!: res_mono_bind byte_at_mono)

lemma wyround_mono: "res_mono (wyround key p s seed) (wyround (key @ rest) p s seed)"
  unfolding wyround_def wyr8_def by (intro res_mono_bind read_le_mono res_mono_refl)

lemma wyloop48_mono: "res_mono (wyloop48 key p i seed see1 see2) (wyloop48 (key @ rest) p i seed see1 see2)"
proof (induction key p i seed see1 see2 rule: wyloop48.induct)
  case (1 key p i seed see1 see2)
  show ?case
    unfolding wyloop48.simps[of key p] wyloop48.simps[of "key @ rest" p]
  proof (intro res_mono_bind wyround_mono)
    fix a b c
    show "res_mono (if 48 < i - 48 then wyloop48 key (p + 48) (i - 48) a b c else Inr (p + 48, i - 48, a, b, c))
       (if 48 < i - 48 then wyloop48 (key @ rest) (p + 48) (i - 48) a b c else Inr (p + 48, i - 48, a, b, c))"
      using 1 by (cases "48 < i - 48") simp_all
  qed
qed

lemma wyloop16_mono: "res_mono (wyloop16 key p i seed) (wyloop16 (key @ rest) p i seed)"
proof (induction key p i seed rule: wyloop16.induct)
  case (1 key p i seed)
  show ?case
  proof (cases "i > 16")
    case True
    have "res_mono (res_bind (wyround key p (wyp ! 1) seed) (\<lambda>seed. wyloop16 key (p + 16) (i - 16) seed))
      (res_bind (wyround (key @ rest) p (wyp ! 1) seed) (\<lambda>seed. wyloop16 (key @ rest) (p + 16) (i - 16) seed))"
      using 1[OF True] by (intro res_mono_bind wyround_mono)
    with True show ?thesis
      unfolding wyloop16.simps[of key p] wyloop16.simps[of "key @ rest" p] by simp
  qed (simp add: wyloop16.simps[of key p] wyloop16.simps[of "key @ rest" p])
qed

lemma wywords_mono: "res_mono (wywords key len seed) (wywords (key @ rest) len seed)"
  unfolding wywords_def wyr4_def wyr3_def wyr8_def Let_def
  by (intro res_mono_if res_mono_bind read_le_mono byte_at_mono wyloop48_mono wyloop16_mono res_mono_refl)
    (auto intro!: res_mono_bind read_le_mono wyloop16_mono split: prod.splits)

text \<open>
  Claim C34: hashing the first len bytes of a buffer ends, reads no byte outside of the buffer and
  depends on those len bytes only, whatever len is, although the last words of a long block are
  read backwards from its end.
\<close>

theorem flecs_hash_reads_block:
  assumes "len \<le> length data"
  shows "\<exists>h. flecs_hash data (int len) = Inr h \<and> flecs_hash (take len data) (int len) = Inr h"
proof -
  have "res_mono (wyhash (take len data) len 0) (wyhash (take len data @ drop len data) len 0)"
    unfolding wyhash_def Let_def by (intro res_mono_bind wywords_mono) (simp split: prod.splits)
  moreover obtain h where "flecs_hash (take len data) (int len) = Inr h"
    using flecs_hash_total[of "take len data"] assms by auto
  ultimately show ?thesis
    by (auto simp: flecs_hash_def res_mono_def)
qed

theorem flecs_hash_reads_block_witness:
  "\<exists>h. flecs_hash [102, 108, 101, 99, 115, 33] (int 5) = Inr h \<and> flecs_hash (take 5 [102, 108, 101, 99, 115, 33]) (int 5) = Inr h"
  by (rule flecs_hash_reads_block) simp

end
