(* ===== verification/Ecs_Hashmap.thy ===== *)
theory Ecs_Hashmap
  imports Ecs_Map
begin

text \<open>
  The hash map for keys of any type of datastructures/hashmap.c: a map from hashes to buckets, a
  bucket being a pair of parallel vectors of keys and values. Buckets are allocated objects: a
  pointer to one is its number in \<open>hm_heap\<close>, and a freed bucket is None there. A pointer to a
  value is the pair of bucket and position. The hash and comparison functions are the fields
  that the code stores; a hash function may assert. Keys and values are of abstract types, the
  value with the zero that memset writes.
\<close>

section \<open>State\<close>

record ('k, 'v) ecs_hm_bucket =
  hb_keys :: "'k list"
  hb_values :: "'v list"

record ('k, 'v) ecs_hashmap =
  hm_hash :: "'k \<Rightarrow> u64 res"
  hm_compare :: "('k \<Rightarrow> 'k \<Rightarrow> int) option"
  hm_key_size :: nat
  hm_value_size :: nat
  hm_impl :: "nat option ecs_map"
  hm_heap :: "('k, 'v) ecs_hm_bucket option list"

record flecs_hashmap_iter_t =
  hi_it :: ecs_map_iter_t
  hi_bucket :: "nat option"
  hi_index :: nat

type_synonym value_ptr = "nat \<times> nat"

section \<open>Buckets\<close>

text \<open>The position of the key, None for -1.\<close>

fun flecs_hashmap_find_key :: "('k \<Rightarrow> 'k \<Rightarrow> int) \<Rightarrow> 'k list \<Rightarrow> 'k \<Rightarrow> nat option" where
  "flecs_hashmap_find_key compare [] key = None"
| "flecs_hashmap_find_key compare (k # ks) key =
     (if compare k key = 0 then Some 0 else map_option Suc (flecs_hashmap_find_key compare ks key))"

definition hm_find_key :: "('k, 'v) ecs_hashmap \<Rightarrow> 'k list \<Rightarrow> 'k \<Rightarrow> nat option res" where
  "hm_find_key hm ks key =
     (if ks = [] then Inr None
      else res_bind (deref (hm_compare hm)) (\<lambda>compare. Inr (flecs_hashmap_find_key compare ks key)))"

definition flecs_hm_bucket_new :: "('k, 'v) ecs_hashmap \<Rightarrow> ('k, 'v) ecs_hashmap \<times> nat" where
  "flecs_hm_bucket_new hm = (hm\<lparr>hm_heap := hm_heap hm @ [Some \<lparr>hb_keys = [], hb_values = []\<rparr>]\<rparr>, length (hm_heap hm))"

definition bucket_get :: "('k, 'v) ecs_hashmap \<Rightarrow> nat \<Rightarrow> ('k, 'v) ecs_hm_bucket res" where
  "bucket_get hm p = res_bind (mem_get (hm_heap hm) p) deref"

definition bucket_set :: "('k, 'v) ecs_hashmap \<Rightarrow> nat \<Rightarrow> ('k, 'v) ecs_hm_bucket \<Rightarrow> ('k, 'v) ecs_hashmap res" where
  "bucket_set hm p b = res_bind (bucket_get hm p) (\<lambda>_. Inr (hm\<lparr>hm_heap := (hm_heap hm)[p := Some b]\<rparr>))"

definition flecs_hm_bucket_free :: "('k, 'v) ecs_hashmap \<Rightarrow> nat \<Rightarrow> ('k, 'v) ecs_hashmap res" where
  "flecs_hm_bucket_free hm p = res_bind (bucket_get hm p) (\<lambda>_. Inr (hm\<lparr>hm_heap := (hm_heap hm)[p := None]\<rparr>))"

text \<open>ecs\_vec\_remove and ecs\_vec\_get on a vector given by its elements.\<close>

definition vec_remove :: "'a list \<Rightarrow> nat \<Rightarrow> 'a list res" where
  "vec_remove xs i = ecs_assert (i < length xs) ECS_OUT_OF_RANGE (Inr (swap_removed i xs))"

definition value_read :: "('k, 'v) ecs_hashmap \<Rightarrow> value_ptr \<Rightarrow> 'v res" where
  "value_read hm ptr = res_bind (bucket_get hm (fst ptr)) (\<lambda>b. mem_get (hb_values b) (snd ptr))"

definition value_write :: "('k, 'v) ecs_hashmap \<Rightarrow> value_ptr \<Rightarrow> 'v \<Rightarrow> ('k, 'v) ecs_hashmap res" where
  "value_write hm ptr v =
     res_bind (bucket_get hm (fst ptr)) (\<lambda>b.
     res_bind (mem_set (hb_values b) (snd ptr) v) (\<lambda>vs.
     bucket_set hm (fst ptr) (b\<lparr>hb_values := vs\<rparr>)))"

definition key_write :: "('k, 'v) ecs_hashmap \<Rightarrow> value_ptr \<Rightarrow> 'k \<Rightarrow> ('k, 'v) ecs_hashmap res" where
  "key_write hm ptr k =
     res_bind (bucket_get hm (fst ptr)) (\<lambda>b.
     res_bind (mem_set (hb_keys b) (snd ptr) k) (\<lambda>ks.
     bucket_set hm (fst ptr) (b\<lparr>hb_keys := ks\<rparr>)))"

section \<open>Operations\<close>

definition flecs_hashmap_init ::
    "nat \<Rightarrow> nat \<Rightarrow> ('k \<Rightarrow> u64 res) \<Rightarrow> ('k \<Rightarrow> 'k \<Rightarrow> int) \<Rightarrow> ('k, 'v) ecs_hashmap res" where
  "flecs_hashmap_init key_size value_size hash compare =
     res_bind ecs_map_init (\<lambda>impl.
     Inr \<lparr>hm_hash = hash, hm_compare = Some compare, hm_key_size = key_size, hm_value_size = value_size,
          hm_impl = impl, hm_heap = []\<rparr>)"

fun hm_free_buckets :: "nat \<Rightarrow> ('k, 'v) ecs_hashmap \<Rightarrow> ecs_map_iter_t \<Rightarrow> ('k, 'v) ecs_hashmap res" where
  "hm_free_buckets 0 hm it = Inl OUT_OF_FUEL"
| "hm_free_buckets (Suc fuel) hm it =
     res_bind (ecs_map_next (hm_impl hm) it) (\<lambda>(more, it, impl).
     let hm = hm\<lparr>hm_impl := impl\<rparr> in
     if \<not> more then Inr hm
     else
       res_bind (ecs_map_value impl it) (\<lambda>bucket.
       res_bind (deref bucket) (\<lambda>p.
       res_bind (flecs_hm_bucket_free hm p) (\<lambda>hm. hm_free_buckets fuel hm it))))"

definition flecs_hashmap_fini :: "('k, 'v) ecs_hashmap \<Rightarrow> ('k, 'v) ecs_hashmap res" where
  "flecs_hashmap_fini hm =
     res_bind (hm_free_buckets (Suc (mcount (hm_impl hm))) hm (ecs_map_iter (hm_impl hm))) (\<lambda>hm.
     Inr (hm\<lparr>hm_impl := ecs_map_fini (hm_impl hm)\<rparr>))"

text \<open>The loop that replaces the pointers to the source's buckets by copies.\<close>

fun hm_copy_buckets ::
    "nat \<Rightarrow> ('k, 'v) ecs_hashmap \<Rightarrow> ('k, 'v) ecs_hashmap \<Rightarrow> ecs_map_iter_t \<Rightarrow> ('k, 'v) ecs_hashmap res" where
  "hm_copy_buckets 0 dst src it = Inl OUT_OF_FUEL"
| "hm_copy_buckets (Suc fuel) dst src it =
     res_bind (ecs_map_next (hm_impl dst) it) (\<lambda>(more, it, impl).
     let dst = dst\<lparr>hm_impl := impl\<rparr> in
     if \<not> more then Inr dst
     else
       res_bind (ecs_map_key it) (\<lambda>key.
       res_bind (ecs_map_value impl it) (\<lambda>bucket.
       res_bind (deref bucket) (\<lambda>src_bucket.
       let (dst, dst_bucket) = flecs_hm_bucket_new dst in
       res_bind (map_write (hm_impl dst) key (Some dst_bucket)) (\<lambda>impl.
       res_bind (bucket_get src src_bucket) (\<lambda>b.
       res_bind (bucket_set (dst\<lparr>hm_impl := impl\<rparr>) dst_bucket b) (\<lambda>dst.
       hm_copy_buckets fuel dst src it)))))))"

text \<open>The destination and the source, whose \<open>last_iterated\<close> changes.\<close>

definition flecs_hashmap_copy :: "('k, 'v) ecs_hashmap \<Rightarrow> (('k, 'v) ecs_hashmap \<times> ('k, 'v) ecs_hashmap) res" where
  "flecs_hashmap_copy src =
     res_bind (deref (hm_compare src)) (\<lambda>compare.
     res_bind (flecs_hashmap_init (hm_key_size src) (hm_value_size src) (hm_hash src) compare) (\<lambda>dst.
     res_bind (ecs_map_copy (hm_impl dst) (hm_impl src)) (\<lambda>(dst_impl, src_impl).
     let dst = dst\<lparr>hm_impl := dst_impl\<rparr>;
         src = src\<lparr>hm_impl := src_impl\<rparr>
     in
     res_bind (hm_copy_buckets (Suc (mcount (hm_impl dst))) dst src (ecs_map_iter (hm_impl dst))) (\<lambda>dst.
     Inr (dst, src)))))"

definition flecs_hashmap_get :: "('k, 'v) ecs_hashmap \<Rightarrow> nat \<Rightarrow> 'k \<Rightarrow> nat \<Rightarrow> value_ptr option res" where
  "flecs_hashmap_get hm key_size key value_size =
     ecs_assert (hm_key_size hm = key_size) ECS_INVALID_PARAMETER
     (ecs_assert (hm_value_size hm = value_size) ECS_INVALID_PARAMETER
     (res_bind (hm_hash hm key) (\<lambda>hash.
      res_bind (ecs_map_get_deref (hm_impl hm) hash) (\<lambda>bucket.
      case bucket of
        None \<Rightarrow> Inr None
      | Some p \<Rightarrow>
          res_bind (bucket_get hm p) (\<lambda>b.
          res_bind (hm_find_key hm (hb_keys b) key) (\<lambda>index.
          case index of
            None \<Rightarrow> Inr None
          | Some i \<Rightarrow> ecs_assert (i < length (hb_values b)) ECS_OUT_OF_RANGE (Inr (Some (p, i)))))))))"

definition flecs_hashmap_ensure ::
    "('k, 'v::zero) ecs_hashmap \<Rightarrow> nat \<Rightarrow> 'k \<Rightarrow> nat \<Rightarrow> (('k, 'v) ecs_hashmap \<times> value_ptr \<times> u64) res" where
  "flecs_hashmap_ensure hm key_size key value_size =
     ecs_assert (hm_key_size hm = key_size) ECS_INVALID_PARAMETER
     (ecs_assert (hm_value_size hm = value_size) ECS_INVALID_PARAMETER
     (res_bind (hm_hash hm key) (\<lambda>hash.
      res_bind (ecs_map_ensure (hm_impl hm) hash) (\<lambda>(impl, bucket).
      let hm = hm\<lparr>hm_impl := impl\<rparr> in
      res_bind (case bucket of
          Some p \<Rightarrow> Inr (hm, p)
        | None \<Rightarrow>
            let (hm, p) = flecs_hm_bucket_new hm in
            res_bind (map_write (hm_impl hm) hash (Some p)) (\<lambda>impl. Inr (hm\<lparr>hm_impl := impl\<rparr>, p))) (\<lambda>(hm, p).
      res_bind (bucket_get hm p) (\<lambda>b.
      res_bind (hm_find_key hm (hb_keys b) key) (\<lambda>index.
      case index of
        None \<Rightarrow>
          res_bind (bucket_set hm p \<lparr>hb_keys = hb_keys b @ [key], hb_values = hb_values b @ [0]\<rparr>) (\<lambda>hm.
          Inr (hm, (p, length (hb_values b)), hash))
      | Some i \<Rightarrow> ecs_assert (i < length (hb_values b)) ECS_OUT_OF_RANGE (Inr (hm, (p, i), hash)))))))))"

definition flecs_hashmap_set ::
    "('k, 'v::zero) ecs_hashmap \<Rightarrow> nat \<Rightarrow> 'k \<Rightarrow> nat \<Rightarrow> 'v \<Rightarrow> ('k, 'v) ecs_hashmap res" where
  "flecs_hashmap_set hm key_size key value_size v =
     res_bind (flecs_hashmap_ensure hm key_size key value_size) (\<lambda>(hm, ptr, _). value_write hm ptr v)"

definition flecs_hashmap_get_bucket :: "('k, 'v) ecs_hashmap \<Rightarrow> u64 \<Rightarrow> nat option res" where
  "flecs_hashmap_get_bucket hm hash = ecs_map_get_deref (hm_impl hm) hash"

definition flecs_hm_bucket_remove ::
    "('k, 'v) ecs_hashmap \<Rightarrow> nat \<Rightarrow> u64 \<Rightarrow> nat \<Rightarrow> ('k, 'v) ecs_hashmap res" where
  "flecs_hm_bucket_remove hm p hash index =
     res_bind (bucket_get hm p) (\<lambda>b.
     res_bind (vec_remove (hb_keys b) index) (\<lambda>ks.
     res_bind (vec_remove (hb_values b) index) (\<lambda>vs.
     res_bind (bucket_set hm p \<lparr>hb_keys = ks, hb_values = vs\<rparr>) (\<lambda>hm.
     if ks = [] then
       res_bind (ecs_map_remove (hm_impl hm) hash) (\<lambda>(impl, q).
       ecs_assert (Some p = q) ECS_INTERNAL_ERROR (flecs_hm_bucket_free (hm\<lparr>hm_impl := impl\<rparr>) p))
     else Inr hm))))"

definition flecs_hashmap_remove_w_hash ::
    "('k, 'v) ecs_hashmap \<Rightarrow> nat \<Rightarrow> 'k \<Rightarrow> nat \<Rightarrow> u64 \<Rightarrow> ('k, 'v) ecs_hashmap res" where
  "flecs_hashmap_remove_w_hash hm key_size key value_size hash =
     ecs_assert (hm_key_size hm = key_size) ECS_INVALID_PARAMETER
     (ecs_assert (hm_value_size hm = value_size) ECS_INVALID_PARAMETER
     (res_bind (ecs_map_get_deref (hm_impl hm) hash) (\<lambda>bucket.
      case bucket of
        None \<Rightarrow> Inr hm
      | Some p \<Rightarrow>
          res_bind (bucket_get hm p) (\<lambda>b.
          res_bind (hm_find_key hm (hb_keys b) key) (\<lambda>index.
          case index of
            None \<Rightarrow> Inr hm
          | Some i \<Rightarrow> flecs_hm_bucket_remove hm p hash i)))))"

definition flecs_hashmap_remove ::
    "('k, 'v) ecs_hashmap \<Rightarrow> nat \<Rightarrow> 'k \<Rightarrow> nat \<Rightarrow> ('k, 'v) ecs_hashmap res" where
  "flecs_hashmap_remove hm key_size key value_size =
     ecs_assert (hm_key_size hm = key_size) ECS_INVALID_PARAMETER
     (ecs_assert (hm_value_size hm = value_size) ECS_INVALID_PARAMETER
     (res_bind (hm_hash hm key) (\<lambda>hash. flecs_hashmap_remove_w_hash hm key_size key value_size hash)))"

definition flecs_hashmap_iter :: "('k, 'v) ecs_hashmap \<Rightarrow> flecs_hashmap_iter_t" where
  "flecs_hashmap_iter hm = \<lparr>hi_it = ecs_map_iter (hm_impl hm), hi_bucket = None, hi_index = 0\<rparr>"

text \<open>The loop over buckets: what it returns is whether there is an element, and the iterator.\<close>

fun hm_next_bucket ::
    "nat \<Rightarrow> ('k, 'v) ecs_hashmap \<Rightarrow> flecs_hashmap_iter_t \<Rightarrow> (bool \<times> flecs_hashmap_iter_t \<times> ('k, 'v) ecs_hashmap) res" where
  "hm_next_bucket 0 hm it = Inl OUT_OF_FUEL"
| "hm_next_bucket (Suc fuel) hm it =
     res_bind (case hi_bucket it of
         None \<Rightarrow> Inr True
       | Some p \<Rightarrow> res_bind (bucket_get hm p) (\<lambda>b. Inr (hi_index it \<ge> length (hb_keys b)))) (\<lambda>advance.
     if \<not> advance then Inr (True, it, hm)
     else
       res_bind (ecs_map_next (hm_impl hm) (hi_it it)) (\<lambda>(more, mit, impl).
       let hm = hm\<lparr>hm_impl := impl\<rparr>;
           it = it\<lparr>hi_it := mit\<rparr>
       in
       if \<not> more then Inr (False, it\<lparr>hi_bucket := None\<rparr>, hm)
       else
         res_bind (ecs_map_value impl mit) (\<lambda>bucket.
         hm_next_bucket fuel hm (it\<lparr>hi_bucket := bucket, hi_index := 0\<rparr>))))"

text \<open>The pointer to the value (the key is at the same position), or null at the end.\<close>

definition flecs_hashmap_next ::
    "('k, 'v) ecs_hashmap \<Rightarrow> flecs_hashmap_iter_t \<Rightarrow> (value_ptr option \<times> flecs_hashmap_iter_t \<times> ('k, 'v) ecs_hashmap) res" where
  "flecs_hashmap_next hm it =
     (let it = it\<lparr>hi_index := hi_index it + 1\<rparr> in
      res_bind (hm_next_bucket (mcount (hm_impl hm) + 2) hm it) (\<lambda>(found, it, hm).
      if \<not> found then Inr (None, it, hm)
      else
        res_bind (deref (hi_bucket it)) (\<lambda>p.
        res_bind (bucket_get hm p) (\<lambda>b.
        ecs_assert (hi_index it < length (hb_values b)) ECS_OUT_OF_RANGE
          (Inr (Some (p, hi_index it), it, hm))))))"


section \<open>Invariant and contents\<close>

text \<open>
  What a hash function and a comparison have to satisfy on the keys that are used: equality is an
  equivalence, and equal keys have the same hash.
\<close>

locale hash_keys =
  fixes ok :: "'k \<Rightarrow> bool" and hash :: "'k \<Rightarrow> u64 res" and compare :: "'k \<Rightarrow> 'k \<Rightarrow> int"
  assumes hash_ok: "ok k \<Longrightarrow> \<exists>h. hash k = Inr h"
    and compare_refl: "ok k \<Longrightarrow> compare k k = 0"
    and compare_sym: "ok a \<Longrightarrow> ok b \<Longrightarrow> compare a b = 0 \<Longrightarrow> compare b a = 0"
    and compare_trans: "ok a \<Longrightarrow> ok b \<Longrightarrow> ok c \<Longrightarrow> compare a b = 0 \<Longrightarrow> compare b c = 0 \<Longrightarrow> compare a c = 0"
    and hash_eq: "ok a \<Longrightarrow> ok b \<Longrightarrow> compare a b = 0 \<Longrightarrow> hash a = hash b"

definition bucket_ok ::
    "('k \<Rightarrow> bool) \<Rightarrow> ('k \<Rightarrow> u64 res) \<Rightarrow> ('k \<Rightarrow> 'k \<Rightarrow> int) \<Rightarrow> u64 \<Rightarrow> ('k, 'v) ecs_hm_bucket \<Rightarrow> bool" where
  "bucket_ok ok hash compare h b \<longleftrightarrow> hb_keys b \<noteq> [] \<and> length (hb_values b) = length (hb_keys b)
     \<and> (\<forall>k\<in>set (hb_keys b). ok k \<and> hash k = Inr h)
     \<and> (\<forall>i j. i < length (hb_keys b) \<longrightarrow> j < length (hb_keys b) \<longrightarrow> i \<noteq> j \<longrightarrow> compare (hb_keys b ! i) (hb_keys b ! j) \<noteq> 0)"

definition hm_wf :: "('k \<Rightarrow> bool) \<Rightarrow> ('k \<Rightarrow> u64 res) \<Rightarrow> ('k \<Rightarrow> 'k \<Rightarrow> int) \<Rightarrow> ('k, 'v) ecs_hashmap \<Rightarrow> bool" where
  "hm_wf ok hash compare hm \<longleftrightarrow> hm_hash hm = hash \<and> hm_compare hm = Some compare \<and> map_wf (hm_impl hm)
     \<and> (\<forall>h v. map_abs (hm_impl hm) h = Some v \<longrightarrow>
          (\<exists>p b. v = Some p \<and> p < length (hm_heap hm) \<and> hm_heap hm ! p = Some b \<and> bucket_ok ok hash compare h b))
     \<and> (\<forall>p b. p < length (hm_heap hm) \<longrightarrow> hm_heap hm ! p = Some b \<longrightarrow> (\<exists>h. map_abs (hm_impl hm) h = Some (Some p)))"

definition hm_bucket :: "('k, 'v) ecs_hashmap \<Rightarrow> u64 \<Rightarrow> ('k, 'v) ecs_hm_bucket option" where
  "hm_bucket hm h = (case map_abs (hm_impl hm) h of Some (Some p) \<Rightarrow> hm_heap hm ! p | _ \<Rightarrow> None)"

definition bucket_lookup :: "('k \<Rightarrow> 'k \<Rightarrow> int) \<Rightarrow> ('k, 'v) ecs_hm_bucket \<Rightarrow> 'k \<Rightarrow> 'v option" where
  "bucket_lookup compare b k = map_option (\<lambda>i. hb_values b ! i) (flecs_hashmap_find_key compare (hb_keys b) k)"

definition hm_abs :: "('k \<Rightarrow> u64 res) \<Rightarrow> ('k \<Rightarrow> 'k \<Rightarrow> int) \<Rightarrow> ('k, 'v) ecs_hashmap \<Rightarrow> 'k \<Rightarrow> 'v option" where
  "hm_abs hash compare hm k = (case hash k of
     Inl _ \<Rightarrow> None
   | Inr h \<Rightarrow> (case hm_bucket hm h of None \<Rightarrow> None | Some b \<Rightarrow> bucket_lookup compare b k))"

lemma find_key_None: "flecs_hashmap_find_key compare ks k = None \<longleftrightarrow> (\<forall>x\<in>set ks. compare x k \<noteq> 0)"
  by (induction ks) auto

lemma find_key_Some:
  "flecs_hashmap_find_key compare ks k = Some i \<Longrightarrow> i < length ks \<and> compare (ks ! i) k = 0"
  by (induction ks arbitrary: i) (auto split: if_splits)

lemma hm_find_key_eq: "hm_compare hm = Some compare \<Longrightarrow> hm_find_key hm ks k = Inr (flecs_hashmap_find_key compare ks k)"
  by (simp add: hm_find_key_def)

lemma swap_removed_length: "i < length xs \<Longrightarrow> length (swap_removed i xs) = length xs - 1"
  by (simp add: swap_removed_def)

lemma swap_removed_nth:
  assumes "i < length xs" and "j < length xs - 1"
  shows "swap_removed i xs ! j = xs ! (if j = i then length xs - 1 else j)"
proof -
  have "xs \<noteq> []" using assms by auto
  then show ?thesis
    using assms by (auto simp: swap_removed_def nth_butlast nth_list_update last_conv_nth)
qed

lemma swap_removed_subset: "i < length xs \<Longrightarrow> set (swap_removed i xs) \<subseteq> set xs"
proof
  fix x
  assume i: "i < length xs" and "x \<in> set (swap_removed i xs)"
  then obtain j where "j < length xs - 1" "x = swap_removed i xs ! j"
    by (auto simp: in_set_conv_nth swap_removed_length)
  with i have "x = xs ! (if j = i then length xs - 1 else j)" by (simp add: swap_removed_nth)
  then show "x \<in> set xs" using i \<open>j < length xs - 1\<close> by (simp split: if_splits)
qed

text \<open>The number of buckets is still in the range of the map of buckets.\<close>

definition room :: "('k, 'v) ecs_hashmap \<Rightarrow> bool" where
  "room hm \<longleftrightarrow> card (dom (map_abs (hm_impl hm))) < 2 ^ 26 - 1"

context hash_keys
begin

lemma lookup_iff:
  assumes b: "bucket_ok ok hash compare h b" and k: "ok k"
  shows "bucket_lookup compare b k = Some v \<longleftrightarrow>
    (\<exists>j<length (hb_keys b). compare (hb_keys b ! j) k = 0 \<and> v = hb_values b ! j)"
proof -
  have uniq: "i = j" if "i < length (hb_keys b)" "j < length (hb_keys b)" "compare (hb_keys b ! i) k = 0"
    "compare (hb_keys b ! j) k = 0" for i j
  proof (rule ccontr)
    assume "i \<noteq> j"
    moreover have o: "ok (hb_keys b ! i)" "ok (hb_keys b ! j)" using b that by (auto simp: bucket_ok_def)
    then have "compare (hb_keys b ! i) (hb_keys b ! j) = 0"
      using that compare_trans[OF o(1) k o(2)] compare_sym[OF o(2) k] by blast
    ultimately show False using b that by (simp add: bucket_ok_def)
  qed
  show ?thesis
  proof (cases "flecs_hashmap_find_key compare (hb_keys b) k")
    case None
    then have "bucket_lookup compare b k = None" by (simp add: bucket_lookup_def)
    moreover have "\<forall>x\<in>set (hb_keys b). compare x k \<noteq> 0" using None by (simp add: find_key_None)
    ultimately show ?thesis by auto
  next
    case (Some i)
    then show ?thesis
      using find_key_Some[OF Some] uniq[of i] by (auto simp: bucket_lookup_def)
  qed
qed

text \<open>Where the keys equal to a key that was found are.\<close>

lemma match_at:
  assumes b: "bucket_ok ok hash compare h b" and i: "flecs_hashmap_find_key compare (hb_keys b) k = Some i"
    and k: "ok k" "ok k'" and j: "j < length (hb_keys b)"
  shows "compare k' k = 0 \<Longrightarrow> compare (hb_keys b ! j) k' = 0 \<longleftrightarrow> j = i"
    "compare k' k \<noteq> 0 \<Longrightarrow> compare (hb_keys b ! i) k' \<noteq> 0"
proof -
  note i = find_key_Some[OF i]
  have o: "ok (hb_keys b ! i)" "ok (hb_keys b ! j)" using b i j by (auto simp: bucket_ok_def)
  show "compare (hb_keys b ! j) k' = 0 \<longleftrightarrow> j = i" if "compare k' k = 0"
  proof
    show "compare (hb_keys b ! j) k' = 0" if "j = i"
      using i o k \<open>compare k' k = 0\<close> compare_trans[OF o(1) k] compare_sym[OF k(2,1)] that by blast
    assume "compare (hb_keys b ! j) k' = 0"
    then have "compare (hb_keys b ! j) k = 0" using compare_trans[OF o(2) k(2,1)] \<open>compare k' k = 0\<close> by blast
    then have "compare (hb_keys b ! j) (hb_keys b ! i) = 0"
      using compare_trans[OF o(2) k(1) o(1)] compare_sym[OF o(1) k(1)] i by blast
    then show "j = i" using b i j by (auto simp: bucket_ok_def)
  qed
  show "compare (hb_keys b ! i) k' \<noteq> 0" if "compare k' k \<noteq> 0"
    using that i compare_trans[OF k(2) o(1) k(1)] compare_sym[OF o(1) k(2)] by blast
qed

text \<open>The bucket operations: overwriting, appending and removing an element.\<close>

lemma lookup_overwrite:
  fixes v :: 'v
  assumes b: "bucket_ok ok hash compare h b" and i: "flecs_hashmap_find_key compare (hb_keys b) k = Some i" and k: "ok k"
  defines "b' \<equiv> b\<lparr>hb_values := (hb_values b)[i := v]\<rparr>"
  shows "bucket_ok ok hash compare h b'"
    "ok k' \<Longrightarrow> bucket_lookup compare b' k' = (if compare k' k = 0 then Some v else bucket_lookup compare b k')"
proof -
  show b': "bucket_ok ok hash compare h b'" using b by (simp add: bucket_ok_def b'_def)
  have len: "length (hb_values b) = length (hb_keys b)" using b by (simp add: bucket_ok_def)
  have il: "i < length (hb_keys b)" using find_key_Some[OF i] ..
  assume k': "ok k'"
  note m = match_at[OF b i k k']
  show "bucket_lookup compare b' k' = (if compare k' k = 0 then Some v else bucket_lookup compare b k')"
  proof (cases "compare k' k = 0")
    case True
    then have "bucket_lookup compare b' k' = Some v"
      unfolding lookup_iff[OF b' k'] using m il len by (auto simp: b'_def)
    with True show ?thesis by simp
  next
    case False
    have "bucket_lookup compare b' k' = Some w \<longleftrightarrow> bucket_lookup compare b k' = Some w" for w
    proof -
      have "(compare (hb_keys b ! j) k' = 0 \<and> w = (hb_values b)[i := v] ! j) \<longleftrightarrow> (compare (hb_keys b ! j) k' = 0 \<and> w = hb_values b ! j)" for j
        using m(2)[OF il False] by (cases "j = i") auto
      then show ?thesis
        unfolding lookup_iff[OF b' k'] lookup_iff[OF b k'] by (simp add: b'_def)
    qed
    then have "bucket_lookup compare b' k' = bucket_lookup compare b k'"
      by (metis option.exhaust)
    with False show ?thesis by simp
  qed
qed

lemma lookup_append:
  fixes v :: 'v
  assumes b: "bucket_ok ok hash compare h b \<or> hb_keys b = [] \<and> hb_values b = []"
    and none: "flecs_hashmap_find_key compare (hb_keys b) k = None" and k: "ok k" "hash k = Inr h"
  defines "b' \<equiv> \<lparr>hb_keys = hb_keys b @ [k], hb_values = hb_values b @ [v]\<rparr>"
  shows "bucket_ok ok hash compare h b'"
    "ok k' \<Longrightarrow> bucket_lookup compare b' k' = (if compare k' k = 0 then Some v else bucket_lookup compare b k')"
proof -
  have len: "length (hb_values b) = length (hb_keys b)" using b by (auto simp: bucket_ok_def)
  have oj: "ok (hb_keys b ! j)" if "j < length (hb_keys b)" for j using b that by (auto simp: bucket_ok_def)
  have nj: "compare (hb_keys b ! j) k \<noteq> 0" "compare k (hb_keys b ! j) \<noteq> 0" if "j < length (hb_keys b)" for j
    using none that compare_sym[OF k(1) oj[OF that]] by (auto simp: find_key_None)
  show b': "bucket_ok ok hash compare h b'"
    unfolding bucket_ok_def
  proof (intro conjI allI impI ballI)
    fix i j
    assume "i < length (hb_keys b')" "j < length (hb_keys b')" "i \<noteq> j"
    then show "compare (hb_keys b' ! i) (hb_keys b' ! j) \<noteq> 0"
      using nj b by (auto simp: b'_def nth_append less_Suc_eq bucket_ok_def)
  qed (use b k len in \<open>auto simp: b'_def bucket_ok_def\<close>)
  assume k': "ok k'"
  have same: "flecs_hashmap_find_key compare (hb_keys b') k' = (case flecs_hashmap_find_key compare (hb_keys b) k' of
      Some i \<Rightarrow> Some i | None \<Rightarrow> if compare k k' = 0 then Some (length (hb_keys b)) else None)"
  proof -
    have "flecs_hashmap_find_key compare (ks @ [k]) k' = (case flecs_hashmap_find_key compare ks k' of
        Some i \<Rightarrow> Some i | None \<Rightarrow> if compare k k' = 0 then Some (length ks) else None)" for ks
      by (induction ks) (auto split: option.splits)
    then show ?thesis by (simp add: b'_def)
  qed
  show "bucket_lookup compare b' k' = (if compare k' k = 0 then Some v else bucket_lookup compare b k')"
  proof (cases "compare k' k = 0")
    case True
    have "flecs_hashmap_find_key compare (hb_keys b) k' = None"
      unfolding find_key_None
    proof
      fix x
      assume "x \<in> set (hb_keys b)"
      then have "ok x" "compare x k \<noteq> 0" using b none by (auto simp: bucket_ok_def find_key_None)
      then show "compare x k' \<noteq> 0" using True compare_trans[OF \<open>ok x\<close> k' k(1)] by blast
    qed
    then show ?thesis
      using True compare_sym[OF k' k(1)] len by (simp add: bucket_lookup_def same) (simp add: b'_def nth_append)
  next
    case False
    then have "compare k k' \<noteq> 0" using compare_sym[OF k(1) k'] by blast
    then show ?thesis
      using False len unfolding bucket_lookup_def same
      by (cases "flecs_hashmap_find_key compare (hb_keys b) k'") (auto simp: b'_def nth_append dest: find_key_Some)
  qed
qed

lemma lookup_remove:
  assumes b: "bucket_ok ok hash compare h b" and i: "flecs_hashmap_find_key compare (hb_keys b) k = Some i" and k: "ok k"
  defines "b' \<equiv> \<lparr>hb_keys = swap_removed i (hb_keys b), hb_values = swap_removed i (hb_values b)\<rparr>"
  shows "hb_keys b' \<noteq> [] \<Longrightarrow> bucket_ok ok hash compare h b'"
    "ok k' \<Longrightarrow> (if hb_keys b' = [] then None else bucket_lookup compare b' k') = (if compare k' k = 0 then None else bucket_lookup compare b k')"
proof -
  let ?n = "length (hb_keys b)"
  have len: "length (hb_values b) = ?n" using b by (simp add: bucket_ok_def)
  have il: "i < ?n" using find_key_Some[OF i] ..
  define f where "f j = (if j = i then ?n - 1 else j)" for j
  have nth: "hb_keys b' ! j = hb_keys b ! f j" "hb_values b' ! j = hb_values b ! f j" "f j < ?n" "f j \<noteq> i" if "j < ?n - 1" for j
  proof -
    show "hb_keys b' ! j = hb_keys b ! f j" using swap_removed_nth[OF il that] by (simp add: b'_def f_def)
    have "i < length (hb_values b)" "j < length (hb_values b) - 1" using il that len by simp_all
    from swap_removed_nth[OF this] show "hb_values b' ! j = hb_values b ! f j" using len by (simp add: b'_def f_def)
    show "f j < ?n" using il that by (cases "j = i") (auto simp: f_def)
    show "f j \<noteq> i" using that by (simp add: f_def)
  qed
  have lb: "length (hb_keys b') = ?n - 1" using il by (simp add: b'_def swap_removed_length)
  have surj: "\<exists>j<?n - 1. f j = m" if "m < ?n" "m \<noteq> i" for m
  proof (cases "m = ?n - 1")
    case True
    then have "i < ?n - 1" using that il by simp
    moreover have "f i = m" using True by (simp add: f_def)
    ultimately show ?thesis by blast
  next
    case False
    then have "m < ?n - 1" "f m = m" using that by (simp_all add: f_def)
    then show ?thesis by blast
  qed
  show b': "bucket_ok ok hash compare h b'" if "hb_keys b' \<noteq> []"
    unfolding bucket_ok_def
  proof (intro conjI allI impI)
    fix x y
    assume "x < length (hb_keys b')" "y < length (hb_keys b')" "x \<noteq> y"
    then have "f x < ?n" "f y < ?n" "f x \<noteq> f y" "hb_keys b' ! x = hb_keys b ! f x" "hb_keys b' ! y = hb_keys b ! f y"
      using nth[of x] nth[of y] lb by (auto simp: f_def split: if_splits)
    then show "compare (hb_keys b' ! x) (hb_keys b' ! y) \<noteq> 0"
      using b by (simp add: bucket_ok_def)
  next
    show "\<forall>k\<in>set (hb_keys b'). ok k \<and> hash k = Inr h"
      using swap_removed_subset[OF il] b by (auto simp: b'_def bucket_ok_def)
  qed (use that len il in \<open>auto simp: b'_def swap_removed_length\<close>)
  assume k': "ok k'"
  note m = match_at[OF b i k k']
  have "(\<exists>j<?n - 1. compare (hb_keys b' ! j) k' = 0 \<and> v = hb_values b' ! j)
    \<longleftrightarrow> (\<exists>j<?n. j \<noteq> i \<and> compare (hb_keys b ! j) k' = 0 \<and> v = hb_values b ! j)" for v
    using nth surj by metis
  also have "\<dots>v \<longleftrightarrow> (if compare k' k = 0 then False else \<exists>j<?n. compare (hb_keys b ! j) k' = 0 \<and> v = hb_values b ! j)" for v
    using m il by auto
  finally have eq: "(\<exists>j<?n - 1. compare (hb_keys b' ! j) k' = 0 \<and> v = hb_values b' ! j)
    \<longleftrightarrow> (if compare k' k = 0 then None else bucket_lookup compare b k') = Some v" for v
    using lookup_iff[OF b k'] by simp
  show "(if hb_keys b' = [] then None else bucket_lookup compare b' k') = (if compare k' k = 0 then None else bucket_lookup compare b k')"
  proof (cases "hb_keys b' = []")
    case True
    then have "?n - 1 = 0" using lb by simp
    then have "(if compare k' k = 0 then None else bucket_lookup compare b k') \<noteq> Some v" for v
      using eq[of v] by auto
    with True show ?thesis by (metis option.exhaust)
  next
    case False
    have "bucket_lookup compare b' k' = Some v \<longleftrightarrow> (if compare k' k = 0 then None else bucket_lookup compare b k') = Some v" for v
      unfolding lookup_iff[OF b'[OF False] k'] lb by (rule eq)
    with False show ?thesis by (metis option.exhaust)
  qed
qed

text \<open>Storing, creating and freeing a bucket keep the invariant.\<close>

lemma bucket_at:
  assumes wf: "hm_wf ok hash compare hm" and p: "map_abs (hm_impl hm) h = Some v"
  obtains p b where "v = Some p" "p < length (hm_heap hm)" "hm_heap hm ! p = Some b" "bucket_ok ok hash compare h b"
    "hm_bucket hm h = Some b" "bucket_get hm p = Inr b"
  using assms unfolding hm_wf_def hm_bucket_def bucket_get_def by fastforce

lemma bucket_ptr_inj:
  assumes wf: "hm_wf ok hash compare hm" and p: "map_abs (hm_impl hm) h = Some (Some p)" "map_abs (hm_impl hm) h' = Some (Some p)"
  shows "h = h'"
proof -
  obtain b where b: "hm_heap hm ! p = Some b" "bucket_ok ok hash compare h b"
    by (rule bucket_at[OF wf p(1)]) simp
  obtain b' where b': "hm_heap hm ! p = Some b'" "bucket_ok ok hash compare h' b'"
    by (rule bucket_at[OF wf p(2)]) simp
  have "hd (hb_keys b) \<in> set (hb_keys b)" using b(2) by (simp add: bucket_ok_def)
  with b b' have "(Inr h :: u64 res) = Inr h'" unfolding bucket_ok_def by (metis option.inject)
  then show ?thesis by simp
qed

lemma bucket_store:
  assumes wf: "hm_wf ok hash compare hm" and p: "map_abs (hm_impl hm) h = Some (Some p)"
    and b': "bucket_ok ok hash compare h b'"
  defines "hm' \<equiv> hm\<lparr>hm_heap := (hm_heap hm)[p := Some b']\<rparr>"
  shows "bucket_set hm p b' = Inr hm'" "hm_wf ok hash compare hm'" "hm_bucket hm' = (hm_bucket hm)(h \<mapsto> b')"
proof -
  obtain b where b: "p < length (hm_heap hm)" "hm_heap hm ! p = Some b" "bucket_get hm p = Inr b"
    by (rule bucket_at[OF wf p]) simp
  show "bucket_set hm p b' = Inr hm'" by (simp add: bucket_set_def b(3) hm'_def)
  have other: "q \<noteq> p" if "map_abs (hm_impl hm) h' = Some (Some q)" "h' \<noteq> h" for h' q
    using bucket_ptr_inj[OF wf p] that by blast
  show "hm_wf ok hash compare hm'"
    unfolding hm_wf_def
  proof (intro conjI allI impI)
    fix h' v
    assume "map_abs (hm_impl hm') h' = Some v"
    then have v: "map_abs (hm_impl hm) h' = Some v" by (simp add: hm'_def)
    show "\<exists>p b. v = Some p \<and> p < length (hm_heap hm') \<and> hm_heap hm' ! p = Some b \<and> bucket_ok ok hash compare h' b"
    proof (cases "h' = h")
      case True
      then show ?thesis using v p b b' by (auto simp: hm'_def)
    next
      case False
      obtain q c where "v = Some q" "q < length (hm_heap hm)" "hm_heap hm ! q = Some c" "bucket_ok ok hash compare h' c"
        by (rule bucket_at[OF wf v])
      then show ?thesis using other[of h' q] v False by (auto simp: hm'_def)
    qed
  next
    fix q c
    assume "q < length (hm_heap hm')" "hm_heap hm' ! q = Some c"
    then show "\<exists>h. map_abs (hm_impl hm') h = Some (Some q)"
      using wf p by (cases "q = p") (auto simp: hm'_def hm_wf_def)
  qed (use wf in \<open>auto simp: hm'_def hm_wf_def\<close>)
  show "hm_bucket hm' = (hm_bucket hm)(h \<mapsto> b')"
  proof
    fix h'
    show "hm_bucket hm' h' = ((hm_bucket hm)(h \<mapsto> b')) h'"
      using p b(1) other[of h'] by (cases "h' = h") (auto simp: hm_bucket_def hm'_def split: option.splits)
  qed
qed

lemma bucket_create:
  assumes wf: "hm_wf ok hash compare hm" and p: "map_abs (hm_impl hm) h = None"
    and impl: "map_wf impl" "map_abs impl = (map_abs (hm_impl hm))(h \<mapsto> Some (length (hm_heap hm)))"
    and b': "bucket_ok ok hash compare h b'"
  defines "hm' \<equiv> hm\<lparr>hm_heap := hm_heap hm @ [Some b'], hm_impl := impl\<rparr>"
  shows "hm_wf ok hash compare hm'" "hm_bucket hm' = (hm_bucket hm)(h \<mapsto> b')"
proof -
  have old: "q < length (hm_heap hm)" if "map_abs (hm_impl hm) h' = Some (Some q)" for h' q
    by (rule bucket_at[OF wf that]) simp
  show "hm_wf ok hash compare hm'"
    unfolding hm_wf_def
  proof (intro conjI allI impI)
    fix h' v
    assume v: "map_abs (hm_impl hm') h' = Some v"
    show "\<exists>p b. v = Some p \<and> p < length (hm_heap hm') \<and> hm_heap hm' ! p = Some b \<and> bucket_ok ok hash compare h' b"
    proof (cases "h' = h")
      case True
      then show ?thesis using v b' by (auto simp: hm'_def impl)
    next
      case False
      then have v: "map_abs (hm_impl hm) h' = Some v" using v by (simp add: hm'_def impl)
      obtain q c where "v = Some q" "q < length (hm_heap hm)" "hm_heap hm ! q = Some c" "bucket_ok ok hash compare h' c"
        by (rule bucket_at[OF wf v])
      then show ?thesis by (auto simp: hm'_def nth_append)
    qed
  next
    fix q c
    assume q: "q < length (hm_heap hm')" "hm_heap hm' ! q = Some c"
    show "\<exists>h. map_abs (hm_impl hm') h = Some (Some q)"
    proof (cases "q = length (hm_heap hm)")
      case True
      then show ?thesis by (intro exI[of _ h]) (simp add: hm'_def impl)
    next
      case False
      then have "q < length (hm_heap hm)" "hm_heap hm ! q = Some c"
        using q by (auto simp: hm'_def nth_append)
      then obtain h' where h': "map_abs (hm_impl hm) h' = Some (Some q)"
        using wf unfolding hm_wf_def by blast
      then have "h' \<noteq> h" using p by auto
      with h' show ?thesis by (intro exI[of _ h']) (simp add: hm'_def impl)
    qed
  qed (use wf impl in \<open>auto simp: hm'_def hm_wf_def\<close>)
  show "hm_bucket hm' = (hm_bucket hm)(h \<mapsto> b')"
  proof
    fix h'
    show "hm_bucket hm' h' = ((hm_bucket hm)(h \<mapsto> b')) h'"
      using old[of h'] by (cases "h' = h") (auto simp: hm_bucket_def hm'_def impl nth_append split: option.splits)
  qed
qed

lemma bucket_drop:
  assumes wf: "hm_wf ok hash compare hm" and p: "map_abs (hm_impl hm) h = Some (Some p)"
    and impl: "map_wf impl" "map_abs impl = (map_abs (hm_impl hm))(h := None)"
  defines "hm' \<equiv> hm\<lparr>hm_impl := impl, hm_heap := (hm_heap hm)[p := None]\<rparr>"
  shows "hm_wf ok hash compare hm'" "hm_bucket hm' = (hm_bucket hm)(h := None)"
proof -
  have other: "q \<noteq> p" if "map_abs (hm_impl hm) h' = Some (Some q)" "h' \<noteq> h" for h' q
    using bucket_ptr_inj[OF wf p] that by blast
  show "hm_wf ok hash compare hm'"
    unfolding hm_wf_def
  proof (intro conjI allI impI)
    fix h' v
    assume "map_abs (hm_impl hm') h' = Some v"
    then have v: "map_abs (hm_impl hm) h' = Some v" "h' \<noteq> h" by (auto simp: hm'_def impl split: if_splits)
    obtain q c where "v = Some q" "q < length (hm_heap hm)" "hm_heap hm ! q = Some c" "bucket_ok ok hash compare h' c"
      by (rule bucket_at[OF wf v(1)])
    then show "\<exists>p b. v = Some p \<and> p < length (hm_heap hm') \<and> hm_heap hm' ! p = Some b \<and> bucket_ok ok hash compare h' b"
      using other[of h' q] v by (auto simp: hm'_def)
  next
    fix q c
    assume q: "q < length (hm_heap hm')" "hm_heap hm' ! q = Some c"
    then have "q \<noteq> p" by (auto simp: hm'_def)
    with q obtain h' where h': "map_abs (hm_impl hm) h' = Some (Some q)"
      using wf by (auto simp: hm'_def hm_wf_def)
    then have "h' \<noteq> h" using p \<open>q \<noteq> p\<close> by auto
    with h' show "\<exists>h. map_abs (hm_impl hm') h = Some (Some q)"
      by (intro exI[of _ h']) (simp add: hm'_def impl)
  qed (use wf impl in \<open>auto simp: hm'_def hm_wf_def\<close>)
  show "hm_bucket hm' = (hm_bucket hm)(h := None)"
  proof
    fix h'
    show "hm_bucket hm' h' = ((hm_bucket hm)(h := None)) h'"
      using other[of h'] by (cases "h' = h") (auto simp: hm_bucket_def hm'_def impl split: option.splits)
  qed
qed

text \<open>The contents after a change of one bucket.\<close>

lemma hm_abs_update:
  assumes k: "ok k" "hash k = Inr h" and hb: "hm_bucket hm' = (hm_bucket hm)(h := B)"
    and look: "\<And>k'. ok k' \<Longrightarrow> hash k' = Inr h \<Longrightarrow>
      (case B of None \<Rightarrow> None | Some b \<Rightarrow> bucket_lookup compare b k') =
      (if compare k' k = 0 then w else hm_abs hash compare hm k')"
    and k': "ok k'"
  shows "hm_abs hash compare hm' k' = (if compare k' k = 0 then w else hm_abs hash compare hm k')"
proof -
  obtain h' where h': "hash k' = Inr h'" using hash_ok[OF k'] ..
  show ?thesis
  proof (cases "h' = h")
    case True
    then show ?thesis using look[OF k'] h' by (simp add: hm_abs_def hb)
  next
    case False
    then have "compare k' k \<noteq> 0" using hash_eq[OF k' k(1)] h' k(2) by auto
    then show ?thesis using False h' by (simp add: hm_abs_def hb)
  qed
qed

lemma hm_get:
  assumes wf: "hm_wf ok hash compare hm" and k: "ok k"
  shows "\<exists>r. flecs_hashmap_get hm (hm_key_size hm) k (hm_value_size hm) = Inr r
    \<and> (case r of None \<Rightarrow> hm_abs hash compare hm k = None
       | Some ptr \<Rightarrow> \<exists>v. hm_abs hash compare hm k = Some v \<and> value_read hm ptr = Inr v)"
proof -
  obtain h where h: "hash k = Inr h" using hash_ok[OF k] ..
  have w: "map_wf (hm_impl hm)" "hm_hash hm = hash" "hm_compare hm = Some compare" using wf by (simp_all add: hm_wf_def)
  show ?thesis
  proof (cases "map_abs (hm_impl hm) h")
    case None
    then show ?thesis
      using h w by (simp add: flecs_hashmap_get_def ecs_map_get_deref_def map_get hm_abs_def hm_bucket_def)
  next
    case (Some v)
    then obtain p b where b: "v = Some p" "hm_bucket hm h = Some b" "bucket_get hm p = Inr b" "bucket_ok ok hash compare h b"
      by (rule bucket_at[OF wf]) blast
    have get: "flecs_hashmap_get hm (hm_key_size hm) k (hm_value_size hm) =
        (case flecs_hashmap_find_key compare (hb_keys b) k of None \<Rightarrow> Inr None | Some i \<Rightarrow> Inr (Some (p, i)))"
      using h w Some b by (auto simp: flecs_hashmap_get_def ecs_map_get_deref_def map_get hm_find_key_eq bucket_ok_def
        dest: find_key_Some split: option.splits)
    show ?thesis
      using h w b by (auto simp: get hm_abs_def bucket_lookup_def value_read_def bucket_ok_def dest: find_key_Some split: option.splits)
  qed
qed

text \<open>Ensuring a key: a slot for it, zero when it is new, and what a write to the slot does.\<close>

lemma hm_abs_cong:
  assumes wf: "hm_wf ok hash compare hm" and k: "ok k" "ok k'" and eq: "compare k' k = 0"
  shows "hm_abs hash compare hm k' = hm_abs hash compare hm k"
proof -
  have h: "hash k' = hash k" using hash_eq[OF k(2,1) eq] .
  have "bucket_lookup compare b k' = bucket_lookup compare b k" if b: "bucket_ok ok hash compare h b" for h b
  proof -
    have "compare (hb_keys b ! j) k' = 0 \<longleftrightarrow> compare (hb_keys b ! j) k = 0" if "j < length (hb_keys b)" for j
    proof -
      have o: "ok (hb_keys b ! j)" using b that by (auto simp: bucket_ok_def)
      show ?thesis using compare_trans[OF o k(2,1)] compare_trans[OF o k] compare_sym[OF k(2,1) eq] eq by blast
    qed
    then have "bucket_lookup compare b k' = Some v \<longleftrightarrow> bucket_lookup compare b k = Some v" for v
      unfolding lookup_iff[OF b k(2)] lookup_iff[OF b k(1)] by blast
    then show ?thesis by (metis option.exhaust)
  qed
  moreover have "\<exists>h. bucket_ok ok hash compare h b" if "hm_bucket hm x = Some b" for x b
  proof -
    from that obtain p where "map_abs (hm_impl hm) x = Some (Some p)" "hm_heap hm ! p = Some b"
      by (auto simp: hm_bucket_def split: option.splits)
    then show ?thesis using bucket_at[OF wf, of x "Some p"] by (metis option.inject)
  qed
  ultimately have "bucket_lookup compare b k' = bucket_lookup compare b k" if "hm_bucket hm x = Some b" for x b
    using that by blast
  then show ?thesis
    by (auto simp: hm_abs_def h split: sum.splits option.splits)
qed

lemma hm_ensure:
  fixes hm :: "('k, 'v::zero) ecs_hashmap"
  assumes wf: "hm_wf ok hash compare hm" and k: "ok k" "hash k = Inr h" and rm: "room hm"
  obtains hm1 p i b where "flecs_hashmap_ensure hm (hm_key_size hm) k (hm_value_size hm) = Inr (hm1, (p, i), h)"
    "hm_wf ok hash compare hm1" "map_abs (hm_impl hm1) h = Some (Some p)" "hm_bucket hm1 h = Some b"
    "bucket_get hm1 p = Inr b"
    "flecs_hashmap_find_key compare (hb_keys b) k = Some i"
    "\<And>k'. ok k' \<Longrightarrow> hm_abs hash compare hm1 k' = (if compare k' k = 0
        then Some (case hm_abs hash compare hm k of Some v \<Rightarrow> v | None \<Rightarrow> 0) else hm_abs hash compare hm k')"
    "hm_key_size hm1 = hm_key_size hm" "hm_value_size hm1 = hm_value_size hm"
    "card (dom (map_abs (hm_impl hm1))) \<le> card (dom (map_abs (hm_impl hm))) + 1"
proof -
  have w: "map_wf (hm_impl hm)" "hm_hash hm = hash" "hm_compare hm = Some compare" using wf by (simp_all add: hm_wf_def)
  have "mcount (hm_impl hm) + 1 < 2 ^ 26" using rm card_map_abs[OF w(1)] by (simp add: room_def)
  then obtain impl v0 where impl: "ecs_map_ensure (hm_impl hm) h = Inr (impl, v0)" "map_wf impl"
    "v0 = (case map_abs (hm_impl hm) h of Some v \<Rightarrow> v | None \<Rightarrow> 0)" "map_abs impl = (map_abs (hm_impl hm))(h \<mapsto> v0)"
    using map_ensure[OF w(1), of h] by metis
  have found: "flecs_hashmap_find_key compare (ks @ [k]) k = Some (length ks)"
    if "flecs_hashmap_find_key compare ks k = None" for ks
    using that compare_refl[OF k(1)] by (induction ks) (auto split: if_splits)
  have fin: "finite (dom (map_abs (hm_impl hm)))" by (rule finite_map_abs)
  show thesis
  proof (cases "map_abs (hm_impl hm) h")
    case (Some v)
    then obtain p b where b: "v = Some p" "p < length (hm_heap hm)" "hm_heap hm ! p = Some b" "hm_bucket hm h = Some b" "bucket_ok ok hash compare h b"
      by (rule bucket_at[OF wf]) blast
    define hm0 where "hm0 = hm\<lparr>hm_impl := impl\<rparr>"
    have same: "map_abs impl = map_abs (hm_impl hm)" "v0 = Some p" using impl(3,4) Some b(1) by (simp_all add: fun_upd_idem)
    have wf0: "hm_wf ok hash compare hm0" using wf impl(2) by (simp add: hm_wf_def hm0_def same)
    have hb0: "hm_bucket hm0 = hm_bucket hm" by (rule ext) (simp add: hm_bucket_def hm0_def same split: option.splits)
    have p0: "map_abs (hm_impl hm0) h = Some (Some p)" using Some b(1) by (simp add: hm0_def same)
    have get0: "bucket_get hm0 p = Inr b" using b by (simp add: bucket_get_def hm0_def)
    have abs0: "hm_abs hash compare hm0 = hm_abs hash compare hm" by (rule ext) (simp add: hm_abs_def hb0 split: sum.splits option.splits)
    have len: "length (hb_values b) = length (hb_keys b)" using b(5) by (simp add: bucket_ok_def)
    have sz: "hm_key_size hm0 = hm_key_size hm" "hm_value_size hm0 = hm_value_size hm" by (simp_all add: hm0_def)
    have card0: "card (dom (map_abs (hm_impl hm0))) = card (dom (map_abs (hm_impl hm)))" by (simp add: hm0_def same)
    show thesis
    proof (cases "flecs_hashmap_find_key compare (hb_keys b) k")
      case (Some i)
      have "flecs_hashmap_ensure hm (hm_key_size hm) k (hm_value_size hm) = Inr (hm0, (p, i), h)"
        using Some find_key_Some[OF Some] len get0 w k impl(1) same(2)
        by (simp add: flecs_hashmap_ensure_def hm0_def hm_find_key_eq Let_def)
      moreover have "hm_abs hash compare hm k = Some (hb_values b ! i)"
        using Some k b by (simp add: hm_abs_def bucket_lookup_def)
      ultimately show thesis
        using wf0 p0 get0 Some b card0 hm_abs_cong[OF wf k(1)] sz
        by (intro that[of hm0 p i b]) (simp_all add: hb0 abs0)
    next
      case None
      define b' where "b' = \<lparr>hb_keys = hb_keys b @ [k], hb_values = hb_values b @ [0]\<rparr>"
      note la = lookup_append[OF disjI1[OF b(5)] None k, where v = 0, folded b'_def]
      note st = bucket_store[OF wf0 p0 la(1)]
      define hm1 where "hm1 = hm0\<lparr>hm_heap := (hm_heap hm0)[p := Some b']\<rparr>"
      have "flecs_hashmap_ensure hm (hm_key_size hm) k (hm_value_size hm) = Inr (hm1, (p, length (hb_keys b)), h)"
        using None len get0 w k impl(1) same(2) st(1)
        by (simp add: flecs_hashmap_ensure_def hm0_def[symmetric] hm_find_key_eq Let_def b'_def hm1_def) (simp add: hm0_def hm_find_key_eq)
      moreover have none: "hm_abs hash compare hm k = None"
        using None k b by (simp add: hm_abs_def bucket_lookup_def)
      moreover have "hm_abs hash compare hm1 k' = (if compare k' k = 0 then Some 0 else hm_abs hash compare hm k')" if "ok k'" for k'
        by (rule hm_abs_update[OF k _ _ that, of _ _ "Some b'"])
          (use st(3) hb0 la(2) b(4) in \<open>auto simp: hm1_def hm_abs_def\<close>)
      ultimately show thesis
        using st(2,3) p0 found[OF None] card0 b(2)
        by (intro that[of hm1 p "length (hb_keys b)" b']) (simp_all add: hm1_def b'_def hm0_def bucket_get_def)
    qed
  next
    case None
    define p where "p = length (hm_heap hm)"
    have v0: "v0 = None" using impl(3) None by (simp add: zero_option_def)
    have "map_abs impl h \<noteq> None" using impl(4) by simp
    then obtain impl2 where impl2: "map_write impl h (Some p) = Inr impl2" "map_wf impl2" "map_abs impl2 = (map_abs impl)(h \<mapsto> Some p)"
      using map_write[OF impl(2)] by metis
    have abs2: "map_abs impl2 = (map_abs (hm_impl hm))(h \<mapsto> Some (length (hm_heap hm)))"
      using impl2(3) impl(4) by (simp add: p_def)
    define b' :: "('k, 'v) ecs_hm_bucket" where "b' = \<lparr>hb_keys = [k], hb_values = [0]\<rparr>"
    have la: "bucket_ok ok hash compare h b'"
      using k by (simp add: bucket_ok_def b'_def)
    have lb: "bucket_lookup compare b' k' = (if compare k' k = 0 then Some 0 else None)" if "ok k'" for k'
      using compare_sym[OF that k(1)] compare_sym[OF k(1) that] by (auto simp: b'_def bucket_lookup_def)
    define hm1 where "hm1 = hm\<lparr>hm_heap := hm_heap hm @ [Some b'], hm_impl := impl2\<rparr>"
    note cr = bucket_create[OF wf None impl2(2) abs2 la, folded hm1_def]
    have "flecs_hashmap_ensure hm (hm_key_size hm) k (hm_value_size hm) = Inr (hm1, (p, 0), h)"
      using w k impl(1) v0 impl2(1)
      by (simp add: flecs_hashmap_ensure_def flecs_hm_bucket_new_def p_def[symmetric] Let_def bucket_get_def hm_find_key_def bucket_set_def
          hm1_def b'_def) (simp add: p_def)
    moreover have "hm_abs hash compare hm k = None"
      using None k by (simp add: hm_abs_def hm_bucket_def)
    moreover have "hm_abs hash compare hm1 k' = (if compare k' k = 0 then Some 0 else hm_abs hash compare hm k')" if "ok k'" for k'
    proof (rule hm_abs_update[OF k _ _ that, of _ _ "Some b'"])
      show "hm_bucket hm1 = (hm_bucket hm)(h \<mapsto> b')" by (rule cr(2))
      fix k'
      assume "ok k'" "hash k' = Inr h"
      then show "(case Some b' of None \<Rightarrow> None | Some b \<Rightarrow> bucket_lookup compare b k')
          = (if compare k' k = 0 then Some 0 else hm_abs hash compare hm k')"
        using lb[of k'] None by (simp add: hm_abs_def hm_bucket_def)
    qed
    moreover have "card (dom (map_abs (hm_impl hm1))) \<le> card (dom (map_abs (hm_impl hm))) + 1"
      using fin by (simp add: hm1_def abs2 card_insert_if)
    ultimately show thesis
      using cr compare_refl[OF k(1)]
      by (intro that[of hm1 p 0 b']) (simp_all add: hm1_def b'_def abs2 p_def bucket_get_def)
  qed
qed

lemma hm_write:
  assumes wf: "hm_wf ok hash compare hm" and k: "ok k" "hash k = Inr h"
    and p: "map_abs (hm_impl hm) h = Some (Some p)" "hm_bucket hm h = Some b" "bucket_get hm p = Inr b"
    and i: "flecs_hashmap_find_key compare (hb_keys b) k = Some i"
  obtains hm' where "value_write hm (p, i) v = Inr hm'" "hm_wf ok hash compare hm'"
    "\<And>k'. ok k' \<Longrightarrow> hm_abs hash compare hm' k' = (if compare k' k = 0 then Some v else hm_abs hash compare hm k')"
    "hm_impl hm' = hm_impl hm" "hm_key_size hm' = hm_key_size hm" "hm_value_size hm' = hm_value_size hm"
proof -
  have b: "bucket_ok ok hash compare h b"
    by (rule bucket_at[OF wf p(1)]) (use p(2) in simp)
  define b' where "b' = b\<lparr>hb_values := (hb_values b)[i := v]\<rparr>"
  note lo = lookup_overwrite[OF b i k(1), where v = v, folded b'_def]
  note st = bucket_store[OF wf p(1) lo(1)]
  have "i < length (hb_values b)" using find_key_Some[OF i] b by (simp add: bucket_ok_def)
  then have "value_write hm (p, i) v = Inr (hm\<lparr>hm_heap := (hm_heap hm)[p := Some b']\<rparr>)"
    using st(1) by (simp add: value_write_def p(3) b'_def)
  moreover have "hm_abs hash compare (hm\<lparr>hm_heap := (hm_heap hm)[p := Some b']\<rparr>) k' = (if compare k' k = 0 then Some v else hm_abs hash compare hm k')"
    if "ok k'" for k'
    by (rule hm_abs_update[OF k _ _ that, of _ _ "Some b'"]) (use st(3) lo(2) p(2) in \<open>auto simp: hm_abs_def\<close>)
  ultimately show thesis using st(2) by (intro that[of "hm\<lparr>hm_heap := (hm_heap hm)[p := Some b']\<rparr>"]) simp_all
qed

lemma hm_set:
  fixes hm :: "('k, 'v::zero) ecs_hashmap"
  assumes wf: "hm_wf ok hash compare hm" and k: "ok k" and rm: "room hm"
  obtains hm' where "flecs_hashmap_set hm (hm_key_size hm) k (hm_value_size hm) v = Inr hm'" "hm_wf ok hash compare hm'"
    "\<And>k'. ok k' \<Longrightarrow> hm_abs hash compare hm' k' = (if compare k' k = 0 then Some v else hm_abs hash compare hm k')"
    "hm_key_size hm' = hm_key_size hm" "hm_value_size hm' = hm_value_size hm"
    "card (dom (map_abs (hm_impl hm'))) \<le> card (dom (map_abs (hm_impl hm))) + 1"
proof -
  obtain h where h: "hash k = Inr h" using hash_ok[OF k] ..
  show thesis
  proof (rule hm_ensure[OF wf k h rm], goal_cases)
    case (1 hm1 p i b)
    note e = 1
    show thesis
    proof (rule hm_write[OF e(2) k h e(3-6), where v = v], goal_cases)
      case (1 hm')
      show thesis
      proof (rule that[of hm'])
        show "hm_abs hash compare hm' k' = (if compare k' k = 0 then Some v else hm_abs hash compare hm k')" if "ok k'" for k'
          using 1(3)[OF that] e(7)[OF that] by simp
      qed (use e 1 in \<open>simp_all add: flecs_hashmap_set_def\<close>)
    qed
  qed
qed

lemma hm_bucket_remove:
  assumes wf: "hm_wf ok hash compare hm" and k: "ok k" "hash k = Inr h"
    and p: "map_abs (hm_impl hm) h = Some (Some p)" "hm_bucket hm h = Some b" "bucket_get hm p = Inr b"
    and i: "flecs_hashmap_find_key compare (hb_keys b) k = Some i"
  obtains hm' where "flecs_hm_bucket_remove hm p h i = Inr hm'" "hm_wf ok hash compare hm'"
    "\<And>k'. ok k' \<Longrightarrow> hm_abs hash compare hm' k' = (if compare k' k = 0 then None else hm_abs hash compare hm k')"
    "hm_key_size hm' = hm_key_size hm" "hm_value_size hm' = hm_value_size hm"
    "dom (map_abs (hm_impl hm')) \<subseteq> dom (map_abs (hm_impl hm))"
proof -
  have w: "map_wf (hm_impl hm)" using wf by (simp add: hm_wf_def)
  have b: "bucket_ok ok hash compare h b"
    by (rule bucket_at[OF wf p(1)]) (use p(2) in simp)
  define b' where "b' = \<lparr>hb_keys = swap_removed i (hb_keys b), hb_values = swap_removed i (hb_values b)\<rparr>"
  note lo = lookup_remove[OF b i k(1), folded b'_def]
  have il: "i < length (hb_keys b)" "i < length (hb_values b)" using find_key_Some[OF i] b by (simp_all add: bucket_ok_def)
  define hm1 where "hm1 = hm\<lparr>hm_heap := (hm_heap hm)[p := Some b']\<rparr>"
  have plen: "p < length (hm_heap hm)" by (rule bucket_at[OF wf p(1)]) simp
  have set1: "bucket_set hm p b' = Inr hm1" by (simp add: bucket_set_def p(3) hm1_def)
  show thesis
  proof (cases "hb_keys b' = []")
    case False
    note st = bucket_store[OF wf p(1) lo(1)[OF False], folded hm1_def]
    have "flecs_hm_bucket_remove hm p h i = Inr hm1"
      using il False set1 by (simp add: flecs_hm_bucket_remove_def p(3) vec_remove_def b'_def)
    moreover have "hm_abs hash compare hm1 k' = (if compare k' k = 0 then None else hm_abs hash compare hm k')" if "ok k'" for k'
    proof (rule hm_abs_update[OF k _ _ that, of _ _ "Some b'"])
      show "hm_bucket hm1 = (hm_bucket hm)(h \<mapsto> b')" by (rule st(3))
      fix k'
      assume "ok k'" "hash k' = Inr h"
      then show "(case Some b' of None \<Rightarrow> None | Some b \<Rightarrow> bucket_lookup compare b k')
          = (if compare k' k = 0 then None else hm_abs hash compare hm k')"
        using lo(2)[of k'] False p(2) by (simp add: hm_abs_def)
    qed
    ultimately show thesis using st(2) by (intro that[of hm1]) (simp_all add: hm1_def)
  next
    case True
    obtain impl where impl: "ecs_map_remove (hm_impl hm) h = Inr (impl, Some p)" "map_wf impl"
      "map_abs impl = (map_abs (hm_impl hm))(h := None)"
      using map_remove[OF w, of h] p(1) by (metis option.simps(5))
    define hm2 where "hm2 = hm\<lparr>hm_impl := impl, hm_heap := (hm_heap hm)[p := None]\<rparr>"
    note dr = bucket_drop[OF wf p(1) impl(2,3), folded hm2_def]
    have free: "flecs_hm_bucket_free (hm1\<lparr>hm_impl := impl\<rparr>) p = Inr hm2"
      using plen by (simp add: flecs_hm_bucket_free_def bucket_get_def hm1_def hm2_def)
    have impl1: "hm_impl hm1 = hm_impl hm" by (simp add: hm1_def)
    have "flecs_hm_bucket_remove hm p h i = Inr hm2"
      using il True set1 impl(1) free by (simp add: flecs_hm_bucket_remove_def p(3) vec_remove_def b'_def impl1)
    moreover have "hm_abs hash compare hm2 k' = (if compare k' k = 0 then None else hm_abs hash compare hm k')" if "ok k'" for k'
    proof (rule hm_abs_update[OF k _ _ that, of _ _ None])
      show "hm_bucket hm2 = (hm_bucket hm)(h := None)" by (rule dr(2))
      fix k'
      assume "ok k'" "hash k' = Inr h"
      then show "(case None of None \<Rightarrow> None | Some b \<Rightarrow> bucket_lookup compare b k')
          = (if compare k' k = 0 then None else hm_abs hash compare hm k')"
        using lo(2)[of k'] True p(2) by (auto simp: hm_abs_def split: if_splits)
    qed
    ultimately show thesis using dr(1) by (intro that[of hm2]) (auto simp: hm2_def impl(3))
  qed
qed

lemma hm_remove:
  assumes wf: "hm_wf ok hash compare hm" and k: "ok k"
  obtains hm' where "flecs_hashmap_remove hm (hm_key_size hm) k (hm_value_size hm) = Inr hm'" "hm_wf ok hash compare hm'"
    "\<And>k'. ok k' \<Longrightarrow> hm_abs hash compare hm' k' = (if compare k' k = 0 then None else hm_abs hash compare hm k')"
    "hm_key_size hm' = hm_key_size hm" "hm_value_size hm' = hm_value_size hm"
    "dom (map_abs (hm_impl hm')) \<subseteq> dom (map_abs (hm_impl hm))"
proof -
  obtain h where h: "hash k = Inr h" using hash_ok[OF k] ..
  have w: "map_wf (hm_impl hm)" "hm_hash hm = hash" "hm_compare hm = Some compare" using wf by (simp_all add: hm_wf_def)
  note ret = that
  have gone: thesis if a: "flecs_hashmap_remove hm (hm_key_size hm) k (hm_value_size hm) = Inr hm" "hm_abs hash compare hm k = None"
    by (rule ret[OF a(1) wf]) (use a(2) hm_abs_cong[OF wf k] in auto)
  show thesis
  proof (cases "map_abs (hm_impl hm) h")
    case None
    then show thesis
      using h w by (intro gone)
        (simp_all add: flecs_hashmap_remove_def flecs_hashmap_remove_w_hash_def ecs_map_get_deref_def map_get hm_abs_def hm_bucket_def)
  next
    case (Some v)
    then obtain p b where b: "v = Some p" "hm_bucket hm h = Some b" "bucket_get hm p = Inr b" "bucket_ok ok hash compare h b"
      by (rule bucket_at[OF wf]) blast
    have eq: "flecs_hashmap_remove hm (hm_key_size hm) k (hm_value_size hm) =
        (case flecs_hashmap_find_key compare (hb_keys b) k of None \<Rightarrow> Inr hm | Some i \<Rightarrow> flecs_hm_bucket_remove hm p h i)"
      using h w Some b by (simp add: flecs_hashmap_remove_def flecs_hashmap_remove_w_hash_def ecs_map_get_deref_def map_get hm_find_key_eq)
    show thesis
    proof (cases "flecs_hashmap_find_key compare (hb_keys b) k")
      case None
      then show thesis using eq h b by (intro gone) (simp_all add: hm_abs_def bucket_lookup_def)
    next
      case (Some i)
      obtain hm' where "flecs_hm_bucket_remove hm p h i = Inr hm'" "hm_wf ok hash compare hm'"
        "\<And>k'. ok k' \<Longrightarrow> hm_abs hash compare hm' k' = (if compare k' k = 0 then None else hm_abs hash compare hm k')"
        "hm_key_size hm' = hm_key_size hm" "hm_value_size hm' = hm_value_size hm"
        "dom (map_abs (hm_impl hm')) \<subseteq> dom (map_abs (hm_impl hm))"
        using hm_bucket_remove[OF wf k h _ b(2,3) Some] \<open>map_abs (hm_impl hm) h = Some v\<close> b(1) by blast
      then show thesis using eq Some by (intro that[of hm']) simp_all
    qed
  qed
qed

end


section \<open>Runs\<close>

datatype ('k, 'v) hm_op = HmSet 'k 'v | HmEnsure 'k | HmGet 'k | HmRemove 'k

fun hm_op_key :: "('k, 'v) hm_op \<Rightarrow> 'k" where
  "hm_op_key (HmSet k v) = k"
| "hm_op_key (HmEnsure k) = k"
| "hm_op_key (HmGet k) = k"
| "hm_op_key (HmRemove k) = k"

text \<open>A read through a pointer that may be null.\<close>

definition value_read_opt :: "('k, 'v) ecs_hashmap \<Rightarrow> value_ptr option \<Rightarrow> 'v option res" where
  "value_read_opt hm ptr = (case ptr of None \<Rightarrow> Inr None | Some p \<Rightarrow> res_bind (value_read hm p) (\<lambda>v. Inr (Some v)))"

fun hm_step :: "('k, 'v::zero) ecs_hashmap \<Rightarrow> ('k, 'v) hm_op \<Rightarrow> (('k, 'v) ecs_hashmap \<times> 'v option) res" where
  "hm_step hm (HmSet k v) = res_bind (flecs_hashmap_set hm (hm_key_size hm) k (hm_value_size hm) v) (\<lambda>hm. Inr (hm, None))"
| "hm_step hm (HmEnsure k) =
     res_bind (flecs_hashmap_ensure hm (hm_key_size hm) k (hm_value_size hm)) (\<lambda>(hm, ptr, _).
     res_bind (value_read hm ptr) (\<lambda>v. Inr (hm, Some v)))"
| "hm_step hm (HmGet k) =
     res_bind (flecs_hashmap_get hm (hm_key_size hm) k (hm_value_size hm)) (\<lambda>ptr.
     res_bind (value_read_opt hm ptr) (\<lambda>v. Inr (hm, v)))"
| "hm_step hm (HmRemove k) = res_bind (flecs_hashmap_remove hm (hm_key_size hm) k (hm_value_size hm)) (\<lambda>hm. Inr (hm, None))"

fun hm_run :: "('k, 'v::zero) ecs_hashmap \<Rightarrow> ('k, 'v) hm_op list \<Rightarrow> (('k, 'v) ecs_hashmap \<times> 'v option list) res" where
  "hm_run hm [] = Inr (hm, [])"
| "hm_run hm (x # xs) =
     res_bind (hm_step hm x) (\<lambda>(hm, r). res_bind (hm_run hm xs) (\<lambda>(hm, rs). Inr (hm, r # rs)))"

text \<open>The specification: a partial function on keys, equal keys having the same value.\<close>

fun key_map_step :: "('k \<Rightarrow> 'k \<Rightarrow> int) \<Rightarrow> ('k \<Rightarrow> 'v::zero option) \<Rightarrow> ('k, 'v) hm_op \<Rightarrow> ('k \<Rightarrow> 'v option) \<times> 'v option" where
  "key_map_step compare f (HmSet k v) = (\<lambda>k'. if compare k' k = 0 then Some v else f k', None)"
| "key_map_step compare f (HmEnsure k) =
     (let v = (case f k of Some v \<Rightarrow> v | None \<Rightarrow> 0) in (\<lambda>k'. if compare k' k = 0 then Some v else f k', Some v))"
| "key_map_step compare f (HmGet k) = (f, f k)"
| "key_map_step compare f (HmRemove k) = (\<lambda>k'. if compare k' k = 0 then None else f k', None)"

fun key_map_run :: "('k \<Rightarrow> 'k \<Rightarrow> int) \<Rightarrow> ('k \<Rightarrow> 'v::zero option) \<Rightarrow> ('k, 'v) hm_op list \<Rightarrow> 'v option list" where
  "key_map_run compare f [] = []"
| "key_map_run compare f (x # xs) = (let (f, r) = key_map_step compare f x in r # key_map_run compare f xs)"

lemma hm_init_wf:
  obtains hm :: "('k, 'v) ecs_hashmap" where "flecs_hashmap_init ks vs hash compare = Inr hm" "hm_wf ok hash compare hm"
    "map_abs (hm_impl hm) = Map.empty" "hm_heap hm = []"
proof -
  obtain m :: "nat option ecs_map" where m: "ecs_map_init = Inr m" "map_wf m" "map_abs m = Map.empty"
    using map_init by blast
  show thesis
    by (rule that[of "\<lparr>hm_hash = hash, hm_compare = Some compare, hm_key_size = ks, hm_value_size = vs, hm_impl = m, hm_heap = []\<rparr>"])
      (simp_all add: flecs_hashmap_init_def m hm_wf_def)
qed

context hash_keys
begin

lemma hm_step_ok:
  fixes hm :: "('k, 'v::zero) ecs_hashmap"
  assumes wf: "hm_wf ok hash compare hm" and k: "ok (hm_op_key x)" and rm: "room hm"
  obtains hm' where "hm_step hm x = Inr (hm', snd (key_map_step compare (hm_abs hash compare hm) x))"
    "hm_wf ok hash compare hm'"
    "\<And>k'. ok k' \<Longrightarrow> hm_abs hash compare hm' k' = fst (key_map_step compare (hm_abs hash compare hm) x) k'"
    "card (dom (map_abs (hm_impl hm'))) \<le> card (dom (map_abs (hm_impl hm))) + 1"
proof (cases x)
  case (HmSet k v)
  obtain hm' where "flecs_hashmap_set hm (hm_key_size hm) k (hm_value_size hm) v = Inr hm'" "hm_wf ok hash compare hm'"
    "\<And>k'. ok k' \<Longrightarrow> hm_abs hash compare hm' k' = (if compare k' k = 0 then Some v else hm_abs hash compare hm k')"
    "card (dom (map_abs (hm_impl hm'))) \<le> card (dom (map_abs (hm_impl hm))) + 1"
    using hm_set[OF wf _ rm, of k v] k HmSet by auto
  then show thesis by (intro that[of hm']) (simp_all add: HmSet)
next
  case (HmEnsure k)
  then have k': "ok k" using k by simp
  obtain h where h: "hash k = Inr h" using hash_ok[OF k'] ..
  obtain hm1 p i b where e: "flecs_hashmap_ensure hm (hm_key_size hm) k (hm_value_size hm) = Inr (hm1, (p, i), h)"
    "hm_wf ok hash compare hm1" "map_abs (hm_impl hm1) h = Some (Some p)" "hm_bucket hm1 h = Some b" "bucket_get hm1 p = Inr b"
    "flecs_hashmap_find_key compare (hb_keys b) k = Some i"
    "\<And>k'. ok k' \<Longrightarrow> hm_abs hash compare hm1 k' = (if compare k' k = 0
        then Some (case hm_abs hash compare hm k of Some v \<Rightarrow> v | None \<Rightarrow> 0) else hm_abs hash compare hm k')"
    "card (dom (map_abs (hm_impl hm1))) \<le> card (dom (map_abs (hm_impl hm))) + 1"
    by (rule hm_ensure[OF wf k' h rm]) blast
  have b: "bucket_ok ok hash compare h b"
    by (rule bucket_at[OF e(2,3)]) (use e(4) in simp)
  have "hm_abs hash compare hm1 k = Some (hb_values b ! i)"
    using h e(4,6) by (simp add: hm_abs_def bucket_lookup_def)
  then have "hb_values b ! i = (case hm_abs hash compare hm k of Some v \<Rightarrow> v | None \<Rightarrow> 0)"
    using e(7)[OF k'] compare_refl[OF k'] by simp
  then show thesis
    using e b find_key_Some[OF e(6)]
    by (intro that[of hm1]) (simp_all add: HmEnsure value_read_def bucket_ok_def Let_def)
next
  case (HmGet k)
  then have "ok k" using k by simp
  from hm_get[OF wf this] obtain r where "flecs_hashmap_get hm (hm_key_size hm) k (hm_value_size hm) = Inr r"
    "case r of None \<Rightarrow> hm_abs hash compare hm k = None
       | Some ptr \<Rightarrow> \<exists>v. hm_abs hash compare hm k = Some v \<and> value_read hm ptr = Inr v" by blast
  then show thesis
    using wf by (intro that[of hm]) (auto simp: HmGet value_read_opt_def split: option.splits)
next
  case (HmRemove k)
  have fin: "finite (dom (map_abs (hm_impl hm)))" by (rule finite_map_abs)
  obtain hm' where "flecs_hashmap_remove hm (hm_key_size hm) k (hm_value_size hm) = Inr hm'" "hm_wf ok hash compare hm'"
    "\<And>k'. ok k' \<Longrightarrow> hm_abs hash compare hm' k' = (if compare k' k = 0 then None else hm_abs hash compare hm k')"
    "dom (map_abs (hm_impl hm')) \<subseteq> dom (map_abs (hm_impl hm))"
    by (rule hm_remove[OF wf, of k]) (use k HmRemove in auto)
  then show thesis using card_mono[OF fin, of "dom (map_abs (hm_impl hm'))"]
    by (intro that[of hm']) (simp_all add: HmRemove)
qed

lemma key_map_run_cong:
  assumes "\<And>k. ok k \<Longrightarrow> f k = g k" and "\<forall>x\<in>set xs. ok (hm_op_key x)"
  shows "key_map_run compare f xs = key_map_run compare g xs"
  using assms
proof (induction xs arbitrary: f g)
  case (Cons x xs)
  have "snd (key_map_step compare f x) = snd (key_map_step compare g x)"
    "\<And>k. ok k \<Longrightarrow> fst (key_map_step compare f x) k = fst (key_map_step compare g x) k"
    using Cons.prems by (cases x; simp add: Let_def)+
  then show ?case
    using Cons.IH[of "fst (key_map_step compare f x)" "fst (key_map_step compare g x)"] Cons.prems(2)
    by (simp add: split_beta Let_def)
qed simp

lemma hm_run_ok:
  fixes hm :: "('k, 'v::zero) ecs_hashmap"
  assumes "hm_wf ok hash compare hm" and "\<forall>x\<in>set xs. ok (hm_op_key x)"
    and "card (dom (map_abs (hm_impl hm))) + length xs < 2 ^ 26"
  shows "\<exists>hm'. hm_run hm xs = Inr (hm', key_map_run compare (hm_abs hash compare hm) xs) \<and> hm_wf ok hash compare hm'"
  using assms
proof (induction xs arbitrary: hm)
  case (Cons x xs)
  have "room hm" using Cons.prems(3) by (simp add: room_def)
  then obtain hm1 where s: "hm_step hm x = Inr (hm1, snd (key_map_step compare (hm_abs hash compare hm) x))"
    "hm_wf ok hash compare hm1"
    "\<And>k'. ok k' \<Longrightarrow> hm_abs hash compare hm1 k' = fst (key_map_step compare (hm_abs hash compare hm) x) k'"
    "card (dom (map_abs (hm_impl hm1))) \<le> card (dom (map_abs (hm_impl hm))) + 1"
    using hm_step_ok[OF Cons.prems(1), of x] Cons.prems(2) by (metis list.set_intros(1))
  obtain hm2 where "hm_run hm1 xs = Inr (hm2, key_map_run compare (hm_abs hash compare hm1) xs)" "hm_wf ok hash compare hm2"
    using Cons.IH[OF s(2)] Cons.prems(2,3) s(4) by auto
  moreover have "key_map_run compare (hm_abs hash compare hm1) xs
      = key_map_run compare (fst (key_map_step compare (hm_abs hash compare hm) x)) xs"
    using key_map_run_cong[OF s(3)] Cons.prems(2) by simp
  ultimately show ?case using s(1) by (simp add: split_beta Let_def)
qed simp

end

lemma hm_abs_empty: "map_abs (hm_impl hm) = Map.empty \<Longrightarrow> hm_abs hash compare hm = (\<lambda>_. None)"
  by (rule ext) (simp add: hm_abs_def hm_bucket_def split: sum.splits)

section \<open>Releasing a map\<close>

lemma hm_free_buckets_ok:
  assumes "map_wf (hm_impl hm)" and "iter_ok (hm_impl hm) it"
    and "length (pending (mbuckets (hm_impl hm)) it) < fuel"
    and "distinct (map snd (pending (mbuckets (hm_impl hm)) it))"
    and "\<forall>v\<in>snd ` set (pending (mbuckets (hm_impl hm)) it). \<exists>p b. v = Some p \<and> p < length (hm_heap hm) \<and> hm_heap hm ! p = Some b"
  shows "\<exists>hm'. hm_free_buckets fuel hm it = Inr hm' \<and> length (hm_heap hm') = length (hm_heap hm)
    \<and> (\<forall>q<length (hm_heap hm). hm_heap hm' ! q = (if Some q \<in> snd ` set (pending (mbuckets (hm_impl hm)) it) then None else hm_heap hm ! q))"
  using assms
proof (induction fuel arbitrary: hm it)
  case (Suc fuel)
  note nx = map_next[OF Suc.prems(1,2)]
  show ?case
  proof (cases "pending (mbuckets (hm_impl hm)) it")
    case Nil
    then obtain it' where "ecs_map_next (hm_impl hm) it = Inr (False, it', hm_impl hm)" using nx by auto
    then show ?thesis using Nil by simp
  next
    case (Cons e rest)
    define impl where "impl = (hm_impl hm)\<lparr>last_iterated := fst e\<rparr>"
    obtain it' where n: "ecs_map_next (hm_impl hm) it = Inr (True, it', impl)" "iter_ok impl it'"
      "pending (mbuckets (hm_impl hm)) it' = rest" "ecs_map_value impl it' = Inr (snd e)"
      using nx unfolding Cons list.case by (auto simp: impl_def)
    obtain p b where p: "snd e = Some p" "p < length (hm_heap hm)" "hm_heap hm ! p = Some b"
      using Suc.prems(5) Cons by auto
    define hm1 where "hm1 = hm\<lparr>hm_impl := impl, hm_heap := (hm_heap hm)[p := None]\<rparr>"
    have free: "flecs_hm_bucket_free (hm\<lparr>hm_impl := impl\<rparr>) p = Inr hm1"
      using p by (simp add: flecs_hm_bucket_free_def bucket_get_def hm1_def)
    have pend: "pending (mbuckets (hm_impl hm1)) it' = rest" using n(3) by (simp add: hm1_def impl_def)
    have new: "Some p \<notin> snd ` set rest" using Suc.prems(4) Cons p(1) by auto
    have "\<exists>hm'. hm_free_buckets fuel hm1 it' = Inr hm' \<and> length (hm_heap hm') = length (hm_heap hm1)
        \<and> (\<forall>q<length (hm_heap hm1). hm_heap hm' ! q = (if Some q \<in> snd ` set rest then None else hm_heap hm1 ! q))"
    proof (rule Suc.IH[of hm1 it', unfolded pend])
      show "\<forall>v\<in>snd ` set rest. \<exists>p b. v = Some p \<and> p < length (hm_heap hm1) \<and> hm_heap hm1 ! p = Some b"
      proof
        fix v
        assume v: "v \<in> snd ` set rest"
        with Suc.prems(5) Cons obtain q c where q: "v = Some q" "q < length (hm_heap hm)" "hm_heap hm ! q = Some c" by auto
        moreover have "q \<noteq> p" using new v q(1) by blast
        ultimately show "\<exists>p b. v = Some p \<and> p < length (hm_heap hm1) \<and> hm_heap hm1 ! p = Some b" by (simp add: hm1_def)
      qed
    qed (use Suc.prems Cons n(2) in \<open>simp_all add: hm1_def impl_def\<close>)
    then obtain hm' where hm': "hm_free_buckets fuel hm1 it' = Inr hm'" "length (hm_heap hm') = length (hm_heap hm)"
      "\<And>q. q < length (hm_heap hm) \<Longrightarrow> hm_heap hm' ! q = (if Some q \<in> snd ` set rest then None else (hm_heap hm)[p := None] ! q)"
      by (auto simp: hm1_def)
    have "hm_free_buckets (Suc fuel) hm it = Inr hm'"
      using n(1,4) p(1) free hm'(1) by simp
    then show ?thesis
      using hm'(2,3) p(1) by (intro exI[of _ hm']) (auto simp: Cons nth_list_update)
  qed
qed simp

context hash_keys
begin

lemma hm_fini:
  assumes wf: "hm_wf ok hash compare hm"
  shows "\<exists>hm'. flecs_hashmap_fini hm = Inr hm' \<and> length (hm_heap hm') = length (hm_heap hm) \<and> set (hm_heap hm') \<subseteq> {None}"
proof -
  let ?m = "hm_impl hm"
  have w: "map_wf ?m" using wf by (simp add: hm_wf_def)
  have e: "distinct (map fst (map_entries ?m))" "length (map_entries ?m) = mcount ?m"
    using w by (simp_all add: map_wf_def)
  have ent: "map_abs ?m (fst x) = Some (snd x)" if "x \<in> set (map_entries ?m)" for x
    using that e(1) by (simp add: map_abs_def)
  have pend: "pending (mbuckets ?m) (ecs_map_iter ?m) = map_entries ?m" by (rule iter_start[OF w])
  have "inj_on snd (set (map_entries ?m))"
  proof (rule inj_onI)
    fix x y
    assume xy: "x \<in> set (map_entries ?m)" "y \<in> set (map_entries ?m)" "snd x = snd y"
    obtain p where "snd x = Some p" by (rule bucket_at[OF wf ent[OF xy(1)]])
    then have "fst x = fst y" using bucket_ptr_inj[OF wf, of "fst x" p "fst y"] ent[OF xy(1)] ent[OF xy(2)] xy(3) by simp
    then show "x = y" using xy(3) by (simp add: prod_eq_iff)
  qed
  moreover have "distinct (map_entries ?m)" using e(1) by (simp add: distinct_map)
  ultimately have d: "distinct (map snd (map_entries ?m))" by (simp add: distinct_map)
  have h: "\<forall>v\<in>snd ` set (map_entries ?m). \<exists>p b. v = Some p \<and> p < length (hm_heap hm) \<and> hm_heap hm ! p = Some b"
    using bucket_at[OF wf ent] by blast
  obtain hm' where f: "hm_free_buckets (Suc (mcount ?m)) hm (ecs_map_iter ?m) = Inr hm'" "length (hm_heap hm') = length (hm_heap hm)"
    "\<And>q. q < length (hm_heap hm) \<Longrightarrow> hm_heap hm' ! q = (if Some q \<in> snd ` set (map_entries ?m) then None else hm_heap hm ! q)"
    using hm_free_buckets_ok[OF w iter_start(1)[OF w], of "Suc (mcount ?m)"] d h e(2) unfolding pend by auto
  have "hm_heap hm' ! q = None" if q: "q < length (hm_heap hm)" for q
  proof (cases "hm_heap hm ! q")
    case (Some b)
    then obtain h where "map_abs ?m h = Some (Some q)" using wf q unfolding hm_wf_def by blast
    then have "(h, Some q) \<in> set (map_entries ?m)" using map_of_SomeD by (fastforce simp: map_abs_def)
    then have "Some q \<in> snd ` set (map_entries ?m)" by force
    then show ?thesis using f(3)[OF q] by simp
  qed (use f(3)[OF q] in simp)
  then have "set (hm_heap hm') \<subseteq> {None}" using f(2) by (auto simp: in_set_conv_nth)
  then show ?thesis
    using f by (simp add: flecs_hashmap_fini_def)
qed

end

section \<open>Properties\<close>

text \<open>
  Claim C18: with a comparison that is an equivalence on the keys used and a hash function that
  gives equal keys equal hashes, a fresh hash map answers every sequence of sets, ensures, gets
  and removals as a partial function on keys, however many keys collide: it does not abort, does not
  touch a freed bucket, and each get returns the value last set for an equal key. Releasing the map
  afterwards frees every bucket exactly once.
\<close>

theorem hashmap_refines:
  fixes xs :: "('k, 'v::zero) hm_op list"
  assumes "hash_keys ok hash compare" and "\<forall>x\<in>set xs. ok (hm_op_key x)" and "length xs < 2 ^ 26"
  shows "\<exists>hm hm' hm''. flecs_hashmap_init key_size value_size hash compare = Inr hm
    \<and> hm_run hm xs = Inr (hm', key_map_run compare (\<lambda>_. None) xs)
    \<and> flecs_hashmap_fini hm' = Inr hm'' \<and> set (hm_heap hm'') \<subseteq> {None}"
proof -
  obtain hm :: "('k, 'v) ecs_hashmap" where hm: "flecs_hashmap_init key_size value_size hash compare = Inr hm"
    "hm_wf ok hash compare hm" "map_abs (hm_impl hm) = Map.empty"
    by (rule hm_init_wf)
  have "\<exists>hm'. hm_run hm xs = Inr (hm', key_map_run compare (\<lambda>_. None) xs) \<and> hm_wf ok hash compare hm'"
    using hash_keys.hm_run_ok[OF assms(1) hm(2) assms(2)] assms(3) hm(3) hm_abs_empty[OF hm(3), of hash compare] by simp
  then show ?thesis
    using hm(1) hash_keys.hm_fini[OF assms(1)] by metis
qed

text \<open>Three keys of which two collide.\<close>

definition sample_hash :: "nat \<Rightarrow> u64 res" where
  "sample_hash k = Inr (of_nat (k mod 2))"

definition sample_compare :: "nat \<Rightarrow> nat \<Rightarrow> int" where
  "sample_compare a b = int a - int b"

theorem hashmap_refines_witness:
  "\<exists>hm hm' hm''. flecs_hashmap_init 8 8 sample_hash sample_compare = Inr hm
    \<and> hm_run hm [HmSet 1 (10::nat), HmSet 3 30, HmEnsure 2, HmRemove 1, HmGet 1, HmGet 3]
        = Inr (hm', key_map_run sample_compare (\<lambda>_. None) [HmSet 1 10, HmSet 3 30, HmEnsure 2, HmRemove 1, HmGet 1, HmGet 3])
    \<and> flecs_hashmap_fini hm' = Inr hm'' \<and> set (hm_heap hm'') \<subseteq> {None}"
proof (rule hashmap_refines)
  show "hash_keys (\<lambda>_. True) sample_hash sample_compare"
    by unfold_locales (simp_all add: sample_hash_def sample_compare_def)
qed simp_all

lemma sample_hashmap_result:
  "key_map_run sample_compare (\<lambda>_. None) [HmSet 1 (10::nat), HmSet 3 30, HmEnsure 2, HmRemove 1, HmGet 1, HmGet 3]
   = [None, None, Some 0, None, None, Some 30]"
  by (simp add: sample_compare_def)

end
