(* ===== verification/Name_Index.thy ===== *)
theory Name_Index
  imports Ecs_Hash Ecs_Hashmap
begin

text \<open>
  The index from names to ids of datastructures/name\_index.c: a hash map whose keys are strings
  stored with their length and hash. A string is the list of its bytes before the terminating
  zero; the pointer to it is modelled by what it points to, so the model holds as long as the
  owner of a name keeps the memory, which is what flecs\_name\_index\_update\_name is for.
\<close>

section \<open>Strings\<close>

type_synonym c_string = "u8 list"

record ecs_hashed_string =
  hs_value :: c_string
  hs_length :: int
  hs_hash :: u64

definition ecs_os_strlen :: "c_string \<Rightarrow> int res" where
  "ecs_os_strlen s = (if length s < 2 ^ 31 then Inr (int (length s)) else Inl INT_RANGE)"

text \<open>memcmp reads the given number of bytes of both blocks; strcmp stops at the terminators.\<close>

fun ecs_os_memcmp :: "u8 list \<Rightarrow> u8 list \<Rightarrow> nat \<Rightarrow> int" where
  "ecs_os_memcmp (a # as) (b # bs) (Suc n) =
     (if a = b then ecs_os_memcmp as bs n else if a < b then - 1 else 1)"
| "ecs_os_memcmp _ _ _ = 0"

fun ecs_os_strcmp :: "c_string \<Rightarrow> c_string \<Rightarrow> int" where
  "ecs_os_strcmp [] [] = 0"
| "ecs_os_strcmp [] (b # bs) = - 1"
| "ecs_os_strcmp (a # as) [] = 1"
| "ecs_os_strcmp (a # as) (b # bs) = (if a = b then ecs_os_strcmp as bs else if a < b then - 1 else 1)"

section \<open>Operations\<close>

type_synonym name_index = "(ecs_hashed_string, u64) ecs_hashmap"

definition sizeof_hashed_string :: nat where "sizeof_hashed_string = 24"

definition flecs_name_index_hash :: "ecs_hashed_string \<Rightarrow> u64 res" where
  "flecs_name_index_hash str = ecs_assert (hs_hash str \<noteq> 0) ECS_INTERNAL_ERROR (Inr (hs_hash str))"

definition flecs_name_index_compare :: "ecs_hashed_string \<Rightarrow> ecs_hashed_string \<Rightarrow> int" where
  "flecs_name_index_compare str1 str2 =
     (let len1 = hs_length str1; len2 = hs_length str2 in
      if len1 \<noteq> len2 then (if len1 > len2 then 1 else 0) - (if len1 < len2 then 1 else 0)
      else ecs_os_memcmp (hs_value str1) (hs_value str2) (nat len1))"

definition flecs_name_index_init :: "name_index res" where
  "flecs_name_index_init = flecs_hashmap_init sizeof_hashed_string 8 flecs_name_index_hash flecs_name_index_compare"

definition flecs_name_index_is_init :: "name_index \<Rightarrow> bool" where
  "flecs_name_index_is_init hm \<longleftrightarrow> hm_compare hm \<noteq> None"

definition flecs_name_index_init_if :: "name_index \<Rightarrow> name_index res" where
  "flecs_name_index_init_if hm = (if hm_compare hm = None then flecs_name_index_init else Inr hm)"

text \<open>An index on the heap is a pointer to a map; freeing it gives the null pointer.\<close>

definition flecs_name_index_new :: "name_index option res" where
  "flecs_name_index_new = res_bind flecs_name_index_init (\<lambda>hm. Inr (Some hm))"

definition flecs_name_index_fini :: "name_index \<Rightarrow> name_index res" where
  "flecs_name_index_fini hm = flecs_hashmap_fini hm"

definition flecs_name_index_free :: "name_index option \<Rightarrow> name_index option res" where
  "flecs_name_index_free hm =
     (case hm of None \<Rightarrow> Inr None | Some m \<Rightarrow> res_bind (flecs_name_index_fini m) (\<lambda>_. Inr None))"

definition flecs_name_index_copy :: "name_index \<Rightarrow> (name_index \<times> name_index) res" where
  "flecs_name_index_copy hm = flecs_hashmap_copy hm"

definition flecs_get_hashed_string :: "c_string \<Rightarrow> int \<Rightarrow> u64 \<Rightarrow> ecs_hashed_string res" where
  "flecs_get_hashed_string name len hash =
     res_bind (if len = 0 then ecs_os_strlen name
       else res_bind (ecs_os_strlen name) (\<lambda>n. ecs_assert (len = n) ECS_INTERNAL_ERROR (Inr len))) (\<lambda>len.
     res_bind (if hash = 0 then flecs_hash name len
       else res_bind (flecs_hash name len) (\<lambda>h. ecs_assert (hash = h) ECS_INTERNAL_ERROR (Inr hash))) (\<lambda>hash.
     Inr \<lparr>hs_value = name, hs_length = len, hs_hash = hash\<rparr>))"

text \<open>The loop over the keys of a bucket, from position \<open>i\<close>.\<close>

fun name_find_loop :: "ecs_hashed_string list \<Rightarrow> ecs_hashed_string \<Rightarrow> c_string \<Rightarrow> nat \<Rightarrow> nat option res" where
  "name_find_loop [] hs name i = Inr None"
| "name_find_loop (key # ks) hs name i =
     ecs_assert (hs_hash key = hs_hash hs) ECS_INTERNAL_ERROR
     (if hs_length hs \<noteq> hs_length key then name_find_loop ks hs name (i + 1)
      else if ecs_os_strcmp name (hs_value key) = 0 then Inr (Some i)
      else name_find_loop ks hs name (i + 1))"

definition flecs_name_index_find_ptr :: "name_index \<Rightarrow> c_string \<Rightarrow> int \<Rightarrow> u64 \<Rightarrow> value_ptr option res" where
  "flecs_name_index_find_ptr hm name len hash =
     res_bind (flecs_get_hashed_string name len hash) (\<lambda>hs.
     res_bind (flecs_hashmap_get_bucket hm (hs_hash hs)) (\<lambda>b.
     case b of
       None \<Rightarrow> Inr None
     | Some p \<Rightarrow>
         res_bind (bucket_get hm p) (\<lambda>b.
         res_bind (name_find_loop (hb_keys b) hs name 0) (\<lambda>r.
         case r of
           None \<Rightarrow> Inr None
         | Some i \<Rightarrow> ecs_assert (i < length (hb_values b)) ECS_OUT_OF_RANGE (Inr (Some (p, i)))))))"

definition flecs_name_index_find :: "name_index \<Rightarrow> c_string \<Rightarrow> int \<Rightarrow> u64 \<Rightarrow> u64 res" where
  "flecs_name_index_find hm name len hash =
     res_bind (flecs_name_index_find_ptr hm name len hash) (\<lambda>id.
     case id of None \<Rightarrow> Inr 0 | Some ptr \<Rightarrow> value_read hm ptr)"

text \<open>The loop over the ids of a bucket.\<close>

fun find_id_loop :: "u64 list \<Rightarrow> u64 \<Rightarrow> nat \<Rightarrow> nat option" where
  "find_id_loop [] e i = None"
| "find_id_loop (x # xs) e i = (if x = e then Some i else find_id_loop xs e (i + 1))"

definition flecs_name_index_remove :: "name_index \<Rightarrow> u64 \<Rightarrow> u64 \<Rightarrow> name_index res" where
  "flecs_name_index_remove hm e hash =
     res_bind (flecs_hashmap_get_bucket hm hash) (\<lambda>b.
     case b of
       None \<Rightarrow> Inr hm
     | Some p \<Rightarrow>
         res_bind (bucket_get hm p) (\<lambda>b.
         case find_id_loop (hb_values b) e 0 of
           None \<Rightarrow> Inr hm
         | Some i \<Rightarrow> flecs_hm_bucket_remove hm p hash i))"

definition flecs_name_index_update_name :: "name_index \<Rightarrow> u64 \<Rightarrow> u64 \<Rightarrow> c_string \<Rightarrow> (name_index \<times> bool) res" where
  "flecs_name_index_update_name hm e hash name =
     res_bind (flecs_hashmap_get_bucket hm hash) (\<lambda>b.
     case b of
       None \<Rightarrow> Inr (hm, False)
     | Some p \<Rightarrow>
         res_bind (bucket_get hm p) (\<lambda>b.
         case find_id_loop (hb_values b) e 0 of
           None \<Rightarrow> Inr (hm, False)
         | Some i \<Rightarrow>
             ecs_assert (i < length (hb_keys b)) ECS_OUT_OF_RANGE
             (let key = (hb_keys b ! i)\<lparr>hs_value := name\<rparr> in
              res_bind (key_write hm (p, i) key) (\<lambda>hm.
              res_bind (ecs_os_strlen name) (\<lambda>n.
              ecs_assert (n = hs_length key) ECS_INTERNAL_ERROR
              (res_bind (flecs_hash name (hs_length key)) (\<lambda>h.
               ecs_assert (h = hs_hash key) ECS_INTERNAL_ERROR (Inr (hm, True)))))))))"

definition flecs_name_index_ensure :: "name_index \<Rightarrow> u64 \<Rightarrow> c_string option \<Rightarrow> int \<Rightarrow> u64 \<Rightarrow> name_index res" where
  "flecs_name_index_ensure hm i name len hash =
     (case name of
        None \<Rightarrow> Inl ECS_INVALID_PARAMETER
      | Some name \<Rightarrow>
          res_bind (flecs_get_hashed_string name len hash) (\<lambda>key.
          res_bind (flecs_hashmap_ensure hm sizeof_hashed_string key 8) (\<lambda>(hm, ptr, _).
          res_bind (value_write hm ptr i) (\<lambda>hm.
          res_bind (bucket_get hm (fst ptr)) (\<lambda>b.
          res_bind (mem_get (hb_keys b) (snd ptr)) (\<lambda>k.
          key_write hm ptr (k\<lparr>hs_value := name\<rparr>)))))))"

section \<open>Names as keys\<close>

lemma memcmp_eq: "length a = n \<Longrightarrow> length b = n \<Longrightarrow> ecs_os_memcmp a b n = 0 \<longleftrightarrow> a = b"
  by (induction a b n rule: ecs_os_memcmp.induct) auto

lemma strcmp_eq: "ecs_os_strcmp a b = 0 \<longleftrightarrow> a = b"
  by (induction a b rule: ecs_os_strcmp.induct) auto

definition name_hash :: "c_string \<Rightarrow> u64" where
  "name_hash name = (case flecs_hash name (int (length name)) of Inr h \<Rightarrow> h | Inl _ \<Rightarrow> 0)"

definition name_ok :: "c_string \<Rightarrow> bool" where
  "name_ok name \<longleftrightarrow> length name < 2 ^ 31 \<and> name_hash name \<noteq> 0"

definition hashed :: "c_string \<Rightarrow> ecs_hashed_string" where
  "hashed name = \<lparr>hs_value = name, hs_length = int (length name), hs_hash = name_hash name\<rparr>"

definition hs_ok :: "ecs_hashed_string \<Rightarrow> bool" where
  "hs_ok hs \<longleftrightarrow> (\<exists>name. name_ok name \<and> hs = hashed name)"

lemma flecs_hash_name: "flecs_hash name (int (length name)) = Inr (name_hash name)"
  using flecs_hash_total[of name] by (auto simp: name_hash_def)

lemma hashed_sel [simp]:
  "hs_value (hashed name) = name" "hs_length (hashed name) = int (length name)" "hs_hash (hashed name) = name_hash name"
  by (simp_all add: hashed_def)

lemma hashed_update [simp]: "(hashed name)\<lparr>hs_value := name\<rparr> = hashed name"
  by (simp add: hashed_def)

lemma hashed_inj [simp]: "hashed a = hashed b \<longleftrightarrow> a = b"
  by (metis hashed_sel(1))

lemma hs_ok_hashed [simp]: "hs_ok (hashed name) \<longleftrightarrow> name_ok name"
  by (auto simp: hs_ok_def)

lemma compare_hashed [simp]: "flecs_name_index_compare (hashed a) (hashed b) = 0 \<longleftrightarrow> a = b"
  by (auto simp: flecs_name_index_compare_def Let_def memcmp_eq)

lemma hash_hashed: "name_ok name \<Longrightarrow> flecs_name_index_hash (hashed name) = Inr (name_hash name)"
  by (simp add: flecs_name_index_hash_def name_ok_def)

interpretation names: hash_keys hs_ok flecs_name_index_hash flecs_name_index_compare
  by unfold_locales (auto simp: hs_ok_def hash_hashed)

text \<open>The arguments a caller may give for the length and the hash.\<close>

definition args_ok :: "c_string \<Rightarrow> int \<Rightarrow> u64 \<Rightarrow> bool" where
  "args_ok name len hash \<longleftrightarrow> (len = 0 \<or> len = int (length name)) \<and> (hash = 0 \<or> hash = name_hash name)"

lemma get_hashed_string:
  "length name < 2 ^ 31 \<Longrightarrow> args_ok name len hash \<Longrightarrow> flecs_get_hashed_string name len hash = Inr (hashed name)"
  by (auto simp: flecs_get_hashed_string_def args_ok_def ecs_os_strlen_def flecs_hash_name hashed_def)

section \<open>Contents\<close>

definition ni_wf :: "name_index \<Rightarrow> bool" where
  "ni_wf hm \<longleftrightarrow> hm_wf hs_ok flecs_name_index_hash flecs_name_index_compare hm
     \<and> hm_key_size hm = sizeof_hashed_string \<and> hm_value_size hm = 8"

definition ni_abs :: "name_index \<Rightarrow> c_string \<Rightarrow> u64 option" where
  "ni_abs hm name = (if name_ok name then hm_abs flecs_name_index_hash flecs_name_index_compare hm (hashed name) else None)"

lemma ni_bucket:
  assumes wf: "ni_wf hm"
  obtains (none) "flecs_hashmap_get_bucket hm h = Inr None" "\<And>n. name_hash n = h \<Longrightarrow> ni_abs hm n = None"
  | (some) p b where "flecs_hashmap_get_bucket hm h = Inr (Some p)" "bucket_get hm p = Inr b"
      "map_abs (hm_impl hm) h = Some (Some p)" "hm_bucket hm h = Some b"
      "bucket_ok hs_ok flecs_name_index_hash flecs_name_index_compare h b" "h \<noteq> 0"
proof -
  have w: "hm_wf hs_ok flecs_name_index_hash flecs_name_index_compare hm" "map_wf (hm_impl hm)"
    using wf by (simp_all add: ni_wf_def hm_wf_def)
  show thesis
  proof (cases "map_abs (hm_impl hm) h")
    case None
    show thesis
    proof (rule none)
      show "flecs_hashmap_get_bucket hm h = Inr None"
        using w(2) None by (simp add: flecs_hashmap_get_bucket_def ecs_map_get_deref_def map_get)
      show "ni_abs hm n = None" if "name_hash n = h" for n
        using that None by (simp add: ni_abs_def hm_abs_def hash_hashed hm_bucket_def)
    qed
  next
    case (Some v)
    show thesis
    proof (rule names.bucket_at[OF w(1) Some], goal_cases)
      case (1 p b)
      have "h \<noteq> 0"
        using 1(4) by (cases "hb_keys b") (auto simp: bucket_ok_def hs_ok_def hash_hashed name_ok_def)
      then show thesis
        using 1 w(2) Some by (intro some) (simp_all add: flecs_hashmap_get_bucket_def ecs_map_get_deref_def map_get)
    qed
  qed
qed

lemma ni_abs_bucket:
  assumes b: "hm_bucket hm h = Some b" "bucket_ok hs_ok flecs_name_index_hash flecs_name_index_compare h b"
    and h: "name_hash n = h" "h \<noteq> 0" and len: "length n < 2 ^ 31"
  shows "ni_abs hm n = Some v \<longleftrightarrow> (\<exists>j<length (hb_keys b). hb_keys b ! j = hashed n \<and> v = hb_values b ! j)"
proof -
  have n: "name_ok n" using h len by (simp add: name_ok_def)
  have "flecs_name_index_compare (hb_keys b ! j) (hashed n) = 0 \<longleftrightarrow> hb_keys b ! j = hashed n" if "j < length (hb_keys b)" for j
  proof -
    have "hs_ok (hb_keys b ! j)" using b(2) that by (auto simp: bucket_ok_def)
    then show ?thesis by (auto simp: hs_ok_def)
  qed
  then show ?thesis
    using names.lookup_iff[OF b(2), of "hashed n" v] n h b(1)
    by (auto simp: ni_abs_def hm_abs_def hash_hashed hs_ok_def)
qed

lemma name_find_loop_eq:
  "\<forall>k\<in>set ks. \<exists>n. k = hashed n \<and> name_hash n = name_hash name \<Longrightarrow>
   name_find_loop ks (hashed name) name i
     = Inr (map_option ((+) i) (flecs_hashmap_find_key flecs_name_index_compare ks (hashed name)))"
proof (induction ks arbitrary: i)
  case (Cons k ks)
  then obtain n where "k = hashed n" "name_hash n = name_hash name" by auto
  moreover have "(+) (Suc i) = (\<lambda>x. Suc (i + x))" by auto
  ultimately show ?case using Cons by (auto simp: strcmp_eq option.map_comp comp_def)
qed simp

lemma bucket_keys_hashed:
  "bucket_ok hs_ok flecs_name_index_hash flecs_name_index_compare h b \<Longrightarrow> k \<in> set (hb_keys b) \<Longrightarrow>
   \<exists>n. k = hashed n \<and> name_hash n = h \<and> name_ok n"
  by (auto simp: bucket_ok_def hs_ok_def hash_hashed)

lemma find_id_loop_Some:
  "find_id_loop xs e i = Some j \<Longrightarrow> i \<le> j \<and> j - i < length xs \<and> xs ! (j - i) = e"
proof (induction xs arbitrary: i)
  case (Cons x xs)
  show ?case
  proof (cases "x = e")
    case False
    then have "Suc i \<le> j \<and> j - Suc i < length xs \<and> xs ! (j - Suc i) = e" using Cons.IH[of "Suc i"] Cons.prems by simp
    then show ?thesis by (cases "j - i") (auto simp: Suc_diff_le nth_Cons' intro: arg_cong)
  qed (use Cons.prems in auto)
qed simp

lemma find_id_loop_None: "find_id_loop xs e i = None \<longleftrightarrow> e \<notin> set xs"
  by (induction xs arbitrary: i) auto

section \<open>The operations on the contents\<close>

lemma ni_find:
  assumes wf: "ni_wf hm" and a: "length name < 2 ^ 31" "args_ok name len hash"
  shows "flecs_name_index_find hm name len hash = Inr (case ni_abs hm name of Some i \<Rightarrow> i | None \<Rightarrow> 0)"
proof (cases rule: ni_bucket[OF wf, of "name_hash name"])
  case 1
  then show ?thesis
    by (simp add: flecs_name_index_find_def flecs_name_index_find_ptr_def get_hashed_string[OF a])
next
  case (2 p b)
  have loop: "name_find_loop (hb_keys b) (hashed name) name 0
      = Inr (flecs_hashmap_find_key flecs_name_index_compare (hb_keys b) (hashed name))"
  proof -
    have "\<forall>k\<in>set (hb_keys b). \<exists>n. k = hashed n \<and> name_hash n = name_hash name" using bucket_keys_hashed[OF 2(5)] by blast
    from name_find_loop_eq[OF this, of 0] show ?thesis
      by (cases "flecs_hashmap_find_key flecs_name_index_compare (hb_keys b) (hashed name)") simp_all
  qed
  have "name_ok name" using 2(6) a(1) by (simp add: name_ok_def)
  then have abs: "ni_abs hm name = bucket_lookup flecs_name_index_compare b (hashed name)"
    using 2(4) by (simp add: ni_abs_def hm_abs_def hash_hashed)
  have len: "length (hb_values b) = length (hb_keys b)" using 2(5) by (simp add: bucket_ok_def)
  show ?thesis
    using 2(1,2) len by (auto simp: flecs_name_index_find_def flecs_name_index_find_ptr_def get_hashed_string[OF a] loop abs
        bucket_lookup_def value_read_def split: option.splits dest: find_key_Some)
qed

lemma key_write_same:
  "bucket_get hm p = Inr b \<Longrightarrow> i < length (hb_keys b) \<Longrightarrow> hb_keys b ! i = k \<Longrightarrow> key_write hm (p, i) k = Inr hm"
  by (auto simp: key_write_def bucket_set_def bucket_get_def mem_get_def deref_def list_update_same_conv
      split: if_splits option.splits intro!: ecs_hashmap.equality)

lemma value_write_bucket:
  "value_write hm (p, i) v = Inr hm' \<Longrightarrow> bucket_get hm p = Inr b \<Longrightarrow> bucket_get hm' p = Inr (b\<lparr>hb_values := (hb_values b)[i := v]\<rparr>)"
  by (auto simp: value_write_def bucket_set_def bucket_get_def mem_get_def mem_set_def deref_def
      split: if_splits option.splits)

lemma ni_ensure:
  assumes wf: "ni_wf hm" and a: "name_ok name" "args_ok name len hash" and rm: "room hm"
  obtains hm' where "flecs_name_index_ensure hm i (Some name) len hash = Inr hm'" "ni_wf hm'"
    "ni_abs hm' = (ni_abs hm)(name \<mapsto> i)"
    "card (dom (map_abs (hm_impl hm'))) \<le> card (dom (map_abs (hm_impl hm))) + 1"
proof -
  have w: "hm_wf hs_ok flecs_name_index_hash flecs_name_index_compare hm" "hm_key_size hm = sizeof_hashed_string" "hm_value_size hm = 8"
    using wf by (simp_all add: ni_wf_def)
  have k: "hs_ok (hashed name)" "flecs_name_index_hash (hashed name) = Inr (name_hash name)"
    using a(1) by (simp_all add: hash_hashed)
  have gs: "flecs_get_hashed_string name len hash = Inr (hashed name)"
    using a by (simp add: get_hashed_string name_ok_def)
  show thesis
  proof (rule names.hm_ensure[OF w(1) k rm], goal_cases)
    case (1 hm1 p j b)
    note e = 1
    have b: "bucket_ok hs_ok flecs_name_index_hash flecs_name_index_compare (name_hash name) b"
      by (rule names.bucket_at[OF e(2,3)]) (use e(4) in simp)
    have j: "j < length (hb_keys b)" "hb_keys b ! j = hashed name"
      using find_key_Some[OF e(6)] bucket_keys_hashed[OF b, of "hb_keys b ! j"] by (auto simp del: hashed_sel)
    show thesis
    proof (rule names.hm_write[OF e(2) k e(3-6), where v = i], goal_cases)
      case (1 hm2)
      have "flecs_name_index_ensure hm i (Some name) len hash = Inr hm2"
        using e(1) w(2,3) 1(1) value_write_bucket[OF 1(1) e(5)] j key_write_same[of hm2 p _ j "hashed name"]
        by (simp add: flecs_name_index_ensure_def gs)
      moreover have "ni_abs hm2 = (ni_abs hm)(name \<mapsto> i)"
      proof
        fix n
        show "ni_abs hm2 n = ((ni_abs hm)(name \<mapsto> i)) n"
          using 1(3)[of "hashed n"] e(7)[of "hashed n"] a(1) by (auto simp: ni_abs_def hs_ok_def)
      qed
      ultimately show thesis
        using 1 e(8,9,10) w by (intro that[of hm2]) (simp_all add: ni_wf_def)
    qed
  qed
qed

lemma find_key_self:
  "bucket_ok ok hash compare h b \<Longrightarrow> i < length (hb_keys b) \<Longrightarrow> compare (hb_keys b ! i) (hb_keys b ! i) = 0 \<Longrightarrow>
   flecs_hashmap_find_key compare (hb_keys b) (hb_keys b ! i) = Some i"
proof -
  assume b: "bucket_ok ok hash compare h b" and i: "i < length (hb_keys b)" "compare (hb_keys b ! i) (hb_keys b ! i) = 0"
  then obtain j where j: "flecs_hashmap_find_key compare (hb_keys b) (hb_keys b ! i) = Some j"
    by (cases "flecs_hashmap_find_key compare (hb_keys b) (hb_keys b ! i)") (auto simp: find_key_None)
  from find_key_Some[OF j] show ?thesis using b i j by (auto simp: bucket_ok_def)
qed

text \<open>The name found for an id in the bucket of a hash, if there is only one.\<close>

lemma ni_search:
  assumes wf: "ni_wf hm" and uniq: "\<And>n n'. ni_abs hm n = Some e \<Longrightarrow> name_hash n = h \<Longrightarrow> ni_abs hm n' = Some e \<Longrightarrow> name_hash n' = h \<Longrightarrow> n = n'"
    and b: "hm_bucket hm h = Some b" "bucket_ok hs_ok flecs_name_index_hash flecs_name_index_compare h b" "h \<noteq> 0"
  shows "case find_id_loop (hb_values b) e 0 of
      None \<Rightarrow> \<forall>n. name_hash n = h \<longrightarrow> ni_abs hm n \<noteq> Some e
    | Some i \<Rightarrow> i < length (hb_keys b) \<and> (\<exists>n. hb_keys b ! i = hashed n \<and> name_hash n = h \<and> name_ok n \<and> ni_abs hm n = Some e
         \<and> (\<forall>n'. name_hash n' = h \<longrightarrow> ni_abs hm n' = Some e \<longrightarrow> n' = n))"
proof (cases "find_id_loop (hb_values b) e 0")
  case None
  have "ni_abs hm n \<noteq> Some e" if h: "name_hash n = h" for n
  proof
    assume s: "ni_abs hm n = Some e"
    then have "length n < 2 ^ 31" by (simp add: ni_abs_def name_ok_def split: if_splits)
    then obtain j where "j < length (hb_keys b)" "e = hb_values b ! j" using ni_abs_bucket[OF b(1,2) h b(3)] s by blast
    moreover have "length (hb_values b) = length (hb_keys b)" using b(2) by (simp add: bucket_ok_def)
    ultimately show False using None by (simp add: find_id_loop_None)
  qed
  with None show ?thesis by simp
next
  case (Some i)
  then have i: "i < length (hb_keys b)" "hb_values b ! i = e"
    using find_id_loop_Some[OF Some] b(2) by (simp_all add: bucket_ok_def)
  then obtain n where n: "hb_keys b ! i = hashed n" "name_hash n = h" "name_ok n"
    using bucket_keys_hashed[OF b(2), of "hb_keys b ! i"] by auto
  have "ni_abs hm n = Some e"
    using ni_abs_bucket[OF b(1,2) n(2) b(3)] n i by (auto simp: name_ok_def)
  then show ?thesis using Some i n uniq by auto
qed

lemma ni_remove:
  assumes wf: "ni_wf hm"
    and uniq: "\<And>n n'. ni_abs hm n = Some e \<Longrightarrow> name_hash n = h \<Longrightarrow> ni_abs hm n' = Some e \<Longrightarrow> name_hash n' = h \<Longrightarrow> n = n'"
  obtains hm' where "flecs_name_index_remove hm e h = Inr hm'" "ni_wf hm'"
    "ni_abs hm' = (\<lambda>n. if ni_abs hm n = Some e \<and> name_hash n = h then None else ni_abs hm n)"
    "dom (map_abs (hm_impl hm')) \<subseteq> dom (map_abs (hm_impl hm))"
proof (cases rule: ni_bucket[OF wf, of h])
  case 1
  then show thesis by (intro that[OF _ wf]) (auto simp: flecs_name_index_remove_def fun_eq_iff)
next
  case (2 p b)
  have s: "case find_id_loop (hb_values b) e 0 of
      None \<Rightarrow> \<forall>n. name_hash n = h \<longrightarrow> ni_abs hm n \<noteq> Some e
    | Some i \<Rightarrow> i < length (hb_keys b) \<and> (\<exists>n. hb_keys b ! i = hashed n \<and> name_hash n = h \<and> name_ok n \<and> ni_abs hm n = Some e
         \<and> (\<forall>n'. name_hash n' = h \<longrightarrow> ni_abs hm n' = Some e \<longrightarrow> n' = n))"
    by (rule ni_search[OF wf _ 2(4,5,6)]) (rule uniq)
  show thesis
  proof (cases "find_id_loop (hb_values b) e 0")
    case None
    have eq: "(\<lambda>n. if ni_abs hm n = Some e \<and> name_hash n = h then None else ni_abs hm n) = ni_abs hm"
    proof
      fix n
      have "name_hash n = h \<Longrightarrow> ni_abs hm n \<noteq> Some e" using s unfolding None option.case by blast
      then show "(if ni_abs hm n = Some e \<and> name_hash n = h then None else ni_abs hm n) = ni_abs hm n" by argo
    qed
    have "flecs_name_index_remove hm e h = Inr hm" using 2(1,2) None by (simp add: flecs_name_index_remove_def)
    then show thesis by (rule that[OF _ wf]) (simp_all add: eq)
  next
    case (Some i)
    then obtain n where i: "i < length (hb_keys b)" and n: "hb_keys b ! i = hashed n" "name_hash n = h" "name_ok n" "ni_abs hm n = Some e"
      "\<And>n'. name_hash n' = h \<Longrightarrow> ni_abs hm n' = Some e \<Longrightarrow> n' = n"
      using s unfolding Some option.case by blast
    have k: "hs_ok (hashed n)" "flecs_name_index_hash (hashed n) = Inr h"
      using n(2,3) by (simp_all add: hash_hashed)
    have f: "flecs_hashmap_find_key flecs_name_index_compare (hb_keys b) (hashed n) = Some i"
      using find_key_self[OF 2(5) i] n(1) by simp
    have w: "hm_wf hs_ok flecs_name_index_hash flecs_name_index_compare hm" using wf by (simp add: ni_wf_def)
    show thesis
    proof (rule names.hm_bucket_remove[OF w k 2(3,4,2) f], goal_cases)
      case (1 hm')
      have "ni_abs hm' = (\<lambda>n. if ni_abs hm n = Some e \<and> name_hash n = h then None else ni_abs hm n)"
      proof
        fix m
        have "ni_abs hm' m = (if m = n then None else ni_abs hm m)"
          using 1(3)[of "hashed m"] n(3) by (auto simp: ni_abs_def)
        moreover have "m = n \<longleftrightarrow> ni_abs hm m = Some e \<and> name_hash m = h" using n(2,4) n(5) by blast
        ultimately show "ni_abs hm' m = (if ni_abs hm m = Some e \<and> name_hash m = h then None else ni_abs hm m)"
          by argo
      qed
      then show thesis
        using 1 2(1,2) Some wf by (intro that[of hm']) (simp_all add: flecs_name_index_remove_def ni_wf_def)
    qed
  qed
qed

lemma ni_update_name:
  assumes wf: "ni_wf hm" and name: "\<And>n. ni_abs hm n = Some e \<Longrightarrow> name_hash n = h \<Longrightarrow> n = name"
  shows "flecs_name_index_update_name hm e h name = Inr (hm, ni_abs hm name = Some e \<and> name_hash name = h)"
proof (cases rule: ni_bucket[OF wf, of h])
  case 1
  then show ?thesis by (auto simp: flecs_name_index_update_name_def)
next
  case (2 p b)
  note s = ni_search[OF wf _ 2(4,5,6), of e]
  show ?thesis
  proof (cases "find_id_loop (hb_values b) e 0")
    case None
    then show ?thesis using 2 s name by (auto simp: flecs_name_index_update_name_def)
  next
    case (Some i)
    have i: "i < length (hb_keys b)" and n: "hb_keys b ! i = hashed name" "name_hash name = h" "name_ok name" "ni_abs hm name = Some e"
      using s name Some by auto
    show ?thesis
      using 2(1,2) Some i n key_write_same[OF 2(2) i n(1)]
      by (simp add: flecs_name_index_update_name_def Let_def ecs_os_strlen_def name_ok_def flecs_hash_name)
  qed
qed

section \<open>Runs\<close>

text \<open>
  The calls of the ECS: a name with the length and the hash the caller gives, removal and renewal of
  a name by its id and hash.
\<close>

datatype ni_op =
    NiEnsure u64 c_string int u64
  | NiFind c_string int u64
  | NiRemove u64 u64
  | NiUpdate u64 u64 c_string

fun ni_step :: "name_index \<Rightarrow> ni_op \<Rightarrow> (name_index \<times> u64) res" where
  "ni_step hm (NiEnsure i name len hash) = res_bind (flecs_name_index_ensure hm i (Some name) len hash) (\<lambda>hm. Inr (hm, i))"
| "ni_step hm (NiFind name len hash) = res_bind (flecs_name_index_find hm name len hash) (\<lambda>r. Inr (hm, r))"
| "ni_step hm (NiRemove e hash) = res_bind (flecs_name_index_remove hm e hash) (\<lambda>hm. Inr (hm, e))"
| "ni_step hm (NiUpdate e hash name) =
     res_bind (flecs_name_index_update_name hm e hash name) (\<lambda>(hm, found). Inr (hm, of_bool found))"

fun ni_run :: "name_index \<Rightarrow> ni_op list \<Rightarrow> (name_index \<times> u64 list) res" where
  "ni_run hm [] = Inr (hm, [])"
| "ni_run hm (x # xs) = res_bind (ni_step hm x) (\<lambda>(hm, r). res_bind (ni_run hm xs) (\<lambda>(hm, rs). Inr (hm, r # rs)))"

text \<open>The specification: a partial function from names to ids.\<close>

fun directory_step :: "(c_string \<Rightarrow> u64 option) \<Rightarrow> ni_op \<Rightarrow> (c_string \<Rightarrow> u64 option) \<times> u64" where
  "directory_step f (NiEnsure i name len hash) = (f(name \<mapsto> i), i)"
| "directory_step f (NiFind name len hash) = (f, case f name of Some i \<Rightarrow> i | None \<Rightarrow> 0)"
| "directory_step f (NiRemove e hash) = (\<lambda>n. if f n = Some e \<and> name_hash n = hash then None else f n, e)"
| "directory_step f (NiUpdate e hash name) = (f, of_bool (f name = Some e \<and> name_hash name = hash))"

fun directory_run :: "(c_string \<Rightarrow> u64 option) \<Rightarrow> ni_op list \<Rightarrow> u64 list" where
  "directory_run f [] = []"
| "directory_run f (x # xs) = (let (f, r) = directory_step f x in r # directory_run f xs)"

text \<open>
  What the callers keep: the length and the hash belong to the name, a name that is stored has a
  hash that is not 0, no id has two names at a time, and a name is renewed by itself.
\<close>

fun ni_op_ok :: "(c_string \<Rightarrow> u64 option) \<Rightarrow> ni_op \<Rightarrow> bool" where
  "ni_op_ok f (NiEnsure i name len hash) \<longleftrightarrow> name_ok name \<and> args_ok name len hash \<and> (\<forall>n. f n = Some i \<longrightarrow> n = name)"
| "ni_op_ok f (NiFind name len hash) \<longleftrightarrow> length name < 2 ^ 31 \<and> args_ok name len hash"
| "ni_op_ok f (NiRemove e hash) \<longleftrightarrow> True"
| "ni_op_ok f (NiUpdate e hash name) \<longleftrightarrow> (\<forall>n. f n = Some e \<longrightarrow> name_hash n = hash \<longrightarrow> n = name)"

fun ni_ops_ok :: "(c_string \<Rightarrow> u64 option) \<Rightarrow> ni_op list \<Rightarrow> bool" where
  "ni_ops_ok f [] \<longleftrightarrow> True"
| "ni_ops_ok f (x # xs) \<longleftrightarrow> ni_op_ok f x \<and> ni_ops_ok (fst (directory_step f x)) xs"

definition one_name :: "(c_string \<Rightarrow> u64 option) \<Rightarrow> bool" where
  "one_name f \<longleftrightarrow> (\<forall>n n' e. f n = Some e \<longrightarrow> f n' = Some e \<longrightarrow> n = n')"

lemma one_name_step: "one_name f \<Longrightarrow> ni_op_ok f x \<Longrightarrow> one_name (fst (directory_step f x))"
  by (cases x) (auto simp: one_name_def)

lemma ni_step_ok:
  assumes wf: "ni_wf hm" and one: "one_name (ni_abs hm)" and ok: "ni_op_ok (ni_abs hm) x" and rm: "room hm"
  obtains hm' where "ni_step hm x = Inr (hm', snd (directory_step (ni_abs hm) x))" "ni_wf hm'"
    "ni_abs hm' = fst (directory_step (ni_abs hm) x)"
    "card (dom (map_abs (hm_impl hm'))) \<le> card (dom (map_abs (hm_impl hm))) + 1"
proof (cases x)
  case (NiEnsure i name len hash)
  then have a: "name_ok name" "args_ok name len hash" using ok by simp_all
  show thesis
    by (rule ni_ensure[OF wf a rm, of i]) (use NiEnsure in \<open>auto intro!: that\<close>)
next
  case (NiFind name len hash)
  then show thesis using ok wf by (intro that[of hm]) (auto simp: ni_find)
next
  case (NiRemove e hash)
  have u: "ni_abs hm n = Some e \<Longrightarrow> name_hash n = hash \<Longrightarrow> ni_abs hm n' = Some e \<Longrightarrow> name_hash n' = hash \<Longrightarrow> n = n'" for n n'
    using one unfolding one_name_def by blast
  obtain hm' where r: "flecs_name_index_remove hm e hash = Inr hm'" "ni_wf hm'"
    "ni_abs hm' = (\<lambda>n. if ni_abs hm n = Some e \<and> name_hash n = hash then None else ni_abs hm n)"
    "dom (map_abs (hm_impl hm')) \<subseteq> dom (map_abs (hm_impl hm))"
    by (rule ni_remove[OF wf u])
  then show thesis
    using card_mono[OF finite_map_abs r(4)] by (intro that[of hm']) (simp_all add: NiRemove)
next
  case (NiUpdate e hash name)
  then have "flecs_name_index_update_name hm e hash name = Inr (hm, ni_abs hm name = Some e \<and> name_hash name = hash)"
    using ok by (intro ni_update_name[OF wf]) simp
  then show thesis using wf by (intro that[of hm]) (simp_all add: NiUpdate)
qed

lemma ni_run_ok:
  assumes "ni_wf hm" and "one_name (ni_abs hm)" and "ni_ops_ok (ni_abs hm) xs"
    and "card (dom (map_abs (hm_impl hm))) + length xs < 2 ^ 26"
  shows "\<exists>hm'. ni_run hm xs = Inr (hm', directory_run (ni_abs hm) xs) \<and> ni_wf hm'"
  using assms
proof (induction xs arbitrary: hm)
  case (Cons x xs)
  have ok: "ni_op_ok (ni_abs hm) x" "room hm" using Cons.prems(3,4) by (simp_all add: room_def)
  show ?case
  proof (rule ni_step_ok[OF Cons.prems(1,2) ok], goal_cases)
    case (1 hm1)
    have "\<exists>hm'. ni_run hm1 xs = Inr (hm', directory_run (ni_abs hm1) xs) \<and> ni_wf hm'"
      using Cons.prems 1 one_name_step[OF Cons.prems(2) ok(1)] by (intro Cons.IH) simp_all
    then show ?case using 1 by (auto simp: split_beta Let_def)
  qed
qed simp

lemma ni_init:
  obtains hm where "flecs_name_index_init = Inr hm" "ni_wf hm" "ni_abs hm = (\<lambda>_. None)" "map_abs (hm_impl hm) = Map.empty"
proof -
  obtain hm :: name_index where 1: "flecs_hashmap_init sizeof_hashed_string 8 flecs_name_index_hash flecs_name_index_compare = Inr hm"
    "hm_wf hs_ok flecs_name_index_hash flecs_name_index_compare hm" "map_abs (hm_impl hm) = Map.empty"
    by (rule hm_init_wf)
  have "hm_key_size hm = sizeof_hashed_string" "hm_value_size hm = 8"
    using 1(1) by (auto simp: flecs_hashmap_init_def elim!: res_bindE)
  then show thesis
    using 1 by (intro that[of hm]) (simp_all add: flecs_name_index_init_def ni_wf_def ni_abs_def hm_abs_empty fun_eq_iff)
qed

section \<open>Properties\<close>

text \<open>
  Claim C19: a fresh name index answers every sequence of registrations, lookups, removals and
  renewals as a partial function from names to ids, whatever names have the same hash, as long as
  no id has two names at a time: it does not abort, a lookup gives the id last registered for the
  name and 0 when there is none.
\<close>

theorem name_index_refines:
  assumes "ni_ops_ok (\<lambda>_. None) xs" and "length xs < 2 ^ 26"
  shows "\<exists>hm hm'. flecs_name_index_init = Inr hm \<and> ni_run hm xs = Inr (hm', directory_run (\<lambda>_. None) xs)"
proof -
  obtain hm where hm: "flecs_name_index_init = Inr hm" "ni_wf hm" "ni_abs hm = (\<lambda>_. None)" "map_abs (hm_impl hm) = Map.empty"
    by (rule ni_init)
  have "\<exists>hm'. ni_run hm xs = Inr (hm', directory_run (ni_abs hm) xs) \<and> ni_wf hm'"
    by (rule ni_run_ok) (use hm assms in \<open>simp_all add: one_name_def\<close>)
  then show ?thesis using hm by auto
qed

lemma hash_A: "flecs_hash [65] 1 = Inr 8153392453017390198"
  by code_simp

lemma hash_B: "flecs_hash [66] 1 = Inr 5748084574238499439"
  by code_simp

definition sample_names :: "ni_op list" where
  "sample_names = [NiEnsure 10 [65] 0 0, NiEnsure 11 [66] 1 5748084574238499439, NiFind [65] 0 0,
     NiUpdate 11 5748084574238499439 [66], NiRemove 10 8153392453017390198, NiFind [65] 1 0, NiFind [66] 0 0]"

theorem name_index_refines_witness:
  "directory_run (\<lambda>_. None) sample_names = [10, 11, 10, 1, 10, 0, 11]
    \<and> (\<exists>hm hm'. flecs_name_index_init = Inr hm \<and> ni_run hm sample_names = Inr (hm', directory_run (\<lambda>_. None) sample_names))"
proof (rule conjI)
  have h: "name_hash [65] = 8153392453017390198" "name_hash [66] = 5748084574238499439"
    by (simp_all add: name_hash_def hash_A hash_B)
  show "directory_run (\<lambda>_. None) sample_names = [10, 11, 10, 1, 10, 0, 11]"
    by (simp add: sample_names_def h)
  show "\<exists>hm hm'. flecs_name_index_init = Inr hm \<and> ni_run hm sample_names = Inr (hm', directory_run (\<lambda>_. None) sample_names)"
    by (rule name_index_refines) (simp_all add: sample_names_def name_ok_def args_ok_def h)
qed

end
