(* ===== verification/Ecs_Strings.thy ===== *)
theory Ecs_Strings
  imports Ecs_Prelude
begin

text \<open>
  The character and string routines of misc.c: escaping, unescaping, snake case, numbers and white
  space, and the subtraction of times. A pointer that only moves forward through a string is the
  rest of the memory block it points into, the terminating zero included: reading at the end of the
  block is a fault. A buffer that is written is the list of its bytes with a position. char is read
  as a byte; the classification of characters is that of the C locale.
\<close>

declare res_bind_cong [fundef_cong]

section \<open>Characters\<close>

definition isupper :: "u8 \<Rightarrow> bool" where "isupper c \<longleftrightarrow> 65 \<le> c \<and> c \<le> 90"
definition islower :: "u8 \<Rightarrow> bool" where "islower c \<longleftrightarrow> 97 \<le> c \<and> c \<le> 122"
definition isdigit :: "u8 \<Rightarrow> bool" where "isdigit c \<longleftrightarrow> 48 \<le> c \<and> c \<le> 57"
definition isalpha :: "u8 \<Rightarrow> bool" where "isalpha c \<longleftrightarrow> isupper c \<or> islower c"
definition isspace :: "u8 \<Rightarrow> bool" where "isspace c \<longleftrightarrow> c = 32 \<or> (9 \<le> c \<and> c \<le> 13)"
definition tolower :: "u8 \<Rightarrow> u8" where "tolower c = (if isupper c then c + 32 else c)"

text \<open>The character a pointer points to, and the pointer behind it.\<close>

definition peek :: "u8 list \<Rightarrow> u8 res" where
  "peek s = (case s of [] \<Rightarrow> Inl MEMORY_FAULT | c # _ \<Rightarrow> Inr c)"

section \<open>Escape sequences\<close>

text \<open>
  The letter of the escape sequence of a character, if it has one. flecs\_chresc writes the
  sequence and a terminator and returns the position of the terminator.
\<close>

definition escape_letter :: "u8 \<Rightarrow> u8 option" where
  "escape_letter c =
     (if c = 7 then Some 97 else if c = 8 then Some 98 else if c = 12 then Some 102
      else if c = 10 then Some 110 else if c = 13 then Some 114 else if c = 9 then Some 116
      else if c = 11 then Some 118 else if c = 92 then Some 92 else None)"

definition flecs_chresc :: "u8 list \<Rightarrow> nat \<Rightarrow> u8 \<Rightarrow> u8 \<Rightarrow> (u8 list \<times> nat) res" where
  "flecs_chresc out bptr ch delimiter =
     res_bind
       (case escape_letter ch of
          Some letter \<Rightarrow>
            res_bind (mem_set out bptr 92) (\<lambda>out.
            res_bind (mem_set out (bptr + 1) letter) (\<lambda>out. Inr (out, bptr + 1)))
        | None \<Rightarrow>
            if ch = 27 then res_bind (mem_set out bptr 91) (\<lambda>out. Inr (out, bptr))
            else if ch = delimiter then
              res_bind (mem_set out bptr 92) (\<lambda>out.
              res_bind (mem_set out (bptr + 1) delimiter) (\<lambda>out. Inr (out, bptr + 1)))
            else res_bind (mem_set out bptr ch) (\<lambda>out. Inr (out, bptr))) (\<lambda>(out, bptr).
     res_bind (mem_set out (bptr + 1) 0) (\<lambda>out. Inr (out, bptr + 1)))"

definition unescape_letter :: "u8 \<Rightarrow> u8 option" where
  "unescape_letter c =
     (if c = 97 then Some 7 else if c = 98 then Some 8 else if c = 102 then Some 12
      else if c = 110 then Some 10 else if c = 114 then Some 13 else if c = 116 then Some 9
      else if c = 118 then Some 11 else if c = 92 then Some 92 else if c = 34 then Some 34
      else if c = 48 then Some 0 else if c = 32 then Some 32 else if c = 36 then Some 36 else None)"

text \<open>The pointer behind the character and the character, None for the null pointer.\<close>

definition flecs_chrparse :: "u8 list \<Rightarrow> (u8 list \<times> u8) option res" where
  "flecs_chrparse s =
     res_bind (peek s) (\<lambda>c.
     let result = tl s in
     if c = 92 then
       res_bind (peek result) (\<lambda>e.
       case unescape_letter e of
         None \<Rightarrow> Inr None
       | Some ch \<Rightarrow> Inr (Some (tl result, ch)))
     else Inr (Some (result, c)))"

text \<open>
  The loop of flecs\_stresc over the input, with the scratch buffer of three bytes, the position in
  the output and the number of bytes so far. The output may be the null pointer.
\<close>

fun stresc_loop ::
    "u8 list option \<Rightarrow> nat \<Rightarrow> u8 \<Rightarrow> u8 list \<Rightarrow> u8 list \<Rightarrow> nat \<Rightarrow> nat \<Rightarrow> (u8 list option \<times> nat \<times> nat) res" where
  "stresc_loop out n delimiter [] buff bptr written = Inl MEMORY_FAULT"
| "stresc_loop out n delimiter (ch # ptr) buff bptr written =
     (if ch = 0 then Inr (out, bptr, written)
      else
        res_bind (flecs_chresc buff 0 ch delimiter) (\<lambda>(buff, end).
        let written = written + end in
        if written \<le> n then
          case out of
            None \<Rightarrow> Inl ECS_INVALID_PARAMETER
          | Some o1 \<Rightarrow>
              res_bind (mem_get buff 0) (\<lambda>b0.
              res_bind (mem_set o1 bptr b0) (\<lambda>o1.
              res_bind (mem_get buff 1) (\<lambda>b1.
              if b1 \<noteq> 0 then
                res_bind (mem_set o1 (bptr + 1) b1) (\<lambda>o1.
                stresc_loop (Some o1) n delimiter ptr buff (bptr + 2) written)
              else stresc_loop (Some o1) n delimiter ptr buff (bptr + 1) written)))
        else stresc_loop out n delimiter ptr buff bptr written))"

fun stresc_fill :: "u8 list \<Rightarrow> nat \<Rightarrow> nat \<Rightarrow> u8 list res" where
  "stresc_fill out bptr 0 = Inr out"
| "stresc_fill out bptr (Suc k) = res_bind (mem_set out bptr 0) (\<lambda>out. stresc_fill out (bptr + 1) k)"

text \<open>
  The position of the output is given, since callers pass a pointer into a larger block. The result
  is the block and the number of bytes that the escaped string has, a natural where the code has an int32\_t: strings are shorter
  than 2\^30 bytes.
\<close>

definition flecs_stresc :: "u8 list option \<Rightarrow> nat \<Rightarrow> nat \<Rightarrow> u8 \<Rightarrow> u8 list \<Rightarrow> (u8 list option \<times> nat) res" where
  "flecs_stresc out start n delimiter s =
     res_bind (stresc_loop out n delimiter s (replicate 3 0xAA) start 0) (\<lambda>(out, bptr, written).
     case out of
       None \<Rightarrow> Inr (None, written)
     | Some o1 \<Rightarrow> res_bind (stresc_fill o1 bptr (n - written)) (\<lambda>o1. Inr (Some o1, max n written)))"

definition flecs_astresc :: "u8 \<Rightarrow> u8 list option \<Rightarrow> u8 list option res" where
  "flecs_astresc delimiter s =
     (case s of
        None \<Rightarrow> Inr None
      | Some s \<Rightarrow>
          res_bind (flecs_stresc None 0 0 delimiter s) (\<lambda>(_, len).
          res_bind (flecs_stresc (Some (replicate (len + 1) 0xAA)) 0 len delimiter s) (\<lambda>(out, _).
          res_bind (deref out) (\<lambda>out.
          res_bind (mem_set out len 0) (\<lambda>out. Inr (Some out))))))"

section \<open>Snake case\<close>

text \<open>
  The number of upper case letters and the length, from the second character on. Both are int32\_t, and
  so is the size of the block; leaving the range is an INT\_RANGE error.
\<close>

fun snake_count :: "u8 list \<Rightarrow> nat \<Rightarrow> nat \<Rightarrow> (nat \<times> nat) res" where
  "snake_count [] upper_count len = Inl MEMORY_FAULT"
| "snake_count (ch # ptr) upper_count len =
     (if ch = 0 then Inr (upper_count, len)
      else if int len + 1 < 2 ^ 31 \<and> int upper_count + 1 < 2 ^ 31
      then snake_count ptr (if isupper ch then upper_count + 1 else upper_count) (len + 1)
      else Inl INT_RANGE)"

fun snake_write :: "u8 list \<Rightarrow> bool \<Rightarrow> u8 list \<Rightarrow> nat \<Rightarrow> (u8 list \<times> nat) res" where
  "snake_write [] first out out_ptr = Inl MEMORY_FAULT"
| "snake_write (ch # ptr) first out out_ptr =
     (if ch = 0 then Inr (out, out_ptr)
      else if isupper ch then
        res_bind (if first then Inr (out, out_ptr)
                  else res_bind (int_index (int out_ptr - 1)) (\<lambda>i.
                       res_bind (mem_get out i) (\<lambda>c.
                       if c \<noteq> 95 then res_bind (mem_set out out_ptr 95) (\<lambda>out. Inr (out, out_ptr + 1))
                       else Inr (out, out_ptr)))) (\<lambda>(out, out_ptr).
        res_bind (mem_set out out_ptr (tolower ch)) (\<lambda>out.
        snake_write ptr False out (out_ptr + 1)))
      else
        res_bind (mem_set out out_ptr ch) (\<lambda>out.
        snake_write ptr False out (out_ptr + 1)))"

definition flecs_to_snake_case :: "u8 list \<Rightarrow> u8 list res" where
  "flecs_to_snake_case str =
     (if str = [] then Inl MEMORY_FAULT
      else
        res_bind (snake_count (tl str) 0 1) (\<lambda>(upper_count, len).
        if 2 ^ 31 \<le> int len + int upper_count + 1 then Inl INT_RANGE else
        res_bind (snake_write str True (replicate (len + upper_count + 1) 0xAA) 0) (\<lambda>(out, out_ptr).
        mem_set out out_ptr 0)))"

section \<open>Numbers and white space\<close>

definition flecs_parse_is_e :: "u8 \<Rightarrow> bool" where
  "flecs_parse_is_e e \<longleftrightarrow> e = 101 \<or> e = 69"

text \<open>The loop keeps the character before the pointer, which the code reads at ptr[-1].\<close>

fun parse_digit_loop :: "u8 list \<Rightarrow> u8 \<Rightarrow> u8 list \<Rightarrow> nat \<Rightarrow> nat \<Rightarrow> ((u8 list \<times> u8 list) option) res" where
  "parse_digit_loop [] prev token tptr token_size = Inl MEMORY_FAULT"
| "parse_digit_loop (ch # ptr) prev token tptr token_size =
     (let stop = res_bind (mem_set token tptr 0) (\<lambda>token. Inr (Some (ch # ptr, token))) in
      if ch = 0 then stop
      else if \<not> isdigit ch \<and> ch \<noteq> 46 \<and> \<not> flecs_parse_is_e ch \<and> (ch \<noteq> 45 \<or> \<not> flecs_parse_is_e prev) then stop
      else if int tptr \<ge> int token_size - 1 then Inr None
      else
        res_bind (mem_set token tptr ch) (\<lambda>token.
        parse_digit_loop ptr ch token (tptr + 1) token_size))"

definition flecs_parse_digit :: "u8 list \<Rightarrow> u8 list \<Rightarrow> nat \<Rightarrow> ((u8 list \<times> u8 list) option) res" where
  "flecs_parse_digit ptr token token_size =
     res_bind (peek ptr) (\<lambda>ch.
     if \<not> isdigit ch \<and> ch \<noteq> 45 then Inr None
     else
       res_bind (mem_set token 0 ch) (\<lambda>token.
       parse_digit_loop (tl ptr) ch token 1 token_size))"

fun flecs_parse_ws_eol :: "u8 list \<Rightarrow> u8 list res" where
  "flecs_parse_ws_eol [] = Inl MEMORY_FAULT"
| "flecs_parse_ws_eol (c # ptr) = (if isspace c then flecs_parse_ws_eol ptr else Inr (c # ptr))"

section \<open>Times\<close>

record ecs_time =
  t_sec :: u32
  t_nanosec :: u32

definition ecs_time_sub :: "ecs_time \<Rightarrow> ecs_time \<Rightarrow> ecs_time" where
  "ecs_time_sub t1 t2 =
     (if t_nanosec t1 \<ge> t_nanosec t2
      then \<lparr>t_sec = t_sec t1 - t_sec t2, t_nanosec = t_nanosec t1 - t_nanosec t2\<rparr>
      else \<lparr>t_sec = t_sec t1 - t_sec t2 - 1, t_nanosec = t_nanosec t1 - t_nanosec t2 + 1000000000\<rparr>)"

section \<open>Writing a run of bytes\<close>

definition poke :: "'a list \<Rightarrow> nat \<Rightarrow> 'a list \<Rightarrow> 'a list" where
  "poke out p xs = take p out @ xs @ drop (p + length xs) out"

lemma poke_Nil [simp]: "poke out p [] = out"
  by (simp add: poke_def)

lemma length_poke [simp]: "p + length xs \<le> length out \<Longrightarrow> length (poke out p xs) = length out"
  by (simp add: poke_def)

lemma mem_set_poke: "p < length out \<Longrightarrow> mem_set out p x = Inr (poke out p [x])"
  by (simp add: poke_def upd_conv_take_nth_drop)

lemma poke_poke: "p + length xs \<le> length out \<Longrightarrow> poke (poke out p xs) (p + length xs) ys = poke out p (xs @ ys)"
  by (simp add: poke_def ac_simps)

lemma mem_set_poke_poke:
  "p + length xs < length out \<Longrightarrow> mem_set (poke out p xs) (p + length xs) x = Inr (poke out p (xs @ [x]))"
  by (subst mem_set_poke) (simp_all add: poke_poke)

lemma poke_nth: "p + length xs \<le> length out \<Longrightarrow> i < length xs \<Longrightarrow> poke out p xs ! (p + i) = xs ! i"
  by (simp add: poke_def nth_append)

section \<open>Escaping\<close>

definition escaped :: "u8 \<Rightarrow> u8 \<Rightarrow> u8 list" where
  "escaped delimiter c =
     (case escape_letter c of
        Some letter \<Rightarrow> [92, letter]
      | None \<Rightarrow> if c = 27 then [91] else if c = delimiter then [92, delimiter] else [c])"

definition escaped_string :: "u8 \<Rightarrow> u8 list \<Rightarrow> u8 list" where
  "escaped_string delimiter s = concat (map (escaped delimiter) s)"

lemma escaped_string_simps [simp]:
  "escaped_string d [] = []" "escaped_string d (c # s) = escaped d c @ escaped_string d s"
  by (simp_all add: escaped_string_def)

lemma escape_letter_nonzero: "escape_letter c = Some l \<Longrightarrow> l \<noteq> 0"
  by (auto simp: escape_letter_def split: if_splits)

lemma escaped_cases:
  assumes "c \<noteq> 0"
  obtains (two) l where "escaped d c = [92, l]" "l \<noteq> 0" | (one) l where "escaped d c = [l]" "l \<noteq> 0"
proof (cases "escape_letter c")
  case (Some l)
  then show thesis using two by (simp add: escaped_def escape_letter_nonzero)
next
  case None
  then show thesis using assms one[of 91] one[of c] two[of d] by (cases "c = 27"; cases "c = d") (simp_all add: escaped_def)
qed

lemma chresc_eq:
  assumes "p + length (escaped d c) < length out"
  shows "flecs_chresc out p c d = Inr (poke out p (escaped d c @ [0]), p + length (escaped d c))"
proof -
  have one: "out[p := x] = poke out p [x]" for x
    using assms mem_set_poke[of p out x] by simp
  have two: "(poke out p [x])[Suc p := y] = poke out p [x, y]" if "Suc p < length out" for x y
    using mem_set_poke_poke[of p "[x]" out y] that by simp
  have three: "(poke out p [x, z])[Suc (Suc p) := y] = poke out p [x, z, y]" if "Suc (Suc p) < length out" for x y z
    using mem_set_poke_poke[of p "[x, z]" out y] that by simp
  show ?thesis
  proof (cases "escape_letter c")
    case (Some l)
    then show ?thesis using assms by (simp add: flecs_chresc_def escaped_def one two three)
  next
    case None
    then show ?thesis using assms
      by (cases "c = 27"; cases "c = d") (simp_all add: flecs_chresc_def escaped_def one two three)
  qed
qed

lemma chresc_buff:
  assumes "length buff = 3" and "c \<noteq> 0"
  obtains b where "flecs_chresc buff 0 c d = Inr (b, length (escaped d c))" "length b = 3"
    "b ! 0 = escaped d c ! 0" "b ! 1 = (if length (escaped d c) = 2 then escaped d c ! 1 else 0)"
    "length (escaped d c) = 1 \<or> (length (escaped d c) = 2 \<and> escaped d c ! 1 \<noteq> 0)"
proof (cases rule: escaped_cases[OF assms(2), of d])
  case (1 l)
  then show thesis
    using assms chresc_eq[of 0 d c buff] by (intro that[of "poke buff 0 (escaped d c @ [0])"]) (auto simp: poke_def nth_append)
next
  case (2 l)
  then show thesis
    using assms chresc_eq[of 0 d c buff] by (intro that[of "poke buff 0 (escaped d c @ [0])"]) (auto simp: poke_def nth_append)
qed

lemma stresc_loop_size:
  assumes "0 \<notin> set s" and "length buff = 3"
  shows "stresc_loop None 0 d (s @ 0 # rest) buff bptr written = Inr (None, bptr, written + length (escaped_string d s))"
  using assms
proof (induction s arbitrary: buff written)
  case (Cons c s)
  then have "c \<noteq> 0" by auto
  with Cons.prems obtain b where b: "flecs_chresc buff 0 c d = Inr (b, length (escaped d c))" "length b = 3"
    "length (escaped d c) \<noteq> 0"
    using chresc_buff[of buff c d] by (metis One_nat_def Suc_1 nat.simps(3))
  show ?case using Cons.IH[OF _ b(2)] Cons.prems b \<open>c \<noteq> 0\<close> by (simp add: Let_def)
qed simp

lemma stresc_loop_write:
  assumes "0 \<notin> set s" and "length buff = 3" and "written + length (escaped_string d s) \<le> n"
    and "bptr + length (escaped_string d s) \<le> length out"
  shows "stresc_loop (Some out) n d (s @ 0 # rest) buff bptr written
    = Inr (Some (poke out bptr (escaped_string d s)), bptr + length (escaped_string d s), written + length (escaped_string d s))"
  using assms
proof (induction s arbitrary: buff written bptr out)
  case (Cons c s)
  then have c: "c \<noteq> 0" by auto
  obtain b where b: "flecs_chresc buff 0 c d = Inr (b, length (escaped d c))" "length b = 3"
    "b ! 0 = escaped d c ! 0" "b ! 1 = (if length (escaped d c) = 2 then escaped d c ! 1 else 0)"
    "length (escaped d c) = 1 \<or> (length (escaped d c) = 2 \<and> escaped d c ! 1 \<noteq> 0)"
    by (rule chresc_buff[OF Cons.prems(2) c])
  have lt: "bptr + length (escaped d c) \<le> length out" using Cons.prems(4) by simp
  have IH: "stresc_loop (Some (poke out bptr (escaped d c))) n d (s @ 0 # rest) b (bptr + length (escaped d c)) (written + length (escaped d c))
      = Inr (Some (poke out bptr (escaped_string d (c # s))), bptr + length (escaped_string d (c # s)), written + length (escaped_string d (c # s)))"
    using Cons.IH[of b "written + length (escaped d c)" "bptr + length (escaped d c)" "poke out bptr (escaped d c)"] Cons.prems b(2)
    by (simp add: poke_poke lt add.assoc)
  show ?case
  proof (cases "length (escaped d c) = 2")
    case True
    then obtain x y where xy: "escaped d c = [x, y]" by (auto simp: length_Suc_conv numeral_2_eq_2)
    have "mem_set out bptr x = Inr (poke out bptr [x])" "mem_set (poke out bptr [x]) (Suc bptr) y = Inr (poke out bptr [x, y])"
      using lt xy mem_set_poke_poke[of bptr "[x]" out y] mem_set_poke[of bptr out x] by simp_all
    then show ?thesis using IH Cons.prems(3) c b xy by (simp add: Let_def)
  next
    case False
    with b(5) have "length (escaped d c) = 1" by simp
    then obtain x where x: "escaped d c = [x]" by (auto simp: length_Suc_conv)
    have "mem_set out bptr x = Inr (poke out bptr [x])" using lt x by (intro mem_set_poke) simp
    then show ?thesis using IH Cons.prems(3) c b x by (simp add: Let_def)
  qed
qed simp

text \<open>The size of the escaped string, and the escaped string in a block that has room for it.\<close>

lemma flecs_stresc_size:
  "0 \<notin> set s \<Longrightarrow> flecs_stresc None 0 0 d (s @ 0 # rest) = Inr (None, length (escaped_string d s))"
  by (simp add: flecs_stresc_def stresc_loop_size)

lemma flecs_stresc_write:
  "0 \<notin> set s \<Longrightarrow> start + length (escaped_string d s) \<le> length out \<Longrightarrow>
   flecs_stresc (Some out) start (length (escaped_string d s)) d (s @ 0 # rest)
     = Inr (Some (poke out start (escaped_string d s)), length (escaped_string d s))"
  by (simp add: flecs_stresc_def stresc_loop_write)

lemma flecs_astresc_eq:
  assumes "0 \<notin> set s"
  shows "flecs_astresc d (Some (s @ 0 # rest)) = Inr (Some (escaped_string d s @ [0]))"
proof -
  let ?n = "length (escaped_string d s)"
  have "mem_set (poke (replicate (?n + 1) 0xAA) 0 (escaped_string d s)) ?n 0 = Inr (poke (replicate (?n + 1) 0xAA) 0 (escaped_string d s @ [0]))"
    using mem_set_poke_poke[of 0 "escaped_string d s" "replicate (?n + 1) 0xAA" 0] by simp
  then show ?thesis
    using assms by (simp add: flecs_astresc_def flecs_stresc_size flecs_stresc_write deref_def) (simp add: poke_def)
qed

section \<open>Unescaping\<close>

text \<open>A delimiter that the reader knows is one that an escape sequence stands for itself.\<close>

lemma chrparse_escaped:
  assumes "c \<noteq> 27" and "c \<noteq> d \<or> unescape_letter d = Some d"
  shows "flecs_chrparse (escaped d c @ rest) = Inr (Some (rest, c))"
proof (cases "escape_letter c")
  case (Some l)
  then have "unescape_letter l = Some c"
    by (auto simp: escape_letter_def unescape_letter_def split: if_splits)
  then show ?thesis using Some by (simp add: escaped_def flecs_chrparse_def peek_def)
next
  case None
  then have "c \<noteq> 92" by (auto simp: escape_letter_def split: if_splits)
  with None assms show ?thesis by (auto simp: escaped_def flecs_chrparse_def peek_def)
qed

lemma chrparse_shorter:
  "flecs_chrparse s = Inr (Some (s', c)) \<Longrightarrow> length s' < length s"
  by (cases s; cases "tl s") (auto simp: flecs_chrparse_def peek_def Let_def split: if_splits option.splits)

section \<open>Numbers and white space\<close>

lemma peek_append [simp]: "peek (c # s) = Inr c" by (simp add: peek_def)

lemma parse_ws_eol: "0 \<notin> set s \<Longrightarrow> flecs_parse_ws_eol (s @ 0 # rest) = Inr (dropWhile isspace s @ 0 # rest)"
  by (induction s) (auto simp: isspace_def)

text \<open>
  A number is copied with a terminator into a token buffer of at least two bytes; the characters
  copied are a prefix of the input, and a number that does not fit is an error.
\<close>

lemma parse_digit_loop_ok:
  assumes "0 \<notin> set s" and "0 < tptr" and "tptr < n" and "n \<le> length token"
  shows "\<exists>r. parse_digit_loop (s @ 0 # rest) prev token tptr n = Inr r \<and> (case r of None \<Rightarrow> True
    | Some (ptr, tok) \<Rightarrow> \<exists>pre suf. s = pre @ suf \<and> ptr = suf @ 0 # rest \<and> tptr + length pre < n \<and> tok = poke token tptr (pre @ [0]))"
  using assms
proof (induction s arbitrary: prev token tptr)
  case Nil
  then have "mem_set token tptr 0 = Inr (poke token tptr [0])" by (intro mem_set_poke) simp
  then show ?case using Nil by (auto simp: Let_def)
next
  case (Cons c s)
  have stop: "mem_set token tptr 0 = Inr (poke token tptr [0])" using Cons.prems by (intro mem_set_poke) simp
  have set: "mem_set token tptr c = Inr (poke token tptr [c])" using Cons.prems by (intro mem_set_poke) simp
  have IH: "\<exists>r. parse_digit_loop (s @ 0 # rest) c (poke token tptr [c]) (tptr + 1) n = Inr r \<and> (case r of None \<Rightarrow> True
    | Some (ptr, tok) \<Rightarrow> \<exists>pre suf. s = pre @ suf \<and> ptr = suf @ 0 # rest \<and> tptr + 1 + length pre < n
        \<and> tok = poke (poke token tptr [c]) (tptr + 1) (pre @ [0]))" if "\<not> int tptr \<ge> int n - 1"
    using Cons.IH[of "tptr + 1" "poke token tptr [c]" c] Cons.prems that by simp
  have merge: "poke (poke token tptr [c]) (tptr + 1) ys = poke token tptr (c # ys)" for ys
    using poke_poke[of tptr "[c]" token ys] Cons.prems by simp
  show ?case
  proof (cases "\<not> isdigit c \<and> c \<noteq> 46 \<and> \<not> flecs_parse_is_e c \<and> (c \<noteq> 45 \<or> \<not> flecs_parse_is_e prev)")
    case True
    then show ?thesis using stop Cons.prems
      by (intro exI[of _ "Some (c # s @ 0 # rest, poke token tptr [0])"]) (auto simp: Let_def)
  next
    case go: False
    show ?thesis
    proof (cases "int tptr \<ge> int n - 1")
      case True
      then show ?thesis using go Cons.prems by (intro exI[of _ None]) (auto simp: Let_def)
    next
      case False
      then obtain r where r: "parse_digit_loop (s @ 0 # rest) c (poke token tptr [c]) (tptr + 1) n = Inr r"
        "case r of None \<Rightarrow> True | Some (ptr, tok) \<Rightarrow> \<exists>pre suf. s = pre @ suf \<and> ptr = suf @ 0 # rest \<and> tptr + 1 + length pre < n
          \<and> tok = poke token tptr (c # pre @ [0])"
        using IH[OF False] unfolding merge by blast
      have eq: "parse_digit_loop (c # s @ 0 # rest) prev token tptr n = Inr r"
        using go False set r(1) Cons.prems(1) by (auto simp: Let_def)
      show ?thesis
      proof (cases r)
        case None
        then show ?thesis using eq by simp
      next
        case (Some a)
        then obtain ptr tok pre suf where "r = Some (ptr, tok)" "s = pre @ suf" "ptr = suf @ 0 # rest"
          "tptr + 1 + length pre < n" "tok = poke token tptr (c # pre @ [0])" using r(2) by (cases a) auto
        then have "\<exists>pre suf. c # s = pre @ suf \<and> ptr = suf @ 0 # rest \<and> tptr + length pre < n \<and> tok = poke token tptr (pre @ [0])"
          by (intro exI[of _ "c # pre"] exI[of _ suf]) simp
        then show ?thesis using eq \<open>r = Some (ptr, tok)\<close> by (intro exI[of _ r]) simp
      qed
    qed
  qed
qed

lemma parse_digit:
  assumes "0 \<notin> set s" and "2 \<le> n" and "n \<le> length token"
  shows "\<exists>r. flecs_parse_digit (s @ 0 # rest) token n = Inr r \<and> (case r of None \<Rightarrow> True
    | Some (ptr, tok) \<Rightarrow> \<exists>pre suf. s = pre @ suf \<and> pre \<noteq> [] \<and> ptr = suf @ 0 # rest \<and> length pre < n \<and> tok = poke token 0 (pre @ [0]))"
proof (cases "s = [] \<or> (\<not> isdigit (hd s) \<and> hd s \<noteq> 45)")
  case True
  then show ?thesis
    by (cases s) (auto simp: flecs_parse_digit_def isdigit_def)
next
  case False
  then obtain c s' where s: "s = c # s'" and c: "isdigit c \<or> c = 45" by (cases s) auto
  have set: "mem_set token 0 c = Inr (poke token 0 [c])" using assms by (intro mem_set_poke) linarith
  obtain r where r: "parse_digit_loop (s' @ 0 # rest) c (poke token 0 [c]) 1 n = Inr r"
    "case r of None \<Rightarrow> True | Some (ptr, tok) \<Rightarrow> \<exists>pre suf. s' = pre @ suf \<and> ptr = suf @ 0 # rest \<and> 1 + length pre < n
      \<and> tok = poke (poke token 0 [c]) 1 (pre @ [0])"
    using parse_digit_loop_ok[of s' 1 n "poke token 0 [c]" rest c] assms s by auto
  have merge: "poke (poke token 0 [c]) 1 ys = poke token 0 (c # ys)" for ys
    using poke_poke[of 0 "[c]" token ys] assms by simp
  have eq: "flecs_parse_digit (s @ 0 # rest) token n = Inr r"
    using c set r(1) by (auto simp: s flecs_parse_digit_def)
  show ?thesis
  proof (cases r)
    case None
    then show ?thesis using eq by simp
  next
    case (Some a)
    then obtain ptr tok pre suf where "r = Some (ptr, tok)" "s' = pre @ suf" "ptr = suf @ 0 # rest"
      "1 + length pre < n" "tok = poke token 0 (c # pre @ [0])" using r(2) unfolding merge by (cases a) auto
    then have "\<exists>pre suf. s = pre @ suf \<and> pre \<noteq> [] \<and> ptr = suf @ 0 # rest \<and> length pre < n \<and> tok = poke token 0 (pre @ [0])"
      by (intro exI[of _ "c # pre"] exI[of _ suf]) (simp add: s)
    then show ?thesis using eq \<open>r = Some (ptr, tok)\<close> by (intro exI[of _ r]) simp
  qed
qed

section \<open>Times\<close>

definition time_ns :: "ecs_time \<Rightarrow> nat" where
  "time_ns t = unat (t_sec t) * 1000000000 + unat (t_nanosec t)"

lemma unat_sub_ge: "b \<le> a \<Longrightarrow> unat (a - b) = unat a - unat (b :: u32)"
  by (simp add: unat_sub)

lemma ecs_time_sub_ok:
  assumes "unat (t_nanosec t1) < 1000000000" "unat (t_nanosec t2) < 1000000000" and "time_ns t2 \<le> time_ns t1"
  shows "time_ns (ecs_time_sub t1 t2) = time_ns t1 - time_ns t2 \<and> unat (t_nanosec (ecs_time_sub t1 t2)) < 1000000000"
proof (cases "t_nanosec t2 \<le> t_nanosec t1")
  case True
  then have n: "unat (t_nanosec t2) \<le> unat (t_nanosec t1)" by (simp add: word_le_nat_alt)
  with assms have "unat (t_sec t2) \<le> unat (t_sec t1)" by (auto simp: time_ns_def)
  then have "unat (t_sec t1 - t_sec t2) = unat (t_sec t1) - unat (t_sec t2)" by (simp add: unat_sub_ge word_le_nat_alt)
  then show ?thesis using True n assms by (simp add: ecs_time_sub_def time_ns_def unat_sub_ge diff_mult_distrib)
next
  case False
  then have n: "unat (t_nanosec t1) < unat (t_nanosec t2)" by (simp add: word_le_nat_alt not_le)
  then have s: "unat (t_sec t2) + 1 \<le> unat (t_sec t1)" using assms by (auto simp: time_ns_def)
  have s1: "unat (t_sec t1 - t_sec t2) = unat (t_sec t1) - unat (t_sec t2)"
    using s by (simp add: unat_sub_ge word_le_nat_alt)
  have "1 \<le> t_sec t1 - t_sec t2" using s s1 by (simp add: word_le_nat_alt)
  then have s2: "unat (t_sec t1 - t_sec t2 - 1) = unat (t_sec t1) - unat (t_sec t2) - 1"
    by (simp add: unat_sub_ge s1)
  have "t_nanosec t1 - t_nanosec t2 + 1000000000 = (t_nanosec t1 + 1000000000) - t_nanosec t2" by simp
  moreover have p: "unat (t_nanosec t1 + 1000000000) = unat (t_nanosec t1) + 1000000000"
    using assms(1) by (subst unat_plus_if') simp
  moreover have "t_nanosec t2 \<le> t_nanosec t1 + 1000000000" using assms(2) p by (simp add: word_le_nat_alt)
  ultimately have n2: "unat (t_nanosec t1 - t_nanosec t2 + 1000000000) = unat (t_nanosec t1) + 1000000000 - unat (t_nanosec t2)"
    by (simp only: unat_sub_ge)
  obtain k where k: "unat (t_sec t1) = unat (t_sec t2) + 1 + k" using s le_Suc_ex by blast
  have "time_ns (ecs_time_sub t1 t2) = k * 1000000000 + (unat (t_nanosec t1) + 1000000000 - unat (t_nanosec t2))"
    using False by (simp add: ecs_time_sub_def time_ns_def s2 n2 k)
  moreover have "time_ns t1 - time_ns t2 = k * 1000000000 + (unat (t_nanosec t1) + 1000000000 - unat (t_nanosec t2))"
    using n assms(1,2) by (simp add: time_ns_def k)
  moreover have "unat (t_nanosec (ecs_time_sub t1 t2)) < 1000000000"
    using n n2 False by (simp add: ecs_time_sub_def)
  ultimately show ?thesis by simp
qed

section \<open>Snake case\<close>

text \<open>The result, given whether the character is the first one and the last character written.\<close>

fun snake :: "bool \<Rightarrow> u8 \<Rightarrow> u8 list \<Rightarrow> u8 list" where
  "snake first prev [] = []"
| "snake first prev (c # s) =
     (if isupper c then (if first \<or> prev = 95 then [] else [95]) @ tolower c # snake False (tolower c) s
      else c # snake False c s)"

lemma snake_count_eq:
  "0 \<notin> set s \<Longrightarrow> u < l \<Longrightarrow> l < 2 ^ 31 \<Longrightarrow> snake_count (s @ 0 # rest) u l
    = (if l + length s < 2 ^ 31 then Inr (u + length (filter isupper s), l + length s) else Inl INT_RANGE)"
  by (induction s arbitrary: u l) auto

lemma snake_length: "length (snake False prev s) \<le> length s + length (filter isupper s)"
  by (induction s arbitrary: prev) (auto simp: le_SucI)

lemma snake_length_first: "s \<noteq> [] \<Longrightarrow> length (snake True prev s) \<le> length s + length (filter isupper (tl s))"
  using snake_length by (cases s) auto

lemma snake_write_eq:
  assumes "0 \<notin> set s" and "p + length (snake first prev s) \<le> length out"
    and "\<not> first \<Longrightarrow> 0 < p \<and> out ! (p - 1) = prev"
  shows "snake_write (s @ 0 # rest) first out p = Inr (poke out p (snake first prev s), p + length (snake first prev s))"
  using assms
proof (induction s arbitrary: first prev out p)
  case (Cons c s)
  have next_char: "snake_write (s @ 0 # rest) False (poke o1 q [x]) (q + 1)
      = Inr (poke o1 q (x # snake False x s), q + length (x # snake False x s))"
    if "q + length (x # snake False x s) \<le> length o1" for o1 q x
  proof -
    have "poke o1 q [x] ! q = x" using that poke_nth[of q "[x]" o1 0] by simp
    then show ?thesis
      using Cons.IH[where first = False and prev = x and p = "q + 1" and out = "poke o1 q [x]"] Cons.prems(1) that
        poke_poke[of q "[x]" o1] by simp
  qed
  show ?case
  proof (cases "isupper c \<and> \<not> (first \<or> prev = 95)")
    case True
    then have l: "p + 1 + length (tolower c # snake False (tolower c) s) \<le> length out" and first: "\<not> first" "prev \<noteq> 95"
      using Cons.prems(2) by simp_all
    have i: "int_index (int p - 1) = Inr (p - 1)" "mem_get out (p - 1) = Inr prev"
      using Cons.prems(3) first l by (simp_all add: int_index_def nat_diff_distrib)
    have s: "mem_set out p 95 = Inr (poke out p [95])" using l by (intro mem_set_poke) simp
    have s2: "mem_set (poke out p [95]) (p + 1) x = Inr (poke (poke out p [95]) (p + 1) [x])" for x
      using l by (intro mem_set_poke) simp
    show ?thesis
      using True i s s2 next_char[of "p + 1" "tolower c" "poke out p [95]"] l Cons.prems(1) poke_poke[of p "[95]" out]
      by simp
  next
    case False
    define x where "x = (if isupper c then tolower c else c)"
    have eq: "snake first prev (c # s) = x # snake False x s" using False by (auto simp: x_def)
    have s: "mem_set out p x = Inr (poke out p [x])" using Cons.prems(2) unfolding eq by (intro mem_set_poke) simp
    have i: "int_index (int p - 1) = Inr (p - 1)" "mem_get out (p - 1) = Inr prev" if "\<not> first"
    proof -
      have "0 < p" "out ! (p - 1) = prev" using Cons.prems(3)[OF that] by simp_all
      moreover have "p - 1 < length out" using Cons.prems(2) \<open>0 < p\<close> by linarith
      ultimately show "int_index (int p - 1) = Inr (p - 1)" "mem_get out (p - 1) = Inr prev"
        by (simp_all add: int_index_def nat_diff_distrib)
    qed
    show ?thesis
      unfolding eq using False s i next_char[of p x out] Cons.prems(1,2)
      by (cases "isupper c"; cases first) (auto simp: x_def eq)
  qed
qed simp

lemma tolower_lower: "isupper c \<Longrightarrow> \<not> isupper (tolower c) \<and> tolower c \<noteq> 95"
  by (auto simp: isupper_def tolower_def word_le_nat_alt unat_plus_if' dest: arg_cong[where f = unat])

lemma snake_lower: "c \<in> set (snake first prev s) \<Longrightarrow> \<not> isupper c"
proof (induction s arbitrary: first prev)
  case (Cons a s)
  then show ?case using tolower_lower[of a] by (auto simp: isupper_def split: if_splits)
qed simp

lemma snake_letters: "filter (\<lambda>c. c \<noteq> 95) (snake first prev s) = filter (\<lambda>c. c \<noteq> 95) (map tolower s)"
  by (induction s arbitrary: first prev) (auto simp: tolower_def)

text \<open>
  Claim C39: for a string that is not empty, the conversion to snake case stays inside of the block it
  allocates and returns the terminated result, as long as its length and its upper case letters after the first
  character together stay below 2\^31 - 1: no upper case letter is left, and without its
  underscores the result is the string without its underscores in lower case. A longer string takes a counter or the
  size of the block out of int32\_t.
\<close>

theorem snake_case_fits:
  assumes "s \<noteq> []" and "0 \<notin> set s"
  shows "if length s + length (filter isupper (tl s)) + 1 < 2 ^ 31
    then \<exists>t pad. flecs_to_snake_case (s @ 0 # rest) = Inr (t @ 0 # pad)
      \<and> (\<forall>c\<in>set t. \<not> isupper c) \<and> filter (\<lambda>c. c \<noteq> 95) t = filter (\<lambda>c. c \<noteq> 95) (map tolower s)
    else flecs_to_snake_case (s @ 0 # rest) = Inl INT_RANGE"
proof -
  define t where "t = snake True 0 s"
  define n where "n = length s + length (filter isupper (tl s))"
  have len: "length t \<le> n" unfolding t_def n_def by (rule snake_length_first[OF assms(1)])
  have cnt: "snake_count (tl (s @ 0 # rest)) 0 1
      = (if length s < 2 ^ 31 then Inr (length (filter isupper (tl s)), length s) else Inl INT_RANGE)"
    using assms snake_count_eq[of "tl s" 0 1 rest] by (cases s) auto
  have wr: "snake_write (s @ 0 # rest) True (replicate (n + 1) 0xAA) 0 = Inr (poke (replicate (n + 1) 0xAA) 0 t, length t)"
    using snake_write_eq[of s 0 True 0 "replicate (n + 1) 0xAA" rest] assms(2) len by (simp add: t_def)
  have "mem_set (poke (replicate (n + 1) 0xAA) 0 t) (length t) 0 = Inr (poke (replicate (n + 1) 0xAA) 0 (t @ [0]))"
    using mem_set_poke_poke[of 0 t "replicate (n + 1) 0xAA" 0] len by simp
  then have "flecs_to_snake_case (s @ 0 # rest) = Inr (t @ 0 # drop (length t + 1) (replicate (n + 1) 0xAA))" if "n + 1 < 2 ^ 31"
    using cnt wr assms(1) that by (simp add: flecs_to_snake_case_def n_def) (simp add: poke_def)
  moreover have "flecs_to_snake_case (s @ 0 # rest) = Inl INT_RANGE" if "\<not> n + 1 < 2 ^ 31"
    using cnt assms(1) that by (simp add: flecs_to_snake_case_def n_def)
  ultimately show ?thesis
    using snake_lower[of _ True 0 s] snake_letters[of True 0 s] unfolding n_def[symmetric]
    by (cases "n + 1 < 2 ^ 31") (auto simp: t_def)
qed

text \<open>MyName\<close>

theorem snake_case_fits_witness:
  "\<exists>t pad. flecs_to_snake_case ([77, 121, 78, 97, 109, 101] @ 0 # []) = Inr (t @ 0 # pad)
    \<and> (\<forall>c\<in>set t. \<not> isupper c)
    \<and> filter (\<lambda>c. c \<noteq> 95) t = filter (\<lambda>c. c \<noteq> 95) (map tolower [77, 121, 78, 97, 109, 101])"
  using snake_case_fits[of "[77, 121, 78, 97, 109, 101]" "[]"] by (simp add: isupper_def)

text \<open>The empty string: the loop that counts starts behind the terminator.\<close>

lemma snake_case_empty: "flecs_to_snake_case [0] = Inl MEMORY_FAULT"
  by (simp add: flecs_to_snake_case_def)

end
