(* ===== verification/Json.thy ===== *)
theory Json
  imports Ecs_Strings
begin

text \<open>
  The JSON tokenizer and the string writer of addons/json/json.c. A pointer into the JSON text is
  the rest of the block; None is the null pointer. The token buffer is the list of its 256 bytes.
  A string buffer is what has been appended to it. The messages that ecs\_parser\_error logs are
  left out; what the functions return after them is modelled.
\<close>

section \<open>Tokens\<close>

datatype ecs_json_token =
    JsonObjectOpen | JsonObjectClose | JsonArrayOpen | JsonArrayClose | JsonColon | JsonComma
  | JsonNumber | JsonString | JsonBoolean | JsonTrue | JsonFalse | JsonNull
  | JsonLargeInt | JsonLargeString | JsonInvalid

abbreviation ECS_MAX_TOKEN_SIZE :: nat where "ECS_MAX_TOKEN_SIZE \<equiv> 256"

text \<open>The loop over the characters of a string, from the position in the token buffer.\<close>

function json_string_loop ::
    "u8 list \<Rightarrow> u8 list \<Rightarrow> u8 list \<Rightarrow> nat \<Rightarrow> (u8 list option \<times> ecs_json_token \<times> u8 list) res" where
  "json_string_loop start json token token_ptr =
     res_bind (peek json) (\<lambda>ch.
     if ch = 0 then Inr (None, JsonInvalid, token)
     else if token_ptr \<ge> ECS_MAX_TOKEN_SIZE then Inr (Some start, JsonLargeString, token)
     else if ch = 34 then
       res_bind (mem_set token token_ptr 0) (\<lambda>token. Inr (Some (tl json), JsonString, token))
     else
       res_bind (flecs_chrparse json) (\<lambda>r.
       case r of
         None \<Rightarrow> Inr (None, JsonInvalid, token)
       | Some (json, c) \<Rightarrow>
           res_bind (mem_set token token_ptr c) (\<lambda>token.
           json_string_loop start json token (token_ptr + 1))))"
  by pat_completeness auto
termination
  by (relation "measure (\<lambda>(start, json, token, token_ptr). length json)") (auto dest: chrparse_shorter)

declare json_string_loop.simps [simp del]

text \<open>Whether the text starts with a word (ecs\_os\_strncmp), and strchr.\<close>

fun starts_with :: "u8 list \<Rightarrow> u8 list \<Rightarrow> bool res" where
  "starts_with s [] = Inr True"
| "starts_with s (b # bs) = res_bind (peek s) (\<lambda>c. if c \<noteq> b then Inr False else starts_with (tl s) bs)"

fun strchr :: "u8 list \<Rightarrow> u8 \<Rightarrow> bool res" where
  "strchr [] ch = Inl MEMORY_FAULT"
| "strchr (c # s) ch = (if c = ch then Inr True else if c = 0 then Inr False else strchr s ch)"

definition str_null :: "u8 list" where "str_null = [110, 117, 108, 108]"
definition str_true :: "u8 list" where "str_true = [116, 114, 117, 101]"
definition str_false :: "u8 list" where "str_false = [102, 97, 108, 115, 101]"

text \<open>A word: the kind it has and the text behind it.\<close>

definition json_word :: "u8 list \<Rightarrow> ecs_json_token \<Rightarrow> (u8 list \<times> ecs_json_token) res" where
  "json_word json kind =
     res_bind (starts_with json str_null) (\<lambda>is_null.
     if is_null then Inr (drop 4 json, JsonNull)
     else res_bind (starts_with json str_true) (\<lambda>is_true.
     if is_true then Inr (drop 4 json, JsonTrue)
     else res_bind (starts_with json str_false) (\<lambda>is_false.
     if is_false then Inr (drop 5 json, JsonFalse)
     else Inr (json, kind))))"

definition flecs_json_parse ::
    "u8 list \<Rightarrow> ecs_json_token \<Rightarrow> u8 list \<Rightarrow> (u8 list option \<times> ecs_json_token \<times> u8 list) res" where
  "flecs_json_parse json kind token =
     res_bind (flecs_parse_ws_eol json) (\<lambda>json.
     res_bind (peek json) (\<lambda>ch.
     if ch = 123 then Inr (Some (tl json), JsonObjectOpen, token)
     else if ch = 125 then Inr (Some (tl json), JsonObjectClose, token)
     else if ch = 91 then Inr (Some (tl json), JsonArrayOpen, token)
     else if ch = 93 then Inr (Some (tl json), JsonArrayClose, token)
     else if ch = 58 then Inr (Some (tl json), JsonColon, token)
     else if ch = 44 then Inr (Some (tl json), JsonComma, token)
     else if ch = 34 then json_string_loop json (tl json) token 0
     else if isdigit ch \<or> ch = 45 then
       res_bind (flecs_parse_digit json token ECS_MAX_TOKEN_SIZE) (\<lambda>r.
       case r of
         None \<Rightarrow> Inr (None, JsonInvalid, token)
       | Some (result, token) \<Rightarrow>
           if length json - length result > 15 then
             res_bind (strchr token 46) (\<lambda>dot.
             Inr (Some result, if dot then JsonNumber else JsonLargeInt, token))
           else Inr (Some result, JsonNumber, token))
     else if isalpha ch then
       res_bind (json_word json kind) (\<lambda>(json, kind).
       res_bind (peek json) (\<lambda>c.
       if isalpha c \<or> isdigit c then Inr (None, JsonInvalid, token)
       else Inr (Some json, kind, token)))
     else Inr (None, JsonInvalid, token)))"

section \<open>Strings that do not fit a token\<close>

function json_large_loop :: "u8 list \<Rightarrow> u8 list \<Rightarrow> (u8 list option \<times> u8 list) res" where
  "json_large_loop json buf =
     res_bind (peek json) (\<lambda>ch.
     if ch = 0 then Inr (None, buf)
     else if ch = 34 then Inr (Some (tl json), buf)
     else
       res_bind (flecs_chrparse json) (\<lambda>r.
       case r of
         None \<Rightarrow> Inr (None, buf)
       | Some (json, ch_out) \<Rightarrow> json_large_loop json (buf @ [ch_out])))"
  by pat_completeness auto
termination
  by (relation "measure (\<lambda>(json, buf). length json)") (auto dest: chrparse_shorter)

declare json_large_loop.simps [simp del]

definition flecs_json_parse_large_string :: "u8 list \<Rightarrow> u8 list \<Rightarrow> (u8 list option \<times> u8 list) res" where
  "flecs_json_parse_large_string json buf =
     res_bind (peek json) (\<lambda>c.
     if c \<noteq> 34 then Inr (None, buf) else json_large_loop (tl json) buf)"

text \<open>Skipping reads the characters and drops them.\<close>

definition flecs_json_skip_string :: "u8 list \<Rightarrow> u8 list option res" where
  "flecs_json_skip_string json =
     res_bind (peek json) (\<lambda>c.
     if c \<noteq> 34 then Inr None else res_bind (json_large_loop (tl json) []) (\<lambda>(r, _). Inr r))"

section \<open>Expected tokens\<close>

definition flecs_json_parse_next_member ::
    "u8 list \<Rightarrow> u8 list \<Rightarrow> ecs_json_token \<Rightarrow> (u8 list option \<times> ecs_json_token \<times> u8 list) res" where
  "flecs_json_parse_next_member json token kind =
     res_bind (flecs_json_parse json kind token) (\<lambda>(json, kind, token).
     if kind = JsonObjectClose then Inr (json, kind, token)
     else if kind \<noteq> JsonComma then Inr (None, kind, token)
     else
       res_bind (deref json) (\<lambda>json.
       res_bind (flecs_json_parse json kind token) (\<lambda>(json, kind, token).
       if kind \<noteq> JsonString then Inr (None, kind, token)
       else
         res_bind (deref json) (\<lambda>json.
         res_bind (flecs_json_parse json JsonObjectOpen (replicate ECS_MAX_TOKEN_SIZE 0xAA)) (\<lambda>(json, temp_kind, _).
         if temp_kind \<noteq> JsonColon then Inr (None, kind, token)
         else Inr (json, kind, token))))))"

definition flecs_json_expect :: "u8 list \<Rightarrow> ecs_json_token \<Rightarrow> u8 list \<Rightarrow> (u8 list option \<times> u8 list) res" where
  "flecs_json_expect json token_kind token =
     ecs_assert (token_kind \<noteq> JsonString) ECS_INTERNAL_ERROR
     (res_bind (flecs_json_parse json JsonObjectOpen token) (\<lambda>(lah, kind, token).
      if kind = JsonInvalid then Inr (None, token)
      else if kind \<noteq> token_kind \<and> \<not> (token_kind = JsonBoolean \<and> (kind = JsonTrue \<or> kind = JsonFalse)) then
        Inr (None, token)
      else Inr (lah, token)))"

text \<open>The string is in the token buffer (None) or, when it does not fit, a block of its own.\<close>

definition flecs_json_expect_string :: "u8 list \<Rightarrow> u8 list \<Rightarrow> (u8 list option \<times> u8 list \<times> u8 list option) res" where
  "flecs_json_expect_string json token =
     res_bind (flecs_json_parse json JsonObjectOpen token) (\<lambda>(json, kind, token).
     if kind = JsonInvalid then Inr (None, token, None)
     else if kind \<noteq> JsonString \<and> kind \<noteq> JsonLargeString then Inr (None, token, None)
     else if kind = JsonLargeString then
       res_bind (deref json) (\<lambda>json.
       res_bind (flecs_json_parse_large_string json []) (\<lambda>(json, large).
       if json = None then Inr (None, token, None) else Inr (json, token, Some large)))
     else Inr (json, token, None))"

definition flecs_json_expect_member :: "u8 list \<Rightarrow> u8 list \<Rightarrow> (u8 list option \<times> u8 list) res" where
  "flecs_json_expect_member json token =
     res_bind (flecs_json_expect_string json token) (\<lambda>(json, token, out).
     case json of
       None \<Rightarrow> Inr (None, token)
     | Some json \<Rightarrow> flecs_json_expect json JsonColon token)"

fun strcmp_equal :: "u8 list \<Rightarrow> u8 list \<Rightarrow> bool res" where
  "strcmp_equal (a # as) (b # bs) =
     (if a \<noteq> b then Inr False else if a = 0 then Inr True else strcmp_equal as bs)"
| "strcmp_equal _ _ = Inl MEMORY_FAULT"

definition flecs_json_expect_member_name :: "u8 list \<Rightarrow> u8 list \<Rightarrow> u8 list \<Rightarrow> (u8 list option \<times> u8 list) res" where
  "flecs_json_expect_member_name json token member_name =
     res_bind (flecs_json_expect_member json token) (\<lambda>(json, token).
     if json = None then Inr (None, token)
     else
       res_bind (strcmp_equal token member_name) (\<lambda>same.
       Inr (if same then json else None, token)))"

section \<open>Skipping a scope\<close>

text \<open>
  The loop of flecs\_json\_skip\_scope, which calls the function again for a scope inside of the
  scope. The fuel bounds loop turns and calls together.
\<close>

fun skip_scope :: "nat \<Rightarrow> u8 list \<Rightarrow> ecs_json_token \<Rightarrow> u8 list \<Rightarrow> ecs_json_token \<Rightarrow> (u8 list option \<times> u8 list) res" where
  "skip_scope 0 json kind token close = Inl OUT_OF_FUEL"
| "skip_scope (Suc fuel) json kind token close =
     res_bind (flecs_json_parse json kind token) (\<lambda>(json, kind, token).
     case json of
       None \<Rightarrow> Inr (None, token)
     | Some json \<Rightarrow>
         let continue = (\<lambda>(json, token).
               case json of
                 None \<Rightarrow> Inl ECS_INTERNAL_ERROR
               | Some json \<Rightarrow> skip_scope fuel json kind token close)
         in
         if kind = JsonObjectOpen then
           res_bind (skip_scope fuel json JsonObjectOpen token JsonObjectClose) continue
         else if kind = JsonArrayOpen then
           res_bind (skip_scope fuel json JsonObjectOpen token JsonArrayClose) continue
         else if kind = JsonLargeString then
           res_bind (flecs_json_skip_string json) (\<lambda>json. continue (json, token))
         else if kind = close then Inr (Some json, token)
         else if kind = JsonObjectClose \<or> kind = JsonArrayClose then Inr (None, token)
         else continue (Some json, token))"

definition flecs_json_skip_scope :: "u8 list \<Rightarrow> u8 list \<Rightarrow> ecs_json_token \<Rightarrow> (u8 list option \<times> u8 list) res" where
  "flecs_json_skip_scope json token close_kind = skip_scope (length json + 1) json JsonObjectOpen token close_kind"

definition flecs_json_skip_object :: "u8 list \<Rightarrow> u8 list \<Rightarrow> (u8 list option \<times> u8 list) res" where
  "flecs_json_skip_object json token = flecs_json_skip_scope json token JsonObjectClose"

section \<open>Writing strings\<close>

fun c_strlen :: "u8 list \<Rightarrow> nat res" where
  "c_strlen [] = Inl MEMORY_FAULT"
| "c_strlen (c # s) = (if c = 0 then Inr 0 else res_bind (c_strlen s) (\<lambda>n. Inr (n + 1)))"

definition flecs_json_string_escape :: "u8 list \<Rightarrow> u8 list option \<Rightarrow> u8 list res" where
  "flecs_json_string_escape buf value =
     (case value of
        None \<Rightarrow> Inr (buf @ str_null)
      | Some value \<Rightarrow>
          res_bind (flecs_stresc None 0 0 34 value) (\<lambda>(_, len).
          res_bind (c_strlen value) (\<lambda>n.
          if len = n then Inr (buf @ [34] @ take len value @ [34])
          else
            res_bind (flecs_stresc (Some (replicate (len + 3) 0xAA)) 1 len 34 value) (\<lambda>(out, _).
            res_bind (deref out) (\<lambda>out.
            res_bind (mem_set out 0 34) (\<lambda>out.
            res_bind (mem_set out (len + 1) 34) (\<lambda>out.
            res_bind (mem_set out (len + 2) 0) (\<lambda>out.
            res_bind (c_strlen out) (\<lambda>n. Inr (buf @ take n out))))))))))"

text \<open>The writer that escapes every control character, for readers other than the one above.\<close>

definition hex_digit :: "nat \<Rightarrow> u8" where
  "hex_digit n = (if n < 10 then 48 + of_nat n else 87 + of_nat n)"

definition escape_ctrl :: "u8 \<Rightarrow> u8 list" where
  "escape_ctrl ch =
     (if ch = 34 then [92, 34] else if ch = 92 then [92, 92] else if ch = 8 then [92, 98]
      else if ch = 12 then [92, 102] else if ch = 10 then [92, 110] else if ch = 13 then [92, 114]
      else if ch = 9 then [92, 116]
      else if ch < 32 then [92, 117, 48, 48, hex_digit (unat ch div 16), hex_digit (unat ch mod 16)]
      else [ch])"

fun escape_ctrl_loop :: "u8 list \<Rightarrow> u8 list \<Rightarrow> u8 list res" where
  "escape_ctrl_loop [] buf = Inl MEMORY_FAULT"
| "escape_ctrl_loop (ch # ptr) buf = (if ch = 0 then Inr buf else escape_ctrl_loop ptr (buf @ escape_ctrl ch))"

definition flecs_json_string_escape_ctrl :: "u8 list \<Rightarrow> u8 list option \<Rightarrow> u8 list res" where
  "flecs_json_string_escape_ctrl buf value =
     (case value of
        None \<Rightarrow> Inr (buf @ str_null)
      | Some value \<Rightarrow> res_bind (escape_ctrl_loop value (buf @ [34])) (\<lambda>buf. Inr (buf @ [34])))"

section \<open>Reading back what was written\<close>

lemma escaped_quote:
  assumes "c \<noteq> 0"
  obtains x xs where "escaped 34 c = x # xs" "x \<noteq> 0" "x \<noteq> 34"
proof (cases "escape_letter c")
  case (Some l)
  then show thesis using that by (simp add: escaped_def)
next
  case None
  then show thesis using assms that by (cases "c = 27"; cases "c = 34") (simp_all add: escaped_def)
qed

lemma chrparse_quote: "c \<noteq> 27 \<Longrightarrow> flecs_chrparse (escaped 34 c @ rest) = Inr (Some (rest, c))"
  by (rule chrparse_escaped) (simp_all add: unescape_letter_def)

lemma json_string_loop_fits:
  assumes "0 \<notin> set s" and "27 \<notin> set s" and "p + length s < 256" and "length token = 256"
  shows "json_string_loop start (escaped_string 34 s @ 34 # rest) token p = Inr (Some rest, JsonString, poke token p (s @ [0]))"
  using assms
proof (induction s arbitrary: p token)
  case Nil
  then have "mem_set token p 0 = Inr (poke token p [0])" by (intro mem_set_poke) simp
  then show ?case using Nil by (simp add: json_string_loop.simps[of start "34 # rest"])
next
  case (Cons c s)
  then have c: "c \<noteq> 0" "c \<noteq> 27" by auto
  obtain x xs where x: "escaped 34 c = x # xs" "x \<noteq> 0" "x \<noteq> 34" by (rule escaped_quote[OF c(1)])
  have set: "mem_set token p c = Inr (poke token p [c])" using Cons.prems by (intro mem_set_poke) simp
  have "poke (poke token p [c]) (p + 1) (s @ [0]) = poke token p (c # s @ [0])"
    using poke_poke[of p "[c]" token "s @ [0]"] Cons.prems by simp
  then show ?case
    using Cons.IH[of "p + 1" "poke token p [c]"] Cons.prems c(2) x set chrparse_quote[OF c(2), of "escaped_string 34 s @ 34 # rest"]
    by (subst json_string_loop.simps) (simp add: x(1))
qed

lemma json_string_loop_large:
  assumes "0 \<notin> set s" and "27 \<notin> set s" and "256 \<le> p + length s" and "p \<le> 256" and "length token = 256"
  shows "json_string_loop start (escaped_string 34 s @ 34 # rest) token p
    = Inr (Some start, JsonLargeString, poke token p (take (256 - p) s))"
  using assms
proof (induction s arbitrary: p token)
  case Nil
  then show ?case by (simp add: json_string_loop.simps[of start "34 # rest"])
next
  case (Cons c s)
  then have c: "c \<noteq> 0" "c \<noteq> 27" by auto
  obtain x xs where x: "escaped 34 c = x # xs" "x \<noteq> 0" "x \<noteq> 34" by (rule escaped_quote[OF c(1)])
  show ?case
  proof (cases "p = 256")
    case True
    then show ?thesis using x by (subst json_string_loop.simps) simp
  next
    case False
    then have p: "p < 256" using Cons.prems(4) by simp
    have set: "mem_set token p c = Inr (poke token p [c])" using p Cons.prems by (intro mem_set_poke) simp
    have "poke (poke token p [c]) (p + 1) ys = poke token p (c # ys)" for ys
      using poke_poke[of p "[c]" token ys] p Cons.prems by simp
    moreover have "256 - p = Suc (256 - (p + 1))" using p by simp
    then have "take (256 - p) (c # s) = c # take (256 - (p + 1)) s" by (simp only: take_Suc_Cons)
    ultimately show ?thesis
      using Cons.IH[of "p + 1" "poke token p [c]"] Cons.prems p x set chrparse_quote[OF c(2), of "escaped_string 34 s @ 34 # rest"]
      by (subst json_string_loop.simps) (simp add: x(1))
  qed
qed

lemma json_large_loop_escaped:
  "0 \<notin> set s \<Longrightarrow> 27 \<notin> set s \<Longrightarrow> json_large_loop (escaped_string 34 s @ 34 # rest) buf = Inr (Some rest, buf @ s)"
proof (induction s arbitrary: buf)
  case Nil
  then show ?case by (simp add: json_large_loop.simps[of "34 # rest"])
next
  case (Cons c s)
  then have c: "c \<noteq> 0" "c \<noteq> 27" by auto
  obtain x xs where x: "escaped 34 c = x # xs" "x \<noteq> 0" "x \<noteq> 34" by (rule escaped_quote[OF c(1)])
  show ?case
    using Cons x chrparse_quote[OF c(2), of "escaped_string 34 s @ 34 # rest"]
    by (subst json_large_loop.simps) (simp add: x(1))
qed

lemma c_strlen_eq: "0 \<notin> set s \<Longrightarrow> c_strlen (s @ 0 # rest) = Inr (length s)"
  by (induction s) auto

lemma escaped_length: "1 \<le> length (escaped d c)"
  by (cases "escape_letter c") (auto simp: escaped_def)

lemma escaped_string_length: "length s \<le> length (escaped_string d s)"
proof (induction s)
  case (Cons c s)
  then show ?case using escaped_length[of d c] by simp
qed simp

lemma escaped_string_same:
  "length (escaped_string d s) = length s \<Longrightarrow> 27 \<notin> set s \<Longrightarrow> escaped_string d s = s"
proof (induction s)
  case (Cons c s)
  have "length (escaped d c) = 1" "length (escaped_string d s) = length s"
    using Cons.prems(1) escaped_length[of d c] escaped_string_length[of s d] by simp_all
  moreover have "escaped d c = [c]" if "length (escaped d c) = 1"
    using that Cons.prems(2) by (cases "escape_letter c") (auto simp: escaped_def split: if_splits)
  ultimately show ?case using Cons by simp
qed simp

lemma escaped_nonzero: "c \<noteq> 0 \<Longrightarrow> 0 \<notin> set (escaped d c)"
proof (cases "escape_letter c")
  case (Some l)
  then show ?thesis using escape_letter_nonzero[OF Some] by (simp add: escaped_def)
qed (auto simp: escaped_def)

lemma escaped_string_nonzero: "0 \<notin> set s \<Longrightarrow> 0 \<notin> set (escaped_string d s)"
  by (induction s) (use escaped_nonzero in auto)

lemma replicate_plus_3: "replicate (n + 3) x = x # replicate n x @ [x, x]"
  by (induction n) (simp_all add: numeral_3_eq_3)

lemma json_string_escape:
  assumes s: "0 \<notin> set s" and esc: "27 \<notin> set s"
  shows "flecs_json_string_escape buf (Some (s @ 0 # rest)) = Inr (buf @ 34 # escaped_string 34 s @ [34])"
proof (cases "length (escaped_string 34 s) = length s")
  case True
  then show ?thesis
    using escaped_string_same[OF True esc] s by (simp add: flecs_json_string_escape_def flecs_stresc_size c_strlen_eq)
next
  case False
  let ?E = "escaped_string 34 s" let ?n = "length (escaped_string 34 s)"
  let ?out = "poke (replicate (?n + 3) 0xAA) 1 ?E"
  have r: "replicate (?n + 3) (0xAA :: u8) = 0xAA # replicate ?n 0xAA @ [0xAA, 0xAA]" by (rule replicate_plus_3)
  have out: "?out = 0xAA # ?E @ [0xAA, 0xAA]" unfolding r by (simp add: poke_def)
  have "flecs_stresc (Some (replicate (?n + 3) 0xAA)) 1 ?n 34 (s @ 0 # rest) = Inr (Some ?out, ?n)"
    using s by (intro flecs_stresc_write) simp_all
  moreover have "mem_set ?out 0 34 = Inr (34 # ?E @ [0xAA, 0xAA])" unfolding out by simp
  moreover have "mem_set (34 # ?E @ [0xAA, 0xAA]) (?n + 1) 34 = Inr (34 # ?E @ [34, 0xAA])" by (simp add: list_update_append)
  moreover have "mem_set (34 # ?E @ [34, 0xAA]) (?n + 2) 0 = Inr (34 # ?E @ [34, 0])" by (simp add: list_update_append)
  moreover have "c_strlen ((34 # ?E @ [34]) @ 0 # []) = Inr (?n + 2)"
    using escaped_string_nonzero[OF s, of 34] by (subst c_strlen_eq) simp_all
  ultimately show ?thesis
    using False s by (simp add: flecs_json_string_escape_def flecs_stresc_size c_strlen_eq deref_def del: mem_set_simps)
qed

text \<open>
  Claim C35: a string without the escape character (27) is read back as it was written: the reader
  of large strings gives the string and the text behind it, and the tokenizer gives it in the token
  buffer, terminated, when it has fewer than 256 characters, and otherwise asks for the reader of
  large strings at the same place.
\<close>

theorem json_string_roundtrip:
  assumes "0 \<notin> set s" and "27 \<notin> set s" and "length token = 256"
  shows "\<exists>out. flecs_json_string_escape [] (Some (s @ [0])) = Inr out
    \<and> flecs_json_parse_large_string (out @ rest) [] = Inr (Some rest, s)
    \<and> flecs_json_parse (out @ rest) kind token =
        (if length s < 256 then Inr (Some rest, JsonString, s @ 0 # drop (length s + 1) token)
         else Inr (Some (out @ rest), JsonLargeString, take 256 s))"
proof (intro exI conjI)
  show "flecs_json_string_escape [] (Some (s @ [0])) = Inr (34 # escaped_string 34 s @ [34])"
    using json_string_escape[OF assms(1,2), of "[]" "[]"] by simp
  show "flecs_json_parse_large_string ((34 # escaped_string 34 s @ [34]) @ rest) [] = Inr (Some rest, s)"
    using json_large_loop_escaped[OF assms(1,2), of rest "[]"] by (simp add: flecs_json_parse_large_string_def)
  show "flecs_json_parse ((34 # escaped_string 34 s @ [34]) @ rest) kind token =
        (if length s < 256 then Inr (Some rest, JsonString, s @ 0 # drop (length s + 1) token)
         else Inr (Some ((34 # escaped_string 34 s @ [34]) @ rest), JsonLargeString, take 256 s))"
    using json_string_loop_fits[OF assms(1,2) _ assms(3), of 0 "(34 # escaped_string 34 s @ [34]) @ rest" rest]
      json_string_loop_large[OF assms(1,2) _ _ assms(3), of 0 "(34 # escaped_string 34 s @ [34]) @ rest" rest] assms(3)
    by (simp add: flecs_json_parse_def isspace_def poke_def)
qed

text \<open>A string with a quote and a line break.\<close>

definition sample_string :: "u8 list" where "sample_string = [97, 34, 10]"

theorem json_string_roundtrip_witness:
  "\<exists>out. flecs_json_string_escape [] (Some (sample_string @ [0])) = Inr out
    \<and> flecs_json_parse_large_string (out @ [44]) [] = Inr (Some [44], sample_string)
    \<and> flecs_json_parse (out @ [44]) JsonNull (replicate 256 0) =
        (if length sample_string < 256
         then Inr (Some [44], JsonString, sample_string @ 0 # drop (length sample_string + 1) (replicate 256 0))
         else Inr (Some (out @ [44]), JsonLargeString, take 256 sample_string))"
  by (rule json_string_roundtrip) (simp_all add: sample_string_def)

text \<open>
  The escape character is written as an open bracket when another character of the string needs
  an escape sequence, and as it is otherwise.
\<close>

lemma json_escape_character:
  "flecs_json_string_escape [] (Some [27, 34, 0]) = Inr [34, 91, 92, 34, 34]"
  "flecs_json_string_escape [] (Some [27, 35, 0]) = Inr [34, 27, 35, 34]"
  by code_simp+

text \<open>
  The other writer, which serialises the strings of components, uses unicode escapes for the control
  characters without a letter; the reader does not know them.
\<close>

lemma json_unicode_escape_unreadable:
  assumes "c < 32" and "c \<notin> {0, 8, 9, 10, 12, 13}"
  shows "\<exists>out. flecs_json_string_escape_ctrl [] (Some [c, 0]) = Inr out \<and> flecs_json_parse_large_string (out @ rest) [] = Inr (None, [])"
proof -
  have "c \<noteq> 34" "c \<noteq> 92" using assms(1) by auto
  then have "flecs_json_string_escape_ctrl [] (Some [c, 0])
      = Inr ([34, 92, 117, 48, 48, hex_digit (unat c div 16), hex_digit (unat c mod 16)] @ [34])"
    using assms by (simp add: flecs_json_string_escape_ctrl_def escape_ctrl_def)
  then show ?thesis
    by (simp add: flecs_json_parse_large_string_def json_large_loop.simps[of "92 # _"] flecs_chrparse_def unescape_letter_def)
qed

section \<open>Any text\<close>

lemma chrparse_inside:
  assumes "0 \<notin> set s" and "s \<noteq> []"
  shows "\<exists>r. flecs_chrparse (s @ 0 # rest) = Inr r
    \<and> (\<forall>p c. r = Some (p, c) \<longrightarrow> (\<exists>u v. s = u @ v \<and> u \<noteq> [] \<and> p = v @ 0 # rest))"
proof -
  obtain c s1 where s: "s = c # s1" using assms(2) by (cases s) auto
  show ?thesis
  proof (cases "c = 92")
    case False
    then have "flecs_chrparse (s @ 0 # rest) = Inr (Some (s1 @ 0 # rest, c))" by (simp add: flecs_chrparse_def s)
    moreover have "\<exists>u v. s = u @ v \<and> u \<noteq> [] \<and> s1 @ 0 # rest = v @ 0 # rest"
      by (intro exI[of _ "[c]"] exI[of _ s1]) (simp add: s)
    ultimately show ?thesis by (intro exI[of _ "Some (s1 @ 0 # rest, c)"]) simp
  next
    case True
    show ?thesis
    proof (cases s1)
      case Nil
      then have "flecs_chrparse (s @ 0 # rest) = Inr None" using True by (simp add: flecs_chrparse_def s unescape_letter_def)
      then show ?thesis by (intro exI[of _ None]) simp
    next
      case (Cons e s2)
      have eq: "flecs_chrparse (s @ 0 # rest) = Inr (map_option (\<lambda>ch. (s2 @ 0 # rest, ch)) (unescape_letter e))"
        using True by (simp add: flecs_chrparse_def s Cons split: option.splits)
      have "\<exists>u v. s = u @ v \<and> u \<noteq> [] \<and> s2 @ 0 # rest = v @ 0 # rest"
        by (intro exI[of _ "[c, e]"] exI[of _ s2]) (simp add: s Cons)
      then show ?thesis using eq by (intro exI[of _ "map_option (\<lambda>ch. (s2 @ 0 # rest, ch)) (unescape_letter e)"]) auto
    qed
  qed
qed

text \<open>A pointer into the text before the terminator, and one that is further on.\<close>

definition inside :: "u8 list \<Rightarrow> u8 list \<Rightarrow> u8 list \<Rightarrow> bool" where
  "inside s rest p \<longleftrightarrow> (\<exists>u v. s = u @ v \<and> p = v @ 0 # rest)"

definition after :: "u8 list \<Rightarrow> u8 list \<Rightarrow> u8 list \<Rightarrow> bool" where
  "after s rest p \<longleftrightarrow> (\<exists>u v. s = u @ v \<and> u \<noteq> [] \<and> p = v @ 0 # rest)"

lemma after_inside: "after s rest p \<Longrightarrow> inside s rest p"
  by (auto simp: after_def inside_def)

lemma inside_refl: "inside s rest (s @ 0 # rest)"
  by (auto simp: inside_def)

lemma after_append: "u \<noteq> [] \<Longrightarrow> inside v rest p \<Longrightarrow> after (u @ v) rest p"
  by (auto simp: after_def inside_def)

lemma inside_append: "inside v rest p \<Longrightarrow> inside (u @ v) rest p"
  by (auto simp: inside_def)

lemma after_append_left: "after v rest p \<Longrightarrow> after (u @ v) rest p"
  by (auto simp: after_def)

lemma json_string_loop_inside:
  assumes "0 \<notin> set s" and "length token = 256" and "p \<le> 256"
  shows "\<exists>j k t. json_string_loop start (s @ 0 # rest) token p = Inr (j, k, t) \<and> length t = 256
    \<and> (k = JsonInvalid \<and> j = None \<or> k = JsonLargeString \<and> j = Some start
       \<or> k = JsonString \<and> 0 \<in> set t \<and> (\<exists>q. j = Some q \<and> after s rest q))"
  using assms
proof (induction "length s" arbitrary: s token p rule: less_induct)
  case less
  show ?case
  proof (cases s)
    case Nil
    then show ?thesis using less.prems by (subst json_string_loop.simps) simp
  next
    case (Cons c s1)
    then have c: "c \<noteq> 0" using less.prems by auto
    consider "256 \<le> p" | "p < 256" "c = 34" | "p < 256" "c \<noteq> 34" by linarith
    then show ?thesis
    proof cases
      case 1
      then show ?thesis using less.prems Cons c by (subst json_string_loop.simps) simp
    next
      case 2
      have "mem_set token p 0 = Inr (poke token p [0])" using 2 less.prems by (intro mem_set_poke) simp
      then have "json_string_loop start (s @ 0 # rest) token p = Inr (Some (s1 @ 0 # rest), JsonString, poke token p [0])"
        using 2 Cons c by (subst json_string_loop.simps) simp
      moreover have "0 \<in> set (poke token p [0])" by (simp add: poke_def)
      moreover have "after s rest (s1 @ 0 # rest)" by (auto simp: after_def Cons intro: exI[of _ "[c]"])
      ultimately show ?thesis using 2 less.prems by simp
    next
      case 3
      obtain r where r: "flecs_chrparse (s @ 0 # rest) = Inr r"
        "\<And>p c. r = Some (p, c) \<Longrightarrow> \<exists>u v. s = u @ v \<and> u \<noteq> [] \<and> p = v @ 0 # rest"
        using chrparse_inside[of s rest] less.prems Cons by auto
      show ?thesis
      proof (cases r)
        case None
        then show ?thesis using 3 r less.prems Cons c by (subst json_string_loop.simps) simp
      next
        case (Some a)
        obtain q ch where a: "a = (q, ch)" by (cases a)
        then obtain u v where uv: "s = u @ v" "u \<noteq> []" "q = v @ 0 # rest" using r(2) Some by blast
        have set: "mem_set token p ch = Inr (poke token p [ch])" using 3 less.prems by (intro mem_set_poke) simp
        have eq: "json_string_loop start (s @ 0 # rest) token p = json_string_loop start (v @ 0 # rest) (poke token p [ch]) (p + 1)"
          using 3 r(1) Some a uv(3) set Cons c by (subst json_string_loop.simps) simp
        have "length v < length s" using uv by simp
        moreover have "0 \<notin> set v" using uv(1) less.prems(1) by simp
        ultimately have "\<exists>j k t. json_string_loop start (v @ 0 # rest) (poke token p [ch]) (p + 1) = Inr (j, k, t) \<and> length t = 256
            \<and> (k = JsonInvalid \<and> j = None \<or> k = JsonLargeString \<and> j = Some start
               \<or> k = JsonString \<and> 0 \<in> set t \<and> (\<exists>q. j = Some q \<and> after v rest q))"
          using less.prems 3 by (intro less.hyps) simp_all
        moreover have "after s rest q" if "after v rest q" for q using after_append_left[OF that, of u] uv(1) by simp
        ultimately show ?thesis unfolding eq by blast
      qed
    qed
  qed
qed

lemma json_large_loop_inside:
  assumes "0 \<notin> set s"
  shows "\<exists>j b. json_large_loop (s @ 0 # rest) buf = Inr (j, b) \<and> (\<forall>q. j = Some q \<longrightarrow> after s rest q)"
  using assms
proof (induction "length s" arbitrary: s buf rule: less_induct)
  case less
  show ?case
  proof (cases s)
    case Nil
    then show ?thesis by (subst json_large_loop.simps) simp
  next
    case (Cons c s1)
    then have c: "c \<noteq> 0" using less.prems by auto
    show ?thesis
    proof (cases "c = 34")
      case True
      have "after s rest (s1 @ 0 # rest)" by (auto simp: after_def Cons intro: exI[of _ "[c]"])
      then show ?thesis using True Cons c by (subst json_large_loop.simps) simp
    next
      case False
      obtain r where r: "flecs_chrparse (s @ 0 # rest) = Inr r"
        "\<And>p c. r = Some (p, c) \<Longrightarrow> \<exists>u v. s = u @ v \<and> u \<noteq> [] \<and> p = v @ 0 # rest"
        using chrparse_inside[of s rest] less.prems Cons by auto
      show ?thesis
      proof (cases r)
        case None
        then show ?thesis using False r Cons c by (subst json_large_loop.simps) simp
      next
        case (Some a)
        obtain q ch where a: "a = (q, ch)" by (cases a)
        then obtain u v where uv: "s = u @ v" "u \<noteq> []" "q = v @ 0 # rest" using r(2) Some by blast
        have eq: "json_large_loop (s @ 0 # rest) buf = json_large_loop (v @ 0 # rest) (buf @ [ch])"
          using False r(1) Some a uv(3) Cons c by (subst json_large_loop.simps) simp
        have "length v < length s" using uv by simp
        moreover have "0 \<notin> set v" using uv(1) less.prems by simp
        ultimately have "\<exists>j b. json_large_loop (v @ 0 # rest) (buf @ [ch]) = Inr (j, b) \<and> (\<forall>q. j = Some q \<longrightarrow> after v rest q)"
          by (rule less.hyps)
        moreover have "after s rest q" if "after v rest q" for q using after_append_left[OF that, of u] uv(1) by simp
        ultimately show ?thesis unfolding eq by blast
      qed
    qed
  qed
qed

lemma starts_with_inside:
  assumes "0 \<notin> set w"
  shows "\<exists>b. starts_with (s @ 0 # rest) w = Inr b \<and> (b \<longrightarrow> (\<exists>v. s = w @ v))"
  using assms
proof (induction w arbitrary: s)
  case (Cons a w)
  show ?case
  proof (cases s)
    case Nil
    then show ?thesis using Cons.prems by (intro exI[of _ False]) auto
  next
    case (Cons c s1)
    then show ?thesis using Cons.IH[of s1] Cons.prems by (cases "c = a") (auto intro: exI[of _ False])
  qed
qed (simp add: exI[of _ True])

lemma json_word_inside:
  assumes "0 \<notin> set s"
  shows "\<exists>v k. json_word (s @ 0 # rest) kind = Inr (v @ 0 # rest, k)
    \<and> ((\<exists>u. s = u @ v \<and> u \<noteq> []) \<and> k \<in> {JsonNull, JsonTrue, JsonFalse} \<or> v = s \<and> k = kind)"
proof -
  obtain b1 b2 b3 where b: "starts_with (s @ 0 # rest) str_null = Inr b1" "b1 \<Longrightarrow> \<exists>v. s = str_null @ v"
    "starts_with (s @ 0 # rest) str_true = Inr b2" "b2 \<Longrightarrow> \<exists>v. s = str_true @ v"
    "starts_with (s @ 0 # rest) str_false = Inr b3" "b3 \<Longrightarrow> \<exists>v. s = str_false @ v"
    using starts_with_inside[of str_null s rest] starts_with_inside[of str_true s rest] starts_with_inside[of str_false s rest]
    by (auto simp: str_null_def str_true_def str_false_def)
  show ?thesis
  proof (cases "b1 \<or> b2 \<or> b3")
    case True
    then consider "b1" | "\<not> b1" "b2" | "\<not> b1" "\<not> b2" "b3" by blast
    then show ?thesis
    proof cases
      case 1
      then obtain v where "s = str_null @ v" using b(2) by blast
      then show ?thesis using 1 b(1) by (intro exI[of _ v] exI[of _ JsonNull]) (simp add: json_word_def str_null_def)
    next
      case 2
      then obtain v where "s = str_true @ v" using b(4) by blast
      then show ?thesis using 2 b(1,3) by (intro exI[of _ v] exI[of _ JsonTrue]) (simp add: json_word_def str_true_def)
    next
      case 3
      then obtain v where "s = str_false @ v" using b(6) by blast
      then show ?thesis using 3 b(1,3,5) by (intro exI[of _ v] exI[of _ JsonFalse]) (simp add: json_word_def str_false_def)
    qed
  next
    case False
    then show ?thesis using b(1,3,5) by (intro exI[of _ s] exI[of _ kind]) (simp add: json_word_def)
  qed
qed

lemma strchr_terminated: "0 \<in> set s \<Longrightarrow> \<exists>b. strchr s ch = Inr b"
  by (induction s) auto

text \<open>What the tokenizer promises for a text that is terminated.\<close>

definition token_result ::
    "u8 list \<Rightarrow> u8 list \<Rightarrow> u8 list option \<Rightarrow> ecs_json_token \<Rightarrow> u8 list \<Rightarrow> bool" where
  "token_result s rest j k t \<longleftrightarrow> length t = 256
     \<and> (k = JsonInvalid \<and> j = None
        \<or> k = JsonLargeString \<and> (\<exists>q. j = Some q \<and> inside s rest q)
        \<or> k \<noteq> JsonInvalid \<and> k \<noteq> JsonLargeString \<and> (\<exists>q. j = Some q \<and> after s rest q))
     \<and> (k = JsonString \<longrightarrow> 0 \<in> set t)"

lemma token_result_append: "token_result v rest j k t \<Longrightarrow> token_result (u @ v) rest j k t"
  by (auto simp: token_result_def intro: after_append_left inside_append)

lemma token_after: "s = c # s1 \<Longrightarrow> after s rest (s1 @ 0 # rest)"
  by (auto simp: after_def intro: exI[of _ "[c]"])

lemma json_parse_word:
  assumes "0 \<notin> set s" and "s = c # s1" and "isalpha c" and "length token = 256"
  shows "\<exists>j k t. res_bind (json_word (s @ 0 # rest) kind) (\<lambda>(json, kind).
       res_bind (peek json) (\<lambda>c.
       if isalpha c \<or> isdigit c then Inr (None, JsonInvalid, token)
       else Inr (Some json, kind, token))) = Inr (j, k, t) \<and> token_result s rest j k t"
proof -
  obtain v k where w: "json_word (s @ 0 # rest) kind = Inr (v @ 0 # rest, k)"
    "(\<exists>u. s = u @ v \<and> u \<noteq> []) \<and> k \<in> {JsonNull, JsonTrue, JsonFalse} \<or> v = s \<and> k = kind"
    using json_word_inside[OF assms(1)] by blast
  obtain d where d: "peek (v @ 0 # rest) = Inr d" by (cases v) auto
  show ?thesis
  proof (cases "isalpha d \<or> isdigit d")
    case True
    then show ?thesis using assms(4)
      by (intro exI[of _ None] exI[of _ JsonInvalid] exI[of _ token]) (simp add: w(1) d token_result_def)
  next
    case False
    then have "v \<noteq> s" using d assms(2,3) by auto
    then obtain u where "s = u @ v" "u \<noteq> []" "k \<in> {JsonNull, JsonTrue, JsonFalse}" using w(2) by blast
    then have "after s rest (v @ 0 # rest)" "k \<noteq> JsonInvalid" "k \<noteq> JsonLargeString" "k \<noteq> JsonString" by (auto simp: after_def)
    then have "token_result s rest (Some (v @ 0 # rest)) k token" using assms(4) by (simp add: token_result_def)
    then show ?thesis using False
      by (intro exI[of _ "Some (v @ 0 # rest)"] exI[of _ k] exI[of _ token]) (simp add: w(1) d)
  qed
qed

lemma json_parse_number:
  assumes "0 \<notin> set s" and "s \<noteq> []" and "length token = 256"
  shows "\<exists>j k t. res_bind (flecs_parse_digit (s @ 0 # rest) token 256) (\<lambda>r.
       case r of
         None \<Rightarrow> Inr (None, JsonInvalid, token)
       | Some (result, token) \<Rightarrow>
           if length (s @ 0 # rest) - length result > 15 then
             res_bind (strchr token 46) (\<lambda>dot.
             Inr (Some result, if dot then JsonNumber else JsonLargeInt, token))
           else Inr (Some result, JsonNumber, token)) = Inr (j, k, t) \<and> token_result s rest j k t"
proof -
  obtain r where r: "flecs_parse_digit (s @ 0 # rest) token 256 = Inr r"
    "case r of None \<Rightarrow> True | Some (ptr, tok) \<Rightarrow> \<exists>pre suf. s = pre @ suf \<and> pre \<noteq> [] \<and> ptr = suf @ 0 # rest \<and> length pre < 256
      \<and> tok = poke token 0 (pre @ [0])"
    using parse_digit[OF assms(1), of 256 token rest] assms(3) by auto
  show ?thesis
  proof (cases r)
    case None
    then show ?thesis using r(1) assms(3) by (simp add: token_result_def)
  next
    case (Some a)
    then obtain pre suf where a: "a = (suf @ 0 # rest, poke token 0 (pre @ [0]))" "s = pre @ suf" "pre \<noteq> []" "length pre < 256"
      using r(2) by (cases a) auto
    have "0 \<in> set (poke token 0 (pre @ [0]))" by (simp add: poke_def)
    then obtain b where b: "strchr (poke token 0 (pre @ [0])) 46 = Inr b" using strchr_terminated by blast
    have "after s rest (suf @ 0 # rest)" using a by (auto simp: after_def)
    moreover have "length (poke token 0 (pre @ [0])) = 256" using a assms(3) by simp
    ultimately show ?thesis
      using r(1) Some a(1) b by (cases "length (s @ 0 # rest) - length (suf @ 0 # rest) > 15") (simp_all add: token_result_def)
  qed
qed

lemma json_parse_inside:
  assumes "0 \<notin> set s" and "length token = 256"
  shows "\<exists>j k t. flecs_json_parse (s @ 0 # rest) kind token = Inr (j, k, t) \<and> token_result s rest j k t"
proof -
  define v where "v = dropWhile isspace s"
  have sv: "s = takeWhile isspace s @ v" by (simp add: v_def)
  have v: "0 \<notin> set v" using assms(1) sv by (metis Un_iff set_append)
  have ws: "flecs_parse_ws_eol (s @ 0 # rest) = Inr (v @ 0 # rest)" unfolding v_def by (rule parse_ws_eol[OF assms(1)])
  have "\<exists>j k t. flecs_json_parse (s @ 0 # rest) kind token = Inr (j, k, t) \<and> token_result v rest j k t"
  proof (cases v)
    case Nil
    then show ?thesis using ws assms(2)
      by (simp add: flecs_json_parse_def isdigit_def isalpha_def isupper_def islower_def token_result_def)
  next
    case (Cons c v1)
    have one: "token_result v rest (Some (v1 @ 0 # rest)) k token" if "k \<notin> {JsonInvalid, JsonLargeString, JsonString}" for k
      using that token_after[OF Cons, of rest] assms(2) by (simp add: token_result_def)
    consider (punct) "c \<in> {123, 125, 91, 93, 58, 44}" | (str) "c = 34"
      | (num) "c \<notin> {123, 125, 91, 93, 58, 44, 34}" "isdigit c \<or> c = 45"
      | (word) "c \<notin> {123, 125, 91, 93, 58, 44, 34, 45}" "\<not> isdigit c" "isalpha c"
      | (bad) "c \<notin> {123, 125, 91, 93, 58, 44, 34, 45}" "\<not> isdigit c" "\<not> isalpha c" by blast
    then show ?thesis
    proof cases
      case punct
      then show ?thesis using ws Cons one by (elim insertE) (simp_all add: flecs_json_parse_def)
    next
      case str
      obtain j k t where r: "json_string_loop (v @ 0 # rest) (v1 @ 0 # rest) token 0 = Inr (j, k, t)" "length t = 256"
        "k = JsonInvalid \<and> j = None \<or> k = JsonLargeString \<and> j = Some (v @ 0 # rest)
         \<or> k = JsonString \<and> 0 \<in> set t \<and> (\<exists>q. j = Some q \<and> after v1 rest q)"
        using json_string_loop_inside[of v1 token 0 "v @ 0 # rest" rest] v Cons assms(2) by auto
      have "token_result v rest j k t"
        using r(2,3) inside_refl[of v rest] after_append_left[of v1 rest _ "[c]"] Cons unfolding token_result_def by auto
      then show ?thesis using r(1) ws Cons str by (simp add: flecs_json_parse_def)
    next
      case num
      then show ?thesis
        using json_parse_number[OF v _ assms(2), of rest] ws Cons by (simp add: flecs_json_parse_def)
    next
      case word
      then show ?thesis
        using json_parse_word[OF v Cons word(3) assms(2), of rest kind] ws Cons by (simp add: flecs_json_parse_def)
    next
      case bad
      then show ?thesis using ws Cons assms(2) by (simp add: flecs_json_parse_def token_result_def)
    qed
  qed
  then show ?thesis using token_result_append[of v rest _ _ _ "takeWhile isspace s"] sv by metis
qed

text \<open>
  Claim C36: on any terminated text and with a token buffer of 256 bytes the tokenizer returns: it reads
  nothing behind the terminator and writes nothing outside of the buffer, whatever the text is. It
  returns null exactly for an invalid token and otherwise a pointer into the text, further on than
  before unless a string is too large for the buffer, and a string token is terminated.
\<close>

theorem json_parse_safe:
  assumes "0 \<notin> set s" and "length token = 256"
  shows "\<exists>j k t. flecs_json_parse (s @ 0 # rest) kind token = Inr (j, k, t) \<and> length t = 256
    \<and> (j = None \<longleftrightarrow> k = JsonInvalid) \<and> (k = JsonString \<longrightarrow> 0 \<in> set t)
    \<and> (\<forall>q. j = Some q \<longrightarrow> (\<exists>u v. s = u @ v \<and> q = v @ 0 # rest \<and> (u = [] \<longrightarrow> k = JsonLargeString)))"
proof -
  obtain j k t where r: "flecs_json_parse (s @ 0 # rest) kind token = Inr (j, k, t)" "token_result s rest j k t"
    using json_parse_inside[OF assms, of rest kind] by blast
  from r(2) have "length t = 256" "j = None \<longleftrightarrow> k = JsonInvalid" "k = JsonString \<longrightarrow> 0 \<in> set t"
    by (auto simp: token_result_def)
  moreover from r(2) have "\<forall>q. j = Some q \<longrightarrow> (\<exists>u v. s = u @ v \<and> q = v @ 0 # rest \<and> (u = [] \<longrightarrow> k = JsonLargeString))"
    unfolding token_result_def after_def inside_def by blast
  ultimately show ?thesis using r(1) by blast
qed

text \<open>A string that is not closed.\<close>

theorem json_parse_safe_witness:
  "\<exists>j k t. flecs_json_parse ([34, 92, 34] @ 0 # [1]) JsonNull (replicate 256 0) = Inr (j, k, t) \<and> length t = 256
    \<and> (j = None \<longleftrightarrow> k = JsonInvalid) \<and> (k = JsonString \<longrightarrow> 0 \<in> set t)
    \<and> (\<forall>q. j = Some q \<longrightarrow> (\<exists>u v. [34, 92, 34] = u @ v \<and> q = v @ 0 # [1] \<and> (u = [] \<longrightarrow> k = JsonLargeString)))"
  by (rule json_parse_safe) simp_all

section \<open>Skipping\<close>

lemma json_skip_string_inside:
  assumes "0 \<notin> set s"
  shows "\<exists>j. flecs_json_skip_string (s @ 0 # rest) = Inr j \<and> (\<forall>q. j = Some q \<longrightarrow> after s rest q)"
proof (cases "s \<noteq> [] \<and> hd s = 34")
  case True
  then obtain s1 where s: "s = 34 # s1" by (cases s) auto
  obtain j b where "json_large_loop (s1 @ 0 # rest) [] = Inr (j, b)" "\<forall>q. j = Some q \<longrightarrow> after s1 rest q"
    using json_large_loop_inside[of s1 rest "[]"] assms s by auto
  then show ?thesis using after_append_left[of s1 rest _ "[34]"] by (simp add: s flecs_json_skip_string_def)
next
  case False
  then show ?thesis by (cases s) (simp_all add: flecs_json_skip_string_def)
qed

text \<open>Enough fuel is more than what is left of the text.\<close>

lemma skip_scope_ok:
  assumes "0 \<notin> set s" and "length token = 256" and "length s < fuel"
  shows "skip_scope fuel (s @ 0 # rest) kind token close = Inl ECS_INTERNAL_ERROR
    \<or> (\<exists>j t. skip_scope fuel (s @ 0 # rest) kind token close = Inr (j, t) \<and> length t = 256 \<and> (\<forall>q. j = Some q \<longrightarrow> after s rest q))"
  using assms
proof (induction fuel arbitrary: s kind token close)
  case (Suc fuel)
  obtain j k t where p: "flecs_json_parse (s @ 0 # rest) kind token = Inr (j, k, t)" "token_result s rest j k t"
    using json_parse_inside[OF Suc.prems(1,2), of rest kind] by blast
  have len: "length t = 256" using p(2) by (simp add: token_result_def)
  show ?case
  proof (cases j)
    case None
    then show ?thesis using p(1) len by simp
  next
    case (Some q)
    then have q: "inside s rest q" "k \<noteq> JsonLargeString \<longrightarrow> after s rest q"
      using p(2) by (auto simp: token_result_def intro: after_inside)
    define continue where "continue = (\<lambda>(json, token).
               case json of
                 None \<Rightarrow> Inl ECS_INTERNAL_ERROR
               | Some json \<Rightarrow> skip_scope fuel json k token close)"
    define ok where "ok = (\<lambda>r :: (u8 list option \<times> u8 list) res. r = Inl ECS_INTERNAL_ERROR
      \<or> (\<exists>j t. r = Inr (j, t) \<and> length t = 256 \<and> (\<forall>q. j = Some q \<longrightarrow> after s rest q)))"
    have call: "skip_scope fuel q' kind' t' close' = Inl ECS_INTERNAL_ERROR
        \<or> (\<exists>j t. skip_scope fuel q' kind' t' close' = Inr (j, t) \<and> length t = 256 \<and> (\<forall>q. j = Some q \<longrightarrow> after s rest q))"
      if q': "after s rest q'" and t': "length t' = 256" for q' t' kind' close'
    proof -
      obtain u v where uv: "s = u @ v" "u \<noteq> []" "q' = v @ 0 # rest" using q' by (auto simp: after_def)
      have "skip_scope fuel q' kind' t' close' = Inl ECS_INTERNAL_ERROR
        \<or> (\<exists>j t. skip_scope fuel q' kind' t' close' = Inr (j, t) \<and> length t = 256 \<and> (\<forall>q. j = Some q \<longrightarrow> after v rest q))"
      proof -
        have "length v < length s" "0 \<notin> set v" using uv(1,2) Suc.prems(1) by simp_all
        then show ?thesis unfolding uv(3) using Suc.prems(3) t' by (intro Suc.IH) simp_all
      qed
      then show ?thesis using after_append_left[of v rest _ u] uv(1) by blast
    qed
    have cont: "ok (continue (j', t'))" if "length t' = 256" "\<forall>q. j' = Some q \<longrightarrow> after s rest q" for j' t'
      using call[of _ t' k close] that by (cases j') (auto simp: continue_def ok_def)
    have nested: "ok (res_bind (skip_scope fuel q JsonObjectOpen t close') continue)" if "k \<noteq> JsonLargeString" for close'
    proof -
      have "after s rest q" using q(2) that by simp
      from call[OF this len, of JsonObjectOpen close'] show ?thesis
      proof (elim disjE exE conjE)
        fix j' t'
        assume "skip_scope fuel q JsonObjectOpen t close' = Inr (j', t')" "length t' = 256" "\<forall>q. j' = Some q \<longrightarrow> after s rest q"
        then show ?thesis using cont[of t' j'] by simp
      qed (simp add: ok_def)
    qed
    have large: "ok (res_bind (flecs_json_skip_string q) (\<lambda>json. continue (json, t)))"
    proof -
      obtain u v where uv: "s = u @ v" "q = v @ 0 # rest" using q(1) by (auto simp: inside_def)
      have "0 \<notin> set v" using uv(1) Suc.prems(1) by simp
      then obtain j' where j': "flecs_json_skip_string q = Inr j'" "\<forall>q. j' = Some q \<longrightarrow> after v rest q"
        using json_skip_string_inside[of v rest] uv(2) by blast
      then have "\<forall>q. j' = Some q \<longrightarrow> after s rest q" using after_append_left[of v rest _ u] uv(1) by blast
      then show ?thesis using j'(1) cont[OF len] by simp
    qed
    have eq: "skip_scope (Suc fuel) (s @ 0 # rest) kind token close =
        (if k = JsonObjectOpen then res_bind (skip_scope fuel q JsonObjectOpen t JsonObjectClose) continue
         else if k = JsonArrayOpen then res_bind (skip_scope fuel q JsonObjectOpen t JsonArrayClose) continue
         else if k = JsonLargeString then res_bind (flecs_json_skip_string q) (\<lambda>json. continue (json, t))
         else if k = close then Inr (Some q, t)
         else if k = JsonObjectClose \<or> k = JsonArrayClose then Inr (None, t)
         else continue (Some q, t))"
      using p(1) Some by (simp add: continue_def[abs_def] Let_def)
    have "ok (skip_scope (Suc fuel) (s @ 0 # rest) kind token close)"
      unfolding eq using nested large cont[OF len, of "Some q"] q(2) len by (auto simp: ok_def)
    then show ?thesis by (simp add: ok_def)
  qed
qed simp

text \<open>
  Claim C37: skipping an object ends on every terminated text, however deep it is nested: the
  fuel is enough and nothing outside of the text is read. It returns null, or a pointer behind a
  part of the text, or stops at the assertion on a malformed scope inside of the object.
\<close>

theorem json_skip_object_ends:
  assumes "0 \<notin> set s" and "length token = 256"
  shows "flecs_json_skip_object (s @ 0 # rest) token = Inl ECS_INTERNAL_ERROR
    \<or> (\<exists>j t. flecs_json_skip_object (s @ 0 # rest) token = Inr (j, t)
        \<and> (\<forall>q. j = Some q \<longrightarrow> (\<exists>u v. s = u @ v \<and> u \<noteq> [] \<and> q = v @ 0 # rest)))"
  using skip_scope_ok[OF assms, of "length (s @ 0 # rest) + 1" rest JsonObjectOpen JsonObjectClose]
  unfolding flecs_json_skip_object_def flecs_json_skip_scope_def after_def by fastforce

theorem json_skip_object_ends_witness:
  "flecs_json_skip_object ([123, 125, 125, 44] @ 0 # []) (replicate 256 0) = Inl ECS_INTERNAL_ERROR
    \<or> (\<exists>j t. flecs_json_skip_object ([123, 125, 125, 44] @ 0 # []) (replicate 256 0) = Inr (j, t)
        \<and> (\<forall>q. j = Some q \<longrightarrow> (\<exists>u v. [123, 125, 125, 44] = u @ v \<and> u \<noteq> [] \<and> q = v @ 0 # [])))"
  by (rule json_skip_object_ends) simp_all

text \<open>
  Claim C38: an error inside of a scope that is nested in an object is not reported but stops the program. When
  flecs\_json\_skip\_scope returns null for the text behind an opening bracket, for example because the text ends
  before the scope is closed, skipping an object that starts with that bracket stops at the assertion that the result
  of the inner call is not null. This holds for any such text and for both kinds of brackets. At the top level null is the
  error that the caller handles.
\<close>

theorem json_skip_nested_aborts:
  assumes "c = 91 \<and> close = JsonArrayClose \<or> c = 123 \<and> close = JsonObjectClose"
    and "flecs_json_skip_scope json token close = Inr (None, token')"
  shows "flecs_json_skip_object (c # json) token = Inl ECS_INTERNAL_ERROR"
proof -
  have "flecs_json_parse (c # json) kind token
      = Inr (Some json, if c = 91 then JsonArrayOpen else JsonObjectOpen, token)" for kind
    using assms(1) by (auto simp: flecs_json_parse_def isspace_def)
  then show ?thesis
    using assms by (auto simp: flecs_json_skip_object_def flecs_json_skip_scope_def)
qed

lemma skip_ended_scope: "\<forall>c\<in>set ws. isspace c \<Longrightarrow> flecs_json_skip_scope (ws @ [0]) token close = Inr (None, token)"
proof -
  assume ws: "\<forall>c\<in>set ws. isspace c"
  have z: "0 \<notin> set ws" using ws by (auto simp: isspace_def)
  have d: "dropWhile isspace ws = []" using ws by simp
  have "flecs_json_parse (ws @ [0]) kind token = Inr (None, JsonInvalid, token)" for kind
    using parse_ws_eol[OF z, of "[]"] d
    by (simp add: flecs_json_parse_def isdigit_def isalpha_def isupper_def islower_def)
  then show ?thesis by (simp add: flecs_json_skip_scope_def)
qed

theorem json_skip_nested_aborts_witness:
  "flecs_json_skip_object ([32] @ [0]) [] = Inr (None, []) \<and> flecs_json_skip_object (91 # [32] @ [0]) [] = Inl ECS_INTERNAL_ERROR"
  using json_skip_nested_aborts[of 91 JsonArrayClose "[32] @ [0]" "[]" "[]"] skip_ended_scope[of "[32]" "[]"]
  by (simp add: isspace_def flecs_json_skip_object_def)

end
