(* ===== verification/Type_Hooks.thy ===== *)
theory Type_Hooks
  imports Ecs_Prelude
begin

text \<open>
  Component metadata of type\_info.c: the lifecycle hooks of a component type, the hooks that the
  code derives from the ones the user registers, and the functions that apply a hook to component
  memory. A value in memory is a cell, None for bytes that hold no value. Hooks are code of the
  user: functions on cells, which may fail. A hook slot is a function pointer: null, a user
  function, or one of the functions of this file, by name. A hook called for n elements is its
  application to n cells. Every call of a hook is recorded, so that the objects it creates and
  destroys can be counted.
\<close>

section \<open>Function pointers and type information\<close>

datatype lifecycle = L_ctor | L_dtor | L_copy | L_copy_ctor | L_move | L_move_ctor | L_ctor_move_dtor | L_move_dtor

datatype 'v xtor_fn =
    Xtor_user "'v option \<Rightarrow> 'v option res"
  | flecs_default_ctor
  | flecs_ctor_illegal
  | flecs_dtor_illegal

datatype 'v copy_fn =
    Copy_user "'v option \<Rightarrow> 'v option \<Rightarrow> 'v option res"
  | flecs_default_copy_ctor
  | flecs_copy_illegal
  | flecs_copy_ctor_illegal

datatype 'v move_fn =
    Move_user "'v option \<Rightarrow> 'v option \<Rightarrow> ('v option \<times> 'v option) res"
  | flecs_default_move_ctor
  | flecs_default_ctor_w_move_w_dtor
  | flecs_default_move_ctor_w_dtor
  | flecs_default_move
  | flecs_default_dtor
  | flecs_default_move_w_dtor
  | flecs_move_illegal
  | flecs_move_ctor_illegal

datatype 'v cmp_fn = Cmp_user "'v option \<Rightarrow> 'v option \<Rightarrow> int" | flecs_comp_illegal

datatype 'v equals_fn =
    Equals_user "'v option \<Rightarrow> 'v option \<Rightarrow> bool"
  | flecs_default_equals
  | flecs_equals_illegal

text \<open>Of the callbacks on\_add, on\_set, on\_remove and on\_replace the storage code uses that they are set.\<close>

record 'v ecs_type_hooks =
  th_ctor :: "'v xtor_fn option"
  th_dtor :: "'v xtor_fn option"
  th_copy :: "'v copy_fn option"
  th_move :: "'v move_fn option"
  th_copy_ctor :: "'v copy_fn option"
  th_move_ctor :: "'v move_fn option"
  th_ctor_move_dtor :: "'v move_fn option"
  th_move_dtor :: "'v move_fn option"
  th_cmp :: "'v cmp_fn option"
  th_equals :: "'v equals_fn option"
  th_flags :: u32
  th_on_add :: bool
  th_on_set :: bool
  th_on_remove :: bool
  th_on_replace :: bool

record 'v ecs_type_info =
  ti_size :: nat
  ti_hooks :: "'v ecs_type_hooks"
  ti_component :: u64

definition no_hooks :: "'v ecs_type_hooks" where
  "no_hooks = \<lparr>th_ctor = None, th_dtor = None, th_copy = None, th_move = None, th_copy_ctor = None,
     th_move_ctor = None, th_ctor_move_dtor = None, th_move_dtor = None, th_cmp = None,
     th_equals = None, th_flags = 0, th_on_add = False, th_on_set = False, th_on_remove = False,
     th_on_replace = False\<rparr>"

definition ECS_TYPE_HOOK_CTOR :: u32 where "ECS_TYPE_HOOK_CTOR = 0x1"
definition ECS_TYPE_HOOK_DTOR :: u32 where "ECS_TYPE_HOOK_DTOR = 0x2"
definition ECS_TYPE_HOOK_COPY :: u32 where "ECS_TYPE_HOOK_COPY = 0x4"
definition ECS_TYPE_HOOK_MOVE :: u32 where "ECS_TYPE_HOOK_MOVE = 0x8"
definition ECS_TYPE_HOOK_COPY_CTOR :: u32 where "ECS_TYPE_HOOK_COPY_CTOR = 0x10"
definition ECS_TYPE_HOOK_MOVE_CTOR :: u32 where "ECS_TYPE_HOOK_MOVE_CTOR = 0x20"
definition ECS_TYPE_HOOK_CTOR_MOVE_DTOR :: u32 where "ECS_TYPE_HOOK_CTOR_MOVE_DTOR = 0x40"
definition ECS_TYPE_HOOK_MOVE_DTOR :: u32 where "ECS_TYPE_HOOK_MOVE_DTOR = 0x80"
definition ECS_TYPE_HOOK_CMP :: u32 where "ECS_TYPE_HOOK_CMP = 0x100"
definition ECS_TYPE_HOOK_EQUALS :: u32 where "ECS_TYPE_HOOK_EQUALS = 0x200"
definition ECS_TYPE_HOOK_CTOR_ILLEGAL :: u32 where "ECS_TYPE_HOOK_CTOR_ILLEGAL = 0x400"
definition ECS_TYPE_HOOK_DTOR_ILLEGAL :: u32 where "ECS_TYPE_HOOK_DTOR_ILLEGAL = 0x1000"
definition ECS_TYPE_HOOK_COPY_ILLEGAL :: u32 where "ECS_TYPE_HOOK_COPY_ILLEGAL = 0x2000"
definition ECS_TYPE_HOOK_MOVE_ILLEGAL :: u32 where "ECS_TYPE_HOOK_MOVE_ILLEGAL = 0x4000"
definition ECS_TYPE_HOOK_COPY_CTOR_ILLEGAL :: u32 where "ECS_TYPE_HOOK_COPY_CTOR_ILLEGAL = 0x8000"
definition ECS_TYPE_HOOK_MOVE_CTOR_ILLEGAL :: u32 where "ECS_TYPE_HOOK_MOVE_CTOR_ILLEGAL = 0x10000"
definition ECS_TYPE_HOOK_CTOR_MOVE_DTOR_ILLEGAL :: u32 where "ECS_TYPE_HOOK_CTOR_MOVE_DTOR_ILLEGAL = 0x20000"
definition ECS_TYPE_HOOK_MOVE_DTOR_ILLEGAL :: u32 where "ECS_TYPE_HOOK_MOVE_DTOR_ILLEGAL = 0x40000"
definition ECS_TYPE_HOOK_CMP_ILLEGAL :: u32 where "ECS_TYPE_HOOK_CMP_ILLEGAL = 0x80000"
definition ECS_TYPE_HOOK_EQUALS_ILLEGAL :: u32 where "ECS_TYPE_HOOK_EQUALS_ILLEGAL = 0x100000"
definition ECS_TYPE_HOOK_IN_USE :: u32 where "ECS_TYPE_HOOK_IN_USE = 0x200000"
definition ECS_TYPE_HOOKS :: u32 where "ECS_TYPE_HOOKS = 0x3FF"
definition ECS_TYPE_HOOKS_ILLEGAL :: u32 where "ECS_TYPE_HOOKS_ILLEGAL = 0x1FF400"

lemmas hook_flag_defs = ECS_TYPE_HOOK_CTOR_def ECS_TYPE_HOOK_DTOR_def ECS_TYPE_HOOK_COPY_def
  ECS_TYPE_HOOK_MOVE_def ECS_TYPE_HOOK_COPY_CTOR_def ECS_TYPE_HOOK_MOVE_CTOR_def
  ECS_TYPE_HOOK_CTOR_MOVE_DTOR_def ECS_TYPE_HOOK_MOVE_DTOR_def ECS_TYPE_HOOK_CMP_def
  ECS_TYPE_HOOK_EQUALS_def ECS_TYPE_HOOK_CTOR_ILLEGAL_def ECS_TYPE_HOOK_DTOR_ILLEGAL_def
  ECS_TYPE_HOOK_COPY_ILLEGAL_def ECS_TYPE_HOOK_MOVE_ILLEGAL_def ECS_TYPE_HOOK_COPY_CTOR_ILLEGAL_def
  ECS_TYPE_HOOK_MOVE_CTOR_ILLEGAL_def ECS_TYPE_HOOK_CTOR_MOVE_DTOR_ILLEGAL_def
  ECS_TYPE_HOOK_MOVE_DTOR_ILLEGAL_def ECS_TYPE_HOOK_CMP_ILLEGAL_def
  ECS_TYPE_HOOK_EQUALS_ILLEGAL_def ECS_TYPE_HOOK_IN_USE_def ECS_TYPE_HOOKS_def
  ECS_TYPE_HOOKS_ILLEGAL_def

section \<open>Calling a hook\<close>

text \<open>
  A call through a null pointer faults. memset to 0 gives the value 0 of the component type. The
  default hooks call the hooks of the type that are set when they run; the depth bounds that
  nesting, and three levels are what the registration below builds.
\<close>

fun call_xtor :: "lifecycle \<Rightarrow> ('v::zero) xtor_fn option \<Rightarrow> 'v option \<Rightarrow> ('v option \<times> lifecycle list) res" where
  "call_xtor k None c = Inl MEMORY_FAULT"
| "call_xtor k (Some (Xtor_user f)) c = res_bind (f c) (\<lambda>c. Inr (c, [k]))"
| "call_xtor k (Some flecs_default_ctor) c = Inr (Some 0, [k])"
| "call_xtor k (Some flecs_ctor_illegal) c = Inl ECS_INVALID_OPERATION"
| "call_xtor k (Some flecs_dtor_illegal) c = Inl ECS_INVALID_OPERATION"

fun call_copy ::
    "('v::zero) ecs_type_hooks \<Rightarrow> nat \<Rightarrow> lifecycle \<Rightarrow> 'v copy_fn option \<Rightarrow> 'v option \<Rightarrow> 'v option
     \<Rightarrow> ('v option \<times> lifecycle list) res" where
  "call_copy cl 0 k p d s = Inl OUT_OF_FUEL"
| "call_copy cl (Suc n) k None d s = Inl MEMORY_FAULT"
| "call_copy cl (Suc n) k (Some (Copy_user f)) d s = res_bind (f d s) (\<lambda>d. Inr (d, [k]))"
| "call_copy cl (Suc n) k (Some flecs_default_copy_ctor) d s =
     res_bind (call_xtor L_ctor (th_ctor cl) d) (\<lambda>(d, l1).
     res_bind (call_copy cl n L_copy (th_copy cl) d s) (\<lambda>(d, l2). Inr (d, l1 @ l2)))"
| "call_copy cl (Suc n) k (Some flecs_copy_illegal) d s = Inl ECS_INVALID_OPERATION"
| "call_copy cl (Suc n) k (Some flecs_copy_ctor_illegal) d s = Inl ECS_INVALID_OPERATION"

fun call_move ::
    "('v::zero) ecs_type_hooks \<Rightarrow> nat \<Rightarrow> lifecycle \<Rightarrow> 'v move_fn option \<Rightarrow> 'v option \<Rightarrow> 'v option
     \<Rightarrow> ('v option \<times> 'v option \<times> lifecycle list) res" where
  "call_move cl 0 k p d s = Inl OUT_OF_FUEL"
| "call_move cl (Suc n) k None d s = Inl MEMORY_FAULT"
| "call_move cl (Suc n) k (Some (Move_user f)) d s = res_bind (f d s) (\<lambda>(d, s). Inr (d, s, [k]))"
| "call_move cl (Suc n) k (Some flecs_default_move_ctor) d s =
     res_bind (call_xtor L_ctor (th_ctor cl) d) (\<lambda>(d, l1).
     res_bind (call_move cl n L_move (th_move cl) d s) (\<lambda>(d, s, l2). Inr (d, s, l1 @ l2)))"
| "call_move cl (Suc n) k (Some flecs_default_ctor_w_move_w_dtor) d s =
     res_bind (call_xtor L_ctor (th_ctor cl) d) (\<lambda>(d, l1).
     res_bind (call_move cl n L_move (th_move cl) d s) (\<lambda>(d, s, l2).
     res_bind (call_xtor L_dtor (th_dtor cl) s) (\<lambda>(s, l3). Inr (d, s, l1 @ l2 @ l3))))"
| "call_move cl (Suc n) k (Some flecs_default_move_ctor_w_dtor) d s =
     res_bind (call_move cl n L_move_ctor (th_move_ctor cl) d s) (\<lambda>(d, s, l1).
     res_bind (call_xtor L_dtor (th_dtor cl) s) (\<lambda>(s, l2). Inr (d, s, l1 @ l2)))"
| "call_move cl (Suc n) k (Some flecs_default_move) d s = call_move cl n L_move (th_move cl) d s"
| "call_move cl (Suc n) k (Some flecs_default_dtor) d s =
     res_bind (call_xtor L_dtor (th_dtor cl) d) (\<lambda>(d, l). Inr (s, s, l))"
| "call_move cl (Suc n) k (Some flecs_default_move_w_dtor) d s =
     res_bind (call_move cl n L_move (th_move cl) d s) (\<lambda>(d, s, l1).
     res_bind (call_xtor L_dtor (th_dtor cl) s) (\<lambda>(s, l2). Inr (d, s, l1 @ l2)))"
| "call_move cl (Suc n) k (Some flecs_move_illegal) d s = Inl ECS_INVALID_OPERATION"
| "call_move cl (Suc n) k (Some flecs_move_ctor_illegal) d s = Inl ECS_INVALID_OPERATION"

abbreviation hook_depth :: nat where "hook_depth \<equiv> 3"

section \<open>Applying the hooks of a type\<close>

text \<open>
  Without a constructor or destructor the memory is left alone; without a copy or move hook the
  bytes are copied, and the source keeps its bytes. A move gives both cells.
\<close>

definition type_info_ctor :: "('v::zero) ecs_type_info \<Rightarrow> 'v option \<Rightarrow> ('v option \<times> lifecycle list) res" where
  "type_info_ctor ti c =
     ecs_assert (th_flags (ti_hooks ti) AND ECS_TYPE_HOOK_CTOR_ILLEGAL = 0) ECS_INVALID_OPERATION
       (let ctor = th_ctor (ti_hooks ti)
        in if ctor = None then Inr (c, []) else call_xtor L_ctor ctor c)"

definition type_info_dtor :: "('v::zero) ecs_type_info \<Rightarrow> 'v option \<Rightarrow> ('v option \<times> lifecycle list) res" where
  "type_info_dtor ti c =
     ecs_assert (th_flags (ti_hooks ti) AND ECS_TYPE_HOOK_DTOR_ILLEGAL = 0) ECS_INVALID_OPERATION
       (let dtor = th_dtor (ti_hooks ti)
        in if dtor = None then Inr (c, []) else call_xtor L_dtor dtor c)"

definition type_info_copy ::
    "('v::zero) ecs_type_info \<Rightarrow> 'v option \<Rightarrow> 'v option \<Rightarrow> ('v option \<times> lifecycle list) res" where
  "type_info_copy ti d s =
     ecs_assert (th_flags (ti_hooks ti) AND ECS_TYPE_HOOK_COPY_ILLEGAL = 0) ECS_INVALID_OPERATION
       (let copy = th_copy (ti_hooks ti)
        in if copy = None then Inr (s, []) else call_copy (ti_hooks ti) hook_depth L_copy copy d s)"

definition type_info_copy_ctor ::
    "('v::zero) ecs_type_info \<Rightarrow> 'v option \<Rightarrow> 'v option \<Rightarrow> ('v option \<times> lifecycle list) res" where
  "type_info_copy_ctor ti d s =
     ecs_assert (th_flags (ti_hooks ti) AND ECS_TYPE_HOOK_COPY_CTOR_ILLEGAL = 0) ECS_INVALID_OPERATION
       (let copy = th_copy_ctor (ti_hooks ti)
        in if copy = None then Inr (s, []) else call_copy (ti_hooks ti) hook_depth L_copy_ctor copy d s)"

type_synonym 'v moved = "('v option \<times> 'v option \<times> lifecycle list) res"

definition type_info_move :: "('v::zero) ecs_type_info \<Rightarrow> 'v option \<Rightarrow> 'v option \<Rightarrow> 'v moved" where
  "type_info_move ti d s =
     ecs_assert (th_flags (ti_hooks ti) AND ECS_TYPE_HOOK_MOVE_ILLEGAL = 0) ECS_INVALID_OPERATION
       (let move = th_move (ti_hooks ti)
        in if move = None then Inr (s, s, []) else call_move (ti_hooks ti) hook_depth L_move move d s)"

definition type_info_move_ctor :: "('v::zero) ecs_type_info \<Rightarrow> 'v option \<Rightarrow> 'v option \<Rightarrow> 'v moved" where
  "type_info_move_ctor ti d s =
     ecs_assert (th_flags (ti_hooks ti) AND ECS_TYPE_HOOK_MOVE_CTOR_ILLEGAL = 0) ECS_INVALID_OPERATION
       (let move = th_move_ctor (ti_hooks ti)
        in if move = None then Inr (s, s, [])
           else call_move (ti_hooks ti) hook_depth L_move_ctor move d s)"

definition type_info_ctor_move_dtor :: "('v::zero) ecs_type_info \<Rightarrow> 'v option \<Rightarrow> 'v option \<Rightarrow> 'v moved" where
  "type_info_ctor_move_dtor ti d s =
     ecs_assert (th_flags (ti_hooks ti) AND ECS_TYPE_HOOK_CTOR_MOVE_DTOR_ILLEGAL = 0) ECS_INVALID_OPERATION
       (let move = th_ctor_move_dtor (ti_hooks ti)
        in if move = None then Inr (s, s, [])
           else call_move (ti_hooks ti) hook_depth L_ctor_move_dtor move d s)"

definition type_info_move_dtor :: "('v::zero) ecs_type_info \<Rightarrow> 'v option \<Rightarrow> 'v option \<Rightarrow> 'v moved" where
  "type_info_move_dtor ti d s =
     ecs_assert (th_flags (ti_hooks ti) AND ECS_TYPE_HOOK_MOVE_DTOR_ILLEGAL = 0) ECS_INVALID_OPERATION
       (let move = th_move_dtor (ti_hooks ti)
        in if move = None then Inr (s, s, [])
           else call_move (ti_hooks ti) hook_depth L_move_dtor move d s)"

fun call_cmp :: "'v cmp_fn option \<Rightarrow> 'v option \<Rightarrow> 'v option \<Rightarrow> int res" where
  "call_cmp None a b = Inl MEMORY_FAULT"
| "call_cmp (Some (Cmp_user f)) a b = Inr (f a b)"
| "call_cmp (Some flecs_comp_illegal) a b = Inl ECS_INVALID_OPERATION"

definition type_info_cmp :: "'v ecs_type_info \<Rightarrow> 'v option \<Rightarrow> 'v option \<Rightarrow> int res" where
  "type_info_cmp ti a b =
     ecs_assert (th_flags (ti_hooks ti) AND ECS_TYPE_HOOK_CMP_ILLEGAL = 0) ECS_INVALID_OPERATION
     (ecs_assert (th_cmp (ti_hooks ti) \<noteq> None) ECS_INTERNAL_ERROR (call_cmp (th_cmp (ti_hooks ti)) a b))"

definition type_info_equals :: "'v ecs_type_info \<Rightarrow> 'v option \<Rightarrow> 'v option \<Rightarrow> bool res" where
  "type_info_equals ti a b =
     ecs_assert (th_flags (ti_hooks ti) AND ECS_TYPE_HOOK_EQUALS_ILLEGAL = 0) ECS_INVALID_OPERATION
     (case th_equals (ti_hooks ti) of
        None \<Rightarrow> Inl ECS_INTERNAL_ERROR
      | Some (Equals_user f) \<Rightarrow> Inr (f a b)
      | Some flecs_default_equals \<Rightarrow> res_bind (call_cmp (th_cmp (ti_hooks ti)) a b) (\<lambda>r. Inr (r = 0))
      | Some flecs_equals_illegal \<Rightarrow> Inl ECS_INVALID_OPERATION)"

section \<open>Registering hooks\<close>

text \<open>
  ecs\_set\_hooks\_id. The guards on the parameters come first; ecs\_check and ecs\_throw abort in
  a debug build. The user's context pointers are left out. Afterwards the slots that the user left
  empty are derived from the ones in the parameter h.
\<close>

definition hook_conflict :: "u32 \<Rightarrow> u32 \<Rightarrow> 'f option \<Rightarrow> 'f \<Rightarrow> bool" where
  "hook_conflict flags illegal p illegal_fn \<longleftrightarrow> flags AND illegal \<noteq> 0 \<and> p \<noteq> None \<and> p \<noteq> Some illegal_fn"

definition set_hooks_checks :: "u32 \<Rightarrow> 'v ecs_type_hooks \<Rightarrow> 'a res \<Rightarrow> 'a res" where
  "set_hooks_checks flags h k =
     ecs_assert (\<not> hook_conflict flags ECS_TYPE_HOOK_CTOR_ILLEGAL (th_ctor h) flecs_ctor_illegal) ECS_INVALID_PARAMETER
     (ecs_assert (\<not> hook_conflict flags ECS_TYPE_HOOK_DTOR_ILLEGAL (th_dtor h) flecs_dtor_illegal) ECS_INVALID_PARAMETER
     (ecs_assert (\<not> hook_conflict flags ECS_TYPE_HOOK_COPY_ILLEGAL (th_copy h) flecs_copy_illegal) ECS_INVALID_PARAMETER
     (ecs_assert (\<not> hook_conflict flags ECS_TYPE_HOOK_MOVE_ILLEGAL (th_move h) flecs_move_illegal) ECS_INVALID_PARAMETER
     (ecs_assert (\<not> hook_conflict flags ECS_TYPE_HOOK_COPY_CTOR_ILLEGAL (th_copy_ctor h) flecs_copy_ctor_illegal) ECS_INVALID_PARAMETER
     (ecs_assert (\<not> hook_conflict flags ECS_TYPE_HOOK_MOVE_CTOR_ILLEGAL (th_move_ctor h) flecs_move_ctor_illegal) ECS_INVALID_PARAMETER
     (ecs_assert (\<not> hook_conflict flags ECS_TYPE_HOOK_CTOR_MOVE_DTOR_ILLEGAL (th_ctor_move_dtor h) flecs_move_ctor_illegal) ECS_INVALID_PARAMETER
     (ecs_assert (\<not> hook_conflict flags ECS_TYPE_HOOK_MOVE_DTOR_ILLEGAL (th_move_dtor h) flecs_move_ctor_illegal) ECS_INVALID_PARAMETER
     (ecs_assert (\<not> hook_conflict flags ECS_TYPE_HOOK_CMP_ILLEGAL (th_cmp h) flecs_comp_illegal) ECS_INVALID_PARAMETER
     (ecs_assert (\<not> hook_conflict flags ECS_TYPE_HOOK_EQUALS_ILLEGAL (th_equals h) flecs_equals_illegal) ECS_INVALID_PARAMETER
      k)))))))))"

text \<open>The component's EcsComponent value gives the size, the first time.\<close>

definition set_hooks_size :: "nat option \<Rightarrow> 'v ecs_type_info \<Rightarrow> 'v ecs_type_info res" where
  "set_hooks_size component_size ti =
     (if ti_size ti = 0 then
        case component_size of
          None \<Rightarrow> Inl ECS_INVALID_PARAMETER
        | Some sz \<Rightarrow> ecs_assert (sz \<noteq> 0) ECS_INVALID_PARAMETER (Inr (ti\<lparr>ti_size := sz\<rparr>))
      else Inr ti)"

definition assign_hook :: "'f option \<Rightarrow> 'f option \<Rightarrow> 'f option" where
  "assign_hook new old = (if new \<noteq> None then new else old)"

definition set_hooks_assign :: "'v ecs_type_hooks \<Rightarrow> 'v ecs_type_hooks \<Rightarrow> 'v ecs_type_hooks" where
  "set_hooks_assign h t = t\<lparr>
     th_ctor := assign_hook (th_ctor h) (th_ctor t),
     th_dtor := assign_hook (th_dtor h) (th_dtor t),
     th_copy := assign_hook (th_copy h) (th_copy t),
     th_move := assign_hook (th_move h) (th_move t),
     th_copy_ctor := assign_hook (th_copy_ctor h) (th_copy_ctor t),
     th_move_ctor := assign_hook (th_move_ctor h) (th_move_ctor t),
     th_ctor_move_dtor := assign_hook (th_ctor_move_dtor h) (th_ctor_move_dtor t),
     th_move_dtor := assign_hook (th_move_dtor h) (th_move_dtor t),
     th_cmp := assign_hook (th_cmp h) (th_cmp t),
     th_equals := assign_hook (th_equals h) (th_equals t),
     th_on_add := th_on_add h \<or> th_on_add t,
     th_on_remove := th_on_remove h \<or> th_on_remove t,
     th_on_set := th_on_set h \<or> th_on_set t,
     th_on_replace := th_on_replace h \<or> th_on_replace t\<rparr>"

definition set_hooks_ctors :: "u32 \<Rightarrow> 'v ecs_type_hooks \<Rightarrow> 'v ecs_type_hooks \<Rightarrow> 'v ecs_type_hooks" where
  "set_hooks_ctors flags h t =
     (let t = (if th_ctor h = None \<and> (th_dtor h \<noteq> None \<or> th_copy h \<noteq> None \<or> th_move h \<noteq> None)
               then t\<lparr>th_ctor := Some flecs_default_ctor\<rparr> else t);
          t = (if th_copy_ctor h = None \<and> flags AND ECS_TYPE_HOOK_COPY_CTOR_ILLEGAL = 0 \<and> th_copy h \<noteq> None
               then t\<lparr>th_copy_ctor := Some flecs_default_copy_ctor\<rparr> else t)
      in if th_move_ctor h = None \<and> flags AND ECS_TYPE_HOOK_MOVE_CTOR_ILLEGAL = 0 \<and> th_move h \<noteq> None
         then t\<lparr>th_move_ctor := Some flecs_default_move_ctor\<rparr> else t)"

definition set_hooks_ctor_move_dtor ::
    "u32 \<Rightarrow> 'v ecs_type_hooks \<Rightarrow> 'v ecs_type_hooks \<Rightarrow> 'v ecs_type_hooks \<times> u32" where
  "set_hooks_ctor_move_dtor flags h t =
     (if th_ctor_move_dtor h = None then
        let (t, illegal_check) =
          (if th_move h \<noteq> None then
             if th_dtor h \<noteq> None then
               if th_move_ctor h \<noteq> None then
                 (t\<lparr>th_ctor_move_dtor := Some flecs_default_move_ctor_w_dtor\<rparr>,
                  ECS_TYPE_HOOK_MOVE_ILLEGAL OR ECS_TYPE_HOOK_DTOR_ILLEGAL OR ECS_TYPE_HOOK_MOVE_CTOR_ILLEGAL)
               else
                 (t\<lparr>th_ctor_move_dtor := Some flecs_default_ctor_w_move_w_dtor\<rparr>,
                  ECS_TYPE_HOOK_MOVE_ILLEGAL OR ECS_TYPE_HOOK_DTOR_ILLEGAL OR ECS_TYPE_HOOK_CTOR_ILLEGAL)
             else
               (t\<lparr>th_ctor_move_dtor := th_move_ctor t\<rparr>,
                ECS_TYPE_HOOK_MOVE_ILLEGAL OR ECS_TYPE_HOOK_MOVE_CTOR_ILLEGAL)
           else if th_move_ctor h \<noteq> None then
             if th_dtor h \<noteq> None then
               (t\<lparr>th_ctor_move_dtor := Some flecs_default_move_ctor_w_dtor\<rparr>,
                ECS_TYPE_HOOK_MOVE_CTOR_ILLEGAL OR ECS_TYPE_HOOK_DTOR_ILLEGAL)
             else (t\<lparr>th_ctor_move_dtor := th_move_ctor t\<rparr>, ECS_TYPE_HOOK_MOVE_CTOR_ILLEGAL)
           else (t, 0))
        in (t, if flags AND illegal_check \<noteq> 0 then flags OR ECS_TYPE_HOOK_CTOR_MOVE_DTOR_ILLEGAL else flags)
      else (t, flags))"

definition set_hooks_move_dtor ::
    "u32 \<Rightarrow> 'v ecs_type_hooks \<Rightarrow> 'v ecs_type_hooks \<Rightarrow> 'v ecs_type_hooks \<times> u32" where
  "set_hooks_move_dtor flags h t =
     (if th_move_dtor h = None then
        let (t, illegal_check) =
          (if th_move h \<noteq> None then
             if th_dtor h \<noteq> None then
               (t\<lparr>th_move_dtor := Some flecs_default_move_w_dtor\<rparr>,
                ECS_TYPE_HOOK_MOVE_ILLEGAL OR ECS_TYPE_HOOK_DTOR_ILLEGAL)
             else (t\<lparr>th_move_dtor := Some flecs_default_move\<rparr>, ECS_TYPE_HOOK_MOVE_ILLEGAL)
           else if th_dtor h \<noteq> None then
             (t\<lparr>th_move_dtor := Some flecs_default_dtor\<rparr>, ECS_TYPE_HOOK_DTOR_ILLEGAL)
           else (t, 0))
        in (t, if flags AND illegal_check \<noteq> 0 then flags OR ECS_TYPE_HOOK_MOVE_DTOR_ILLEGAL else flags)
      else (t, flags))"

definition set_hooks_compare ::
    "u32 \<Rightarrow> 'v ecs_type_hooks \<Rightarrow> 'v ecs_type_hooks \<Rightarrow> 'v ecs_type_hooks \<times> u32" where
  "set_hooks_compare flags h t =
     (let flags = (if th_cmp h = None then flags OR ECS_TYPE_HOOK_CMP_ILLEGAL else flags)
      in if th_equals h = None \<or> th_equals h = Some flecs_equals_illegal then
           if flags AND ECS_TYPE_HOOK_CMP_ILLEGAL \<noteq> 0 then (t, flags OR ECS_TYPE_HOOK_EQUALS_ILLEGAL)
           else (t\<lparr>th_equals := Some flecs_default_equals\<rparr>, flags AND NOT ECS_TYPE_HOOK_EQUALS_ILLEGAL)
         else (t, flags))"

definition flag_if :: "bool \<Rightarrow> u32 \<Rightarrow> u32" where
  "flag_if c f = (if c then f else 0)"

definition set_hooks_flags :: "u32 \<Rightarrow> u32 \<Rightarrow> 'v ecs_type_hooks \<Rightarrow> 'v ecs_type_hooks" where
  "set_hooks_flags flags prev_flags t = t\<lparr>th_flags := flags
     OR flag_if (th_ctor t \<noteq> None) ECS_TYPE_HOOK_CTOR
     OR flag_if (th_dtor t \<noteq> None) ECS_TYPE_HOOK_DTOR
     OR flag_if (th_move t \<noteq> None) ECS_TYPE_HOOK_MOVE
     OR flag_if (th_move_ctor t \<noteq> None) ECS_TYPE_HOOK_MOVE_CTOR
     OR flag_if (th_ctor_move_dtor t \<noteq> None) ECS_TYPE_HOOK_CTOR_MOVE_DTOR
     OR flag_if (th_move_dtor t \<noteq> None) ECS_TYPE_HOOK_MOVE_DTOR
     OR flag_if (th_copy t \<noteq> None) ECS_TYPE_HOOK_COPY
     OR flag_if (th_copy_ctor t \<noteq> None) ECS_TYPE_HOOK_COPY_CTOR
     OR flag_if (th_cmp t \<noteq> None) ECS_TYPE_HOOK_CMP
     OR flag_if (th_equals t \<noteq> None) ECS_TYPE_HOOK_EQUALS
     OR (prev_flags AND ECS_TYPE_HOOK_IN_USE)\<rparr>"

definition illegal_hook :: "u32 \<Rightarrow> u32 \<Rightarrow> 'f \<Rightarrow> 'f option \<Rightarrow> 'f option" where
  "illegal_hook flags illegal illegal_fn p = (if flags AND illegal \<noteq> 0 then Some illegal_fn else p)"

definition set_hooks_illegal :: "u32 \<Rightarrow> 'v ecs_type_hooks \<Rightarrow> 'v ecs_type_hooks" where
  "set_hooks_illegal flags t = t\<lparr>
     th_ctor := illegal_hook flags ECS_TYPE_HOOK_CTOR_ILLEGAL flecs_ctor_illegal (th_ctor t),
     th_dtor := illegal_hook flags ECS_TYPE_HOOK_DTOR_ILLEGAL flecs_dtor_illegal (th_dtor t),
     th_copy := illegal_hook flags ECS_TYPE_HOOK_COPY_ILLEGAL flecs_copy_illegal (th_copy t),
     th_move := illegal_hook flags ECS_TYPE_HOOK_MOVE_ILLEGAL flecs_move_illegal (th_move t),
     th_cmp := illegal_hook flags ECS_TYPE_HOOK_CMP_ILLEGAL flecs_comp_illegal (th_cmp t),
     th_equals := illegal_hook flags ECS_TYPE_HOOK_EQUALS_ILLEGAL flecs_equals_illegal (th_equals t),
     th_copy_ctor := illegal_hook flags ECS_TYPE_HOOK_COPY_CTOR_ILLEGAL flecs_copy_ctor_illegal (th_copy_ctor t),
     th_move_ctor := illegal_hook (th_flags t) ECS_TYPE_HOOK_MOVE_CTOR_ILLEGAL flecs_move_ctor_illegal (th_move_ctor t),
     th_ctor_move_dtor := illegal_hook (th_flags t) ECS_TYPE_HOOK_CTOR_MOVE_DTOR_ILLEGAL flecs_move_ctor_illegal (th_ctor_move_dtor t),
     th_move_dtor := illegal_hook (th_flags t) ECS_TYPE_HOOK_MOVE_DTOR_ILLEGAL flecs_move_ctor_illegal (th_move_dtor t)\<rparr>"

definition flecs_type_hooks_storage_equal :: "'v ecs_type_hooks \<Rightarrow> 'v ecs_type_hooks \<Rightarrow> bool" where
  "flecs_type_hooks_storage_equal a b \<longleftrightarrow>
     (let flags = ECS_TYPE_HOOKS OR ECS_TYPE_HOOKS_ILLEGAL
      in th_flags a AND flags = th_flags b AND flags \<and> th_on_add a = th_on_add b
         \<and> th_on_set a = th_on_set b \<and> th_on_remove a = th_on_remove b
         \<and> th_on_replace a = th_on_replace b)"

text \<open>
  Whether the type is in use, a bit that using its hooks sets, is a parameter.
\<close>

definition ecs_set_hooks_id ::
    "bool \<Rightarrow> nat option \<Rightarrow> u64 \<Rightarrow> 'v ecs_type_info \<Rightarrow> 'v ecs_type_hooks \<Rightarrow> 'v ecs_type_info res" where
  "ecs_set_hooks_id in_use component_size component ti h =
     (let flags = th_flags h AND NOT ECS_TYPE_HOOKS
      in set_hooks_checks flags h
     (ecs_assert (ti_component ti = 0 \<or> ti_component ti = component) ECS_INCONSISTENT_COMPONENT_ACTION
     (let prev_hooks = ti_hooks ti
      in res_bind (set_hooks_size component_size ti) (\<lambda>ti.
     (let t = set_hooks_ctors flags h (set_hooks_assign h (ti_hooks ti));
          (t, flags) = set_hooks_ctor_move_dtor flags h t;
          (t, flags) = set_hooks_move_dtor flags h t;
          (t, flags) = set_hooks_compare flags h t;
          t = set_hooks_illegal flags (set_hooks_flags flags (th_flags prev_hooks) t)
      in if in_use \<and> \<not> flecs_type_hooks_storage_equal t prev_hooks then Inl ECS_ALREADY_IN_USE
         else Inr (ti\<lparr>ti_hooks := t\<rparr>))))))"

section \<open>The contract of a hook\<close>

text \<open>
  What flecs.h asks of the user: a constructor gives uninitialised memory a value, a destructor
  runs on a value, moving gives the destination the value of the source. After move and
  move\_ctor the source still holds an object, whatever its value; ctor\_move\_dtor and move\_dtor
  have destructed it. move and move\_dtor find an object in the destination.
\<close>

definition xtor_makes :: "('v option \<Rightarrow> 'v option res) \<Rightarrow> bool" where
  "xtor_makes f \<longleftrightarrow> (\<exists>v. \<forall>c. f c = Inr (Some v))"

definition xtor_ends :: "('v option \<Rightarrow> 'v option res) \<Rightarrow> bool" where
  "xtor_ends f \<longleftrightarrow> (\<forall>x. \<exists>c. f (Some x) = Inr c)"

definition moves :: "('v option \<Rightarrow> 'v option \<Rightarrow> ('v option \<times> 'v option) res) \<Rightarrow> bool" where
  "moves f \<longleftrightarrow> (\<forall>x v. \<exists>w. f (Some x) (Some v) = Inr (Some v, Some w))"

definition moves_ctor :: "('v option \<Rightarrow> 'v option \<Rightarrow> ('v option \<times> 'v option) res) \<Rightarrow> bool" where
  "moves_ctor f \<longleftrightarrow> (\<forall>d v. \<exists>w. f d (Some v) = Inr (Some v, Some w))"

definition moves_ctor_dtor :: "('v option \<Rightarrow> 'v option \<Rightarrow> ('v option \<times> 'v option) res) \<Rightarrow> bool" where
  "moves_ctor_dtor f \<longleftrightarrow> (\<forall>d v. \<exists>c. f d (Some v) = Inr (Some v, c))"

definition moves_dtor :: "('v option \<Rightarrow> 'v option \<Rightarrow> ('v option \<times> 'v option) res) \<Rightarrow> bool" where
  "moves_dtor f \<longleftrightarrow> (\<forall>x v. \<exists>c. f (Some x) (Some v) = Inr (Some v, c))"

definition user_xtor :: "(('v option \<Rightarrow> 'v option res) \<Rightarrow> bool) \<Rightarrow> 'v xtor_fn option \<Rightarrow> bool" where
  "user_xtor P p \<longleftrightarrow> p = None \<or> (\<exists>f. p = Some (Xtor_user f) \<and> P f)"

definition user_move ::
    "(('v option \<Rightarrow> 'v option \<Rightarrow> ('v option \<times> 'v option) res) \<Rightarrow> bool) \<Rightarrow> 'v move_fn option \<Rightarrow> bool" where
  "user_move P p \<longleftrightarrow> p = None \<or> (\<exists>f. p = Some (Move_user f) \<and> P f)"

text \<open>
  Hooks as a user registers them: lawful functions, no illegal flag, and a constructor whenever
  the code would not supply one itself.
\<close>

definition user_hooks :: "'v ecs_type_hooks \<Rightarrow> bool" where
  "user_hooks h \<longleftrightarrow> user_xtor xtor_makes (th_ctor h) \<and> user_xtor xtor_ends (th_dtor h)
     \<and> user_move moves (th_move h) \<and> user_move moves_ctor (th_move_ctor h)
     \<and> user_move moves_ctor_dtor (th_ctor_move_dtor h) \<and> user_move moves_dtor (th_move_dtor h)
     \<and> th_flags h = 0
     \<and> (th_move_ctor h \<noteq> None \<or> th_ctor_move_dtor h \<noteq> None \<or> th_move_dtor h \<noteq> None \<longrightarrow>
        th_ctor h \<noteq> None \<or> th_dtor h \<noteq> None \<or> th_move h \<noteq> None)"

text \<open>
  The contract of a type that the storage needs. A plain type has no lifecycle hooks; the others
  have a constructor. \<open>life_sum\<close> counts the objects that a list of hook calls leaves.
\<close>

definition plain_hooks :: "'v ecs_type_hooks \<Rightarrow> bool" where
  "plain_hooks t \<longleftrightarrow> th_ctor t = None \<and> th_dtor t = None \<and> th_move t = None \<and> th_move_ctor t = None
     \<and> th_ctor_move_dtor t = None \<and> th_move_dtor t = None"

definition legal_flags :: "'v ecs_type_hooks \<Rightarrow> bool" where
  "legal_flags t \<longleftrightarrow> th_flags t AND ECS_TYPE_HOOK_CTOR_ILLEGAL = 0
     \<and> th_flags t AND ECS_TYPE_HOOK_DTOR_ILLEGAL = 0 \<and> th_flags t AND ECS_TYPE_HOOK_MOVE_ILLEGAL = 0
     \<and> th_flags t AND ECS_TYPE_HOOK_MOVE_CTOR_ILLEGAL = 0
     \<and> th_flags t AND ECS_TYPE_HOOK_CTOR_MOVE_DTOR_ILLEGAL = 0
     \<and> th_flags t AND ECS_TYPE_HOOK_MOVE_DTOR_ILLEGAL = 0"

fun life_delta :: "lifecycle \<Rightarrow> int" where
  "life_delta L_ctor = 1"
| "life_delta L_copy_ctor = 1"
| "life_delta L_move_ctor = 1"
| "life_delta L_dtor = - 1"
| "life_delta L_move_dtor = - 1"
| "life_delta L_copy = 0"
| "life_delta L_move = 0"
| "life_delta L_ctor_move_dtor = 0"

definition life_sum :: "lifecycle list \<Rightarrow> int" where
  "life_sum ls = sum_list (map life_delta ls)"

definition ti_default :: "('v::zero) ecs_type_info \<Rightarrow> 'v option" where
  "ti_default ti = (case type_info_ctor ti None of Inl _ \<Rightarrow> None | Inr (c, _) \<Rightarrow> c)"

definition ti_live :: "('v::zero) ecs_type_info \<Rightarrow> bool" where
  "ti_live ti \<longleftrightarrow> (\<forall>c. \<exists>ls. type_info_ctor ti c = Inr (ti_default ti, ls)) \<and> ti_default ti \<noteq> None
     \<and> (\<forall>x. \<exists>c ls. type_info_dtor ti (Some x) = Inr (c, ls))
     \<and> (\<forall>x v. \<exists>w ls. type_info_move ti (Some x) (Some v) = Inr (Some v, Some w, ls))
     \<and> (\<forall>d v. \<exists>w ls. type_info_move_ctor ti d (Some v) = Inr (Some v, Some w, ls))
     \<and> (\<forall>d v. \<exists>c ls. type_info_ctor_move_dtor ti d (Some v) = Inr (Some v, c, ls))
     \<and> (\<forall>x v. \<exists>c ls. type_info_move_dtor ti (Some x) (Some v) = Inr (Some v, c, ls))"

definition ti_lawful :: "('v::zero) ecs_type_info \<Rightarrow> bool" where
  "ti_lawful ti \<longleftrightarrow> legal_flags (ti_hooks ti)
     \<and> (if th_ctor (ti_hooks ti) = None then plain_hooks (ti_hooks ti) else ti_live ti)"

definition ti_counted :: "('v::zero) ecs_type_info \<Rightarrow> bool" where
  "ti_counted ti \<longleftrightarrow> th_dtor (ti_hooks ti) \<noteq> None \<and> th_move_ctor (ti_hooks ti) \<noteq> None
     \<and> (\<forall>c c' ls. type_info_ctor ti c = Inr (c', ls) \<longrightarrow> life_sum ls = 1)
     \<and> (\<forall>c c' ls. type_info_dtor ti c = Inr (c', ls) \<longrightarrow> life_sum ls = - 1)
     \<and> (\<forall>d s d' s' ls. type_info_move_ctor ti d s = Inr (d', s', ls) \<longrightarrow> life_sum ls = 1)
     \<and> (\<forall>d s d' s' ls. type_info_ctor_move_dtor ti d s = Inr (d', s', ls) \<longrightarrow> life_sum ls = 0)
     \<and> (\<forall>d s d' s' ls. type_info_move_dtor ti d s = Inr (d', s', ls) \<longrightarrow> life_sum ls = - 1)"

section \<open>What registration derives\<close>

lemmas set_hooks_defs = set_hooks_checks_def hook_conflict_def set_hooks_size_def set_hooks_assign_def
  assign_hook_def set_hooks_ctors_def set_hooks_ctor_move_dtor_def set_hooks_move_dtor_def
  set_hooks_compare_def set_hooks_flags_def flag_if_def set_hooks_illegal_def illegal_hook_def

lemmas type_info_defs = type_info_ctor_def type_info_dtor_def type_info_move_def
  type_info_move_ctor_def type_info_ctor_move_dtor_def type_info_move_dtor_def

lemmas hook_contract_defs = xtor_makes_def xtor_ends_def moves_def moves_ctor_def
  moves_ctor_dtor_def moves_dtor_def

lemma flag_if_and: "f AND m = 0 \<Longrightarrow> flag_if c f AND m = 0"
  by (simp add: flag_if_def)

lemma or_and_zero: "((a::u32) OR b) AND m = 0 \<longleftrightarrow> a AND m = 0 \<and> b AND m = 0"
  by (simp add: bit.conj_disj_distrib2 or_eq_0_iff)

lemma set_hooks_flags_and:
  assumes "m AND 0x2003FF = 0" "flags AND m = 0"
  shows "th_flags (set_hooks_flags flags prev t) AND m = 0"
proof -
  have low: "f AND m = 0" if "f AND 0x2003FF = f" for f
  proof -
    have "f AND m = f AND (m AND 0x2003FF)" by (subst (1) that[symmetric]) (simp only: and.commute and.left_commute and.assoc)
    then show ?thesis using assms(1) by simp
  qed
  have p: "(prev AND ECS_TYPE_HOOK_IN_USE) AND m = 0"
    using low[of ECS_TYPE_HOOK_IN_USE] by (simp add: hook_flag_defs and.assoc)
  show ?thesis
    unfolding set_hooks_flags_def by (simp add: or_and_zero assms(2) p) (intro conjI; (rule p | rule flag_if_and, rule low, simp add: hook_flag_defs))
qed

lemma set_hooks_cmd_0:
  "set_hooks_ctor_move_dtor 0 h t =
     (if th_ctor_move_dtor h = None then
        if th_move h \<noteq> None then
          if th_dtor h \<noteq> None then
            if th_move_ctor h \<noteq> None then t\<lparr>th_ctor_move_dtor := Some flecs_default_move_ctor_w_dtor\<rparr>
            else t\<lparr>th_ctor_move_dtor := Some flecs_default_ctor_w_move_w_dtor\<rparr>
          else t\<lparr>th_ctor_move_dtor := th_move_ctor t\<rparr>
        else if th_move_ctor h \<noteq> None then
          if th_dtor h \<noteq> None then t\<lparr>th_ctor_move_dtor := Some flecs_default_move_ctor_w_dtor\<rparr>
          else t\<lparr>th_ctor_move_dtor := th_move_ctor t\<rparr>
        else t
      else t, 0)"
  by (simp add: set_hooks_ctor_move_dtor_def)

lemma set_hooks_md_0:
  "set_hooks_move_dtor 0 h t =
     (if th_move_dtor h = None then
        if th_move h \<noteq> None then
          if th_dtor h \<noteq> None then t\<lparr>th_move_dtor := Some flecs_default_move_w_dtor\<rparr>
          else t\<lparr>th_move_dtor := Some flecs_default_move\<rparr>
        else if th_dtor h \<noteq> None then t\<lparr>th_move_dtor := Some flecs_default_dtor\<rparr>
        else t
      else t, 0)"
  by (simp add: set_hooks_move_dtor_def)

lemma set_hooks_compare_0:
  obtains t' flags where "set_hooks_compare 0 h t = (t', flags)" "flags AND 0x7FFFF = 0"
    "th_ctor t' = th_ctor t" "th_dtor t' = th_dtor t" "th_move t' = th_move t"
    "th_move_ctor t' = th_move_ctor t" "th_ctor_move_dtor t' = th_ctor_move_dtor t"
    "th_move_dtor t' = th_move_dtor t"
proof -
  have "\<exists>t' flags. set_hooks_compare 0 h t = (t', flags) \<and> flags AND 0x7FFFF = 0
    \<and> th_ctor t' = th_ctor t \<and> th_dtor t' = th_dtor t \<and> th_move t' = th_move t
    \<and> th_move_ctor t' = th_move_ctor t \<and> th_ctor_move_dtor t' = th_ctor_move_dtor t
    \<and> th_move_dtor t' = th_move_dtor t"
    by (simp add: set_hooks_compare_def Let_def hook_flag_defs split: if_splits)
  then show ?thesis using that by blast
qed

lemma set_hooks_illegal_none:
  assumes "flags AND 0x7FFFF = 0" "th_flags t AND 0x7FC00 = 0"
  shows "th_ctor (set_hooks_illegal flags t) = th_ctor t" "th_dtor (set_hooks_illegal flags t) = th_dtor t"
    "th_move (set_hooks_illegal flags t) = th_move t" "th_move_ctor (set_hooks_illegal flags t) = th_move_ctor t"
    "th_ctor_move_dtor (set_hooks_illegal flags t) = th_ctor_move_dtor t"
    "th_move_dtor (set_hooks_illegal flags t) = th_move_dtor t"
    "th_flags (set_hooks_illegal flags t) = th_flags t"
proof -
  have a: "flags AND m = 0" if "m AND 0x7FFFF = m" for m
  proof -
    have "flags AND m = (flags AND 0x7FFFF) AND m" by (subst (1) that[symmetric]) (simp only: and.commute and.left_commute and.assoc)
    then show ?thesis using assms(1) by simp
  qed
  have b: "th_flags t AND m = 0" if "m AND 0x7FC00 = m" for m
  proof -
    have "th_flags t AND m = (th_flags t AND 0x7FC00) AND m" by (subst (1) that[symmetric]) (simp only: and.commute and.left_commute and.assoc)
    then show ?thesis using assms(2) by simp
  qed
  show "th_ctor (set_hooks_illegal flags t) = th_ctor t" "th_dtor (set_hooks_illegal flags t) = th_dtor t"
    "th_move (set_hooks_illegal flags t) = th_move t" "th_move_ctor (set_hooks_illegal flags t) = th_move_ctor t"
    "th_ctor_move_dtor (set_hooks_illegal flags t) = th_ctor_move_dtor t"
    "th_move_dtor (set_hooks_illegal flags t) = th_move_dtor t"
    "th_flags (set_hooks_illegal flags t) = th_flags t"
    by (simp_all add: set_hooks_illegal_def illegal_hook_def hook_flag_defs a b)
qed

lemma assign_hook_None [simp]: "assign_hook p None = p"
  by (simp add: assign_hook_def)

definition derived_hooks :: "'v ecs_type_hooks \<Rightarrow> 'v ecs_type_hooks \<Rightarrow> bool" where
  "derived_hooks h t \<longleftrightarrow> legal_flags t
     \<and> th_ctor t = (if th_ctor h = None \<and> (th_dtor h \<noteq> None \<or> th_copy h \<noteq> None \<or> th_move h \<noteq> None)
                   then Some flecs_default_ctor else th_ctor h)
     \<and> th_dtor t = th_dtor h \<and> th_move t = th_move h
     \<and> th_move_ctor t = (if th_move_ctor h = None \<and> th_move h \<noteq> None then Some flecs_default_move_ctor
                        else th_move_ctor h)
     \<and> th_ctor_move_dtor t =
         (if th_ctor_move_dtor h \<noteq> None then th_ctor_move_dtor h
          else if th_dtor h = None then (if th_move h = None \<and> th_move_ctor h = None then None else th_move_ctor t)
          else if th_move_ctor h \<noteq> None then Some flecs_default_move_ctor_w_dtor
          else if th_move h \<noteq> None then Some flecs_default_ctor_w_move_w_dtor else None)
     \<and> th_move_dtor t =
         (if th_move_dtor h \<noteq> None then th_move_dtor h
          else if th_move h \<noteq> None then
            (if th_dtor h \<noteq> None then Some flecs_default_move_w_dtor else Some flecs_default_move)
          else if th_dtor h \<noteq> None then Some flecs_default_dtor else None)"

lemma set_hooks_eq:
  assumes h: "user_hooks h" and ti: "plain_hooks (ti_hooks ti)" 
    and c: "ti_component ti = 0 \<or> ti_component ti = component"
    and sz: "ti_size ti \<noteq> 0 \<or> (\<exists>n. component_size = Some (Suc n))"
  obtains ti' where "ecs_set_hooks_id False component_size component ti h = Inr ti'"
    "derived_hooks h (ti_hooks ti')" "ti_component ti' = ti_component ti"
proof -
  have fl: "th_flags h = 0" using h by (simp add: user_hooks_def)
  have ch: "set_hooks_checks 0 h k = k" for k :: "'b res"
    by (simp add: set_hooks_checks_def hook_conflict_def)
  obtain ti1 where ti1: "set_hooks_size component_size ti = Inr ti1" "ti_hooks ti1 = ti_hooks ti"
    "ti_component ti1 = ti_component ti"
    using sz by (cases "ti_size ti = 0") (auto simp: set_hooks_size_def)
  define t0 where "t0 = set_hooks_ctors 0 h (set_hooks_assign h (ti_hooks ti))"
  define t1 where "t1 = fst (set_hooks_ctor_move_dtor 0 h t0)"
  define t2 where "t2 = fst (set_hooks_move_dtor 0 h t1)"
  have t1: "set_hooks_ctor_move_dtor 0 h t0 = (t1, 0)" unfolding t1_def set_hooks_cmd_0 by simp
  have t2: "set_hooks_move_dtor 0 h t1 = (t2, 0)" unfolding t2_def set_hooks_md_0 by simp
  obtain t3 flags where t3: "set_hooks_compare 0 h t2 = (t3, flags)" "flags AND 0x7FFFF = 0"
    "th_ctor t3 = th_ctor t2" "th_dtor t3 = th_dtor t2" "th_move t3 = th_move t2"
    "th_move_ctor t3 = th_move_ctor t2" "th_ctor_move_dtor t3 = th_ctor_move_dtor t2"
    "th_move_dtor t3 = th_move_dtor t2"
    by (rule set_hooks_compare_0)
  define t4 where "t4 = set_hooks_flags flags (th_flags (ti_hooks ti)) t3"
  have "flags AND 0x7FC00 = (flags AND 0x7FFFF) AND 0x7FC00"
    by (simp add: and.assoc)
  then have "flags AND 0x7FC00 = 0" using t3(2) by simp
  then have f4: "th_flags t4 AND 0x7FC00 = 0"
    unfolding t4_def by (intro set_hooks_flags_and) simp_all
  have t4: "th_ctor t4 = th_ctor t3" "th_dtor t4 = th_dtor t3" "th_move t4 = th_move t3"
    "th_move_ctor t4 = th_move_ctor t3" "th_ctor_move_dtor t4 = th_ctor_move_dtor t3"
    "th_move_dtor t4 = th_move_dtor t3"
    by (simp_all add: t4_def set_hooks_flags_def)
  define t5 where "t5 = set_hooks_illegal flags t4"
  note t5 = set_hooks_illegal_none[OF t3(2) f4, folded t5_def]
  have b: "th_flags t5 AND m = 0" if "m AND 0x7FC00 = m" for m
  proof -
    have "th_flags t5 AND m = (th_flags t5 AND 0x7FC00) AND m" by (subst (1) that[symmetric]) (simp only: and.commute and.left_commute and.assoc)
    then show ?thesis using f4 t5(7) by simp
  qed
  have res: "ecs_set_hooks_id False component_size component ti h = Inr (ti1\<lparr>ti_hooks := t5\<rparr>)"
    using c by (simp add: ecs_set_hooks_id_def fl ch ti1 t0_def[symmetric] t1 t2 t3(1) t4_def[symmetric] t5_def[symmetric])
  have l: "legal_flags t5" by (simp add: legal_flags_def hook_flag_defs b)
  have k: "th_ctor t5 = th_ctor t0" "th_dtor t5 = th_dtor t0" "th_move t5 = th_move t0" "th_move_ctor t5 = th_move_ctor t0"
    unfolding t5 t4 t3 t2_def t1_def set_hooks_cmd_0 set_hooks_md_0 by simp_all
  have t0: "th_ctor t0 = (if th_ctor h = None \<and> (th_dtor h \<noteq> None \<or> th_copy h \<noteq> None \<or> th_move h \<noteq> None)
                   then Some flecs_default_ctor else th_ctor h)" "th_dtor t0 = th_dtor h" "th_move t0 = th_move h"
    "th_move_ctor t0 = (if th_move_ctor h = None \<and> th_move h \<noteq> None then Some flecs_default_move_ctor
                        else th_move_ctor h)"
    "th_ctor_move_dtor t0 = th_ctor_move_dtor h" "th_move_dtor t0 = th_move_dtor h"
    using ti by (simp_all add: t0_def set_hooks_ctors_def Let_def set_hooks_assign_def plain_hooks_def)
  have "th_ctor_move_dtor t5 = th_ctor_move_dtor t1"
    unfolding t5 t4 t3 t2_def set_hooks_md_0 by simp
  also have "\<dots> = (if th_ctor_move_dtor h \<noteq> None then th_ctor_move_dtor h
          else if th_dtor h = None then (if th_move h = None \<and> th_move_ctor h = None then None else th_move_ctor t0)
          else if th_move_ctor h \<noteq> None then Some flecs_default_move_ctor_w_dtor
          else if th_move h \<noteq> None then Some flecs_default_ctor_w_move_w_dtor else None)"
    unfolding t1_def set_hooks_cmd_0 by (cases "th_ctor_move_dtor h"; cases "th_dtor h"; cases "th_move h"; cases "th_move_ctor h") (simp_all add: t0(5))
  finally have cm: "th_ctor_move_dtor t5 = \<dots>" .
  have "th_move_dtor t1 = th_move_dtor t0" unfolding t1_def set_hooks_cmd_0 by simp
  then have md: "th_move_dtor t5 = (if th_move_dtor h \<noteq> None then th_move_dtor h
          else if th_move h \<noteq> None then
            (if th_dtor h \<noteq> None then Some flecs_default_move_w_dtor else Some flecs_default_move)
          else if th_dtor h \<noteq> None then Some flecs_default_dtor else None)"
    unfolding t5 t4 t3 t2_def set_hooks_md_0 by (cases "th_move_dtor h"; cases "th_dtor h"; cases "th_move h") (simp_all add: t0(6))
  have "derived_hooks h t5"
    unfolding derived_hooks_def cm md k t0 by (intro conjI l refl)
  with res ti1 show ?thesis by (intro that[of "ti1\<lparr>ti_hooks := t5\<rparr>"]) simp_all
qed

lemma hook_depth_Suc: "hook_depth = Suc (Suc (Suc 0))" by simp

lemma legal_flagsD:
  assumes "legal_flags t"
  shows "th_flags t AND ECS_TYPE_HOOK_CTOR_ILLEGAL = 0" "th_flags t AND ECS_TYPE_HOOK_DTOR_ILLEGAL = 0"
    "th_flags t AND ECS_TYPE_HOOK_MOVE_ILLEGAL = 0" "th_flags t AND ECS_TYPE_HOOK_MOVE_CTOR_ILLEGAL = 0"
    "th_flags t AND ECS_TYPE_HOOK_CTOR_MOVE_DTOR_ILLEGAL = 0" "th_flags t AND ECS_TYPE_HOOK_MOVE_DTOR_ILLEGAL = 0"
  using assms by (simp_all add: legal_flags_def)

lemma derived_ctor:
  assumes h: "user_hooks h" and d: "derived_hooks h (ti_hooks ti)" and c: "th_ctor (ti_hooks ti) \<noteq> None"
  obtains v where "\<And>c. call_xtor L_ctor (th_ctor (ti_hooks ti)) c = Inr (Some v, [L_ctor])"
proof (cases "th_ctor h")
  case None
  with c d have "th_ctor (ti_hooks ti) = Some flecs_default_ctor" by (auto simp: derived_hooks_def split: if_splits)
  then show ?thesis by (intro that[of 0]) simp
next
  case (Some p)
  with h obtain f where f: "p = Xtor_user f" "xtor_makes f" by (auto simp: user_hooks_def user_xtor_def)
  from f(2) obtain v where v: "\<And>c. f c = Inr (Some v)" by (auto simp: xtor_makes_def)
  from d Some f(1) have "th_ctor (ti_hooks ti) = Some (Xtor_user f)" by (simp add: derived_hooks_def)
  then show ?thesis using v by (intro that[of v]) simp
qed

lemma derived_dtor:
  assumes h: "user_hooks h" and d: "derived_hooks h t" and c: "th_dtor h \<noteq> None"
  obtains c where "call_xtor L_dtor (th_dtor t) (Some x) = Inr (c, [L_dtor])"
proof -
  from h c obtain f where f: "th_dtor h = Some (Xtor_user f)" "xtor_ends f"
    by (auto simp: user_hooks_def user_xtor_def)
  with d have "th_dtor t = Some (Xtor_user f)" by (simp add: derived_hooks_def)
  moreover from f(2) obtain c where "f (Some x) = Inr c" by (auto simp: xtor_ends_def)
  ultimately show ?thesis by (intro that[of c]) simp
qed

lemma derived_move:
  assumes h: "user_hooks h" and d: "derived_hooks h t" and c: "th_move h \<noteq> None"
  obtains w where "call_move t (Suc n) L_move (th_move t) (Some x) (Some v) = Inr (Some v, Some w, [L_move])"
proof -
  from h c obtain f where f: "th_move h = Some (Move_user f)" "moves f"
    by (auto simp: user_hooks_def user_move_def)
  from f(2) obtain w where w: "f (Some x) (Some v) = Inr (Some v, Some w)" by (auto simp: moves_def)
  from f d have "th_move t = Some (Move_user f)" by (simp add: derived_hooks_def)
  with w show ?thesis by (intro that[of w]) simp
qed

lemma derived_move_ctor:
  assumes h: "user_hooks h" and d: "derived_hooks h (ti_hooks ti)" and c: "th_ctor (ti_hooks ti) \<noteq> None"
    and m: "th_move_ctor h \<noteq> None \<or> th_move h \<noteq> None"
  obtains w ls where "call_move (ti_hooks ti) (Suc (Suc n)) L_move_ctor (th_move_ctor (ti_hooks ti)) d (Some v)
      = Inr (Some v, Some w, ls)" "life_sum ls = 1"
proof (cases "th_move_ctor h")
  case None
  with m d have p: "th_move h \<noteq> None" "th_move_ctor (ti_hooks ti) = Some flecs_default_move_ctor"
    by (simp_all add: derived_hooks_def)
  obtain x where x: "\<And>c. call_xtor L_ctor (th_ctor (ti_hooks ti)) c = Inr (Some x, [L_ctor])"
    using derived_ctor[OF h assms(2) c] by blast
  obtain w where w: "call_move (ti_hooks ti) (Suc n) L_move (th_move (ti_hooks ti)) (Some x) (Some v) = Inr (Some v, Some w, [L_move])"
    using derived_move[OF h assms(2) p(1)] .
  show ?thesis by (rule that[of w "[L_ctor, L_move]"]) (simp_all add: p x w life_sum_def)
next
  case (Some p)
  with h obtain f where f: "p = Move_user f" "moves_ctor f"
    by (auto simp: user_hooks_def user_move_def)
  from f(2) obtain w where w: "f d (Some v) = Inr (Some v, Some w)" unfolding moves_ctor_def by blast
  from f Some assms(2) have "th_move_ctor (ti_hooks ti) = Some (Move_user f)" by (simp add: derived_hooks_def)
  with w show ?thesis by (intro that[of w "[L_move_ctor]"]) (simp_all add: numeral_3_eq_3 life_sum_def)
qed

lemma derived_ctor_move_dtor:
  assumes h: "user_hooks h" and d: "derived_hooks h (ti_hooks ti)" and c: "th_ctor (ti_hooks ti) \<noteq> None"
    and m: "th_ctor_move_dtor (ti_hooks ti) \<noteq> None"
  obtains c ls where "call_move (ti_hooks ti) hook_depth L_ctor_move_dtor (th_ctor_move_dtor (ti_hooks ti)) d (Some v)
      = Inr (Some v, c, ls)" "th_dtor h \<noteq> None \<Longrightarrow> life_sum ls = 0"
proof (cases "th_ctor_move_dtor h")
  case (Some p)
  with h obtain f where f: "p = Move_user f" "moves_ctor_dtor f"
    by (auto simp: user_hooks_def user_move_def)
  from f(2) obtain c where w: "f d (Some v) = Inr (Some v, c)" unfolding moves_ctor_dtor_def by blast
  from f Some assms(2) have "th_ctor_move_dtor (ti_hooks ti) = Some (Move_user f)" by (simp add: derived_hooks_def)
  with w show ?thesis by (intro that[of c "[L_ctor_move_dtor]"]) (simp_all add: numeral_3_eq_3 life_sum_def)
next
  case None
  note cmd = None
  show ?thesis
  proof (cases "th_dtor h = None")
    case True
    with cmd m d have p: "th_ctor_move_dtor (ti_hooks ti) = th_move_ctor (ti_hooks ti)" "th_move_ctor h \<noteq> None \<or> th_move h \<noteq> None"
      by (auto simp: derived_hooks_def split: if_splits)
    have "\<exists>w ls. call_move (ti_hooks ti) hook_depth L_ctor_move_dtor (th_move_ctor (ti_hooks ti)) d (Some v)
      = Inr (Some v, Some w, ls)"
    proof -
      obtain w ls where w: "call_move (ti_hooks ti) (Suc (Suc (Suc 0))) L_move_ctor (th_move_ctor (ti_hooks ti)) d (Some v)
      = Inr (Some v, Some w, ls)" by (rule derived_move_ctor[OF h assms(2) c p(2)])
      show ?thesis
      proof (cases "th_move_ctor (ti_hooks ti)")
        case None with w show ?thesis by (simp add: numeral_3_eq_3)
      next
        case (Some q) with w show ?thesis by (cases q) (auto simp: res_elims numeral_3_eq_3)
      qed
    qed
    then show ?thesis using that True p(1) by auto
  next
    case False
    obtain x where x: "\<And>c. call_xtor L_ctor (th_ctor (ti_hooks ti)) c = Inr (Some x, [L_ctor])"
      using derived_ctor[OF h assms(2) c] by blast
    show ?thesis
    proof (cases "th_move_ctor h")
      case (Some q)
      with False cmd d have p: "th_ctor_move_dtor (ti_hooks ti) = Some flecs_default_move_ctor_w_dtor" by (auto simp: derived_hooks_def)
      obtain w ls where w: "call_move (ti_hooks ti) (Suc (Suc 0)) L_move_ctor (th_move_ctor (ti_hooks ti)) d (Some v)
      = Inr (Some v, Some w, ls)" "life_sum ls = 1"
        by (rule derived_move_ctor[OF h assms(2) c, where n = 0 and d = d and v = v]) (simp_all add: Some)
      obtain c where c: "call_xtor L_dtor (th_dtor (ti_hooks ti)) (Some w) = Inr (c, [L_dtor])"
        using derived_dtor[OF h d False] .
      show ?thesis
        by (rule that[of c "ls @ [L_dtor]"]) (use w(2) in \<open>simp_all add: numeral_3_eq_3 p c w(1) life_sum_def\<close>)
    next
      case None
      with False cmd d m have p: "th_ctor_move_dtor (ti_hooks ti) = Some flecs_default_ctor_w_move_w_dtor" "th_move h \<noteq> None"
        by (auto simp: derived_hooks_def split: if_splits)
      obtain w where w: "call_move (ti_hooks ti) (Suc (Suc 0)) L_move (th_move (ti_hooks ti)) (Some x) (Some v) = Inr (Some v, Some w, [L_move])"
        using derived_move[OF h d p(2)] .
      obtain c where c: "call_xtor L_dtor (th_dtor (ti_hooks ti)) (Some w) = Inr (c, [L_dtor])"
        using derived_dtor[OF h d False] .
      show ?thesis
        by (rule that[of c "[L_ctor, L_move, L_dtor]"]) (simp_all add: numeral_3_eq_3 p c w x life_sum_def)
    qed
  qed
qed

lemma derived_move_dtor:
  assumes h: "user_hooks h" and d: "derived_hooks h t" and m: "th_move_dtor t \<noteq> None"
  obtains c ls where "call_move t hook_depth L_move_dtor (th_move_dtor t) (Some x) (Some v)
      = Inr (Some v, c, ls)" "th_dtor h \<noteq> None \<Longrightarrow> life_sum ls = - 1"
proof (cases "th_move_dtor h")
  case (Some p)
  with h obtain f where f: "p = Move_user f" "moves_dtor f"
    by (auto simp: user_hooks_def user_move_def)
  from f(2) obtain c where w: "f (Some x) (Some v) = Inr (Some v, c)" unfolding moves_dtor_def by blast
  from f Some d have "th_move_dtor t = Some (Move_user f)" by (simp add: derived_hooks_def)
  with w show ?thesis by (intro that[of c "[L_move_dtor]"]) (simp_all add: numeral_3_eq_3 life_sum_def)
next
  case None
  note md = None
  show ?thesis
  proof (cases "th_move h")
    case None
    with md m d have p: "th_move_dtor t = Some flecs_default_dtor" "th_dtor h \<noteq> None"
      by (auto simp: derived_hooks_def split: if_splits)
    obtain c where "call_xtor L_dtor (th_dtor t) (Some x) = Inr (c, [L_dtor])"
      using derived_dtor[OF h d p(2)] .
    then show ?thesis
      by (intro that[of "Some v" "[L_dtor]"]) (simp_all add: numeral_3_eq_3 p life_sum_def)
  next
    case (Some q)
    then have mv: "th_move h \<noteq> None" by simp
    obtain w where w: "call_move t (Suc (Suc 0)) L_move (th_move t) (Some x) (Some v) = Inr (Some v, Some w, [L_move])"
      using derived_move[OF h d mv] .
    show ?thesis
    proof (cases "th_dtor h = None")
      case True
      with md Some d have "th_move_dtor t = Some flecs_default_move" by (simp add: derived_hooks_def)
      with w True show ?thesis by (intro that[of "Some w" "[L_move]"]) (simp_all add: numeral_3_eq_3)
    next
      case False
      with md Some d have p: "th_move_dtor t = Some flecs_default_move_w_dtor" by (simp add: derived_hooks_def)
      obtain c where "call_xtor L_dtor (th_dtor t) (Some w) = Inr (c, [L_dtor])"
        using derived_dtor[OF h d False] .
      with w p show ?thesis
        by (intro that[of c "[L_move, L_dtor]"]) (simp_all add: numeral_3_eq_3 life_sum_def)
    qed
  qed
qed

lemma ti_default_eq:
  assumes "\<And>c. type_info_ctor ti c = Inr (Some v, ls)"
  shows "ti_default ti = Some v"
  using assms by (simp add: ti_default_def)

lemma derived_lawful:
  assumes h: "user_hooks h" and d: "derived_hooks h (ti_hooks ti)"
  shows "ti_lawful ti"
proof (cases "th_ctor (ti_hooks ti) = None")
  case True
  with d have "th_ctor h = None" "th_dtor h = None" "th_move h = None" by (auto simp: derived_hooks_def split: if_splits)
  with h have "th_move_ctor h = None" "th_ctor_move_dtor h = None" "th_move_dtor h = None"
    by (auto simp: user_hooks_def)
  with True d \<open>th_dtor h = None\<close> \<open>th_move h = None\<close> show ?thesis
    by (simp add: ti_lawful_def plain_hooks_def derived_hooks_def)
next
  case c: False
  have l: "legal_flags (ti_hooks ti)" using d by (simp add: derived_hooks_def)
  note lf = legal_flagsD[OF l]
  obtain v0 where v0: "\<And>c. call_xtor L_ctor (th_ctor (ti_hooks ti)) c = Inr (Some v0, [L_ctor])"
    using derived_ctor[OF h d c] by blast
  have ct: "type_info_ctor ti m = Inr (Some v0, [L_ctor])" for m
    using c by (simp add: type_info_ctor_def lf v0 Let_def)
  then have df: "ti_default ti = Some v0" by (rule ti_default_eq)
  have "\<exists>c ls. type_info_dtor ti (Some x) = Inr (c, ls)" for x
  proof (cases "th_dtor h = None")
    case False
    obtain c where "call_xtor L_dtor (th_dtor (ti_hooks ti)) (Some x) = Inr (c, [L_dtor])"
      using derived_dtor[OF h d False] .
    then show ?thesis by (simp add: type_info_dtor_def lf Let_def)
  qed (use d in \<open>simp add: type_info_dtor_def lf derived_hooks_def\<close>)
  moreover have "\<exists>w ls. type_info_move ti (Some x) (Some v) = Inr (Some v, Some w, ls)" for x v
  proof (cases "th_move h = None")
    case False
    obtain w where "call_move (ti_hooks ti) hook_depth L_move (th_move (ti_hooks ti)) (Some x) (Some v) = Inr (Some v, Some w, [L_move])"
      unfolding hook_depth_Suc using derived_move[OF h d False] .
    then show ?thesis by (simp add: type_info_move_def lf Let_def)
  qed (use d in \<open>simp add: type_info_move_def lf derived_hooks_def\<close>)
  moreover have "\<exists>w ls. type_info_move_ctor ti m (Some v) = Inr (Some v, Some w, ls)" for m v
  proof (cases "th_move_ctor h \<noteq> None \<or> th_move h \<noteq> None")
    case True
    obtain w ls where "call_move (ti_hooks ti) hook_depth L_move_ctor (th_move_ctor (ti_hooks ti)) m (Some v) = Inr (Some v, Some w, ls)"
      unfolding hook_depth_Suc by (rule derived_move_ctor[OF h d c True])
    then show ?thesis by (simp add: type_info_move_ctor_def lf Let_def)
  qed (use d in \<open>simp add: type_info_move_ctor_def lf derived_hooks_def\<close>)
  moreover have "\<exists>c ls. type_info_ctor_move_dtor ti m (Some v) = Inr (Some v, c, ls)" for m v
  proof (cases "th_ctor_move_dtor (ti_hooks ti) = None")
    case False
    obtain w ls where "call_move (ti_hooks ti) hook_depth L_ctor_move_dtor (th_ctor_move_dtor (ti_hooks ti)) m (Some v) = Inr (Some v, w, ls)"
      by (rule derived_ctor_move_dtor[OF h d c False])
    then show ?thesis by (simp add: type_info_ctor_move_dtor_def lf Let_def)
  qed (simp add: type_info_ctor_move_dtor_def lf)
  moreover have "\<exists>c ls. type_info_move_dtor ti (Some x) (Some v) = Inr (Some v, c, ls)" for x v
  proof (cases "th_move_dtor (ti_hooks ti) = None")
    case False
    obtain w ls where "call_move (ti_hooks ti) hook_depth L_move_dtor (th_move_dtor (ti_hooks ti)) (Some x) (Some v) = Inr (Some v, w, ls)"
      by (rule derived_move_dtor[OF h d False])
    then show ?thesis by (simp add: type_info_move_dtor_def lf Let_def)
  qed (simp add: type_info_move_dtor_def lf)
  ultimately have "ti_live ti" using ct df by (simp add: ti_live_def)
  with c l show ?thesis unfolding ti_lawful_def by (auto simp del: not_None_eq)
qed

lemma call_xtor_events: "call_xtor k p c = Inr (c', ls) \<Longrightarrow> ls = [k]"
  by (cases "(k, p, c)" rule: call_xtor.cases) (auto simp: res_elims)

lemma user_move_events:
  "call_move t (Suc n) k (Some (Move_user f)) d s = Inr (d', s', ls) \<Longrightarrow> ls = [k]"
  by (auto simp: res_elims)

lemma derived_counted:
  assumes h: "user_hooks h" and d: "derived_hooks h (ti_hooks ti)" and dt: "th_dtor h \<noteq> None" and mv: "th_move h \<noteq> None"
  shows "ti_counted ti"
proof -
  have l: "legal_flags (ti_hooks ti)" using d by (simp add: derived_hooks_def)
  note lf = legal_flagsD[OF l]
  obtain f where f: "th_move (ti_hooks ti) = Some (Move_user f)"
    using h mv d by (auto simp: user_hooks_def user_move_def derived_hooks_def)
  have c: "th_ctor (ti_hooks ti) \<noteq> None" and dn: "th_dtor (ti_hooks ti) \<noteq> None"
    using d dt by (auto simp: derived_hooks_def)
  have mc: "th_move_ctor (ti_hooks ti) = Some flecs_default_move_ctor \<or> (\<exists>g. th_move_ctor (ti_hooks ti) = Some (Move_user g))"
  proof (cases "th_move_ctor h")
    case (Some q)
    with h obtain g where "q = Move_user g" by (auto simp: user_hooks_def user_move_def)
    with Some d show ?thesis by (simp add: derived_hooks_def)
  qed (use d mv in \<open>simp add: derived_hooks_def\<close>)
  have mcs: "life_sum ls = 1"
    if "call_move (ti_hooks ti) (Suc (Suc n)) L_move_ctor (th_move_ctor (ti_hooks ti)) x y = Inr (x', y', ls)" for n x y x' y' ls
    using mc that by (auto simp: res_elims f life_sum_def dest!: call_xtor_events)
  have cmd: "th_ctor_move_dtor (ti_hooks ti) = Some flecs_default_move_ctor_w_dtor
    \<or> th_ctor_move_dtor (ti_hooks ti) = Some flecs_default_ctor_w_move_w_dtor
    \<or> (\<exists>g. th_ctor_move_dtor (ti_hooks ti) = Some (Move_user g))"
  proof (cases "th_ctor_move_dtor h")
    case (Some q)
    with h obtain g where "q = Move_user g" by (auto simp: user_hooks_def user_move_def)
    with Some d show ?thesis by (simp add: derived_hooks_def)
  qed (use d mv dt in \<open>cases "th_move_ctor h"; simp add: derived_hooks_def\<close>)
  have md: "th_move_dtor (ti_hooks ti) = Some flecs_default_move_w_dtor
    \<or> (\<exists>g. th_move_dtor (ti_hooks ti) = Some (Move_user g))"
  proof (cases "th_move_dtor h")
    case (Some q)
    with h obtain g where "q = Move_user g" by (auto simp: user_hooks_def user_move_def)
    with Some d show ?thesis by (simp add: derived_hooks_def)
  qed (use d mv dt in \<open>simp add: derived_hooks_def\<close>)
  show ?thesis
    unfolding ti_counted_def
  proof (intro conjI allI impI)
    show "th_dtor (ti_hooks ti) \<noteq> None" by (rule dn)
    show "th_move_ctor (ti_hooks ti) \<noteq> None" using mc by auto
  next
    fix x y ls assume "type_info_ctor ti x = Inr (y, ls)"
    with c show "life_sum ls = 1" by (auto simp: type_info_ctor_def lf life_sum_def dest!: call_xtor_events)
  next
    fix x y ls assume "type_info_dtor ti x = Inr (y, ls)"
    with dn show "life_sum ls = - 1" by (auto simp: type_info_dtor_def lf life_sum_def dest!: call_xtor_events)
  next
    fix x y x' y' ls assume "type_info_move_ctor ti x y = Inr (x', y', ls)"
    with mc have "call_move (ti_hooks ti) hook_depth L_move_ctor (th_move_ctor (ti_hooks ti)) x y = Inr (x', y', ls)"
      by (auto simp: type_info_move_ctor_def lf)
    then show "life_sum ls = 1" unfolding hook_depth_Suc by (rule mcs)
  next
    fix x y x' y' ls assume "type_info_ctor_move_dtor ti x y = Inr (x', y', ls)"
    with cmd have "call_move (ti_hooks ti) hook_depth L_ctor_move_dtor (th_ctor_move_dtor (ti_hooks ti)) x y = Inr (x', y', ls)"
      by (auto simp: type_info_ctor_move_dtor_def lf)
    with cmd show "life_sum ls = 0" unfolding hook_depth_Suc
      by (auto simp: res_elims f life_sum_def dest!: call_xtor_events mcs[unfolded life_sum_def])
  next
    fix x y x' y' ls assume "type_info_move_dtor ti x y = Inr (x', y', ls)"
    with md have "call_move (ti_hooks ti) hook_depth L_move_dtor (th_move_dtor (ti_hooks ti)) x y = Inr (x', y', ls)"
      by (auto simp: type_info_move_dtor_def lf)
    with md show "life_sum ls = - 1" unfolding hook_depth_Suc
      by (auto simp: res_elims f life_sum_def dest!: call_xtor_events)
  qed
qed

text \<open>
  Claim C13: registering a component's lifecycle hooks for the first time succeeds and completes them to a lawful set,
  if the hooks of the user (\<open>user_hooks\<close>) work and set no flags, and move\_ctor, ctor\_move\_dtor and
  move\_dtor are only given together with a ctor, a dtor or a move. Constructing then always yields the default value, destructing an object and each of the four ways of moving a value succeed, and a
  move delivers the value. Only if the user gives a destructor and a move, the derived hooks are also shown to keep
  the number of objects right: constructing and move\_ctor add one, dtor and move\_dtor remove one,
  ctor\_move\_dtor changes nothing. With a destructor alone they do not.
\<close>

theorem set_hooks_lawful:
  fixes h :: "('v::zero) ecs_type_hooks"
  assumes "user_hooks h" "plain_hooks (ti_hooks ti)"
    "ti_component ti = 0 \<or> ti_component ti = component"
    "ti_size ti \<noteq> 0 \<or> (\<exists>n. component_size = Some (Suc n))"
  shows "\<exists>ti'. ecs_set_hooks_id False component_size component ti h = Inr ti' \<and> ti_lawful ti'
    \<and> (th_dtor h \<noteq> None \<and> th_move h \<noteq> None \<longrightarrow> ti_counted ti')"
proof -
  obtain ti' where "ecs_set_hooks_id False component_size component ti h = Inr ti'" "derived_hooks h (ti_hooks ti')"
    by (rule set_hooks_eq[OF assms])
  with assms(1) derived_lawful[of h ti'] derived_counted[of h ti'] show ?thesis by blast
qed

definition sample_hooks :: "nat ecs_type_hooks" where
  "sample_hooks = no_hooks\<lparr>
     th_dtor := Some (Xtor_user (\<lambda>_. Inr None)),
     th_move := Some (Move_user (\<lambda>d s. Inr (s, Some 0)))\<rparr>"

definition sample_type :: "nat ecs_type_info" where
  "sample_type = \<lparr>ti_size = 0, ti_hooks = no_hooks, ti_component = 0\<rparr>"

lemma sample_user_hooks: "user_hooks sample_hooks"
  by (simp add: user_hooks_def user_xtor_def user_move_def sample_hooks_def no_hooks_def xtor_ends_def moves_def)

lemma plain_no_hooks: "plain_hooks no_hooks"
  by (simp add: plain_hooks_def no_hooks_def)

theorem set_hooks_lawful_witness:
  "\<exists>ti'. ecs_set_hooks_id False (Some 8) 500 sample_type sample_hooks = Inr ti' \<and> ti_lawful ti' \<and> ti_counted ti'"
  using set_hooks_lawful[of sample_hooks sample_type 500 "Some 8"] sample_user_hooks plain_no_hooks
  by (auto simp: sample_type_def sample_hooks_def no_hooks_def)
end
