(* ===== verification/Table_Storage.thy ===== *)
theory Table_Storage
  imports Type_Hooks Ecs_Bitset Ecs_Id Entity_Index
begin

text \<open>
  The archetype tables of storage/table.c: a table has a sorted list of ids, one column of
  component memory for every id that has data, one bit set for every toggle id, and the ids of the
  entities in its rows. This theory has the operations that work on one or two tables; the
  entity index that points back into the tables is in World\_Storage. Memory of a column is the
  array of cells of the vectors of Ecs\_Vec, and elem\_size, which only scales addresses, is left
  out. The steps of an operation give the calls it makes to code outside the storage: lifecycle
  hooks and the on\_add and on\_remove callbacks, in order; callbacks do not change the storage.
  A table with an IsA pair can have values to copy from a base entity; that part is not modelled,
  and ECS\_UNSUPPORTED marks it. world-\textgreater table\_version, a copy of the version counters
  that queries read, is left out as well.
\<close>

section \<open>State\<close>

definition EcsTableHasIsA :: u32 where "EcsTableHasIsA = 0x4"
definition EcsTableHasCtors :: u32 where "EcsTableHasCtors = 0x800"
definition EcsTableHasDtors :: u32 where "EcsTableHasDtors = 0x1000"
definition EcsTableHasCopy :: u32 where "EcsTableHasCopy = 0x2000"
definition EcsTableHasMove :: u32 where "EcsTableHasMove = 0x4000"
definition EcsTableHasToggle :: u32 where "EcsTableHasToggle = 0x8000"
definition EcsTableHasSparse :: u32 where "EcsTableHasSparse = 0x200000"

definition EcsTableHasTraversable :: u32 where "EcsTableHasTraversable = push_bit 27 1"

definition EcsTableHasLifecycle :: u32 where "EcsTableHasLifecycle = EcsTableHasCtors OR EcsTableHasDtors"
definition EcsTableIsComplex :: u32 where
  "EcsTableIsComplex = EcsTableHasLifecycle OR EcsTableHasToggle OR EcsTableHasSparse"

text \<open>Calls out of the storage; the numbers are tables and rows.\<close>

datatype storage_event =
    Ev_life u64 lifecycle
  | Ev_on_add u64 "u64 list" nat
  | Ev_on_remove u64 "u64 list" nat
  | Ev_actions_new nat nat
  | Ev_actions_move_remove nat nat nat
  | Ev_actions_move_add nat nat nat
  | Ev_update_component_monitors

record 'v ecs_column =
  col_data :: "'v option list"
  col_ti :: "'v ecs_type_info"

record 'v ecs_table =
  t_type :: "u64 list"
  t_column_map :: "int list"
  t_columns :: "'v ecs_column list"
  t_entities :: "u64 option list"
  t_count :: nat
  t_size :: nat
  t_flags :: u32
  t_bs_columns :: "ecs_bitset list"
  t_bs_offset :: nat
  t_lock :: i32
  t_traversable :: int
  t_dirty :: "u32 list"
  t_version :: "16 word"

definition flecs_type_info_flags :: "'v ecs_type_info \<Rightarrow> u32" where
  "flecs_type_info_flags ti =
     (let h = ti_hooks ti;
          flags = 0;
          flags = (if th_ctor h \<noteq> None then flags OR EcsTableHasCtors else flags);
          flags = (if th_on_add h then flags OR EcsTableHasCtors else flags);
          flags = (if th_dtor h \<noteq> None then flags OR EcsTableHasDtors else flags);
          flags = (if th_on_remove h then flags OR EcsTableHasDtors else flags);
          flags = (if th_copy h \<noteq> None then flags OR EcsTableHasCopy else flags)
      in if th_move h \<noteq> None then flags OR EcsTableHasMove else flags)"

text \<open>The bits of a table's flags that the operations test.\<close>

definition table_has :: "'v ecs_table \<Rightarrow> u32 \<Rightarrow> bool" where
  "table_has t f \<longleftrightarrow> t_flags t AND f \<noteq> 0"

section \<open>Columns, hooks and the vectors over the table's arrays\<close>

definition ecs_vec_from_column_ext :: "'v ecs_column \<Rightarrow> nat \<Rightarrow> nat \<Rightarrow> 'v ecs_vec" where
  "ecs_vec_from_column_ext col cnt sz = \<lparr>varray = col_data col, vcount = cnt, vsize = sz\<rparr>"

definition ecs_vec_from_column :: "'v ecs_column \<Rightarrow> 'v ecs_table \<Rightarrow> 'v ecs_vec" where
  "ecs_vec_from_column col t = ecs_vec_from_column_ext col (t_count t) (t_size t)"

definition ecs_vec_from_entities :: "'v ecs_table \<Rightarrow> u64 ecs_vec" where
  "ecs_vec_from_entities t = \<lparr>varray = t_entities t, vcount = t_count t, vsize = t_size t\<rparr>"

definition flecs_column_id :: "'v ecs_table \<Rightarrow> nat \<Rightarrow> u64 res" where
  "flecs_column_id t column_index =
     res_bind (mem_get (t_column_map t) (length (t_type t) + column_index)) (\<lambda>type_index.
     res_bind (int_index type_index) (\<lambda>type_index. mem_get (t_type t) type_index))"

text \<open>The callback gets the id of the column; the checks are those before the call.\<close>

definition flecs_table_invoke_hook ::
    "'v ecs_table \<Rightarrow> (u64 \<Rightarrow> u64 list \<Rightarrow> nat \<Rightarrow> storage_event) \<Rightarrow> nat \<Rightarrow> u64 list \<Rightarrow> nat \<Rightarrow> storage_event list res" where
  "flecs_table_invoke_hook t callback column_index entities row =
     ecs_assert (column_index < length (t_columns t)) ECS_INTERNAL_ERROR
     (res_bind (mem_get (t_column_map t) (length (t_type t) + column_index)) (\<lambda>type_index.
      ecs_assert (0 \<le> type_index) ECS_INTERNAL_ERROR
      (ecs_assert (type_index < int (length (t_type t))) ECS_INTERNAL_ERROR
      (res_bind (mem_get (t_type t) (nat type_index)) (\<lambda>i. Inr [callback i entities row])))))"

definition life_events :: "'v ecs_type_info \<Rightarrow> lifecycle list \<Rightarrow> storage_event list" where
  "life_events ti ls = map (Ev_life (ti_component ti)) ls"

text \<open>A constructor or destructor for \<open>n\<close> elements from \<open>row\<close> on.\<close>

fun xtor_cells ::
    "('v option \<Rightarrow> ('v option \<times> lifecycle list) res) \<Rightarrow> 'v option list \<Rightarrow> nat \<Rightarrow> nat
     \<Rightarrow> ('v option list \<times> lifecycle list) res" where
  "xtor_cells f cells row 0 = Inr (cells, [])"
| "xtor_cells f cells row (Suc n) =
     res_bind (mem_get cells row) (\<lambda>c.
     res_bind (f c) (\<lambda>(c, l1).
     res_bind (mem_set cells row c) (\<lambda>cells.
     res_bind (xtor_cells f cells (Suc row) n) (\<lambda>(cells, l2). Inr (cells, l1 @ l2)))))"

text \<open>A move of \<open>n\<close> elements from one array to another.\<close>

fun move_cells ::
    "('v option \<Rightarrow> 'v option \<Rightarrow> 'v moved) \<Rightarrow> 'v option list \<Rightarrow> nat \<Rightarrow> 'v option list \<Rightarrow> nat \<Rightarrow> nat
     \<Rightarrow> ('v option list \<times> 'v option list \<times> lifecycle list) res" where
  "move_cells f dst i src j 0 = Inr (dst, src, [])"
| "move_cells f dst i src j (Suc n) =
     res_bind (mem_get dst i) (\<lambda>d.
     res_bind (mem_get src j) (\<lambda>s.
     res_bind (f d s) (\<lambda>(d, s, l1).
     res_bind (mem_set dst i d) (\<lambda>dst.
     res_bind (mem_set src j s) (\<lambda>src.
     res_bind (move_cells f dst (Suc i) src (Suc j) n) (\<lambda>(dst, src, l2).
     Inr (dst, src, l1 @ l2)))))))"

definition flecs_table_invoke_ctor_for_array ::
    "('v::zero) ecs_type_info \<Rightarrow> 'v option list \<Rightarrow> nat \<Rightarrow> nat \<Rightarrow> ('v option list \<times> storage_event list) res" where
  "flecs_table_invoke_ctor_for_array ti array row cnt =
     res_bind (xtor_cells (type_info_ctor ti) array row cnt) (\<lambda>(array, ls). Inr (array, life_events ti ls))"

text \<open>The memory of a column that has none is the null pointer.\<close>

definition flecs_table_invoke_ctor ::
    "('v::zero) ecs_column \<Rightarrow> nat \<Rightarrow> nat \<Rightarrow> ('v ecs_column \<times> storage_event list) res" where
  "flecs_table_invoke_ctor column row cnt =
     ecs_assert (col_data column \<noteq> []) ECS_INTERNAL_ERROR
     (res_bind (flecs_table_invoke_ctor_for_array (col_ti column) (col_data column) row cnt) (\<lambda>(array, evs).
      Inr (column\<lparr>col_data := array\<rparr>, evs)))"

definition flecs_table_invoke_dtor ::
    "('v::zero) ecs_column \<Rightarrow> nat \<Rightarrow> nat \<Rightarrow> ('v ecs_column \<times> storage_event list) res" where
  "flecs_table_invoke_dtor column row cnt =
     ecs_assert (col_data column \<noteq> []) ECS_INTERNAL_ERROR
     (res_bind (xtor_cells (type_info_dtor (col_ti column)) (col_data column) row cnt) (\<lambda>(array, ls).
      Inr (column\<lparr>col_data := array\<rparr>, life_events (col_ti column) ls)))"

definition flecs_table_invoke_add_hooks ::
    "('v::zero) ecs_table \<Rightarrow> nat \<Rightarrow> 'v ecs_column \<Rightarrow> u64 list \<Rightarrow> nat \<Rightarrow> nat \<Rightarrow> bool
     \<Rightarrow> ('v ecs_column \<times> storage_event list) res" where
  "flecs_table_invoke_add_hooks t column_index column entities row cnt construct =
     res_bind (if construct then flecs_table_invoke_ctor column row cnt else Inr (column, []))
       (\<lambda>(column, e1).
     res_bind (if th_on_add (ti_hooks (col_ti column))
               then flecs_table_invoke_hook t Ev_on_add column_index entities row else Inr []) (\<lambda>e2.
     Inr (column, e1 @ e2)))"

definition flecs_table_invoke_remove_hooks ::
    "('v::zero) ecs_table \<Rightarrow> nat \<Rightarrow> 'v ecs_column \<Rightarrow> u64 list \<Rightarrow> nat \<Rightarrow> nat \<Rightarrow> bool
     \<Rightarrow> ('v ecs_column \<times> storage_event list) res" where
  "flecs_table_invoke_remove_hooks t column_index column entities row cnt dtor =
     ecs_assert (col_data column \<noteq> []) ECS_INTERNAL_ERROR
     (res_bind (if th_on_remove (ti_hooks (col_ti column))
               then flecs_table_invoke_hook t Ev_on_remove column_index entities row else Inr []) (\<lambda>e1.
      res_bind (if dtor then flecs_table_invoke_dtor column row cnt else Inr (column, [])) (\<lambda>(column, e2).
      Inr (column, e1 @ e2))))"

text \<open>The array of dirty counters exists once a query asks for it.\<close>

definition flecs_table_mark_table_dirty :: "'v ecs_table \<Rightarrow> nat \<Rightarrow> 'v ecs_table res" where
  "flecs_table_mark_table_dirty t index =
     res_bind (if t_dirty t \<noteq> []
               then res_bind (mem_get (t_dirty t) index) (\<lambda>d. mem_set (t_dirty t) index (d + 1))
               else Inr (t_dirty t)) (\<lambda>dirty.
     let t = t\<lparr>t_dirty := dirty\<rparr>
     in Inr (if index = 0 then t\<lparr>t_version := t_version t + 1\<rparr> else t))"

text \<open>The number of traversable entities in a table, and the flag that there are any.\<close>

definition flecs_table_traversable_add :: "'v ecs_table \<Rightarrow> int \<Rightarrow> 'v ecs_table res" where
  "flecs_table_traversable_add t value =
     (let result = t_traversable t + value;
          t = t\<lparr>t_traversable := result\<rparr>
      in
      ecs_assert (0 \<le> result) ECS_INTERNAL_ERROR
      (Inr (if result = 0 then t\<lparr>t_flags := t_flags t AND NOT EcsTableHasTraversable\<rparr>
            else if result = value then t\<lparr>t_flags := t_flags t OR EcsTableHasTraversable\<rparr>
            else t)))"

definition flecs_table_update_overrides :: "'v ecs_table \<Rightarrow> 'v ecs_table res" where
  "flecs_table_update_overrides t =
     (if \<not> table_has t EcsTableHasIsA then Inr t else Inl ECS_UNSUPPORTED)"

section \<open>Appending rows\<close>

definition flecs_table_grow_column ::
    "('v::zero) ecs_vec \<Rightarrow> 'v ecs_type_info \<Rightarrow> nat \<Rightarrow> nat \<Rightarrow> bool \<Rightarrow> ('v ecs_vec \<times> storage_event list) res" where
  "flecs_table_grow_column column ti to_add dst_size construct =
     (let cnt = vcount column;
          sz = vsize column;
          dst_count = cnt + to_add;
          can_realloc = (dst_size \<noteq> sz)
      in
      ecs_assert (dst_count \<le> dst_size) ECS_INTERNAL_ERROR
      (res_bind
        (if cnt \<noteq> 0 \<and> can_realloc \<and> th_ctor_move_dtor (ti_hooks ti) \<noteq> None then
           ecs_assert (th_ctor (ti_hooks ti) \<noteq> None) ECS_INTERNAL_ERROR
           (let dst = (ecs_vec_init dst_size)\<lparr>vcount := dst_count\<rparr> in
            res_bind (move_cells (type_info_ctor_move_dtor ti) (varray dst) 0 (varray column) 0 cnt)
              (\<lambda>(dst_buffer, src_buffer, ls).
            res_bind (if construct then flecs_table_invoke_ctor_for_array ti dst_buffer cnt to_add
                      else Inr (dst_buffer, [])) (\<lambda>(dst_buffer, evs).
            Inr (dst\<lparr>varray := dst_buffer\<rparr>, life_events ti ls @ evs))))
         else
           let column = (if can_realloc then ecs_vec_set_size column dst_size else column);
               column = fst (ecs_vec_grow column to_add)
           in
           res_bind (if construct then flecs_table_invoke_ctor_for_array ti (varray column) cnt to_add
                     else Inr (varray column, [])) (\<lambda>(array, evs).
           Inr (column\<lparr>varray := array\<rparr>, evs)))
        (\<lambda>(column, evs).
      ecs_assert (vsize column = dst_size) ECS_INTERNAL_ERROR (Inr (column, evs)))))"

text \<open>The cell that a plain append leaves holds what was in memory.\<close>

definition flecs_table_fast_append :: "'v ecs_table \<Rightarrow> 'v ecs_table" where
  "flecs_table_fast_append t =
     t\<lparr>t_columns := map (\<lambda>column.
         column\<lparr>col_data := varray (fst (ecs_vec_append (ecs_vec_from_column column t)))\<rparr>) (t_columns t)\<rparr>"

text \<open>The loop over the columns, from index \<open>i\<close> on.\<close>

fun append_columns ::
    "('v::zero) ecs_table \<Rightarrow> u64 \<Rightarrow> nat \<Rightarrow> nat \<Rightarrow> nat \<Rightarrow> nat \<Rightarrow> bool \<Rightarrow> bool \<Rightarrow> nat \<Rightarrow> 'v ecs_column list
     \<Rightarrow> ('v ecs_column list \<times> storage_event list) res" where
  "append_columns t entity prev_count prev_size cnt sz construct on_add i [] = Inr ([], [])"
| "append_columns t entity prev_count prev_size cnt sz construct on_add i (column # columns) =
     res_bind (flecs_table_grow_column (ecs_vec_from_column_ext column prev_count prev_size)
                 (col_ti column) 1 sz construct) (\<lambda>(v_column, e1).
     let column = column\<lparr>col_data := varray v_column\<rparr> in
     res_bind (if on_add \<and> th_on_add (ti_hooks (col_ti column))
               then flecs_table_invoke_hook t Ev_on_add i [entity] prev_count else Inr []) (\<lambda>e2.
     ecs_assert (vsize v_column = sz) ECS_INTERNAL_ERROR
     (ecs_assert (vcount v_column = cnt) ECS_INTERNAL_ERROR
     (res_bind (append_columns t entity prev_count prev_size cnt sz construct on_add (Suc i) columns)
       (\<lambda>(columns, e3). Inr (column # columns, e1 @ e2 @ e3))))))"

fun add_bits :: "nat \<Rightarrow> ecs_bitset list \<Rightarrow> ecs_bitset list res" where
  "add_bits n [] = Inr []"
| "add_bits n (bs # bss) =
     res_bind (flecs_bitset_addn bs n) (\<lambda>bs.
     res_bind (add_bits n bss) (\<lambda>bss. Inr (bs # bss)))"

definition flecs_table_append ::
    "('v::zero) ecs_table \<Rightarrow> u64 \<Rightarrow> bool \<Rightarrow> bool \<Rightarrow> ('v ecs_table \<times> storage_event list) res" where
  "flecs_table_append t entity construct on_add =
     ecs_assert (t_lock t = 0) ECS_LOCKED_STORAGE
     (let v_entities = vec_push (ecs_vec_from_entities t) (Some entity);
          t = t\<lparr>t_entities := varray v_entities\<rparr>
      in
      res_bind (flecs_table_mark_table_dirty t 0) (\<lambda>t.
      if \<not> table_has t (EcsTableIsComplex OR EcsTableHasIsA) then
        let t = flecs_table_fast_append t
        in Inr (t\<lparr>t_count := vcount v_entities, t_size := vsize v_entities\<rparr>, [])
      else
        res_bind (flecs_table_update_overrides t) (\<lambda>t.
        let prev_count = t_count t; prev_size = t_size t in
        ecs_assert (prev_count + 1 = vcount v_entities) ECS_INTERNAL_ERROR
        (let t = t\<lparr>t_count := vcount v_entities, t_size := vsize v_entities\<rparr> in
         res_bind (append_columns t entity prev_count prev_size (vcount v_entities) (vsize v_entities)
                     construct on_add 0 (t_columns t)) (\<lambda>(columns, evs).
         res_bind (add_bits 1 (t_bs_columns t)) (\<lambda>bs_columns.
         Inr (t\<lparr>t_columns := columns, t_bs_columns := bs_columns\<rparr>, evs)))))))"

section \<open>Deleting a row\<close>

definition ECS_ROW_MASK :: u32 where "ECS_ROW_MASK = 0x0FFFFFFF"
definition ECS_ROW_FLAGS_MASK :: u32 where "ECS_ROW_FLAGS_MASK = NOT ECS_ROW_MASK"

definition ECS_RECORD_TO_ROW :: "u32 \<Rightarrow> nat" where
  "ECS_RECORD_TO_ROW v = unat (v AND ECS_ROW_MASK)"

definition ECS_RECORD_TO_ROW_FLAGS :: "u32 \<Rightarrow> u32" where
  "ECS_RECORD_TO_ROW_FLAGS v = v AND ECS_ROW_FLAGS_MASK"

definition ECS_ROW_TO_RECORD :: "nat \<Rightarrow> u32 \<Rightarrow> u32" where
  "ECS_ROW_TO_RECORD row flags = of_nat row OR flags"

text \<open>
  flecs\_table\_copy\_elem copies \<open>size\<close> bytes with a few accesses of fixed width, on the bytes of
  the two elements here; between cells of a column it is an assignment.
\<close>

definition copy_bytes :: "nat \<Rightarrow> nat \<Rightarrow> u8 list \<Rightarrow> u8 list \<Rightarrow> u8 list res" where
  "copy_bytes at n dst src =
     (if at + n \<le> length dst \<and> at + n \<le> length src
      then Inr (cells_replace at (cells_between at n src) dst) else Inl MEMORY_FAULT)"

definition flecs_table_copy_elem :: "u8 list \<Rightarrow> u8 list \<Rightarrow> nat \<Rightarrow> u8 list res" where
  "flecs_table_copy_elem dst src sz =
     (if sz = 16 then copy_bytes 0 16 dst src
      else if sz = 8 then copy_bytes 0 8 dst src
      else if sz = 4 then copy_bytes 0 4 dst src
      else if sz > 32 then copy_bytes 0 sz dst src
      else if sz > 16 then
        res_bind (copy_bytes 0 16 dst src) (\<lambda>dst. copy_bytes (sz - 16) 16 dst src)
      else if sz > 8 then
        res_bind (copy_bytes 0 8 dst src) (\<lambda>dst. copy_bytes (sz - 8) 8 dst src)
      else if sz > 4 then
        res_bind (copy_bytes 0 4 dst src) (\<lambda>dst. copy_bytes (sz - 4) 4 dst src)
      else if sz > 2 then
        res_bind (copy_bytes 0 2 dst src) (\<lambda>dst. copy_bytes (sz - 2) 2 dst src)
      else if sz = 2 then copy_bytes 0 2 dst src
      else copy_bytes 0 1 dst src)"

text \<open>A move from the cell \<open>last\_row\<close> of a column to its cell \<open>row\<close>.\<close>

definition column_move ::
    "('v option \<Rightarrow> 'v option \<Rightarrow> 'v moved) \<Rightarrow> 'v ecs_column \<Rightarrow> nat \<Rightarrow> nat \<Rightarrow> ('v ecs_column \<times> storage_event list) res" where
  "column_move f column row last_row =
     res_bind (mem_get (col_data column) row) (\<lambda>d.
     res_bind (mem_get (col_data column) last_row) (\<lambda>s.
     res_bind (f d s) (\<lambda>(d, s, ls).
     Inr (column\<lparr>col_data := (col_data column)[row := d, last_row := s]\<rparr>, life_events (col_ti column) ls))))"

definition copy_cell :: "'v option \<Rightarrow> 'v option \<Rightarrow> 'v moved" where
  "copy_cell d s = Inr (s, s, [])"

fun map_columns ::
    "(nat \<Rightarrow> 'v ecs_column \<Rightarrow> ('v ecs_column \<times> storage_event list) res) \<Rightarrow> nat \<Rightarrow> 'v ecs_column list
     \<Rightarrow> ('v ecs_column list \<times> storage_event list) res" where
  "map_columns f i [] = Inr ([], [])"
| "map_columns f i (column # columns) =
     res_bind (f i column) (\<lambda>(column, e1).
     res_bind (map_columns f (Suc i) columns) (\<lambda>(columns, e2). Inr (column # columns, e1 @ e2)))"

definition flecs_table_fast_delete :: "'v ecs_table \<Rightarrow> nat \<Rightarrow> nat \<Rightarrow> 'v ecs_table res" where
  "flecs_table_fast_delete t row last_row =
     res_bind (map_columns (\<lambda>i column. column_move copy_cell column row last_row) 0 (t_columns t))
       (\<lambda>(columns, evs). Inr (t\<lparr>t_columns := columns\<rparr>))"

text \<open>The step of the loop that moves the last element over the deleted one.\<close>

definition delete_move ::
    "('v::zero) ecs_table \<Rightarrow> u64 \<Rightarrow> nat \<Rightarrow> nat \<Rightarrow> bool \<Rightarrow> nat \<Rightarrow> 'v ecs_column
     \<Rightarrow> ('v ecs_column \<times> storage_event list) res" where
  "delete_move t entity_to_delete row last_row destruct i column =
     (let ti = col_ti column in
      res_bind (if destruct \<and> th_on_remove (ti_hooks ti)
                then flecs_table_invoke_hook t Ev_on_remove i [entity_to_delete] row else Inr []) (\<lambda>e1.
      res_bind (column_move
          (if th_move_ctor (ti_hooks ti) = None \<and> th_ctor_move_dtor (ti_hooks ti) \<noteq> None
           then type_info_ctor_move_dtor ti else type_info_move_dtor ti) column row last_row) (\<lambda>(column, e2).
      Inr (column, e1 @ e2))))"

text \<open>The update of the entity index: \<open>tid\<close> is the table that holds the row.\<close>

definition update_moved_record :: "ecs_entity_index \<Rightarrow> nat \<Rightarrow> u64 \<Rightarrow> nat \<Rightarrow> ecs_entity_index res" where
  "update_moved_record ei tid entity_to_move row =
     res_bind (flecs_entity_index_get ei entity_to_move) (\<lambda>record_to_move.
     let row_flags = r_row record_to_move AND ECS_ROW_FLAGS_MASK in
     ecs_assert (r_table record_to_move \<noteq> None) ECS_INTERNAL_ERROR
     (ecs_assert (r_table record_to_move = Some tid) ECS_INTERNAL_ERROR
      (rec_set ei entity_to_move (record_to_move\<lparr>r_row := ECS_ROW_TO_RECORD row row_flags\<rparr>))))"

fun remove_bits :: "nat \<Rightarrow> ecs_bitset list \<Rightarrow> ecs_bitset list res" where
  "remove_bits row [] = Inr []"
| "remove_bits row (bs # bss) =
     res_bind (flecs_bitset_remove bs row) (\<lambda>bs.
     res_bind (remove_bits row bss) (\<lambda>bss. Inr (bs # bss)))"

definition flecs_table_delete ::
    "ecs_entity_index \<Rightarrow> nat \<Rightarrow> ('v::zero) ecs_table \<Rightarrow> nat \<Rightarrow> bool
     \<Rightarrow> (ecs_entity_index \<times> 'v ecs_table \<times> storage_event list) res" where
  "flecs_table_delete ei tid t row destruct =
     ecs_assert (t_lock t = 0) ECS_LOCKED_STORAGE
     (ecs_assert (0 < t_count t) ECS_INTERNAL_ERROR
     (let last_row = t_count t - 1 in
      ecs_assert (row \<le> last_row) ECS_INTERNAL_ERROR
      (res_bind (res_bind (mem_get (t_entities t) last_row) deref) (\<lambda>entity_to_move.
       res_bind (res_bind (mem_get (t_entities t) row) deref) (\<lambda>entity_to_delete.
       let t = t\<lparr>t_entities := (t_entities t)[row := Some entity_to_move]\<rparr> in
       res_bind (if row \<noteq> last_row then update_moved_record ei tid entity_to_move row else Inr ei) (\<lambda>ei.
       res_bind (flecs_table_mark_table_dirty t 0) (\<lambda>t.
       if \<not> table_has t EcsTableIsComplex then
         res_bind (if row \<noteq> last_row then flecs_table_fast_delete t row last_row else Inr t) (\<lambda>t.
         Inr (ei, t\<lparr>t_count := t_count t - 1\<rparr>, []))
       else
         res_bind
           (if row = last_row then
              if destruct \<and> table_has t EcsTableHasDtors then
                res_bind (map_columns (\<lambda>i column.
                    flecs_table_invoke_remove_hooks t i column [entity_to_delete] row 1 True) 0 (t_columns t))
                  (\<lambda>(columns, evs). Inr (t\<lparr>t_columns := columns\<rparr>, evs))
              else Inr (t, [])
            else if table_has t (EcsTableHasDtors OR EcsTableHasMove) then
              res_bind (map_columns (delete_move t entity_to_delete row last_row destruct) 0 (t_columns t))
                (\<lambda>(columns, evs). Inr (t\<lparr>t_columns := columns\<rparr>, evs))
            else res_bind (flecs_table_fast_delete t row last_row) (\<lambda>t. Inr (t, [])))
           (\<lambda>(t, evs).
         res_bind (remove_bits row (t_bs_columns t)) (\<lambda>bss.
         Inr (ei, t\<lparr>t_bs_columns := bss, t_count := t_count t - 1\<rparr>, evs))))))))))"

section \<open>Moving a row to another table\<close>

text \<open>
  The loops over the columns of two tables run over the columns still ahead, each with its id:
  \<open>i_new\<close> and \<open>i_old\<close> advance past equal ids together and past the smaller id otherwise.
\<close>

fun column_ids :: "'v ecs_table \<Rightarrow> nat \<Rightarrow> 'v ecs_column list \<Rightarrow> (u64 \<times> 'v ecs_column) list res" where
  "column_ids t i [] = Inr []"
| "column_ids t i (column # columns) =
     res_bind (flecs_column_id t i) (\<lambda>c.
     res_bind (column_ids t (Suc i) columns) (\<lambda>cs. Inr ((c, column) # cs)))"

text \<open>A move of the element \<open>src_index\<close> of one column to the element \<open>dst_index\<close> of another.\<close>

definition columns_move ::
    "('v option \<Rightarrow> 'v option \<Rightarrow> 'v moved) \<Rightarrow> 'v ecs_column \<Rightarrow> nat \<Rightarrow> 'v ecs_column \<Rightarrow> nat
     \<Rightarrow> ('v ecs_column \<times> 'v ecs_column \<times> storage_event list) res" where
  "columns_move f dst_column dst_index src_column src_index =
     res_bind (mem_get (col_data dst_column) dst_index) (\<lambda>d.
     res_bind (mem_get (col_data src_column) src_index) (\<lambda>s.
     res_bind (f d s) (\<lambda>(d, s, ls).
     Inr (dst_column\<lparr>col_data := (col_data dst_column)[dst_index := d]\<rparr>,
          src_column\<lparr>col_data := (col_data src_column)[src_index := s]\<rparr>,
          life_events (col_ti dst_column) ls))))"

fun fast_move_columns ::
    "nat \<Rightarrow> nat \<Rightarrow> (u64 \<times> 'v ecs_column) list \<Rightarrow> (u64 \<times> 'v ecs_column) list
     \<Rightarrow> ('v ecs_column list \<times> 'v ecs_column list) res" where
  "fast_move_columns dst_index src_index [] src = Inr ([], map snd src)"
| "fast_move_columns dst_index src_index (d # dst) [] = Inr (map snd (d # dst), [])"
| "fast_move_columns dst_index src_index ((dst_id, dst_column) # dst) ((src_id, src_column) # src) =
     (if dst_id = src_id then
        res_bind (columns_move copy_cell dst_column dst_index src_column src_index) (\<lambda>(d, s, evs).
        res_bind (fast_move_columns dst_index src_index dst src) (\<lambda>(ds, ss). Inr (d # ds, s # ss)))
      else if dst_id < src_id then
        res_bind (fast_move_columns dst_index src_index dst ((src_id, src_column) # src)) (\<lambda>(ds, ss).
        Inr (dst_column # ds, ss))
      else
        res_bind (fast_move_columns dst_index src_index ((dst_id, dst_column) # dst) src) (\<lambda>(ds, ss).
        Inr (ds, src_column # ss)))"

definition flecs_table_fast_move ::
    "'v ecs_table \<Rightarrow> nat \<Rightarrow> 'v ecs_table \<Rightarrow> nat \<Rightarrow> ('v ecs_table \<times> 'v ecs_table) res" where
  "flecs_table_fast_move dst_table dst_index src_table src_index =
     res_bind (column_ids dst_table 0 (t_columns dst_table)) (\<lambda>dst.
     res_bind (column_ids src_table 0 (t_columns src_table)) (\<lambda>src.
     res_bind (fast_move_columns dst_index src_index dst src) (\<lambda>(ds, ss).
     Inr (dst_table\<lparr>t_columns := ds\<rparr>, src_table\<lparr>t_columns := ss\<rparr>))))"

text \<open>The bits are in the order of the toggle ids of the type: \<open>next_toggle\<close> skips the others.\<close>

definition next_toggle :: "u64 list \<Rightarrow> u64 list" where
  "next_toggle ids = dropWhile (\<lambda>i. \<not> ECS_HAS_ID_FLAG i ECS_TOGGLE) (tl ids)"

fun move_bits :: "ecs_bitset \<Rightarrow> nat \<Rightarrow> ecs_bitset \<Rightarrow> nat \<Rightarrow> nat \<Rightarrow> ecs_bitset res" where
  "move_bits dst_bs i src_bs j 0 = Inr dst_bs"
| "move_bits dst_bs i src_bs j (Suc n) =
     res_bind (flecs_bitset_get src_bs j) (\<lambda>value.
     res_bind (flecs_bitset_set dst_bs i value) (\<lambda>dst_bs.
     move_bits dst_bs (Suc i) src_bs (Suc j) n))"

definition clear_bits :: "nat \<Rightarrow> bool \<Rightarrow> ecs_bitset \<Rightarrow> ecs_bitset res" where
  "clear_bits cnt clear src_bs =
     (if clear then ecs_assert (cnt = flecs_bitset_count src_bs) ECS_INTERNAL_ERROR
        (Inr (flecs_bitset_fini src_bs)) else Inr src_bs)"

fun clear_rest :: "nat \<Rightarrow> bool \<Rightarrow> ecs_bitset list \<Rightarrow> ecs_bitset list res" where
  "clear_rest cnt clear [] = Inr []"
| "clear_rest cnt clear (bs # bss) =
     res_bind (clear_bits cnt clear bs) (\<lambda>bs. res_bind (clear_rest cnt clear bss) (\<lambda>bss. Inr (bs # bss)))"

fun move_bitsets ::
    "nat \<Rightarrow> nat \<Rightarrow> nat \<Rightarrow> bool \<Rightarrow> u64 list \<Rightarrow> ecs_bitset list \<Rightarrow> u64 list \<Rightarrow> ecs_bitset list
     \<Rightarrow> (ecs_bitset list \<times> ecs_bitset list) res" where
  "move_bitsets dst_index src_index cnt clear dst_ids [] src_ids src_bs =
     res_bind (clear_rest cnt clear src_bs) (\<lambda>src_bs. Inr ([], src_bs))"
| "move_bitsets dst_index src_index cnt clear dst_ids (d # dst_bs) src_ids [] = Inr (d # dst_bs, [])"
| "move_bitsets dst_index src_index cnt clear dst_ids (d # dst_bs) src_ids (s # src_bs) =
     (case (dst_ids, src_ids) of
        (dst_id # _, src_id # _) \<Rightarrow>
          if dst_id = src_id then
            res_bind (flecs_bitset_ensure d (dst_index + cnt)) (\<lambda>d.
            res_bind (move_bits d dst_index s src_index cnt) (\<lambda>d.
            res_bind (clear_bits cnt clear s) (\<lambda>s.
            res_bind (move_bitsets dst_index src_index cnt clear (next_toggle dst_ids) dst_bs
                        (next_toggle src_ids) src_bs) (\<lambda>(ds, ss). Inr (d # ds, s # ss)))))
          else if dst_id > src_id then
            res_bind (move_bitsets dst_index src_index cnt clear dst_ids (d # dst_bs)
                        (next_toggle src_ids) src_bs) (\<lambda>(ds, ss).
            Inr (ds, (if clear then flecs_bitset_fini s else s) # ss))
          else
            res_bind (move_bitsets dst_index src_index cnt clear (next_toggle dst_ids) dst_bs
                        src_ids (s # src_bs)) (\<lambda>(ds, ss). Inr (d # ds, ss))
      | _ \<Rightarrow> Inl MEMORY_FAULT)"

definition flecs_table_move_bitset_columns ::
    "'v ecs_table \<Rightarrow> nat \<Rightarrow> 'v ecs_table \<Rightarrow> nat \<Rightarrow> nat \<Rightarrow> bool \<Rightarrow> ('v ecs_table \<times> 'v ecs_table) res" where
  "flecs_table_move_bitset_columns dst_table dst_index src_table src_index cnt clear =
     (if t_bs_columns dst_table = [] \<and> t_bs_columns src_table = [] then Inr (dst_table, src_table)
      else
        res_bind (move_bitsets dst_index src_index cnt clear
            (drop (t_bs_offset dst_table) (t_type dst_table)) (t_bs_columns dst_table)
            (drop (t_bs_offset src_table) (t_type src_table)) (t_bs_columns src_table)) (\<lambda>(ds, ss).
        Inr (dst_table\<lparr>t_bs_columns := ds\<rparr>, src_table\<lparr>t_bs_columns := ss\<rparr>)))"

text \<open>
  \<open>i\<close> and \<open>j\<close> are the indices \<open>i_new\<close> and \<open>i_old\<close>, for the checks of the callbacks. The last two
  loops of the function are the cases where one side has no columns left.
\<close>

fun move_columns ::
    "('v::zero) ecs_table \<Rightarrow> u64 \<Rightarrow> nat \<Rightarrow> 'v ecs_table \<Rightarrow> u64 \<Rightarrow> nat \<Rightarrow> u64 \<Rightarrow> bool \<Rightarrow> nat \<Rightarrow> nat
     \<Rightarrow> (u64 \<times> 'v ecs_column) list \<Rightarrow> (u64 \<times> 'v ecs_column) list
     \<Rightarrow> ('v ecs_column list \<times> 'v ecs_column list \<times> storage_event list) res" where
  "move_columns dst_table dst_entity dst_index src_table src_entity src_index emplace_id use_move_dtor i j [] [] =
     Inr ([], [], [])"
| "move_columns dst_table dst_entity dst_index src_table src_entity src_index emplace_id use_move_dtor i j
     ((dst_id, dst_column) # dst) [] =
     res_bind (flecs_table_invoke_add_hooks dst_table i dst_column [dst_entity] dst_index 1 (dst_id \<noteq> emplace_id))
       (\<lambda>(d, e1).
     res_bind (move_columns dst_table dst_entity dst_index src_table src_entity src_index emplace_id use_move_dtor
                 (Suc i) j dst []) (\<lambda>(ds, ss, e2). Inr (d # ds, ss, e1 @ e2)))"
| "move_columns dst_table dst_entity dst_index src_table src_entity src_index emplace_id use_move_dtor i j
     [] ((src_id, src_column) # src) =
     res_bind (flecs_table_invoke_remove_hooks src_table j src_column [src_entity] src_index 1 use_move_dtor)
       (\<lambda>(s, e1).
     res_bind (move_columns dst_table dst_entity dst_index src_table src_entity src_index emplace_id use_move_dtor
                 i (Suc j) [] src) (\<lambda>(ds, ss, e2). Inr (ds, s # ss, e1 @ e2)))"
| "move_columns dst_table dst_entity dst_index src_table src_entity src_index emplace_id use_move_dtor i j
     ((dst_id, dst_column) # dst) ((src_id, src_column) # src) =
     (if dst_id = src_id then
        let ti = col_ti dst_column;
            use_ctor_move_dtor = (use_move_dtor \<or> th_move_ctor (ti_hooks ti) = None)
        in
        ecs_assert (ti_size ti \<noteq> 0) ECS_INTERNAL_ERROR
        (res_bind (columns_move (if use_ctor_move_dtor then type_info_ctor_move_dtor ti else type_info_move_ctor ti)
                    dst_column dst_index src_column src_index) (\<lambda>(d, s, e1).
        res_bind (move_columns dst_table dst_entity dst_index src_table src_entity src_index emplace_id use_move_dtor
                    (Suc i) (Suc j) dst src) (\<lambda>(ds, ss, e2). Inr (d # ds, s # ss, e1 @ e2))))
      else if dst_id < src_id then
        res_bind (flecs_table_invoke_add_hooks dst_table i dst_column [dst_entity] dst_index 1 (dst_id \<noteq> emplace_id))
          (\<lambda>(d, e1).
        res_bind (move_columns dst_table dst_entity dst_index src_table src_entity src_index emplace_id use_move_dtor
                    (Suc i) j dst ((src_id, src_column) # src)) (\<lambda>(ds, ss, e2). Inr (d # ds, ss, e1 @ e2)))
      else
        res_bind (flecs_table_invoke_remove_hooks src_table j src_column [src_entity] src_index 1 use_move_dtor)
          (\<lambda>(s, e1).
        res_bind (move_columns dst_table dst_entity dst_index src_table src_entity src_index emplace_id use_move_dtor
                    i (Suc j) ((dst_id, dst_column) # dst) src) (\<lambda>(ds, ss, e2). Inr (ds, s # ss, e1 @ e2))))"

definition flecs_table_move ::
    "u64 \<Rightarrow> u64 \<Rightarrow> ('v::zero) ecs_table \<Rightarrow> nat \<Rightarrow> 'v ecs_table \<Rightarrow> nat \<Rightarrow> u64
     \<Rightarrow> ('v ecs_table \<times> 'v ecs_table \<times> storage_event list) res" where
  "flecs_table_move dst_entity src_entity dst_table dst_index src_table src_index emplace_id =
     ecs_assert (t_lock dst_table = 0) ECS_LOCKED_STORAGE
     (ecs_assert (t_lock src_table = 0) ECS_LOCKED_STORAGE
     (if (t_flags dst_table OR t_flags src_table) AND (EcsTableIsComplex OR EcsTableHasIsA) = 0 then
        res_bind (flecs_table_fast_move dst_table dst_index src_table src_index) (\<lambda>(dst_table, src_table).
        Inr (dst_table, src_table, []))
      else
        res_bind (flecs_table_update_overrides dst_table) (\<lambda>dst_table.
        res_bind (flecs_table_move_bitset_columns dst_table dst_index src_table src_index 1 False)
          (\<lambda>(dst_table, src_table).
        let use_move_dtor = (t_count src_table = src_index + 1) in
        res_bind (column_ids dst_table 0 (t_columns dst_table)) (\<lambda>dst.
        res_bind (column_ids src_table 0 (t_columns src_table)) (\<lambda>src.
        res_bind (move_columns dst_table dst_entity dst_index src_table src_entity src_index emplace_id use_move_dtor
                    0 0 dst src) (\<lambda>(ds, ss, evs).
        Inr (dst_table\<lparr>t_columns := ds\<rparr>, src_table\<lparr>t_columns := ss\<rparr>, evs))))))))"

end
