(* ===== verification/Table_Cells.thy ===== *)
theory Table_Cells
  imports Table_Storage
begin

text \<open>
  The cells and columns of a table: what the hooks of a lawful type do to a cell, the objects that
  a list of hook calls creates and destroys, and the loops that construct, move and grow a run
  of cells.
\<close>

section \<open>What the hooks of a lawful type do to a cell\<close>

definition cell_ok :: "('v::zero) ecs_type_info \<Rightarrow> 'v option \<Rightarrow> bool" where
  "cell_ok ti c \<longleftrightarrow> (th_ctor (ti_hooks ti) \<noteq> None \<longrightarrow> c \<noteq> None)"

lemma lawful_cases [consumes 1, case_names plain live]:
  assumes "ti_lawful ti"
  obtains (plain) "th_ctor (ti_hooks ti) = None" "plain_hooks (ti_hooks ti)" "legal_flags (ti_hooks ti)"
  | (live) "th_ctor (ti_hooks ti) \<noteq> None" "ti_live ti" "legal_flags (ti_hooks ti)"
  using assms by (auto simp: ti_lawful_def split: if_splits)

lemma ti_ctor_ok:
  assumes "ti_lawful ti"
  obtains c' ls where "type_info_ctor ti c = Inr (c', ls)" "cell_ok ti c'"
    "th_ctor (ti_hooks ti) \<noteq> None \<Longrightarrow> c' = ti_default ti" 
using assms
proof (cases rule: lawful_cases)
  case plain
  then have "type_info_ctor ti c = Inr (c, [])" by (simp add: type_info_ctor_def plain_hooks_def legal_flagsD)
  with plain show ?thesis by (intro that) (auto simp: cell_ok_def)
next
  case live
  then obtain ls where "type_info_ctor ti c = Inr (ti_default ti, ls)" "ti_default ti \<noteq> None"
    unfolding ti_live_def by blast
  then show ?thesis by (intro that) (auto simp: cell_ok_def)
qed

lemma ti_dtor_ok:
  assumes "ti_lawful ti" "cell_ok ti c"
  obtains c' ls where "type_info_dtor ti c = Inr (c', ls)"
using assms(1)
proof (cases rule: lawful_cases)
  case plain
  then have "type_info_dtor ti c = Inr (c, [])" by (simp add: type_info_dtor_def plain_hooks_def legal_flagsD)
  then show ?thesis by (rule that)
next
  case live
  with assms(2) obtain x where "c = Some x" by (auto simp: cell_ok_def)
  with live that show ?thesis unfolding ti_live_def by blast
qed

lemma ti_move_ok:
  assumes "ti_lawful ti" "cell_ok ti d" "cell_ok ti s"
  obtains s' ls where "type_info_move ti d s = Inr (s, s', ls)" "cell_ok ti s'"
using assms(1)
proof (cases rule: lawful_cases)
  case plain
  then have "type_info_move ti d s = Inr (s, s, [])" by (simp add: type_info_move_def plain_hooks_def legal_flagsD)
  with plain show ?thesis by (intro that) (auto simp: cell_ok_def)
next
  case live
  with assms(2,3) obtain x v where "d = Some x" "s = Some v" by (auto simp: cell_ok_def)
  moreover from live obtain w ls where "type_info_move ti (Some x) (Some v) = Inr (Some v, Some w, ls)"
    unfolding ti_live_def by blast
  ultimately show ?thesis by (intro that) (auto simp: cell_ok_def)
qed

lemma ti_move_ctor_ok:
  assumes "ti_lawful ti" "cell_ok ti s"
  obtains s' ls where "type_info_move_ctor ti d s = Inr (s, s', ls)" "cell_ok ti s'"
using assms(1)
proof (cases rule: lawful_cases)
  case plain
  then have "type_info_move_ctor ti d s = Inr (s, s, [])"
    by (simp add: type_info_move_ctor_def plain_hooks_def legal_flagsD)
  with plain show ?thesis by (intro that) (auto simp: cell_ok_def)
next
  case live
  with assms(2) obtain v where "s = Some v" by (auto simp: cell_ok_def)
  moreover from live obtain w ls where "type_info_move_ctor ti d (Some v) = Inr (Some v, Some w, ls)"
    unfolding ti_live_def by blast
  ultimately show ?thesis by (intro that) (auto simp: cell_ok_def)
qed

lemma ti_ctor_move_dtor_ok:
  assumes "ti_lawful ti" "cell_ok ti s"
  obtains s' ls where "type_info_ctor_move_dtor ti d s = Inr (s, s', ls)"
using assms(1)
proof (cases rule: lawful_cases)
  case plain
  then have "type_info_ctor_move_dtor ti d s = Inr (s, s, [])"
    by (simp add: type_info_ctor_move_dtor_def plain_hooks_def legal_flagsD)
  then show ?thesis by (rule that)
next
  case live
  with assms(2) obtain v where "s = Some v" by (auto simp: cell_ok_def)
  moreover from live obtain w ls where "type_info_ctor_move_dtor ti d (Some v) = Inr (Some v, w, ls)"
    unfolding ti_live_def by blast
  ultimately show ?thesis by (intro that) simp
qed

lemma ti_move_dtor_ok:
  assumes "ti_lawful ti" "cell_ok ti d" "cell_ok ti s"
  obtains s' ls where "type_info_move_dtor ti d s = Inr (s, s', ls)"
using assms(1)
proof (cases rule: lawful_cases)
  case plain
  then have "type_info_move_dtor ti d s = Inr (s, s, [])"
    by (simp add: type_info_move_dtor_def plain_hooks_def legal_flagsD)
  then show ?thesis by (rule that)
next
  case live
  with assms(2,3) obtain x v where "d = Some x" "s = Some v" by (auto simp: cell_ok_def)
  moreover from live obtain w ls where "type_info_move_dtor ti (Some x) (Some v) = Inr (Some v, w, ls)"
    unfolding ti_live_def by blast
  ultimately show ?thesis by (intro that) simp
qed

section \<open>Counting objects in the calls made\<close>

definition ev_delta :: "u64 \<Rightarrow> storage_event list \<Rightarrow> int" where
  "ev_delta c evs = sum_list (map (\<lambda>e. case e of Ev_life d l \<Rightarrow> if d = c then life_delta l else 0 | _ \<Rightarrow> 0) evs)"

lemma ev_delta_simps [simp]:
  "ev_delta c [] = 0"
  "ev_delta c (e1 @ e2) = ev_delta c e1 + ev_delta c e2"
  "ev_delta c (Ev_on_add i es r # evs) = ev_delta c evs"
  "ev_delta c (Ev_on_remove i es r # evs) = ev_delta c evs"
  "ev_delta c (Ev_actions_new tid r # evs) = ev_delta c evs"
  "ev_delta c (Ev_actions_move_remove tid1 tid2 r # evs) = ev_delta c evs"
  "ev_delta c (Ev_actions_move_add tid1 tid2 r # evs) = ev_delta c evs"
  "ev_delta c (Ev_update_component_monitors # evs) = ev_delta c evs"
  by (simp_all add: ev_delta_def)

lemma life_sum_simps [simp]: "life_sum [] = 0" "life_sum (l1 @ l2) = life_sum l1 + life_sum l2"
  by (simp_all add: life_sum_def)

lemma ev_delta_life: "ev_delta c (life_events ti ls) = (if ti_component ti = c then life_sum ls else 0)"
  by (induction ls) (simp_all add: ev_delta_def life_events_def life_sum_def)

text \<open>Whether a column stores the component, as 0 or 1, and whether its hooks keep count.\<close>

definition of_comp :: "u64 \<Rightarrow> 'v ecs_column \<Rightarrow> int" where
  "of_comp c col = (if ti_component (col_ti col) = c then 1 else 0)"

definition counted :: "u64 \<Rightarrow> ('v::zero) ecs_column \<Rightarrow> bool" where
  "counted c col \<longleftrightarrow> (ti_component (col_ti col) = c \<longrightarrow> ti_counted (col_ti col))"

section \<open>Loops over cells\<close>

lemma xtor_cells_all:
  assumes "row + n \<le> length cells"
    and "\<And>i. row \<le> i \<Longrightarrow> i < row + n \<Longrightarrow> \<exists>c' ls. f (cells ! i) = Inr (c', ls) \<and> P c' ls"
  shows "\<exists>cells' ls. xtor_cells f cells row n = Inr (cells', ls) \<and> length cells' = length cells
    \<and> (\<forall>i<length cells. i < row \<or> row + n \<le> i \<longrightarrow> cells' ! i = cells ! i)
    \<and> (\<forall>i. row \<le> i \<and> i < row + n \<longrightarrow> (\<exists>ls. P (cells' ! i) ls))
    \<and> (\<forall>d. (\<forall>c' ls. P c' ls \<longrightarrow> life_sum ls = d) \<longrightarrow> life_sum ls = int n * d)"
  using assms
proof (induction n arbitrary: row cells)
  case (Suc n)
  from Suc.prems(2)[of row] obtain c' l1 where c: "f (cells ! row) = Inr (c', l1)" "P c' l1" by auto
  have "\<exists>cells' ls. xtor_cells f (cells[row := c']) (Suc row) n = Inr (cells', ls) \<and> length cells' = length (cells[row := c'])
    \<and> (\<forall>i<length (cells[row := c']). i < Suc row \<or> Suc row + n \<le> i \<longrightarrow> cells' ! i = cells[row := c'] ! i)
    \<and> (\<forall>i. Suc row \<le> i \<and> i < Suc row + n \<longrightarrow> (\<exists>ls. P (cells' ! i) ls))
    \<and> (\<forall>d. (\<forall>c' ls. P c' ls \<longrightarrow> life_sum ls = d) \<longrightarrow> life_sum ls = int n * d)"
    using Suc.prems by (intro Suc.IH) auto
  then obtain cells' l2 where r: "xtor_cells f (cells[row := c']) (Suc row) n = Inr (cells', l2)" "length cells' = length (cells[row := c'])"
    "\<And>i. i < length (cells[row := c']) \<Longrightarrow> i < Suc row \<or> Suc row + n \<le> i \<Longrightarrow> cells' ! i = cells[row := c'] ! i"
    "\<And>i. Suc row \<le> i \<Longrightarrow> i < Suc row + n \<Longrightarrow> (\<exists>ls. P (cells' ! i) ls)"
    "\<And>d. (\<forall>c' ls. P c' ls \<longrightarrow> life_sum ls = d) \<Longrightarrow> life_sum l2 = int n * d" by blast
  have l: "row < length cells" using Suc.prems(1) by simp
  have "xtor_cells f cells row (Suc n) = Inr (cells', l1 @ l2)"
    using l by (simp add: c r(1))
  moreover have "cells' ! i = cells ! i" if "i < length cells" "i < row \<or> row + Suc n \<le> i" for i
    using r(3)[of i] that by (auto simp: nth_list_update)
  moreover have "\<exists>ls. P (cells' ! i) ls" if "row \<le> i" "i < row + Suc n" for i
    using r(3)[of row] r(4)[of i] that l c(2) by (cases "i = row") auto
  moreover have "life_sum (l1 @ l2) = int (Suc n) * d" if "\<forall>c' ls. P c' ls \<longrightarrow> life_sum ls = d" for d
    using r(5)[OF that] that c(2) by (simp add: algebra_simps)
  ultimately show ?case using r(2) unfolding length_list_update by blast
qed auto

lemma move_cells_all:
  assumes "i + n \<le> length dst" "j + n \<le> length src"
    and "\<And>k. k < n \<Longrightarrow> \<forall>d. \<exists>s' ls. f d (src ! (j + k)) = Inr (src ! (j + k), s', ls) \<and> P ls"
  shows "\<exists>dst' src' ls. move_cells f dst i src j n = Inr (dst', src', ls) \<and> length dst' = length dst
    \<and> (\<forall>k<length dst. dst' ! k = (if i \<le> k \<and> k < i + n then src ! (j + k - i) else dst ! k))
    \<and> (\<forall>d. (\<forall>ls. P ls \<longrightarrow> life_sum ls = d) \<longrightarrow> life_sum ls = int n * d)"
  using assms
proof (induction n arbitrary: i j dst src)
  case (Suc n)
  from Suc.prems(3)[of 0] obtain s' l1 where c: "f (dst ! i) (src ! j) = Inr (src ! j, s', l1)" "P l1" by fastforce
  have "\<exists>dst' src' ls. move_cells f (dst[i := src ! j]) (Suc i) (src[j := s']) (Suc j) n = Inr (dst', src', ls)
    \<and> length dst' = length (dst[i := src ! j])
    \<and> (\<forall>k<length (dst[i := src ! j]). dst' ! k = (if Suc i \<le> k \<and> k < Suc i + n then src[j := s'] ! (Suc j + k - Suc i)
         else dst[i := src ! j] ! k))
    \<and> (\<forall>d. (\<forall>ls. P ls \<longrightarrow> life_sum ls = d) \<longrightarrow> life_sum ls = int n * d)"
  proof (rule Suc.IH)
    show "\<forall>d. \<exists>s'' ls. f d (src[j := s'] ! (Suc j + k)) = Inr (src[j := s'] ! (Suc j + k), s'', ls) \<and> P ls" if "k < n" for k
      using Suc.prems(3)[of "Suc k"] that by simp
  qed (use Suc.prems in auto)
  then obtain dst' src' l2 where r: "move_cells f (dst[i := src ! j]) (Suc i) (src[j := s']) (Suc j) n = Inr (dst', src', l2)"
    "length dst' = length (dst[i := src ! j])"
    "\<And>k. k < length (dst[i := src ! j]) \<Longrightarrow> dst' ! k = (if Suc i \<le> k \<and> k < Suc i + n then src[j := s'] ! (Suc j + k - Suc i)
         else dst[i := src ! j] ! k)"
    "\<And>d. (\<forall>ls. P ls \<longrightarrow> life_sum ls = d) \<Longrightarrow> life_sum l2 = int n * d" by blast
  have l: "i < length dst" "j < length src" using Suc.prems(1,2) by simp_all
  have "move_cells f dst i src j (Suc n) = Inr (dst', src', l1 @ l2)"
    using l by (simp add: c r(1))
  moreover have "dst' ! k = (if i \<le> k \<and> k < i + Suc n then src ! (j + k - i) else dst ! k)" if k: "k < length dst" for k
  proof -
    consider "k = i" | "k < i" | "i < k" "k < Suc i + n" | "Suc i + n \<le> k" by linarith
    then show ?thesis
    proof cases
      case 3
      then have "j \<noteq> j + k - i" by simp
      with 3 r(3)[of k] k show ?thesis by auto
    qed (use r(3)[of k] k l in \<open>auto simp: nth_list_update\<close>)
  qed
  moreover have "life_sum (l1 @ l2) = int (Suc n) * d" if "\<forall>ls. P ls \<longrightarrow> life_sum ls = d" for d
    using r(4)[OF that] that c(2) by (simp add: algebra_simps)
  ultimately show ?case using r(2) unfolding length_list_update by blast
qed auto

section \<open>Loops over columns\<close>

lemma map_columns_all:
  assumes "\<And>k. k < length cols \<Longrightarrow> \<exists>c' e. f (i + k) (cols ! k) = Inr (c', e) \<and> P (cols ! k) c'
      \<and> (\<forall>c. counted c (cols ! k) \<longrightarrow> ev_delta c e = D c (cols ! k))"
  shows "\<exists>cols' evs. map_columns f i cols = Inr (cols', evs) \<and> list_all2 P cols cols'
    \<and> (\<forall>c. (\<forall>col\<in>set cols. counted c col) \<longrightarrow> ev_delta c evs = sum_list (map (D c) cols))"
  using assms
proof (induction cols arbitrary: i)
  case (Cons col cols)
  from Cons.prems[of 0] obtain c' e where c: "f i col = Inr (c', e)" "P col c'"
    "\<And>c. counted c col \<Longrightarrow> ev_delta c e = D c col" by auto
  have "\<exists>cols' evs. map_columns f (Suc i) cols = Inr (cols', evs) \<and> list_all2 P cols cols'
    \<and> (\<forall>c. (\<forall>col\<in>set cols. counted c col) \<longrightarrow> ev_delta c evs = sum_list (map (D c) cols))"
  proof (rule Cons.IH)
    fix k assume "k < length cols"
    then show "\<exists>c' e. f (Suc i + k) (cols ! k) = Inr (c', e) \<and> P (cols ! k) c'
      \<and> (\<forall>c. counted c (cols ! k) \<longrightarrow> ev_delta c e = D c (cols ! k))"
      using Cons.prems[of "Suc k"] by simp
  qed
  then obtain cols' evs where r: "map_columns f (Suc i) cols = Inr (cols', evs)" "list_all2 P cols cols'"
    "\<And>c. (\<forall>col\<in>set cols. counted c col) \<Longrightarrow> ev_delta c evs = sum_list (map (D c) cols)" by blast
  with c show ?case by (simp add: list_all2_Cons2)
qed simp


section \<open>Growing a column\<close>

lemma counted_ctor:
  assumes "ti_counted ti" "type_info_ctor ti c = Inr (c', ls)"
  shows "life_sum ls = 1"
  using assms by (auto simp: ti_counted_def)

lemma counted_dtor:
  assumes "ti_counted ti" "type_info_dtor ti c = Inr (c', ls)"
  shows "life_sum ls = - 1"
  using assms unfolding ti_counted_def by blast

lemma counted_move_ctor:
  assumes "ti_counted ti" "type_info_move_ctor ti d s = Inr (d', s', ls)"
  shows "life_sum ls = 1"
  using assms unfolding ti_counted_def by blast

lemma counted_ctor_move_dtor:
  assumes "ti_counted ti" "type_info_ctor_move_dtor ti d s = Inr (d', s', ls)"
  shows "life_sum ls = 0"
  using assms unfolding ti_counted_def by blast

lemma counted_move_dtor:
  assumes "ti_counted ti" "type_info_move_dtor ti d s = Inr (d', s', ls)"
  shows "life_sum ls = - 1"
  using assms unfolding ti_counted_def by blast

text \<open>Constructing a run of cells.\<close>

lemma ctor_array_ok:
  assumes ti: "ti_lawful ti" and n: "row + n \<le> length cells"
  obtains cells' evs where "flecs_table_invoke_ctor_for_array ti cells row n = Inr (cells', evs)"
    "length cells' = length cells" "\<And>i. i < row \<Longrightarrow> cells' ! i = cells ! i"
    "\<And>i. row \<le> i \<Longrightarrow> i < row + n \<Longrightarrow> cell_ok ti (cells' ! i)"
    "\<And>i. row \<le> i \<Longrightarrow> i < row + n \<Longrightarrow> th_ctor (ti_hooks ti) \<noteq> None \<Longrightarrow> cells' ! i = ti_default ti"
    "\<And>c. (ti_component ti = c \<longrightarrow> ti_counted ti) \<Longrightarrow> ev_delta c evs = (if ti_component ti = c then int n else 0)"
proof -
  define P where "P = (\<lambda>c' ls. cell_ok ti c' \<and> (th_ctor (ti_hooks ti) \<noteq> None \<longrightarrow> c' = ti_default ti)
    \<and> (\<exists>c. type_info_ctor ti c = Inr (c', ls)))"
  have "\<exists>c' ls. type_info_ctor ti (cells ! i) = Inr (c', ls) \<and> P c' ls" for i
    by (rule ti_ctor_ok[OF ti, of "cells ! i"]) (auto simp: P_def)
  with n have "\<exists>cells' ls. xtor_cells (type_info_ctor ti) cells row n = Inr (cells', ls) \<and> length cells' = length cells
    \<and> (\<forall>i<length cells. i < row \<or> row + n \<le> i \<longrightarrow> cells' ! i = cells ! i)
    \<and> (\<forall>i. row \<le> i \<and> i < row + n \<longrightarrow> (\<exists>ls. P (cells' ! i) ls))
    \<and> (\<forall>d. (\<forall>c' ls. P c' ls \<longrightarrow> life_sum ls = d) \<longrightarrow> life_sum ls = int n * d)"
    by (intro xtor_cells_all) auto
  then obtain cells' ls where r: "xtor_cells (type_info_ctor ti) cells row n = Inr (cells', ls)" "length cells' = length cells"
    "\<forall>i<length cells. i < row \<or> row + n \<le> i \<longrightarrow> cells' ! i = cells ! i"
    "\<forall>i. row \<le> i \<and> i < row + n \<longrightarrow> (\<exists>ls. P (cells' ! i) ls)"
    "\<And>d. (\<forall>c' ls. P c' ls \<longrightarrow> life_sum ls = d) \<Longrightarrow> life_sum ls = int n * d" by blast
  show ?thesis
  proof (rule that[of cells' "life_events ti ls"])
    show "flecs_table_invoke_ctor_for_array ti cells row n = Inr (cells', life_events ti ls)"
      by (simp add: flecs_table_invoke_ctor_for_array_def r(1))
    show "cells' ! i = cells ! i" if "i < row" for i using r(3) that n by auto
    show "cell_ok ti (cells' ! i)" if "row \<le> i" "i < row + n" for i
      using r(4) that by (auto simp: P_def)
    show "cells' ! i = ti_default ti" if "row \<le> i" "i < row + n" "th_ctor (ti_hooks ti) \<noteq> None" for i
      using r(4) that unfolding P_def by blast
    fix c assume c: "ti_component ti = c \<longrightarrow> ti_counted ti"
    have "life_sum ls = int n * 1" if "ti_component ti = c"
      using c that by (intro r(5)) (auto simp: P_def intro: counted_ctor)
    then show "ev_delta c (life_events ti ls) = (if ti_component ti = c then int n else 0)"
      by (simp add: ev_delta_life)
  qed (rule r(2))
qed

lemma next_pow2_pow2: "k \<le> 30 \<Longrightarrow> next_pow2 (2 ^ k) = 2 ^ k"
proof -
  assume k: "k \<le> 30"
  then have "(1::int) \<le> 2 ^ k" "(2::int) ^ k \<le> 2 ^ 30" by (simp, intro power_increasing, auto)
  then obtain m where m: "next_pow2 (2 ^ k) = 2 ^ m" "(2::int) ^ k \<le> 2 ^ m" "m = 0 \<or> (2::int) ^ (m - 1) < 2 ^ k"
    using next_pow2_least[of "2 ^ k"] by metis
  have "k \<le> m" using m(2) by (simp add: power_increasing_iff)
  moreover have "m \<le> k"
  proof (cases "m = 0")
    case False
    with m(3) have "m - 1 < k" by (simp add: power_strict_increasing_iff)
    then show ?thesis by simp
  qed simp
  ultimately show ?thesis using m(1) by simp
qed

text \<open>A size that a vector can be set to exactly.\<close>

definition fit_size :: "nat \<Rightarrow> bool" where
  "fit_size n \<longleftrightarrow> 2 \<le> n \<and> n \<le> 2 ^ 30 \<and> nat (next_pow2 (int n)) = n"

lemma set_size_fit:
  assumes "fit_size n" "vcount v \<le> n"
  shows "vsize (ecs_vec_set_size v n) = n"
proof -
  have "next_pow2 (int n) = int n"
    using assms(1) by (auto simp: fit_size_def)
  with assms show ?thesis by (auto simp: ecs_vec_set_size_def fit_size_def Let_def)
qed

lemma set_size_is_fit:
  assumes "vcount v \<le> n" "1 \<le> n" "n \<le> 2 ^ 30" "vsize v \<noteq> n"
  shows "vsize (ecs_vec_set_size v n) = vsize v \<or> fit_size (vsize (ecs_vec_set_size v n))"
proof -
  have n: "(1::int) \<le> int n" "int n \<le> 2 ^ 30" using assms(2,3) by simp_all
  obtain k where k: "k \<le> 30" "next_pow2 (int n) = 2 ^ k"
    using next_pow2_least[OF n] by metis
  define m where "m = (if next_pow2 (int n) < 2 then 2 else nat (next_pow2 (int n)))"
  have "fit_size m"
  proof (cases "next_pow2 (int n) < 2")
    case True
    have "next_pow2 2 = 2" using next_pow2_pow2[of 1] by simp
    with True show ?thesis by (simp add: m_def fit_size_def)
  next
    case False
    have "(2::nat) ^ k \<le> 2 ^ 30" using k(1) by (intro power_increasing) auto
    moreover have mm: "m = 2 ^ k" using False k by (simp add: m_def nat_power_eq)
    moreover have "int (2 ^ k) = 2 ^ k" by simp
    moreover have "k \<noteq> 0" using False k by (intro notI) simp
    then have "(2::nat) ^ 1 \<le> 2 ^ k" by (intro power_increasing) auto
    ultimately show ?thesis using False k next_pow2_pow2[OF k(1)] by (simp add: fit_size_def nat_power_eq)
  qed
  then show ?thesis using assms(1,4) by (auto simp: ecs_vec_set_size_def Let_def m_def)
qed

lemma vec_push_size:
  assumes "vec_wf v" "vcount v < 2 ^ 30"
  shows "vsize (vec_push v c) = vsize v \<or> fit_size (vsize (vec_push v c))"
    "vcount v + 1 \<le> vsize (vec_push v c)" "vsize (vec_push v c) \<le> 2 ^ 30" "vcount (vec_push v c) = vcount v + 1"
proof -
  have w: "vec_wf (vec_push v c)" and e: "vec_elems (vec_push v c) = vec_elems v @ [c]"
    using vec_append[OF assms] by simp_all
  show "vcount (vec_push v c) = vcount v + 1"
    by (simp add: vec_push_def ecs_vec_append_def Let_def vec_put_def)
  with w show "vcount v + 1 \<le> vsize (vec_push v c)" "vsize (vec_push v c) \<le> 2 ^ 30"
    by (simp_all add: vec_wf_def)
  show "vsize (vec_push v c) = vsize v \<or> fit_size (vsize (vec_push v c))"
    using set_size_is_fit[of v "vcount v + 1"] assms
    by (auto simp: vec_push_def ecs_vec_append_def Let_def vec_put_def)
qed

lemma vec_cells: "vec_wf v \<Longrightarrow> i < vcount v \<Longrightarrow> vec_elems v ! i = varray v ! i"
  by (simp add: vec_elems_def)

lemma set_size_cells:
  assumes "vec_wf v" "n \<le> 2 ^ 30" "i < vcount v"
  shows "varray (ecs_vec_set_size v n) ! i = varray v ! i"
  using vec_set_size[OF assms(1,2)] vec_cells[of v i] vec_cells[of "ecs_vec_set_size v n" i] assms by simp

lemma grow_column_ok:
  assumes v: "vec_wf v" and ti: "ti_lawful ti" and live: "\<forall>i<vcount v. cell_ok ti (varray v ! i)"
    and sz: "sz = vsize v \<or> fit_size sz" "vcount v + n \<le> sz" "sz \<le> 2 ^ 30"
  obtains v' evs where "flecs_table_grow_column v ti n sz construct = Inr (v', evs)"
    "length (varray v') = sz" "vsize v' = sz" "vcount v' = vcount v + n"
    "\<And>i. i < vcount v \<Longrightarrow> varray v' ! i = varray v ! i"
    "\<And>i. construct \<Longrightarrow> vcount v \<le> i \<Longrightarrow> i < vcount v + n \<Longrightarrow> cell_ok ti (varray v' ! i)"
    "\<And>i. construct \<Longrightarrow> vcount v \<le> i \<Longrightarrow> i < vcount v + n \<Longrightarrow> th_ctor (ti_hooks ti) \<noteq> None \<Longrightarrow>
      varray v' ! i = ti_default ti"
    "\<And>c. (ti_component ti = c \<longrightarrow> ti_counted ti) \<Longrightarrow>
      ev_delta c evs = (if construct \<and> ti_component ti = c then int n else 0)"
proof -
  note result = that
  have wf: "length (varray v) = vsize v" "vcount v \<le> vsize v" using v by (simp_all add: vec_wf_def)
  text \<open>The array that receives the new elements.\<close>
  define finish where "finish = (\<lambda>(dst :: 'a ecs_vec) (e0 :: storage_event list).
    res_bind (if construct then flecs_table_invoke_ctor_for_array ti (varray dst) (vcount v) n
              else Inr (varray dst, [])) (\<lambda>(array, evs). Inr (dst\<lparr>varray := array\<rparr>, e0 @ evs)))"
  have fin: thesis
    if g: "flecs_table_grow_column v ti n sz construct = finish dst e0"
      and d: "length (varray dst) = sz" "vsize dst = sz" "vcount dst = vcount v + n"
        "\<And>i. i < vcount v \<Longrightarrow> varray dst ! i = varray v ! i"
      and e0: "\<And>c. (ti_component ti = c \<longrightarrow> ti_counted ti) \<Longrightarrow> ev_delta c e0 = 0" for dst e0
  proof (cases construct)
    case False
    then have "finish dst e0 = Inr (dst, e0)" by (simp add: finish_def)
    with g d e0 False show thesis by (intro result[of dst e0]) simp_all
  next
    case True
    have room: "vcount v + n \<le> length (varray dst)" using d sz by simp
    obtain cells evs where
      c: "flecs_table_invoke_ctor_for_array ti (varray dst) (vcount v) n = Inr (cells, evs)"
      "length cells = length (varray dst)" "\<And>i. i < vcount v \<Longrightarrow> cells ! i = varray dst ! i"
      "\<And>i. vcount v \<le> i \<Longrightarrow> i < vcount v + n \<Longrightarrow> cell_ok ti (cells ! i)"
      "\<And>i. vcount v \<le> i \<Longrightarrow> i < vcount v + n \<Longrightarrow> th_ctor (ti_hooks ti) \<noteq> None \<Longrightarrow> cells ! i = ti_default ti"
      "\<And>c. (ti_component ti = c \<longrightarrow> ti_counted ti) \<Longrightarrow> ev_delta c evs = (if ti_component ti = c then int n else 0)"
      by (rule ctor_array_ok[OF ti room]) blast
    have "finish dst e0 = Inr (dst\<lparr>varray := cells\<rparr>, e0 @ evs)" using True c(1) by (simp add: finish_def)
    with g d e0 c True show thesis by (intro result[of "dst\<lparr>varray := cells\<rparr>" "e0 @ evs"]) simp_all
  qed
  show thesis
  proof (cases "vcount v \<noteq> 0 \<and> sz \<noteq> vsize v \<and> th_ctor_move_dtor (ti_hooks ti) \<noteq> None")
    case True
    then have ct: "th_ctor (ti_hooks ti) \<noteq> None"
      using ti by (auto simp: ti_lawful_def plain_hooks_def split: if_splits)
    define P where "P = (\<lambda>ls. \<exists>d s d' s'. type_info_ctor_move_dtor ti d s = Inr (d', s', ls))"
    define dst where "dst = (ecs_vec_init sz :: 'a ecs_vec)\<lparr>vcount := vcount v + n\<rparr>"
    have dl: "length (varray dst) = sz" "vsize dst = sz" "vcount dst = vcount v + n"
      by (simp_all add: dst_def ecs_vec_init_def ecs_vec_init_w_dbg_info_def flecs_vec_alloc_def)
    have "\<exists>s' ls. type_info_ctor_move_dtor ti d (varray v ! (0 + k)) = Inr (varray v ! (0 + k), s', ls) \<and> P ls"
      if "k < vcount v" for k d
      by (rule ti_ctor_move_dtor_ok[where ti = ti and s = "varray v ! k" and d = d]) (use ti live that in \<open>auto simp: P_def\<close>)
    then have "\<exists>dst' src' ls. move_cells (type_info_ctor_move_dtor ti) (varray dst) 0 (varray v) 0 (vcount v) = Inr (dst', src', ls)
      \<and> length dst' = length (varray dst)
      \<and> (\<forall>k<length (varray dst). dst' ! k = (if 0 \<le> k \<and> k < 0 + vcount v then varray v ! (0 + k - 0) else varray dst ! k))
      \<and> (\<forall>d. (\<forall>ls. P ls \<longrightarrow> life_sum ls = d) \<longrightarrow> life_sum ls = int (vcount v) * d)"
      using wf sz dl by (intro move_cells_all) auto
    then obtain dst' src' ls where m:
      "move_cells (type_info_ctor_move_dtor ti) (varray dst) 0 (varray v) 0 (vcount v) = Inr (dst', src', ls)"
      "length dst' = length (varray dst)"
      "\<forall>k<length (varray dst). dst' ! k = (if 0 \<le> k \<and> k < 0 + vcount v then varray v ! (0 + k - 0) else varray dst ! k)"
      "\<And>d. (\<forall>ls. P ls \<longrightarrow> life_sum ls = d) \<Longrightarrow> life_sum ls = int (vcount v) * d" by blast
    show thesis
    proof (rule fin[of "dst\<lparr>varray := dst'\<rparr>" "life_events ti ls"])
      show "flecs_table_grow_column v ti n sz construct = finish (dst\<lparr>varray := dst'\<rparr>) (life_events ti ls)"
        using True ct sz(2) m(1) dl
        by (auto simp: flecs_table_grow_column_def Let_def finish_def dst_def[symmetric] res_bind_assoc ecs_assert_def
            intro!: res_bind_cong split: prod.splits)
      show "varray (dst\<lparr>varray := dst'\<rparr>) ! i = varray v ! i" if "i < vcount v" for i
        using m(3) dl sz that by simp
      fix c assume c: "ti_component ti = c \<longrightarrow> ti_counted ti"
      have "life_sum ls = int (vcount v) * 0" if "ti_component ti = c"
        using c that by (intro m(4)) (auto simp: P_def intro: counted_ctor_move_dtor)
      then show "ev_delta c (life_events ti ls) = 0" by (simp add: ev_delta_life)
    qed (use m dl in simp_all)
  next
    case False
    define v1 where "v1 = (if sz \<noteq> vsize v then ecs_vec_set_size v sz else v)"
    have v1: "vec_wf v1" "vsize v1 = sz" "vcount v1 = vcount v"
      using vec_set_size[OF v sz(3)] set_size_fit[of sz v] v sz by (auto simp: v1_def)
    have c1: "varray v1 ! i = varray v ! i" if "i < vcount v" for i
      using set_size_cells[OF v sz(3) that] by (simp add: v1_def)
    define v2 where "v2 = fst (ecs_vec_grow v1 n)"
    have v2: "varray v2 = varray v1" "vsize v2 = sz" "vcount v2 = vcount v + n"
      using v1 sz(2) by (auto simp: v2_def ecs_vec_grow_def ecs_vec_set_count_def Let_def)
    show thesis
    proof (rule fin[of v2 "[]"])
      show "flecs_table_grow_column v ti n sz construct = finish v2 []"
        using False sz(2) v2
        by (auto simp: flecs_table_grow_column_def Let_def finish_def v1_def[symmetric] v2_def[symmetric] res_bind_assoc ecs_assert_def
            intro!: res_bind_cong split: prod.splits)
    qed (use v1 v2 c1 in \<open>auto simp: vec_wf_def\<close>)
  qed
qed

section \<open>Copying the bytes of an element\<close>

lemma nth_cells_replace:
  assumes "at + length xs \<le> length ys"
  shows "length (cells_replace at xs ys) = length ys"
    "i < length ys \<Longrightarrow> cells_replace at xs ys ! i = (if at \<le> i \<and> i < at + length xs then xs ! (i - at) else ys ! i)"
  using assms by (auto simp: cells_replace_def nth_append)

lemma copy_bytes_eq:
  "at + n \<le> length dst \<Longrightarrow> at + n \<le> length src \<Longrightarrow> copy_bytes at n dst src = Inr (cells_replace at (cells_between at n src) dst)"
  by (simp add: copy_bytes_def)

text \<open>Two accesses of \<open>a\<close> bytes, one at each end, that cover the element.\<close>

lemma copy_bytes_overlap:
  assumes "a \<le> n" "n \<le> 2 * a"
  shows "res_bind (copy_bytes 0 a dst src) (\<lambda>dst. copy_bytes (n - a) a dst src) = copy_bytes 0 n dst src"
proof (cases "n \<le> length dst \<and> n \<le> length src")
  case True
  let ?d = "cells_replace 0 (cells_between 0 a src) dst"
  have l: "length (cells_between i k src) = k" if "i + k \<le> length src" for i k
    using that by (simp add: cells_between_def)
  have d: "length ?d = length dst" using True assms by (simp add: nth_cells_replace l)
  have "cells_replace (n - a) (cells_between (n - a) a src) ?d = cells_replace 0 (cells_between 0 n src) dst"
  proof (rule nth_equalityI)
    show "length (cells_replace (n - a) (cells_between (n - a) a src) ?d) = length (cells_replace 0 (cells_between 0 n src) dst)"
      using True assms d by (simp add: nth_cells_replace l)
  next
    fix i assume "i < length (cells_replace (n - a) (cells_between (n - a) a src) ?d)"
    then have i: "i < length dst" using True assms d by (simp add: nth_cells_replace l)
    then show "cells_replace (n - a) (cells_between (n - a) a src) ?d ! i = cells_replace 0 (cells_between 0 n src) dst ! i"
      using True assms d by (auto simp: nth_cells_replace l) (auto simp: cells_between_def)
  qed
  then show ?thesis using True assms d by (simp add: copy_bytes_eq)
next
  case False
  then have c: "copy_bytes 0 n dst src = Inl MEMORY_FAULT" by (auto simp: copy_bytes_def)
  show ?thesis
  proof (cases "a \<le> length dst \<and> a \<le> length src")
    case True
    then have "length (cells_replace 0 (cells_between 0 a src) dst) = length dst"
      by (simp add: nth_cells_replace cells_between_def)
    then show ?thesis using True False c assms by (auto simp: copy_bytes_def)
  qed (use c in \<open>auto simp: copy_bytes_def\<close>)
qed

text \<open>
  Claim C40: the specialised copy of a component of any size above zero, with its two overlapping
  accesses for the sizes in between, writes exactly what copying its bytes would, and stays inside
  the two elements.
\<close>

theorem copy_elem_is_memcpy:
  assumes "0 < sz"
  shows "flecs_table_copy_elem dst src sz = copy_bytes 0 sz dst src"
proof -
  consider "sz \<in> {1, 2, 4, 8, 16}" | "32 < sz" | "16 < sz" "sz \<le> 32" | "8 < sz" "sz < 16"
    | "4 < sz" "sz < 8" | "sz = 3" using assms by fastforce
  then show ?thesis
  proof cases
    case 6
    then show ?thesis using copy_bytes_overlap[of 2 sz dst src] by (simp add: flecs_table_copy_elem_def)
  qed (use copy_bytes_overlap[of 16 sz dst src] copy_bytes_overlap[of 8 sz dst src] copy_bytes_overlap[of 4 sz dst src] in
      \<open>auto simp: flecs_table_copy_elem_def\<close>)
qed

theorem copy_elem_is_memcpy_witness:
  "flecs_table_copy_elem [9, 9, 9, 9] [1, 2, 3, 4] 3 = copy_bytes 0 3 [9, 9, 9, 9] [1, 2, 3, 4]"
  by (rule copy_elem_is_memcpy) simp

end
