(* ===== verification/Table_Rows.thy ===== *)
theory Table_Rows
  imports Table_Cells
begin

text \<open>
  The invariant of a table, and the two operations that change its number of rows: appending
  keeps the rows and adds one, deleting fills the hole with the last row.
\<close>

section \<open>Well-formed tables\<close>

text \<open>
  The ids of the type ascend, and the column map gives every column its id, in the same order. Every array has the size of the
  table, the flags announce the hooks of the columns, and the toggle ids of the type start at
  \<open>bs\_offset\<close>, one bit set for each.
\<close>

definition map_ok :: "'v ecs_table \<Rightarrow> bool" where
  "map_ok t \<longleftrightarrow> (\<forall>i<length (t_columns t). \<exists>j<length (t_type t).
     length (t_type t) + i < length (t_column_map t) \<and> t_column_map t ! (length (t_type t) + i) = int j)
     \<and> sorted_wrt (<) (t_type t)"

definition col_ids :: "'v ecs_table \<Rightarrow> u64 list" where
  "col_ids t = map (\<lambda>i. t_type t ! nat (t_column_map t ! (length (t_type t) + i))) [0..<length (t_columns t)]"

definition col_shape :: "nat \<Rightarrow> u32 \<Rightarrow> ('v::zero) ecs_column \<Rightarrow> bool" where
  "col_shape sz flags col \<longleftrightarrow> length (col_data col) = sz \<and> ti_lawful (col_ti col) \<and> ti_size (col_ti col) \<noteq> 0
     \<and> flecs_type_info_flags (col_ti col) AND flags = flecs_type_info_flags (col_ti col)"

definition toggles :: "u64 list \<Rightarrow> u64 list" where
  "toggles ids = filter (\<lambda>i. ECS_HAS_ID_FLAG i ECS_TOGGLE) ids"

definition bits_ok :: "'v ecs_table \<Rightarrow> bool" where
  "bits_ok t \<longleftrightarrow> (\<forall>bs\<in>set (t_bs_columns t). bs_wf bs \<and> bs_count bs = t_count t)
     \<and> length (t_bs_columns t) = length (toggles (t_type t))
     \<and> toggles (drop (t_bs_offset t) (t_type t)) = toggles (t_type t)
     \<and> (t_bs_columns t \<noteq> [] \<longrightarrow> table_has t EcsTableHasToggle
         \<and> t_bs_offset t < length (t_type t) \<and> ECS_HAS_ID_FLAG (t_type t ! t_bs_offset t) ECS_TOGGLE)"

definition table_shape :: "('v::zero) ecs_table \<Rightarrow> bool" where
  "table_shape t \<longleftrightarrow> vec_wf (ecs_vec_from_entities t) \<and> (\<forall>i<t_count t. t_entities t ! i \<noteq> None)
     \<and> map_ok t \<and> sorted_wrt (<) (col_ids t) \<and> (\<forall>col\<in>set (t_columns t). col_shape (t_size t) (t_flags t) col)
     \<and> bits_ok t \<and> t_lock t = 0 \<and> \<not> table_has t EcsTableHasIsA"

definition col_live :: "nat \<Rightarrow> ('v::zero) ecs_column \<Rightarrow> bool" where
  "col_live n col \<longleftrightarrow> (\<forall>i<n. cell_ok (col_ti col) (col_data col ! i))"

definition table_wf :: "('v::zero) ecs_table \<Rightarrow> bool" where
  "table_wf t \<longleftrightarrow> table_shape t \<and> (\<forall>col\<in>set (t_columns t). col_live (t_count t) col)"

text \<open>What an operation on rows does not change.\<close>

definition same_table :: "'v ecs_table \<Rightarrow> 'v ecs_table \<Rightarrow> bool" where
  "same_table t t' \<longleftrightarrow> t_type t' = t_type t \<and> t_column_map t' = t_column_map t \<and> t_flags t' = t_flags t
     \<and> t_bs_offset t' = t_bs_offset t \<and> t_lock t' = t_lock t \<and> t_traversable t' = t_traversable t
     \<and> map col_ti (t_columns t') = map col_ti (t_columns t)
     \<and> length (t_bs_columns t') = length (t_bs_columns t)"

lemma same_table_refl [simp]: "same_table t t"
  by (simp add: same_table_def)

lemma same_table_trans: "same_table t1 t2 \<Longrightarrow> same_table t2 t3 \<Longrightarrow> same_table t1 t3"
  by (simp add: same_table_def)

lemma same_tableD:
  assumes "same_table t t'"
  shows "t_type t' = t_type t" "t_column_map t' = t_column_map t" "t_flags t' = t_flags t"
    "t_bs_offset t' = t_bs_offset t" "t_lock t' = t_lock t" "length (t_columns t') = length (t_columns t)"
    "\<And>k. k < length (t_columns t) \<Longrightarrow> col_ti (t_columns t' ! k) = col_ti (t_columns t ! k)"
    "length (t_bs_columns t') = length (t_bs_columns t)"
proof -
  have m: "map col_ti (t_columns t') = map col_ti (t_columns t)" using assms by (simp add: same_table_def)
  then show l: "length (t_columns t') = length (t_columns t)" by (rule map_eq_imp_length_eq)
  show "col_ti (t_columns t' ! k) = col_ti (t_columns t ! k)" if "k < length (t_columns t)" for k
    using m that l by (metis nth_map)
qed (use assms in \<open>simp_all add: same_table_def\<close>)

lemma same_table_ids:
  assumes "same_table t t'"
  shows "col_ids t' = col_ids t" "map_ok t' = map_ok t" "table_has t' f = table_has t f"
  using same_tableD[OF assms] by (simp_all add: col_ids_def map_ok_def table_has_def)

lemma length_col_ids [simp]: "length (col_ids t) = length (t_columns t)"
  by (simp add: col_ids_def)

lemma col_ids_nth:
  "k < length (t_columns t) \<Longrightarrow> col_ids t ! k = t_type t ! nat (t_column_map t ! (length (t_type t) + k))"
  by (simp add: col_ids_def)

lemma flecs_column_id_eq:
  assumes "map_ok t" "k < length (t_columns t)"
  shows "flecs_column_id t k = Inr (col_ids t ! k)"
  using assms by (force simp: map_ok_def flecs_column_id_def col_ids_nth)

lemma invoke_hook_eq:
  assumes "map_ok t" "k < length (t_columns t)"
  shows "flecs_table_invoke_hook t cb k es row = Inr [cb (col_ids t ! k) es row]"
  using assms by (force simp: map_ok_def flecs_table_invoke_hook_def col_ids_nth)

lemma column_ids_eq:
  assumes "map_ok t" "i + length cols \<le> length (t_columns t)"
  shows "column_ids t i cols = Inr (zip (take (length cols) (drop i (col_ids t))) cols)"
  using assms
proof (induction cols arbitrary: i)
  case (Cons col cols)
  then have "i < length (t_columns t)" by simp
  then have "drop i (col_ids t) = col_ids t ! i # drop (Suc i) (col_ids t)"
    by (simp add: Cons_nth_drop_Suc)
  with Cons show ?case by (simp add: flecs_column_id_eq)
qed simp

lemma column_ids_all: "map_ok t \<Longrightarrow> column_ids t 0 (t_columns t) = Inr (zip (col_ids t) (t_columns t))"
  by (subst column_ids_eq) simp_all

text \<open>A table without complex flags has columns of plain types only.\<close>

lemma type_info_flags_bits:
  "th_ctor (ti_hooks ti) \<noteq> None \<or> th_on_add (ti_hooks ti) \<Longrightarrow> flecs_type_info_flags ti AND EcsTableHasCtors = EcsTableHasCtors"
  "th_dtor (ti_hooks ti) \<noteq> None \<or> th_on_remove (ti_hooks ti) \<Longrightarrow> flecs_type_info_flags ti AND EcsTableHasDtors = EcsTableHasDtors"
  "th_move (ti_hooks ti) \<noteq> None \<Longrightarrow> flecs_type_info_flags ti AND EcsTableHasMove = EcsTableHasMove"
  by (auto simp: flecs_type_info_flags_def Let_def EcsTableHasCtors_def EcsTableHasDtors_def
      EcsTableHasCopy_def EcsTableHasMove_def)

lemma flags_and_mono: "(f::u32) AND g = f \<Longrightarrow> f AND m = m \<Longrightarrow> g AND m = m"
  by (metis and.commute and.assoc)

lemma col_shape_flags:
  assumes "col_shape sz (t_flags t) col"
  shows "th_ctor (ti_hooks (col_ti col)) \<noteq> None \<or> th_on_add (ti_hooks (col_ti col)) \<Longrightarrow> table_has t EcsTableHasCtors"
    "th_dtor (ti_hooks (col_ti col)) \<noteq> None \<or> th_on_remove (ti_hooks (col_ti col)) \<Longrightarrow> table_has t EcsTableHasDtors"
    "th_move (ti_hooks (col_ti col)) \<noteq> None \<Longrightarrow> table_has t EcsTableHasMove"
proof -
  have a: "flecs_type_info_flags (col_ti col) AND t_flags t = flecs_type_info_flags (col_ti col)"
    using assms by (simp add: col_shape_def)
  note m = flags_and_mono[OF a type_info_flags_bits(1)] flags_and_mono[OF a type_info_flags_bits(2)]
    flags_and_mono[OF a type_info_flags_bits(3)]
  show "table_has t EcsTableHasCtors" if "th_ctor (ti_hooks (col_ti col)) \<noteq> None \<or> th_on_add (ti_hooks (col_ti col))"
    using m(1)[OF that] by (simp add: table_has_def EcsTableHasCtors_def)
  show "table_has t EcsTableHasDtors" if "th_dtor (ti_hooks (col_ti col)) \<noteq> None \<or> th_on_remove (ti_hooks (col_ti col))"
    using m(2)[OF that] by (simp add: table_has_def EcsTableHasDtors_def)
  show "table_has t EcsTableHasMove" if "th_move (ti_hooks (col_ti col)) \<noteq> None"
    using m(3)[OF that] by (simp add: table_has_def EcsTableHasMove_def)
qed

lemma table_has_or: "table_has t (f OR g) \<longleftrightarrow> table_has t f \<or> table_has t g"
  by (simp add: table_has_def bit.conj_disj_distrib or_eq_0_iff)

lemma complex_iff:
  "table_has t EcsTableIsComplex \<longleftrightarrow> table_has t EcsTableHasCtors \<or> table_has t EcsTableHasDtors
     \<or> table_has t EcsTableHasToggle \<or> table_has t EcsTableHasSparse"
  by (simp add: EcsTableIsComplex_def EcsTableHasLifecycle_def table_has_or)

lemma simple_plain:
  assumes "\<not> table_has t EcsTableIsComplex" "col_shape sz (t_flags t) col"
  shows "th_ctor (ti_hooks (col_ti col)) = None" "cell_ok (col_ti col) c" 
    "counted c0 col \<Longrightarrow> of_comp c0 col = 0"
proof -
  have no: "\<not> table_has t EcsTableHasCtors" "\<not> table_has t EcsTableHasDtors"
    using assms(1) by (simp_all add: complex_iff)
  show c: "th_ctor (ti_hooks (col_ti col)) = None"
    using no(1) col_shape_flags(1)[OF assms(2)] by blast
  show "cell_ok (col_ti col) c" using c by (simp add: cell_ok_def)
  have "th_dtor (ti_hooks (col_ti col)) = None"
    using no(2) col_shape_flags(2)[OF assms(2)] by blast
  then show "of_comp c0 col = 0" if "counted c0 col"
    using that by (auto simp: counted_def ti_counted_def of_comp_def)
qed

section \<open>Appending a row\<close>

text \<open>A column after the table grew by one row.\<close>

definition col_grown :: "nat \<Rightarrow> nat \<Rightarrow> bool \<Rightarrow> ('v::zero) ecs_column \<Rightarrow> 'v ecs_column \<Rightarrow> bool" where
  "col_grown n sz construct col col' \<longleftrightarrow> col_ti col' = col_ti col \<and> length (col_data col') = sz
     \<and> (\<forall>i<n. col_data col' ! i = col_data col ! i)
     \<and> (construct \<longrightarrow> cell_ok (col_ti col) (col_data col' ! n)
          \<and> (th_ctor (ti_hooks (col_ti col)) \<noteq> None \<longrightarrow> col_data col' ! n = ti_default (col_ti col)))"

lemma append_columns_ok:
  assumes "map_ok t" "i + length cols \<le> length (t_columns t)"
    and "\<And>col. col \<in> set cols \<Longrightarrow> ti_lawful (col_ti col) \<and> length (col_data col) = ps \<and> col_live pc col"
    and "pc \<le> ps" "ps \<le> 2 ^ 30" "sz = ps \<or> fit_size sz" "pc + 1 \<le> sz" "sz \<le> 2 ^ 30"
  shows "\<exists>cols' evs. append_columns t e pc ps (pc + 1) sz construct on_add i cols = Inr (cols', evs)
    \<and> list_all2 (col_grown pc sz construct) cols cols'
    \<and> (\<forall>c. (\<forall>col\<in>set cols. counted c col) \<longrightarrow>
        ev_delta c evs = (if construct then sum_list (map (of_comp c) cols) else 0))"
  using assms(2,3)
proof (induction cols arbitrary: i)
  case (Cons col cols)
  define v where "v = ecs_vec_from_column_ext col pc ps"
  have v: "vec_wf v" "vcount v = pc" "vsize v = ps" "varray v = col_data col"
    using Cons.prems(2)[of col] assms(4,5) by (simp_all add: v_def ecs_vec_from_column_ext_def vec_wf_def)
  have ti: "ti_lawful (col_ti col)" and live: "\<forall>k<vcount v. cell_ok (col_ti col) (varray v ! k)"
    using Cons.prems(2)[of col] v by (auto simp: col_live_def)
  have sz: "sz = vsize v \<or> fit_size sz" "vcount v + 1 \<le> sz" "sz \<le> 2 ^ 30" using assms v by simp_all
  obtain v' e1 where g: "flecs_table_grow_column v (col_ti col) 1 sz construct = Inr (v', e1)"
    "length (varray v') = sz" "vsize v' = sz" "vcount v' = pc + 1"
    "\<And>k. k < pc \<Longrightarrow> varray v' ! k = col_data col ! k"
    "\<And>k. construct \<Longrightarrow> pc \<le> k \<Longrightarrow> k < pc + 1 \<Longrightarrow> cell_ok (col_ti col) (varray v' ! k)"
    "\<And>k. construct \<Longrightarrow> pc \<le> k \<Longrightarrow> k < pc + 1 \<Longrightarrow> th_ctor (ti_hooks (col_ti col)) \<noteq> None \<Longrightarrow>
      varray v' ! k = ti_default (col_ti col)"
    "\<And>c. (ti_component (col_ti col) = c \<longrightarrow> ti_counted (col_ti col)) \<Longrightarrow>
      ev_delta c e1 = (if construct \<and> ti_component (col_ti col) = c then int 1 else 0)"
    by (rule grow_column_ok[OF v(1) ti live sz, where construct = construct, unfolded v(2-4)]) blast
  have gr: "col_grown pc sz construct col (col\<lparr>col_data := varray v'\<rparr>)"
    using g by (simp add: col_grown_def)
  have "\<exists>cols' evs. append_columns t e pc ps (pc + 1) sz construct on_add (Suc i) cols = Inr (cols', evs)
    \<and> list_all2 (col_grown pc sz construct) cols cols'
    \<and> (\<forall>c. (\<forall>col\<in>set cols. counted c col) \<longrightarrow>
        ev_delta c evs = (if construct then sum_list (map (of_comp c) cols) else 0))"
    using Cons.prems by (intro Cons.IH) auto
  then obtain cols' e3 where r: "append_columns t e pc ps (pc + 1) sz construct on_add (Suc i) cols = Inr (cols', e3)"
    "list_all2 (col_grown pc sz construct) cols cols'"
    "\<And>c. (\<forall>col\<in>set cols. counted c col) \<Longrightarrow>
        ev_delta c e3 = (if construct then sum_list (map (of_comp c) cols) else 0)" by blast
  obtain e2 where e2: "(if on_add \<and> th_on_add (ti_hooks (col_ti col))
      then flecs_table_invoke_hook t Ev_on_add i [e] pc else Inr []) = Inr e2" "\<And>c. ev_delta c e2 = 0"
  proof (cases "on_add \<and> th_on_add (ti_hooks (col_ti col))")
    case True
    then show ?thesis
      using invoke_hook_eq[OF assms(1), of i Ev_on_add "[e]" pc] Cons.prems(1)
      by (intro that[of "[Ev_on_add (col_ids t ! i) [e] pc]"]) simp_all
  next
    case False
    then show ?thesis by (intro that[of "[]"]) auto
  qed
  have "append_columns t e pc ps (pc + 1) sz construct on_add i (col # cols)
      = Inr (col\<lparr>col_data := varray v'\<rparr> # cols', e1 @ e2 @ e3)"
    using g(1) e2(1) r(1) g(3,4) by (simp add: v_def[symmetric])
  moreover have "ev_delta c (e1 @ e2 @ e3) = (if construct then sum_list (map (of_comp c) (col # cols)) else 0)"
    if "\<forall>col\<in>set (col # cols). counted c col" for c
    using that g(8)[of c] r(3)[of c] e2(2) by (auto simp: counted_def of_comp_def)
  ultimately show ?case using gr r(2) by (auto simp: list_all2_Cons1)
qed simp


lemma mark_dirty:
  obtains d v where "flecs_table_mark_table_dirty t 0 = Inr (t\<lparr>t_dirty := d, t_version := v\<rparr>)"
proof (cases "t_dirty t")
  case Nil
  then show ?thesis by (intro that[where d = "t_dirty t"]) (simp add: flecs_table_mark_table_dirty_def Let_def)
next
  case (Cons d ds)
  then show ?thesis by (intro that[where d = "(d + 1) # ds"]) (simp add: flecs_table_mark_table_dirty_def Let_def)
qed

lemma append_same_size:
  assumes "vcount u = vcount v" "vsize u = vsize v"
  shows "vsize (fst (ecs_vec_append u)) = vsize (vec_push v c)"
  using assms by (simp add: vec_push_def ecs_vec_append_def vec_put_def ecs_vec_set_size_def Let_def)

lemma append_cells:
  assumes "vec_wf u" "vcount u < 2 ^ 30"
  shows "length (varray (fst (ecs_vec_append u))) = vsize (fst (ecs_vec_append u))"
    "i < vcount u \<Longrightarrow> varray (fst (ecs_vec_append u)) ! i = varray u ! i"
proof -
  define w where "w = (if vsize u = vcount u then ecs_vec_set_size u (vcount u + 1) else u)"
  have n: "vcount u + 1 \<le> 2 ^ 30" using assms(2) by simp
  have w: "vec_wf w" "fst (ecs_vec_append u) = w\<lparr>vcount := vcount u + 1\<rparr>"
    using vec_set_size(1)[OF assms(1) n] assms(1) by (auto simp: w_def ecs_vec_append_def Let_def)
  then show "length (varray (fst (ecs_vec_append u))) = vsize (fst (ecs_vec_append u))"
    by (simp add: vec_wf_def)
  show "varray (fst (ecs_vec_append u)) ! i = varray u ! i" if "i < vcount u"
    unfolding w(2) using set_size_cells[OF assms(1) n that] by (simp add: w_def)
qed

lemma push_entities:
  assumes "vec_wf v" "vcount v < 2 ^ 30"
  shows "i < vcount v \<Longrightarrow> varray (vec_push v c) ! i = varray v ! i" "varray (vec_push v c) ! vcount v = c"
proof -
  have a: "vec_wf (vec_push v c)" "vec_elems (vec_push v c) = vec_elems v @ [c]"
    using vec_append[OF assms] by simp_all
  have n: "vcount (vec_push v c) = vcount v + 1" by (rule vec_push_size(4)[OF assms])
  have e: "varray (vec_push v c) ! i = (vec_elems v @ [c]) ! i" if "i \<le> vcount v" for i
    using vec_cells[OF a(1), of i] n a(2) that by simp
  show "varray (vec_push v c) ! i = varray v ! i" if "i < vcount v"
    using e[of i] that vec_cells[OF assms(1) that] assms(1) by (simp add: nth_append)
  show "varray (vec_push v c) ! vcount v = c"
    using e[of "vcount v"] assms(1) by (simp add: nth_append)
qed

definition bit_added :: "nat \<Rightarrow> ecs_bitset \<Rightarrow> ecs_bitset \<Rightarrow> bool" where
  "bit_added n bs bs' \<longleftrightarrow> bs_wf bs' \<and> bs_count bs' = n + 1 \<and> bs_list bs' = bs_list bs @ [False]"

lemma add_bits_ok:
  assumes "\<forall>bs\<in>set bss. bs_wf bs \<and> bs_count bs = n" "n < 2 ^ 28"
  obtains bss' where "add_bits 1 bss = Inr bss'" "list_all2 (bit_added n) bss bss'"
proof -
  have "\<exists>bss'. add_bits 1 bss = Inr bss' \<and> list_all2 (bit_added n) bss bss'"
    using assms(1)
  proof (induction bss)
    case (Cons bs bss)
    have bs: "bs_wf bs" "bs_count bs = n" using Cons.prems by simp_all
    then have "bs_count bs + 1 \<le> bs_max" using assms(2) by (simp add: bs_max_def)
    then obtain bs' where r: "flecs_bitset_addn bs 1 = Inr bs'" "bs_wf bs'" "bs_list bs' = bs_list bs @ replicate 1 False"
      by (rule bitset_addn[OF bs(1)])
    have "bs_count bs' = n + 1" using arg_cong[OF r(3), of length] bs(2) by simp
    with r have "bit_added n bs bs'" by (simp add: bit_added_def)
    with Cons r(1) show ?case by auto
  qed simp
  then show thesis using that by blast
qed

lemma bits_appended:
  assumes "bits_ok t" "t_type t' = t_type t" "t_bs_offset t' = t_bs_offset t" "t_flags t' = t_flags t"
    "t_count t' = t_count t + 1" "list_all2 (bit_added (t_count t)) (t_bs_columns t) (t_bs_columns t')"
  shows "bits_ok t'" "\<forall>k<length (t_bs_columns t). bs_list (t_bs_columns t' ! k) = bs_list (t_bs_columns t ! k) @ [False]"
proof -
  have "bs_wf bs \<and> bs_count bs = t_count t + 1" if "bs \<in> set (t_bs_columns t')" for bs
    using assms(6) that by (auto simp: bit_added_def in_set_conv_nth list_all2_conv_all_nth)
  with assms list_all2_lengthD[OF assms(6)] show "bits_ok t'" by (auto simp: bits_ok_def table_has_def)
  show "\<forall>k<length (t_bs_columns t). bs_list (t_bs_columns t' ! k) = bs_list (t_bs_columns t ! k) @ [False]"
    using list_all2_nthD[OF assms(6)] by (auto simp: bit_added_def)
qed

lemma list_all2_map_right: "list_all2 P xs (map f xs) \<longleftrightarrow> (\<forall>x\<in>set xs. P x (f x))"
  by (simp add: list.rel_map list.rel_eq_onp[symmetric] list_all2_same)

lemma col_grown_map_ti: "list_all2 (col_grown n sz b) cols cols' \<Longrightarrow> map col_ti cols' = map col_ti cols"
  by (induction rule: list_all2_induct) (auto simp: col_grown_def)

lemma col_shape_cong:
  "col_shape sz f col \<Longrightarrow> col_ti col' = col_ti col \<Longrightarrow> length (col_data col') = sz' \<Longrightarrow> col_shape sz' f col'"
  by (simp add: col_shape_def)

lemma col_grown_shape:
  assumes "list_all2 (col_grown n sz' b) cols cols'" "\<forall>col\<in>set cols. col_shape sz f col"
  shows "\<forall>col\<in>set cols'. col_shape sz' f col"
proof
  fix col' assume "col' \<in> set cols'"
  then obtain k where k: "k < length cols'" "col' = cols' ! k" by (auto simp: in_set_conv_nth)
  have l: "length cols = length cols'" using assms(1) by (rule list_all2_lengthD)
  then have "col_grown n sz' b (cols ! k) col'" using assms(1) k by (simp add: list_all2_nthD2)
  moreover have "col_shape sz f (cols ! k)" using assms(2) k l by simp
  ultimately show "col_shape sz' f col'" by (auto simp: col_grown_def intro: col_shape_cong)
qed

lemma table_append_ok:
  assumes wf: "table_wf t" and room: "t_count t < 2 ^ 28"
  obtains t' evs where "flecs_table_append t e construct on_add = Inr (t', evs)" "same_table t t'" "table_shape t'"
    "t_count t' = t_count t + 1" "\<forall>i<t_count t. t_entities t' ! i = t_entities t ! i"
    "t_entities t' ! t_count t = Some e"
    "list_all2 (col_grown (t_count t) (t_size t') construct) (t_columns t) (t_columns t')"
    "\<forall>k<length (t_bs_columns t). bs_list (t_bs_columns t' ! k) = bs_list (t_bs_columns t ! k) @ [False]"
    "\<forall>c. (\<forall>col\<in>set (t_columns t). counted c col) \<longrightarrow>
        ev_delta c evs = (if construct then sum_list (map (of_comp c) (t_columns t)) else 0)"
proof -
  note result = that
  define v where "v = ecs_vec_from_entities t"
  have sh: "table_shape t" using wf by (simp add: table_wf_def)
  then have v: "vec_wf v" "vcount v = t_count t" "vsize v = t_size t" "varray v = t_entities t"
    by (simp_all add: table_shape_def v_def ecs_vec_from_entities_def)
  have r30: "vcount v < 2 ^ 30" using room v by simp
  define v' where "v' = vec_push v (Some e)"
  have v'wf: "vec_wf v'" using vec_append(1)[OF v(1) r30] by (simp add: v'_def)
  note sz = vec_push_size[OF v(1) r30, of "Some e", folded v'_def]
  note ent = push_entities[OF v(1) r30, where c = "Some e", folded v'_def]
  define t1 where "t1 = t\<lparr>t_entities := varray v'\<rparr>"
  obtain d ver where m: "flecs_table_mark_table_dirty t1 0 = Inr (t1\<lparr>t_dirty := d, t_version := ver\<rparr>)"
    by (rule mark_dirty)
  define t2 where "t2 = t1\<lparr>t_dirty := d, t_version := ver\<rparr>"
  have t2: "t_columns t2 = t_columns t" "t_count t2 = t_count t" "t_size t2 = t_size t" "t_flags t2 = t_flags t"
    "t_type t2 = t_type t" "t_column_map t2 = t_column_map t" "t_bs_columns t2 = t_bs_columns t"
    "t_bs_offset t2 = t_bs_offset t" "t_lock t2 = t_lock t" "t_traversable t2 = t_traversable t" "t_entities t2 = varray v'"
    by (simp_all add: t2_def t1_def)
  have lock: "t_lock t = 0" and isa: "\<not> table_has t EcsTableHasIsA" and mo: "map_ok t" and bo: "bits_ok t"
    and cs: "\<forall>col\<in>set (t_columns t). col_shape (t_size t) (t_flags t) col" and so: "sorted_wrt (<) (col_ids t)"
    and es: "\<forall>i<t_count t. t_entities t ! i \<noteq> None"
    using sh by (simp_all add: table_shape_def)
  have live: "\<forall>col\<in>set (t_columns t). col_live (t_count t) col" using wf by (simp add: table_wf_def)
  text \<open>What has to be shown once the new columns are known.\<close>
  have fin: thesis
    if r: "flecs_table_append t e construct on_add = Inr (t', evs)"
      and t': "t' = t2\<lparr>t_columns := cols, t_bs_columns := bss, t_count := vcount v', t_size := vsize v'\<rparr>"
      and cols: "list_all2 (col_grown (t_count t) (vsize v') construct) (t_columns t) cols"
      and bss: "list_all2 (bit_added (t_count t)) (t_bs_columns t) bss"
      and ev: "\<forall>c. (\<forall>col\<in>set (t_columns t). counted c col) \<longrightarrow>
        ev_delta c evs = (if construct then sum_list (map (of_comp c) (t_columns t)) else 0)"
    for t' evs cols bss
  proof (rule result[OF r])
    have n: "t_count t' = t_count t + 1" using sz(4) v(2) by (simp add: t')
    note b = bits_appended[OF bo, of t']
    show st: "same_table t t'"
      using col_grown_map_ti[OF cols] list_all2_lengthD[OF bss] by (simp add: same_table_def t' t2)
    show "t_count t' = t_count t + 1" by (rule n)
    show "\<forall>i<t_count t. t_entities t' ! i = t_entities t ! i" "t_entities t' ! t_count t = Some e"
      using ent v by (simp_all add: t' t2)
    then have "\<forall>i<t_count t'. t_entities t' ! i \<noteq> None"
      using es n by (auto simp: less_Suc_eq)
    moreover have "vec_wf (ecs_vec_from_entities t')" using v'wf by (simp add: t' t2 ecs_vec_from_entities_def vec_wf_def)
    moreover have "bits_ok t'" by (rule b(1)) (use n in \<open>simp_all add: t' t2 bss\<close>)
    moreover have "\<forall>col\<in>set (t_columns t'). col_shape (t_size t') (t_flags t') col"
      using col_grown_shape[OF cols cs] by (simp add: t' t2)
    ultimately show "table_shape t'"
      using same_table_ids[OF st] mo so isa lock by (simp add: table_shape_def same_tableD[OF st])
    show "list_all2 (col_grown (t_count t) (t_size t') construct) (t_columns t) (t_columns t')"
      using cols by (simp add: t')
    show "\<forall>k<length (t_bs_columns t). bs_list (t_bs_columns t' ! k) = bs_list (t_bs_columns t ! k) @ [False]"
      by (rule b(2)) (use n in \<open>simp_all add: t' t2 bss\<close>)
  qed (rule ev)
  show thesis
  proof (cases "table_has t EcsTableIsComplex")
    case False
    then have simple: "\<not> table_has t2 (EcsTableIsComplex OR EcsTableHasIsA)"
      using isa by (simp add: table_has_or) (simp add: table_has_def t2)
    define f where "f = (\<lambda>column. column\<lparr>col_data := varray (fst (ecs_vec_append (ecs_vec_from_column column t2)))\<rparr>)"
    have bsn: "t_bs_columns t = []" using False bo by (auto simp: bits_ok_def complex_iff)
    show thesis
    proof (rule fin)
      show "flecs_table_append t e construct on_add
          = Inr (t2\<lparr>t_columns := map f (t_columns t), t_bs_columns := [], t_count := vcount v', t_size := vsize v'\<rparr>, [])"
        using lock simple m bsn t2
        by (simp add: flecs_table_append_def v_def[symmetric] v'_def[symmetric] t1_def[symmetric] t2_def[symmetric]
            Let_def flecs_table_fast_append_def f_def)
      show "list_all2 (col_grown (t_count t) (vsize v') construct) (t_columns t) (map f (t_columns t))"
        unfolding list_all2_map_right
      proof
        fix col assume col: "col \<in> set (t_columns t)"
        then have cc: "col_shape (t_size t) (t_flags t) col" using cs by blast
        define u where "u = ecs_vec_from_column col t2"
        have u: "vec_wf u" "vcount u = vcount v" "vsize u = vsize v" "varray u = col_data col"
          using cc v(1-3) t2 by (auto simp: u_def ecs_vec_from_column_def ecs_vec_from_column_ext_def col_shape_def vec_wf_def)
        have "vsize (fst (ecs_vec_append u)) = vsize v'"
          unfolding v'_def by (rule append_same_size) (rule u)+
        then show "col_grown (t_count t) (vsize v') construct col (f col)"
          using append_cells[OF u(1)] u r30 v simple_plain[OF False cc] by (simp add: col_grown_def f_def u_def[symmetric])
      qed
      show "\<forall>c. (\<forall>col\<in>set (t_columns t). counted c col) \<longrightarrow>
        ev_delta c [] = (if construct then sum_list (map (of_comp c) (t_columns t)) else 0)"
      proof (intro allI impI)
        fix c assume "\<forall>col\<in>set (t_columns t). counted c col"
        then have "map (of_comp c) (t_columns t) = map (\<lambda>_. 0) (t_columns t)"
          using simple_plain(3)[OF False] cs by (intro map_cong refl) blast
        then show "ev_delta c [] = (if construct then sum_list (map (of_comp c) (t_columns t)) else 0)"
          by (simp add: map_replicate_const sum_list_replicate)
      qed
    qed (simp_all add: bsn)
  next
    case True
    then have cx: "table_has t2 (EcsTableIsComplex OR EcsTableHasIsA)" "\<not> table_has t2 EcsTableHasIsA"
      using isa by (simp_all add: table_has_or) (simp_all add: table_has_def t2)
    define t3 where "t3 = t2\<lparr>t_count := vcount v', t_size := vsize v'\<rparr>"
    have mo3: "map_ok t3" using mo by (simp add: t3_def map_ok_def t2)
    have "\<exists>cols' evs. append_columns t3 e (t_count t) (t_size t) (t_count t + 1) (vsize v') construct on_add 0 (t_columns t) = Inr (cols', evs)
      \<and> list_all2 (col_grown (t_count t) (vsize v') construct) (t_columns t) cols'
      \<and> (\<forall>c. (\<forall>col\<in>set (t_columns t). counted c col) \<longrightarrow>
          ev_delta c evs = (if construct then sum_list (map (of_comp c) (t_columns t)) else 0))"
    proof (rule append_columns_ok[OF mo3])
      show "0 + length (t_columns t) \<le> length (t_columns t3)" by (simp add: t3_def t2)
      show "ti_lawful (col_ti col) \<and> length (col_data col) = t_size t \<and> col_live (t_count t) col" if "col \<in> set (t_columns t)" for col
        using that cs live by (auto simp: col_shape_def)
    qed (use sz v in \<open>auto simp: vec_wf_def\<close>)
    then obtain cols' evs where a: "append_columns t3 e (t_count t) (t_size t) (t_count t + 1) (vsize v') construct on_add 0 (t_columns t) = Inr (cols', evs)"
      "list_all2 (col_grown (t_count t) (vsize v') construct) (t_columns t) cols'"
      "\<forall>c. (\<forall>col\<in>set (t_columns t). counted c col) \<longrightarrow>
          ev_delta c evs = (if construct then sum_list (map (of_comp c) (t_columns t)) else 0)" by blast
    have "\<forall>bs\<in>set (t_bs_columns t). bs_wf bs \<and> bs_count bs = t_count t" using bo by (auto simp: bits_ok_def)
    then obtain bss where bss: "add_bits 1 (t_bs_columns t) = Inr bss"
      "list_all2 (bit_added (t_count t)) (t_bs_columns t) bss" by (rule add_bits_ok[OF _ room])
    show thesis
    proof (rule fin[OF _ refl a(2) bss(2) a(3)])
      show "flecs_table_append t e construct on_add
          = Inr (t2\<lparr>t_columns := cols', t_bs_columns := bss,
              t_count := vcount v', t_size := vsize v'\<rparr>, evs)"
        using lock m cx a(1) bss(1) sz(4) v(2) t2 unfolding t3_def
        by (simp add: flecs_table_append_def v_def[symmetric] v'_def[symmetric] t1_def[symmetric] t2_def[symmetric]
            Let_def flecs_table_update_overrides_def)
    qed
  qed
qed

section \<open>Deleting a row\<close>

definition uses_ctor_move_dtor :: "'v ecs_type_info \<Rightarrow> bool" where
  "uses_ctor_move_dtor ti \<longleftrightarrow> th_move_ctor (ti_hooks ti) = None \<and> th_ctor_move_dtor (ti_hooks ti) \<noteq> None"

text \<open>
  What a column must hold for the row to be deleted: values in the other rows, and in the row
  itself unless it is only overwritten.
\<close>

definition col_deletable :: "nat \<Rightarrow> nat \<Rightarrow> bool \<Rightarrow> ('v::zero) ecs_column \<Rightarrow> bool" where
  "col_deletable n row destruct col \<longleftrightarrow> (\<forall>i\<le>n. i \<noteq> row \<longrightarrow> cell_ok (col_ti col) (col_data col ! i))
     \<and> (cell_ok (col_ti col) (col_data col ! row)
        \<or> \<not> destruct \<and> (row = n \<or> uses_ctor_move_dtor (col_ti col)))"

definition col_deleted :: "nat \<Rightarrow> nat \<Rightarrow> ('v::zero) ecs_column \<Rightarrow> 'v ecs_column \<Rightarrow> bool" where
  "col_deleted n row col col' \<longleftrightarrow> col_ti col' = col_ti col \<and> length (col_data col') = length (col_data col)
     \<and> (\<forall>i<n. col_data col' ! i = col_data col ! (if i = row then n else i))"

lemma column_move_ok:
  assumes "f (col_data col ! row) (col_data col ! n) = Inr (col_data col ! n, s', ls)"
    "row < n" "n < length (col_data col)"
  shows "\<exists>col'. column_move f col row n = Inr (col', life_events (col_ti col) ls) \<and> col_deleted n row col col'"
  using assms by (auto simp: column_move_def col_deleted_def nth_list_update)

lemma fast_delete_ok:
  assumes "row < n" "\<forall>col\<in>set (t_columns t). n < length (col_data col)"
  shows "\<exists>cols. flecs_table_fast_delete t row n = Inr (t\<lparr>t_columns := cols\<rparr>)
    \<and> list_all2 (col_deleted n row) (t_columns t) cols"
proof -
  have "\<exists>cols' evs. map_columns (\<lambda>i column. column_move copy_cell column row n) 0 (t_columns t) = Inr (cols', evs)
    \<and> list_all2 (col_deleted n row) (t_columns t) cols'
    \<and> (\<forall>c. (\<forall>col\<in>set (t_columns t). counted c col) \<longrightarrow> ev_delta c evs = sum_list (map (\<lambda>_. 0) (t_columns t)))"
  proof (rule map_columns_all)
    fix k assume "k < length (t_columns t)"
    then have "n < length (col_data (t_columns t ! k))" using assms(2) by simp
    then show "\<exists>c' e. column_move copy_cell (t_columns t ! k) row n = Inr (c', e) \<and> col_deleted n row (t_columns t ! k) c'
      \<and> (\<forall>c. counted c (t_columns t ! k) \<longrightarrow> ev_delta c e = 0)"
      using column_move_ok[of copy_cell "t_columns t ! k" row n "col_data (t_columns t ! k) ! n" "[]"] assms(1)
      by (auto simp: copy_cell_def ev_delta_life)
  qed
  then show ?thesis by (auto simp: flecs_table_fast_delete_def)
qed

lemma delete_move_ok:
  assumes mo: "map_ok t" and k: "k < length (t_columns t)" and row: "row < n" and len: "n < length (col_data col)"
    and ti: "ti_lawful (col_ti col)" and d: "col_deletable n row destruct col"
  shows "\<exists>col' e. delete_move t x row n destruct k col = Inr (col', e) \<and> col_deleted n row col col'
    \<and> (\<forall>c. counted c col \<longrightarrow> ev_delta c e = - of_comp c col)"
proof -
  let ?ti = "col_ti col"
  define f where "f = (if th_move_ctor (ti_hooks ?ti) = None \<and> th_ctor_move_dtor (ti_hooks ?ti) \<noteq> None
           then type_info_ctor_move_dtor ?ti else type_info_move_dtor ?ti)"
  have s: "cell_ok ?ti (col_data col ! n)" using d row by (simp add: col_deletable_def)
  obtain s' ls where f: "f (col_data col ! row) (col_data col ! n) = Inr (col_data col ! n, s', ls)"
    "ti_counted ?ti \<Longrightarrow> life_sum ls = - 1"
  proof (cases "uses_ctor_move_dtor ?ti")
    case True
    obtain s' ls where "type_info_ctor_move_dtor ?ti (col_data col ! row) (col_data col ! n) = Inr (col_data col ! n, s', ls)"
      by (rule ti_ctor_move_dtor_ok[OF ti s])
    moreover have "\<not> ti_counted ?ti" using True by (auto simp: uses_ctor_move_dtor_def ti_counted_def)
    ultimately show ?thesis using True by (intro that) (auto simp: f_def uses_ctor_move_dtor_def)
  next
    case False
    then have "cell_ok ?ti (col_data col ! row)" using d row by (auto simp: col_deletable_def)
    then obtain s' ls where m: "type_info_move_dtor ?ti (col_data col ! row) (col_data col ! n) = Inr (col_data col ! n, s', ls)"
      using ti_move_dtor_ok[OF ti _ s] by metis
    moreover have "f = type_info_move_dtor ?ti" using False by (auto simp: f_def uses_ctor_move_dtor_def)
    ultimately show ?thesis using counted_move_dtor[OF _ m] by (intro that) auto
  qed
  obtain col' where c: "column_move f col row n = Inr (col', life_events ?ti ls)" "col_deleted n row col col'"
    using column_move_ok[where f = f and col = col and row = row and n = n, OF f(1) row len] by blast
  obtain e1 where e1: "(if destruct \<and> th_on_remove (ti_hooks ?ti)
                then flecs_table_invoke_hook t Ev_on_remove k [x] row else Inr []) = Inr e1" "\<And>c. ev_delta c e1 = 0"
  proof (cases "destruct \<and> th_on_remove (ti_hooks ?ti)")
    case True
    then show ?thesis using invoke_hook_eq[OF mo k, of Ev_on_remove "[x]" row]
      by (intro that[of "[Ev_on_remove (col_ids t ! k) [x] row]"]) simp_all
  next
    case False
    then show ?thesis by (intro that[of "[]"]) auto
  qed
  have "delete_move t x row n destruct k col = Inr (col', e1 @ life_events ?ti ls)"
    unfolding delete_move_def Let_def f_def[symmetric] e1(1) c(1) by simp
  moreover have "ev_delta c (e1 @ life_events ?ti ls) = - of_comp c col" if "counted c col" for c
    using that e1(2) f(2) by (auto simp: counted_def of_comp_def ev_delta_life)
  ultimately show ?thesis using c(2) by blast
qed

lemma remove_hooks_ok:
  assumes mo: "map_ok t" and k: "k < length (t_columns t)" and len: "row < length (col_data col)"
    and ti: "ti_lawful (col_ti col)" and live: "dtor \<Longrightarrow> cell_ok (col_ti col) (col_data col ! row)"
  shows "\<exists>col' e. flecs_table_invoke_remove_hooks t k col es row 1 dtor = Inr (col', e)
    \<and> col_ti col' = col_ti col \<and> length (col_data col') = length (col_data col)
    \<and> (\<forall>i. i \<noteq> row \<longrightarrow> col_data col' ! i = col_data col ! i) \<and> (\<not> dtor \<longrightarrow> col' = col)
    \<and> (\<forall>c. counted c col \<longrightarrow> ev_delta c e = (if dtor then - of_comp c col else 0))"
proof -
  have ne: "col_data col \<noteq> []" using len by auto
  obtain e1 where e1: "(if th_on_remove (ti_hooks (col_ti col))
                then flecs_table_invoke_hook t Ev_on_remove k es row else Inr []) = Inr e1" "\<And>c. ev_delta c e1 = 0"
  proof (cases "th_on_remove (ti_hooks (col_ti col))")
    case True
    then show ?thesis using invoke_hook_eq[OF mo k, of Ev_on_remove es row]
      by (intro that[of "[Ev_on_remove (col_ids t ! k) es row]"]) simp_all
  next
    case False
    then show ?thesis by (intro that[of "[]"]) auto
  qed
  show ?thesis
  proof (cases dtor)
    case False
    then show ?thesis using e1 ne by (auto simp: flecs_table_invoke_remove_hooks_def)
  next
    case True
    obtain c' ls where d: "type_info_dtor (col_ti col) (col_data col ! row) = Inr (c', ls)"
      by (rule ti_dtor_ok[OF ti live[OF True]])
    have x: "xtor_cells (type_info_dtor (col_ti col)) (col_data col) row 1 = Inr ((col_data col)[row := c'], ls)"
      using d len by (simp add: numeral_eq_Suc)
    define col' where "col' = col\<lparr>col_data := (col_data col)[row := c']\<rparr>"
    have "flecs_table_invoke_remove_hooks t k col es row 1 dtor = Inr (col', e1 @ life_events (col_ti col) ls)"
      using ne e1 x True by (simp add: flecs_table_invoke_remove_hooks_def flecs_table_invoke_dtor_def col'_def)
    moreover have "ev_delta c (e1 @ life_events (col_ti col) ls) = - of_comp c col" if "counted c col" for c
      using that e1(2) counted_dtor[OF _ d] by (auto simp: counted_def of_comp_def ev_delta_life)
    ultimately show ?thesis using True by (auto simp: col'_def)
  qed
qed

lemma sum_list_neg: "sum_list (map (\<lambda>x. - f x :: int) xs) = - sum_list (map f xs)"
  by (induction xs) simp_all

lemma remove_bits_ok:
  assumes "\<forall>bs\<in>set bss. bs_wf bs \<and> bs_count bs = Suc n" "row \<le> n"
  shows "\<exists>bss'. remove_bits row bss = Inr bss' \<and> (\<forall>bs\<in>set bss'. bs_wf bs \<and> bs_count bs = n)
    \<and> map bs_list bss' = map (swap_removed row \<circ> bs_list) bss"
  using assms
proof (induction bss)
  case (Cons bs bss)
  have b: "bs_wf bs" "row < bs_count bs" "bs_count bs = Suc n" using Cons.prems by auto
  obtain bs' where r: "flecs_bitset_remove bs row = Inr bs'" "bs_wf bs'" "bs_list bs' = swap_removed row (bs_list bs)"
    by (rule bitset_remove[OF b(1,2)])
  have "bs_count bs' = n" using arg_cong[OF r(3), of length] b(2,3) by (simp add: swap_removed_def)
  with Cons r show ?case by auto
qed simp

lemma sum_of_comp_simple:
  assumes "\<not> table_has t EcsTableHasDtors" "\<forall>col\<in>set (t_columns t). col_shape (t_size t) (t_flags t) col"
    "\<forall>col\<in>set (t_columns t). counted c col"
  shows "sum_list (map (of_comp c) (t_columns t)) = 0"
proof -
  have "of_comp c col = 0" if "col \<in> set (t_columns t)" for col
  proof -
    have "th_dtor (ti_hooks (col_ti col)) = None"
      using assms(1,2) that col_shape_flags(2)[of "t_size t" t col] by blast
    then show ?thesis using assms(3) that by (auto simp: counted_def ti_counted_def of_comp_def)
  qed
  then have "map (of_comp c) (t_columns t) = map (\<lambda>_. 0) (t_columns t)" by (intro map_cong refl)
  then show ?thesis by (simp add: map_replicate_const sum_list_replicate)
qed

text \<open>
  Columns that had a row deleted are live again: in every place a value of the old column is found.
\<close>

lemma col_deleted_all:
  assumes "list_all2 (col_deleted n row) cols cols'" "\<forall>col\<in>set cols. col_shape sz f col"
    "\<forall>col\<in>set cols. col_deletable n row destruct col" "row \<le> n"
  shows "\<forall>col\<in>set cols'. col_shape sz f col \<and> col_live n col" "map col_ti cols' = map col_ti cols"
proof -
  have l: "length cols = length cols'" using assms(1) by (rule list_all2_lengthD)
  have d: "col_deleted n row (cols ! k) (cols' ! k)" if "k < length cols'" for k
    using assms(1) that l by (simp add: list_all2_nthD2)
  show "map col_ti cols' = map col_ti cols"
    using l d by (intro nth_equalityI) (auto simp: col_deleted_def)
  show "\<forall>col\<in>set cols'. col_shape sz f col \<and> col_live n col"
  proof
    fix col' assume "col' \<in> set cols'"
    then obtain k where k: "k < length cols'" "col' = cols' ! k" by (auto simp: in_set_conv_nth)
    define col where "col = cols ! k"
    have a: "col_deleted n row col col'" "col_shape sz f col" "col_deletable n row destruct col"
      using d[OF k(1)] assms(2,3) k l by (simp_all add: col_def)
    have "cell_ok (col_ti col') (col_data col' ! i)" if "i < n" for i
    proof (cases "i = row")
      case True
      with a(1,3) that show ?thesis by (auto simp: col_deleted_def col_deletable_def)
    next
      case False
      with a(1,3) that show ?thesis by (auto simp: col_deleted_def col_deletable_def)
    qed
    moreover have "col_shape sz f col'"
      using a(1,2) by (intro col_shape_cong[OF a(2)]) (simp_all add: col_deleted_def col_shape_def)
    ultimately show "col_shape sz f col' \<and> col_live n col'" by (simp add: col_live_def)
  qed
qed

lemma table_delete_ok:
  assumes sh: "table_shape t" and row: "row < t_count t"
    and del: "\<forall>col\<in>set (t_columns t). col_deletable (t_count t - 1) row destruct col"
    and ix: "(if row \<noteq> t_count t - 1 then update_moved_record ei tid (the (t_entities t ! (t_count t - 1))) row
              else Inr ei) = Inr ei'"
  obtains t' evs where "flecs_table_delete ei tid t row destruct = Inr (ei', t', evs)" "same_table t t'" "table_wf t'"
    "t_count t' = t_count t - 1"
    "\<forall>i<t_count t - 1. t_entities t' ! i = t_entities t ! (if i = row then t_count t - 1 else i)"
    "list_all2 (col_deleted (t_count t - 1) row) (t_columns t) (t_columns t')"
    "\<forall>k<length (t_bs_columns t). bs_list (t_bs_columns t' ! k) = swap_removed row (bs_list (t_bs_columns t ! k))"
    "\<forall>c. (\<forall>col\<in>set (t_columns t). counted c col) \<longrightarrow>
        ev_delta c evs = (if destruct \<or> row \<noteq> t_count t - 1 then - sum_list (map (of_comp c) (t_columns t)) else 0)"
proof -
  note result = that
  define n where "n = t_count t - 1"
  have cnt: "t_count t = Suc n" "row \<le> n" using row by (simp_all add: n_def)
  have vw: "vec_wf (ecs_vec_from_entities t)" and es: "\<forall>i<t_count t. t_entities t ! i \<noteq> None"
    and lock: "t_lock t = 0" and isa: "\<not> table_has t EcsTableHasIsA" and mo: "map_ok t" and bo: "bits_ok t"
    and cs: "\<forall>col\<in>set (t_columns t). col_shape (t_size t) (t_flags t) col" and so: "sorted_wrt (<) (col_ids t)"
    using sh by (simp_all add: table_shape_def)
  have el: "length (t_entities t) = t_size t" "t_count t \<le> t_size t" "t_size t \<le> 2 ^ 30"
    using vw by (simp_all add: vec_wf_def ecs_vec_from_entities_def)
  obtain e_move where em: "t_entities t ! n = Some e_move" using es cnt by auto
  obtain e_del where ed: "t_entities t ! row = Some e_del" using es cnt by (metis le_imp_less_Suc not_None_eq)
  define ents where "ents = (t_entities t)[row := Some e_move]"
  define t1 where "t1 = t\<lparr>t_entities := ents\<rparr>"
  obtain d ver where m: "flecs_table_mark_table_dirty t1 0 = Inr (t1\<lparr>t_dirty := d, t_version := ver\<rparr>)"
    by (rule mark_dirty)
  define t2 where "t2 = t1\<lparr>t_dirty := d, t_version := ver\<rparr>"
  have t2: "t_columns t2 = t_columns t" "t_count t2 = t_count t" "t_size t2 = t_size t" "t_flags t2 = t_flags t"
    "t_type t2 = t_type t" "t_column_map t2 = t_column_map t" "t_bs_columns t2 = t_bs_columns t"
    "t_bs_offset t2 = t_bs_offset t" "t_lock t2 = t_lock t" "t_traversable t2 = t_traversable t" "t_entities t2 = ents"
    by (simp_all add: t2_def t1_def)
  have mo2: "map_ok t2" using mo by (simp add: map_ok_def t2)
  have has2: "table_has t2 f = table_has t f" for f by (simp add: table_has_def t2)
  have len: "\<forall>col\<in>set (t_columns t2). n < length (col_data col)"
    using cs cnt el by (auto simp: col_shape_def t2)
  have ix': "(if row \<noteq> n then update_moved_record ei tid e_move row else Inr ei) = Inr ei'"
    using ix[folded n_def] unfolding em option.sel .
  note del' = del[folded n_def]
  text \<open>What remains once the columns and the bit sets are known.\<close>
  have fin: thesis
    if r: "flecs_table_delete ei tid t row destruct = Inr (ei', t', evs)"
      and t': "t' = t2\<lparr>t_columns := cols, t_bs_columns := bss, t_count := n\<rparr>"
      and cols: "list_all2 (col_deleted n row) (t_columns t) cols"
      and bss: "\<forall>bs\<in>set bss. bs_wf bs \<and> bs_count bs = n" "map bs_list bss = map (swap_removed row \<circ> bs_list) (t_bs_columns t)"
      and ev: "\<forall>c. (\<forall>col\<in>set (t_columns t). counted c col) \<longrightarrow>
        ev_delta c evs = (if destruct \<or> row \<noteq> n then - sum_list (map (of_comp c) (t_columns t)) else 0)"
    for t' evs cols bss
  proof (rule result[OF r])
    have bl: "length bss = length (t_bs_columns t)" using bss(2) by (rule map_eq_imp_length_eq)
    note ca = col_deleted_all[OF cols cs del' cnt(2)]
    show st: "same_table t t'" using ca(2) bl by (simp add: same_table_def t' t2)
    show "t_count t' = t_count t - 1" using cnt by (simp add: t')
    show ents: "\<forall>i<t_count t - 1. t_entities t' ! i = t_entities t ! (if i = row then t_count t - 1 else i)"
      using cnt el em by (auto simp: t' t2 ents_def nth_list_update)
    have "\<forall>i<t_count t'. t_entities t' ! i \<noteq> None"
      using ents es cnt em by (auto simp: t' simp del: not_None_eq)
    moreover have "vec_wf (ecs_vec_from_entities t')"
      using el cnt by (simp add: t' t2 ents_def ecs_vec_from_entities_def vec_wf_def)
    moreover have "bits_ok t'"
      using bo bss(1) bl by (auto simp: bits_ok_def t' t2 table_has_def)
    ultimately show "table_wf t'"
      using same_table_ids[OF st] mo so isa lock ca(1)
      by (simp add: table_wf_def table_shape_def same_tableD[OF st]) (simp add: t' t2)
    show "list_all2 (col_deleted (t_count t - 1) row) (t_columns t) (t_columns t')"
      using cols cnt by (simp add: t')
    show "\<forall>k<length (t_bs_columns t). bs_list (t_bs_columns t' ! k) = swap_removed row (bs_list (t_bs_columns t ! k))"
    proof (intro allI impI)
      fix k assume "k < length (t_bs_columns t)"
      then show "bs_list (t_bs_columns t' ! k) = swap_removed row (bs_list (t_bs_columns t ! k))"
        using arg_cong[OF bss(2), of "\<lambda>xs. xs ! k"] bl by (simp add: t')
    qed
  qed (use ev in \<open>simp add: n_def\<close>)
  have run: "flecs_table_delete ei tid t row destruct =
    (if \<not> table_has t2 EcsTableIsComplex then
       res_bind (if row \<noteq> n then flecs_table_fast_delete t2 row n else Inr t2) (\<lambda>t.
       Inr (ei', t\<lparr>t_count := t_count t - 1\<rparr>, []))
     else
       res_bind
         (if row = n then
            if destruct \<and> table_has t2 EcsTableHasDtors then
              res_bind (map_columns (\<lambda>i column.
                  flecs_table_invoke_remove_hooks t2 i column [e_del] row 1 True) 0 (t_columns t2))
                (\<lambda>(columns, evs). Inr (t2\<lparr>t_columns := columns\<rparr>, evs))
            else Inr (t2, [])
          else if table_has t2 (EcsTableHasDtors OR EcsTableHasMove) then
            res_bind (map_columns (delete_move t2 e_del row n destruct) 0 (t_columns t2))
              (\<lambda>(columns, evs). Inr (t2\<lparr>t_columns := columns\<rparr>, evs))
          else res_bind (flecs_table_fast_delete t2 row n) (\<lambda>t. Inr (t, [])))
         (\<lambda>(t, evs).
       res_bind (remove_bits row (t_bs_columns t)) (\<lambda>bss.
       Inr (ei', t\<lparr>t_bs_columns := bss, t_count := t_count t - 1\<rparr>, evs))))"
    unfolding flecs_table_delete_def
    using lock cnt el em ed ix' m
    by (simp add: n_def[symmetric] ents_def[symmetric] t1_def[symmetric] t2_def[symmetric])
  have keep: "list_all2 (col_deleted n row) (t_columns t) (t_columns t)" if "row = n"
    using that by (auto simp: col_deleted_def intro!: list.rel_refl_strong)
  show thesis
  proof (cases "table_has t EcsTableIsComplex")
    case False
    have bsn: "t_bs_columns t = []" using False bo by (auto simp: bits_ok_def complex_iff)
    have nd: "\<not> table_has t EcsTableHasDtors" using False by (simp add: complex_iff)
    obtain cols where c: "(if row \<noteq> n then flecs_table_fast_delete t2 row n else Inr t2) = Inr (t2\<lparr>t_columns := cols\<rparr>)"
      "list_all2 (col_deleted n row) (t_columns t) cols"
    proof (cases "row = n")
      case True
      then show ?thesis using keep by (intro that[of "t_columns t"]) (simp_all add: t2(1)[symmetric])
    next
      case False
      with cnt have "row < n" by simp
      from fast_delete_ok[OF this len] obtain cols where "flecs_table_fast_delete t2 row n = Inr (t2\<lparr>t_columns := cols\<rparr>)"
        "list_all2 (col_deleted n row) (t_columns t) cols" by (auto simp: t2)
      with False show ?thesis by (intro that[of cols]) simp_all
    qed
    show thesis
    proof (rule fin[OF _ refl c(2)])
      show "flecs_table_delete ei tid t row destruct
          = Inr (ei', t2\<lparr>t_columns := cols, t_bs_columns := [], t_count := n\<rparr>, [])"
        using False c(1) bsn t2 cnt by (simp add: run has2)
    qed (use sum_of_comp_simple[OF nd cs] bsn in auto)
  next
    case True
    have "\<forall>bs\<in>set (t_bs_columns t). bs_wf bs \<and> bs_count bs = Suc n" using bo cnt by (simp add: bits_ok_def)
    from remove_bits_ok[OF this cnt(2)] obtain bss where b: "remove_bits row (t_bs_columns t) = Inr bss"
      "\<forall>bs\<in>set bss. bs_wf bs \<and> bs_count bs = n" "map bs_list bss = map (swap_removed row \<circ> bs_list) (t_bs_columns t)" by blast
    have fin2: thesis
      if r: "flecs_table_delete ei tid t row destruct = res_bind (Inr (t2\<lparr>t_columns := cols\<rparr>, evs)) (\<lambda>(t, evs).
          res_bind (remove_bits row (t_bs_columns t)) (\<lambda>bss. Inr (ei', t\<lparr>t_bs_columns := bss, t_count := t_count t - 1\<rparr>, evs)))"
        and cols: "list_all2 (col_deleted n row) (t_columns t) cols"
        and ev: "\<forall>c. (\<forall>col\<in>set (t_columns t). counted c col) \<longrightarrow>
          ev_delta c evs = (if destruct \<or> row \<noteq> n then - sum_list (map (of_comp c) (t_columns t)) else 0)" for cols evs
    proof (rule fin[OF _ refl cols b(2,3) ev])
      show "flecs_table_delete ei tid t row destruct
          = Inr (ei', t2\<lparr>t_columns := cols, t_bs_columns := bss, t_count := n\<rparr>, evs)"
        using r b(1) cnt t2 by simp
    qed
    have ti: "ti_lawful (col_ti col)" "n < length (col_data col)" "col_deletable n row destruct col"
      if "col \<in> set (t_columns t)" for col
      using that cs len del' by (auto simp: col_shape_def t2)
    consider "row = n" "destruct" "table_has t EcsTableHasDtors"
      | "row = n" "\<not> (destruct \<and> table_has t EcsTableHasDtors)"
      | "row < n" "table_has t (EcsTableHasDtors OR EcsTableHasMove)"
      | "row < n" "\<not> table_has t (EcsTableHasDtors OR EcsTableHasMove)"
      using cnt by linarith
    then show thesis
    proof cases
      case 1
      have "\<exists>cols' evs. map_columns (\<lambda>i column. flecs_table_invoke_remove_hooks t2 i column [e_del] row 1 True) 0 (t_columns t)
            = Inr (cols', evs) \<and> list_all2 (col_deleted n row) (t_columns t) cols'
        \<and> (\<forall>c. (\<forall>col\<in>set (t_columns t). counted c col) \<longrightarrow> ev_delta c evs = sum_list (map (\<lambda>col. - of_comp c col) (t_columns t)))"
      proof (rule map_columns_all)
        fix k assume k: "k < length (t_columns t)"
        let ?col = "t_columns t ! k"
        have col: "?col \<in> set (t_columns t)" using k by simp
        have "cell_ok (col_ti ?col) (col_data ?col ! row)" using ti(3)[OF col] 1 by (auto simp: col_deletable_def)
        from remove_hooks_ok[OF mo2, of k row ?col True "[e_del]"] this ti[OF col] k 1(1) t2
        show "\<exists>c' e. flecs_table_invoke_remove_hooks t2 (0 + k) ?col [e_del] row 1 True = Inr (c', e)
          \<and> col_deleted n row ?col c' \<and> (\<forall>c. counted c ?col \<longrightarrow> ev_delta c e = - of_comp c ?col)"
          by (fastforce simp: col_deleted_def)
      qed
      then obtain cols evs where c: "map_columns (\<lambda>i column. flecs_table_invoke_remove_hooks t2 i column [e_del] row 1 True) 0 (t_columns t)
            = Inr (cols, evs)" "list_all2 (col_deleted n row) (t_columns t) cols"
        "\<forall>c. (\<forall>col\<in>set (t_columns t). counted c col) \<longrightarrow> ev_delta c evs = sum_list (map (\<lambda>col. - of_comp c col) (t_columns t))"
        by blast
      show thesis
        by (rule fin2[OF _ c(2)]) (unfold run, use 1 True c in \<open>simp_all add: has2 t2 sum_list_neg\<close>)
    next
      case 2
      show thesis
        by (rule fin2[OF _ keep[OF 2(1)], of "[]"])
          (unfold run, use 2 True sum_of_comp_simple[OF _ cs] in \<open>auto simp: has2 t2(1)[symmetric]\<close>)
    next
      case 3
      have "\<exists>cols' evs. map_columns (delete_move t2 e_del row n destruct) 0 (t_columns t)
            = Inr (cols', evs) \<and> list_all2 (col_deleted n row) (t_columns t) cols'
        \<and> (\<forall>c. (\<forall>col\<in>set (t_columns t). counted c col) \<longrightarrow> ev_delta c evs = sum_list (map (\<lambda>col. - of_comp c col) (t_columns t)))"
      proof (rule map_columns_all)
        fix k assume k: "k < length (t_columns t)"
        let ?col = "t_columns t ! k"
        have col: "?col \<in> set (t_columns t)" using k by simp
        have k2: "0 + k < length (t_columns t2)" using k by (simp add: t2)
        show "\<exists>c' e. delete_move t2 e_del row n destruct (0 + k) ?col = Inr (c', e)
          \<and> col_deleted n row ?col c' \<and> (\<forall>c. counted c ?col \<longrightarrow> ev_delta c e = - of_comp c ?col)"
          by (rule delete_move_ok[OF mo2 k2 3(1) ti(2)[OF col] ti(1)[OF col] ti(3)[OF col]])
      qed
      then obtain cols evs where c: "map_columns (delete_move t2 e_del row n destruct) 0 (t_columns t) = Inr (cols, evs)"
        "list_all2 (col_deleted n row) (t_columns t) cols"
        "\<forall>c. (\<forall>col\<in>set (t_columns t). counted c col) \<longrightarrow> ev_delta c evs = sum_list (map (\<lambda>col. - of_comp c col) (t_columns t))"
        by blast
      show thesis
        by (rule fin2[OF _ c(2)]) (unfold run, use 3 True c in \<open>simp_all add: has2 t2 sum_list_neg\<close>)
    next
      case 4
      then have nd: "\<not> table_has t EcsTableHasDtors" by (simp add: table_has_or)
      from fast_delete_ok[OF 4(1) len] obtain cols where c: "flecs_table_fast_delete t2 row n = Inr (t2\<lparr>t_columns := cols\<rparr>)"
        "list_all2 (col_deleted n row) (t_columns t) cols" by (auto simp: t2)
      show thesis
        by (rule fin2[OF _ c(2), of "[]"])
          (unfold run, use 4 True c sum_of_comp_simple[OF nd cs] in \<open>auto simp: has2\<close>)
    qed
  qed
qed

end
