(* ===== verification/Table_Move.thy ===== *)
theory Table_Move
  imports Table_Rows
begin

text \<open>
  Moving a row between two tables: the merge over their sorted columns gives every destination
  column the value of the source column with its id or a default value, and the toggle bits
  follow the same way.
\<close>

section \<open>Moving a row\<close>

text \<open>
  A column of the destination after a move gets the value of the source column with its id, or a
  default value; a column of the source keeps the other rows, and in the row itself what the
  deletion that follows needs.
\<close>

definition moved_in ::
    "nat \<Rightarrow> nat \<Rightarrow> (u64 \<times> ('v::zero) ecs_column) list \<Rightarrow> u64 \<times> 'v ecs_column \<Rightarrow> 'v ecs_column \<Rightarrow> bool" where
  "moved_in di si src p d \<longleftrightarrow> col_ti d = col_ti (snd p) \<and> length (col_data d) = length (col_data (snd p))
     \<and> (\<forall>i. i \<noteq> di \<longrightarrow> col_data d ! i = col_data (snd p) ! i)
     \<and> (case map_of src (fst p) of
          Some s \<Rightarrow> col_data d ! di = col_data s ! si
        | None \<Rightarrow> cell_ok (col_ti d) (col_data d ! di)
            \<and> (th_ctor (ti_hooks (col_ti d)) \<noteq> None \<longrightarrow> col_data d ! di = ti_default (col_ti d)))"

definition moved_out :: "nat \<Rightarrow> bool \<Rightarrow> u64 \<times> ('v::zero) ecs_column \<Rightarrow> 'v ecs_column \<Rightarrow> bool" where
  "moved_out si use_move_dtor p s \<longleftrightarrow> col_ti s = col_ti (snd p) \<and> length (col_data s) = length (col_data (snd p))
     \<and> (\<forall>i. i \<noteq> si \<longrightarrow> col_data s ! i = col_data (snd p) ! i)
     \<and> (use_move_dtor \<or> cell_ok (col_ti s) (col_data s ! si) \<or> uses_ctor_move_dtor (col_ti s))"

definition move_dst_ok :: "nat \<Rightarrow> u64 \<Rightarrow> u64 \<times> ('v::zero) ecs_column \<Rightarrow> bool" where
  "move_dst_ok di em p \<longleftrightarrow> di < length (col_data (snd p)) \<and> ti_lawful (col_ti (snd p))
     \<and> ti_size (col_ti (snd p)) \<noteq> 0 \<and> fst p \<noteq> em"

definition move_src_ok :: "nat \<Rightarrow> u64 \<times> ('v::zero) ecs_column \<Rightarrow> bool" where
  "move_src_ok si p \<longleftrightarrow> si < length (col_data (snd p)) \<and> ti_lawful (col_ti (snd p))
     \<and> cell_ok (col_ti (snd p)) (col_data (snd p) ! si)"

text \<open>Columns with the same id store the same type.\<close>

definition same_types :: "(u64 \<times> 'v ecs_column) list \<Rightarrow> (u64 \<times> 'v ecs_column) list \<Rightarrow> bool" where
  "same_types dst src \<longleftrightarrow> (\<forall>p\<in>set dst. \<forall>q\<in>set src. fst p = fst q \<longrightarrow> col_ti (snd p) = col_ti (snd q))"

abbreviation ids_ascend :: "(u64 \<times> 'a) list \<Rightarrow> bool" where
  "ids_ascend ps \<equiv> sorted_wrt (<) (map fst ps)"

lemma add_hooks_ok:
  assumes mo: "map_ok t" and k: "k < length (t_columns t)" and ok: "move_dst_ok di em (i, col)"
  shows "\<exists>col' e. flecs_table_invoke_add_hooks t k col es di 1 (i \<noteq> em) = Inr (col', e)
    \<and> moved_in di si [] (i, col) col' \<and> (\<forall>c. counted c col \<longrightarrow> ev_delta c e = of_comp c col)"
proof -
  have o: "di < length (col_data col)" "ti_lawful (col_ti col)" "i \<noteq> em" using ok by (simp_all add: move_dst_ok_def)
  then have ne: "col_data col \<noteq> []" by auto
  have "di + 1 \<le> length (col_data col)" using o(1) by simp
  obtain cells evs where c: "flecs_table_invoke_ctor_for_array (col_ti col) (col_data col) di 1 = Inr (cells, evs)"
    "length cells = length (col_data col)" "cell_ok (col_ti col) (cells ! di)"
    "th_ctor (ti_hooks (col_ti col)) \<noteq> None \<Longrightarrow> cells ! di = ti_default (col_ti col)"
    "\<And>c. (ti_component (col_ti col) = c \<longrightarrow> ti_counted (col_ti col)) \<Longrightarrow>
      ev_delta c evs = (if ti_component (col_ti col) = c then 1 else 0)"
    and same: "\<And>i. i \<noteq> di \<Longrightarrow> cells ! i = col_data col ! i"
  proof -
    obtain c' ls where d: "type_info_ctor (col_ti col) (col_data col ! di) = Inr (c', ls)" "cell_ok (col_ti col) c'"
      "th_ctor (ti_hooks (col_ti col)) \<noteq> None \<Longrightarrow> c' = ti_default (col_ti col)"
      using ti_ctor_ok[OF o(2)] by metis
    show ?thesis
    proof (rule that[of "(col_data col)[di := c']" "life_events (col_ti col) ls"])
      show "flecs_table_invoke_ctor_for_array (col_ti col) (col_data col) di 1
          = Inr ((col_data col)[di := c'], life_events (col_ti col) ls)"
        using d(1) o(1) by (simp add: flecs_table_invoke_ctor_for_array_def numeral_eq_Suc)
    qed (use d o(1) counted_ctor[OF _ d(1)] in \<open>auto simp: ev_delta_life\<close>)
  qed
  define col' where "col' = col\<lparr>col_data := cells\<rparr>"
  obtain e2 where e2: "(if th_on_add (ti_hooks (col_ti col)) then flecs_table_invoke_hook t Ev_on_add k es di else Inr []) = Inr e2"
    "\<And>c. ev_delta c e2 = 0"
  proof (cases "th_on_add (ti_hooks (col_ti col))")
    case True
    then show ?thesis using invoke_hook_eq[OF mo k, of Ev_on_add es di]
      by (intro that[of "[Ev_on_add (col_ids t ! k) es di]"]) simp_all
  next
    case False
    then show ?thesis by (intro that[of "[]"]) auto
  qed
  have "flecs_table_invoke_add_hooks t k col es di 1 (i \<noteq> em) = Inr (col', evs @ e2)"
    using o(3) ne c(1) e2(1) by (simp add: flecs_table_invoke_add_hooks_def flecs_table_invoke_ctor_def col'_def)
  moreover have "moved_in di si [] (i, col) col'"
    using c same by (simp add: moved_in_def col'_def)
  moreover have "ev_delta c (evs @ e2) = of_comp c col" if "counted c col" for c
    using that e2(2) c(5)[of c] by (simp add: counted_def of_comp_def)
  ultimately show ?thesis by blast
qed

lemma columns_move_ok:
  assumes ti: "col_ti d = col_ti s" and d: "move_dst_ok di em (i, d)" and s: "move_src_ok si (i, s)"
  shows "\<exists>d' s' e. columns_move (if um \<or> th_move_ctor (ti_hooks (col_ti d)) = None
           then type_info_ctor_move_dtor (col_ti d) else type_info_move_ctor (col_ti d)) d di s si = Inr (d', s', e)
    \<and> moved_in di si [(i, s)] (i, d) d' \<and> moved_out si um (i, s) s'
    \<and> (\<forall>c. counted c d \<longrightarrow> ev_delta c e = (if um then 0 else of_comp c d))"
proof -
  let ?ti = "col_ti d"
  define f where "f = (if um \<or> th_move_ctor (ti_hooks ?ti) = None then type_info_ctor_move_dtor ?ti else type_info_move_ctor ?ti)"
  have o: "di < length (col_data d)" "ti_lawful ?ti" "si < length (col_data s)" "cell_ok ?ti (col_data s ! si)"
    using d s ti by (simp_all add: move_dst_ok_def move_src_ok_def)
  obtain c ls where f: "f (col_data d ! di) (col_data s ! si) = Inr (col_data s ! si, c, ls)"
    "um \<or> cell_ok ?ti c \<or> uses_ctor_move_dtor ?ti" "ti_counted ?ti \<Longrightarrow> life_sum ls = (if um then 0 else 1)"
  proof (cases "um \<or> th_move_ctor (ti_hooks ?ti) = None")
    case False
    obtain c ls where m: "type_info_move_ctor ?ti (col_data d ! di) (col_data s ! si) = Inr (col_data s ! si, c, ls)" "cell_ok ?ti c"
      by (rule ti_move_ctor_ok[OF o(2,4)])
    then show ?thesis using False counted_move_ctor[OF _ m(1)] by (intro that[of c ls]) (auto simp: f_def)
  next
    case True
    obtain c ls where m: "type_info_ctor_move_dtor ?ti (col_data d ! di) (col_data s ! si) = Inr (col_data s ! si, c, ls)"
      by (rule ti_ctor_move_dtor_ok[OF o(2,4)])
    moreover have "um \<or> cell_ok ?ti c \<or> uses_ctor_move_dtor ?ti"
    proof (cases "th_ctor_move_dtor (ti_hooks ?ti) = None")
      case True
      have "legal_flags (ti_hooks ?ti)" using o(2) by (simp add: ti_lawful_def)
      with True m have "c = col_data s ! si" by (simp add: type_info_ctor_move_dtor_def legal_flagsD)
      with o(4) show ?thesis by simp
    qed (use True in \<open>auto simp: uses_ctor_move_dtor_def\<close>)
    moreover have "life_sum ls = (if um then 0 else 1)" if "ti_counted ?ti"
      using that True counted_ctor_move_dtor[OF that m] by (auto simp: ti_counted_def)
    moreover have "f = type_info_ctor_move_dtor ?ti" using True by (simp add: f_def)
    ultimately show ?thesis by (intro that[of c ls]) auto
  qed
  define d' where "d' = d\<lparr>col_data := (col_data d)[di := col_data s ! si]\<rparr>"
  define s' where "s' = s\<lparr>col_data := (col_data s)[si := c]\<rparr>"
  have "columns_move f d di s si = Inr (d', s', life_events ?ti ls)"
    using o f(1) by (simp add: columns_move_def d'_def s'_def)
  moreover have "moved_in di si [(i, s)] (i, d) d'" using o(1) by (simp add: moved_in_def d'_def)
  moreover have "moved_out si um (i, s) s'" using o(3) f(2) ti by (simp add: moved_out_def s'_def)
  moreover have "ev_delta c (life_events ?ti ls) = (if um then 0 else of_comp c d)" if "counted c d" for c
    using that f(3) by (auto simp: counted_def of_comp_def ev_delta_life)
  ultimately show ?thesis unfolding f_def[symmetric] by blast
qed

lemma moved_in_src:
  "map_of src' (fst p) = map_of src (fst p) \<Longrightarrow> moved_in di si src' p d = moved_in di si src p d"
  by (simp add: moved_in_def)

lemma moved_in_drop:
  assumes "list_all2 (moved_in di si src) dst ds" "\<forall>p\<in>set dst. i \<noteq> fst p"
  shows "list_all2 (moved_in di si ((i, s) # src)) dst ds"
  using assms(1)
proof (rule list.rel_mono_strong)
  fix p d assume "p \<in> set dst" "moved_in di si src p d"
  moreover have "map_of ((i, s) # src) (fst p) = map_of src (fst p)" using assms(2) \<open>p \<in> set dst\<close> by auto
  ultimately show "moved_in di si ((i, s) # src) p d" using moved_in_src by blast
qed

lemma moved_out_same: "move_src_ok si p \<Longrightarrow> moved_out si um p (snd p)"
  by (simp add: moved_out_def move_src_ok_def)

lemma move_columns_ok:
  assumes "map_ok dt" "map_ok st" "i + length dst \<le> length (t_columns dt)" "j + length src \<le> length (t_columns st)"
    "\<forall>p\<in>set dst. move_dst_ok di em p" "\<forall>p\<in>set src. move_src_ok si p" "same_types dst src"
    "ids_ascend dst" "ids_ascend src"
  shows "\<exists>ds ss evs. move_columns dt de di st se si em um i j dst src = Inr (ds, ss, evs)
    \<and> list_all2 (moved_in di si src) dst ds \<and> list_all2 (moved_out si um) src ss
    \<and> (\<forall>c. (\<forall>p\<in>set dst. counted c (snd p)) \<and> (\<forall>p\<in>set src. counted c (snd p)) \<longrightarrow>
        ev_delta c evs = sum_list (map (of_comp c \<circ> snd) dst) - (if um then sum_list (map (of_comp c \<circ> snd) src) else 0))"
  using assms
proof (induction dt de di st se si em um i j dst src rule: move_columns.induct)
  case (2 dt de di st se si em um i j dst_id dst_column dst)
  have k: "i < length (t_columns dt)" using "2.prems"(3) by simp
  have ok: "move_dst_ok di em (dst_id, dst_column)" using "2.prems"(5) by simp
  obtain d e1 where a: "flecs_table_invoke_add_hooks dt i dst_column [de] di 1 (dst_id \<noteq> em) = Inr (d, e1)"
    "moved_in di si [] (dst_id, dst_column) d" "\<And>c. counted c dst_column \<Longrightarrow> ev_delta c e1 = of_comp c dst_column"
    using add_hooks_ok[OF "2.prems"(1) k ok, of "[de]" si] by blast
  have p: "Suc i + length dst \<le> length (t_columns dt)" "j + length [] \<le> length (t_columns st)"
    "\<forall>p\<in>set dst. move_dst_ok di em p" "same_types dst []" "ids_ascend dst"
    using "2.prems" by (simp_all add: same_types_def)
  note "2.IH"[OF "2.prems"(1,2) p(1,2,3) "2.prems"(6) p(4,5) "2.prems"(9)]
  then obtain ds ss e2 where r: "move_columns dt de di st se si em um (Suc i) j dst [] = Inr (ds, ss, e2)"
    "list_all2 (moved_in di si []) dst ds" "ss = []"
    "\<And>c. (\<forall>p\<in>set dst. counted c (snd p)) \<Longrightarrow> ev_delta c e2 = sum_list (map (of_comp c \<circ> snd) dst)"
    by (cases um) (auto simp: comp_def)
  show ?case using a r by (auto simp: list_all2_Cons1 comp_def)
next
  case (3 dt de di st se si em um i j src_id src_column src)
  have k: "j < length (t_columns st)" using "3.prems"(4) by simp
  have ok: "si < length (col_data src_column)" "ti_lawful (col_ti src_column)" "cell_ok (col_ti src_column) (col_data src_column ! si)"
    using "3.prems"(6) by (simp_all add: move_src_ok_def)
  obtain s e1 where a: "flecs_table_invoke_remove_hooks st j src_column [se] si 1 um = Inr (s, e1)"
    "moved_out si um (src_id, src_column) s" "\<And>c. counted c src_column \<Longrightarrow> ev_delta c e1 = (if um then - of_comp c src_column else 0)"
    using remove_hooks_ok[OF "3.prems"(2) k ok(1,2), of um "[se]"] ok(3) by (auto simp: moved_out_def)
  have p: "i + length [] \<le> length (t_columns dt)" "Suc j + length src \<le> length (t_columns st)"
    "\<forall>p\<in>set src. move_src_ok si p" "same_types [] src" "ids_ascend src"
    using "3.prems" by (simp_all add: same_types_def)
  note "3.IH"[OF "3.prems"(1,2) p(1,2) "3.prems"(5) p(3,4) "3.prems"(8) p(5)]
  then obtain ds ss e2 where r: "move_columns dt de di st se si em um i (Suc j) [] src = Inr (ds, ss, e2)"
    "ds = []" "list_all2 (moved_out si um) src ss"
    "\<And>c. (\<forall>p\<in>set src. counted c (snd p)) \<Longrightarrow> ev_delta c e2 = - (if um then sum_list (map (of_comp c \<circ> snd) src) else 0)"
    by (cases um) (auto simp: comp_def)
  show ?case using a r by (auto simp: list_all2_Cons1 comp_def)
next
  case (4 dt de di st se si em um i j dst_id dst_column dst src_id src_column src)
  note prems = "4.prems"
  consider (eq) "dst_id = src_id" | (new) "dst_id < src_id" | (old) "src_id < dst_id" by (metis linorder_cases)
  then show ?case
  proof cases
    case eq
    have p: "Suc i + length dst \<le> length (t_columns dt)" "Suc j + length src \<le> length (t_columns st)"
      "\<forall>p\<in>set dst. move_dst_ok di em p" "\<forall>p\<in>set src. move_src_ok si p" "same_types dst src"
      "ids_ascend dst" "ids_ascend src"
      using prems by (simp_all add: same_types_def)
    obtain ds ss e2 where r: "move_columns dt de di st se si em um (Suc i) (Suc j) dst src = Inr (ds, ss, e2)"
      "list_all2 (moved_in di si src) dst ds" "list_all2 (moved_out si um) src ss"
      "\<And>c. (\<forall>p\<in>set dst. counted c (snd p)) \<and> (\<forall>p\<in>set src. counted c (snd p)) \<Longrightarrow>
        ev_delta c e2 = sum_list (map (of_comp c \<circ> snd) dst) - (if um then sum_list (map (of_comp c \<circ> snd) src) else 0)"
      using "4.IH"(1)[OF eq refl refl prems(1,2) p] by blast
    have t: "col_ti dst_column = col_ti src_column" using prems(7) eq by (simp add: same_types_def)
    have o: "move_dst_ok di em (dst_id, dst_column)" "move_src_ok si (dst_id, src_column)"
      using prems(5,6) eq by simp_all
    obtain d s e1 where m: "columns_move (if um \<or> th_move_ctor (ti_hooks (col_ti dst_column)) = None
           then type_info_ctor_move_dtor (col_ti dst_column) else type_info_move_ctor (col_ti dst_column))
             dst_column di src_column si = Inr (d, s, e1)"
      "moved_in di si [(dst_id, src_column)] (dst_id, dst_column) d" "moved_out si um (dst_id, src_column) s"
      "\<And>c. counted c dst_column \<Longrightarrow> ev_delta c e1 = (if um then 0 else of_comp c dst_column)"
      using columns_move_ok[OF t o, of um] by blast
    have sz: "ti_size (col_ti dst_column) \<noteq> 0" using o(1) by (simp add: move_dst_ok_def)
    have "move_columns dt de di st se si em um i j ((dst_id, dst_column) # dst) ((src_id, src_column) # src)
      = Inr (d # ds, s # ss, e1 @ e2)"
      using eq sz m(1) r(1) by (simp add: Let_def)
    moreover have "moved_in di si ((src_id, src_column) # src) (dst_id, dst_column) d"
      using m(2) eq by (simp add: moved_in_def)
    moreover have "list_all2 (moved_in di si ((src_id, src_column) # src)) dst ds"
      using prems(8) eq by (intro moved_in_drop r(2)) auto
    moreover have "moved_out si um (src_id, src_column) s" using m(3) eq by simp
    moreover have "ev_delta c (e1 @ e2) = sum_list (map (of_comp c \<circ> snd) ((dst_id, dst_column) # dst))
        - (if um then sum_list (map (of_comp c \<circ> snd) ((src_id, src_column) # src)) else 0)"
      if "\<forall>p\<in>set ((dst_id, dst_column) # dst). counted c (snd p)" "\<forall>p\<in>set ((src_id, src_column) # src). counted c (snd p)" for c
      using that m(4)[of c] r(4)[of c] t by (auto simp: of_comp_def comp_def)
    ultimately show ?thesis using r(3) by blast
  next
    case new
    then have ne: "dst_id \<noteq> src_id" by simp
    have k: "i < length (t_columns dt)" and ok: "move_dst_ok di em (dst_id, dst_column)" using prems(3,5) by simp_all
    obtain d e1 where a: "flecs_table_invoke_add_hooks dt i dst_column [de] di 1 (dst_id \<noteq> em) = Inr (d, e1)"
      "moved_in di si [] (dst_id, dst_column) d" "\<And>c. counted c dst_column \<Longrightarrow> ev_delta c e1 = of_comp c dst_column"
      using add_hooks_ok[OF prems(1) k ok, of "[de]" si] by blast
    have p: "Suc i + length dst \<le> length (t_columns dt)" "\<forall>p\<in>set dst. move_dst_ok di em p"
      "same_types dst ((src_id, src_column) # src)" "ids_ascend dst"
      using prems by (simp_all add: same_types_def)
    obtain ds ss e2 where r: "move_columns dt de di st se si em um (Suc i) j dst ((src_id, src_column) # src) = Inr (ds, ss, e2)"
      "list_all2 (moved_in di si ((src_id, src_column) # src)) dst ds" "list_all2 (moved_out si um) ((src_id, src_column) # src) ss"
      "\<And>c. (\<forall>p\<in>set dst. counted c (snd p)) \<and> (\<forall>p\<in>set ((src_id, src_column) # src). counted c (snd p)) \<Longrightarrow>
        ev_delta c e2 = sum_list (map (of_comp c \<circ> snd) dst) - (if um then sum_list (map (of_comp c \<circ> snd) ((src_id, src_column) # src)) else 0)"
      using "4.IH"(2)[OF ne new prems(1,2) p(1) prems(4) p(2) prems(6) p(3,4) prems(9)] by blast
    have "move_columns dt de di st se si em um i j ((dst_id, dst_column) # dst) ((src_id, src_column) # src)
      = Inr (d # ds, ss, e1 @ e2)"
      using new ne a(1) r(1) by simp
    moreover have "map_of ((src_id, src_column) # src) dst_id = None"
      using new prems(9) by (auto simp: map_of_eq_None_iff)
    then have "moved_in di si ((src_id, src_column) # src) (dst_id, dst_column) d"
      using a(2) moved_in_src[of "(src_id, src_column) # src" "(dst_id, dst_column)" "[]" di si d]
      unfolding fst_conv map_of.simps(1) by blast
    moreover have "ev_delta c (e1 @ e2) = sum_list (map (of_comp c \<circ> snd) ((dst_id, dst_column) # dst))
        - (if um then sum_list (map (of_comp c \<circ> snd) ((src_id, src_column) # src)) else 0)"
      if "\<forall>p\<in>set ((dst_id, dst_column) # dst). counted c (snd p)" "\<forall>p\<in>set ((src_id, src_column) # src). counted c (snd p)" for c
      using that a(3)[of c] r(4)[of c] by simp
    ultimately show ?thesis using r(2,3) by blast
  next
    case old
    then have ne: "dst_id \<noteq> src_id" "\<not> dst_id < src_id" by simp_all
    have k: "j < length (t_columns st)" using prems(4) by simp
    have ok: "si < length (col_data src_column)" "ti_lawful (col_ti src_column)" "cell_ok (col_ti src_column) (col_data src_column ! si)"
      using prems(6) by (simp_all add: move_src_ok_def)
    obtain s e1 where a: "flecs_table_invoke_remove_hooks st j src_column [se] si 1 um = Inr (s, e1)"
      "moved_out si um (src_id, src_column) s" "\<And>c. counted c src_column \<Longrightarrow> ev_delta c e1 = (if um then - of_comp c src_column else 0)"
      using remove_hooks_ok[OF prems(2) k ok(1,2), of um "[se]"] ok(3) by (auto simp: moved_out_def)
    have p: "Suc j + length src \<le> length (t_columns st)" "\<forall>p\<in>set src. move_src_ok si p"
      "same_types ((dst_id, dst_column) # dst) src" "ids_ascend src"
      using prems by (simp_all add: same_types_def)
    obtain ds ss e2 where r: "move_columns dt de di st se si em um i (Suc j) ((dst_id, dst_column) # dst) src = Inr (ds, ss, e2)"
      "list_all2 (moved_in di si src) ((dst_id, dst_column) # dst) ds" "list_all2 (moved_out si um) src ss"
      "\<And>c. (\<forall>p\<in>set ((dst_id, dst_column) # dst). counted c (snd p)) \<and> (\<forall>p\<in>set src. counted c (snd p)) \<Longrightarrow>
        ev_delta c e2 = sum_list (map (of_comp c \<circ> snd) ((dst_id, dst_column) # dst)) - (if um then sum_list (map (of_comp c \<circ> snd) src) else 0)"
      using "4.IH"(3)[OF ne prems(1,2,3) p(1) prems(5) p(2,3) prems(8) p(4)] by blast
    have "move_columns dt de di st se si em um i j ((dst_id, dst_column) # dst) ((src_id, src_column) # src)
      = Inr (ds, s # ss, e1 @ e2)"
      using ne a(1) r(1) by simp
    moreover have "list_all2 (moved_in di si ((src_id, src_column) # src)) ((dst_id, dst_column) # dst) ds"
      using prems(8) old by (intro moved_in_drop r(2)) auto
    moreover have "ev_delta c (e1 @ e2) = sum_list (map (of_comp c \<circ> snd) ((dst_id, dst_column) # dst))
        - (if um then sum_list (map (of_comp c \<circ> snd) ((src_id, src_column) # src)) else 0)"
      if "\<forall>p\<in>set ((dst_id, dst_column) # dst). counted c (snd p)" "\<forall>p\<in>set ((src_id, src_column) # src). counted c (snd p)" for c
      using that a(3)[of c] r(4)[of c] by auto
    ultimately show ?thesis using a(2) r(3) by blast
  qed
qed simp

text \<open>Between tables of plain types the bytes are copied.\<close>

lemma columns_copy_ok:
  assumes "col_ti d = col_ti s" "move_dst_ok di em (i, d)" "move_src_ok si (i, s)"
  shows "\<exists>d'. columns_move copy_cell d di s si = Inr (d', s, []) \<and> moved_in di si [(i, s)] (i, d) d'"
  using assms by (auto simp: columns_move_def copy_cell_def moved_in_def move_dst_ok_def move_src_ok_def
      life_events_def)

lemma fast_move_columns_ok:
  assumes "\<forall>p\<in>set dst. move_dst_ok di em p \<and> th_ctor (ti_hooks (col_ti (snd p))) = None"
    "\<forall>p\<in>set src. move_src_ok si p" "same_types dst src" "ids_ascend dst" "ids_ascend src"
  shows "\<exists>ds. fast_move_columns di si dst src = Inr (ds, map snd src) \<and> list_all2 (moved_in di si src) dst ds"
  using assms
proof (induction di si dst src rule: fast_move_columns.induct)
  case (1 di si src)
  then show ?case by simp
next
  case (2 di si d dst)
  have "moved_in di si [] p (snd p)" if "p \<in> set (d # dst)" for p
    using "2.prems"(1) that by (auto simp: moved_in_def cell_ok_def)
  then have "list_all2 (moved_in di si []) (d # dst) (map snd (d # dst))"
    unfolding list_all2_map_right by blast
  then show ?case by simp
next
  case (3 di si dst_id dst_column dst src_id src_column src)
  note prems = "3.prems"
  consider (eq) "dst_id = src_id" | (new) "dst_id < src_id" | (old) "src_id < dst_id" by (metis linorder_cases)
  then show ?case
  proof cases
    case eq
    obtain ds where r: "fast_move_columns di si dst src = Inr (ds, map snd src)" "list_all2 (moved_in di si src) dst ds"
      using "3.IH"(1)[OF eq] prems by (auto simp: same_types_def)
    have "col_ti dst_column = col_ti src_column" "move_dst_ok di em (dst_id, dst_column)" "move_src_ok si (dst_id, src_column)"
      using prems eq by (simp_all add: same_types_def)
    from columns_copy_ok[OF this] obtain d where
      d: "columns_move copy_cell dst_column di src_column si = Inr (d, src_column, [])"
      "moved_in di si [(dst_id, src_column)] (dst_id, dst_column) d" by blast
    have "moved_in di si ((src_id, src_column) # src) (dst_id, dst_column) d"
      using d(2) eq by (simp add: moved_in_def)
    moreover have "list_all2 (moved_in di si ((src_id, src_column) # src)) dst ds"
      using prems(4) eq by (intro moved_in_drop r(2)) auto
    ultimately show ?thesis using eq d(1) r(1) by simp
  next
    case new
    then have ne: "dst_id \<noteq> src_id" by simp
    obtain ds where r: "fast_move_columns di si dst ((src_id, src_column) # src) = Inr (ds, src_column # map snd src)"
      "list_all2 (moved_in di si ((src_id, src_column) # src)) dst ds"
      using "3.IH"(2)[OF ne new] prems by (auto simp: same_types_def)
    have "map_of ((src_id, src_column) # src) dst_id = None"
      using new prems(5) by (auto simp: map_of_eq_None_iff)
    moreover have "moved_in di si [] (dst_id, dst_column) dst_column"
      using prems(1) by (simp add: moved_in_def cell_ok_def)
    ultimately have "moved_in di si ((src_id, src_column) # src) (dst_id, dst_column) dst_column"
      using moved_in_src[of "(src_id, src_column) # src" "(dst_id, dst_column)" "[]" di si dst_column]
      unfolding fst_conv map_of.simps(1) by blast
    then show ?thesis using new ne r by simp
  next
    case old
    then have ne: "dst_id \<noteq> src_id" "\<not> dst_id < src_id" by simp_all
    obtain ds where r: "fast_move_columns di si ((dst_id, dst_column) # dst) src = Inr (ds, map snd src)"
      "list_all2 (moved_in di si src) ((dst_id, dst_column) # dst) ds"
      using "3.IH"(3)[OF ne] prems by (auto simp: same_types_def)
    have "list_all2 (moved_in di si ((src_id, src_column) # src)) ((dst_id, dst_column) # dst) ds"
      using prems(4) old by (intro moved_in_drop r(2)) auto
    then show ?thesis using ne r(1) by simp
  qed
qed

section \<open>Moving toggle bits\<close>

definition bits_ready :: "u64 list \<Rightarrow> ecs_bitset list \<Rightarrow> bool" where
  "bits_ready ids bss \<longleftrightarrow> length bss = length (toggles ids)
     \<and> (bss \<noteq> [] \<longrightarrow> (\<exists>i rest. ids = i # rest \<and> ECS_HAS_ID_FLAG i ECS_TOGGLE))"

definition bit_moved ::
    "nat \<Rightarrow> nat \<Rightarrow> (u64 \<times> ecs_bitset) list \<Rightarrow> u64 \<times> ecs_bitset \<Rightarrow> ecs_bitset \<Rightarrow> bool" where
  "bit_moved di si src p d \<longleftrightarrow> bs_wf d \<and> bs_count d = bs_count (snd p)
     \<and> bs_list d = (case map_of src (fst p) of
          Some s \<Rightarrow> (bs_list (snd p))[di := bs_bit s si] | None \<Rightarrow> bs_list (snd p))"

lemma toggles_next: "ECS_HAS_ID_FLAG i ECS_TOGGLE \<Longrightarrow> toggles (i # ids) = i # toggles (next_toggle (i # ids))"
proof -
  have "toggles (dropWhile (\<lambda>i. \<not> ECS_HAS_ID_FLAG i ECS_TOGGLE) ids) = toggles ids"
    by (induction ids) (simp_all add: toggles_def)
  then show "ECS_HAS_ID_FLAG i ECS_TOGGLE \<Longrightarrow> toggles (i # ids) = i # toggles (next_toggle (i # ids))"
    by (simp add: next_toggle_def) (simp add: toggles_def)
qed

lemma bits_ready_next:
  assumes "bits_ready (i # ids) (b # bss)" "ECS_HAS_ID_FLAG i ECS_TOGGLE"
  shows "bits_ready (next_toggle (i # ids)) bss"
proof -
  let ?n = "next_toggle (i # ids)"
  have l: "length bss = length (toggles ?n)" using assms by (simp add: bits_ready_def toggles_next)
  have "\<exists>j rest. ?n = j # rest \<and> ECS_HAS_ID_FLAG j ECS_TOGGLE" if "bss \<noteq> []"
  proof (cases ?n)
    case Nil
    with l that show ?thesis by (simp add: toggles_def)
  next
    case (Cons j rest)
    then have "ECS_HAS_ID_FLAG j ECS_TOGGLE"
      using hd_dropWhile[of "\<lambda>i. \<not> ECS_HAS_ID_FLAG i ECS_TOGGLE" ids] by (auto simp: next_toggle_def)
    with Cons show ?thesis by blast
  qed
  with l show ?thesis by (simp add: bits_ready_def)
qed

lemma bit_moved_drop:
  assumes "list_all2 (bit_moved di si src) dst ds" "\<forall>p\<in>set dst. i \<noteq> fst p"
  shows "list_all2 (bit_moved di si ((i, s) # src)) dst ds"
  using assms(1)
proof (rule list.rel_mono_strong)
  fix p d assume "p \<in> set dst" "bit_moved di si src p d"
  moreover have "map_of ((i, s) # src) (fst p) = map_of src (fst p)" using assms(2) \<open>p \<in> set dst\<close> by auto
  ultimately show "bit_moved di si ((i, s) # src) p d" by (simp only: bit_moved_def)
qed

lemma move_bit_ok:
  assumes d: "bs_wf d" "bs_count d = Suc di" and s: "bs_wf s" "si < bs_count s"
  obtains d' where "flecs_bitset_ensure d (di + 1) = Inr d" "move_bits d di s si 1 = Inr d'" "bs_wf d'"
    "bs_count d' = bs_count d" "bs_list d' = (bs_list d)[di := bs_bit s si]"
proof -
  have e: "flecs_bitset_ensure d (di + 1) = Inr d" using d(2) by (simp add: flecs_bitset_ensure_def)
  have di: "di < bs_count d" using d(2) by simp
  obtain d' where "flecs_bitset_set d di (bs_bit s si) = Inr d'" "bs_wf d'" "bs_count d' = bs_count d"
    "bs_list d' = (bs_list d)[di := bs_bit s si]"
    by (rule bitset_set_list[OF d(1) di])
  then show ?thesis using bitset_get[OF s] e by (intro that[of d']) (simp_all add: numeral_eq_Suc)
qed

lemma clear_rest_keep: "clear_rest n False bss = Inr bss"
  by (induction bss) (simp_all add: clear_bits_def)

lemma toggles_ascend: "sorted_wrt (<) ids \<Longrightarrow> sorted_wrt (<) (toggles ids)"
  unfolding toggles_def by (rule sorted_wrt_filter)

lemma zip_fst_bound: "p \<in> set (zip xs ys) \<Longrightarrow> fst p \<in> set xs"
  by (cases p) (auto dest: set_zip_leftD)

lemma move_bitsets_ok:
  assumes "cnt = 1" "\<not> clear" "bits_ready dst_ids dst_bs" "bits_ready src_ids src_bs"
    "sorted_wrt (<) (toggles dst_ids)" "sorted_wrt (<) (toggles src_ids)"
    "\<forall>d\<in>set dst_bs. bs_wf d \<and> bs_count d = Suc di" "\<forall>s\<in>set src_bs. bs_wf s \<and> si < bs_count s"
  shows "\<exists>ds. move_bitsets di si cnt clear dst_ids dst_bs src_ids src_bs = Inr (ds, src_bs)
    \<and> list_all2 (bit_moved di si (zip (toggles src_ids) src_bs)) (zip (toggles dst_ids) dst_bs) ds"
  using assms
proof (induction di si cnt clear dst_ids dst_bs src_ids src_bs rule: move_bitsets.induct)
  case (1 di si cnt clear dst_ids src_ids src_bs)
  then show ?case by (simp add: clear_rest_keep)
next
  case (2 di si cnt clear dst_ids d dst_bs src_ids)
  have "bit_moved di si [] p (snd p)" if "p \<in> set (zip (toggles dst_ids) (d # dst_bs))" for p
  proof -
    have "snd p \<in> set (d # dst_bs)" using that by (metis prod.collapse set_zip_rightD)
    with "2.prems"(7) show ?thesis by (auto simp: bit_moved_def)
  qed
  then have "list_all2 (bit_moved di si []) (zip (toggles dst_ids) (d # dst_bs)) (map snd (zip (toggles dst_ids) (d # dst_bs)))"
    unfolding list_all2_map_right by blast
  moreover have "length (toggles dst_ids) = length (d # dst_bs)" using "2.prems"(3) by (simp add: bits_ready_def)
  ultimately show ?case by simp
next
  case (3 di si cnt clear dst_ids d dst_bs src_ids s src_bs)
  note prems = "3.prems"
  obtain x xs where x: "dst_ids = x # xs" "ECS_HAS_ID_FLAG x ECS_TOGGLE" using prems(3) by (auto simp: bits_ready_def)
  obtain y ys where y: "src_ids = y # ys" "ECS_HAS_ID_FLAG y ECS_TOGGLE" using prems(4) by (auto simp: bits_ready_def)
  have nx: "bits_ready (next_toggle (x # xs)) dst_bs" using prems(3) x by (auto intro: bits_ready_next)
  have ny: "bits_ready (next_toggle (y # ys)) src_bs" using prems(4) y by (auto intro: bits_ready_next)
  note tx = toggles_next[OF x(2), of xs] and ty = toggles_next[OF y(2), of ys]
  have sx: "sorted_wrt (<) (toggles (next_toggle (x # xs)))" "\<forall>i\<in>set (toggles (next_toggle (x # xs))). x < i"
    using prems(5) by (simp_all add: x(1) tx)
  have sy: "sorted_wrt (<) (toggles (next_toggle (y # ys)))" "\<forall>i\<in>set (toggles (next_toggle (y # ys))). y < i"
    using prems(6) by (simp_all add: y(1) ty)
  have wf: "bs_wf d" "bs_count d = Suc di" "bs_wf s" "si < bs_count s" using prems(7,8) by simp_all
  consider (eq) "x = y" | (old) "y < x" | (new) "x < y" by (metis linorder_cases)
  then show ?case
  proof cases
    case eq
    obtain d' where e: "flecs_bitset_ensure d (di + 1) = Inr d" and m: "move_bits d di s si 1 = Inr d'" "bs_wf d'"
      "bs_count d' = bs_count d" "bs_list d' = (bs_list d)[di := bs_bit s si]"
      by (rule move_bit_ok[OF wf])
    obtain ds where r: "move_bitsets di si cnt clear (next_toggle (x # xs)) dst_bs (next_toggle (y # ys)) src_bs = Inr (ds, src_bs)"
      "list_all2 (bit_moved di si (zip (toggles (next_toggle (y # ys))) src_bs)) (zip (toggles (next_toggle (x # xs))) dst_bs) ds"
      using "3.IH"(1)[OF refl x(1) y(1) eq prems(1,2)] prems(7,8) nx ny sx sy unfolding x(1) y(1) by auto
    have "bit_moved di si ((y, s) # zip (toggles (next_toggle (y # ys))) src_bs) (x, d) d'"
      using m eq by (simp add: bit_moved_def)
    moreover have "list_all2 (bit_moved di si ((y, s) # zip (toggles (next_toggle (y # ys))) src_bs)) (zip (toggles (next_toggle (x # xs))) dst_bs) ds"
      using sx(2) eq by (intro bit_moved_drop r(2)) (auto dest: zip_fst_bound)
    ultimately show ?thesis
      using prems(1,2) e m(1) r(1) eq x(1) y(1) tx ty by (simp add: clear_bits_def)
  next
    case old
    obtain ds where r: "move_bitsets di si cnt clear (x # xs) (d # dst_bs) (next_toggle (y # ys)) src_bs = Inr (ds, src_bs)"
      "list_all2 (bit_moved di si (zip (toggles (next_toggle (y # ys))) src_bs)) (zip (toggles (x # xs)) (d # dst_bs)) ds"
      using "3.IH"(2)[OF refl x(1) y(1) _ old prems(1,2)] old prems(3,5,7,8) ny sy unfolding x(1) y(1) by auto
    have "list_all2 (bit_moved di si ((y, s) # zip (toggles (next_toggle (y # ys))) src_bs)) (zip (toggles (x # xs)) (d # dst_bs)) ds"
    proof (intro bit_moved_drop r(2) ballI)
      fix p assume "p \<in> set (zip (toggles (x # xs)) (d # dst_bs))"
      then have "fst p \<in> set (toggles (x # xs))" by (rule zip_fst_bound)
      then have "x \<le> fst p" using sx(2) by (auto simp: tx)
      with old show "y \<noteq> fst p" by auto
    qed
    moreover have "x \<noteq> y" using old by auto
    ultimately show ?thesis using prems(2) r(1) old x(1) y(1) ty by simp
  next
    case new
    have ne: "x \<noteq> y" "\<not> y < x" using new by auto
    obtain ds where r: "move_bitsets di si cnt clear (next_toggle (x # xs)) dst_bs (y # ys) (s # src_bs) = Inr (ds, s # src_bs)"
      "list_all2 (bit_moved di si (zip (toggles (y # ys)) (s # src_bs))) (zip (toggles (next_toggle (x # xs))) dst_bs) ds"
      using "3.IH"(3)[OF refl x(1) y(1) ne prems(1,2)] new prems(4,6,7,8) nx sx unfolding x(1) y(1) by auto
    have "x \<notin> set (toggles (y # ys))" using sy(2) new by (auto simp: ty)
    then have "map_of (zip (toggles (y # ys)) (s # src_bs)) x = None"
      by (auto simp: map_of_eq_None_iff dest: zip_fst_bound)
    then have "bit_moved di si (zip (toggles (y # ys)) (s # src_bs)) (x, d) d"
      using wf by (simp add: bit_moved_def)
    then show ?thesis using r ne new x(1) y(1) tx by simp
  qed
qed

section \<open>Moving a row between tables\<close>

definition cols_of :: "'v ecs_table \<Rightarrow> (u64 \<times> 'v ecs_column) list" where
  "cols_of t = zip (col_ids t) (t_columns t)"

definition bits_of :: "'v ecs_table \<Rightarrow> (u64 \<times> ecs_bitset) list" where
  "bits_of t = zip (toggles (t_type t)) (t_bs_columns t)"

lemma cols_of_simps [simp]: "map fst (cols_of t) = col_ids t" "map snd (cols_of t) = t_columns t"
  "length (cols_of t) = length (t_columns t)"
  by (simp_all add: cols_of_def)

lemma snd_cols_of: "p \<in> set (cols_of t) \<Longrightarrow> snd p \<in> set (t_columns t)"
  by (metis cols_of_simps(2) in_set_zipE image_eqI list.set_map)

lemma table_shapeD:
  assumes "table_shape t"
  shows "vec_wf (ecs_vec_from_entities t)" "\<forall>i<t_count t. t_entities t ! i \<noteq> None" "map_ok t"
    "sorted_wrt (<) (col_ids t)" "\<forall>col\<in>set (t_columns t). col_shape (t_size t) (t_flags t) col"
    "bits_ok t" "t_lock t = 0" "\<not> table_has t EcsTableHasIsA" "t_count t \<le> t_size t"
    "sorted_wrt (<) (t_type t)" "length (t_entities t) = t_size t"
  using assms by (simp_all add: table_shape_def vec_wf_def ecs_vec_from_entities_def map_ok_def)

text \<open>A table whose columns and bit sets were replaced by others of the same shape.\<close>

definition cols_replaced :: "(u64 \<times> 'v ecs_column) list \<Rightarrow> 'v ecs_column list \<Rightarrow> bool" where
  "cols_replaced ps cols \<longleftrightarrow> list_all2 (\<lambda>p c. col_ti c = col_ti (snd p) \<and> length (col_data c) = length (col_data (snd p))) ps cols"

lemma moved_in_replaced: "list_all2 (moved_in di si src) ps cols \<Longrightarrow> cols_replaced ps cols"
  unfolding cols_replaced_def by (erule list_all2_mono) (simp add: moved_in_def)

lemma moved_out_replaced: "list_all2 (moved_out si um) ps cols \<Longrightarrow> cols_replaced ps cols"
  unfolding cols_replaced_def by (erule list_all2_mono) (simp add: moved_out_def)

lemma replaced_shape:
  assumes sh: "table_shape t" and cols: "cols_replaced (cols_of t) cols"
    and bss: "length bss = length (t_bs_columns t)" "\<forall>bs\<in>set bss. bs_wf bs \<and> bs_count bs = t_count t"
  shows "table_shape (t\<lparr>t_columns := cols, t_bs_columns := bss\<rparr>)" "same_table t (t\<lparr>t_columns := cols, t_bs_columns := bss\<rparr>)"
proof -
  have l: "length cols = length (t_columns t)" using cols[unfolded cols_replaced_def] by (auto dest: list_all2_lengthD)
  have c: "col_ti (cols ! k) = col_ti (t_columns t ! k)" "length (col_data (cols ! k)) = length (col_data (t_columns t ! k))"
    if "k < length (t_columns t)" for k
    using list_all2_nthD[OF cols[unfolded cols_replaced_def], of k] that by (simp_all add: cols_of_def)
  have m: "map col_ti cols = map col_ti (t_columns t)"
    using l c(1) by (intro nth_equalityI) simp_all
  then show st: "same_table t (t\<lparr>t_columns := cols, t_bs_columns := bss\<rparr>)"
    using bss(1) by (simp add: same_table_def)
  note d = table_shapeD[OF sh]
  have "col_shape (t_size t) (t_flags t) col" if "col \<in> set cols" for col
  proof -
    obtain k where k: "k < length cols" "col = cols ! k" using \<open>col \<in> set cols\<close> by (auto simp: in_set_conv_nth)
    have kl: "k < length (t_columns t)" using k l by simp
    have sh: "col_shape (t_size t) (t_flags t) (t_columns t ! k)" using d(5) kl by simp
    then have "length (col_data (t_columns t ! k)) = t_size t" unfolding col_shape_def by blast
    then show ?thesis
      using c[OF kl] k(2) by (intro col_shape_cong[OF sh]) simp_all
  qed
  moreover have "bits_ok (t\<lparr>t_columns := cols, t_bs_columns := bss\<rparr>)"
    using d(6) bss by (auto simp: bits_ok_def table_has_def)
  ultimately show "table_shape (t\<lparr>t_columns := cols, t_bs_columns := bss\<rparr>)"
    using d unfolding table_shape_def same_table_ids[OF st] by (simp add: ecs_vec_from_entities_def)
qed

lemma bits_ready_of:
  assumes "bits_ok t"
  shows "bits_ready (drop (t_bs_offset t) (t_type t)) (t_bs_columns t)"
  unfolding bits_ready_def
proof (intro conjI impI)
  show "length (t_bs_columns t) = length (toggles (drop (t_bs_offset t) (t_type t)))"
    using assms by (simp add: bits_ok_def)
  assume "t_bs_columns t \<noteq> []"
  with assms have "t_bs_offset t < length (t_type t)" "ECS_HAS_ID_FLAG (t_type t ! t_bs_offset t) ECS_TOGGLE"
    by (simp_all add: bits_ok_def)
  then show "\<exists>i rest. drop (t_bs_offset t) (t_type t) = i # rest \<and> ECS_HAS_ID_FLAG i ECS_TOGGLE"
    by (metis Cons_nth_drop_Suc)
qed

lemma move_bitset_columns_ok:
  assumes dt: "table_shape dt" "t_count dt = Suc di" and st: "table_shape st" "si < t_count st"
  shows "\<exists>ds. flecs_table_move_bitset_columns dt di st si 1 False = Inr (dt\<lparr>t_bs_columns := ds\<rparr>, st)
    \<and> list_all2 (bit_moved di si (bits_of st)) (bits_of dt) ds"
proof -
  note d = table_shapeD[OF dt(1)] and s = table_shapeD[OF st(1)]
  have t: "toggles (drop (t_bs_offset dt) (t_type dt)) = toggles (t_type dt)"
    "toggles (drop (t_bs_offset st) (t_type st)) = toggles (t_type st)"
    using d(6) s(6) by (simp_all add: bits_ok_def)
  have "\<exists>ds. move_bitsets di si 1 False (drop (t_bs_offset dt) (t_type dt)) (t_bs_columns dt)
        (drop (t_bs_offset st) (t_type st)) (t_bs_columns st) = Inr (ds, t_bs_columns st)
    \<and> list_all2 (bit_moved di si (bits_of st)) (bits_of dt) ds"
    unfolding bits_of_def t[symmetric]
  proof (rule move_bitsets_ok)
    show "\<forall>d\<in>set (t_bs_columns dt). bs_wf d \<and> bs_count d = Suc di" using d(6) dt(2) by (simp add: bits_ok_def)
    show "\<forall>s\<in>set (t_bs_columns st). bs_wf s \<and> si < bs_count s" using s(6) st(2) by (simp add: bits_ok_def)
  qed (use d s t in \<open>simp_all add: bits_ready_of toggles_ascend\<close>)
  moreover have "list_all2 (bit_moved di si (bits_of st)) (bits_of dt) []" if "t_bs_columns dt = []"
    using that by (simp add: bits_of_def)
  ultimately show ?thesis unfolding flecs_table_move_bitset_columns_def by auto
qed

lemma table_move_ok:
  assumes dt: "table_shape dt" "t_count dt = Suc di" and st: "table_wf st" "si < t_count st"
    and ty: "same_types (cols_of dt) (cols_of st)" and em: "em \<notin> set (col_ids dt)"
  obtains dt' st' evs where "flecs_table_move de se dt di st si em = Inr (dt', st', evs)"
    "same_table dt dt'" "table_shape dt'" "t_count dt' = t_count dt" "t_entities dt' = t_entities dt"
    "same_table st st'" "table_shape st'" "t_count st' = t_count st" "t_entities st' = t_entities st"
    "list_all2 (moved_in di si (cols_of st)) (cols_of dt) (t_columns dt')"
    "list_all2 (moved_out si (t_count st = si + 1)) (cols_of st) (t_columns st')"
    "list_all2 (bit_moved di si (bits_of st)) (bits_of dt) (t_bs_columns dt')"
    "t_bs_columns st' = t_bs_columns st"
    "\<forall>c. (\<forall>col\<in>set (t_columns dt). counted c col) \<and> (\<forall>col\<in>set (t_columns st). counted c col) \<longrightarrow>
        ev_delta c evs = sum_list (map (of_comp c) (t_columns dt))
          - (if t_count st = si + 1 then sum_list (map (of_comp c) (t_columns st)) else 0)"
proof -
  note result = that
  have ss: "table_shape st" and live: "\<forall>col\<in>set (t_columns st). col_live (t_count st) col"
    using st(1) by (simp_all add: table_wf_def)
  note d = table_shapeD[OF dt(1)] and s = table_shapeD[OF ss]
  have dok: "\<forall>p\<in>set (cols_of dt). move_dst_ok di em p"
  proof
    fix p assume p: "p \<in> set (cols_of dt)"
    then have "snd p \<in> set (t_columns dt)" by (rule snd_cols_of)
    then have "col_shape (t_size dt) (t_flags dt) (snd p)" using d(5) by blast
    moreover have "fst p \<in> set (col_ids dt)" using p unfolding cols_of_def by (rule zip_fst_bound)
    ultimately show "move_dst_ok di em p" using d(9) dt(2) em by (auto simp: move_dst_ok_def col_shape_def)
  qed
  have sok: "\<forall>p\<in>set (cols_of st). move_src_ok si p"
  proof
    fix p assume "p \<in> set (cols_of st)"
    then have "snd p \<in> set (t_columns st)" by (rule snd_cols_of)
    then have "col_shape (t_size st) (t_flags st) (snd p)" "col_live (t_count st) (snd p)" using s(5) live by blast+
    then show "move_src_ok si p" using s(9) st(2) by (auto simp: move_src_ok_def col_shape_def col_live_def)
  qed
  have asc: "ids_ascend (cols_of dt)" "ids_ascend (cols_of st)" using d(4) s(4) by simp_all
  text \<open>What remains once the columns and bit sets are known.\<close>
  have fin: thesis
    if r: "flecs_table_move de se dt di st si em = Inr (dt\<lparr>t_columns := ds, t_bs_columns := bs\<rparr>,
          st\<lparr>t_columns := sc, t_bs_columns := t_bs_columns st\<rparr>, evs)"
      and mi: "list_all2 (moved_in di si (cols_of st)) (cols_of dt) ds"
      and mo: "list_all2 (moved_out si (t_count st = si + 1)) (cols_of st) sc"
      and bm: "list_all2 (bit_moved di si (bits_of st)) (bits_of dt) bs"
      and ev: "\<forall>c. (\<forall>col\<in>set (t_columns dt). counted c col) \<and> (\<forall>col\<in>set (t_columns st). counted c col) \<longrightarrow>
        ev_delta c evs = sum_list (map (of_comp c) (t_columns dt))
          - (if t_count st = si + 1 then sum_list (map (of_comp c) (t_columns st)) else 0)" for ds sc bs evs
  proof (rule result[OF r])
    have bl: "length (toggles (t_type dt)) = length (t_bs_columns dt)" using d(6) by (simp add: bits_ok_def)
    then have bl2: "length bs = length (t_bs_columns dt)" using bm by (auto simp: bits_of_def dest!: list_all2_lengthD)
    have bs: "\<forall>b\<in>set bs. bs_wf b \<and> bs_count b = t_count dt"
    proof
      fix b assume "b \<in> set bs"
      then obtain k where k: "k < length bs" "b = bs ! k" by (auto simp: in_set_conv_nth)
      have "bit_moved di si (bits_of st) (bits_of dt ! k) b"
        using list_all2_nthD2[OF bm k(1)] k(2) by simp
      moreover have "snd (bits_of dt ! k) \<in> set (t_bs_columns dt)" using k bl bl2 by (simp add: bits_of_def)
      ultimately show "bs_wf b \<and> bs_count b = t_count dt" using d(6) by (simp add: bit_moved_def bits_ok_def)
    qed
    show "table_shape (dt\<lparr>t_columns := ds, t_bs_columns := bs\<rparr>)" "same_table dt (dt\<lparr>t_columns := ds, t_bs_columns := bs\<rparr>)"
      by (rule replaced_shape[OF dt(1) moved_in_replaced[OF mi] bl2 bs])+
    have "\<forall>b\<in>set (t_bs_columns st). bs_wf b \<and> bs_count b = t_count st" using s(6) by (simp add: bits_ok_def)
    note rs = replaced_shape[OF ss moved_out_replaced[OF mo] refl this]
    show "table_shape (st\<lparr>t_columns := sc, t_bs_columns := t_bs_columns st\<rparr>)"
      "same_table st (st\<lparr>t_columns := sc, t_bs_columns := t_bs_columns st\<rparr>)" by (rule rs)+
  qed (use mi mo bm ev in simp_all)
  show thesis
  proof (cases "(t_flags dt OR t_flags st) AND (EcsTableIsComplex OR EcsTableHasIsA) = 0")
    case True
    then have nc: "\<not> table_has dt EcsTableIsComplex" "\<not> table_has st EcsTableIsComplex"
      by (simp_all add: or_and_zero table_has_def bit.conj_disj_distrib or_eq_0_iff)
    then have bsn: "t_bs_columns dt = []" "t_bs_columns st = []"
      using d(6) s(6) by (auto simp: bits_ok_def complex_iff)
    have "\<forall>p\<in>set (cols_of dt). move_dst_ok di em p \<and> th_ctor (ti_hooks (col_ti (snd p))) = None"
      using dok simple_plain(1)[OF nc(1)] d(5) snd_cols_of by blast
    from fast_move_columns_ok[OF this sok ty asc] obtain ds where
      f: "fast_move_columns di si (cols_of dt) (cols_of st) = Inr (ds, t_columns st)"
        "list_all2 (moved_in di si (cols_of st)) (cols_of dt) ds" by auto
    have mo: "list_all2 (moved_out si (t_count st = si + 1)) (cols_of st) (t_columns st)"
      using sok moved_out_same unfolding cols_of_simps(2)[symmetric] list_all2_map_right by blast
    have "flecs_table_move de se dt di st si em = Inr (dt\<lparr>t_columns := ds\<rparr>, st, [])"
      using True d(7) s(7) f(1) column_ids_all[OF d(3)] column_ids_all[OF s(3)]
      by (simp add: flecs_table_move_def flecs_table_fast_move_def cols_of_def)
    then have r: "flecs_table_move de se dt di st si em = Inr (dt\<lparr>t_columns := ds, t_bs_columns := []\<rparr>,
          st\<lparr>t_columns := t_columns st, t_bs_columns := t_bs_columns st\<rparr>, [])" using bsn by simp
    show thesis
    proof (rule fin[OF r f(2) mo])
      have nd: "\<not> table_has dt EcsTableHasDtors" "\<not> table_has st EcsTableHasDtors" using nc by (simp_all add: complex_iff)
      show "\<forall>c. (\<forall>col\<in>set (t_columns dt). counted c col) \<and> (\<forall>col\<in>set (t_columns st). counted c col) \<longrightarrow>
        ev_delta c [] = sum_list (map (of_comp c) (t_columns dt))
          - (if t_count st = si + 1 then sum_list (map (of_comp c) (t_columns st)) else 0)"
        using sum_of_comp_simple[OF nd(1) d(5)] sum_of_comp_simple[OF nd(2) s(5)] by simp
    qed (use bsn in \<open>simp add: bits_of_def\<close>)
  next
    case False
    obtain bs where b: "flecs_table_move_bitset_columns dt di st si 1 False = Inr (dt\<lparr>t_bs_columns := bs\<rparr>, st)"
      "list_all2 (bit_moved di si (bits_of st)) (bits_of dt) bs"
      using move_bitset_columns_ok[OF dt ss st(2)] by blast
    define dt1 where "dt1 = dt\<lparr>t_bs_columns := bs\<rparr>"
    have mo1: "map_ok dt1" and c1: "cols_of dt1 = cols_of dt" "t_columns dt1 = t_columns dt" "t_lock dt1 = t_lock dt"
      using d(3) by (simp_all add: dt1_def map_ok_def cols_of_def col_ids_def)
    have "\<exists>ds sc evs. move_columns dt1 de di st se si em (t_count st = si + 1) 0 0 (cols_of dt) (cols_of st) = Inr (ds, sc, evs)
      \<and> list_all2 (moved_in di si (cols_of st)) (cols_of dt) ds
      \<and> list_all2 (moved_out si (t_count st = si + 1)) (cols_of st) sc
      \<and> (\<forall>c. (\<forall>p\<in>set (cols_of dt). counted c (snd p)) \<and> (\<forall>p\<in>set (cols_of st). counted c (snd p)) \<longrightarrow>
          ev_delta c evs = sum_list (map (of_comp c \<circ> snd) (cols_of dt))
            - (if t_count st = si + 1 then sum_list (map (of_comp c \<circ> snd) (cols_of st)) else 0))"
      by (rule move_columns_ok[OF mo1 s(3) _ _ dok sok ty asc]) (simp_all add: c1)
    then obtain ds sc evs where m: "move_columns dt1 de di st se si em (t_count st = si + 1) 0 0 (cols_of dt) (cols_of st) = Inr (ds, sc, evs)"
      "list_all2 (moved_in di si (cols_of st)) (cols_of dt) ds"
      "list_all2 (moved_out si (t_count st = si + 1)) (cols_of st) sc"
      "\<And>c. (\<forall>p\<in>set (cols_of dt). counted c (snd p)) \<Longrightarrow> (\<forall>p\<in>set (cols_of st). counted c (snd p)) \<Longrightarrow>
          ev_delta c evs = sum_list (map (of_comp c \<circ> snd) (cols_of dt))
            - (if t_count st = si + 1 then sum_list (map (of_comp c \<circ> snd) (cols_of st)) else 0)" by blast
    have r: "flecs_table_move de se dt di st si em = Inr (dt\<lparr>t_columns := ds, t_bs_columns := bs\<rparr>,
          st\<lparr>t_columns := sc, t_bs_columns := t_bs_columns st\<rparr>, evs)"
    proof -
      have "column_ids dt1 0 (t_columns dt1) = Inr (cols_of dt)" "column_ids st 0 (t_columns st) = Inr (cols_of st)"
        using column_ids_all[OF mo1] column_ids_all[OF s(3)] c1(1) by (simp_all add: cols_of_def)
      then have "flecs_table_move de se dt di st si em = Inr (dt1\<lparr>t_columns := ds\<rparr>, st\<lparr>t_columns := sc\<rparr>, evs)"
        using False d(7,8) s(7) b(1)[folded dt1_def] m(1)
        by (simp add: flecs_table_move_def flecs_table_update_overrides_def)
      then show ?thesis by (simp add: dt1_def)
    qed
    show thesis
    proof (rule fin[OF r m(2,3) b(2)], intro allI impI)
      fix c assume "(\<forall>col\<in>set (t_columns dt). counted c col) \<and> (\<forall>col\<in>set (t_columns st). counted c col)"
      then have "\<forall>p\<in>set (cols_of dt). counted c (snd p)" "\<forall>p\<in>set (cols_of st). counted c (snd p)"
        using snd_cols_of by blast+
      from m(4)[OF this] show "ev_delta c evs = sum_list (map (of_comp c) (t_columns dt))
          - (if t_count st = si + 1 then sum_list (map (of_comp c) (t_columns st)) else 0)"
        unfolding map_map[symmetric] cols_of_simps .
    qed
  qed
qed

end
