(* ===== verification/World_Storage.thy ===== *)
theory World_Storage
  imports Table_Move Ecs_Map
begin

text \<open>
  The storage of the world in entity.c: the entity index, whose records point at a table and a row,
  and the tables, whose rows name their entities. A table pointer is a position of the list of
  tables; \<open>0\<close> is the root table, which has no components. The operations are those outside
  deferred mode; component actions (observers, OnAdd events) are steps, as in Table\_Storage.
\<close>

section \<open>The entity index with its records\<close>

lemma index_get_live:
  assumes "ei_wf ei" "e \<in> ei_live ei"
  shows "flecs_entity_index_get ei e = Inr (erec (ei_pages ei) (low_index e))"
    "flecs_entity_index_try_get ei e = Inr (Some (erec (ei_pages ei) (low_index e)))"
    "ehas (ei_pages ei) (low_index e)"
proof -
  have a: "es_alive (ei_abs ei) (low_index e) = Some e" using assms ei_live_low by blast
  then have d: "0 < eslot (ei_pages ei) (low_index e)" "eslot (ei_pages ei) (low_index e) < ei_alive ei"
    "ei_dense ei ! eslot (ei_pages ei) (low_index e) = e"
    by (auto simp: ei_abs_def alive_map_def alive_at_def split: if_splits)
  moreover have "ei_alive ei \<le> length (ei_dense ei)" using assms(1) by (simp add: ei_wf_def)
  ultimately show "flecs_entity_index_get ei e = Inr (erec (ei_pages ei) (low_index e))"
    by (simp add: flecs_entity_index_get_def get_any_eq dense_get_eq)
  show "flecs_entity_index_try_get ei e = Inr (Some (erec (ei_pages ei) (low_index e)))"
    using a assms(1) by (simp add: try_get_eq)
  show "ehas (ei_pages ei) (low_index e)" using d(1) by (intro eslot_ehas) simp
qed

text \<open>Writing the table and the row of a record keeps the ids.\<close>

definition with_record :: "ecs_entity_index \<Rightarrow> u64 \<Rightarrow> ecs_record \<Rightarrow> ecs_entity_index" where
  "with_record ei e r = ei\<lparr>ei_pages := pset (ei_pages ei) (low_index e) r\<rparr>"

lemma with_record_fields:
  assumes "ehas (ei_pages ei) (low_index e)"
  shows "rec_set ei e r = Inr (with_record ei e r)"
    "erec (ei_pages (with_record ei e r)) = (erec (ei_pages ei))(low_index e := r)"
  using assms by (simp_all add: rec_set_eq with_record_def)

lemma with_record_wf:
  assumes "ei_alloc_wf ei" "ehas (ei_pages ei) (low_index e)" "r_dense r = eslot (ei_pages ei) (low_index e)"
  shows "ei_alloc_wf (with_record ei e r)" "ei_live (with_record ei e r) = ei_live ei"
proof -
  have s: "eslot (ei_pages (with_record ei e r)) = eslot (ei_pages ei)"
    using assms(3) by (auto simp: with_record_fields[OF assms(2)])
  have a: "ei_abs (with_record ei e r) = ei_abs ei"
    unfolding ei_abs_def s by (simp add: with_record_def)
  show "ei_live (with_record ei e r) = ei_live ei" by (simp add: ei_live_def a)
  have "ei_wf (with_record ei e r) = ei_wf ei" unfolding ei_wf_def s by (simp add: with_record_def)
  then show "ei_alloc_wf (with_record ei e r)" using assms(1) by (simp add: ei_alloc_wf_def a) (simp add: with_record_def)
qed

text \<open>Issuing an id changes no table and no row, removing one only those of the id.\<close>

definition erow :: "ecs_entity_index \<Rightarrow> nat \<Rightarrow> nat option \<times> u32" where
  "erow ei n = (r_table (erec (ei_pages ei) n), r_row (erec (ei_pages ei) n))"

lemma new_id_rows:
  assumes "flecs_new_id ei = Inr (ei', e)"
  shows "erow ei' = erow ei"
  using assms
  by (auto simp: flecs_new_id_def flecs_entity_index_new_id_def dense_get_def Let_def exists_eq ensure_page_eq
      rec_set_dense_eq erow_def fun_eq_iff ecs_assert_def mem_get_def res_elims
      split: if_splits sum.splits option.splits prod.splits)

lemma rec_get_has: "rec_get ei i = Inr r \<Longrightarrow> ehas (ei_pages ei) (low_index i)"
  by (auto simp: rec_get_def ehas_def entity_page_offset mem_get_def deref_def split: if_splits option.splits)

lemma rec_set_rows:
  "rec_set ei i r = Inr ei' \<Longrightarrow> erow ei' = (erow ei)(low_index i := (r_table r, r_row r))"
proof -
  assume a: "rec_set ei i r = Inr ei'"
  then have h: "ehas (ei_pages ei) (low_index i)"
    by (auto simp: rec_set_def ehas_def entity_page_offset mem_get_def deref_def split: if_splits option.splits)
  with a show ?thesis by (auto simp: rec_set_eq erow_def fun_eq_iff)
qed

lemma rec_set_dense_rows: "rec_set_dense ei i d = Inr ei' \<Longrightarrow> erow ei' = erow ei"
proof -
  assume a: "rec_set_dense ei i d = Inr ei'"
  then obtain r where r: "rec_get ei i = Inr r" "rec_set ei i (r\<lparr>r_dense := d\<rparr>) = Inr ei'"
    by (auto simp: rec_set_dense_def res_elims)
  have "r = erec (ei_pages ei) (low_index i)" using rec_get_eq[OF rec_get_has[OF r(1)]] r(1) by simp
  then show ?thesis using rec_set_rows[OF r(2)] by (auto simp: erow_def fun_eq_iff)
qed

lemma dense_put_rows: "dense_put ei d v = Inr ei' \<Longrightarrow> erow ei' = erow ei"
  by (auto simp: dense_put_def res_elims erow_def fun_eq_iff)

lemma remove_rows:
  assumes "ei_alloc_wf ei" "e \<in> ei_live ei" "flecs_entity_index_remove ei e = Inr ei'"
  shows "erow ei' = (erow ei)(low_index e := (None, 0))"
proof -
  have w: "ei_wf ei" "ei_active ei = None" using assms(1) by (simp_all add: ei_alloc_wf_def)
  obtain ei2 b where r: "flecs_entity_index_remove_intern ei e = Inr (ei2, b)" "ei_active ei2 = None"
    using entity_remove_intern[OF w(1), of e] w(2) by metis
  then have e2: "ei2 = ei'"
    using assms(3) by (auto simp: flecs_entity_index_remove_def split: if_splits)
  have "ei_alive ei \<noteq> 0" using w(1) by (simp add: ei_wf_def)
  then obtain e_swap r_swap r ei3 ei4 d i_swap where
    "rec_set_dense (ei\<lparr>ei_alive := i_swap\<rparr>) e_swap d = Inr ei3"
    "rec_set ei3 e (r\<lparr>r_table := None, r_row := 0, r_dense := i_swap\<rparr>) = Inr ei4"
    and "\<exists>ei5. dense_put ei4 d e_swap = Inr ei5 \<and> dense_put ei5 i_swap (ECS_GENERATION_INC e) = Inr ei'"
    using r(1)[unfolded e2]
    by (auto simp: flecs_entity_index_remove_intern_def index_get_live(2)[OF w(1) assms(2)] Let_def res_elims)
  then show ?thesis
    by (auto dest!: rec_set_dense_rows rec_set_rows dense_put_rows) (auto simp: erow_def)
qed

section \<open>State\<close>

definition EcsEntityIsId :: u32 where "EcsEntityIsId = push_bit 31 1"
definition EcsEntityIsTarget :: u32 where "EcsEntityIsTarget = push_bit 30 1"
definition EcsEntityIsTraversable :: u32 where "EcsEntityIsTraversable = push_bit 29 1"
definition EcsEntityHasDontFragment :: u32 where "EcsEntityHasDontFragment = push_bit 28 1"
definition EcsTableHasDontFragment :: u32 where "EcsTableHasDontFragment = push_bit 22 1"

definition EcsOnDelete :: u64 where "EcsOnDelete = 256 + 47"
definition EcsPanic :: u64 where "EcsPanic = 256 + 56"

text \<open>The fields of the world that the operations use; the locks exist in debug builds.\<close>

record 'v world =
  w_index :: ecs_entity_index
  w_tables :: "'v ecs_table list"
  w_locked_components :: "i32 ecs_map"
  w_locked_entities :: "i32 ecs_map"
  w_quit :: bool

section \<open>Locks\<close>

definition flecs_component_lock_inc :: "i32 ecs_map \<Rightarrow> u64 \<Rightarrow> i32 ecs_map res" where
  "flecs_component_lock_inc locked_map component =
     (if component = 0 then Inr locked_map
      else res_bind (ecs_map_ensure locked_map component) (\<lambda>(locked_map, rc).
           map_write locked_map component (rc + 1)))"

definition flecs_component_lock_dec :: "i32 ecs_map \<Rightarrow> u64 \<Rightarrow> i32 ecs_map res" where
  "flecs_component_lock_dec locked_map component =
     (if component = 0 then Inr locked_map
      else res_bind (ecs_map_get locked_map component) (\<lambda>rc.
           case rc of
             None \<Rightarrow> Inl ECS_INTERNAL_ERROR
           | Some rc \<Rightarrow>
               let rc = rc - 1 in
               res_bind (map_write locked_map component rc) (\<lambda>locked_map.
               ecs_assert (0 \<le> sint rc) ECS_INTERNAL_ERROR
               (if rc = 0 then res_bind (ecs_map_remove locked_map component) (\<lambda>(locked_map, _). Inr locked_map)
                else Inr locked_map))))"

definition lock_with ::
    "(i32 ecs_map \<Rightarrow> u64 \<Rightarrow> i32 ecs_map res) \<Rightarrow> 'v world \<Rightarrow> u64 \<Rightarrow> 'v world res" where
  "lock_with f w component =
     res_bind (f (w_locked_components w) component) (\<lambda>components.
     let w = w\<lparr>w_locked_components := components\<rparr> in
     if ECS_IS_PAIR component then
       res_bind (f (w_locked_components w) (ECS_PAIR_FIRST component)) (\<lambda>components.
       res_bind (f (w_locked_entities w) (ECS_PAIR_SECOND component)) (\<lambda>entities.
       Inr (w\<lparr>w_locked_components := components, w_locked_entities := entities\<rparr>)))
     else Inr w)"

definition flecs_component_lock :: "'v world \<Rightarrow> u64 \<Rightarrow> 'v world res" where
  "flecs_component_lock w component = lock_with flecs_component_lock_inc w component"

definition flecs_component_unlock :: "'v world \<Rightarrow> u64 \<Rightarrow> 'v world res" where
  "flecs_component_unlock w component = lock_with flecs_component_lock_dec w component"

definition flecs_component_is_trait_locked :: "'v world \<Rightarrow> u64 \<Rightarrow> bool res" where
  "flecs_component_is_trait_locked w component =
     res_bind (ecs_map_get (w_locked_components w) component) (\<lambda>rc. Inr (rc \<noteq> None))"

definition flecs_component_is_delete_locked :: "'v world \<Rightarrow> u64 \<Rightarrow> bool res" where
  "flecs_component_is_delete_locked w component =
     res_bind (ecs_map_get (w_locked_components w) component) (\<lambda>rc.
     if rc \<noteq> None then Inr True
     else res_bind (ecs_map_get (w_locked_entities w) component) (\<lambda>rc. Inr (rc \<noteq> None)))"

section \<open>Operations on entities\<close>

text \<open>Reading the record of an entity, and writing its table and row, through the record pointer.\<close>

definition w_record :: "'v world \<Rightarrow> u64 \<Rightarrow> ecs_record res" where
  "w_record w entity = rec_get (w_index w) entity"

definition w_place :: "'v world \<Rightarrow> u64 \<Rightarrow> nat \<Rightarrow> nat \<Rightarrow> 'v world res" where
  "w_place w entity table row =
     res_bind (w_record w entity) (\<lambda>r.
     res_bind (rec_set (w_index w) entity
       (r\<lparr>r_table := Some table, r_row := ECS_ROW_TO_RECORD row (r_row r AND ECS_ROW_FLAGS_MASK)\<rparr>)) (\<lambda>ei.
     Inr (w\<lparr>w_index := ei\<rparr>)))"

definition table_append ::
    "('v::zero) world \<Rightarrow> nat \<Rightarrow> u64 \<Rightarrow> bool \<Rightarrow> bool \<Rightarrow> ('v world \<times> nat \<times> storage_event list) res" where
  "table_append w table entity construct on_add =
     res_bind (mem_get (w_tables w) table) (\<lambda>t.
     res_bind (flecs_table_append t entity construct on_add) (\<lambda>(t, evs).
     if t_count t = 0 then Inl INT_RANGE
     else Inr (w\<lparr>w_tables := (w_tables w)[table := t]\<rparr>, t_count t - 1, evs)))"

definition table_delete ::
    "('v::zero) world \<Rightarrow> nat \<Rightarrow> nat \<Rightarrow> bool \<Rightarrow> ('v world \<times> storage_event list) res" where
  "table_delete w table row destruct =
     res_bind (mem_get (w_tables w) table) (\<lambda>t.
     res_bind (flecs_table_delete (w_index w) table t row destruct) (\<lambda>(ei, t, evs).
     Inr (w\<lparr>w_index := ei, w_tables := (w_tables w)[table := t]\<rparr>, evs)))"

text \<open>The step \<open>Ev\_actions\_new\<close> has the table and the row.\<close>

definition flecs_new_entity ::
    "('v::zero) world \<Rightarrow> u64 \<Rightarrow> nat \<Rightarrow> bool \<Rightarrow> ('v world \<times> storage_event list) res" where
  "flecs_new_entity w entity table ctor =
     res_bind (w_record w entity) (\<lambda>r.
     res_bind (rec_set (w_index w) entity (r\<lparr>r_table := Some 0\<rparr>)) (\<lambda>ei.
     res_bind (table_append (w\<lparr>w_index := ei\<rparr>) table entity ctor True) (\<lambda>(w, row, e1).
     res_bind (w_place w entity table row) (\<lambda>w.
     res_bind (mem_get (w_tables w) table) (\<lambda>t.
     ecs_assert (row < t_count t) ECS_INTERNAL_ERROR
     (Inr (w, e1 @ [Ev_actions_new table row])))))))"

definition ecs_new_w_table :: "('v::zero) world \<Rightarrow> nat \<Rightarrow> ('v world \<times> u64 \<times> storage_event list) res" where
  "ecs_new_w_table w table =
     res_bind (flecs_new_id (w_index w)) (\<lambda>(ei, entity).
     let w = w\<lparr>w_index := ei\<rparr> in
     res_bind (flecs_entity_index_get (w_index w) entity) (\<lambda>_.
     res_bind (flecs_new_entity w entity table True) (\<lambda>(w, evs). Inr (w, entity, evs))))"

definition flecs_add_to_root_table :: "('v::zero) world \<Rightarrow> u64 \<Rightarrow> ('v world \<times> storage_event list) res" where
  "flecs_add_to_root_table w e =
     res_bind (flecs_entity_index_get (w_index w) e) (\<lambda>r.
     ecs_assert (r_table r = None) ECS_INTERNAL_ERROR
     (res_bind (table_append w 0 e False False) (\<lambda>(w, row, evs).
      res_bind (w_place w e 0 row) (\<lambda>w. Inr (w, evs)))))"

definition ecs_new :: "('v::zero) world \<Rightarrow> ('v world \<times> u64 \<times> storage_event list) res" where
  "ecs_new w =
     res_bind (flecs_new_id (w_index w)) (\<lambda>(ei, e).
     res_bind (flecs_add_to_root_table (w\<lparr>w_index := ei\<rparr>) e) (\<lambda>(w, evs). Inr (w, e, evs)))"

definition flecs_move_entity ::
    "('v::zero) world \<Rightarrow> u64 \<Rightarrow> nat \<Rightarrow> u64 \<Rightarrow> ('v world \<times> storage_event list) res" where
  "flecs_move_entity w entity dst emplace_id =
     res_bind (w_record w entity) (\<lambda>r.
     case r_table r of
       None \<Rightarrow> Inl ECS_INTERNAL_ERROR
     | Some src \<Rightarrow>
         let src_row = ECS_RECORD_TO_ROW (r_row r) in
         ecs_assert (src \<noteq> dst) ECS_INTERNAL_ERROR
         (res_bind (mem_get (w_tables w) src) (\<lambda>st.
          ecs_assert (src_row < t_count st) ECS_INTERNAL_ERROR
          (res_bind (flecs_entity_index_get (w_index w) entity) (\<lambda>_.
           res_bind (table_append w dst entity False False) (\<lambda>(w, dst_row, e1).
           let e2 = [Ev_actions_move_remove src dst src_row] in
           res_bind (mem_get (w_tables w) dst) (\<lambda>dt.
           res_bind (mem_get (w_tables w) src) (\<lambda>st.
           res_bind (flecs_table_move entity entity dt dst_row st src_row emplace_id) (\<lambda>(dt, st, e3).
           let w = w\<lparr>w_tables := (w_tables w)[dst := dt, src := st]\<rparr> in
           res_bind (w_place w entity dst dst_row) (\<lambda>w.
           res_bind (table_delete w src src_row False) (\<lambda>(w, e4).
           let e5 = [Ev_actions_move_add dst src dst_row] in
           res_bind (w_record w entity) (\<lambda>r.
           ecs_assert (r_table r = Some dst) ECS_INTERNAL_ERROR
           (Inr (w, e1 @ e2 @ e3 @ e4 @ e5))))))))))))))"

definition table_traversable_add :: "'v world \<Rightarrow> nat \<Rightarrow> int \<Rightarrow> 'v world res" where
  "table_traversable_add w table value =
     res_bind (mem_get (w_tables w) table) (\<lambda>t.
     res_bind (flecs_table_traversable_add t value) (\<lambda>t. Inr (w\<lparr>w_tables := (w_tables w)[table := t]\<rparr>)))"

definition flecs_commit ::
    "('v::zero) world \<Rightarrow> u64 \<Rightarrow> nat \<Rightarrow> u64 \<Rightarrow> ('v world \<times> storage_event list) res" where
  "flecs_commit w entity dst emplace_id =
     res_bind (w_record w entity) (\<lambda>r.
     let is_trav = (if r_row r AND EcsEntityIsTraversable \<noteq> 0 then 1 else 0) in
     case r_table r of
       None \<Rightarrow> Inl ECS_INTERNAL_ERROR
     | Some src \<Rightarrow>
         if src = dst then
           res_bind (mem_get (w_tables w) src) (\<lambda>st.
           let row = ECS_RECORD_TO_ROW (r_row r) in
           Inr (w, if table_has st EcsTableHasDontFragment
                   then [Ev_actions_move_add src src row, Ev_actions_move_remove src src row] else []))
         else
           res_bind (table_traversable_add w dst is_trav) (\<lambda>w.
           res_bind (flecs_move_entity w entity dst emplace_id) (\<lambda>(w, evs).
           res_bind (table_traversable_add w src (- is_trav)) (\<lambda>w.
           Inr (w, evs @ (if is_trav \<noteq> 0 then [Ev_update_component_monitors] else []))))))"

text \<open>
  ecs\_has\_id for an id that is not sparse, looked up in a table without IsA pairs: the table has
  a record of the id when the id is in its type.
\<close>

definition table_has_id :: "'v ecs_table \<Rightarrow> u64 \<Rightarrow> bool res" where
  "table_has_id t i = (if table_has t EcsTableHasIsA then Inl ECS_UNSUPPORTED else Inr (i \<in> set (t_type t)))"

text \<open>
  ecs\_delete. The cleanup of an entity that is used as an id or as the target of a pair, or that has
  components outside its table, is not modelled; ECS\_UNSUPPORTED marks it.
\<close>

definition ecs_delete :: "('v::zero) world \<Rightarrow> u64 \<Rightarrow> ('v world \<times> storage_event list) res" where
  "ecs_delete w entity =
     ecs_assert (entity \<noteq> 0) ECS_INVALID_PARAMETER
     (res_bind (flecs_entity_index_try_get (w_index w) entity) (\<lambda>r.
      case r of
        None \<Rightarrow> Inr (w, [])
      | Some r \<Rightarrow>
          (case r_table r of
             None \<Rightarrow> Inl ECS_INTERNAL_ERROR
           | Some table \<Rightarrow>
               res_bind (mem_get (w_tables w) table) (\<lambda>t.
               res_bind (table_has_id t (ecs_pair EcsOnDelete EcsPanic)) (\<lambda>panic.
               ecs_assert (\<not> panic) ECS_CONSTRAINT_VIOLATED
               (if r_row r AND (EcsEntityIsTarget OR EcsEntityIsId OR EcsEntityHasDontFragment) \<noteq> 0
                then Inl ECS_UNSUPPORTED
                else
                  res_bind (flecs_component_is_delete_locked w entity) (\<lambda>locked.
                  ecs_assert (w_quit w \<or> \<not> locked) ECS_INVALID_OPERATION
                  (let row = ECS_RECORD_TO_ROW (r_row r) in
                   res_bind (table_delete w table row True) (\<lambda>(w, e3).
                   res_bind (if r_row r AND EcsEntityIsTraversable \<noteq> 0
                             then table_traversable_add w table (- 1) else Inr w) (\<lambda>w.
                   res_bind (flecs_entity_index_remove (w_index w) entity) (\<lambda>ei.
                   Inr (w\<lparr>w_index := ei\<rparr>, Ev_actions_move_remove table 0 row # e3))))))))))))"

end
