(* ===== verification/World_Rows.thy ===== *)
theory World_Rows
  imports World_Storage
begin

text \<open>
  The invariant that ties the entity index to the tables, the view of an entity that the storage
  presents (the ids it has, the values of its components, its toggle bits), and what each operation
  on entities does to that view.
\<close>

section \<open>Places\<close>

text \<open>
  \<open>R\<close> gives the entity in a place and \<open>P\<close> the place of an entity index; \<open>L\<close> is the set of live
  entities. Deleting the entity in \<open>q\<close> fills the place from \<open>l\<close>.
\<close>

definition consistent :: "u64 set \<Rightarrow> ('p \<Rightarrow> u64 option) \<Rightarrow> (nat \<Rightarrow> 'p option) \<Rightarrow> bool" where
  "consistent L R P \<longleftrightarrow> (\<forall>e p. R p = Some e \<longleftrightarrow> e \<in> L \<and> P (low_index e) = Some p)"

lemma consistent_add:
  assumes "consistent L R P" "R p = None" "low_index e \<notin> low_index ` L"
  shows "consistent (insert e L) (R(p \<mapsto> e)) (P(low_index e \<mapsto> p))"
proof -
  have r: "e' \<in> L \<Longrightarrow> P (low_index e') = Some q \<longleftrightarrow> R q = Some e'" "R q = Some e' \<Longrightarrow> e' \<in> L"
    "R q = Some e' \<Longrightarrow> P (low_index e') = Some q" for e' q
    using assms(1) by (auto simp: consistent_def)
  have n: "e' \<in> L \<Longrightarrow> low_index e' \<noteq> low_index e" for e' using assms(3) by (metis imageI)
  show ?thesis
    unfolding consistent_def by (auto simp: r(1) n assms(2) dest: r(2,3) n)
qed

definition fill :: "('p \<Rightarrow> u64 option) \<Rightarrow> 'p \<Rightarrow> 'p \<Rightarrow> 'p \<Rightarrow> u64 option" where
  "fill R q l = (R(q := R l))(l := None)"

definition filled :: "(nat \<Rightarrow> 'p option) \<Rightarrow> 'p \<Rightarrow> 'p \<Rightarrow> u64 \<Rightarrow> nat \<Rightarrow> 'p option" where
  "filled P q l y = (if q \<noteq> l then P(low_index y \<mapsto> q) else P)"

lemma consistent_inj:
  "consistent L R P \<Longrightarrow> \<forall>e\<in>L. P (low_index e) \<noteq> None \<Longrightarrow> inj_on low_index L"
  unfolding consistent_def by (intro inj_onI) (metis option.exhaust option.inject)

lemma consistent_delete:
  assumes c: "consistent L R P" "\<forall>e\<in>L. P (low_index e) \<noteq> None" and q: "R q = Some x" and l: "R l = Some y"
  shows "consistent (L - {x}) (fill R q l) ((filled P q l y)(low_index x := None))"
proof -
  have x: "x \<in> L" "P (low_index x) = Some q" and y: "y \<in> L" "P (low_index y) = Some l"
    using c(1) q l by (simp_all add: consistent_def)
  have inj: "low_index e = low_index e' \<longleftrightarrow> e = e'" if "e \<in> L" "e' \<in> L" for e e'
    using consistent_inj[OF c] that by (auto dest: inj_onD)
  have r: "e \<in> L \<Longrightarrow> P (low_index e) = Some p \<longleftrightarrow> R p = Some e" "R p = Some e \<Longrightarrow> e \<in> L" for e p
    using c(1) by (auto simp: consistent_def)
  have u: "R p = Some e \<Longrightarrow> R p' = Some e \<Longrightarrow> p = p'" for p p' e
    using c(1) by (auto simp: consistent_def)
  show ?thesis
    unfolding consistent_def
  proof (intro allI)
    fix e p
    show "fill R q l p = Some e \<longleftrightarrow> e \<in> L - {x} \<and> ((filled P q l y)(low_index x := None)) (low_index e) = Some p"
    proof (cases "e \<in> L")
      case True
      show ?thesis
        using q l True inj[OF True x(1)] inj[OF True y(1)]
        by (cases "q = l"; cases "p = l"; cases "p = q") (auto simp: fill_def filled_def r(1)[OF True] dest: u)
    next
      case False
      then have "R p \<noteq> Some e" for p using r(2) by blast
      with False show ?thesis by (simp add: fill_def)
    qed
  qed
qed

lemma consistent_move:
  assumes c: "consistent L R P" "\<forall>e\<in>L. P (low_index e) \<noteq> None" and q: "R q = Some x" and l: "R l = Some y"
    and p: "R p = None"
  shows "consistent L (fill (R(p \<mapsto> x)) q l) (filled (P(low_index x \<mapsto> p)) q l y)"
proof -
  have x: "x \<in> L" "P (low_index x) = Some q" and y: "y \<in> L" "P (low_index y) = Some l"
    using c(1) q l by (simp_all add: consistent_def)
  have inj: "low_index e = low_index e' \<longleftrightarrow> e = e'" if "e \<in> L" "e' \<in> L" for e e'
    using consistent_inj[OF c] that by (auto dest: inj_onD)
  have ne: "p \<noteq> q" "p \<noteq> l" using p q l by auto
  have f: "fill R q l p = None" using ne p by (simp add: fill_def)
  have n: "low_index x \<notin> low_index ` (L - {x})" using inj x(1) by auto
  have "consistent (insert x (L - {x})) ((fill R q l)(p \<mapsto> x)) (((filled P q l y)(low_index x := None))(low_index x \<mapsto> p))"
    by (rule consistent_add[OF consistent_delete[OF c q l] f n])
  moreover have "insert x (L - {x}) = L" using x(1) by blast
  moreover have "fill (R(p \<mapsto> x)) q l = (fill R q l)(p \<mapsto> x)" using ne by (auto simp: fill_def fun_eq_iff)
  moreover have "filled (P(low_index x \<mapsto> p)) q l y = (filled P q l y)(low_index x \<mapsto> p)"
    using q l inj[OF x(1) y(1)] x y by (auto simp: filled_def fun_eq_iff)
  ultimately show ?thesis by simp
qed

section \<open>Rows in records\<close>

lemma row_record:
  assumes "row < 2 ^ 28"
  shows "ECS_RECORD_TO_ROW (ECS_ROW_TO_RECORD row (f AND ECS_ROW_FLAGS_MASK)) = row"
    "ECS_RECORD_TO_ROW_FLAGS (ECS_ROW_TO_RECORD row (f AND ECS_ROW_FLAGS_MASK)) = ECS_RECORD_TO_ROW_FLAGS f"
proof -
  have m: "ECS_ROW_MASK = mask 28" by (simp add: ECS_ROW_MASK_def mask_eq_exp_minus_1)
  have r: "(of_nat row :: u32) AND mask 28 = of_nat row"
  proof -
    have "take_bit 28 (of_nat row :: u32) = of_nat row"
      using assms by (simp add: of_nat_take_bit[symmetric] take_bit_nat_eq_self del: of_nat_take_bit)
    then show ?thesis by (simp add: take_bit_eq_mask)
  qed
  have z: "(f AND NOT (mask 28)) AND mask 28 = 0" "(of_nat row :: u32) AND NOT (mask 28) = 0"
    subgoal by (rule bit_word_eqI) (auto simp: bit_simps)
    subgoal by (subst r[symmetric], rule bit_word_eqI) (auto simp: bit_simps)
    done
  show "ECS_RECORD_TO_ROW (ECS_ROW_TO_RECORD row (f AND ECS_ROW_FLAGS_MASK)) = row"
    using assms z(1) r
    by (simp add: ECS_RECORD_TO_ROW_def ECS_ROW_TO_RECORD_def ECS_ROW_FLAGS_MASK_def m bit.conj_disj_distrib2 unat_of_nat)
  show "ECS_RECORD_TO_ROW_FLAGS (ECS_ROW_TO_RECORD row (f AND ECS_ROW_FLAGS_MASK)) = ECS_RECORD_TO_ROW_FLAGS f"
    using z(2) by (simp add: ECS_RECORD_TO_ROW_FLAGS_def ECS_ROW_TO_RECORD_def ECS_ROW_FLAGS_MASK_def m bit.conj_disj_distrib2 and.assoc)
qed

section \<open>Views of rows\<close>

text \<open>What the storage presents of an entity, read at its row.\<close>

record 'v entity_view =
  vw_type :: "u64 list"
  vw_comps :: "u64 \<Rightarrow> 'v option option"
  vw_bits :: "u64 \<Rightarrow> bool option"

definition row_view :: "'v ecs_table \<Rightarrow> nat \<Rightarrow> 'v entity_view" where
  "row_view t row = \<lparr>vw_type = t_type t,
     vw_comps = map_of (zip (col_ids t) (map (\<lambda>col. col_data col ! row) (t_columns t))),
     vw_bits = map_of (zip (toggles (t_type t)) (map (\<lambda>bs. bs_bit bs row) (t_bs_columns t)))\<rparr>"

definition empty_view :: "'v entity_view" where
  "empty_view = \<lparr>vw_type = [], vw_comps = (\<lambda>_. None), vw_bits = (\<lambda>_. None)\<rparr>"

text \<open>The column ids of a table with the types they store.\<close>

definition col_types :: "'v ecs_table \<Rightarrow> (u64 \<times> 'v ecs_type_info) list" where
  "col_types t = zip (col_ids t) (map col_ti (t_columns t))"

text \<open>A component that was added holds its default, or what was in memory if it has no constructor.\<close>

definition fresh_value :: "('v::zero) ecs_type_info \<Rightarrow> 'v option \<Rightarrow> bool" where
  "fresh_value ti v \<longleftrightarrow> cell_ok ti v \<and> (th_ctor (ti_hooks ti) \<noteq> None \<longrightarrow> v = ti_default ti)"

text \<open>The view of an entity that comes into table \<open>t\<close> with the view \<open>v\<close>.\<close>

definition view_moved :: "('v::zero) ecs_table \<Rightarrow> 'v entity_view \<Rightarrow> 'v entity_view \<Rightarrow> bool" where
  "view_moved t v v' \<longleftrightarrow> vw_type v' = t_type t \<and> dom (vw_comps v') = set (col_ids t)
     \<and> (\<forall>p\<in>set (col_types t). \<exists>x. vw_comps v' (fst p) = Some x
          \<and> (case vw_comps v (fst p) of Some y \<Rightarrow> x = y | None \<Rightarrow> fresh_value (snd p) x))
     \<and> vw_bits v' = (\<lambda>i. if i \<in> set (toggles (t_type t))
          then Some (case vw_bits v i of Some b \<Rightarrow> b | None \<Rightarrow> False) else None)"

lemma map_of_zip_nth':
  assumes "length xs = length ys" "distinct xs" "k < length xs"
  shows "map_of (zip xs ys) (xs ! k) = Some (ys ! k)"
  using map_of_zip_nth[OF assms(1,2)] assms by simp

lemma map_of_zip_values: "map_of (zip xs (map f ys)) x = map_option f (map_of (zip xs ys) x)"
  by (induction xs ys rule: list_induct2') simp_all

lemma col_ids_distinct: "table_shape t \<Longrightarrow> distinct (col_ids t)" "table_shape t \<Longrightarrow> distinct (toggles (t_type t))"
  using table_shapeD(4,10)[of t] by (simp_all add: strict_sorted_iff toggles_def)

lemma bits_length: "table_shape t \<Longrightarrow> length (toggles (t_type t)) = length (t_bs_columns t)"
  using table_shapeD(6)[of t] by (simp add: bits_ok_def)

lemma row_view_cong:
  assumes "same_table t t'"
    and "\<And>k. k < length (t_columns t) \<Longrightarrow> col_data (t_columns t' ! k) ! i = col_data (t_columns t ! k) ! j"
    and "\<And>k. k < length (t_bs_columns t) \<Longrightarrow> bs_bit (t_bs_columns t' ! k) i = bs_bit (t_bs_columns t ! k) j"
  shows "row_view t' i = row_view t j"
proof -
  note s = same_tableD[OF assms(1)] same_table_ids[OF assms(1)]
  have "map (\<lambda>col. col_data col ! i) (t_columns t') = map (\<lambda>col. col_data col ! j) (t_columns t)"
    using s assms(2) by (intro nth_equalityI) simp_all
  moreover have "map (\<lambda>bs. bs_bit bs i) (t_bs_columns t') = map (\<lambda>bs. bs_bit bs j) (t_bs_columns t)"
    using s assms(3) by (intro nth_equalityI) simp_all
  ultimately show ?thesis using s by (simp add: row_view_def)
qed

lemma dom_view [simp]: "dom (vw_comps (row_view t i)) = set (col_ids t)"
  by (simp add: row_view_def)

lemma view_comp:
  "table_shape t \<Longrightarrow> k < length (t_columns t) \<Longrightarrow> vw_comps (row_view t i) (col_ids t ! k) = Some (col_data (t_columns t ! k) ! i)"
  using map_of_zip_nth'[OF _ col_ids_distinct(1), of t "map (\<lambda>col. col_data col ! i) (t_columns t)" k]
  by (simp add: row_view_def)

lemma view_bit:
  "table_shape t \<Longrightarrow> k < length (t_bs_columns t) \<Longrightarrow>
    vw_bits (row_view t i) (toggles (t_type t) ! k) = Some (bs_bit (t_bs_columns t ! k) i)"
  using map_of_zip_nth'[OF _ col_ids_distinct(2), of t "map (\<lambda>bs. bs_bit bs i) (t_bs_columns t)" k] bits_length[of t]
  by (simp add: row_view_def)

lemma view_no_bit: "i \<notin> set (toggles (t_type t)) \<Longrightarrow> vw_bits (row_view t row) i = None"
  by (auto simp: row_view_def map_of_eq_None_iff dest: set_zip_leftD)

text \<open>A view is moved in when every column and every bit set is.\<close>

lemma view_movedI:
  assumes sh: "table_shape t" and ty: "t_type t' = t_type t" "col_ids t' = col_ids t" "col_types t' = col_types t"
    and c: "\<And>k. k < length (t_columns t) \<Longrightarrow>
      case vw_comps v (col_ids t ! k) of Some y \<Rightarrow> col_data (t_columns t ! k) ! i = y
      | None \<Rightarrow> fresh_value (col_ti (t_columns t ! k)) (col_data (t_columns t ! k) ! i)"
    and b: "\<And>k. k < length (t_bs_columns t) \<Longrightarrow>
      bs_bit (t_bs_columns t ! k) i = (case vw_bits v (toggles (t_type t) ! k) of Some b \<Rightarrow> b | None \<Rightarrow> False)"
  shows "view_moved t' v (row_view t i)"
proof -
  have "\<exists>x. vw_comps (row_view t i) (fst p) = Some x
      \<and> (case vw_comps v (fst p) of Some y \<Rightarrow> x = y | None \<Rightarrow> fresh_value (snd p) x)" if p: "p \<in> set (col_types t)" for p
  proof -
    obtain k where k: "k < length (t_columns t)" "p = (col_ids t ! k, col_ti (t_columns t ! k))"
      using p by (auto simp: col_types_def set_zip)
    then show ?thesis using view_comp[OF sh k(1)] c[OF k(1)] by (auto split: option.splits)
  qed
  moreover have "vw_bits (row_view t i) x = (if x \<in> set (toggles (t_type t))
          then Some (case vw_bits v x of Some b \<Rightarrow> b | None \<Rightarrow> False) else None)" for x
  proof (cases "x \<in> set (toggles (t_type t))")
    case True
    then obtain k where k: "k < length (t_bs_columns t)" "x = toggles (t_type t) ! k"
      using bits_length[OF sh] by (auto simp: in_set_conv_nth)
    then show ?thesis using True view_bit[OF sh k(1)] b[OF k(1)] by simp
  qed (simp add: view_no_bit)
  moreover have "vw_type (row_view t i) = t_type t" by (simp add: row_view_def)
  ultimately show ?thesis using ty by (auto simp: view_moved_def fun_eq_iff)
qed

section \<open>The table operations on views\<close>

text \<open>The number of objects of a component in a table, if each row of a column holds one.\<close>

definition row_objects :: "u64 \<Rightarrow> 'v ecs_table \<Rightarrow> int" where
  "row_objects c t = sum_list (map (of_comp c) (t_columns t))"

definition all_counted :: "u64 \<Rightarrow> ('v::zero) ecs_table \<Rightarrow> bool" where
  "all_counted c t \<longleftrightarrow> (\<forall>col\<in>set (t_columns t). counted c col)"

lemma same_table_col_types:
  assumes "same_table t t'"
  shows "col_types t' = col_types t" "row_objects c t' = row_objects c t" "all_counted c t' = all_counted c t"
proof -
  have m: "map col_ti (t_columns t') = map col_ti (t_columns t)" using assms by (simp add: same_table_def)
  show "col_types t' = col_types t" using m same_table_ids(1)[OF assms] by (simp add: col_types_def)
  have o: "map (of_comp c) cols = map (\<lambda>ti. if ti_component ti = c then 1 else 0) (map col_ti cols)" for cols :: "'a ecs_column list"
    by (simp add: of_comp_def comp_def)
  show "row_objects c t' = row_objects c t" unfolding row_objects_def o m ..
  have "(\<forall>col\<in>set cols. counted c col) \<longleftrightarrow> (\<forall>ti\<in>set (map col_ti cols). ti_component ti = c \<longrightarrow> ti_counted ti)"
    for cols :: "'a ecs_column list" by (simp add: counted_def)
  then show "all_counted c t' = all_counted c t" unfolding all_counted_def using m by metis
qed

lemma append_view:
  assumes wf: "table_wf t" and room: "t_count t < 2 ^ 28"
  obtains t' evs where "flecs_table_append t e construct on_add = Inr (t', evs)" "same_table t t'" "table_shape t'"
    "t_count t' = t_count t + 1" "t_entities t' ! t_count t = Some e"
    "\<forall>i<t_count t. t_entities t' ! i = t_entities t ! i \<and> row_view t' i = row_view t i"
    "\<forall>col\<in>set (t_columns t'). col_live (t_count t) col"
    "\<forall>k<length (t_bs_columns t'). bs_bit (t_bs_columns t' ! k) (t_count t) = False"
    "construct \<Longrightarrow> table_wf t' \<and> view_moved t' empty_view (row_view t' (t_count t))"
    "\<forall>c. all_counted c t \<longrightarrow> ev_delta c evs = (if construct then row_objects c t else 0)"
proof -
  note result = that
  obtain t' evs where r: "flecs_table_append t e construct on_add = Inr (t', evs)" "same_table t t'" "table_shape t'"
    "t_count t' = t_count t + 1" "\<forall>i<t_count t. t_entities t' ! i = t_entities t ! i"
    "t_entities t' ! t_count t = Some e"
    "list_all2 (col_grown (t_count t) (t_size t') construct) (t_columns t) (t_columns t')"
    "\<forall>k<length (t_bs_columns t). bs_list (t_bs_columns t' ! k) = bs_list (t_bs_columns t ! k) @ [False]"
    "\<forall>c. (\<forall>col\<in>set (t_columns t). counted c col) \<longrightarrow>
        ev_delta c evs = (if construct then sum_list (map (of_comp c) (t_columns t)) else 0)"
    by (rule table_append_ok[OF wf room, where construct = construct and on_add = on_add and e = e]) blast
  note s = same_tableD[OF r(2)]
  have g: "col_grown (t_count t) (t_size t') construct (t_columns t ! k) (t_columns t' ! k)" if "k < length (t_columns t)" for k
    using list_all2_nthD[OF r(7) that] .
  have bc: "bs_count (t_bs_columns t ! k) = t_count t" "bs_count (t_bs_columns t' ! k) = t_count t + 1"
    if "k < length (t_bs_columns t)" for k
  proof -
    have "bits_ok t" "bits_ok t'" using wf r(3) by (simp_all add: table_wf_def table_shape_def)
    then show "bs_count (t_bs_columns t ! k) = t_count t" "bs_count (t_bs_columns t' ! k) = t_count t + 1"
      using that s(8) r(4) by (simp_all add: bits_ok_def)
  qed
  have bit: "bs_bit (t_bs_columns t' ! k) i = (i < t_count t \<and> bs_bit (t_bs_columns t ! k) i)"
    if k: "k < length (t_bs_columns t)" and i: "i \<le> t_count t" for k i
  proof -
    have "bs_list (t_bs_columns t' ! k) ! i = (bs_list (t_bs_columns t ! k) @ [False]) ! i" using r(8) k by simp
    then show ?thesis using bc[OF k] i by (simp add: nth_append split: if_splits)
  qed
  have same: "row_view t' i = row_view t i" if i: "i < t_count t" for i
  proof (rule row_view_cong[OF r(2)])
    show "col_data (t_columns t' ! k) ! i = col_data (t_columns t ! k) ! i" if "k < length (t_columns t)" for k
      using g[OF that] i by (simp add: col_grown_def)
  qed (use bit i in simp)
  have live: "col_live (t_count t) col" if c: "col \<in> set (t_columns t')" for col
  proof -
    obtain k where k: "k < length (t_columns t)" "col = t_columns t' ! k" using c s(6) by (auto simp: in_set_conv_nth)
    have "col_live (t_count t) (t_columns t ! k)" using wf k(1) by (simp add: table_wf_def)
    with g[OF k(1)] k(2) show ?thesis by (simp add: col_live_def col_grown_def)
  qed
  have new: "fresh_value (col_ti (t_columns t' ! k)) (col_data (t_columns t' ! k) ! t_count t)"
    if "construct" "k < length (t_columns t)" for k
    using g[OF that(2)] that(1) by (simp add: col_grown_def fresh_value_def)
  have "table_wf t' \<and> view_moved t' empty_view (row_view t' (t_count t))" if construct
  proof
    show "table_wf t'" unfolding table_wf_def
    proof (intro conjI ballI r(3))
      fix col assume c: "col \<in> set (t_columns t')"
      then obtain k where k: "k < length (t_columns t)" "col = t_columns t' ! k" using s(6) by (auto simp: in_set_conv_nth)
      show "col_live (t_count t') col"
        using live[OF c] new[OF \<open>construct\<close> k(1)] k(2) r(4) by (auto simp: col_live_def fresh_value_def less_Suc_eq)
    qed
    show "view_moved t' empty_view (row_view t' (t_count t))"
      using s new[OF \<open>construct\<close>] bit by (intro view_movedI[OF r(3)]) (auto simp: empty_view_def)
  qed
  then show thesis
    by (intro result[OF r(1-4,6)]) (use r(5,9) same live bit s(8) in \<open>auto simp: all_counted_def row_objects_def\<close>)
qed

lemma move_view:
  assumes dt: "table_shape dt" "t_count dt = Suc di" "\<forall>col\<in>set (t_columns dt). col_live di col"
    "\<forall>k<length (t_bs_columns dt). bs_bit (t_bs_columns dt ! k) di = False"
    and st: "table_wf st" "si < t_count st" and ty: "same_types (cols_of dt) (cols_of st)" and em: "em \<notin> set (col_ids dt)"
  obtains dt' st' evs where "flecs_table_move de se dt di st si em = Inr (dt', st', evs)"
    "same_table dt dt'" "table_wf dt'" "t_count dt' = t_count dt" "t_entities dt' = t_entities dt"
    "\<forall>i<di. row_view dt' i = row_view dt i" "view_moved dt' (row_view st si) (row_view dt' di)"
    "same_table st st'" "table_shape st'" "t_count st' = t_count st" "t_entities st' = t_entities st"
    "\<forall>i. i \<noteq> si \<longrightarrow> row_view st' i = row_view st i"
    "\<forall>col\<in>set (t_columns st'). col_deletable (t_count st - 1) si False col"
    "\<forall>c. all_counted c dt \<and> all_counted c st \<longrightarrow>
        ev_delta c evs = row_objects c dt - (if t_count st = si + 1 then row_objects c st else 0)"
proof -
  note result = that
  obtain dt' st' evs where r: "flecs_table_move de se dt di st si em = Inr (dt', st', evs)"
    "same_table dt dt'" "table_shape dt'" "t_count dt' = t_count dt" "t_entities dt' = t_entities dt"
    "same_table st st'" "table_shape st'" "t_count st' = t_count st" "t_entities st' = t_entities st"
    "list_all2 (moved_in di si (cols_of st)) (cols_of dt) (t_columns dt')"
    "list_all2 (moved_out si (t_count st = si + 1)) (cols_of st) (t_columns st')"
    "list_all2 (bit_moved di si (bits_of st)) (bits_of dt) (t_bs_columns dt')"
    "t_bs_columns st' = t_bs_columns st"
    "\<forall>c. (\<forall>col\<in>set (t_columns dt). counted c col) \<and> (\<forall>col\<in>set (t_columns st). counted c col) \<longrightarrow>
        ev_delta c evs = sum_list (map (of_comp c) (t_columns dt))
          - (if t_count st = si + 1 then sum_list (map (of_comp c) (t_columns st)) else 0)"
    by (rule table_move_ok[OF dt(1,2) st ty em, where de = de and se = se]) blast
  note d = same_tableD[OF r(2)] and s = same_tableD[OF r(6)]
  have ss: "table_shape st" using st(1) by (simp add: table_wf_def)
  have mi: "moved_in di si (cols_of st) (col_ids dt ! k, t_columns dt ! k) (t_columns dt' ! k)" if k: "k < length (t_columns dt)" for k
    using list_all2_nthD[OF r(10), of k] k by (simp add: cols_of_def)
  have mo: "moved_out si (t_count st = si + 1) (col_ids st ! k, t_columns st ! k) (t_columns st' ! k)"
    if k: "k < length (t_columns st)" for k
    using list_all2_nthD[OF r(11), of k] k by (simp add: cols_of_def)
  have bm: "bit_moved di si (bits_of st) (toggles (t_type dt) ! k, t_bs_columns dt ! k) (t_bs_columns dt' ! k)"
    if k: "k < length (t_bs_columns dt)" for k
    using list_all2_nthD[OF r(12), of k] k bits_length[OF dt(1)] by (simp add: bits_of_def)
  have bc: "bs_count (t_bs_columns dt ! k) = Suc di" "bs_count (t_bs_columns dt' ! k) = Suc di"
    if "k < length (t_bs_columns dt)" for k
    using that table_shapeD(6)[OF dt(1)] table_shapeD(6)[OF r(3)] dt(2) r(4) d(8) by (simp_all add: bits_ok_def)
  have bit: "bs_bit (t_bs_columns dt' ! k) i = (case map_of (bits_of st) (toggles (t_type dt) ! k) of
        Some b \<Rightarrow> if i = di then bs_bit b si else bs_bit (t_bs_columns dt ! k) i | None \<Rightarrow> bs_bit (t_bs_columns dt ! k) i)"
    if k: "k < length (t_bs_columns dt)" and i: "i \<le> di" for k i
  proof -
    have "bs_list (t_bs_columns dt' ! k) ! i = (case map_of (bits_of st) (toggles (t_type dt) ! k) of
          Some s \<Rightarrow> (bs_list (t_bs_columns dt ! k))[di := bs_bit s si] | None \<Rightarrow> bs_list (t_bs_columns dt ! k)) ! i"
      using bm[OF k] by (cases "map_of (bits_of st) (toggles (t_type dt) ! k)") (simp_all add: bit_moved_def)
    then show ?thesis using bc[OF k] i by (simp add: nth_list_update split: option.splits)
  qed
  have cs: "vw_comps (row_view st i) x = map_option (\<lambda>col. col_data col ! i) (map_of (cols_of st) x)"
    "vw_bits (row_view st i) x = map_option (\<lambda>bs. bs_bit bs i) (map_of (bits_of st) x)" for i x
    by (simp_all add: row_view_def cols_of_def bits_of_def map_of_zip_values)
  have kept: "row_view dt' i = row_view dt i" if i: "i < di" for i
    using mi bit i by (intro row_view_cong[OF r(2)]) (auto simp: moved_in_def split: option.splits)
  have new: "case vw_comps (row_view st si) (col_ids dt' ! k) of Some y \<Rightarrow> col_data (t_columns dt' ! k) ! di = y
      | None \<Rightarrow> fresh_value (col_ti (t_columns dt' ! k)) (col_data (t_columns dt' ! k) ! di)"
    if k: "k < length (t_columns dt)" for k
    using mi[OF k] same_table_ids(1)[OF r(2)] unfolding cs
    by (auto simp: moved_in_def fresh_value_def split: option.splits)
  have vm: "view_moved dt' (row_view st si) (row_view dt' di)"
    using d(1,6,8) new bit dt(4) by (intro view_movedI[OF r(3)]) (auto simp: cs split: option.splits)
  have left: "row_view st' i = row_view st i" if i: "i \<noteq> si" for i
    using mo i r(13) by (intro row_view_cong[OF r(6)]) (auto simp: moved_out_def)
  show thesis
  proof (rule result[OF r(1,2) _ r(4,5) _ vm r(6-9)])
    have "cell_ok (col_ti (t_columns dt' ! k)) (col_data (t_columns dt' ! k) ! i)"
      if k: "k < length (t_columns dt)" and i: "i \<le> di" for k i
    proof (cases "i = di")
      case False
      then have "cell_ok (col_ti (t_columns dt ! k)) (col_data (t_columns dt ! k) ! i)"
        using dt(3) k i by (simp add: col_live_def)
      then show ?thesis using mi[OF k] False by (simp add: moved_in_def)
    next
      case True
      show ?thesis
      proof (cases "map_of (cols_of st) (col_ids dt ! k)")
        case None
        then show ?thesis using mi[OF k] True d(7)[OF k] by (auto simp: moved_in_def)
      next
        case (Some col)
        then have m: "(col_ids dt ! k, col) \<in> set (cols_of st)" by (rule map_of_SomeD)
        then have "col \<in> set (t_columns st)" by (metis snd_cols_of snd_conv)
        then have "cell_ok (col_ti col) (col_data col ! si)" using st by (simp add: table_wf_def col_live_def)
        moreover have "(col_ids dt ! k, t_columns dt ! k) \<in> set (cols_of dt)"
          using k by (auto simp: cols_of_def set_zip)
        then have "col_ti (t_columns dt ! k) = col_ti col" using ty m by (force simp: same_types_def)
        ultimately show ?thesis using mi[OF k] True Some by (simp add: moved_in_def)
      qed
    qed
    then show "table_wf dt'"
      using r(3,4) d(6) dt(2) by (auto simp: table_wf_def col_live_def in_set_conv_nth)
    show "\<forall>col\<in>set (t_columns st'). col_deletable (t_count st - 1) si False col"
    proof
      fix col assume "col \<in> set (t_columns st')"
      then obtain k where k: "k < length (t_columns st)" "col = t_columns st' ! k" using s(6) by (auto simp: in_set_conv_nth)
      have "col_live (t_count st) (t_columns st ! k)" using st(1) k(1) by (simp add: table_wf_def)
      then show "col_deletable (t_count st - 1) si False col"
        using mo[OF k(1)] k(2) st(2) by (auto simp: moved_out_def col_deletable_def col_live_def)
    qed
  qed (use kept left r(14) in \<open>auto simp: all_counted_def row_objects_def\<close>)
qed

lemma delete_view:
  assumes sh: "table_shape t" and row: "row < t_count t"
    and del: "\<forall>col\<in>set (t_columns t). col_deletable (t_count t - 1) row destruct col"
    and ix: "(if row \<noteq> t_count t - 1 then update_moved_record ei tid (the (t_entities t ! (t_count t - 1))) row
              else Inr ei) = Inr ei'"
  obtains t' evs where "flecs_table_delete ei tid t row destruct = Inr (ei', t', evs)" "same_table t t'" "table_wf t'"
    "t_count t' = t_count t - 1"
    "\<forall>i<t_count t - 1. t_entities t' ! i = t_entities t ! (if i = row then t_count t - 1 else i)
       \<and> row_view t' i = row_view t (if i = row then t_count t - 1 else i)"
    "\<forall>c. all_counted c t \<longrightarrow> ev_delta c evs = (if destruct \<or> row \<noteq> t_count t - 1 then - row_objects c t else 0)"
proof -
  note result = that
  obtain t' evs where r: "flecs_table_delete ei tid t row destruct = Inr (ei', t', evs)" "same_table t t'" "table_wf t'"
    "t_count t' = t_count t - 1"
    "\<forall>i<t_count t - 1. t_entities t' ! i = t_entities t ! (if i = row then t_count t - 1 else i)"
    "list_all2 (col_deleted (t_count t - 1) row) (t_columns t) (t_columns t')"
    "\<forall>k<length (t_bs_columns t). bs_list (t_bs_columns t' ! k) = swap_removed row (bs_list (t_bs_columns t ! k))"
    "\<forall>c. (\<forall>col\<in>set (t_columns t). counted c col) \<longrightarrow>
        ev_delta c evs = (if destruct \<or> row \<noteq> t_count t - 1 then - sum_list (map (of_comp c) (t_columns t)) else 0)"
    by (rule table_delete_ok[OF sh row del ix]) blast
  note s = same_tableD[OF r(2)]
  have bc: "bs_count (t_bs_columns t ! k) = t_count t" "bs_count (t_bs_columns t' ! k) = t_count t - 1"
    if "k < length (t_bs_columns t)" for k
    using that table_shapeD(6)[OF sh] r(3,4) s(8) by (simp_all add: bits_ok_def table_wf_def table_shape_def)
  have view: "row_view t' i = row_view t (if i = row then t_count t - 1 else i)" if i: "i < t_count t - 1" for i
  proof (rule row_view_cong[OF r(2)])
    show "col_data (t_columns t' ! k) ! i = col_data (t_columns t ! k) ! (if i = row then t_count t - 1 else i)"
      if "k < length (t_columns t)" for k
      using list_all2_nthD[OF r(6) that] i by (simp add: col_deleted_def)
    fix k assume k: "k < length (t_bs_columns t)"
    have "bs_list (t_bs_columns t' ! k) ! i = swap_removed row (bs_list (t_bs_columns t ! k)) ! i" using r(7) k by simp
    moreover have "bs_list (t_bs_columns t ! k) \<noteq> []" using bc(1)[OF k] row by (metis length_bs_list list.size(3) not_less0)
    ultimately show "bs_bit (t_bs_columns t' ! k) i = bs_bit (t_bs_columns t ! k) (if i = row then t_count t - 1 else i)"
      using bc[OF k] i row by (auto simp: swap_removed_def nth_list_update nth_butlast last_conv_nth)
  qed
  show thesis
    by (rule result[OF r(1-4)]) (use r(5,8) view in \<open>auto simp: all_counted_def row_objects_def\<close>)
qed

end
