(* ===== verification/World_Ops.thy ===== *)
theory World_Ops
  imports World_Rows
begin

text \<open>
  The operations on entities keep the storage consistent and do to the views of the entities what
  their specification says: a new entity gets fresh components, a move between tables carries over
  the components that both tables have, a deletion takes away one entity, and nothing else changes.
\<close>

section \<open>The invariant\<close>

definition place :: "ecs_entity_index \<Rightarrow> nat \<Rightarrow> (nat \<times> nat) option" where
  "place ei n = map_option (\<lambda>tid. (tid, ECS_RECORD_TO_ROW (snd (erow ei n)))) (fst (erow ei n))"

definition row_flags :: "ecs_entity_index \<Rightarrow> nat \<Rightarrow> u32" where
  "row_flags ei n = ECS_RECORD_TO_ROW_FLAGS (snd (erow ei n))"

definition row_of :: "'v ecs_table list \<Rightarrow> nat \<times> nat \<Rightarrow> u64 option" where
  "row_of ts p = (if fst p < length ts \<and> snd p < t_count (ts ! fst p) then t_entities (ts ! fst p) ! snd p else None)"

definition tables_ok :: "('v::zero) ecs_table list \<Rightarrow> bool" where
  "tables_ok ts \<longleftrightarrow> (\<forall>t\<in>set ts. table_wf t \<and> t_count t \<le> 2 ^ 28 \<and> 0 \<notin> set (col_ids t))
     \<and> (\<forall>t\<in>set ts. \<forall>t'\<in>set ts. same_types (cols_of t) (cols_of t'))
     \<and> ts \<noteq> [] \<and> t_columns (ts ! 0) = []"

definition index_ok :: "ecs_entity_index \<Rightarrow> 'v ecs_table list \<Rightarrow> bool" where
  "index_ok ei ts \<longleftrightarrow> ei_alloc_wf ei \<and> consistent (ei_live ei) (row_of ts) (place ei)
     \<and> (\<forall>e\<in>ei_live ei. place ei (low_index e) \<noteq> None)
     \<and> (\<forall>n. n \<notin> low_index ` ei_live ei \<longrightarrow> place ei n = None)"

definition world_wf :: "('v::zero) world \<Rightarrow> bool" where
  "world_wf w \<longleftrightarrow> index_ok (w_index w) (w_tables w) \<and> tables_ok (w_tables w)"

text \<open>
  No entity is traversable, as the tables know, no table forbids the deletion of its entities, and
  nothing is locked by a query. An entity can be deleted without cleanup when it is not used as an
  id, is not the target of a pair and has no components outside its table.
\<close>

definition plain_world :: "'v world \<Rightarrow> bool" where
  "plain_world w \<longleftrightarrow> (\<forall>n. row_flags (w_index w) n AND EcsEntityIsTraversable = 0)
     \<and> (\<forall>t\<in>set (w_tables w). ecs_pair EcsOnDelete EcsPanic \<notin> set (t_type t)
          \<and> t_traversable t = 0 \<and> \<not> table_has t EcsTableHasTraversable)
     \<and> map_wf (w_locked_components w) \<and> map_abs (w_locked_components w) = Map.empty
     \<and> map_wf (w_locked_entities w) \<and> map_abs (w_locked_entities w) = Map.empty"

definition unused_id :: "'v world \<Rightarrow> u64 \<Rightarrow> bool" where
  "unused_id w e \<longleftrightarrow>
     row_flags (w_index w) (low_index e) AND (EcsEntityIsTarget OR EcsEntityIsId OR EcsEntityHasDontFragment) = 0"

definition entity_view :: "'v world \<Rightarrow> u64 \<Rightarrow> 'v entity_view option" where
  "entity_view w e =
     (if e \<in> ei_live (w_index w)
      then map_option (\<lambda>p. row_view (w_tables w ! fst p) (snd p)) (place (w_index w) (low_index e)) else None)"

text \<open>What no operation on entities changes.\<close>

definition same_tables :: "'v ecs_table list \<Rightarrow> 'v ecs_table list \<Rightarrow> bool" where
  "same_tables ts ts' \<longleftrightarrow> list_all2 same_table ts ts'"

definition same_frame :: "'v world \<Rightarrow> 'v world \<Rightarrow> bool" where
  "same_frame w w' \<longleftrightarrow> same_tables (w_tables w) (w_tables w')
     \<and> w_locked_components w' = w_locked_components w \<and> w_locked_entities w' = w_locked_entities w
     \<and> w_quit w' = w_quit w"

lemma same_tables_refl [simp]: "same_tables ts ts"
  by (simp add: same_tables_def list_all2_same)

lemma same_tables_update:
  "tid < length ts \<Longrightarrow> same_table (ts ! tid) t' \<Longrightarrow> same_tables ts (ts[tid := t'])"
  unfolding same_tables_def by (auto simp: list_all2_conv_all_nth nth_list_update)

lemma same_tables_trans: "same_tables ts ts' \<Longrightarrow> same_tables ts' ts'' \<Longrightarrow> same_tables ts ts''"
  unfolding same_tables_def by (rule list_all2_trans[of same_table same_table same_table]) (auto intro: same_table_trans)

lemma same_types_col_types:
  "same_types (cols_of t) (cols_of t') \<longleftrightarrow> (\<forall>p\<in>set (col_types t). \<forall>q\<in>set (col_types t'). fst p = fst q \<longrightarrow> snd p = snd q)"
  by (fastforce simp: same_types_def cols_of_def col_types_def set_zip)

lemma tables_ok_update:
  assumes ok: "tables_ok ts" and st: "same_tables ts ts'"
    and wf: "\<And>k. k < length ts \<Longrightarrow> table_wf (ts' ! k) \<and> t_count (ts' ! k) \<le> 2 ^ 28"
  shows "tables_ok ts'"
proof -
  have l: "length ts' = length ts" using st by (auto simp: same_tables_def dest: list_all2_lengthD)
  have s: "same_table (ts ! k) (ts' ! k)" if "k < length ts" for k
    using st that by (simp add: same_tables_def list_all2_nthD)
  have p: "0 \<notin> set (col_ids t)" "\<exists>t0\<in>set ts. col_types t = col_types t0" if t: "t \<in> set ts'" for t
  proof -
    obtain k where k: "k < length ts" "t = ts' ! k" using t l by (auto simp: in_set_conv_nth)
    then have "ts ! k \<in> set ts" by simp
    then show "0 \<notin> set (col_ids t)" "\<exists>t0\<in>set ts. col_types t = col_types t0"
      using ok same_table_ids(1)[OF s[OF k(1)]] same_table_col_types(1)[OF s[OF k(1)]] k(2)
      by (auto simp: tables_ok_def)
  qed
  have c: "\<forall>t\<in>set ts'. \<forall>t'\<in>set ts'. same_types (cols_of t) (cols_of t')"
  proof (intro ballI)
    fix t t' assume "t \<in> set ts'" "t' \<in> set ts'"
    then obtain t0 t0' where "t0 \<in> set ts" "t0' \<in> set ts" "col_types t = col_types t0" "col_types t' = col_types t0'"
      using p(2) by meson
    then show "same_types (cols_of t) (cols_of t')"
      using ok unfolding tables_ok_def same_types_col_types by metis
  qed
  have "ts' \<noteq> []" "t_columns (ts' ! 0) = []"
    using ok l same_tableD(6)[OF s[of 0]] by (auto simp: tables_ok_def)
  then show ?thesis using p(1) c wf l by (auto simp: tables_ok_def in_set_conv_nth)
qed

section \<open>Records\<close>

lemma erow_with_record:
  "ehas (ei_pages ei) (low_index e) \<Longrightarrow> erow (with_record ei e r) = (erow ei)(low_index e := (r_table r, r_row r))"
  by (auto simp: erow_def with_record_fields fun_eq_iff)

lemma live_record:
  assumes "ei_alloc_wf ei" "e \<in> ei_live ei"
  obtains r where "rec_get ei e = Inr r" "flecs_entity_index_get ei e = Inr r"
    "flecs_entity_index_try_get ei e = Inr (Some r)" "ehas (ei_pages ei) (low_index e)"
    "r = erec (ei_pages ei) (low_index e)" "erow ei (low_index e) = (r_table r, r_row r)"
proof -
  have "ei_wf ei" using assms(1) by (simp add: ei_alloc_wf_def)
  note g = index_get_live[OF this assms(2)]
  show thesis by (rule that[OF rec_get_eq[OF g(3)] g(1,2,3)]) (simp_all add: erow_def)
qed

text \<open>Writing a record: \<open>tid\<close> and \<open>row\<close> become the place of the entity.\<close>

lemma rec_set_place:
  assumes wf: "ei_alloc_wf ei" and e: "e \<in> ei_live ei" and row: "row < 2 ^ 28" and r: "rec_get ei e = Inr r"
    and r': "r_table r' = Some tid" "r_row r' = ECS_ROW_TO_RECORD row (r_row r AND ECS_ROW_FLAGS_MASK)" "r_dense r' = r_dense r"
  obtains ei' where "rec_set ei e r' = Inr ei'" "ei_alloc_wf ei'" "ei_live ei' = ei_live ei"
    "place ei' = (place ei)(low_index e \<mapsto> (tid, row))" "row_flags ei' = row_flags ei"
    "\<forall>n. n \<noteq> low_index e \<longrightarrow> erow ei' n = erow ei n"
proof -
  obtain r0 where r0: "rec_get ei e = Inr r0" "ehas (ei_pages ei) (low_index e)" "r0 = erec (ei_pages ei) (low_index e)"
    "erow ei (low_index e) = (r_table r0, r_row r0)" using live_record[OF wf e] by metis
  then have req: "r = r0" using r by simp
  have d: "r_dense r' = eslot (ei_pages ei) (low_index e)" using r'(3) req r0(3) by simp
  note er = erow_with_record[OF r0(2), of r']
  show thesis
  proof (rule that[of "with_record ei e r'"])
    show "place (with_record ei e r') = (place ei)(low_index e \<mapsto> (tid, row))"
      unfolding place_def er using r'(1,2) row_record(1)[OF row] by (auto simp: fun_eq_iff)
    show "row_flags (with_record ei e r') = row_flags ei"
      unfolding row_flags_def er using r'(1,2) row_record(2)[OF row] req r0(4) by (auto simp: fun_eq_iff)
    show "\<forall>n. n \<noteq> low_index e \<longrightarrow> erow (with_record ei e r') n = erow ei n" unfolding er by simp
  qed (use with_record_fields(1)[OF r0(2)] with_record_wf[OF wf r0(2) d] in simp_all)
qed

lemma w_place_ok:
  assumes "ei_alloc_wf (w_index w)" "e \<in> ei_live (w_index w)" "row < 2 ^ 28"
  obtains ei' where "w_place w e tid row = Inr (w\<lparr>w_index := ei'\<rparr>)" "ei_alloc_wf ei'" "ei_live ei' = ei_live (w_index w)"
    "place ei' = (place (w_index w))(low_index e \<mapsto> (tid, row))" "row_flags ei' = row_flags (w_index w)"
    "\<forall>n. n \<noteq> low_index e \<longrightarrow> erow ei' n = erow (w_index w) n"
proof -
  note result = that
  obtain r where r: "rec_get (w_index w) e = Inr r" using live_record[OF assms(1,2)] by metis
  obtain ei' where e': "rec_set (w_index w) e (r\<lparr>r_table := Some tid, r_row := ECS_ROW_TO_RECORD row (r_row r AND ECS_ROW_FLAGS_MASK)\<rparr>) = Inr ei'"
    "ei_alloc_wf ei'" "ei_live ei' = ei_live (w_index w)"
    "place ei' = (place (w_index w))(low_index e \<mapsto> (tid, row))" "row_flags ei' = row_flags (w_index w)"
    "\<forall>n. n \<noteq> low_index e \<longrightarrow> erow ei' n = erow (w_index w) n"
    by (rule rec_set_place[OF assms r, where tid = tid and
          r' = "r\<lparr>r_table := Some tid, r_row := ECS_ROW_TO_RECORD row (r_row r AND ECS_ROW_FLAGS_MASK)\<rparr>"]) simp_all
  show thesis by (rule result[OF _ e'(2-6)]) (simp add: w_place_def w_record_def r e'(1))
qed

lemma update_moved_ok:
  assumes wf: "ei_alloc_wf ei" and y: "y \<in> ei_live ei" "place ei (low_index y) = Some (tid, l)" and row: "row < 2 ^ 28"
  obtains ei' where "update_moved_record ei tid y row = Inr ei'" "ei_alloc_wf ei'" "ei_live ei' = ei_live ei"
    "place ei' = (place ei)(low_index y \<mapsto> (tid, row))" "row_flags ei' = row_flags ei"
    "\<forall>n. n \<noteq> low_index y \<longrightarrow> erow ei' n = erow ei n"
proof -
  note result = that
  obtain r where r: "rec_get ei y = Inr r" "flecs_entity_index_get ei y = Inr r" "erow ei (low_index y) = (r_table r, r_row r)"
    using live_record[OF wf y(1)] by metis
  have t: "r_table r = Some tid" using y(2) r(3) by (auto simp: place_def)
  obtain ei' where e': "rec_set ei y (r\<lparr>r_row := ECS_ROW_TO_RECORD row (r_row r AND ECS_ROW_FLAGS_MASK)\<rparr>) = Inr ei'"
    "ei_alloc_wf ei'" "ei_live ei' = ei_live ei"
    "place ei' = (place ei)(low_index y \<mapsto> (tid, row))" "row_flags ei' = row_flags ei"
    "\<forall>n. n \<noteq> low_index y \<longrightarrow> erow ei' n = erow ei n"
    by (rule rec_set_place[OF wf y(1) row r(1), where tid = tid and
          r' = "r\<lparr>r_row := ECS_ROW_TO_RECORD row (r_row r AND ECS_ROW_FLAGS_MASK)\<rparr>"]) (simp_all add: t)
  show thesis by (rule result[OF _ e'(2-6)]) (simp add: update_moved_record_def r(2) t e'(1) Let_def)
qed

section \<open>The table operations in the world\<close>

lemma row_of_Some:
  "row_of ts (tid, i) = Some e \<longleftrightarrow> tid < length ts \<and> i < t_count (ts ! tid) \<and> t_entities (ts ! tid) ! i = Some e"
  by (auto simp: row_of_def)

definition world_objects :: "u64 \<Rightarrow> 'v ecs_table list \<Rightarrow> int" where
  "world_objects c ts = sum_list (map (\<lambda>t. int (t_count t) * row_objects c t) ts)"

lemma sum_list_int_update:
  "k < length xs \<Longrightarrow> sum_list (xs[k := x]) = sum_list xs + x - xs ! k" for x :: int
  by (induction xs arbitrary: k) (auto split: nat.split)

lemma world_objects_update:
  assumes "tid < length ts"
  shows "world_objects c (ts[tid := t']) = world_objects c ts
    + int (t_count t') * row_objects c t' - int (t_count (ts ! tid)) * row_objects c (ts ! tid)"
  unfolding world_objects_def map_update
  using assms by (simp add: sum_list_int_update)

abbreviation position_view :: "'v ecs_table list \<Rightarrow> nat \<times> nat \<Rightarrow> 'v entity_view" where
  "position_view ts p \<equiv> row_view (ts ! fst p) (snd p)"

lemma world_append_ok:
  assumes ok: "tables_ok (w_tables w)" and tid: "tid < length (w_tables w)" "t_count (w_tables w ! tid) < 2 ^ 28"
  obtains t' evs where "table_append w tid e construct on_add
      = Inr (w\<lparr>w_tables := (w_tables w)[tid := t']\<rparr>, t_count (w_tables w ! tid), evs)"
    "same_table (w_tables w ! tid) t'" "t_count t' = t_count (w_tables w ! tid) + 1" "table_shape t'"
    "row_of ((w_tables w)[tid := t']) = (row_of (w_tables w))((tid, t_count (w_tables w ! tid)) \<mapsto> e)"
    "\<forall>p. p \<noteq> (tid, t_count (w_tables w ! tid)) \<and> row_of (w_tables w) p \<noteq> None \<longrightarrow>
        position_view ((w_tables w)[tid := t']) p = position_view (w_tables w) p"
    "\<forall>col\<in>set (t_columns t'). col_live (t_count (w_tables w ! tid)) col"
    "\<forall>k<length (t_bs_columns t'). bs_bit (t_bs_columns t' ! k) (t_count (w_tables w ! tid)) = False"
    "construct \<Longrightarrow> table_wf t' \<and> view_moved t' empty_view (row_view t' (t_count (w_tables w ! tid)))"
    "\<forall>c. all_counted c (w_tables w ! tid) \<longrightarrow> ev_delta c evs = (if construct then row_objects c t' else 0)"
proof -
  note result = that
  let ?t = "w_tables w ! tid"
  have wf: "table_wf ?t" using ok tid by (simp add: tables_ok_def)
  obtain t' evs where r: "flecs_table_append ?t e construct on_add = Inr (t', evs)" "same_table ?t t'" "table_shape t'"
    "t_count t' = t_count ?t + 1" "t_entities t' ! t_count ?t = Some e"
    "\<forall>i<t_count ?t. t_entities t' ! i = t_entities ?t ! i \<and> row_view t' i = row_view ?t i"
    "\<forall>col\<in>set (t_columns t'). col_live (t_count ?t) col"
    "\<forall>k<length (t_bs_columns t'). bs_bit (t_bs_columns t' ! k) (t_count ?t) = False"
    "construct \<Longrightarrow> table_wf t' \<and> view_moved t' empty_view (row_view t' (t_count ?t))"
    "\<forall>c. all_counted c ?t \<longrightarrow> ev_delta c evs = (if construct then row_objects c ?t else 0)"
    by (rule append_view[OF wf tid(2), where e = e and construct = construct and on_add = on_add]) blast
  show thesis
  proof (rule result[OF _ r(2,4,3) _ _ r(7,8,9)])
    show "row_of ((w_tables w)[tid := t']) = (row_of (w_tables w))((tid, t_count ?t) \<mapsto> e)"
      using r(4,5,6) tid(1) by (auto simp: row_of_def fun_eq_iff nth_list_update less_Suc_eq)
  qed (use r tid in \<open>auto simp: table_append_def row_of_def nth_list_update same_table_col_types split: if_splits\<close>)
qed

text \<open>
  Deleting the row of \<open>x\<close>, where the record of \<open>x\<close> may already be gone: \<open>y\<close> is in the last row.
\<close>

lemma world_delete_ok:
  assumes t: "tid < length (w_tables w)" "table_shape (w_tables w ! tid)"
    and row: "row < t_count (w_tables w ! tid)" "row < 2 ^ 28"
    and del: "\<forall>col\<in>set (t_columns (w_tables w ! tid)). col_deletable (t_count (w_tables w ! tid) - 1) row destruct col"
    and y: "row_of (w_tables w) (tid, t_count (w_tables w ! tid) - 1) = Some y"
    and wf: "ei_alloc_wf (w_index w)"
    and ly: "row \<noteq> t_count (w_tables w ! tid) - 1 \<Longrightarrow> y \<in> ei_live (w_index w)
      \<and> place (w_index w) (low_index y) = Some (tid, t_count (w_tables w ! tid) - 1)"
  obtains ei' t' evs where "table_delete w tid row destruct = Inr (w\<lparr>w_index := ei', w_tables := (w_tables w)[tid := t']\<rparr>, evs)"
    "same_table (w_tables w ! tid) t'" "table_wf t'" "t_count t' = t_count (w_tables w ! tid) - 1"
    "ei_alloc_wf ei'" "ei_live ei' = ei_live (w_index w)" "row_flags ei' = row_flags (w_index w)"
    "place ei' = filled (place (w_index w)) (tid, row) (tid, t_count (w_tables w ! tid) - 1) y"
    "row_of ((w_tables w)[tid := t']) = fill (row_of (w_tables w)) (tid, row) (tid, t_count (w_tables w ! tid) - 1)"
    "\<forall>p. row_of ((w_tables w)[tid := t']) p \<noteq> None \<longrightarrow> position_view ((w_tables w)[tid := t']) p
        = position_view (w_tables w) (if p = (tid, row) then (tid, t_count (w_tables w ! tid) - 1) else p)"
    "\<forall>c. all_counted c (w_tables w ! tid) \<longrightarrow>
        ev_delta c evs = (if destruct \<or> row \<noteq> t_count (w_tables w ! tid) - 1 then - row_objects c t' else 0)"
proof -
  note result = that
  let ?t = "w_tables w ! tid" and ?ei = "w_index w"
  define n where "n = t_count ?t - 1"
  have ey: "t_entities ?t ! n = Some y" using y unfolding n_def[symmetric] row_of_Some by simp
  have n: "t_count ?t = Suc n" "row \<le> n" using row(1) by (auto simp: n_def)
  obtain ei' where e': "(if row \<noteq> t_count ?t - 1 then update_moved_record ?ei tid (the (t_entities ?t ! (t_count ?t - 1))) row
              else Inr ?ei) = Inr ei'"
    "ei_alloc_wf ei'" "ei_live ei' = ei_live ?ei" "place ei' = filled (place ?ei) (tid, row) (tid, n) y"
    "row_flags ei' = row_flags ?ei"
  proof (cases "row = n")
    case True
    then show thesis using wf by (intro that[of ?ei]) (simp_all add: n_def filled_def)
  next
    case False
    have l: "y \<in> ei_live ?ei" "place ?ei (low_index y) = Some (tid, n)" using ly False by (simp_all add: n_def)
    obtain ei' where u: "update_moved_record ?ei tid y row = Inr ei'" "ei_alloc_wf ei'" "ei_live ei' = ei_live ?ei"
      "place ei' = (place ?ei)(low_index y \<mapsto> (tid, row))" "row_flags ei' = row_flags ?ei"
      "\<forall>n. n \<noteq> low_index y \<longrightarrow> erow ei' n = erow ?ei n"
      by (rule update_moved_ok[OF wf l row(2)])
    then show thesis
      using u False ey n(1) by (intro that[of ei']) (simp_all add: filled_def)
  qed
  obtain t' evs where r: "flecs_table_delete ?ei tid ?t row destruct = Inr (ei', t', evs)" "same_table ?t t'" "table_wf t'"
    "t_count t' = t_count ?t - 1"
    "\<forall>i<t_count ?t - 1. t_entities t' ! i = t_entities ?t ! (if i = row then t_count ?t - 1 else i)
       \<and> row_view t' i = row_view ?t (if i = row then t_count ?t - 1 else i)"
    "\<forall>c. all_counted c ?t \<longrightarrow> ev_delta c evs = (if destruct \<or> row \<noteq> t_count ?t - 1 then - row_objects c ?t else 0)"
    by (rule delete_view[OF t(2) row(1) del e'(1)]) blast
  have ro: "row_of ((w_tables w)[tid := t']) p = fill (row_of (w_tables w)) (tid, row) (tid, n) p" for p
  proof (cases "fst p = tid")
    case True
    then obtain i where p: "p = (tid, i)" by (metis prod.collapse)
    show ?thesis using r(4,5) n t(1) unfolding p by (auto simp: row_of_def fill_def n_def[symmetric])
  next
    case False
    then show ?thesis using t(1) by (cases p) (auto simp: row_of_def fill_def)
  qed
  show thesis
  proof (rule result[OF _ r(2,3,4) e'(2,3,5) _ _ ])
    show "table_delete w tid row destruct = Inr (w\<lparr>w_index := ei', w_tables := (w_tables w)[tid := t']\<rparr>, evs)"
      using t(1) r(1) by (simp add: table_delete_def)
    show "place ei' = filled (place ?ei) (tid, row) (tid, t_count ?t - 1) y" using e'(4) by (simp add: n_def)
    show "row_of ((w_tables w)[tid := t']) = fill (row_of (w_tables w)) (tid, row) (tid, t_count ?t - 1)"
      using ro by (auto simp: n_def)
    show "\<forall>p. row_of ((w_tables w)[tid := t']) p \<noteq> None \<longrightarrow> position_view ((w_tables w)[tid := t']) p
        = position_view (w_tables w) (if p = (tid, row) then (tid, t_count ?t - 1) else p)"
      using r(4,5) t(1) by (auto simp: row_of_def nth_list_update split: if_splits)
  qed (use r(2,6) in \<open>simp add: same_table_col_types\<close>)
qed

section \<open>The operations on entities\<close>

lemma view_moved_same: "same_table t t' \<Longrightarrow> view_moved t' v v' = view_moved t v v'"
  by (simp add: view_moved_def same_tableD(1) same_table_ids(1) same_table_col_types(1))

lemma index_okD:
  assumes "index_ok ei ts"
  shows "ei_alloc_wf ei" "consistent (ei_live ei) (row_of ts) (place ei)" "\<forall>e\<in>ei_live ei. place ei (low_index e) \<noteq> None"
    "\<And>n. n \<notin> low_index ` ei_live ei \<Longrightarrow> place ei n = None"
    "\<And>e. e \<in> ei_live ei \<Longrightarrow> \<exists>p. place ei (low_index e) = Some p \<and> row_of ts p = Some e"
    "\<And>e e'. e \<in> ei_live ei \<Longrightarrow> e' \<in> ei_live ei \<Longrightarrow> low_index e = low_index e' \<longleftrightarrow> e = e'"
proof -
  show c: "consistent (ei_live ei) (row_of ts) (place ei)" "\<forall>e\<in>ei_live ei. place ei (low_index e) \<noteq> None"
    using assms by (simp_all add: index_ok_def)
  show "\<exists>p. place ei (low_index e) = Some p \<and> row_of ts p = Some e" if e: "e \<in> ei_live ei" for e
    using c e by (auto simp: consistent_def)
  show "low_index e = low_index e' \<longleftrightarrow> e = e'" if "e \<in> ei_live ei" "e' \<in> ei_live ei" for e e'
    using consistent_inj[OF c] that by (auto dest: inj_onD)
qed (use assms in \<open>simp_all add: index_ok_def\<close>)

lemma index_ok_add:
  assumes ok: "index_ok ei ts" and e: "low_index e \<notin> low_index ` ei_live ei" and free: "row_of ts p = None"
    and n: "ei_alloc_wf ei'" "ei_live ei' = insert e (ei_live ei)" "place ei' = (place ei)(low_index e \<mapsto> p)"
      "row_of ts' = (row_of ts)(p \<mapsto> e)"
  shows "index_ok ei' ts'"
  using consistent_add[OF index_okD(2)[OF ok] free e] index_okD(3,4)[OF ok] n
  by (auto simp: index_ok_def)

text \<open>The views when an entity comes to a new place, or moves there, and all others keep their view.\<close>

lemma new_views:
  assumes ok: "index_ok (w_index w) (w_tables w)" and e: "low_index e \<notin> low_index ` ei_live (w_index w)"
    and n: "ei_live (w_index w') = insert e (ei_live (w_index w))"
      "place (w_index w') = (place (w_index w))(low_index e \<mapsto> p)"
    and v: "\<forall>q. q \<noteq> p \<and> row_of (w_tables w) q \<noteq> None \<longrightarrow> position_view (w_tables w') q = position_view (w_tables w) q"
    and free: "row_of (w_tables w) p = None"
  shows "entity_view w' = (entity_view w)(e \<mapsto> position_view (w_tables w') p)"
proof
  fix x
  show "entity_view w' x = ((entity_view w)(e \<mapsto> position_view (w_tables w') p)) x"
  proof (cases "x \<in> ei_live (w_index w)")
    case True
    then obtain q where q: "place (w_index w) (low_index x) = Some q" "row_of (w_tables w) q = Some x"
      using index_okD(5)[OF ok] by blast
    have ne: "low_index x \<noteq> low_index e" using True e by (metis imageI)
    moreover have "position_view (w_tables w') q = position_view (w_tables w) q"
      using v[THEN spec, of q] free q(2) by auto
    ultimately show ?thesis using True n q by (auto simp: entity_view_def)
  next
    case False
    then show ?thesis using n by (auto simp: entity_view_def)
  qed
qed

lemma new_id_live:
  assumes ok: "index_ok ei ts" and c: "card (ei_live ei) < 2 ^ 32 - 1"
  obtains ei' e where "flecs_new_id ei = Inr (ei', e)" "ei_alloc_wf ei'" "ei_live ei' = insert e (ei_live ei)"
    "low_index e \<notin> low_index ` ei_live ei" "place ei' = place ei" "place ei (low_index e) = None" "row_flags ei' = row_flags ei"
proof -
  obtain ei' e where n: "flecs_new_id ei = Inr (ei', e)" "ei_alloc_wf ei'" "low_index e \<notin> low_index ` ei_live ei"
    "ei_live ei' = insert e (ei_live ei)"
    using entity_alloc_new[OF index_okD(1)[OF ok] c] by blast
  have "erow ei' = erow ei" by (rule new_id_rows[OF n(1)])
  then have "place ei' = place ei" "row_flags ei' = row_flags ei" by (simp_all add: place_def row_flags_def fun_eq_iff)
  then show thesis using n index_okD(4)[OF ok n(3)] by (intro that[of ei' e]) simp_all
qed

lemma row_of_end: "row_of ts (tid, t_count (ts ! tid)) = None"
  by (simp add: row_of_def)

text \<open>What both ways of creating an entity end with: \<open>t'\<close> is table \<open>tid\<close> with one more row.\<close>

lemma entity_added:
  assumes wf: "world_wf w" and tid: "tid < length (w_tables w)" "t_count (w_tables w ! tid) < 2 ^ 28"
    and e: "low_index e \<notin> low_index ` ei_live (w_index w)"
    and ei: "ei_alloc_wf ei'" "ei_live ei' = insert e (ei_live (w_index w))"
      "place ei' = (place (w_index w))(low_index e \<mapsto> (tid, t_count (w_tables w ! tid)))"
    and t: "same_table (w_tables w ! tid) t'" "t_count t' = t_count (w_tables w ! tid) + 1" "table_wf t'"
      "row_of ((w_tables w)[tid := t']) = (row_of (w_tables w))((tid, t_count (w_tables w ! tid)) \<mapsto> e)"
      "\<forall>p. p \<noteq> (tid, t_count (w_tables w ! tid)) \<and> row_of (w_tables w) p \<noteq> None \<longrightarrow>
        position_view ((w_tables w)[tid := t']) p = position_view (w_tables w) p"
    and w': "w' = w\<lparr>w_index := ei', w_tables := (w_tables w)[tid := t']\<rparr>"
  shows "world_wf w'" "same_frame w w'"
    "entity_view w' = (entity_view w)(e \<mapsto> row_view t' (t_count (w_tables w ! tid)))"
    "world_objects c (w_tables w') - world_objects c (w_tables w) = row_objects c t'"
proof -
  have ix: "index_ok (w_index w) (w_tables w)" and ok: "tables_ok (w_tables w)" using wf by (simp_all add: world_wf_def)
  have w2: "w_index w' = ei'" "w_tables w' = (w_tables w)[tid := t']" by (simp_all add: w')
  have st: "same_tables (w_tables w) (w_tables w')" unfolding w2 by (rule same_tables_update[OF tid(1) t(1)])
  then show "same_frame w w'" by (simp add: same_frame_def w')
  have "index_ok (w_index w') (w_tables w')"
    unfolding w2 by (rule index_ok_add[OF ix e row_of_end ei t(4)])
  moreover have "tables_ok (w_tables w')"
    using ok t(2,3) tid by (intro tables_ok_update[OF ok st]) (auto simp: w2 nth_list_update tables_ok_def)
  ultimately show "world_wf w'" by (simp add: world_wf_def)
  show "entity_view w' = (entity_view w)(e \<mapsto> row_view t' (t_count (w_tables w ! tid)))"
    using new_views[of w e w' "(tid, t_count (w_tables w ! tid))", OF ix e _ _ _ row_of_end] ei(2,3) t(5) tid(1) by (simp add: w2)
  show "world_objects c (w_tables w') - world_objects c (w_tables w) = row_objects c t'"
    using same_table_col_types(2)[OF t(1), of c]
    by (simp add: w2 world_objects_update[OF tid(1)] t(2) distrib_right)
qed

lemma ecs_new_w_table_ok:
  assumes wf: "world_wf w" and tid: "tid < length (w_tables w)" "t_count (w_tables w ! tid) < 2 ^ 28"
    and c: "card (ei_live (w_index w)) < 2 ^ 32 - 1"
  obtains w' e evs v where "ecs_new_w_table w tid = Inr (w', e, evs)" "world_wf w'" "same_frame w w'"
    "row_flags (w_index w') = row_flags (w_index w)" "low_index e \<notin> low_index ` ei_live (w_index w)"
    "entity_view w' = (entity_view w)(e \<mapsto> v)" "view_moved (w_tables w ! tid) empty_view v"
    "ei_live (w_index w') = insert e (ei_live (w_index w))"
    "\<forall>c. all_counted c (w_tables w ! tid) \<longrightarrow>
        ev_delta c evs = world_objects c (w_tables w') - world_objects c (w_tables w)"
proof -
  note result = that
  have ix: "index_ok (w_index w) (w_tables w)" and ok: "tables_ok (w_tables w)" using wf by (simp_all add: world_wf_def)
  define n where "n = t_count (w_tables w ! tid)"
  have n28: "n < 2 ^ 28" using tid(2) by (simp add: n_def)
  obtain ei1 e where n: "flecs_new_id (w_index w) = Inr (ei1, e)" "ei_alloc_wf ei1" "ei_live ei1 = insert e (ei_live (w_index w))"
    "low_index e \<notin> low_index ` ei_live (w_index w)" "place ei1 = place (w_index w)" "row_flags ei1 = row_flags (w_index w)"
    by (rule new_id_live[OF ix c]) blast
  have e1: "e \<in> ei_live ei1" by (simp add: n(3))
  obtain r where r: "rec_get ei1 e = Inr r" "flecs_entity_index_get ei1 e = Inr r" "ehas (ei_pages ei1) (low_index e)"
    "r = erec (ei_pages ei1) (low_index e)" "erow ei1 (low_index e) = (r_table r, r_row r)"
    using live_record[OF n(2) e1] by metis
  define ei2 where "ei2 = with_record ei1 e (r\<lparr>r_table := Some 0\<rparr>)"
  have d: "r_dense (r\<lparr>r_table := Some 0\<rparr>) = eslot (ei_pages ei1) (low_index e)" using r(4) by simp
  have s2: "rec_set ei1 e (r\<lparr>r_table := Some 0\<rparr>) = Inr ei2" "ei_alloc_wf ei2" "ei_live ei2 = ei_live ei1"
    unfolding ei2_def using with_record_fields(1)[OF r(3)] with_record_wf[OF n(2) r(3) d] by simp_all
  have er2: "erow ei2 = (erow ei1)(low_index e := (Some 0, r_row r))"
    unfolding ei2_def using erow_with_record[OF r(3), of "r\<lparr>r_table := Some 0\<rparr>"] by simp
  have f2: "row_flags ei2 = row_flags ei1" "\<And>m. m \<noteq> low_index e \<Longrightarrow> place ei2 m = place ei1 m"
    unfolding row_flags_def place_def er2 using r(5) by (auto simp: fun_eq_iff)
  let ?w2 = "w\<lparr>w_index := ei2\<rparr>"
  obtain t' e1 where a: "table_append ?w2 tid e True True = Inr (?w2\<lparr>w_tables := (w_tables w)[tid := t']\<rparr>, n, e1)"
    "same_table (w_tables w ! tid) t'" "t_count t' = n + 1" "table_shape t'"
    "row_of ((w_tables w)[tid := t']) = (row_of (w_tables w))((tid, n) \<mapsto> e)"
    "\<forall>p. p \<noteq> (tid, n) \<and> row_of (w_tables w) p \<noteq> None \<longrightarrow>
        position_view ((w_tables w)[tid := t']) p = position_view (w_tables w) p"
    "table_wf t' \<and> view_moved t' empty_view (row_view t' n)"
    "\<forall>c. all_counted c (w_tables w ! tid) \<longrightarrow> ev_delta c e1 = row_objects c t'"
    by (rule world_append_ok[of ?w2 tid, where e = e and construct = True and on_add = True])
      (use ok tid in \<open>simp_all add: n_def\<close>)
  let ?w3 = "?w2\<lparr>w_tables := (w_tables w)[tid := t']\<rparr>"
  obtain ei3 where p: "w_place ?w3 e tid n = Inr (?w3\<lparr>w_index := ei3\<rparr>)" "ei_alloc_wf ei3" "ei_live ei3 = ei_live ei2"
    "place ei3 = (place ei2)(low_index e \<mapsto> (tid, n))" "row_flags ei3 = row_flags ei2"
    by (rule w_place_ok[of ?w3 e n tid]) (use s2 e1 n28 in simp_all)
  define w' where "w' = w\<lparr>w_index := ei3, w_tables := (w_tables w)[tid := t']\<rparr>"
  have pl: "place ei3 = (place (w_index w))(low_index e \<mapsto> (tid, n))"
    using p(4) f2(2) n(5) by (auto simp: fun_eq_iff)
  have lv: "ei_live ei3 = insert e (ei_live (w_index w))" using p(3) s2(3) n(3) by simp
  note fin = entity_added[OF wf tid n(4) p(2) lv, unfolded n_def[symmetric], OF pl a(2,3) conjunct1[OF a(7)] a(5,6) w'_def]
  have run: "ecs_new_w_table w tid = Inr (w', e, e1 @ [Ev_actions_new tid n])"
    using n(1) r(1,2) s2(1) a(1,3) p(1) tid(1)
    by (simp add: ecs_new_w_table_def flecs_new_entity_def w_record_def w'_def)
  show thesis
  proof (rule result[OF run fin(1,2) _ n(4) fin(3)])
    show "view_moved (w_tables w ! tid) empty_view (row_view t' n)" using a(2,7) view_moved_same by blast
    show "\<forall>c. all_counted c (w_tables w ! tid) \<longrightarrow>
        ev_delta c (e1 @ [Ev_actions_new tid n]) = world_objects c (w_tables w') - world_objects c (w_tables w)"
      using a(8) fin(4) by simp
  qed (use p(5) f2(1) n(6) lv in \<open>simp_all add: w'_def\<close>)
qed

lemma ecs_new_ok:
  assumes wf: "world_wf w" and room: "t_count (w_tables w ! 0) < 2 ^ 28"
    and c: "card (ei_live (w_index w)) < 2 ^ 32 - 1"
  obtains w' e evs v where "ecs_new w = Inr (w', e, evs)" "world_wf w'" "same_frame w w'"
    "row_flags (w_index w') = row_flags (w_index w)" "low_index e \<notin> low_index ` ei_live (w_index w)"
    "entity_view w' = (entity_view w)(e \<mapsto> v)" "view_moved (w_tables w ! 0) empty_view v"
    "ei_live (w_index w') = insert e (ei_live (w_index w))"
    "\<forall>c. ev_delta c evs = world_objects c (w_tables w') - world_objects c (w_tables w)"
proof -
  note result = that
  have ix: "index_ok (w_index w) (w_tables w)" and ok: "tables_ok (w_tables w)" using wf by (simp_all add: world_wf_def)
  then have root: "0 < length (w_tables w)" "t_columns (w_tables w ! 0) = []" by (simp_all add: tables_ok_def)
  define n where "n = t_count (w_tables w ! 0)"
  have n28: "n < 2 ^ 28" using room by (simp add: n_def)
  obtain ei1 e where n: "flecs_new_id (w_index w) = Inr (ei1, e)" "ei_alloc_wf ei1" "ei_live ei1 = insert e (ei_live (w_index w))"
    "low_index e \<notin> low_index ` ei_live (w_index w)" "place ei1 = place (w_index w)" "place (w_index w) (low_index e) = None"
    "row_flags ei1 = row_flags (w_index w)"
    by (rule new_id_live[OF ix c])
  have e1: "e \<in> ei_live ei1" by (simp add: n(3))
  obtain r where r: "flecs_entity_index_get ei1 e = Inr r" "erow ei1 (low_index e) = (r_table r, r_row r)"
    using live_record[OF n(2) e1] by metis
  have "place ei1 (low_index e) = None" using n(5,6) by simp
  then have none: "r_table r = None" using r(2) by (simp add: place_def)
  let ?w2 = "w\<lparr>w_index := ei1\<rparr>"
  obtain t' evs where a: "table_append ?w2 0 e False False = Inr (?w2\<lparr>w_tables := (w_tables w)[0 := t']\<rparr>, n, evs)"
    "same_table (w_tables w ! 0) t'" "t_count t' = n + 1" "table_shape t'"
    "row_of ((w_tables w)[0 := t']) = (row_of (w_tables w))((0, n) \<mapsto> e)"
    "\<forall>p. p \<noteq> (0, n) \<and> row_of (w_tables w) p \<noteq> None \<longrightarrow>
        position_view ((w_tables w)[0 := t']) p = position_view (w_tables w) p"
    "\<forall>k<length (t_bs_columns t'). bs_bit (t_bs_columns t' ! k) n = False"
    "\<forall>c. all_counted c (w_tables w ! 0) \<longrightarrow> ev_delta c evs = 0"
    by (rule world_append_ok[of ?w2 0, where e = e and construct = False and on_add = False])
      (use ok root room in \<open>simp_all add: n_def\<close>)
  let ?w3 = "?w2\<lparr>w_tables := (w_tables w)[0 := t']\<rparr>"
  obtain ei3 where p: "w_place ?w3 e 0 n = Inr (?w3\<lparr>w_index := ei3\<rparr>)" "ei_alloc_wf ei3" "ei_live ei3 = ei_live ei1"
    "place ei3 = (place ei1)(low_index e \<mapsto> (0, n))" "row_flags ei3 = row_flags ei1"
    by (rule w_place_ok[of ?w3 e n 0]) (use n(2) e1 n28 in simp_all)
  define w' where "w' = w\<lparr>w_index := ei3, w_tables := (w_tables w)[0 := t']\<rparr>"
  have cols: "t_columns t' = []" using same_tableD(6)[OF a(2)] root(2) by simp
  then have twf: "table_wf t'" using a(4) by (simp add: table_wf_def)
  have pl: "place ei3 = (place (w_index w))(low_index e \<mapsto> (0, n))" using p(4) n(5) by simp
  have lv: "ei_live ei3 = insert e (ei_live (w_index w))" using p(3) n(3) by simp
  note fin = entity_added[OF wf root(1) room n(4) p(2) lv, unfolded n_def[symmetric], OF pl a(2,3) twf a(5,6) w'_def]
  have run: "ecs_new w = Inr (w', e, evs)"
    using n(1) r(1) none a(1) p(1) by (simp add: ecs_new_def flecs_add_to_root_table_def w'_def)
  show thesis
  proof (rule result[OF run fin(1,2) _ n(4) fin(3)])
    have "view_moved t' empty_view (row_view t' n)"
      by (rule view_movedI[OF a(4)]) (use cols a(7) in \<open>auto simp: empty_view_def\<close>)
    then show "view_moved (w_tables w ! 0) empty_view (row_view t' n)" using a(2) view_moved_same by blast
    have "all_counted c (w_tables w ! 0)" "row_objects c t' = 0" for c
      using root(2) cols by (simp_all add: all_counted_def row_objects_def)
    then show "\<forall>c. ev_delta c evs = world_objects c (w_tables w') - world_objects c (w_tables w)"
      using a(8) fin(4) by simp
  qed (use p(5) n(7) lv in \<open>simp_all add: w'_def\<close>)
qed

text \<open>The other entities keep their view when the row of \<open>x\<close> is filled from the last row.\<close>

lemma others_kept:
  assumes ix: "index_ok (w_index w) (w_tables w)" and x: "x \<in> ei_live (w_index w)" "place (w_index w) (low_index x) = Some q"
    and l: "row_of (w_tables w) l = Some y" and z: "z \<in> ei_live (w_index w)" "z \<noteq> x"
    and n: "z \<in> ei_live (w_index w')" "place (w_index w') (low_index z) = filled (place (w_index w)) q l y (low_index z)"
    and v: "\<forall>s. fill (row_of (w_tables w)) q l s \<noteq> None \<longrightarrow>
        position_view (w_tables w') s = position_view (w_tables w) (if s = q then l else s)"
  shows "entity_view w' z = entity_view w z"
proof -
  have q: "row_of (w_tables w) q = Some x" using index_okD(5)[OF ix x(1)] x(2) by auto
  have y: "y \<in> ei_live (w_index w)" "place (w_index w) (low_index y) = Some l"
    using index_okD(2)[OF ix] l unfolding consistent_def by blast+
  obtain s where s: "place (w_index w) (low_index z) = Some s" "row_of (w_tables w) s = Some z"
    using index_okD(5)[OF ix z(1)] by blast
  have sq: "s \<noteq> q" using s(2) q z(2) by auto
  show ?thesis
  proof (cases "z = y")
    case True
    have sl: "s = l" using s(1) y(2) True by simp
    then have "place (w_index w') (low_index z) = Some q" using n(2) sq True by (simp add: filled_def)
    moreover have "position_view (w_tables w') q = position_view (w_tables w) l"
      using v[THEN spec, of q] sq sl l by (simp add: fill_def)
    ultimately show ?thesis using s(1) sl z(1) n(1) by (simp add: entity_view_def)
  next
    case False
    then have zy: "low_index z \<noteq> low_index y" using index_okD(6)[OF ix z(1) y(1)] by simp
    have sl: "s \<noteq> l" using s(2) l False by auto
    have "place (w_index w') (low_index z) = Some s" using n(2) s(1) zy by (simp add: filled_def)
    moreover have "position_view (w_tables w') s = position_view (w_tables w) s"
      using v[THEN spec, of s] sq sl s(2) by (simp add: fill_def)
    ultimately show ?thesis using s(1) z(1) n(1) by (simp add: entity_view_def)
  qed
qed

lemma last_row:
  assumes "table_shape (ts ! tid)" "tid < length ts" "0 < t_count (ts ! tid)"
  obtains y where "row_of ts (tid, t_count (ts ! tid) - 1) = Some y"
  using table_shapeD(2)[OF assms(1), THEN spec, of "t_count (ts ! tid) - 1"] assms(2,3) that by (auto simp: row_of_def)

lemma flecs_move_entity_ok:
  assumes wf: "world_wf w" and e: "e \<in> ei_live (w_index w)" "place (w_index w) (low_index e) = Some (src, si)"
    and dst: "src \<noteq> dst" "dst < length (w_tables w)" "t_count (w_tables w ! dst) < 2 ^ 28"
  obtains w' evs v where "flecs_move_entity w e dst 0 = Inr (w', evs)" "world_wf w'" "same_frame w w'"
    "row_flags (w_index w') = row_flags (w_index w)" "ei_live (w_index w') = ei_live (w_index w)"
    "entity_view w' = (entity_view w)(e \<mapsto> v)" "view_moved (w_tables w ! dst) (the (entity_view w e)) v"
    "\<forall>c. all_counted c (w_tables w ! src) \<and> all_counted c (w_tables w ! dst) \<longrightarrow>
        ev_delta c evs = world_objects c (w_tables w') - world_objects c (w_tables w)"
proof -
  note result = that
  let ?ts = "w_tables w"
  have ix: "index_ok (w_index w) ?ts" and ok: "tables_ok ?ts" using wf by (simp_all add: world_wf_def)
  have ro: "row_of ?ts (src, si) = Some e" using index_okD(5)[OF ix e(1)] e(2) by auto
  then have src: "src < length ?ts" "si < t_count (?ts ! src)" by (simp_all add: row_of_Some)
  have st: "table_wf (?ts ! src)" "t_count (?ts ! src) \<le> 2 ^ 28" using ok src(1) by (simp_all add: tables_ok_def)
  have si: "si < 2 ^ 28" using src(2) st(2) by simp
  define m where "m = t_count (?ts ! dst)"
  define k where "k = t_count (?ts ! src) - 1"
  have k: "t_count (?ts ! src) = Suc k" "si \<le> k" using src(2) by (auto simp: k_def)
  obtain dt1 e1 where a: "table_append w dst e False False = Inr (w\<lparr>w_tables := ?ts[dst := dt1]\<rparr>, m, e1)"
    "same_table (?ts ! dst) dt1" "t_count dt1 = m + 1" "table_shape dt1"
    "row_of (?ts[dst := dt1]) = (row_of ?ts)((dst, m) \<mapsto> e)"
    "\<forall>p. p \<noteq> (dst, m) \<and> row_of ?ts p \<noteq> None \<longrightarrow> position_view (?ts[dst := dt1]) p = position_view ?ts p"
    "\<forall>col\<in>set (t_columns dt1). col_live m col"
    "\<forall>k<length (t_bs_columns dt1). bs_bit (t_bs_columns dt1 ! k) m = False"
    "\<forall>c. all_counted c (?ts ! dst) \<longrightarrow> ev_delta c e1 = 0"
    unfolding m_def by (rule world_append_ok[OF ok dst(2,3), where e = e and construct = False and on_add = False]) simp
  have ty: "same_types (cols_of dt1) (cols_of (?ts ! src))"
  proof -
    have "same_types (cols_of (?ts ! dst)) (cols_of (?ts ! src))"
      using ok nth_mem[OF dst(2)] nth_mem[OF src(1)] unfolding tables_ok_def by blast
    then show ?thesis using same_table_col_types(1)[OF a(2)] by (simp add: same_types_col_types)
  qed
  have em: "0 \<notin> set (col_ids dt1)" using ok dst(2) same_table_ids(1)[OF a(2)] by (simp add: tables_ok_def)
  have cm: "t_count dt1 = Suc m" using a(3) by simp
  obtain dt2 st2 e3 where b: "flecs_table_move e e dt1 m (?ts ! src) si 0 = Inr (dt2, st2, e3)"
    "same_table dt1 dt2" "table_wf dt2" "t_count dt2 = t_count dt1" "t_entities dt2 = t_entities dt1"
    "\<forall>i<m. row_view dt2 i = row_view dt1 i" "view_moved dt2 (row_view (?ts ! src) si) (row_view dt2 m)"
    "same_table (?ts ! src) st2" "table_shape st2" "t_count st2 = t_count (?ts ! src)" "t_entities st2 = t_entities (?ts ! src)"
    "\<forall>i. i \<noteq> si \<longrightarrow> row_view st2 i = row_view (?ts ! src) i"
    "\<forall>col\<in>set (t_columns st2). col_deletable (t_count (?ts ! src) - 1) si False col"
    "\<forall>c. all_counted c dt1 \<and> all_counted c (?ts ! src) \<longrightarrow>
        ev_delta c e3 = row_objects c dt1 - (if t_count (?ts ! src) = si + 1 then row_objects c (?ts ! src) else 0)"
    by (rule move_view[OF a(4) cm a(7,8) st(1) src(2) ty em, where de = e and se = e]) blast
  define ts2 where "ts2 = ?ts[dst := dt2, src := st2]"
  have t2: "ts2 ! dst = dt2" "ts2 ! src = st2" "length ts2 = length ?ts" "\<And>i. i \<noteq> dst \<Longrightarrow> i \<noteq> src \<Longrightarrow> ts2 ! i = ?ts ! i"
    using dst(1,2) src(1) by (simp_all add: ts2_def)
  have ro2: "row_of ts2 = (row_of ?ts)((dst, m) \<mapsto> e)"
  proof
    fix p
    have "row_of ts2 p = row_of (?ts[dst := dt1]) p"
      using dst(1,2) src(1) b(4,5,10,11) by (cases p) (auto simp: row_of_def ts2_def nth_list_update)
    then show "row_of ts2 p = ((row_of ?ts)((dst, m) \<mapsto> e)) p" using a(5) by simp
  qed
  let ?w2 = "w\<lparr>w_tables := ts2\<rparr>"
  have m28: "m < 2 ^ 28" using dst(3) by (simp add: m_def)
  obtain ei3 where p: "w_place ?w2 e dst m = Inr (?w2\<lparr>w_index := ei3\<rparr>)" "ei_alloc_wf ei3" "ei_live ei3 = ei_live (w_index w)"
    "place ei3 = (place (w_index w))(low_index e \<mapsto> (dst, m))" "row_flags ei3 = row_flags (w_index w)"
    by (rule w_place_ok[of ?w2 e m dst]) (use index_okD(1)[OF ix] e(1) m28 in simp_all)
  let ?w3 = "?w2\<lparr>w_index := ei3\<rparr>"
  have "0 < t_count (?ts ! src)" using k by simp
  then obtain y where y: "row_of ?ts (src, k) = Some y"
    using last_row[of ?ts src] st(1) src(1) by (auto simp: k_def table_wf_def)
  have y3: "row_of (w_tables ?w3) (src, t_count (w_tables ?w3 ! src) - 1) = Some y"
    using y dst(1) t2(2) b(10) k(1) by (simp add: ro2)
  have ly: "y \<in> ei_live (w_index ?w3) \<and> place (w_index ?w3) (low_index y) = Some (src, t_count (w_tables ?w3 ! src) - 1)"
    if "si \<noteq> t_count (w_tables ?w3 ! src) - 1"
  proof -
    have l: "y \<in> ei_live (w_index w)" "place (w_index w) (low_index y) = Some (src, k)"
      using index_okD(2)[OF ix] y unfolding consistent_def by blast+
    then have "y \<noteq> e" using e(2) that t2(2) b(10) k(1) by auto
    then have "low_index y \<noteq> low_index e" using index_okD(6)[OF ix l(1) e(1)] by simp
    then show ?thesis using l p(3,4) t2(2) b(10) k(1) by simp
  qed
  obtain ei4 st3 e4 where d: "table_delete ?w3 src si False = Inr (?w3\<lparr>w_index := ei4, w_tables := ts2[src := st3]\<rparr>, e4)"
    "same_table st2 st3" "table_wf st3" "t_count st3 = k"
    "ei_alloc_wf ei4" "ei_live ei4 = ei_live ei3" "row_flags ei4 = row_flags ei3"
    "place ei4 = filled (place ei3) (src, si) (src, k) y"
    "row_of (ts2[src := st3]) = fill (row_of ts2) (src, si) (src, k)"
    "\<forall>p. row_of (ts2[src := st3]) p \<noteq> None \<longrightarrow> position_view (ts2[src := st3]) p
        = position_view ts2 (if p = (src, si) then (src, k) else p)"
    "\<forall>c. all_counted c st2 \<longrightarrow> ev_delta c e4 = (if si \<noteq> k then - row_objects c st3 else 0)"
    by (rule world_delete_ok[of src ?w3 si False y, OF _ _ _ si _ y3 _ ly])
      (use src t2(2,3) b(9,10,13) p(2) k in simp_all)
  define w' where "w' = w\<lparr>w_index := ei4, w_tables := ts2[src := st3]\<rparr>"
  have w': "w_index w' = ei4" "w_tables w' = ts2[src := st3]" by (simp_all add: w'_def)
  have ts4: "ts2[src := st3] = ?ts[dst := dt2, src := st3]" by (simp add: ts2_def)
  have free: "row_of ?ts (dst, m) = None" by (simp add: m_def row_of_end)
  have same: "same_table (?ts ! dst) dt2" "same_table (?ts ! src) st3"
    using same_table_trans a(2) b(2,8) d(2) by blast+
  have tabs: "same_tables ?ts (w_tables w')"
    unfolding w' ts4 using same dst src(1)
    by (intro same_tables_trans[OF same_tables_update[OF dst(2) same(1)]] same_tables_update) simp_all
  have wf': "world_wf w'"
    unfolding world_wf_def index_ok_def
  proof (intro conjI)
    show "ei_alloc_wf (w_index w')" using d(5) by (simp add: w')
    show "consistent (ei_live (w_index w')) (row_of (w_tables w')) (place (w_index w'))"
      using consistent_move[OF index_okD(2,3)[OF ix] ro y free] by (simp add: w' d(6,8,9) p(3,4) ro2)
    show "\<forall>e\<in>ei_live (w_index w'). place (w_index w') (low_index e) \<noteq> None"
      using index_okD(3)[OF ix] by (auto simp: w' d(6,8) p(3,4) filled_def)
    have "low_index y \<in> low_index ` ei_live (w_index w)" "low_index e \<in> low_index ` ei_live (w_index w)"
      using index_okD(2)[OF ix] y e(1) unfolding consistent_def by blast+
    then show "\<forall>n. n \<notin> low_index ` ei_live (w_index w') \<longrightarrow> place (w_index w') n = None"
      using index_okD(4)[OF ix] by (auto simp: w' d(6,8) p(3,4) filled_def)
    show "tables_ok (w_tables w')"
      using ok dst src k st(2) b(3,4) d(3,4) a(3) m28 t2
      by (intro tables_ok_update[OF ok tabs]) (auto simp: w' ts4 nth_list_update tables_ok_def)
  qed
  have pv: "position_view ts2 s = position_view ?ts s" if s: "s \<noteq> (dst, m)" "s \<noteq> (src, si)" "row_of ?ts s \<noteq> None" for s
  proof -
    obtain a i where s2: "s = (a, i)" by (cases s)
    consider "a = src" | "a = dst" | "a \<noteq> src" "a \<noteq> dst" by blast
    then show ?thesis
    proof cases
      case 2
      have "i < t_count (?ts ! dst)" using s(3) 2 s2 by (auto simp: row_of_def split: if_splits)
      then have "i < m" by (simp add: m_def)
      then show ?thesis using 2 s2 t2(1) b(6) a(6)[THEN spec, of s] s dst(2) by simp
    qed (use s s2 t2 b(12) in simp_all)
  qed
  have kept: "\<forall>s. fill (row_of ?ts) (src, si) (src, k) s \<noteq> None \<longrightarrow>
      position_view (w_tables w') s = position_view ?ts (if s = (src, si) then (src, k) else s)"
  proof (intro allI impI)
    fix s assume s: "fill (row_of ?ts) (src, si) (src, k) s \<noteq> None"
    define u where "u = (if s = (src, si) then (src, k) else s)"
    have sp: "s \<noteq> (dst, m)" using s free dst(1) by (auto simp: fill_def)
    have "row_of (ts2[src := st3]) s \<noteq> None" using s dst(1) by (auto simp: d(9) ro2 fill_def split: if_splits)
    then have "position_view (w_tables w') s = position_view ts2 u"
      unfolding w' u_def by (rule d(10)[THEN spec, THEN mp])
    also have "\<dots> = position_view ?ts u"
      using s sp y dst(1) by (intro pv) (auto simp: u_def fill_def split: if_splits)
    finally show "position_view (w_tables w') s = position_view ?ts (if s = (src, si) then (src, k) else s)"
      by (simp only: u_def)
  qed
  have pe: "place ei4 (low_index e) = Some (dst, m)"
  proof (cases "si = k")
    case False
    then have "low_index y \<noteq> low_index e" using ly index_okD(6)[OF ix] p(3,4) y e index_okD(2)[OF ix]
      unfolding consistent_def by (metis Pair_inject option.inject)
    then show ?thesis using d(8) p(4) by (simp add: filled_def)
  qed (simp add: d(8) p(4) filled_def)
  have views: "entity_view w' = (entity_view w)(e \<mapsto> position_view (w_tables w') (dst, m))"
  proof
    fix z
    show "entity_view w' z = ((entity_view w)(e \<mapsto> position_view (w_tables w') (dst, m))) z"
    proof (cases "z \<in> ei_live (w_index w) \<and> z \<noteq> e")
      case True
      then have "low_index z \<noteq> low_index e" using index_okD(6)[OF ix _ e(1)] by blast
      then have "entity_view w' z = entity_view w z"
        using True d(6,8) p(3,4) by (intro others_kept[OF ix e y _ _ _ _ kept]) (simp_all add: w' filled_def)
      then show ?thesis using True by simp
    next
      case False
      have "entity_view w' e = Some (position_view (w_tables w') (dst, m))"
        using pe e(1) d(6) p(3) by (simp add: entity_view_def w')
      moreover have "z \<noteq> e \<Longrightarrow> entity_view w' z = entity_view w z"
        using False d(6) p(3) by (simp add: entity_view_def w')
      ultimately show ?thesis by (cases "z = e") simp_all
    qed
  qed
  have vm: "position_view (w_tables w') (dst, m) = row_view dt2 m" using dst(1,2) by (simp add: w' ts4)
  have v0: "the (entity_view w e) = row_view (?ts ! src) si" using e by (simp add: entity_view_def)
  have "w_record ?w3 e = rec_get ei3 e" "w_record w' e = rec_get ei4 e" "w_record w e = rec_get (w_index w) e"
    by (simp_all add: w_record_def w'_def)
  moreover obtain r0 where r0: "rec_get (w_index w) e = Inr r0" "flecs_entity_index_get (w_index w) e = Inr r0"
    "erow (w_index w) (low_index e) = (r_table r0, r_row r0)"
    using live_record[OF index_okD(1)[OF ix] e(1)] by metis
  moreover have "r_table r0 = Some src" "ECS_RECORD_TO_ROW (r_row r0) = si" using r0(3) e(2) by (auto simp: place_def)
  moreover have e4': "e \<in> ei_live ei4" using d(6) p(3) e(1) by simp
  moreover obtain r4 where r4: "rec_get ei4 e = Inr r4" "erow ei4 (low_index e) = (r_table r4, r_row r4)"
    using live_record[OF d(5) e4'] by metis
  moreover have "r_table r4 = Some dst" using r4(2) pe by (auto simp: place_def)
  ultimately have run: "flecs_move_entity w e dst 0 = Inr (w', e1 @ [Ev_actions_move_remove src dst si] @ e3 @ e4
      @ [Ev_actions_move_add dst src m])"
    using a(1) b(1) p(1) d(1) src dst(1,2)
    by (simp add: flecs_move_entity_def Let_def w'_def ts2_def)
  show thesis
  proof (rule result[OF run wf' _ _ _ views])
    show "view_moved (?ts ! dst) (the (entity_view w e)) (position_view (w_tables w') (dst, m))"
      unfolding vm v0 using b(7) view_moved_same[OF same(1)] by simp
    show "\<forall>c. all_counted c (?ts ! src) \<and> all_counted c (?ts ! dst) \<longrightarrow>
        ev_delta c (e1 @ [Ev_actions_move_remove src dst si] @ e3 @ e4 @ [Ev_actions_move_add dst src m])
        = world_objects c (w_tables w') - world_objects c ?ts"
    proof (intro allI impI, elim conjE)
      fix c assume c: "all_counted c (?ts ! src)" "all_counted c (?ts ! dst)"
      have o: "row_objects c dt2 = row_objects c (?ts ! dst)" "row_objects c st3 = row_objects c (?ts ! src)"
        "row_objects c dt1 = row_objects c (?ts ! dst)"
        using same_table_col_types(2) same a(2) by blast+
      have "all_counted c dt1" "all_counted c st2" using c same_table_col_types(3)[OF a(2)] same_table_col_types(3)[OF b(8)] by simp_all
      then have "ev_delta c e1 = 0" "ev_delta c e4 = (if si \<noteq> k then - row_objects c (?ts ! src) else 0)"
        "ev_delta c e3 = row_objects c (?ts ! dst) - (if si = k then row_objects c (?ts ! src) else 0)"
        using a(9) b(14) d(11) c k(1) o by auto
      moreover have "world_objects c (w_tables w') = world_objects c ?ts + row_objects c (?ts ! dst) - row_objects c (?ts ! src)"
        unfolding w' ts4 using src(1) dst(1,2) o a(3) b(4) d(4) k(1)
        by (simp add: world_objects_update m_def[symmetric] distrib_right)
      ultimately show "ev_delta c (e1 @ [Ev_actions_move_remove src dst si] @ e3 @ e4 @ [Ev_actions_move_add dst src m])
        = world_objects c (w_tables w') - world_objects c ?ts" by (cases "si = k") simp_all
    qed
  qed (use tabs d(6,7) p(3,5) in \<open>simp_all add: same_frame_def w'_def\<close>)
qed

lemma row_flags_of:
  assumes "erow ei (low_index e) = (tid, row)"
  shows "row AND EcsEntityIsTraversable = row_flags ei (low_index e) AND EcsEntityIsTraversable"
    "row AND (EcsEntityIsTarget OR EcsEntityIsId OR EcsEntityHasDontFragment)
       = row_flags ei (low_index e) AND (EcsEntityIsTarget OR EcsEntityIsId OR EcsEntityHasDontFragment)"
proof -
  have z: "row_flags ei (low_index e) = row AND ECS_ROW_FLAGS_MASK"
    using assms by (simp add: row_flags_def ECS_RECORD_TO_ROW_FLAGS_def)
  have f: "row AND f = row_flags ei (low_index e) AND f" if "ECS_ROW_FLAGS_MASK AND f = f" for f
    using that by (simp add: z and.assoc)
  show "row AND EcsEntityIsTraversable = row_flags ei (low_index e) AND EcsEntityIsTraversable"
    "row AND (EcsEntityIsTarget OR EcsEntityIsId OR EcsEntityHasDontFragment)
       = row_flags ei (low_index e) AND (EcsEntityIsTarget OR EcsEntityIsId OR EcsEntityHasDontFragment)"
    by (rule f; simp add: ECS_ROW_FLAGS_MASK_def ECS_ROW_MASK_def EcsEntityIsTraversable_def EcsEntityIsTarget_def
        EcsEntityIsId_def EcsEntityHasDontFragment_def)+
qed

lemma traversable_add_none:
  assumes "tid < length (w_tables w)" "t_traversable (w_tables w ! tid) = 0"
    "\<not> table_has (w_tables w ! tid) EcsTableHasTraversable"
  shows "table_traversable_add w tid 0 = Inr w"
proof -
  have "x AND NOT f = x" if a: "x AND f = 0" for x f :: u32
  proof -
    have "x = x AND (f OR NOT f)" by simp
    also have "\<dots> = x AND NOT f" unfolding bit.conj_disj_distrib a by simp
    finally show ?thesis by simp
  qed
  then have "flecs_table_traversable_add (w_tables w ! tid) 0 = Inr (w_tables w ! tid)"
    using assms by (simp add: flecs_table_traversable_add_def table_has_def)
  then show ?thesis using assms(1) by (simp add: table_traversable_add_def)
qed

lemma flecs_commit_ok:
  assumes wf: "world_wf w" "plain_world w" and e: "e \<in> ei_live (w_index w)"
    and dst: "dst < length (w_tables w)" "t_count (w_tables w ! dst) < 2 ^ 28"
  obtains w' evs v where "flecs_commit w e dst 0 = Inr (w', evs)" "world_wf w'" "same_frame w w'"
    "row_flags (w_index w') = row_flags (w_index w)" "ei_live (w_index w') = ei_live (w_index w)"
    "entity_view w' = (entity_view w)(e \<mapsto> v)"
    "if fst (the (place (w_index w) (low_index e))) = dst then w' = w \<and> v = the (entity_view w e)
     else view_moved (w_tables w ! dst) (the (entity_view w e)) v"
    "\<forall>c. (\<forall>t\<in>set (w_tables w). all_counted c t) \<longrightarrow>
        ev_delta c evs = world_objects c (w_tables w') - world_objects c (w_tables w)"
proof -
  note result = that
  have ix: "index_ok (w_index w) (w_tables w)" using wf by (simp add: world_wf_def)
  obtain src si where pl: "place (w_index w) (low_index e) = Some (src, si)" "row_of (w_tables w) (src, si) = Some e"
    using index_okD(5)[OF ix e] by auto
  have src: "src < length (w_tables w)" using pl(2) by (simp add: row_of_Some)
  obtain r where r: "rec_get (w_index w) e = Inr r" "erow (w_index w) (low_index e) = (r_table r, r_row r)"
    using live_record[OF index_okD(1)[OF ix] e] by metis
  have rt: "r_table r = Some src" using r(2) pl(1) by (auto simp: place_def)
  show thesis
  proof (cases "src = dst")
    case True
    have "entity_view w e \<noteq> None" using e pl(1) by (simp add: entity_view_def)
    then have v: "entity_view w = (entity_view w)(e \<mapsto> the (entity_view w e))" by (auto simp: fun_eq_iff)
    define evs where "evs = (if table_has (w_tables w ! src) EcsTableHasDontFragment
      then [Ev_actions_move_add src src (ECS_RECORD_TO_ROW (r_row r)), Ev_actions_move_remove src src (ECS_RECORD_TO_ROW (r_row r))]
      else [])"
    have "flecs_commit w e dst 0 = Inr (w, evs)"
      using r(1) rt True src by (simp add: flecs_commit_def w_record_def evs_def Let_def)
    then show thesis
      by (rule result[OF _ wf(1) _ _ _ v]) (use True pl(1) in \<open>auto simp: same_frame_def evs_def\<close>)
  next
    case False
    obtain w' evs v where m: "flecs_move_entity w e dst 0 = Inr (w', evs)" "world_wf w'" "same_frame w w'"
      "row_flags (w_index w') = row_flags (w_index w)" "ei_live (w_index w') = ei_live (w_index w)"
      "entity_view w' = (entity_view w)(e \<mapsto> v)" "view_moved (w_tables w ! dst) (the (entity_view w e)) v"
      "\<forall>c. all_counted c (w_tables w ! src) \<and> all_counted c (w_tables w ! dst) \<longrightarrow>
        ev_delta c evs = world_objects c (w_tables w') - world_objects c (w_tables w)"
      by (rule flecs_move_entity_ok[OF wf(1) e pl(1) False dst]) blast
    have "r_row r AND EcsEntityIsTraversable = 0"
      using wf(2) row_flags_of(1)[OF r(2)] by (simp add: plain_world_def)
    moreover have "table_traversable_add w dst 0 = Inr w"
      using wf(2) dst(1) by (intro traversable_add_none) (simp_all add: plain_world_def)
    moreover have "table_traversable_add w' src 0 = Inr w'"
    proof (rule traversable_add_none)
      have l: "list_all2 same_table (w_tables w) (w_tables w')" using m(3) by (simp add: same_frame_def same_tables_def)
      then show "src < length (w_tables w')" using src by (simp add: list_all2_lengthD)
      have st: "same_table (w_tables w ! src) (w_tables w' ! src)" using l src by (rule list_all2_nthD)
      then show "t_traversable (w_tables w' ! src) = 0" "\<not> table_has (w_tables w' ! src) EcsTableHasTraversable"
        using wf(2) src same_table_ids(3)[OF st] by (simp_all add: plain_world_def same_table_def)
    qed
    ultimately have "flecs_commit w e dst 0 = Inr (w', evs)"
      using r(1) rt False m(1) by (simp add: flecs_commit_def w_record_def)
    then show thesis
      by (rule result[OF _ m(2-6)]) (use False pl(1) m(7,8) src dst(1) in auto)
  qed
qed

lemma remove_places:
  assumes "ei_alloc_wf ei" "e \<in> ei_live ei"
  obtains ei' where "flecs_entity_index_remove ei e = Inr ei'" "ei_alloc_wf ei'" "ei_live ei' = ei_live ei - {e}"
    "place ei' = (place ei)(low_index e := None)" "row_flags ei' = (row_flags ei)(low_index e := 0)"
proof -
  obtain ei' where r: "flecs_entity_index_remove ei e = Inr ei'" "ei_alloc_wf ei'" "ei_live ei' = ei_live ei - {e}"
    using entity_alloc_free[OF assms] by blast
  have er: "erow ei' = (erow ei)(low_index e := (None, 0))" by (rule remove_rows[OF assms r(1)])
  show thesis
    by (rule that[OF r]) (auto simp: place_def row_flags_def er fun_eq_iff ECS_RECORD_TO_ROW_FLAGS_def)
qed

lemma ecs_delete_ok:
  assumes wf: "world_wf w" "plain_world w" and e: "e \<in> ei_live (w_index w)" "e \<noteq> 0" "unused_id w e"
  obtains w' evs where "ecs_delete w e = Inr (w', evs)" "world_wf w'" "same_frame w w'"
    "row_flags (w_index w') = (row_flags (w_index w))(low_index e := 0)" "ei_live (w_index w') = ei_live (w_index w) - {e}"
    "entity_view w' = (entity_view w)(e := None)"
    "\<forall>c. (\<forall>t\<in>set (w_tables w). all_counted c t) \<longrightarrow>
        ev_delta c evs = world_objects c (w_tables w') - world_objects c (w_tables w)"
proof -
  note result = that
  let ?ts = "w_tables w"
  have ix: "index_ok (w_index w) ?ts" and ok: "tables_ok ?ts" using wf by (simp_all add: world_wf_def)
  obtain tid row where pl: "place (w_index w) (low_index e) = Some (tid, row)" "row_of ?ts (tid, row) = Some e"
    using index_okD(5)[OF ix e(1)] by auto
  then have tid: "tid < length ?ts" "row < t_count (?ts ! tid)" by (simp_all add: row_of_Some)
  then have t: "table_wf (?ts ! tid)" "t_count (?ts ! tid) \<le> 2 ^ 28" "?ts ! tid \<in> set ?ts"
    using ok by (simp_all add: tables_ok_def)
  then have sh: "table_shape (?ts ! tid)" and row: "row < 2 ^ 28" using tid(2) by (simp_all add: table_wf_def)
  define k where "k = t_count (?ts ! tid) - 1"
  have k: "t_count (?ts ! tid) = Suc k" "row \<le> k" using tid(2) by (auto simp: k_def)
  obtain r where r: "flecs_entity_index_try_get (w_index w) e = Inr (Some r)" "erow (w_index w) (low_index e) = (r_table r, r_row r)"
    using live_record[OF index_okD(1)[OF ix] e(1)] by metis
  have rt: "r_table r = Some tid" "ECS_RECORD_TO_ROW (r_row r) = row" using r(2) pl(1) by (auto simp: place_def)
  have "0 < t_count (?ts ! tid)" using k by simp
  then obtain y where y: "row_of ?ts (tid, k) = Some y" using last_row[OF sh tid(1)] by (auto simp: k_def)
  have ly: "y \<in> ei_live (w_index w) \<and> place (w_index w) (low_index y) = Some (tid, t_count (?ts ! tid) - 1)"
    using index_okD(2)[OF ix] y unfolding consistent_def k_def by blast
  have del: "\<forall>col\<in>set (t_columns (?ts ! tid)). col_deletable (t_count (?ts ! tid) - 1) row True col"
    using t(1) k by (auto simp: table_wf_def col_live_def col_deletable_def)
  obtain ei1 t' e1 where d: "table_delete w tid row True = Inr (w\<lparr>w_index := ei1, w_tables := ?ts[tid := t']\<rparr>, e1)"
    "same_table (?ts ! tid) t'" "table_wf t'" "t_count t' = k" "ei_alloc_wf ei1" "ei_live ei1 = ei_live (w_index w)"
    "row_flags ei1 = row_flags (w_index w)" "place ei1 = filled (place (w_index w)) (tid, row) (tid, k) y"
    "row_of (?ts[tid := t']) = fill (row_of ?ts) (tid, row) (tid, k)"
    "\<forall>p. row_of (?ts[tid := t']) p \<noteq> None \<longrightarrow> position_view (?ts[tid := t']) p
        = position_view ?ts (if p = (tid, row) then (tid, k) else p)"
    "\<forall>c. all_counted c (?ts ! tid) \<longrightarrow> ev_delta c e1 = - row_objects c t'"
    unfolding k_def
    by (rule world_delete_ok[OF tid(1) sh tid(2) row del y[unfolded k_def] index_okD(1)[OF ix] ly]) simp
  have e1: "e \<in> ei_live ei1" using e(1) d(6) by simp
  obtain ei2 where i: "flecs_entity_index_remove ei1 e = Inr ei2" "ei_alloc_wf ei2" "ei_live ei2 = ei_live (w_index w) - {e}"
    "place ei2 = (filled (place (w_index w)) (tid, row) (tid, k) y)(low_index e := None)"
    "row_flags ei2 = (row_flags (w_index w))(low_index e := 0)"
    using remove_places[OF d(5) e1] d(6-8) by metis
  define w' where "w' = w\<lparr>w_index := ei2, w_tables := ?ts[tid := t']\<rparr>"
  have w': "w_index w' = ei2" "w_tables w' = ?ts[tid := t']" by (simp_all add: w'_def)
  have tabs: "same_tables ?ts (w_tables w')" unfolding w' by (rule same_tables_update[OF tid(1) d(2)])
  have lock: "flecs_component_is_delete_locked w e = Inr False"
    using wf(2) by (simp add: plain_world_def flecs_component_is_delete_locked_def map_get)
  have panic: "table_has_id (?ts ! tid) (ecs_pair EcsOnDelete EcsPanic) = Inr False"
    using wf(2) t(3) table_shapeD(8)[OF sh] by (simp add: plain_world_def table_has_id_def)
  have "r_row r AND EcsEntityIsTraversable = 0"
    "r_row r AND (EcsEntityIsTarget OR EcsEntityIsId OR EcsEntityHasDontFragment) = 0"
    using wf(2) e(3) row_flags_of[OF r(2)] by (simp_all add: plain_world_def unused_id_def)
  then have run: "ecs_delete w e = Inr (w', Ev_actions_move_remove tid 0 row # e1)"
    using e(2) r(1) rt tid(1) panic lock d(1) i(1) by (simp add: ecs_delete_def w'_def)
  have wf': "world_wf w'"
    unfolding world_wf_def index_ok_def
  proof (intro conjI)
    show "ei_alloc_wf (w_index w')" using i(2) by (simp add: w')
    show "consistent (ei_live (w_index w')) (row_of (w_tables w')) (place (w_index w'))"
      using consistent_delete[OF index_okD(2,3)[OF ix] pl(2) y] by (simp add: w' d(9) i(3,4))
    have ye: "low_index y \<in> low_index ` ei_live (w_index w)" using ly by blast
    show "\<forall>x\<in>ei_live (w_index w'). place (w_index w') (low_index x) \<noteq> None"
      using index_okD(3,6)[OF ix] e(1) by (auto simp: w' i(3,4) filled_def)
    show "\<forall>n. n \<notin> low_index ` ei_live (w_index w') \<longrightarrow> place (w_index w') n = None"
    proof (intro allI impI)
      fix n assume n: "n \<notin> low_index ` ei_live (w_index w')"
      show "place (w_index w') n = None"
      proof (cases "n = low_index e")
        case False
        then have "n \<notin> low_index ` ei_live (w_index w)" using n by (auto simp: w' i(3))
        then show ?thesis using ye index_okD(4)[OF ix] by (auto simp: w' i(4) filled_def)
      qed (simp add: w' i(4))
    qed
    show "tables_ok (w_tables w')"
      using ok d(3,4) k(1) t(2) tid(1) by (intro tables_ok_update[OF ok tabs]) (auto simp: w' nth_list_update tables_ok_def)
  qed
  have views: "entity_view w' = (entity_view w)(e := None)"
  proof
    fix z
    show "entity_view w' z = ((entity_view w)(e := None)) z"
    proof (cases "z \<in> ei_live (w_index w) \<and> z \<noteq> e")
      case True
      then have "low_index z \<noteq> low_index e" using index_okD(6)[OF ix _ e(1)] by blast
      then have "entity_view w' z = entity_view w z"
        using True d(9,10) i(3,4) by (intro others_kept[OF ix e(1) pl(1) y]) (simp_all add: w')
      then show ?thesis using True by simp
    next
      case False
      then show ?thesis by (auto simp: entity_view_def w' i(3))
    qed
  qed
  show thesis
  proof (rule result[OF run wf' _ _ _ views])
    have "world_objects c (w_tables w') - world_objects c ?ts = - row_objects c t'" for c
      using same_table_col_types(2)[OF d(2), of c]
      by (simp add: w' world_objects_update[OF tid(1)] d(4) k(1) distrib_right)
    then show "\<forall>c. (\<forall>t\<in>set ?ts. all_counted c t) \<longrightarrow>
        ev_delta c (Ev_actions_move_remove tid 0 row # e1) = world_objects c (w_tables w') - world_objects c ?ts"
      using d(11) t(3) by simp
  qed (use tabs i(3,5) in \<open>simp_all add: same_frame_def w'_def\<close>)
qed

lemma ecs_delete_dead: "world_wf w \<Longrightarrow> e \<notin> ei_live (w_index w) \<Longrightarrow> e \<noteq> 0 \<Longrightarrow> ecs_delete w e = Inr (w, [])"
  using ei_live_low[of "w_index w" e]
  by (auto simp: ecs_delete_def world_wf_def index_ok_def ei_alloc_wf_def try_get_eq)

end
