(* ===== verification/World_Claims.thy ===== *)
theory World_Claims
  imports World_Ops
begin

text \<open>
  Runs of operations on entities: creating an entity in the root table or in another one, moving
  one to a table, deleting one.
\<close>

section \<open>Steps and their specification\<close>

datatype storage_op = SNew | SNewIn nat | SCommit u64 nat | SDelete u64

fun storage_exec :: "storage_op \<Rightarrow> ('v::zero) world \<Rightarrow> ('v world \<times> storage_event list) res" where
  "storage_exec SNew w = res_bind (ecs_new w) (\<lambda>(w, e, evs). Inr (w, evs))"
| "storage_exec (SNewIn tid) w = res_bind (ecs_new_w_table w tid) (\<lambda>(w, e, evs). Inr (w, evs))"
| "storage_exec (SCommit e tid) w = flecs_commit w e tid 0"
| "storage_exec (SDelete e) w = ecs_delete w e"

text \<open>
  What the caller has to ensure: live ids, existing tables, and room for one more row or id; an entity
  that is used as an id is not deleted, which takes cleanup policies. A row fits the 28 bits of a record,
  and a fresh id the vector of ids of the entity index, whose capacity ends at 2\^30; the vector only grows
  when all ids in it are alive.
\<close>

fun op_ready :: "storage_op \<Rightarrow> 'v world \<Rightarrow> bool" where
  "op_ready SNew w \<longleftrightarrow> t_count (w_tables w ! 0) < 2 ^ 28 \<and> card (ei_live (w_index w)) < 2 ^ 30 - 1"
| "op_ready (SNewIn tid) w \<longleftrightarrow> tid < length (w_tables w) \<and> t_count (w_tables w ! tid) < 2 ^ 28
     \<and> card (ei_live (w_index w)) < 2 ^ 30 - 1"
| "op_ready (SCommit e tid) w \<longleftrightarrow> e \<in> ei_live (w_index w) \<and> tid < length (w_tables w)
     \<and> t_count (w_tables w ! tid) < 2 ^ 28"
| "op_ready (SDelete e) w \<longleftrightarrow> e \<noteq> 0 \<and> unused_id w e"

text \<open>The specification, on the views of the entities before and after.\<close>

definition new_spec :: "nat \<Rightarrow> ('v::zero) world \<Rightarrow> (u64 \<Rightarrow> 'v entity_view option) \<Rightarrow> bool" where
  "new_spec tid w views' \<longleftrightarrow> (\<exists>e v. low_index e \<notin> low_index ` ei_live (w_index w)
     \<and> views' = (entity_view w)(e \<mapsto> v) \<and> view_moved (w_tables w ! tid) empty_view v)"

fun op_spec :: "storage_op \<Rightarrow> ('v::zero) world \<Rightarrow> (u64 \<Rightarrow> 'v entity_view option) \<Rightarrow> bool" where
  "op_spec SNew w views' \<longleftrightarrow> new_spec 0 w views'"
| "op_spec (SNewIn tid) w views' \<longleftrightarrow> new_spec tid w views'"
| "op_spec (SCommit e tid) w views' \<longleftrightarrow>
     (if fst (the (place (w_index w) (low_index e))) = tid then views' = entity_view w
      else \<exists>v. views' = (entity_view w)(e \<mapsto> v) \<and> view_moved (w_tables w ! tid) (the (entity_view w e)) v)"
| "op_spec (SDelete e) w views' \<longleftrightarrow> views' = (entity_view w)(e := None)"

lemma plain_frame:
  assumes "plain_world w" "same_frame w w'" "\<forall>n. row_flags (w_index w') n AND EcsEntityIsTraversable = 0"
  shows "plain_world w'"
proof -
  have l: "list_all2 same_table (w_tables w) (w_tables w')" using assms(2) by (simp add: same_frame_def same_tables_def)
  have "\<exists>t\<in>set (w_tables w). t_type t' = t_type t \<and> t_traversable t' = t_traversable t
      \<and> table_has t' EcsTableHasTraversable = table_has t EcsTableHasTraversable" if t: "t' \<in> set (w_tables w')" for t'
  proof -
    obtain k where k: "k < length (w_tables w')" "t' = w_tables w' ! k" using t by (auto simp: in_set_conv_nth)
    then have "same_table (w_tables w ! k) t'" "k < length (w_tables w)" using l by (auto simp: list_all2_conv_all_nth)
    then show ?thesis using same_table_ids(3)[of "w_tables w ! k" t'] nth_mem[of k "w_tables w"]
      by (auto simp: same_table_def)
  qed
  then show ?thesis using assms unfolding plain_world_def same_frame_def by metis
qed

lemma storage_step_ok:
  assumes wf: "world_wf w" "plain_world w" and r: "op_ready op w"
  obtains w' evs where "storage_exec op w = Inr (w', evs)" "world_wf w'" "plain_world w'" "same_frame w w'"
    "op_spec op w (entity_view w')"
    "\<forall>c. (\<forall>t\<in>set (w_tables w). all_counted c t) \<longrightarrow>
        ev_delta c evs = world_objects c (w_tables w') - world_objects c (w_tables w)"
proof -
  note result = that
  have fl: "\<forall>n. row_flags (w_index w) n AND EcsEntityIsTraversable = 0" using wf(2) by (simp add: plain_world_def)
  note plain = plain_frame[OF wf(2)]
  show thesis
  proof (cases op)
    case SNew
    then have g: "t_count (w_tables w ! 0) < 2 ^ 28" "card (ei_live (w_index w)) < 2 ^ 30 - 1" using r by simp_all
    have room: "card (ei_live (w_index w)) < 2 ^ 32 - 1" using g(2) by simp
    obtain w' e evs v where n: "ecs_new w = Inr (w', e, evs)" "world_wf w'" "same_frame w w'"
      "row_flags (w_index w') = row_flags (w_index w)" "low_index e \<notin> low_index ` ei_live (w_index w)"
      "entity_view w' = (entity_view w)(e \<mapsto> v)" "view_moved (w_tables w ! 0) empty_view v"
      "\<forall>c. ev_delta c evs = world_objects c (w_tables w') - world_objects c (w_tables w)"
      by (rule ecs_new_ok[OF wf(1) g(1) room]) blast
    show thesis
      by (rule result[OF _ n(2) plain[OF n(3)] n(3)]) (use SNew n fl in \<open>auto simp: new_spec_def\<close>)
  next
    case (SNewIn tid)
    then have g: "tid < length (w_tables w)" "t_count (w_tables w ! tid) < 2 ^ 28" "card (ei_live (w_index w)) < 2 ^ 30 - 1"
      using r by simp_all
    have room: "card (ei_live (w_index w)) < 2 ^ 32 - 1" using g(3) by simp
    obtain w' e evs v where n: "ecs_new_w_table w tid = Inr (w', e, evs)" "world_wf w'" "same_frame w w'"
      "row_flags (w_index w') = row_flags (w_index w)" "low_index e \<notin> low_index ` ei_live (w_index w)"
      "entity_view w' = (entity_view w)(e \<mapsto> v)" "view_moved (w_tables w ! tid) empty_view v"
      "\<forall>c. all_counted c (w_tables w ! tid) \<longrightarrow>
        ev_delta c evs = world_objects c (w_tables w') - world_objects c (w_tables w)"
      by (rule ecs_new_w_table_ok[OF wf(1) g(1,2) room]) blast
    show thesis
      by (rule result[OF _ n(2) plain[OF n(3)] n(3)]) (use SNewIn g n fl in \<open>auto simp: new_spec_def\<close>)
  next
    case (SCommit e tid)
    then have g: "e \<in> ei_live (w_index w)" "tid < length (w_tables w)" "t_count (w_tables w ! tid) < 2 ^ 28"
      using r by simp_all
    obtain w' evs v where n: "flecs_commit w e tid 0 = Inr (w', evs)" "world_wf w'" "same_frame w w'"
      "row_flags (w_index w') = row_flags (w_index w)" "entity_view w' = (entity_view w)(e \<mapsto> v)"
      "if fst (the (place (w_index w) (low_index e))) = tid then w' = w \<and> v = the (entity_view w e)
       else view_moved (w_tables w ! tid) (the (entity_view w e)) v"
      "\<forall>c. (\<forall>t\<in>set (w_tables w). all_counted c t) \<longrightarrow>
        ev_delta c evs = world_objects c (w_tables w') - world_objects c (w_tables w)"
      by (rule flecs_commit_ok[OF wf g]) blast
    show thesis
    proof (rule result[OF _ n(2) plain[OF n(3)] n(3)])
      show "op_spec op w (entity_view w')" using n(5,6) SCommit by (auto split: if_splits)
    qed (use SCommit n fl in simp_all)
  next
    case (SDelete e)
    then have e: "e \<noteq> 0" "unused_id w e" using r by simp_all
    show thesis
    proof (cases "e \<in> ei_live (w_index w)")
      case True
      obtain w' evs where n: "ecs_delete w e = Inr (w', evs)" "world_wf w'" "same_frame w w'"
        "row_flags (w_index w') = (row_flags (w_index w))(low_index e := 0)"
        "entity_view w' = (entity_view w)(e := None)"
        "\<forall>c. (\<forall>t\<in>set (w_tables w). all_counted c t) \<longrightarrow>
          ev_delta c evs = world_objects c (w_tables w') - world_objects c (w_tables w)"
        by (rule ecs_delete_ok[OF wf True e]) blast
      show thesis
        by (rule result[OF _ n(2) plain[OF n(3)] n(3)]) (use SDelete n fl in auto)
    next
      case False
      have "entity_view w e = None" using False by (simp add: entity_view_def)
      then have "entity_view w = (entity_view w)(e := None)" by (auto simp: fun_eq_iff)
      then show thesis
        using ecs_delete_dead[OF wf(1) False e(1)] wf SDelete by (intro result[of w "[]"]) (auto simp: same_frame_def)
    qed
  qed
qed

inductive storage_reach :: "('v::zero) world \<Rightarrow> 'v world \<Rightarrow> storage_event list \<Rightarrow> bool" where
  reach_start: "storage_reach w0 w0 []"
| reach_step: "storage_reach w0 w evs \<Longrightarrow> op_ready op w \<Longrightarrow> storage_exec op w = Inr (w', evs')
    \<Longrightarrow> storage_reach w0 w' (evs @ evs')"

lemma storage_reach_ok:
  assumes "storage_reach w0 w evs" "world_wf w0" "plain_world w0"
  shows "world_wf w \<and> plain_world w \<and> same_frame w0 w \<and> (\<forall>c. (\<forall>t\<in>set (w_tables w0). all_counted c t) \<longrightarrow>
    ev_delta c evs = world_objects c (w_tables w) - world_objects c (w_tables w0))"
  using assms
proof (induction rule: storage_reach.induct)
  case (reach_start w0)
  then show ?case by (simp add: same_frame_def)
next
  case (reach_step w0 w evs op w' evs')
  have w: "world_wf w" "plain_world w" "same_frame w0 w"
    "\<forall>c. (\<forall>t\<in>set (w_tables w0). all_counted c t) \<longrightarrow> ev_delta c evs = world_objects c (w_tables w) - world_objects c (w_tables w0)"
    using reach_step.IH[OF reach_step.prems] by simp_all
  have s: "world_wf w'" "plain_world w'" "same_frame w w'"
    "\<forall>c. (\<forall>t\<in>set (w_tables w). all_counted c t) \<longrightarrow> ev_delta c evs' = world_objects c (w_tables w') - world_objects c (w_tables w)"
    using storage_step_ok[OF w(1,2) reach_step.hyps(2)] reach_step.hyps(3)
    by (metis (no_types, lifting) Inr_inject prod.inject)+
  have "same_frame w0 w'" using w(3) s(3) same_tables_trans by (auto simp: same_frame_def)
  moreover have "\<forall>t\<in>set (w_tables w). all_counted c t" if "\<forall>t\<in>set (w_tables w0). all_counted c t" for c
  proof
    fix t assume "t \<in> set (w_tables w)"
    then obtain k where k: "k < length (w_tables w)" "t = w_tables w ! k" by (auto simp: in_set_conv_nth)
    have l: "list_all2 same_table (w_tables w0) (w_tables w)" using w(3) by (simp add: same_frame_def same_tables_def)
    then have "same_table (w_tables w0 ! k) t" "w_tables w0 ! k \<in> set (w_tables w0)"
      using k by (auto simp: list_all2_conv_all_nth)
    then show "all_counted c t" using same_table_col_types(3)[of "w_tables w0 ! k" t c] that by blast
  qed
  ultimately show ?case using s w(4) by auto
qed

section \<open>A world to apply the theorems to\<close>

text \<open>The root table, a table with a tag, and one with a component that has lifecycle hooks.\<close>

definition sample_position :: "nat ecs_type_info" where
  "sample_position =
     (case ecs_set_hooks_id False (Some 8) 500 (sample_type\<lparr>ti_size := 8, ti_component := 500\<rparr>) sample_hooks of
        Inr ti \<Rightarrow> ti | Inl _ \<Rightarrow> sample_type)"

definition sample_table :: "u64 list \<Rightarrow> int list \<Rightarrow> nat ecs_type_info list \<Rightarrow> nat ecs_table" where
  "sample_table ids cmap tis = \<lparr>t_type = ids, t_column_map = cmap,
     t_columns = map (\<lambda>ti. \<lparr>col_data = [], col_ti = ti\<rparr>) tis, t_entities = [], t_count = 0, t_size = 0,
     t_flags = (if tis = [] then 0 else flecs_type_info_flags sample_position), t_bs_columns = [], t_bs_offset = 0,
     t_lock = 0, t_traversable = 0, t_dirty = [], t_version = 0\<rparr>"

definition sample_locks :: "i32 ecs_map" where
  "sample_locks = (case ecs_map_init of Inr m \<Rightarrow> m | Inl _ \<Rightarrow> zero_map)"

definition sample_world :: "nat world" where
  "sample_world = \<lparr>w_index = flecs_entity_index_init,
     w_tables = [sample_table [] [] [], sample_table [400] [-1] [], sample_table [400, 500] [-1, 0, 1] [sample_position]],
     w_locked_components = sample_locks, w_locked_entities = sample_locks, w_quit = False\<rparr>"

lemma set_hooks_keeps_size:
  assumes "ecs_set_hooks_id in_use component_size component ti h = Inr ti'" "ti_size ti \<noteq> 0"
  shows "ti_size ti' = ti_size ti"
  using assms
  by (auto simp: ecs_set_hooks_id_def set_hooks_size_def set_hooks_checks_def res_elims Let_def ecs_assert_def
      split: if_splits prod.splits option.splits)

lemma sample_position_ok:
  "ti_lawful sample_position" "ti_counted sample_position" "ti_size sample_position = 8" "ti_component sample_position = 500"
proof -
  let ?ti = "sample_type\<lparr>ti_size := 8, ti_component := 500\<rparr>"
  obtain ti' where t: "ecs_set_hooks_id False (Some 8) 500 ?ti sample_hooks = Inr ti'"
    "derived_hooks sample_hooks (ti_hooks ti')" "ti_component ti' = ti_component ?ti"
    by (rule set_hooks_eq[OF sample_user_hooks, of ?ti 500 "Some 8"]) (simp_all add: sample_type_def plain_no_hooks)
  then have s: "sample_position = ti'" by (simp add: sample_position_def)
  show "ti_lawful sample_position" using s t(2) derived_lawful sample_user_hooks by metis
  show "ti_counted sample_position"
    using s t(2) derived_counted[of sample_hooks ti'] sample_user_hooks by (simp add: sample_hooks_def)
  show "ti_size sample_position = 8" using set_hooks_keeps_size[OF t(1)] s by simp
  show "ti_component sample_position = 500" using t(3) s by simp
qed

lemma no_isa_flag: "flecs_type_info_flags ti AND EcsTableHasIsA = 0"
  by (simp add: flecs_type_info_flags_def Let_def bit.conj_disj_distrib2 EcsTableHasIsA_def EcsTableHasCtors_def
      EcsTableHasDtors_def EcsTableHasCopy_def EcsTableHasMove_def)

lemma sample_ids_plain: "\<not> ECS_HAS_ID_FLAG 400 ECS_TOGGLE" "\<not> ECS_HAS_ID_FLAG 500 ECS_TOGGLE"
  by (simp_all add: ECS_HAS_ID_FLAG_def ECS_TOGGLE_def)

lemma sample_world_wf: "world_wf sample_world"
proof -
  let ?ts = "w_tables sample_world"
  have t: "table_wf t \<and> t_count t \<le> 2 ^ 28 \<and> 0 \<notin> set (col_ids t) \<and> t_count t = 0" if "t \<in> set ?ts" for t
    using that sample_position_ok sample_ids_plain no_isa_flag[of sample_position]
    by (auto simp: sample_world_def sample_table_def table_wf_def table_shape_def vec_wf_def ecs_vec_from_entities_def
        map_ok_def col_ids_def col_shape_def bits_ok_def toggles_def table_has_def col_live_def)
  have "same_types (cols_of t) (cols_of t')" if "t \<in> set ?ts" "t' \<in> set ?ts" for t t'
    using that by (auto simp: sample_world_def sample_table_def same_types_col_types col_types_def col_ids_def)
  then have ok: "tables_ok ?ts" using t by (auto simp: tables_ok_def sample_world_def sample_table_def)
  have rows: "row_of ?ts p = None" for p using t by (auto simp: row_of_def)
  have pl: "place flecs_entity_index_init n = None" for n
    by (simp add: place_def erow_def erec_def ehas_def flecs_entity_index_init_def)
  have "index_ok flecs_entity_index_init ?ts"
    using entity_init_alloc rows pl by (simp add: index_ok_def consistent_def)
  then show ?thesis using ok by (simp add: world_wf_def) (simp add: sample_world_def)
qed

lemma sample_world_plain: "plain_world sample_world"
proof -
  obtain m :: "i32 ecs_map" where m: "ecs_map_init = Inr m" "map_wf m" "map_abs m = Map.empty"
    by (rule map_init)
  have "sample_locks = m" unfolding sample_locks_def m(1) by simp
  moreover have "row_flags flecs_entity_index_init n = 0" for n
    by (simp add: row_flags_def erow_def erec_def ehas_def flecs_entity_index_init_def zero_record_def
        ECS_RECORD_TO_ROW_FLAGS_def)
  moreover have "ecs_pair EcsOnDelete EcsPanic \<notin> {400, 500}"
    by (simp add: ecs_pair_def ecs_entity_t_comb_def ECS_PAIR_def EcsOnDelete_def EcsPanic_def)
  moreover have "flecs_type_info_flags ti AND EcsTableHasTraversable = 0" for ti :: "nat ecs_type_info"
    by (simp add: flecs_type_info_flags_def Let_def bit.conj_disj_distrib2 EcsTableHasTraversable_def EcsTableHasCtors_def
        EcsTableHasDtors_def EcsTableHasCopy_def EcsTableHasMove_def)
  ultimately show ?thesis using m by (simp add: plain_world_def sample_world_def sample_table_def table_has_def)
qed

lemma sample_counted: "\<forall>t\<in>set (w_tables sample_world). all_counted c t"
  using sample_position_ok(2)
  by (simp add: sample_world_def sample_table_def all_counted_def counted_def)

lemma sample_world_empty: "ei_live (w_index sample_world) = {}"
  by (simp add: sample_world_def entity_init_alloc)

text \<open>
  Claim C5: in a consistent world whose components have lawful hooks (\<open>ti_lawful\<close>: no hook is marked
  illegal, constructors make values and moves carry them over; a component without any hooks is
  one), every operation on entities succeeds when the ids are alive and there is room, keeps
  the entity index and the tables consistent, and does to the entities exactly what it should. A
  created entity has the ids of its table, default values for components with a constructor and
  its toggles off; moving an entity to another table keeps the values and toggles that both tables
  have and gives it fresh ones otherwise; deleting an entity, although it moves the last row of
  the table into the hole, leaves the components of all other entities as they were.
\<close>

theorem storage_operations_refine:
  assumes "world_wf w" "plain_world w" "op_ready op w"
  shows "\<exists>w' evs. storage_exec op w = Inr (w', evs) \<and> world_wf w' \<and> plain_world w' \<and> op_spec op w (entity_view w')"
  by (rule storage_step_ok[OF assms]) blast

theorem storage_operations_refine_witness:
  "\<exists>w' evs. storage_exec (SNewIn 2) sample_world = Inr (w', evs) \<and> world_wf w' \<and> plain_world w'
     \<and> op_spec (SNewIn 2) sample_world (entity_view w')"
  by (rule storage_operations_refine[OF sample_world_wf sample_world_plain])
    (simp add: sample_world_empty, simp add: sample_world_def sample_table_def)

text \<open>
  Claim C6: in every world that operations on entities reach from a consistent one, each live
  entity is stored in exactly one row of one table, which its record points at, no row holds
  anything else, and the next operation does not abort if its ids are alive and there is room.
\<close>

theorem storage_stays_consistent:
  assumes "storage_reach w0 w evs" "world_wf w0" "plain_world w0"
  shows "(\<forall>e. flecs_entity_index_is_alive (w_index w) e = Inr True \<longleftrightarrow> (\<exists>p. row_of (w_tables w) p = Some e))
    \<and> (\<forall>e p. row_of (w_tables w) p = Some e \<longrightarrow> place (w_index w) (low_index e) = Some p)
    \<and> (\<forall>op. op_ready op w \<longrightarrow> (\<exists>w' evs'. storage_exec op w = Inr (w', evs')))"
proof -
  have w: "world_wf w" "plain_world w" using storage_reach_ok[OF assms] by simp_all
  then have ix: "index_ok (w_index w) (w_tables w)" by (simp add: world_wf_def)
  then have "ei_wf (w_index w)" using index_okD(1) by (auto simp: ei_alloc_wf_def)
  then have "flecs_entity_index_is_alive (w_index w) e = Inr True \<longleftrightarrow> (\<exists>p. row_of (w_tables w) p = Some e)" for e
    using ei_live_alive[of "w_index w" e] index_okD(2)[OF ix] index_okD(5)[OF ix, of e] unfolding consistent_def by blast
  moreover have "row_of (w_tables w) p = Some e \<Longrightarrow> place (w_index w) (low_index e) = Some p" for e p
    using index_okD(2)[OF ix] unfolding consistent_def by blast
  moreover have "\<exists>w' evs'. storage_exec op w = Inr (w', evs')" if "op_ready op w" for op
    by (rule storage_step_ok[OF w that]) blast
  ultimately show ?thesis by blast
qed

lemma sample_reach:
  obtains w evs where "storage_reach sample_world w evs"
    "storage_exec (SNewIn 2) sample_world = Inr (w, evs)"
proof -
  have r: "op_ready (SNewIn 2) sample_world" by (simp add: sample_world_empty) (simp add: sample_world_def sample_table_def)
  obtain w evs where "storage_exec (SNewIn 2) sample_world = Inr (w, evs)"
    by (rule storage_step_ok[OF sample_world_wf sample_world_plain r])
  moreover from this have "storage_reach sample_world w ([] @ evs)"
    by (rule reach_step[OF reach_start r])
  ultimately show thesis using that by simp
qed

theorem storage_stays_consistent_witness:
  "\<exists>w evs. storage_reach sample_world w evs
    \<and> (\<forall>op. op_ready op w \<longrightarrow> (\<exists>w' evs'. storage_exec op w = Inr (w', evs')))"
proof -
  obtain w evs where r: "storage_reach sample_world w evs" by (rule sample_reach)
  show ?thesis using storage_stays_consistent[OF r sample_world_wf sample_world_plain] r by blast
qed

text \<open>
  Claim C7: along every run of operations on entities in a consistent world with lawful hooks that starts
  without entities, constructions minus destructions of a component equal the number of rows that hold it, and
  they cancel out when all entities are deleted, if in every table the hooks of the component count
  objects (\<open>ti_counted\<close>): a destructor and a move\_ctor are set, constructing and move\_ctor add one object,
  dtor and move\_dtor remove one, ctor\_move\_dtor none. Registering a destructor and a move gives such hooks.
\<close>

theorem storage_objects_balanced:
  assumes "storage_reach w0 w evs" "world_wf w0" "plain_world w0" "ei_live (w_index w0) = {}"
    and "\<forall>t\<in>set (w_tables w0). all_counted c t"
  shows "ev_delta c evs = world_objects c (w_tables w) \<and> (ei_live (w_index w) = {} \<longrightarrow> ev_delta c evs = 0)"
proof -
  have w: "world_wf w" "ev_delta c evs = world_objects c (w_tables w) - world_objects c (w_tables w0)"
    using storage_reach_ok[OF assms(1-3)] assms(5) by simp_all
  have empty: "world_objects c (w_tables w) = 0" if "world_wf w" "ei_live (w_index w) = {}" for w :: "'a world"
  proof -
    have "t_count t = 0" if t: "t \<in> set (w_tables w)" for t
    proof (rule ccontr)
      assume n: "t_count t \<noteq> 0"
      obtain k where k: "k < length (w_tables w)" "t = w_tables w ! k" using t by (auto simp: in_set_conv_nth)
      have "tables_ok (w_tables w)" using \<open>world_wf w\<close> by (simp add: world_wf_def)
      then have "table_shape (w_tables w ! k)" using k(1) by (simp add: tables_ok_def table_wf_def)
      then obtain y where "row_of (w_tables w) (k, t_count (w_tables w ! k) - 1) = Some y"
        using last_row[of "w_tables w" k] k n by auto
      then have "y \<in> ei_live (w_index w)"
        using index_okD(2)[of "w_index w" "w_tables w"] \<open>world_wf w\<close> unfolding world_wf_def consistent_def by blast
      then show False using \<open>ei_live (w_index w) = {}\<close> by simp
    qed
    then have "map (\<lambda>t. int (t_count t) * row_objects c t) (w_tables w) = map (\<lambda>_. 0) (w_tables w)"
      by (intro map_cong) simp_all
    then show ?thesis unfolding world_objects_def by (simp add: map_replicate_const sum_list_replicate)
  qed
  show ?thesis using w empty[OF assms(2,4)] empty[OF w(1)] by simp
qed

theorem storage_objects_balanced_witness:
  "\<exists>w evs. storage_exec (SNewIn 2) sample_world = Inr (w, evs)
    \<and> ev_delta 500 evs = world_objects 500 (w_tables w)"
proof -
  obtain w evs where r: "storage_reach sample_world w evs" "storage_exec (SNewIn 2) sample_world = Inr (w, evs)"
    by (rule sample_reach)
  have "ev_delta 500 evs = world_objects 500 (w_tables w)"
    using storage_objects_balanced[OF r(1) sample_world_wf sample_world_plain sample_world_empty sample_counted[of 500]] by simp
  with r(2) show ?thesis by blast
qed

end
