(* ===== verification/Table_Type.thy ===== *)
theory Table_Type
  imports Ecs_Id Ecs_Hash Ecs_Hashmap
begin

text \<open>
  The sequences of ids of storage/table\_graph.c: the type of a table is a sorted array of ids. An
  array is the list of its elements, so copying a part of one is take and drop; -1 as a position is
  an int, as in the code, and the result -1 of a function that has nothing to do is None. The
  first part is the code; the second shows that the operations are insertion into and removal
  from a sorted set, wildcards included.
\<close>

section \<open>Operations\<close>

text \<open>The memory of an array of ids, as the hash function reads it.\<close>

definition id_bytes :: "u64 \<Rightarrow> u8 list" where
  "id_bytes i = map (\<lambda>k. ucast (drop_bit (8 * k) i)) [0..<8]"

definition flecs_type_hash :: "u64 list \<Rightarrow> u64 res" where
  "flecs_type_hash ids = flecs_hash (concat (map id_bytes ids)) (int (length ids) * 8)"

fun type_compare_loop :: "u64 list \<Rightarrow> u64 list \<Rightarrow> int" where
  "type_compare_loop (id_1 # ids_1) (id_2 # ids_2) =
     (let result = (if id_1 > id_2 then 1 else 0) - (if id_1 < id_2 then 1 else 0)
      in if result \<noteq> 0 then result else type_compare_loop ids_1 ids_2)"
| "type_compare_loop ids_1 ids_2 = 0"

definition flecs_type_compare :: "u64 list \<Rightarrow> u64 list \<Rightarrow> int" where
  "flecs_type_compare type_1 type_2 =
     (let count_1 = length type_1; count_2 = length type_2 in
      if count_1 \<noteq> count_2 then (if count_1 > count_2 then 1 else 0) - (if count_1 < count_2 then 1 else 0)
      else type_compare_loop type_1 type_2)"

text \<open>The loops over the array, from position \<open>i\<close> on.\<close>

fun find_insert_loop :: "u64 \<Rightarrow> nat \<Rightarrow> u64 list \<Rightarrow> int" where
  "find_insert_loop to_add i [] = int i"
| "find_insert_loop to_add i (x # ids) =
     (if x = to_add then -1 else if x > to_add then int i else find_insert_loop to_add (Suc i) ids)"

definition flecs_type_find_insert :: "u64 list \<Rightarrow> nat \<Rightarrow> u64 \<Rightarrow> int" where
  "flecs_type_find_insert ids offset to_add = find_insert_loop to_add offset (drop offset ids)"

fun find_loop :: "u64 \<Rightarrow> nat \<Rightarrow> u64 list \<Rightarrow> int res" where
  "find_loop cid i [] = Inr (-1)"
| "find_loop cid i (cur # ids) =
     res_bind (ecs_id_match cur cid) (\<lambda>m.
     if m then Inr (int i)
     else if \<not> ECS_IS_PAIR cid \<and> cur > cid then Inr (-1)
     else find_loop cid (Suc i) ids)"

definition flecs_type_find :: "u64 list \<Rightarrow> u64 \<Rightarrow> int res" where
  "flecs_type_find ids cid = find_loop cid 0 ids"

fun find_index_loop :: "u64 \<Rightarrow> nat \<Rightarrow> u64 list \<Rightarrow> int" where
  "find_index_loop cid i [] = -1"
| "find_index_loop cid i (x # ids) =
     (if (ucast x :: u32) = ucast cid then int i else find_index_loop cid (Suc i) ids)"

definition flecs_type_find_ignoring_generation :: "u64 list \<Rightarrow> u64 \<Rightarrow> int" where
  "flecs_type_find_ignoring_generation ids cid = find_index_loop cid 0 ids"

fun count_matches_loop :: "u64 \<Rightarrow> u64 list \<Rightarrow> nat res" where
  "count_matches_loop wildcard [] = Inr 0"
| "count_matches_loop wildcard (cur # ids) =
     res_bind (ecs_id_match cur wildcard) (\<lambda>m.
     if \<not> m then Inr 0 else res_bind (count_matches_loop wildcard ids) (\<lambda>n. Inr (Suc n)))"

definition flecs_type_count_matches :: "u64 list \<Rightarrow> u64 \<Rightarrow> nat \<Rightarrow> nat res" where
  "flecs_type_count_matches ids wildcard offset = count_matches_loop wildcard (drop offset ids)"

definition flecs_type_new_with :: "u64 list \<Rightarrow> u64 \<Rightarrow> u64 list option" where
  "flecs_type_new_with src with_id =
     (let at = flecs_type_find_insert src 0 with_id in
      if at = -1 then None
      else Some (take (nat at) src @ with_id # drop (nat at) src))"

fun filter_loop :: "u64 \<Rightarrow> u64 list \<Rightarrow> u64 list res" where
  "filter_loop wildcard [] = Inr []"
| "filter_loop wildcard (x # ids) =
     res_bind (ecs_id_match x wildcard) (\<lambda>m.
     res_bind (filter_loop wildcard ids) (\<lambda>rest. Inr (if \<not> m then x # rest else rest)))"

definition flecs_type_new_filtered :: "u64 list \<Rightarrow> u64 \<Rightarrow> nat \<Rightarrow> u64 list res" where
  "flecs_type_new_filtered src wildcard at =
     ecs_assert (at = 0 \<or> src \<noteq> []) ECS_INTERNAL_ERROR
     (res_bind (filter_loop wildcard (drop (at + 1) src)) (\<lambda>rest. Inr (take at src @ rest)))"

definition flecs_type_new_without :: "u64 list \<Rightarrow> u64 \<Rightarrow> u64 list option res" where
  "flecs_type_new_without src without =
     res_bind (flecs_type_find src without) (\<lambda>at.
     if at = -1 then Inr None
     else
       let src_count = length src; at = nat at in
       if src_count = 1 then Inr (Some [])
       else if ecs_id_is_wildcard without \<and> ECS_IS_PAIR without
           \<and> ECS_PAIR_FIRST without = EcsWildcard \<and> ECS_PAIR_SECOND without \<noteq> EcsWildcard then
         res_bind (flecs_type_new_filtered src without at) (\<lambda>dst. Inr (Some dst))
       else
         res_bind (if ecs_id_is_wildcard without then flecs_type_count_matches src without (at + 1) else Inr 0)
           (\<lambda>n.
         let cnt = 1 + n in
         if src_count < cnt then Inl INT_RANGE
         else if src_count - cnt = 0 then Inr (Some [])
         else Inr (Some (take at src @ take (src_count - cnt - at) (drop (at + cnt) src)))))"

definition flecs_type_new_without_ignoring_generation :: "u64 list \<Rightarrow> u64 \<Rightarrow> u64 list option res" where
  "flecs_type_new_without_ignoring_generation src without =
     ecs_assert (\<not> ecs_id_is_wildcard without) ECS_INVALID_PARAMETER
     (ecs_assert (\<not> ECS_IS_PAIR without) ECS_INVALID_PARAMETER
     (let at = flecs_type_find_ignoring_generation src without in
      if at = -1 then Inr None
      else if length src = 1 then Inr (Some [])
      else Inr (Some (take (nat at) src @ drop (nat at + 1) src))))"

definition flecs_type_add :: "u64 list \<Rightarrow> u64 \<Rightarrow> u64 list" where
  "flecs_type_add ids add = (case flecs_type_new_with ids add of None \<Rightarrow> ids | Some ids' \<Rightarrow> ids')"

definition flecs_type_remove :: "u64 list \<Rightarrow> u64 \<Rightarrow> u64 list res" where
  "flecs_type_remove ids remove =
     res_bind (flecs_type_new_without ids remove) (\<lambda>new_type.
     Inr (case new_type of None \<Rightarrow> ids | Some ids' \<Rightarrow> ids'))"

definition flecs_type_remove_ignoring_generation :: "u64 list \<Rightarrow> u64 \<Rightarrow> u64 list res" where
  "flecs_type_remove_ignoring_generation ids remove =
     res_bind (flecs_type_new_without_ignoring_generation ids remove) (\<lambda>new_type.
     Inr (case new_type of None \<Rightarrow> ids | Some ids' \<Rightarrow> ids'))"

section \<open>Types as keys\<close>

lemma length_concat_id_bytes [simp]: "length (concat (map id_bytes ids)) = 8 * length ids"
  by (induction ids) (simp_all add: id_bytes_def)

lemma type_hash_total: "\<exists>h. flecs_type_hash ids = Inr h"
  using flecs_hash_total[of "concat (map id_bytes ids)"] by (simp add: flecs_type_hash_def mult.commute)

lemma compare_loop_zero: "length a = length b \<Longrightarrow> type_compare_loop a b = 0 \<longleftrightarrow> a = b"
  by (induction a b rule: list_induct2) (auto simp: Let_def)

lemma type_compare_zero [simp]: "flecs_type_compare a b = 0 \<longleftrightarrow> a = b"
  using compare_loop_zero[of a b] by (auto simp: flecs_type_compare_def Let_def)

interpretation types: hash_keys "\<lambda>_. True" flecs_type_hash flecs_type_compare
  by unfold_locales (simp_all add: type_hash_total)

section \<open>Insertion\<close>

lemma find_insert_present: "sorted_wrt (<) ids \<Longrightarrow> find_insert_loop x i ids = -1 \<longleftrightarrow> x \<in> set ids"
  by (induction ids arbitrary: i) (auto dest: less_imp_le simp: not_le[symmetric])

lemma find_insert_at:
  assumes "sorted_wrt (<) ids" "x \<notin> set ids"
  obtains n where "find_insert_loop x i ids = int (i + n)" "n \<le> length ids"
    "\<forall>y\<in>set (take n ids). y < x" "\<forall>y\<in>set (drop n ids). x < y"
proof -
  have "\<exists>n. find_insert_loop x i ids = int (i + n) \<and> n \<le> length ids
     \<and> (\<forall>y\<in>set (take n ids). y < x) \<and> (\<forall>y\<in>set (drop n ids). x < y)"
    using assms
  proof (induction ids arbitrary: i)
    case (Cons a ids)
    show ?case
    proof (cases "a > x")
      case True
      then show ?thesis using Cons.prems by (intro exI[of _ 0]) auto
    next
      case False
      obtain n where "find_insert_loop x (Suc i) ids = int (Suc i + n)" "n \<le> length ids"
        "\<forall>y\<in>set (take n ids). y < x" "\<forall>y\<in>set (drop n ids). x < y"
        using Cons.IH[of "Suc i"] Cons.prems by auto
      then show ?thesis using False Cons.prems by (intro exI[of _ "Suc n"]) auto
    qed
  qed simp
  then show thesis using that by blast
qed

lemma type_new_with:
  assumes "sorted_wrt (<) ids"
  shows "x \<in> set ids \<Longrightarrow> flecs_type_new_with ids x = None"
    and "x \<notin> set ids \<Longrightarrow> \<exists>ids'. flecs_type_new_with ids x = Some ids' \<and> sorted_wrt (<) ids' \<and> set ids' = insert x (set ids)"
proof -
  show "x \<in> set ids \<Longrightarrow> flecs_type_new_with ids x = None"
    using find_insert_present[OF assms, of x 0] by (simp add: flecs_type_new_with_def flecs_type_find_insert_def)
  assume x: "x \<notin> set ids"
  obtain n where n: "find_insert_loop x 0 ids = int (0 + n)" "n \<le> length ids"
    "\<forall>y\<in>set (take n ids). y < x" "\<forall>y\<in>set (drop n ids). x < y"
    by (rule find_insert_at[OF assms x])
  have s: "sorted_wrt (<) (take n ids @ drop n ids)" "set ids = set (take n ids) \<union> set (drop n ids)"
    using assms by (simp_all flip: set_append)
  then have "sorted_wrt (<) (take n ids @ x # drop n ids)" "set (take n ids @ x # drop n ids) = insert x (set ids)"
    using n(3,4) unfolding sorted_wrt_append by auto
  moreover have "flecs_type_new_with ids x = Some (take n ids @ x # drop n ids)"
    using n(1) by (simp add: flecs_type_new_with_def flecs_type_find_insert_def)
  ultimately show "\<exists>ids'. flecs_type_new_with ids x = Some ids' \<and> sorted_wrt (<) ids' \<and> set ids' = insert x (set ids)"
    by blast
qed

text \<open>Two sorted types with the same ids are the same, so this determines the result.\<close>

lemma sorted_types_eq: "sorted_wrt (<) (a :: u64 list) \<Longrightarrow> sorted_wrt (<) b \<Longrightarrow> set a = set b \<Longrightarrow> a = b"
  by (rule strict_sorted_equal[THEN sym]) simp_all

lemma type_add:
  assumes "sorted_wrt (<) ids"
  shows "sorted_wrt (<) (flecs_type_add ids x)" "set (flecs_type_add ids x) = insert x (set ids)"
proof -
  have "sorted_wrt (<) (flecs_type_add ids x) \<and> set (flecs_type_add ids x) = insert x (set ids)"
  proof (cases "x \<in> set ids")
    case True
    then show ?thesis using type_new_with(1)[OF assms True] assms by (auto simp: flecs_type_add_def)
  next
    case False
    then obtain ids' where "flecs_type_new_with ids x = Some ids'" "sorted_wrt (<) ids'" "set ids' = insert x (set ids)"
      using type_new_with(2)[OF assms False] by blast
    then show ?thesis by (simp add: flecs_type_add_def)
  qed
  then show "sorted_wrt (<) (flecs_type_add ids x)" "set (flecs_type_add ids x) = insert x (set ids)" by simp_all
qed

section \<open>Removal\<close>

text \<open>The ids a pattern stands for, and the types and patterns that the theorems are about.\<close>

definition id_matches :: "u64 \<Rightarrow> u64 \<Rightarrow> bool" where
  "id_matches i p \<longleftrightarrow> ecs_id_match i p = Inr True"

definition plain_id :: "u64 \<Rightarrow> bool" where
  "plain_id i \<longleftrightarrow> (ECS_HAS_ID_FLAG i ECS_PAIR \<longrightarrow>
     i AND ECS_ID_FLAGS_MASK = ECS_PAIR \<and> ECS_PAIR_FIRST i \<noteq> 0 \<and> ECS_PAIR_SECOND i \<noteq> 0)"

definition pattern_ok :: "u64 \<Rightarrow> bool" where
  "pattern_ok p \<longleftrightarrow> plain_id p \<and> ECS_PAIR_FIRST p \<noteq> EcsFlag
     \<and> (p AND ECS_COMPONENT_MASK = EcsWildcard \<longrightarrow> p = EcsWildcard)"

lemma pattern_match:
  assumes "plain_id i" "pattern_ok p"
  shows "ecs_id_match i p = Inr (id_matches i p)"
    and "id_matches i p \<longleftrightarrow> i = p \<or>
      (if ECS_HAS_ID_FLAG p ECS_PAIR then ECS_HAS_ID_FLAG i ECS_PAIR
         \<and> pair_elem_match (ECS_PAIR_FIRST i) (ECS_PAIR_FIRST p) \<and> pair_elem_match (ECS_PAIR_SECOND i) (ECS_PAIR_SECOND p)
       else i AND ECS_ID_FLAGS_MASK = 0 \<and> p = EcsWildcard)"
proof -
  have w: "EcsWildcard AND ECS_ID_FLAGS_MASK = 0" "EcsWildcard AND ECS_COMPONENT_MASK = EcsWildcard"
    by (simp_all add: EcsWildcard_def ECS_ID_FLAGS_MASK_def ECS_COMPONENT_MASK_def)
  have e: "\<exists>b. ecs_id_match i p = Inr b \<and> (b \<longleftrightarrow> i = p \<or>
      (if ECS_HAS_ID_FLAG p ECS_PAIR then ECS_HAS_ID_FLAG i ECS_PAIR
         \<and> pair_elem_match (ECS_PAIR_FIRST i) (ECS_PAIR_FIRST p) \<and> pair_elem_match (ECS_PAIR_SECOND i) (ECS_PAIR_SECOND p)
       else i AND ECS_ID_FLAGS_MASK = 0 \<and> p = EcsWildcard))"
  proof (cases "ECS_HAS_ID_FLAG p ECS_PAIR")
    case False
    then show ?thesis using assms(2) w
      by (auto simp: ecs_id_match_def pattern_ok_def and.commute)
  next
    case True
    then have p: "p AND ECS_ID_FLAGS_MASK = ECS_PAIR" "ECS_PAIR_FIRST p \<noteq> 0" "ECS_PAIR_SECOND p \<noteq> 0" "ECS_PAIR_FIRST p \<noteq> EcsFlag"
      using assms(2) by (auto simp: pattern_ok_def plain_id_def)
    show ?thesis
    proof (cases "ECS_HAS_ID_FLAG i ECS_PAIR")
      case False
      then show ?thesis using True by (auto simp: ecs_id_match_def)
    next
      case i: True
      then have i': "i AND ECS_ID_FLAGS_MASK = ECS_PAIR" "ECS_PAIR_FIRST i \<noteq> 0" "ECS_PAIR_SECOND i \<noteq> 0"
        using assms(1) by (auto simp: plain_id_def)
      show ?thesis using id_match_pair_eq[OF i'(1) p(1) i'(2,3) p(2-4)] True i by (auto simp: pair_elem_match_def)
    qed
  qed
  then show "ecs_id_match i p = Inr (id_matches i p)" by (auto simp: id_matches_def)
  show "id_matches i p \<longleftrightarrow> i = p \<or>
      (if ECS_HAS_ID_FLAG p ECS_PAIR then ECS_HAS_ID_FLAG i ECS_PAIR
         \<and> pair_elem_match (ECS_PAIR_FIRST i) (ECS_PAIR_FIRST p) \<and> pair_elem_match (ECS_PAIR_SECOND i) (ECS_PAIR_SECOND p)
       else i AND ECS_ID_FLAGS_MASK = 0 \<and> p = EcsWildcard)"
    using e unfolding id_matches_def by (elim exE conjE) simp
qed


text \<open>The flags of an id are its top bits and the first element of a pair comes next, so both ascend.\<close>

lemma flags_drop: "i AND ECS_ID_FLAGS_MASK = push_bit 60 (drop_bit 60 i)"
proof (rule bit_word_eqI)
  fix n
  show "bit (i AND ECS_ID_FLAGS_MASK) n = bit (push_bit 60 (drop_bit 60 i)) n" if "n < LENGTH(64)"
    using that by (cases "60 \<le> n") (simp_all add: bit_and_iff bit_push_bit_iff bit_drop_bit_eq id_bits)
qed

lemma drop_flags: "drop_bit 60 (i AND ECS_ID_FLAGS_MASK) = drop_bit 60 i"
proof (rule bit_word_eqI)
  fix n
  show "bit (drop_bit 60 (i AND ECS_ID_FLAGS_MASK)) n = bit (drop_bit 60 i) n"
    using bit_imp_le_length[of i "60 + n"] by (auto simp only: bit_and_iff bit_drop_bit_eq id_bits o_def) simp_all
qed

lemma drop_bit_mono: "a \<le> b \<Longrightarrow> drop_bit n a \<le> (drop_bit n b :: u64)"
  unfolding word_le_nat_alt unat_drop_bit_eq by (simp add: drop_bit_eq_div div_le_mono)

lemma flags_zero: "i AND ECS_ID_FLAGS_MASK = 0 \<longleftrightarrow> drop_bit 60 i = 0"
  using drop_flags[of i] flags_drop[of i] by auto

text \<open>Two plain pairs have the same relationship when they agree above the target.\<close>

lemma plain_pair_first:
  assumes "i AND ECS_ID_FLAGS_MASK = ECS_PAIR" "j AND ECS_ID_FLAGS_MASK = ECS_PAIR"
  shows "drop_bit 32 i = drop_bit 32 j \<longleftrightarrow> ECS_PAIR_FIRST i = ECS_PAIR_FIRST j"
proof
  assume d: "drop_bit 32 i = drop_bit 32 j"
  show "ECS_PAIR_FIRST i = ECS_PAIR_FIRST j"
  proof (rule bit_word_eqI)
    fix n
    have "bit (drop_bit 32 i) n = bit (drop_bit 32 j) n" using d by simp
    then show "bit (ECS_PAIR_FIRST i) n = bit (ECS_PAIR_FIRST j) n" by (simp add: id_bits bit_drop_bit_eq add.commute)
  qed
next
  assume f: "ECS_PAIR_FIRST i = ECS_PAIR_FIRST j"
  show "drop_bit 32 i = drop_bit 32 j"
  proof (rule bit_word_eqI)
    fix n
    have "bit (ECS_PAIR_FIRST i) n = bit (ECS_PAIR_FIRST j) n" using f by simp
    then show "bit (drop_bit 32 i) n = bit (drop_bit 32 j) n"
      using plain_pair_bits[OF assms(1), of "n + 32"] plain_pair_bits[OF assms(2), of "n + 32"]
      by (cases "28 \<le> n") (simp_all add: id_bits bit_drop_bit_eq add.commute)
  qed
qed

lemma squeeze: "f x = f z \<Longrightarrow> (\<And>a b. a \<le> b \<Longrightarrow> f a \<le> (f b :: u64)) \<Longrightarrow> x \<le> y \<Longrightarrow> y \<le> z \<Longrightarrow> f y = f x"
  by (metis order_antisym)

text \<open>Between two ids that match a pattern there are only matching ids, unless it is a pattern for targets.\<close>

lemma matches_convex:
  assumes p: "pattern_ok p" "\<not> (ECS_HAS_ID_FLAG p ECS_PAIR \<and> ECS_PAIR_FIRST p = EcsWildcard \<and> ECS_PAIR_SECOND p \<noteq> EcsWildcard)"
    and i: "plain_id x" "plain_id y" "plain_id z" and m: "id_matches x p" "id_matches z p" and o: "x \<le> y" "y \<le> z"
  shows "id_matches y p"
proof (cases "ECS_HAS_ID_FLAG p ECS_PAIR")
  case False
  note mm = pattern_match(2)[OF i(1) p(1)] pattern_match(2)[OF i(2) p(1)] pattern_match(2)[OF i(3) p(1)]
  have "x = p \<and> z = p \<or> p = EcsWildcard \<and> z AND ECS_ID_FLAGS_MASK = 0" 
    using m mm(1,3) False by (auto simp: EcsWildcard_def ECS_ID_FLAGS_MASK_def)
  moreover have "drop_bit 60 y = 0" if "drop_bit 60 z = 0"
    using drop_bit_mono[OF o(2), of 60] that by simp
  ultimately show ?thesis using o mm(2) False by (auto simp: flags_zero)
next
  case True
  note mm = pattern_match(2)[OF i(1) p(1)] pattern_match(2)[OF i(2) p(1)] pattern_match(2)[OF i(3) p(1)]
  have pp: "p AND ECS_ID_FLAGS_MASK = ECS_PAIR" using p(1) True by (simp add: pattern_ok_def plain_id_def)
  have xz: "ECS_HAS_ID_FLAG x ECS_PAIR" "ECS_HAS_ID_FLAG z ECS_PAIR" using m mm(1,3) True by auto
  then have fx: "x AND ECS_ID_FLAGS_MASK = ECS_PAIR" "z AND ECS_ID_FLAGS_MASK = ECS_PAIR"
    using i(1,3) by (simp_all add: plain_id_def)
  have "drop_bit 60 x = drop_bit 60 z"
    using drop_flags[of x] drop_flags[of z] fx by simp
  then have d: "drop_bit 60 y = drop_bit 60 x" by (rule squeeze) (use drop_bit_mono o in auto)
  then have fy: "y AND ECS_ID_FLAGS_MASK = ECS_PAIR" using fx(1) by (simp add: flags_drop)
  have hy: "ECS_HAS_ID_FLAG y ECS_PAIR" by (rule plain_pair_flags(1)[OF fy])
  show ?thesis
  proof (cases "ECS_PAIR_FIRST p = EcsWildcard")
    case w: True
    then have "ECS_PAIR_SECOND p = EcsWildcard" using p(2) True by simp
    then show ?thesis using mm(2) True w hy by (simp add: pair_elem_match_def)
  next
    case w: False
    show ?thesis
    proof (cases "ECS_PAIR_SECOND p = EcsWildcard")
      case True
      have "ECS_PAIR_FIRST x = ECS_PAIR_FIRST p" "ECS_PAIR_FIRST z = ECS_PAIR_FIRST p"
        using m mm(1,3) \<open>ECS_HAS_ID_FLAG p ECS_PAIR\<close> w by (auto simp: pair_elem_match_def)
      then have "drop_bit 32 x = drop_bit 32 z" using plain_pair_first[OF fx] by simp
      then have "drop_bit 32 y = drop_bit 32 x" by (rule squeeze) (use drop_bit_mono o in auto)
      then have "ECS_PAIR_FIRST y = ECS_PAIR_FIRST p"
        using plain_pair_first[OF fy fx(1)] \<open>ECS_PAIR_FIRST x = ECS_PAIR_FIRST p\<close> by simp
      then show ?thesis using mm(2) \<open>ECS_HAS_ID_FLAG p ECS_PAIR\<close> hy True by (simp add: pair_elem_match_def)
    next
      case False
      have eq: "a = p" if "id_matches a p" "a AND ECS_ID_FLAGS_MASK = ECS_PAIR" "plain_id a" for a
        using that pattern_match(2)[OF that(3) p(1)] True w False plain_pair_eq[OF that(2)] plain_pair_eq[OF pp]
        by (auto simp: pair_elem_match_def)
      then have "x = p" "z = p" using m fx i by blast+
      then show ?thesis using o m(1) by (simp add: order_antisym)
    qed
  qed
qed


text \<open>The loops, for a test that does not abort.\<close>

lemma find_loop_eq:
  assumes "\<forall>x\<in>set ids. ecs_id_match x p = Inr (m x)" "sorted_wrt (<) ids"
    and "\<forall>x\<in>set ids. \<forall>y\<in>set ids. \<not> ECS_IS_PAIR p \<longrightarrow> p < x \<longrightarrow> x < y \<longrightarrow> m y \<longrightarrow> m x"
  shows "find_loop p i ids = Inr (if \<exists>x\<in>set ids. m x then int (i + length (takeWhile (\<lambda>x. \<not> m x) ids)) else -1)"
  using assms
proof (induction ids arbitrary: i)
  case (Cons a ids)
  then have ih: "find_loop p (Suc i) ids
      = Inr (if \<exists>x\<in>set ids. m x then int (Suc i + length (takeWhile (\<lambda>x. \<not> m x) ids)) else -1)" by simp
  have a: "ecs_id_match a p = Inr (m a)" using Cons.prems(1) by simp
  have late: "\<not> m a \<Longrightarrow> \<not> ECS_IS_PAIR p \<Longrightarrow> p < a \<Longrightarrow> \<forall>y\<in>set ids. \<not> m y"
    using Cons.prems(2,3) by auto
  show ?case
  proof (cases "m a")
    case False
    then show ?thesis using ih a late by auto
  qed (simp add: a)
qed simp

lemma count_matches_eq:
  "\<forall>x\<in>set ids. ecs_id_match x p = Inr (m x) \<Longrightarrow> count_matches_loop p ids = Inr (length (takeWhile m ids))"
  by (induction ids) simp_all

lemma filter_loop_eq:
  "\<forall>x\<in>set ids. ecs_id_match x p = Inr (m x) \<Longrightarrow> filter_loop p ids = Inr (filter (\<lambda>x. \<not> m x) ids)"
  by (induction ids) simp_all

definition plain_type :: "u64 list \<Rightarrow> bool" where
  "plain_type ids \<longleftrightarrow> sorted_wrt (<) ids \<and> (\<forall>i\<in>set ids. plain_id i)"

text \<open>A position that passes a pattern that is no pair leaves nothing to find.\<close>

lemma no_match_above:
  assumes p: "pattern_ok p" "\<not> ECS_IS_PAIR p" and i: "plain_id x" "plain_id y" and o: "p < x" "x < y" and m: "id_matches y p"
  shows "id_matches x p"
proof -
  have h: "\<not> ECS_HAS_ID_FLAG p ECS_PAIR" using p by (auto simp: pattern_ok_def plain_id_def plain_pair_flags(2))
  then have "y AND ECS_ID_FLAGS_MASK = 0 \<and> p = EcsWildcard"
    using m o pattern_match(2)[OF i(2) p(1)] by auto
  moreover have "drop_bit 60 x = 0" if "drop_bit 60 y = 0"
    using drop_bit_mono[of x y 60] o(2) that by simp
  ultimately show ?thesis using pattern_match(2)[OF i(1) p(1)] h by (simp add: flags_zero)
qed

lemma unique_match:
  assumes p: "pattern_ok p" "\<not> ecs_id_is_wildcard p" and i: "plain_id x" "plain_id y" and m: "id_matches x p" "id_matches y p"
  shows "x = y"
proof (cases "ECS_HAS_ID_FLAG p ECS_PAIR")
  case False
  then show ?thesis using p(2) m pattern_match(2)[OF i(1) p(1)] pattern_match(2)[OF i(2) p(1)]
    by (auto simp: ecs_id_is_wildcard_def)
next
  case True
  then have pp: "p AND ECS_ID_FLAGS_MASK = ECS_PAIR" using p(1) by (simp add: pattern_ok_def plain_id_def)
  then have w: "ECS_PAIR_FIRST p \<noteq> EcsWildcard" "ECS_PAIR_SECOND p \<noteq> EcsWildcard"
    using p(2) plain_pair_flags[OF pp] by (auto simp: ecs_id_is_wildcard_def Let_def split: if_splits)
  have eq: "a = p" if "id_matches a p" "plain_id a" for a
  proof -
    have h: "ECS_HAS_ID_FLAG a ECS_PAIR" using that(1) pattern_match(2)[OF that(2) p(1)] True by auto
    then have "a AND ECS_ID_FLAGS_MASK = ECS_PAIR" using that(2) by (simp add: plain_id_def)
    then show ?thesis using that(1) pattern_match(2)[OF that(2) p(1)] True w plain_pair_eq[of a] plain_pair_eq[OF pp]
      by (auto simp: pair_elem_match_def)
  qed
  show ?thesis using eq[OF m(1) i(1)] eq[OF m(2) i(2)] by simp
qed

lemma nonmatches_around:
  fixes ids :: "u64 list"
  assumes "sorted_wrt (<) ids" "ids = xs @ a # ys" "\<forall>x\<in>set xs. \<not> m x" "m a"
    and conv: "\<And>x y z. x \<in> set ids \<Longrightarrow> y \<in> set ids \<Longrightarrow> z \<in> set ids \<Longrightarrow> m x \<Longrightarrow> m z \<Longrightarrow> x < y \<Longrightarrow> y < z \<Longrightarrow> m y"
  shows "xs @ dropWhile m ys = filter (\<lambda>x. \<not> m x) ids"
proof -
  have "filter (\<lambda>x. \<not> m x) ys = dropWhile m ys"
  proof (cases "dropWhile m ys")
    case Nil
    then have "\<forall>x\<in>set ys. m x" by (simp add: dropWhile_eq_Nil_conv)
    then have "filter (\<lambda>x. \<not> m x) ys = []" by (simp add: filter_empty_conv)
    then show ?thesis using Nil by metis
  next
    case (Cons b zs)
    then have b: "\<not> m b" using hd_dropWhile[of m ys] by simp
    have ys: "ys = takeWhile m ys @ b # zs" using Cons by (metis takeWhile_dropWhile_id)
    have "\<not> m z" if z: "z \<in> set zs" for z
    proof
      assume "m z"
      have s: "sorted_wrt (<) (xs @ a # takeWhile m ys @ b # zs)" using assms(1,2) ys by simp
      then have "a < b" "b < z" using z by (simp_all add: sorted_wrt_append)
      moreover have "set ids = set (xs @ a # takeWhile m ys @ b # zs)" using assms(2) ys by simp
      ultimately have "m b" using conv[of a b z] \<open>m a\<close> \<open>m z\<close> z by auto
      with b show False by simp
    qed
    then have "filter (\<lambda>x. \<not> m x) (takeWhile m ys @ b # zs) = b # zs"
      using b by (auto simp: filter_id_conv filter_empty_conv dest: set_takeWhileD)
    then show ?thesis using ys Cons by metis
  qed
  then show ?thesis using assms(2-4) by (simp add: filter_id_conv)
qed

lemma type_new_without:
  assumes t: "plain_type ids" and p: "pattern_ok p"
  shows "flecs_type_new_without ids p = Inr
    (if \<exists>x\<in>set ids. id_matches x p then Some (filter (\<lambda>x. \<not> id_matches x p) ids) else None)"
proof -
  let ?m = "\<lambda>x. id_matches x p"
  have pl: "plain_id x" if "x \<in> set ids" for x using t that by (simp add: plain_type_def)
  have srt: "sorted_wrt (<) ids" using t by (simp add: plain_type_def)
  have total: "\<forall>x\<in>set ids. ecs_id_match x p = Inr (?m x)" using pattern_match(1)[OF pl p] by simp
  have find: "flecs_type_find ids p = Inr (if \<exists>x\<in>set ids. ?m x then int (0 + length (takeWhile (\<lambda>x. \<not> ?m x) ids)) else -1)"
    unfolding flecs_type_find_def using no_match_above[OF p _ pl pl] by (intro find_loop_eq[OF total srt]) blast
  show ?thesis
  proof (cases "\<exists>x\<in>set ids. ?m x")
    case False
    then show ?thesis using find by (simp add: flecs_type_new_without_def)
  next
    case True
    define xs where "xs = takeWhile (\<lambda>x. \<not> ?m x) ids"
    obtain a ys where d: "dropWhile (\<lambda>x. \<not> ?m x) ids = a # ys"
      using True by (cases "dropWhile (\<lambda>x. \<not> ?m x) ids") (auto simp: dropWhile_eq_Nil_conv)
    have ids: "ids = xs @ a # ys" using takeWhile_dropWhile_id[of "\<lambda>x. \<not> ?m x" ids] by (simp add: xs_def d)
    have a: "?m a" using hd_dropWhile[of "\<lambda>x. \<not> ?m x" ids] d by simp
    have xs: "\<forall>x\<in>set xs. \<not> ?m x" by (auto simp: xs_def dest: set_takeWhileD)
    have at: "flecs_type_find ids p = Inr (int (length xs))" using find True by (simp add: xs_def)
    have filt: "filter (\<lambda>x. \<not> ?m x) ids = xs @ filter (\<lambda>x. \<not> ?m x) ys"
      unfolding ids using a xs by (simp add: filter_id_conv)
    show ?thesis
    proof (cases "length ids = 1")
      case one: True
      then have "xs = []" "ys = []" using ids by (cases xs; simp)+
      then show ?thesis using at one True filt by (simp add: flecs_type_new_without_def)
    next
      case more: False
      show ?thesis
      proof (cases "ECS_IS_PAIR p \<and> ECS_PAIR_FIRST p = EcsWildcard \<and> ECS_PAIR_SECOND p \<noteq> EcsWildcard")
        case target: True
        then have w: "ecs_id_is_wildcard p" by (auto simp: ecs_id_is_wildcard_def Let_def)
        have "filter_loop p (drop (length xs + 1) ids) = Inr (filter (\<lambda>x. \<not> ?m x) ys)"
          using filter_loop_eq[of ys p ?m] total by (simp add: ids)
        then have "flecs_type_new_filtered ids p (length xs) = Inr (filter (\<lambda>x. \<not> ?m x) ids)"
          by (simp add: flecs_type_new_filtered_def filt) (simp add: ids)
        then show ?thesis using at more target w True by (simp add: flecs_type_new_without_def)
      next
        case False
        then have nt: "\<not> (ECS_HAS_ID_FLAG p ECS_PAIR \<and> ECS_PAIR_FIRST p = EcsWildcard \<and> ECS_PAIR_SECOND p \<noteq> EcsWildcard)"
          using p by (auto simp: pattern_ok_def plain_id_def plain_pair_flags(2))
        have conv: "?m y" if "x \<in> set ids" "y \<in> set ids" "z \<in> set ids" "?m x" "?m z" "x < y" "y < z" for x y z
          using matches_convex[OF p nt pl[OF that(1)] pl[OF that(2)] pl[OF that(3)] that(4,5)] that(6,7) by simp
        have rest: "xs @ dropWhile ?m ys = filter (\<lambda>x. \<not> ?m x) ids"
          by (rule nonmatches_around[OF srt ids xs a conv])
        define n where "n = (if ecs_id_is_wildcard p then length (takeWhile ?m ys) else 0)"
        have cm: "(if ecs_id_is_wildcard p then flecs_type_count_matches ids p (length xs + 1) else Inr 0) = Inr n"
          using count_matches_eq[of ys p ?m] total by (simp add: n_def flecs_type_count_matches_def ids)
        have tail: "drop n ys = dropWhile ?m ys"
        proof (cases "ecs_id_is_wildcard p")
          case True
          then show ?thesis by (simp add: n_def dropWhile_eq_drop)
        next
          case False
          have "\<not> ?m y" if "y \<in> set ys" for y
            using unique_match[OF p False pl pl a] that ids srt by (auto simp: sorted_wrt_append)
          then show ?thesis using False by (cases ys) (simp_all add: n_def)
        qed
        have le: "n \<le> length ys" by (auto simp: n_def length_takeWhile_le)
        have "take (length xs) ids = xs"
          "take (length ids - (1 + n) - length xs) (drop (length xs + (1 + n)) ids) = drop n ys"
          by (simp_all add: ids)
        then have "take (length xs) ids @ take (length ids - (1 + n) - length xs) (drop (length xs + (1 + n)) ids)
          = filter (\<lambda>x. \<not> ?m x) ids" using rest tail by metis
        moreover have "filter (\<lambda>x. \<not> ?m x) ids = []" if "length ids - (1 + n) = 0"
        proof -
          have "length xs + Suc (length ys) - (1 + n) = 0" using that by (simp add: ids)
          then have "length xs = 0" "length ys \<le> n" using le by linarith+
          then have "xs @ drop n ys = []" by simp
          then show ?thesis using rest tail by simp
        qed
        moreover have "\<not> length ids < 1 + n" "int (length xs) \<noteq> -1" using le by (simp_all add: ids)
        moreover have "\<not> (ecs_id_is_wildcard p \<and> ECS_IS_PAIR p \<and> ECS_PAIR_FIRST p = EcsWildcard \<and> ECS_PAIR_SECOND p \<noteq> EcsWildcard)"
          using False by blast
        ultimately show ?thesis
          using more True by (cases "length ids - (1 + n) = 0")
            (simp_all only: flecs_type_new_without_def Let_def at cm res_bind_simps nat_int if_True if_False HOL.simp_thms)
      qed
    qed
  qed
qed


section \<open>Types as sets of ids\<close>

lemmas id_constants = ecs_pair_def ecs_value_pair_def ecs_entity_t_comb_def ECS_PAIR_def ECS_VALUE_PAIR_def
  EcsWildcard_def EcsFlag_def EcsAny_def ECS_HAS_ID_FLAG_def ECS_IS_VALUE_PAIR_def ECS_IS_PAIR_def
  ECS_PAIR_FIRST_def ECS_PAIR_SECOND_def ECS_ID_FLAGS_MASK_def ECS_COMPONENT_MASK_def ecs_entity_t_lo_def
  ecs_entity_t_hi_def ecs_id_is_wildcard_def

text \<open>
  Claim C15: adding an id to the type of a table and removing ids from it, by id or by a pattern
  with wildcards, do to the sorted array of ids what insertion and removal do to a set, and the
  result is sorted again, so that it is the only type with these ids. The types are those without
  value pairs and flagged pairs, and a pattern is an id, the wildcard, or a pair of ids and
  wildcards.
\<close>

theorem type_operations_refine_sets:
  assumes "plain_type ids" "pattern_ok p"
  shows "sorted_wrt (<) (flecs_type_add ids i) \<and> set (flecs_type_add ids i) = insert i (set ids)
    \<and> flecs_type_remove ids p = Inr (filter (\<lambda>x. \<not> id_matches x p) ids)
    \<and> (\<forall>ids'. sorted_wrt (<) ids' \<and> set ids' = {x \<in> set ids. \<not> id_matches x p}
         \<longrightarrow> flecs_type_remove ids p = Inr ids')"
proof -
  have srt: "sorted_wrt (<) ids" using assms(1) by (simp add: plain_type_def)
  have r: "flecs_type_remove ids p = Inr (filter (\<lambda>x. \<not> id_matches x p) ids)"
    using type_new_without[OF assms] by (auto simp: flecs_type_remove_def filter_id_conv)
  moreover have "ids' = filter (\<lambda>x. \<not> id_matches x p) ids"
    if "sorted_wrt (<) ids'" "set ids' = {x \<in> set ids. \<not> id_matches x p}" for ids'
    using that srt by (intro sorted_types_eq) (auto simp: sorted_wrt_filter)
  ultimately show ?thesis using type_add[OF srt] by auto
qed

theorem type_operations_refine_sets_witness:
  "flecs_type_remove [400, ecs_pair 500 7, ecs_pair 500 8, ecs_pair 600 7] (ecs_pair 500 EcsWildcard)
     = Inr (filter (\<lambda>x. \<not> id_matches x (ecs_pair 500 EcsWildcard)) [400, ecs_pair 500 7, ecs_pair 500 8, ecs_pair 600 7])
   \<and> set (flecs_type_add [400, ecs_pair 500 7, ecs_pair 500 8, ecs_pair 600 7] 300)
     = {300, 400, ecs_pair 500 7, ecs_pair 500 8, ecs_pair 600 7}"
proof -
  have t: "plain_type [400, ecs_pair 500 7, ecs_pair 500 8, ecs_pair 600 7]"
    by (simp add: plain_type_def plain_id_def id_constants)
  have p: "pattern_ok (ecs_pair 500 EcsWildcard)" by (simp add: pattern_ok_def plain_id_def id_constants)
  note r = type_operations_refine_sets[OF t p, of 300]
  show ?thesis by (intro conjI) (use r in blast, use r in \<open>elim conjE, simp only: list.set\<close>)
qed

text \<open>
  Removing (R, *) stops at the first id behind the pairs of R. A value pair of R is sorted behind
  the plain pairs of other relationships, matches the pattern, and stays.
\<close>

lemma type_remove_leaves_value_pair:
  "flecs_type_remove [ecs_pair 500 7, ecs_pair 600 7, ecs_value_pair 500 3] (ecs_pair 500 EcsWildcard)
     = Inr [ecs_pair 600 7, ecs_value_pair 500 3]
   \<and> id_matches (ecs_value_pair 500 3) (ecs_pair 500 EcsWildcard)"
proof -
  have m: "ecs_id_match (ecs_pair 500 7) (ecs_pair 500 EcsWildcard) = Inr True"
    "ecs_id_match (ecs_pair 600 7) (ecs_pair 500 EcsWildcard) = Inr False"
    "id_matches (ecs_value_pair 500 3) (ecs_pair 500 EcsWildcard)"
    by (simp_all add: id_matches_def ecs_id_match_def id_constants)
  have p: "ECS_PAIR_FIRST (ecs_pair 500 EcsWildcard) \<noteq> EcsWildcard" "ecs_id_is_wildcard (ecs_pair 500 EcsWildcard)"
    by (simp_all add: id_constants)
  show ?thesis
    using m(3) by (simp add: m(1,2) p flecs_type_remove_def flecs_type_new_without_def flecs_type_find_def
        flecs_type_count_matches_def Let_def)
qed

end
