(* ===== verification/Table_Init.thy ===== *)
theory Table_Init
  imports World_Ops Table_Type
begin

text \<open>
  The creation of a table (flecs\_table\_init in storage/table.c): from the ids of its type and the
  records of the component index come its flags, its columns and the maps between ids and columns,
  its bit sets, and the records that register the table with the ids and wildcards it matches.
  Of the component index (storage/component\_index.c) the model has the lookup of a record; the
  arrays id\_index\_lo and id\_index\_hi together are one partial function on hashes, and a pointer to
  a record is its hash. Creating a record is not modelled, nor is what registers a table with the
  parents, names and base entities of its pairs: ECS\_UNSUPPORTED marks these cases, and tables with
  a ChildOf or IsA pair are among them. A record that the code takes from the previous table is
  the one a lookup finds. Reference counts of component records are left out.
\<close>

section \<open>Constants\<close>

definition EcsIdentifier :: u64 where "EcsIdentifier = 2"
definition EcsPoly :: u64 where "EcsPoly = 3"
definition EcsParent :: u64 where "EcsParent = 4"
definition EcsTreeSpawner :: u64 where "EcsTreeSpawner = 5"
definition EcsParentDepth :: u64 where "EcsParentDepth = 6"
definition EcsModule :: u64 where "EcsModule = 256 + 7"
definition EcsPrefab :: u64 where "EcsPrefab = 256 + 9"
definition EcsDisabled :: u64 where "EcsDisabled = 256 + 10"
definition EcsNotQueryable :: u64 where "EcsNotQueryable = 256 + 11"
definition EcsTransitive :: u64 where "EcsTransitive = 256 + 18"
definition EcsInheritable :: u64 where "EcsInheritable = 256 + 22"
definition EcsSingleton :: u64 where "EcsSingleton = 256 + 23"
definition EcsOnInstantiate :: u64 where "EcsOnInstantiate = 256 + 24"
definition EcsOverride :: u64 where "EcsOverride = 256 + 25"
definition EcsInherit :: u64 where "EcsInherit = 256 + 26"
definition EcsDontInherit :: u64 where "EcsDontInherit = 256 + 27"
definition EcsPairIsTag :: u64 where "EcsPairIsTag = 256 + 28"
definition EcsExclusive :: u64 where "EcsExclusive = 256 + 29"
definition EcsTraversable :: u64 where "EcsTraversable = 256 + 31"
definition EcsWith :: u64 where "EcsWith = 256 + 32"
definition EcsCanToggle :: u64 where "EcsCanToggle = 256 + 34"
definition EcsChildOf :: u64 where "EcsChildOf = 256 + 38"
definition EcsIsA :: u64 where "EcsIsA = 256 + 39"
definition EcsName :: u64 where "EcsName = 256 + 41"
definition EcsOnDeleteTarget :: u64 where "EcsOnDeleteTarget = 256 + 48"
definition EcsRemove :: u64 where "EcsRemove = 256 + 54"
definition EcsDelete :: u64 where "EcsDelete = 256 + 55"
definition EcsSparse :: u64 where "EcsSparse = 256 + 57"
definition EcsDontFragment :: u64 where "EcsDontFragment = 256 + 58"

definition FLECS_HI_COMPONENT_ID :: u64 where "FLECS_HI_COMPONENT_ID = 256"
definition EcsLastInternalComponentId :: u64 where "EcsLastInternalComponentId = EcsTreeSpawner"

definition EcsTableIsPrefab :: u32 where "EcsTableIsPrefab = push_bit 1 1"
definition EcsTableHasChildOf :: u32 where "EcsTableHasChildOf = push_bit 4 1"
definition EcsTableHasParent :: u32 where "EcsTableHasParent = push_bit 5 1"
definition EcsTableHasName :: u32 where "EcsTableHasName = push_bit 6 1"
definition EcsTableHasPairs :: u32 where "EcsTableHasPairs = push_bit 7 1"
definition EcsTableHasModule :: u32 where "EcsTableHasModule = push_bit 8 1"
definition EcsTableIsDisabled :: u32 where "EcsTableIsDisabled = push_bit 9 1"
definition EcsTableNotQueryable :: u32 where "EcsTableNotQueryable = push_bit 10 1"
definition EcsTableHasOnAdd :: u32 where "EcsTableHasOnAdd = push_bit 16 1"
definition EcsTableHasOnRemove :: u32 where "EcsTableHasOnRemove = push_bit 17 1"
definition EcsTableHasOnTableCreate :: u32 where "EcsTableHasOnTableCreate = push_bit 19 1"
definition EcsTableHasOrderedChildren :: u32 where "EcsTableHasOrderedChildren = push_bit 24 1"
definition EcsTableHasOverrides :: u32 where "EcsTableHasOverrides = push_bit 25 1"

definition EcsIdOnDeleteRemove :: u32 where "EcsIdOnDeleteRemove = push_bit 0 1"
definition EcsIdOnDeleteDelete :: u32 where "EcsIdOnDeleteDelete = push_bit 1 1"
definition EcsIdOnDeletePanic :: u32 where "EcsIdOnDeletePanic = push_bit 2 1"
definition EcsIdOnDeleteTargetRemove :: u32 where "EcsIdOnDeleteTargetRemove = push_bit 3 1"
definition EcsIdOnDeleteTargetDelete :: u32 where "EcsIdOnDeleteTargetDelete = push_bit 4 1"
definition EcsIdOnDeleteTargetPanic :: u32 where "EcsIdOnDeleteTargetPanic = push_bit 5 1"
definition EcsIdOnInstantiateOverride :: u32 where "EcsIdOnInstantiateOverride = push_bit 6 1"
definition EcsIdOnInstantiateInherit :: u32 where "EcsIdOnInstantiateInherit = push_bit 7 1"
definition EcsIdOnInstantiateDontInherit :: u32 where "EcsIdOnInstantiateDontInherit = push_bit 8 1"
definition EcsIdOnInstantiateMask :: u32 where
  "EcsIdOnInstantiateMask = EcsIdOnInstantiateOverride OR EcsIdOnInstantiateInherit OR EcsIdOnInstantiateDontInherit"
definition EcsIdExclusive :: u32 where "EcsIdExclusive = push_bit 9 1"
definition EcsIdTraversable :: u32 where "EcsIdTraversable = push_bit 10 1"
definition EcsIdPairIsTag :: u32 where "EcsIdPairIsTag = push_bit 11 1"
definition EcsIdWith :: u32 where "EcsIdWith = push_bit 12 1"
definition EcsIdCanToggle :: u32 where "EcsIdCanToggle = push_bit 13 1"
definition EcsIdIsTransitive :: u32 where "EcsIdIsTransitive = push_bit 14 1"
definition EcsIdInheritable :: u32 where "EcsIdInheritable = push_bit 15 1"
definition EcsIdHasOnAdd :: u32 where "EcsIdHasOnAdd = push_bit 16 1"
definition EcsIdHasOnRemove :: u32 where "EcsIdHasOnRemove = push_bit 17 1"
definition EcsIdHasOnSet :: u32 where "EcsIdHasOnSet = push_bit 18 1"
definition EcsIdHasOnTableCreate :: u32 where "EcsIdHasOnTableCreate = push_bit 19 1"
definition EcsIdHasOnTableDelete :: u32 where "EcsIdHasOnTableDelete = push_bit 20 1"
definition EcsIdSparse :: u32 where "EcsIdSparse = push_bit 21 1"
definition EcsIdDontFragment :: u32 where "EcsIdDontFragment = push_bit 22 1"
definition EcsIdOrderedChildren :: u32 where "EcsIdOrderedChildren = push_bit 24 1"
definition EcsIdSingleton :: u32 where "EcsIdSingleton = push_bit 25 1"
definition EcsIdEventMask :: u32 where
  "EcsIdEventMask = EcsIdHasOnAdd OR EcsIdHasOnRemove OR EcsIdHasOnSet OR EcsIdHasOnTableCreate
     OR EcsIdHasOnTableDelete OR EcsIdSparse OR EcsIdOrderedChildren"

text \<open>The macro reads an array of five; both flags at once would be outside of it.\<close>

definition ECS_ID_ON_INSTANTIATE :: "u32 \<Rightarrow> u64 res" where
  "ECS_ID_ON_INSTANTIATE flags =
     mem_get [EcsOverride, EcsOverride, EcsInherit, 0, EcsDontInherit]
       (unat (drop_bit 6 (flags AND EcsIdOnInstantiateMask)))"

section \<open>The component index\<close>

record 'v component_record =
  cr_id :: u64
  cr_flags :: u32
  cr_type_info :: "'v ecs_type_info option"
  cr_dont_fragment_tables :: "nat list"

type_synonym 'v component_index = "u64 \<Rightarrow> 'v component_record option"

definition ecs_strip_generation :: "u64 \<Rightarrow> u64" where
  "ecs_strip_generation e = (if e AND ECS_ID_FLAGS_MASK = 0 then e AND NOT ECS_GENERATION_MASK else e)"

definition flecs_component_hash :: "u64 \<Rightarrow> u64" where
  "flecs_component_hash cid =
     (let cid = ecs_strip_generation cid in
      if ECS_IS_PAIR cid then
        let r = ECS_PAIR_FIRST cid; t = ECS_PAIR_SECOND cid in
        if ECS_IS_VALUE_PAIR cid then ecs_value_pair r t
        else ecs_pair (if r = EcsAny then EcsWildcard else r) (if t = EcsAny then EcsWildcard else t)
      else cid)"

definition flecs_components_get :: "'v component_index \<Rightarrow> u64 \<Rightarrow> 'v component_record option" where
  "flecs_components_get ci cid = ci (flecs_component_hash cid)"

definition flecs_components_ensure :: "'v component_index \<Rightarrow> u64 \<Rightarrow> 'v component_record res" where
  "flecs_components_ensure ci cid =
     (case flecs_components_get ci cid of None \<Rightarrow> Inl ECS_UNSUPPORTED | Some cr \<Rightarrow> Inr cr)"

text \<open>The record that a table record points to.\<close>

definition cr_deref :: "'v component_index \<Rightarrow> u64 \<Rightarrow> 'v component_record res" where
  "cr_deref ci p = deref (ci p)"

section \<open>Flags\<close>

record init_flags =
  if_flags :: u32
  if_traits :: u32
  if_bs_offset :: nat
  if_bs_count :: nat

definition flag_on :: "u32 \<Rightarrow> init_flags \<Rightarrow> init_flags" where
  "flag_on f st = st\<lparr>if_flags := if_flags st OR f\<rparr>"

definition trait_on :: "u32 \<Rightarrow> init_flags \<Rightarrow> init_flags" where
  "trait_on f st = st\<lparr>if_traits := if_traits st OR f\<rparr>"

text \<open>The step of the loop for the id at position \<open>i\<close>.\<close>

definition init_flag :: "'v component_index \<Rightarrow> nat \<Rightarrow> u64 \<Rightarrow> init_flags \<Rightarrow> init_flags res" where
  "init_flag ci i cid st =
     res_bind (flecs_components_ensure ci
         (if ECS_IS_PAIR cid then ecs_pair (ECS_PAIR_FIRST cid) EcsWildcard else cid)) (\<lambda>id_cr.
     ecs_assert (cr_flags id_cr AND EcsIdDontFragment = 0) ECS_INVALID_OPERATION
     (let st = (if cid \<le> EcsLastInternalComponentId then flag_on EcsTableHasModule st else st) in
      if cid = EcsModule then Inr (flag_on EcsTableHasModule st)
      else if cid = EcsPrefab then Inr (flag_on EcsTableIsPrefab st)
      else if cid = EcsDisabled then Inr (flag_on EcsTableIsDisabled st)
      else if cid = EcsNotQueryable then Inr (flag_on EcsTableNotQueryable st)
      else if cid = EcsParent then Inr (trait_on EcsIdTraversable (flag_on EcsTableHasParent st))
      else if ECS_PAIR_FIRST cid = EcsWith then Inr (trait_on EcsIdWith st)
      else if ECS_PAIR_FIRST cid = EcsOnDelete then
        let on_delete_kind = ECS_PAIR_SECOND cid in
        Inr (if on_delete_kind = EcsRemove then trait_on EcsIdOnDeleteRemove st
             else if on_delete_kind = EcsDelete then trait_on EcsIdOnDeleteDelete st
             else if on_delete_kind = EcsPanic then trait_on EcsIdOnDeletePanic st
             else st)
      else if ECS_PAIR_FIRST cid = EcsOnDeleteTarget then
        let on_delete_kind = ECS_PAIR_SECOND cid in
        Inr (if on_delete_kind = EcsRemove then trait_on EcsIdOnDeleteTargetRemove st
             else if on_delete_kind = EcsDelete then trait_on EcsIdOnDeleteTargetDelete st
             else if on_delete_kind = EcsPanic then trait_on EcsIdOnDeleteTargetPanic st
             else st)
      else if ECS_PAIR_FIRST cid = EcsOnInstantiate then
        let inherit_kind = ECS_PAIR_SECOND cid in
        Inr (if inherit_kind = EcsInherit then trait_on EcsIdOnInstantiateInherit st
             else if inherit_kind = EcsDontInherit then trait_on EcsIdOnInstantiateDontInherit st
             else if inherit_kind = EcsOverride then trait_on EcsIdOnInstantiateOverride st
             else st)
      else if cid = EcsCanToggle then Inr (trait_on EcsIdCanToggle st)
      else if cid = EcsInheritable then Inr (trait_on EcsIdInheritable st)
      else if cid = EcsSingleton then Inr (trait_on EcsIdSingleton st)
      else if cid = EcsSparse then Inr (trait_on EcsIdSparse st)
      else if cid = EcsDontFragment then Inr (trait_on EcsIdDontFragment st)
      else if cid = EcsExclusive then Inr (trait_on EcsIdExclusive st)
      else if cid = EcsTraversable then Inr (trait_on EcsIdTraversable st)
      else if cid = EcsPairIsTag then Inr (trait_on EcsIdPairIsTag st)
      else if cid = EcsTransitive then Inr (trait_on EcsIdIsTransitive st)
      else if ECS_IS_PAIR cid then
        let r = ECS_PAIR_FIRST cid; st = flag_on EcsTableHasPairs st in
        if r = EcsIsA \<or> r = EcsChildOf then Inl ECS_UNSUPPORTED
        else Inr (if cid = ecs_pair EcsIdentifier EcsName then flag_on EcsTableHasName st
                  else if r = EcsPoly then flag_on EcsTableHasModule st
                  else st)
      else
        let st = (if ECS_HAS_ID_FLAG cid ECS_TOGGLE
                  then let st = flag_on EcsTableHasToggle st;
                           st = (if if_bs_count st = 0 then st\<lparr>if_bs_offset := i\<rparr> else st)
                       in st\<lparr>if_bs_count := if_bs_count st + 1\<rparr>
                  else st)
        in Inr (if ECS_HAS_ID_FLAG cid ECS_AUTO_OVERRIDE then flag_on EcsTableHasOverrides st else st)))"

fun init_flags_loop :: "'v component_index \<Rightarrow> nat \<Rightarrow> u64 list \<Rightarrow> init_flags \<Rightarrow> init_flags res" where
  "init_flags_loop ci i [] st = Inr st"
| "init_flags_loop ci i (cid # ids) st =
     res_bind (init_flag ci i cid st) (\<lambda>st. init_flags_loop ci (Suc i) ids st)"

definition flecs_table_init_flags :: "'v component_index \<Rightarrow> u64 list \<Rightarrow> init_flags res" where
  "flecs_table_init_flags ci ids =
     init_flags_loop ci 0 ids \<lparr>if_flags = 0, if_traits = 0, if_bs_offset = 0, if_bs_count = 0\<rparr>"

section \<open>Records\<close>

text \<open>
  \<open>tr_cached\<close> marks the records that are in the table cache of their component already. The column
  of a record is set when all of them are there; before that it is -1.
\<close>

record table_record =
  tr_cr :: u64
  tr_index :: int
  tr_count :: nat
  tr_column :: int
  tr_cached :: bool

definition new_record :: "u64 \<Rightarrow> int \<Rightarrow> nat \<Rightarrow> bool \<Rightarrow> table_record" where
  "new_record p i n cached = \<lparr>tr_cr = p, tr_index = i, tr_count = n, tr_column = -1, tr_cached = cached\<rparr>"

definition flecs_ito_int16 :: "int \<Rightarrow> int res" where
  "flecs_ito_int16 v = ecs_assert (- (2 ^ 15) \<le> v \<and> v < 2 ^ 15) ECS_INVALID_CONVERSION (Inr v)"

fun base_records :: "'v component_index \<Rightarrow> nat \<Rightarrow> u64 list \<Rightarrow> table_record list res" where
  "base_records ci i [] = Inr []"
| "base_records ci i (cid # ids) =
     res_bind (flecs_components_ensure ci cid) (\<lambda>cr.
     res_bind (flecs_ito_int16 (int i)) (\<lambda>index.
     res_bind (base_records ci (Suc i) ids) (\<lambda>rest.
     Inr (new_record (flecs_component_hash cid) index 1 False # rest))))"

fun find_cached :: "u64 \<Rightarrow> nat \<Rightarrow> table_record list \<Rightarrow> nat option" where
  "find_cached p i [] = None"
| "find_cached p i (tr # trs) = (if tr_cached tr \<and> tr_cr tr = p then Some i else find_cached p (Suc i) trs)"

definition bump :: "table_record list \<Rightarrow> nat \<Rightarrow> table_record list" where
  "bump trs i = trs[i := (trs ! i)\<lparr>tr_count := tr_count (trs ! i) + 1\<rparr>]"

definition flecs_table_append_to_records ::
    "'v component_index \<Rightarrow> table_record list \<Rightarrow> u64 \<Rightarrow> nat \<Rightarrow> table_record list res" where
  "flecs_table_append_to_records ci trs cid column =
     res_bind (flecs_components_ensure ci cid) (\<lambda>cr.
     case find_cached (flecs_component_hash cid) 0 trs of
       None \<Rightarrow> res_bind (flecs_ito_int16 (int column)) (\<lambda>index.
               Inr (trs @ [new_record (flecs_component_hash cid) index 1 True]))
     | Some i \<Rightarrow> Inr (bump trs i))"

text \<open>Records for ids with roles, from the first of them on.\<close>

fun role_records :: "'v component_index \<Rightarrow> nat \<Rightarrow> u64 list \<Rightarrow> table_record list \<Rightarrow> table_record list res" where
  "role_records ci i [] trs = Inr trs"
| "role_records ci i (cid # ids) trs =
     res_bind
       (if \<not> ECS_IS_PAIR cid then
          let (first, second) = (if ECS_HAS_ID_FLAG cid ECS_PAIR then (ECS_PAIR_FIRST cid, ECS_PAIR_SECOND cid)
                                 else (cid AND ECS_COMPONENT_MASK, 0)) in
          res_bind (if first \<noteq> 0 then flecs_table_append_to_records ci trs (ecs_pair EcsFlag first) i else Inr trs) (\<lambda>trs.
          if second \<noteq> 0 then flecs_table_append_to_records ci trs (ecs_pair EcsFlag second) i else Inr trs)
        else Inr trs)
       (\<lambda>trs. role_records ci (Suc i) ids trs)"

text \<open>
  A record (R, *) for every relationship. Its counter grows as long as the relationship stays the
  same; \<open>r\<close> is the current one. A pair of EcsFlag has no parent record.
\<close>

fun relation_records ::
    "'v component_index \<Rightarrow> u64 \<Rightarrow> nat \<Rightarrow> u64 list \<Rightarrow> table_record list \<Rightarrow> (table_record list \<times> nat) res" where
  "relation_records ci r i [] trs = Inr (trs, i)"
| "relation_records ci r i (cid # ids) trs =
     (if \<not> ECS_IS_PAIR cid then Inr (trs, i)
      else
        res_bind
          (if r \<noteq> ECS_PAIR_FIRST cid then
             let p = ecs_pair (ECS_PAIR_FIRST cid) EcsWildcard in
             ecs_assert (ECS_PAIR_FIRST cid \<noteq> EcsFlag \<and> \<not> ecs_id_is_wildcard cid) ECS_INTERNAL_ERROR
             (ecs_assert (flecs_components_get ci p \<noteq> None) ECS_INTERNAL_ERROR
             (res_bind (flecs_ito_int16 (int i)) (\<lambda>index.
              Inr (trs @ [new_record (flecs_component_hash p) index 0 False]))))
           else Inr trs)
          (\<lambda>trs. ecs_assert (trs \<noteq> []) ECS_INTERNAL_ERROR
             (relation_records ci (ECS_PAIR_FIRST cid) (Suc i) ids (bump trs (length trs - 1)))))"

fun target_records :: "'v component_index \<Rightarrow> nat \<Rightarrow> u64 list \<Rightarrow> table_record list \<Rightarrow> table_record list res" where
  "target_records ci i [] trs = Inr trs"
| "target_records ci i (cid # ids) trs =
     res_bind (if ECS_IS_VALUE_PAIR cid then Inr trs
               else flecs_table_append_to_records ci trs (ecs_pair EcsWildcard (ECS_PAIR_SECOND cid)) i) (\<lambda>trs.
     target_records ci (Suc i) ids trs)"

text \<open>The scan for the boundaries of regular ids, pairs and roles; -1 when there are none.\<close>

fun first_index :: "(u64 \<Rightarrow> bool) \<Rightarrow> nat \<Rightarrow> u64 list \<Rightarrow> int" where
  "first_index P i [] = -1"
| "first_index P i (cid # ids) = (if P cid then int i else first_index P (Suc i) ids)"

fun last_index :: "(u64 \<Rightarrow> bool) \<Rightarrow> nat \<Rightarrow> u64 list \<Rightarrow> int \<Rightarrow> int" where
  "last_index P i [] l = l"
| "last_index P i (cid # ids) l = last_index P (Suc i) ids (if P cid then int i else l)"

definition is_regular :: "u64 \<Rightarrow> bool" where "is_regular cid \<longleftrightarrow> cid AND ECS_COMPONENT_MASK = cid"

definition is_role :: "u64 \<Rightarrow> bool" where "is_role cid \<longleftrightarrow> \<not> is_regular cid \<and> \<not> ECS_IS_PAIR cid"

text \<open>All records of a table without ChildOf pair; \<open>has_childof\<close> is that it has the Parent component.\<close>

definition table_records :: "'v component_index \<Rightarrow> bool \<Rightarrow> u64 list \<Rightarrow> table_record list res" where
  "table_records ci has_childof ids =
     (let last_id = last_index is_regular 0 ids (-1);
          first_pair = first_index ECS_IS_PAIR 0 ids;
          first_role = first_index is_role 0 ids
      in
      res_bind (base_records ci 0 ids) (\<lambda>trs.
      res_bind (if first_role \<noteq> -1 then role_records ci (nat first_role) (drop (nat first_role) ids) trs else Inr trs) (\<lambda>trs.
      res_bind (if first_pair \<noteq> -1 then
                  res_bind (relation_records ci 0 (nat first_pair) (drop (nat first_pair) ids) trs) (\<lambda>(trs, last_pair).
                  res_bind (target_records ci (nat first_pair)
                              (take (last_pair - nat first_pair) (drop (nat first_pair) ids)) trs) (\<lambda>trs.
                  Inr (trs, int last_pair)))
                else Inr (trs, -1)) (\<lambda>(trs, last_pair).
      res_bind (if 0 \<le> last_id then
                  res_bind (flecs_ito_int16 (last_id + 1)) (\<lambda>n.
                  Inr (trs @ [new_record EcsWildcard 0 (nat n) False])) else Inr trs) (\<lambda>trs.
      res_bind (if last_pair - first_pair \<noteq> 0 then
                  res_bind (flecs_ito_int16 first_pair) (\<lambda>index.
                  res_bind (flecs_ito_int16 (last_pair - first_pair)) (\<lambda>n.
                  Inr (trs @ [new_record (ecs_pair EcsWildcard EcsWildcard) index (nat n) False]))) else Inr trs) (\<lambda>trs.
      Inr (if \<not> has_childof then trs @ [new_record (ecs_pair EcsChildOf 0) (-1) 0 False] else trs)))))))"

definition flecs_table_bloom_filter_add :: "u64 \<Rightarrow> u64 \<Rightarrow> u64" where
  "flecs_table_bloom_filter_add filt value = filt OR push_bit (unat (value mod 64)) 1"

definition flecs_table_bloom_filter_test :: "u64 \<Rightarrow> u64 \<Rightarrow> bool" where
  "flecs_table_bloom_filter_test table_filter filt \<longleftrightarrow> table_filter AND filt = filt"

section \<open>Columns\<close>

text \<open>The maps that are filled: ids below 256 to columns, types to columns and back.\<close>

record 'v init_columns =
  ic_component_map :: "int list"
  ic_column_map :: "int list"
  ic_columns :: "'v ecs_column list"
  ic_records :: "table_record list"
  ic_flags :: u32

fun map_tags :: "nat \<Rightarrow> u64 list \<Rightarrow> int list \<Rightarrow> int list res" where
  "map_tags i [] cmap = Inr cmap"
| "map_tags i (cid # ids) cmap =
     res_bind (if cid < FLECS_HI_COMPONENT_ID
               then res_bind (flecs_ito_int16 (- (int i + 1))) (\<lambda>v. mem_set cmap (unat cid) v) else Inr cmap)
       (\<lambda>cmap. map_tags (Suc i) ids cmap)"

definition record_column :: "table_record list \<Rightarrow> nat \<Rightarrow> int \<Rightarrow> table_record list res" where
  "record_column trs i c = res_bind (mem_get trs i) (\<lambda>tr. mem_set trs i (tr\<lparr>tr_column := c\<rparr>))"

text \<open>
  \<open>n\<close> is the number of ids, after which the second half of the column map starts, \<open>column_count\<close>
  the size of the array of columns; the columns that are set are those in \<open>ic_columns\<close>.
\<close>

fun init_columns_loop ::
    "'v component_index \<Rightarrow> nat \<Rightarrow> nat \<Rightarrow> nat \<Rightarrow> u64 list \<Rightarrow> 'v init_columns \<Rightarrow> 'v init_columns res" where
  "init_columns_loop ci n column_count i [] st = Inr st"
| "init_columns_loop ci n column_count i (cid # ids) st =
     res_bind (mem_get (ic_records st) i) (\<lambda>tr.
     res_bind (cr_deref ci (tr_cr tr)) (\<lambda>cr.
     res_bind
       (case cr_type_info cr of
          None \<Rightarrow> res_bind (mem_set (ic_column_map st) i (-1)) (\<lambda>m. Inr (st\<lparr>ic_column_map := m\<rparr>))
        | Some ti \<Rightarrow>
            if cr_flags cr AND EcsIdSparse \<noteq> 0
            then res_bind (mem_set (ic_column_map st) i (-1)) (\<lambda>m. Inr (st\<lparr>ic_column_map := m\<rparr>))
            else
              let cur = length (ic_columns st) in
              res_bind (mem_set (ic_column_map st) i (int cur)) (\<lambda>m.
              res_bind (mem_set m (n + cur) (int i)) (\<lambda>m.
              res_bind (flecs_ito_int16 (int cur)) (\<lambda>c.
              res_bind (record_column (ic_records st) i c) (\<lambda>trs.
              if column_count \<le> cur then Inl MEMORY_FAULT
              else
                res_bind (if cid < FLECS_HI_COMPONENT_ID
                          then res_bind (flecs_ito_int16 (int cur + 1)) (\<lambda>v. mem_set (ic_component_map st) (unat cid) v)
                          else Inr (ic_component_map st)) (\<lambda>cmap.
                Inr (st\<lparr>ic_component_map := cmap, ic_column_map := m, ic_records := trs,
                        ic_columns := ic_columns st @ [\<lparr>col_data = [], col_ti = ti\<rparr>],
                        ic_flags := ic_flags st OR flecs_type_info_flags ti\<rparr>)))))))
       (\<lambda>st. init_columns_loop ci n column_count (Suc i) ids st)))"

text \<open>The columns of the records for wildcards, which follow those for the ids.\<close>

fun wildcard_columns :: "'v component_index \<Rightarrow> nat \<Rightarrow> nat \<Rightarrow> table_record list \<Rightarrow> table_record list res" where
  "wildcard_columns ci i 0 trs = Inr trs"
| "wildcard_columns ci i (Suc k) trs =
     res_bind (mem_get trs i) (\<lambda>tr.
     res_bind (cr_deref ci (tr_cr tr)) (\<lambda>cr.
     res_bind (if ecs_id_is_wildcard (cr_id cr) then
                 res_bind (int_index (tr_index tr)) (\<lambda>j.
                 res_bind (mem_get trs j) (\<lambda>first_tr. record_column trs i (tr_column first_tr)))
               else Inr trs)
       (\<lambda>trs. wildcard_columns ci (Suc i) k trs)))"

definition flecs_table_init_columns ::
    "'v component_index \<Rightarrow> u64 list \<Rightarrow> table_record list \<Rightarrow> nat \<Rightarrow> u32 \<Rightarrow> 'v init_columns res" where
  "flecs_table_init_columns ci ids trs column_count flags =
     res_bind (flecs_ito_int16 (int (length ids))) (\<lambda>_.
     res_bind (map_tags 0 ids (replicate 256 0)) (\<lambda>cmap.
     let st = \<lparr>ic_component_map = cmap, ic_column_map = [], ic_columns = [], ic_records = trs, ic_flags = flags\<rparr> in
     if column_count = 0 then Inr st
     else
       let st = st\<lparr>ic_column_map := replicate (length ids + column_count) 0\<rparr> in
       res_bind (init_columns_loop ci (length ids) column_count 0 ids st) (\<lambda>st.
       res_bind (wildcard_columns ci (length ids) (length (ic_records st) - length ids) (ic_records st)) (\<lambda>trs.
       Inr (st\<lparr>ic_records := trs\<rparr>)))))"

section \<open>Initialising a table\<close>

text \<open>What a table has beside its storage.\<close>

record table_meta =
  tm_records :: "table_record list"
  tm_component_map :: "int list"
  tm_trait_flags :: u32
  tm_bloom_filter :: u64

text \<open>The loop that registers the records, from record \<open>i\<close> on; \<open>n\<close> is the number of ids.\<close>

fun register_records :: "'v component_index \<Rightarrow> nat \<Rightarrow> nat \<Rightarrow> table_record list \<Rightarrow> u32 \<times> nat \<Rightarrow> (u32 \<times> nat) res" where
  "register_records ci n i [] st = Inr st"
| "register_records ci n i (tr # trs) (flags, column_count) =
     res_bind (cr_deref ci (tr_cr tr)) (\<lambda>cr.
     res_bind (ECS_ID_ON_INSTANTIATE (cr_flags cr)) (\<lambda>on_instantiate.
     let flags = flags OR (cr_flags cr AND EcsIdEventMask);
         flags = (if on_instantiate = EcsOverride then flags OR EcsTableHasOverrides else flags);
         column_count = (if i < n \<and> cr_type_info cr \<noteq> None \<and> cr_flags cr AND EcsIdSparse = 0
                         then column_count + 1 else column_count)
     in register_records ci n (Suc i) trs (flags, column_count)))"

text \<open>
  Left out are the assertion that registering a table does not reallocate its records and the
  creation of the index of names in the record of the parent of a table with names.
\<close>

definition flecs_table_init :: "'v component_index \<Rightarrow> u64 list \<Rightarrow> ('v ecs_table \<times> table_meta) res" where
  "flecs_table_init ci ids =
     res_bind (flecs_table_init_flags ci ids) (\<lambda>fl.
     let has_childof = (if_flags fl AND (EcsTableHasChildOf OR EcsTableHasParent) \<noteq> 0);
         bloom = fold (\<lambda>cid f. flecs_table_bloom_filter_add f cid) ids 0
     in
     res_bind (table_records ci has_childof ids) (\<lambda>trs.
     let bloom = (if \<not> has_childof then flecs_table_bloom_filter_add bloom (ecs_pair EcsChildOf 0) else bloom) in
     res_bind (flecs_ito_int16 (int (length trs))) (\<lambda>_.
     res_bind (register_records ci (length ids) 0 trs (if_flags fl, 0)) (\<lambda>(flags, column_count).
     res_bind (cr_deref ci EcsAny) (\<lambda>any_cr.
     let flags = flags OR (cr_flags any_cr AND EcsIdEventMask) in
     res_bind (flecs_ito_int16 (int column_count)) (\<lambda>_.
     res_bind (flecs_table_init_columns ci ids trs column_count flags) (\<lambda>cols.
     if ic_flags cols AND EcsTableHasOnTableCreate \<noteq> 0 then Inl ECS_UNSUPPORTED
     else Inr
       (\<lparr>t_type = ids, t_column_map = ic_column_map cols, t_columns = ic_columns cols,
         t_entities = [], t_count = 0, t_size = 0, t_flags = ic_flags cols,
         t_bs_columns = replicate (if_bs_count fl) flecs_bitset_init, t_bs_offset = if_bs_offset fl,
         t_lock = 0, t_traversable = 0, t_dirty = [], t_version = 1\<rparr>,
        \<lparr>tm_records = ic_records cols, tm_component_map = ic_component_map cols,
         tm_trait_flags = if_traits fl, tm_bloom_filter = bloom\<rparr>))))))))"

end
