(* ===== verification/Table_Records.thy ===== *)
theory Table_Records
  imports Table_Init
begin

text \<open>
  Creating a table succeeds when its ids have records in the component index, and gives a
  well-formed empty table: the flags and bit sets of its type, one column for every id with data,
  and a record for every id and wildcard pattern that the ids match.
\<close>

section \<open>What a table needs of the component index\<close>

text \<open>
  The patterns that a table is registered with: its ids, the wildcards of its pairs, the flag
  patterns of its toggles and overrides, and the patterns of every table.
\<close>

definition id_patterns :: "u64 \<Rightarrow> u64 set" where
  "id_patterns i = insert i
     (if ECS_IS_PAIR i then {ecs_pair (ECS_PAIR_FIRST i) EcsWildcard, ecs_pair EcsWildcard (ECS_PAIR_SECOND i)}
      else {ecs_pair EcsFlag (i AND ECS_COMPONENT_MASK)})"

definition table_patterns :: "u64 list \<Rightarrow> u64 set" where
  "table_patterns ids = {EcsWildcard, EcsAny, ecs_pair EcsWildcard EcsWildcard, ecs_pair EcsChildOf 0}
     \<union> (\<Union>i\<in>set ids. id_patterns i)"

text \<open>A record that does not keep its id out of tables, with the contract of its type.\<close>

definition cr_ok :: "('v::zero) component_record \<Rightarrow> bool" where
  "cr_ok cr \<longleftrightarrow> cr_flags cr AND EcsIdDontFragment = 0 \<and> cr_flags cr AND EcsIdHasOnTableCreate = 0
     \<and> drop_bit 6 (cr_flags cr AND EcsIdOnInstantiateMask) < 5
     \<and> (\<forall>ti. cr_type_info cr = Some ti \<longrightarrow> ti_lawful ti \<and> ti_size ti \<noteq> 0)"

definition index_ready :: "('v::zero) component_index \<Rightarrow> u64 list \<Rightarrow> bool" where
  "index_ready ci ids \<longleftrightarrow> (\<forall>p\<in>table_patterns ids. \<exists>cr. ci (flecs_component_hash p) = Some cr \<and> cr_ok cr
     \<and> flecs_component_hash (cr_id cr) = flecs_component_hash p)"

text \<open>
  An id of a table that is modelled: no wildcard, also with a generation, no pair with EcsFlag, IsA or ChildOf, and a flagged id does
  not have in its upper half the number of a trait relationship.
\<close>

definition table_id :: "u64 \<Rightarrow> bool" where
  "table_id i \<longleftrightarrow> plain_id i \<and> \<not> ecs_id_is_wildcard i \<and> flecs_component_hash i \<noteq> EcsWildcard
     \<and> (if ECS_IS_PAIR i then ECS_PAIR_FIRST i \<notin> {EcsFlag, EcsIsA, EcsChildOf}
        else ECS_PAIR_FIRST i \<notin> {EcsWith, EcsOnDelete, EcsOnDeleteTarget, EcsOnInstantiate})"

definition table_type :: "u64 list \<Rightarrow> bool" where
  "table_type ids \<longleftrightarrow> sorted_wrt (<) ids \<and> (\<forall>i\<in>set ids. table_id i) \<and> length ids < 10000"

lemmas table_flags = EcsTableHasIsA_def EcsTableHasToggle_def EcsTableHasTraversable_def EcsTableHasModule_def EcsTableIsPrefab_def EcsTableIsDisabled_def
  EcsTableNotQueryable_def EcsTableHasParent_def EcsTableHasPairs_def EcsTableHasName_def EcsTableHasOverrides_def
  EcsTableHasOnTableCreate_def EcsTableHasCtors_def EcsTableHasDtors_def EcsTableHasCopy_def EcsTableHasMove_def

lemmas trait_ids = EcsModule_def EcsPrefab_def EcsDisabled_def EcsNotQueryable_def EcsParent_def EcsCanToggle_def
  EcsInheritable_def EcsSingleton_def EcsSparse_def EcsDontFragment_def EcsExclusive_def EcsTraversable_def
  EcsPairIsTag_def EcsTransitive_def

lemma index_ready_at:
  assumes "index_ready ci ids" "p \<in> table_patterns ids"
  obtains cr where "flecs_components_get ci p = Some cr" "flecs_components_ensure ci p = Inr cr"
    "cr_deref ci (flecs_component_hash p) = Inr cr" "cr_ok cr" "flecs_component_hash (cr_id cr) = flecs_component_hash p"
  using assms by (auto simp: index_ready_def flecs_components_get_def flecs_components_ensure_def cr_deref_def)

lemma in_patterns:
  assumes "i \<in> set ids"
  shows "i \<in> table_patterns ids" "ECS_IS_PAIR i \<Longrightarrow> ecs_pair (ECS_PAIR_FIRST i) EcsWildcard \<in> table_patterns ids"
    "ECS_IS_PAIR i \<Longrightarrow> ecs_pair EcsWildcard (ECS_PAIR_SECOND i) \<in> table_patterns ids"
    "\<not> ECS_IS_PAIR i \<Longrightarrow> ecs_pair EcsFlag (i AND ECS_COMPONENT_MASK) \<in> table_patterns ids"
  using assms by (auto simp: table_patterns_def id_patterns_def)

section \<open>Flags\<close>

definition toggled :: "u64 \<Rightarrow> bool" where "toggled i \<longleftrightarrow> ECS_HAS_ID_FLAG i ECS_TOGGLE"

lemma toggles_toggled: "toggles ids = filter toggled ids"
  by (simp add: toggles_def toggled_def[abs_def])

lemma toggled_bit: "toggled i \<longleftrightarrow> bit i 61"
proof -
  have "i AND ECS_TOGGLE = (if bit i 61 then ECS_TOGGLE else 0)"
    by (rule bit_word_eqI) (auto simp: bit_and_iff id_bits)
  moreover have "ECS_TOGGLE \<noteq> 0" by (simp add: ECS_TOGGLE_def)
  ultimately show ?thesis by (simp add: toggled_def ECS_HAS_ID_FLAG_def)
qed

lemma pair_not_toggled:
  assumes "plain_id i" "ECS_IS_PAIR i"
  shows "\<not> toggled i" "i AND ECS_ID_FLAGS_MASK = ECS_PAIR"
proof -
  have f: "i AND ECS_ID_FLAGS_MASK = ECS_PAIR \<or> i AND ECS_ID_FLAGS_MASK = ECS_VALUE_PAIR"
    using assms(2) by (auto simp: ECS_IS_PAIR_def ECS_IS_VALUE_PAIR_def)
  have b: "bit i n = bit (i AND ECS_ID_FLAGS_MASK) n" if "60 \<le> n" "n < 64" for n
    using that by (auto simp only: bit_and_iff id_bits)
  show p: "i AND ECS_ID_FLAGS_MASK = ECS_PAIR"
  proof (rule ccontr)
    assume n: "i AND ECS_ID_FLAGS_MASK \<noteq> ECS_PAIR"
    then have "bit i 63" using f b[of 63] by (simp add: ECS_VALUE_PAIR_def bit_or_iff bit_push_bit_iff)
    then have "ECS_HAS_ID_FLAG i ECS_PAIR" by (simp add: has_pair_flag)
    then show False using assms(1) n by (simp add: plain_id_def)
  qed
  show "\<not> toggled i" using b[of 61] unfolding p toggled_bit by (simp add: id_bits)
qed

text \<open>What the loop over the ids keeps, and how it counts the toggles.\<close>

definition flags_step :: "u64 \<Rightarrow> nat \<Rightarrow> init_flags \<Rightarrow> init_flags \<Rightarrow> bool" where
  "flags_step cid i st st' \<longleftrightarrow>
     if_flags st' AND EcsTableHasIsA = if_flags st AND EcsTableHasIsA
     \<and> if_flags st' AND EcsTableHasTraversable = if_flags st AND EcsTableHasTraversable
     \<and> if_flags st' AND EcsTableHasOnTableCreate = if_flags st AND EcsTableHasOnTableCreate
     \<and> if_flags st' AND EcsTableHasToggle = (if_flags st OR (if toggled cid then EcsTableHasToggle else 0)) AND EcsTableHasToggle
     \<and> if_bs_count st' = if_bs_count st + (if toggled cid then 1 else 0)
     \<and> if_bs_offset st' = (if toggled cid \<and> if_bs_count st = 0 then i else if_bs_offset st)"

lemma flag_on_simps [simp]:
  "if_flags (flag_on f st) = if_flags st OR f" "if_bs_count (flag_on f st) = if_bs_count st"
  "if_bs_offset (flag_on f st) = if_bs_offset st" "if_flags (trait_on f st) = if_flags st"
  "if_bs_count (trait_on f st) = if_bs_count st" "if_bs_offset (trait_on f st) = if_bs_offset st"
  by (simp_all add: flag_on_def trait_on_def)

lemma small_not_toggled: "i < 2 ^ 60 \<Longrightarrow> \<not> toggled i"
proof
  assume "i < 2 ^ 60" "toggled i"
  then have "unat i div 2 ^ 60 = 0" by (simp add: word_less_nat_alt)
  then have "drop_bit 60 i = 0" by (simp add: unat_eq_zero[symmetric] drop_bit_eq_div unat_div)
  then have "\<not> bit (drop_bit 60 i) 1" by simp
  then show False using \<open>toggled i\<close> by (simp add: toggled_bit bit_drop_bit_eq)
qed

text \<open>Steps for ids without toggle only set other flags.\<close>

definition quiet :: "init_flags \<Rightarrow> init_flags \<Rightarrow> bool" where
  "quiet st st' \<longleftrightarrow> (\<forall>f\<in>{EcsTableHasIsA, EcsTableHasTraversable, EcsTableHasOnTableCreate, EcsTableHasToggle}.
       if_flags st' AND f = if_flags st AND f)
     \<and> if_bs_count st' = if_bs_count st \<and> if_bs_offset st' = if_bs_offset st"

definition quiet_flags :: "u32 set" where
  "quiet_flags = {EcsTableHasModule, EcsTableIsPrefab, EcsTableIsDisabled, EcsTableNotQueryable, EcsTableHasParent,
     EcsTableHasPairs, EcsTableHasName, EcsTableHasOverrides}"

lemma quiet_flags_and: "f \<in> quiet_flags \<Longrightarrow> f AND EcsTableHasIsA = 0" "f \<in> quiet_flags \<Longrightarrow> f AND EcsTableHasTraversable = 0"
  "f \<in> quiet_flags \<Longrightarrow> f AND EcsTableHasOnTableCreate = 0" "f \<in> quiet_flags \<Longrightarrow> f AND EcsTableHasToggle = 0"
  by (auto simp: quiet_flags_def table_flags)

lemma toggle_flag_and: "EcsTableHasToggle AND EcsTableHasIsA = 0" "EcsTableHasToggle AND EcsTableHasTraversable = 0"
  "EcsTableHasToggle AND EcsTableHasOnTableCreate = 0"
  by (simp_all add: table_flags)

lemma quiet_intros:
  "quiet st st" "quiet st st' \<Longrightarrow> quiet st (trait_on f st')"
  "quiet st st' \<Longrightarrow> f \<in> quiet_flags \<Longrightarrow> quiet st (flag_on f st')"
  "(c \<Longrightarrow> quiet st a) \<Longrightarrow> (\<not> c \<Longrightarrow> quiet st b) \<Longrightarrow> quiet st (if c then a else b)"
  by (simp_all add: quiet_def bit.conj_disj_distrib2 quiet_flags_and)

lemma quiet_if_res:
  assumes "c \<Longrightarrow> \<exists>st'. a = Inr st' \<and> quiet st st'" "\<not> c \<Longrightarrow> \<exists>st'. b = Inr st' \<and> quiet st st'"
  shows "\<exists>st'. (if c then a else b) = Inr st' \<and> quiet st st'"
  using assms by simp

lemma quiet_Inr: "quiet st st' \<Longrightarrow> \<exists>st''. (Inr st' :: init_flags res) = Inr st'' \<and> quiet st st''"
  by simp

lemma init_flag_ok:
  assumes i: "table_id cid" "index_ready ci ids" "cid \<in> set ids"
  obtains st' where "init_flag ci i cid st = Inr st'" "flags_step cid i st st'"
proof -
  obtain cr where cr: "flecs_components_ensure ci (if ECS_IS_PAIR cid then ecs_pair (ECS_PAIR_FIRST cid) EcsWildcard else cid) = Inr cr" "cr_ok cr"
  proof -
    have "(if ECS_IS_PAIR cid then ecs_pair (ECS_PAIR_FIRST cid) EcsWildcard else cid) \<in> table_patterns ids"
      using in_patterns(1,2)[OF i(3)] by simp
    then show thesis by (rule index_ready_at[OF i(2)]) (rule that)
  qed
  have small: "\<not> toggled cid" if "cid < 2 ^ 60" using that by (rule small_not_toggled)
  have pair: "\<not> toggled cid" if "ECS_IS_PAIR cid" using that i(1) pair_not_toggled by (simp add: table_id_def)
  have nopair: "ECS_PAIR_FIRST cid \<notin> {EcsWith, EcsOnDelete, EcsOnDeleteTarget, EcsOnInstantiate}" if "\<not> ECS_IS_PAIR cid"
    using that i(1) by (simp add: table_id_def)
  have d: "cr_flags cr AND EcsIdDontFragment = 0" using cr(2) by (simp add: cr_ok_def)
  have a: "\<not> (ECS_IS_PAIR cid \<and> (ECS_PAIR_FIRST cid = EcsIsA \<or> ECS_PAIR_FIRST cid = EcsChildOf))"
    using i(1) by (auto simp: table_id_def)
  have "\<exists>st'. init_flag ci i cid st = Inr st' \<and> flags_step cid i st st'"
  proof (cases "toggled cid")
    case True
    have n: "\<not> cid < 2 ^ 60" "\<not> ECS_IS_PAIR cid" using True small pair by auto
    then have "\<not> cid \<le> EcsLastInternalComponentId" "cid \<notin> {EcsModule, EcsPrefab, EcsDisabled, EcsNotQueryable,
        EcsParent, EcsCanToggle, EcsInheritable, EcsSingleton, EcsSparse, EcsDontFragment, EcsExclusive, EcsTraversable,
        EcsPairIsTag, EcsTransitive}"
      by (auto simp: EcsLastInternalComponentId_def EcsTreeSpawner_def trait_ids word_less_nat_alt word_le_nat_alt)
    moreover have c: "flecs_components_ensure ci cid = Inr cr" using cr(1) n(2) by simp
    ultimately show ?thesis using n(2) nopair[OF n(2)] True
      by (auto simp: init_flag_def c d Let_def toggled_def[symmetric] flags_step_def quiet_def flag_on_def trait_on_def
        bit.conj_disj_distrib2 quiet_flags_and quiet_flags_def toggle_flag_and)
  next
    case False
    have "\<exists>st'. init_flag ci i cid st = Inr st' \<and> quiet st st'"
      unfolding init_flag_def cr(1) Let_def res_bind_simps ecs_assert_simps(1)[OF d]
      by (intro quiet_if_res quiet_Inr quiet_intros) (use False a in \<open>auto simp: quiet_flags_def toggled_def\<close>)
    then show ?thesis using False by (auto simp: quiet_def flags_step_def)
  qed
  then show thesis using that by blast
qed

lemma init_flags_loop_ok:
  assumes "\<forall>i\<in>set xs. table_id i" "index_ready ci ids" "set xs \<subseteq> set ids"
  shows "\<exists>st'. init_flags_loop ci i xs st = Inr st'
    \<and> if_flags st' AND EcsTableHasIsA = if_flags st AND EcsTableHasIsA
    \<and> if_flags st' AND EcsTableHasTraversable = if_flags st AND EcsTableHasTraversable
    \<and> if_flags st' AND EcsTableHasOnTableCreate = if_flags st AND EcsTableHasOnTableCreate
    \<and> if_flags st' AND EcsTableHasToggle
        = (if_flags st OR (if filter toggled xs = [] then 0 else EcsTableHasToggle)) AND EcsTableHasToggle
    \<and> if_bs_count st' = if_bs_count st + length (filter toggled xs)
    \<and> if_bs_offset st' = (if if_bs_count st = 0 \<and> filter toggled xs \<noteq> []
        then i + length (takeWhile (\<lambda>x. \<not> toggled x) xs) else if_bs_offset st)"
  using assms
proof (induction xs arbitrary: i st)
  case (Cons x xs)
  obtain st1 where st1: "init_flag ci i x st = Inr st1" "flags_step x i st st1"
    by (rule init_flag_ok[of x ci ids]) (use Cons.prems in auto)
  obtain st' where st': "init_flags_loop ci (Suc i) xs st1 = Inr st'"
    "if_flags st' AND EcsTableHasIsA = if_flags st1 AND EcsTableHasIsA"
    "if_flags st' AND EcsTableHasTraversable = if_flags st1 AND EcsTableHasTraversable"
    "if_flags st' AND EcsTableHasOnTableCreate = if_flags st1 AND EcsTableHasOnTableCreate"
    "if_flags st' AND EcsTableHasToggle
        = (if_flags st1 OR (if filter toggled xs = [] then 0 else EcsTableHasToggle)) AND EcsTableHasToggle"
    "if_bs_count st' = if_bs_count st1 + length (filter toggled xs)"
    "if_bs_offset st' = (if if_bs_count st1 = 0 \<and> filter toggled xs \<noteq> []
        then Suc i + length (takeWhile (\<lambda>x. \<not> toggled x) xs) else if_bs_offset st1)"
    using Cons.IH[of "Suc i" st1] Cons.prems by auto
  show ?case
    by (rule exI[of _ st']) (use st1 st' in \<open>auto simp: flags_step_def bit.conj_disj_distrib2 simp del: takeWhile_eq_Nil_iff\<close>)
qed simp

lemma table_flags_ok:
  assumes "table_type ids" "index_ready ci ids"
  obtains fl where "flecs_table_init_flags ci ids = Inr fl" "if_flags fl AND EcsTableHasIsA = 0"
    "if_flags fl AND EcsTableHasTraversable = 0" "if_flags fl AND EcsTableHasOnTableCreate = 0"
    "if_bs_count fl = length (toggles ids)" "toggles (drop (if_bs_offset fl) ids) = toggles ids"
    "toggles ids \<noteq> [] \<Longrightarrow> if_flags fl AND EcsTableHasToggle = EcsTableHasToggle
       \<and> if_bs_offset fl < length ids \<and> ECS_HAS_ID_FLAG (ids ! if_bs_offset fl) ECS_TOGGLE"
proof -
  note result = that
  obtain fl where fl: "flecs_table_init_flags ci ids = Inr fl" "if_flags fl AND EcsTableHasIsA = 0"
    "if_flags fl AND EcsTableHasTraversable = 0" "if_flags fl AND EcsTableHasOnTableCreate = 0"
    "if_flags fl AND EcsTableHasToggle = (if filter toggled ids = [] then 0 else EcsTableHasToggle)"
    "if_bs_count fl = length (filter toggled ids)"
    "if_bs_offset fl = (if filter toggled ids \<noteq> [] then length (takeWhile (\<lambda>x. \<not> toggled x) ids) else 0)"
    using init_flags_loop_ok[of ids ci ids 0 "\<lparr>if_flags = 0, if_traits = 0, if_bs_offset = 0, if_bs_count = 0\<rparr>"] assms
    by (auto simp: flecs_table_init_flags_def table_type_def)
  let ?t = "takeWhile (\<lambda>x. \<not> toggled x) ids"
  have d: "filter toggled (drop (length ?t) ids) = filter toggled ids"
    using filter_append[of toggled ?t "dropWhile (\<lambda>x. \<not> toggled x) ids"]
    by (auto simp: dropWhile_eq_drop[symmetric] filter_empty_conv dest: set_takeWhileD)
  show thesis
  proof (rule result[OF fl(1-4)])
    show "if_bs_count fl = length (toggles ids)" "toggles (drop (if_bs_offset fl) ids) = toggles ids"
      using fl d by (auto simp: toggles_toggled)
    assume n: "toggles ids \<noteq> []"
    then have "dropWhile (\<lambda>x. \<not> toggled x) ids \<noteq> []"
      by (auto simp: toggles_toggled filter_empty_conv dropWhile_eq_Nil_conv)
    then have "length ?t < length ids" "toggled (ids ! length ?t)"
      using length_takeWhile_le[of "\<lambda>x. \<not> toggled x" ids] hd_dropWhile[of "\<lambda>x. \<not> toggled x" ids]
      by (auto simp: dropWhile_eq_drop hd_drop_conv_nth not_le[symmetric])
    then show "if_flags fl AND EcsTableHasToggle = EcsTableHasToggle
       \<and> if_bs_offset fl < length ids \<and> ECS_HAS_ID_FLAG (ids ! if_bs_offset fl) ECS_TOGGLE"
      using fl n by (simp add: toggles_toggled toggled_def[symmetric])
  qed
qed

section \<open>Records\<close>

text \<open>
  A list of records tallies a list of ids, each of which belongs to the record \<open>f\<close> gives for it: there
  is one record for every key, with the position of its first id and the number of its ids.
\<close>

definition tallied :: "(u64 \<Rightarrow> u64 option) \<Rightarrow> u64 list \<Rightarrow> table_record list \<Rightarrow> bool" where
  "tallied f xs recs \<longleftrightarrow> distinct (map tr_cr recs) \<and> Some ` tr_cr ` set recs = f ` set xs - {None}
     \<and> (\<forall>tr\<in>set recs. tr_index tr = int (length (takeWhile (\<lambda>x. f x \<noteq> Some (tr_cr tr)) xs))
          \<and> tr_count tr = length (filter (\<lambda>x. f x = Some (tr_cr tr)) xs))"

definition tr_inc :: "u64 \<Rightarrow> table_record \<Rightarrow> table_record" where
  "tr_inc k tr = (if tr_cr tr = k then tr\<lparr>tr_count := tr_count tr + 1\<rparr> else tr)"

lemma tr_inc_simps [simp]: "tr_cr (tr_inc k tr) = tr_cr tr" "tr_index (tr_inc k tr) = tr_index tr"
  "tr_count (tr_inc k tr) = tr_count tr + (if tr_cr tr = k then 1 else 0)" "tr_cached (tr_inc k tr) = tr_cached tr"
  by (simp_all add: tr_inc_def)

lemma new_record_simps [simp]: "tr_cr (new_record k i n c) = k" "tr_index (new_record k i n c) = i"
  "tr_count (new_record k i n c) = n" "tr_cached (new_record k i n c) = c"
  by (simp_all add: new_record_def)

lemma tallied_none: "\<forall>x\<in>set xs. f x = None \<Longrightarrow> tallied f xs []"
  by (auto simp: tallied_def)

lemma tallied_skip: "tallied f xs recs \<Longrightarrow> f x = None \<Longrightarrow> tallied f (xs @ [x]) recs"
proof -
  assume t: "tallied f xs recs" and n: "f x = None"
  have "takeWhile (\<lambda>x. f x \<noteq> Some k) (xs @ [x]) = takeWhile (\<lambda>x. f x \<noteq> Some k) xs" if "Some k \<in> f ` set xs" for k
    using that by (auto simp: takeWhile_append)
  moreover have "Some (tr_cr tr) \<in> f ` set xs" if "tr \<in> set recs" for tr
  proof -
    have "Some (tr_cr tr) \<in> f ` set xs - {None}" using t that unfolding tallied_def by (metis imageI)
    then show ?thesis by simp
  qed
  ultimately show ?thesis using t n by (simp add: tallied_def)
qed

lemma tallied_key: "tallied f xs recs \<Longrightarrow> tr \<in> set recs \<Longrightarrow> \<exists>x\<in>set xs. f x = Some (tr_cr tr)"
proof -
  assume t: "tallied f xs recs" "tr \<in> set recs"
  then have "Some (tr_cr tr) \<in> f ` set xs - {None}" unfolding tallied_def by (metis imageI)
  then show ?thesis by force
qed

lemma tallied_new:
  assumes t: "tallied f xs recs" and x: "f x = Some k" "k \<notin> tr_cr ` set recs"
  shows "tallied f (xs @ [x]) (recs @ [new_record k (int (length xs)) 1 c])"
proof -
  have no: "\<forall>y\<in>set xs. f y \<noteq> Some k"
  proof
    fix y assume "y \<in> set xs"
    then have "f y = None \<or> f y \<in> Some ` tr_cr ` set recs" using t by (auto simp: tallied_def)
    then show "f y \<noteq> Some k" using x(2) by auto
  qed
  then have "takeWhile (\<lambda>y. f y \<noteq> Some k) (xs @ [x]) = xs" "filter (\<lambda>y. f y = Some k) xs = []"
    using x(1) by (simp_all add: takeWhile_append filter_empty_conv)
  moreover have "takeWhile (\<lambda>y. f y \<noteq> Some (tr_cr tr)) (xs @ [x]) = takeWhile (\<lambda>y. f y \<noteq> Some (tr_cr tr)) xs"
    if "tr \<in> set recs" for tr using tallied_key[OF t that] by (auto simp: takeWhile_append)
  ultimately show ?thesis using t x by (auto simp: tallied_def)
qed

lemma tallied_inc:
  assumes t: "tallied f xs recs" and x: "f x = Some k" "k \<in> tr_cr ` set recs"
  shows "tallied f (xs @ [x]) (map (tr_inc k) recs)"
proof -
  have "takeWhile (\<lambda>y. f y \<noteq> Some (tr_cr tr)) (xs @ [x]) = takeWhile (\<lambda>y. f y \<noteq> Some (tr_cr tr)) xs"
    if "tr \<in> set recs" for tr using tallied_key[OF t that] by (auto simp: takeWhile_append)
  moreover have "tr_cr \<circ> tr_inc k = tr_cr" by (simp add: fun_eq_iff)
  moreover have "tr_cr ` tr_inc k ` set recs = tr_cr ` set recs" by (simp add: image_image)
  ultimately show ?thesis using t x by (simp add: tallied_def) (auto simp: insert_absorb)
qed

text \<open>The counter of the last record, and of a record in the list that only keeps one for every key.\<close>

lemma bump_last: "distinct (map tr_cr recs) \<Longrightarrow> recs \<noteq> [] \<Longrightarrow>
    bump (us @ recs) (length (us @ recs) - 1) = us @ map (tr_inc (tr_cr (last recs))) recs"
proof -
  assume d: "distinct (map tr_cr recs)" and n: "recs \<noteq> []"
  define tr where "tr = last recs"
  then obtain rs where rs: "recs = rs @ [tr]" using n by (metis append_butlast_last_id)
  then have "tr_cr tr \<notin> tr_cr ` set rs" using d by auto
  then have "map (tr_inc (tr_cr tr)) rs = rs" by (intro map_idI) (metis image_eqI tr_inc_def)
  then show ?thesis by (simp add: rs bump_def nth_append list_update_append) (simp add: tr_inc_def)
qed

definition cached_inc :: "u64 \<Rightarrow> table_record \<Rightarrow> table_record" where
  "cached_inc k tr = (if tr_cached tr then tr_inc k tr else tr)"

lemma bump_Cons: "bump (tr # trs) (Suc j) = tr # bump trs j"
  by (simp add: bump_def)

lemma find_cached_ge: "find_cached k n trs = Some j \<Longrightarrow> n \<le> j"
  by (induction k n trs rule: find_cached.induct) (force split: if_splits)+

lemma find_cached_Some:
  "find_cached k n trs = Some j \<Longrightarrow> distinct (map tr_cr (filter tr_cached trs)) \<Longrightarrow>
     k \<in> tr_cr ` set (filter tr_cached trs) \<and> bump trs (j - n) = map (cached_inc k) trs"
proof (induction k n trs rule: find_cached.induct)
  case (2 k n tr trs)
  show ?case
  proof (cases "tr_cached tr \<and> tr_cr tr = k")
    case True
    then have "map (cached_inc k) trs = trs"
      using 2(3) by (intro map_idI) (auto simp: cached_inc_def tr_inc_def image_iff)
    moreover have "cached_inc k tr = tr\<lparr>tr_count := tr_count tr + 1\<rparr>" using True by (simp add: cached_inc_def tr_inc_def)
    ultimately show ?thesis using True 2(2) by (auto simp: bump_def)
  next
    case False
    then have f: "find_cached k (Suc n) trs = Some j" using 2(2) by auto
    have "distinct (map tr_cr (filter tr_cached trs))" using 2(3) by (auto split: if_splits)
    from 2(1)[OF False f this] have ih: "k \<in> tr_cr ` set (filter tr_cached trs)"
      "bump trs (j - Suc n) = map (cached_inc k) trs" by auto
    have "j - n = Suc (j - Suc n)" using find_cached_ge[OF f] by simp
    then show ?thesis using ih False by (auto simp: bump_Cons cached_inc_def tr_inc_def)
  qed
qed simp

lemma find_cached_None: "find_cached k n trs = None \<Longrightarrow> k \<notin> tr_cr ` set (filter tr_cached trs)"
  by (induction k n trs rule: find_cached.induct) (auto split: if_splits)

lemma filter_cached_inc:
  "filter tr_cached (map (cached_inc k) trs) = map (tr_inc k) (filter tr_cached trs)"
  "filter (\<lambda>tr. \<not> tr_cached tr) (map (cached_inc k) trs) = filter (\<lambda>tr. \<not> tr_cached tr) trs"
  by (induction trs) (simp_all add: cached_inc_def)

text \<open>The records that are in no cache yet stay, those in a cache tally one id more.\<close>

definition cached_part :: "table_record list \<Rightarrow> table_record list" where
  "cached_part trs = filter tr_cached trs"

definition uncached_part :: "table_record list \<Rightarrow> table_record list" where
  "uncached_part trs = filter (\<lambda>tr. \<not> tr_cached tr) trs"

lemma append_to_records_ok:
  assumes "flecs_components_ensure ci p = Inr cr" "f x = Some (flecs_component_hash p)" "length xs < 2 ^ 15"
    and "tallied f xs (cached_part trs)"
  obtains trs' where "flecs_table_append_to_records ci trs p (length xs) = Inr trs'"
    "tallied f (xs @ [x]) (cached_part trs')" "uncached_part trs' = uncached_part trs"
    "length trs' \<le> Suc (length trs)" "\<And>us ws. trs = us @ ws \<Longrightarrow> cached_part us = [] \<Longrightarrow> take (length us) trs' = us"
proof (cases "find_cached (flecs_component_hash p) 0 trs")
  case None
  have i: "flecs_ito_int16 (int (length xs)) = Inr (int (length xs))" using assms(3) by (simp add: flecs_ito_int16_def)
  let ?t = "trs @ [new_record (flecs_component_hash p) (int (length xs)) 1 True]"
  show thesis
  proof (rule that[of ?t])
    show "flecs_table_append_to_records ci trs p (length xs) = Inr ?t"
      using assms(1) None i by (simp add: flecs_table_append_to_records_def)
    show "tallied f (xs @ [x]) (cached_part ?t)"
      using tallied_new[OF assms(4,2), of True] find_cached_None[OF None] by (simp add: cached_part_def)
  qed (simp_all add: uncached_part_def)
next
  case (Some j)
  have d: "distinct (map tr_cr (filter tr_cached trs))" using assms(4) by (simp add: tallied_def cached_part_def)
  note b = find_cached_Some[OF Some d]
  show thesis
  proof (rule that[of "map (cached_inc (flecs_component_hash p)) trs"])
    show "flecs_table_append_to_records ci trs p (length xs) = Inr (map (cached_inc (flecs_component_hash p)) trs)"
      using assms(1) Some b by (simp add: flecs_table_append_to_records_def)
    show "tallied f (xs @ [x]) (cached_part (map (cached_inc (flecs_component_hash p)) trs))"
      using tallied_inc[OF assms(4,2)] b by (simp add: cached_part_def filter_cached_inc)
    show "take (length us) (map (cached_inc (flecs_component_hash p)) trs) = us"
      if "trs = us @ ws" "cached_part us = []" for us ws
      using that by (auto simp: cached_part_def filter_empty_conv cached_inc_def intro!: map_idI)
  qed (simp_all add: uncached_part_def filter_cached_inc)
qed

section \<open>Regular ids, roles and pairs\<close>

lemma sorted_partition:
  assumes "sorted_wrt (<) (xs :: u64 list)" "\<And>x y. x \<in> set xs \<Longrightarrow> y \<in> set xs \<Longrightarrow> x < y \<Longrightarrow> P y \<Longrightarrow> P x"
  shows "xs = filter P xs @ filter (\<lambda>x. \<not> P x) xs"
  using assms
proof (induction xs)
  case (Cons a xs)
  have ih: "xs = filter P xs @ filter (\<lambda>x. \<not> P x) xs"
    using Cons.prems by (intro Cons.IH) auto
  show ?case
  proof (cases "P a")
    case False
    then have "\<forall>y\<in>set xs. \<not> P y" using Cons.prems by auto
    then show ?thesis using False by (simp add: filter_id_conv filter_empty_conv)
  qed (use ih in simp)
qed simp

lemma is_regular_flags: "is_regular i \<longleftrightarrow> i AND ECS_ID_FLAGS_MASK = 0"
proof -
  have "i AND NOT m = i \<longleftrightarrow> i AND m = 0" for m
  proof
    assume "i AND NOT m = i"
    then have "i AND m = (i AND NOT m) AND m" by simp
    also have "\<dots> = 0" by (simp add: and.assoc)
    finally show "i AND m = 0" .
  next
    assume z: "i AND m = 0"
    have "i = i AND (m OR NOT m)" by simp
    also have "\<dots> = i AND NOT m" by (simp only: bit.conj_disj_distrib z or.left_neutral)
    finally show "i AND NOT m = i" by simp
  qed
  then show ?thesis by (simp add: is_regular_def ECS_COMPONENT_MASK_def)
qed

lemma less_top_bit: "x < y \<Longrightarrow> bit x 63 \<Longrightarrow> bit (y :: u64) 63"
proof -
  assume l: "x < y" and b: "bit x 63"
  have "bit (drop_bit 63 x) 0" using b by (simp add: bit_drop_bit_eq del: bit_0)
  then have "drop_bit 63 x \<noteq> 0" by (metis bit_0_eq bot_apply bot_bool_def)
  moreover have "drop_bit 63 x \<le> drop_bit 63 y" using l by (intro drop_bit_mono) simp
  ultimately have "drop_bit 63 y \<noteq> 0" by auto
  then obtain n where "bit y (63 + n)" by (auto simp: bit_eq_iff bit_drop_bit_eq)
  moreover from this have "n = 0" using bit_imp_le_length[of y "63 + n"] by simp
  ultimately show ?thesis by simp
qed

lemma plain_pair_iff: "plain_id i \<Longrightarrow> ECS_IS_PAIR i \<longleftrightarrow> ECS_HAS_ID_FLAG i ECS_PAIR"
  using pair_not_toggled(2)[of i] plain_pair_flags(1,2)[of i] unfolding plain_id_def by blast

lemma pair_not_regular: "plain_id i \<Longrightarrow> ECS_IS_PAIR i \<Longrightarrow> \<not> is_regular i"
  using pair_not_toggled(2)[of i] by (simp add: is_regular_flags ECS_PAIR_def)

lemma type_split:
  assumes "table_type ids"
  obtains regs roles prs where "ids = regs @ roles @ prs" "\<forall>i\<in>set regs. is_regular i \<and> \<not> ECS_IS_PAIR i"
    "\<forall>i\<in>set roles. is_role i \<and> \<not> ECS_IS_PAIR i" "\<forall>i\<in>set prs. ECS_IS_PAIR i \<and> \<not> is_regular i"
proof -
  have s: "sorted_wrt (<) ids" and p: "\<And>i. i \<in> set ids \<Longrightarrow> plain_id i" using assms by (auto simp: table_type_def table_id_def)
  let ?rest = "filter (\<lambda>x. \<not> is_regular x) ids"
  have regular: "is_regular x" if "x < y" "is_regular y" for x y
  proof -
    have "drop_bit 60 x \<le> drop_bit 60 y" using that(1) by (intro drop_bit_mono) simp
    then show ?thesis using that(2) by (simp add: is_regular_flags flags_zero)
  qed
  have pairs: "\<not> ECS_IS_PAIR x" if "x < y" "\<not> ECS_IS_PAIR y" "plain_id x" "plain_id y" for x y
  proof
    assume "ECS_IS_PAIR x"
    then have "bit x 63" using that(3) by (simp add: plain_pair_iff has_pair_flag)
    then have "bit y 63" using that(1) less_top_bit by blast
    then show False using that(2,4) by (simp add: plain_pair_iff has_pair_flag)
  qed
  have 1: "ids = filter is_regular ids @ ?rest" using s regular by (intro sorted_partition) auto
  have 2: "?rest = filter (\<lambda>x. \<not> ECS_IS_PAIR x) ?rest @ filter (\<lambda>x. \<not> \<not> ECS_IS_PAIR x) ?rest"
  proof (rule sorted_partition)
    show "sorted_wrt (<) ?rest" using s by (rule sorted_wrt_filter)
  qed (use pairs p in auto)
  show thesis
  proof (rule that[of "filter is_regular ids" "filter (\<lambda>x. \<not> ECS_IS_PAIR x) ?rest" "filter (\<lambda>x. \<not> \<not> ECS_IS_PAIR x) ?rest"])
    show "ids = filter is_regular ids @ filter (\<lambda>x. \<not> ECS_IS_PAIR x) ?rest @ filter (\<lambda>x. \<not> \<not> ECS_IS_PAIR x) ?rest"
      using 1 2 by metis
  qed (use p pair_not_regular in \<open>auto simp: is_role_def\<close>)
qed

lemma first_index_skip: "\<forall>x\<in>set xs. \<not> P x \<Longrightarrow> first_index P i (xs @ ys) = first_index P (i + length xs) ys"
  by (induction xs arbitrary: i) simp_all

lemma first_index_hd: "\<forall>x\<in>set ys. P x \<Longrightarrow> first_index P i ys = (if ys = [] then -1 else int i)"
  by (cases ys) simp_all

lemma last_index_skip: "\<forall>x\<in>set ys. \<not> P x \<Longrightarrow> last_index P i ys l = l"
  by (induction ys arbitrary: i) simp_all

lemma last_index_all: "\<forall>x\<in>set xs. P x \<Longrightarrow>
    last_index P i (xs @ ys) l = last_index P (i + length xs) ys (if xs = [] then l else int (i + length xs) - 1)"
  by (induction xs arbitrary: i l) auto

section \<open>The records of a type\<close>

definition base_list :: "u64 list \<Rightarrow> table_record list" where
  "base_list ids = map (\<lambda>j. new_record (flecs_component_hash (ids ! j)) (int j) 1 False) [0..<length ids]"

lemma base_records_ok:
  assumes "set xs \<subseteq> set ids" "index_ready ci ids" "i + length xs < 2 ^ 15"
  shows "base_records ci i xs
    = Inr (map (\<lambda>j. new_record (flecs_component_hash (xs ! j)) (int (i + j)) 1 False) [0..<length xs])"
  using assms
proof (induction xs arbitrary: i)
  case (Cons x xs)
  obtain cr where cr: "flecs_components_ensure ci x = Inr cr"
    by (rule index_ready_at[OF Cons.prems(2) in_patterns(1)[of x]]) (use Cons.prems in auto)
  have i: "flecs_ito_int16 (int i) = Inr (int i)" using Cons.prems(3) by (simp add: flecs_ito_int16_def)
  have "map (\<lambda>j. new_record (flecs_component_hash ((x # xs) ! j)) (int (i + j)) 1 False) [0..<length (x # xs)]
    = new_record (flecs_component_hash x) (int i) 1 False
      # map (\<lambda>j. new_record (flecs_component_hash (xs ! j)) (int (Suc i + j)) 1 False) [0..<length xs]"
    by (simp add: upt_conv_Cons map_Suc_upt[symmetric] algebra_simps del: upt_Suc)
  then show ?case using Cons.IH[of "Suc i"] Cons.prems cr i by simp
qed simp

lemma base_tallied:
  "distinct (map flecs_component_hash ids) \<Longrightarrow> tallied (\<lambda>x. Some (flecs_component_hash x)) ids (base_list ids)"
proof (induction ids rule: rev_induct)
  case (snoc x xs)
  have "base_list (xs @ [x]) = base_list xs @ [new_record (flecs_component_hash x) (int (length xs)) 1 False]"
    by (simp add: base_list_def nth_append)
  moreover have "tr_cr ` set (base_list xs) = flecs_component_hash ` set xs"
    by (force simp: base_list_def in_set_conv_nth)
  ultimately show ?case using snoc tallied_new[of "\<lambda>x. Some (flecs_component_hash x)" xs "base_list xs" x] by simp
qed (simp add: tallied_def base_list_def)

text \<open>Which record counts an id, among those in caches and among the relationship records.\<close>

definition cached_key :: "u64 \<Rightarrow> u64 option" where
  "cached_key x =
     (if ECS_IS_PAIR x then Some (flecs_component_hash (ecs_pair EcsWildcard (ECS_PAIR_SECOND x)))
      else if is_regular x \<or> x AND ECS_COMPONENT_MASK = 0 then None
      else Some (flecs_component_hash (ecs_pair EcsFlag (x AND ECS_COMPONENT_MASK))))"

definition relation_key :: "u64 \<Rightarrow> u64 option" where
  "relation_key x =
     (if ECS_IS_PAIR x then Some (flecs_component_hash (ecs_pair (ECS_PAIR_FIRST x) EcsWildcard)) else None)"

lemma role_records_append:
  "role_records ci i (xs @ ys) trs = res_bind (role_records ci i xs trs) (role_records ci (i + length xs) ys)"
proof (induction xs arbitrary: i trs)
  case (Cons x xs)
  show ?case
    by (simp only: role_records.simps append_Cons res_bind_assoc) (rule res_bind_cong, rule refl, simp add: Cons.IH)
qed simp

lemma role_records_pairs: "\<forall>x\<in>set xs. ECS_IS_PAIR x \<Longrightarrow> role_records ci i xs trs = Inr trs"
  by (induction xs arbitrary: i) simp_all

definition grown :: "table_record list \<Rightarrow> nat \<Rightarrow> table_record list \<Rightarrow> bool" where
  "grown trs n trs' \<longleftrightarrow> uncached_part trs' = uncached_part trs \<and> length trs' \<le> length trs + n
     \<and> (\<forall>us ws. trs = us @ ws \<and> cached_part us = [] \<longrightarrow> take (length us) trs' = us)"

lemma grown_refl: "grown trs n trs"
  by (auto simp: grown_def)

lemma grown_trans:
  assumes "grown trs n trs1" "grown trs1 m trs2"
  shows "grown trs (n + m) trs2"
proof -
  have "take (length us) trs2 = us" if "trs = us @ ws" "cached_part us = []" for us ws
  proof -
    have t: "take (length us) trs1 = us" using assms(1) that by (auto simp: grown_def)
    then have "trs1 = us @ drop (length us) trs1" by (metis append_take_drop_id)
    then show ?thesis using assms(2) that(2) by (auto simp: grown_def)
  qed
  then show ?thesis using assms by (simp add: grown_def)
qed

lemma append_to_records_grown:
  assumes "flecs_components_ensure ci p = Inr cr" "f x = Some (flecs_component_hash p)" "length xs < 2 ^ 15"
    and "tallied f xs (cached_part trs)"
  obtains trs' where "flecs_table_append_to_records ci trs p (length xs) = Inr trs'"
    "tallied f (xs @ [x]) (cached_part trs')" "grown trs 1 trs'"
  by (rule append_to_records_ok[OF assms]) (auto simp: grown_def intro: that)

lemma role_records_ok:
  assumes "\<forall>x\<in>set xs. table_id x \<and> is_role x" "set xs \<subseteq> set ids" "index_ready ci ids"
    "length ys + length xs < 2 ^ 15" "tallied cached_key ys (cached_part trs)"
  shows "\<exists>trs'. role_records ci (length ys) xs trs = Inr trs' \<and> tallied cached_key (ys @ xs) (cached_part trs')
    \<and> grown trs (length xs) trs'"
  using assms
proof (induction xs arbitrary: ys trs)
  case (Cons x xs)
  have x: "\<not> ECS_IS_PAIR x" "\<not> ECS_HAS_ID_FLAG x ECS_PAIR" "\<not> is_regular x" "x \<in> set ids"
    using Cons.prems(1,2) plain_pair_iff[of x] by (auto simp: is_role_def table_id_def)
  obtain trs1 where t1: "(if x AND ECS_COMPONENT_MASK \<noteq> 0
      then flecs_table_append_to_records ci trs (ecs_pair EcsFlag (x AND ECS_COMPONENT_MASK)) (length ys) else Inr trs) = Inr trs1"
    "tallied cached_key (ys @ [x]) (cached_part trs1)" "grown trs 1 trs1"
  proof (cases "x AND ECS_COMPONENT_MASK = 0")
    case True
    then have "cached_key x = None" using x(1) by (simp add: cached_key_def)
    from tallied_skip[OF Cons.prems(5) this] show thesis
      by (intro that[of trs]) (simp_all add: True grown_refl)
  next
    case False
    obtain cr where cr: "flecs_components_ensure ci (ecs_pair EcsFlag (x AND ECS_COMPONENT_MASK)) = Inr cr"
      by (rule index_ready_at[OF Cons.prems(3) in_patterns(4)[OF x(4,1)]])
    have k: "cached_key x = Some (flecs_component_hash (ecs_pair EcsFlag (x AND ECS_COMPONENT_MASK)))"
      using x(1,3) False by (simp add: cached_key_def)
    show thesis
      by (rule append_to_records_grown[where f = cached_key, OF cr k _ Cons.prems(5)]) (use Cons.prems(4) False that in auto)
  qed
  obtain trs' where t': "role_records ci (length (ys @ [x])) xs trs1 = Inr trs'"
    "tallied cached_key ((ys @ [x]) @ xs) (cached_part trs')" "grown trs1 (length xs) trs'"
    using Cons.IH[of "ys @ [x]" trs1] Cons.prems t1 by auto
  show ?case using t' t1(1) x grown_trans[OF t1(3) t'(3)] by (auto split: if_splits)
qed (auto simp: grown_refl)

lemma target_records_ok:
  assumes "\<forall>x\<in>set xs. table_id x \<and> ECS_IS_PAIR x" "set xs \<subseteq> set ids" "index_ready ci ids"
    "length ys + length xs < 2 ^ 15" "tallied cached_key ys (cached_part trs)"
  shows "\<exists>trs'. target_records ci (length ys) xs trs = Inr trs' \<and> tallied cached_key (ys @ xs) (cached_part trs')
    \<and> grown trs (length xs) trs'"
  using assms
proof (induction xs arbitrary: ys trs)
  case (Cons x xs)
  have x: "ECS_IS_PAIR x" "\<not> ECS_IS_VALUE_PAIR x" "x \<in> set ids"
    using Cons.prems(1,2) pair_not_toggled(2)[of x] plain_pair_flags(3)[of x] by (auto simp: table_id_def)
  obtain cr where cr: "flecs_components_ensure ci (ecs_pair EcsWildcard (ECS_PAIR_SECOND x)) = Inr cr"
    by (rule index_ready_at[OF Cons.prems(3) in_patterns(3)[OF x(3,1)]])
  have k: "cached_key x = Some (flecs_component_hash (ecs_pair EcsWildcard (ECS_PAIR_SECOND x)))"
    using x(1) by (simp add: cached_key_def)
  obtain trs1 where t1: "flecs_table_append_to_records ci trs (ecs_pair EcsWildcard (ECS_PAIR_SECOND x)) (length ys) = Inr trs1"
    "tallied cached_key (ys @ [x]) (cached_part trs1)" "grown trs 1 trs1"
    by (rule append_to_records_grown[where f = cached_key, OF cr k _ Cons.prems(5)]) (use Cons.prems(4) in auto)
  obtain trs' where t': "target_records ci (length (ys @ [x])) xs trs1 = Inr trs'"
    "tallied cached_key ((ys @ [x]) @ xs) (cached_part trs')" "grown trs1 (length xs) trs'"
    using Cons.IH[of "ys @ [x]" trs1] Cons.prems t1 by auto
  show ?case using t' t1(1) x grown_trans[OF t1(3) t'(3)] by auto
qed (auto simp: grown_refl)

text \<open>The pattern of a relationship determines it, and the pairs of a type come ordered by relationship.\<close>

lemma pair_first_less: "ECS_PAIR_FIRST i < 2 ^ 28"
proof -
  have "take_bit 28 (ECS_PAIR_FIRST i) = ECS_PAIR_FIRST i"
    by (rule bit_word_eqI) (auto simp: id_bits bit_take_bit_iff)
  moreover have "unat (take_bit 28 (ECS_PAIR_FIRST i)) < 2 ^ 28"
    unfolding unsigned_take_bit_eq by (rule take_bit_nat_less_exp)
  ultimately show ?thesis by (simp add: word_less_nat_alt)
qed

lemma pair_second_less: "ECS_PAIR_SECOND i < 2 ^ 32"
proof -
  have "unat (take_bit 32 i) < 2 ^ 32" unfolding unsigned_take_bit_eq by (rule take_bit_nat_less_exp)
  then show ?thesis by (simp add: word_less_nat_alt ECS_PAIR_SECOND_def ecs_entity_t_lo_def)
qed

lemma take_small: "r < 2 ^ 28 \<Longrightarrow> take_bit 28 (r :: u64) = r" "r < 2 ^ 32 \<Longrightarrow> take_bit 32 r = r"
  by (simp_all add: word_less_nat_alt word_unat_eq_iff unsigned_take_bit_eq take_bit_nat_eq_self)

lemma hash_pair:
  assumes "r < 2 ^ 28" "t < 2 ^ 32"
  shows "flecs_component_hash (ecs_pair r t) = ecs_pair (if r = EcsAny then EcsWildcard else r) (if t = EcsAny then EcsWildcard else t)"
    "ecs_pair r t AND ECS_ID_FLAGS_MASK = ECS_PAIR" "ECS_PAIR_FIRST (ecs_pair r t) = r" "ECS_PAIR_SECOND (ecs_pair r t) = t"
proof -
  have r: "take_bit 28 r = r" "take_bit 32 t = t" using assms by (simp_all add: take_small)
  have "bit (take_bit 28 r) n \<Longrightarrow> n < 28" for n by (simp add: bit_take_bit_iff)
  then have "bit r n \<Longrightarrow> n < 28" for n unfolding r .
  then show f: "ecs_pair r t AND ECS_ID_FLAGS_MASK = ECS_PAIR"
    by (intro bit_word_eqI) (force simp: bit_and_iff id_bits)
  show fs: "ECS_PAIR_FIRST (ecs_pair r t) = r" "ECS_PAIR_SECOND (ecs_pair r t) = t"
    by (simp_all only: pair_first_ecs_pair pair_second_ecs_pair r)
  have "ECS_PAIR \<noteq> 0" by (simp add: ECS_PAIR_def)
  then show "flecs_component_hash (ecs_pair r t) = ecs_pair (if r = EcsAny then EcsWildcard else r) (if t = EcsAny then EcsWildcard else t)"
    by (simp only: flecs_component_hash_def ecs_strip_generation_def f fs plain_pair_flags(2,3)[OF f] Let_def if_False if_True simp_thms)
qed

lemma pair_eq_iff:
  assumes "r < 2 ^ 28" "t < 2 ^ 32" "r' < 2 ^ 28" "t' < 2 ^ 32"
  shows "ecs_pair r t = ecs_pair r' t' \<longleftrightarrow> r = r' \<and> t = t'"
  using hash_pair(3,4)[OF assms(1,2)] hash_pair(3,4)[OF assms(3,4)] by metis

lemma pair_first_mono:
  assumes "plain_id i" "plain_id j" "ECS_IS_PAIR i" "ECS_IS_PAIR j" "i < j"
  shows "ECS_PAIR_FIRST i \<le> ECS_PAIR_FIRST j"
proof -
  define c :: u64 where "c = push_bit 31 1"
  have bc: "bit c n \<longleftrightarrow> n = 31" for n
    by (simp only: c_def bit_push_bit_iff bit_1_iff possible_bit_word) auto
  have e: "drop_bit 32 i = c + ECS_PAIR_FIRST i" if "plain_id i" "ECS_IS_PAIR i" for i
  proof -
    note b = plain_pair_bits[OF pair_not_toggled(2)[OF that]]
    have "bit (drop_bit 32 i) n = bit (c OR ECS_PAIR_FIRST i) n" for n
      using b[of "n + 32"] by (cases "28 \<le> n") (auto simp: id_bits bit_drop_bit_eq bit_or_iff bc add.commute)
    then have "drop_bit 32 i = c OR ECS_PAIR_FIRST i" by (intro bit_word_eqI) simp
    also have "\<dots> = c + ECS_PAIR_FIRST i"
      by (rule disjunctive_add[symmetric]) (auto simp: id_bits bc)
    finally show ?thesis .
  qed
  have "drop_bit 32 i \<le> drop_bit 32 j" using assms(5) by (intro drop_bit_mono) simp
  then have "c + ECS_PAIR_FIRST i \<le> c + ECS_PAIR_FIRST j" using e assms by simp
  then show ?thesis using pair_first_less[of i] pair_first_less[of j]
    by (simp add: c_def word_le_nat_alt word_less_nat_alt unat_word_ariths)
qed

lemma wildcard_elems: "EcsWildcard < 2 ^ 28" "EcsWildcard < 2 ^ 32" "EcsFlag < 2 ^ 28" "EcsWildcard \<noteq> EcsAny" "EcsFlag \<noteq> EcsAny"
    "EcsFlag \<noteq> EcsWildcard" "EcsChildOf < 2 ^ 28" "EcsChildOf \<noteq> EcsAny" "EcsChildOf \<noteq> EcsWildcard" "EcsChildOf \<noteq> EcsFlag" "EcsAny < 2 ^ 32"
  by (simp_all add: EcsWildcard_def EcsFlag_def EcsAny_def EcsChildOf_def)

lemma table_pair:
  assumes "table_id i" "ECS_IS_PAIR i"
  shows "ECS_PAIR_FIRST i \<notin> {0, EcsWildcard, EcsAny, EcsFlag, EcsIsA, EcsChildOf}" "ECS_PAIR_SECOND i \<notin> {0, EcsWildcard, EcsAny}"
    "ecs_pair (ECS_PAIR_FIRST i) (ECS_PAIR_SECOND i) = i"
proof -
  have f: "i AND ECS_ID_FLAGS_MASK = ECS_PAIR" using assms by (simp add: table_id_def pair_not_toggled)
  have v: "\<not> ECS_IS_VALUE_PAIR i" by (rule plain_pair_flags(3)[OF f])
  show "ECS_PAIR_FIRST i \<notin> {0, EcsWildcard, EcsAny, EcsFlag, EcsIsA, EcsChildOf}" "ECS_PAIR_SECOND i \<notin> {0, EcsWildcard, EcsAny}"
    using assms v plain_pair_flags(1)[OF f]
    by (auto simp: table_id_def plain_id_def ecs_id_is_wildcard_def Let_def split: if_splits)
  show "ecs_pair (ECS_PAIR_FIRST i) (ECS_PAIR_SECOND i) = i" by (rule plain_pair_eq[OF f])
qed

lemma hash_relation: "table_id i \<Longrightarrow> ECS_IS_PAIR i \<Longrightarrow>
    flecs_component_hash (ecs_pair (ECS_PAIR_FIRST i) EcsWildcard) = ecs_pair (ECS_PAIR_FIRST i) EcsWildcard"
  using hash_pair(1)[OF pair_first_less wildcard_elems(2), of i] table_pair(1)[of i] wildcard_elems by simp

lemma relation_key_inj:
  assumes "table_id x" "table_id y" "ECS_IS_PAIR x" "ECS_IS_PAIR y" "relation_key x = relation_key y"
  shows "ECS_PAIR_FIRST x = ECS_PAIR_FIRST y"
  using assms(5) pair_eq_iff[OF pair_first_less wildcard_elems(2) pair_first_less wildcard_elems(2), of x y]
  by (simp add: relation_key_def assms hash_relation)

lemma relation_records_ok:
  assumes "\<forall>x\<in>set xs. table_id x \<and> ECS_IS_PAIR x" "set xs \<subseteq> set ids" "index_ready ci ids"
    "length ys + length xs < 2 ^ 15" "tallied relation_key ys rels" "\<forall>tr\<in>set rels. \<not> tr_cached tr"
    and "sorted_wrt (<) (ys @ xs)" "\<forall>y\<in>set ys. table_id y"
    and "rels = [] \<longrightarrow> r = 0" "rels \<noteq> [] \<longrightarrow> (\<exists>y\<in>set ys. ECS_IS_PAIR y \<and> ECS_PAIR_FIRST y = r \<and> relation_key y = Some (tr_cr (last rels)))"
    and "\<forall>y\<in>set ys. ECS_IS_PAIR y \<longrightarrow> ECS_PAIR_FIRST y \<le> r"
  shows "\<exists>rels'. relation_records ci r (length ys) xs (trs @ rels) = Inr (trs @ rels', length ys + length xs)
    \<and> tallied relation_key (ys @ xs) rels' \<and> (\<forall>tr\<in>set rels'. \<not> tr_cached tr) \<and> length rels' \<le> length rels + length xs"
  using assms
proof (induction xs arbitrary: ys rels r)
  case (Cons x xs)
  have x: "ECS_IS_PAIR x" "table_id x" "x \<in> set ids" using Cons.prems(1,2) by auto
  let ?p = "ecs_pair (ECS_PAIR_FIRST x) EcsWildcard"
  have k: "relation_key x = Some (flecs_component_hash ?p)" using x(1) by (simp add: relation_key_def)
  have n0: "ECS_PAIR_FIRST x \<noteq> 0" "ECS_PAIR_FIRST x \<noteq> EcsFlag" "\<not> ecs_id_is_wildcard x"
    using x plain_pair_iff[of x] by (auto simp: table_id_def plain_id_def)
  have d: "distinct (map tr_cr rels)" using Cons.prems(5) by (simp add: tallied_def)
  obtain rels1 where r1: "relation_records ci r (length ys) (x # xs) (trs @ rels)
      = relation_records ci (ECS_PAIR_FIRST x) (length (ys @ [x])) xs (trs @ rels1)"
    "tallied relation_key (ys @ [x]) rels1" "\<forall>tr\<in>set rels1. \<not> tr_cached tr" "length rels1 \<le> Suc (length rels)"
    "rels1 \<noteq> []" "tr_cr (last rels1) = flecs_component_hash ?p"
  proof (cases "r = ECS_PAIR_FIRST x")
    case True
    then have n: "rels \<noteq> []" using Cons.prems(9) n0 by auto
    then obtain y where y: "y \<in> set ys" "ECS_IS_PAIR y" "ECS_PAIR_FIRST y = r" "relation_key y = Some (tr_cr (last rels))"
      using Cons.prems(10) by auto
    then have l: "tr_cr (last rels) = flecs_component_hash ?p" using True by (simp add: relation_key_def)
    have m: "tr_cr (last rels) \<in> tr_cr ` set rels" using n by simp
    show thesis
    proof (rule that[of "map (tr_inc (tr_cr (last rels))) rels"])
      show "relation_records ci r (length ys) (x # xs) (trs @ rels) = relation_records ci (ECS_PAIR_FIRST x)
          (length (ys @ [x])) xs (trs @ map (tr_inc (tr_cr (last rels))) rels)"
        using bump_last[OF d n, of trs] True x n by simp
      show "tallied relation_key (ys @ [x]) (map (tr_inc (tr_cr (last rels))) rels)"
        using tallied_inc[OF Cons.prems(5) _ m] k l by simp
    qed (use n l Cons.prems(6) in \<open>simp_all add: last_map\<close>)
  next
    case False
    obtain cr where cr: "flecs_components_get ci ?p = Some cr"
      by (rule index_ready_at[OF Cons.prems(3) in_patterns(2)[OF x(3,1)]])
    have i: "flecs_ito_int16 (int (length ys)) = Inr (int (length ys))"
      using Cons.prems(4) by (simp add: flecs_ito_int16_def)
    have new: "flecs_component_hash ?p \<notin> tr_cr ` set rels"
    proof
      assume "flecs_component_hash ?p \<in> tr_cr ` set rels"
      then obtain y where y: "y \<in> set ys" "relation_key y = relation_key x"
        using tallied_key[OF Cons.prems(5)] k by fastforce
      then have yp: "ECS_IS_PAIR y" using k by (auto simp: relation_key_def split: if_splits)
      then have f: "ECS_PAIR_FIRST y = ECS_PAIR_FIRST x" using relation_key_inj y x Cons.prems(8) by blast
      then have "rels \<noteq> []" using y \<open>flecs_component_hash ?p \<in> tr_cr ` set rels\<close> by auto
      then obtain z where z: "z \<in> set ys" "ECS_IS_PAIR z" "ECS_PAIR_FIRST z = r" using Cons.prems(10) by auto
      have "z < x" using Cons.prems(7) z(1) by (simp add: sorted_wrt_append)
      then have "r \<le> ECS_PAIR_FIRST x"
        using pair_first_mono[of z x] z x Cons.prems(8) by (auto simp: table_id_def)
      moreover have "ECS_PAIR_FIRST x \<le> r" using f y yp Cons.prems(11) by auto
      ultimately show False using False by simp
    qed
    let ?rec = "new_record (flecs_component_hash ?p) (int (length ys)) 0 False"
    show thesis
    proof (rule that[of "rels @ [new_record (flecs_component_hash ?p) (int (length ys)) 1 False]"])
      have "bump (trs @ rels @ [?rec]) (length (trs @ rels @ [?rec]) - 1)
          = trs @ rels @ [new_record (flecs_component_hash ?p) (int (length ys)) 1 False]"
        by (simp add: bump_def nth_append list_update_append new_record_def)
      then show "relation_records ci r (length ys) (x # xs) (trs @ rels) = relation_records ci (ECS_PAIR_FIRST x)
          (length (ys @ [x])) xs (trs @ rels @ [new_record (flecs_component_hash ?p) (int (length ys)) 1 False])"
        using False x n0 cr i by simp
      show "tallied relation_key (ys @ [x]) (rels @ [new_record (flecs_component_hash ?p) (int (length ys)) 1 False])"
        by (rule tallied_new[OF Cons.prems(5) k new])
    qed (use Cons.prems(6) in auto)
  qed
  have first: "ECS_PAIR_FIRST y \<le> ECS_PAIR_FIRST x" if "y \<in> set ys" "ECS_IS_PAIR y" for y
    using that pair_first_mono[of y x] Cons.prems(7,8) x by (auto simp: table_id_def sorted_wrt_append)
  obtain rels' where "relation_records ci (ECS_PAIR_FIRST x) (length (ys @ [x])) xs (trs @ rels1)
      = Inr (trs @ rels', length (ys @ [x]) + length xs)"
    "tallied relation_key ((ys @ [x]) @ xs) rels'" "\<forall>tr\<in>set rels'. \<not> tr_cached tr" "length rels' \<le> length rels1 + length xs"
    using Cons.IH[of "ys @ [x]" rels1 "ECS_PAIR_FIRST x"] Cons.prems(1-4,7,8) r1 x k first by auto
  then show ?case using r1 by auto
qed auto

lemma cached_uncached_base: "cached_part (base_list ids) = []" "uncached_part (base_list ids) = base_list ids"
  by (auto simp: cached_part_def uncached_part_def base_list_def filter_empty_conv filter_id_conv)

lemma parts_append: "cached_part (us @ ws) = cached_part us @ cached_part ws"
    "uncached_part (us @ ws) = uncached_part us @ uncached_part ws"
  by (simp_all add: cached_part_def uncached_part_def)

lemma uncached_all: "\<forall>tr\<in>set rels. \<not> tr_cached tr \<Longrightarrow> cached_part rels = [] \<and> uncached_part rels = rels"
  by (simp add: cached_part_def uncached_part_def filter_empty_conv filter_id_conv)

definition extra_records :: "bool \<Rightarrow> u64 list \<Rightarrow> table_record list" where
  "extra_records has_childof ids =
     (if filter is_regular ids = [] then [] else [new_record EcsWildcard 0 (length (filter is_regular ids)) False])
     @ (if filter ECS_IS_PAIR ids = [] then []
        else [new_record (ecs_pair EcsWildcard EcsWildcard) (int (length ids - length (filter ECS_IS_PAIR ids)))
                (length (filter ECS_IS_PAIR ids)) False])
     @ (if has_childof then [] else [new_record (ecs_pair EcsChildOf 0) (-1) 0 False])"

lemma table_records_shape:
  assumes t: "table_type ids" and ci: "index_ready ci ids"
  obtains core rels where "table_records ci hc ids = Inr (core @ extra_records hc ids)"
    "take (length ids) core = base_list ids" "length ids \<le> length core" "length core \<le> 3 * length ids"
    "uncached_part core = base_list ids @ rels" "tallied relation_key ids rels" "tallied cached_key ids (cached_part core)"
proof -
  note result = that
  obtain regs roles prs where ids: "ids = regs @ roles @ prs" "\<forall>i\<in>set regs. is_regular i \<and> \<not> ECS_IS_PAIR i"
    "\<forall>i\<in>set roles. is_role i \<and> \<not> ECS_IS_PAIR i" "\<forall>i\<in>set prs. ECS_IS_PAIR i \<and> \<not> is_regular i"
    by (rule type_split[OF t])
  have len: "length ids < 10000" and tid: "\<forall>i\<in>set ids. table_id i" and srt: "sorted_wrt (<) ids"
    using t by (simp_all add: table_type_def)
  have role: "\<forall>i\<in>set roles. \<not> is_regular i" using ids(3) by (simp add: is_role_def)
  have role_ix: "\<forall>i\<in>set regs. \<not> is_role i" "\<forall>i\<in>set prs. \<not> is_role i" using ids(2,4) by (simp_all add: is_role_def)
  have fi: "filter is_regular ids = regs" "filter ECS_IS_PAIR ids = prs"
    using ids role by (auto simp: filter_id_conv filter_empty_conv)
  have "last_index is_regular i (roles @ prs) l = l" for i l
    by (rule last_index_skip) (use ids(4) role in auto)
  then have last: "last_index is_regular 0 ids (-1) = int (length regs) - 1"
    using last_index_all[of regs is_regular 0 "roles @ prs" "-1"] ids(1,2) by auto
  have fp: "first_index ECS_IS_PAIR 0 ids = (if prs = [] then -1 else int (length (regs @ roles)))"
  proof -
    have "\<forall>x\<in>set (regs @ roles). \<not> ECS_IS_PAIR x" using ids(2,3) by auto
    from first_index_skip[OF this, of 0 prs] show ?thesis using first_index_hd[of prs ECS_IS_PAIR] ids(1,4) by auto
  qed
  have lb: "length (base_list ids) = length ids" by (simp add: base_list_def)
  have base: "base_records ci 0 ids = Inr (base_list ids)"
    using base_records_ok[of ids ids ci 0] ci len by (simp add: base_list_def)
  have ct: "tallied cached_key regs (cached_part (base_list ids))"
    using ids(2) by (simp add: cached_uncached_base tallied_none cached_key_def)
  obtain trs2 where r2: "role_records ci (length regs) roles (base_list ids) = Inr trs2"
    "tallied cached_key (regs @ roles) (cached_part trs2)" "grown (base_list ids) (length roles) trs2"
    using role_records_ok[OF _ _ ci _ ct, of roles] ids(1,3) tid len by auto
  have g2: "take (length ids) trs2 = base_list ids" "uncached_part trs2 = base_list ids" "length trs2 \<le> length ids + length roles"
  proof -
    have "take (length (base_list ids)) trs2 = base_list ids"
      using r2(3) cached_uncached_base(1)[of ids] append_Nil2[of "base_list ids"] unfolding grown_def by metis
    then show "take (length ids) trs2 = base_list ids" by (simp add: lb)
  qed (use r2(3) in \<open>simp_all add: grown_def cached_uncached_base lb\<close>)
  have role_step: "(if first_index is_role 0 ids \<noteq> -1 then role_records ci (nat (first_index is_role 0 ids))
      (drop (nat (first_index is_role 0 ids)) ids) (base_list ids) else Inr (base_list ids)) = Inr trs2"
  proof (cases roles)
    case Nil
    then have "first_index is_role 0 ids = -1"
      using first_index_skip[of ids is_role 0 "[]"] role_ix ids(1) by auto
    then show ?thesis using Nil r2(1) by simp
  next
    case (Cons a as)
    then have "first_index is_role 0 ids = int (length regs)"
      using first_index_skip[of regs is_role 0 "roles @ prs"] role_ix ids(1,3) by simp
    then show ?thesis using r2(1) role_records_append[of ci "length regs" roles prs] role_records_pairs[of prs] ids(1,4)
      by simp
  qed
  have pr: "\<forall>x\<in>set prs. table_id x \<and> ECS_IS_PAIR x" "set prs \<subseteq> set ids" "\<forall>y\<in>set (regs @ roles). table_id y"
    "\<forall>y\<in>set (regs @ roles). ECS_IS_PAIR y \<longrightarrow> ECS_PAIR_FIRST y \<le> 0" "sorted_wrt (<) ((regs @ roles) @ prs)"
    "length (regs @ roles) + length prs < 2 ^ 15"
    using ids tid srt len by auto
  have rt: "tallied relation_key (regs @ roles) []" using ids(2,3) by (intro tallied_none) (auto simp: relation_key_def)
  obtain rels where rl: "relation_records ci 0 (length (regs @ roles)) prs (trs2 @ []) = Inr (trs2 @ rels, length (regs @ roles) + length prs)"
    "tallied relation_key ((regs @ roles) @ prs) rels" "\<forall>tr\<in>set rels. \<not> tr_cached tr" "length rels \<le> length prs"
    using relation_records_ok[OF pr(1,2) ci pr(6) rt _ pr(5,3) _ _ pr(4), of trs2] by auto
  obtain core where tg: "target_records ci (length (regs @ roles)) prs (trs2 @ rels) = Inr core"
    "tallied cached_key ((regs @ roles) @ prs) (cached_part core)" "grown (trs2 @ rels) (length prs) core"
    using target_records_ok[OF pr(1,2) ci pr(6), of "trs2 @ rels"] r2(2) uncached_all[OF rl(3)]
    by (auto simp: parts_append)
  have l2: "length ids \<le> length trs2" using g2(1) lb by (metis length_take min.absorb_iff2)
  have "take (length (base_list ids)) core = base_list ids"
  proof -
    have "trs2 @ rels = base_list ids @ (drop (length ids) trs2 @ rels)" using g2(1) by (metis append.assoc append_take_drop_id)
    then show ?thesis using tg(3) cached_uncached_base(1) unfolding grown_def by blast
  qed
  then have gc: "take (length ids) core = base_list ids" using lb by simp
  then have lc: "length ids \<le> length core" using lb by (metis length_take min.absorb_iff2)
  have core_len: "length core \<le> 3 * length ids"
    using tg(3) rl(4) g2(3) ids(1) by (simp add: grown_def)
  have uc: "uncached_part core = base_list ids @ rels"
    using tg(3) uncached_all[OF rl(3)] g2(2) by (simp add: grown_def parts_append)
  have "table_records ci hc ids = Inr (core @ extra_records hc ids)"
  proof (cases "prs = []")
    case True
    then have "core = trs2" using rl(1) tg(1) by simp
    moreover have "flecs_ito_int16 (int (length regs)) = Inr (int (length regs))"
      using len ids(1) by (simp add: flecs_ito_int16_def)
    ultimately show ?thesis using True
      by (simp add: table_records_def base role_step fp last fi extra_records_def Let_def)
  next
    case False
    define n where "n = length (regs @ roles)"
    have n: "drop n ids = prs" "length ids - length prs = n" "length ids = n + length prs" "n \<le> length ids"
      using ids(1) by (simp_all add: n_def)
    have i: "flecs_ito_int16 (int k) = Inr (int k)" if "k \<le> length ids" for k
      using len that by (simp add: flecs_ito_int16_def)
    have f: "first_index ECS_IS_PAIR 0 ids = int n" using fp False by (simp add: n_def)
    have pairs: "relation_records ci 0 n prs trs2 = Inr (trs2 @ rels, n + length prs)" "target_records ci n prs (trs2 @ rels) = Inr core"
      using rl(1) tg(1) by (simp_all add: n_def)
    have "length regs \<le> length ids" "int (n + length prs) - int n = int (length prs)" using ids(1) by simp_all
    then show ?thesis using False i[of "length regs"] i[of n] i[of "length prs"] n
      by (simp add: table_records_def base role_step f last fi extra_records_def Let_def pairs)
  qed
  moreover have "(regs @ roles) @ prs = ids" using ids(1) by simp
  ultimately show thesis using result[of core rels] gc lc core_len uc rl(2) tg(2) by simp
qed

section \<open>Records and patterns\<close>

text \<open>The kinds of keys: ids, records in caches, relationships, and the three extra records.\<close>

definition key_class :: "u64 \<Rightarrow> nat" where
  "key_class k =
     (if \<not> ECS_IS_PAIR k then if k = EcsWildcard then 3 else 0
      else if ECS_PAIR_FIRST k = EcsFlag then 1
      else if ECS_PAIR_FIRST k = EcsWildcard then if ECS_PAIR_SECOND k = EcsWildcard then 4 else 1
      else if ECS_PAIR_FIRST k = EcsChildOf then 5
      else if ECS_PAIR_SECOND k = EcsWildcard then 2 else 0)"

lemma ecs_pair_low: "ecs_pair r (take_bit 32 t) = ecs_pair r t"
  by (rule bit_word_eqI) (simp add: id_bits bit_take_bit_iff)

lemma is_pair_flags: "ECS_IS_PAIR (i AND m) \<Longrightarrow> i AND ECS_ID_FLAGS_MASK = 0 \<Longrightarrow> False"
proof -
  assume p: "ECS_IS_PAIR (i AND m)" and z: "i AND ECS_ID_FLAGS_MASK = 0"
  have "(i AND m) AND ECS_ID_FLAGS_MASK = (i AND ECS_ID_FLAGS_MASK) AND m" by (simp only: ac_simps)
  then have "(i AND m) AND ECS_ID_FLAGS_MASK = 0" by (simp add: z)
  then show False using p by (simp add: ECS_IS_PAIR_def ECS_IS_VALUE_PAIR_def ECS_PAIR_def ECS_VALUE_PAIR_def)
qed

lemma hash_id:
  assumes "table_id i"
  shows "ECS_IS_PAIR i \<Longrightarrow> flecs_component_hash i = i" "key_class (flecs_component_hash i) = 0"
    "\<not> ECS_IS_PAIR i \<Longrightarrow> \<not> ECS_IS_PAIR (flecs_component_hash i)"
proof -
  show p: "flecs_component_hash i = i" if "ECS_IS_PAIR i"
    using hash_pair(1)[OF pair_first_less[of i] pair_second_less[of i]] table_pair[OF assms that] by simp
  show n: "\<not> ECS_IS_PAIR (flecs_component_hash i)" if np: "\<not> ECS_IS_PAIR i"
  proof (cases "i AND ECS_ID_FLAGS_MASK = 0")
    case True
    then have e: "ecs_strip_generation i = i AND NOT ECS_GENERATION_MASK" by (simp add: ecs_strip_generation_def)
    have "\<not> ECS_IS_PAIR (i AND NOT ECS_GENERATION_MASK)" using is_pair_flags True by blast
    then show ?thesis by (simp add: flecs_component_hash_def e Let_def)
  next
    case False
    then have "ecs_strip_generation i = i" by (simp add: ecs_strip_generation_def)
    then show ?thesis using np by (simp add: flecs_component_hash_def Let_def)
  qed
  show "key_class (flecs_component_hash i) = 0"
  proof (cases "ECS_IS_PAIR i")
    case True
    then show ?thesis using table_pair(1,2)[OF assms True] by (simp add: p key_class_def)
  next
    case False
    then show ?thesis using n assms by (simp add: key_class_def table_id_def)
  qed
qed

lemma hash_target: "table_id i \<Longrightarrow> ECS_IS_PAIR i \<Longrightarrow>
    flecs_component_hash (ecs_pair EcsWildcard (ECS_PAIR_SECOND i)) = ecs_pair EcsWildcard (ECS_PAIR_SECOND i)"
  using hash_pair(1)[OF wildcard_elems(1) pair_second_less, of i] table_pair(2)[of i] wildcard_elems by simp

lemma pair_key_fields:
  assumes "r < 2 ^ 28" "t < 2 ^ 32"
  shows "ECS_IS_PAIR (ecs_pair r t)" "ECS_PAIR_FIRST (ecs_pair r t) = r" "ECS_PAIR_SECOND (ecs_pair r t) = t"
  using hash_pair[OF assms] plain_pair_flags(2) by blast+

lemma class_rel_key: "table_id x \<Longrightarrow> relation_key x = Some k \<Longrightarrow> key_class k = 2"
  using table_pair(1)[of x] pair_key_fields[OF pair_first_less wildcard_elems(2), of x] wildcard_elems
  by (auto simp: relation_key_def key_class_def hash_relation split: if_splits)

lemma hash_flag: "\<exists>t < 2 ^ 32. t \<noteq> EcsAny \<and> flecs_component_hash (ecs_pair EcsFlag x) = ecs_pair EcsFlag t"
proof -
  define y where "y = take_bit 32 x"
  have y: "y < 2 ^ 32" using pair_second_less[of x] by (simp add: y_def ECS_PAIR_SECOND_def ecs_entity_t_lo_def)
  define z where "z = (if y = EcsAny then EcsWildcard else y)"
  have "flecs_component_hash (ecs_pair EcsFlag x) = flecs_component_hash (ecs_pair EcsFlag y)"
    by (simp only: y_def ecs_pair_low)
  also have "\<dots> = ecs_pair EcsFlag z"
    using hash_pair(1)[OF wildcard_elems(3) y] wildcard_elems(5) by (simp add: z_def)
  finally have "z < 2 ^ 32 \<and> z \<noteq> EcsAny \<and> flecs_component_hash (ecs_pair EcsFlag x) = ecs_pair EcsFlag z"
    using y wildcard_elems(2,4) by (simp add: z_def)
  then show ?thesis by blast
qed

lemma class_cached_key:
  assumes "table_id x" "cached_key x = Some k"
  shows "key_class k = 1"
proof (cases "ECS_IS_PAIR x")
  case True
  then show ?thesis
    using assms table_pair(2)[OF assms(1) True] pair_key_fields[OF wildcard_elems(1) pair_second_less, of x] wildcard_elems
    by (auto simp: cached_key_def key_class_def hash_target)
next
  case False
  then have "k = flecs_component_hash (ecs_pair EcsFlag (x AND ECS_COMPONENT_MASK))"
    using assms(2) by (simp add: cached_key_def split: if_splits)
  then obtain t where "t < 2 ^ 32" "k = ecs_pair EcsFlag t" using hash_flag by metis
  then show ?thesis using pair_key_fields[OF wildcard_elems(3)] by (simp add: key_class_def)
qed

lemma class_extra_keys: "key_class EcsWildcard = 3" "key_class (ecs_pair EcsWildcard EcsWildcard) = 4" "key_class (ecs_pair EcsChildOf 0) = 5"
proof -
  have "\<not> ECS_IS_PAIR EcsWildcard"
    by (simp add: ECS_IS_PAIR_def ECS_IS_VALUE_PAIR_def EcsWildcard_def ECS_ID_FLAGS_MASK_def ECS_PAIR_def ECS_VALUE_PAIR_def)
  then show "key_class EcsWildcard = 3" by (simp add: key_class_def)
  show "key_class (ecs_pair EcsWildcard EcsWildcard) = 4"
    using pair_key_fields[OF wildcard_elems(1,2)] wildcard_elems by (simp add: key_class_def)
  show "key_class (ecs_pair EcsChildOf 0) = 5"
    using pair_key_fields[OF wildcard_elems(7), of 0] wildcard_elems by (simp add: key_class_def)
qed

lemma distinct_parts:
  "distinct (map f (filter P xs)) \<Longrightarrow> distinct (map f (filter (\<lambda>x. \<not> P x) xs)) \<Longrightarrow>
     f ` set (filter P xs) \<inter> f ` set (filter (\<lambda>x. \<not> P x) xs) = {} \<Longrightarrow> distinct (map f xs)"
proof (induction xs)
  case (Cons a xs)
  have "f a \<notin> f ` set xs"
    using Cons.prems by (cases "P a") (auto simp: image_iff split: if_splits)
  moreover have "distinct (map f xs)"
    using Cons.prems by (intro Cons.IH) (auto split: if_splits)
  ultimately show ?case by simp
qed simp

text \<open>What a record says of a pattern: where its first id is, and how many ids match.\<close>

definition record_of :: "u64 list \<Rightarrow> u64 \<Rightarrow> table_record \<Rightarrow> bool" where
  "record_of ids p tr \<longleftrightarrow> tr_cr tr = flecs_component_hash p \<and> tr_count tr = length (filter (\<lambda>i. id_matches i p) ids)
     \<and> tr_index tr = int (length (takeWhile (\<lambda>i. \<not> id_matches i p) ids))"

lemma tallied_record:
  assumes "tallied f ids recs" "\<And>x. x \<in> set ids \<Longrightarrow> f x = Some (flecs_component_hash p) \<longleftrightarrow> id_matches x p"
    and "i \<in> set ids" "id_matches i p"
  shows "\<exists>tr\<in>set recs. record_of ids p tr"
proof -
  have "Some (flecs_component_hash p) \<in> f ` set ids - {None}" using assms(2-4) by (metis DiffI imageI option.distinct(1) singletonD)
  then have "Some (flecs_component_hash p) \<in> Some ` tr_cr ` set recs" using assms(1) by (simp add: tallied_def)
  then obtain tr where tr: "tr \<in> set recs" "tr_cr tr = flecs_component_hash p" by auto
  have "filter (\<lambda>x. f x = Some (tr_cr tr)) ids = filter (\<lambda>i. id_matches i p) ids"
    "takeWhile (\<lambda>x. f x \<noteq> Some (tr_cr tr)) ids = takeWhile (\<lambda>i. \<not> id_matches i p) ids"
    using assms(2) tr(2) by (auto intro!: filter_cong takeWhile_cong)
  then show ?thesis using assms(1) tr by (auto simp: tallied_def record_of_def)
qed

lemma id_matches_pair:
  assumes "table_id x" "pattern_ok p" "ECS_IS_PAIR p"
  shows "id_matches x p \<longleftrightarrow> ECS_IS_PAIR x \<and> (ECS_PAIR_FIRST p = EcsWildcard \<or> ECS_PAIR_FIRST p = ECS_PAIR_FIRST x)
    \<and> (ECS_PAIR_SECOND p = EcsWildcard \<or> ECS_PAIR_SECOND p = ECS_PAIR_SECOND x)"
proof -
  have x: "plain_id x" "plain_id p" using assms by (simp_all add: table_id_def pattern_ok_def)
  have h: "ECS_HAS_ID_FLAG p ECS_PAIR" using x(2) assms(3) by (simp add: plain_pair_iff)
  have "x = p \<Longrightarrow> ECS_IS_PAIR x" using assms(3) by simp
  then show ?thesis using pattern_match(2)[OF x(1) assms(2)] h plain_pair_iff[OF x(1)] by (auto simp: pair_elem_match_def)
qed

lemma relation_matches:
  assumes "table_id x" "table_id i" "ECS_IS_PAIR i" "pattern_ok (ecs_pair (ECS_PAIR_FIRST i) EcsWildcard)"
  shows "relation_key x = Some (flecs_component_hash (ecs_pair (ECS_PAIR_FIRST i) EcsWildcard))
    \<longleftrightarrow> id_matches x (ecs_pair (ECS_PAIR_FIRST i) EcsWildcard)"
proof -
  note k = pair_key_fields[OF pair_first_less[of i] wildcard_elems(2)]
  show ?thesis
  proof (cases "ECS_IS_PAIR x")
    case True
    then show ?thesis
      using id_matches_pair[OF assms(1,4) k(1)] k table_pair(1)[OF assms(2,3)]
        pair_eq_iff[OF pair_first_less wildcard_elems(2) pair_first_less wildcard_elems(2), of x i]
      by (auto simp: relation_key_def hash_relation assms)
  qed (use id_matches_pair[OF assms(1,4) k(1)] in \<open>simp add: relation_key_def\<close>)
qed

lemma target_matches:
  assumes "table_id x" "table_id i" "ECS_IS_PAIR i" "pattern_ok (ecs_pair EcsWildcard (ECS_PAIR_SECOND i))"
  shows "cached_key x = Some (flecs_component_hash (ecs_pair EcsWildcard (ECS_PAIR_SECOND i)))
    \<longleftrightarrow> id_matches x (ecs_pair EcsWildcard (ECS_PAIR_SECOND i))"
proof -
  note k = pair_key_fields[OF wildcard_elems(1) pair_second_less[of i]]
  note m = id_matches_pair[OF assms(1,4) k(1)]
  show ?thesis
  proof (cases "ECS_IS_PAIR x")
    case True
    then show ?thesis
      using m k table_pair(2)[OF assms(2,3)]
        pair_eq_iff[OF wildcard_elems(1) pair_second_less wildcard_elems(1) pair_second_less, of x i]
      by (auto simp: cached_key_def hash_target assms)
  next
    case False
    obtain t where t: "t < 2 ^ 32" "flecs_component_hash (ecs_pair EcsFlag (x AND ECS_COMPONENT_MASK)) = ecs_pair EcsFlag t"
      using hash_flag by metis
    have "cached_key x \<noteq> Some (ecs_pair EcsWildcard (ECS_PAIR_SECOND i))"
      using False t pair_eq_iff[OF wildcard_elems(3) t(1) wildcard_elems(1) pair_second_less, of i] wildcard_elems
      by (simp add: cached_key_def)
    then show ?thesis using False m by (simp add: hash_target assms)
  qed
qed

lemma wildcard_matches:
  assumes "table_id x"
  shows "id_matches x EcsWildcard \<longleftrightarrow> is_regular x" "id_matches x (ecs_pair EcsWildcard EcsWildcard) \<longleftrightarrow> ECS_IS_PAIR x"
proof -
  note k = pair_key_fields[OF wildcard_elems(1,2)]
  have nf: "\<not> ECS_HAS_ID_FLAG EcsWildcard ECS_PAIR" "EcsWildcard AND ECS_COMPONENT_MASK = EcsWildcard" "ECS_PAIR_FIRST EcsWildcard = 0"
    by (simp_all add: id_constants)
  have "pattern_ok EcsWildcard" using nf by (simp add: pattern_ok_def plain_id_def EcsFlag_def)
  then show "id_matches x EcsWildcard \<longleftrightarrow> is_regular x"
    using pattern_match(2)[of x EcsWildcard] assms nf by (auto simp: table_id_def is_regular_flags ecs_id_is_wildcard_def)
  have "ecs_pair EcsWildcard EcsWildcard AND ECS_COMPONENT_MASK \<noteq> EcsWildcard" by (simp add: id_constants)
  moreover have "ECS_HAS_ID_FLAG (ecs_pair EcsWildcard EcsWildcard) ECS_PAIR" by (simp add: id_constants)
  moreover have "EcsWildcard \<noteq> 0" by (simp add: id_constants)
  ultimately have "pattern_ok (ecs_pair EcsWildcard EcsWildcard)"
    using k hash_pair(2)[OF wildcard_elems(1,2)] wildcard_elems by (simp add: pattern_ok_def plain_id_def)
  from id_matches_pair[OF assms this k(1)] show "id_matches x (ecs_pair EcsWildcard EcsWildcard) \<longleftrightarrow> ECS_IS_PAIR x"
    by (simp add: k)
qed

lemma record_classes:
  assumes "\<forall>i\<in>set ids. table_id i" "tallied relation_key ids rels" "tallied cached_key ids recs"
  shows "\<forall>tr\<in>set (base_list ids). key_class (tr_cr tr) = 0" "\<forall>tr\<in>set rels. key_class (tr_cr tr) = 2"
    "\<forall>tr\<in>set recs. key_class (tr_cr tr) = 1" "\<forall>tr\<in>set (extra_records hc ids). 2 < key_class (tr_cr tr)"
proof -
  show "\<forall>tr\<in>set (base_list ids). key_class (tr_cr tr) = 0"
    using assms(1) hash_id(2) by (auto simp: base_list_def)
  show "\<forall>tr\<in>set rels. key_class (tr_cr tr) = 2"
    using tallied_key[OF assms(2)] class_rel_key assms(1) by blast
  show "\<forall>tr\<in>set recs. key_class (tr_cr tr) = 1"
    using tallied_key[OF assms(3)] class_cached_key assms(1) by blast
  show "\<forall>tr\<in>set (extra_records hc ids). 2 < key_class (tr_cr tr)"
    by (auto simp: extra_records_def class_extra_keys)
qed

lemma distinct_extra: "distinct (map tr_cr (extra_records hc ids))"
proof -
  have "distinct (map key_class [EcsWildcard, ecs_pair EcsWildcard EcsWildcard, ecs_pair EcsChildOf 0])"
    by (simp add: class_extra_keys)
  then have "distinct [EcsWildcard, ecs_pair EcsWildcard EcsWildcard, ecs_pair EcsChildOf 0]" unfolding distinct_map by simp
  then show ?thesis by (auto simp: extra_records_def)
qed

lemma record_keys_distinct:
  assumes ids: "\<forall>i\<in>set ids. table_id i" and d: "distinct (map flecs_component_hash ids)"
    and core: "uncached_part core = base_list ids @ rels" "tallied relation_key ids rels" "tallied cached_key ids (cached_part core)"
  shows "distinct (map tr_cr (core @ extra_records hc ids))"
proof -
  note c = record_classes[OF ids core(2,3)]
  have u: "distinct (map tr_cr (uncached_part core))"
    using base_tallied[OF d] core(2) c(1,2) by (force simp: core(1) tallied_def)
  have uc: "\<forall>tr\<in>set (uncached_part core). key_class (tr_cr tr) \<in> {0, 2}" using c(1,2) by (auto simp: core(1))
  have "distinct (map tr_cr core)"
  proof (rule distinct_parts[where P = tr_cached])
    show "distinct (map tr_cr (filter tr_cached core))" using core(3) by (simp add: tallied_def cached_part_def)
    show "distinct (map tr_cr (filter (\<lambda>tr. \<not> tr_cached tr) core))" using u by (simp add: uncached_part_def)
    show "tr_cr ` set (filter tr_cached core) \<inter> tr_cr ` set (filter (\<lambda>tr. \<not> tr_cached tr) core) = {}"
    proof -
      have "key_class (tr_cr x) \<noteq> key_class (tr_cr y)" if "x \<in> set (cached_part core)" "y \<in> set (uncached_part core)" for x y
        using c(3) uc that by fastforce
      then show ?thesis unfolding cached_part_def uncached_part_def by force
    qed
  qed
  moreover have "set core = set (cached_part core) \<union> set (uncached_part core)"
    by (auto simp: cached_part_def uncached_part_def)
  then have "\<forall>tr\<in>set core. key_class (tr_cr tr) \<le> 2" using c(3) uc by auto
  then have "tr_cr ` set core \<inter> tr_cr ` set (extra_records hc ids) = {}" using c(4) by force
  ultimately show ?thesis using distinct_extra by simp
qed

lemma table_records_match:
  assumes t: "table_type ids" and ci: "index_ready ci ids" and d: "distinct (map flecs_component_hash ids)"
  obtains trs where "table_records ci hc ids = Inr trs" "distinct (map tr_cr trs)"
    "\<And>p. p \<in> table_patterns ids \<Longrightarrow> pattern_ok p \<Longrightarrow> p \<noteq> EcsAny \<Longrightarrow>
       if \<exists>i\<in>set ids. id_matches i p then \<exists>tr\<in>set trs. record_of ids p tr else \<forall>tr\<in>set trs. tr_cr tr \<noteq> flecs_component_hash p"
proof -
  note result = that
  obtain core rels where r: "table_records ci hc ids = Inr (core @ extra_records hc ids)"
    "uncached_part core = base_list ids @ rels" "tallied relation_key ids rels" "tallied cached_key ids (cached_part core)"
    by (rule table_records_shape[OF t ci, of hc])
  have tid: "\<forall>i\<in>set ids. table_id i" using t by (simp add: table_type_def)
  let ?trs = "core @ extra_records hc ids"
  have sub: "set (base_list ids) \<subseteq> set ?trs" "set rels \<subseteq> set ?trs" "set (cached_part core) \<subseteq> set ?trs"
    using arg_cong[OF r(2), of set] by (auto simp: uncached_part_def cached_part_def)
  have core: "set core = set (base_list ids) \<union> set rels \<union> set (cached_part core)"
    using arg_cong[OF r(2), of set] by (auto simp: uncached_part_def cached_part_def)
  have low: "key_class (tr_cr tr) \<le> 2" if "tr \<in> set core" for tr
    using record_classes(1-3)[OF tid r(3,4)] core that by fastforce
  obtain regs roles prs where ids: "ids = regs @ roles @ prs" "\<forall>i\<in>set regs. is_regular i \<and> \<not> ECS_IS_PAIR i"
    "\<forall>i\<in>set roles. is_role i \<and> \<not> ECS_IS_PAIR i" "\<forall>i\<in>set prs. ECS_IS_PAIR i \<and> \<not> is_regular i"
    by (rule type_split[OF t])
  have extra_keys: "EcsWildcard \<noteq> ecs_pair EcsWildcard EcsWildcard" "EcsWildcard \<noteq> ecs_pair EcsChildOf 0"
    "ecs_pair EcsWildcard EcsWildcard \<noteq> ecs_pair EcsChildOf 0"
    using class_extra_keys by auto
  have self: "\<exists>tr\<in>set ?trs. record_of ids i tr" if i: "i \<in> set ids" "pattern_ok i" for i
  proof -
    have p: "plain_id i" "\<not> ecs_id_is_wildcard i" "id_matches i i" using tid i by (auto simp: table_id_def id_matches_def ecs_id_match_def)
    have "Some (flecs_component_hash x) = Some (flecs_component_hash i) \<longleftrightarrow> id_matches x i" if x: "x \<in> set ids" for x
      using d x i p unique_match[OF i(2) p(2) _ p(1) _ p(3), of x] tid
      by (auto simp: distinct_map inj_on_def table_id_def)
    from tallied_record[OF base_tallied[OF d] this i(1) p(3)] show ?thesis using sub(1) by blast
  qed
  show thesis
  proof (rule result[OF r(1)])
    show "distinct (map tr_cr ?trs)" by (rule record_keys_distinct[OF tid d r(2-4)])
    fix p assume p: "p \<in> table_patterns ids" "pattern_ok p" "p \<noteq> EcsAny"
    consider (self) "p \<in> set ids"
      | (rel) i where "i \<in> set ids" "ECS_IS_PAIR i" "p = ecs_pair (ECS_PAIR_FIRST i) EcsWildcard"
      | (tgt) i where "i \<in> set ids" "ECS_IS_PAIR i" "p = ecs_pair EcsWildcard (ECS_PAIR_SECOND i)"
      | (flag) x where "p = ecs_pair EcsFlag x" | (none) "p = ecs_pair EcsChildOf 0"
      | (all) "p = EcsWildcard" | (pairs) "p = ecs_pair EcsWildcard EcsWildcard"
      using p(1,3) by (auto simp: table_patterns_def id_patterns_def split: if_splits)
    then show "if \<exists>i\<in>set ids. id_matches i p then \<exists>tr\<in>set ?trs. record_of ids p tr else \<forall>tr\<in>set ?trs. tr_cr tr \<noteq> flecs_component_hash p"
    proof cases
      case self
      then show ?thesis using \<open>\<And>i. i \<in> set ids \<Longrightarrow> pattern_ok i \<Longrightarrow> _\<close>[OF self p(2)]
        by (auto simp: id_matches_def ecs_id_match_def)
    next
      case (rel i)
      have ti: "table_id i" using rel tid by simp
      have m: "id_matches i p" using relation_matches[OF ti ti rel(2)] rel(2,3) p(2) by (simp add: relation_key_def)
      have "relation_key x = Some (flecs_component_hash p) \<longleftrightarrow> id_matches x p" if "x \<in> set ids" for x
        using relation_matches[OF _ ti rel(2), of x] rel(3) p(2) tid that by simp
      from tallied_record[OF r(3) this rel(1) m] show ?thesis using sub(2) rel(1) m by auto
    next
      case (tgt i)
      have ti: "table_id i" using tgt tid by simp
      have m: "id_matches i p" using target_matches[OF ti ti tgt(2)] tgt(2,3) p(2) by (simp add: cached_key_def)
      have "cached_key x = Some (flecs_component_hash p) \<longleftrightarrow> id_matches x p" if "x \<in> set ids" for x
        using target_matches[OF _ ti tgt(2), of x] tgt(3) p(2) tid that by simp
      from tallied_record[OF r(4) this tgt(1) m] show ?thesis using sub(3) tgt(1) m by auto
    next
      case (flag x)
      then show ?thesis using p(2) by (simp add: pattern_ok_def pair_first_ecs_pair EcsFlag_def)
    next
      case none
      have "ECS_HAS_ID_FLAG p ECS_PAIR \<and> ECS_PAIR_SECOND p = 0" by (simp add: none id_constants EcsChildOf_def)
      then show ?thesis using p(2) by (simp add: pattern_ok_def plain_id_def)
    next
      case all
      have h: "flecs_component_hash p = EcsWildcard"
        by (simp add: all flecs_component_hash_def ecs_strip_generation_def id_constants ECS_GENERATION_MASK_def Let_def)
      have m: "id_matches x p \<longleftrightarrow> is_regular x" if "x \<in> set ids" for x using wildcard_matches(1) tid that all by simp
      have f: "filter (\<lambda>i. id_matches i p) ids = filter is_regular ids" using m by (rule filter_cong[OF refl])
      have rg: "filter is_regular ids = regs" using ids by (auto simp: filter_id_conv filter_empty_conv is_role_def)
      show ?thesis
      proof (cases "regs = []")
        case True
        then have "\<forall>tr\<in>set (extra_records hc ids). tr_cr tr \<noteq> EcsWildcard" using rg extra_keys by (auto simp: extra_records_def)
        moreover have "\<forall>tr\<in>set core. tr_cr tr \<noteq> EcsWildcard" using low class_extra_keys(1) by fastforce
        ultimately show ?thesis using True rg m by (auto simp: h filter_empty_conv)
      next
        case False
        then obtain a as where "regs = a # as" by (cases regs) auto
        then have "takeWhile (\<lambda>i. \<not> id_matches i p) ids = []" using m ids(1,2) by simp
        moreover have "new_record EcsWildcard 0 (length regs) False \<in> set ?trs" using False rg by (simp add: extra_records_def)
        ultimately have "\<exists>tr\<in>set ?trs. record_of ids p tr" using h f rg by (force simp: record_of_def)
        moreover have "\<exists>i\<in>set ids. id_matches i p" using m ids(1,2) \<open>regs = a # as\<close> by auto
        ultimately show ?thesis by simp
      qed
    next
      case pairs
      have h: "flecs_component_hash p = p" using hash_pair(1)[OF wildcard_elems(1,2)] wildcard_elems by (simp add: pairs)
      have m: "id_matches x p \<longleftrightarrow> ECS_IS_PAIR x" if "x \<in> set ids" for x using wildcard_matches(2) tid that pairs by simp
      have f: "filter (\<lambda>i. id_matches i p) ids = filter ECS_IS_PAIR ids" using m by (rule filter_cong[OF refl])
      have pr: "filter ECS_IS_PAIR ids = prs" using ids by (auto simp: filter_id_conv filter_empty_conv)
      show ?thesis
      proof (cases "prs = []")
        case True
        then have "\<forall>tr\<in>set (extra_records hc ids). tr_cr tr \<noteq> p" using pr extra_keys by (auto simp: extra_records_def pairs)
        moreover have "\<forall>tr\<in>set core. tr_cr tr \<noteq> p" using low class_extra_keys(2) pairs by fastforce
        ultimately show ?thesis using True pr m by (auto simp: h filter_empty_conv)
      next
        case False
        then obtain a as where a: "prs = a # as" by (cases prs) auto
        have "takeWhile (\<lambda>i. \<not> id_matches i p) ids = takeWhile (\<lambda>i. \<not> ECS_IS_PAIR i) ids" using m by (intro takeWhile_cong) auto
        also have "\<dots> = regs @ roles" using ids a by (simp add: takeWhile_append)
        finally have "length (takeWhile (\<lambda>i. \<not> id_matches i p) ids) = length ids - length prs" using ids(1) by simp
        moreover have "new_record p (int (length ids - length prs)) (length prs) False \<in> set ?trs"
          using False pr by (simp add: extra_records_def pairs)
        ultimately have "\<exists>tr\<in>set ?trs. record_of ids p tr" using h f pr by (force simp: record_of_def)
        moreover have "\<exists>i\<in>set ids. id_matches i p" using m ids(1,4) a by auto
        ultimately show ?thesis by simp
      qed
    qed
  qed
qed

section \<open>All records\<close>

text \<open>
  The record of the ids that have the same number below their flags: only ids that are no pairs, that have a flag and
  a number, are counted there, whatever the flag.
\<close>

definition flag_key :: "u64 \<Rightarrow> u64 option" where
  "flag_key x = (if ECS_IS_PAIR x \<or> is_regular x \<or> x AND ECS_COMPONENT_MASK = 0 then None
     else Some (flecs_component_hash (ecs_pair EcsFlag (x AND ECS_COMPONENT_MASK))))"

definition flag_record_of :: "u64 list \<Rightarrow> u64 \<Rightarrow> table_record \<Rightarrow> bool" where
  "flag_record_of ids k tr \<longleftrightarrow> tr_cr tr = k \<and> tr_count tr = length (filter (\<lambda>i. flag_key i = Some k) ids)
     \<and> tr_index tr = int (length (takeWhile (\<lambda>i. flag_key i \<noteq> Some k) ids))"

lemma tallied_count:
  assumes "tallied f ids recs" "tr \<in> set recs" "\<And>x. x \<in> set ids \<Longrightarrow> f x = Some (tr_cr tr) \<longleftrightarrow> P x"
  shows "tr_count tr = length (filter P ids)" "tr_index tr = int (length (takeWhile (\<lambda>x. \<not> P x) ids))"
proof -
  have "filter (\<lambda>x. f x = Some (tr_cr tr)) ids = filter P ids"
    "takeWhile (\<lambda>x. f x \<noteq> Some (tr_cr tr)) ids = takeWhile (\<lambda>x. \<not> P x) ids"
    using assms(3) by (auto intro!: filter_cong takeWhile_cong)
  then show "tr_count tr = length (filter P ids)" "tr_index tr = int (length (takeWhile (\<lambda>x. \<not> P x) ids))"
    using assms(1,2) by (auto simp: tallied_def)
qed

lemma wildcard_pair_pattern:
  assumes "r < 2 ^ 28" "t < 2 ^ 32" "r \<notin> {0, EcsFlag}" "t \<noteq> 0"
  shows "pattern_ok (ecs_pair r t)"
proof -
  note k = hash_pair[OF assms(1,2)]
  have "ecs_pair r t AND ECS_COMPONENT_MASK \<noteq> EcsWildcard"
  proof
    assume a: "ecs_pair r t AND ECS_COMPONENT_MASK = EcsWildcard"
    have "ECS_PAIR_FIRST (ecs_pair r t) = ECS_PAIR_FIRST (ecs_pair r t AND ECS_COMPONENT_MASK)"
      by (rule bit_word_eqI) (auto simp: id_bits bit_and_iff)
    also have "\<dots> = 0" unfolding a by (simp add: id_constants)
    finally show False using assms(3) k(3) by simp
  qed
  then show ?thesis using k assms by (simp add: pattern_ok_def plain_id_def)
qed

lemma flag_key_cached:
  assumes "table_id y" "flag_key x = Some k"
  shows "cached_key y = Some k \<longleftrightarrow> flag_key y = Some k"
proof -
  obtain t where t: "t < 2 ^ 32" "k = ecs_pair EcsFlag t"
    using assms(2) hash_flag[of "x AND ECS_COMPONENT_MASK"] by (auto simp: flag_key_def split: if_splits)
  show ?thesis
  proof (cases "ECS_IS_PAIR y")
    case True
    have "ecs_pair EcsWildcard (ECS_PAIR_SECOND y) \<noteq> k"
      using t pair_eq_iff[OF wildcard_elems(3) t(1) wildcard_elems(1) pair_second_less, of y] wildcard_elems by auto
    then show ?thesis using True assms(1) by (simp add: cached_key_def flag_key_def hash_target)
  qed (simp add: cached_key_def flag_key_def)
qed

lemma table_records_classified:
  assumes t: "table_type ids" and ci: "index_ready ci ids" and d: "distinct (map flecs_component_hash ids)"
  obtains trs where "table_records ci hc ids = Inr trs" "length ids \<le> length trs"
    "\<And>j. j < length ids \<Longrightarrow> trs ! j = new_record (flecs_component_hash (ids ! j)) (int j) 1 False"
    "\<And>i k. i \<in> set ids \<Longrightarrow> flag_key i = Some k \<Longrightarrow> \<exists>tr\<in>set trs. flag_record_of ids k tr"
    "new_record (ecs_pair EcsChildOf 0) (-1) 0 False \<in> set trs \<longleftrightarrow> \<not> hc"
    "\<And>tr. tr \<in> set trs \<Longrightarrow> (\<exists>j<length ids. tr = trs ! j)
       \<or> (\<exists>p\<in>table_patterns ids. pattern_ok p \<and> p \<noteq> EcsAny \<and> record_of ids p tr \<and> tr_count tr \<noteq> 0)
       \<or> (\<exists>i\<in>set ids. \<exists>k. flag_key i = Some k \<and> flag_record_of ids k tr)
       \<or> tr = new_record (ecs_pair EcsChildOf 0) (-1) 0 False"
proof -
  note result = that
  obtain core rels where r: "table_records ci hc ids = Inr (core @ extra_records hc ids)"
    "uncached_part core = base_list ids @ rels" "tallied relation_key ids rels" "tallied cached_key ids (cached_part core)"
    and b: "take (length ids) core = base_list ids" "length ids \<le> length core"
    by (rule table_records_shape[OF t ci, of hc])
  have tid: "\<And>i. i \<in> set ids \<Longrightarrow> table_id i" using t by (simp add: table_type_def)
  let ?trs = "core @ extra_records hc ids"
  note kinds = record_classes[OF ballI[OF tid] r(3,4)]
  have core: "set core = set (base_list ids) \<union> set rels \<union> set (cached_part core)"
    using arg_cong[OF r(2), of set] by (auto simp: uncached_part_def cached_part_def)
  have first: "?trs ! j = new_record (flecs_component_hash (ids ! j)) (int j) 1 False" if "j < length ids" for j
  proof -
    have "?trs ! j = take (length ids) core ! j" using that b(2) by (simp add: nth_append)
    then show ?thesis using that by (simp add: b(1) base_list_def)
  qed
  have flags: "\<exists>tr\<in>set ?trs. flag_record_of ids k tr" if i: "i \<in> set ids" "flag_key i = Some k" for i k
  proof -
    have c: "\<And>x. x \<in> set ids \<Longrightarrow> cached_key x = Some k \<longleftrightarrow> flag_key x = Some k" using flag_key_cached[OF tid i(2)] .
    then have "cached_key i = Some k" using i by simp
    then have "Some k \<in> cached_key ` set ids - {None}" using i(1) by (metis DiffI imageI option.distinct(1) singletonD)
    then have "Some k \<in> Some ` tr_cr ` set (cached_part core)" using r(4) by (simp add: tallied_def)
    then obtain tr where tr: "tr \<in> set (cached_part core)" "tr_cr tr = k" by auto
    have "flag_record_of ids k tr"
      using tallied_count[OF r(4) tr(1), of "\<lambda>x. flag_key x = Some k"] c tr(2) by (simp add: flag_record_of_def)
    then show ?thesis using tr(1) core by auto
  qed
  have no_child: "tr_cr tr \<noteq> ecs_pair EcsChildOf 0" if "tr \<in> set core" for tr
  proof -
    have "key_class (tr_cr tr) \<in> {0, 1, 2}" using that core kinds(1-3) by auto
    then show ?thesis using class_extra_keys(3) by auto
  qed
  have keys: "ecs_pair EcsChildOf 0 \<noteq> EcsWildcard" "ecs_pair EcsChildOf 0 \<noteq> ecs_pair EcsWildcard EcsWildcard"
    using class_extra_keys by auto
  have child: "new_record (ecs_pair EcsChildOf 0) (-1) 0 False \<in> set ?trs \<longleftrightarrow> \<not> hc"
  proof -
    have "new_record (ecs_pair EcsChildOf 0) (-1) 0 False \<notin> set core" using no_child by fastforce
    moreover have "new_record (ecs_pair EcsChildOf 0) (-1) 0 False \<in> set (extra_records hc ids) \<longleftrightarrow> \<not> hc"
      using keys by (auto simp: extra_records_def new_record_def)
    ultimately show ?thesis by simp
  qed
  have same: "record_of ids p tr" if p: "p \<in> table_patterns ids" "pattern_ok p" "p \<noteq> EcsAny" "i \<in> set ids" "id_matches i p"
    and tr: "tr \<in> set ?trs" "tr_cr tr = flecs_component_hash p" for p i tr
  proof -
    obtain trs where m: "table_records ci hc ids = Inr trs" "distinct (map tr_cr trs)"
      "if \<exists>i\<in>set ids. id_matches i p then \<exists>tr\<in>set trs. record_of ids p tr else \<forall>tr\<in>set trs. tr_cr tr \<noteq> flecs_component_hash p"
      by (rule table_records_match[OF t ci d, of hc]) (use p(1-3) in blast)
    have e: "trs = ?trs" using m(1) r(1) by simp
    have "\<exists>i\<in>set ids. id_matches i p" using p(4,5) by blast
    then obtain tr' where tr': "tr' \<in> set trs" "record_of ids p tr'" using m(3) by (simp only: if_True) blast
    moreover have "inj_on tr_cr (set trs)" using m(2) by (simp add: distinct_map)
    then have "tr' = tr" using tr tr' by (simp add: record_of_def e inj_on_def)
    ultimately show ?thesis by simp
  qed
  show thesis
  proof (rule result[OF r(1) _ first flags child])
    show "length ids \<le> length ?trs" using b(2) by simp
    fix tr assume tr: "tr \<in> set ?trs"
    let ?wild = "\<exists>p\<in>table_patterns ids. pattern_ok p \<and> p \<noteq> EcsAny \<and> record_of ids p tr \<and> tr_count tr \<noteq> 0"
    have wild: ?wild if "p \<in> table_patterns ids" "pattern_ok p" "p \<noteq> EcsAny" "record_of ids p tr" "i \<in> set ids" "id_matches i p" for p i
      using that by (force simp: record_of_def filter_empty_conv)
    consider (own) "tr \<in> set (base_list ids)" | (rel) "tr \<in> set rels" | (tgt) "tr \<in> set (cached_part core)"
      | (extra) "tr \<in> set (extra_records hc ids)"
      using tr core by auto
    then show "(\<exists>j<length ids. tr = ?trs ! j) \<or> ?wild \<or> (\<exists>i\<in>set ids. \<exists>k. flag_key i = Some k \<and> flag_record_of ids k tr)
       \<or> tr = new_record (ecs_pair EcsChildOf 0) (-1) 0 False"
    proof cases
      case own
      then show ?thesis using first by (auto simp: base_list_def)
    next
      case rel
      obtain i where i: "i \<in> set ids" "relation_key i = Some (tr_cr tr)" using tallied_key[OF r(3) rel] by blast
      let ?p = "ecs_pair (ECS_PAIR_FIRST i) EcsWildcard"
      have p: "ECS_IS_PAIR i" "tr_cr tr = flecs_component_hash ?p" using i(2) by (auto simp: relation_key_def split: if_splits)
      have ok: "pattern_ok ?p"
        by (rule wildcard_pair_pattern[OF pair_first_less wildcard_elems(2)]) (use table_pair(1)[OF tid[OF i(1)] p(1)] in \<open>simp_all add: EcsWildcard_def\<close>)
      have m: "relation_key x = Some (tr_cr tr) \<longleftrightarrow> id_matches x ?p" if "x \<in> set ids" for x
        using relation_matches[OF tid[OF that] tid[OF i(1)] p(1) ok] p(2) by simp
      have "record_of ids ?p tr" using tallied_count[OF r(3) rel m] p(2) by (simp add: record_of_def)
      moreover have "?p \<noteq> EcsAny"
      proof
        assume "?p = EcsAny"
        then have "ECS_PAIR_SECOND EcsAny = EcsWildcard" using hash_pair(4)[OF pair_first_less[of i] wildcard_elems(2)] by simp
        then show False by (simp add: id_constants)
      qed
      ultimately show ?thesis using wild[OF in_patterns(2)[OF i(1) p(1)] ok _ _ i(1)] m[OF i(1)] i(2) by blast
    next
      case tgt
      obtain i where i: "i \<in> set ids" "cached_key i = Some (tr_cr tr)" using tallied_key[OF r(4) tgt] by blast
      show ?thesis
      proof (cases "ECS_IS_PAIR i")
        case False
        then have k: "flag_key i = Some (tr_cr tr)" using i(2) by (auto simp: cached_key_def flag_key_def split: if_splits)
        have "flag_record_of ids (tr_cr tr) tr"
          using tallied_count[OF r(4) tgt flag_key_cached[OF tid k]] by (simp add: flag_record_of_def)
        then show ?thesis using i(1) k by blast
      next
        case p: True
        let ?p = "ecs_pair EcsWildcard (ECS_PAIR_SECOND i)"
        have h: "tr_cr tr = flecs_component_hash ?p" using i(2) p by (simp add: cached_key_def)
        have ok: "pattern_ok ?p"
          by (rule wildcard_pair_pattern[OF wildcard_elems(1) pair_second_less])
            (use table_pair(2)[OF tid[OF i(1)] p] wildcard_elems in \<open>simp_all add: EcsWildcard_def EcsFlag_def\<close>)
        have m: "cached_key x = Some (tr_cr tr) \<longleftrightarrow> id_matches x ?p" if "x \<in> set ids" for x
          using target_matches[OF tid[OF that] tid[OF i(1)] p ok] h by simp
        have "record_of ids ?p tr" using tallied_count[OF r(4) tgt m] h by (simp add: record_of_def)
        moreover have "?p \<noteq> EcsAny"
        proof
          assume "?p = EcsAny"
          then have "ECS_PAIR_FIRST EcsAny = EcsWildcard" using hash_pair(3)[OF wildcard_elems(1) pair_second_less[of i]] by simp
          then show False by (simp add: id_constants)
        qed
        ultimately show ?thesis using wild[OF in_patterns(3)[OF i(1) p] ok _ _ i(1)] m[OF i(1)] i(2) by blast
      qed
    next
      case extra
      then consider (all) "tr = new_record EcsWildcard 0 (length (filter is_regular ids)) False" "filter is_regular ids \<noteq> []"
        | (pairs) "tr = new_record (ecs_pair EcsWildcard EcsWildcard) (int (length ids - length (filter ECS_IS_PAIR ids)))
            (length (filter ECS_IS_PAIR ids)) False" "filter ECS_IS_PAIR ids \<noteq> []"
        | (child) "tr = new_record (ecs_pair EcsChildOf 0) (-1) 0 False"
        by (auto simp: extra_records_def split: if_splits)
      then show ?thesis
      proof cases
        case all
        obtain i where i: "i \<in> set ids" "is_regular i" using all(2) by (auto simp: filter_empty_conv)
        have h: "flecs_component_hash EcsWildcard = EcsWildcard"
          by (simp add: flecs_component_hash_def ecs_strip_generation_def id_constants ECS_GENERATION_MASK_def Let_def)
        have m: "id_matches i EcsWildcard" using wildcard_matches(1)[OF tid[OF i(1)]] i(2) by simp
        have "pattern_ok EcsWildcard" by (simp add: pattern_ok_def plain_id_def id_constants EcsFlag_def)
        moreover from this have "record_of ids EcsWildcard tr" using same[OF _ _ _ i(1) m] tr all(1) h wildcard_elems(4)
          by (simp add: table_patterns_def)
        ultimately have ?wild using wild[OF _ _ _ _ i(1) m] wildcard_elems(4) by (simp add: table_patterns_def)
        then show ?thesis by blast
      next
        case pairs
        let ?p = "ecs_pair EcsWildcard EcsWildcard"
        obtain i where i: "i \<in> set ids" "ECS_IS_PAIR i" using pairs(2) by (auto simp: filter_empty_conv)
        have h: "flecs_component_hash ?p = ?p" using hash_pair(1)[OF wildcard_elems(1,2)] wildcard_elems by simp
        have m: "id_matches i ?p" using wildcard_matches(2)[OF tid[OF i(1)]] i(2) by simp
        have p: "?p \<in> table_patterns ids" "?p \<noteq> EcsAny" by (simp_all add: table_patterns_def id_constants)
        have ok: "pattern_ok ?p"
          by (rule wildcard_pair_pattern[OF wildcard_elems(1,2)]) (simp_all add: EcsWildcard_def EcsFlag_def)
        have "record_of ids ?p tr" using same[OF p(1) ok p(2) i(1) m tr] pairs(1) h by simp
        then show ?thesis using wild[OF p(1) ok p(2) _ i(1) m] by blast
      qed simp
    qed
  qed
qed

section \<open>A component index for examples\<close>

definition plain_record :: "(u64 \<Rightarrow> 'v ecs_type_info option) \<Rightarrow> u64 \<Rightarrow> 'v component_record" where
  "plain_record ti h = \<lparr>cr_id = h, cr_flags = 0, cr_type_info = ti h, cr_dont_fragment_tables = []\<rparr>"

lemma hash_hash_id: "table_id i \<Longrightarrow> flecs_component_hash (flecs_component_hash i) = flecs_component_hash i"
proof (cases "ECS_IS_PAIR i")
  case False
  have s: "ecs_strip_generation (ecs_strip_generation i) = ecs_strip_generation i"
    by (simp add: ecs_strip_generation_def and.assoc)
  have "\<not> ECS_IS_PAIR (ecs_strip_generation i)"
    using False is_pair_flags[of i "NOT ECS_GENERATION_MASK"] by (auto simp: ecs_strip_generation_def)
  then show ?thesis using s by (simp add: flecs_component_hash_def Let_def)
qed (simp add: hash_id)

lemma hash_hash_pattern:
  assumes "table_type ids" "p \<in> table_patterns ids"
  shows "flecs_component_hash (flecs_component_hash p) = flecs_component_hash p"
proof -
  have tid: "\<forall>i\<in>set ids. table_id i" using assms(1) by (simp add: table_type_def)
  consider (self) "p \<in> set ids"
    | (rel) i where "i \<in> set ids" "ECS_IS_PAIR i" "p = ecs_pair (ECS_PAIR_FIRST i) EcsWildcard"
    | (tgt) i where "i \<in> set ids" "ECS_IS_PAIR i" "p = ecs_pair EcsWildcard (ECS_PAIR_SECOND i)"
    | (flag) x where "p = ecs_pair EcsFlag x" | (none) "p = ecs_pair EcsChildOf 0"
    | (all) "p = EcsWildcard \<or> p = EcsAny" | (pairs) "p = ecs_pair EcsWildcard EcsWildcard"
    using assms(2) by (auto simp: table_patterns_def id_patterns_def split: if_splits)
  then show ?thesis
  proof cases
    case (flag x)
    then obtain t where t: "t < 2 ^ 32" "t \<noteq> EcsAny" "flecs_component_hash p = ecs_pair EcsFlag t" using hash_flag by metis
    then show ?thesis using hash_pair(1)[OF wildcard_elems(3) t(1)] wildcard_elems by simp
  next
    case all
    then show ?thesis
      by (elim disjE) (simp_all add: flecs_component_hash_def ecs_strip_generation_def id_constants ECS_GENERATION_MASK_def Let_def)
  next
    case none
    then show ?thesis using hash_pair(1)[OF wildcard_elems(7), of 0] wildcard_elems by (simp add: EcsAny_def)
  next
    case pairs
    then show ?thesis using hash_pair(1)[OF wildcard_elems(1,2)] wildcard_elems by simp
  qed (use tid hash_hash_id hash_relation hash_target in auto)
qed

lemma plain_index_ready:
  assumes "table_type ids" "\<And>h t. ti h = Some t \<Longrightarrow> ti_lawful t \<and> ti_size t \<noteq> 0"
  shows "index_ready (\<lambda>h. Some (plain_record ti h)) ids"
  using hash_hash_pattern[OF assms(1)] assms(2)
  by (simp add: index_ready_def plain_record_def cr_ok_def)

section \<open>The records of a table agree with matching\<close>

text \<open>
  Claim C16: table\_records creates these records for a type and no others. The first ones are those
  of the ids, in order, with count 1. Of the patterns of the table, every unflagged id or pair of wildcards that an
  id of the type matches by ecs\_id\_match has one record, with the position of the first matching id and the number of
  them, and a pattern that no id matches has none. The flagged ids with the same number share a record of a pair with
  EcsFlag, which counts them. A table without ChildOf pair and without Parent component (has\_childof) has the record (ChildOf, 0), with
  position -1 and count 0. No two records belong to one component record. The types have no value pairs and no pairs with EcsFlag, IsA or ChildOf.
\<close>

theorem table_records_exact:
  assumes "table_type ids" "index_ready ci ids" "distinct (map flecs_component_hash ids)"
  shows "\<exists>trs. table_records ci has_childof ids = Inr trs \<and> distinct (map tr_cr trs) \<and> length ids \<le> length trs
    \<and> (\<forall>j<length ids. trs ! j = new_record (flecs_component_hash (ids ! j)) (int j) 1 False)
    \<and> (\<forall>p\<in>table_patterns ids. pattern_ok p \<and> p \<noteq> EcsAny \<longrightarrow>
         (if \<exists>i\<in>set ids. id_matches i p then \<exists>tr\<in>set trs. record_of ids p tr
          else \<forall>tr\<in>set trs. tr_cr tr \<noteq> flecs_component_hash p))
    \<and> (\<forall>i\<in>set ids. \<forall>k. flag_key i = Some k \<longrightarrow> (\<exists>tr\<in>set trs. flag_record_of ids k tr))
    \<and> (new_record (ecs_pair EcsChildOf 0) (-1) 0 False \<in> set trs \<longleftrightarrow> \<not> has_childof)
    \<and> (\<forall>tr\<in>set trs. (\<exists>j<length ids. tr = trs ! j)
         \<or> (\<exists>p\<in>table_patterns ids. pattern_ok p \<and> p \<noteq> EcsAny \<and> record_of ids p tr \<and> tr_count tr \<noteq> 0)
         \<or> (\<exists>i\<in>set ids. \<exists>k. flag_key i = Some k \<and> flag_record_of ids k tr)
         \<or> tr = new_record (ecs_pair EcsChildOf 0) (-1) 0 False)"
proof -
  obtain trs where a: "table_records ci has_childof ids = Inr trs" "length ids \<le> length trs"
    "\<And>j. j < length ids \<Longrightarrow> trs ! j = new_record (flecs_component_hash (ids ! j)) (int j) 1 False"
    "\<And>i k. i \<in> set ids \<Longrightarrow> flag_key i = Some k \<Longrightarrow> \<exists>tr\<in>set trs. flag_record_of ids k tr"
    "new_record (ecs_pair EcsChildOf 0) (-1) 0 False \<in> set trs \<longleftrightarrow> \<not> has_childof"
    "\<And>tr. tr \<in> set trs \<Longrightarrow> (\<exists>j<length ids. tr = trs ! j)
       \<or> (\<exists>p\<in>table_patterns ids. pattern_ok p \<and> p \<noteq> EcsAny \<and> record_of ids p tr \<and> tr_count tr \<noteq> 0)
       \<or> (\<exists>i\<in>set ids. \<exists>k. flag_key i = Some k \<and> flag_record_of ids k tr)
       \<or> tr = new_record (ecs_pair EcsChildOf 0) (-1) 0 False"
    by (rule table_records_classified[OF assms, of has_childof]) blast
  obtain trs' where m: "table_records ci has_childof ids = Inr trs'" "distinct (map tr_cr trs')"
    "\<And>p. p \<in> table_patterns ids \<Longrightarrow> pattern_ok p \<Longrightarrow> p \<noteq> EcsAny \<Longrightarrow>
       if \<exists>i\<in>set ids. id_matches i p then \<exists>tr\<in>set trs'. record_of ids p tr else \<forall>tr\<in>set trs'. tr_cr tr \<noteq> flecs_component_hash p"
    by (rule table_records_match[OF assms]) blast
  have e: "trs' = trs" using m(1) a(1) by simp
  show ?thesis
  proof (intro exI[of _ trs] conjI ballI allI impI)
    fix p assume "p \<in> table_patterns ids" "pattern_ok p \<and> p \<noteq> EcsAny"
    then show "if \<exists>i\<in>set ids. id_matches i p then \<exists>tr\<in>set trs. record_of ids p tr else \<forall>tr\<in>set trs. tr_cr tr \<noteq> flecs_component_hash p"
      using m(3)[of p] e by blast
  qed (use a m(2) e in blast)+
qed

definition sample_ids_of_table :: "u64 list" where
  "sample_ids_of_table = [300, ECS_TOGGLE OR 300, ecs_pair 500 7, ecs_pair 500 8, ecs_pair 600 7]"

lemmas trait_constants = EcsIsA_def EcsChildOf_def EcsWith_def EcsOnDelete_def EcsOnDeleteTarget_def EcsOnInstantiate_def
  ECS_TOGGLE_def flecs_component_hash_def ecs_strip_generation_def ECS_GENERATION_MASK_def

lemma sample_ids_of_table_ok: "table_type sample_ids_of_table" "distinct (map flecs_component_hash sample_ids_of_table)"
  by (simp_all add: table_type_def table_id_def plain_id_def sample_ids_of_table_def id_constants trait_constants Let_def)

theorem table_records_exact_witness:
  "\<exists>trs. table_records (\<lambda>h. Some (plain_record (\<lambda>_. None :: nat ecs_type_info option) h)) False sample_ids_of_table = Inr trs
    \<and> (\<exists>tr\<in>set trs. tr_cr tr = ecs_pair EcsWildcard 7 \<and> tr_index tr = 2 \<and> tr_count tr = 2)"
proof -
  let ?p = "ecs_pair EcsWildcard 7"
  have ci: "index_ready (\<lambda>h. Some (plain_record (\<lambda>_. None :: nat ecs_type_info option) h)) sample_ids_of_table"
    by (rule plain_index_ready[OF sample_ids_of_table_ok(1)]) simp
  have p: "?p \<in> table_patterns sample_ids_of_table" "pattern_ok ?p" "?p \<noteq> EcsAny"
    by (simp_all add: table_patterns_def id_patterns_def sample_ids_of_table_def pattern_ok_def plain_id_def id_constants ECS_TOGGLE_def)
  have m: "map (\<lambda>i. id_matches i ?p) sample_ids_of_table = [False, False, True, False, True]"
    by (simp add: sample_ids_of_table_def id_matches_def ecs_id_match_def id_constants ECS_TOGGLE_def)
  have "\<exists>i\<in>set sample_ids_of_table. id_matches i ?p" using m by (simp add: sample_ids_of_table_def)
  moreover obtain trs where trs: "table_records (\<lambda>h. Some (plain_record (\<lambda>_. None :: nat ecs_type_info option) h)) False sample_ids_of_table = Inr trs"
    and all: "\<forall>p\<in>table_patterns sample_ids_of_table. pattern_ok p \<and> p \<noteq> EcsAny \<longrightarrow>
         (if \<exists>i\<in>set sample_ids_of_table. id_matches i p then \<exists>tr\<in>set trs. record_of sample_ids_of_table p tr
          else \<forall>tr\<in>set trs. tr_cr tr \<noteq> flecs_component_hash p)"
    using table_records_exact[OF sample_ids_of_table_ok(1) ci sample_ids_of_table_ok(2), of False] by blast
  ultimately obtain tr where tr: "tr \<in> set trs" "record_of sample_ids_of_table ?p tr"
    using bspec[OF all p(1)] p(2,3) by auto
  have "flecs_component_hash ?p = ?p" by (simp add: id_constants trait_constants Let_def)
  moreover have "tr_index tr = 2 \<and> tr_count tr = 2"
    using tr(2) m by (simp add: record_of_def sample_ids_of_table_def)
  ultimately show ?thesis using trs tr by (auto simp: record_of_def)
qed

end
