(* ===== verification/Table_Create.thy ===== *)
theory Table_Create
  imports Table_Records
begin

text \<open>
  The tables that flecs\_table\_init makes are well formed and empty, with one column for every id that
  has data, and their maps from ids to columns and their bloom filters answer lookups correctly.
\<close>

section \<open>Columns of a type\<close>

text \<open>The type of the column that an id gets; none for tags and for components kept outside of tables.\<close>

definition key_column :: "'v component_index \<Rightarrow> u64 \<Rightarrow> 'v ecs_type_info option" where
  "key_column ci k = (case ci k of None \<Rightarrow> None | Some cr \<Rightarrow> if cr_flags cr AND EcsIdSparse = 0 then cr_type_info cr else None)"

definition id_column :: "'v component_index \<Rightarrow> u64 \<Rightarrow> 'v ecs_type_info option" where
  "id_column ci i = key_column ci (flecs_component_hash i)"

definition data_ids :: "'v component_index \<Rightarrow> u64 list \<Rightarrow> u64 list" where
  "data_ids ci ids = filter (\<lambda>i. id_column ci i \<noteq> None) ids"

lemma data_ids_append: "data_ids ci (xs @ ys) = data_ids ci xs @ data_ids ci ys"
  by (simp add: data_ids_def)

section \<open>Registering the records\<close>

definition record_ready :: "('v::zero) component_index \<Rightarrow> table_record \<Rightarrow> bool" where
  "record_ready ci tr \<longleftrightarrow> (\<exists>cr. ci (tr_cr tr) = Some cr \<and> cr_ok cr)"

text \<open>Flags that are only added to, apart from those that concern IsA, traversable entities and table creation.\<close>

definition flags_extend :: "u32 \<Rightarrow> u32 \<Rightarrow> bool" where
  "flags_extend f g \<longleftrightarrow> f AND g = f \<and> (\<forall>m\<in>{EcsTableHasIsA, EcsTableHasTraversable, EcsTableHasOnTableCreate}. g AND m = f AND m)"

lemma flags_extend_refl: "flags_extend f f"
  by (simp add: flags_extend_def)

lemma flags_extend_trans: "flags_extend f g \<Longrightarrow> flags_extend g h \<Longrightarrow> flags_extend f h"
  unfolding flags_extend_def using flags_and_mono by (metis and.assoc and.commute)

lemma flags_extend_or:
  assumes "\<forall>m\<in>{EcsTableHasIsA, EcsTableHasTraversable, EcsTableHasOnTableCreate}. g AND m = 0"
  shows "flags_extend f (f OR g)"
  using assms by (simp add: flags_extend_def bit.conj_disj_distrib2 bit.conj_disj_distrib)

lemma event_mask_flags:
  assumes "cr_flags cr AND EcsIdHasOnTableCreate = 0"
  shows "\<forall>m\<in>{EcsTableHasIsA, EcsTableHasTraversable, EcsTableHasOnTableCreate}. (cr_flags cr AND EcsIdEventMask) AND m = 0"
proof -
  have "EcsIdEventMask AND EcsTableHasIsA = 0" "EcsIdEventMask AND EcsTableHasTraversable = 0"
    "EcsIdEventMask AND EcsTableHasOnTableCreate = EcsIdHasOnTableCreate"
    by (simp_all add: EcsIdEventMask_def EcsIdHasOnAdd_def EcsIdHasOnRemove_def EcsIdHasOnSet_def EcsIdHasOnTableCreate_def
        EcsIdHasOnTableDelete_def EcsIdSparse_def EcsIdOrderedChildren_def table_flags)
  then show ?thesis using assms by (simp add: and.assoc)
qed

lemma on_instantiate_ok:
  assumes "cr_ok cr"
  shows "\<exists>v. ECS_ID_ON_INSTANTIATE (cr_flags cr) = Inr v"
proof -
  have "unat (drop_bit 6 (cr_flags cr AND EcsIdOnInstantiateMask)) < 5"
    using assms by (simp add: cr_ok_def word_less_nat_alt)
  then show ?thesis by (simp add: ECS_ID_ON_INSTANTIATE_def)
qed

lemma register_records_ok:
  assumes "\<forall>tr\<in>set trs. record_ready ci tr"
  shows "\<exists>flags'. register_records ci n i trs (flags, cnt)
      = Inr (flags', cnt + length (filter (\<lambda>tr. key_column ci (tr_cr tr) \<noteq> None) (take (n - i) trs))) \<and> flags_extend flags flags'"
  using assms
proof (induction trs arbitrary: i flags cnt)
  case (Cons tr trs)
  obtain cr where cr: "ci (tr_cr tr) = Some cr" "cr_ok cr" using Cons.prems by (auto simp: record_ready_def)
  obtain oi where oi: "ECS_ID_ON_INSTANTIATE (cr_flags cr) = Inr oi" using on_instantiate_ok[OF cr(2)] by blast
  define f1 where "f1 = flags OR (cr_flags cr AND EcsIdEventMask)"
  define f2 where "f2 = (if oi = EcsOverride then f1 OR EcsTableHasOverrides else f1)"
  define c2 where "c2 = (if i < n \<and> cr_type_info cr \<noteq> None \<and> cr_flags cr AND EcsIdSparse = 0 then cnt + 1 else cnt)"
  have "flags_extend flags f1" using cr(2) by (simp add: f1_def flags_extend_or event_mask_flags cr_ok_def)
  moreover have "flags_extend f1 f2"
    by (simp add: f2_def flags_extend_refl flags_extend_or table_flags)
  ultimately have f: "flags_extend flags f2" by (rule flags_extend_trans)
  obtain flags' where ih: "register_records ci n (Suc i) trs (f2, c2)
      = Inr (flags', c2 + length (filter (\<lambda>tr. key_column ci (tr_cr tr) \<noteq> None) (take (n - Suc i) trs)))" "flags_extend f2 flags'"
    using Cons.IH[of "Suc i" f2 c2] Cons.prems by auto
  have k: "key_column ci (tr_cr tr) \<noteq> None \<longleftrightarrow> cr_type_info cr \<noteq> None \<and> cr_flags cr AND EcsIdSparse = 0"
    using cr(1) by (simp add: key_column_def)
  have "register_records ci n i (tr # trs) (flags, cnt) = register_records ci n (Suc i) trs (f2, c2)"
    by (simp add: cr_deref_def cr(1) oi f1_def f2_def c2_def Let_def)
  moreover have "c2 + length (filter (\<lambda>tr. key_column ci (tr_cr tr) \<noteq> None) (take (n - Suc i) trs))
      = cnt + length (filter (\<lambda>tr. key_column ci (tr_cr tr) \<noteq> None) (take (n - i) (tr # trs)))"
  proof -
    have "c2 = (if i < n \<and> key_column ci (tr_cr tr) \<noteq> None then cnt + 1 else cnt)"
      by (simp add: c2_def k del: not_None_eq)
    then show ?thesis by (cases "i < n") (auto simp: take_Cons' Suc_diff_Suc)
  qed
  ultimately show ?case using ih flags_extend_trans[OF f ih(2)] by auto
qed (simp add: flags_extend_refl)

lemma takeWhile_shorter: "x \<in> set xs \<Longrightarrow> \<not> P x \<Longrightarrow> length (takeWhile P xs) < length xs"
  by (induction xs) auto

lemma records_ready:
  assumes t: "table_type ids" and ci: "index_ready ci ids"
    and core: "uncached_part core = base_list ids @ rels" "tallied relation_key ids rels" "tallied cached_key ids (cached_part core)"
  shows "\<forall>tr\<in>set (core @ extra_records hc ids). record_ready ci tr"
    "\<forall>tr\<in>set (core @ extra_records hc ids). tr_cr tr = ecs_pair EcsChildOf 0
       \<or> (0 \<le> tr_index tr \<and> tr_index tr < int (length ids)) \<or> ids = []"
proof -
  have tid: "\<forall>i\<in>set ids. table_id i" using t by (simp add: table_type_def)
  have self: "flecs_component_hash EcsWildcard = EcsWildcard"
    "flecs_component_hash (ecs_pair EcsWildcard EcsWildcard) = ecs_pair EcsWildcard EcsWildcard"
    "flecs_component_hash (ecs_pair EcsChildOf 0) = ecs_pair EcsChildOf 0"
    by (simp_all add: flecs_component_hash_def ecs_strip_generation_def id_constants trait_constants Let_def)
  have set_core: "set core = set (base_list ids) \<union> set rels \<union> set (cached_part core)"
    using arg_cong[OF core(1), of set] by (auto simp: uncached_part_def cached_part_def)
  have ready: "record_ready ci tr" if "p \<in> table_patterns ids" "tr_cr tr = flecs_component_hash p" for p tr
    using ci that by (auto simp: index_ready_def record_ready_def)
  have rel: "\<exists>p\<in>table_patterns ids. k = flecs_component_hash p" if "x \<in> set ids" "relation_key x = Some k" for x k
    using that in_patterns(2)[of x ids] by (auto simp: relation_key_def split: if_splits)
  have cac: "\<exists>p\<in>table_patterns ids. k = flecs_component_hash p" if "x \<in> set ids" "cached_key x = Some k" for x k
    using that in_patterns(3,4)[of x ids] by (auto simp: cached_key_def split: if_splits)
  have keys: "\<exists>p\<in>table_patterns ids. tr_cr tr = flecs_component_hash p" if "tr \<in> set (core @ extra_records hc ids)" for tr
  proof -
    consider "tr \<in> set (base_list ids)" | "tr \<in> set rels" | "tr \<in> set (cached_part core)" | "tr \<in> set (extra_records hc ids)"
      using \<open>tr \<in> set (core @ extra_records hc ids)\<close> set_core by auto
    then show ?thesis
    proof cases
      case 1
      then show ?thesis using in_patterns(1)[of _ ids] by (auto simp: base_list_def)
    next
      case 2
      then show ?thesis using tallied_key[OF core(2)] rel by blast
    next
      case 3
      then show ?thesis using tallied_key[OF core(3)] cac by blast
    next
      case 4
      then have "tr_cr tr \<in> {EcsWildcard, ecs_pair EcsWildcard EcsWildcard, ecs_pair EcsChildOf 0}"
        by (auto simp: extra_records_def split: if_splits)
      moreover have "{EcsWildcard, ecs_pair EcsWildcard EcsWildcard, ecs_pair EcsChildOf 0} \<subseteq> table_patterns ids"
        by (simp add: table_patterns_def)
      ultimately show ?thesis using self by (intro bexI[of _ "tr_cr tr"]) auto
    qed
  qed
  then show "\<forall>tr\<in>set (core @ extra_records hc ids). record_ready ci tr" using ready by blast
  have first: "int (length (takeWhile (\<lambda>x. f x \<noteq> Some k) ids)) < int (length ids)" if "x \<in> set ids" "f x = Some k" for f :: "u64 \<Rightarrow> u64 option" and k x
    using takeWhile_shorter[of x ids "\<lambda>x. f x \<noteq> Some k"] that by simp
  have tal: "0 \<le> tr_index tr \<and> tr_index tr < int (length ids)" if "tallied f ids recs" "tr \<in> set recs" for f recs tr
    using tallied_key[OF that] that first by (fastforce simp: tallied_def)
  show "\<forall>tr\<in>set (core @ extra_records hc ids). tr_cr tr = ecs_pair EcsChildOf 0
       \<or> (0 \<le> tr_index tr \<and> tr_index tr < int (length ids)) \<or> ids = []"
  proof
    fix tr assume "tr \<in> set (core @ extra_records hc ids)"
    then consider "tr \<in> set (base_list ids)" | "tr \<in> set rels" | "tr \<in> set (cached_part core)" | "tr \<in> set (extra_records hc ids)"
      using set_core by auto
    then show "tr_cr tr = ecs_pair EcsChildOf 0 \<or> (0 \<le> tr_index tr \<and> tr_index tr < int (length ids)) \<or> ids = []"
    proof cases
      case 1
      then show ?thesis by (auto simp: base_list_def)
    next
      case 2
      then show ?thesis using tal[OF core(2)] by blast
    next
      case 3
      then show ?thesis using tal[OF core(3)] by blast
    next
      case 4
      have "filter ECS_IS_PAIR ids \<noteq> [] \<Longrightarrow> length ids - length (filter ECS_IS_PAIR ids) < length ids"
        by (intro diff_less) auto
      then show ?thesis using 4 by (auto simp: extra_records_def split: if_splits)
    qed
  qed
qed

section \<open>Columns\<close>

text \<open>The map from small ids: position and sign say tag or column.\<close>

lemma map_tags_ok:
  assumes "length cmap = 256" "i + length ids < 2 ^ 15"
  shows "\<exists>cmap'. map_tags i ids cmap = Inr cmap' \<and> length cmap' = 256
    \<and> (\<forall>v<256. unat v < 256 \<longrightarrow> (v \<notin> set ids \<longrightarrow> cmap' ! unat v = cmap ! unat v) \<and> (v \<in> set ids \<longrightarrow> cmap' ! unat (v :: u64) < 0))"
  using assms
proof (induction ids arbitrary: i cmap)
  case (Cons a ids)
  have c: "flecs_ito_int16 (- (int i + 1)) = Inr (- (int i + 1))" using Cons.prems(2) by (simp add: flecs_ito_int16_def)
  define cm where "cm = (if a < 256 then cmap[unat a := - (int i + 1)] else cmap)"
  have a: "unat a < 256" if "a < 256" using that by (simp add: word_less_nat_alt)
  have step: "map_tags i (a # ids) cmap = map_tags (Suc i) ids cm" "length cm = 256"
    using a Cons.prems(1) c by (auto simp: cm_def FLECS_HI_COMPONENT_ID_def)
  obtain cm' where ih: "map_tags (Suc i) ids cm = Inr cm'" "length cm' = 256"
    "\<forall>v<256. unat v < 256 \<longrightarrow> (v \<notin> set ids \<longrightarrow> cm' ! unat v = cm ! unat v) \<and> (v \<in> set ids \<longrightarrow> cm' ! unat (v :: u64) < 0)"
    using Cons.IH[of cm "Suc i"] step(2) Cons.prems(2) by auto
  have "(v \<notin> set (a # ids) \<longrightarrow> cm' ! unat v = cmap ! unat v) \<and> (v \<in> set (a # ids) \<longrightarrow> cm' ! unat v < 0)"
    if v: "v < 256" "unat v < 256" for v :: u64
  proof (cases "v = a")
    case True
    then have "cm ! unat v < 0" using v Cons.prems(1) by (simp add: cm_def)
    then show ?thesis using ih(3) v True by (cases "v \<in> set ids") auto
  next
    case False
    then have "unat v \<noteq> unat a" by (simp add: word_unat_eq_iff)
    then have "cm ! unat v = cmap ! unat v" by (simp add: cm_def)
    then show ?thesis using ih(3) v False by auto
  qed
  then show ?case using step ih by auto
qed simp

definition column_rank :: "'v component_index \<Rightarrow> u64 list \<Rightarrow> u64 \<Rightarrow> nat" where
  "column_rank ci ids i = length (takeWhile (\<lambda>j. j \<noteq> i) (data_ids ci ids))"

text \<open>The state of the loop over the columns when it has done the ids \<open>xs\<close>.\<close>

definition column_maps :: "'v component_index \<Rightarrow> nat \<Rightarrow> u64 list \<Rightarrow> int list \<Rightarrow> bool" where
  "column_maps ci n xs m \<longleftrightarrow>
     (\<forall>j<length xs. m ! j = (if id_column ci (xs ! j) = None then -1 else int (length (data_ids ci (take j xs)))))
     \<and> (\<forall>k<length (data_ids ci xs). \<exists>j<length xs. m ! (n + k) = int j \<and> xs ! j = data_ids ci xs ! k)"

definition small_map :: "'v component_index \<Rightarrow> u64 list \<Rightarrow> int list \<Rightarrow> int list \<Rightarrow> bool" where
  "small_map ci xs m0 m \<longleftrightarrow> length m = 256 \<and> (\<forall>v. unat v < 256 \<longrightarrow>
     m ! unat v = (if v \<in> set (data_ids ci xs) then int (column_rank ci xs v) + 1 else m0 ! unat v))"

definition column_flags :: "'v component_index \<Rightarrow> u64 list \<Rightarrow> u32 \<Rightarrow> u32 \<Rightarrow> bool" where
  "column_flags ci xs f g \<longleftrightarrow> flags_extend f g
     \<and> (\<forall>i\<in>set (data_ids ci xs). flecs_type_info_flags (the (id_column ci i)) AND g = flecs_type_info_flags (the (id_column ci i)))"

definition same_records :: "table_record list \<Rightarrow> table_record list \<Rightarrow> bool" where
  "same_records trs trs' \<longleftrightarrow> map tr_cr trs' = map tr_cr trs \<and> map tr_index trs' = map tr_index trs"

text \<open>The columns in the records of the ids that are done; the other records are as before.\<close>

definition record_columns :: "'v component_index \<Rightarrow> u64 list \<Rightarrow> table_record list \<Rightarrow> table_record list \<Rightarrow> bool" where
  "record_columns ci xs trs trs' \<longleftrightarrow> (\<forall>j<length xs. tr_column (trs' ! j)
       = (if id_column ci (xs ! j) = None then tr_column (trs ! j) else int (length (data_ids ci (take j xs)))))
     \<and> (\<forall>j. length xs \<le> j \<longrightarrow> j < length trs \<longrightarrow> trs' ! j = trs ! j)"

definition empty_columns :: "'v component_index \<Rightarrow> u64 list \<Rightarrow> 'v ecs_column list" where
  "empty_columns ci xs = map (\<lambda>i. \<lparr>col_data = [], col_ti = the (id_column ci i)\<rparr>) (data_ids ci xs)"

definition columns_inv :: "('v::zero) component_index \<Rightarrow> nat \<Rightarrow> nat \<Rightarrow> 'v init_columns \<Rightarrow> u64 list \<Rightarrow> 'v init_columns \<Rightarrow> bool" where
  "columns_inv ci n cnt st0 xs st \<longleftrightarrow>
     length (ic_column_map st) = n + cnt \<and> column_maps ci n xs (ic_column_map st) \<and> ic_columns st = empty_columns ci xs
     \<and> small_map ci xs (ic_component_map st0) (ic_component_map st)
     \<and> same_records (ic_records st0) (ic_records st) \<and> record_columns ci xs (ic_records st0) (ic_records st)
     \<and> column_flags ci xs (ic_flags st0) (ic_flags st)"

lemma type_info_flags_and: "\<forall>m\<in>{EcsTableHasIsA, EcsTableHasTraversable, EcsTableHasOnTableCreate}. flecs_type_info_flags ti AND m = 0"
  by (simp add: flecs_type_info_flags_def Let_def table_flags bit.conj_disj_distrib2)

lemma data_ids_snoc: "data_ids ci (xs @ [x]) = (if id_column ci x = None then data_ids ci xs else data_ids ci xs @ [x])"
  by (simp add: data_ids_def)

lemma length_data_ids: "length (data_ids ci xs) \<le> length xs"
  by (simp add: data_ids_def)

lemma column_maps_snoc:
  assumes m: "column_maps ci n xs m" "length xs < n" "length m = n + cnt" "length (data_ids ci (xs @ [x])) \<le> cnt"
  shows "id_column ci x = None \<Longrightarrow> column_maps ci n (xs @ [x]) (m[length xs := -1])"
    "id_column ci x \<noteq> None \<Longrightarrow> column_maps ci n (xs @ [x])
       ((m[length xs := int (length (data_ids ci xs))])[n + length (data_ids ci xs) := int (length xs)])"
proof -
  note a = m(1)[unfolded column_maps_def]
  show "column_maps ci n (xs @ [x]) (m[length xs := -1])" if n: "id_column ci x = None"
    unfolding column_maps_def
  proof (intro conjI allI impI)
    fix j assume "j < length (xs @ [x])"
    then show "m[length xs := - 1] ! j = (if id_column ci ((xs @ [x]) ! j) = None then - 1 else int (length (data_ids ci (take j (xs @ [x])))))"
      using a m(2,3) n by (cases "j = length xs") (auto simp: nth_append)
  next
    fix k assume "k < length (data_ids ci (xs @ [x]))"
    then obtain j where "j < length xs" "m ! (n + k) = int j" "xs ! j = data_ids ci xs ! k"
      using a n by (auto simp: data_ids_snoc)
    then show "\<exists>j<length (xs @ [x]). m[length xs := - 1] ! (n + k) = int j \<and> (xs @ [x]) ! j = data_ids ci (xs @ [x]) ! k"
      using m(2) n by (intro exI[of _ j]) (simp add: nth_append data_ids_snoc)
  qed
  let ?d = "data_ids ci xs"
  show "column_maps ci n (xs @ [x]) ((m[length xs := int (length ?d)])[n + length ?d := int (length xs)])" if c: "id_column ci x \<noteq> None"
    unfolding column_maps_def
  proof (intro conjI allI impI)
    have l: "n + length ?d < length m" using m(3,4) c by (simp add: data_ids_snoc)
    fix j assume "j < length (xs @ [x])"
    then show "(m[length xs := int (length ?d)])[n + length ?d := int (length xs)] ! j
        = (if id_column ci ((xs @ [x]) ! j) = None then - 1 else int (length (data_ids ci (take j (xs @ [x])))))"
      using a m(2,3) c by (cases "j = length xs") (auto simp: nth_append nth_list_update)
  next
    have l: "n + length ?d < length m" using m(3,4) c by (simp add: data_ids_snoc)
    fix k assume k: "k < length (data_ids ci (xs @ [x]))"
    show "\<exists>j<length (xs @ [x]). (m[length xs := int (length ?d)])[n + length ?d := int (length xs)] ! (n + k) = int j
        \<and> (xs @ [x]) ! j = data_ids ci (xs @ [x]) ! k"
    proof (cases "k = length ?d")
      case True
      then show ?thesis using l m(2) c by (intro exI[of _ "length xs"]) (simp add: data_ids_snoc del: not_None_eq)
    next
      case False
      then have k: "k < length ?d" using k c by (simp add: data_ids_snoc)
      then obtain j where "j < length xs" "m ! (n + k) = int j" "xs ! j = ?d ! k" using a by auto
      then show ?thesis using l m(2) c k by (intro exI[of _ j]) (simp add: data_ids_snoc nth_append)
    qed
  qed
qed

lemma column_rank_snoc:
  assumes "id_column ci x \<noteq> None" "x \<notin> set xs"
  shows "column_rank ci (xs @ [x]) x = length (data_ids ci xs)"
    "v \<in> set (data_ids ci xs) \<Longrightarrow> column_rank ci (xs @ [x]) v = column_rank ci xs v"
proof -
  have "x \<notin> set (data_ids ci xs)" using assms(2) by (simp add: data_ids_def)
  then have "takeWhile (\<lambda>j. j \<noteq> x) (data_ids ci xs) = data_ids ci xs" by (auto simp: takeWhile_eq_all_conv)
  then show "column_rank ci (xs @ [x]) x = length (data_ids ci xs)"
    using assms(1) by (simp add: column_rank_def takeWhile_append data_ids_snoc del: not_None_eq)
  show "v \<in> set (data_ids ci xs) \<Longrightarrow> column_rank ci (xs @ [x]) v = column_rank ci xs v"
    using assms(1) by (simp add: column_rank_def data_ids_snoc)
qed

lemma small_map_snoc:
  assumes m: "small_map ci xs m0 m" and x: "x \<notin> set xs"
  shows "id_column ci x = None \<Longrightarrow> small_map ci (xs @ [x]) m0 m"
    "id_column ci x \<noteq> None \<Longrightarrow>
       small_map ci (xs @ [x]) m0 (if unat x < 256 then m[unat x := int (length (data_ids ci xs)) + 1] else m)"
proof -
  show "small_map ci (xs @ [x]) m0 m" if "id_column ci x = None"
    using m that by (simp add: small_map_def data_ids_snoc column_rank_def)
  have u: "unat x = unat v \<longleftrightarrow> x = v" for v by (simp add: word_unat_eq_iff)
  have nx: "x \<notin> set (data_ids ci xs)" using x by (simp add: data_ids_def)
  show "small_map ci (xs @ [x]) m0 (if unat x < 256 then m[unat x := int (length (data_ids ci xs)) + 1] else m)" if c: "id_column ci x \<noteq> None"
    using m c nx column_rank_snoc[OF c x] data_ids_snoc[of ci xs x] unfolding small_map_def
    by (auto simp: nth_list_update u)
qed

lemma column_flags_snoc:
  assumes "column_flags ci xs f g"
  shows "id_column ci x = None \<Longrightarrow> column_flags ci (xs @ [x]) f g"
    "id_column ci x = Some ti \<Longrightarrow> column_flags ci (xs @ [x]) f (g OR flecs_type_info_flags ti)"
proof -
  show "column_flags ci (xs @ [x]) f g" if "id_column ci x = None" using assms that by (simp add: column_flags_def data_ids_snoc)
  have o: "a AND (g OR b) = a" if "a AND g = a" for a b :: u32
  proof -
    have "a AND (g OR b) = (a AND g) OR (a AND g AND b)" using that by (simp add: bit.conj_disj_distrib)
    then show ?thesis using that by (simp add: word_ao_absorbs)
  qed
  show "column_flags ci (xs @ [x]) f (g OR flecs_type_info_flags ti)" if "id_column ci x = Some ti"
    using assms that flags_extend_trans[OF _ flags_extend_or[OF type_info_flags_and[of ti]], of f g] o
    by (auto simp: column_flags_def data_ids_snoc word_ao_absorbs)
qed

lemma same_records_update:
  "same_records trs trs' \<Longrightarrow> i < length trs' \<Longrightarrow> same_records trs (trs'[i := (trs' ! i)\<lparr>tr_column := c\<rparr>])"
  by (simp add: same_records_def map_update) (metis length_map list_update_id nth_map)

lemma record_columns_snoc:
  assumes r: "record_columns ci xs trs trs'" "length trs' = length trs" "length xs < length trs"
  shows "id_column ci x = None \<Longrightarrow> record_columns ci (xs @ [x]) trs trs'"
    "id_column ci x \<noteq> None \<Longrightarrow> record_columns ci (xs @ [x]) trs
       (trs'[length xs := (trs' ! length xs)\<lparr>tr_column := int (length (data_ids ci xs))\<rparr>])"
proof -
  note a = r(1)[unfolded record_columns_def]
  show "record_columns ci (xs @ [x]) trs trs'" if n: "id_column ci x = None"
    unfolding record_columns_def
  proof (intro conjI allI impI)
    fix j assume "j < length (xs @ [x])"
    then show "tr_column (trs' ! j) = (if id_column ci ((xs @ [x]) ! j) = None then tr_column (trs ! j)
        else int (length (data_ids ci (take j (xs @ [x])))))"
      using a r(3) n by (cases "j = length xs") (auto simp: nth_append)
  qed (use a in auto)
  show "record_columns ci (xs @ [x]) trs (trs'[length xs := (trs' ! length xs)\<lparr>tr_column := int (length (data_ids ci xs))\<rparr>])"
    if c: "id_column ci x \<noteq> None"
    unfolding record_columns_def
  proof (intro conjI allI impI)
    fix j assume "j < length (xs @ [x])"
    then show "tr_column (trs'[length xs := (trs' ! length xs)\<lparr>tr_column := int (length (data_ids ci xs))\<rparr>] ! j)
        = (if id_column ci ((xs @ [x]) ! j) = None then tr_column (trs ! j) else int (length (data_ids ci (take j (xs @ [x])))))"
      using a r(2,3) c by (cases "j = length xs") (auto simp: nth_append nth_list_update)
  qed (use a in auto)
qed

lemma column_step:
  assumes inv: "columns_inv ci n cnt st0 xs st" and x: "x \<notin> set xs" "length xs < n" "n < 2 ^ 15"
    and rec: "length xs < length (ic_records st)" "tr_cr (ic_records st ! length xs) = flecs_component_hash x"
      "record_ready ci (ic_records st ! length xs)"
    and cnt: "length (data_ids ci (xs @ [x])) \<le> cnt"
  obtains st' where "init_columns_loop ci n cnt (length xs) (x # ys) st = init_columns_loop ci n cnt (length (xs @ [x])) ys st'"
    "columns_inv ci n cnt st0 (xs @ [x]) st'"
proof -
  obtain cr where cr: "ci (flecs_component_hash x) = Some cr" using rec(2,3) by (auto simp: record_ready_def)
  have col: "id_column ci x = (if cr_flags cr AND EcsIdSparse = 0 then cr_type_info cr else None)"
    by (simp add: id_column_def key_column_def cr)
  have i: "length (ic_column_map st) = n + cnt" "column_maps ci n xs (ic_column_map st)" "ic_columns st = empty_columns ci xs"
     "small_map ci xs (ic_component_map st0) (ic_component_map st)" "same_records (ic_records st0) (ic_records st)"
     "column_flags ci xs (ic_flags st0) (ic_flags st)" and rc: "record_columns ci xs (ic_records st0) (ic_records st)"
    using inv by (simp_all add: columns_inv_def)
  have lr: "length (ic_records st) = length (ic_records st0)"
    using i(5) unfolding same_records_def by (elim conjE) (rule map_eq_imp_length_eq)
  note rcs = record_columns_snoc[OF rc lr, of x, OF rec(1)[unfolded lr]]
  note maps = column_maps_snoc[OF i(2) x(2) i(1) cnt]
  show thesis
  proof (cases "id_column ci x")
    case None
    let ?st = "st\<lparr>ic_column_map := (ic_column_map st)[length xs := -1]\<rparr>"
    show thesis
    proof (rule that[of ?st])
      show "init_columns_loop ci n cnt (length xs) (x # ys) st = init_columns_loop ci n cnt (length (xs @ [x])) ys ?st"
        using rec cr None col i(1) x(2) by (auto simp: cr_deref_def split: option.splits if_splits)
      show "columns_inv ci n cnt st0 (xs @ [x]) ?st"
        using i maps(1)[OF None] small_map_snoc(1)[OF i(4) x(1) None] column_flags_snoc(1)[OF i(6) None] None rcs(1)[OF None]
        by (simp add: columns_inv_def empty_columns_def data_ids_snoc)
    qed
  next
    case (Some ti)
    let ?cur = "length (data_ids ci xs)"
    let ?m = "(ic_column_map st)[length xs := int ?cur, n + ?cur := int (length xs)]"
    let ?cm = "if unat x < 256 then (ic_component_map st)[unat x := int ?cur + 1] else ic_component_map st"
    let ?trs = "(ic_records st)[length xs := (ic_records st ! length xs)\<lparr>tr_column := int ?cur\<rparr>]"
    let ?st = "st\<lparr>ic_component_map := ?cm, ic_column_map := ?m, ic_records := ?trs,
      ic_columns := ic_columns st @ [\<lparr>col_data = [], col_ti = ti\<rparr>], ic_flags := ic_flags st OR flecs_type_info_flags ti\<rparr>"
    have some: "id_column ci x \<noteq> None" using Some by simp
    have cur: "length (ic_columns st) = ?cur" "?cur < cnt" "?cur < 2 ^ 15 - 1"
      using i(3) cnt Some x(2,3) length_data_ids[of ci xs] by (simp_all add: empty_columns_def data_ids_snoc)
    have ito: "flecs_ito_int16 (int ?cur) = Inr (int ?cur)" "flecs_ito_int16 (int ?cur + 1) = Inr (int ?cur + 1)"
      using cur(3) by (simp_all add: flecs_ito_int16_def)
    have hi: "x < FLECS_HI_COMPONENT_ID \<longleftrightarrow> unat x < 256" by (simp add: FLECS_HI_COMPONENT_ID_def word_less_nat_alt)
    have c: "cr_type_info cr = Some ti" "cr_flags cr AND EcsIdSparse = 0" using Some col by (auto split: if_splits)
    have l256: "length (ic_component_map st) = 256" using i(4) by (simp add: small_map_def)
    have rcd: "record_column (ic_records st) (length xs) (int ?cur) = Inr ?trs" using rec(1) by (simp add: record_column_def)
    have cm: "(if x < FLECS_HI_COMPONENT_ID then res_bind (flecs_ito_int16 (int ?cur + 1)) (\<lambda>v. mem_set (ic_component_map st) (unat x) v)
        else Inr (ic_component_map st)) = Inr ?cm"
      using hi ito l256 by simp
    show thesis
    proof (rule that[of ?st])
      show "init_columns_loop ci n cnt (length xs) (x # ys) st = init_columns_loop ci n cnt (length (xs @ [x])) ys ?st"
        using rec cr c cur i(1) x(2) by (simp add: cr_deref_def ito rcd cm Let_def)
      show "columns_inv ci n cnt st0 (xs @ [x]) ?st"
        using i maps(2)[OF some] small_map_snoc(2)[OF i(4) x(1) some] column_flags_snoc(2)[OF i(6) Some] Some
          same_records_update[OF i(5) rec(1)] rcs(2)[OF some]
        by (simp add: columns_inv_def empty_columns_def data_ids_snoc)
    qed
  qed
qed

lemma columns_loop_ok:
  assumes inv: "columns_inv ci n cnt st0 xs st" and d: "distinct (xs @ ys)" "length (xs @ ys) = n" "n < 2 ^ 15"
    and rec: "n \<le> length (ic_records st0)" "\<forall>j<n. tr_cr (ic_records st0 ! j) = flecs_component_hash ((xs @ ys) ! j)"
      "\<forall>tr\<in>set (ic_records st0). record_ready ci tr"
    and cnt: "length (data_ids ci (xs @ ys)) \<le> cnt"
  shows "\<exists>st'. init_columns_loop ci n cnt (length xs) ys st = Inr st' \<and> columns_inv ci n cnt st0 (xs @ ys) st'"
  using inv d cnt rec(2)
proof (induction ys arbitrary: xs st)
  case (Cons y ys)
  have s: "same_records (ic_records st0) (ic_records st)" using Cons.prems(1) by (simp add: columns_inv_def)
  then have l: "length (ic_records st) = length (ic_records st0)"
    unfolding same_records_def by (elim conjE) (rule map_eq_imp_length_eq)
  have lx: "length xs < n" using Cons.prems(3) by simp
  then have k: "length xs < length (ic_records st)" using rec(1) l by simp
  have t: "tr_cr (ic_records st ! length xs) = tr_cr (ic_records st0 ! length xs)"
  proof -
    have "map tr_cr (ic_records st) = map tr_cr (ic_records st0)" using s by (simp add: same_records_def)
    from arg_cong[OF this, of "\<lambda>l. l ! length xs"] show ?thesis using k l by simp
  qed
  then have r: "record_ready ci (ic_records st ! length xs)"
    using rec(3) k l by (simp add: record_ready_def)
  have tx: "tr_cr (ic_records st ! length xs) = flecs_component_hash y"
    using t Cons.prems(6) lx by simp
  have c1: "length (data_ids ci (xs @ [y])) \<le> cnt"
    using Cons.prems(5) data_ids_append[of ci "xs @ [y]" ys] by simp
  obtain st1 where st1: "init_columns_loop ci n cnt (length xs) (y # ys) st = init_columns_loop ci n cnt (length (xs @ [y])) ys st1"
    "columns_inv ci n cnt st0 (xs @ [y]) st1"
    by (rule column_step[OF Cons.prems(1) _ lx Cons.prems(4) k tx r c1]) (use Cons.prems(2) in auto)
  show ?case using Cons.IH[OF st1(2)] Cons.prems st1(1) by simp
qed simp

section \<open>Columns of wildcard records\<close>

definition wildcard_ready :: "'v component_index \<Rightarrow> nat \<Rightarrow> table_record \<Rightarrow> bool" where
  "wildcard_ready ci n tr \<longleftrightarrow> (\<forall>cr. ci (tr_cr tr) = Some cr \<and> ecs_id_is_wildcard (cr_id cr)
     \<longrightarrow> 0 \<le> tr_index tr \<and> tr_index tr < int n)"

lemma same_records_all:
  assumes "same_records trs trs'"
  shows "\<forall>tr\<in>set trs. record_ready ci tr \<Longrightarrow> \<forall>tr\<in>set trs'. record_ready ci tr"
    "\<forall>tr\<in>set trs. wildcard_ready ci n tr \<Longrightarrow> \<forall>tr\<in>set trs'. wildcard_ready ci n tr" "length trs' = length trs"
proof -
  have m: "map tr_cr trs' = map tr_cr trs" "map tr_index trs' = map tr_index trs" using assms by (simp_all add: same_records_def)
  show l: "length trs' = length trs" using m(1) by (rule map_eq_imp_length_eq)
  have e: "tr_cr (trs' ! i) = tr_cr (trs ! i)" "tr_index (trs' ! i) = tr_index (trs ! i)" if "i < length trs" for i
    using arg_cong[OF m(1), of "\<lambda>l. l ! i"] arg_cong[OF m(2), of "\<lambda>l. l ! i"] that l by simp_all
  show "\<forall>tr\<in>set trs'. record_ready ci tr" if "\<forall>tr\<in>set trs. record_ready ci tr"
    using that e l by (auto simp: record_ready_def all_set_conv_all_nth)
  show "\<forall>tr\<in>set trs'. wildcard_ready ci n tr" if "\<forall>tr\<in>set trs. wildcard_ready ci n tr"
    using that e l by (auto simp: wildcard_ready_def all_set_conv_all_nth)
qed

lemma wildcard_columns_ok:
  assumes "\<forall>tr\<in>set trs. record_ready ci tr" "\<forall>tr\<in>set trs. wildcard_ready ci (length trs) tr" "i + k \<le> length trs"
  shows "\<exists>trs'. wildcard_columns ci i k trs = Inr trs' \<and> same_records trs trs' \<and> (\<forall>j<i. trs' ! j = trs ! j)"
  using assms
proof (induction k arbitrary: i trs)
  case 0
  then show ?case by (simp add: same_records_def)
next
  case (Suc k)
  have i: "i < length trs" using Suc.prems(3) by simp
  then obtain cr where cr: "ci (tr_cr (trs ! i)) = Some cr" using Suc.prems(1) by (force simp: record_ready_def)
  obtain trs1 where t1: "(if ecs_id_is_wildcard (cr_id cr) then res_bind (int_index (tr_index (trs ! i))) (\<lambda>j.
      res_bind (mem_get trs j) (\<lambda>first_tr. record_column trs i (tr_column first_tr))) else Inr trs) = Inr trs1" "same_records trs trs1"
    "\<forall>j<i. trs1 ! j = trs ! j"
  proof (cases "ecs_id_is_wildcard (cr_id cr)")
    case True
    then have w: "0 \<le> tr_index (trs ! i)" "tr_index (trs ! i) < int (length trs)"
      using Suc.prems(2) i cr by (auto simp: wildcard_ready_def)
    let ?c = "tr_column (trs ! nat (tr_index (trs ! i)))"
    show thesis
      by (rule that[OF _ same_records_update[OF _ i, of trs ?c]])
        (use True w i in \<open>simp_all add: record_column_def same_records_def\<close>)
  qed (simp add: that same_records_def)
  note s = same_records_all[OF t1(2)]
  obtain trs' where t': "wildcard_columns ci (Suc i) k trs1 = Inr trs'" "same_records trs1 trs'" "\<forall>j<Suc i. trs' ! j = trs1 ! j"
    using Suc.IH[of trs1 "Suc i"] s(1)[OF Suc.prems(1)] s(2)[OF Suc.prems(2)] s(3) Suc.prems(3) by auto
  show ?case using t' t1 i cr by (simp add: cr_deref_def same_records_def)
qed

lemma childof_not_wildcard:
  assumes "flecs_component_hash c = ecs_pair EcsChildOf 0"
  shows "\<not> ecs_id_is_wildcard c"
proof
  assume w: "ecs_id_is_wildcard c"
  have cw: "flecs_component_hash EcsWildcard = EcsWildcard" "flecs_component_hash EcsAny = EcsAny"
    "EcsWildcard \<noteq> ecs_pair EcsChildOf 0" "EcsAny \<noteq> ecs_pair EcsChildOf 0"
    by (simp_all add: flecs_component_hash_def ecs_strip_generation_def id_constants trait_constants Let_def)
  then have c: "c \<noteq> EcsWildcard" "c \<noteq> EcsAny" using assms by auto
  then have p: "ECS_IS_PAIR c" using w by (auto simp: ecs_id_is_wildcard_def split: if_splits)
  then have "c AND ECS_ID_FLAGS_MASK \<noteq> 0" by (auto simp: ECS_IS_PAIR_def ECS_IS_VALUE_PAIR_def ECS_PAIR_def ECS_VALUE_PAIR_def)
  then have s: "ecs_strip_generation c = c" by (simp add: ecs_strip_generation_def)
  have "\<not> bit (ecs_pair EcsChildOf 0) 60" by (simp add: id_constants EcsChildOf_def)
  moreover have "bit (ecs_value_pair r t) 60" for r t by (simp add: ecs_value_pair_def bit_or_iff id_bits)
  ultimately have "ecs_value_pair r t \<noteq> ecs_pair EcsChildOf 0" for r t by metis
  then have v: "\<not> ECS_IS_VALUE_PAIR c" using assms p by (auto simp: flecs_component_hash_def s Let_def)
  let ?r = "ECS_PAIR_FIRST c" let ?t = "ECS_PAIR_SECOND c"
  have "ecs_pair (if ?r = EcsAny then EcsWildcard else ?r) (if ?t = EcsAny then EcsWildcard else ?t) = ecs_pair EcsChildOf 0"
    using assms p v by (simp add: flecs_component_hash_def s Let_def)
  moreover have "(if ?r = EcsAny then EcsWildcard else ?r) < 2 ^ 28" "(if ?t = EcsAny then EcsWildcard else ?t) < 2 ^ 32"
    using pair_first_less[of c] pair_second_less[of c] wildcard_elems by auto
  ultimately have "(if ?r = EcsAny then EcsWildcard else ?r) = EcsChildOf" "(if ?t = EcsAny then EcsWildcard else ?t) = 0"
    using pair_eq_iff[OF _ _ wildcard_elems(7), of _ _ 0] by simp_all
  then have "?r = EcsChildOf" "?t = 0" using wildcard_elems by (auto simp: EcsWildcard_def split: if_splits)
  then show False using w c p v wildcard_elems by (simp add: ecs_id_is_wildcard_def EcsWildcard_def EcsAny_def)
qed

section \<open>Bloom filters\<close>

lemma bit_bloom_add: "bit (flecs_table_bloom_filter_add f v) n \<longleftrightarrow> bit f n \<or> n = unat (v mod 64)"
proof -
  have "unat (v mod 64) < 64" by (simp add: unat_mod)
  then have "bit (push_bit (unat (v mod 64)) 1 :: u64) n \<longleftrightarrow> n = unat (v mod 64)"
    by (simp only: bit_push_bit_iff bit_1_iff possible_bit_word) auto
  then show ?thesis by (simp only: flecs_table_bloom_filter_add_def bit_or_iff)
qed

lemma bit_bloom_fold: "bit (fold (\<lambda>cid f. flecs_table_bloom_filter_add f cid) ids f) n \<longleftrightarrow> bit f n \<or> (\<exists>i\<in>set ids. n = unat (i mod 64))"
  by (induction ids arbitrary: f) (auto simp: bit_bloom_add)

lemma bloom_test: "(\<And>n. bit g n \<Longrightarrow> bit f n) \<Longrightarrow> flecs_table_bloom_filter_test f g"
  unfolding flecs_table_bloom_filter_test_def by (rule bit_word_eqI) (auto simp: bit_and_iff)

section \<open>The new table\<close>

lemma init_columns_ok:
  assumes t: "table_type ids" and l: "length ids \<le> length trs" "take (length ids) trs = base_list ids"
    and r: "\<forall>tr\<in>set trs. record_ready ci tr" "\<forall>tr\<in>set trs. wildcard_ready ci (length trs) tr"
  obtains cols where "flecs_table_init_columns ci ids trs (length (data_ids ci ids)) flags = Inr cols"
    "ic_columns cols = empty_columns ci ids" "column_flags ci ids flags (ic_flags cols)" "same_records trs (ic_records cols)"
    "data_ids ci ids \<noteq> [] \<Longrightarrow> length (ic_column_map cols) = length ids + length (data_ids ci ids) \<and> column_maps ci (length ids) ids (ic_column_map cols)"
    "\<forall>v. unat v < 256 \<longrightarrow> (if v \<notin> set ids then ic_component_map cols ! unat v = 0
       else if id_column ci v = None then ic_component_map cols ! unat v < 0
       else ic_component_map cols ! unat v = int (column_rank ci ids v) + 1)"
    "length (ic_component_map cols) = 256"
    "\<forall>j<length ids. tr_column (ic_records cols ! j) = (if id_column ci (ids ! j) = None then -1 else int (length (data_ids ci (take j ids))))"
proof -
  note result = that
  have len: "length ids < 2 ^ 15" and srt: "sorted_wrt (<) ids" using t by (simp_all add: table_type_def)
  have dist: "distinct ids" using srt by (simp add: strict_sorted_iff)
  have ito: "flecs_ito_int16 (int (length ids)) = Inr (int (length ids))" using len by (simp add: flecs_ito_int16_def)
  obtain cmap where cm: "map_tags 0 ids (replicate 256 0) = Inr cmap" "length cmap = 256"
    "\<forall>v<256. unat v < 256 \<longrightarrow> (v \<notin> set ids \<longrightarrow> cmap ! unat v = replicate 256 0 ! unat v) \<and> (v \<in> set ids \<longrightarrow> cmap ! unat (v :: u64) < 0)"
    using map_tags_ok[of "replicate 256 0" 0 ids] len by auto
  have cm3: "if v \<in> set ids then cmap ! unat v < 0 else cmap ! unat v = 0" if "unat v < 256" for v :: u64
    using cm(3) that by (auto simp: word_less_nat_alt)
  let ?n = "length ids" and ?c = "length (data_ids ci ids)"
  let ?st0 = "\<lparr>ic_component_map = cmap, ic_column_map = [], ic_columns = [], ic_records = trs, ic_flags = flags\<rparr>"
  have data: "v \<in> set (data_ids ci ids) \<longleftrightarrow> v \<in> set ids \<and> id_column ci v \<noteq> None" for v by (simp add: data_ids_def)
  have col0: "tr_column (trs ! j) = -1" if "j < ?n" for j
    using arg_cong[OF l(2), of "\<lambda>l. tr_column (l ! j)"] that by (simp add: base_list_def new_record_def)
  show thesis
  proof (cases "?c = 0")
    case True
    then have e: "data_ids ci ids = []" by simp
    show thesis
    proof (rule result[of ?st0])
      show "flecs_table_init_columns ci ids trs ?c flags = Inr ?st0"
        using True by (simp add: flecs_table_init_columns_def ito cm(1) Let_def)
      show "\<forall>v. unat v < 256 \<longrightarrow> (if v \<notin> set ids then ic_component_map ?st0 ! unat v = 0
          else if id_column ci v = None then ic_component_map ?st0 ! unat v < 0
          else ic_component_map ?st0 ! unat v = int (column_rank ci ids v) + 1)"
        using cm3 data e by fastforce
      show "\<forall>j<?n. tr_column (ic_records ?st0 ! j)
          = (if id_column ci (ids ! j) = None then -1 else int (length (data_ids ci (take j ids))))"
        using col0 e by (auto simp: data_ids_def filter_empty_conv)
    qed (simp_all add: e empty_columns_def column_flags_def flags_extend_refl same_records_def cm(2))
  next
    case False
    let ?st1 = "?st0\<lparr>ic_column_map := replicate (?n + ?c) 0\<rparr>"
    have inv: "columns_inv ci ?n ?c ?st1 [] ?st1"
      by (simp add: columns_inv_def column_maps_def empty_columns_def small_map_def same_records_def column_flags_def
          record_columns_def flags_extend_refl data_ids_def cm(2))
    have "tr_cr (trs ! j) = flecs_component_hash (ids ! j)" if "j < ?n" for j
      using arg_cong[OF l(2), of "\<lambda>l. tr_cr (l ! j)"] that by (simp add: base_list_def)
    then obtain st2 where st2: "init_columns_loop ci ?n ?c 0 ids ?st1 = Inr st2" "columns_inv ci ?n ?c ?st1 ids st2"
      using columns_loop_ok[OF inv, of ids] dist len l(1) r(1) by auto
    then have s2: "same_records trs (ic_records st2)" by (simp add: columns_inv_def)
    note sr = same_records_all[OF s2]
    have wl: "?n + (length (ic_records st2) - ?n) \<le> length (ic_records st2)" using l(1) sr(3) by simp
    obtain trs' where w: "wildcard_columns ci ?n (length (ic_records st2) - ?n) (ic_records st2) = Inr trs'" "same_records (ic_records st2) trs'"
      "\<forall>j<?n. trs' ! j = ic_records st2 ! j"
      using wildcard_columns_ok[OF sr(1)[OF r(1)] _ wl] sr(2)[OF r(2)] sr(3) by auto
    show thesis
    proof (rule result[of "st2\<lparr>ic_records := trs'\<rparr>"])
      show "flecs_table_init_columns ci ids trs ?c flags = Inr (st2\<lparr>ic_records := trs'\<rparr>)"
        using False st2(1) w(1) by (simp add: flecs_table_init_columns_def ito cm(1) Let_def)
      show "\<forall>v. unat v < 256 \<longrightarrow> (if v \<notin> set ids then ic_component_map (st2\<lparr>ic_records := trs'\<rparr>) ! unat v = 0
          else if id_column ci v = None then ic_component_map (st2\<lparr>ic_records := trs'\<rparr>) ! unat v < 0
          else ic_component_map (st2\<lparr>ic_records := trs'\<rparr>) ! unat v = int (column_rank ci ids v) + 1)"
        using st2(2) cm3 data by (auto simp: columns_inv_def small_map_def)
      show "\<forall>j<?n. tr_column (ic_records (st2\<lparr>ic_records := trs'\<rparr>) ! j)
          = (if id_column ci (ids ! j) = None then -1 else int (length (data_ids ci (take j ids))))"
        using st2(2) w(3) col0 by (simp add: columns_inv_def record_columns_def)
      show "length (ic_component_map (st2\<lparr>ic_records := trs'\<rparr>)) = 256"
        using st2(2) by (simp add: columns_inv_def small_map_def)
      show "same_records trs (ic_records (st2\<lparr>ic_records := trs'\<rparr>))" using s2 w(2) by (simp add: same_records_def)
    qed (use st2(2) in \<open>simp_all add: columns_inv_def\<close>)
  qed
qed

lemma column_ids_found:
  assumes "t_type t = ids" "t_columns t = empty_columns ci ids"
    and "data_ids ci ids \<noteq> [] \<Longrightarrow> column_maps ci (length ids) ids (t_column_map t)"
  shows "col_ids t = data_ids ci ids" "col_types t = map (\<lambda>i. (i, the (id_column ci i))) (data_ids ci ids)"
proof -
  have l: "length (t_columns t) = length (data_ids ci ids)" by (simp add: assms(2) empty_columns_def)
  show c: "col_ids t = data_ids ci ids"
  proof (rule nth_equalityI)
    fix k assume "k < length (col_ids t)"
    then have k: "k < length (data_ids ci ids)" using l by simp
    then have "data_ids ci ids \<noteq> []" by auto
    then obtain j where "j < length ids" "t_column_map t ! (length ids + k) = int j" "ids ! j = data_ids ci ids ! k"
      using assms(3) k by (auto simp: column_maps_def)
    then show "col_ids t ! k = data_ids ci ids ! k" using k l assms(1) by (simp add: col_ids_nth)
  qed (simp add: l)
  show "col_types t = map (\<lambda>i. (i, the (id_column ci i))) (data_ids ci ids)"
    by (simp add: col_types_def c assms(2) empty_columns_def zip_map2 zip_same_conv_map comp_def)
qed

lemma data_column_lawful:
  assumes "index_ready ci ids" "i \<in> set (data_ids ci ids)"
  shows "ti_lawful (the (id_column ci i)) \<and> ti_size (the (id_column ci i)) \<noteq> 0"
proof -
  have i: "i \<in> set ids" "id_column ci i \<noteq> None" using assms(2) by (simp_all add: data_ids_def)
  then obtain cr where "ci (flecs_component_hash i) = Some cr" "cr_ok cr"
    using assms(1) in_patterns(1)[of i ids] by (auto simp: index_ready_def)
  then show ?thesis using i(2) by (auto simp: id_column_def key_column_def cr_ok_def split: if_splits)
qed

lemma table_init_made:
  assumes t: "table_type ids" and ci: "index_ready ci ids"
  obtains tb m hc trs where "flecs_table_init ci ids = Inr (tb, m)" "table_wf tb" "t_type tb = ids" "t_count tb = 0"
    "col_types tb = map (\<lambda>i. (i, the (id_column ci i))) (data_ids ci ids)" "col_ids tb = data_ids ci ids"
    "t_traversable tb = 0" "\<not> table_has tb EcsTableHasTraversable"
    "\<forall>v. unat v < 256 \<longrightarrow> (if v \<notin> set ids then tm_component_map m ! unat v = 0
       else if id_column ci v = None then tm_component_map m ! unat v < 0
       else tm_component_map m ! unat v = int (column_rank ci ids v) + 1)"
    "\<forall>ids'. set ids' \<subseteq> set ids \<longrightarrow>
       flecs_table_bloom_filter_test (tm_bloom_filter m) (fold (\<lambda>cid f. flecs_table_bloom_filter_add f cid) ids' 0)"
    "length (tm_component_map m) = 256"
    "\<forall>j<length ids. tr_column (tm_records m ! j) = (if id_column ci (ids ! j) = None then -1 else int (length (data_ids ci (take j ids))))"
    "table_records ci hc ids = Inr trs" "same_records trs (tm_records m)" "take (length ids) trs = base_list ids" "length ids \<le> length trs"
proof -
  note result = that
  obtain fl where fl: "flecs_table_init_flags ci ids = Inr fl" "if_flags fl AND EcsTableHasIsA = 0"
    "if_flags fl AND EcsTableHasTraversable = 0" "if_flags fl AND EcsTableHasOnTableCreate = 0"
    "if_bs_count fl = length (toggles ids)" "toggles (drop (if_bs_offset fl) ids) = toggles ids"
    "toggles ids \<noteq> [] \<Longrightarrow> if_flags fl AND EcsTableHasToggle = EcsTableHasToggle
       \<and> if_bs_offset fl < length ids \<and> ECS_HAS_ID_FLAG (ids ! if_bs_offset fl) ECS_TOGGLE"
    by (rule table_flags_ok[OF t ci]) blast
  define hc where "hc = (if_flags fl AND (EcsTableHasChildOf OR EcsTableHasParent) \<noteq> 0)"
  obtain core rels where trs: "table_records ci hc ids = Inr (core @ extra_records hc ids)"
    "take (length ids) core = base_list ids" "length ids \<le> length core" "length core \<le> 3 * length ids"
    "uncached_part core = base_list ids @ rels" "tallied relation_key ids rels" "tallied cached_key ids (cached_part core)"
    by (rule table_records_shape[OF t ci, of hc])
  let ?trs = "core @ extra_records hc ids"
  note rr = records_ready[OF t ci trs(5-7), of hc]
  have tk: "take (length ids) ?trs = base_list ids" "length ids \<le> length ?trs" using trs(2,3) by simp_all
  have "length (extra_records hc ids) \<le> 3" by (simp add: extra_records_def)
  then have "length ?trs < 2 ^ 15" using trs(4) t by (simp add: table_type_def)
  then have ito1: "flecs_ito_int16 (int (length ?trs)) = Inr (int (length ?trs))" by (simp add: flecs_ito_int16_def)
  obtain flags where reg: "register_records ci (length ids) 0 ?trs (if_flags fl, 0)
      = Inr (flags, length (filter (\<lambda>tr. key_column ci (tr_cr tr) \<noteq> None) (take (length ids) ?trs)))" "flags_extend (if_flags fl) flags"
    using register_records_ok[OF rr(1), of "length ids" 0 "if_flags fl" 0] by auto
  have "filter (\<lambda>tr. key_column ci (tr_cr tr) \<noteq> None) (base_list ids)
      = map (\<lambda>j. new_record (flecs_component_hash (ids ! j)) (int j) 1 False) (filter (\<lambda>j. id_column ci (ids ! j) \<noteq> None) [0..<length ids])"
    by (simp add: base_list_def filter_map comp_def id_column_def)
  moreover have "data_ids ci ids = map ((!) ids) (filter (\<lambda>j. id_column ci (ids ! j) \<noteq> None) [0..<length ids])"
    using filter_map[of "\<lambda>i. id_column ci i \<noteq> None" "(!) ids" "[0..<length ids]"] by (simp add: data_ids_def map_nth comp_def)
  ultimately have cnt: "length (filter (\<lambda>tr. key_column ci (tr_cr tr) \<noteq> None) (take (length ids) ?trs)) = length (data_ids ci ids)"
    by (simp only: tk length_map)
  have "EcsAny \<in> table_patterns ids" by (simp add: table_patterns_def)
  moreover have "flecs_component_hash EcsAny = EcsAny"
    by (simp add: flecs_component_hash_def ecs_strip_generation_def id_constants trait_constants Let_def)
  ultimately obtain any_cr where any: "ci EcsAny = Some any_cr" "cr_ok any_cr" using ci by (force simp: index_ready_def)
  define f2 where "f2 = flags OR (cr_flags any_cr AND EcsIdEventMask)"
  have f2: "flags_extend (if_flags fl) f2"
  proof -
    have "cr_flags any_cr AND EcsIdHasOnTableCreate = 0" using any(2) by (simp add: cr_ok_def)
    from flags_extend_or[OF event_mask_flags[OF this]] show ?thesis unfolding f2_def by (rule flags_extend_trans[OF reg(2)])
  qed
  have "length (data_ids ci ids) < 2 ^ 15" using length_data_ids[of ci ids] t by (simp add: table_type_def)
  then have ito2: "flecs_ito_int16 (int (length (data_ids ci ids))) = Inr (int (length (data_ids ci ids)))"
    by (simp add: flecs_ito_int16_def)
  have wr: "\<forall>tr\<in>set ?trs. wildcard_ready ci (length ?trs) tr"
  proof
    fix tr assume tr: "tr \<in> set ?trs"
    have "tr_cr tr = ecs_pair EcsChildOf 0 \<or> (0 \<le> tr_index tr \<and> tr_index tr < int (length ?trs))"
    proof (cases "ids = []")
      case True
      then show ?thesis using tr trs(4) by (auto simp: extra_records_def split: if_splits)
    next
      case False
      then show ?thesis using rr(2) tr tk(2) by fastforce
    qed
    then show "wildcard_ready ci (length ?trs) tr"
    proof
      assume c: "tr_cr tr = ecs_pair EcsChildOf 0"
      have "flecs_component_hash (ecs_pair EcsChildOf 0) = ecs_pair EcsChildOf 0"
        by (simp add: flecs_component_hash_def ecs_strip_generation_def id_constants trait_constants Let_def)
      then obtain cr where "ci (ecs_pair EcsChildOf 0) = Some cr" "flecs_component_hash (cr_id cr) = ecs_pair EcsChildOf 0"
        using ci unfolding index_ready_def table_patterns_def by force
      then show ?thesis using c childof_not_wildcard by (simp add: wildcard_ready_def)
    qed (simp add: wildcard_ready_def)
  qed
  obtain cols where cols: "flecs_table_init_columns ci ids ?trs (length (data_ids ci ids)) f2 = Inr cols"
    "ic_columns cols = empty_columns ci ids" "column_flags ci ids f2 (ic_flags cols)" "same_records ?trs (ic_records cols)"
    "data_ids ci ids \<noteq> [] \<Longrightarrow> length (ic_column_map cols) = length ids + length (data_ids ci ids) \<and> column_maps ci (length ids) ids (ic_column_map cols)"
    "\<forall>v. unat v < 256 \<longrightarrow> (if v \<notin> set ids then ic_component_map cols ! unat v = 0
       else if id_column ci v = None then ic_component_map cols ! unat v < 0
       else ic_component_map cols ! unat v = int (column_rank ci ids v) + 1)"
    "length (ic_component_map cols) = 256"
    "\<forall>j<length ids. tr_column (ic_records cols ! j) = (if id_column ci (ids ! j) = None then -1 else int (length (data_ids ci (take j ids))))"
    by (rule init_columns_ok[OF t tk(2,1) rr(1) wr, of f2]) blast
  have fx: "flags_extend (if_flags fl) (ic_flags cols)"
    using flags_extend_trans[OF f2] cols(3) by (simp add: column_flags_def)
  have bits: "ic_flags cols AND EcsTableHasIsA = 0" "ic_flags cols AND EcsTableHasTraversable = 0"
    "ic_flags cols AND EcsTableHasOnTableCreate = 0" using fx fl(2-4) by (simp_all add: flags_extend_def)
  define bloom where "bloom = fold (\<lambda>cid f. flecs_table_bloom_filter_add f cid) ids 0"
  define bl where "bl = (if \<not> hc then flecs_table_bloom_filter_add bloom (ecs_pair EcsChildOf 0) else bloom)"
  define tb where "tb = \<lparr>t_type = ids, t_column_map = ic_column_map cols, t_columns = ic_columns cols,
         t_entities = [], t_count = 0, t_size = 0, t_flags = ic_flags cols,
         t_bs_columns = replicate (if_bs_count fl) flecs_bitset_init, t_bs_offset = if_bs_offset fl,
         t_lock = 0, t_traversable = 0, t_dirty = [], t_version = 1\<rparr>"
  define m where "m = \<lparr>tm_records = ic_records cols, tm_component_map = ic_component_map cols,
         tm_trait_flags = if_traits fl, tm_bloom_filter = bl\<rparr>"
  obtain all where all: "all = ?trs" by blast
  note steps = fl(1) trs(1)[folded all] ito1[folded all] reg(1)[folded all, unfolded cnt[folded all]] cols(1)[folded all] ito2
  have run: "flecs_table_init ci ids = Inr (tb, m)"
    using bits(3) any(1)
    by (simp add: flecs_table_init_def hc_def[symmetric] steps cr_deref_def f2_def[symmetric] bloom_def[symmetric]
        bl_def[symmetric] tb_def m_def Let_def)
  have tf: "t_type tb = ids" "t_columns tb = empty_columns ci ids" "t_column_map tb = ic_column_map cols" "t_count tb = 0"
    "t_flags tb = ic_flags cols" "t_size tb = 0"
    by (simp_all add: tb_def cols(2))
  have cm: "data_ids ci ids \<noteq> [] \<Longrightarrow> column_maps ci (length ids) ids (t_column_map tb)" using cols(5) tf(3) by simp
  have cf: "col_ids tb = data_ids ci ids" "col_types tb = map (\<lambda>i. (i, the (id_column ci i))) (data_ids ci ids)"
    by (rule column_ids_found[OF tf(1,2)], rule cm, assumption)+
  show thesis
  proof (rule result[OF run _ tf(1,4) cf(2,1) _ _ _ _ _ _ trs(1) _ tk])
    have srt: "sorted_wrt (<) ids" using t by (simp add: table_type_def)
    have "map_ok tb"
      unfolding map_ok_def tf(1,3)
    proof (intro conjI allI impI)
      fix i assume "i < length (t_columns tb)"
      then have i: "i < length (data_ids ci ids)" by (simp add: tf(2) empty_columns_def)
      then have "data_ids ci ids \<noteq> []" by auto
      note c = cols(5)[OF this]
      then obtain j where "j < length ids" "ic_column_map cols ! (length ids + i) = int j" using i by (auto simp: column_maps_def)
      then show "\<exists>j<length ids. length ids + i < length (ic_column_map cols) \<and> ic_column_map cols ! (length ids + i) = int j"
        using c i by auto
    qed (rule srt)
    moreover have "sorted_wrt (<) (col_ids tb)" unfolding cf(1) data_ids_def by (rule sorted_wrt_filter[OF srt])
    moreover have "\<forall>col\<in>set (t_columns tb). col_shape 0 (t_flags tb) col"
      using cols(3) data_column_lawful[OF ci] by (auto simp: tf(2,5) empty_columns_def col_shape_def column_flags_def)
    moreover have "bits_ok tb"
    proof -
      have "ic_flags cols AND EcsTableHasToggle = EcsTableHasToggle" if "toggles ids \<noteq> []"
        using fl(7)[OF that] fx flags_and_mono[of "if_flags fl" "ic_flags cols"] by (simp add: flags_extend_def)
      moreover have "EcsTableHasToggle \<noteq> 0" by (simp add: EcsTableHasToggle_def)
      moreover have "bs_count flecs_bitset_init = 0" by (simp add: flecs_bitset_init_def)
      ultimately show ?thesis
        using fl(5-7) by (auto simp: bits_ok_def tb_def bs_init_wf table_has_def)
    qed
    moreover have "\<not> table_has tb EcsTableHasIsA" using bits(1) by (simp add: table_has_def tb_def)
    moreover have "vec_wf (ecs_vec_from_entities tb)" by (simp add: tb_def ecs_vec_from_entities_def vec_wf_def)
    ultimately show "table_wf tb" by (simp add: table_wf_def table_shape_def tf(4,6) col_live_def) (simp add: tb_def)
    show "\<not> table_has tb EcsTableHasTraversable" using bits(2) by (simp add: table_has_def tb_def)
    show "\<forall>ids'. set ids' \<subseteq> set ids \<longrightarrow>
       flecs_table_bloom_filter_test (tm_bloom_filter m) (fold (\<lambda>cid f. flecs_table_bloom_filter_add f cid) ids' 0)"
    proof (intro allI impI bloom_test)
      fix ids' n assume "set ids' \<subseteq> set ids" "bit (fold (\<lambda>cid f. flecs_table_bloom_filter_add f cid) ids' 0) n"
      then show "bit (tm_bloom_filter m) n" by (auto simp: m_def bl_def bloom_def bit_bloom_add bit_bloom_fold)
    qed
  qed (use cols(4,6,7,8) in \<open>simp_all only: tb_def m_def ecs_table.simps table_meta.simps\<close>)
qed

text \<open>
  Claim C17: initialising a table for a sorted type whose ids have component records succeeds and
  gives an empty table that satisfies the invariant of the storage, with exactly one column for
  every id that has data. Its component map tells for an id below 256 that it is absent (zero), a
  tag (negative) or in which column it is (positive), and its bloom filter lets every query for
  ids of the type pass.
\<close>

theorem table_init_wf:
  assumes "table_type ids" "index_ready ci ids"
  shows "\<exists>t m. flecs_table_init ci ids = Inr (t, m) \<and> table_wf t \<and> t_type t = ids \<and> t_count t = 0
    \<and> col_types t = map (\<lambda>i. (i, the (id_column ci i))) (data_ids ci ids)
    \<and> (\<forall>v. unat v < 256 \<longrightarrow> (if v \<notin> set ids then tm_component_map m ! unat v = 0
         else if id_column ci v = None then tm_component_map m ! unat v < 0
         else tm_component_map m ! unat v = int (column_rank ci ids v) + 1))
    \<and> (\<forall>ids'. set ids' \<subseteq> set ids \<longrightarrow>
         flecs_table_bloom_filter_test (tm_bloom_filter m) (fold (\<lambda>cid f. flecs_table_bloom_filter_add f cid) ids' 0))"
  by (rule table_init_made[OF assms]) blast

definition plain_info :: "u64 \<Rightarrow> nat ecs_type_info" where
  "plain_info c = \<lparr>ti_size = 4, ti_hooks = no_hooks, ti_component = c\<rparr>"

lemma plain_info_ok: "ti_lawful (plain_info c)" "ti_size (plain_info c) = 4"
  by (simp_all add: plain_info_def ti_lawful_def legal_flags_def plain_hooks_def no_hooks_def)

definition sample_index :: "nat component_index" where
  "sample_index h = Some (plain_record (\<lambda>i. if i \<in> {7, 300} then Some (plain_info i) else None) h)"

lemma sample_index_ready: "table_type ids \<Longrightarrow> index_ready sample_index ids"
  unfolding sample_index_def
  by (rule plain_index_ready) (auto simp: plain_info_ok split: if_splits)

theorem table_init_wf_witness:
  "\<exists>t m. flecs_table_init sample_index [6, 7, 300, ECS_TOGGLE OR 300, ecs_pair 500 7] = Inr (t, m)
    \<and> map fst (col_types t) = [7, 300] \<and> tm_component_map m ! 7 = 1 \<and> tm_component_map m ! 6 < 0 \<and> tm_component_map m ! 5 = 0"
proof -
  let ?ids = "[6, 7, 300, ECS_TOGGLE OR 300, ecs_pair 500 7]"
  have t: "table_type ?ids"
    by (simp add: table_type_def table_id_def plain_id_def id_constants trait_constants Let_def)
  have c: "map (id_column sample_index) ?ids = [None, Some (plain_info 7), Some (plain_info 300), None, None]"
    by (simp add: id_column_def key_column_def sample_index_def plain_record_def id_constants trait_constants Let_def)
  then have d: "data_ids sample_index ?ids = [7, 300]" by (simp add: data_ids_def)
  obtain tb m where r: "flecs_table_init sample_index ?ids = Inr (tb, m)"
    "col_types tb = map (\<lambda>i. (i, the (id_column sample_index i))) (data_ids sample_index ?ids)"
    and v: "\<forall>v. unat v < 256 \<longrightarrow> (if v \<notin> set ?ids then tm_component_map m ! unat v = 0
         else if id_column sample_index v = None then tm_component_map m ! unat v < 0
         else tm_component_map m ! unat v = int (column_rank sample_index ?ids v) + 1)"
    using table_init_wf[OF t sample_index_ready[OF t]] by blast
  have "tm_component_map m ! 7 = 1" using spec[OF v, of 7] c d by (simp add: column_rank_def)
  moreover have "tm_component_map m ! 6 < 0" using spec[OF v, of 6] c by simp
  moreover have "tm_component_map m ! 5 = 0" using spec[OF v, of 5] by (simp add: id_constants ECS_TOGGLE_def)
  ultimately show ?thesis using r d by simp
qed

end
