(* ===== verification/Table_Graph.thy ===== *)
theory Table_Graph
  imports Table_Create Name_Index
begin

text \<open>
  The graph of tables (storage/table\_graph.c): the map from types to tables, the creation of the
  table of a type, and the edges that remember to which table an entity goes when an id is added or
  removed, with the difference between the two tables. An edge for an id below 256 is in an array,
  others are in a map; the map also has an entry for the edges in the array. The lists of
  references to a table, which only the deletion of tables uses, are left out; tables are not
  deleted, so that the number of a table is its position. Adding pairs of IsA and ChildOf,
  relationships with the With trait and ids that are not alive are marked by ECS\_UNSUPPORTED.
\<close>

section \<open>State\<close>

definition EcsTableAddEdgeFlags :: u32 where "EcsTableAddEdgeFlags = EcsTableHasOnAdd OR EcsTableHasSparse"
definition EcsTableRemoveEdgeFlags :: u32 where
  "EcsTableRemoveEdgeFlags = EcsTableHasOnRemove OR EcsTableHasSparse OR EcsTableHasOrderedChildren"
definition EcsTableEdgeReparent :: u32 where "EcsTableEdgeReparent = push_bit 28 1"
definition EcsIdMatchDontFragment :: u32 where "EcsIdMatchDontFragment = push_bit 23 1"
definition EcsNonTrivialIdNonFragmenting :: "8 word" where "EcsNonTrivialIdNonFragmenting = push_bit 1 1"

record table_diff =
  td_added :: "u64 list"
  td_removed :: "u64 list"
  td_added_flags :: u32
  td_removed_flags :: u32

definition ECS_TABLE_DIFF_INIT :: table_diff where
  "ECS_TABLE_DIFF_INIT = \<lparr>td_added = [], td_removed = [], td_added_flags = 0, td_removed_flags = 0\<rparr>"

record graph_edge =
  ge_to :: "nat option"
  ge_diff :: "table_diff option"
  ge_id :: u64

definition zero_edge :: graph_edge where "zero_edge = \<lparr>ge_to = None, ge_diff = None, ge_id = 0\<rparr>"

text \<open>An entry of the map: null, a pointer into the array, or an edge of its own.\<close>

datatype hi_edge = Hi_null | Hi_lo | Hi_edge graph_edge

instantiation hi_edge :: zero
begin

definition zero_hi_edge :: hi_edge where "zero_hi_edge = Hi_null"

instance ..

end

record graph_edges =
  gs_lo :: "graph_edge list"
  gs_hi :: "hi_edge ecs_map option"

record graph_node =
  gn_add :: graph_edges
  gn_remove :: graph_edges

text \<open>
  The world with its component index, table map and graph; node and meta data of a table have its
  number. \<open>k\_non\_trivial\<close> is world-\textgreater non\_trivial\_lookup.
\<close>

record 'v kernel =
  k_world :: "'v world"
  k_index :: "'v component_index"
  k_table_map :: "(u64 list, nat option) ecs_hashmap"
  k_nodes :: "graph_node list"
  k_meta :: "table_meta list"
  k_non_trivial :: "8 word list"

definition k_table :: "'v kernel \<Rightarrow> nat \<Rightarrow> 'v ecs_table res" where
  "k_table k t = mem_get (w_tables (k_world k)) t"

section \<open>Edges\<close>

definition flecs_table_init_edges :: graph_edges where
  "flecs_table_init_edges = \<lparr>gs_lo = [], gs_hi = None\<rparr>"

definition flecs_table_init_node :: graph_node where
  "flecs_table_init_node = \<lparr>gn_add = flecs_table_init_edges, gn_remove = flecs_table_init_edges\<rparr>"

text \<open>The edge that a pointer to it has: in the array, or in the map. The pointer is the id.\<close>

definition edge_read :: "graph_edges \<Rightarrow> u64 \<Rightarrow> graph_edge res" where
  "edge_read es cid =
     (if cid < FLECS_HI_COMPONENT_ID then mem_get (gs_lo es) (unat cid)
      else res_bind (deref (gs_hi es)) (\<lambda>hi.
           res_bind (ecs_map_get hi cid) (\<lambda>e.
           case e of Some (Hi_edge e) \<Rightarrow> Inr e | _ \<Rightarrow> Inl MEMORY_FAULT)))"

definition edge_write :: "graph_edges \<Rightarrow> u64 \<Rightarrow> graph_edge \<Rightarrow> graph_edges res" where
  "edge_write es cid e =
     (if cid < FLECS_HI_COMPONENT_ID
      then res_bind (mem_set (gs_lo es) (unat cid) e) (\<lambda>lo. Inr (es\<lparr>gs_lo := lo\<rparr>))
      else res_bind (deref (gs_hi es)) (\<lambda>hi.
           res_bind (map_write hi cid (Hi_edge e)) (\<lambda>hi. Inr (es\<lparr>gs_hi := Some hi\<rparr>))))"

definition flecs_table_ensure_hi_edge :: "graph_edges \<Rightarrow> u64 \<Rightarrow> graph_edges res" where
  "flecs_table_ensure_hi_edge edges cid =
     res_bind (case gs_hi edges of None \<Rightarrow> ecs_map_init | Some hi \<Rightarrow> Inr hi) (\<lambda>hi.
     res_bind (ecs_map_ensure hi cid) (\<lambda>(hi, r).
     if r \<noteq> Hi_null then Inr (edges\<lparr>gs_hi := Some hi\<rparr>)
     else
       let edge = (if cid < FLECS_HI_COMPONENT_ID then Hi_lo else Hi_edge zero_edge) in
       res_bind (map_write hi cid edge) (\<lambda>hi. Inr (edges\<lparr>gs_hi := Some hi\<rparr>))))"

definition flecs_table_ensure_edge :: "graph_edges \<Rightarrow> u64 \<Rightarrow> graph_edges res" where
  "flecs_table_ensure_edge edges cid =
     (if cid < FLECS_HI_COMPONENT_ID
      then Inr (if gs_lo edges = [] then edges\<lparr>gs_lo := replicate 256 zero_edge\<rparr> else edges)
      else flecs_table_ensure_hi_edge edges cid)"

text \<open>The edges of a table, for additions or for removals.\<close>

definition k_edges :: "'v kernel \<Rightarrow> bool \<Rightarrow> nat \<Rightarrow> graph_edges res" where
  "k_edges k remove node =
     res_bind (mem_get (k_nodes k) node) (\<lambda>n. Inr (if remove then gn_remove n else gn_add n))"

definition k_edges_set :: "'v kernel \<Rightarrow> bool \<Rightarrow> nat \<Rightarrow> graph_edges \<Rightarrow> 'v kernel res" where
  "k_edges_set k remove node es =
     res_bind (mem_get (k_nodes k) node) (\<lambda>n.
     res_bind (mem_set (k_nodes k) node (if remove then n\<lparr>gn_remove := es\<rparr> else n\<lparr>gn_add := es\<rparr>)) (\<lambda>nodes.
     Inr (k\<lparr>k_nodes := nodes\<rparr>)))"

definition k_edge :: "'v kernel \<Rightarrow> bool \<Rightarrow> nat \<Rightarrow> u64 \<Rightarrow> graph_edge res" where
  "k_edge k remove node cid = res_bind (k_edges k remove node) (\<lambda>es. edge_read es cid)"

definition k_edge_set :: "'v kernel \<Rightarrow> bool \<Rightarrow> nat \<Rightarrow> u64 \<Rightarrow> graph_edge \<Rightarrow> 'v kernel res" where
  "k_edge_set k remove node cid e =
     res_bind (k_edges k remove node) (\<lambda>es.
     res_bind (edge_write es cid e) (\<lambda>es. k_edges_set k remove node es))"

section \<open>Creating tables\<close>

text \<open>
  A new table with its node; its number is the next one. The types in the table map are the
  pointers to the tables, null until the table exists.
\<close>

definition flecs_init_table :: "'v kernel \<Rightarrow> u64 list \<Rightarrow> 'v kernel res" where
  "flecs_init_table k ids =
     res_bind (flecs_table_init (k_index k) ids) (\<lambda>(t, m).
     let w = k_world k in
     Inr (k\<lparr>k_world := w\<lparr>w_tables := w_tables w @ [t]\<rparr>, k_nodes := k_nodes k @ [flecs_table_init_node],
            k_meta := k_meta k @ [m]\<rparr>))"

definition flecs_table_new :: "'v kernel \<Rightarrow> u64 list \<Rightarrow> value_ptr \<Rightarrow> ('v kernel \<times> nat) res" where
  "flecs_table_new k type elem =
     (let result = length (w_tables (k_world k)) in
      res_bind (value_write (k_table_map k) elem (Some result)) (\<lambda>hm.
      res_bind (key_write hm elem type) (\<lambda>hm.
      res_bind (flecs_init_table (k\<lparr>k_table_map := hm\<rparr>) type) (\<lambda>k. Inr (k, result)))))"

text \<open>The sizes are those of ecs\_type\_t and of a pointer; outside of readonly mode.\<close>

definition flecs_table_ensure :: "'v kernel \<Rightarrow> u64 list \<Rightarrow> ('v kernel \<times> nat) res" where
  "flecs_table_ensure k type =
     (if type = [] then Inr (k, 0)
      else
        res_bind (flecs_hashmap_ensure (k_table_map k) 16 type 8) (\<lambda>(hm, elem, _).
        let k = k\<lparr>k_table_map := hm\<rparr> in
        res_bind (value_read hm elem) (\<lambda>table.
        case table of Some table \<Rightarrow> Inr (k, table) | None \<Rightarrow> flecs_table_new k type elem)))"

section \<open>Differences between tables\<close>

definition flecs_component_get_flags :: "'v component_index \<Rightarrow> u64 \<Rightarrow> u32 res" where
  "flecs_component_get_flags ci cid =
     (case flecs_components_get ci cid of None \<Rightarrow> Inl ECS_UNSUPPORTED | Some cr \<Rightarrow> Inr (cr_flags cr))"

definition flecs_id_flags :: "'v component_index \<Rightarrow> u64 \<Rightarrow> u32 res" where
  "flecs_id_flags ci cid =
     res_bind (flecs_component_get_flags ci cid) (\<lambda>cr_flags.
     let extra_flags = (if cr_flags AND EcsIdOnInstantiateInherit \<noteq> 0 then EcsIdHasOnAdd OR EcsIdHasOnRemove else 0)
     in Inr (cr_flags OR extra_flags))"

text \<open>The steps of flecs\_id\_flags\_get: the flags of an id are or-ed to the result unless the condition says no.\<close>

definition flags_with :: "'v component_index \<Rightarrow> bool \<Rightarrow> u64 \<Rightarrow> u32 \<Rightarrow> u32 res" where
  "flags_with ci c cid flags = (if c then res_bind (flecs_id_flags ci cid) (\<lambda>f. Inr (flags OR f)) else Inr flags)"

definition flecs_id_flags_get :: "'v component_index \<Rightarrow> u64 \<Rightarrow> u32 res" where
  "flecs_id_flags_get ci cid =
     res_bind (flecs_id_flags ci cid) (\<lambda>result.
     res_bind (flags_with ci (cid \<noteq> EcsAny) EcsAny result) (\<lambda>result.
     if ECS_IS_PAIR cid then
       let first = ECS_PAIR_FIRST cid; second = ECS_PAIR_SECOND cid in
       res_bind (flags_with ci (cid \<noteq> ecs_pair first EcsWildcard) (ecs_pair first EcsWildcard) result) (\<lambda>result.
       res_bind (flags_with ci (cid \<noteq> ecs_pair EcsWildcard second) (ecs_pair EcsWildcard second) result) (\<lambda>result.
       res_bind (flags_with ci (cid \<noteq> ecs_pair EcsWildcard EcsWildcard) (ecs_pair EcsWildcard EcsWildcard) result) (\<lambda>result.
       Inr (if first = EcsIsA then result OR EcsIdHasOnAdd OR EcsIdHasOnRemove else result))))
     else flags_with ci (cid \<noteq> EcsWildcard) EcsWildcard result))"

definition flecs_id_is_alive :: "'v kernel \<Rightarrow> u64 \<Rightarrow> bool res" where
  "flecs_id_is_alive k cid =
     (let ei = w_index (k_world k) in
      if ECS_IS_PAIR cid then
        res_bind (flecs_entity_index_get_alive ei (ECS_PAIR_FIRST cid)) (\<lambda>r.
        if r = 0 then Inr False
        else res_bind (flecs_entity_index_get_alive ei (ECS_PAIR_SECOND cid)) (\<lambda>t. Inr (t \<noteq> 0)))
      else res_bind (flecs_entity_index_get_alive ei (cid AND ECS_COMPONENT_MASK)) (\<lambda>e. Inr (e \<noteq> 0)))"

record diff_scan =
  ds_trivial :: bool
  ds_added :: nat
  ds_removed :: nat
  ds_added_flags :: u32
  ds_removed_flags :: u32

definition scan_added :: "'v component_index \<Rightarrow> u64 \<Rightarrow> diff_scan \<Rightarrow> diff_scan res" where
  "scan_added ci id_next st =
     res_bind (flecs_id_flags_get ci id_next) (\<lambda>f.
     Inr (st\<lparr>ds_added_flags := ds_added_flags st OR (f AND EcsTableAddEdgeFlags), ds_added := ds_added st + 1\<rparr>))"

definition scan_removed :: "'v component_index \<Rightarrow> u64 \<Rightarrow> diff_scan \<Rightarrow> diff_scan res" where
  "scan_removed ci id_node st =
     res_bind (flecs_id_flags_get ci id_node) (\<lambda>f.
     Inr (st\<lparr>ds_removed_flags := ds_removed_flags st OR (f AND EcsTableRemoveEdgeFlags), ds_removed := ds_removed st + 1\<rparr>))"

text \<open>The first scan, over the two types at once; in the loops for the rests all ids are added or removed.\<close>

fun scan_diff :: "'v component_index \<Rightarrow> u64 \<Rightarrow> u64 list \<Rightarrow> u64 list \<Rightarrow> diff_scan \<Rightarrow> diff_scan res" where
  "scan_diff ci cid [] [] st = Inr st"
| "scan_diff ci cid [] (x # next) st = res_bind (scan_added ci x st) (scan_diff ci cid [] next)"
| "scan_diff ci cid (n # node) [] st = res_bind (scan_removed ci n st) (scan_diff ci cid node [])"
| "scan_diff ci cid (n # node) (x # next) st =
     (let added = x < n; removed = n < x;
          st = st\<lparr>ds_trivial := ds_trivial st \<and> (\<not> added \<or> x = cid) \<and> (\<not> removed \<or> n = cid)\<rparr>
      in if added then res_bind (scan_added ci x st) (scan_diff ci cid (n # node) next)
         else if removed then res_bind (scan_removed ci n st) (scan_diff ci cid node (x # next))
         else scan_diff ci cid node next st)"

fun build_diff :: "u64 list \<Rightarrow> u64 list \<Rightarrow> u64 list \<times> u64 list" where
  "build_diff [] [] = ([], [])"
| "build_diff [] (x # next) = (let (added, removed) = build_diff [] next in (x # added, removed))"
| "build_diff (n # node) [] = (let (added, removed) = build_diff node [] in (added, n # removed))"
| "build_diff (n # node) (x # next) =
     (if x < n then let (added, removed) = build_diff (n # node) next in (x # added, removed)
      else if n < x then let (added, removed) = build_diff node (x # next) in (added, n # removed)
      else build_diff node next)"

text \<open>
  The difference that is stored in an edge, or none for a trivial edge. For an id that is kept out
  of the tables the number of the table is noted in its component record.
\<close>

definition flecs_compute_table_diff ::
    "'v kernel \<Rightarrow> nat \<Rightarrow> nat \<Rightarrow> u64 \<Rightarrow> bool \<Rightarrow> ('v kernel \<times> table_diff option) res" where
  "flecs_compute_table_diff k node next cid is_remove =
     res_bind (k_table k node) (\<lambda>node_table.
     res_bind (k_table k next) (\<lambda>next_table.
     let childof = (ECS_IS_PAIR cid \<and> ECS_PAIR_FIRST cid = EcsChildOf) in
     res_bind (flecs_id_is_alive k cid) (\<lambda>alive.
     if \<not> alive then Inr (k, None)
     else
       res_bind (if cid < FLECS_HI_COMPONENT_ID
                 then res_bind (mem_get (k_non_trivial k) (unat cid)) (\<lambda>v. Inr (v AND EcsNonTrivialIdNonFragmenting \<noteq> 0))
                 else res_bind (flecs_components_ensure (k_index k) cid) (\<lambda>cr. Inr (cr_flags cr AND EcsIdDontFragment \<noteq> 0)))
         (\<lambda>dont_fragment.
       if dont_fragment then
         res_bind (flecs_components_ensure (k_index k) cid) (\<lambda>cr.
         let flags = EcsTableHasDontFragment OR EcsTableHasSparse;
             diff = (if is_remove then ECS_TABLE_DIFF_INIT\<lparr>td_removed := [cid], td_removed_flags := flags\<rparr>
                     else ECS_TABLE_DIFF_INIT\<lparr>td_added := [cid], td_added_flags := flags\<rparr>);
             cr = cr\<lparr>cr_dont_fragment_tables := cr_dont_fragment_tables cr @ [node]\<rparr>
         in Inr (k\<lparr>k_index := (k_index k)(flecs_component_hash cid \<mapsto> cr)\<rparr>, Some diff))
       else
         res_bind (scan_diff (k_index k) cid (t_type node_table) (t_type next_table)
             \<lparr>ds_trivial = (\<not> (ECS_HAS_ID_FLAG cid ECS_PAIR \<and> ECS_PAIR_FIRST cid = EcsIsA) \<and> \<not> childof),
              ds_added = 0, ds_removed = 0, ds_added_flags = 0, ds_removed_flags = 0\<rparr>) (\<lambda>st.
         let trivial_edge = (ds_trivial st \<and> ds_added st + ds_removed st \<le> 1 \<and> \<not> ecs_id_is_wildcard cid
               \<and> ds_added_flags st OR ds_removed_flags st = 0)
         in if trivial_edge then Inr (k, None)
            else
              let (added, removed) = build_diff (t_type node_table) (t_type next_table);
                  diff = \<lparr>td_added = added, td_removed = removed, td_added_flags = ds_added_flags st,
                          td_removed_flags = ds_removed_flags st\<rparr>;
                  diff = (if childof then
                            if ds_added st \<noteq> 0 then diff\<lparr>td_added_flags := td_added_flags diff OR EcsTableEdgeReparent\<rparr>
                            else if ds_removed st \<noteq> 0 then diff\<lparr>td_removed_flags := td_removed_flags diff OR EcsTableEdgeReparent\<rparr>
                            else diff
                          else diff)
              in ecs_assert (length (td_added diff) = ds_added st) ECS_INTERNAL_ERROR
                 (ecs_assert (length (td_removed diff) = ds_removed st) ECS_INTERNAL_ERROR
                 (Inr (k, Some diff))))))))"

section \<open>Finding the table with or without an id\<close>

text \<open>ecs\_make\_alive\_id; only ids that are alive already are modelled.\<close>

definition ecs_make_alive_id :: "'v kernel \<Rightarrow> u64 \<Rightarrow> unit res" where
  "ecs_make_alive_id k component =
     (let ei = w_index (k_world k) in
      if ECS_HAS_ID_FLAG component ECS_PAIR then
        let r = ECS_PAIR_FIRST component; t = ECS_PAIR_SECOND component in
        ecs_assert (r \<noteq> 0) ECS_INVALID_PARAMETER
        (ecs_assert (ECS_IS_VALUE_PAIR component \<or> t \<noteq> 0) ECS_INVALID_PARAMETER
        (res_bind (flecs_entity_index_get_alive ei r) (\<lambda>a.
         if a = 0 then Inl ECS_UNSUPPORTED
         else if \<not> ECS_IS_VALUE_PAIR component then
           res_bind (flecs_entity_index_get_alive ei t) (\<lambda>a. if a = 0 then Inl ECS_UNSUPPORTED else Inr ())
         else Inr ())))
      else
        res_bind (flecs_entity_index_is_alive ei (component AND ECS_COMPONENT_MASK)) (\<lambda>alive.
        if alive then Inr () else Inl ECS_UNSUPPORTED))"

text \<open>The record of a table in the table cache of a component record, which is found by its hash.\<close>

definition flecs_component_get_table :: "'v kernel \<Rightarrow> u64 \<Rightarrow> nat \<Rightarrow> table_record option res" where
  "flecs_component_get_table k cr table =
     res_bind (mem_get (k_meta k) table) (\<lambda>m. Inr (find (\<lambda>tr. tr_cr tr = cr) (tm_records m)))"

definition k_table_flag :: "'v kernel \<Rightarrow> nat \<Rightarrow> u32 \<Rightarrow> 'v kernel res" where
  "k_table_flag k node flag =
     res_bind (k_table k node) (\<lambda>t.
     let w = k_world k in
     Inr (k\<lparr>k_world := w\<lparr>w_tables := (w_tables w)[node := t\<lparr>t_flags := t_flags t OR flag\<rparr>]\<rparr>\<rparr>))"

text \<open>The type after an exclusive relationship got another target; none if nothing is replaced.\<close>

definition replaced_type :: "'v kernel \<Rightarrow> nat \<Rightarrow> u64 \<Rightarrow> 'v component_record \<Rightarrow> u64 list option res" where
  "replaced_type k node with_id cr =
     (if ECS_IS_PAIR with_id \<and> cr_flags cr AND EcsIdExclusive \<noteq> 0 then
        res_bind (flecs_component_get_table k
            (flecs_component_hash (ecs_pair (ECS_PAIR_FIRST with_id) EcsWildcard)) node) (\<lambda>tr.
        case tr of
          None \<Rightarrow> Inr None
        | Some tr \<Rightarrow>
            res_bind (k_table k node) (\<lambda>t.
            ecs_assert (t_type t \<noteq> []) ECS_INTERNAL_ERROR
            (res_bind (int_index (tr_index tr)) (\<lambda>i.
             res_bind (mem_set (t_type t) i with_id) (\<lambda>ids. Inr (Some ids))))))
      else Inr None)"

definition flecs_find_table_with :: "'v kernel \<Rightarrow> nat \<Rightarrow> u64 \<Rightarrow> ('v kernel \<times> nat) res" where
  "flecs_find_table_with k node with_id =
     res_bind (ecs_make_alive_id k with_id) (\<lambda>_.
     let r = (if ECS_IS_PAIR with_id then ECS_PAIR_FIRST with_id else with_id) in
     res_bind (flecs_components_ensure (k_index k)
         (if ECS_IS_PAIR with_id then ecs_pair r EcsWildcard else with_id)) (\<lambda>cr.
     res_bind (replaced_type k node with_id cr) (\<lambda>replaced.
     if replaced = None \<and> cr_flags cr AND EcsIdDontFragment \<noteq> 0 then
       res_bind (k_table_flag k node EcsTableHasDontFragment) (\<lambda>k. Inr (k, node))
     else
       res_bind (k_table k node) (\<lambda>t.
       case (case replaced of Some ids \<Rightarrow> Some ids | None \<Rightarrow> flecs_type_new_with (t_type t) with_id) of
         None \<Rightarrow> Inr (k, node)
       | Some dst_type \<Rightarrow>
           if r = EcsIsA \<or> r = EcsChildOf then Inl ECS_UNSUPPORTED
           else if cr_flags cr AND EcsIdWith \<noteq> 0 then Inl ECS_UNSUPPORTED
           else
             res_bind
               (if with_id = EcsParent then
                  if table_has t EcsTableHasChildOf then flecs_type_remove dst_type (ecs_pair EcsChildOf EcsWildcard)
                  else Inr dst_type
                else if ECS_PAIR_FIRST with_id = EcsChildOf \<and> table_has t EcsTableHasParent then
                  res_bind (flecs_type_remove dst_type EcsParent) (\<lambda>dst_type.
                  flecs_type_remove dst_type (ecs_pair EcsParentDepth EcsWildcard))
                else Inr dst_type) (\<lambda>dst_type.
             flecs_table_ensure k dst_type)))))"

definition flecs_find_table_without :: "'v kernel \<Rightarrow> nat \<Rightarrow> u64 \<Rightarrow> ('v kernel \<times> nat) res" where
  "flecs_find_table_without k node without =
     (let cr = flecs_components_get (k_index k)
                 (if ECS_IS_PAIR without then ecs_pair (ECS_PAIR_FIRST without) EcsWildcard else without) in
      if (case cr of None \<Rightarrow> False | Some cr \<Rightarrow> cr_flags cr AND EcsIdDontFragment \<noteq> 0) then
        res_bind (k_table_flag k node EcsTableHasDontFragment) (\<lambda>k. Inr (k, node))
      else
        res_bind (k_table k node) (\<lambda>t.
        res_bind (flecs_type_new_without (t_type t) without) (\<lambda>dst_type.
        case dst_type of
          None \<Rightarrow> Inr (k, node)
        | Some dst_type \<Rightarrow>
            res_bind (if without = EcsParent then flecs_type_remove dst_type (ecs_pair EcsParentDepth EcsWildcard)
                      else Inr dst_type) (\<lambda>dst_type.
            flecs_table_ensure k dst_type))))"

section \<open>Following and creating edges\<close>

definition flecs_table_init_edge :: "'v kernel \<Rightarrow> bool \<Rightarrow> nat \<Rightarrow> u64 \<Rightarrow> nat \<Rightarrow> 'v kernel res" where
  "flecs_table_init_edge k remove table cid to =
     res_bind (k_edge k remove table cid) (\<lambda>edge.
     ecs_assert (ge_id edge = 0) ECS_INTERNAL_ERROR
     (k_edge_set k remove table cid (edge\<lparr>ge_to := Some to, ge_id := cid\<rparr>)))"

text \<open>
  flecs\_init\_edge\_for\_add and flecs\_init\_edge\_for\_remove: they differ in the edges of the table
  that they use, in the list of references, and in the flag for the difference.
\<close>

definition init_edge :: "'v kernel \<Rightarrow> bool \<Rightarrow> nat \<Rightarrow> u64 \<Rightarrow> nat \<Rightarrow> 'v kernel res" where
  "init_edge k remove table cid to =
     res_bind (flecs_table_init_edge k remove table cid to) (\<lambda>k.
     res_bind (k_edges k remove table) (\<lambda>es.
     res_bind (flecs_table_ensure_hi_edge es cid) (\<lambda>es.
     res_bind (k_edges_set k remove table es) (\<lambda>k.
     res_bind (k_table k table) (\<lambda>t.
     if table \<noteq> to \<or> table_has t EcsTableHasDontFragment then
       res_bind (flecs_compute_table_diff k table to cid remove) (\<lambda>(k, diff).
       res_bind (k_edge k remove table cid) (\<lambda>edge.
       k_edge_set k remove table cid (edge\<lparr>ge_diff := diff\<rparr>)))
     else Inr k)))))"

definition flecs_init_edge_for_add :: "'v kernel \<Rightarrow> nat \<Rightarrow> u64 \<Rightarrow> nat \<Rightarrow> 'v kernel res" where
  "flecs_init_edge_for_add k table cid to = init_edge k False table cid to"

definition flecs_init_edge_for_remove :: "'v kernel \<Rightarrow> nat \<Rightarrow> u64 \<Rightarrow> nat \<Rightarrow> 'v kernel res" where
  "flecs_init_edge_for_remove k table cid to = init_edge k True table cid to"

definition flecs_create_edge_for_add :: "'v kernel \<Rightarrow> nat \<Rightarrow> u64 \<Rightarrow> ('v kernel \<times> nat) res" where
  "flecs_create_edge_for_add k node cid =
     res_bind (flecs_find_table_with k node cid) (\<lambda>(k, to).
     res_bind (flecs_init_edge_for_add k node cid to) (\<lambda>k. Inr (k, to)))"

definition flecs_create_edge_for_remove :: "'v kernel \<Rightarrow> nat \<Rightarrow> u64 \<Rightarrow> ('v kernel \<times> nat) res" where
  "flecs_create_edge_for_remove k node cid =
     res_bind (flecs_find_table_without k node cid) (\<lambda>(k, to).
     res_bind (flecs_init_edge_for_remove k node cid to) (\<lambda>k. Inr (k, to)))"

text \<open>What both traversals do; the result has the difference that the caller passes on.\<close>

definition traverse ::
    "('v kernel \<Rightarrow> nat \<Rightarrow> u64 \<Rightarrow> ('v kernel \<times> nat) res) \<Rightarrow> bool \<Rightarrow> table_diff \<Rightarrow> 'v kernel \<Rightarrow> nat \<Rightarrow> u64 \<Rightarrow> table_diff
     \<Rightarrow> ('v kernel \<times> nat \<times> table_diff) res" where
  "traverse create remove single k node cid diff =
     ecs_assert (cid \<noteq> 0) ECS_INVALID_PARAMETER
     (res_bind (k_edges k remove node) (\<lambda>es.
      res_bind (flecs_table_ensure_edge es cid) (\<lambda>es.
      res_bind (k_edges_set k remove node es) (\<lambda>k.
      res_bind (k_edge k remove node cid) (\<lambda>edge.
      res_bind (case ge_to edge of Some to \<Rightarrow> Inr (k, to) | None \<Rightarrow> create k node cid) (\<lambda>(k, to).
      res_bind (k_edge k remove node cid) (\<lambda>edge.
      ecs_assert (ge_to edge \<noteq> None) ECS_INTERNAL_ERROR
      (Inr (k, to, if node \<noteq> to \<or> ge_diff edge \<noteq> None
                   then (case ge_diff edge of Some d \<Rightarrow> d | None \<Rightarrow> single) else diff)))))))))"

definition flecs_table_traverse_add ::
    "'v kernel \<Rightarrow> nat \<Rightarrow> u64 \<Rightarrow> table_diff \<Rightarrow> ('v kernel \<times> nat \<times> table_diff) res" where
  "flecs_table_traverse_add k node cid diff =
     traverse flecs_create_edge_for_add False (diff\<lparr>td_added := [cid], td_removed := []\<rparr>) k node cid diff"

definition flecs_table_traverse_remove ::
    "'v kernel \<Rightarrow> nat \<Rightarrow> u64 \<Rightarrow> table_diff \<Rightarrow> ('v kernel \<times> nat \<times> table_diff) res" where
  "flecs_table_traverse_remove k node cid diff =
     traverse flecs_create_edge_for_remove True (diff\<lparr>td_added := [], td_removed := [cid]\<rparr>) k node cid diff"

section \<open>Adding and removing components\<close>

text \<open>
  Outside of deferred mode, with no observers that issue commands: flecs\_defer\_add lets the
  operation pass and flecs\_defer\_end has nothing to flush.
\<close>

definition k_commit :: "('v::zero) kernel \<Rightarrow> u64 \<Rightarrow> nat \<Rightarrow> ('v kernel \<times> storage_event list) res" where
  "k_commit k entity dst_table =
     res_bind (flecs_commit (k_world k) entity dst_table 0) (\<lambda>(w, evs). Inr (k\<lparr>k_world := w\<rparr>, evs))"

definition change_id ::
    "(('v::zero) kernel \<Rightarrow> nat \<Rightarrow> u64 \<Rightarrow> table_diff \<Rightarrow> ('v kernel \<times> nat \<times> table_diff) res) \<Rightarrow> 'v kernel \<Rightarrow> u64 \<Rightarrow> u64
     \<Rightarrow> ('v kernel \<times> table_diff \<times> storage_event list) res" where
  "change_id step k entity component =
     res_bind (w_record (k_world k) entity) (\<lambda>r.
     res_bind (flecs_entity_index_get (w_index (k_world k)) entity) (\<lambda>_.
     case r_table r of
       None \<Rightarrow> Inl ECS_INTERNAL_ERROR
     | Some src_table \<Rightarrow>
         res_bind (step k src_table component ECS_TABLE_DIFF_INIT) (\<lambda>(k, dst_table, diff).
         res_bind (k_commit k entity dst_table) (\<lambda>(k, evs). Inr (k, diff, evs)))))"

definition flecs_add_id where "flecs_add_id = change_id flecs_table_traverse_add"

definition flecs_remove_id where "flecs_remove_id = change_id flecs_table_traverse_remove"

definition id_valid :: "'v kernel \<Rightarrow> u64 \<Rightarrow> bool res" where
  "id_valid k component = ecs_id_is_valid (\<lambda>e. flecs_entity_index_is_valid (w_index (k_world k)) e = Inr True) component"

definition assert_entity_valid :: "'v kernel \<Rightarrow> u64 \<Rightarrow> 'a res \<Rightarrow> 'a res" where
  "assert_entity_valid k entity cont =
     ecs_assert (entity \<noteq> 0) ECS_INVALID_PARAMETER
     (res_bind (flecs_entity_index_is_alive (w_index (k_world k)) entity) (\<lambda>alive.
      ecs_assert alive ECS_INVALID_PARAMETER cont))"

definition ecs_add_id ::
    "('v::zero) kernel \<Rightarrow> u64 \<Rightarrow> u64 \<Rightarrow> ('v kernel \<times> table_diff \<times> storage_event list) res" where
  "ecs_add_id k entity component =
     assert_entity_valid k entity
     (res_bind (id_valid k component) (\<lambda>valid.
      ecs_assert valid ECS_INVALID_PARAMETER (flecs_add_id k entity component)))"

definition ecs_remove_id ::
    "('v::zero) kernel \<Rightarrow> u64 \<Rightarrow> u64 \<Rightarrow> ('v kernel \<times> table_diff \<times> storage_event list) res" where
  "ecs_remove_id k entity component =
     assert_entity_valid k entity
     (res_bind (id_valid k component) (\<lambda>valid.
      ecs_assert (valid \<or> ecs_id_is_wildcard component) ECS_INVALID_PARAMETER (flecs_remove_id k entity component)))"

section \<open>Reading components\<close>

text \<open>
  ecs\_has\_id and ecs\_get\_id for components in tables. Components outside of tables, those that
  are inherited, and the Parent component in place of a ChildOf pair are not modelled.
\<close>

definition ecs_has_id :: "('v::zero) kernel \<Rightarrow> u64 \<Rightarrow> u64 \<Rightarrow> bool res" where
  "ecs_has_id k entity component =
     assert_entity_valid k entity
     (ecs_assert (component \<noteq> 0) ECS_INVALID_PARAMETER
     (res_bind (w_record (k_world k) entity) (\<lambda>r.
      case r_table r of
        None \<Rightarrow> Inl ECS_INTERNAL_ERROR
      | Some table \<Rightarrow>
          res_bind (k_table k table) (\<lambda>t.
          res_bind (mem_get (k_meta k) table) (\<lambda>m.
          res_bind (if component < FLECS_HI_COMPONENT_ID then mem_get (k_non_trivial k) (unat component) else Inr 1) (\<lambda>nt.
          if component < FLECS_HI_COMPONENT_ID \<and> nt = 0 then
            res_bind (mem_get (tm_component_map m) (unat component)) (\<lambda>c. Inr (c \<noteq> 0))
          else
            case flecs_components_get (k_index k) component of
              None \<Rightarrow> Inr False
            | Some cr \<Rightarrow>
                res_bind (flecs_component_get_table k (flecs_component_hash component) table) (\<lambda>tr.
                if tr \<noteq> None then Inr True
                else if cr_flags cr AND (EcsIdDontFragment OR EcsIdMatchDontFragment) \<noteq> 0 then Inl ECS_UNSUPPORTED
                else if ECS_PAIR_FIRST component = EcsChildOf \<and> table_has t EcsTableHasParent then Inl ECS_UNSUPPORTED
                else if table_has t EcsTableHasIsA \<and> cr_flags cr AND EcsIdOnInstantiateInherit \<noteq> 0 then Inl ECS_UNSUPPORTED
                else Inr False)))))))"

text \<open>A pointer to a component is the table with the column and the row; null is none.\<close>

type_synonym component_ptr = "nat \<times> nat \<times> nat"

definition flecs_table_get_component :: "'v kernel \<Rightarrow> nat \<Rightarrow> int \<Rightarrow> nat \<Rightarrow> component_ptr res" where
  "flecs_table_get_component k table column_index row =
     res_bind (k_table k table) (\<lambda>t.
     ecs_assert (column_index < int (length (t_columns t))) ECS_INTERNAL_ERROR
     (res_bind (int_index column_index) (\<lambda>c.
      res_bind (mem_get (t_columns t) c) (\<lambda>_. Inr (table, c, row)))))"

text \<open>ecs\_get\_low\_id.\<close>

definition get_low_id :: "'v kernel \<Rightarrow> nat \<Rightarrow> nat \<Rightarrow> u64 \<Rightarrow> component_ptr option res" where
  "get_low_id k table row cid =
     res_bind (mem_get (k_meta k) table) (\<lambda>m.
     res_bind (mem_get (tm_component_map m) (unat cid)) (\<lambda>column_index.
     if 0 < column_index
     then res_bind (k_table k table) (\<lambda>t.
          res_bind (mem_get (t_columns t) (nat (column_index - 1))) (\<lambda>_.
          Inr (Some (table, nat (column_index - 1), row))))
     else Inr None))"

definition ecs_get_id :: "('v::zero) kernel \<Rightarrow> u64 \<Rightarrow> u64 \<Rightarrow> component_ptr option res" where
  "ecs_get_id k entity component =
     assert_entity_valid k entity
     (res_bind (id_valid k component) (\<lambda>valid.
      ecs_assert (valid \<or> ecs_id_is_wildcard component) ECS_INVALID_PARAMETER
      (res_bind (flecs_entity_index_get (w_index (k_world k)) entity) (\<lambda>r.
       case r_table r of
         None \<Rightarrow> Inl ECS_INTERNAL_ERROR
       | Some table \<Rightarrow>
           let row = ECS_RECORD_TO_ROW (r_row r) in
           res_bind (if component < FLECS_HI_COMPONENT_ID then mem_get (k_non_trivial k) (unat component) else Inr 1) (\<lambda>nt.
           if component < FLECS_HI_COMPONENT_ID \<and> nt = 0 then get_low_id k table row component
           else
             case flecs_components_get (k_index k) component of
               None \<Rightarrow> Inr None
             | Some cr \<Rightarrow>
                 if cr_flags cr AND EcsIdDontFragment \<noteq> 0 then Inl ECS_UNSUPPORTED
                 else
                   res_bind (flecs_component_get_table k (flecs_component_hash component) table) (\<lambda>tr.
                   case tr of
                     None \<Rightarrow> res_bind (k_table k table) (\<lambda>t. if table_has t EcsTableHasIsA then Inl ECS_UNSUPPORTED else Inr None)
                   | Some tr \<Rightarrow>
                       if cr_flags cr AND EcsIdSparse \<noteq> 0 then Inl ECS_UNSUPPORTED
                       else ecs_assert (tr_column tr \<noteq> -1) ECS_INVALID_PARAMETER
                            (res_bind (flecs_table_get_component k table (tr_column tr) row) (\<lambda>ptr. Inr (Some ptr)))))))))"

text \<open>What a pointer points to.\<close>

definition ptr_read :: "'v kernel \<Rightarrow> component_ptr \<Rightarrow> 'v option res" where
  "ptr_read k p = (case p of (table, c, row) \<Rightarrow>
     res_bind (k_table k table) (\<lambda>t.
     res_bind (mem_get (t_columns t) c) (\<lambda>col. mem_get (col_data col) row)))"

end
