(* ===== verification/Graph_Edges.thy ===== *)
theory Graph_Edges
  imports Table_Graph
begin

text \<open>
  The edges of the graph of tables as a total function from ids to edges, and the difference that is
  stored in an edge: the ids that only one of the two tables has.
\<close>

section \<open>Differences\<close>

lemma build_diff_eq:
  "sorted_wrt (<) node \<Longrightarrow> sorted_wrt (<) next \<Longrightarrow>
    build_diff node next = (filter (\<lambda>x. x \<notin> set node) next, filter (\<lambda>x. x \<notin> set next) node)"
proof (induction node "next" rule: build_diff.induct)
  case (4 n node x "next")
  consider "x < n" | "\<not> x < n" "n < x" | "n = x" by (meson linorder_less_linear)
  then show ?case
  proof cases
    case 1
    then have "x \<notin> set (n # node)" "filter (\<lambda>y. y \<notin> set (x # next)) (n # node) = filter (\<lambda>y. y \<notin> set next) (n # node)"
      using "4.prems" by (auto intro!: filter_cong dest: order.asym)
    then show ?thesis using 1 "4.IH"(1) "4.prems" by simp
  next
    case 2
    then have "n \<notin> set (x # next)" "filter (\<lambda>y. y \<notin> set (n # node)) (x # next) = filter (\<lambda>y. y \<notin> set node) (x # next)"
      using "4.prems" by (auto intro!: filter_cong dest: order.asym)
    then show ?thesis using 2 "4.IH"(2) "4.prems" by simp
  next
    case 3
    have "filter (\<lambda>y. y \<notin> set (n # node)) next = filter (\<lambda>y. y \<notin> set node) next"
      "filter (\<lambda>y. y \<notin> set (x # next)) node = filter (\<lambda>y. y \<notin> set next) node"
      using "4.prems" 3 by (auto intro!: filter_cong)
    then show ?thesis using 3 "4.IH"(3) "4.prems" by simp
  qed
qed auto

definition flags_ready :: "'v component_index \<Rightarrow> u64 \<Rightarrow> bool" where
  "flags_ready ci i \<longleftrightarrow> (\<exists>f. flecs_id_flags_get ci i = Inr f)"

lemma scan_diff_ok:
  "\<forall>i\<in>set node \<union> set next. flags_ready ci i \<Longrightarrow>
    \<exists>st'. scan_diff ci cid node next st = Inr st' \<and> ds_added st' = ds_added st + length (fst (build_diff node next))
      \<and> ds_removed st' = ds_removed st + length (snd (build_diff node next))"
proof (induction ci cid node "next" st rule: scan_diff.induct)
  case (2 ci cid x "next" st)
  obtain f where f: "flecs_id_flags_get ci x = Inr f" using 2(2) by (auto simp: flags_ready_def)
  define st1 where "st1 = st\<lparr>ds_added_flags := ds_added_flags st OR (f AND EcsTableAddEdgeFlags), ds_added := ds_added st + 1\<rparr>"
  have s: "scan_added ci x st = Inr st1" by (simp add: scan_added_def f st1_def)
  obtain st' where "scan_diff ci cid [] next st1 = Inr st'" "ds_added st' = ds_added st1 + length (fst (build_diff [] next))"
    "ds_removed st' = ds_removed st1 + length (snd (build_diff [] next))"
    using 2(1)[of st1] 2(2) by auto
  then show ?case using s by (auto simp: st1_def split: prod.splits)
next
  case (3 ci cid n node st)
  obtain f where f: "flecs_id_flags_get ci n = Inr f" using 3(2) by (auto simp: flags_ready_def)
  define st1 where "st1 = st\<lparr>ds_removed_flags := ds_removed_flags st OR (f AND EcsTableRemoveEdgeFlags), ds_removed := ds_removed st + 1\<rparr>"
  have s: "scan_removed ci n st = Inr st1" by (simp add: scan_removed_def f st1_def)
  obtain st' where "scan_diff ci cid node [] st1 = Inr st'" "ds_added st' = ds_added st1 + length (fst (build_diff node []))"
    "ds_removed st' = ds_removed st1 + length (snd (build_diff node []))"
    using 3(1)[of st1] 3(2) by auto
  then show ?case using s by (auto simp: st1_def split: prod.splits)
next
  case (4 ci cid n node x "next" st)
  define st0 where "st0 = st\<lparr>ds_trivial := ds_trivial st \<and> (\<not> (x < n) \<or> x = cid) \<and> (\<not> (n < x) \<or> n = cid)\<rparr>"
  have st0: "ds_added st0 = ds_added st" "ds_removed st0 = ds_removed st" by (simp_all add: st0_def)
  have eq: "scan_diff ci cid (n # node) (x # next) st
      = (if x < n then res_bind (scan_added ci x st0) (scan_diff ci cid (n # node) next)
         else if n < x then res_bind (scan_removed ci n st0) (scan_diff ci cid node (x # next))
         else scan_diff ci cid node next st0)"
    by (simp only: scan_diff.simps Let_def st0_def)
  consider (a) "x < n" | (r) "\<not> x < n" "n < x" | (e) "\<not> x < n" "\<not> n < x" by blast
  then show ?case
  proof cases
    case a
    obtain f where f: "flecs_id_flags_get ci x = Inr f" using 4(4) by (auto simp: flags_ready_def)
    define st1 where "st1 = st0\<lparr>ds_added_flags := ds_added_flags st0 OR (f AND EcsTableAddEdgeFlags), ds_added := ds_added st0 + 1\<rparr>"
    have s: "scan_added ci x st0 = Inr st1" by (simp add: scan_added_def f st1_def)
    obtain st' where "scan_diff ci cid (n # node) next st1 = Inr st'"
      "ds_added st' = ds_added st1 + length (fst (build_diff (n # node) next))"
      "ds_removed st' = ds_removed st1 + length (snd (build_diff (n # node) next))"
      using 4(1)[OF refl refl st0_def a, of st1] 4(4) by auto
    then show ?thesis using a s unfolding eq by (auto simp: st0 st1_def split: prod.splits)
  next
    case r
    obtain f where f: "flecs_id_flags_get ci n = Inr f" using 4(4) by (auto simp: flags_ready_def)
    define st1 where "st1 = st0\<lparr>ds_removed_flags := ds_removed_flags st0 OR (f AND EcsTableRemoveEdgeFlags), ds_removed := ds_removed st0 + 1\<rparr>"
    have s: "scan_removed ci n st0 = Inr st1" by (simp add: scan_removed_def f st1_def)
    obtain st' where "scan_diff ci cid node (x # next) st1 = Inr st'"
      "ds_added st' = ds_added st1 + length (fst (build_diff node (x # next)))"
      "ds_removed st' = ds_removed st1 + length (snd (build_diff node (x # next)))"
      using 4(2)[OF refl refl st0_def r, of st1] 4(4) by auto
    then show ?thesis using r s unfolding eq by (auto simp: st0 st1_def split: prod.splits)
  next
    case e
    obtain st' where "scan_diff ci cid node next st0 = Inr st'"
      "ds_added st' = ds_added st0 + length (fst (build_diff node next))"
      "ds_removed st' = ds_removed st0 + length (snd (build_diff node next))"
      using 4(3)[OF refl refl st0_def e] 4(4) by auto
    then show ?thesis using e unfolding eq by (auto simp: st0 split: prod.splits)
  qed
qed simp

lemma index_flags:
  assumes "index_ready ci ids" "p \<in> table_patterns ids"
  shows "\<exists>f. flecs_id_flags ci p = Inr f"
proof -
  obtain cr where "flecs_components_get ci p = Some cr" by (rule index_ready_at[OF assms]) blast
  then show ?thesis by (simp add: flecs_id_flags_def flecs_component_get_flags_def)
qed

lemma flags_with_ok: "\<exists>f. flecs_id_flags ci i = Inr f \<Longrightarrow> \<exists>g. flags_with ci c i flags = Inr g"
  by (auto simp: flags_with_def)

lemma index_flags_ready:
  assumes ci: "index_ready ci ids" and i: "i \<in> set ids"
  shows "flags_ready ci i"
proof -
  have t: "EcsAny \<in> table_patterns ids" "EcsWildcard \<in> table_patterns ids" "ecs_pair EcsWildcard EcsWildcard \<in> table_patterns ids"
    by (simp_all add: table_patterns_def)
  note fl = index_flags[OF ci]
  obtain f0 where f0: "flecs_id_flags ci i = Inr f0" using fl[OF in_patterns(1)[OF i]] by blast
  obtain f1 where f1: "flags_with ci (i \<noteq> EcsAny) EcsAny f0 = Inr f1" using flags_with_ok[OF fl[OF t(1)]] by blast
  show ?thesis
  proof (cases "ECS_IS_PAIR i")
    case False
    then show ?thesis using f0 f1 flags_with_ok[OF fl[OF t(2)]] by (simp add: flags_ready_def flecs_id_flags_get_def)
  next
    case True
    let ?r = "ECS_PAIR_FIRST i" and ?t = "ECS_PAIR_SECOND i"
    obtain f2 where f2: "flags_with ci (i \<noteq> ecs_pair ?r EcsWildcard) (ecs_pair ?r EcsWildcard) f1 = Inr f2"
      using flags_with_ok[OF fl[OF in_patterns(2)[OF i True]]] by blast
    obtain f3 where f3: "flags_with ci (i \<noteq> ecs_pair EcsWildcard ?t) (ecs_pair EcsWildcard ?t) f2 = Inr f3"
      using flags_with_ok[OF fl[OF in_patterns(3)[OF i True]]] by blast
    obtain f4 where f4: "flags_with ci (i \<noteq> ecs_pair EcsWildcard EcsWildcard) (ecs_pair EcsWildcard EcsWildcard) f3 = Inr f4"
      using flags_with_ok[OF fl[OF t(3)]] by blast
    show ?thesis using True f0 f1 f2 f3 f4 by (simp add: flags_ready_def flecs_id_flags_get_def Let_def)
  qed
qed

text \<open>What a stored difference says; none is stored when at most one id changes and the id is no wildcard.\<close>

definition diff_of :: "u64 list \<Rightarrow> u64 list \<Rightarrow> u64 \<Rightarrow> table_diff option \<Rightarrow> bool" where
  "diff_of node next cid d \<longleftrightarrow> (case d of
     None \<Rightarrow> length (filter (\<lambda>x. x \<notin> set node) next) + length (filter (\<lambda>x. x \<notin> set next) node) \<le> 1 \<and> \<not> ecs_id_is_wildcard cid
   | Some d \<Rightarrow> td_added d = filter (\<lambda>x. x \<notin> set node) next \<and> td_removed d = filter (\<lambda>x. x \<notin> set next) node)"

text \<open>An id that is kept in tables and whose parts are alive.\<close>

definition in_tables :: "'v kernel \<Rightarrow> u64 \<Rightarrow> bool" where
  "in_tables k cid \<longleftrightarrow> flecs_id_is_alive k cid = Inr True
     \<and> (if cid < FLECS_HI_COMPONENT_ID
        then unat cid < length (k_non_trivial k) \<and> (k_non_trivial k ! unat cid) AND EcsNonTrivialIdNonFragmenting = 0
        else \<exists>cr. flecs_components_ensure (k_index k) cid = Inr cr \<and> cr_flags cr AND EcsIdDontFragment = 0)"

lemma table_diff_ok:
  assumes t: "k_table k node = Inr tn" "k_table k next = Inr tx" and s: "sorted_wrt (<) (t_type tn)" "sorted_wrt (<) (t_type tx)"
    and ci: "index_ready (k_index k) (t_type tn)" "index_ready (k_index k) (t_type tx)" and cid: "in_tables k cid"
  shows "\<exists>d. flecs_compute_table_diff k node next cid rm = Inr (k, d) \<and> diff_of (t_type tn) (t_type tx) cid d"
proof -
  let ?st = "\<lparr>ds_trivial = (\<not> (ECS_HAS_ID_FLAG cid ECS_PAIR \<and> ECS_PAIR_FIRST cid = EcsIsA) \<and> \<not> (ECS_IS_PAIR cid \<and> ECS_PAIR_FIRST cid = EcsChildOf)),
              ds_added = 0, ds_removed = 0, ds_added_flags = 0, ds_removed_flags = 0\<rparr>"
  have al: "flecs_id_is_alive k cid = Inr True" using cid by (simp add: in_tables_def)
  have df: "(if cid < FLECS_HI_COMPONENT_ID
                 then res_bind (mem_get (k_non_trivial k) (unat cid)) (\<lambda>v. Inr (v AND EcsNonTrivialIdNonFragmenting \<noteq> 0))
                 else res_bind (flecs_components_ensure (k_index k) cid) (\<lambda>cr. Inr (cr_flags cr AND EcsIdDontFragment \<noteq> 0)))
       = Inr False"
    using cid by (auto simp: in_tables_def)
  have "\<forall>i\<in>set (t_type tn) \<union> set (t_type tx). flags_ready (k_index k) i"
    using index_flags_ready[OF ci(1)] index_flags_ready[OF ci(2)] by blast
  from scan_diff_ok[OF this, of cid ?st] obtain st where st: "scan_diff (k_index k) cid (t_type tn) (t_type tx) ?st = Inr st"
    "ds_added st = length (filter (\<lambda>x. x \<notin> set (t_type tn)) (t_type tx))"
    "ds_removed st = length (filter (\<lambda>x. x \<notin> set (t_type tx)) (t_type tn))"
    by (auto simp: build_diff_eq[OF s])
  let ?trivial = "ds_trivial st \<and> ds_added st + ds_removed st \<le> 1 \<and> \<not> ecs_id_is_wildcard cid
    \<and> ds_added_flags st OR ds_removed_flags st = 0"
  note run = flecs_compute_table_diff_def t res_bind_simps Let_def al df st(1) build_diff_eq[OF s]
  show ?thesis
  proof (cases ?trivial)
    case True
    then have "flecs_compute_table_diff k node next cid rm = Inr (k, None)" unfolding run by simp
    then show ?thesis using True st(2,3) by (auto simp: diff_of_def)
  next
    case False
    have "\<exists>d. flecs_compute_table_diff k node next cid rm = Inr (k, Some d)
      \<and> td_added d = filter (\<lambda>x. x \<notin> set (t_type tn)) (t_type tx) \<and> td_removed d = filter (\<lambda>x. x \<notin> set (t_type tx)) (t_type tn)"
      using False st(2,3) unfolding run by (simp del: de_Morgan_conj)
    then show ?thesis by (auto simp: diff_of_def)
  qed
qed

section \<open>Edges\<close>

text \<open>
  The edge of an id; one that is not there yet is the zero edge, which is what it starts with. An
  entry of the map for an id below 256 points into the array.
\<close>

definition edge_of :: "graph_edges \<Rightarrow> u64 \<Rightarrow> graph_edge option" where
  "edge_of es cid =
     (if cid < FLECS_HI_COMPONENT_ID then if gs_lo es = [] then None else Some (gs_lo es ! unat cid)
      else case gs_hi es of None \<Rightarrow> None
        | Some hi \<Rightarrow> (case map_abs hi cid of Some (Hi_edge e) \<Rightarrow> Some e | _ \<Rightarrow> None))"

definition the_edge :: "graph_edges \<Rightarrow> u64 \<Rightarrow> graph_edge" where
  "the_edge es cid = (case edge_of es cid of None \<Rightarrow> zero_edge | Some e \<Rightarrow> e)"

definition edges_wf :: "graph_edges \<Rightarrow> bool" where
  "edges_wf es \<longleftrightarrow> (gs_lo es = [] \<or> length (gs_lo es) = 256)
     \<and> (\<forall>hi. gs_hi es = Some hi \<longrightarrow> map_wf hi \<and>
          (\<forall>i v. map_abs hi i = Some v \<longrightarrow> (if i < FLECS_HI_COMPONENT_ID then v = Hi_lo else \<exists>e. v = Hi_edge e)))"

definition edges_count :: "graph_edges \<Rightarrow> nat" where
  "edges_count es = (case gs_hi es of None \<Rightarrow> 0 | Some hi \<Rightarrow> mcount hi)"

lemma init_edges_wf: "edges_wf flecs_table_init_edges" "the_edge flecs_table_init_edges cid = zero_edge"
  by (simp_all add: flecs_table_init_edges_def edges_wf_def the_edge_def edge_of_def)

lemma hi_low: "\<not> cid < FLECS_HI_COMPONENT_ID \<Longrightarrow> i < FLECS_HI_COMPONENT_ID \<Longrightarrow> i \<noteq> cid"
  by blast

lemma low_index_256: "cid < FLECS_HI_COMPONENT_ID \<Longrightarrow> unat cid < 256"
  by (simp add: FLECS_HI_COMPONENT_ID_def word_less_nat_alt)

lemma edge_read_ok:
  assumes wf: "edges_wf es" and there: "edge_of es cid \<noteq> None"
  shows "edge_read es cid = Inr (the_edge es cid)"
proof (cases "cid < FLECS_HI_COMPONENT_ID")
  case True
  then show ?thesis using wf there low_index_256[OF True]
    by (auto simp: edge_read_def the_edge_def edge_of_def edges_wf_def split: if_splits)
next
  case False
  then show ?thesis using wf there
    by (auto simp: edge_read_def the_edge_def edge_of_def edges_wf_def map_get split: option.splits hi_edge.splits)
qed

lemma edge_write_ok:
  assumes wf: "edges_wf es" and there: "edge_of es cid \<noteq> None"
  obtains es' where "edge_write es cid e = Inr es'" "edges_wf es'" "edge_of es' = (edge_of es)(cid \<mapsto> e)"
    "edges_count es' = edges_count es"
proof (cases "cid < FLECS_HI_COMPONENT_ID")
  case True
  then have l: "unat cid < length (gs_lo es)" "gs_lo es \<noteq> []" using wf there low_index_256[OF True]
    by (auto simp: edge_of_def edges_wf_def)
  have inj: "unat i = unat cid \<longleftrightarrow> i = cid" for i :: u64 by (rule word_unat_eq_iff[symmetric])
  show thesis
  proof (rule that)
    show "edge_of (es\<lparr>gs_lo := (gs_lo es)[unat cid := e]\<rparr>) = (edge_of es)(cid \<mapsto> e)"
    proof
      fix i
      show "edge_of (es\<lparr>gs_lo := (gs_lo es)[unat cid := e]\<rparr>) i = ((edge_of es)(cid \<mapsto> e)) i"
      proof (cases "i = cid")
        case False
        then have "unat i \<noteq> unat cid" by (simp add: inj)
        then have n: "(gs_lo es)[unat cid := e] ! unat i = gs_lo es ! unat i" by (intro nth_list_update_neq) simp
        show ?thesis using False l(2) by (simp add: edge_of_def n del: nth_list_update)
      qed (use True l in \<open>simp add: edge_of_def\<close>)
    qed
    show "edge_write es cid e = Inr (es\<lparr>gs_lo := (gs_lo es)[unat cid := e]\<rparr>)" using True l by (simp add: edge_write_def)
    show "edges_wf (es\<lparr>gs_lo := (gs_lo es)[unat cid := e]\<rparr>)" using wf l by (simp add: edges_wf_def)
  qed (simp add: edges_count_def)
next
  case False
  then obtain hi e0 where hi: "gs_hi es = Some hi" "map_abs hi cid = Some (Hi_edge e0)"
    using there by (auto simp: edge_of_def split: option.splits hi_edge.splits)
  have w: "map_wf hi" "\<forall>i v. map_abs hi i = Some v \<longrightarrow> (if i < FLECS_HI_COMPONENT_ID then v = Hi_lo else \<exists>e. v = Hi_edge e)"
    using wf hi(1) by (auto simp: edges_wf_def)
  have "map_abs hi cid \<noteq> None" using hi(2) by simp
  then obtain hi' where hi': "map_write hi cid (Hi_edge e) = Inr hi'" "map_wf hi'"
    "map_abs hi' = (map_abs hi)(cid \<mapsto> Hi_edge e)" "mcount hi' = mcount hi" by (rule map_write[OF w(1)])
  show thesis
  proof (rule that)
    show "edge_write es cid e = Inr (es\<lparr>gs_hi := Some hi'\<rparr>)" using False hi hi'(1) by (simp add: edge_write_def)
    show "edge_of (es\<lparr>gs_hi := Some hi'\<rparr>) = (edge_of es)(cid \<mapsto> e)"
      using False hi(1) hi'(3) by (auto simp: edge_of_def fun_eq_iff)
    show "edges_wf (es\<lparr>gs_hi := Some hi'\<rparr>)" using False wf hi'(2,3) w(2) by (simp add: edges_wf_def)
  qed (use hi hi'(4) in \<open>simp_all add: edges_count_def\<close>)
qed

text \<open>Making room for an edge changes no edge.\<close>

lemma ensure_hi_edge_ok:
  assumes wf: "edges_wf es" and room: "edges_count es + 1 < 2 ^ 26"
  obtains es' where "flecs_table_ensure_hi_edge es cid = Inr es'" "edges_wf es'" "the_edge es' = the_edge es"
    "\<And>i. edge_of es i \<noteq> None \<Longrightarrow> edge_of es' i \<noteq> None" "\<not> cid < FLECS_HI_COMPONENT_ID \<Longrightarrow> edge_of es' cid \<noteq> None"
    "edges_count es' \<le> edges_count es + 1"
proof -
  note result = that
  obtain hi where hi: "(case gs_hi es of None \<Rightarrow> ecs_map_init | Some hi \<Rightarrow> Inr hi) = Inr hi" "map_wf hi"
    "\<And>i. edge_of es i = (if i < FLECS_HI_COMPONENT_ID then if gs_lo es = [] then None else Some (gs_lo es ! unat i)
       else (case map_abs hi i of Some (Hi_edge e) \<Rightarrow> Some e | _ \<Rightarrow> None))"
    "\<forall>i v. map_abs hi i = Some v \<longrightarrow> (if i < FLECS_HI_COMPONENT_ID then v = Hi_lo else \<exists>e. v = Hi_edge e)"
    "mcount hi = edges_count es"
  proof (cases "gs_hi es")
    case None
    obtain m :: "hi_edge ecs_map" where m: "ecs_map_init = Inr m" "map_wf m" "map_abs m = Map.empty"
      using map_init by blast
    have "mcount m = 0" using card_map_abs[OF m(2)] m(3) by simp
    then show thesis using None m by (intro that[of m]) (simp_all add: edge_of_def edges_count_def)
  next
    case (Some hi)
    then show thesis using wf room by (intro that[of hi]) (simp_all add: edge_of_def edges_wf_def edges_count_def)
  qed
  have "map_abs hi cid \<noteq> None \<or> mcount hi + 1 < 2 ^ 26" using hi(5) room by simp
  then obtain hi1 r where en: "ecs_map_ensure hi cid = Inr (hi1, r)" "map_wf hi1"
    "r = (case map_abs hi cid of Some v \<Rightarrow> v | None \<Rightarrow> 0)" "map_abs hi1 = (map_abs hi)(cid \<mapsto> r)"
    by (rule map_ensure[OF hi(2)])
  have "mcount hi1 = card (insert cid (dom (map_abs hi)))" using card_map_abs[OF en(2)] en(4) by simp
  then have cnt: "mcount hi1 \<le> edges_count es + 1"
    using card_insert_le_m1[of "card (dom (map_abs hi)) + 1" "dom (map_abs hi)" cid] card_map_abs[OF hi(2)] hi(5) by simp
  show thesis
  proof (cases "map_abs hi cid")
    case (Some v)
    then have r: "r \<noteq> Hi_null" "map_abs hi1 = map_abs hi" using en(3,4) hi(4) by (auto split: if_splits)
    have eo: "edge_of (es\<lparr>gs_hi := Some hi1\<rparr>) i = edge_of es i" for i unfolding hi(3) by (simp add: edge_of_def r(2))
    show thesis
    proof (rule result)
      show "flecs_table_ensure_hi_edge es cid = Inr (es\<lparr>gs_hi := Some hi1\<rparr>)"
        using hi(1) en(1) r by (simp add: flecs_table_ensure_hi_edge_def)
      show "edges_wf (es\<lparr>gs_hi := Some hi1\<rparr>)" using wf en(2) hi(4) by (simp add: edges_wf_def r(2))
      show "edge_of (es\<lparr>gs_hi := Some hi1\<rparr>) cid \<noteq> None" if "\<not> cid < FLECS_HI_COMPONENT_ID"
      proof -
        have "\<exists>e. v = Hi_edge e" using that hi(4)[rule_format, OF Some] by simp
        then show ?thesis using that Some by (auto simp: edge_of_def r(2))
      qed
    qed (use eo cnt in \<open>simp_all add: the_edge_def edges_count_def fun_eq_iff\<close>)
  next
    case None
    then have r: "r = Hi_null" using en(3) by (simp add: zero_hi_edge_def)
    define v where "v = (if cid < FLECS_HI_COMPONENT_ID then Hi_lo else Hi_edge zero_edge)"
    have "map_abs hi1 cid \<noteq> None" using en(4) by simp
    then obtain hi2 where hi2: "map_write hi1 cid v = Inr hi2" "map_wf hi2" "map_abs hi2 = (map_abs hi1)(cid \<mapsto> v)"
      "mcount hi2 = mcount hi1" by (rule map_write[OF en(2)])
    have abs: "map_abs hi2 = (map_abs hi)(cid \<mapsto> v)" using hi2(3) en(4) by simp
    have eo: "edge_of (es\<lparr>gs_hi := Some hi2\<rparr>) i = (if i = cid \<and> \<not> cid < FLECS_HI_COMPONENT_ID then Some zero_edge else edge_of es i)" for i
      unfolding hi(3) by (simp add: edge_of_def abs v_def)
    have none: "\<not> cid < FLECS_HI_COMPONENT_ID \<Longrightarrow> edge_of es cid = None" using None by (simp add: hi(3))
    show thesis
    proof (rule result)
      show "flecs_table_ensure_hi_edge es cid = Inr (es\<lparr>gs_hi := Some hi2\<rparr>)"
        using hi(1) en(1) r hi2(1) by (simp add: flecs_table_ensure_hi_edge_def v_def)
      show "edges_wf (es\<lparr>gs_hi := Some hi2\<rparr>)"
        using wf hi2(2) hi(4) by (simp add: edges_wf_def abs v_def)
      show "the_edge (es\<lparr>gs_hi := Some hi2\<rparr>) = the_edge es"
        using none by (auto simp: the_edge_def eo fun_eq_iff)
    qed (use eo cnt hi2(4) in \<open>auto simp: edges_count_def\<close>)
  qed
qed

lemma ensure_edge_ok:
  assumes wf: "edges_wf es" and room: "edges_count es + 1 < 2 ^ 26"
  obtains es' where "flecs_table_ensure_edge es cid = Inr es'" "edges_wf es'" "the_edge es' = the_edge es"
    "edge_of es' cid \<noteq> None" "edges_count es' \<le> edges_count es + 1"
proof (cases "cid < FLECS_HI_COMPONENT_ID")
  case True
  show thesis
  proof (cases "gs_lo es")
    case Nil
    have "the_edge (es\<lparr>gs_lo := replicate 256 zero_edge\<rparr>) i = the_edge es i" for i
      using Nil low_index_256[of i] by (simp add: the_edge_def edge_of_def)
    then show thesis using True Nil wf
      by (intro that[of "es\<lparr>gs_lo := replicate 256 zero_edge\<rparr>"])
        (auto simp: flecs_table_ensure_edge_def edges_wf_def edge_of_def edges_count_def fun_eq_iff)
  next
    case Cons
    then show thesis using True wf by (intro that[of es]) (simp_all add: flecs_table_ensure_edge_def edge_of_def)
  qed
next
  case False
  show thesis
    by (rule ensure_hi_edge_ok[OF wf room, of cid], rule that) (use False in \<open>auto simp: flecs_table_ensure_edge_def\<close>)
qed

end
