(* ===== verification/Kernel_Wf.thy ===== *)
theory Kernel_Wf
  imports Graph_Edges World_Claims
begin

text \<open>
  The invariant of the kernel: the storage is consistent, the tables have different types and what
  flecs\_table\_init gives them, the table map finds them, and every edge that was created leads to the
  table of the changed type with the right difference. Finding or creating the table of a type keeps it.
\<close>

section \<open>A further table\<close>

lemma row_of_append: "t_count t = 0 \<Longrightarrow> row_of (ts @ [t]) = row_of ts"
  by (auto simp: row_of_def fun_eq_iff nth_append)

lemma world_add_table:
  assumes wf: "world_wf w" "plain_world w" and t: "table_wf t" "t_count t = 0" "0 \<notin> set (col_ids t)"
    "\<forall>t'\<in>set (w_tables w). \<forall>p\<in>set (col_types t). \<forall>q\<in>set (col_types t'). fst p = fst q \<longrightarrow> snd p = snd q"
    "ecs_pair EcsOnDelete EcsPanic \<notin> set (t_type t)" "t_traversable t = 0" "\<not> table_has t EcsTableHasTraversable"
  shows "world_wf (w\<lparr>w_tables := w_tables w @ [t]\<rparr>)" "plain_world (w\<lparr>w_tables := w_tables w @ [t]\<rparr>)"
    "entity_view (w\<lparr>w_tables := w_tables w @ [t]\<rparr>) = entity_view w"
proof -
  have ix: "index_ok (w_index w) (w_tables w)" and ok: "tables_ok (w_tables w)" using wf(1) by (simp_all add: world_wf_def)
  have self: "\<forall>p\<in>set (col_types t). \<forall>q\<in>set (col_types t). fst p = fst q \<longrightarrow> snd p = snd q"
  proof (intro ballI impI)
    fix p q assume a: "p \<in> set (col_types t)" "q \<in> set (col_types t)" "fst p = fst q"
    have "table_shape t" using t(1) by (simp add: table_wf_def)
    then have "distinct (map fst (col_types t))" using col_ids_distinct(1)[of t] by (simp add: col_types_def)
    then show "snd p = snd q" using a by (metis eq_key_imp_eq_value prod.collapse)
  qed
  have types: "same_types (cols_of t1) (cols_of t2)" if "t1 \<in> set (w_tables w @ [t])" "t2 \<in> set (w_tables w @ [t])" for t1 t2
  proof -
    have old: "same_types (cols_of t1) (cols_of t2)" if "t1 \<in> set (w_tables w)" "t2 \<in> set (w_tables w)" for t1 t2
      using ok that by (simp add: tables_ok_def)
    consider "t1 \<in> set (w_tables w)" "t2 \<in> set (w_tables w)" | "t1 = t" "t2 = t" | "t1 = t" "t2 \<in> set (w_tables w)"
      | "t1 \<in> set (w_tables w)" "t2 = t" using \<open>t1 \<in> _\<close> \<open>t2 \<in> _\<close> by auto
    then show ?thesis
    proof cases
      case 1
      then show ?thesis by (rule old)
    next
      case 2
      then show ?thesis using self by (simp only: same_types_col_types)
    next
      case 3
      then show ?thesis unfolding same_types_col_types using t(4) by blast
    next
      case 4
      then show ?thesis unfolding same_types_col_types using t(4) by metis
    qed
  qed
  have ne: "w_tables w \<noteq> []" "t_columns (w_tables w ! 0) = []" using ok by (simp_all add: tables_ok_def)
  have "tables_ok (w_tables w @ [t])"
    using ok t(1-3) types ne by (auto simp: tables_ok_def nth_append)
  then show "world_wf (w\<lparr>w_tables := w_tables w @ [t]\<rparr>)"
    using ix by (simp add: world_wf_def index_ok_def row_of_append[OF t(2)])
  show "plain_world (w\<lparr>w_tables := w_tables w @ [t]\<rparr>)" using wf(2) t(5-7) by (auto simp: plain_world_def)
  show "entity_view (w\<lparr>w_tables := w_tables w @ [t]\<rparr>) = entity_view w"
  proof
    fix e
    show "entity_view (w\<lparr>w_tables := w_tables w @ [t]\<rparr>) e = entity_view w e"
    proof (cases "e \<in> ei_live (w_index w)")
      case True
      then obtain tid row where "place (w_index w) (low_index e) = Some (tid, row)" "row_of (w_tables w) (tid, row) = Some e"
        using index_okD(5)[OF ix True] by auto
      then show ?thesis using True by (auto simp: entity_view_def row_of_Some nth_append)
    qed (simp add: entity_view_def)
  qed
qed

section \<open>The invariant\<close>

text \<open>A pair whose relationship is exclusive, and the type that adding or removing an id leads to.\<close>

definition exclusive_pair :: "'v component_index \<Rightarrow> u64 \<Rightarrow> bool" where
  "exclusive_pair ci i \<longleftrightarrow> ECS_IS_PAIR i
     \<and> (\<exists>cr. flecs_components_get ci (ecs_pair (ECS_PAIR_FIRST i) EcsWildcard) = Some cr \<and> cr_flags cr AND EcsIdExclusive \<noteq> 0)"

definition any_target :: "u64 \<Rightarrow> u64" where "any_target i = ecs_pair (ECS_PAIR_FIRST i) EcsWildcard"

definition type_change :: "'v component_index \<Rightarrow> bool \<Rightarrow> u64 list \<Rightarrow> u64 \<Rightarrow> u64 list" where
  "type_change ci remove ids i =
     (if remove then filter (\<lambda>x. \<not> id_matches x i) ids
      else if exclusive_pair ci i then flecs_type_add (filter (\<lambda>x. \<not> id_matches x (any_target i)) ids) i
      else flecs_type_add ids i)"

definition exclusive_once :: "'v component_index \<Rightarrow> u64 list \<Rightarrow> bool" where
  "exclusive_once ci ids \<longleftrightarrow> (\<forall>x\<in>set ids. exclusive_pair ci x \<longrightarrow> (\<forall>y\<in>set ids. id_matches y (any_target x) \<longrightarrow> y = x))"

text \<open>A type whose ids are registered, with different component records.\<close>

definition type_ready :: "('v::zero) component_index \<Rightarrow> u64 list \<Rightarrow> bool" where
  "type_ready ci ids \<longleftrightarrow> table_type ids \<and> index_ready ci ids \<and> distinct (map flecs_component_hash ids)
     \<and> exclusive_once ci ids \<and> ecs_pair EcsOnDelete EcsPanic \<notin> set ids \<and> 0 \<notin> set ids"

definition meta_ok :: "('v::zero) component_index \<Rightarrow> u64 list \<Rightarrow> table_meta \<Rightarrow> bool" where
  "meta_ok ci ids m \<longleftrightarrow> length (tm_component_map m) = 256
     \<and> (\<forall>v. unat v < 256 \<longrightarrow> (if v \<notin> set ids then tm_component_map m ! unat v = 0
         else if id_column ci v = None then tm_component_map m ! unat v < 0
         else tm_component_map m ! unat v = int (column_rank ci ids v) + 1))
     \<and> (\<forall>j<length ids. tr_column (tm_records m ! j) = (if id_column ci (ids ! j) = None then -1 else int (length (data_ids ci (take j ids)))))
     \<and> (\<exists>hc trs. table_records ci hc ids = Inr trs \<and> same_records trs (tm_records m)
          \<and> take (length ids) trs = base_list ids \<and> length ids \<le> length trs)"

definition table_ready :: "('v::zero) component_index \<Rightarrow> 'v ecs_table \<Rightarrow> table_meta \<Rightarrow> bool" where
  "table_ready ci t m \<longleftrightarrow> type_ready ci (t_type t) \<and> col_ids t = data_ids ci (t_type t)
     \<and> col_types t = map (\<lambda>i. (i, the (id_column ci i))) (data_ids ci (t_type t)) \<and> meta_ok ci (t_type t) m"

definition k_types :: "'v kernel \<Rightarrow> u64 list list" where
  "k_types k = map t_type (w_tables (k_world k))"

definition table_map_ok :: "(u64 list, nat option) ecs_hashmap \<Rightarrow> u64 list list \<Rightarrow> bool" where
  "table_map_ok hm types \<longleftrightarrow> hm_wf (\<lambda>_. True) flecs_type_hash flecs_type_compare hm \<and> hm_key_size hm = 16 \<and> hm_value_size hm = 8
     \<and> (\<forall>ids. hm_abs flecs_type_hash flecs_type_compare hm ids \<noteq> Some None)
     \<and> (\<forall>ids t. hm_abs flecs_type_hash flecs_type_compare hm ids = Some (Some t) \<longleftrightarrow> 0 < t \<and> t < length types \<and> types ! t = ids)"

text \<open>An edge that has not been created is zero; another one leads to the table of the changed type.\<close>

definition edge_ok :: "'v component_index \<Rightarrow> u64 list list \<Rightarrow> bool \<Rightarrow> nat \<Rightarrow> u64 \<Rightarrow> graph_edge \<Rightarrow> bool" where
  "edge_ok ci types remove node cid e \<longleftrightarrow> (case ge_to e of
     None \<Rightarrow> e = zero_edge
   | Some to \<Rightarrow> to < length types \<and> types ! to = type_change ci remove (types ! node) cid
       \<and> ge_id e = cid \<and> (node \<noteq> to \<or> ge_diff e \<noteq> None \<longrightarrow> diff_of (types ! node) (types ! to) cid (ge_diff e)))"

definition edges_ok :: "'v component_index \<Rightarrow> u64 list list \<Rightarrow> bool \<Rightarrow> nat \<Rightarrow> graph_edges \<Rightarrow> bool" where
  "edges_ok ci types remove node es \<longleftrightarrow> edges_wf es \<and> (\<forall>cid. edge_ok ci types remove node cid (the_edge es cid))"

definition nodes_ok :: "'v component_index \<Rightarrow> u64 list list \<Rightarrow> graph_node list \<Rightarrow> bool" where
  "nodes_ok ci types nodes \<longleftrightarrow> length nodes = length types
     \<and> (\<forall>i<length types. edges_ok ci types False i (gn_add (nodes ! i)) \<and> edges_ok ci types True i (gn_remove (nodes ! i)))"

definition kernel_wf :: "('v::zero) kernel \<Rightarrow> bool" where
  "kernel_wf k \<longleftrightarrow> world_wf (k_world k) \<and> plain_world (k_world k)
     \<and> list_all2 (table_ready (k_index k)) (w_tables (k_world k)) (k_meta k)
     \<and> k_types k ! 0 = [] \<and> distinct (k_types k) \<and> table_map_ok (k_table_map k) (k_types k)
     \<and> nodes_ok (k_index k) (k_types k) (k_nodes k)"

lemma k_types_length [simp]: "length (k_types k) = length (w_tables (k_world k))"
  by (simp add: k_types_def)

lemma k_types_nth: "t < length (w_tables (k_world k)) \<Longrightarrow> k_types k ! t = t_type (w_tables (k_world k) ! t)"
  by (simp add: k_types_def)

lemma kernel_wfD:
  assumes "kernel_wf k"
  shows "world_wf (k_world k)" "plain_world (k_world k)" "list_all2 (table_ready (k_index k)) (w_tables (k_world k)) (k_meta k)"
    "k_types k ! 0 = []" "distinct (k_types k)" "table_map_ok (k_table_map k) (k_types k)"
    "nodes_ok (k_index k) (k_types k) (k_nodes k)" "length (k_meta k) = length (w_tables (k_world k))"
    "length (k_nodes k) = length (w_tables (k_world k))" "0 < length (w_tables (k_world k))"
  using assms by (auto simp: kernel_wf_def nodes_ok_def world_wf_def tables_ok_def dest: list_all2_lengthD)

lemma table_readyD:
  assumes "kernel_wf k" "t < length (w_tables (k_world k))"
  shows "table_ready (k_index k) (w_tables (k_world k) ! t) (k_meta k ! t)" "type_ready (k_index k) (k_types k ! t)"
    "k_table k t = Inr (w_tables (k_world k) ! t)"
proof -
  show "table_ready (k_index k) (w_tables (k_world k) ! t) (k_meta k ! t)"
    using list_all2_nthD[OF kernel_wfD(3)[OF assms(1)] assms(2)] .
  then show "type_ready (k_index k) (k_types k ! t)" using assms(2) by (simp add: table_ready_def k_types_nth)
  show "k_table k t = Inr (w_tables (k_world k) ! t)" using assms(2) by (simp add: k_table_def)
qed

section \<open>Finding or creating the table of a type\<close>

text \<open>What stays when tables are added.\<close>

definition k_grown :: "'v kernel \<Rightarrow> 'v kernel \<Rightarrow> bool" where
  "k_grown k k' \<longleftrightarrow> k_index k' = k_index k \<and> k_non_trivial k' = k_non_trivial k
     \<and> (\<exists>ts. k_world k' = (k_world k)\<lparr>w_tables := w_tables (k_world k) @ ts\<rparr> \<and> (\<forall>t\<in>set ts. t_count t = 0) \<and> length ts \<le> 1)
     \<and> (\<exists>ns. k_nodes k' = k_nodes k @ ns \<and> set ns \<subseteq> {flecs_table_init_node})"

text \<open>An entry for a type is made when it has none, and points to the table that gets the number \<open>n\<close>.\<close>

lemma table_map_find:
  assumes hm: "table_map_ok hm types" and room: "room hm" and ids: "ids \<noteq> []" "types ! 0 = []" "types \<noteq> []"
  obtains hm1 elem h table where "flecs_hashmap_ensure hm 16 ids 8 = Inr (hm1, elem, h)" "value_read hm1 elem = Inr table"
    "case table of Some t \<Rightarrow> t < length types \<and> types ! t = ids \<and> table_map_ok hm1 types
     | None \<Rightarrow> ids \<notin> set types \<and> (\<exists>hm2. value_write hm1 elem (Some (length types)) = Inr hm2 \<and> key_write hm2 elem ids = Inr hm2
         \<and> table_map_ok hm2 (types @ [ids]))"
proof -
  note result = that
  let ?abs = "hm_abs flecs_type_hash flecs_type_compare"
  have w: "hm_wf (\<lambda>_. True) flecs_type_hash flecs_type_compare hm" "hm_key_size hm = 16" "hm_value_size hm = 8"
    "\<And>ids. ?abs hm ids \<noteq> Some None" "\<And>ids t. ?abs hm ids = Some (Some t) \<longleftrightarrow> 0 < t \<and> t < length types \<and> types ! t = ids"
    using hm by (simp_all add: table_map_ok_def)
  obtain h where h: "flecs_type_hash ids = Inr h" using type_hash_total by blast
  show thesis
  proof (rule types.hm_ensure[OF w(1) TrueI h room], goal_cases)
    case (1 hm1 p i b)
    note e = 1
    have b: "bucket_ok (\<lambda>_. True) flecs_type_hash flecs_type_compare h b"
      by (rule types.bucket_at[OF e(2,3)]) (use e(4) in simp)
    have i: "i < length (hb_keys b)" "hb_keys b ! i = ids" using find_key_Some[OF e(6)] by simp_all
    have len: "length (hb_values b) = length (hb_keys b)" using b by (simp add: bucket_ok_def)
    define table where "table = (case ?abs hm ids of Some v \<Rightarrow> v | None \<Rightarrow> None)"
    have abs1: "?abs hm1 ids' = (if ids' = ids then Some table else ?abs hm ids')" for ids'
      using e(7)[of ids'] by (simp add: table_def zero_option_def split: option.splits)
    have lk: "?abs hm1 ids = Some (hb_values b ! i)" using h e(4,6) by (simp add: hm_abs_def bucket_lookup_def)
    then have rd: "value_read hm1 (p, i) = Inr table" using abs1[of ids] i(1) len e(5) by (simp add: value_read_def)
    have en: "flecs_hashmap_ensure hm 16 ids 8 = Inr (hm1, (p, i), h)" using e(1) w(2,3) by simp
    have sz: "hm_key_size hm1 = 16" "hm_value_size hm1 = 8" using e(8,9) w(2,3) by simp_all
    show thesis
    proof (cases "?abs hm ids")
      case None
      have new: "ids \<notin> set types"
      proof
        assume "ids \<in> set types"
        then obtain t where "t < length types" "types ! t = ids" by (auto simp: in_set_conv_nth)
        then have "?abs hm ids = Some (Some t)" using w(5) ids(1,2) by (metis gr_zeroI)
        with None show False by simp
      qed
      have tb: "table = None" using None by (simp add: table_def)
      obtain hm2 where hm2: "value_write hm1 (p, i) (Some (length types)) = Inr hm2"
        "hm_wf (\<lambda>_. True) flecs_type_hash flecs_type_compare hm2"
        "\<And>ids'. ?abs hm2 ids' = (if ids' = ids then Some (Some (length types)) else ?abs hm1 ids')"
        "hm_key_size hm2 = 16" "hm_value_size hm2 = 8"
        by (rule types.hm_write[OF e(2) TrueI h e(3-6), where v = "Some (length types)"]) (use sz in simp)
      have kw: "key_write hm2 (p, i) ids = Inr hm2"
        by (rule key_write_same[OF value_write_bucket[OF hm2(1) e(5)]]) (use i in simp_all)
      have "table_map_ok hm2 (types @ [ids])"
        unfolding table_map_ok_def
      proof (intro conjI allI)
        fix ids'
        show "?abs hm2 ids' \<noteq> Some None" using w(4)[of ids'] by (simp add: hm2(3) abs1)
        fix t
        show "?abs hm2 ids' = Some (Some t) \<longleftrightarrow> 0 < t \<and> t < length (types @ [ids]) \<and> (types @ [ids]) ! t = ids'"
        proof (cases "ids' = ids")
          case True
          have "types ! t \<noteq> ids" if "t < length types" using that new nth_mem by blast
          then show ?thesis using True new ids by (auto simp: hm2(3) nth_append not_less)
        next
          case False
          then show ?thesis using w(5)[of ids' t] by (auto simp: hm2(3) abs1 nth_append)
        qed
      qed (use hm2 in simp_all)
      then show thesis using en rd tb new hm2(1) kw by (intro result[of hm1 "(p, i)" h table]) auto
    next
      case (Some v)
      then obtain t where v: "v = Some t" using w(4) by (cases v) auto
      have t: "0 < t" "t < length types" "types ! t = ids" using w(5)[of ids t] Some v by simp_all
      have "table = Some t" using Some v by (simp add: table_def)
      moreover have "?abs hm1 = ?abs hm" by (rule ext) (use abs1 Some v \<open>table = Some t\<close> in auto)
      ultimately show thesis using en rd t w e(2) sz by (intro result[of hm1 "(p, i)" h table]) (auto simp: table_map_ok_def)
    qed
  qed
qed

lemma edge_ok_grown: "edge_ok ci types remove node cid e \<Longrightarrow> node < length types \<Longrightarrow> edge_ok ci (types @ ts) remove node cid e"
  by (auto simp: edge_ok_def nth_append split: option.splits)

lemma nodes_ok_grown:
  assumes "nodes_ok ci types nodes"
  shows "nodes_ok ci (types @ [ids]) (nodes @ [flecs_table_init_node])"
proof -
  have z: "edge_ok ci ts remove node cid zero_edge" for ts remove node cid by (simp add: edge_ok_def zero_edge_def)
  have n: "edges_ok ci ts remove node flecs_table_init_edges" for ts remove node
    by (simp add: edges_ok_def init_edges_wf z)
  have o: "edges_ok ci types remove node es \<Longrightarrow> node < length types \<Longrightarrow> edges_ok ci (types @ [ids]) remove node es" for remove node es
    by (simp add: edges_ok_def edge_ok_grown)
  show ?thesis
    using assms n o by (auto simp: nodes_ok_def nth_append flecs_table_init_node_def less_Suc_eq)
qed

lemma k_grown_refl: "k_grown k (k\<lparr>k_table_map := hm\<rparr>)"
  by (auto simp: k_grown_def intro!: exI[of _ "[]"])

text \<open>The buckets of the table map hold the types of tables, so that it has room while there are few tables.\<close>

lemma table_map_room:
  assumes hm: "table_map_ok hm types" and n: "length types < 2 ^ 26 - 1"
  shows "room hm"
proof -
  let ?abs = "hm_abs flecs_type_hash flecs_type_compare"
  have w: "hm_wf (\<lambda>_. True) flecs_type_hash flecs_type_compare hm" "\<And>ids. ?abs hm ids \<noteq> Some None"
    "\<And>ids t. ?abs hm ids = Some (Some t) \<Longrightarrow> t < length types \<and> types ! t = ids"
    using hm by (auto simp: table_map_ok_def)
  have "h \<in> (\<lambda>ids. case flecs_type_hash ids of Inr h \<Rightarrow> h | Inl _ \<Rightarrow> 0) ` set types" if a: "map_abs (hm_impl hm) h = Some v" for h v
  proof -
    obtain p b where b: "v = Some p" "hm_heap hm ! p = Some b" "bucket_ok (\<lambda>_. True) flecs_type_hash flecs_type_compare h b"
      using w(1) a unfolding hm_wf_def by blast
    then obtain ids where ids: "ids \<in> set (hb_keys b)" "flecs_type_hash ids = Inr h"
      by (cases "hb_keys b") (auto simp: bucket_ok_def)
    have "?abs hm ids \<noteq> None"
      using a b(1,2) ids by (auto simp: hm_abs_def hm_bucket_def bucket_lookup_def find_key_None types.compare_refl)
    then obtain t where "?abs hm ids = Some (Some t)" using w(2)[of ids] by (cases "?abs hm ids") auto
    then have "ids \<in> set types" using w(3) nth_mem by blast
    then show ?thesis using ids(2) by (force intro: image_eqI[of _ _ ids])
  qed
  then have "dom (map_abs (hm_impl hm)) \<subseteq> (\<lambda>ids. case flecs_type_hash ids of Inr h \<Rightarrow> h | Inl _ \<Rightarrow> 0) ` set types" by blast
  then have "card (dom (map_abs (hm_impl hm))) \<le> length types"
    by (meson List.finite_set card_image_le card_length card_mono finite_imageI le_trans)
  then show ?thesis using n by (simp add: room_def)
qed

lemma table_ensure_ok:
  assumes wf: "kernel_wf k" and ids: "type_ready (k_index k) ids" and few: "length (w_tables (k_world k)) < 2 ^ 26 - 1"
  obtains k' t where "flecs_table_ensure k ids = Inr (k', t)" "kernel_wf k'" "k_grown k k'"
    "t < length (w_tables (k_world k'))" "k_types k' ! t = ids" "entity_view (k_world k') = entity_view (k_world k)"
    "set (k_types k') = insert ids (set (k_types k))"
proof (cases "ids = []")
  case True
  have "k_types k ! 0 \<in> set (k_types k)" using kernel_wfD(10)[OF wf] by (intro nth_mem) simp
  then show thesis using True kernel_wfD[OF wf] k_grown_refl[of k "k_table_map k"]
    by (intro that[of k 0]) (simp_all add: flecs_table_ensure_def wf insert_absorb)
next
  case False
  note result = that and w = kernel_wfD[OF wf]
  have room: "room (k_table_map k)" by (rule table_map_room[OF w(6)]) (use few in simp)
  let ?w = "k_world k"
  have ne: "k_types k \<noteq> []" using w(10) by (simp add: k_types_def)
  obtain hm1 elem h table where f: "flecs_hashmap_ensure (k_table_map k) 16 ids 8 = Inr (hm1, elem, h)"
    "value_read hm1 elem = Inr table"
    "case table of Some t \<Rightarrow> t < length (k_types k) \<and> k_types k ! t = ids \<and> table_map_ok hm1 (k_types k)
     | None \<Rightarrow> ids \<notin> set (k_types k) \<and> (\<exists>hm2. value_write hm1 elem (Some (length (k_types k))) = Inr hm2
         \<and> key_write hm2 elem ids = Inr hm2 \<and> table_map_ok hm2 (k_types k @ [ids]))"
    by (rule table_map_find[OF w(6) room False w(4) ne])
  show thesis
  proof (cases table)
    case (Some t)
    then have t: "t < length (k_types k)" "k_types k ! t = ids" "table_map_ok hm1 (k_types k)" using f(3) by simp_all
    show thesis
    proof (rule result)
      show "flecs_table_ensure k ids = Inr (k\<lparr>k_table_map := hm1\<rparr>, t)"
        using False f Some by (simp add: flecs_table_ensure_def)
      show "kernel_wf (k\<lparr>k_table_map := hm1\<rparr>)" using wf t(3) by (simp add: kernel_wf_def k_types_def)
      show "k_types (k\<lparr>k_table_map := hm1\<rparr>) ! t = ids" using t(2) by (simp add: k_types_def)
      have "ids \<in> set (k_types k)" using nth_mem[OF t(1)] t(2) by simp
      then show "set (k_types (k\<lparr>k_table_map := hm1\<rparr>)) = insert ids (set (k_types k))" by (simp add: k_types_def insert_absorb)
    qed (use t in \<open>simp_all add: k_grown_refl\<close>)
  next
    case None
    then obtain hm2 where new: "ids \<notin> set (k_types k)" and hm2: "value_write hm1 elem (Some (length (k_types k))) = Inr hm2"
      "key_write hm2 elem ids = Inr hm2" "table_map_ok hm2 (k_types k @ [ids])" using f(3) by auto
    have tr: "table_type ids" "index_ready (k_index k) ids" "ecs_pair EcsOnDelete EcsPanic \<notin> set ids"
      using ids by (simp_all add: type_ready_def)
    obtain tb m hc trs where init: "flecs_table_init (k_index k) ids = Inr (tb, m)" "table_wf tb" "t_type tb = ids" "t_count tb = 0"
      "col_types tb = map (\<lambda>i. (i, the (id_column (k_index k) i))) (data_ids (k_index k) ids)" "col_ids tb = data_ids (k_index k) ids"
      "t_traversable tb = 0" "\<not> table_has tb EcsTableHasTraversable"
      "\<forall>v. unat v < 256 \<longrightarrow> (if v \<notin> set ids then tm_component_map m ! unat v = 0
         else if id_column (k_index k) v = None then tm_component_map m ! unat v < 0
         else tm_component_map m ! unat v = int (column_rank (k_index k) ids v) + 1)"
      "length (tm_component_map m) = 256"
      "\<forall>j<length ids. tr_column (tm_records m ! j) = (if id_column (k_index k) (ids ! j) = None then -1 else int (length (data_ids (k_index k) (take j ids))))"
      "table_records (k_index k) hc ids = Inr trs" "same_records trs (tm_records m)" "take (length ids) trs = base_list ids" "length ids \<le> length trs"
      by (rule table_init_made[OF tr(1,2)]) blast
    define k' where "k' = k\<lparr>k_table_map := hm2, k_world := ?w\<lparr>w_tables := w_tables ?w @ [tb]\<rparr>,
       k_nodes := k_nodes k @ [flecs_table_init_node], k_meta := k_meta k @ [m]\<rparr>"
    have ready: "table_ready (k_index k) tb m"
      using ids init(3,5,6,9-15) by (auto simp: table_ready_def meta_ok_def)
    have nz: "0 \<notin> set (col_ids tb)" using ids by (simp add: init(6) data_ids_def type_ready_def)
    have ct: "\<forall>t'\<in>set (w_tables ?w). \<forall>p\<in>set (col_types tb). \<forall>q\<in>set (col_types t'). fst p = fst q \<longrightarrow> snd p = snd q"
    proof
      fix t' assume "t' \<in> set (w_tables ?w)"
      then obtain j where "j < length (w_tables ?w)" "t' = w_tables ?w ! j" by (auto simp: in_set_conv_nth)
      then have "col_types t' = map (\<lambda>i. (i, the (id_column (k_index k) i))) (data_ids (k_index k) (t_type t'))"
        using table_readyD(1)[OF wf] by (simp add: table_ready_def)
      then show "\<forall>p\<in>set (col_types tb). \<forall>q\<in>set (col_types t'). fst p = fst q \<longrightarrow> snd p = snd q"
        by (auto simp: init(5))
    qed
    note add = world_add_table[OF w(1,2) init(2,4) nz ct _ init(7,8)]
    have tys: "k_types k' = k_types k @ [ids]" by (simp add: k_types_def k'_def init(3))
    show thesis
    proof (rule result)
      show "flecs_table_ensure k ids = Inr (k', length (w_tables ?w))"
        using False f None hm2 init(1)
        by (simp add: flecs_table_ensure_def flecs_table_new_def flecs_init_table_def k'_def Let_def)
      show "kernel_wf k'"
        unfolding kernel_wf_def
      proof (intro conjI)
        show "list_all2 (table_ready (k_index k')) (w_tables (k_world k')) (k_meta k')"
          using w(3,8) ready by (simp add: k'_def list_all2_append)
        show "nodes_ok (k_index k') (k_types k') (k_nodes k')"
          using nodes_ok_grown[OF w(7), of ids] unfolding tys by (simp add: k'_def)
        show "k_types k' ! 0 = []" using w(4,10) by (simp add: tys nth_append)
        show "distinct (k_types k')" using w(5) new by (simp add: tys)
        show "table_map_ok (k_table_map k') (k_types k')" using hm2(3) unfolding tys by (simp add: k'_def)
      qed (use add(1,2) tr(3) in \<open>simp_all add: k'_def init(3)\<close>)
      show "k_grown k k'" by (auto simp: k_grown_def k'_def init(4))
      show "k_types k' ! length (w_tables ?w) = ids" unfolding tys by (simp add: nth_append)
      show "set (k_types k') = insert ids (set (k_types k))" by (simp add: tys)
    qed (use add(3) tr(3) in \<open>simp_all add: k'_def init(3)\<close>)
  qed
qed

end
