(* ===== verification/Kernel_Graph.thy ===== *)
theory Kernel_Graph
  imports Kernel_Wf
begin

text \<open>
  Following an edge of the graph of tables, created on demand, leads to the table with the id added
  or removed, with the difference between the two, and keeps the invariant of the kernel.
\<close>

section \<open>Relationships\<close>

lemma relation_pattern:
  assumes "table_id i" "ECS_IS_PAIR i"
  shows "pattern_ok (any_target i)" "ECS_IS_PAIR (any_target i)" "ECS_PAIR_FIRST (any_target i) = ECS_PAIR_FIRST i"
    "ECS_PAIR_SECOND (any_target i) = EcsWildcard"
proof -
  note k = pair_key_fields[OF pair_first_less[of i] wildcard_elems(2)]
  show "ECS_IS_PAIR (any_target i)" "ECS_PAIR_FIRST (any_target i) = ECS_PAIR_FIRST i" "ECS_PAIR_SECOND (any_target i) = EcsWildcard"
    using k by (simp_all add: any_target_def)
  have p: "any_target i AND ECS_ID_FLAGS_MASK = ECS_PAIR" using hash_pair(2)[OF pair_first_less[of i] wildcard_elems(2)]
    by (simp add: any_target_def)
  have "ECS_HAS_ID_FLAG i ECS_PAIR" using assms by (simp add: plain_pair_iff table_id_def)
  then have n: "ECS_PAIR_FIRST i \<noteq> 0" "ECS_PAIR_FIRST i \<noteq> EcsFlag" using assms by (simp_all add: table_id_def plain_id_def)
  have "any_target i AND ECS_COMPONENT_MASK \<noteq> EcsWildcard"
  proof
    assume a: "any_target i AND ECS_COMPONENT_MASK = EcsWildcard"
    have "ECS_PAIR_FIRST (any_target i) = ECS_PAIR_FIRST (any_target i AND ECS_COMPONENT_MASK)"
      by (rule bit_word_eqI) (auto simp: id_bits bit_and_iff)
    also have "\<dots> = 0" unfolding a by (simp add: id_constants)
    finally show False using n(1) k(2) by (simp add: any_target_def)
  qed
  then show "pattern_ok (any_target i)"
    using p k n by (simp add: pattern_ok_def plain_id_def any_target_def) (simp add: EcsWildcard_def)
qed

lemma relation_match:
  assumes "table_id x" "table_id i" "ECS_IS_PAIR i"
  shows "id_matches x (any_target i) \<longleftrightarrow> ECS_IS_PAIR x \<and> ECS_PAIR_FIRST x = ECS_PAIR_FIRST i"
proof -
  note r = relation_pattern[OF assms(2,3)]
  have "ECS_PAIR_FIRST i \<noteq> EcsWildcard" using table_pair(1)[OF assms(2,3)] by simp
  then show ?thesis using id_matches_pair[OF assms(1) r(1,2)] r(3,4) by auto
qed

lemma id_matches_self: "id_matches i i"
  by (simp add: id_matches_def ecs_id_match_def)

lemma relation_self: "table_id i \<Longrightarrow> ECS_IS_PAIR i \<Longrightarrow> id_matches i (any_target i)"
  by (simp add: relation_match)

text \<open>Ids that agree above the target are pairs of the same relationship.\<close>

lemma same_relation:
  assumes "table_id x" "table_id i" "ECS_IS_PAIR i" "drop_bit 32 x = drop_bit 32 i"
  shows "id_matches x (any_target i)"
proof -
  have pi: "i AND ECS_ID_FLAGS_MASK = ECS_PAIR" using assms(2,3) pair_not_toggled(2) by (simp add: table_id_def)
  have "drop_bit 60 x = drop_bit 60 i"
    using arg_cong[OF assms(4), of "drop_bit 28"] by (simp add: drop_bit_drop_bit)
  then have px: "x AND ECS_ID_FLAGS_MASK = ECS_PAIR" using pi flags_drop[of x] flags_drop[of i] by simp
  then have "ECS_IS_PAIR x" by (rule plain_pair_flags)
  then show ?thesis using plain_pair_first[OF px pi] assms(4) relation_match[OF assms(1-3)] by simp
qed

lemma relation_drop:
  assumes "table_id x" "table_id i" "ECS_IS_PAIR i" "id_matches x (any_target i)"
  shows "drop_bit 32 x = drop_bit 32 i"
proof -
  have "ECS_IS_PAIR x" "ECS_PAIR_FIRST x = ECS_PAIR_FIRST i" using relation_match[OF assms(1-3)] assms(4) by simp_all
  moreover have "x AND ECS_ID_FLAGS_MASK = ECS_PAIR" "i AND ECS_ID_FLAGS_MASK = ECS_PAIR"
    using calculation assms pair_not_toggled(2) by (simp_all add: table_id_def)
  ultimately show ?thesis using plain_pair_first by blast
qed

section \<open>The changed type\<close>

definition type_add_ready :: "('v::zero) component_index \<Rightarrow> u64 list \<Rightarrow> u64 \<Rightarrow> bool" where
  "type_add_ready ci ids i \<longleftrightarrow> table_id i \<and> index_ready ci [i] \<and> i \<noteq> 0 \<and> i \<noteq> ecs_pair EcsOnDelete EcsPanic
     \<and> length ids < 9999 \<and> (\<forall>x\<in>set ids. flecs_component_hash x = flecs_component_hash i \<longrightarrow> x = i)"

lemma type_add_readyD:
  assumes "type_add_ready ci ids i"
  shows "table_id i" "index_ready ci [i]" "i \<noteq> 0" "i \<noteq> ecs_pair EcsOnDelete EcsPanic" "length ids < 9999"
    "\<forall>x\<in>set ids. flecs_component_hash x = flecs_component_hash i \<longrightarrow> x = i"
  using assms unfolding type_add_ready_def by blast+

lemma type_readyD:
  assumes "type_ready ci ids"
  shows "table_type ids" "index_ready ci ids" "distinct (map flecs_component_hash ids)" "exclusive_once ci ids"
    "ecs_pair EcsOnDelete EcsPanic \<notin> set ids" "0 \<notin> set ids" "sorted_wrt (<) ids" "\<And>x. x \<in> set ids \<Longrightarrow> table_id x"
    "length ids < 10000"
  using assms unfolding type_ready_def table_type_def by blast+

lemma index_ready_subset: "index_ready ci ids \<Longrightarrow> set ids' \<subseteq> set ids \<Longrightarrow> index_ready ci ids'"
proof -
  assume a: "index_ready ci ids" "set ids' \<subseteq> set ids"
  have "table_patterns ids' \<subseteq> table_patterns ids" using a(2) by (auto simp: table_patterns_def)
  then show ?thesis using a(1) unfolding index_ready_def by blast
qed

lemma index_ready_insert: "index_ready ci ids \<Longrightarrow> index_ready ci [i] \<Longrightarrow> set ids' \<subseteq> insert i (set ids) \<Longrightarrow> index_ready ci ids'"
proof -
  assume a: "index_ready ci ids" "index_ready ci [i]" "set ids' \<subseteq> insert i (set ids)"
  have "table_patterns ids' \<subseteq> table_patterns ids \<union> table_patterns [i]" using a(3) by (auto simp: table_patterns_def)
  then show ?thesis using a(1,2) unfolding index_ready_def by blast
qed

lemma type_ready_filter:
  assumes "type_ready ci ids"
  shows "type_ready ci (filter P ids)"
proof -
  have "length (filter P ids) < 10000" using assms by (auto simp: type_ready_def table_type_def intro: le_less_trans[OF length_filter_le])
  moreover have "index_ready ci (filter P ids)" using assms by (auto simp: type_ready_def intro: index_ready_subset)
  ultimately show ?thesis
    using assms by (auto simp: type_ready_def table_type_def exclusive_once_def distinct_map_filter sorted_wrt_filter)
qed

lemma length_type_add: "length (flecs_type_add ids i) \<le> length ids + 1"
  by (auto simp: flecs_type_add_def flecs_type_new_with_def Let_def split: option.splits if_splits)

lemma distinct_map_insert:
  assumes "sorted_wrt (<) ids'" "set ids' = insert i (set ids)" "distinct (map f ids)" "\<forall>x\<in>set ids. f x = f i \<longrightarrow> x = (i::u64)"
  shows "distinct (map f ids')"
proof -
  have "distinct ids'" using assms(1) by (simp add: strict_sorted_iff)
  moreover have "inj_on f (set ids)" using assms(3) by (simp add: distinct_map)
  then have "inj_on f (insert i (set ids))" using assms(4) by (auto simp: inj_on_def)
  ultimately show ?thesis using assms(2) by (simp add: distinct_map)
qed

text \<open>Adding an id keeps a type ready when no other id of its exclusive relationship is there.\<close>

lemma type_ready_insert:
  assumes r: "type_ready ci ids" and i: "type_add_ready ci ids i"
    and ex: "exclusive_pair ci i \<Longrightarrow> \<forall>x\<in>set ids. id_matches x (any_target i) \<longrightarrow> x = i"
  shows "type_ready ci (flecs_type_add ids i)"
proof -
  have srt: "sorted_wrt (<) ids" and tid: "\<And>x. x \<in> set ids \<Longrightarrow> table_id x" and ti: "table_id i"
    using r i by (simp_all add: type_ready_def table_type_def type_add_ready_def)
  note a = type_add[OF srt, of i]
  have "exclusive_once ci (flecs_type_add ids i)"
    unfolding exclusive_once_def a(2)
  proof (intro ballI impI)
    fix x y assume x: "x \<in> insert i (set ids)" "exclusive_pair ci x" and y: "y \<in> insert i (set ids)" "id_matches y (any_target x)"
    have tx: "table_id x" "table_id y" "ECS_IS_PAIR x" using x y tid ti by (auto simp: exclusive_pair_def)
    have m: "ECS_IS_PAIR y" "ECS_PAIR_FIRST y = ECS_PAIR_FIRST x" using relation_match[OF tx(2,1,3)] y(2) by simp_all
    have ey: "exclusive_pair ci y" using x(2) m by (simp add: exclusive_pair_def)
    have yx: "id_matches x (any_target y)" using relation_match[OF tx(1,2) m(1)] m tx(3) by simp
    show "y = x"
    proof (cases "x \<in> set ids \<and> y \<in> set ids")
      case True
      then show ?thesis using r x(2) y(2) by (auto simp: type_ready_def exclusive_once_def)
    next
      case False
      then show ?thesis using ex x y yx ey by auto
    qed
  qed
  moreover have "distinct (map flecs_component_hash (flecs_type_add ids i))"
    by (rule distinct_map_insert[OF a type_readyD(3)[OF r] type_add_readyD(6)[OF i]])
  moreover have "index_ready ci (flecs_type_add ids i)"
    by (rule index_ready_insert[OF type_readyD(2)[OF r] type_add_readyD(2)[OF i]]) (simp add: a(2))
  ultimately show ?thesis
    using type_readyD(5,6)[OF r] type_add_readyD(3-5)[OF i] a length_type_add[of ids i] tid ti
    by (auto simp: type_ready_def table_type_def)
qed

lemma type_change_ready:
  assumes r: "type_ready ci ids" and i: "remove \<or> type_add_ready ci ids i"
  shows "type_ready ci (type_change ci remove ids i)"
proof (cases remove)
  case True
  then show ?thesis using type_ready_filter[OF r] by (simp add: type_change_def)
next
  case False
  then have i: "type_add_ready ci ids i" using i by simp
  show ?thesis
  proof (cases "exclusive_pair ci i")
    case True
    let ?ids = "filter (\<lambda>x. \<not> id_matches x (any_target i)) ids"
    have "length ?ids < 9999" using i by (auto simp: type_add_ready_def intro: le_less_trans[OF length_filter_le])
    then have "type_add_ready ci ?ids i" using i by (auto simp: type_add_ready_def)
    then have "type_ready ci (flecs_type_add ?ids i)" by (rule type_ready_insert[OF type_ready_filter[OF r]]) simp
    then show ?thesis using False True by (simp add: type_change_def)
  next
    case False
    then show ?thesis using type_ready_insert[OF r i] \<open>\<not> remove\<close> by (simp add: type_change_def)
  qed
qed

lemma type_change_add_set:
  assumes "type_ready ci ids"
  shows "set (type_change ci False ids i) =
    insert i (if exclusive_pair ci i then {x \<in> set ids. \<not> id_matches x (any_target i)} else set ids)"
    "sorted_wrt (<) (type_change ci False ids i)"
proof -
  have srt: "sorted_wrt (<) ids" using assms by (simp add: type_ready_def table_type_def)
  note a = type_add[OF srt, of i] type_add[OF sorted_wrt_filter[OF srt, of "\<lambda>x. \<not> id_matches x (any_target i)"], of i]
  show "set (type_change ci False ids i) =
    insert i (if exclusive_pair ci i then {x \<in> set ids. \<not> id_matches x (any_target i)} else set ids)"
    "sorted_wrt (<) (type_change ci False ids i)"
    using a by (auto simp: type_change_def)
qed

text \<open>An id that is there already changes nothing.\<close>

lemma type_change_present:
  assumes r: "type_ready ci ids" and i: "i \<in> set ids"
  shows "type_change ci False ids i = ids"
proof (rule sorted_types_eq)
  show "sorted_wrt (<) (type_change ci False ids i)" by (rule type_change_add_set(2)[OF r])
  show "sorted_wrt (<) ids" using r by (simp add: type_ready_def table_type_def)
  show "set (type_change ci False ids i) = set ids"
  proof (cases "exclusive_pair ci i")
    case True
    then have "\<forall>x\<in>set ids. id_matches x (any_target i) \<longrightarrow> x = i" using r i by (simp add: type_ready_def exclusive_once_def)
    then show ?thesis using i True by (auto simp: type_change_add_set(1)[OF r])
  qed (use i in \<open>auto simp: type_change_add_set(1)[OF r]\<close>)
qed

text \<open>Overwriting the only pair of the relationship keeps the order.\<close>

lemma type_change_replace:
  assumes r: "type_ready ci ids" and i: "table_id i" "exclusive_pair ci i" and p: "p < length ids" "id_matches (ids ! p) (any_target i)"
  shows "ids[p := i] = type_change ci False ids i"
proof (rule sorted_types_eq)
  have srt: "sorted_wrt (<) ids" and tid: "\<And>x. x \<in> set ids \<Longrightarrow> table_id x" using r by (simp_all add: type_ready_def table_type_def)
  have pi: "ECS_IS_PAIR i" using i(2) by (simp add: exclusive_pair_def)
  have tp: "table_id (ids ! p)" using p(1) tid by simp
  have dp: "drop_bit 32 (ids ! p) = drop_bit 32 i" by (rule relation_drop[OF tp i(1) pi p(2)])
  have pp: "ECS_IS_PAIR (ids ! p)" "ECS_PAIR_FIRST (ids ! p) = ECS_PAIR_FIRST i"
    using relation_match[OF tp i(1) pi] p(2) by simp_all
  then have "exclusive_pair ci (ids ! p)" "any_target (ids ! p) = any_target i" using i(2) by (simp_all add: exclusive_pair_def any_target_def)
  then have only: "x = ids ! p" if "x \<in> set ids" "id_matches x (any_target i)" for x
    using r p(1) that by (auto simp: type_ready_def exclusive_once_def)
  have d: "distinct ids" using srt by (simp add: strict_sorted_iff)
  have other: "\<not> id_matches (ids ! q) (any_target i)" if "q < length ids" "q \<noteq> p" for q
    using only[of "ids ! q"] that p(1) d by (auto simp: nth_eq_iff_index_eq)
  have less: "drop_bit 32 a < drop_bit 32 b \<Longrightarrow> a < b" for a b :: u64 using drop_bit_mono[of b a 32] by (meson not_le)
  have ne: "drop_bit 32 (ids ! q) \<noteq> drop_bit 32 i" if "q < length ids" "q \<noteq> p" for q
    using same_relation[OF tid[OF nth_mem] i(1) pi, of q] other that by blast
  have below: "ids ! q < i" if "q < p" for q
  proof -
    have "ids ! q < ids ! p" using srt p(1) that by (simp add: sorted_wrt_nth_less)
    then have l: "drop_bit 32 (ids ! q) \<le> drop_bit 32 i" unfolding dp[symmetric] by (intro drop_bit_mono less_imp_le)
    have "q < length ids" "q \<noteq> p" using that p(1) by simp_all
    from less[OF order_le_neq_trans[OF l ne[OF this]]] show ?thesis .
  qed
  have above: "i < ids ! q" if "p < q" "q < length ids" for q
  proof -
    have "ids ! p < ids ! q" using srt that by (simp add: sorted_wrt_nth_less)
    then have l: "drop_bit 32 i \<le> drop_bit 32 (ids ! q)" unfolding dp[symmetric] by (intro drop_bit_mono less_imp_le)
    have "q \<noteq> p" using that by simp
    from less[OF order_le_neq_trans[OF l ne[OF that(2) this, symmetric]]] show ?thesis .
  qed
  show "sorted_wrt (<) (ids[p := i])"
    unfolding sorted_wrt_iff_nth_less
  proof (intro allI impI)
    fix a b assume "a < b" "b < length (ids[p := i])"
    then show "ids[p := i] ! a < ids[p := i] ! b"
      using below above srt by (cases "a = p"; cases "b = p") (simp_all add: sorted_wrt_nth_less)
  qed
  show "sorted_wrt (<) (type_change ci False ids i)" by (rule type_change_add_set(2)[OF r])
  have "set (ids[p := i]) = insert i (set ids - {ids ! p})" by (rule set_update_distinct[OF d p(1)])
  moreover have "set ids - {ids ! p} = {x \<in> set ids. \<not> id_matches x (any_target i)}" using only p by auto
  ultimately show "set (ids[p := i]) = set (type_change ci False ids i)" using i(2) by (simp add: type_change_add_set(1)[OF r])
qed

section \<open>Looking up records\<close>

lemma table_record_class:
  assumes t: "table_type ids" "index_ready ci ids" and r: "table_records ci hc ids = Inr trs" "tr \<in> set trs"
  shows "key_class (tr_cr tr) = 0 \<Longrightarrow> \<exists>x\<in>set ids. tr_cr tr = flecs_component_hash x"
    "key_class (tr_cr tr) = 2 \<Longrightarrow> \<exists>x\<in>set ids. relation_key x = Some (tr_cr tr)"
proof -
  obtain core rels where c: "table_records ci hc ids = Inr (core @ extra_records hc ids)"
    "uncached_part core = base_list ids @ rels" "tallied relation_key ids rels" "tallied cached_key ids (cached_part core)"
    by (rule table_records_shape[OF t, of hc])
  have tid: "\<forall>i\<in>set ids. table_id i" using t(1) by (simp add: table_type_def)
  note k = record_classes[OF tid c(3,4)]
  have "set core = set (base_list ids) \<union> set rels \<union> set (cached_part core)"
    using arg_cong[OF c(2), of set] by (auto simp: uncached_part_def cached_part_def)
  then consider "tr \<in> set (base_list ids)" | "tr \<in> set rels" | "tr \<in> set (cached_part core)" | "tr \<in> set (extra_records hc ids)"
    using r c(1) by (metis Inr_inject Un_iff set_append)
  then have "(key_class (tr_cr tr) = 0 \<longrightarrow> (\<exists>x\<in>set ids. tr_cr tr = flecs_component_hash x))
    \<and> (key_class (tr_cr tr) = 2 \<longrightarrow> (\<exists>x\<in>set ids. relation_key x = Some (tr_cr tr)))"
  proof cases
    case 1
    then have "\<exists>x\<in>set ids. tr_cr tr = flecs_component_hash x" by (force simp: base_list_def)
    moreover have "key_class (tr_cr tr) = 0" using k(1) 1 by blast
    ultimately show ?thesis by simp
  next
    case 2
    then have "key_class (tr_cr tr) = 2" using k(2) by blast
    then show ?thesis using tallied_key[OF c(3) 2] by auto
  next
    case 3
    then have "key_class (tr_cr tr) = 1" using k(3) by blast
    then show ?thesis by simp
  next
    case 4
    then have "2 < key_class (tr_cr tr)" using k(4) by blast
    then show ?thesis by simp
  qed
  then show "key_class (tr_cr tr) = 0 \<Longrightarrow> \<exists>x\<in>set ids. tr_cr tr = flecs_component_hash x"
    "key_class (tr_cr tr) = 2 \<Longrightarrow> \<exists>x\<in>set ids. relation_key x = Some (tr_cr tr)" by blast+
qed

text \<open>Records with the same keys and positions give the same lookups.\<close>

lemma find_same_records:
  assumes "same_records trs trs'"
  shows "map_option tr_index (find (\<lambda>tr. tr_cr tr = p) trs') = map_option tr_index (find (\<lambda>tr. tr_cr tr = p) trs)"
proof -
  have "map_option tr_index (find (\<lambda>tr. tr_cr tr = p) ys) = map_of (zip (map tr_cr ys) (map tr_index ys)) p" for ys
    by (induction ys) auto
  from this[of trs] this[of trs'] show ?thesis using assms by (simp add: same_records_def)
qed

lemma find_None_same: "same_records trs trs' \<Longrightarrow> find (\<lambda>tr. tr_cr tr = p) trs' = None \<longleftrightarrow> (\<forall>tr\<in>set trs. tr_cr tr \<noteq> p)"
proof -
  assume "same_records trs trs'"
  then have "tr_cr ` set trs' = tr_cr ` set trs" unfolding same_records_def by (metis list.set_map)
  then show ?thesis by (auto simp: find_None_iff) (metis imageE image_eqI)+
qed

lemma find_relation:
  assumes m: "type_ready ci ids" "meta_ok ci ids m" and i: "table_id i" "ECS_IS_PAIR i"
  shows "case find (\<lambda>tr. tr_cr tr = flecs_component_hash (any_target i)) (tm_records m) of
      None \<Rightarrow> \<forall>x\<in>set ids. \<not> id_matches x (any_target i)
    | Some tr \<Rightarrow> \<exists>p<length ids. tr_index tr = int p \<and> id_matches (ids ! p) (any_target i)"
proof -
  note r = type_readyD[OF m(1)]
  obtain hc trs where t: "table_records ci hc ids = Inr trs" "same_records trs (tm_records m)"
    using m(2) by (auto simp: meta_ok_def)
  let ?p = "any_target i"
  have pat: "pattern_ok ?p" by (rule relation_pattern(1)[OF i])
  show ?thesis
  proof (cases "\<exists>x\<in>set ids. id_matches x ?p")
    case False
    have "\<forall>tr\<in>set trs. tr_cr tr \<noteq> flecs_component_hash ?p"
    proof (intro ballI notI)
      fix tr assume tr: "tr \<in> set trs" "tr_cr tr = flecs_component_hash ?p"
      have "relation_key i = Some (flecs_component_hash ?p)" using i(2) by (simp add: relation_key_def any_target_def)
      then have "key_class (tr_cr tr) = 2" using class_rel_key[OF i(1)] tr(2) by simp
      then obtain x where x: "x \<in> set ids" "relation_key x = Some (flecs_component_hash ?p)"
        using table_record_class(2)[OF r(1,2) t(1) tr(1)] tr(2) by auto
      then have "id_matches x ?p" using relation_matches[OF r(8)[OF x(1)] i] pat by (simp add: any_target_def)
      with False x(1) show False by blast
    qed
    then have "find (\<lambda>tr. tr_cr tr = flecs_component_hash ?p) (tm_records m) = None" by (simp add: find_None_same[OF t(2)])
    then show ?thesis using False by simp
  next
    case True
    then obtain x where x: "x \<in> set ids" "id_matches x ?p" by blast
    have px: "ECS_IS_PAIR x" "any_target x = ?p" using relation_match[OF r(8)[OF x(1)] i] x(2) by (simp_all add: any_target_def)
    have inp: "?p \<in> table_patterns ids" using in_patterns(2)[OF x(1) px(1)] px(2) by (simp add: any_target_def)
    have ne: "?p \<noteq> EcsAny" using relation_pattern(2)[OF i] by (auto simp: id_constants)
    obtain trs' where t': "table_records ci hc ids = Inr trs'" "distinct (map tr_cr trs')"
      "if \<exists>i\<in>set ids. id_matches i ?p then \<exists>tr\<in>set trs'. record_of ids ?p tr else \<forall>tr\<in>set trs'. tr_cr tr \<noteq> flecs_component_hash ?p"
      by (rule table_records_match[OF r(1-3), of hc]) (use inp pat ne in blast)
    then have e: "trs' = trs" using t(1) by simp
    obtain tr where tr: "tr \<in> set trs" "record_of ids ?p tr" using t'(3) True e by auto
    obtain tr0 where tr0: "find (\<lambda>tr. tr_cr tr = flecs_component_hash ?p) trs = Some tr0"
      using tr by (cases "find (\<lambda>tr. tr_cr tr = flecs_component_hash ?p) trs") (auto simp: find_None_iff record_of_def)
    then have s: "tr0 \<in> set trs" "tr_cr tr0 = flecs_component_hash ?p" by (auto simp: find_Some_iff)
    then have "tr0 = tr" using tr t'(2) e by (auto simp: distinct_map inj_on_def record_of_def)
    moreover obtain tr1 where tr1: "find (\<lambda>tr. tr_cr tr = flecs_component_hash ?p) (tm_records m) = Some tr1" "tr_index tr1 = tr_index tr0"
      using find_same_records[OF t(2), of "flecs_component_hash ?p"] tr0 by auto
    moreover have "length (takeWhile (\<lambda>y. \<not> id_matches y ?p) ids) < length ids"
      by (rule takeWhile_shorter[OF x(1)]) (use x(2) in simp)
    moreover have "id_matches (ids ! length (takeWhile (\<lambda>y. \<not> id_matches y ?p) ids)) ?p"
      using nth_length_takeWhile[of "\<lambda>y. \<not> id_matches y ?p" ids] calculation(4) by simp
    ultimately show ?thesis using tr(2) by (auto simp: record_of_def)
  qed
qed

section \<open>The table with or without an id\<close>

text \<open>The record that decides how an id is added: that of the id, or of all pairs of its relationship.\<close>

definition kind_of :: "u64 \<Rightarrow> u64" where
  "kind_of i = (if ECS_IS_PAIR i then any_target i else i)"

definition add_ready :: "('v::zero) kernel \<Rightarrow> u64 list \<Rightarrow> u64 \<Rightarrow> bool" where
  "add_ready k ids i \<longleftrightarrow> type_add_ready (k_index k) ids i \<and> ecs_make_alive_id k i = Inr () \<and> in_tables k i
     \<and> i \<notin> {EcsParent, EcsIsA, EcsChildOf} \<and> ECS_PAIR_FIRST i \<noteq> EcsChildOf
     \<and> (\<forall>cr. flecs_components_get (k_index k) (kind_of i) = Some cr \<longrightarrow> cr_flags cr AND EcsIdWith = 0)"

lemma kind_record:
  assumes "type_add_ready ci ids i"
  obtains cr where "flecs_components_get ci (kind_of i) = Some cr" "flecs_components_ensure ci (kind_of i) = Inr cr"
    "cr_flags cr AND EcsIdDontFragment = 0" "ECS_IS_PAIR i \<longrightarrow> (cr_flags cr AND EcsIdExclusive \<noteq> 0 \<longleftrightarrow> exclusive_pair ci i)"
proof -
  have "kind_of i \<in> table_patterns [i]" by (simp add: kind_of_def any_target_def table_patterns_def id_patterns_def)
  then obtain cr where cr: "flecs_components_get ci (kind_of i) = Some cr" "flecs_components_ensure ci (kind_of i) = Inr cr" "cr_ok cr"
    using index_ready_at[OF type_add_readyD(2)[OF assms]] by metis
  have "ECS_IS_PAIR i \<longrightarrow> (cr_flags cr AND EcsIdExclusive \<noteq> 0 \<longleftrightarrow> exclusive_pair ci i)"
    using cr(1) by (auto simp: exclusive_pair_def kind_of_def any_target_def)
  then show thesis using cr by (intro that[of cr]) (simp_all add: cr_ok_def)
qed

lemma replaced_type_ok:
  assumes wf: "kernel_wf k" and node: "node < length (w_tables (k_world k))" and i: "type_add_ready (k_index k) (k_types k ! node) i"
    and cr: "ECS_IS_PAIR i \<longrightarrow> (cr_flags cr AND EcsIdExclusive \<noteq> 0 \<longleftrightarrow> exclusive_pair (k_index k) i)"
  obtains r where "replaced_type k node i cr = Inr r"
    "case r of Some ids \<Rightarrow> ids = type_change (k_index k) False (k_types k ! node) i
     | None \<Rightarrow> type_change (k_index k) False (k_types k ! node) i = flecs_type_add (k_types k ! node) i"
proof (cases "exclusive_pair (k_index k) i")
  case False
  then have "replaced_type k node i cr = Inr None" using cr by (auto simp: replaced_type_def)
  then show thesis using False by (intro that[of None]) (simp_all add: type_change_def)
next
  case True
  note tr = table_readyD[OF wf node]
  have pi: "ECS_IS_PAIR i" using True by (simp add: exclusive_pair_def)
  have ty: "t_type (w_tables (k_world k) ! node) = k_types k ! node" using node by (simp add: k_types_nth)
  have m: "mem_get (k_meta k) node = Inr (k_meta k ! node)" using node kernel_wfD(8)[OF wf] by simp
  have mo: "meta_ok (k_index k) (k_types k ! node) (k_meta k ! node)" using tr(1) by (simp add: table_ready_def ty)
  let ?f = "find (\<lambda>tr. tr_cr tr = flecs_component_hash (any_target i)) (tm_records (k_meta k ! node))"
  note fr = find_relation[OF tr(2) mo type_add_readyD(1)[OF i] pi]
  have g: "flecs_component_get_table k (flecs_component_hash (ecs_pair (ECS_PAIR_FIRST i) EcsWildcard)) node = Inr ?f"
    by (simp add: flecs_component_get_table_def m any_target_def)
  show thesis
  proof (cases ?f)
    case None
    then have "filter (\<lambda>x. \<not> id_matches x (any_target i)) (k_types k ! node) = k_types k ! node"
      using fr by (simp add: filter_id_conv)
    moreover have "replaced_type k node i cr = Inr None" using pi cr True None by (simp add: replaced_type_def g)
    ultimately show thesis using True by (intro that[of None]) (simp_all add: type_change_def)
  next
    case (Some tr0)
    then obtain p where p: "p < length (k_types k ! node)" "tr_index tr0 = int p" "id_matches (k_types k ! node ! p) (any_target i)"
      using fr by auto
    have "k_types k ! node \<noteq> []" using p(1) by auto
    then have "replaced_type k node i cr = Inr (Some ((k_types k ! node)[p := i]))"
      using pi cr True Some p tr(3) by (auto simp: replaced_type_def g ty)
    then show thesis
      using type_change_replace[OF tr(2) type_add_readyD(1)[OF i] True p(1,3)]
      by (intro that[of "Some ((k_types k ! node)[p := i])"]) simp_all
  qed
qed

lemma find_table_with_ok:
  assumes wf: "kernel_wf k" and node: "node < length (w_tables (k_world k))" and i: "add_ready k (k_types k ! node) i"
    and room: "length (w_tables (k_world k)) < 2 ^ 26 - 1"
  obtains k' t where "flecs_find_table_with k node i = Inr (k', t)" "kernel_wf k'" "k_grown k k'"
    "t < length (w_tables (k_world k'))" "k_types k' ! t = type_change (k_index k) False (k_types k ! node) i"
    "entity_view (k_world k') = entity_view (k_world k)"
proof -
  note result = that
  have ta: "type_add_ready (k_index k) (k_types k ! node) i" "ecs_make_alive_id k i = Inr ()" "i \<noteq> EcsParent"
    "i \<noteq> EcsIsA" "i \<noteq> EcsChildOf" "ECS_PAIR_FIRST i \<noteq> EcsChildOf"
    using i by (simp_all add: add_ready_def)
  note tr = table_readyD[OF wf node]
  have ty: "t_type (w_tables (k_world k) ! node) = k_types k ! node" using node by (simp add: k_types_nth)
  obtain cr where cr: "flecs_components_get (k_index k) (kind_of i) = Some cr" "flecs_components_ensure (k_index k) (kind_of i) = Inr cr"
    "cr_flags cr AND EcsIdDontFragment = 0" "ECS_IS_PAIR i \<longrightarrow> (cr_flags cr AND EcsIdExclusive \<noteq> 0 \<longleftrightarrow> exclusive_pair (k_index k) i)"
    by (rule kind_record[OF ta(1)]) blast
  have w: "cr_flags cr AND EcsIdWith = 0" using i cr(1) by (simp add: add_ready_def)
  define r where "r = (if ECS_IS_PAIR i then ECS_PAIR_FIRST i else i)"
  have r: "r \<noteq> EcsIsA" "r \<noteq> EcsChildOf" using ta(4-6) type_add_readyD(1)[OF ta(1)] by (auto simp: r_def table_id_def)
  have en: "flecs_components_ensure (k_index k) (if ECS_IS_PAIR i then ecs_pair r EcsWildcard else i) = Inr cr"
    using cr(2) by (simp add: kind_of_def any_target_def r_def split: if_splits)
  obtain rp where rp: "replaced_type k node i cr = Inr rp"
    "case rp of Some ids \<Rightarrow> ids = type_change (k_index k) False (k_types k ! node) i
     | None \<Rightarrow> type_change (k_index k) False (k_types k ! node) i = flecs_type_add (k_types k ! node) i"
    by (rule replaced_type_ok[OF wf node ta(1) cr(4)])
  note run = flecs_find_table_with_def r_def[symmetric] Let_def ta(2) en rp(1) cr(3) w tr(3) ty
  define dst where "dst = (case rp of Some ids \<Rightarrow> Some ids | None \<Rightarrow> flecs_type_new_with (k_types k ! node) i)"
  show thesis
  proof (cases dst)
    case None
    then have rn: "rp = None" "flecs_type_new_with (k_types k ! node) i = None" by (auto simp: dst_def split: option.splits)
    have "i \<in> set (k_types k ! node)"
      using type_new_with(2)[OF type_readyD(7)[OF tr(2)], of i] rn(2) by auto
    then have e: "type_change (k_index k) False (k_types k ! node) i = k_types k ! node" by (rule type_change_present[OF tr(2)])
    have "flecs_find_table_with k node i = Inr (k, node)" using rn by (simp add: run)
    then show thesis using wf node e by (intro result[of k node]) (auto simp: k_grown_def intro: exI[of _ "[]"])
  next
    case (Some ids)
    have ids: "ids = type_change (k_index k) False (k_types k ! node) i"
      using rp(2) Some by (auto simp: dst_def flecs_type_add_def split: option.splits)
    have rdy: "type_ready (k_index k) ids" unfolding ids by (rule type_change_ready[OF tr(2)]) (use ta(1) in simp)
    obtain k' t where k': "flecs_table_ensure k ids = Inr (k', t)" "kernel_wf k'" "k_grown k k'"
      "t < length (w_tables (k_world k'))" "k_types k' ! t = ids" "entity_view (k_world k') = entity_view (k_world k)"
      by (rule table_ensure_ok[OF wf rdy room])
    have "flecs_find_table_with k node i = Inr (k', t)"
      using Some[unfolded dst_def, folded ty] k'(1) r ta(3,6)
      by (simp add: flecs_find_table_with_def r_def[symmetric] Let_def ta(2) en rp(1) cr(3) w tr(3))
    then show thesis using k' ids by (intro result[of k' t]) simp_all
  qed
qed

text \<open>Removing an id or the ids that a pattern matches.\<close>

definition remove_ready :: "('v::zero) kernel \<Rightarrow> u64 \<Rightarrow> bool" where
  "remove_ready k i \<longleftrightarrow> pattern_ok i \<and> i \<noteq> 0 \<and> i \<noteq> EcsParent \<and> in_tables k i
     \<and> (\<forall>cr. flecs_components_get (k_index k) (kind_of i) = Some cr \<longrightarrow> cr_flags cr AND EcsIdDontFragment = 0)"

lemma find_table_without_ok:
  assumes wf: "kernel_wf k" and node: "node < length (w_tables (k_world k))" and i: "remove_ready k i"
    and room: "length (w_tables (k_world k)) < 2 ^ 26 - 1"
  obtains k' t where "flecs_find_table_without k node i = Inr (k', t)" "kernel_wf k'" "k_grown k k'"
    "t < length (w_tables (k_world k'))" "k_types k' ! t = type_change (k_index k) True (k_types k ! node) i"
    "entity_view (k_world k') = entity_view (k_world k)"
proof -
  note result = that
  have ri: "pattern_ok i" "i \<noteq> EcsParent" using i by (simp_all add: remove_ready_def)
  note tr = table_readyD[OF wf node]
  have ty: "t_type (w_tables (k_world k) ! node) = k_types k ! node" using node by (simp add: k_types_nth)
  have df: "\<not> (case flecs_components_get (k_index k) (if ECS_IS_PAIR i then ecs_pair (ECS_PAIR_FIRST i) EcsWildcard else i) of
      None \<Rightarrow> False | Some cr \<Rightarrow> cr_flags cr AND EcsIdDontFragment \<noteq> 0)"
    using i by (auto simp: remove_ready_def kind_of_def any_target_def split: option.splits)
  have pt: "plain_type (k_types k ! node)"
    using type_readyD(7,8)[OF tr(2)] by (auto simp: plain_type_def table_id_def)
  note run = flecs_find_table_without_def Let_def if_not_P[OF df] tr(3) ty res_bind_simps type_new_without[OF pt ri(1)]
  let ?ids = "filter (\<lambda>x. \<not> id_matches x i) (k_types k ! node)"
  show thesis
  proof (cases "\<exists>x\<in>set (k_types k ! node). id_matches x i")
    case False
    then have "?ids = k_types k ! node" by (simp add: filter_id_conv)
    moreover have "flecs_find_table_without k node i = Inr (k, node)" unfolding run using False by simp
    ultimately show thesis using wf node
      by (intro result[of k node]) (auto simp: type_change_def k_grown_def intro: exI[of _ "[]"])
  next
    case True
    obtain k' t where k': "flecs_table_ensure k ?ids = Inr (k', t)" "kernel_wf k'" "k_grown k k'"
      "t < length (w_tables (k_world k'))" "k_types k' ! t = ?ids" "entity_view (k_world k') = entity_view (k_world k)"
      by (rule table_ensure_ok[OF wf type_ready_filter[OF tr(2)] room])
    have "flecs_find_table_without k node i = Inr (k', t)" unfolding run using True k'(1) ri(2) by simp
    then show thesis using k' by (intro result[of k' t]) (simp_all add: type_change_def)
  qed
qed

end
