(* ===== verification/Kernel_Edges.thy ===== *)
theory Kernel_Edges
  imports Kernel_Graph
begin

text \<open>
  The edges of a table in the kernel, the creation of an edge, and following one: it leads to the
  table with the id added or removed, with the difference between the two tables, and keeps the
  invariant of the kernel.
\<close>

section \<open>The edges of a table\<close>

definition edges_at :: "'v kernel \<Rightarrow> bool \<Rightarrow> nat \<Rightarrow> graph_edges" where
  "edges_at k remove node = (if remove then gn_remove (k_nodes k ! node) else gn_add (k_nodes k ! node))"

definition set_edges :: "'v kernel \<Rightarrow> bool \<Rightarrow> nat \<Rightarrow> graph_edges \<Rightarrow> 'v kernel" where
  "set_edges k remove node es = k\<lparr>k_nodes := (k_nodes k)[node :=
     (if remove then (k_nodes k ! node)\<lparr>gn_remove := es\<rparr> else (k_nodes k ! node)\<lparr>gn_add := es\<rparr>)]\<rparr>"

lemma set_edges_frame [simp]:
  "k_world (set_edges k remove node es) = k_world k" "k_index (set_edges k remove node es) = k_index k"
  "k_table_map (set_edges k remove node es) = k_table_map k" "k_meta (set_edges k remove node es) = k_meta k"
  "k_non_trivial (set_edges k remove node es) = k_non_trivial k" "k_types (set_edges k remove node es) = k_types k"
  "length (k_nodes (set_edges k remove node es)) = length (k_nodes k)"
  by (simp_all add: set_edges_def k_types_def)

lemma edges_at_ok:
  assumes "node < length (k_nodes k)"
  shows "k_edges k remove node = Inr (edges_at k remove node)"
    "k_edges_set k remove node es = Inr (set_edges k remove node es)"
    "edges_at (set_edges k remove node es) remove node = es"
    "set_edges (set_edges k remove node es) remove node es' = set_edges k remove node es'"
  using assms by (simp_all add: k_edges_def k_edges_set_def edges_at_def set_edges_def)

lemma edges_at_wf:
  assumes "kernel_wf k" "node < length (w_tables (k_world k))"
  shows "edges_ok (k_index k) (k_types k) remove node (edges_at k remove node)"
  using kernel_wfD(7)[OF assms(1)] assms(2) by (simp add: nodes_ok_def edges_at_def)

lemma set_edges_wf:
  assumes wf: "kernel_wf k" and node: "node < length (w_tables (k_world k))"
    and es: "edges_ok (k_index k) (k_types k) remove node es"
  shows "kernel_wf (set_edges k remove node es)"
proof -
  note n = kernel_wfD(7,9)[OF wf]
  have "nodes_ok (k_index k) (k_types k) (k_nodes (set_edges k remove node es))"
    using n es node by (auto simp: nodes_ok_def set_edges_def nth_list_update)
  then show ?thesis using wf by (simp add: kernel_wf_def)
qed

text \<open>What stays when tables and edges are added.\<close>

definition k_extends :: "'v kernel \<Rightarrow> 'v kernel \<Rightarrow> bool" where
  "k_extends k k' \<longleftrightarrow> k_index k' = k_index k \<and> k_non_trivial k' = k_non_trivial k
     \<and> (\<exists>ts. k_world k' = (k_world k)\<lparr>w_tables := w_tables (k_world k) @ ts\<rparr> \<and> (\<forall>t\<in>set ts. t_count t = 0) \<and> length ts \<le> 1)"

lemma k_extends_same: "k_extends k k" "k_extends k (set_edges k remove node es)"
  "k_extends k k' \<Longrightarrow> k_extends k (set_edges k' remove node es)" "k_grown k k' \<Longrightarrow> k_extends k k'"
  "k_grown (set_edges k remove node es) k' \<Longrightarrow> k_extends k k'"
  by (auto simp: k_extends_def k_grown_def intro!: exI[of _ "[]"])

lemma k_extendsD:
  assumes "k_extends k k'"
  shows "k_index k' = k_index k" "w_index (k_world k') = w_index (k_world k)" "k_non_trivial k' = k_non_trivial k"
    "length (w_tables (k_world k)) \<le> length (w_tables (k_world k'))" "length (w_tables (k_world k')) \<le> length (w_tables (k_world k)) + 1"
    "\<And>t. t < length (w_tables (k_world k)) \<Longrightarrow> k_types k' ! t = k_types k ! t"
    "\<And>t. t < length (w_tables (k_world k)) \<Longrightarrow> w_tables (k_world k') ! t = w_tables (k_world k) ! t"
    "\<And>t. t < length (w_tables (k_world k')) \<Longrightarrow> \<not> t < length (w_tables (k_world k)) \<Longrightarrow> t_count (w_tables (k_world k') ! t) = 0"
proof -
  obtain ts where ts: "k_world k' = (k_world k)\<lparr>w_tables := w_tables (k_world k) @ ts\<rparr>" "\<forall>t\<in>set ts. t_count t = 0"
    using assms by (auto simp: k_extends_def)
  then show "t_count (w_tables (k_world k') ! t) = 0" if "t < length (w_tables (k_world k'))" "\<not> t < length (w_tables (k_world k))" for t
  proof -
    have "w_tables (k_world k') ! t = ts ! (t - length (w_tables (k_world k)))" using that(2) unfolding ts(1) by (simp add: nth_append)
    moreover have "t - length (w_tables (k_world k)) < length ts" using that unfolding ts(1) by (simp add: less_diff_conv2)
    ultimately show ?thesis using ts(2) nth_mem by metis
  qed
qed (use assms in \<open>auto simp: k_extends_def k_types_def nth_append\<close>)

lemma in_tables_frame:
  "k_index k' = k_index k \<Longrightarrow> w_index (k_world k') = w_index (k_world k) \<Longrightarrow> k_non_trivial k' = k_non_trivial k \<Longrightarrow>
    in_tables k' i = in_tables k i"
  by (simp add: in_tables_def flecs_id_is_alive_def)

text \<open>How many edges the maps of the tables hold.\<close>

definition edge_load :: "'v kernel \<Rightarrow> nat \<Rightarrow> bool" where
  "edge_load k n \<longleftrightarrow> (\<forall>remove node. node < length (k_nodes k) \<longrightarrow> edges_count (edges_at k remove node) \<le> n)"

lemma edges_at_other:
  "edges_at (set_edges k remove node es) remove' node' =
    (if node' = node \<and> node < length (k_nodes k) \<and> remove' = remove then es else edges_at k remove' node')"
  by (cases "node < length (k_nodes k)"; cases "node' = node"; cases remove; cases remove')
    (simp_all add: edges_at_def set_edges_def list_update_beyond)

lemma edge_load_set: "edge_load k n \<Longrightarrow> edges_count es \<le> n \<Longrightarrow> edge_load (set_edges k remove node es) n"
  by (simp add: edge_load_def edges_at_other)

lemma edge_load_grown: "k_grown k k' \<Longrightarrow> edge_load k n \<Longrightarrow> edge_load k' n"
proof -
  assume g: "k_grown k k'" and l: "edge_load k n"
  obtain ns where ns: "k_nodes k' = k_nodes k @ ns" "set ns \<subseteq> {flecs_table_init_node}" using g by (auto simp: k_grown_def)
  have z: "edges_count (if remove then gn_remove nd else gn_add nd) = 0" if "nd \<in> set ns" for nd remove
    using that ns(2) by (auto simp: flecs_table_init_node_def flecs_table_init_edges_def edges_count_def)
  show "edge_load k' n"
    unfolding edge_load_def
  proof (intro allI impI)
    fix remove node assume node: "node < length (k_nodes k')"
    show "edges_count (edges_at k' remove node) \<le> n"
    proof (cases "node < length (k_nodes k)")
      case True
      then have "edges_at k' remove node = edges_at k remove node" by (simp add: edges_at_def ns(1) nth_append)
      then show ?thesis using l True by (simp add: edge_load_def)
    next
      case False
      then have "ns ! (node - length (k_nodes k)) \<in> set ns" using node by (intro nth_mem) (simp add: ns(1) less_diff_conv2)
      then show ?thesis using z[of _ remove] False by (simp add: edges_at_def ns(1) nth_append)
    qed
  qed
qed

lemma edge_load_mono: "edge_load k n \<Longrightarrow> n \<le> m \<Longrightarrow> edge_load k m"
  unfolding edge_load_def by (meson le_trans)

section \<open>Creating an edge\<close>

lemma edges_ok_update:
  assumes "\<And>j. edge_ok ci types remove node j (the_edge es j)" "edges_wf es'"
    and "\<And>j. the_edge es' j = (if j = i then e else the_edge es j)" "edge_ok ci types remove node i e"
  shows "edges_ok ci types remove node es'"
  using assms by (simp add: edges_ok_def)

lemma init_edge_ok:
  assumes wf: "kernel_wf k" and node: "node < length (w_tables (k_world k))" and to: "to < length (w_tables (k_world k))"
    and es: "edge_of (edges_at k remove node) i \<noteq> None" "the_edge (edges_at k remove node) i = zero_edge"
      "edges_count (edges_at k remove node) + 1 < 2 ^ 26"
    and i: "in_tables k i" and ty: "k_types k ! to = type_change (k_index k) remove (k_types k ! node) i"
  obtains es' where "init_edge k remove node i to = Inr (set_edges k remove node es')"
    "edges_ok (k_index k) (k_types k) remove node es'" "edge_of es' i \<noteq> None" "ge_to (the_edge es' i) = Some to"
    "edges_count es' \<le> edges_count (edges_at k remove node) + 1"
proof -
  note result = that
  have nn: "node < length (k_nodes k)" using node kernel_wfD(9)[OF wf] by simp
  note at = edges_at_ok[OF nn, of remove]
  let ?es = "edges_at k remove node" and ?e1 = "\<lparr>ge_to = Some to, ge_diff = None, ge_id = i\<rparr>"
  have ok: "edges_wf ?es" "\<And>j. edge_ok (k_index k) (k_types k) remove node j (the_edge ?es j)"
    using edges_at_wf[OF wf node, of remove] by (simp_all add: edges_ok_def)
  obtain es1 where es1: "edge_write ?es i ?e1 = Inr es1" "edges_wf es1" "edge_of es1 = (edge_of ?es)(i \<mapsto> ?e1)"
    "edges_count es1 = edges_count ?es" by (rule edge_write_ok[OF ok(1) es(1)])
  have at1: "\<And>k'. length (k_nodes k') = length (k_nodes k) \<Longrightarrow> node < length (k_nodes k')" using nn by simp
  have s1: "flecs_table_init_edge k remove node i to = Inr (set_edges k remove node es1)"
    by (simp add: flecs_table_init_edge_def k_edge_def k_edge_set_def at edge_read_ok[OF ok(1) es(1)] es(2) zero_edge_def es1(1)[unfolded zero_edge_def])
  obtain es2 where es2: "flecs_table_ensure_hi_edge es1 i = Inr es2" "edges_wf es2" "the_edge es2 = the_edge es1"
    "\<And>j. edge_of es1 j \<noteq> None \<Longrightarrow> edge_of es2 j \<noteq> None" "edges_count es2 \<le> edges_count es1 + 1"
    by (rule ensure_hi_edge_ok[OF es1(2), of i]) (use es(3) es1(4) in auto)
  let ?k2 = "set_edges k remove node es2"
  note tr = table_readyD[OF wf node] table_readyD[OF wf to]
  have t2: "k_table ?k2 node = Inr (w_tables (k_world k) ! node)" "k_table ?k2 to = Inr (w_tables (k_world k) ! to)"
    using tr(3,6) by (simp_all add: k_table_def)
  have e2: "the_edge es2 j = (if j = i then ?e1 else the_edge ?es j)" for j
    by (simp add: es2(3)) (simp add: the_edge_def es1(3))
  have there: "edge_of es2 i \<noteq> None" using es2(4) es1(3) by simp
  have step: "init_edge k remove node i to =
     (if node \<noteq> to \<or> table_has (w_tables (k_world k) ! node) EcsTableHasDontFragment then
       res_bind (flecs_compute_table_diff ?k2 node to i remove) (\<lambda>(k, diff).
       res_bind (k_edge k remove node i) (\<lambda>edge.
       k_edge_set k remove node i (edge\<lparr>ge_diff := diff\<rparr>)))
     else Inr ?k2)"
    using nn t2(1) by (simp add: init_edge_def s1 edges_at_ok es2(1) k_table_def)
  show thesis
  proof (cases "node \<noteq> to \<or> table_has (w_tables (k_world k) ! node) EcsTableHasDontFragment")
    case False
    have "edges_ok (k_index k) (k_types k) remove node es2"
      by (rule edges_ok_update[OF ok(2) es2(2) e2]) (use False to ty in \<open>simp add: edge_ok_def\<close>)
    then show thesis using False step there es1(4) es2(5) by (intro result[of es2]) (simp_all add: e2)
  next
    case True
    have ready: "type_ready (k_index k) (t_type (w_tables (k_world k) ! node))" "type_ready (k_index k) (t_type (w_tables (k_world k) ! to))"
      using tr(2,5) node to by (simp_all add: k_types_nth)
    have "in_tables ?k2 i" using i in_tables_frame[of ?k2 k i] by simp
    then obtain d where d: "flecs_compute_table_diff ?k2 node to i remove = Inr (?k2, d)"
      "diff_of (t_type (w_tables (k_world k) ! node)) (t_type (w_tables (k_world k) ! to)) i d"
      using table_diff_ok[OF t2 type_readyD(7)[OF ready(1)] type_readyD(7)[OF ready(2)], of i remove]
        type_readyD(2)[OF ready(1)] type_readyD(2)[OF ready(2)] by auto
    obtain es3 where es3: "edge_write es2 i (?e1\<lparr>ge_diff := d\<rparr>) = Inr es3" "edges_wf es3"
      "edge_of es3 = (edge_of es2)(i \<mapsto> ?e1\<lparr>ge_diff := d\<rparr>)" "edges_count es3 = edges_count es2" by (rule edge_write_ok[OF es2(2) there])
    have rd: "edge_read es2 i = Inr ?e1" using edge_read_ok[OF es2(2) there] by (simp add: e2)
    have e3: "the_edge es3 j = (if j = i then ?e1\<lparr>ge_diff := d\<rparr> else the_edge ?es j)" for j
      using e2[of j] by (simp add: the_edge_def es3(3))
    have "init_edge k remove node i to = Inr (set_edges k remove node es3)"
      using True nn unfolding step by (simp add: d(1) k_edge_def k_edge_set_def edges_at_ok rd es3(1)[simplified])
    moreover have "edges_ok (k_index k) (k_types k) remove node es3"
      by (rule edges_ok_update[OF ok(2) es3(2) e3]) (use to ty d(2) node in \<open>simp add: edge_ok_def k_types_nth\<close>)
    ultimately show thesis using es1(4) es2(5) es3(4) by (intro result[of es3]) (simp_all add: e3 es3(3))
  qed
qed

section \<open>Following an edge\<close>

text \<open>What an id has to be so that it can be added to or removed from entities of a table.\<close>

definition change_ready :: "('v::zero) kernel \<Rightarrow> bool \<Rightarrow> u64 list \<Rightarrow> u64 \<Rightarrow> bool" where
  "change_ready k remove ids i \<longleftrightarrow> (if remove then remove_ready k i else add_ready k ids i)"

definition create_edge where
  "create_edge remove = (if remove then flecs_create_edge_for_remove else flecs_create_edge_for_add)"

lemma change_readyD:
  assumes "change_ready k remove ids i"
  shows "in_tables k i" "i \<noteq> 0"
  using assms by (auto simp: change_ready_def remove_ready_def add_ready_def type_add_ready_def split: if_splits)

lemma change_ready_frame:
  assumes "k_index k' = k_index k" "w_index (k_world k') = w_index (k_world k)" "k_non_trivial k' = k_non_trivial k"
  shows "change_ready k' remove ids i = change_ready k remove ids i"
  using assms in_tables_frame[OF assms]
  by (simp add: change_ready_def remove_ready_def add_ready_def ecs_make_alive_id_def)

lemma create_edge_ok:
  assumes wf: "kernel_wf k" and node: "node < length (w_tables (k_world k))" and i: "change_ready k remove (k_types k ! node) i"
    and es: "edge_of (edges_at k remove node) i \<noteq> None" "the_edge (edges_at k remove node) i = zero_edge"
      "edges_count (edges_at k remove node) + 1 < 2 ^ 26"
    and room: "length (w_tables (k_world k)) < 2 ^ 26 - 1"
  obtains k' es' to where "create_edge remove k node i = Inr (set_edges k' remove node es', to)" "kernel_wf k'" "k_grown k k'"
    "edges_ok (k_index k') (k_types k') remove node es'" "edge_of es' i \<noteq> None" "ge_to (the_edge es' i) = Some to"
    "entity_view (k_world k') = entity_view (k_world k)" "edges_count es' \<le> edges_count (edges_at k remove node) + 1"
proof -
  note result = that
  let ?find = "if remove then flecs_find_table_without k node i else flecs_find_table_with k node i"
  obtain k' to where f: "?find = Inr (k', to)" "kernel_wf k'" "k_grown k k'"
    "to < length (w_tables (k_world k'))" "k_types k' ! to = type_change (k_index k) remove (k_types k ! node) i"
    "entity_view (k_world k') = entity_view (k_world k)"
  proof (cases remove)
    case True
    then have "remove_ready k i" using i by (simp add: change_ready_def)
    then obtain k' t where x: "flecs_find_table_without k node i = Inr (k', t)" "kernel_wf k'" "k_grown k k'"
      "t < length (w_tables (k_world k'))" "k_types k' ! t = type_change (k_index k) True (k_types k ! node) i"
      "entity_view (k_world k') = entity_view (k_world k)" by (rule find_table_without_ok[OF wf node _ room])
    show thesis using that[of k' t] x True by simp
  next
    case False
    then have "add_ready k (k_types k ! node) i" using i by (simp add: change_ready_def)
    then obtain k' t where x: "flecs_find_table_with k node i = Inr (k', t)" "kernel_wf k'" "k_grown k k'"
      "t < length (w_tables (k_world k'))" "k_types k' ! t = type_change (k_index k) False (k_types k ! node) i"
      "entity_view (k_world k') = entity_view (k_world k)" by (rule find_table_with_ok[OF wf node _ room])
    show thesis using that[of k' t] x False by simp
  qed
  note ext = k_extendsD[OF k_extends_same(4)[OF f(3)]]
  have node': "node < length (w_tables (k_world k'))" using node ext(4) by simp
  have nn: "node < length (k_nodes k)" using node kernel_wfD(9)[OF wf] by simp
  have at: "edges_at k' remove node = edges_at k remove node" using f(3) nn by (auto simp: k_grown_def edges_at_def nth_append)
  have i': "in_tables k' i" using change_readyD(1)[OF i] in_tables_frame[OF ext(1-3)] by simp
  have ty: "k_types k' ! to = type_change (k_index k') remove (k_types k' ! node) i"
    using f(5) by (simp add: ext(1) ext(6)[OF node])
  obtain es' where e: "init_edge k' remove node i to = Inr (set_edges k' remove node es')"
    "edges_ok (k_index k') (k_types k') remove node es'" "edge_of es' i \<noteq> None" "ge_to (the_edge es' i) = Some to"
    "edges_count es' \<le> edges_count (edges_at k' remove node) + 1"
    by (rule init_edge_ok[OF f(2) node' f(4) es[folded at] i' ty])
  have "create_edge remove k node i = Inr (set_edges k' remove node es', to)"
    using f(1) e(1) by (cases remove) (simp_all add: create_edge_def flecs_create_edge_for_remove_def flecs_create_edge_for_add_def
        flecs_init_edge_for_add_def flecs_init_edge_for_remove_def)
  then show thesis using f e unfolding at by (intro result[of k' es' to])
qed

text \<open>An edge without a stored difference changes exactly the id that it is for.\<close>

lemma single_id:
  assumes "x \<in> set xs" "length xs \<le> 1"
  shows "xs = [x]"
  using assms by (cases xs) auto

lemma plain_change:
  assumes r: "type_ready ci ids" "change_ready k remove ids i" "ci = k_index k"
    and d: "diff_of ids ids' i None" "ids' = type_change ci remove ids i" "ids' \<noteq> ids"
  shows "filter (\<lambda>x. x \<notin> set ids) ids' = (if remove then [] else [i])"
    "filter (\<lambda>x. x \<notin> set ids') ids = (if remove then [i] else [])"
proof -
  have l: "length (filter (\<lambda>x. x \<notin> set ids) ids') + length (filter (\<lambda>x. x \<notin> set ids') ids) \<le> 1" "\<not> ecs_id_is_wildcard i"
    using d(1) by (simp_all add: diff_of_def)
  have "filter (\<lambda>x. x \<notin> set ids) ids' = (if remove then [] else [i]) \<and> filter (\<lambda>x. x \<notin> set ids') ids = (if remove then [i] else [])"
  proof (cases remove)
    case True
    then have e: "ids' = filter (\<lambda>x. \<not> id_matches x i) ids" "pattern_ok i"
      using d(2) r(2) by (simp_all add: type_change_def change_ready_def remove_ready_def)
    obtain x where x: "x \<in> set ids" "id_matches x i" using e(1) d(3) by (auto simp: filter_id_conv)
    have p: "plain_id x" "plain_id i" using type_readyD(8)[OF r(1) x(1)] e(2) by (simp_all add: table_id_def pattern_ok_def)
    have "x = i" by (rule unique_match[OF e(2) l(2) p x(2) id_matches_self])
    then have "i \<in> set (filter (\<lambda>x. x \<notin> set ids') ids)" using x e(1) by simp
    from single_id[OF this] have "filter (\<lambda>x. x \<notin> set ids') ids = [i]" using l(1) by simp
    moreover have "filter (\<lambda>x. x \<notin> set ids) ids' = []" by (simp add: e(1) filter_empty_conv)
    ultimately show ?thesis using True by simp
  next
    case False
    have "i \<notin> set ids" using type_change_present[OF r(1)] d(2,3) False by auto
    moreover have "i \<in> set ids'" using type_change_add_set(1)[OF r(1), of i] d(2) False by auto
    ultimately have m: "i \<in> set (filter (\<lambda>x. x \<notin> set ids) ids')" by simp
    from single_id[OF this] have a: "filter (\<lambda>x. x \<notin> set ids) ids' = [i]" using l(1) by simp
    then have "filter (\<lambda>x. x \<notin> set ids') ids = []" using l(1) by simp
    then show ?thesis using False a by simp
  qed
  then show "filter (\<lambda>x. x \<notin> set ids) ids' = (if remove then [] else [i])"
    "filter (\<lambda>x. x \<notin> set ids') ids = (if remove then [i] else [])" by blast+
qed

definition traverse_edge where
  "traverse_edge remove = (if remove then flecs_table_traverse_remove else flecs_table_traverse_add)"

lemma traverse_edge_eq:
  "traverse_edge remove k node i diff = traverse (create_edge remove) remove
     (diff\<lparr>td_added := (if remove then [] else [i]), td_removed := (if remove then [i] else [])\<rparr>) k node i diff"
  by (cases remove) (simp_all add: traverse_edge_def create_edge_def flecs_table_traverse_remove_def flecs_table_traverse_add_def)

lemma traverse_ok:
  assumes wf: "kernel_wf k" and node: "node < length (w_tables (k_world k))" and i: "change_ready k remove (k_types k ! node) i"
    and room: "length (w_tables (k_world k)) < 2 ^ 26 - 1" "edges_count (edges_at k remove node) + 2 < 2 ^ 26"
  obtains k' to d where "traverse_edge remove k node i ECS_TABLE_DIFF_INIT = Inr (k', to, d)" "kernel_wf k'" "k_extends k k'"
    "to < length (w_tables (k_world k'))" "k_types k' ! to = type_change (k_index k) remove (k_types k ! node) i"
    "td_added d = filter (\<lambda>x. x \<notin> set (k_types k ! node)) (k_types k' ! to)"
    "td_removed d = filter (\<lambda>x. x \<notin> set (k_types k' ! to)) (k_types k ! node)"
    "entity_view (k_world k') = entity_view (k_world k)" "\<forall>n. edge_load k n \<longrightarrow> edge_load k' (n + 2)"
proof -
  note result = that
  have nn: "node < length (k_nodes k)" using node kernel_wfD(9)[OF wf] by simp
  let ?es = "edges_at k remove node"
  have ok: "edges_wf ?es" "\<And>j. edge_ok (k_index k) (k_types k) remove node j (the_edge ?es j)"
    using edges_at_wf[OF wf node, of remove] by (simp_all add: edges_ok_def)
  obtain es1 where es1: "flecs_table_ensure_edge ?es i = Inr es1" "edges_wf es1" "the_edge es1 = the_edge ?es"
    "edge_of es1 i \<noteq> None" "edges_count es1 \<le> edges_count ?es + 1"
    by (rule ensure_edge_ok[OF ok(1), of i]) (use room(2) in auto)
  let ?k1 = "set_edges k remove node es1"
  have wf1: "kernel_wf ?k1" by (rule set_edges_wf[OF wf node]) (use ok(2) es1(2,3) in \<open>simp add: edges_ok_def\<close>)
  have at1: "edges_at ?k1 remove node = es1" using edges_at_ok(3)[OF nn] .
  have load1: "edge_load ?k1 (n + 1)" if "edge_load k n" for n
  proof (rule edge_load_set[OF edge_load_mono[OF that]])
    have "edges_count ?es \<le> n" using that nn by (simp add: edge_load_def)
    then show "edges_count es1 \<le> n + 1" using es1(5) by simp
  qed simp
  text \<open>The edge that is there or gets created.\<close>
  obtain k2 es2 to where e: "(case ge_to (the_edge es1 i) of Some to \<Rightarrow> Inr (?k1, to) | None \<Rightarrow> create_edge remove ?k1 node i) = Inr (k2, to)"
    "kernel_wf k2" "k_extends k k2" "edges_at k2 remove node = es2" "edges_ok (k_index k2) (k_types k2) remove node es2"
    "edge_of es2 i \<noteq> None" "ge_to (the_edge es2 i) = Some to" "entity_view (k_world k2) = entity_view (k_world k)"
    "\<forall>n. edge_load k n \<longrightarrow> edge_load k2 (n + 2)"
  proof (cases "ge_to (the_edge es1 i)")
    case (Some to)
    have "edges_ok (k_index k) (k_types k) remove node es1" using es1(2,3) ok(2) by (simp add: edges_ok_def)
    moreover have "\<forall>n. edge_load k n \<longrightarrow> edge_load ?k1 (n + 2)" using edge_load_mono[OF load1] by simp
    ultimately show thesis using Some wf1 at1 es1(4) by (intro that[of ?k1 to es1]) (simp_all add: k_extends_same)
  next
    case None
    have z: "the_edge es1 i = zero_edge" using ok(2)[of i] None by (simp add: es1(3) edge_ok_def)
    have i1: "change_ready ?k1 remove (k_types ?k1 ! node) i" using i by (simp add: change_ready_frame[of ?k1 k])
    have cnt: "edges_count es1 + 1 < 2 ^ 26" using es1(5) room(2) by simp
    obtain k' es' to where c: "create_edge remove ?k1 node i = Inr (set_edges k' remove node es', to)" "kernel_wf k'" "k_grown ?k1 k'"
      "edges_ok (k_index k') (k_types k') remove node es'" "edge_of es' i \<noteq> None" "ge_to (the_edge es' i) = Some to"
      "entity_view (k_world k') = entity_view (k_world ?k1)" "edges_count es' \<le> edges_count (edges_at ?k1 remove node) + 1"
      by (rule create_edge_ok[OF wf1 _ i1]) (use node es1(4) z cnt at1 room(1) in auto)
    have x: "k_extends k k'" by (rule k_extends_same(5)[OF c(3)])
    have node': "node < length (w_tables (k_world k'))" using node k_extendsD(4)[OF x] by simp
    then have nn': "node < length (k_nodes k')" using kernel_wfD(9)[OF c(2)] by simp
    have "edge_load (set_edges k' remove node es') (n + 2)" if l: "edge_load k n" for n
    proof (rule edge_load_set)
      show "edge_load k' (n + 2)" using edge_load_mono[OF edge_load_grown[OF c(3) load1[OF l]]] by simp
      have "edges_count ?es \<le> n" using l nn by (simp add: edge_load_def)
      then show "edges_count es' \<le> n + 2" using c(8) es1(5) by (simp add: at1)
    qed
    then show thesis
      using c None x set_edges_wf[OF c(2) node' c(4)] edges_at_ok(3)[OF nn']
      by (intro that[of "set_edges k' remove node es'" to es']) (simp_all add: k_extends_same)
  qed
  note ext = k_extendsD[OF e(3)]
  have node2: "node < length (w_tables (k_world k2))" using node ext(4) by simp
  then have nn2: "node < length (k_nodes k2)" using kernel_wfD(9)[OF e(2)] by simp
  have wf2: "edges_wf es2" and ok2: "edge_ok (k_index k2) (k_types k2) remove node i (the_edge es2 i)"
    using e(5) by (simp_all add: edges_ok_def)
  let ?d = "ge_diff (the_edge es2 i)" and ?a = "k_types k ! node"
  have dst: "to < length (w_tables (k_world k2))" "k_types k2 ! to = type_change (k_index k) remove ?a i"
    "node \<noteq> to \<or> ?d \<noteq> None \<longrightarrow> diff_of ?a (k_types k2 ! to) i ?d"
    using ok2[unfolded edge_ok_def e(7) option.case ext(1) ext(6)[OF node]] unfolding k_types_length by blast+
  let ?single = "ECS_TABLE_DIFF_INIT\<lparr>td_added := (if remove then [] else [i]), td_removed := (if remove then [i] else [])\<rparr>"
  define d where "d = (if node \<noteq> to \<or> ?d \<noteq> None then (case ?d of Some d \<Rightarrow> d | None \<Rightarrow> ?single) else ECS_TABLE_DIFF_INIT)"
  have run: "traverse_edge remove k node i ECS_TABLE_DIFF_INIT = Inr (k2, to, d)"
    using change_readyD(2)[OF i] e(1,7) edge_read_ok[OF wf2 e(6)] edge_read_ok[OF es1(2,4)]
    by (simp add: traverse_edge_eq traverse_def edges_at_ok[OF nn] es1(1) k_edge_def edges_at_ok(1)[OF nn2] e(4) d_def at1
        edges_at_ok(1)[of node ?k1, simplified, OF nn])
  have "td_added d = filter (\<lambda>x. x \<notin> set ?a) (k_types k2 ! to) \<and> td_removed d = filter (\<lambda>x. x \<notin> set (k_types k2 ! to)) ?a"
  proof (cases ?d)
    case (Some d')
    then show ?thesis using dst(3) by (simp add: d_def diff_of_def)
  next
    case None
    show ?thesis
    proof (cases "node = to")
      case True
      then have "k_types k2 ! to = ?a" using ext(6)[OF node] by simp
      then show ?thesis using True None by (simp add: d_def ECS_TABLE_DIFF_INIT_def filter_empty_conv)
    next
      case False
      have ne: "k_types k2 ! to \<noteq> ?a"
        using False kernel_wfD(5)[OF e(2)] node2 dst(1) by (simp add: ext(6)[OF node, symmetric] nth_eq_iff_index_eq)
      have df: "diff_of ?a (k_types k2 ! to) i None" using dst(3) False None by simp
      show ?thesis using plain_change[OF table_readyD(2)[OF wf node] i refl df dst(2) ne] False None by (simp add: d_def)
    qed
  qed
  then show thesis using run e dst by (intro result[of k2 to d]) simp_all
qed

end
