(* ===== verification/Kernel_Ops.thy ===== *)
theory Kernel_Ops
  imports Kernel_Edges
begin

text \<open>
  Adding an id to an entity, removing one, asking for one and reading a component, on the views of
  the entities: what ecs\_add\_id, ecs\_remove\_id, ecs\_has\_id and ecs\_get\_id promise.
\<close>

section \<open>A live entity\<close>

lemma live_entity:
  assumes wf: "kernel_wf k" and v: "entity_view (k_world k) e = Some v"
  obtains r t row where "w_record (k_world k) e = Inr r" "flecs_entity_index_get (w_index (k_world k)) e = Inr r"
    "r_table r = Some t" "ECS_RECORD_TO_ROW (r_row r) = row" "t < length (w_tables (k_world k))"
    "row < t_count (w_tables (k_world k) ! t)" "v = row_view (w_tables (k_world k) ! t) row" "vw_type v = k_types k ! t"
    "flecs_entity_index_is_alive (w_index (k_world k)) e = Inr True" "e \<in> ei_live (w_index (k_world k))"
    "place (w_index (k_world k)) (low_index e) = Some (t, row)" "table_shape (w_tables (k_world k) ! t)"
proof -
  let ?w = "k_world k"
  have ww: "world_wf ?w" by (rule kernel_wfD(1)[OF wf])
  then have ix: "index_ok (w_index ?w) (w_tables ?w)" and ok: "tables_ok (w_tables ?w)" by (simp_all add: world_wf_def)
  have e: "e \<in> ei_live (w_index ?w)" using v by (simp add: entity_view_def split: if_splits)
  obtain t row where p: "place (w_index ?w) (low_index e) = Some (t, row)" "row_of (w_tables ?w) (t, row) = Some e"
    using index_okD(5)[OF ix e] by auto
  obtain r where r: "rec_get (w_index ?w) e = Inr r" "flecs_entity_index_get (w_index ?w) e = Inr r"
    "erow (w_index ?w) (low_index e) = (r_table r, r_row r)"
    using live_record[OF index_okD(1)[OF ix] e] by metis
  have t: "t < length (w_tables ?w)" "row < t_count (w_tables ?w ! t)" using p(2) by (simp_all add: row_of_Some)
  have vv: "v = row_view (w_tables ?w ! t) row" using v e p(1) by (simp add: entity_view_def)
  have ei: "ei_wf (w_index ?w)" using index_okD(1)[OF ix] by (simp add: ei_alloc_wf_def)
  have "table_shape (w_tables ?w ! t)" using ok t(1) by (simp add: tables_ok_def table_wf_def)
  then show thesis
    using r p(1) t vv e ei_live_alive[OF ei, of e]
    by (intro that[of r t row]) (auto simp: w_record_def place_def row_view_def k_types_nth)
qed

section \<open>Moving an entity to the table of its new type\<close>

lemma commit_kernel_wf:
  assumes wf: "kernel_wf k" and w: "world_wf w'" "same_frame (k_world k) w'" "row_flags (w_index w') = row_flags (w_index (k_world k))"
  shows "kernel_wf (k\<lparr>k_world := w'\<rparr>)" "k_types (k\<lparr>k_world := w'\<rparr>) = k_types k"
proof -
  note d = kernel_wfD[OF wf]
  have l: "list_all2 same_table (w_tables (k_world k)) (w_tables w')" using w(2) by (simp add: same_frame_def same_tables_def)
  have "map t_type (w_tables w') = map t_type (w_tables (k_world k))"
    using l by (induction rule: list_all2_induct) (simp_all add: same_table_def)
  then show ty: "k_types (k\<lparr>k_world := w'\<rparr>) = k_types k" by (simp add: k_types_def)
  have fl: "\<forall>n. row_flags (w_index w') n AND EcsEntityIsTraversable = 0"
    using d(2) w(3) by (simp add: plain_world_def)
  have "list_all2 (table_ready (k_index k)) (w_tables w') (k_meta k)"
    unfolding list_all2_conv_all_nth
  proof (intro conjI allI impI)
    show n: "length (w_tables w') = length (k_meta k)" using list_all2_lengthD[OF l] d(8) by simp
    fix j assume j: "j < length (w_tables w')"
    then have j': "j < length (w_tables (k_world k))" using list_all2_lengthD[OF l] by simp
    have s: "same_table (w_tables (k_world k) ! j) (w_tables w' ! j)" using list_all2_nthD[OF l j'] .
    show "table_ready (k_index k) (w_tables w' ! j) (k_meta k ! j)"
      using list_all2_nthD[OF d(3) j'] same_tableD(1)[OF s] same_table_ids(1)[OF s] same_table_col_types(1)[OF s]
      by (simp add: table_ready_def)
  qed
  then show "kernel_wf (k\<lparr>k_world := w'\<rparr>)"
    using d(4-7) w(1) plain_frame[OF d(2) w(2) fl] unfolding kernel_wf_def ty by simp
qed

text \<open>
  How the view of an entity follows its type: it has the components of the type that store data,
  keeps the values and toggles that it had, and new ones are as the constructor leaves them.
\<close>

definition view_follows :: "('v::zero) component_index \<Rightarrow> 'v entity_view \<Rightarrow> 'v entity_view \<Rightarrow> bool" where
  "view_follows ci v v' \<longleftrightarrow> dom (vw_comps v') = {c \<in> set (vw_type v'). id_column ci c \<noteq> None}
     \<and> (\<forall>c x. vw_comps v' c = Some x \<longrightarrow>
          (case vw_comps v c of Some y \<Rightarrow> x = y | None \<Rightarrow> fresh_value (the (id_column ci c)) x))
     \<and> vw_bits v' = (\<lambda>i. if i \<in> set (toggles (vw_type v')) then Some (case vw_bits v i of Some b \<Rightarrow> b | None \<Rightarrow> False) else None)"

lemma ready_columns:
  assumes "table_ready ci t m"
  shows "set (col_ids t) = {c \<in> set (t_type t). id_column ci c \<noteq> None}"
    "\<And>c. c \<in> set (col_ids t) \<Longrightarrow> (c, the (id_column ci c)) \<in> set (col_types t)"
  using assms by (auto simp: table_ready_def data_ids_def)

lemma view_follows_moved:
  assumes "table_ready ci t m" "view_moved t v v'"
  shows "view_follows ci v v'" "vw_type v' = t_type t"
proof -
  have m: "vw_type v' = t_type t" "dom (vw_comps v') = set (col_ids t)"
    "\<And>p. p \<in> set (col_types t) \<Longrightarrow> \<exists>x. vw_comps v' (fst p) = Some x
        \<and> (case vw_comps v (fst p) of Some y \<Rightarrow> x = y | None \<Rightarrow> fresh_value (snd p) x)"
    "vw_bits v' = (\<lambda>i. if i \<in> set (toggles (t_type t)) then Some (case vw_bits v i of Some b \<Rightarrow> b | None \<Rightarrow> False) else None)"
    using assms(2) unfolding view_moved_def by blast+
  have "case vw_comps v c of Some y \<Rightarrow> x = y | None \<Rightarrow> fresh_value (the (id_column ci c)) x" if "vw_comps v' c = Some x" for c x
  proof -
    have "c \<in> set (col_ids t)" using that m(2) by blast
    from m(3)[OF ready_columns(2)[OF assms(1) this]] show ?thesis using that by (simp split: option.splits)
  qed
  then show "view_follows ci v v'" using m ready_columns(1)[OF assms(1)] by (simp add: view_follows_def)
  show "vw_type v' = t_type t" by (rule m(1))
qed

lemma view_follows_self:
  assumes "table_ready ci t m" "table_shape t"
  shows "view_follows ci (row_view t row) (row_view t row)"
proof -
  have "vw_bits (row_view t row) i = (if i \<in> set (toggles (t_type t))
      then Some (case vw_bits (row_view t row) i of Some b \<Rightarrow> b | None \<Rightarrow> False) else None)" for i
  proof (cases "i \<in> set (toggles (t_type t))")
    case True
    then obtain k where "k < length (t_bs_columns t)" "i = toggles (t_type t) ! k"
      using bits_length[OF assms(2)] by (auto simp: in_set_conv_nth)
    then show ?thesis using True view_bit[OF assms(2)] by simp
  qed (simp add: view_no_bit)
  moreover have "vw_type (row_view t row) = t_type t" by (simp add: row_view_def)
  ultimately show ?thesis using ready_columns(1)[OF assms(1)] by (simp add: view_follows_def)
qed

text \<open>
  A bound on tables, edges and live entities. Every operation needs room for one more table and two
  more edges.
\<close>

definition kernel_size :: "('v::zero) kernel \<Rightarrow> nat \<Rightarrow> bool" where
  "kernel_size k n \<longleftrightarrow> length (w_tables (k_world k)) \<le> n \<and> edge_load k n
     \<and> card (ei_live (w_index (k_world k))) < 2 ^ 28"

lemma rows_live:
  assumes wf: "world_wf w" and t: "t < length (w_tables w)"
  shows "t_count (w_tables w ! t) \<le> card (ei_live (w_index w))"
proof -
  have ix: "index_ok (w_index w) (w_tables w)" and ok: "tables_ok (w_tables w)" using wf by (simp_all add: world_wf_def)
  let ?t = "w_tables w ! t"
  define f where "f row = the (t_entities ?t ! row)" for row
  have "table_shape ?t" using ok t by (simp add: tables_ok_def table_wf_def)
  from table_shapeD(2)[OF this] have r: "row_of (w_tables w) (t, row) = Some (f row)" if "row < t_count ?t" for row
    unfolding row_of_Some f_def using that t option.exhaust_sel by blast
  have live: "f row \<in> ei_live (w_index w)" "place (w_index w) (low_index (f row)) = Some (t, row)" if "row < t_count ?t" for row
    using index_okD(2)[OF ix] r[OF that] unfolding consistent_def by blast+
  have "inj_on f {..<t_count ?t}"
  proof (rule inj_onI)
    fix a b assume "a \<in> {..<t_count ?t}" "b \<in> {..<t_count ?t}" "f a = f b"
    then have "Some (t, a) = Some (t, b)" using live(2) lessThan_iff by metis
    then show "a = b" by simp
  qed
  moreover have fin: "finite (ei_live (w_index w))" using card_ei_live(1) index_okD(1)[OF ix] by (simp add: ei_alloc_wf_def)
  moreover have "f ` {..<t_count ?t} \<subseteq> ei_live (w_index w)" using live(1) by (intro image_subsetI) (simp only: lessThan_iff)
  ultimately show ?thesis using card_inj_on_le[of f "{..<t_count ?t}" "ei_live (w_index w)"] fin by simp
qed

lemma edges_at_world: "edges_at (k\<lparr>k_world := w\<rparr>) remove node = edges_at k remove node"
  by (simp add: edges_at_def)

lemma change_id_ok:
  assumes wf: "kernel_wf k" and v: "entity_view (k_world k) e = Some v" and i: "change_ready k remove (vw_type v) i"
    and size: "kernel_size k n" "n < 2 ^ 26 - 2"
  obtains k' d evs v' where "change_id (traverse_edge remove) k e i = Inr (k', d, evs)" "kernel_wf k'"
    "k_index k' = k_index k" "entity_view (k_world k') = (entity_view (k_world k))(e \<mapsto> v')"
    "vw_type v' = type_change (k_index k) remove (vw_type v) i" "view_follows (k_index k) v v'"
    "td_added d = filter (\<lambda>x. x \<notin> set (vw_type v)) (vw_type v')" "td_removed d = filter (\<lambda>x. x \<notin> set (vw_type v')) (vw_type v)"
    "kernel_size k' (n + 2)" "ei_live (w_index (k_world k')) = ei_live (w_index (k_world k))" "k_non_trivial k' = k_non_trivial k"
proof -
  note result = that
  obtain r t row where l: "w_record (k_world k) e = Inr r" "flecs_entity_index_get (w_index (k_world k)) e = Inr r"
    "r_table r = Some t" "ECS_RECORD_TO_ROW (r_row r) = row" "t < length (w_tables (k_world k))"
    "row < t_count (w_tables (k_world k) ! t)" "v = row_view (w_tables (k_world k) ! t) row" "vw_type v = k_types k ! t"
    "flecs_entity_index_is_alive (w_index (k_world k)) e = Inr True" "e \<in> ei_live (w_index (k_world k))"
    "place (w_index (k_world k)) (low_index e) = Some (t, row)" "table_shape (w_tables (k_world k) ! t)"
    by (rule live_entity[OF wf v])
  have few: "length (w_tables (k_world k)) < 2 ^ 26 - 1" "edges_count (edges_at k remove t) + 2 < 2 ^ 26"
  proof -
    have "edges_count (edges_at k remove t) \<le> n" "length (w_tables (k_world k)) \<le> n"
      using size(1) l(5) kernel_wfD(9)[OF wf] by (auto simp: kernel_size_def edge_load_def)
    then show "length (w_tables (k_world k)) < 2 ^ 26 - 1" "edges_count (edges_at k remove t) + 2 < 2 ^ 26" using size(2) by simp_all
  qed
  obtain k1 to d where tr: "traverse_edge remove k t i ECS_TABLE_DIFF_INIT = Inr (k1, to, d)" "kernel_wf k1" "k_extends k k1"
    "to < length (w_tables (k_world k1))" "k_types k1 ! to = type_change (k_index k) remove (k_types k ! t) i"
    "td_added d = filter (\<lambda>x. x \<notin> set (k_types k ! t)) (k_types k1 ! to)"
    "td_removed d = filter (\<lambda>x. x \<notin> set (k_types k1 ! to)) (k_types k ! t)"
    "entity_view (k_world k1) = entity_view (k_world k)" "\<forall>n. edge_load k n \<longrightarrow> edge_load k1 (n + 2)"
    using traverse_ok[OF wf l(5) i[unfolded l(8)] few] by metis
  note ext = k_extendsD[OF tr(3)]
  have cnt: "t_count (w_tables (k_world k1) ! to) < 2 ^ 28"
    using rows_live[OF kernel_wfD(1)[OF tr(2)] tr(4)] size(1) by (simp add: kernel_size_def ext(2))
  have live: "e \<in> ei_live (w_index (k_world k1))" using l(10) by (simp add: ext(2))
  obtain w' evs v' where c: "flecs_commit (k_world k1) e to 0 = Inr (w', evs)" "world_wf w'" "same_frame (k_world k1) w'"
    "row_flags (w_index w') = row_flags (w_index (k_world k1))" "ei_live (w_index w') = ei_live (w_index (k_world k1))"
    "entity_view w' = (entity_view (k_world k1))(e \<mapsto> v')"
    "if fst (the (place (w_index (k_world k1)) (low_index e))) = to then w' = k_world k1 \<and> v' = the (entity_view (k_world k1) e)
     else view_moved (w_tables (k_world k1) ! to) (the (entity_view (k_world k1) e)) v'"
    by (rule flecs_commit_ok[OF kernel_wfD(1,2)[OF tr(2)] live tr(4) cnt]) blast
  have mv: "if t = to then v' = v else view_moved (w_tables (k_world k1) ! to) v v'"
    using c(7) l(11) v tr(8) by (simp add: ext(2) split: if_splits)
  have v': "vw_type v' = k_types k1 ! to \<and> view_follows (k_index k) v v'"
  proof (cases "t = to")
    case True
    then have "v' = v" using mv by simp
    then show ?thesis
      using True l(8) ext(6)[OF l(5)] view_follows_self[OF table_readyD(1)[OF wf l(5)] l(12), of row] l(7) by simp
  next
    case False
    then show ?thesis
      using mv view_follows_moved[OF table_readyD(1)[OF tr(2,4)], of v v'] ext(1) k_types_nth[OF tr(4)] by simp
  qed
  show thesis
  proof (rule result)
    show "change_id (traverse_edge remove) k e i = Inr (k1\<lparr>k_world := w'\<rparr>, d, evs)"
      using l(1-3) tr(1) c(1) by (simp add: change_id_def k_commit_def)
    show "kernel_wf (k1\<lparr>k_world := w'\<rparr>)" by (rule commit_kernel_wf(1)[OF tr(2) c(2-4)])
    show "entity_view (k_world (k1\<lparr>k_world := w'\<rparr>)) = (entity_view (k_world k))(e \<mapsto> v')" using c(6) tr(8) by simp
    have "length (w_tables w') = length (w_tables (k_world k1))"
      using c(3) by (auto simp: same_frame_def same_tables_def dest: list_all2_lengthD)
    then have n: "length (w_tables w') \<le> n + 2" using ext(5) size(1) by (simp add: kernel_size_def)
    have "edge_load k1 (n + 2)" using tr(9) size(1) by (simp add: kernel_size_def)
    then have "edge_load (k1\<lparr>k_world := w'\<rparr>) (n + 2)" by (simp add: edge_load_def edges_at_world)
    then show "kernel_size (k1\<lparr>k_world := w'\<rparr>) (n + 2)" using n size(1) c(5) by (simp add: kernel_size_def ext(2))
  qed (use v' tr(5-7) l(8) ext(1-3) c(5) in simp_all)
qed

section \<open>Looking up an id in a table\<close>

lemma find_id:
  assumes r: "type_ready ci ids" and m: "meta_ok ci ids m" and i: "table_id i"
    and h: "\<forall>x\<in>set ids. flecs_component_hash x = flecs_component_hash i \<longrightarrow> x = i"
  shows "case find (\<lambda>tr. tr_cr tr = flecs_component_hash i) (tm_records m) of
      None \<Rightarrow> i \<notin> set ids
    | Some tr \<Rightarrow> \<exists>j<length ids. ids ! j = i \<and> tr_column tr = (if id_column ci i = None then -1 else int (length (data_ids ci (take j ids))))"
proof -
  note d = type_readyD[OF r]
  have col: "\<And>j. j < length ids \<Longrightarrow> tr_column (tm_records m ! j) = (if id_column ci (ids ! j) = None then -1 else int (length (data_ids ci (take j ids))))"
    using m by (simp add: meta_ok_def)
  obtain hc trs where t: "table_records ci hc ids = Inr trs" "same_records trs (tm_records m)" "take (length ids) trs = base_list ids"
    "length ids \<le> length trs" using m by (auto simp: meta_ok_def)
  have cr: "map tr_cr (tm_records m) = map tr_cr trs" using t(2) by (simp add: same_records_def)
  have base: "tr_cr (tm_records m ! j) = flecs_component_hash (ids ! j)" "j < length (tm_records m)" if j: "j < length ids" for j
  proof -
    show l: "j < length (tm_records m)" using j t(4) map_eq_imp_length_eq[OF cr] by simp
    have "tr_cr (tm_records m ! j) = tr_cr (take (length ids) trs ! j)" using arg_cong[OF cr, of "\<lambda>l. l ! j"] j l t(4) by simp
    then show "tr_cr (tm_records m ! j) = flecs_component_hash (ids ! j)" using j by (simp add: t(3) base_list_def new_record_def)
  qed
  show ?thesis
  proof (cases "i \<in> set ids")
    case False
    have "\<forall>tr\<in>set trs. tr_cr tr \<noteq> flecs_component_hash i"
      using table_record_class(1)[OF d(1,2) t(1)] hash_id(2)[OF i] h False by metis
    then have "find (\<lambda>tr. tr_cr tr = flecs_component_hash i) (tm_records m) = None" by (simp add: find_None_same[OF t(2)])
    then show ?thesis using False by simp
  next
    case True
    then obtain j where j: "j < length ids" "ids ! j = i" by (auto simp: in_set_conv_nth)
    have "distinct ids" using d(7) by (simp add: strict_sorted_iff)
    then have "tr_cr (tm_records m ! j') \<noteq> flecs_component_hash i" if "j' < j" for j'
      using base[of j'] that j h nth_mem[of j' ids] by (auto simp: nth_eq_iff_index_eq)
    then have "find (\<lambda>tr. tr_cr tr = flecs_component_hash i) (tm_records m) = Some (tm_records m ! j)"
      using base[OF j(1)] j(2) by (auto simp: find_Some_iff)
    then show ?thesis using j col[OF j(1)] by auto
  qed
qed

lemma data_ids_position:
  assumes "j < length ids" "id_column ci (ids ! j) \<noteq> None"
  shows "length (data_ids ci (take j ids)) < length (data_ids ci ids)" "data_ids ci ids ! length (data_ids ci (take j ids)) = ids ! j"
proof -
  have "data_ids ci ids = data_ids ci (take j ids) @ ids ! j # data_ids ci (drop (Suc j) ids)"
    using arg_cong[OF id_take_nth_drop[OF assms(1)], of "data_ids ci"] assms(2) by (simp add: data_ids_def)
  then show "length (data_ids ci (take j ids)) < length (data_ids ci ids)" "data_ids ci ids ! length (data_ids ci (take j ids)) = ids ! j"
    by (metis length_append less_add_same_cancel1 length_greater_0_conv list.discI, metis nth_append_length)
qed

lemma column_rank_position:
  assumes "i \<in> set ids" "id_column ci i \<noteq> None"
  shows "column_rank ci ids i < length (data_ids ci ids)" "data_ids ci ids ! column_rank ci ids i = i"
proof -
  have m: "i \<in> set (data_ids ci ids)" using assms by (simp add: data_ids_def)
  show l: "column_rank ci ids i < length (data_ids ci ids)"
    unfolding column_rank_def by (rule takeWhile_shorter[OF m]) simp
  then show "data_ids ci ids ! column_rank ci ids i = i"
    using nth_length_takeWhile[of "\<lambda>j. j \<noteq> i" "data_ids ci ids"] by (simp add: column_rank_def)
qed

text \<open>Which ids can be looked up: those that are not kept outside of the tables.\<close>

definition lookup_ready :: "('v::zero) kernel \<Rightarrow> u64 list \<Rightarrow> u64 \<Rightarrow> bool" where
  "lookup_ready k ids i \<longleftrightarrow> table_id i \<and> i \<noteq> 0 \<and> ECS_PAIR_FIRST i \<noteq> EcsChildOf
     \<and> (\<forall>x\<in>set ids. flecs_component_hash x = flecs_component_hash i \<longrightarrow> x = i)
     \<and> (i < FLECS_HI_COMPONENT_ID \<longrightarrow> unat i < length (k_non_trivial k))
     \<and> (\<forall>cr. flecs_components_get (k_index k) i = Some cr \<longrightarrow> cr_flags cr AND (EcsIdDontFragment OR EcsIdMatchDontFragment OR EcsIdSparse) = 0)"

definition low_trivial :: "'v kernel \<Rightarrow> u64 \<Rightarrow> bool" where
  "low_trivial k i \<longleftrightarrow> i < FLECS_HI_COMPONENT_ID \<and> k_non_trivial k ! unat i = 0"

lemma and_or_zero: "(a :: u32) AND (b OR c) = 0 \<longleftrightarrow> a AND b = 0 \<and> a AND c = 0"
  by (simp add: bit.conj_disj_distrib or_eq_0_iff)

lemma lookup_readyD:
  assumes "lookup_ready k ids i"
  shows "table_id i" "i \<noteq> 0" "ECS_PAIR_FIRST i \<noteq> EcsChildOf"
    "\<forall>x\<in>set ids. flecs_component_hash x = flecs_component_hash i \<longrightarrow> x = i"
    "i < FLECS_HI_COMPONENT_ID \<Longrightarrow> unat i < length (k_non_trivial k)"
    "\<And>cr. flecs_components_get (k_index k) i = Some cr \<Longrightarrow> cr_flags cr AND EcsIdDontFragment = 0
       \<and> cr_flags cr AND EcsIdMatchDontFragment = 0 \<and> cr_flags cr AND EcsIdSparse = 0"
  using assms by (auto simp: lookup_ready_def and_or_zero)

lemma get_table_ok:
  assumes wf: "kernel_wf k" and t: "t < length (w_tables (k_world k))" and i: "lookup_ready k (k_types k ! t) i"
  obtains tr where "flecs_component_get_table k (flecs_component_hash i) t = Inr tr"
    "case tr of None \<Rightarrow> i \<notin> set (k_types k ! t)
     | Some tr \<Rightarrow> \<exists>j<length (k_types k ! t). k_types k ! t ! j = i
         \<and> tr_column tr = (if id_column (k_index k) i = None then -1 else int (length (data_ids (k_index k) (take j (k_types k ! t)))))"
proof -
  have m: "mem_get (k_meta k) t = Inr (k_meta k ! t)" using t kernel_wfD(8)[OF wf] by simp
  have mo: "meta_ok (k_index k) (k_types k ! t) (k_meta k ! t)" using table_readyD(1)[OF wf t] t by (simp add: table_ready_def k_types_nth)
  show thesis
    by (rule that[OF _ find_id[OF table_readyD(2)[OF wf t] mo lookup_readyD(1,4)[OF i]]]) (simp add: flecs_component_get_table_def m)
qed

lemma small_index:
  assumes "kernel_wf k" "t < length (w_tables (k_world k))" "i < FLECS_HI_COMPONENT_ID"
  obtains m c where "mem_get (k_meta k) t = Inr m" "mem_get (tm_component_map m) (unat i) = Inr c"
    "if i \<notin> set (k_types k ! t) then c = 0 else if id_column (k_index k) i = None then c < 0
     else c = int (column_rank (k_index k) (k_types k ! t) i) + 1"
proof -
  have l: "unat i < 256" by (rule low_index_256[OF assms(3)])
  have "meta_ok (k_index k) (k_types k ! t) (k_meta k ! t)"
    using table_readyD(1)[OF assms(1,2)] assms(2) by (simp add: table_ready_def k_types_nth)
  then have m: "length (tm_component_map (k_meta k ! t)) = 256"
    "\<And>v. unat v < 256 \<Longrightarrow> (if v \<notin> set (k_types k ! t) then tm_component_map (k_meta k ! t) ! unat v = 0
         else if id_column (k_index k) v = None then tm_component_map (k_meta k ! t) ! unat v < 0
         else tm_component_map (k_meta k ! t) ! unat v = int (column_rank (k_index k) (k_types k ! t) v) + 1)"
    unfolding meta_ok_def by blast+
  show thesis
    by (rule that[of "k_meta k ! t" "tm_component_map (k_meta k ! t) ! unat i"])
      (use assms(2) kernel_wfD(8)[OF assms(1)] m(1) l m(2)[OF l] in simp_all)
qed

lemma column_index_nonneg: "int n + 1 \<noteq> 0" "0 < int n + 1" "\<not> int n < -1" by simp_all

lemma has_id_ok:
  assumes wf: "kernel_wf k" and v: "entity_view (k_world k) e = Some v" "e \<noteq> 0" and i: "lookup_ready k (vw_type v) i"
  shows "ecs_has_id k e i = Inr (i \<in> set (vw_type v))"
proof -
  obtain r t row where l: "w_record (k_world k) e = Inr r" "flecs_entity_index_get (w_index (k_world k)) e = Inr r"
    "r_table r = Some t" "ECS_RECORD_TO_ROW (r_row r) = row" "t < length (w_tables (k_world k))"
    "row < t_count (w_tables (k_world k) ! t)" "v = row_view (w_tables (k_world k) ! t) row" "vw_type v = k_types k ! t"
    "flecs_entity_index_is_alive (w_index (k_world k)) e = Inr True" "e \<in> ei_live (w_index (k_world k))"
    "place (w_index (k_world k)) (low_index e) = Some (t, row)" "table_shape (w_tables (k_world k) ! t)"
    by (rule live_entity[OF wf v(1)])
  note ir = i[unfolded l(8)]
  note d = lookup_readyD[OF ir]
  have m: "mem_get (k_meta k) t = Inr (k_meta k ! t)" using l(5) kernel_wfD(8)[OF wf] by simp
  obtain nt where nt: "(if i < FLECS_HI_COMPONENT_ID then mem_get (k_non_trivial k) (unat i) else Inr 1) = Inr nt"
    "i < FLECS_HI_COMPONENT_ID \<and> nt = 0 \<longleftrightarrow> low_trivial k i" using d(5) by (cases "i < FLECS_HI_COMPONENT_ID") (auto simp: low_trivial_def)
  note run = ecs_has_id_def assert_entity_valid_def ecs_assert_def l(1,3,9) v(2) d(2) table_readyD(3)[OF wf l(5)] m nt res_bind_simps l(8)
  show ?thesis
  proof (cases "low_trivial k i")
    case True
    then have lo: "i < FLECS_HI_COMPONENT_ID" by (simp add: low_trivial_def)
    show ?thesis
      by (rule small_index[OF wf l(5) lo]) (use True m in \<open>auto simp: run split: if_splits\<close>)
  next
    case False
    obtain tr where tr: "flecs_component_get_table k (flecs_component_hash i) t = Inr tr"
      "case tr of None \<Rightarrow> i \<notin> set (k_types k ! t)
       | Some tr \<Rightarrow> \<exists>j<length (k_types k ! t). k_types k ! t ! j = i
           \<and> tr_column tr = (if id_column (k_index k) i = None then -1 else int (length (data_ids (k_index k) (take j (k_types k ! t)))))"
      by (rule get_table_ok[OF wf l(5) ir])
    have "flecs_components_get (k_index k) i \<noteq> None" if a: "i \<in> set (k_types k ! t)"
      using index_ready_at[OF type_readyD(2)[OF table_readyD(2)[OF wf l(5)]] in_patterns(1)[OF a]] by auto
    then show ?thesis using False tr d(3,6) table_shapeD(8)[OF l(12)]
      by (cases "flecs_components_get (k_index k) i"; cases tr) (auto simp: run and_or_zero)
  qed
qed

text \<open>The pointer to a component: its column and the row of the entity.\<close>

lemma column_pointer:
  assumes wf: "kernel_wf k" and t: "t < length (w_tables (k_world k))" "row < t_count (w_tables (k_world k) ! t)"
    "table_shape (w_tables (k_world k) ! t)"
    and c: "c < length (data_ids (k_index k) (k_types k ! t))" "data_ids (k_index k) (k_types k ! t) ! c = i"
  shows "c < length (t_columns (w_tables (k_world k) ! t))"
    "\<exists>x. vw_comps (row_view (w_tables (k_world k) ! t) row) i = Some x \<and> ptr_read k (t, c, row) = Inr x"
proof -
  let ?t = "w_tables (k_world k) ! t"
  have ids: "col_ids ?t = data_ids (k_index k) (k_types k ! t)"
    using table_readyD(1)[OF wf t(1)] t(1) by (simp add: table_ready_def k_types_nth)
  show l: "c < length (t_columns ?t)" using c(1) arg_cong[OF ids, of length] by simp
  have ok: "tables_ok (w_tables (k_world k))" using kernel_wfD(1)[OF wf] by (simp add: world_wf_def)
  have "length (col_data (t_columns ?t ! c)) = t_size ?t" using table_shapeD(5)[OF t(3)] l by (simp add: col_shape_def)
  moreover have "t_count ?t \<le> t_size ?t" using table_shapeD(9)[OF t(3)] .
  ultimately have "ptr_read k (t, c, row) = Inr (col_data (t_columns ?t ! c) ! row)"
    using t(2) l table_readyD(3)[OF wf t(1)] by (simp add: ptr_read_def)
  moreover have "vw_comps (row_view ?t row) i = Some (col_data (t_columns ?t ! c) ! row)"
    using view_comp[OF t(3) l, of row] c(2) by (simp add: ids)
  ultimately show "\<exists>x. vw_comps (row_view ?t row) i = Some x \<and> ptr_read k (t, c, row) = Inr x" by blast
qed

lemma view_comps_none:
  assumes wf: "kernel_wf k" and t: "t < length (w_tables (k_world k))"
  shows "vw_comps (row_view (w_tables (k_world k) ! t) row) i = None \<longleftrightarrow> i \<notin> set (k_types k ! t) \<or> id_column (k_index k) i = None"
proof -
  have "dom (vw_comps (row_view (w_tables (k_world k) ! t) row)) = {c \<in> set (k_types k ! t). id_column (k_index k) c \<noteq> None}"
    using ready_columns(1)[OF table_readyD(1)[OF wf t]] t by (simp add: k_types_nth)
  from arg_cong[OF this, of "\<lambda>s. i \<in> s"] show ?thesis by (auto simp: dom_def)
qed

definition get_spec :: "('v::zero) kernel \<Rightarrow> 'v entity_view \<Rightarrow> u64 \<Rightarrow> component_ptr option res \<Rightarrow> bool" where
  "get_spec k v i res \<longleftrightarrow> (case vw_comps v i of
      Some x \<Rightarrow> \<exists>p. res = Inr (Some p) \<and> ptr_read k p = Inr x
    | None \<Rightarrow> res = (if i \<in> set (vw_type v) \<and> \<not> low_trivial k i then Inl ECS_INVALID_PARAMETER else Inr None))"

lemma get_id_ok:
  assumes wf: "kernel_wf k" and v: "entity_view (k_world k) e = Some v" "e \<noteq> 0" and i: "lookup_ready k (vw_type v) i" "id_valid k i = Inr True"
  shows "get_spec k v i (ecs_get_id k e i)"
proof -
  obtain r t row where l: "w_record (k_world k) e = Inr r" "flecs_entity_index_get (w_index (k_world k)) e = Inr r"
    "r_table r = Some t" "ECS_RECORD_TO_ROW (r_row r) = row" "t < length (w_tables (k_world k))"
    "row < t_count (w_tables (k_world k) ! t)" "v = row_view (w_tables (k_world k) ! t) row" "vw_type v = k_types k ! t"
    "flecs_entity_index_is_alive (w_index (k_world k)) e = Inr True" "e \<in> ei_live (w_index (k_world k))"
    "place (w_index (k_world k)) (low_index e) = Some (t, row)" "table_shape (w_tables (k_world k) ! t)"
    by (rule live_entity[OF wf v(1)])
  note ir = i(1)[unfolded l(8)]
  note d = lookup_readyD[OF ir]
  let ?ids = "k_types k ! t" and ?ci = "k_index k"
  note none = view_comps_none[OF wf l(5), of row i, folded l(7)]
  note ptr = column_pointer[OF wf l(5,6,12)]
  have m: "mem_get (k_meta k) t = Inr (k_meta k ! t)" using l(5) kernel_wfD(8)[OF wf] by simp
  obtain nt where nt: "(if i < FLECS_HI_COMPONENT_ID then mem_get (k_non_trivial k) (unat i) else Inr 1) = Inr nt"
    "i < FLECS_HI_COMPONENT_ID \<and> nt = 0 \<longleftrightarrow> low_trivial k i" using d(5) by (cases "i < FLECS_HI_COMPONENT_ID") (auto simp: low_trivial_def)
  note run = ecs_get_id_def assert_entity_valid_def ecs_assert_def l(2-4,9) v(2) i(2) table_readyD(3)[OF wf l(5)] m nt res_bind_simps Let_def
  show ?thesis
  proof (cases "low_trivial k i")
    case True
    then have lo: "i < FLECS_HI_COMPONENT_ID" by (simp add: low_trivial_def)
    obtain m c where mc: "mem_get (k_meta k) t = Inr m" "mem_get (tm_component_map m) (unat i) = Inr c"
      "if i \<notin> set ?ids then c = 0 else if id_column ?ci i = None then c < 0 else c = int (column_rank ?ci ?ids i) + 1"
      by (rule small_index[OF wf l(5) lo])
    have e: "ecs_get_id k e i = get_low_id k t row i" using True by (simp add: run)
    show ?thesis
    proof (cases "i \<in> set ?ids \<and> id_column ?ci i \<noteq> None")
      case False
      then have "ecs_get_id k e i = Inr None" using mc by (auto simp: e get_low_id_def split: if_splits)
      then show ?thesis using False none True by (auto simp: get_spec_def split: option.splits)
    next
      case c: True
      note p = column_rank_position[of i ?ids ?ci]
      have "ecs_get_id k e i = Inr (Some (t, column_rank ?ci ?ids i, row))"
        using mc c ptr(1)[OF p] table_readyD(3)[OF wf l(5)] by (simp add: e get_low_id_def)
      then show ?thesis using ptr(2)[OF p] c by (auto simp: get_spec_def l(7))
    qed
  next
    case False
    obtain tr where tr: "flecs_component_get_table k (flecs_component_hash i) t = Inr tr"
      "case tr of None \<Rightarrow> i \<notin> set ?ids
       | Some tr \<Rightarrow> \<exists>j<length ?ids. ?ids ! j = i
           \<and> tr_column tr = (if id_column ?ci i = None then -1 else int (length (data_ids ?ci (take j ?ids))))"
      by (rule get_table_ok[OF wf l(5) ir])
    show ?thesis
    proof (cases "i \<in> set ?ids")
      case ni: False
      then have "ecs_get_id k e i = Inr None" using False tr d(6) table_shapeD(8)[OF l(12)]
        by (cases "flecs_components_get ?ci i"; cases tr) (auto simp: run)
      then show ?thesis using ni none False by (auto simp: get_spec_def l(8) split: option.splits)
    next
      case True
      obtain cr where cr: "flecs_components_get ?ci i = Some cr"
        using index_ready_at[OF type_readyD(2)[OF table_readyD(2)[OF wf l(5)]] in_patterns(1)[OF True]] by metis
      obtain tr0 j where j: "tr = Some tr0" "j < length ?ids" "?ids ! j = i"
        "tr_column tr0 = (if id_column ?ci i = None then -1 else int (length (data_ids ?ci (take j ?ids))))"
        using tr(2) True by (cases tr) auto
      have e: "ecs_get_id k e i = (if tr_column tr0 = -1 then Inl ECS_INVALID_PARAMETER
          else res_bind (flecs_table_get_component k t (tr_column tr0) row) (\<lambda>ptr. Inr (Some ptr)))"
        using False cr d(6)[OF cr] tr(1) j(1) by (auto simp: run)
      show ?thesis
      proof (cases "id_column ?ci i")
        case None
        then show ?thesis using e j(4) none True False by (auto simp: get_spec_def l(8) split: option.splits)
      next
        case (Some ti)
        note p = data_ids_position[OF j(2), of ?ci, unfolded j(3)]
        have "ecs_get_id k e i = Inr (Some (t, length (data_ids ?ci (take j ?ids)), row))"
          using e j(4) Some ptr(1)[OF p] table_readyD(3)[OF wf l(5)]
          by (simp add: flecs_table_get_component_def int_index_def ecs_assert_def)
        then show ?thesis using ptr(2)[OF p] Some by (auto simp: get_spec_def l(7))
      qed
    qed
  qed
qed

section \<open>What depends on the live entities only\<close>

lemma kernel_index_wf:
  assumes "kernel_wf k"
  shows "ei_wf (w_index (k_world k))"
proof -
  have "index_ok (w_index (k_world k)) (w_tables (k_world k))" using kernel_wfD(1)[OF assms] by (simp add: world_wf_def)
  from index_okD(1)[OF this] show ?thesis by (simp add: ei_alloc_wf_def)
qed

lemma es_alive_live: "ei_wf ei \<Longrightarrow> es_alive (ei_abs ei) n = Some x \<longleftrightarrow> x \<in> ei_live ei \<and> low_index x = n"
  using ei_live_low[of ei x] es_alive_low[of ei n x] by blast

lemma alive_from_live:
  assumes wf: "kernel_wf k" "kernel_wf k'" and live: "ei_live (w_index (k_world k')) = ei_live (w_index (k_world k))"
  shows "flecs_entity_index_get_alive (w_index (k_world k')) = flecs_entity_index_get_alive (w_index (k_world k))"
    "flecs_entity_index_is_alive (w_index (k_world k')) = flecs_entity_index_is_alive (w_index (k_world k))"
proof -
  note ei = kernel_index_wf[OF wf(1)] kernel_index_wf[OF wf(2)]
  have "\<forall>x. es_alive (ei_abs (w_index (k_world k'))) n = Some x \<longleftrightarrow> es_alive (ei_abs (w_index (k_world k))) n = Some x" for n
    by (simp add: es_alive_live[OF ei(1)] es_alive_live[OF ei(2)] live)
  then have "es_alive (ei_abs (w_index (k_world k'))) n = es_alive (ei_abs (w_index (k_world k))) n" for n
    by (metis option.exhaust)
  then show "flecs_entity_index_get_alive (w_index (k_world k')) = flecs_entity_index_get_alive (w_index (k_world k))"
    "flecs_entity_index_is_alive (w_index (k_world k')) = flecs_entity_index_is_alive (w_index (k_world k))"
    using get_alive_eq[OF ei(1)] get_alive_eq[OF ei(2)] is_alive_eq[OF ei(1)] is_alive_eq[OF ei(2)] by (simp_all add: fun_eq_iff)
qed

lemma ready_from_live:
  assumes wf: "kernel_wf k" "kernel_wf k'" and live: "ei_live (w_index (k_world k')) = ei_live (w_index (k_world k))"
    and same: "k_index k' = k_index k" "k_non_trivial k' = k_non_trivial k"
  shows "change_ready k' remove ids i = change_ready k remove ids i" "lookup_ready k' ids i = lookup_ready k ids i"
    "in_tables k i \<Longrightarrow> id_valid k i = Inr True \<Longrightarrow> id_valid k' i = Inr True"
proof -
  note al = alive_from_live[OF wf live]
  have "flecs_id_is_alive k' i = flecs_id_is_alive k i" unfolding flecs_id_is_alive_def Let_def al ..
  then have t: "in_tables k' i = in_tables k i" unfolding in_tables_def same by simp
  have m: "ecs_make_alive_id k' i = ecs_make_alive_id k i" unfolding ecs_make_alive_id_def Let_def al ..
  show "change_ready k' remove ids i = change_ready k remove ids i"
    by (simp add: change_ready_def remove_ready_def add_ready_def m t same)
  show "lookup_ready k' ids i = lookup_ready k ids i" by (simp add: lookup_ready_def same)
  assume i: "in_tables k i" "id_valid k i = Inr True"
  have "flecs_entity_index_is_valid (w_index (k_world k')) (i AND ECS_COMPONENT_MASK) = Inr True" if "\<not> ECS_IS_PAIR i"
  proof -
    have "flecs_entity_index_get_alive (w_index (k_world k')) (i AND ECS_COMPONENT_MASK) \<noteq> Inr 0"
      using i(1) that by (auto simp: in_tables_def flecs_id_is_alive_def al(1))
    then have "es_alive (ei_abs (w_index (k_world k'))) (low_index (i AND ECS_COMPONENT_MASK)) \<noteq> None"
      by (auto simp: get_alive_eq[OF kernel_index_wf[OF wf(2)]] split: option.splits)
    then show ?thesis by (simp add: is_valid_eq[OF kernel_index_wf[OF wf(2)]])
  qed
  moreover have "ECS_IS_PAIR i \<Longrightarrow> ECS_IS_VALUE_PAIR i \<or> ECS_HAS_ID_FLAG i ECS_PAIR"
    by (auto simp: ECS_IS_PAIR_def plain_pair_flags)
  ultimately show "id_valid k' i = Inr True"
    using i(2) by (auto simp: id_valid_def ecs_id_is_valid_def flecs_id_invalid_reason_def split: if_splits)
qed

text \<open>A view that follows its type there and back is the same.\<close>

lemma view_follows_back:
  assumes "view_follows ci v v" "view_follows ci v v'" "view_follows ci v' v''" "vw_type v'' = vw_type v" "set (vw_type v) \<subseteq> set (vw_type v')"
  shows "v'' = v"
proof (rule entity_view.equality)
  have d: "dom (vw_comps v) = {c \<in> set (vw_type v). id_column ci c \<noteq> None}" "dom (vw_comps v') = {c \<in> set (vw_type v'). id_column ci c \<noteq> None}"
    "dom (vw_comps v'') = {c \<in> set (vw_type v). id_column ci c \<noteq> None}"
    using assms(1-4) by (simp_all add: view_follows_def)
  show "vw_comps v'' = vw_comps v"
  proof
    fix c
    show "vw_comps v'' c = vw_comps v c"
    proof (cases "c \<in> dom (vw_comps v)")
      case False
      then have "c \<notin> dom (vw_comps v'')" using d by simp
      then show ?thesis using False by (simp add: domIff)
    next
      case True
      then have "c \<in> dom (vw_comps v')" "c \<in> dom (vw_comps v'')" using d assms(5) by auto
      then obtain x y z where c: "vw_comps v c = Some x" "vw_comps v' c = Some y" "vw_comps v'' c = Some z" using True by blast
      have "y = x" using assms(2) c(1,2) unfolding view_follows_def by force
      moreover have "z = y" using assms(3) c(2,3) unfolding view_follows_def by force
      ultimately show ?thesis using c by simp
    qed
  qed
  have b: "vw_bits v = (\<lambda>i. if i \<in> set (toggles (vw_type v)) then Some (case vw_bits v i of Some b \<Rightarrow> b | None \<Rightarrow> False) else None)"
    "vw_bits v' = (\<lambda>i. if i \<in> set (toggles (vw_type v')) then Some (case vw_bits v i of Some b \<Rightarrow> b | None \<Rightarrow> False) else None)"
    "vw_bits v'' = (\<lambda>i. if i \<in> set (toggles (vw_type v)) then Some (case vw_bits v' i of Some b \<Rightarrow> b | None \<Rightarrow> False) else None)"
    using assms(1-4) unfolding view_follows_def by (blast, blast, metis)
  have "set (toggles (vw_type v)) \<subseteq> set (toggles (vw_type v'))" using assms(5) by (auto simp: toggles_def)
  then have "vw_bits v'' x = vw_bits v x" for x
    using fun_cong[OF b(1), of x] fun_cong[OF b(2), of x] fun_cong[OF b(3), of x] by (cases "x \<in> set (toggles (vw_type v))") auto
  then show "vw_bits v'' = vw_bits v" by (rule ext)
qed (use assms(4) in simp_all)

end
