(* ===== verification/Kernel_Claims.thy ===== *)
theory Kernel_Claims
  imports Kernel_Ops
begin

text \<open>
  The properties of the table graph and of the operations that use it, and a kernel to apply them to.
\<close>

section \<open>A kernel to apply the theorems to\<close>

text \<open>An entity index that never recycled an id hands out the next number.\<close>

definition fresh_index :: "ecs_entity_index \<Rightarrow> u32 \<Rightarrow> bool" where
  "fresh_index ei n \<longleftrightarrow> ei_active ei = None \<and> ei_alive ei = length (ei_dense ei) \<and> ei_max ei = n"

lemma rec_set_fresh: "rec_set ei i r = Inr ei' \<Longrightarrow> fresh_index ei' n \<longleftrightarrow> fresh_index ei n"
  by (auto simp: rec_set_def res_elims fresh_index_def)

lemma new_id_fresh:
  assumes "fresh_index ei n" "flecs_new_id ei = Inr (ei', e)"
  shows "fresh_index ei' (n + 1)" "e = ucast (n + 1)"
proof -
  have "fresh_index ei' (n + 1) \<and> e = ucast (n + 1)"
    using assms
    by (auto simp: flecs_new_id_def flecs_entity_index_new_id_def res_elims fresh_index_def Let_def ecs_assert_def
        flecs_entity_index_ensure_page_def rec_set_dense_def rec_set_def split: option.splits if_splits)
  then show "fresh_index ei' (n + 1)" "e = ucast (n + 1)" by simp_all
qed

lemma ecs_new_fresh:
  assumes "fresh_index (w_index w) n" "ecs_new w = Inr (w', e, evs)"
  shows "fresh_index (w_index w') (n + 1)" "e = ucast (n + 1)"
proof -
  obtain ei where ei: "flecs_new_id (w_index w) = Inr (ei, e)" "flecs_add_to_root_table (w\<lparr>w_index := ei\<rparr>) e = Inr (w', evs)"
    using assms(2) by (auto simp: ecs_new_def res_elims)
  note f = new_id_fresh[OF assms(1) ei(1)]
  show "e = ucast (n + 1)" by (rule f(2))
  have "fresh_index (w_index w') (n + 1) = fresh_index ei (n + 1)"
    using ei(2) by (auto simp: flecs_add_to_root_table_def table_append_def w_place_def res_elims ecs_assert_def rec_set_fresh split: if_splits)
  then show "fresh_index (w_index w') (n + 1)" using f(1) by simp
qed

text \<open>A component index in which the entity 2 is a component and every other id a tag.\<close>

definition position_index :: "nat component_index" where
  "position_index h = Some (plain_record (\<lambda>i. if i = 2 then Some (plain_info 2) else None) h)"

lemma position_index_ready: "table_type ids \<Longrightarrow> index_ready position_index ids"
  unfolding position_index_def
  by (rule plain_index_ready) (auto simp: plain_info_ok split: if_splits)

definition empty_world :: "nat world" where
  "empty_world = \<lparr>w_index = flecs_entity_index_init, w_tables = [sample_table [] [] []],
     w_locked_components = sample_locks, w_locked_entities = sample_locks, w_quit = False\<rparr>"

lemma empty_world_ok: "world_wf empty_world" "plain_world empty_world" "ei_live (w_index empty_world) = {}"
  "fresh_index (w_index empty_world) 0"
proof -
  let ?ts = "w_tables empty_world"
  have tb: "table_wf (sample_table [] [] [])"
    by (simp add: sample_table_def table_wf_def table_shape_def vec_wf_def ecs_vec_from_entities_def
        map_ok_def col_ids_def bits_ok_def toggles_def table_has_def)
  then have ok: "tables_ok ?ts"
    by (simp add: tables_ok_def empty_world_def same_types_col_types) (simp add: sample_table_def col_types_def col_ids_def)
  have rows: "row_of ?ts p = None" for p by (cases p) (auto simp: row_of_def empty_world_def sample_table_def)
  have pl: "place flecs_entity_index_init n = None" for n
    by (simp add: place_def erow_def erec_def ehas_def flecs_entity_index_init_def)
  have "index_ok flecs_entity_index_init ?ts"
    using entity_init_alloc rows pl by (simp add: index_ok_def consistent_def)
  then show "world_wf empty_world" using ok by (simp add: world_wf_def) (simp add: empty_world_def)
  obtain m :: "i32 ecs_map" where m: "ecs_map_init = Inr m" "map_wf m" "map_abs m = Map.empty"
    by (rule map_init)
  have "sample_locks = m" unfolding sample_locks_def m(1) by simp
  moreover have "row_flags flecs_entity_index_init n = 0" for n
    by (simp add: row_flags_def erow_def erec_def ehas_def flecs_entity_index_init_def zero_record_def
        ECS_RECORD_TO_ROW_FLAGS_def)
  ultimately show "plain_world empty_world" using m by (simp add: plain_world_def empty_world_def sample_table_def table_has_def)
  show "ei_live (w_index empty_world) = {}" by (simp add: empty_world_def entity_init_alloc)
  show "fresh_index (w_index empty_world) 0" by (simp add: empty_world_def fresh_index_def flecs_entity_index_init_def set_id_count_def)
qed

lemma table_meta_exists:
  assumes "table_type ids" "index_ready ci ids"
  obtains m where "meta_ok ci ids m"
  by (rule table_init_made[OF assms]) (rule that, unfold meta_ok_def, blast)

lemma fresh_kernel:
  obtains k :: "nat kernel" and v1 v2 where "kernel_wf k" "kernel_size k 1" "k_index k = position_index" "k_non_trivial k = replicate 256 0"
    "entity_view (k_world k) = [1 \<mapsto> v1, 2 \<mapsto> v2]" "vw_type v1 = []" "vw_type v2 = []" "ei_live (w_index (k_world k)) = {1, 2}"
proof -
  note result = that
  note w0 = empty_world_ok
  have t0: "w_tables empty_world = [sample_table [] [] []]" by (simp add: empty_world_def)
  obtain w1 e1 ev1 v1 where n1: "ecs_new empty_world = Inr (w1, e1, ev1)" "world_wf w1" "same_frame empty_world w1"
    "row_flags (w_index w1) = row_flags (w_index empty_world)" "entity_view w1 = (entity_view empty_world)(e1 \<mapsto> v1)"
    "view_moved (w_tables empty_world ! 0) empty_view v1" "ei_live (w_index w1) = insert e1 (ei_live (w_index empty_world))"
    by (rule ecs_new_ok[OF w0(1)]) (simp_all add: w0(3), simp_all add: t0 sample_table_def)
  have e1: "e1 = 1" "fresh_index (w_index w1) 1" using ecs_new_fresh[OF w0(4) n1(1)] by simp_all
  have live1: "ei_live (w_index w1) = {1}" using n1(7) by (simp add: w0(3) e1(1))
  have len1: "length (w_tables w1) = 1" using n1(3) by (auto simp: same_frame_def same_tables_def t0 dest: list_all2_lengthD)
  have c1: "t_count (w_tables w1 ! 0) < 2 ^ 28" using rows_live[OF n1(2), of 0] len1 live1 by simp
  obtain w2 e2 ev2 v2 where n2: "ecs_new w1 = Inr (w2, e2, ev2)" "world_wf w2" "same_frame w1 w2"
    "row_flags (w_index w2) = row_flags (w_index w1)" "entity_view w2 = (entity_view w1)(e2 \<mapsto> v2)"
    "view_moved (w_tables w1 ! 0) empty_view v2" "ei_live (w_index w2) = insert e2 (ei_live (w_index w1))"
    by (rule ecs_new_ok[OF n1(2) c1]) (simp_all add: live1)
  have e2: "e2 = 2" using ecs_new_fresh(2)[OF e1(2) n2(1)] by simp
  have fr: "same_frame empty_world w2" using n1(3) n2(3) same_tables_trans by (auto simp: same_frame_def)
  have tabs: "list_all2 same_table [sample_table [] [] []] (w_tables w2)" using fr by (simp add: same_frame_def same_tables_def t0)
  then obtain tb where tb: "w_tables w2 = [tb]" "same_table (sample_table [] [] []) tb" by (auto simp: list_all2_Cons1)
  have ty: "t_type tb = []" "col_ids tb = []" "col_types tb = []"
    using same_tableD(1)[OF tb(2)] same_table_ids(1)[OF tb(2)] same_table_col_types(1)[OF tb(2)]
    by (simp_all add: sample_table_def col_ids_def col_types_def)
  have "plain_world w2" by (rule plain_frame[OF w0(2) fr]) (use n1(4) n2(4) w0(2) in \<open>simp add: plain_world_def\<close>)
  have tt: "table_type []" by (simp add: table_type_def)
  obtain m where m: "meta_ok position_index [] m" by (rule table_meta_exists[OF tt position_index_ready[OF tt]])
  have tr: "type_ready position_index []"
    using tt position_index_ready[OF tt] by (simp add: type_ready_def exclusive_once_def)
  have "table_ready position_index tb m"
    using tr m by (simp add: table_ready_def ty data_ids_def)
  obtain hm :: "(u64 list, nat option) ecs_hashmap" where hm: "flecs_hashmap_init 16 8 flecs_type_hash flecs_type_compare = Inr hm"
    "hm_wf (\<lambda>_. True) flecs_type_hash flecs_type_compare hm" "map_abs (hm_impl hm) = Map.empty" by (rule hm_init_wf)
  have sz: "hm_key_size hm = 16" "hm_value_size hm = 8" using hm(1) by (auto simp: flecs_hashmap_init_def res_elims)
  define k where "k = \<lparr>k_world = w2, k_index = position_index, k_table_map = hm, k_nodes = [flecs_table_init_node],
    k_meta = [m], k_non_trivial = replicate 256 0\<rparr>"
  have kt: "k_types k = [[]]" by (simp add: k_types_def k_def tb(1) ty)
  have "table_map_ok hm [[]]" using hm(2) sz by (auto simp: table_map_ok_def hm_abs_empty[OF hm(3)])
  moreover have "nodes_ok position_index [[]] [flecs_table_init_node]"
    using nodes_ok_grown[of position_index "[]" "[]" "[]"] by (simp add: nodes_ok_def)
  ultimately have "kernel_wf k"
    using n2(2) \<open>plain_world w2\<close> \<open>table_ready position_index tb m\<close> unfolding kernel_wf_def kt by (simp add: k_def tb(1))
  moreover have "kernel_size k 1"
    using n2(7) live1 by (simp add: e2 kernel_size_def edge_load_def edges_at_def k_def tb(1) flecs_table_init_node_def
        flecs_table_init_edges_def edges_count_def)
  moreover have "entity_view empty_world = Map.empty" by (simp add: entity_view_def w0(3) fun_eq_iff)
  moreover have "vw_type v1 = []" using n1(6) by (simp add: view_moved_def t0) (simp add: sample_table_def)
  moreover have "list_all2 same_table [sample_table [] [] []] (w_tables w1)" using n1(3) by (simp add: same_frame_def same_tables_def t0)
  then obtain tb1 where tb1: "w_tables w1 = [tb1]" "same_table (sample_table [] [] []) tb1" by (auto simp: list_all2_Cons1)
  then have "t_type (w_tables w1 ! 0) = []" using same_tableD(1)[OF tb1(2)] by (simp add: sample_table_def)
  then have "vw_type v2 = []" using n2(6) by (simp add: view_moved_def)
  moreover have "ei_live (w_index (k_world k)) = {1, 2}" using n2(7) live1 by (auto simp: k_def e2)
  ultimately show thesis using n1(5) n2(5) by (intro result[of k v1 v2]) (simp_all add: k_def e1 e2)
qed

lemma position_ready:
  fixes k :: "nat kernel"
  assumes wf: "kernel_wf k" and k: "k_index k = position_index" "k_non_trivial k = replicate 256 0" "2 \<in> ei_live (w_index (k_world k))"
  shows "add_ready k [] 2" "remove_ready k 2" "id_valid k 2 = Inr True" "in_tables k 2"
    "\<And>ids. set ids \<subseteq> {2} \<Longrightarrow> lookup_ready k ids 2"
proof -
  have t: "table_type [2]" by (simp add: table_type_def table_id_def plain_id_def id_constants trait_constants Let_def)
  have h: "flecs_component_hash 2 = 2" by (simp add: id_constants trait_constants Let_def)
  have ti: "table_id 2" using t by (simp add: table_type_def)
  have np: "\<not> ECS_IS_PAIR 2" "\<not> ECS_HAS_ID_FLAG 2 ECS_PAIR" "(2 :: u64) AND ECS_COMPONENT_MASK = 2" "(2 :: u64) AND ECS_ID_FLAGS_MASK = 0"
    "\<not> ecs_id_is_wildcard 2" "\<not> ECS_IS_VALUE_PAIR 2" "ECS_PAIR_FIRST 2 = 0" "(2 :: u64) < FLECS_HI_COMPONENT_ID"
    "(2 :: u64) \<noteq> EcsWildcard" "EcsFlag \<noteq> 0" "EcsChildOf \<noteq> 0"
    by (simp_all add: id_constants trait_constants ecs_id_is_wildcard_def FLECS_HI_COMPONENT_ID_def)
  note ei = kernel_index_wf[OF wf]
  have al: "flecs_entity_index_get_alive (w_index (k_world k)) 2 = Inr 2" "flecs_entity_index_is_alive (w_index (k_world k)) 2 = Inr True"
    using ei_live_low[OF ei, of 2] k(3) ei_live_alive[OF ei, of 2] by (simp_all add: get_alive_eq[OF ei])
  show it: "in_tables k 2" using np k(2) al by (simp add: in_tables_def flecs_id_is_alive_def)
  have get: "flecs_components_get position_index x = Some (plain_record (\<lambda>i. if i = 2 then Some (plain_info 2) else None) (flecs_component_hash x))" for x
    by (simp add: flecs_components_get_def position_index_def)
  have neq: "(2 :: u64) \<notin> {EcsParent, EcsIsA, EcsChildOf}" "(2 :: u64) \<noteq> ecs_pair EcsOnDelete EcsPanic" "(2 :: u64) \<noteq> EcsParent"
    by (simp_all add: EcsParent_def EcsIsA_def EcsChildOf_def ecs_pair_def ecs_entity_t_comb_def ECS_PAIR_def EcsOnDelete_def EcsPanic_def)
  show "add_ready k [] 2"
    using np al it neq ti position_index_ready[OF t] k(1) by (simp add: add_ready_def type_add_ready_def ecs_make_alive_id_def get plain_record_def)
  show "remove_ready k 2"
    using np it neq k(1) by (simp add: remove_ready_def pattern_ok_def plain_id_def get plain_record_def)
  show "id_valid k 2 = Inr True" using np by (simp add: id_valid_def ecs_id_is_valid_def flecs_id_invalid_reason_def)
  show "lookup_ready k ids 2" if "set ids \<subseteq> {2}" for ids
    using that np ti k by (auto simp: lookup_ready_def get plain_record_def)
qed

section \<open>Tables\<close>

text \<open>
  Claim C8: flecs\_table\_ensure gives each type one table. It finds the table of a type, or creates
  it, after which the map from types to tables finds it; tables keep their numbers, no two have the
  same type, and no entity changes.
\<close>

theorem table_ensure_unique:
  assumes "kernel_wf k" "type_ready (k_index k) ids" "length (w_tables (k_world k)) < 2 ^ 26 - 1"
  shows "\<exists>k' t. flecs_table_ensure k ids = Inr (k', t) \<and> kernel_wf k' \<and> k_grown k k'
    \<and> t < length (k_types k') \<and> k_types k' ! t = ids \<and> distinct (k_types k')
    \<and> set (k_types k') = insert ids (set (k_types k)) \<and> entity_view (k_world k') = entity_view (k_world k)"
proof -
  obtain k' t where k': "flecs_table_ensure k ids = Inr (k', t)" "kernel_wf k'" "k_grown k k'"
    "t < length (w_tables (k_world k'))" "k_types k' ! t = ids" "entity_view (k_world k') = entity_view (k_world k)"
    "set (k_types k') = insert ids (set (k_types k))" by (rule table_ensure_ok[OF assms])
  then show ?thesis using kernel_wfD(5)[OF k'(2)] by auto
qed

theorem table_ensure_unique_witness:
  "\<exists>(k :: nat kernel) k' t. flecs_table_ensure k [2, 300] = Inr (k', t) \<and> k_types k = [[]] \<and> k_types k' ! t = [2, 300]"
proof -
  obtain k :: "nat kernel" and v1 v2 where k: "kernel_wf k" "kernel_size k 1" "k_index k = position_index"
    by (rule fresh_kernel)
  have t: "table_type [2, 300]" by (simp add: table_type_def table_id_def plain_id_def id_constants trait_constants Let_def)
  have "type_ready position_index [2, 300]"
    using t position_index_ready[OF t]
    by (simp add: type_ready_def exclusive_once_def exclusive_pair_def id_constants trait_constants Let_def EcsPanic_def)
  moreover have l: "length (k_types k) \<le> 1" using k(2) by (simp add: kernel_size_def)
  moreover have "k_types k = [[]]" using kernel_wfD(4,10)[OF k(1)] l k_types_length[of k] by (cases "k_types k") (simp_all del: k_types_length)
  moreover have "length (w_tables (k_world k)) < 2 ^ 26 - 1" using l by simp
  ultimately show ?thesis using table_ensure_unique[OF k(1), of "[2, 300]"] k(3) by (auto simp only:)
qed

section \<open>Adding and removing ids\<close>

text \<open>
  Claim C1: ecs\_add\_id gives a live entity the id and nothing else, however the edge of the table
  graph that it follows came about: from the array or the map of a table, or created with its
  table. A pair with an exclusive relationship replaces the pair of that relationship. Components
  that stay keep their values and toggles their state, a new component is as its constructor leaves
  it, no other entity changes, and the difference that is reported for the operation has exactly
  the ids that were added and removed.
\<close>

theorem ecs_add_id_refines:
  assumes "kernel_wf k" "kernel_size k n" "n < 2 ^ 26 - 2" "e \<noteq> 0" "entity_view (k_world k) e = Some v"
    and "id_valid k i = Inr True" "add_ready k (vw_type v) i"
  shows "\<exists>k' d evs v'. ecs_add_id k e i = Inr (k', d, evs) \<and> kernel_wf k' \<and> kernel_size k' (n + 2)
    \<and> entity_view (k_world k') = (entity_view (k_world k))(e \<mapsto> v')
    \<and> set (vw_type v') = insert i {x \<in> set (vw_type v).
         \<not> (exclusive_pair (k_index k) i \<and> ECS_IS_PAIR x \<and> ECS_PAIR_FIRST x = ECS_PAIR_FIRST i)}
    \<and> view_follows (k_index k) v v'
    \<and> set (td_added d) = set (vw_type v') - set (vw_type v) \<and> set (td_removed d) = set (vw_type v) - set (vw_type v')"
proof -
  have i: "change_ready k False (vw_type v) i" using assms(7) by (simp add: change_ready_def)
  obtain r t row where l: "flecs_entity_index_is_alive (w_index (k_world k)) e = Inr True" "t < length (w_tables (k_world k))"
    "vw_type v = k_types k ! t" by (rule live_entity[OF assms(1,5)]) blast
  note ty = table_readyD(2)[OF assms(1) l(2), folded l(3)]
  obtain k' d evs v' where c: "change_id (traverse_edge False) k e i = Inr (k', d, evs)" "kernel_wf k'"
    "entity_view (k_world k') = (entity_view (k_world k))(e \<mapsto> v')"
    "vw_type v' = type_change (k_index k) False (vw_type v) i" "view_follows (k_index k) v v'"
    "td_added d = filter (\<lambda>x. x \<notin> set (vw_type v)) (vw_type v')" "td_removed d = filter (\<lambda>x. x \<notin> set (vw_type v')) (vw_type v)"
    "kernel_size k' (n + 2)" by (rule change_id_ok[OF assms(1,5) i assms(2,3)])
  have "ecs_add_id k e i = Inr (k', d, evs)"
    using c(1) l(1) assms(4,6) by (simp add: ecs_add_id_def assert_entity_valid_def ecs_assert_def flecs_add_id_def traverse_edge_def)
  moreover have "set (vw_type v') = insert i {x \<in> set (vw_type v).
         \<not> (exclusive_pair (k_index k) i \<and> ECS_IS_PAIR x \<and> ECS_PAIR_FIRST x = ECS_PAIR_FIRST i)}"
    unfolding c(4) type_change_add_set(1)[OF ty] using relation_match[OF type_readyD(8)[OF ty]] assms(7)
    by (auto simp: add_ready_def type_add_ready_def exclusive_pair_def)
  moreover have "set (td_added d) = set (vw_type v') - set (vw_type v)" "set (td_removed d) = set (vw_type v) - set (vw_type v')"
    by (auto simp: c(6,7))
  ultimately show ?thesis using c by blast
qed

theorem ecs_add_id_refines_witness:
  "\<exists>(k :: nat kernel) k' d evs v'. ecs_add_id k 1 2 = Inr (k', d, evs) \<and> entity_view (k_world k') 1 = Some v'
    \<and> set (vw_type v') = {2} \<and> set (td_added d) = {2} \<and> vw_comps v' 2 \<noteq> None"
proof -
  obtain k :: "nat kernel" and v1 v2 where k: "kernel_wf k" "kernel_size k 1" "k_index k = position_index" "k_non_trivial k = replicate 256 0"
    "entity_view (k_world k) = [1 \<mapsto> v1, 2 \<mapsto> v2]" "vw_type v1 = []" "ei_live (w_index (k_world k)) = {1, 2}"
    by (rule fresh_kernel)
  note r = position_ready[OF k(1,3,4)]
  have "id_column position_index 2 = Some (plain_info 2)"
    by (simp add: id_column_def key_column_def position_index_def plain_record_def id_constants trait_constants Let_def)
  then have c: "2 \<in> dom (vw_comps v')" if "view_follows position_index v1 v'" "set (vw_type v') = {2}" for v' :: "nat entity_view"
    using that by (simp add: view_follows_def)
  have "\<exists>k' d evs v'. ecs_add_id k 1 2 = Inr (k', d, evs) \<and> kernel_wf k' \<and> kernel_size k' (1 + 2)
    \<and> entity_view (k_world k') = (entity_view (k_world k))(1 \<mapsto> v')
    \<and> set (vw_type v') = insert 2 {x \<in> set (vw_type v1).
         \<not> (exclusive_pair (k_index k) 2 \<and> ECS_IS_PAIR x \<and> ECS_PAIR_FIRST x = ECS_PAIR_FIRST 2)}
    \<and> view_follows (k_index k) v1 v'
    \<and> set (td_added d) = set (vw_type v') - set (vw_type v1) \<and> set (td_removed d) = set (vw_type v1) - set (vw_type v')"
    by (rule ecs_add_id_refines[OF k(1,2)]) (use k r in simp_all)
  then show ?thesis using k(3,6) c by (fastforce simp: domIff)
qed

text \<open>
  Claim C2: in a kernel whose tables have no value pairs (\<open>kernel_wf\<close>, \<open>table_type\<close>), ecs\_remove\_id takes an id,
  or with a wildcard pattern every id that matches it, from a live entity, and nothing else: the other components keep
  their values and toggles their state, no other entity changes, and the difference that is reported has exactly the
  removed ids. The id or pattern is one that the model covers (\<open>remove_ready\<close>). With value pairs it would be false: a
  pattern can leave one behind that it matches (lemma type\_remove\_leaves\_value\_pair).
\<close>

theorem ecs_remove_id_refines:
  assumes "kernel_wf k" "kernel_size k n" "n < 2 ^ 26 - 2" "e \<noteq> 0" "entity_view (k_world k) e = Some v"
    and "id_valid k i = Inr valid" "valid \<or> ecs_id_is_wildcard i" "remove_ready k i"
  shows "\<exists>k' d evs v'. ecs_remove_id k e i = Inr (k', d, evs) \<and> kernel_wf k' \<and> kernel_size k' (n + 2)
    \<and> entity_view (k_world k') = (entity_view (k_world k))(e \<mapsto> v')
    \<and> set (vw_type v') = {x \<in> set (vw_type v). \<not> id_matches x i} \<and> view_follows (k_index k) v v'
    \<and> td_added d = [] \<and> set (td_removed d) = set (vw_type v) - set (vw_type v')"
proof -
  have i: "change_ready k True (vw_type v) i" using assms(8) by (simp add: change_ready_def)
  obtain r where l: "flecs_entity_index_is_alive (w_index (k_world k)) e = Inr True" by (rule live_entity[OF assms(1,5)]) blast
  obtain k' d evs v' where c: "change_id (traverse_edge True) k e i = Inr (k', d, evs)" "kernel_wf k'"
    "entity_view (k_world k') = (entity_view (k_world k))(e \<mapsto> v')"
    "vw_type v' = type_change (k_index k) True (vw_type v) i" "view_follows (k_index k) v v'"
    "td_added d = filter (\<lambda>x. x \<notin> set (vw_type v)) (vw_type v')" "td_removed d = filter (\<lambda>x. x \<notin> set (vw_type v')) (vw_type v)"
    "kernel_size k' (n + 2)" by (rule change_id_ok[OF assms(1,5) i assms(2,3)])
  have "ecs_remove_id k e i = Inr (k', d, evs)"
    using c(1) l assms(4,6,7) by (simp add: ecs_remove_id_def assert_entity_valid_def ecs_assert_def flecs_remove_id_def traverse_edge_def)
  moreover have "set (vw_type v') = {x \<in> set (vw_type v). \<not> id_matches x i}" by (simp add: c(4) type_change_def)
  moreover have "td_added d = []" "set (td_removed d) = set (vw_type v) - set (vw_type v')"
    by (auto simp: c(4,6,7) type_change_def filter_empty_conv)
  ultimately show ?thesis using c by blast
qed

text \<open>A kernel in which entity 1 got the component 2.\<close>

lemma position_kernel:
  obtains k :: "nat kernel" and v where "kernel_wf k" "kernel_size k 3" "k_index k = position_index" "k_non_trivial k = replicate 256 0"
    "entity_view (k_world k) 1 = Some v" "vw_type v = [2]" "vw_comps v 2 \<noteq> None" "ei_live (w_index (k_world k)) = {1, 2}"
proof -
  note result = that
  obtain k :: "nat kernel" and v1 v2 where k: "kernel_wf k" "kernel_size k 1" "k_index k = position_index" "k_non_trivial k = replicate 256 0"
    "entity_view (k_world k) = [1 \<mapsto> v1, 2 \<mapsto> v2]" "vw_type v1 = []" "ei_live (w_index (k_world k)) = {1, 2}"
    by (rule fresh_kernel)
  have r: "add_ready k [] 2" by (rule position_ready(1)[OF k(1,3,4)]) (simp add: k(7))
  have c: "id_column position_index 2 = Some (plain_info 2)"
    by (simp add: id_column_def key_column_def position_index_def plain_record_def id_constants trait_constants Let_def)
  have v: "entity_view (k_world k) 1 = Some v1" by (simp add: k(5))
  have np: "\<not> exclusive_pair (k_index k) 2" by (simp add: exclusive_pair_def id_constants trait_constants)
  obtain k' d evs v' where a: "kernel_wf k'" "k_index k' = k_index k" "entity_view (k_world k') = (entity_view (k_world k))(1 \<mapsto> v')"
    "vw_type v' = type_change (k_index k) False (vw_type v1) 2" "view_follows (k_index k) v1 v'" "kernel_size k' (1 + 2)"
    "ei_live (w_index (k_world k')) = ei_live (w_index (k_world k))" "k_non_trivial k' = k_non_trivial k"
    by (rule change_id_ok[OF k(1) v, of False 2 1]) (use r k(2,6) in \<open>simp_all add: change_ready_def\<close>)
  have ty: "vw_type v' = [2]"
  proof (rule sorted_types_eq)
    have "type_ready (k_index k) []"
      using position_index_ready[of "[]"] by (simp add: k(3) type_ready_def table_type_def exclusive_once_def)
    from type_change_add_set[OF this, of 2] np
    show "sorted_wrt (<) (vw_type v')" "set (vw_type v') = set [2]" using a(4) by (simp_all add: k(6))
  qed simp
  moreover have "2 \<in> dom (vw_comps v')" using a(5) c by (simp add: view_follows_def ty k(3))
  moreover have "kernel_size k' 3"
  proof -
    have "(1 :: nat) + 2 = 3" by simp
    then show ?thesis using a(6) by metis
  qed
  moreover have "vw_comps v' 2 \<noteq> None" using calculation(2) by blast
  ultimately show thesis by (intro result[of k' v']) (use a(1-3,7,8) k(3,4,7) in simp_all)
qed

theorem ecs_remove_id_refines_witness:
  "\<exists>(k :: nat kernel) v k' d evs v'. entity_view (k_world k) 1 = Some v \<and> vw_type v = [2] \<and> ecs_remove_id k 1 2 = Inr (k', d, evs)
    \<and> entity_view (k_world k') 1 = Some v' \<and> vw_type v' = [] \<and> set (td_removed d) = {2}"
proof -
  obtain k :: "nat kernel" and v where k: "kernel_wf k" "kernel_size k 3" "k_index k = position_index" "k_non_trivial k = replicate 256 0"
    "entity_view (k_world k) 1 = Some v" "vw_type v = [2]" "vw_comps v 2 \<noteq> None" "ei_live (w_index (k_world k)) = {1, 2}"
    by (rule position_kernel)
  have live: "2 \<in> ei_live (w_index (k_world k))" by (simp add: k(8))
  note r = position_ready[OF k(1,3,4) live]
  have "\<exists>k' d evs v'. ecs_remove_id k 1 2 = Inr (k', d, evs) \<and> kernel_wf k' \<and> kernel_size k' (3 + 2)
    \<and> entity_view (k_world k') = (entity_view (k_world k))(1 \<mapsto> v')
    \<and> set (vw_type v') = {x \<in> set (vw_type v). \<not> id_matches x 2} \<and> view_follows (k_index k) v v'
    \<and> td_added d = [] \<and> set (td_removed d) = set (vw_type v) - set (vw_type v')"
    by (rule ecs_remove_id_refines[OF k(1,2) _ _ k(5) r(3)]) (use r in simp_all)
  then obtain k' d evs v' where n: "ecs_remove_id k 1 2 = Inr (k', d, evs)" "entity_view (k_world k') = (entity_view (k_world k))(1 \<mapsto> v')"
    "set (vw_type v') = {x \<in> set (vw_type v). \<not> id_matches x 2}" "set (td_removed d) = set (vw_type v) - set (vw_type v')" by blast
  have "set (vw_type v') = {}" using n(3) id_matches_self[of 2] by (auto simp: k(6))
  then have "vw_type v' = []" by simp
  moreover have "set (td_removed d) = {2}" using n(4) calculation by (simp add: k(6))
  moreover have "entity_view (k_world k') 1 = Some v'" by (simp add: n(2))
  ultimately show ?thesis using k(5,6) n(1) by blast
qed

text \<open>
  Claim C9: adding an id that an entity does not have and removing it again gives the entity back as
  it was, with the same ids, the same component values and the same toggles. The id is not a pair of an exclusive
  relationship, which would replace the pair with the other target for good, and it is no value pair.
\<close>

theorem add_remove_roundtrip:
  assumes "kernel_wf k" "kernel_size k n" "n < 2 ^ 26 - 4" "e \<noteq> 0" "entity_view (k_world k) e = Some v"
    and "id_valid k i = Inr True" "add_ready k (vw_type v) i" "pattern_ok i" "i \<notin> set (vw_type v)" "\<not> exclusive_pair (k_index k) i"
  shows "\<exists>k1 d1 evs1 k2 d2 evs2. ecs_add_id k e i = Inr (k1, d1, evs1) \<and> ecs_remove_id k1 e i = Inr (k2, d2, evs2)
    \<and> kernel_wf k2 \<and> entity_view (k_world k2) = entity_view (k_world k)"
proof -
  have i: "change_ready k False (vw_type v) i" using assms(7) by (simp add: change_ready_def)
  obtain r t row where l: "flecs_entity_index_is_alive (w_index (k_world k)) e = Inr True" "t < length (w_tables (k_world k))"
    "v = row_view (w_tables (k_world k) ! t) row" "vw_type v = k_types k ! t" "table_shape (w_tables (k_world k) ! t)"
    by (rule live_entity[OF assms(1,5)]) blast
  note ty = table_readyD(2)[OF assms(1) l(2), folded l(4)]
  have n: "n < 2 ^ 26 - 2" "n + 2 < 2 ^ 26 - 2" using assms(3) by simp_all
  obtain k1 d1 evs1 v1 where a: "change_id (traverse_edge False) k e i = Inr (k1, d1, evs1)" "kernel_wf k1" "k_index k1 = k_index k"
    "entity_view (k_world k1) = (entity_view (k_world k))(e \<mapsto> v1)"
    "vw_type v1 = type_change (k_index k) False (vw_type v) i" "view_follows (k_index k) v v1" "kernel_size k1 (n + 2)"
    "ei_live (w_index (k_world k1)) = ei_live (w_index (k_world k))" "k_non_trivial k1 = k_non_trivial k"
    by (rule change_id_ok[OF assms(1,5) i assms(2) n(1)])
  have add: "ecs_add_id k e i = Inr (k1, d1, evs1)"
    using a(1) l(1) assms(4,6) by (simp add: ecs_add_id_def assert_entity_valid_def ecs_assert_def flecs_add_id_def traverse_edge_def)
  have ai: "type_add_ready (k_index k) (vw_type v) i" "in_tables k i" "i \<noteq> EcsParent" using assms(7) by (simp_all add: add_ready_def)
  obtain cr where cr: "flecs_components_get (k_index k) (kind_of i) = Some cr" "cr_flags cr AND EcsIdDontFragment = 0"
    by (rule kind_record[OF ai(1)]) blast
  have rm: "change_ready k True (vw_type v1) i"
    using ai assms(8) type_add_readyD(3)[OF ai(1)] cr by (simp add: change_ready_def remove_ready_def)
  note same = ready_from_live[OF assms(1) a(2,8,3,9)]
  have rm1: "change_ready k1 True (vw_type v1) i" using rm same(1) by simp
  have v1: "entity_view (k_world k1) e = Some v1" by (simp add: a(4))
  obtain k2 d2 evs2 v2 where b: "change_id (traverse_edge True) k1 e i = Inr (k2, d2, evs2)" "kernel_wf k2"
    "entity_view (k_world k2) = (entity_view (k_world k1))(e \<mapsto> v2)"
    "vw_type v2 = type_change (k_index k1) True (vw_type v1) i" "view_follows (k_index k1) v1 v2"
    by (rule change_id_ok[OF a(2) v1 rm1 a(7) n(2)])
  have al1: "flecs_entity_index_is_alive (w_index (k_world k1)) e = Inr True"
    using l(1) alive_from_live(2)[OF assms(1) a(2,8)] by simp
  have remove: "ecs_remove_id k1 e i = Inr (k2, d2, evs2)"
    using b(1) al1 assms(4) same(3)[OF ai(2) assms(6)]
    by (simp add: ecs_remove_id_def assert_entity_valid_def ecs_assert_def flecs_remove_id_def traverse_edge_def)
  have s1: "set (vw_type v1) = insert i (set (vw_type v))" "sorted_wrt (<) (vw_type v1)"
    using type_change_add_set[OF ty, of i] assms(10) by (simp_all add: a(5))
  have "\<not> id_matches x i" if "x \<in> set (vw_type v)" for x
  proof
    assume m: "id_matches x i"
    have ti: "table_id i" "table_id x" using type_add_readyD(1)[OF ai(1)] type_readyD(8)[OF ty that] by simp_all
    have "x = i"
      by (rule unique_match[OF assms(8) _ _ _ m id_matches_self]) (use ti in \<open>simp_all add: table_id_def\<close>)
    then show False using that assms(9) by simp
  qed
  then have "set (vw_type v2) = set (vw_type v)" using s1(1) id_matches_self by (auto simp: b(4) type_change_def)
  moreover have "sorted_wrt (<) (vw_type v2)" using s1(2) by (simp add: b(4) type_change_def sorted_wrt_filter)
  ultimately have t2: "vw_type v2 = vw_type v" using sorted_types_eq[OF _ type_readyD(7)[OF ty]] by blast
  have "view_follows (k_index k) v v"
    unfolding l(3) by (rule view_follows_self[OF table_readyD(1)[OF assms(1) l(2)] l(5)])
  then have "v2 = v" by (rule view_follows_back[OF _ a(6) b(5)[unfolded a(3)] t2]) (auto simp: s1(1))
  then have "entity_view (k_world k2) = entity_view (k_world k)" using b(3) a(4) assms(5) by (auto simp: fun_eq_iff)
  then show ?thesis using add remove b(2) by blast
qed

theorem add_remove_roundtrip_witness:
  "\<exists>(k :: nat kernel) k1 d1 evs1 k2 d2 evs2. ecs_add_id k 1 2 = Inr (k1, d1, evs1) \<and> ecs_remove_id k1 1 2 = Inr (k2, d2, evs2)
    \<and> entity_view (k_world k2) = entity_view (k_world k) \<and> entity_view (k_world k) 1 \<noteq> None"
proof -
  obtain k :: "nat kernel" and v1 v2 where k: "kernel_wf k" "kernel_size k 1" "k_index k = position_index" "k_non_trivial k = replicate 256 0"
    "entity_view (k_world k) = [1 \<mapsto> v1, 2 \<mapsto> v2]" "vw_type v1 = []" "ei_live (w_index (k_world k)) = {1, 2}"
    by (rule fresh_kernel)
  have live: "2 \<in> ei_live (w_index (k_world k))" by (simp add: k(7))
  note r = position_ready[OF k(1,3,4) live]
  have v: "entity_view (k_world k) 1 = Some v1" by (simp add: k(5))
  have "\<exists>k1 d1 evs1 k2 d2 evs2. ecs_add_id k 1 2 = Inr (k1, d1, evs1) \<and> ecs_remove_id k1 1 2 = Inr (k2, d2, evs2)
    \<and> kernel_wf k2 \<and> entity_view (k_world k2) = entity_view (k_world k)"
    by (rule add_remove_roundtrip[OF k(1,2) _ _ v r(3)])
      (use r(1,2) k(6) in \<open>simp_all add: remove_ready_def exclusive_pair_def id_constants trait_constants\<close>)
  then show ?thesis using v by blast
qed

section \<open>Asking and reading\<close>

text \<open>
  Claim C10: ecs\_has\_id answers whether the id is in the type of the entity, for ids below 256 by the
  component map of the table and for others by the table cache of the component record.
\<close>

theorem ecs_has_id_exact:
  assumes "kernel_wf k" "entity_view (k_world k) e = Some v" "e \<noteq> 0" "lookup_ready k (vw_type v) i"
  shows "ecs_has_id k e i = Inr (i \<in> set (vw_type v))"
  by (rule has_id_ok[OF assms])

theorem ecs_has_id_exact_witness:
  "\<exists>k :: nat kernel. ecs_has_id k 1 2 = Inr True"
proof -
  obtain k :: "nat kernel" and v where k: "kernel_wf k" "kernel_size k 3" "k_index k = position_index" "k_non_trivial k = replicate 256 0"
    "entity_view (k_world k) 1 = Some v" "vw_type v = [2]" "vw_comps v 2 \<noteq> None" "ei_live (w_index (k_world k)) = {1, 2}"
    by (rule position_kernel)
  have live: "2 \<in> ei_live (w_index (k_world k))" by (simp add: k(8))
  have "lookup_ready k (vw_type v) 2" by (rule position_ready(5)[OF k(1,3,4) live]) (simp add: k(6))
  then show ?thesis using ecs_has_id_exact[OF k(1,5), of 2] k(6) by auto
qed

text \<open>
  Claim C11: ecs\_get\_id returns a pointer to the value that the entity has for a component, and null
  for an id that the entity does not have. For a tag that it has, the result is null when the tag
  is a plain id below 256, and otherwise the debug assertion on the column fails.
\<close>

theorem ecs_get_id_reads:
  assumes "kernel_wf k" "entity_view (k_world k) e = Some v" "e \<noteq> 0" "lookup_ready k (vw_type v) i" "id_valid k i = Inr True"
  shows "case vw_comps v i of
      Some x \<Rightarrow> \<exists>p. ecs_get_id k e i = Inr (Some p) \<and> ptr_read k p = Inr x
    | None \<Rightarrow> ecs_get_id k e i = (if i \<in> set (vw_type v) \<and> \<not> low_trivial k i then Inl ECS_INVALID_PARAMETER else Inr None)"
  using get_id_ok[OF assms] by (simp add: get_spec_def)

theorem ecs_get_id_reads_witness:
  "\<exists>(k :: nat kernel) v p x. entity_view (k_world k) 1 = Some v \<and> vw_comps v 2 = Some x
    \<and> ecs_get_id k 1 2 = Inr (Some p) \<and> ptr_read k p = Inr x"
proof -
  obtain k :: "nat kernel" and v where k: "kernel_wf k" "kernel_size k 3" "k_index k = position_index" "k_non_trivial k = replicate 256 0"
    "entity_view (k_world k) 1 = Some v" "vw_type v = [2]" "vw_comps v 2 \<noteq> None" "ei_live (w_index (k_world k)) = {1, 2}"
    by (rule position_kernel)
  have live: "2 \<in> ei_live (w_index (k_world k))" by (simp add: k(8))
  note r = position_ready[OF k(1,3,4) live]
  have lr: "lookup_ready k (vw_type v) 2" by (rule r(5)) (simp add: k(6))
  obtain x where x: "vw_comps v 2 = Some x" using k(7) by blast
  have "\<exists>p. ecs_get_id k 1 2 = Inr (Some p) \<and> ptr_read k p = Inr x" using ecs_get_id_reads[OF k(1,5) _ lr r(3)] x by simp
  then show ?thesis using k(5) x by blast
qed

end
