(* ===== verification/Vec_Hooks.thy ===== *)
theory Vec_Hooks
  imports Table_Cells
begin

text \<open>
  The operations of datastructures/vec.c that change the count of a vector whose elements have
  lifecycle hooks, on the hooks of type\_info.c: the functions that apply a hook to a run of
  elements, with their checks for hooks that are marked illegal and their behaviour for a hook
  that is not set, and the calls they make. A run of elements is an array of cells, the index of its
  first cell and its length. Marking the type as in use, which the hook functions also do, is left out.
\<close>

section \<open>Hooks on a run of elements\<close>

definition flecs_type_info_ctor ::
    "('v::zero) ecs_type_info \<Rightarrow> 'v option list \<Rightarrow> nat \<Rightarrow> nat \<Rightarrow> ('v option list \<times> bool \<times> lifecycle list) res" where
  "flecs_type_info_ctor ti ptr first cnt =
     ecs_assert (th_flags (ti_hooks ti) AND ECS_TYPE_HOOK_CTOR_ILLEGAL = 0) ECS_INVALID_OPERATION
     (let ctor = th_ctor (ti_hooks ti)
      in if ctor \<noteq> None
         then res_bind (xtor_cells (call_xtor L_ctor ctor) ptr first cnt) (\<lambda>(ptr, ls). Inr (ptr, True, ls))
         else Inr (ptr, False, []))"

definition flecs_type_info_dtor ::
    "('v::zero) ecs_type_info \<Rightarrow> 'v option list \<Rightarrow> nat \<Rightarrow> nat \<Rightarrow> ('v option list \<times> bool \<times> lifecycle list) res" where
  "flecs_type_info_dtor ti ptr first cnt =
     ecs_assert (th_flags (ti_hooks ti) AND ECS_TYPE_HOOK_DTOR_ILLEGAL = 0) ECS_INVALID_OPERATION
     (let dtor = th_dtor (ti_hooks ti)
      in if dtor \<noteq> None
         then res_bind (xtor_cells (call_xtor L_dtor dtor) ptr first cnt) (\<lambda>(ptr, ls). Inr (ptr, True, ls))
         else Inr (ptr, False, []))"

text \<open>Both runs start at the beginning of their arrays. Without a hook the bytes are copied.\<close>

definition flecs_type_info_ctor_move_dtor ::
    "('v::zero) ecs_type_info \<Rightarrow> 'v option list \<Rightarrow> 'v option list \<Rightarrow> nat
     \<Rightarrow> ('v option list \<times> 'v option list \<times> lifecycle list) res" where
  "flecs_type_info_ctor_move_dtor ti dst_ptr src_ptr cnt =
     ecs_assert (th_flags (ti_hooks ti) AND ECS_TYPE_HOOK_CTOR_MOVE_DTOR_ILLEGAL = 0) ECS_INVALID_OPERATION
     (let move = th_ctor_move_dtor (ti_hooks ti)
      in if move \<noteq> None
         then move_cells (call_move (ti_hooks ti) hook_depth L_ctor_move_dtor move) dst_ptr 0 src_ptr 0 cnt
         else move_cells (\<lambda>_ s. Inr (s, s, [])) dst_ptr 0 src_ptr 0 cnt)"

section \<open>Setting the count\<close>

text \<open>The results of the hook functions that say whether there was a hook are not used.\<close>

definition ecs_vec_set_count_w_type_info ::
    "('v::zero) ecs_vec \<Rightarrow> nat \<Rightarrow> 'v ecs_type_info \<Rightarrow> ('v ecs_vec \<times> lifecycle list) res" where
  "ecs_vec_set_count_w_type_info v elem_count ti =
     (if vcount v = elem_count then Inr (v, [])
      else if th_ctor_move_dtor (ti_hooks ti) = None then Inr (ecs_vec_set_count v elem_count, [])
      else if vsize v > elem_count then
        res_bind (if elem_count > vcount v
                  then flecs_type_info_ctor ti (varray v) (vcount v) (elem_count - vcount v)
                  else Inr (varray v, False, [])) (\<lambda>(array, _, l1).
        res_bind (if elem_count < vcount v
                  then flecs_type_info_dtor ti array elem_count (vcount v - elem_count)
                  else Inr (array, False, [])) (\<lambda>(array, _, l2).
        Inr (v\<lparr>varray := array, vcount := elem_count\<rparr>, l1 @ l2)))
      else
        let new_size = nat (next_pow2 (int elem_count));
            array = flecs_vec_alloc new_size;
            move_count = (if elem_count > vcount v then vcount v else elem_count)
        in
        res_bind (flecs_type_info_ctor_move_dtor ti array (varray v) move_count) (\<lambda>(array, old, l1).
        res_bind (if move_count < vcount v
                  then flecs_type_info_dtor ti old move_count (vcount v - move_count)
                  else Inr (old, False, [])) (\<lambda>(_, _, l2).
        res_bind (if move_count < elem_count
                  then flecs_type_info_ctor ti array move_count (elem_count - move_count)
                  else Inr (array, False, [])) (\<lambda>(array, _, l3).
        Inr (\<lparr>varray = array, vcount = elem_count, vsize = new_size\<rparr>, l1 @ l2 @ l3)))))"

definition ecs_vec_set_min_count_w_type_info ::
    "('v::zero) ecs_vec \<Rightarrow> nat \<Rightarrow> 'v ecs_type_info \<Rightarrow> ('v ecs_vec \<times> lifecycle list) res" where
  "ecs_vec_set_min_count_w_type_info v elem_count ti =
     (if vcount v < elem_count then ecs_vec_set_count_w_type_info v elem_count ti else Inr (v, []))"

section \<open>What the hooks of a lawful type do to a run\<close>

lemma ctor_run:
  fixes ti :: "('v::zero) ecs_type_info"
  assumes ti: "ti_live ti" "legal_flags (ti_hooks ti)" "th_ctor (ti_hooks ti) \<noteq> None" and n: "row + n \<le> length cells"
  obtains cells' ls where "flecs_type_info_ctor ti cells row n = Inr (cells', True, ls)"
    "cells' = take row cells @ replicate n (ti_default ti) @ drop (row + n) cells"
    "ti_counted ti \<Longrightarrow> life_sum ls = int n"
proof -
  note result = that
  define P where "P = (\<lambda>c' ls. c' = ti_default ti \<and> (\<exists>c. type_info_ctor ti c = Inr (c', ls)))"
  have eq: "type_info_ctor ti = call_xtor L_ctor (th_ctor (ti_hooks ti))"
    using ti by (intro ext) (auto simp: type_info_ctor_def legal_flagsD)
  have "\<exists>c' ls. type_info_ctor ti (cells ! i) = Inr (c', ls) \<and> P c' ls" for i
    using ti(1) unfolding ti_live_def P_def by blast
  with n have "\<exists>cells' ls. xtor_cells (type_info_ctor ti) cells row n = Inr (cells', ls) \<and> length cells' = length cells
    \<and> (\<forall>i<length cells. i < row \<or> row + n \<le> i \<longrightarrow> cells' ! i = cells ! i)
    \<and> (\<forall>i. row \<le> i \<and> i < row + n \<longrightarrow> (\<exists>ls. P (cells' ! i) ls))
    \<and> (\<forall>d. (\<forall>c' ls. P c' ls \<longrightarrow> life_sum ls = d) \<longrightarrow> life_sum ls = int n * d)"
    by (intro xtor_cells_all) auto
  then obtain cells' ls where r: "xtor_cells (type_info_ctor ti) cells row n = Inr (cells', ls)" "length cells' = length cells"
    "\<forall>i<length cells. i < row \<or> row + n \<le> i \<longrightarrow> cells' ! i = cells ! i"
    "\<forall>i. row \<le> i \<and> i < row + n \<longrightarrow> (\<exists>ls. P (cells' ! i) ls)"
    "\<And>d. (\<forall>c' ls. P c' ls \<longrightarrow> life_sum ls = d) \<Longrightarrow> life_sum ls = int n * d" by blast
  show thesis
  proof (rule result[of cells' ls])
    show "flecs_type_info_ctor ti cells row n = Inr (cells', True, ls)"
      using ti r(1) by (simp add: flecs_type_info_ctor_def legal_flagsD flip: eq)
    show "cells' = take row cells @ replicate n (ti_default ti) @ drop (row + n) cells"
      using n r(2,3,4) by (intro nth_equalityI) (auto simp: nth_append P_def)
    show "life_sum ls = int n" if c: "ti_counted ti"
      using r(5)[of 1] c counted_ctor[OF c] by (auto simp: P_def)
  qed
qed

lemma dtor_run:
  fixes ti :: "('v::zero) ecs_type_info"
  assumes ti: "ti_lawful ti" and n: "row + n \<le> length cells"
    and live: "\<And>i. row \<le> i \<Longrightarrow> i < row + n \<Longrightarrow> cells ! i \<noteq> None"
  obtains cells' b ls where "flecs_type_info_dtor ti cells row n = Inr (cells', b, ls)"
    "length cells' = length cells" "\<forall>i<length cells. i < row \<or> row + n \<le> i \<longrightarrow> cells' ! i = cells ! i"
    "ti_counted ti \<Longrightarrow> life_sum ls = - int n"
proof -
  note result = that
  have lf: "th_flags (ti_hooks ti) AND ECS_TYPE_HOOK_DTOR_ILLEGAL = 0"
    using ti by (cases rule: lawful_cases) (auto simp: legal_flagsD)
  show thesis
  proof (cases "th_dtor (ti_hooks ti) = None")
    case True
    then have "\<not> ti_counted ti" by (simp add: ti_counted_def)
    with True lf show thesis
      by (intro result[of cells False "[]"]) (simp_all add: flecs_type_info_dtor_def)
  next
    case False
    define P where "P = (\<lambda>(c' :: 'v option) ls. \<exists>c. type_info_dtor ti c = Inr (c', ls))"
    have eq: "type_info_dtor ti = call_xtor L_dtor (th_dtor (ti_hooks ti))"
      using lf False by (intro ext) (auto simp: type_info_dtor_def)
    have "\<exists>c' ls. type_info_dtor ti (cells ! i) = Inr (c', ls) \<and> P c' ls" if "row \<le> i" "i < row + n" for i
      by (rule ti_dtor_ok[OF ti, of "cells ! i"]) (use live that in \<open>auto simp: cell_ok_def P_def\<close>)
    with n have "\<exists>cells' ls. xtor_cells (type_info_dtor ti) cells row n = Inr (cells', ls) \<and> length cells' = length cells
      \<and> (\<forall>i<length cells. i < row \<or> row + n \<le> i \<longrightarrow> cells' ! i = cells ! i)
      \<and> (\<forall>i. row \<le> i \<and> i < row + n \<longrightarrow> (\<exists>ls. P (cells' ! i) ls))
      \<and> (\<forall>d. (\<forall>c' ls. P c' ls \<longrightarrow> life_sum ls = d) \<longrightarrow> life_sum ls = int n * d)"
      by (intro xtor_cells_all) auto
    then obtain cells' ls where r: "xtor_cells (type_info_dtor ti) cells row n = Inr (cells', ls)" "length cells' = length cells"
      "\<forall>i<length cells. i < row \<or> row + n \<le> i \<longrightarrow> cells' ! i = cells ! i"
      "\<And>d. (\<forall>c' ls. P c' ls \<longrightarrow> life_sum ls = d) \<Longrightarrow> life_sum ls = int n * d" by blast
    show thesis
    proof (rule result[of cells' True ls])
      show "flecs_type_info_dtor ti cells row n = Inr (cells', True, ls)"
        using lf False r(1) by (simp add: flecs_type_info_dtor_def flip: eq)
      show "life_sum ls = - int n" if c: "ti_counted ti"
        using r(4)[of "- 1"] counted_dtor[OF c] by (auto simp: P_def)
    qed (use r in simp_all)
  qed
qed

lemma move_run:
  fixes ti :: "('v::zero) ecs_type_info"
  assumes ti: "ti_lawful ti" and n: "n \<le> length dst" "n \<le> length src"
    and live: "\<And>i. i < n \<Longrightarrow> src ! i \<noteq> None" and mv: "th_ctor_move_dtor (ti_hooks ti) \<noteq> None"
  obtains src' ls where "flecs_type_info_ctor_move_dtor ti dst src n = Inr (take n src @ drop n dst, src', ls)"
    "ti_counted ti \<Longrightarrow> life_sum ls = 0"
proof -
  note result = that
  define P where "P = (\<lambda>ls. \<exists>d s d' s'. type_info_ctor_move_dtor ti d s = Inr (d', s', ls))"
  have lf: "th_flags (ti_hooks ti) AND ECS_TYPE_HOOK_CTOR_MOVE_DTOR_ILLEGAL = 0"
    using ti by (cases rule: lawful_cases) (auto simp: legal_flagsD)
  have eq: "type_info_ctor_move_dtor ti
      = call_move (ti_hooks ti) hook_depth L_ctor_move_dtor (th_ctor_move_dtor (ti_hooks ti))"
    using lf mv by (intro ext) (auto simp: type_info_ctor_move_dtor_def)
  have "\<exists>s' ls. type_info_ctor_move_dtor ti d (src ! (0 + k)) = Inr (src ! (0 + k), s', ls) \<and> P ls" if "k < n" for k d
    by (rule ti_ctor_move_dtor_ok[where ti = ti and s = "src ! k" and d = d])
      (use ti live that in \<open>auto simp: P_def cell_ok_def\<close>)
  then have "\<exists>dst' src' ls. move_cells (type_info_ctor_move_dtor ti) dst 0 src 0 n = Inr (dst', src', ls)
    \<and> length dst' = length dst
    \<and> (\<forall>k<length dst. dst' ! k = (if 0 \<le> k \<and> k < 0 + n then src ! (0 + k - 0) else dst ! k))
    \<and> (\<forall>d. (\<forall>ls. P ls \<longrightarrow> life_sum ls = d) \<longrightarrow> life_sum ls = int n * d)"
    using n by (intro move_cells_all) auto
  then obtain dst' src' ls where m: "move_cells (type_info_ctor_move_dtor ti) dst 0 src 0 n = Inr (dst', src', ls)"
    "length dst' = length dst"
    "\<forall>k<length dst. dst' ! k = (if 0 \<le> k \<and> k < 0 + n then src ! (0 + k - 0) else dst ! k)"
    "\<And>d. (\<forall>ls. P ls \<longrightarrow> life_sum ls = d) \<Longrightarrow> life_sum ls = int n * d" by blast
  have d: "dst' = take n src @ drop n dst"
    using n m(2,3) by (intro nth_equalityI) (auto simp: nth_append)
  show thesis
  proof (rule result[of src' ls])
    show "flecs_type_info_ctor_move_dtor ti dst src n = Inr (take n src @ drop n dst, src', ls)"
      using lf mv m(1) by (simp add: flecs_type_info_ctor_move_dtor_def d flip: eq)
    show "life_sum ls = 0" if c: "ti_counted ti"
    proof -
      have "life_sum ls = int n * 0"
        by (rule m(4)) (use counted_ctor_move_dtor[OF c] in \<open>auto simp: P_def\<close>)
      then show ?thesis by simp
    qed
  qed
qed

text \<open>Growing past the capacity: the elements are moved to a new array and the rest of it is constructed.\<close>

lemma set_count_reallocates:
  fixes ti :: "('v::zero) ecs_type_info"
  assumes ti: "ti_lawful ti" and mv: "th_ctor_move_dtor (ti_hooks ti) \<noteq> None" and wf: "vec_wf v"
    and live: "\<forall>i<vcount v. varray v ! i \<noteq> None" and bound: "n \<le> 2 ^ 30" and 4: "vcount v < n" "vsize v \<le> n"
  shows "\<exists>v' ls. ecs_vec_set_count_w_type_info v n ti = Inr (v', ls) \<and> vec_wf v'
    \<and> vec_elems v' = take n (vec_elems v) @ replicate (n - vcount v) (ti_default ti)
    \<and> (ti_counted ti \<longrightarrow> life_sum ls = int n - int (vcount v))"
proof -
  have w: "length (varray v) = vsize v" "vcount v \<le> vsize v" "vsize v \<le> 2 ^ 30" using wf by (simp_all add: vec_wf_def)
  have lv: "ti_live ti" "legal_flags (ti_hooks ti)" "th_ctor (ti_hooks ti) \<noteq> None"
    using ti mv by (auto simp: ti_lawful_def plain_hooks_def split: if_splits)
  obtain mf where mvf: "th_ctor_move_dtor (ti_hooks ti) = Some mf" using mv by blast
  define m where "m = nat (next_pow2 (int n))"
  have m: "n \<le> m" "m \<le> 2 ^ 30" using next_pow2_bounds[of "int n"] 4 bound by (auto simp: m_def)
  obtain src' l1 where c1: "flecs_type_info_ctor_move_dtor ti (flecs_vec_alloc m) (varray v) (vcount v)
      = Inr (take (vcount v) (varray v) @ drop (vcount v) (flecs_vec_alloc m), src', l1)"
    "ti_counted ti \<Longrightarrow> life_sum l1 = 0"
    by (rule move_run[OF ti, of "vcount v" "flecs_vec_alloc m" "varray v"])
      (use 4 m w live mv in \<open>auto simp: flecs_vec_alloc_def\<close>)
  define a where "a = take (vcount v) (varray v) @ drop (vcount v) (flecs_vec_alloc m :: 'v option list)"
  have la: "length a = m" using 4 m w by (simp add: a_def flecs_vec_alloc_def)
  then have "vcount v + (n - vcount v) \<le> length a" using 4 m by simp
  then obtain cells l3 where c: "flecs_type_info_ctor ti a (vcount v) (n - vcount v) = Inr (cells, True, l3)"
    "cells = take (vcount v) a @ replicate (n - vcount v) (ti_default ti) @ drop (vcount v + (n - vcount v)) a"
    "ti_counted ti \<Longrightarrow> life_sum l3 = int (n - vcount v)" by (rule ctor_run[OF lv]) blast
  have "ecs_vec_set_count_w_type_info v n ti = Inr (\<lparr>varray = cells, vcount = n, vsize = m\<rparr>, l1 @ l3)"
    using 4 mvf c(1) by (simp add: ecs_vec_set_count_w_type_info_def Let_def c1(1) flip: m_def a_def)
  moreover have "take (vcount v) a = take (vcount v) (varray v)" using w by (simp add: a_def)
  ultimately show ?thesis
    using 4 m w c1(2) c(3) la by (auto simp: c(2) vec_wf_def vec_elems_def)
qed

text \<open>
  Claim C26: for a type with lawful hooks of which ctor\_move\_dtor is set, setting the count of a
  vector up to 2\^30 succeeds, on every branch: no hook is called on memory that holds no object or outside of the
  array. The elements below both counts keep their values, the new ones are constructed to the
  default value of the type, and if the hooks count objects, the calls construct exactly as many more
  objects than they destruct as the count grows, or destruct as it shrinks: what is cut off or left behind in the old array
  is not leaked.
\<close>

theorem vec_set_count_hooks:
  fixes ti :: "('v::zero) ecs_type_info"
  assumes "ti_lawful ti" and "th_ctor_move_dtor (ti_hooks ti) \<noteq> None"
    and "vec_wf v" and "\<forall>i<vcount v. varray v ! i \<noteq> None" and "n \<le> 2 ^ 30"
  shows "\<exists>v' ls. ecs_vec_set_count_w_type_info v n ti = Inr (v', ls) \<and> vec_wf v'
    \<and> vec_elems v' = take n (vec_elems v) @ replicate (n - vcount v) (ti_default ti) \<and> ti_default ti \<noteq> None
    \<and> (ti_counted ti \<longrightarrow> life_sum ls = int n - int (vcount v))"
proof -
  note ti = assms(1) and mv = assms(2) and wf = assms(3) and live = assms(4)
  have w: "length (varray v) = vsize v" "vcount v \<le> vsize v" "vsize v \<le> 2 ^ 30" using wf by (simp_all add: vec_wf_def)
  have lv: "ti_live ti" "legal_flags (ti_hooks ti)" "th_ctor (ti_hooks ti) \<noteq> None"
    using ti mv by (auto simp: ti_lawful_def plain_hooks_def split: if_splits)
  obtain mf where mvf: "th_ctor_move_dtor (ti_hooks ti) = Some mf" using mv by blast
  have def: "ti_default ti \<noteq> None" using lv(1) by (simp add: ti_live_def)
  consider "n = vcount v" | "n < vsize v" "vcount v < n" | "n < vcount v" | "vcount v < n" "vsize v \<le> n"
    by linarith
  then show ?thesis
  proof cases
    case 1
    then show ?thesis using wf def w by (simp add: ecs_vec_set_count_w_type_info_def vec_elems_def)
  next
    case 2
    have "vcount v + (n - vcount v) \<le> length (varray v)" using 2 w by simp
    then obtain cells ls where c: "flecs_type_info_ctor ti (varray v) (vcount v) (n - vcount v) = Inr (cells, True, ls)"
      "cells = take (vcount v) (varray v) @ replicate (n - vcount v) (ti_default ti)
         @ drop (vcount v + (n - vcount v)) (varray v)"
      "ti_counted ti \<Longrightarrow> life_sum ls = int (n - vcount v)" by (rule ctor_run[OF lv]) blast
    then have "ecs_vec_set_count_w_type_info v n ti = Inr (v\<lparr>varray := cells, vcount := n\<rparr>, ls)"
      using 2 mvf by (simp add: ecs_vec_set_count_w_type_info_def)
    then show ?thesis using 2 w def c(3) by (auto simp: c(2) vec_wf_def vec_elems_def)
  next
    case 3
    obtain cells b ls where c: "flecs_type_info_dtor ti (varray v) n (vcount v - n) = Inr (cells, b, ls)"
      "length cells = length (varray v)"
      "\<forall>i<length (varray v). i < n \<or> n + (vcount v - n) \<le> i \<longrightarrow> cells ! i = varray v ! i"
      "ti_counted ti \<Longrightarrow> life_sum ls = - int (vcount v - n)"
      by (rule dtor_run[OF ti, of n "vcount v - n" "varray v"]) (use 3 w live in auto)
    then have "ecs_vec_set_count_w_type_info v n ti = Inr (v\<lparr>varray := cells, vcount := n\<rparr>, ls)"
      using 3 w mvf by (simp add: ecs_vec_set_count_w_type_info_def)
    moreover have "take n cells = take n (varray v)" using c(2,3) 3 w by (intro nth_equalityI) auto
    ultimately show ?thesis using 3 w def c(2,4) by (auto simp: vec_wf_def vec_elems_def min_def)
  next
    case 4
    then show ?thesis using set_count_reallocates[OF ti mv wf live assms(5)] def by blast
  qed
qed

definition counted_hooks :: "nat ecs_type_hooks" where
  "counted_hooks = no_hooks\<lparr>
     th_ctor := Some (Xtor_user (\<lambda>_. Inr (Some 7))), th_dtor := Some (Xtor_user (\<lambda>_. Inr None)),
     th_move := Some (Move_user (\<lambda>d s. Inr (s, Some 0))), th_move_ctor := Some (Move_user (\<lambda>d s. Inr (s, Some 0))),
     th_ctor_move_dtor := Some (Move_user (\<lambda>d s. Inr (s, None))),
     th_move_dtor := Some (Move_user (\<lambda>d s. Inr (s, None)))\<rparr>"

definition counted_type :: "nat ecs_type_info" where
  "counted_type = \<lparr>ti_size = 4, ti_hooks = counted_hooks, ti_component = 500\<rparr>"

lemma counted_type_lawful: "ti_lawful counted_type" "ti_counted counted_type" "ti_default counted_type = Some 7"
    "th_ctor_move_dtor (ti_hooks counted_type) \<noteq> None"
  by (simp_all add: ti_lawful_def legal_flags_def ti_live_def ti_default_def ti_counted_def type_info_defs
      hook_depth_Suc life_sum_def counted_type_def counted_hooks_def no_hooks_def)

theorem vec_set_count_hooks_witness:
  "\<exists>v' ls. ecs_vec_set_count_w_type_info \<lparr>varray = [Some 1, Some 2], vcount = 2, vsize = 2\<rparr> 3 counted_type
      = Inr (v', ls) \<and> vec_wf v' \<and> vec_elems v' = [Some 1, Some 2, Some 7] \<and> life_sum ls = 1"
  using vec_set_count_hooks[of counted_type "\<lparr>varray = [Some 1, Some 2], vcount = 2, vsize = 2\<rparr>" 3]
  by (auto simp: counted_type_lawful vec_wf_def vec_elems_def nth_Cons' less_2_cases_iff)

text \<open>
  Claim C30: the vector takes a type without a ctor\_move\_dtor hook for a trivial one. When a component
  is registered with a constructor but no move hook, registration succeeds and leaves that slot empty,
  and setting the count of a vector then calls no hook at all: new elements are not constructed and the ones
  that are cut off are not destructed.
\<close>

theorem vec_set_count_no_move_hook:
  fixes h :: "('v::zero) ecs_type_hooks"
  assumes "user_hooks h" and "plain_hooks (ti_hooks ti)" and "ti_component ti = component" and "ti_size ti \<noteq> 0"
    and "th_ctor h \<noteq> None" and "th_move h = None" "th_move_ctor h = None" "th_ctor_move_dtor h = None"
  shows "\<exists>ti'. ecs_set_hooks_id False None component ti h = Inr ti' \<and> ti_lawful ti'
    \<and> th_ctor (ti_hooks ti') = th_ctor h \<and> th_dtor (ti_hooks ti') = th_dtor h
    \<and> (\<forall>v n. ecs_vec_set_count_w_type_info v n ti' = Inr (ecs_vec_set_count v n, []))"
proof -
  obtain ti' where r: "ecs_set_hooks_id False None component ti h = Inr ti'" "derived_hooks h (ti_hooks ti')"
    by (rule set_hooks_eq[OF assms(1,2), of component None]) (use assms in auto)
  then have "th_ctor_move_dtor (ti_hooks ti') = None" "th_ctor (ti_hooks ti') = th_ctor h" "th_dtor (ti_hooks ti') = th_dtor h"
    using assms by (simp_all add: derived_hooks_def)
  then show ?thesis using r derived_lawful[OF assms(1) r(2)]
    by (intro exI[of _ ti']) (auto simp: ecs_vec_set_count_w_type_info_def ecs_vec_set_count_def)
qed

definition ctor_dtor_hooks :: "nat ecs_type_hooks" where
  "ctor_dtor_hooks = no_hooks\<lparr>th_ctor := Some (Xtor_user (\<lambda>_. Inr (Some 7))), th_dtor := Some (Xtor_user (\<lambda>_. Inr None))\<rparr>"

theorem vec_set_count_no_move_hook_witness:
  "\<exists>ti'. ecs_set_hooks_id False None 500 \<lparr>ti_size = 4, ti_hooks = no_hooks, ti_component = 500\<rparr> ctor_dtor_hooks = Inr ti'
    \<and> ti_lawful ti' \<and> th_ctor (ti_hooks ti') = th_ctor ctor_dtor_hooks \<and> th_dtor (ti_hooks ti') = th_dtor ctor_dtor_hooks
    \<and> (\<forall>v n. ecs_vec_set_count_w_type_info v n ti' = Inr (ecs_vec_set_count v n, []))"
  by (rule vec_set_count_no_move_hook)
    (auto simp: user_hooks_def user_xtor_def user_move_def ctor_dtor_hooks_def no_hooks_def xtor_ends_def xtor_makes_def plain_hooks_def)

end
