(* ===== verification/Spec2Isabelle.thy ===== *)
theory Spec2Isabelle
  imports Ecs_Id Ecs_Vec Ecs_Bitset Ecs_Map Ecs_Sparse Entity_Ranges Ecs_Hash Ecs_Hashmap Name_Index Json
    World_Claims Table_Create Kernel_Claims Vec_Hooks
begin

text \<open>
  The entity component system of PulseEngine.

  The engine keeps its game state in the flecs kernel, which it compiles from
  src/pulse\_app/flecs/src (C, headers in src/pulse\_app/flecs/include). An entity is a 64-bit id;
  the entity index keeps a record for every entity that says in which table and row its components
  are; a table stores the entities that have the same set of ids, one array per component. Adding
  a component moves an entity to another table, deleting an entity moves the last row of its table
  into the hole, and both run the lifecycle hooks of the components. The kernel builds this on its
  own containers. This development models the containers, the entity index, the storage and the
  graph of tables, and proves what each promises to the next. It follows the default debug build: assertions are
  enabled, FLECS\_SANITIZE is not.

  The theories, from the bottom up; paths are below src/pulse\_app/flecs/src.

  Ecs\_Prelude: machine integers as words of their width, the results of operations, checked array
  access, rounding up to powers of two. Every operation that can fail returns \<open>error + 'a\<close>: a failed
  ecs\_assert or ecs\_check is its error code, an access outside of an array or through a null
  pointer is MEMORY\_FAULT, a count that would become negative or leave int32\_t is INT\_RANGE, ECS\_UNSUPPORTED marks
  a path of the code that is not modelled. That an operation returns Inr therefore says that it
  stops at no assertion and touches no memory it should not. Null arrays are empty lists.

  Ecs\_Id (id.c, api\_defines.h, world.c): the layout of ids, pairs, generations, wildcard matching
  and validity, with bit-level lemmas.

  Ecs\_Vec (datastructures/vec.c): growable arrays. Capacities are correct up to 2^30 elements; one theorem
  shows what happens above. Vec\_Hooks (datastructures/vec.c, type\_info.c): setting the count of a vector whose
  elements have lifecycle hooks, on the hook functions with their checks for illegal hooks and their
  behaviour for hooks that are not set.

  Ecs\_Bitset (datastructures/bitset.c): bits packed into words; a refinement of lists of booleans.

  Ecs\_Map (datastructures/map.c): the hash map from 64-bit keys, chains and rehashing included; a
  refinement of finite maps below 2^26 entries, and iteration with removal.

  Ecs\_Dense, Ecs\_Sparse (datastructures/sparse.c): the pairing of a dense array of ids with slots,
  shared with the entity index, and the sparse set over it; a refinement of a set of cells.

  Entity\_Index, Entity\_Ranges (storage/entity\_index.c, world.c, entity.c): records, liveness,
  generations and recycling of ids, id ranges; a refinement of an abstract index, safety of stale
  handles, equivalence of single and bulk creation, binary search over ranges.

  Ecs\_Hash, Ecs\_Hashmap, Name\_Index (datastructures/hash.c, hashmap.c, name\_index.c): the string
  hash on bytes, the hash map for keys of any type with buckets as allocated objects, and the index
  from names to ids; both maps refine partial functions whatever collides.

  Ecs\_Strings, Json (misc.c, addons/json/json.c): escaping, numbers, snake case, the tokenizer and
  the string writer; round trips, memory safety, and termination on every text.

  Type\_Hooks (type\_info.c): calling lifecycle hooks, and the derivation of the missing ones when a
  component is registered. \<open>ti_lawful\<close> and \<open>ti_counted\<close> are the contract of a component with the
  storage: no hook is marked illegal, constructors make values, moves carry them over, and the objects that the
  hooks create and destroy can be counted. The theorems on the storage hold for components that keep the contract.
  Setting the bit that a type is in use is left out; whether it is set is a parameter of the registration.

  Table\_Storage (storage/table.c): tables with columns, toggle bits and dirty counters; append,
  delete and move of a row on every branch. Table\_Cells, Table\_Rows, Table\_Move: the invariant
  \<open>table_wf\<close> of a table and what each operation does to the columns and bits.

  World\_Storage (entity.c, world.c): entities in tables, creating, moving and deleting them, and
  the locks of components. World\_Rows, World\_Ops: the invariant \<open>world_wf\<close> that ties records to rows, the view of an
  entity (its ids, component values and toggles), and the effect of each operation on the views.
  World\_Claims: runs of operations, with the theorems on refinement, consistency and the balance of
  constructed and destructed objects.

  Table\_Type (storage/table\_graph.c): the sorted arrays of ids that are the types of tables, as keys of
  the table map and under adding and removing ids; a refinement of finite sets of ids.

  Table\_Init (storage/table.c, storage/component\_index.c): what makes a table out of a type: the
  component records of its ids, its flags, bit sets and columns, the maps between ids and columns, the
  bloom filter and the records that register the table with ids and wildcards. Table\_Records: these
  records are exactly the ones that the ids of the type call for, with the right counts, and there are no others.
  The types are those without value pairs and without pairs of EcsFlag, IsA and ChildOf (\<open>table_type\<close>). Table\_Create:
  the new table satisfies \<open>table_wf\<close>, and its maps and its filter answer as they should.

  Table\_Graph (storage/table\_graph.c, storage/component\_index.c, entity.c): the \<open>kernel\<close> is the world
  with its component index, the map from types to tables and the graph of tables. A table is found
  or created from its type; the edges of a table, in an array for ids below 256 and in a map for
  others, remember where adding or removing an id leads and which ids differ. On top of them are
  ecs\_add\_id, ecs\_remove\_id, ecs\_has\_id and ecs\_get\_id. Graph\_Edges: edges as a function of the
  id, and the differences they store. Kernel\_Wf: the invariant \<open>kernel_wf\<close>, by which no two tables have
  the same type, each is as its creation left it up to rows, and every edge leads to the table of the
  changed type. Kernel\_Graph, Kernel\_Edges: finding the table with or without an id, exclusive
  relationships included, creating an edge and following it. Kernel\_Ops: the operations on the
  views of entities. Kernel\_Claims: what they promise, adding and removing as a round trip included.

  The interfaces between them are locales, interpreted on the definitions of the code: \<open>dyn_array\<close>
  (Ecs\_Vec), \<open>u64_map\<close> (Ecs\_Map), \<open>id_allocator\<close> (sparse set and entity index) and \<open>hash_keys\<close>
  (Name\_Index and Table\_Type for the hash map).

  Bounds and fuel. Loops that are not structural have a termination proof, or fuel that the theorems
  show to be enough: copying, filtering and releasing maps visits an entry per step and has the
  number of entries plus one; skipping a JSON scope consumes a character per step and has the length
  of the text plus one; derived hooks call each other to a depth of three, the fuel of
  \<open>call_move\<close>. Counters that the code keeps in int32\_t are naturals. The sparse set, the bit sets and the
  conversion to snake case check the range where a counter or a capacity grows; vectors have at most 2^30 elements as a
  hypothesis or in their invariant; of the entity index a theorem shows that its counters stay within
  2^30 along every run of less than 2^30 operations. Tables have at most 2^28 rows, the bits that a record has for
  the row, and at most 2^30 - 1 ids are alive. The operations that use the table graph need less than 2^26 tables and
  edges of a table, the bound of the maps; \<open>kernel_size\<close> counts them, and an operation adds at most two.

  Not modelled. Creating and releasing component records and the lists of their table caches, the
  deletion of tables, writing component values, queries, observers, deferred commands,
  cleanup policies, sparse and inherited components, names and hierarchies of entities, and the
  addons above them. Calls of hooks, observers and callbacks are recorded as events in order and
  assumed not to change the storage. Memory allocation does not fail. Threads are not modelled:
  flecs requires that structural changes happen on one thread. The C++ modules of the engine and
  the vendored libraries are outside of the development.
\<close>

end
